(* ===== verification/Prelude.thy ===== *)
theory Prelude
  imports Main "HOL-Library.Word" "HOL-Library.Monad_Syntax" "HOL-Library.Multiset"
begin

unbundle bit_operations_syntax

text \<open>
  Shared vocabulary of the development: the machine integer types, the object store that stands
  for the C++ heap, and the generic lemmas on lists, options and words that the components use.

  A pointer is an address (\<open>addr\<close>), the null pointer is address 0. A store maps addresses to
  objects of one struct type and remembers the next unused address. \<open>alloc\<close> stands for
  \<^verbatim>\<open>aligned_alloc\<close>/\<^verbatim>\<open>new\<close> (it always succeeds and never reuses an address), \<open>dealloc\<close> for
  \<^verbatim>\<open>free\<close>. Reading or writing through a pointer to no object is \<open>None\<close>, so a use after free or a
  null dereference is a failed run of the model.
\<close>

section \<open>Types\<close>

type_synonym u8 = "8 word"
type_synonym u32 = "32 word"
type_synonym u64 = "64 word"
type_synonym addr = nat

abbreviation nullptr :: addr where
  "nullptr \<equiv> 0"

definition UINT64_MAX :: u64 where
  "UINT64_MAX = - 1"

named_theorems store_simps \<open>reads of the store after writes\<close>
named_theorems ret_simps \<open>retirement lists\<close>

section \<open>The object store\<close>

record 'n store =
  cells :: "addr \<Rightarrow> 'n option"
  brk :: addr

definition empty_store :: "'n store" where
  "empty_store = \<lparr>cells = (\<lambda>_. None), brk = 1\<rparr>"

definition alloc :: "'n \<Rightarrow> 'n store \<Rightarrow> addr \<times> 'n store" where
  "alloc n s = (brk s, s\<lparr>cells := (cells s)(brk s := Some n), brk := Suc (brk s)\<rparr>)"

definition put :: "addr \<Rightarrow> 'n \<Rightarrow> 'n store \<Rightarrow> 'n store option" where
  "put a n s = (case cells s a of None \<Rightarrow> None | Some _ \<Rightarrow> Some (s\<lparr>cells := (cells s)(a := Some n)\<rparr>))"

definition dealloc :: "addr \<Rightarrow> 'n store \<Rightarrow> 'n store option" where
  "dealloc a s = (case cells s a of None \<Rightarrow> None | Some _ \<Rightarrow> Some (s\<lparr>cells := (cells s)(a := None)\<rparr>))"

text \<open>A store is sound when nothing lives at null or at an address not handed out yet.\<close>

definition store_ok :: "'n store \<Rightarrow> bool" where
  "store_ok s \<longleftrightarrow> cells s nullptr = None \<and> 0 < brk s \<and> (\<forall>a \<ge> brk s. cells s a = None)"

lemma store_ok_empty [simp]: "store_ok empty_store"
  by (simp add: store_ok_def empty_store_def)

lemma alloc_eq [store_simps]:
  "alloc n s = (brk s, s\<lparr>cells := (cells s)(brk s := Some n), brk := Suc (brk s)\<rparr>)"
  by (rule alloc_def)

lemma put_Some [store_simps]:
  "cells s a = Some m \<Longrightarrow> put a n s = Some (s\<lparr>cells := (cells s)(a := Some n)\<rparr>)"
  by (simp add: put_def)

lemma dealloc_Some [store_simps]:
  "cells s a = Some m \<Longrightarrow> dealloc a s = Some (s\<lparr>cells := (cells s)(a := None)\<rparr>)"
  by (simp add: dealloc_def)

lemma put_eq_Some_iff:
  "put a n s = Some s' \<longleftrightarrow> cells s a \<noteq> None \<and> s' = s\<lparr>cells := (cells s)(a := Some n)\<rparr>"
  by (auto simp: put_def split: option.splits)

lemma store_ok_alloc:
  "store_ok s \<Longrightarrow> store_ok (s\<lparr>cells := (cells s)(brk s := Some n), brk := Suc (brk s)\<rparr>)"
  by (auto simp: store_ok_def)

lemma store_ok_upd:
  "store_ok s \<Longrightarrow> cells s a = Some m \<Longrightarrow> store_ok (s\<lparr>cells := (cells s)(a := x)\<rparr>)"
  by (cases x) (auto simp: store_ok_def intro!: gr0I)

lemma store_ok_less: "store_ok s \<Longrightarrow> cells s a = Some n \<Longrightarrow> a < brk s"
  by (metis leI option.distinct(1) store_ok_def)

lemma store_ok_not_null: "store_ok s \<Longrightarrow> cells s a = Some n \<Longrightarrow> a \<noteq> nullptr"
  by (metis option.distinct(1) store_ok_def)

lemma store_ok_brk_pos: "store_ok s \<Longrightarrow> brk s \<noteq> nullptr"
  by (simp add: store_ok_def)

section \<open>Options and lists\<close>

text \<open>Reading an array at an index: \<open>None\<close> outside it.\<close>

definition nth_opt :: "'a list \<Rightarrow> nat \<Rightarrow> 'a option" where
  "nth_opt xs i = (if i < length xs then Some (xs ! i) else None)"

lemma nth_opt_Some [simp]: "i < length xs \<Longrightarrow> nth_opt xs i = Some (xs ! i)"
  by (simp add: nth_opt_def)

lemma nth_opt_eq_Some: "nth_opt xs i = Some x \<longleftrightarrow> i < length xs \<and> xs ! i = x"
  by (simp add: nth_opt_def)

lemma bind_Some_iff: "Option.bind m f = Some y \<longleftrightarrow> (\<exists>x. m = Some x \<and> f x = Some y)"
  by (cases m) auto

text \<open>Properties of every result of an operation that can fail, decomposed along the program text.\<close>

named_theorems opt_intros \<open>results of operations in the option monad\<close>

definition opt_all :: "('a \<Rightarrow> bool) \<Rightarrow> 'a option \<Rightarrow> bool" where
  "opt_all P m \<longleftrightarrow> (\<forall>x. m = Some x \<longrightarrow> P x)"

lemma opt_all_Some [simp]: "opt_all P (Some x) \<longleftrightarrow> P x"
  by (simp add: opt_all_def)

lemma opt_all_None [simp, opt_intros]: "opt_all P None"
  by (simp add: opt_all_def)

lemma opt_all_SomeI [opt_intros]: "P x \<Longrightarrow> opt_all P (Some x)"
  by simp

lemma opt_allD: "opt_all P m \<Longrightarrow> m = Some x \<Longrightarrow> P x"
  by (simp add: opt_all_def)

lemma opt_all_bind [opt_intros]:
  "(\<And>x. m = Some x \<Longrightarrow> opt_all P (f x)) \<Longrightarrow> opt_all P (Option.bind m f)"
  by (cases m) simp_all

lemma opt_all_if [opt_intros]:
  "(b \<Longrightarrow> opt_all P x) \<Longrightarrow> (\<not> b \<Longrightarrow> opt_all P y) \<Longrightarrow> opt_all P (if b then x else y)"
  by simp

lemma opt_all_prod [opt_intros]:
  "(\<And>a b. p = (a, b) \<Longrightarrow> opt_all P (f a b)) \<Longrightarrow> opt_all P (case p of (a, b) \<Rightarrow> f a b)"
  by (cases p) simp

lemma opt_all_prod_arg [opt_intros]:
  "(\<And>a b. p = (a, b) \<Longrightarrow> opt_all P (f a b z)) \<Longrightarrow> opt_all P ((case p of (a, b) \<Rightarrow> f a b) z)"
  by (cases p) simp

lemma opt_all_option [opt_intros]:
  "(m = None \<Longrightarrow> opt_all P x) \<Longrightarrow> (\<And>y. m = Some y \<Longrightarrow> opt_all P (f y)) \<Longrightarrow>
     opt_all P (case m of None \<Rightarrow> x | Some y \<Rightarrow> f y)"
  by (cases m) simp_all

lemma opt_all_let [opt_intros]:
  "(\<And>x. x = a \<Longrightarrow> opt_all P (f x)) \<Longrightarrow> opt_all P (let x = a in f x)"
  by simp

lemma sorted_wrt_less_sorted: "sorted_wrt (<) xs \<Longrightarrow> sorted (xs :: 'a::linorder list)"
  by (simp add: strict_sorted_imp_sorted)

lemma distinct_concat_nth_disjoint:
  assumes "distinct (concat xss)" "i < length xss" "j < length xss" "i \<noteq> j"
  shows "set (xss ! i) \<inter> set (xss ! j) = {}"
  using assms
proof (induction xss arbitrary: i j)
  case Nil
  then show ?case by simp
next
  case (Cons xs xss)
  have "set xs \<inter> set (xss ! k) = {}" if "k < length xss" for k
    using Cons.prems(1) that by (auto dest: nth_mem)
  then show ?case
    using Cons by (cases i; cases j) auto
qed

section \<open>Words\<close>

lemma unat_ucast_32_64 [simp]: "unat (ucast (x :: u32) :: u64) = unat x"
  by (simp add: unsigned_ucast_eq take_bit_nat_eq_self order_less_le_trans [OF unsigned_less])

lemma ucast_32_64_le_iff [simp]: "(ucast (x :: u32) :: u64) \<le> ucast (y :: u32) \<longleftrightarrow> x \<le> y"
  by (simp add: word_le_nat_alt)

lemma ucast_32_64_less_iff [simp]: "(ucast (x :: u32) :: u64) < ucast (y :: u32) \<longleftrightarrow> x < y"
  by (simp add: word_less_nat_alt)

lemma ucast_32_64_eq_0 [simp]: "(ucast (x :: u32) :: u64) = 0 \<longleftrightarrow> x = 0"
  by (metis unat_eq_0 unat_ucast_32_64)

end
