(* ===== verification/Array_Ops.thy ===== *)
theory Array_Ops
  imports Prelude
begin

text \<open>
  The array helpers of \<^verbatim>\<open>lib/common/arrayops.hpp\<close>. An array is the list of its live elements. Each
  helper copies or moves a stated number of elements; an access outside the source or the
  destination, undefined behaviour in the C++, is \<open>None\<close>. \<open>array_insert\<close> works on the live prefix
  of an array of the given capacity and makes it one element longer.
\<close>

definition array_copy :: "'a list \<Rightarrow> 'a list \<Rightarrow> nat \<Rightarrow> 'a list option" where
  "array_copy dst src sz =
     (if sz \<le> length dst \<and> sz \<le> length src then Some (take sz src @ drop sz dst) else None)"

definition array_insert :: "nat \<Rightarrow> 'a list \<Rightarrow> nat \<Rightarrow> 'a \<Rightarrow> 'a list option" where
  "array_insert cap arr pos e =
     (if pos \<le> length arr \<and> length arr < cap then Some (take pos arr @ e # drop pos arr) else None)"

definition array_copy_insert :: "'a list \<Rightarrow> 'a list \<Rightarrow> nat \<Rightarrow> nat \<Rightarrow> 'a \<Rightarrow> 'a list option" where
  "array_copy_insert dst src sz pos e =
     (if pos \<le> sz \<and> sz \<le> length src \<and> sz < length dst
      then Some (take pos src @ e # take (sz - pos) (drop pos src) @ drop (Suc sz) dst) else None)"

definition array_copy_update :: "'a list \<Rightarrow> 'a list \<Rightarrow> nat \<Rightarrow> nat \<Rightarrow> 'a \<Rightarrow> 'a list option" where
  "array_copy_update dst src sz pos e =
     (if sz \<le> length dst \<and> sz \<le> length src \<and> pos < length dst
      then Some ((take sz src @ drop sz dst)[pos := e]) else None)"

definition array_copy_split ::
    "'a list \<Rightarrow> 'a list \<Rightarrow> 'a list \<Rightarrow> nat \<Rightarrow> nat \<Rightarrow> ('a list \<times> 'a list) option" where
  "array_copy_split dsth dstt src sz pos =
     (if pos \<le> sz \<and> sz \<le> length src \<and> pos \<le> length dsth \<and> sz - pos \<le> length dstt
      then Some (take pos src @ drop pos dsth, take (sz - pos) (drop pos src) @ drop (sz - pos) dstt)
      else None)"

section \<open>What the helpers compute on buffers of the right size\<close>

lemma array_copy_full [simp]:
  "length dst = sz \<Longrightarrow> sz \<le> length src \<Longrightarrow> array_copy dst src sz = Some (take sz src)"
  by (simp add: array_copy_def)

lemma array_insert_Some [simp]:
  "pos \<le> length arr \<Longrightarrow> length arr < cap \<Longrightarrow>
     array_insert cap arr pos e = Some (take pos arr @ e # drop pos arr)"
  by (simp add: array_insert_def)

lemma array_insert_full [simp]: "cap \<le> length arr \<Longrightarrow> array_insert cap arr pos e = None"
  by (simp add: array_insert_def)

lemma array_copy_insert_full [simp]:
  "length dst = Suc sz \<Longrightarrow> pos \<le> sz \<Longrightarrow> sz \<le> length src \<Longrightarrow>
     array_copy_insert dst src sz pos e = Some (take pos src @ e # take (sz - pos) (drop pos src))"
  by (simp add: array_copy_insert_def)

lemma array_insert_length:
  "array_insert cap arr pos e = Some arr' \<Longrightarrow> length arr' = Suc (length arr) \<and> length arr' \<le> cap"
  by (auto simp: array_insert_def split: if_splits)

lemma array_insert_set:
  "array_insert cap arr pos e = Some arr' \<Longrightarrow> set arr' = insert e (set arr)"
  by (auto simp: array_insert_def split: if_splits dest: in_set_takeD in_set_dropD)
     (metis UnE append_take_drop_id set_append)

lemma array_copy_split_whole:
  assumes "array_copy_split dsth dstt src sz pos = Some (h, t)"
    and "length dsth = pos" "length dstt = sz - pos" "length src = sz"
  shows "h @ t = src"
  using assms by (auto simp: array_copy_split_def split: if_splits)

end
