(* ===== verification/Leaf_Records.thy ===== *)
theory Leaf_Records
  imports Prelude "HOL-Library.Product_Lexorder"
begin

text \<open>
  The step that scans, materialisation and checkpoint rebuilds of the B+Tree and the BeTree share:
  collect \<open>{key, value, version}\<close> records of a leaf, sort them by key and then version, and keep of
  each run of equal keys the last one, the newest. The sort is \<^verbatim>\<open>std::sort\<close> with the comparator on
  \<open>(key, version)\<close>; a leaf never holds two records with the same key and version, so its result
  does not depend on how ties are ordered.
\<close>

record leaf_record =
  lr_key :: u64
  lr_value :: u64
  lr_version :: u64

abbreviation lr_ord :: "leaf_record \<Rightarrow> u64 \<times> u64" where
  "lr_ord r \<equiv> (lr_key r, lr_version r)"

definition sort_records :: "leaf_record list \<Rightarrow> leaf_record list" where
  "sort_records rs = sort_key lr_ord rs"

text \<open>The loop \<open>begin .. end\<close> over runs of equal keys, keeping \<open>records[end-1]\<close>.\<close>

fun newest_runs :: "leaf_record list \<Rightarrow> leaf_record list" where
  "newest_runs [] = []"
| "newest_runs [r] = [r]"
| "newest_runs (r # r' # rs) =
     (if lr_key r = lr_key r' then newest_runs (r' # rs) else r # newest_runs (r' # rs))"

text \<open>The value a record list holds for a key: the value of the last record with that key.\<close>

definition last_value :: "leaf_record list \<Rightarrow> u64 \<Rightarrow> u64 option" where
  "last_value rs k = map_option lr_value (List.find (\<lambda>r. lr_key r = k) (rev rs))"

definition record_map :: "leaf_record list \<Rightarrow> u64 \<Rightarrow> u64 option" where
  "record_map rs = map_of (map (\<lambda>r. (lr_key r, lr_value r)) rs)"

lemma find_append:
  "List.find P (xs @ ys) = (case List.find P xs of None \<Rightarrow> List.find P ys | Some x \<Rightarrow> Some x)"
  by (induction xs) auto

lemma find_filter: "List.find P xs = (case filter P xs of [] \<Rightarrow> None | x # _ \<Rightarrow> Some x)"
  by (induction xs) auto

lemma last_value_Nil [simp]: "last_value [] k = None"
  by (simp add: last_value_def)

lemma last_value_append [simp]:
  "last_value (xs @ ys) k = (case last_value ys k of None \<Rightarrow> last_value xs k | Some v \<Rightarrow> Some v)"
  by (auto simp: last_value_def find_append split: option.splits)

lemma last_value_Cons [simp]:
  "last_value (r # rs) k =
     (case last_value rs k of None \<Rightarrow> if lr_key r = k then Some (lr_value r) else None | Some v \<Rightarrow> Some v)"
  by (auto simp: last_value_def find_append split: option.splits)

lemma last_value_filter: "last_value (filter (\<lambda>r. lr_key r = k) rs) k = last_value rs k"
  by (simp add: last_value_def find_filter rev_filter)

lemma last_value_None_iff: "last_value rs k = None \<longleftrightarrow> k \<notin> lr_key ` set rs"
  by (induction rs) (auto split: option.splits)

lemma set_sort_records [simp]: "set (sort_records rs) = set rs"
  by (simp add: sort_records_def)

lemma length_sort_records [simp]: "length (sort_records rs) = length rs"
  by (simp add: sort_records_def)

lemma sorted_keys_sort_records: "sorted (map lr_key (sort_records rs))"
proof -
  have "sorted (map lr_ord (sort_records rs))"
    by (simp add: sort_records_def)
  then have "sorted (map fst (map lr_ord (sort_records rs)))"
    by (rule_tac sorted_map_mono) (auto simp: mono_on_def less_eq_prod_def)
  then show ?thesis
    by (simp add: comp_def)
qed

text \<open>
  Sorting by key and version does not change the newest value of a key when the records of each key
  are already in version order, as they are in a leaf: base record first, then the slots in ticket
  order.
\<close>

definition version_ordered :: "leaf_record list \<Rightarrow> bool" where
  "version_ordered rs \<longleftrightarrow> (\<forall>k. sorted (map lr_version (filter (\<lambda>r. lr_key r = k) rs)))"

lemma sort_records_filter:
  assumes "version_ordered rs"
  shows "filter (\<lambda>r. lr_key r = k) (sort_records rs) = filter (\<lambda>r. lr_key r = k) rs"
proof -
  let ?f = "filter (\<lambda>r. lr_key r = k)"
  have pair: "sorted (map (Pair k) vs)" if "sorted vs" for vs :: "u64 list"
    using that by (induction vs) auto
  have "map lr_ord (?f rs) = map (Pair k) (map lr_version (?f rs))"
    by (induction rs) auto
  moreover have "sorted (map (Pair k) (map lr_version (?f rs)))"
    using assms by (intro pair) (simp add: version_ordered_def)
  ultimately have "sorted (map lr_ord (?f rs))"
    by (simp only:)
  then have "sort_key lr_ord (?f rs) = ?f rs"
    by (rule sort_key_id_if_sorted)
  then show ?thesis
    by (simp add: sort_records_def filter_sort)
qed

lemma last_value_sort_records:
  "version_ordered rs \<Longrightarrow> last_value (sort_records rs) k = last_value rs k"
  by (metis last_value_filter sort_records_filter)

text \<open>Of a list sorted by key, \<open>newest_runs\<close> keeps exactly the newest record of every key.\<close>

lemma newest_runs_subset: "set (newest_runs rs) \<subseteq> set rs"
  by (induction rs rule: newest_runs.induct) auto

lemma newest_runs_keys: "lr_key ` set (newest_runs rs) = lr_key ` set rs"
  by (induction rs rule: newest_runs.induct) auto

lemma newest_runs_Nil_iff [simp]: "newest_runs rs = [] \<longleftrightarrow> rs = []"
  by (induction rs rule: newest_runs.induct) auto

lemma newest_runs_length: "length (newest_runs rs) \<le> length rs"
  by (induction rs rule: newest_runs.induct) auto

lemma newest_runs_strict:
  "sorted (map lr_key rs) \<Longrightarrow> sorted_wrt (<) (map lr_key (newest_runs rs))"
proof (induction rs rule: newest_runs.induct)
  case (3 r r' rs)
  show ?case
  proof (cases "lr_key r = lr_key r'")
    case True
    with 3 show ?thesis by simp
  next
    case False
    have lt: "lr_key r < y" if "y \<in> lr_key ` set (r' # rs)" for y
    proof -
      have "lr_key r < lr_key r'" and "lr_key r' \<le> y"
        using 3 False that by (auto simp: less_le)
      then show ?thesis by (rule less_le_trans)
    qed
    have "lr_key r < lr_key x" if "x \<in> set (newest_runs (r' # rs))" for x
      using that newest_runs_keys [of "r' # rs"] by (intro lt) blast
    with 3 False show ?thesis by simp
  qed
qed simp_all

lemma last_value_newest_runs:
  "sorted (map lr_key rs) \<Longrightarrow> last_value (newest_runs rs) k = last_value rs k"
proof (induction rs rule: newest_runs.induct)
  case (3 r r' rs)
  then show ?case
    by (auto split: option.splits simp: last_value_None_iff)
qed simp_all

lemma record_map_strict:
  "sorted_wrt (<) (map lr_key rs) \<Longrightarrow> record_map rs k = last_value rs k"
proof (induction rs)
  case (Cons r rs)
  have "last_value rs k = None" if "k = lr_key r"
    using Cons.prems that by (auto simp: last_value_None_iff)
  with Cons show ?case
    by (auto simp: record_map_def split: option.splits)
qed (simp add: record_map_def)

text \<open>The two steps together.\<close>

lemma newest_sort_map:
  assumes "version_ordered rs"
  shows "record_map (newest_runs (sort_records rs)) k = last_value rs k"
  using assms
  by (simp add: record_map_strict newest_runs_strict sorted_keys_sort_records
      last_value_newest_runs last_value_sort_records)

lemma newest_sort_strict: "sorted_wrt (<) (map lr_key (newest_runs (sort_records rs)))"
  by (simp add: newest_runs_strict sorted_keys_sort_records)

lemma newest_sort_keys: "lr_key ` set (newest_runs (sort_records rs)) = lr_key ` set rs"
  by (simp add: newest_runs_keys)

lemma newest_sort_length: "length (newest_runs (sort_records rs)) \<le> length rs"
  using newest_runs_length [of "sort_records rs"] by simp

end
