(* ===== verification/Delta_Block.thy ===== *)
theory Delta_Block
  imports Leaf_Records
begin

text \<open>
  The per-leaf version buffer of the fat B+Tree (\<^verbatim>\<open>delta_slot\<close>, \<^verbatim>\<open>delta_block\<close> and their helpers in
  \<^verbatim>\<open>lib/trees/btree/node.hpp\<close>; the BeTree declares the same structures). A block has a fixed capacity
  and is filled from the front: a slot whose version is 0 is unused, a slot whose version has
  the top bit set is reserved and its value is still owned by a worker. Slots are read by
  \<open>slot_visible\<close>, the test that \<^verbatim>\<open>find\<close>, \<^verbatim>\<open>scan\<close> and the rebuilds share.
\<close>

record delta_slot =
  ds_version :: u64
  ds_key :: u64
  ds_value :: u64

record delta_block =
  db_capacity :: nat
  db_count :: nat
  db_slots :: "delta_slot list"

definition DELTA_PENDING :: u64 where
  "DELTA_PENDING = push_bit 63 1"

definition supported_fat_slots :: "nat \<Rightarrow> bool" where
  "supported_fat_slots capacity \<longleftrightarrow> capacity = 2 \<or> capacity = 4 \<or> capacity = 8"

text \<open>\<^verbatim>\<open>sizeof(delta_block)\<close> is 8 and \<^verbatim>\<open>sizeof(delta_slot)\<close> is 24.\<close>

definition delta_block_size :: "nat \<Rightarrow> nat" where
  "delta_block_size capacity = 8 + capacity * 24"

definition empty_slot :: delta_slot where
  "empty_slot = \<lparr>ds_version = 0, ds_key = 0, ds_value = 0\<rparr>"

definition new_delta_block :: "nat \<Rightarrow> delta_block" where
  "new_delta_block capacity =
     \<lparr>db_capacity = capacity, db_count = 0, db_slots = replicate capacity empty_slot\<rparr>"

text \<open>The part of \<open>append_leaf_delta\<close> after the block has been found: \<open>None\<close> is the \<^verbatim>\<open>false\<close> return.\<close>

definition delta_append :: "nat \<Rightarrow> u64 \<Rightarrow> u64 \<Rightarrow> u64 \<Rightarrow> delta_block \<Rightarrow> delta_block option" where
  "delta_append capacity version key value b =
     (if db_capacity b \<noteq> capacity \<or> db_capacity b \<le> db_count b then None
      else Some (b\<lparr>db_slots := (db_slots b)[db_count b :=
                      \<lparr>ds_version = version, ds_key = key, ds_value = value\<rparr>],
                   db_count := Suc (db_count b)\<rparr>))"

text \<open>The same for \<open>reserve_leaf_delta\<close>: the slot's value is left as it was and its version marked.\<close>

definition delta_reserve :: "nat \<Rightarrow> u64 \<Rightarrow> u64 \<Rightarrow> delta_block \<Rightarrow> (nat \<times> delta_block) option" where
  "delta_reserve capacity version key b =
     (if db_capacity b \<noteq> capacity \<or> db_count b = capacity then None
      else Some (db_count b,
             b\<lparr>db_slots := (db_slots b)[db_count b :=
                  (db_slots b ! db_count b)\<lparr>ds_key := key, ds_version := DELTA_PENDING OR version\<rparr>],
               db_count := Suc (db_count b)\<rparr>))"

definition slot_visible :: "u64 \<Rightarrow> delta_slot \<Rightarrow> bool" where
  "slot_visible snapshot sl \<longleftrightarrow>
     ds_version sl \<noteq> 0 \<and> ds_version sl AND DELTA_PENDING = 0 \<and> ds_version sl \<le> snapshot"

definition slot_record :: "delta_slot \<Rightarrow> leaf_record" where
  "slot_record sl = \<lparr>lr_key = ds_key sl, lr_value = ds_value sl, lr_version = ds_version sl\<rparr>"

section \<open>Well-formed blocks\<close>

definition db_used :: "delta_block \<Rightarrow> delta_slot list" where
  "db_used b = take (db_count b) (db_slots b)"

text \<open>
  A block of the configured capacity whose used slots carry ticket versions, strictly increasing,
  above the version of the base leaf (\<open>lo\<close>) and up to the newest ticket (\<open>hi\<close>).
\<close>

definition delta_ok :: "nat \<Rightarrow> u32 \<Rightarrow> u32 \<Rightarrow> delta_block \<Rightarrow> bool" where
  "delta_ok slots lo hi b \<longleftrightarrow>
     supported_fat_slots slots \<and> db_capacity b = slots \<and> length (db_slots b) = slots \<and>
     db_count b \<le> slots \<and>
     (\<forall>sl \<in> set (db_used b). ucast lo < ds_version sl \<and> ds_version sl \<le> ucast hi) \<and>
     sorted_wrt (<) (map ds_version (db_used b)) \<and>
     (\<forall>sl \<in> set (drop (db_count b) (db_slots b)). ds_version sl = 0)"

lemma supported_le_8: "supported_fat_slots n \<Longrightarrow> 0 < n \<and> n \<le> 8"
  by (auto simp: supported_fat_slots_def)

lemma bit_DELTA_PENDING: "bit DELTA_PENDING n \<longleftrightarrow> n = 63"
proof -
  have "bit DELTA_PENDING n \<longleftrightarrow> 63 \<le> n \<and> possible_bit TYPE(u64) n \<and> bit (1 :: u64) (n - 63)"
    unfolding DELTA_PENDING_def by (rule bit_push_bit_iff)
  then show ?thesis
    by (auto simp: bit_1_iff possible_bit_word)
qed

lemma not_pending:
  assumes "v \<le> ucast (hi :: u32)"
  shows "v AND DELTA_PENDING = 0"
proof -
  have "unat v \<le> unat hi"
    using assms by (simp add: word_le_nat_alt)
  also have "unat hi < 2 ^ LENGTH(32)"
    by (rule unsigned_less)
  finally have lt: "unat v < 2 ^ 63"
    by simp
  have "\<not> bit (unat v) 63"
    using lt by (simp add: bit_iff_odd)
  then have "\<not> bit v 63"
    by (simp add: bit_unsigned_iff)
  then show ?thesis
    by (intro bit_word_eqI) (auto simp: bit_DELTA_PENDING bit_and_iff)
qed

lemma slot_visible_used:
  assumes "delta_ok slots lo hi b" and "sl \<in> set (db_used b)"
  shows "slot_visible u sl \<longleftrightarrow> ds_version sl \<le> u"
  using assms not_pending [of "ds_version sl" hi]
  by (auto simp: slot_visible_def delta_ok_def)

lemma filter_visible:
  assumes "delta_ok slots lo hi b"
  shows "filter (slot_visible u) (db_slots b) = filter (\<lambda>sl. ds_version sl \<le> u) (db_used b)"
proof -
  have "filter (slot_visible u) (db_slots b) =
      filter (slot_visible u) (db_used b) @ filter (slot_visible u) (drop (db_count b) (db_slots b))"
    by (metis append_take_drop_id db_used_def filter_append)
  also have "filter (slot_visible u) (drop (db_count b) (db_slots b)) = []"
    using assms by (auto simp: delta_ok_def slot_visible_def filter_empty_conv)
  also have "filter (slot_visible u) (db_used b) = filter (\<lambda>sl. ds_version sl \<le> u) (db_used b)"
    using slot_visible_used [OF assms] by (intro filter_cong) auto
  finally show ?thesis by simp
qed

lemma delta_ok_new: "supported_fat_slots slots \<Longrightarrow> delta_ok slots lo hi (new_delta_block slots)"
  by (simp add: delta_ok_def new_delta_block_def db_used_def empty_slot_def)

lemma delta_ok_mono: "delta_ok slots lo hi b \<Longrightarrow> hi \<le> hi' \<Longrightarrow> delta_ok slots lo hi' b"
  unfolding delta_ok_def by (meson order_trans ucast_32_64_le_iff)

text \<open>Appending a newer ticket keeps a block well formed and adds exactly one visible record.\<close>

lemma delta_append_used:
  assumes "delta_ok slots lo hi b" and "delta_append slots v k x b = Some b'"
  shows "db_used b' = db_used b @ [\<lparr>ds_version = v, ds_key = k, ds_value = x\<rparr>]"
  using assms
  by (auto simp: delta_append_def delta_ok_def db_used_def take_Suc_conv_app_nth split: if_splits)

lemma delta_append_ok:
  assumes ok: "delta_ok slots lo hi b" and app: "delta_append slots (ucast v) k x b = Some b'"
    and "hi < v" and "lo < v"
  shows "delta_ok slots lo v b'"
proof -
  let ?sl = "\<lparr>ds_version = ucast v, ds_key = k, ds_value = x\<rparr>"
  have used: "db_used b' = db_used b @ [?sl]"
    by (rule delta_append_used [OF ok app])
  have le: "ds_version sl \<le> ucast hi" if "sl \<in> set (db_used b)" for sl
    using ok that by (simp add: delta_ok_def)
  have lt: "ds_version sl < ucast v" if "sl \<in> set (db_used b)" for sl
    using le [OF that] \<open>hi < v\<close> by (meson le_less_trans ucast_32_64_less_iff)
  have rest: "set (drop (Suc (db_count b)) ((db_slots b)[db_count b := ?sl]))
      \<subseteq> set (drop (db_count b) (db_slots b))"
    by (simp add: set_drop_subset_set_drop)
  show ?thesis
    using ok app assms(4) used lt rest
    unfolding delta_ok_def delta_append_def
    by (auto simp: sorted_wrt_append less_imp_le split: if_splits)
qed

lemma delta_append_full_iff:
  "delta_ok slots lo hi b \<Longrightarrow> delta_append slots v k x b = None \<longleftrightarrow> db_count b = slots"
  by (auto simp: delta_append_def delta_ok_def)

end
