(* ===== verification/BT_Node.thy ===== *)
theory BT_Node
  imports Array_Ops Delta_Block
begin

text \<open>
  The B+Tree node of \<^verbatim>\<open>lib/trees/btree/node.hpp\<close> (prefix \<open>bt_\<close> for namespace \<^verbatim>\<open>btree\<close>). The arrays
  \<^verbatim>\<open>keys[2*B-1]\<close>, \<^verbatim>\<open>chs[2*B]\<close> and \<^verbatim>\<open>vals[2*B]\<close> are the lists of their live entries, so the field
  \<^verbatim>\<open>size\<close> is the length of \<open>bn_keys\<close>; the pointer that a leaf keeps in its last value cell is the
  field \<open>bn_delta\<close>. A node whose children have not been copied yet (the C++ leaves the array
  uninitialised until the next pipeline stage) has an empty \<open>bn_chs\<close>, so reading one of them fails.
\<close>

datatype bt_type = BT_INTERNAL | BT_LEAF

definition BT_B :: nat where
  "BT_B = 8"

definition BT_MAX_FAT_SLOTS :: nat where
  "BT_MAX_FAT_SLOTS = 8"

record bt_node =
  bn_ver :: u32
  bn_type :: bt_type
  bn_cow_ready :: bool
  bn_keys :: "u64 list"
  bn_chs :: "addr list"
  bn_vals :: "u64 list"
  bn_delta :: "delta_block option"

type_synonym bt_store = "bt_node store"

abbreviation bn_size :: "bt_node \<Rightarrow> nat" where
  "bn_size t \<equiv> length (bn_keys t)"

definition bt_publish_cow_ready :: "addr \<Rightarrow> bt_store \<Rightarrow> bt_store option" where
  "bt_publish_cow_ready a s = do { t \<leftarrow> cells s a; put a (t\<lparr>bn_cow_ready := True\<rparr>) s }"

definition bt_is_cow_ready :: "bt_node \<Rightarrow> bool" where
  "bt_is_cow_ready t = bn_cow_ready t"

definition bt_new_node :: "u32 \<Rightarrow> bt_type \<Rightarrow> nat \<Rightarrow> bt_node" where
  "bt_new_node ver type sz =
     \<lparr>bn_ver = ver, bn_type = type, bn_cow_ready = False, bn_keys = replicate sz 0,
      bn_chs = [], bn_vals = [], bn_delta = None\<rparr>"

definition bt_new_leaf :: "u32 \<Rightarrow> nat \<Rightarrow> bt_node" where
  "bt_new_leaf ver sz = (bt_new_node ver BT_LEAF sz)\<lparr>bn_vals := replicate sz 0\<rparr>"

definition bt_new_internal :: "u32 \<Rightarrow> nat \<Rightarrow> bt_node" where
  "bt_new_internal ver sz = bt_new_node ver BT_INTERNAL sz"

definition bt_new_root :: "u32 \<Rightarrow> u64 \<Rightarrow> addr \<Rightarrow> addr \<Rightarrow> bt_node" where
  "bt_new_root ver key ch0 ch1 = (bt_new_internal ver 1)\<lparr>bn_keys := [key], bn_chs := [ch0, ch1]\<rparr>"

text \<open>\<open>copy_leaf\<close> copies the whole node but not the ownership of its version buffer.\<close>

definition bt_copy_leaf :: "u32 \<Rightarrow> bt_node \<Rightarrow> bt_node" where
  "bt_copy_leaf ver t = t\<lparr>bn_ver := ver, bn_delta := None\<rparr>"

definition bt_copy_internal :: "u32 \<Rightarrow> bt_node \<Rightarrow> bt_node" where
  "bt_copy_internal ver t = (bt_new_internal ver (bn_size t))\<lparr>bn_keys := bn_keys t\<rparr>"

section \<open>Version buffers of leaves\<close>

definition bt_leaf_delta :: "bt_node \<Rightarrow> delta_block option" where
  "bt_leaf_delta t = (if bn_type t \<noteq> BT_LEAF then None else bn_delta t)"

definition bt_publish_leaf_delta :: "delta_block \<Rightarrow> bt_node \<Rightarrow> bt_node" where
  "bt_publish_leaf_delta b t = t\<lparr>bn_delta := Some b\<rparr>"

definition bt_leaf_delta_capacity :: "bt_node \<Rightarrow> nat" where
  "bt_leaf_delta_capacity t = (case bt_leaf_delta t of None \<Rightarrow> 0 | Some b \<Rightarrow> db_capacity b)"

definition bt_leaf_delta_count :: "bt_node \<Rightarrow> nat" where
  "bt_leaf_delta_count t =
     (case bt_leaf_delta t of None \<Rightarrow> 0
      | Some b \<Rightarrow> length (filter (\<lambda>sl. ds_version sl \<noteq> 0) (take (db_capacity b) (db_slots b))))"

text \<open>
  \<open>append_leaf_delta\<close> and \<open>reserve_leaf_delta\<close> on the leaf at an address: a missing block is created
  and published first, also when the append then fails. Calling them on an internal node would
  overwrite its last child pointer; the model fails there.
\<close>

definition bt_append_leaf_delta ::
    "addr \<Rightarrow> nat \<Rightarrow> u64 \<Rightarrow> u64 \<Rightarrow> u64 \<Rightarrow> bt_store \<Rightarrow> (bool \<times> bt_store) option" where
  "bt_append_leaf_delta a capacity version key value s =
     (if \<not> supported_fat_slots capacity then Some (False, s)
      else do {
        t \<leftarrow> cells s a;
        if bn_type t \<noteq> BT_LEAF then None
        else let b = (case bt_leaf_delta t of None \<Rightarrow> new_delta_block capacity | Some b \<Rightarrow> b)
             in case delta_append capacity version key value b of
                  None \<Rightarrow> do { s' \<leftarrow> put a (bt_publish_leaf_delta b t) s; Some (False, s') }
                | Some b' \<Rightarrow> do { s' \<leftarrow> put a (bt_publish_leaf_delta b' t) s; Some (True, s') } })"

definition bt_reserve_leaf_delta ::
    "addr \<Rightarrow> nat \<Rightarrow> u64 \<Rightarrow> u64 \<Rightarrow> bt_store \<Rightarrow> (nat option \<times> bt_store) option" where
  "bt_reserve_leaf_delta a capacity version key s =
     (if \<not> supported_fat_slots capacity then Some (None, s)
      else do {
        t \<leftarrow> cells s a;
        if bn_type t \<noteq> BT_LEAF then None
        else let b = (case bt_leaf_delta t of None \<Rightarrow> new_delta_block capacity | Some b \<Rightarrow> b)
             in case delta_reserve capacity version key b of
                  None \<Rightarrow> do { s' \<leftarrow> put a (bt_publish_leaf_delta b t) s; Some (None, s') }
                | Some (i, b') \<Rightarrow> do { s' \<leftarrow> put a (bt_publish_leaf_delta b' t) s; Some (Some i, s') } })"

text \<open>\<^verbatim>\<open>sizeof(node)\<close> is 256 (a \<^verbatim>\<open>static_assert\<close> of the source).\<close>

definition bt_node_size :: "bt_node \<Rightarrow> nat" where
  "bt_node_size t =
     256 + (case bt_leaf_delta t of None \<Rightarrow> 0 | Some b \<Rightarrow> delta_block_size (db_capacity b))"

definition bt_free_node :: "addr \<Rightarrow> bt_store \<Rightarrow> bt_store option" where
  "bt_free_node a s = dealloc a s"

section \<open>Splitting, copying children, searching\<close>

text \<open>\<open>split\<close> needs the full key array; the halves have no children until the next stage.\<close>

definition bt_split :: "u32 \<Rightarrow> bt_node \<Rightarrow> (u64 \<times> bt_node \<times> bt_node) option" where
  "bt_split ver t = do {
     l \<leftarrow> array_copy (bn_keys (bt_new_internal ver (BT_B - 1))) (bn_keys t) (BT_B - 1);
     r \<leftarrow> array_copy (bn_keys (bt_new_internal ver (BT_B - 1))) (drop BT_B (bn_keys t)) (BT_B - 1);
     k \<leftarrow> nth_opt (bn_keys t) (BT_B - 1);
     Some (k, (bt_new_internal ver (BT_B - 1))\<lparr>bn_keys := l\<rparr>,
              (bt_new_internal ver (BT_B - 1))\<lparr>bn_keys := r\<rparr>) }"

definition bt_copych :: "addr \<Rightarrow> addr \<Rightarrow> bt_store \<Rightarrow> bt_store option" where
  "bt_copych t_new t_old s = do {
     n \<leftarrow> cells s t_new;
     m \<leftarrow> cells s t_old;
     put t_new (n\<lparr>bn_chs := bn_chs m\<rparr>) s }"

text \<open>\<open>copych_split\<close> takes the address of two adjacent child cells: the two new halves.\<close>

definition bt_copych_split :: "addr \<Rightarrow> addr \<Rightarrow> addr \<Rightarrow> bt_store \<Rightarrow> bt_store option" where
  "bt_copych_split t0 t1 t_old s = do {
     m \<leftarrow> cells s t_old;
     n0 \<leftarrow> cells s t0;
     s' \<leftarrow> put t0 (n0\<lparr>bn_chs := take BT_B (bn_chs m)\<rparr>) s;
     n1 \<leftarrow> cells s' t1;
     put t1 (n1\<lparr>bn_chs := take BT_B (drop BT_B (bn_chs m))\<rparr>) s' }"

fun findch :: "u64 list \<Rightarrow> u64 \<Rightarrow> nat" where
  "findch [] key = 0"
| "findch (k # ks) key = (if k > key then 0 else Suc (findch ks key))"

fun findval :: "u64 list \<Rightarrow> u64 \<Rightarrow> nat" where
  "findval [] key = 0"
| "findval (k # ks) key = (if k < key then Suc (findval ks key) else 0)"

definition bt_findch :: "bt_node \<Rightarrow> u64 \<Rightarrow> nat" where
  "bt_findch t key = findch (bn_keys t) key"

definition bt_findval :: "bt_node \<Rightarrow> u64 \<Rightarrow> nat" where
  "bt_findval t key = findval (bn_keys t) key"

text \<open>
  \<open>insert_child\<close> puts a separator and the two halves in the place of child \<open>pos\<close>: the key array has
  room for \<open>2*B-1\<close> keys and the child array for \<open>2*B\<close> pointers.
\<close>

definition bt_insert_child :: "bt_node \<Rightarrow> u64 \<Rightarrow> addr \<Rightarrow> addr \<Rightarrow> nat \<Rightarrow> bt_node option" where
  "bt_insert_child t key t_l t_r pos = do {
     ks \<leftarrow> array_insert (2 * BT_B - 1) (bn_keys t) pos key;
     if pos < length (bn_chs t) then do {
       cs \<leftarrow> array_insert (2 * BT_B) ((bn_chs t)[pos := t_l]) (pos + 1) t_r;
       Some (t\<lparr>bn_keys := ks, bn_chs := cs\<rparr>) }
     else None }"

text \<open>The loop \<^verbatim>\<open>while (t->type != LEAF) t = t->chs[findch(t, key)]\<close> of every lookup.\<close>

partial_function (option) bt_descend :: "bt_store \<Rightarrow> addr \<Rightarrow> u64 \<Rightarrow> addr option" where
  "bt_descend s a key =
     (case cells s a of
        None \<Rightarrow> None
      | Some t \<Rightarrow>
          if bn_type t = BT_LEAF then Some a
          else if bt_findch t key < length (bn_chs t)
               then bt_descend s (bn_chs t ! bt_findch t key) key
               else None)"

declare bt_descend.simps [code]

section \<open>Facts about the searches\<close>

lemma findch_le [simp]: "findch ks key \<le> length ks"
  by (induction ks) auto

lemma findval_le [simp]: "findval ks key \<le> length ks"
  by (induction ks) auto

lemma findch_nth_le: "i < findch ks key \<Longrightarrow> ks ! i \<le> key"
  by (induction ks arbitrary: i) (auto simp: nth_Cons' not_less split: if_splits)

lemma findch_nth_gt: "findch ks key < length ks \<Longrightarrow> key < ks ! findch ks key"
  by (induction ks) auto

lemma findch_append:
  "findch (xs @ ys) key =
     (if \<forall>x \<in> set xs. x \<le> key then length xs + findch ys key else findch xs key)"
  by (induction xs) (auto simp: not_less)

lemma findch_all_le: "(\<forall>x \<in> set ks. x \<le> key) \<Longrightarrow> findch ks key = length ks"
  by (induction ks) (auto simp: not_less)

lemma findch_eqI:
  assumes "sorted ks" "i \<le> length ks" "\<forall>j < i. ks ! j \<le> key" "i < length ks \<Longrightarrow> key < ks ! i"
  shows "findch ks key = i"
proof -
  have "\<not> findch ks key < i"
    using findch_nth_gt [of ks key] assms(2,3) by (meson leD less_le_trans)
  moreover have "\<not> i < findch ks key"
    using findch_nth_le [of i ks key] assms(4) findch_le [of ks key]
    by (metis leD less_le_trans)
  ultimately show ?thesis by simp
qed

lemma findval_nth_less: "i < findval ks key \<Longrightarrow> ks ! i < key"
  by (induction ks arbitrary: i) (auto simp: nth_Cons' split: if_splits)

lemma findval_nth_ge: "findval ks key < length ks \<Longrightarrow> key \<le> ks ! findval ks key"
  by (induction ks) (auto simp: not_less)

text \<open>In a strictly sorted key array \<open>findval\<close> points at the key exactly when it is present.\<close>

lemma findval_hit:
  assumes "sorted_wrt (<) ks"
  shows "findval ks key < length ks \<and> ks ! findval ks key = key \<longleftrightarrow> key \<in> set ks"
  using assms
proof (induction ks)
  case (Cons k ks)
  then show ?case by auto
qed simp

lemma take_findval_less: "x \<in> set (take (findval ks key) ks) \<Longrightarrow> x < key"
  by (induction ks) (auto split: if_splits)

lemma drop_findval_ge:
  "sorted ks \<Longrightarrow> x \<in> set (drop (findval ks key) ks) \<Longrightarrow> key \<le> x"
  by (induction ks) (auto simp: not_less split: if_splits)

end
