(* ===== verification/BT_Query.thy ===== *)
theory BT_Query
  imports BT_Node
begin

text \<open>
  Lookups and range scans of the B+Tree (\<^verbatim>\<open>lib/trees/btree/query.hpp\<close>): \<open>find\<close>, and \<open>scan\<close> with its
  helpers, at a snapshot version. The recursive scans take fuel (the tree height is enough,
  theory \<open>BT_Tree\<close>); the result vector \<^verbatim>\<open>ret\<close> is passed along and returned.
\<close>

section \<open>Point lookup\<close>

definition find_slot_step ::
    "u64 \<Rightarrow> u64 \<Rightarrow> u64 option \<times> u64 \<Rightarrow> delta_slot \<Rightarrow> u64 option \<times> u64" where
  "find_slot_step key snapshot acc sl =
     (if slot_visible snapshot sl \<and> snd acc \<le> ds_version sl \<and> ds_key sl = key
      then (Some (ds_value sl), ds_version sl) else acc)"

definition bt_find_leaf :: "bt_node \<Rightarrow> u64 \<Rightarrow> u64 \<Rightarrow> u64 option" where
  "bt_find_leaf t key snapshot =
     (let i = bt_findval t key;
          base = (if i < bn_size t \<and> bn_keys t ! i = key
                  then (Some (bn_vals t ! i), ucast (bn_ver t)) else (None, 0))
      in case bt_leaf_delta t of
           None \<Rightarrow> fst base
         | Some b \<Rightarrow> fst (foldl (find_slot_step key snapshot) base (take (db_capacity b) (db_slots b))))"

definition bt_find :: "bt_store \<Rightarrow> addr \<Rightarrow> u64 \<Rightarrow> u64 \<Rightarrow> u64 option option" where
  "bt_find s t key snapshot =
     (if t = nullptr then Some None
      else do {
        l \<leftarrow> bt_descend s t key;
        n \<leftarrow> cells s l;
        Some (bt_find_leaf n key snapshot) })"

definition bt_find_latest :: "bt_store \<Rightarrow> addr \<Rightarrow> u64 \<Rightarrow> u64 option option" where
  "bt_find_latest s t key = bt_find s t key UINT64_MAX"

section \<open>Range scan\<close>

definition base_records :: "u32 \<Rightarrow> u64 list \<Rightarrow> u64 list \<Rightarrow> leaf_record list" where
  "base_records ver ks vs =
     map (\<lambda>(k, v). \<lparr>lr_key = k, lr_value = v, lr_version = ucast ver\<rparr>) (zip ks vs)"

definition visible_records :: "u64 \<Rightarrow> delta_block option \<Rightarrow> leaf_record list" where
  "visible_records snapshot d =
     (case d of None \<Rightarrow> []
      | Some b \<Rightarrow> map slot_record (filter (slot_visible snapshot) (take (db_capacity b) (db_slots b))))"

text \<open>The output loop of a leaf scan: stop when \<open>n\<close> entries have been produced.\<close>

fun scan_emit :: "u64 \<Rightarrow> bool \<Rightarrow> nat \<Rightarrow> leaf_record list \<Rightarrow> (u64 \<times> u64) list \<Rightarrow> (u64 \<times> u64) list" where
  "scan_emit lower use_lower n [] ret = ret"
| "scan_emit lower use_lower n (r # rs) ret =
     (if length ret < n
      then scan_emit lower use_lower n rs
             (if \<not> use_lower \<or> lower \<le> lr_key r then ret @ [(lr_key r, lr_value r)] else ret)
      else ret)"

definition bt_scan_visible_leaf ::
    "bt_node \<Rightarrow> u64 \<Rightarrow> bool \<Rightarrow> nat \<Rightarrow> u64 \<Rightarrow> (u64 \<times> u64) list \<Rightarrow> (u64 \<times> u64) list" where
  "bt_scan_visible_leaf t lower use_lower n snapshot ret =
     (let records = base_records (bn_ver t) (bn_keys t) (bn_vals t)
                    @ visible_records snapshot (bt_leaf_delta t)
      in scan_emit lower use_lower n (newest_runs (sort_records records)) ret)"

fun bt_scan_visible_append ::
    "nat \<Rightarrow> bt_store \<Rightarrow> addr \<Rightarrow> nat \<Rightarrow> u64 \<Rightarrow> (u64 \<times> u64) list \<Rightarrow> (u64 \<times> u64) list option"
  and bt_scan_visible_children ::
    "nat \<Rightarrow> bt_store \<Rightarrow> addr list \<Rightarrow> nat \<Rightarrow> u64 \<Rightarrow> (u64 \<times> u64) list \<Rightarrow> (u64 \<times> u64) list option" where
  "bt_scan_visible_append 0 s a n snapshot ret = None"
| "bt_scan_visible_append (Suc f) s a n snapshot ret =
     (case cells s a of
        None \<Rightarrow> None
      | Some t \<Rightarrow>
          if bn_type t = BT_LEAF then Some (bt_scan_visible_leaf t 0 False n snapshot ret)
          else bt_scan_visible_children f s (bn_chs t) n snapshot ret)"
| "bt_scan_visible_children f s [] n snapshot ret = Some ret"
| "bt_scan_visible_children f s (a # as) n snapshot ret =
     (if length ret < n
      then (case bt_scan_visible_append f s a n snapshot ret of
              None \<Rightarrow> None
            | Some ret' \<Rightarrow> bt_scan_visible_children f s as n snapshot ret')
      else Some ret)"

fun bt_scan_visible_search ::
    "nat \<Rightarrow> bt_store \<Rightarrow> addr \<Rightarrow> u64 \<Rightarrow> nat \<Rightarrow> u64 \<Rightarrow> (u64 \<times> u64) list \<Rightarrow> (u64 \<times> u64) list option" where
  "bt_scan_visible_search 0 s a key n snapshot ret = None"
| "bt_scan_visible_search (Suc f) s a key n snapshot ret =
     (case cells s a of
        None \<Rightarrow> None
      | Some t \<Rightarrow>
          if bn_type t = BT_LEAF then Some (bt_scan_visible_leaf t key True n snapshot ret)
          else (case nth_opt (bn_chs t) (bt_findch t key) of
                  None \<Rightarrow> None
                | Some c \<Rightarrow>
                    (case bt_scan_visible_search f s c key n snapshot ret of
                       None \<Rightarrow> None
                     | Some ret' \<Rightarrow>
                         bt_scan_visible_children f s (drop (bt_findch t key + 1) (bn_chs t))
                           n snapshot ret')))"

definition bt_scan ::
    "nat \<Rightarrow> bt_store \<Rightarrow> addr \<Rightarrow> u64 \<Rightarrow> nat \<Rightarrow> u64 \<Rightarrow> (u64 \<times> u64) list option" where
  "bt_scan fuel s t key n snapshot =
     (if t \<noteq> nullptr \<and> n \<noteq> 0 then bt_scan_visible_search fuel s t key n snapshot [] else Some [])"

section \<open>What a leaf holds at a snapshot\<close>

definition leaf_records :: "bt_node \<Rightarrow> u64 \<Rightarrow> leaf_record list" where
  "leaf_records t snapshot =
     base_records (bn_ver t) (bn_keys t) (bn_vals t) @ visible_records snapshot (bt_leaf_delta t)"

definition leaf_entries :: "bt_node \<Rightarrow> u64 \<Rightarrow> (u64 \<times> u64) list" where
  "leaf_entries t snapshot =
     map (\<lambda>r. (lr_key r, lr_value r)) (newest_runs (sort_records (leaf_records t snapshot)))"

definition leaf_ok :: "nat \<Rightarrow> u32 \<Rightarrow> bt_node \<Rightarrow> bool" where
  "leaf_ok slots hi t \<longleftrightarrow>
     bn_type t = BT_LEAF \<and> sorted_wrt (<) (bn_keys t) \<and> length (bn_vals t) = bn_size t \<and>
     bn_size t \<le> 2 * BT_B - 1 \<and> bn_ver t \<le> hi \<and>
     (case bn_delta t of None \<Rightarrow> True | Some b \<Rightarrow> delta_ok slots (bn_ver t) hi b)"

text \<open>The keys of a leaf that a snapshot up to version \<open>w\<close> can see.\<close>

definition leaf_keyset :: "u64 \<Rightarrow> bt_node \<Rightarrow> u64 set" where
  "leaf_keyset w t = set (bn_keys t) \<union>
     (case bn_delta t of None \<Rightarrow> {}
      | Some b \<Rightarrow> ds_key ` set (filter (\<lambda>sl. ds_version sl \<le> w) (db_used b)))"

lemma leaf_ok_leaf_delta: "leaf_ok slots hi t \<Longrightarrow> bt_leaf_delta t = bn_delta t"
  by (simp add: leaf_ok_def bt_leaf_delta_def)

lemma leaf_ok_delta_ok:
  "leaf_ok slots hi t \<Longrightarrow> bn_delta t = Some b \<Longrightarrow> delta_ok slots (bn_ver t) hi b"
  by (simp add: leaf_ok_def)

lemma leaf_ok_mono: "leaf_ok slots hi t \<Longrightarrow> hi \<le> hi' \<Longrightarrow> leaf_ok slots hi' t"
  by (auto simp: leaf_ok_def delta_ok_mono split: option.splits)

lemma visible_records_used:
  "delta_ok slots lo hi b \<Longrightarrow>
     visible_records u (Some b) = map slot_record (filter (\<lambda>sl. ds_version sl \<le> u) (db_used b))"
  using filter_visible [of slots lo hi b u]
  by (simp add: visible_records_def delta_ok_def)

lemma base_records_keys [simp]:
  "length vs = length ks \<Longrightarrow> map lr_key (base_records v ks vs) = ks"
  by (induction ks vs rule: list_induct2') (auto simp: base_records_def)

lemma base_records_versions: "r \<in> set (base_records v ks vs) \<Longrightarrow> lr_version r = ucast v"
  by (auto simp: base_records_def)

lemma base_records_length [simp]: "length (base_records v ks vs) = min (length ks) (length vs)"
  by (simp add: base_records_def)

lemma slot_record_simps [simp]:
  "lr_key (slot_record sl) = ds_key sl" "lr_value (slot_record sl) = ds_value sl"
  "lr_version (slot_record sl) = ds_version sl"
  by (simp_all add: slot_record_def)

text \<open>The records of a leaf are in version order within every key.\<close>

lemma sorted_filter_map: "sorted (map f xs) \<Longrightarrow> sorted (map f (filter P xs))"
  by (induction xs) auto

lemma version_ordered_sorted: "sorted (map lr_version xs) \<Longrightarrow> version_ordered xs"
  by (simp add: version_ordered_def sorted_filter_map)

lemma version_ordered_append:
  assumes "\<forall>x \<in> set xs. \<forall>y \<in> set ys. lr_version x \<le> lr_version y"
    and "sorted (map lr_version xs)" and "sorted (map lr_version ys)"
  shows "version_ordered (xs @ ys)"
  using assms by (auto simp: version_ordered_def sorted_append sorted_filter_map)

lemma base_records_sorted: "sorted (map lr_version (base_records v ks vs))"
proof -
  have "map lr_version (base_records v ks vs) = replicate (min (length ks) (length vs)) (ucast v)"
    by (rule replicate_eqI) (auto simp: base_records_versions)
  then show ?thesis by simp
qed

lemma used_versions_sorted: "delta_ok slots lo hi b \<Longrightarrow> sorted (map ds_version (db_used b))"
  by (simp add: delta_ok_def sorted_wrt_less_sorted)

lemma visible_records_None [simp]: "visible_records u None = []"
  by (simp add: visible_records_def)

lemma leaf_records_None:
  "leaf_ok slots hi t \<Longrightarrow> bn_delta t = None \<Longrightarrow>
     leaf_records t u = base_records (bn_ver t) (bn_keys t) (bn_vals t)"
  by (simp only: leaf_records_def leaf_ok_leaf_delta visible_records_None append_Nil2)

lemma leaf_records_version_ordered:
  assumes "leaf_ok slots hi t"
  shows "version_ordered (leaf_records t u)"
proof (cases "bn_delta t")
  case None
  then have "leaf_records t u = base_records (bn_ver t) (bn_keys t) (bn_vals t)"
    by (rule leaf_records_None [OF assms])
  then show ?thesis
    by (simp only: version_ordered_sorted [OF base_records_sorted])
next
  case (Some b)
  then have ok: "delta_ok slots (bn_ver t) hi b"
    using assms by (rule_tac leaf_ok_delta_ok)
  have "visible_records u (bt_leaf_delta t) = map slot_record (filter (\<lambda>sl. ds_version sl \<le> u) (db_used b))"
    using assms Some ok by (simp add: leaf_ok_leaf_delta visible_records_used)
  moreover have "sorted (map ds_version (filter (\<lambda>sl. ds_version sl \<le> u) (db_used b)))"
    using used_versions_sorted [OF ok] by (rule sorted_filter_map)
  moreover have "ucast (bn_ver t) \<le> ds_version sl" if "sl \<in> set (db_used b)" for sl
    using ok that by (auto simp: delta_ok_def less_imp_le)
  ultimately show ?thesis
    unfolding leaf_records_def
    by (intro version_ordered_append base_records_sorted)
       (auto simp: comp_def dest!: base_records_versions)
qed

lemma leaf_entries_strict: "sorted_wrt (<) (map fst (leaf_entries t u))"
  using newest_sort_strict by (simp add: leaf_entries_def comp_def)

lemma leaf_entries_map:
  "leaf_ok slots hi t \<Longrightarrow> map_of (leaf_entries t u) k = last_value (leaf_records t u) k"
  using newest_sort_map [OF leaf_records_version_ordered]
  by (simp add: leaf_entries_def record_map_def)

lemma leaf_entries_keyset:
  assumes "leaf_ok slots hi t" and "u \<le> w"
  shows "fst ` set (leaf_entries t u) \<subseteq> leaf_keyset w t"
proof -
  have "fst ` set (leaf_entries t u) = lr_key ` set (leaf_records t u)"
    by (simp add: leaf_entries_def image_image newest_sort_keys)
  moreover have "lr_key ` set (base_records (bn_ver t) (bn_keys t) (bn_vals t)) = set (bn_keys t)"
    using assms base_records_keys [of "bn_vals t" "bn_keys t" "bn_ver t"]
    by (metis leaf_ok_def list.set_map)
  moreover have "lr_key ` set (visible_records u (bt_leaf_delta t)) \<subseteq>
      (case bn_delta t of None \<Rightarrow> {}
       | Some b \<Rightarrow> ds_key ` set (filter (\<lambda>sl. ds_version sl \<le> w) (db_used b)))"
  proof (cases "bn_delta t")
    case (Some b)
    show ?thesis
      using visible_records_used [OF leaf_ok_delta_ok [OF assms(1) Some], of u]
      using assms(2) by (auto simp: leaf_ok_leaf_delta [OF assms(1)] Some)
  qed (simp add: leaf_ok_leaf_delta [OF assms(1)])
  ultimately show ?thesis
    by (auto simp: leaf_records_def leaf_keyset_def)
qed

end
