(* ===== verification/BT_Tree.thy ===== *)
theory BT_Tree
  imports BT_Query
begin

text \<open>
  The tree that a B+Tree pointer represents: \<open>bt_repr s T\<close> says that the store holds the annotated
  tree \<open>T\<close> (every node with its address), \<open>bt_inv\<close> is the search-tree invariant, and
  \<open>bt_contents u T\<close> the sorted key/value list that the tree holds at snapshot version \<open>u\<close>. The
  lookups and scans of \<open>BT_Query\<close> are proved to read exactly that list.
\<close>

datatype bt_tree =
    BLeaf (bt_addr: addr) (bt_node: bt_node)
  | BNode (bt_addr: addr) (bt_node: bt_node) (bt_subtrees: "bt_tree list")

fun bt_repr :: "bt_store \<Rightarrow> bt_tree \<Rightarrow> bool" where
  "bt_repr s (BLeaf a t) \<longleftrightarrow> cells s a = Some t \<and> bn_type t = BT_LEAF"
| "bt_repr s (BNode a t ts) \<longleftrightarrow>
     cells s a = Some t \<and> bn_type t = BT_INTERNAL \<and> bn_chs t = map bt_addr ts \<and>
     (\<forall>x \<in> set ts. bt_repr s x)"

fun bt_addrs :: "bt_tree \<Rightarrow> addr list" where
  "bt_addrs (BLeaf a t) = [a]"
| "bt_addrs (BNode a t ts) = a # concat (map bt_addrs ts)"

text \<open>
  All keys stored below a node that a snapshot up to version \<open>w\<close> can see, separators included. A
  version buffer can receive keys after the tree has been replaced by a newer one, so the trees of
  old snapshots are only constrained on what their readers can see.
\<close>

fun bt_keyset :: "u64 \<Rightarrow> bt_tree \<Rightarrow> u64 set" where
  "bt_keyset w (BLeaf a t) = leaf_keyset w t"
| "bt_keyset w (BNode a t ts) = set (bn_keys t) \<union> (\<Union>x \<in> set ts. bt_keyset w x)"

text \<open>Every key below child \<open>i\<close> is one that the separators send to child \<open>i\<close>.\<close>

definition bt_routed :: "u64 \<Rightarrow> u64 list \<Rightarrow> bt_tree list \<Rightarrow> bool" where
  "bt_routed w ks ts \<longleftrightarrow> (\<forall>i < length ts. \<forall>x \<in> bt_keyset w (ts ! i). findch ks x = i)"

fun bt_minfill :: "bt_tree \<Rightarrow> bool" where
  "bt_minfill (BLeaf a t) \<longleftrightarrow> BT_B \<le> bn_size t"
| "bt_minfill (BNode a t ts) \<longleftrightarrow> BT_B - 1 \<le> bn_size t"

text \<open>
  The invariant of a tree of height \<open>h\<close>, fat capacity \<open>slots\<close>, newest version \<open>hi\<close> and readers up
  to version \<open>w\<close> (\<open>UINT64_MAX\<close> for the current tree): leaves
  all at the same depth, between \<open>1\<close> and \<open>2*B-1\<close> sorted separators per node, every node below
  the root at least half full.
\<close>

fun bt_inv :: "nat \<Rightarrow> u32 \<Rightarrow> u64 \<Rightarrow> nat \<Rightarrow> bt_tree \<Rightarrow> bool" where
  "bt_inv slots hi w 0 (BLeaf a t) \<longleftrightarrow> leaf_ok slots hi t"
| "bt_inv slots hi w (Suc h) (BNode a t ts) \<longleftrightarrow>
     sorted_wrt (<) (bn_keys t) \<and> 1 \<le> bn_size t \<and> bn_size t \<le> 2 * BT_B - 1 \<and>
     length ts = Suc (bn_size t) \<and> bt_routed w (bn_keys t) ts \<and>
     (\<forall>x \<in> set ts. bt_inv slots hi w h x \<and> bt_minfill x)"
| "bt_inv slots hi w _ _ \<longleftrightarrow> False"

fun bt_contents :: "u64 \<Rightarrow> bt_tree \<Rightarrow> (u64 \<times> u64) list" where
  "bt_contents u (BLeaf a t) = leaf_entries t u"
| "bt_contents u (BNode a t ts) = concat (map (bt_contents u) ts)"

text \<open>The map that the tree stands for at a snapshot version.\<close>

definition bt_map :: "bt_tree \<Rightarrow> u64 \<Rightarrow> u64 \<Rightarrow> u64 option" where
  "bt_map T u = map_of (bt_contents u T)"

section \<open>Routing\<close>

lemma bt_inv_0_cases:
  "bt_inv slots hi w 0 T \<Longrightarrow> (\<And>a t. T = BLeaf a t \<Longrightarrow> leaf_ok slots hi t \<Longrightarrow> P) \<Longrightarrow> P"
  by (cases T) auto

lemma bt_inv_Suc_cases:
  "bt_inv slots hi w (Suc h) T \<Longrightarrow>
     (\<And>a t ts. T = BNode a t ts \<Longrightarrow> P) \<Longrightarrow> P"
  by (cases T) auto

lemma bt_inv_mono: "bt_inv slots hi w h T \<Longrightarrow> hi \<le> hi' \<Longrightarrow> bt_inv slots hi' w h T"
  by (induction slots hi w h T rule: bt_inv.induct) (auto simp: leaf_ok_mono)

lemma leaf_keyset_mono: "w \<le> w' \<Longrightarrow> leaf_keyset w t \<subseteq> leaf_keyset w' t"
  by (auto simp: leaf_keyset_def split: option.splits)

lemma bt_keyset_mono: "w \<le> w' \<Longrightarrow> bt_keyset w T \<subseteq> bt_keyset w' T"
proof (induction T)
  case (BNode a t ts)
  then show ?case by (auto simp: subset_iff)
qed (simp add: leaf_keyset_mono)

lemma bt_inv_weaken: "bt_inv slots hi w h T \<Longrightarrow> w' \<le> w \<Longrightarrow> bt_inv slots hi w' h T"
proof (induction slots hi w h T rule: bt_inv.induct)
  case (2 slots hi w h a t ts)
  then have "bt_routed w' (bn_keys t) ts"
    using subsetD [OF bt_keyset_mono [OF 2(3)]] by (simp add: bt_routed_def)
  with 2 show ?case by simp
qed simp_all

lemma findch_less: "findch ks x < findch ks y \<Longrightarrow> x < y"
  using findch_nth_gt [of ks x] findch_nth_le [of "findch ks x" ks y] findch_le [of ks y]
  by (meson less_le_trans)

lemma routedD:
  "bt_routed w ks ts \<Longrightarrow> i < length ts \<Longrightarrow> x \<in> bt_keyset w (ts ! i) \<Longrightarrow> findch ks x = i"
  by (simp add: bt_routed_def)

lemma bt_contents_keyset: "bt_inv slots hi w h T \<Longrightarrow> u \<le> w \<Longrightarrow> fst ` set (bt_contents u T) \<subseteq> bt_keyset w T"
proof (induction slots hi w h T rule: bt_inv.induct)
  case (1 slots hi w a t)
  then show ?case using leaf_entries_keyset by simp
next
  case (2 slots hi w h a t ts)
  then show ?case by fastforce
qed simp_all

text \<open>Contents are sorted and free of duplicates.\<close>

lemma strict_concat:
  fixes xss :: "u64 list list"
  assumes "\<And>xs. xs \<in> set xss \<Longrightarrow> sorted_wrt (<) xs"
    and "\<And>i j x y. i < j \<Longrightarrow> j < length xss \<Longrightarrow> x \<in> set (xss ! i) \<Longrightarrow> y \<in> set (xss ! j) \<Longrightarrow> x < y"
  shows "sorted_wrt (<) (concat xss)"
  using assms
proof (induction xss)
  case (Cons xs xss)
  have "sorted_wrt (<) (concat xss)"
    using Cons.prems(1) Cons.prems(2) [of "Suc _" "Suc _"] by (intro Cons.IH) auto
  moreover have "x < y" if "x \<in> set xs" "y \<in> set (concat xss)" for x y
  proof -
    from that(2) obtain ys where "ys \<in> set xss" "y \<in> set ys" by auto
    then obtain j where "j < length xss" "y \<in> set (xss ! j)" by (metis in_set_conv_nth)
    then show ?thesis
      using Cons.prems(2) [of 0 "Suc j" x y] that(1) by simp
  qed
  ultimately show ?case
    using Cons.prems(1) by (auto simp: sorted_wrt_append)
qed simp

lemma bt_contents_strict: "bt_inv slots hi w h T \<Longrightarrow> u \<le> w \<Longrightarrow> sorted_wrt (<) (map fst (bt_contents u T))"
proof (induction slots hi w h T rule: bt_inv.induct)
  case (2 slots hi w h a t ts)
  have "sorted_wrt (<) (concat (map (\<lambda>x. map fst (bt_contents u x)) ts))"
  proof (rule strict_concat)
    fix xs assume "xs \<in> set (map (\<lambda>x. map fst (bt_contents u x)) ts)"
    then show "sorted_wrt (<) xs"
      using 2 by auto
  next
    fix i j x y
    assume ij: "i < j" "j < length (map (\<lambda>x. map fst (bt_contents u x)) ts)"
      and x: "x \<in> set (map (\<lambda>x. map fst (bt_contents u x)) ts ! i)"
      and y: "y \<in> set (map (\<lambda>x. map fst (bt_contents u x)) ts ! j)"
    have inv: "bt_inv slots hi w h (ts ! k)" if "k < length ts" for k
      using 2(2) that by simp
    note keys = bt_contents_keyset [OF inv \<open>u \<le> w\<close>]
    have "x \<in> bt_keyset w (ts ! i)" "y \<in> bt_keyset w (ts ! j)"
      using ij x y keys [of i] keys [of j] by auto
    then have "findch (bn_keys t) x = i" "findch (bn_keys t) y = j"
      using 2(2) ij by (auto intro: routedD)
    then show "x < y"
      using ij(1) by (intro findch_less [of "bn_keys t"]) simp
  qed
  then show ?case
    by (simp add: map_concat comp_def)
qed (simp_all add: leaf_entries_strict)

lemma map_of_concat_unique:
  assumes "i < length xss" and "\<And>j. j < length xss \<Longrightarrow> j \<noteq> i \<Longrightarrow> k \<notin> fst ` set (xss ! j)"
  shows "map_of (concat xss) k = map_of (xss ! i) k"
  using assms
proof (induction xss arbitrary: i)
  case (Cons xs xss)
  show ?case
  proof (cases i)
    case 0
    have "k \<notin> fst ` set ys" if "ys \<in> set xss" for ys
    proof -
      from that obtain j where "j < length xss" "xss ! j = ys" by (meson in_set_conv_nth)
      with Cons.prems(2) [of "Suc j"] 0 show ?thesis by simp
    qed
    then have "k \<notin> fst ` set (concat xss)" by auto
    then have "map_of (concat xss) k = None"
      by (simp add: map_of_eq_None_iff)
    with 0 show ?thesis by (auto simp: map_add_def split: option.splits)
  next
    case (Suc i')
    have "k \<notin> fst ` set xs"
      using Cons.prems(2) [of 0] Suc by simp
    then have "map_of xs k = None"
      by (simp add: map_of_eq_None_iff)
    moreover have "map_of (concat xss) k = map_of (xss ! i') k"
      using Cons.prems(1) Cons.prems(2) [of "Suc _"] Suc by (intro Cons.IH) auto
    ultimately show ?thesis
      using Suc by (auto simp: map_add_def split: option.splits)
  qed
qed simp

lemma bt_map_node:
  assumes "bt_inv slots hi w (Suc h) (BNode a t ts)" and "u \<le> w"
  shows "bt_map (BNode a t ts) u k = bt_map (ts ! findch (bn_keys t) k) u k"
proof -
  let ?i = "findch (bn_keys t) k"
  have i: "?i < length ts"
    using assms findch_le [of "bn_keys t" k] by (simp add: less_Suc_eq_le)
  have "k \<notin> fst ` set (map (bt_contents u) ts ! j)" if "j < length ts" "j \<noteq> ?i" for j
  proof
    assume "k \<in> fst ` set (map (bt_contents u) ts ! j)"
    then have "k \<in> bt_keyset w (ts ! j)"
      using bt_contents_keyset [of slots hi w h "ts ! j" u] assms that by auto
    then show False
      using assms that routedD [of w "bn_keys t" ts j k] by simp
  qed
  then have "map_of (concat (map (bt_contents u) ts)) k = map_of (map (bt_contents u) ts ! ?i) k"
    using i by (intro map_of_concat_unique) auto
  then show ?thesis
    using i by (simp add: bt_map_def)
qed

lemma bt_map_leaf:
  "leaf_ok slots hi t \<Longrightarrow> bt_map (BLeaf a t) u k = last_value (leaf_records t u) k"
  by (simp add: bt_map_def leaf_entries_map)

section \<open>Lookups read the contents\<close>

lemma last_value_base:
  assumes "sorted_wrt (<) ks" and "length vs = length ks"
  shows "last_value (base_records v ks vs) k =
    (if findval ks k < length ks \<and> ks ! findval ks k = k then Some (vs ! findval ks k) else None)"
  using assms(2,1)
proof (induction vs ks rule: list_induct2)
  case (Cons x vs y ks)
  have *: "last_value (base_records v ks vs) k = None" if "k \<notin> set ks"
    using that base_records_keys [OF Cons.hyps, of v] by (metis last_value_None_iff list.set_map)
  show ?case
    using Cons * findval_hit [of "y # ks" k] findval_hit [of ks k]
    by (auto simp: base_records_def split: if_splits option.splits)
qed (simp add: base_records_def)

lemma find_slot_fold:
  assumes "sorted (map ds_version xs)" and "\<forall>sl \<in> set xs. snd acc \<le> ds_version sl"
  shows "fst (foldl (find_slot_step k u) acc xs) =
    (case last_value (map slot_record (filter (slot_visible u) xs)) k of
       None \<Rightarrow> fst acc | Some v \<Rightarrow> Some v)"
  using assms
proof (induction xs arbitrary: acc)
  case (Cons sl xs)
  have "\<forall>y \<in> set xs. snd (find_slot_step k u acc sl) \<le> ds_version y"
    using Cons.prems by (auto simp: find_slot_step_def)
  with Cons show ?case
    by (auto simp: find_slot_step_def split: option.splits)
qed simp

lemma find_slot_fold_unused:
  "\<forall>sl \<in> set xs. ds_version sl = 0 \<Longrightarrow> foldl (find_slot_step k u) acc xs = acc"
  by (induction xs) (auto simp: find_slot_step_def slot_visible_def)

lemma bt_find_leaf_eq:
  assumes ok: "leaf_ok slots hi t"
  shows "bt_find_leaf t k u = last_value (leaf_records t u) k"
proof (cases "bn_delta t")
  case None
  then show ?thesis
    using ok by (simp add: bt_find_leaf_def leaf_ok_leaf_delta [OF ok] leaf_records_None [OF ok]
        leaf_ok_def last_value_base bt_findval_def Let_def)
next
  case (Some b)
  let ?base = "if findval (bn_keys t) k < bn_size t \<and> bn_keys t ! findval (bn_keys t) k = k
    then (Some (bn_vals t ! findval (bn_keys t) k), ucast (bn_ver t)) else (None, 0) :: u64 option \<times> u64"
  have d: "delta_ok slots (bn_ver t) hi b"
    by (rule leaf_ok_delta_ok [OF ok Some])
  then have slots: "take (db_capacity b) (db_slots b) = db_used b @ drop (db_count b) (db_slots b)"
    by (simp add: delta_ok_def db_used_def)
  have "snd ?base \<le> ds_version sl" if "sl \<in> set (db_used b)" for sl
    using d that by (auto simp: delta_ok_def less_imp_le)
  then have "fst (foldl (find_slot_step k u) ?base (db_used b)) =
    (case last_value (map slot_record (filter (slot_visible u) (db_used b))) k of
       None \<Rightarrow> fst ?base | Some v \<Rightarrow> Some v)"
    using used_versions_sorted [OF d] by (intro find_slot_fold) auto
  moreover have "map slot_record (filter (slot_visible u) (db_used b)) = visible_records u (Some b)"
    using slot_visible_used [OF d] by (simp add: visible_records_used [OF d] cong: filter_cong)
  moreover have "fst ?base = last_value (base_records (bn_ver t) (bn_keys t) (bn_vals t)) k"
    using ok by (auto simp add: leaf_ok_def last_value_base)
  moreover have "foldl (find_slot_step k u) acc (drop (db_count b) (db_slots b)) = acc" for acc
    using d by (intro find_slot_fold_unused) (simp add: delta_ok_def)
  moreover have "bt_find_leaf t k u = fst (foldl (find_slot_step k u) ?base (db_used b @ drop (db_count b) (db_slots b)))"
    unfolding bt_find_leaf_def bt_findval_def leaf_ok_leaf_delta [OF ok] Some Let_def option.case slots ..
  ultimately show ?thesis
    by (simp only: foldl_append leaf_records_def leaf_ok_leaf_delta [OF ok] Some last_value_append)
qed

lemma bt_descend_repr:
  assumes "bt_repr s T" and "bt_inv slots hi w h T"
  shows "\<exists>l t. bt_descend s (bt_addr T) k = Some l \<and> cells s l = Some t \<and> leaf_ok slots hi t \<and>
    l \<in> set (bt_addrs T) \<and> (\<forall>u \<le> w. bt_map T u k = last_value (leaf_records t u) k)"
  using assms
proof (induction h arbitrary: T)
  case 0
  then obtain a t where T: "T = BLeaf a t" "leaf_ok slots hi t" by (elim bt_inv_0_cases)
  with 0 show ?case
    by (subst bt_descend.simps) (auto simp: bt_map_leaf)
next
  case (Suc h)
  from Suc.prems(2) obtain a t ts where T: "T = BNode a t ts" by (elim bt_inv_Suc_cases)
  let ?i = "findch (bn_keys t) k"
  have i: "?i < length ts"
    using Suc.prems T findch_le [of "bn_keys t" k] by (simp add: less_Suc_eq_le)
  have "bt_repr s (ts ! ?i)" "bt_inv slots hi w h (ts ! ?i)"
    using Suc.prems T i by auto
  from Suc.IH [OF this] obtain l u where l:
    "bt_descend s (bt_addr (ts ! ?i)) k = Some l" "cells s l = Some u" "leaf_ok slots hi u"
    "l \<in> set (bt_addrs (ts ! ?i))" "\<forall>v \<le> w. bt_map (ts ! ?i) v k = last_value (leaf_records u v) k"
    by blast
  have "bt_descend s (bt_addr T) k = Some l"
    using Suc.prems T i l(1) by (subst bt_descend.simps) (simp add: bt_findch_def)
  moreover have "l \<in> set (bt_addrs T)"
    using T i l(4) nth_mem [OF i] by auto
  moreover have "\<forall>v \<le> w. bt_map T v k = last_value (leaf_records u v) k"
    using Suc.prems T l(5) bt_map_node by metis
  ultimately show ?case
    using l by blast
qed

lemma bt_repr_not_null: "store_ok s \<Longrightarrow> bt_repr s T \<Longrightarrow> bt_addr T \<noteq> nullptr"
  by (cases T) (auto dest: store_ok_not_null)

lemma bt_find_correct:
  assumes "store_ok s" "bt_repr s T" "bt_inv slots hi w h T" "u \<le> w"
  shows "bt_find s (bt_addr T) k u = Some (bt_map T u k)"
  using bt_descend_repr [OF assms(2,3), of k] bt_repr_not_null [OF assms(1,2)] assms(4)
  by (auto simp: bt_find_def bt_find_leaf_eq)

section \<open>Scans read the contents in order\<close>

lemma scan_emit_eq:
  "scan_emit lower use n rs ret =
     ret @ take (n - length ret)
       (map (\<lambda>r. (lr_key r, lr_value r)) (filter (\<lambda>r. use \<longrightarrow> lower \<le> lr_key r) rs))"
  by (induction rs arbitrary: ret) (auto simp: not_less take_Cons' diff_Suc split: nat.splits)

lemma bt_scan_visible_leaf_all:
  "bt_scan_visible_leaf t lower False n u ret = ret @ take (n - length ret) (leaf_entries t u)"
  by (simp add: bt_scan_visible_leaf_def scan_emit_eq leaf_entries_def leaf_records_def)

lemma bt_scan_visible_leaf_from:
  "bt_scan_visible_leaf t lower True n u ret =
     ret @ take (n - length ret) (filter (\<lambda>e. lower \<le> fst e) (leaf_entries t u))"
  by (simp add: bt_scan_visible_leaf_def scan_emit_eq leaf_entries_def leaf_records_def
      filter_map comp_def)

text \<open>Appending in two steps up to a common bound.\<close>

lemma take_append_step:
  "(ret @ take (n - length ret) xs) @ take (n - length (ret @ take (n - length ret) xs)) ys =
     ret @ take (n - length ret) (xs @ ys)"
  by (simp add: min_def)

lemma bt_scan_append_children:
  assumes "\<And>x ret. x \<in> set ts \<Longrightarrow> bt_scan_visible_append f s (bt_addr x) n u ret =
      Some (ret @ take (n - length ret) (bt_contents u x))"
  shows "bt_scan_visible_children f s (map bt_addr ts) n u ret =
      Some (ret @ take (n - length ret) (concat (map (bt_contents u) ts)))"
  using assms
proof (induction ts arbitrary: ret)
  case (Cons x ts)
  have "bt_scan_visible_children f s (map bt_addr ts) n u ret' =
      Some (ret' @ take (n - length ret') (concat (map (bt_contents u) ts)))" for ret'
    using Cons by simp
  moreover have "bt_scan_visible_append f s (bt_addr x) n u ret =
      Some (ret @ take (n - length ret) (bt_contents u x))"
    using Cons.prems by simp
  ultimately show ?case
    by (simp add: take_append_step del: append_assoc take_append length_append)
qed simp

lemma bt_scan_append_correct:
  assumes "bt_repr s T" and "bt_inv slots hi w h T" and "h < f"
  shows "bt_scan_visible_append f s (bt_addr T) n u ret =
    Some (ret @ take (n - length ret) (bt_contents u T))"
  using assms
proof (induction h arbitrary: T f ret)
  case 0
  then obtain f' where "f = Suc f'" by (cases f) auto
  with 0 show ?case
    by (auto elim!: bt_inv_0_cases simp: bt_scan_visible_leaf_all)
next
  case (Suc h)
  then obtain f' where f: "f = Suc f'" "h < f'" by (cases f) auto
  from Suc.prems(2) obtain a t ts where T: "T = BNode a t ts" by (elim bt_inv_Suc_cases)
  have "bt_scan_visible_append f' s (bt_addr x) n u ret =
      Some (ret @ take (n - length ret) (bt_contents u x))" if "x \<in> set ts" for x ret
    using Suc.prems T that f(2) by (intro Suc.IH) auto
  then show ?case
    using Suc.prems T f by (simp add: bt_scan_append_children)
qed

lemma filter_concat_route:
  assumes "i < length ts" and "\<And>j e. j < i \<Longrightarrow> e \<in> set (g (ts ! j)) \<Longrightarrow> \<not> P e"
    and "\<And>j e. i < j \<Longrightarrow> j < length ts \<Longrightarrow> e \<in> set (g (ts ! j)) \<Longrightarrow> P e"
  shows "filter P (concat (map g ts)) = filter P (g (ts ! i)) @ concat (map g (drop (Suc i) ts))"
proof -
  have "ts = take i ts @ ts ! i # drop (Suc i) ts"
    using assms(1) by (rule id_take_nth_drop)
  then have "concat (map g ts) =
      concat (map g (take i ts)) @ g (ts ! i) @ concat (map g (drop (Suc i) ts))"
    by (metis concat.simps(2) concat_append list.simps(9) map_append)
  moreover have "filter P (concat (map g (take i ts))) = []"
  proof -
    have "\<not> P e" if x: "x \<in> set (take i ts)" and e: "e \<in> set (g x)" for x e
    proof -
      from x obtain m where "m < i" "x = ts ! m"
        using assms(1) by (auto simp: in_set_conv_nth)
      with e show ?thesis using assms(2) by blast
    qed
    then show ?thesis by (auto simp: filter_empty_conv)
  qed
  moreover have "filter P (concat (map g (drop (Suc i) ts))) = concat (map g (drop (Suc i) ts))"
  proof (rule filter_True, rule ballI)
    fix e assume "e \<in> set (concat (map g (drop (Suc i) ts)))"
    then obtain x where "x \<in> set (drop (Suc i) ts)" "e \<in> set (g x)" by auto
    then obtain m where m: "m < length (drop (Suc i) ts)" "e \<in> set (g (drop (Suc i) ts ! m))"
      by (metis in_set_conv_nth)
    then show "P e"
      using assms(3) [of "Suc i + m" e] by simp
  qed
  ultimately show ?thesis by simp
qed

lemma bt_scan_search_correct:
  assumes "bt_repr s T" and "bt_inv slots hi w h T" and "h < f" and "u \<le> w"
  shows "bt_scan_visible_search f s (bt_addr T) k n u ret =
    Some (ret @ take (n - length ret) (filter (\<lambda>e. k \<le> fst e) (bt_contents u T)))"
  using assms
proof (induction h arbitrary: T f ret)
  case 0
  then obtain f' where "f = Suc f'" by (cases f) auto
  with 0 show ?case
    by (auto elim!: bt_inv_0_cases simp: bt_scan_visible_leaf_from)
next
  case (Suc h)
  then obtain f' where f: "f = Suc f'" "h < f'" by (cases f) auto
  from Suc.prems(2) obtain a t ts where T: "T = BNode a t ts" by (elim bt_inv_Suc_cases)
  let ?i = "findch (bn_keys t) k"
  have i: "?i < length ts"
    using Suc.prems T findch_le [of "bn_keys t" k] by (simp add: less_Suc_eq_le)
  have sub: "bt_repr s x" "bt_inv slots hi w h x" if "x \<in> set ts" for x
    using Suc.prems T that by auto
  have routed: "findch (bn_keys t) (fst e) = j" if "j < length ts" "e \<in> set (bt_contents u (ts ! j))" for j e
    using Suc.prems(2) T that bt_contents_keyset [OF sub(2) [OF nth_mem] Suc.prems(4), of j]
    by (auto intro!: routedD [of w "bn_keys t" ts j])
  let ?ret = "ret @ take (n - length ret) (filter (\<lambda>e. k \<le> fst e) (bt_contents u (ts ! ?i)))"
  have "bt_scan_visible_search f' s (bt_addr (ts ! ?i)) k n u ret = Some ?ret"
    using sub [OF nth_mem [OF i]] f(2) Suc.prems(4) by (intro Suc.IH)
  then have "bt_scan_visible_search f s (bt_addr T) k n u ret =
      bt_scan_visible_children f' s (map bt_addr (drop (Suc ?i) ts)) n u ?ret"
    using Suc.prems T f i by (simp add: bt_findch_def drop_map)
  moreover have "bt_scan_visible_append f' s (bt_addr x) n u ret' =
      Some (ret' @ take (n - length ret') (bt_contents u x))" if "x \<in> set (drop (Suc ?i) ts)" for x ret'
    using sub [OF in_set_dropD [OF that]] f(2) by (intro bt_scan_append_correct)
  then have "bt_scan_visible_children f' s (map bt_addr (drop (Suc ?i) ts)) n u ?ret =
      Some (?ret @ take (n - length ?ret) (concat (map (bt_contents u) (drop (Suc ?i) ts))))"
    by (rule bt_scan_append_children)
  moreover have "filter (\<lambda>e. k \<le> fst e) (concat (map (bt_contents u) ts)) =
      filter (\<lambda>e. k \<le> fst e) (bt_contents u (ts ! ?i)) @ concat (map (bt_contents u) (drop (Suc ?i) ts))"
  proof (rule filter_concat_route [OF i])
    fix j e assume "j < ?i" "e \<in> set (bt_contents u (ts ! j))"
    then have "fst e < k"
      using routed [of j e] i by (intro findch_less [of "bn_keys t"]) simp
    then show "\<not> k \<le> fst e" by simp
  next
    fix j e assume "?i < j" "j < length ts" "e \<in> set (bt_contents u (ts ! j))"
    then have "k < fst e"
      using routed [of j e] by (intro findch_less [of "bn_keys t"]) simp
    then show "k \<le> fst e" by simp
  qed
  ultimately show ?case
    by (simp only: T bt_contents.simps take_append_step)
qed

lemma bt_scan_correct:
  assumes "store_ok s" "bt_repr s T" "bt_inv slots hi w h T" "h < f" "u \<le> w"
  shows "bt_scan f s (bt_addr T) k n u = Some (take n (filter (\<lambda>e. k \<le> fst e) (bt_contents u T)))"
  using bt_scan_search_correct [OF assms(2-5), of k n "[]"] bt_repr_not_null [OF assms(1,2)]
  by (simp add: bt_scan_def)

end
