(* ===== verification/Update_Context.thy ===== *)
theory Update_Context
  imports Prelude
begin

text \<open>
  The update context of \<^verbatim>\<open>lib/conctrl/context.hpp\<close>, common to all trees and schedulers, with the list
  of physically replaced nodes that a path copy hands to the reclaimer. Six node pointers are stored
  inline, further ones in linked blocks of at most fourteen (newest block first; a block is the list
  of its live entries). The bit flags are booleans; \<^verbatim>\<open>retired_count\<close> is a \<^verbatim>\<open>uint16_t\<close> and wraps.
\<close>

definition OP_INIT :: nat where
  "OP_INIT = 0"

definition OP_DONE :: nat where
  "OP_DONE = 15"

definition RETIRED_INLINE_CAPACITY :: nat where
  "RETIRED_INLINE_CAPACITY = 6"

definition RETIRED_OVERFLOW_CAPACITY :: nat where
  "RETIRED_OVERFLOW_CAPACITY = 14"

record ctx =
  c_op :: nat
  c_retry :: bool
  c_wait_child :: bool
  c_wait_subtree :: bool
  c_new_checkpoint :: bool
  c_gc_enabled :: bool
  c_checkpoint_rebuilt :: bool
  c_sno :: u32
  c_cno :: u32
  c_root :: addr
  c_t_cur :: addr
  c_t_past :: addr
  c_key :: u64
  c_val :: u64
  c_retired_inline :: "addr list"
  c_retired_overflow :: "addr list list"
  c_retired_count :: nat
  c_fat_slots :: nat

text \<open>
  \<open>retire_replaced\<close> records a replaced node unless collection is off or the pointer is null. The
  array of inline pointers always has six cells.
\<close>

definition retire_overflow :: "addr \<Rightarrow> addr list list \<Rightarrow> addr list list" where
  "retire_overflow node blocks =
     (case blocks of
        [] \<Rightarrow> [[node]]
      | b # bs \<Rightarrow> if length b = RETIRED_OVERFLOW_CAPACITY then [node] # b # bs else (b @ [node]) # bs)"

definition retire_replaced :: "addr \<Rightarrow> ('z) ctx_scheme \<Rightarrow> ('z) ctx_scheme" where
  "retire_replaced node c =
     (if \<not> c_gc_enabled c \<or> node = nullptr then c
      else
        (if c_retired_count c < RETIRED_INLINE_CAPACITY
         then c\<lparr>c_retired_inline := (c_retired_inline c)[c_retired_count c := node]\<rparr>
         else c\<lparr>c_retired_overflow := retire_overflow node (c_retired_overflow c)\<rparr>)
        \<lparr>c_retired_count := (c_retired_count c + 1) mod 2 ^ 16\<rparr>)"

text \<open>
  \<open>drain_retired\<close> passes every recorded node to its consumer and empties the list; the model returns
  the consumed nodes in the order of the calls and the count the C++ returns.
\<close>

definition drain_retired :: "('z) ctx_scheme \<Rightarrow> addr list \<times> nat \<times> ('z) ctx_scheme" where
  "drain_retired c =
     (let count = c_retired_count c;
          inline_count = min count RETIRED_INLINE_CAPACITY
      in (take inline_count (c_retired_inline c) @ concat (c_retired_overflow c), count,
          c\<lparr>c_retired_inline := replicate inline_count nullptr @ drop inline_count (c_retired_inline c),
            c_retired_overflow := [], c_retired_count := 0\<rparr>))"

definition clear_retired :: "('z) ctx_scheme \<Rightarrow> ('z) ctx_scheme" where
  "clear_retired c = snd (snd (drain_retired c))"

section \<open>The list that the two levels represent\<close>

definition retired_nodes :: "('z) ctx_scheme \<Rightarrow> addr list" where
  "retired_nodes c = fst (drain_retired c)"

definition retired_ok :: "('z) ctx_scheme \<Rightarrow> bool" where
  "retired_ok c \<longleftrightarrow>
     length (c_retired_inline c) = RETIRED_INLINE_CAPACITY \<and>
     (if c_retired_count c \<le> RETIRED_INLINE_CAPACITY then c_retired_overflow c = []
      else c_retired_count c = RETIRED_INLINE_CAPACITY + length (concat (c_retired_overflow c))) \<and>
     (\<forall>b \<in> set (c_retired_overflow c). 0 < length b \<and> length b \<le> RETIRED_OVERFLOW_CAPACITY)"

lemma retired_nodes_eq:
  "retired_nodes c = take (min (c_retired_count c) 6) (c_retired_inline c) @ concat (c_retired_overflow c)"
  by (simp add: retired_nodes_def drain_retired_def Let_def RETIRED_INLINE_CAPACITY_def)

lemma concat_retire_overflow:
  "mset (concat (retire_overflow node blocks)) = add_mset node (mset (concat blocks))"
  by (auto simp: retire_overflow_def split: list.splits)

lemma length_concat_retire_overflow:
  "length (concat (retire_overflow node blocks)) = Suc (length (concat blocks))"
  by (auto simp: retire_overflow_def split: list.splits)

lemma retire_replaced_off [ret_simps]: "\<not> c_gc_enabled c \<Longrightarrow> retire_replaced node c = c"
  by (simp add: retire_replaced_def)

lemma retire_replaced_null [ret_simps]: "retire_replaced nullptr c = c"
  by (simp add: retire_replaced_def)

lemma retire_overflow_blocks:
  "\<forall>b \<in> set blocks. 0 < length b \<and> length b \<le> 14 \<Longrightarrow>
     \<forall>b \<in> set (retire_overflow node blocks). 0 < length b \<and> length b \<le> 14"
  by (cases blocks) (auto simp: retire_overflow_def RETIRED_OVERFLOW_CAPACITY_def)

lemma retire_replaced_ok:
  assumes ok: "retired_ok c" and lt: "c_retired_count c < 65535"
  shows "retired_ok (retire_replaced node c)"
proof (cases "\<not> c_gc_enabled c \<or> node = nullptr")
  case True
  with ok show ?thesis by (auto simp: retire_replaced_def)
next
  case on: False
  show ?thesis
  proof (cases "c_retired_count c < 6")
    case True
    with on ok lt show ?thesis
      by (simp add: retired_ok_def retire_replaced_def RETIRED_INLINE_CAPACITY_def)
  next
    case False
    from ok have "\<forall>b \<in> set (c_retired_overflow c). 0 < length b \<and> length b \<le> 14"
      by (simp add: retired_ok_def RETIRED_OVERFLOW_CAPACITY_def)
    then have blocks: "\<forall>b \<in> set (retire_overflow node (c_retired_overflow c)).
        0 < length b \<and> length b \<le> 14"
      by (rule retire_overflow_blocks)
    from ok False have "6 + length (concat (c_retired_overflow c)) = c_retired_count c"
      by (cases "c_retired_count c = 6") (auto simp: retired_ok_def RETIRED_INLINE_CAPACITY_def)
    moreover have "retire_overflow node (c_retired_overflow c) \<noteq> []"
      by (auto simp: retire_overflow_def split: list.splits)
    ultimately show ?thesis
      using on ok lt False blocks
      unfolding retired_ok_def retire_replaced_def RETIRED_INLINE_CAPACITY_def
        RETIRED_OVERFLOW_CAPACITY_def
      by (simp add: length_concat_retire_overflow)
  qed
qed

lemma retire_replaced_nodes:
  assumes "retired_ok c" and "c_retired_count c < 65535" and "c_gc_enabled c" and "node \<noteq> nullptr"
  shows "mset (retired_nodes (retire_replaced node c)) = add_mset node (mset (retired_nodes c))"
proof (cases "c_retired_count c < 6")
  case True
  then have "c_retired_overflow c = []" and "length (c_retired_inline c) = 6"
    using assms(1) by (auto simp: retired_ok_def RETIRED_INLINE_CAPACITY_def)
  with True assms show ?thesis
    by (simp add: retired_nodes_eq retire_replaced_def RETIRED_INLINE_CAPACITY_def
        take_Suc_conv_app_nth)
next
  case False
  then show ?thesis
    using assms
    by (simp add: retired_nodes_eq retire_replaced_def RETIRED_INLINE_CAPACITY_def
        concat_retire_overflow)
qed

lemma retire_replaced_count:
  "c_retired_count c < 65535 \<Longrightarrow>
     c_retired_count (retire_replaced node c) \<le> Suc (c_retired_count c)"
  by (simp add: retire_replaced_def)

text \<open>\<open>retire_replaced\<close> writes nothing but the retirement list.\<close>

lemma retire_replaced_frame [simp]:
  "c_op (retire_replaced n c) = c_op c"
  "c_retry (retire_replaced n c) = c_retry c"
  "c_gc_enabled (retire_replaced n c) = c_gc_enabled c"
  "c_wait_child (retire_replaced n c) = c_wait_child c"
  "c_wait_subtree (retire_replaced n c) = c_wait_subtree c"
  "c_new_checkpoint (retire_replaced n c) = c_new_checkpoint c"
  "c_checkpoint_rebuilt (retire_replaced n c) = c_checkpoint_rebuilt c"
  "c_sno (retire_replaced n c) = c_sno c"
  "c_cno (retire_replaced n c) = c_cno c"
  "c_root (retire_replaced n c) = c_root c"
  "c_t_cur (retire_replaced n c) = c_t_cur c"
  "c_t_past (retire_replaced n c) = c_t_past c"
  "c_key (retire_replaced n c) = c_key c"
  "c_val (retire_replaced n c) = c_val c"
  "c_fat_slots (retire_replaced n c) = c_fat_slots c"
  "ctx.more (retire_replaced n c) = ctx.more c"
  by (simp_all add: retire_replaced_def)

lemma drain_retired_empties:
  "retired_ok c \<Longrightarrow> retired_ok (snd (snd (drain_retired c))) \<and>
     retired_nodes (snd (snd (drain_retired c))) = []"
  by (auto simp: drain_retired_def retired_nodes_eq retired_ok_def Let_def RETIRED_INLINE_CAPACITY_def)

section \<open>The loop that drives a context\<close>

text \<open>
  A tree gives the schedulers a table of sixteen function pointers, \<open>None\<close> for a null one. Calling a null
  entry, or one behind the table, has no result.
\<close>

type_synonym ('c, 's) handler_table = "('c \<Rightarrow> 's \<Rightarrow> (nat \<times> 'c \<times> 's) option) option list"

definition call_handler :: "('c, 's) handler_table \<Rightarrow> nat \<Rightarrow> 'c \<Rightarrow> 's \<Rightarrow> (nat \<times> 'c \<times> 's) option" where
  "call_handler H op =
     (if op < length H then (case H ! op of None \<Rightarrow> (\<lambda>c s. None) | Some h \<Rightarrow> h) else (\<lambda>c s. None))"

lemma call_handler_out [simp]: "length H \<le> op \<Longrightarrow> call_handler H op = (\<lambda>c s. None)"
  by (simp add: call_handler_def)

lemma call_handler_Some:
  "call_handler H op c s = Some r \<longleftrightarrow> op < length H \<and> (\<exists>h. H ! op = Some h \<and> h c s = Some r)"
  by (auto simp: call_handler_def split: option.splits)

text \<open>What the loop \<^verbatim>\<open>ctx->op = T::handlers[ctx->op](ctx)\<close> passes through, up to DONE.\<close>

inductive dispatched ::
    "('c, 's) handler_table \<Rightarrow> nat \<times> 'c \<times> 's \<Rightarrow> nat \<times> 'c \<times> 's \<Rightarrow> bool" for H start where
  first: "dispatched H start start"
| next_op: "dispatched H start (op, c, s) \<Longrightarrow> op \<noteq> OP_DONE \<Longrightarrow> call_handler H op c s = Some r \<Longrightarrow> dispatched H start r"

text \<open>A code that the loop may go on with: DONE, or the index of an entry that is not null.\<close>

definition runnable :: "('c, 's) handler_table \<Rightarrow> nat \<Rightarrow> bool" where
  "runnable H op \<longleftrightarrow> op = OP_DONE \<or> (\<exists>h. op < length H \<and> H ! op = Some h)"

lemma dispatched_runnable:
  assumes "dispatched H (op0, c0, s0) r" "runnable H op0"
    and yields: "\<And>op c s op' c' s'. call_handler H op c s = Some (op', c', s') \<Longrightarrow> runnable H op'"
  shows "runnable H (fst r)"
  using assms(1,2) by induction (auto dest: yields)

text \<open>
  The loop \<^verbatim>\<open>while (ctx->op != DONE) ctx->op = T::handlers[ctx->op](ctx)\<close> of every scheduler, for a
  table \<open>H\<close> of handlers over a context and a store. A handler that fails ends the run with \<open>None\<close>;
  so does a loop that never reaches \<open>OP_DONE\<close>.
\<close>

partial_function (option) run_handlers ::
    "(nat \<Rightarrow> 'c \<Rightarrow> 's \<Rightarrow> (nat \<times> 'c \<times> 's) option) \<Rightarrow> nat \<Rightarrow> 'c \<Rightarrow> 's \<Rightarrow> ('c \<times> 's) option" where
  "run_handlers H op c s =
     (if op = OP_DONE then Some (c, s)
      else case H op c s of
             None \<Rightarrow> None
           | Some (op', c', s') \<Rightarrow> run_handlers H op' c' s')"

declare run_handlers.simps [code]

lemma run_handlers_done [simp]: "run_handlers H OP_DONE c s = Some (c, s)"
  by (subst run_handlers.simps) simp

lemma run_handlers_step:
  "op \<noteq> OP_DONE \<Longrightarrow> H op c s = Some (op', c', s') \<Longrightarrow> run_handlers H op c s = run_handlers H op' c' s'"
  by (subst run_handlers.simps) simp

text \<open>The part of a context that \<open>retire_replaced\<close> reads and writes.\<close>

definition ret_state :: "('z) ctx_scheme \<Rightarrow> bool \<times> nat \<times> addr list \<times> addr list list" where
  "ret_state c = (c_gc_enabled c, c_retired_count c, c_retired_inline c, c_retired_overflow c)"

lemma ret_state_retire:
  "ret_state c = ret_state c' \<Longrightarrow> ret_state (retire_replaced n c) = ret_state (retire_replaced n c')"
  by (auto simp: ret_state_def retire_replaced_def)

lemma ret_state_fold:
  "ret_state c = ret_state c' \<Longrightarrow>
     ret_state (fold retire_replaced R c) = ret_state (fold retire_replaced R c')"
  by (induction R arbitrary: c c') (auto dest: ret_state_retire)

section \<open>The retirement list of one task\<close>

lemma retire_fold:
  assumes "retired_ok c" "c_gc_enabled c" "c_retired_count c + length R < 65535" "nullptr \<notin> set R"
  shows "retired_ok (fold retire_replaced R c) \<and>
    mset (retired_nodes (fold retire_replaced R c)) = mset (retired_nodes c) + mset R"
  using assms
proof (induction R arbitrary: c)
  case (Cons a R)
  let ?c = "retire_replaced a c"
  have lt: "c_retired_count c < 65535" using Cons.prems(3) by simp
  have "retired_ok ?c" by (rule retire_replaced_ok [OF Cons.prems(1) lt])
  moreover have "mset (retired_nodes ?c) = add_mset a (mset (retired_nodes c))"
    using Cons.prems by (intro retire_replaced_nodes lt) auto
  moreover have "c_retired_count ?c + length R < 65535"
    using retire_replaced_count [OF lt, of a] Cons.prems(3) by simp
  ultimately show ?case using Cons.IH [of ?c] Cons.prems by simp
qed simp

lemma retire_fold_off: "\<not> c_gc_enabled c \<Longrightarrow> fold retire_replaced R c = c"
  by (induction R) (simp_all add: retire_replaced_off)

lemma ret_state_retired:
  "ret_state c = ret_state c' \<Longrightarrow> retired_ok c = retired_ok c' \<and> retired_nodes c = retired_nodes c' \<and>
     c_gc_enabled c = c_gc_enabled c'"
  by (simp add: ret_state_def retired_ok_def retired_nodes_eq)

lemma fold_retire_gc: "c_gc_enabled (fold retire_replaced R c) = c_gc_enabled c"
  by (induction R arbitrary: c) simp_all

lemma drain_retired_count:
  "retired_ok c \<Longrightarrow> fst (snd (drain_retired c)) = length (fst (drain_retired c))"
  by (cases "c_retired_count c \<le> 6") (simp_all add: drain_retired_def retired_ok_def Let_def RETIRED_INLINE_CAPACITY_def)

text \<open>
  C16: the nodes that \<open>drain_retired\<close> hands over are exactly those recorded since the list was empty, each as
  often as it was recorded; it returns their number and leaves an empty list. The two storage levels (six
  inline cells, blocks of fourteen) lose and duplicate nothing, as long as the 16-bit count does not wrap.
\<close>

theorem retired_roundtrip:
  assumes "retired_ok c" "retired_nodes c = []" "c_gc_enabled c" "length R < 65535" "nullptr \<notin> set R"
  shows "case drain_retired (fold retire_replaced R c) of (nodes, n, c') \<Rightarrow>
    mset nodes = mset R \<and> n = length R \<and> retired_ok c' \<and> retired_nodes c' = []"
proof -
  let ?d = "drain_retired (fold retire_replaced R c)"
  have "fst (snd (drain_retired c)) = 0"
    using drain_retired_count [OF assms(1)] assms(2) by (simp add: retired_nodes_def)
  then have "c_retired_count c = 0" by (simp add: drain_retired_def Let_def)
  then have R: "retired_ok (fold retire_replaced R c)" "mset (fst ?d) = mset R"
    using retire_fold [OF assms(1,3) _ assms(5)] assms(2,4) by (simp_all add: retired_nodes_def)
  moreover have "fst (snd ?d) = length R"
    using drain_retired_count [OF R(1)] mset_eq_length [OF R(2)] by simp
  ultimately show ?thesis using drain_retired_empties [OF R(1)] by (simp add: split_def)
qed

definition ex_empty_ctx :: ctx where
  "ex_empty_ctx = \<lparr>c_op = OP_INIT, c_retry = False, c_wait_child = False, c_wait_subtree = False,
     c_new_checkpoint = False, c_gc_enabled = True, c_checkpoint_rebuilt = False, c_sno = 1, c_cno = 0,
     c_root = 0, c_t_cur = 0, c_t_past = 0, c_key = 0, c_val = 0,
     c_retired_inline = replicate 6 0, c_retired_overflow = [], c_retired_count = 0, c_fat_slots = 0\<rparr>"

theorem retired_roundtrip_witness:
  "\<exists>nodes c'. drain_retired (fold retire_replaced [1 ..< 40] ex_empty_ctx) = (nodes, 39, c') \<and> mset nodes = mset [1 ..< 40]"
proof -
  have "retired_ok ex_empty_ctx" "retired_nodes ex_empty_ctx = []" "c_gc_enabled ex_empty_ctx"
    by (simp_all add: retired_ok_def retired_nodes_eq ex_empty_ctx_def RETIRED_INLINE_CAPACITY_def)
  from retired_roundtrip [OF this, of "[1 ..< 40]"] show ?thesis
    by (cases "drain_retired (fold retire_replaced [1 ..< 40] ex_empty_ctx)") (simp add: split_def)
qed

end
