(* ===== verification/BT_Cow.thy ===== *)
theory BT_Cow
  imports BT_Tree Update_Context
begin

text \<open>
  The path-copying update of the B+Tree: \<^verbatim>\<open>context.hpp\<close>, \<^verbatim>\<open>update_cow.hpp\<close> and \<^verbatim>\<open>handlers.hpp\<close> of
  \<^verbatim>\<open>lib/trees/btree\<close>. A handler takes the update context and the store and returns the next operand,
  the new context and the new store; \<open>None\<close> is undefined behaviour (an access outside an array or
  through a pointer to no node). Operands are the numbers of the source.
\<close>

definition BT_SEARCH_DOWN :: nat where "BT_SEARCH_DOWN = 1"
definition BT_SEARCH_SPLIT :: nat where "BT_SEARCH_SPLIT = 2"
definition BT_FAT_APPEND :: nat where "BT_FAT_APPEND = 3"
definition BT_MATERIALIZE :: nat where "BT_MATERIALIZE = 4"

record bt_ctx = ctx +
  c_split_idx :: nat
  c_worker_fat :: bool
  c_leaf_pair :: bool

section \<open>Materialising a leaf\<close>

text \<open>The slots that become part of the new leaf, and the update itself as the last record.\<close>

definition overlay_records :: "delta_block option \<Rightarrow> u32 \<Rightarrow> u64 \<Rightarrow> u64 \<Rightarrow> leaf_record list" where
  "overlay_records d sno key val =
     (case d of None \<Rightarrow> []
      | Some b \<Rightarrow> map slot_record
                   (filter (\<lambda>sl. ds_version sl \<noteq> 0 \<and> ds_version sl \<le> ucast sno)
                     (take (db_capacity b) (db_slots b))))
     @ [\<lparr>lr_key = key, lr_value = val, lr_version = ucast sno\<rparr>]"

text \<open>The merge of the sorted base records with the newest record of every overlay key.\<close>

fun merge_overlay :: "leaf_record list \<Rightarrow> leaf_record list \<Rightarrow> leaf_record list" where
  "merge_overlay [] ds = ds"
| "merge_overlay bs [] = bs"
| "merge_overlay (b # bs) (d # ds) =
     (if lr_key b < lr_key d then b # merge_overlay bs (d # ds)
      else if lr_key b = lr_key d
           then (if lr_version b > lr_version d then b else d) # merge_overlay bs ds
           else d # merge_overlay (b # bs) ds)"

definition leaf_of_records :: "u32 \<Rightarrow> leaf_record list \<Rightarrow> bt_node" where
  "leaf_of_records ver rs =
     (bt_new_leaf ver (length rs))\<lparr>bn_keys := map lr_key rs, bn_vals := map lr_value rs\<rparr>"

text \<open>
  \<open>materialize_leaf_cow\<close>: one leaf if the records fit, else two halves. The overlay array has nine
  cells.
\<close>

definition materialize_leaf_cow ::
    "bt_node \<Rightarrow> u32 \<Rightarrow> u64 \<Rightarrow> u64 \<Rightarrow> bt_store \<Rightarrow> ((u64 \<times> addr \<times> addr) \<times> bt_store) option" where
  "materialize_leaf_cow t sno key val s =
     (let overlay = overlay_records (bt_leaf_delta t) sno key val;
          records = merge_overlay (base_records (bn_ver t) (bn_keys t) (bn_vals t))
                      (newest_runs (sort_records overlay));
          n = length records
      in if length overlay > BT_MAX_FAT_SLOTS + 1 then None
         else if n \<le> 2 * BT_B - 1
              then let (l, s1) = alloc (leaf_of_records sno records) s in Some ((key, l, nullptr), s1)
              else let (l, s1) = alloc (leaf_of_records sno (take (n div 2) records)) s;
                       (r, s2) = alloc (leaf_of_records sno (drop (n div 2) records)) s1
                   in Some ((lr_key (records ! (n div 2)), l, r), s2))"

text \<open>
  \<open>prepare_leaf_cow\<close> builds the keys of the new leaves only: their values are filled in by
  \<open>finish_leaf_cow\<close>, once the values of the old leaf are all published. \<open>std::set_union\<close> keeps the
  base key of two equal ones.
\<close>

fun set_union_keys :: "u64 list \<Rightarrow> u64 list \<Rightarrow> u64 list" where
  "set_union_keys [] ys = ys"
| "set_union_keys xs [] = xs"
| "set_union_keys (x # xs) (y # ys) =
     (if x < y then x # set_union_keys xs (y # ys)
      else if y < x then y # set_union_keys (x # xs) ys
      else x # set_union_keys xs ys)"

definition overlay_keys :: "delta_block option \<Rightarrow> u32 \<Rightarrow> u64 \<Rightarrow> u64 list" where
  "overlay_keys d sno key =
     (case d of None \<Rightarrow> []
      | Some b \<Rightarrow> map ds_key
                   (filter (\<lambda>sl. ds_version sl AND NOT DELTA_PENDING \<noteq> 0 \<and>
                                 ds_version sl AND NOT DELTA_PENDING \<le> ucast sno)
                     (take (db_capacity b) (db_slots b))))
     @ [key]"

definition prepare_leaf_cow ::
    "bt_node \<Rightarrow> u32 \<Rightarrow> u64 \<Rightarrow> bt_store \<Rightarrow> ((u64 \<times> addr \<times> addr) \<times> bt_store) option" where
  "prepare_leaf_cow t sno key s =
     (let overlay = overlay_keys (bt_leaf_delta t) sno key;
          keys = set_union_keys (bn_keys t) (remdups_adj (sort overlay));
          n = length keys;
          left_size = (if n \<le> 2 * BT_B - 1 then n else n div 2);
          (l, s1) = alloc ((bt_new_leaf sno left_size)\<lparr>bn_keys := take left_size keys\<rparr>) s
      in if length overlay > BT_MAX_FAT_SLOTS + 1 then None
         else if n > left_size
              then let (r, s2) = alloc ((bt_new_leaf sno (n - left_size))
                                          \<lparr>bn_keys := drop left_size keys\<rparr>) s1
                   in Some ((keys ! left_size, l, r), s2)
              else Some ((key, l, nullptr), s1))"

text \<open>
  \<open>finish_leaf_cow\<close> spins until the source leaf is complete and no slot of it is pending. The guard
  of the two spin loops is \<open>bt_source_ready\<close>; while it fails the handler does not progress.
\<close>

definition bt_source_ready :: "bt_node \<Rightarrow> bool" where
  "bt_source_ready t \<longleftrightarrow>
     (bn_ver t = 0 \<or> bt_is_cow_ready t) \<and>
     (case bt_leaf_delta t of None \<Rightarrow> True
      | Some b \<Rightarrow> \<forall>sl \<in> set (take (db_capacity b) (db_slots b)). ds_version sl AND DELTA_PENDING = 0)"

text \<open>The one pass over the source: \<open>j\<close> is \<open>source_index\<close>.\<close>

fun copy_source_vals :: "u64 list \<Rightarrow> u64 list \<Rightarrow> u64 list \<Rightarrow> nat \<Rightarrow> u64 list \<times> nat" where
  "copy_source_vals sks svs [] j = ([], j)"
| "copy_source_vals sks svs (k # ks) j =
     (let j' = j + findval (drop j sks) k;
          v = (if j' < length sks \<and> sks ! j' = k then svs ! j' else 0);
          (vs, j'') = copy_source_vals sks svs ks j'
      in (v # vs, j''))"

definition put_leaf_val :: "u64 \<Rightarrow> u64 \<Rightarrow> bt_node \<Rightarrow> bt_node option" where
  "put_leaf_val key v t =
     (if bt_findval t key < length (bn_vals t)
      then Some (t\<lparr>bn_vals := (bn_vals t)[bt_findval t key := v]\<rparr>) else None)"

text \<open>Writing one record into the left or the right destination.\<close>

definition put_pair_val ::
    "u64 \<Rightarrow> u64 \<Rightarrow> bt_node \<times> bt_node option \<Rightarrow> (bt_node \<times> bt_node option) option" where
  "put_pair_val key v p =
     (case p of
        (l, None) \<Rightarrow> do { l' \<leftarrow> put_leaf_val key v l; Some (l', None) }
      | (l, Some r) \<Rightarrow>
          do { k0 \<leftarrow> nth_opt (bn_keys r) 0;
               if k0 \<le> key then do { r' \<leftarrow> put_leaf_val key v r; Some (l, Some r') }
               else do { l' \<leftarrow> put_leaf_val key v l; Some (l', Some r) } })"

fun put_pair_vals ::
    "(u64 \<times> u64) list \<Rightarrow> bt_node \<times> bt_node option \<Rightarrow> (bt_node \<times> bt_node option) option" where
  "put_pair_vals [] p = Some p"
| "put_pair_vals ((k, v) # es) p = do { p' \<leftarrow> put_pair_val k v p; put_pair_vals es p' }"

text \<open>The new contents of the destinations: base values, then the slots in ticket order, then the update.\<close>

definition finish_pair ::
    "bt_node \<Rightarrow> u32 \<Rightarrow> u64 \<Rightarrow> u64 \<Rightarrow> bt_node \<Rightarrow> bt_node option \<Rightarrow> (bt_node \<times> bt_node option) option" where
  "finish_pair source sno key val l r =
     (let (lv, j) = copy_source_vals (bn_keys source) (bn_vals source) (bn_keys l) 0;
          l1 = l\<lparr>bn_vals := lv\<rparr>;
          r1 = map_option (\<lambda>n. n\<lparr>bn_vals :=
                 fst (copy_source_vals (bn_keys source) (bn_vals source) (bn_keys n) j)\<rparr>) r;
          slots = (case bt_leaf_delta source of None \<Rightarrow> []
                   | Some b \<Rightarrow> map (\<lambda>sl. (ds_key sl, ds_value sl))
                       (filter (\<lambda>sl. ds_version sl \<noteq> 0 \<and> ds_version sl \<le> ucast sno)
                         (take (db_capacity b) (db_slots b))))
      in do { (l2, r2) \<leftarrow> put_pair_vals (slots @ [(key, val)]) (l1, r1);
              Some (l2\<lparr>bn_cow_ready := True\<rparr>, map_option (\<lambda>n. n\<lparr>bn_cow_ready := True\<rparr>) r2) })"

definition finish_leaf_cow :: "bt_ctx \<Rightarrow> bt_store \<Rightarrow> bt_store option" where
  "finish_leaf_cow c s = do {
     source \<leftarrow> cells s (c_t_past c);
     (la, ra) \<leftarrow>
       (if c_t_cur c = nullptr then Some (c_root c, nullptr)
        else do {
          p \<leftarrow> cells s (c_t_cur c);
          la \<leftarrow> nth_opt (bn_chs p) (c_split_idx c);
          ra \<leftarrow> (if c_leaf_pair c then nth_opt (bn_chs p) (c_split_idx c + 1) else Some nullptr);
          Some (la, ra) });
     l \<leftarrow> cells s la;
     if ra = nullptr
     then do { (l', r') \<leftarrow> finish_pair source (c_sno c) (c_key c) (c_val c) l None; put la l' s }
     else do {
       r \<leftarrow> cells s ra;
       (l', r') \<leftarrow> finish_pair source (c_sno c) (c_key c) (c_val c) l (Some r);
       s1 \<leftarrow> put la l' s;
       (case r' of None \<Rightarrow> None | Some n \<Rightarrow> put ra n s1) } }"

section \<open>Updating a leaf\<close>

definition bt_leaf_with :: "u32 \<Rightarrow> u64 list \<Rightarrow> u64 list \<Rightarrow> bt_node" where
  "bt_leaf_with ver ks vs = (bt_new_leaf ver (length ks))\<lparr>bn_keys := ks, bn_vals := vs\<rparr>"

text \<open>
  \<open>update_leaf_cow\<close>: replace the value, insert, or insert into one of two halves. The second pointer
  of the result is null when the leaf was not split.
\<close>

definition update_leaf_cow ::
    "bt_node \<Rightarrow> bt_ctx \<Rightarrow> bt_store \<Rightarrow> ((u64 \<times> addr \<times> addr) \<times> bt_store) option" where
  "update_leaf_cow t c s =
     (if c_worker_fat c then prepare_leaf_cow t (c_sno c) (c_key c) s
      else if supported_fat_slots (c_fat_slots c)
      then materialize_leaf_cow t (c_sno c) (c_key c) (c_val c) s
      else
        let ver = c_sno c; key = c_key c; val = c_val c; i = bt_findval t key; sz = bn_size t
        in if i < sz \<and> bn_keys t ! i = key
           then let n = bt_copy_leaf ver t;
                    (a, s1) = alloc (n\<lparr>bn_vals := (bn_vals n)[i := val]\<rparr>) s
                in Some ((key, a, nullptr), s1)
           else if sz < 2 * BT_B - 1
           then do {
             ks \<leftarrow> array_copy_insert (replicate (sz + 1) 0) (bn_keys t) sz i key;
             vs \<leftarrow> array_copy_insert (replicate (sz + 1) 0) (bn_vals t) sz i val;
             let (a, s1) = alloc (bt_leaf_with ver ks vs) s;
             Some ((key, a, nullptr), s1) }
           else do {
             (lk, lv, rk, rv) \<leftarrow>
               (if i < BT_B
                then do {
                  lk \<leftarrow> array_copy_insert (replicate BT_B 0) (bn_keys t) (BT_B - 1) i key;
                  lv \<leftarrow> array_copy_insert (replicate BT_B 0) (bn_vals t) (BT_B - 1) i val;
                  rk \<leftarrow> array_copy (replicate BT_B 0) (drop (BT_B - 1) (bn_keys t)) BT_B;
                  rv \<leftarrow> array_copy (replicate BT_B 0) (drop (BT_B - 1) (bn_vals t)) BT_B;
                  Some (lk, lv, rk, rv) }
                else do {
                  lk \<leftarrow> array_copy (replicate BT_B 0) (bn_keys t) BT_B;
                  lv \<leftarrow> array_copy (replicate BT_B 0) (bn_vals t) BT_B;
                  rk \<leftarrow> array_copy_insert (replicate BT_B 0) (drop BT_B (bn_keys t)) (BT_B - 1) (i - BT_B) key;
                  rv \<leftarrow> array_copy_insert (replicate BT_B 0) (drop BT_B (bn_vals t)) (BT_B - 1) (i - BT_B) val;
                  Some (lk, lv, rk, rv) });
             let (l, s1) = alloc (bt_leaf_with ver lk lv) s;
             let (r, s2) = alloc (bt_leaf_with ver rk rv) s1;
             Some ((rk ! 0, l, r), s2) })"

section \<open>The pipeline stages\<close>

text \<open>\<open>update_cow\<close>: the node at \<open>t_cur\<close> is complete; replace its child on the path of the key.\<close>

definition bt_update_cow :: "bt_ctx \<Rightarrow> bt_store \<Rightarrow> (nat \<times> bt_ctx \<times> bt_store) option" where
  "bt_update_cow c s = do {
     cur \<leftarrow> cells s (c_t_cur c);
     let i = bt_findch cur (c_key c);
     pa \<leftarrow> nth_opt (bn_chs cur) i;
     p \<leftarrow> cells s pa;
     let c = c\<lparr>c_t_past := pa\<rparr>;
     if bn_type p = BT_LEAF then do {
       ((k, l, r), s1) \<leftarrow> update_leaf_cow p c s;
       cur' \<leftarrow> (if r = nullptr then Some (cur\<lparr>bn_chs := (bn_chs cur)[i := l]\<rparr>)
               else bt_insert_child cur k l r i);
       s2 \<leftarrow> put (c_t_cur c) cur' s1;
       let c1 = retire_replaced pa c;
       s3 \<leftarrow> bt_publish_cow_ready (c_t_cur c1) s2;
       if c_worker_fat c1
       then Some (BT_MATERIALIZE, c1\<lparr>c_split_idx := i, c_leaf_pair := (r \<noteq> nullptr)\<rparr>, s3)
       else Some (OP_DONE, c1, s3) }
     else if bn_size p = 2 * BT_B - 1 then do {
       (k, l, r) \<leftarrow> bt_split (c_sno c) p;
       let (la, s1) = alloc l s;
       let (ra, s2) = alloc r s1;
       cur' \<leftarrow> bt_insert_child cur k la ra i;
       s3 \<leftarrow> put (c_t_cur c) cur' s2;
       let c1 = retire_replaced pa (c\<lparr>c_split_idx := i\<rparr>);
       s4 \<leftarrow> bt_publish_cow_ready (c_t_cur c1) s3;
       Some (BT_SEARCH_SPLIT, c1, s4) }
     else do {
       let (na, s1) = alloc (bt_copy_internal (c_sno c) p) s;
       s2 \<leftarrow> put (c_t_cur c) (cur\<lparr>bn_chs := (bn_chs cur)[i := na]\<rparr>) s1;
       let c1 = retire_replaced pa (c\<lparr>c_t_cur := na\<rparr>);
       s3 \<leftarrow> bt_publish_cow_ready (c_t_cur c) s2;
       Some (BT_SEARCH_DOWN, c1, s3) } }"

text \<open>\<open>handle_init_cow\<close>: the entry stage, on the root \<open>t_past\<close> of the previous version.\<close>

definition bt_handle_init_cow :: "bt_ctx \<Rightarrow> bt_store \<Rightarrow> (nat \<times> bt_ctx \<times> bt_store) option" where
  "bt_handle_init_cow c s = do {
     let pa = c_t_past c;
     p \<leftarrow> cells s pa;
     if bn_type p = BT_LEAF then do {
       ((k, l, r), s1) \<leftarrow> update_leaf_cow p c s;
       let (root, s2) = (if r = nullptr then (l, s1) else alloc (bt_new_root (c_sno c) k l r) s1);
       let c1 = retire_replaced pa (c\<lparr>c_root := root\<rparr>);
       if c_worker_fat c1
       then do {
         let c2 = c1\<lparr>c_t_cur := (if r \<noteq> nullptr then root else nullptr), c_split_idx := 0,
                     c_leaf_pair := (r \<noteq> nullptr)\<rparr>;
         s3 \<leftarrow> (if r \<noteq> nullptr then bt_publish_cow_ready root s2 else Some s2);
         Some (BT_MATERIALIZE, c2, s3) }
       else Some (OP_DONE, c1, s2) }
     else do {
       (root, cur, s3) \<leftarrow>
         (if bn_size p < 2 * BT_B - 1 then do {
            let (na, s1) = alloc (bt_copy_internal (c_sno c) p) s;
            s2 \<leftarrow> bt_copych na pa s1;
            Some (na, na, s2) }
          else do {
            (k, l, r) \<leftarrow> bt_split (c_sno c) p;
            let (la, s1) = alloc l s;
            let (ra, s2) = alloc r s1;
            let (root, s3) = alloc (bt_new_root (c_sno c) k la ra) s2;
            s4 \<leftarrow> bt_copych_split la ra pa s3;
            Some (root, if c_key c < k then la else ra, s4) });
       let c1 = retire_replaced pa (c\<lparr>c_root := root, c_t_cur := cur\<rparr>);
       (op, c2, s4) \<leftarrow> bt_update_cow c1 s3;
       if root \<noteq> cur then do {
         t \<leftarrow> cells s4 root;
         ch0 \<leftarrow> nth_opt (bn_chs t) 0;
         sib \<leftarrow> nth_opt (bn_chs t) (if ch0 = cur then 1 else 0);
         s5 \<leftarrow> bt_publish_cow_ready sib s4;
         s6 \<leftarrow> bt_publish_cow_ready root s5;
         Some (op, c2, s6) }
       else Some (op, c2, s4) } }"

text \<open>\<open>handle_init\<close>: try the append to the leaf's version buffer first.\<close>

definition bt_handle_init :: "bt_ctx \<Rightarrow> bt_store \<Rightarrow> (nat \<times> bt_ctx \<times> bt_store) option" where
  "bt_handle_init c s =
     (if supported_fat_slots (c_fat_slots c) then do {
        leaf \<leftarrow> bt_descend s (c_t_past c) (c_key c);
        (ok, s1) \<leftarrow> bt_append_leaf_delta leaf (c_fat_slots c) (ucast (c_sno c)) (c_key c) (c_val c) s;
        if ok then Some (OP_DONE, c\<lparr>c_root := c_t_past c\<rparr>, s1)
        else bt_handle_init_cow c s1 }
      else bt_handle_init_cow c s)"

definition bt_handle_search_down :: "bt_ctx \<Rightarrow> bt_store \<Rightarrow> (nat \<times> bt_ctx \<times> bt_store) option" where
  "bt_handle_search_down c s = do {
     s1 \<leftarrow> bt_copych (c_t_cur c) (c_t_past c) s;
     bt_update_cow c s1 }"

definition bt_handle_search_split :: "bt_ctx \<Rightarrow> bt_store \<Rightarrow> (nat \<times> bt_ctx \<times> bt_store) option" where
  "bt_handle_search_split c s = do {
     let i = c_split_idx c;
     cur \<leftarrow> cells s (c_t_cur c);
     t0 \<leftarrow> nth_opt (bn_chs cur) i;
     t1 \<leftarrow> nth_opt (bn_chs cur) (i + 1);
     s1 \<leftarrow> bt_copych_split t0 t1 (c_t_past c) s;
     k \<leftarrow> nth_opt (bn_keys cur) i;
     let c1 = c\<lparr>c_t_cur := (if k \<le> c_key c then t1 else t0)\<rparr>;
     s2 \<leftarrow> bt_publish_cow_ready (if k > c_key c then t1 else t0) s1;
     bt_update_cow c1 s2 }"

text \<open>The two workers of the concurrent fat controller.\<close>

definition bt_handle_fat_append :: "bt_ctx \<Rightarrow> bt_store \<Rightarrow> (nat \<times> bt_ctx \<times> bt_store) option" where
  "bt_handle_fat_append c s = do {
     t \<leftarrow> cells s (c_t_cur c);
     b \<leftarrow> bt_leaf_delta t;
     sl \<leftarrow> nth_opt (db_slots b) (c_split_idx c);
     let b' = b\<lparr>db_slots := (db_slots b)[c_split_idx c :=
                 sl\<lparr>ds_value := c_val c, ds_version := ucast (c_sno c)\<rparr>]\<rparr>;
     s1 \<leftarrow> put (c_t_cur c) (t\<lparr>bn_delta := Some b'\<rparr>) s;
     Some (OP_DONE, c, s1) }"

definition bt_handle_materialize :: "bt_ctx \<Rightarrow> bt_store \<Rightarrow> (nat \<times> bt_ctx \<times> bt_store) option" where
  "bt_handle_materialize c s = do {
     source \<leftarrow> cells s (c_t_past c);
     if bt_source_ready source
     then do { s1 \<leftarrow> finish_leaf_cow c s; Some (OP_DONE, c, s1) }
     else Some (BT_MATERIALIZE, c, s) }"

definition bt_table :: "(bt_ctx, bt_store) handler_table" where
  "bt_table =
     [Some bt_handle_init, Some bt_handle_search_down, Some bt_handle_search_split,
      Some bt_handle_fat_append, Some bt_handle_materialize,
      None, None, None, None, None, None, None, None, None, None, None]"

definition bt_handlers :: "nat \<Rightarrow> bt_ctx \<Rightarrow> bt_store \<Rightarrow> (nat \<times> bt_ctx \<times> bt_store) option" where
  "bt_handlers = call_handler bt_table"

lemma bt_handlers_eq:
  "bt_handlers op =
     (if op = OP_INIT then bt_handle_init
      else if op = BT_SEARCH_DOWN then bt_handle_search_down
      else if op = BT_SEARCH_SPLIT then bt_handle_search_split
      else if op = BT_FAT_APPEND then bt_handle_fat_append
      else if op = BT_MATERIALIZE then bt_handle_materialize
      else (\<lambda>c s. None))"
proof (cases "op < 16")
  case True
  then have "op \<in> set [0..<16]" by simp
  then show ?thesis
    unfolding bt_handlers_def bt_table_def call_handler_def
    by (auto simp: upt_rec OP_INIT_def BT_SEARCH_DOWN_def BT_SEARCH_SPLIT_def BT_FAT_APPEND_def BT_MATERIALIZE_def)
qed (simp add: bt_handlers_def bt_table_def OP_INIT_def BT_SEARCH_DOWN_def BT_SEARCH_SPLIT_def BT_FAT_APPEND_def BT_MATERIALIZE_def)

text \<open>One whole update: \<open>handlers[0]\<close> and then the loop (\<^verbatim>\<open>exec_task_\<close> of the scheduler).\<close>

definition bt_exec :: "bt_ctx \<Rightarrow> bt_store \<Rightarrow> (bt_ctx \<times> bt_store) option" where
  "bt_exec c s = do {
     (op, c1, s1) \<leftarrow> bt_handlers OP_INIT c s;
     run_handlers bt_handlers op c1 s1 }"

end
