(* ===== verification/BT_Leaf_Correct.thy ===== *)
theory BT_Leaf_Correct
  imports BT_Cow
begin

text \<open>
  What \<open>update_leaf_cow\<close> produces: one or two fresh leaves without version buffer whose entries are
  the newest values of the old leaf with the update applied. Both the plain path and the
  materialisation of a version buffer are covered.
\<close>

section \<open>Entries of a leaf at the newest version\<close>

definition leaf_latest :: "bt_node \<Rightarrow> u64 \<Rightarrow> u64 option" where
  "leaf_latest t = last_value (leaf_records t UINT64_MAX)"

definition is_leaf :: "u32 \<Rightarrow> (u64 \<times> u64) list \<Rightarrow> bt_node \<Rightarrow> bool" where
  "is_leaf ver es t \<longleftrightarrow>
     bn_type t = BT_LEAF \<and> bn_ver t = ver \<and> bn_keys t = map fst es \<and> bn_vals t = map snd es \<and>
     bn_delta t = None"

definition leaf_updated :: "bt_node \<Rightarrow> u64 \<Rightarrow> u64 \<Rightarrow> (u64 \<times> u64) list \<Rightarrow> bool" where
  "leaf_updated t k v es \<longleftrightarrow>
     sorted_wrt (<) (map fst es) \<and> (\<forall>x. map_of es x = ((leaf_latest t)(k \<mapsto> v)) x) \<and>
     bn_size t \<le> length es \<and> es \<noteq> [] \<and> length es \<le> 24 \<and>
     fst ` set es \<subseteq> insert k (leaf_keyset UINT64_MAX t)"

lemma UINT64_MAX_ge [simp]: "u \<le> UINT64_MAX"
  by (simp add: UINT64_MAX_def)

lemma last_value_base_map:
  assumes "sorted_wrt (<) ks" and "length vs = length ks"
  shows "last_value (base_records ver ks vs) k = map_of (zip ks vs) k"
  using record_map_strict [of "base_records ver ks vs" k] assms
  by (simp add: record_map_def base_records_def comp_def case_prod_beta)

lemma leaf_latest_eq:
  assumes "leaf_ok slots hi t"
  shows "leaf_latest t x =
    (case last_value (case bn_delta t of None \<Rightarrow> [] | Some b \<Rightarrow> map slot_record (db_used b)) x of
       None \<Rightarrow> map_of (zip (bn_keys t) (bn_vals t)) x | Some y \<Rightarrow> Some y)"
proof (cases "bn_delta t")
  case None
  have "leaf_records t UINT64_MAX = base_records (bn_ver t) (bn_keys t) (bn_vals t)"
    by (rule leaf_records_None [OF assms None])
  with None show ?thesis
    using assms by (simp add: leaf_latest_def last_value_base_map leaf_ok_def)
next
  case (Some b)
  have "visible_records UINT64_MAX (Some b) = map slot_record (db_used b)"
    by (simp add: visible_records_used [OF leaf_ok_delta_ok [OF assms Some]])
  then show ?thesis
    using assms
    by (simp add: leaf_latest_def leaf_records_def leaf_ok_leaf_delta [OF assms] Some last_value_base_map leaf_ok_def
        cong: option.case_cong)
qed

lemma is_leaf_ok:
  assumes "is_leaf ver es t" "sorted_wrt (<) (map fst es)" "length es \<le> 15"
  shows "leaf_ok slots ver t" "leaf_latest t = map_of es" "leaf_records t u = leaf_records t UINT64_MAX"
    "leaf_keyset w t = fst ` set es"
proof -
  show "leaf_ok slots ver t"
    using assms by (simp add: is_leaf_def leaf_ok_def BT_B_def)
  then show "leaf_latest t = map_of es"
    using assms by (simp add: fun_eq_iff leaf_latest_eq is_leaf_def zip_map_fst_snd)
  show "leaf_records t u = leaf_records t UINT64_MAX"
    using assms by (simp add: leaf_records_def is_leaf_def bt_leaf_delta_def)
  show "leaf_keyset w t = fst ` set es"
    using assms by (simp add: is_leaf_def leaf_keyset_def)
qed

section \<open>Merging the overlay into the base\<close>

lemma merge_overlay_keys: "lr_key ` set (merge_overlay bs ds) = lr_key ` (set bs \<union> set ds)"
  by (induction bs ds rule: merge_overlay.induct) auto

lemma merge_overlay_length:
  "length (merge_overlay bs ds) \<le> length bs + length ds"
  "length bs \<le> length (merge_overlay bs ds)"
  by (induction bs ds rule: merge_overlay.induct) auto

lemma strict_Cons_image:
  "sorted_wrt (<) (map lr_key (r # rs)) \<longleftrightarrow>
     (\<forall>x \<in> lr_key ` set rs. lr_key r < x) \<and> sorted_wrt (<) (map lr_key rs)"
  by auto

lemma merge_overlay_strict:
  "sorted_wrt (<) (map lr_key bs) \<Longrightarrow> sorted_wrt (<) (map lr_key ds) \<Longrightarrow>
     sorted_wrt (<) (map lr_key (merge_overlay bs ds))"
proof (induction bs ds rule: merge_overlay.induct)
  case (3 b bs d ds)
  consider "lr_key b < lr_key d" | "lr_key b = lr_key d" | "lr_key d < lr_key b"
    by (rule linorder_cases)
  then show ?case
  proof cases
    case 1
    have "\<forall>x \<in> lr_key ` set (merge_overlay bs (d # ds)). lr_key b < x"
      using 1 3(4,5) by (auto simp: merge_overlay_keys intro: less_trans)
    then show ?thesis
      using 1 3 by (simp add: strict_Cons_image del: sorted_wrt.simps list.map)
  next
    case 2
    have "\<forall>x \<in> lr_key ` set (merge_overlay bs ds). lr_key b < x"
      using 2 3(4,5) by (auto simp: merge_overlay_keys)
    then show ?thesis
      using 2 3 by (simp add: strict_Cons_image del: sorted_wrt.simps list.map)
  next
    case gt: 3
    have "\<forall>x \<in> lr_key ` set (merge_overlay (b # bs) ds). lr_key d < x"
      using gt 3(4,5) by (auto simp: merge_overlay_keys intro: less_trans)
    then show ?thesis
      using gt 3 by (simp add: strict_Cons_image del: sorted_wrt.simps list.map)
  qed
qed simp_all

lemma last_value_merge_overlay:
  assumes "sorted_wrt (<) (map lr_key bs)" and "sorted_wrt (<) (map lr_key ds)"
    and "\<forall>b \<in> set bs. \<forall>d \<in> set ds. lr_version b \<le> lr_version d"
  shows "last_value (merge_overlay bs ds) k =
    (case last_value ds k of None \<Rightarrow> last_value bs k | Some v \<Rightarrow> Some v)"
  using assms
proof (induction bs ds rule: merge_overlay.induct)
  case (3 b bs d ds)
  have none: "last_value bs (lr_key d) = None" if "lr_key d \<le> lr_key b"
    using 3(4) that by (fastforce simp: last_value_None_iff)
  have none': "last_value ds (lr_key b) = None" if "lr_key b \<le> lr_key d"
    using 3(5) that by (fastforce simp: last_value_None_iff)
  show ?case
    using 3 none none' by (cases "lr_key b" "lr_key d" rule: linorder_cases)
      (auto simp: less_imp_le split: option.splits)
qed (simp_all split: option.splits)

text \<open>The overlay: used slots, then the update, in version order.\<close>

lemma overlay_records_eq:
  assumes ok: "leaf_ok slots hi t" and "hi < sno"
  shows "overlay_records (bt_leaf_delta t) sno k v =
    (case bn_delta t of None \<Rightarrow> [] | Some b \<Rightarrow> map slot_record (db_used b)) @
    [\<lparr>lr_key = k, lr_value = v, lr_version = ucast sno\<rparr>]"
proof (cases "bn_delta t")
  case (Some b)
  have d: "delta_ok slots (bn_ver t) hi b"
    by (rule leaf_ok_delta_ok [OF ok Some])
  then have slots: "take (db_capacity b) (db_slots b) = db_used b @ drop (db_count b) (db_slots b)"
    by (simp add: delta_ok_def db_used_def)
  have used: "ds_version sl \<noteq> 0 \<and> ds_version sl \<le> ucast sno" if "sl \<in> set (db_used b)" for sl
  proof -
    have lt: "ucast (bn_ver t) < ds_version sl" and le: "ds_version sl \<le> ucast hi"
      using d that by (auto simp: delta_ok_def)
    have "(ucast hi :: u64) \<le> ucast sno"
      using assms(2) by (simp add: less_imp_le)
    with le have "ds_version sl \<le> ucast sno"
      by (rule order_trans)
    moreover have "ds_version sl \<noteq> 0"
      using lt by (intro notI) simp
    ultimately show ?thesis by simp
  qed
  have "filter (\<lambda>sl. ds_version sl \<noteq> 0 \<and> ds_version sl \<le> ucast sno) (db_used b) = db_used b"
    using used by (simp add: filter_id_conv)
  moreover have "filter (\<lambda>sl. ds_version sl \<noteq> 0 \<and> ds_version sl \<le> ucast sno)
      (drop (db_count b) (db_slots b)) = []"
    using d by (simp add: delta_ok_def filter_empty_conv)
  ultimately show ?thesis
    by (simp add: overlay_records_def leaf_ok_leaf_delta [OF ok] Some slots)
qed (simp add: overlay_records_def leaf_ok_leaf_delta [OF ok])

lemma overlay_version_ordered:
  assumes ok: "leaf_ok slots hi t" and "hi < sno"
  shows "version_ordered (overlay_records (bt_leaf_delta t) sno k v)"
proof (cases "bn_delta t")
  case None
  then show ?thesis
    by (simp add: overlay_records_eq [OF assms] version_ordered_def)
next
  case (Some b)
  have d: "delta_ok slots (bn_ver t) hi b"
    by (rule leaf_ok_delta_ok [OF ok Some])
  have "ds_version sl \<le> ucast sno" if "sl \<in> set (db_used b)" for sl
  proof -
    have "ds_version sl \<le> ucast hi" using d that by (auto simp: delta_ok_def)
    also have "ucast hi \<le> (ucast sno :: u64)" using assms(2) by (simp add: less_imp_le)
    finally show ?thesis .
  qed
  then show ?thesis
    unfolding overlay_records_eq [OF assms] Some option.case
    using used_versions_sorted [OF d] by (intro version_ordered_append) (auto simp: comp_def)
qed

lemma overlay_last_value:
  assumes ok: "leaf_ok slots hi t" and "hi < sno"
  shows "last_value (overlay_records (bt_leaf_delta t) sno k v) x =
    (if x = k then Some v
     else last_value (case bn_delta t of None \<Rightarrow> [] | Some b \<Rightarrow> map slot_record (db_used b)) x)"
  unfolding overlay_records_eq [OF assms] by simp

lemma overlay_length:
  assumes ok: "leaf_ok slots hi t" and "hi < sno"
  shows "length (overlay_records (bt_leaf_delta t) sno k v) \<le> 9"
proof (cases "bn_delta t")
  case (Some b)
  have "delta_ok slots (bn_ver t) hi b"
    by (rule leaf_ok_delta_ok [OF ok Some])
  then have "length (db_used b) \<le> 8"
    using supported_le_8 [of slots] by (simp add: delta_ok_def db_used_def)
  then show ?thesis
    unfolding overlay_records_eq [OF assms] Some by simp
qed (simp add: overlay_records_eq [OF assms])

definition materialized :: "bt_node \<Rightarrow> u32 \<Rightarrow> u64 \<Rightarrow> u64 \<Rightarrow> leaf_record list" where
  "materialized t sno k v =
     merge_overlay (base_records (bn_ver t) (bn_keys t) (bn_vals t))
       (newest_runs (sort_records (overlay_records (bt_leaf_delta t) sno k v)))"

definition record_entries :: "leaf_record list \<Rightarrow> (u64 \<times> u64) list" where
  "record_entries rs = map (\<lambda>r. (lr_key r, lr_value r)) rs"

lemma materialized_updated:
  assumes ok: "leaf_ok slots hi t" and "hi < sno"
  shows "leaf_updated t k v (record_entries (materialized t sno k v))"
proof -
  let ?bs = "base_records (bn_ver t) (bn_keys t) (bn_vals t)"
  let ?ov = "overlay_records (bt_leaf_delta t) sno k v"
  let ?ds = "newest_runs (sort_records ?ov)"
  let ?rs = "materialized t sno k v"
  have leaf: "length (bn_vals t) = bn_size t" "sorted_wrt (<) (bn_keys t)" "bn_size t \<le> 15" "bn_ver t \<le> hi"
    using ok by (auto simp: leaf_ok_def BT_B_def)
  have bs: "sorted_wrt (<) (map lr_key ?bs)"
    using leaf by simp
  have ds: "sorted_wrt (<) (map lr_key ?ds)"
    by (rule newest_sort_strict)
  have strict: "sorted_wrt (<) (map lr_key ?rs)"
    unfolding materialized_def by (rule merge_overlay_strict [OF bs ds])
  have ge: "ucast (bn_ver t) \<le> lr_version r" if "r \<in> set ?ds" for r
  proof -
    have "r \<in> set ?ov"
      using that newest_runs_subset [of "sort_records ?ov"] by auto
    then show ?thesis
      using overlay_records_eq [OF assms, of k v] ok \<open>bn_ver t \<le> hi\<close> assms(2)
      by (auto simp: leaf_ok_def delta_ok_def less_imp_le split: option.splits)
  qed
  have "last_value ?rs x = ((leaf_latest t)(k \<mapsto> v)) x" for x
  proof -
    have "last_value ?rs x = (case last_value ?ds x of None \<Rightarrow> last_value ?bs x | Some v \<Rightarrow> Some v)"
      unfolding materialized_def using ge
      by (intro last_value_merge_overlay [OF bs ds]) (auto dest: base_records_versions)
    also have "last_value ?ds x = last_value ?ov x"
      by (simp add: last_value_newest_runs sorted_keys_sort_records last_value_sort_records
          overlay_version_ordered [OF assms])
    also have "last_value ?bs x = map_of (zip (bn_keys t) (bn_vals t)) x"
      using leaf by (simp add: last_value_base_map)
    finally show ?thesis
      by (simp add: overlay_last_value [OF assms] leaf_latest_eq [OF ok])
  qed
  then have map: "\<forall>x. map_of (record_entries ?rs) x = ((leaf_latest t)(k \<mapsto> v)) x"
    using record_map_strict [OF strict] by (simp add: record_entries_def record_map_def)
  have "length ?ds \<le> 9"
    using newest_sort_length [of ?ov] overlay_length [OF assms, of k v] by simp
  then have len: "bn_size t \<le> length ?rs" "length ?rs \<le> 24"
    using merge_overlay_length [of ?bs ?ds] leaf by (auto simp: materialized_def)
  have ov: "lr_key ` set ?ov \<subseteq> insert k (leaf_keyset UINT64_MAX t)"
    using overlay_records_eq [OF assms, of k v]
    by (auto simp: leaf_keyset_def split: option.splits)
  moreover have "lr_key ` set ?bs = set (bn_keys t)"
    using base_records_keys [OF leaf(1), of "bn_ver t"] by (metis list.set_map)
  then have "lr_key ` set ?rs = set (bn_keys t) \<union> lr_key ` set ?ov"
    by (simp add: materialized_def merge_overlay_keys image_Un newest_sort_keys)
  ultimately have keys: "fst ` set (record_entries ?rs) \<subseteq> insert k (leaf_keyset UINT64_MAX t)"
    by (auto simp: record_entries_def image_image leaf_keyset_def)
  have "k \<in> dom (map_of (record_entries ?rs))"
    using map by auto
  then have "?rs \<noteq> []"
    by (auto simp: record_entries_def)
  then show ?thesis
    using strict map len keys by (simp add: leaf_updated_def record_entries_def comp_def)
qed

section \<open>The plain insertion\<close>

text \<open>The entries after replacing or inserting a key at its \<open>findval\<close> position.\<close>

definition entries_put :: "u64 list \<Rightarrow> u64 list \<Rightarrow> u64 \<Rightarrow> u64 \<Rightarrow> (u64 \<times> u64) list" where
  "entries_put ks vs k v =
     (let i = findval ks k; es = zip ks vs
      in take i es @ (k, v) # (if i < length ks \<and> ks ! i = k then drop (Suc i) es else drop i es))"

lemma entries_put_Cons:
  "entries_put (x # ks) (y # vs) k v =
     (if x < k then (x, y) # entries_put ks vs k v
      else if x = k then (k, v) # zip ks vs else (k, v) # (x, y) # zip ks vs)"
  by (simp add: entries_put_def Let_def)

lemma entries_put_keys:
  assumes "length vs = length ks"
  shows "set (map fst (entries_put ks vs k v)) = insert k (set ks)"
  using assms
proof (induction vs ks rule: list_induct2)
  case (Cons y vs x ks)
  then have "fst ` set (zip ks vs) = set ks"
    by (metis list.set_map map_fst_zip)
  with Cons show ?case
    by (auto simp: entries_put_Cons)
qed (simp add: entries_put_def)

lemma entries_put_strict:
  assumes "length vs = length ks" and "sorted_wrt (<) ks"
  shows "sorted_wrt (<) (map fst (entries_put ks vs k v))"
  using assms
proof (induction vs ks rule: list_induct2)
  case (Cons y vs x ks)
  have keys: "fst ` set (entries_put ks vs k v) = insert k (set ks)"
    using entries_put_keys [OF Cons.hyps] by simp
  have zip: "map fst (zip ks vs) = ks" "fst ` set (zip ks vs) = set ks"
    using Cons.hyps by (simp, metis list.set_map map_fst_zip)
  consider "x < k" | "x = k" | "k < x" by (rule linorder_cases)
  then show ?case
  proof cases
    case 1
    then have "\<forall>e \<in> set (entries_put ks vs k v). x < fst e"
      using keys Cons.prems by fastforce
    with 1 Cons show ?thesis by (simp add: entries_put_Cons)
  next
    case 2
    with Cons.prems zip show ?thesis by (auto simp: entries_put_Cons)
  next
    case 3
    have "k < a" if "a \<in> set ks" for a
      using 3 Cons.prems that by (auto intro: less_trans [of k x a])
    with 3 Cons.prems zip(1) show ?thesis by (auto simp: entries_put_Cons dest: set_zip_leftD)
  qed
qed (simp add: entries_put_def)

lemma entries_put_map:
  assumes "length vs = length ks"
  shows "map_of (entries_put ks vs k v) x = ((map_of (zip ks vs))(k \<mapsto> v)) x"
  using assms
  by (induction vs ks rule: list_induct2) (auto simp: entries_put_Cons entries_put_def [of "[]"])

lemma entries_put_length:
  assumes "length vs = length ks"
  shows "length (entries_put ks vs k v) =
       (if findval ks k < length ks \<and> ks ! findval ks k = k then length ks else Suc (length ks))"
  using assms findval_le [of ks k] by (auto simp: entries_put_def Let_def)

lemma zip_list_update_entries:
  assumes "length vs = length ks" "findval ks k < length ks" "ks ! findval ks k = k"
  shows "entries_put ks vs k v = zip ks (vs[findval ks k := v])"
  using assms
  by (intro nth_equalityI)
     (auto simp: entries_put_def Let_def nth_append nth_Cons' nth_list_update)

lemma entries_put_insert:
  assumes "length vs = length ks" "\<not> (findval ks k < length ks \<and> ks ! findval ks k = k)"
  shows "map fst (entries_put ks vs k v) = take (findval ks k) ks @ k # drop (findval ks k) ks"
    "map snd (entries_put ks vs k v) = take (findval ks k) vs @ v # drop (findval ks k) vs"
proof -
  have e: "entries_put ks vs k v = take (findval ks k) (zip ks vs) @ (k, v) # drop (findval ks k) (zip ks vs)"
    using assms(2) by (auto simp: entries_put_def Let_def)
  show "map fst (entries_put ks vs k v) = take (findval ks k) ks @ k # drop (findval ks k) ks"
    using assms(1) by (simp add: e flip: take_map drop_map)
  show "map snd (entries_put ks vs k v) = take (findval ks k) vs @ v # drop (findval ks k) vs"
    using assms(1) by (simp add: e flip: take_map drop_map)
qed

lemma entries_put_updated:
  assumes ok: "leaf_ok slots hi t" and "bn_delta t = None"
  shows "leaf_updated t k v (entries_put (bn_keys t) (bn_vals t) k v)"
proof -
  have leaf: "length (bn_vals t) = bn_size t" "sorted_wrt (<) (bn_keys t)" "bn_size t \<le> 15"
    using ok by (auto simp: leaf_ok_def BT_B_def)
  have "entries_put (bn_keys t) (bn_vals t) k v \<noteq> []"
    using entries_put_keys [OF leaf(1), of k v] by auto
  moreover have "fst ` set (entries_put (bn_keys t) (bn_vals t) k v) = insert k (leaf_keyset UINT64_MAX t)"
    using entries_put_keys [OF leaf(1)] assms(2) by (simp add: leaf_keyset_def)
  moreover have "map_of (zip (bn_keys t) (bn_vals t)) = leaf_latest t"
    using leaf_latest_eq [OF ok] assms(2) by (simp add: fun_eq_iff)
  ultimately show ?thesis
    using entries_put_strict [OF leaf(1,2)] entries_put_map [OF leaf(1)] leaf(3)
      entries_put_length [OF leaf(1), of k v]
    by (simp add: leaf_updated_def)
qed

section \<open>The result of \<open>update_leaf_cow\<close>\<close>

text \<open>One fresh leaf, or two with the first key of the right one as separator.\<close>

definition leaf_result ::
    "u32 \<Rightarrow> u64 \<Rightarrow> (u64 \<times> u64) list \<Rightarrow> bt_store \<Rightarrow> (u64 \<times> addr \<times> addr) \<times> bt_store \<Rightarrow> bool" where
  "leaf_result ver k es s res \<longleftrightarrow>
     (\<exists>n. length es \<le> 15 \<and> is_leaf ver es n \<and> res = ((k, brk s, nullptr), snd (alloc n s))) \<or>
     (\<exists>el er n m. es = el @ er \<and> 8 \<le> length el \<and> length el \<le> 15 \<and> 8 \<le> length er \<and> length er \<le> 15 \<and>
        is_leaf ver el n \<and> is_leaf ver er m \<and>
        res = ((fst (hd er), brk s, Suc (brk s)), snd (alloc m (snd (alloc n s)))))"

lemma leaf_result_split:
  assumes "es = el @ er" "8 \<le> length el" "length el \<le> 15" "8 \<le> length er" "length er \<le> 15"
    and "is_leaf ver el n" "is_leaf ver er m" "sep = fst (hd er)"
  shows "leaf_result ver k es s ((sep, brk s, Suc (brk s)), snd (alloc m (snd (alloc n s))))"
  unfolding leaf_result_def using assms by blast

lemma materialize_leaf_cow_result:
  assumes ok: "leaf_ok slots hi t" and "hi < sno"
  shows "\<exists>res. materialize_leaf_cow t sno k v s = Some res \<and>
    leaf_result sno k (record_entries (materialized t sno k v)) s res"
proof -
  let ?rs = "materialized t sno k v"
  have ov: "length (overlay_records (bt_leaf_delta t) sno k v) \<le> 9"
    by (rule overlay_length [OF assms])
  have len: "length ?rs \<le> 24"
    using materialized_updated [OF assms, of k v] by (simp add: leaf_updated_def record_entries_def)
  have leaf: "is_leaf sno (record_entries rs) (leaf_of_records sno rs)" for rs
    by (simp add: is_leaf_def leaf_of_records_def record_entries_def bt_new_leaf_def bt_new_node_def comp_def)
  show ?thesis
  proof (cases "length ?rs \<le> 15")
    case True
    then show ?thesis
      using ov leaf by (auto simp: materialize_leaf_cow_def Let_def materialized_def [symmetric]
          BT_MAX_FAT_SLOTS_def BT_B_def leaf_result_def alloc_def record_entries_def)
  next
    case False
    let ?m = "length ?rs div 2"
    have "8 \<le> ?m" "?m \<le> 15" "8 \<le> length ?rs - ?m" "length ?rs - ?m \<le> 15" "?m < length ?rs"
      using False len by linarith+
    moreover have "record_entries ?rs = record_entries (take ?m ?rs) @ record_entries (drop ?m ?rs)"
      by (simp add: record_entries_def flip: map_append)
    moreover have "fst (hd (record_entries (drop ?m ?rs))) = lr_key (?rs ! ?m)"
      using \<open>?m < length ?rs\<close> by (simp add: record_entries_def hd_map hd_drop_conv_nth)
    moreover have eq: "materialize_leaf_cow t sno k v s =
        Some ((lr_key (?rs ! ?m), brk s, Suc (brk s)),
          snd (alloc (leaf_of_records sno (drop ?m ?rs)) (snd (alloc (leaf_of_records sno (take ?m ?rs)) s))))"
      using False ov by (simp add: materialize_leaf_cow_def Let_def materialized_def [symmetric]
          BT_MAX_FAT_SLOTS_def BT_B_def alloc_def)
    moreover have "length (record_entries rs) = length rs" for rs
      by (simp add: record_entries_def)
    ultimately have "leaf_result sno k (record_entries ?rs) s
        ((lr_key (?rs ! ?m), brk s, Suc (brk s)),
          snd (alloc (leaf_of_records sno (drop ?m ?rs)) (snd (alloc (leaf_of_records sno (take ?m ?rs)) s))))"
      using leaf [of "take ?m ?rs"] leaf [of "drop ?m ?rs"]
      by (intro leaf_result_split [where el = "record_entries (take ?m ?rs)" and er = "record_entries (drop ?m ?rs)"])
         simp_all
    with eq show ?thesis by blast
  qed
qed

lemma leaf_with_is_leaf:
  "length ks = length vs \<Longrightarrow> is_leaf ver (zip ks vs) (bt_leaf_with ver ks vs)"
  by (simp add: is_leaf_def bt_leaf_with_def bt_new_leaf_def bt_new_node_def)

lemma split_insert_low:
  assumes "i \<le> 7" "length xs = 15"
  shows "take 8 (take i xs @ x # drop i xs) = take i xs @ x # take (7 - i) (drop i xs)"
    "drop 8 (take i xs @ x # drop i xs) = drop 7 xs"
proof -
  have "8 - i = Suc (7 - i)" using assms(1) by simp
  then show "take 8 (take i xs @ x # drop i xs) = take i xs @ x # take (7 - i) (drop i xs)"
    "drop 8 (take i xs @ x # drop i xs) = drop 7 xs"
    using assms by simp_all
qed

lemma split_insert_high:
  assumes "8 \<le> i" "i \<le> 15" "length xs = 15"
  shows "take 8 (take i xs @ x # drop i xs) = take 8 xs"
    "drop 8 (take i xs @ x # drop i xs) =
       take (i - 8) (drop 8 xs) @ x # take (7 - (i - 8)) (drop (i - 8) (drop 8 xs))"
  using assms by (simp_all add: min_def drop_take)

lemma update_leaf_cow_result:
  assumes ok: "leaf_ok slots hi t" and hi: "hi < c_sno c" and slots: "c_fat_slots c = slots"
    and "\<not> c_worker_fat c"
  shows "\<exists>es res. update_leaf_cow t c s = Some res \<and> leaf_updated t (c_key c) (c_val c) es \<and>
    leaf_result (c_sno c) (c_key c) es s res"
proof (cases "supported_fat_slots slots")
  case True
  then show ?thesis
    using materialize_leaf_cow_result [OF ok hi, of "c_key c" "c_val c" s]
      materialized_updated [OF ok hi, of "c_key c" "c_val c"] assms(4) slots
    by (auto simp: update_leaf_cow_def)
next
  case unsup: False
  let ?k = "c_key c" and ?v = "c_val c" and ?ver = "c_sno c"
  let ?ks = "bn_keys t" and ?vs = "bn_vals t"
  let ?i = "findval ?ks ?k"
  let ?es = "entries_put ?ks ?vs ?k ?v"
  have delta: "bn_delta t = None"
    using ok unsup by (auto simp: leaf_ok_def delta_ok_def split: option.splits)
  have len: "length ?vs = length ?ks" "length ?ks \<le> 15" and type: "bn_type t = BT_LEAF"
    using ok by (auto simp: leaf_ok_def BT_B_def)
  have upd: "leaf_updated t ?k ?v ?es"
    by (rule entries_put_updated [OF ok delta])
  have "\<exists>res. update_leaf_cow t c s = Some res \<and> leaf_result ?ver ?k ?es s res"
  proof (cases "?i < length ?ks \<and> ?ks ! ?i = ?k")
    case True
    let ?n = "(bt_copy_leaf ?ver t)\<lparr>bn_vals := ?vs[?i := ?v]\<rparr>"
    have "?es = zip ?ks (?vs[?i := ?v])"
      using True len(1) by (intro zip_list_update_entries) auto
    then have "is_leaf ?ver ?es ?n" "length ?es \<le> 15"
      using len type by (auto simp: is_leaf_def bt_copy_leaf_def)
    moreover have "update_leaf_cow t c s = Some ((?k, brk s, nullptr), snd (alloc ?n s))"
      using True unsup slots assms(4) by (simp add: update_leaf_cow_def Let_def bt_findval_def alloc_def bt_copy_leaf_def)
    ultimately show ?thesis
      unfolding leaf_result_def by blast
  next
    case False
    note ins = entries_put_insert [OF len(1) False, of ?v]
    have es_len: "length ?es = Suc (length ?ks)"
      using False by (auto simp: entries_put_length [OF len(1)])
    show ?thesis
    proof (cases "length ?ks < 15")
      case True
      let ?n = "bt_leaf_with ?ver (take ?i ?ks @ ?k # drop ?i ?ks) (take ?i ?vs @ ?v # drop ?i ?vs)"
      have "is_leaf ?ver ?es ?n"
        by (simp add: is_leaf_def ins bt_leaf_with_def bt_new_leaf_def bt_new_node_def)
      moreover have "update_leaf_cow t c s = Some ((?k, brk s, nullptr), snd (alloc ?n s))"
        using True unsup slots assms(4) len
        by (simp add: False update_leaf_cow_def Let_def bt_findval_def alloc_def BT_B_def)
      moreover have "length ?es \<le> 15"
        using True es_len by simp
      ultimately show ?thesis
        unfolding leaf_result_def by blast
    next
      case full: False
      then have len15: "length ?ks = 15" "length ?vs = 15" using len by auto
      let ?n = "bt_leaf_with ?ver (map fst (take 8 ?es)) (map snd (take 8 ?es))"
      let ?m = "bt_leaf_with ?ver (map fst (drop 8 ?es)) (map snd (drop 8 ?es))"
      have leafs: "is_leaf ?ver (take 8 ?es) ?n" "is_leaf ?ver (drop 8 ?es) ?m"
        by (simp_all add: is_leaf_def bt_leaf_with_def bt_new_leaf_def bt_new_node_def)
      have hd: "fst (hd (drop 8 ?es)) = map fst (drop 8 ?es) ! 0"
        using es_len len15 by (simp add: hd_drop_conv_nth)
      have halves: "map fst (take 8 ?es) = take 8 (map fst ?es)" "map fst (drop 8 ?es) = drop 8 (map fst ?es)"
        "map snd (take 8 ?es) = take 8 (map snd ?es)" "map snd (drop 8 ?es) = drop 8 (map snd ?es)"
        by (simp_all add: take_map drop_map)
      have "update_leaf_cow t c s = Some ((fst (hd (drop 8 ?es)), brk s, Suc (brk s)),
          snd (alloc ?m (snd (alloc ?n s))))"
      proof (cases "?i < 8")
        case True
        then have i: "?i \<le> 7" by simp
        have ne: "?ks ! ?i \<noteq> ?k" using False True len15 by auto
        show ?thesis
          unfolding hd halves ins split_insert_low [OF i len15(1)] split_insert_low [OF i len15(2)]
          using True full len15 unsup slots assms(4) i
          by (simp add: ne update_leaf_cow_def Let_def bt_findval_def alloc_def BT_B_def)
      next
        case high: False
        then have i: "8 \<le> ?i" "?i \<le> 15" using findval_le [of ?ks ?k] len15 by simp_all
        have ne: "?i = 15 \<or> ?ks ! ?i \<noteq> ?k" using False i len15 by auto
        show ?thesis
          unfolding hd halves ins split_insert_high [OF i len15(1)] split_insert_high [OF i len15(2)]
          using high full len15 unsup slots assms(4) i ne
          by (simp add: update_leaf_cow_def Let_def bt_findval_def alloc_def BT_B_def)
      qed
      moreover have "leaf_result ?ver ?k ?es s ((fst (hd (drop 8 ?es)), brk s, Suc (brk s)),
          snd (alloc ?m (snd (alloc ?n s))))"
        using leafs es_len len15
        by (intro leaf_result_split [where el = "take 8 ?es" and er = "drop 8 ?es"]) simp_all
      ultimately show ?thesis by blast
    qed
  qed
  with upd show ?thesis by blast
qed

end
