(* ===== verification/BT_Restructure.thy ===== *)
theory BT_Restructure
  imports BT_Leaf_Correct
begin

text \<open>
  Changes of a tree below one node, as an update makes them: one child replaced by a changed one, one
  child replaced by two halves, an internal node cut in two. Each lemma states what becomes of the
  invariant, the map, the key set and the addresses.
\<close>

section \<open>Old trees\<close>

abbreviation bt_now :: "bt_tree \<Rightarrow> u64 \<Rightarrow> u64 option" where
  "bt_now T \<equiv> bt_map T UINT64_MAX"

text \<open>From the newest version on, every snapshot of a tree is the same.\<close>

lemma leaf_records_stable:
  assumes ok: "leaf_ok slots hi t" and "ucast hi \<le> u"
  shows "leaf_records t u = leaf_records t UINT64_MAX"
proof (cases "bn_delta t")
  case None
  then show ?thesis by (simp add: leaf_records_def leaf_ok_leaf_delta [OF ok])
next
  case (Some b)
  have d: "delta_ok slots (bn_ver t) hi b"
    by (rule leaf_ok_delta_ok [OF ok Some])
  then have "ds_version sl \<le> u" if "sl \<in> set (db_used b)" for sl
    using that assms(2) by (auto simp: delta_ok_def)
  then show ?thesis
    by (simp add: leaf_records_def leaf_ok_leaf_delta [OF ok] Some visible_records_used [OF d] cong: filter_cong)
qed

lemma bt_contents_stable:
  "bt_inv slots hi w h T \<Longrightarrow> ucast hi \<le> u \<Longrightarrow> bt_contents u T = bt_contents UINT64_MAX T"
proof (induction slots hi w h T rule: bt_inv.induct)
  case (1 slots hi w a t)
  then have "leaf_records t u = leaf_records t UINT64_MAX"
    by (intro leaf_records_stable [of slots hi]) simp_all
  then show ?case by (simp only: bt_contents.simps leaf_entries_def)
next
  case (2 slots hi w h a t ts)
  have "map (bt_contents u) ts = map (bt_contents UINT64_MAX) ts"
    using 2 by (intro map_cong) auto
  then show ?case by (simp only: bt_contents.simps)
qed simp_all

lemma bt_map_stable: "bt_inv slots hi w h T \<Longrightarrow> ucast hi \<le> u \<Longrightarrow> bt_map T u = bt_now T"
  unfolding bt_map_def by (drule (1) bt_contents_stable) (rule arg_cong [where f = map_of])

text \<open>A tree is still represented after writes outside it.\<close>

lemma bt_repr_frame:
  "bt_repr s T \<Longrightarrow> (\<And>a. a \<in> set (bt_addrs T) \<Longrightarrow> cells s' a = cells s a) \<Longrightarrow> bt_repr s' T"
  by (induction T) auto

lemma bt_addr_in_addrs [simp]: "bt_addr T \<in> set (bt_addrs T)"
  by (cases T) auto

lemma bt_repr_cell: "bt_repr s T \<Longrightarrow> cells s (bt_addr T) = Some (bt_node T)"
  by (cases T) auto

lemma bt_repr_allocated: "bt_repr s T \<Longrightarrow> a \<in> set (bt_addrs T) \<Longrightarrow> cells s a \<noteq> None"
  by (induction T) auto

lemma bt_repr_addrs: "store_ok s \<Longrightarrow> bt_repr s T \<Longrightarrow> a \<in> set (bt_addrs T) \<Longrightarrow> a < brk s"
  using bt_repr_allocated [of s T a] by (cases "cells s a") (auto dest: store_ok_less)

section \<open>Searching after a separator is inserted\<close>

lemma findch_insert:
  assumes "sorted ks" and "findch ks sep = j"
  shows "findch (take j ks @ sep # drop j ks) x = (if x < sep then findch ks x else Suc (findch ks x))"
proof -
  have ks: "findch ks x = (if \<forall>y \<in> set (take j ks). y \<le> x then length (take j ks) + findch (drop j ks) x
      else findch (take j ks) x)"
    using findch_append [of "take j ks" "drop j ks" x] by simp
  have low: "y \<le> sep" if "y \<in> set (take j ks)" for y
    using that assms(2) findch_nth_le [of _ ks sep] by (auto simp: in_set_conv_nth)
  show ?thesis
  proof (cases "x < sep")
    case True
    have "findch (drop j ks) x = 0"
    proof (cases "j < length ks")
      case True
      then have "x < ks ! j"
        using findch_nth_gt [of ks sep] assms(2) \<open>x < sep\<close> by (auto intro: less_trans)
      then show ?thesis using True by (simp add: Cons_nth_drop_Suc [symmetric])
    qed simp
    with True ks show ?thesis by (simp add: findch_append)
  next
    case False
    then have "\<forall>y \<in> set (take j ks). y \<le> x" using low by (meson not_less order_trans)
    with False ks show ?thesis by (simp add: findch_append)
  qed
qed

lemma strict_insert:
  assumes ks: "sorted_wrt (<) ks" and sep: "findch ks sep = j" and x: "findch ks x = j" "x < sep"
  shows "sorted_wrt (<) (take j ks @ sep # drop j ks)"
proof -
  have "y < sep" if "y \<in> set (take j ks)" for y
  proof -
    have "y \<le> x" using that x(1) findch_nth_le [of _ ks x] by (auto simp: in_set_conv_nth)
    then show ?thesis using x(2) by (rule le_less_trans)
  qed
  moreover have "sep < y" if "y \<in> set (drop j ks)" for y
  proof -
    have "j < length ks" using that by (auto intro: ccontr)
    then have "sep < ks ! j" using findch_nth_gt [of ks sep] sep by simp
    moreover have "ks ! j \<le> y"
      using that \<open>j < length ks\<close> sorted_wrt_less_sorted [OF ks] by (auto simp: in_set_conv_nth sorted_nth_mono)
    ultimately show ?thesis by (rule less_le_trans)
  qed
  moreover have "\<forall>y \<in> set (take j ks). \<forall>z \<in> set (drop j ks). y < z"
    using calculation by (meson less_trans)
  ultimately show ?thesis
    using ks by (simp add: sorted_wrt_append sorted_wrt_take sorted_wrt_drop)
qed

lemma findch_take:
  assumes "sorted ks" and "m < length ks" and "x < ks ! m"
  shows "findch (take m ks) x = findch ks x"
proof -
  have "findch (drop m ks) x = 0"
    using assms(2,3) by (simp add: Cons_nth_drop_Suc [symmetric])
  then show ?thesis
    using findch_append [of "take m ks" "drop m ks" x] by (auto simp: findch_all_le split: if_splits)
qed

lemma findch_drop:
  assumes "sorted ks" and "m < length ks" and "ks ! m \<le> x"
  shows "findch ks x = Suc m + findch (drop (Suc m) ks) x"
proof -
  have "\<forall>y \<in> set (take (Suc m) ks). y \<le> x"
  proof
    fix y assume "y \<in> set (take (Suc m) ks)"
    then obtain i where "i \<le> m" "y = ks ! i"
      using assms(2) by (auto simp: in_set_conv_nth less_Suc_eq_le)
    then have "y \<le> ks ! m" using assms(1,2) by (simp add: sorted_nth_mono)
    then show "y \<le> x" using assms(3) by (rule order_trans)
  qed
  then show ?thesis
    using assms(2) findch_append [of "take (Suc m) ks" "drop (Suc m) ks" x] by simp
qed

section \<open>Replacing one child\<close>

lemma mset_concat_update:
  assumes "j < length ts"
  shows "mset (concat (map f (ts[j := x]))) + mset (f (ts ! j)) = mset (concat (map f ts)) + mset (f x)"
proof -
  have "ts = take j ts @ ts ! j # drop (Suc j) ts"
    using assms by (rule id_take_nth_drop)
  then have "mset (concat (map f ts)) = mset (concat (map f (take j ts))) + mset (f (ts ! j)) +
      mset (concat (map f (drop (Suc j) ts)))"
    by (metis concat.simps(2) concat_append list.simps(9) map_append mset_append union_assoc)
  moreover have "mset (concat (map f (ts[j := x]))) = mset (concat (map f (take j ts))) + mset (f x) +
      mset (concat (map f (drop (Suc j) ts)))"
    using assms by (simp add: upd_conv_take_nth_drop union_assoc)
  ultimately show ?thesis by simp
qed

lemma mset_concat_split:
  assumes "j < length ts"
  shows "mset (concat (map f (take j ts @ l # r # drop (Suc j) ts))) + mset (f (ts ! j)) =
    mset (concat (map f ts)) + mset (f l) + mset (f r)"
proof -
  have "ts = take j ts @ ts ! j # drop (Suc j) ts"
    using assms by (rule id_take_nth_drop)
  then have "mset (concat (map f ts)) = mset (concat (map f (take j ts))) + mset (f (ts ! j)) +
      mset (concat (map f (drop (Suc j) ts)))"
    by (metis concat.simps(2) concat_append list.simps(9) map_append mset_append union_assoc)
  then show ?thesis by simp
qed

lemma bt_inv_replace:
  assumes inv: "bt_inv slots hi w (Suc h) (BNode a t ts)"
    and j: "j = findch (bn_keys t) k" and keys: "bn_keys t' = bn_keys t"
    and x: "bt_inv slots hi' w h x" "bt_minfill x" "bt_keyset w x \<subseteq> insert k (bt_keyset w (ts ! j))"
    and hi: "hi \<le> hi'"
  shows "bt_inv slots hi' w (Suc h) (BNode a' t' (ts[j := x]))"
    and "bt_keyset w (BNode a' t' (ts[j := x])) \<subseteq> insert k (bt_keyset w (BNode a t ts))"
proof -
  have jl: "j < length ts"
    using inv findch_le [of "bn_keys t" k] by (simp add: j less_Suc_eq_le)
  have routed: "bt_routed w (bn_keys t) ts" using inv by simp
  have "bt_routed w (bn_keys t) (ts[j := x])"
    unfolding bt_routed_def
  proof (intro allI impI ballI)
    fix i y assume i: "i < length (ts[j := x])" and y: "y \<in> bt_keyset w (ts[j := x] ! i)"
    show "findch (bn_keys t) y = i"
    proof (cases "i = j")
      case True
      then have "y = k \<or> y \<in> bt_keyset w (ts ! j)" using y x(3) jl by auto
      then show ?thesis using True jl routedD [OF routed, of j y] by (auto simp: j)
    next
      case False
      then show ?thesis using i y routedD [OF routed, of i y] by simp
    qed
  qed
  moreover have "bt_inv slots hi' w h y \<and> bt_minfill y" if "y \<in> set (ts[j := x])" for y
  proof (cases "y = x")
    case False
    then have "y \<in> set ts" using that set_update_subset_insert [of ts j x] by auto
    then show ?thesis using inv hi by (auto intro: bt_inv_mono)
  qed (use x in simp)
  ultimately show "bt_inv slots hi' w (Suc h) (BNode a' t' (ts[j := x]))"
    using inv keys by simp
  have "bt_keyset w y \<subseteq> insert k (\<Union>z \<in> set ts. bt_keyset w z)" if "y \<in> set (ts[j := x])" for y
  proof (cases "y = x")
    case True
    then show ?thesis using x(3) nth_mem [OF jl] by auto
  next
    case False
    then have "y \<in> set ts" using that set_update_subset_insert [of ts j x] by auto
    then show ?thesis by auto
  qed
  then show "bt_keyset w (BNode a' t' (ts[j := x])) \<subseteq> insert k (bt_keyset w (BNode a t ts))"
    using keys by auto
qed

lemma bt_map_replace:
  assumes inv: "bt_inv slots hi w (Suc h) (BNode a t ts)"
    and inv': "bt_inv slots' hi' w (Suc h) (BNode a' t' (ts[j := x]))"
    and j: "j = findch (bn_keys t) k" and keys: "bn_keys t' = bn_keys t" and "u \<le> w"
    and x: "bt_map x u = (bt_map (ts ! j) u)(k \<mapsto> v)"
  shows "bt_map (BNode a' t' (ts[j := x])) u = (bt_map (BNode a t ts) u)(k \<mapsto> v)"
proof
  fix y
  have jl: "j < length ts"
    using inv findch_le [of "bn_keys t" k] by (simp add: j less_Suc_eq_le)
  have "bt_map (BNode a' t' (ts[j := x])) u y = bt_map (ts[j := x] ! findch (bn_keys t) y) u y"
    using bt_map_node [OF inv' \<open>u \<le> w\<close>] keys by simp
  moreover have "bt_map (BNode a t ts) u y = bt_map (ts ! findch (bn_keys t) y) u y"
    by (rule bt_map_node [OF inv \<open>u \<le> w\<close>])
  ultimately show "bt_map (BNode a' t' (ts[j := x])) u y = ((bt_map (BNode a t ts) u)(k \<mapsto> v)) y"
    using x jl by (cases "findch (bn_keys t) y = j") (auto simp: j)
qed

section \<open>Replacing one child by two\<close>

lemma nth_split_list:
  "j < length ts \<Longrightarrow> (take j ts @ l # r # drop (Suc j) ts) ! i =
     (if i < j then ts ! i else if i = j then l else if i = Suc j then r else ts ! (i - 1))"
proof -
  have "Suc (i - 2) = i - 1" if "\<not> i < j" "i \<noteq> j" "i \<noteq> Suc j" using that by simp
  moreover assume "j < length ts"
  ultimately show ?thesis by (auto simp: nth_append nth_Cons' min_def)
qed

lemma bt_inv_split:
  assumes inv: "bt_inv slots hi w (Suc h) (BNode a t ts)" and jl: "j < length ts" and "bn_size t < 15"
    and keys: "bn_keys t' = take j (bn_keys t) @ sep # drop j (bn_keys t)"
    and lr: "bt_inv slots hi' w h l" "bt_minfill l" "bt_inv slots hi' w h r" "bt_minfill r"
    and ks: "\<forall>x \<in> bt_keyset w l. x < sep \<and> findch (bn_keys t) x = j"
      "\<forall>x \<in> bt_keyset w r. sep \<le> x \<and> findch (bn_keys t) x = j"
    and sep: "findch (bn_keys t) sep = j" and hi: "hi \<le> hi'" and ne: "bt_keyset w l \<noteq> {}"
  shows "bt_inv slots hi' w (Suc h) (BNode a' t' (take j ts @ l # r # drop (Suc j) ts))"
proof -
  let ?ts = "take j ts @ l # r # drop (Suc j) ts"
  have t: "sorted (bn_keys t)" "length ts = Suc (bn_size t)" "bt_routed w (bn_keys t) ts"
    using inv by (simp_all add: sorted_wrt_less_sorted)
  have find: "findch (bn_keys t') x = (if x < sep then findch (bn_keys t) x else Suc (findch (bn_keys t) x))" for x
    unfolding keys by (rule findch_insert [OF t(1) sep])
  have "bt_routed w (bn_keys t') ?ts"
    unfolding bt_routed_def
  proof (intro allI impI ballI)
    fix i x assume i: "i < length ?ts" and x: "x \<in> bt_keyset w (?ts ! i)"
    consider "i < j" | "i = j" | "i = Suc j" | "Suc j < i" by linarith
    then show "findch (bn_keys t') x = i"
    proof cases
      case 1
      then have fx: "findch (bn_keys t) x = i"
        using x jl routedD [OF t(3), of i x] by (simp add: nth_split_list)
      then have "x < sep" using 1 sep findch_less [of "bn_keys t" x sep] by simp
      then show ?thesis by (simp add: find fx)
    next
      case 2
      then show ?thesis using x jl ks(1) by (simp add: nth_split_list find)
    next
      case 3
      then show ?thesis using x jl ks(2) by (auto simp: nth_split_list find not_less)
    next
      case 4
      then have fx: "findch (bn_keys t) x = i - 1"
        using x i jl routedD [OF t(3), of "i - 1" x] by (simp add: nth_split_list)
      then have "sep < x" using 4 sep findch_less [of "bn_keys t" sep x] by simp
      then show ?thesis using 4 by (simp add: find fx)
    qed
  qed
  moreover have "sorted_wrt (<) (bn_keys t')"
  proof -
    from ne obtain x where "x \<in> bt_keyset w l" by auto
    with ks(1) have "findch (bn_keys t) x = j" "x < sep" by auto
    then show ?thesis
      unfolding keys using inv by (intro strict_insert [OF _ sep]) auto
  qed
  moreover have "bt_inv slots hi' w h y \<and> bt_minfill y" if "y \<in> set ?ts" for y
    using that lr inv hi by (auto dest!: in_set_takeD in_set_dropD intro: bt_inv_mono)
  ultimately show ?thesis
    using inv jl assms(3) by (simp add: keys BT_B_def)
qed

lemma bt_keyset_split:
  assumes "j < length ts" and keys: "bn_keys t' = take j (bn_keys t) @ sep # drop j (bn_keys t)"
    and "bt_keyset w l \<union> bt_keyset w r \<union> {sep} \<subseteq> insert k (bt_keyset w (ts ! j))"
  shows "bt_keyset w (BNode a' t' (take j ts @ l # r # drop (Suc j) ts)) \<subseteq> insert k (bt_keyset w (BNode a t ts))"
proof -
  have "bt_keyset w (ts ! j) \<subseteq> bt_keyset w (BNode a t ts)"
    using nth_mem [OF assms(1)] by auto
  moreover have "bt_keyset w y \<subseteq> bt_keyset w (BNode a t ts)" if "y \<in> set (take j ts) \<union> set (drop (Suc j) ts)" for y
    using that by (auto dest!: in_set_takeD in_set_dropD)
  moreover have "set (bn_keys t') \<subseteq> insert sep (bt_keyset w (BNode a t ts))"
    unfolding keys by (auto dest!: in_set_takeD in_set_dropD)
  moreover have "bt_keyset w (BNode a' t' (take j ts @ l # r # drop (Suc j) ts)) =
    set (bn_keys t') \<union> bt_keyset w l \<union> bt_keyset w r \<union> (\<Union>y \<in> set (take j ts) \<union> set (drop (Suc j) ts). bt_keyset w y)"
    by auto
  ultimately show ?thesis
    using assms(3) by blast
qed

lemma bt_map_split:
  assumes inv: "bt_inv slots hi w (Suc h) (BNode a t ts)" and jl: "j < length ts" and "u \<le> w"
    and inv': "bt_inv slots' hi' w (Suc h) (BNode a' t' (take j ts @ l # r # drop (Suc j) ts))"
    and keys: "bn_keys t' = take j (bn_keys t) @ sep # drop j (bn_keys t)"
    and sep: "findch (bn_keys t) sep = j"
  shows "bt_map (BNode a' t' (take j ts @ l # r # drop (Suc j) ts)) u y =
    (if findch (bn_keys t) y = j then bt_map (if y < sep then l else r) u y else bt_map (BNode a t ts) u y)"
proof -
  let ?i = "findch (bn_keys t) y"
  have "sorted (bn_keys t)" using inv by (simp add: sorted_wrt_less_sorted)
  then have find: "findch (bn_keys t') y = (if y < sep then ?i else Suc ?i)"
    unfolding keys by (rule findch_insert [OF _ sep])
  have lt: "y < sep" if "?i < j" using that sep findch_less [of "bn_keys t" y sep] by simp
  have gt: "\<not> y < sep" if "j < ?i" using that sep findch_less [of "bn_keys t" sep y] by simp
  have "bt_map (BNode a' t' (take j ts @ l # r # drop (Suc j) ts)) u y =
      bt_map ((take j ts @ l # r # drop (Suc j) ts) ! findch (bn_keys t') y) u y"
    by (rule bt_map_node [OF inv' \<open>u \<le> w\<close>])
  moreover have "bt_map (BNode a t ts) u y = bt_map (ts ! ?i) u y"
    by (rule bt_map_node [OF inv \<open>u \<le> w\<close>])
  ultimately show ?thesis
    using lt gt jl by (cases "?i" j rule: linorder_cases) (auto simp: find nth_split_list)
qed

section \<open>Cutting an internal node in two\<close>

lemma bt_routed_take:
  assumes "bt_routed w ks ts" "sorted ks" "m < length ks" "length ts = Suc (length ks)"
  shows "bt_routed w (take m ks) (take (Suc m) ts)"
  unfolding bt_routed_def
proof (intro allI impI ballI)
  fix i x assume i: "i < length (take (Suc m) ts)" and x: "x \<in> bt_keyset w (take (Suc m) ts ! i)"
  then have "findch ks x = i" using assms(1) by (intro routedD [of w ks ts]) auto
  moreover from this have "x < ks ! m"
    using i assms(3) findch_nth_gt [of ks x] sorted_nth_mono [OF assms(2), of i m] by auto
  ultimately show "findch (take m ks) x = i"
    using findch_take [OF assms(2,3)] by simp
qed

lemma bt_routed_drop:
  assumes "bt_routed w ks ts" "sorted ks" "m < length ks" "length ts = Suc (length ks)"
  shows "bt_routed w (drop (Suc m) ks) (drop (Suc m) ts)"
  unfolding bt_routed_def
proof (intro allI impI ballI)
  fix i x assume i: "i < length (drop (Suc m) ts)" and x: "x \<in> bt_keyset w (drop (Suc m) ts ! i)"
  then have "findch ks x = Suc m + i" using assms(1) by (intro routedD [of w ks ts]) auto
  moreover from this have "ks ! m \<le> x"
    using findch_nth_le [of m ks x] by simp
  ultimately show "findch (drop (Suc m) ks) x = i"
    using findch_drop [OF assms(2,3)] by simp
qed

lemma bt_cut:
  fixes la ra :: addr
  assumes inv: "bt_inv slots hi w (Suc h) (BNode a p ps)" and full: "bn_size p = 15"
    and keys: "bn_keys l = take 7 (bn_keys p)" "bn_keys r = drop 8 (bn_keys p)"
    and sep: "sep = bn_keys p ! 7"
  defines "L \<equiv> BNode la l (take 8 ps)" and "R \<equiv> BNode ra r (drop 8 ps)"
  shows "bt_inv slots hi w (Suc h) L" "bt_minfill L" "bt_inv slots hi w (Suc h) R" "bt_minfill R"
    and "\<forall>x \<in> bt_keyset w L. x < sep" "\<forall>x \<in> bt_keyset w R. sep \<le> x" "bt_keyset w L \<noteq> {}"
    and "bt_keyset w L \<union> bt_keyset w R \<union> {sep} \<subseteq> bt_keyset w (BNode a p ps)"
    and "u \<le> w \<Longrightarrow> bt_map (BNode a p ps) u y = bt_map (if y < sep then L else R) u y"
proof -
  have strict: "sorted_wrt (<) (bn_keys p)" and len: "length ps = 16"
    and routed: "bt_routed w (bn_keys p) ps"
    and sub: "\<And>x. x \<in> set ps \<Longrightarrow> bt_inv slots hi w h x \<and> bt_minfill x"
    using inv full by simp_all
  have srt: "sorted (bn_keys p)" using strict by (rule sorted_wrt_less_sorted)
  have m: "7 < bn_size p" using full by simp
  have rl: "bt_routed w (take 7 (bn_keys p)) (take 8 ps)"
    using bt_routed_take [OF routed srt m] len full by simp
  have rr: "bt_routed w (drop 8 (bn_keys p)) (drop 8 ps)"
    using bt_routed_drop [OF routed srt m] len full by simp
  show invL: "bt_inv slots hi w (Suc h) L"
    using rl strict len full sub by (auto simp: L_def keys sorted_wrt_take BT_B_def dest: in_set_takeD)
  show invR: "bt_inv slots hi w (Suc h) R"
    using rr strict len full sub by (auto simp: R_def keys sorted_wrt_drop BT_B_def dest: in_set_dropD)
  show "bt_minfill L" "bt_minfill R"
    using full by (simp_all add: L_def R_def keys BT_B_def)
  have low: "y < sep" if "y \<in> set (take 7 (bn_keys p))" for y
  proof -
    have "sorted_wrt (<) (take 7 (bn_keys p) @ sep # drop 8 (bn_keys p))"
      using strict id_take_nth_drop [of 7 "bn_keys p"] full sep by simp
    with that show ?thesis by (auto simp: sorted_wrt_append)
  qed
  have high: "sep \<le> y" if "y \<in> set (drop 8 (bn_keys p))" for y
  proof -
    have "sorted_wrt (<) (take 7 (bn_keys p) @ sep # drop 8 (bn_keys p))"
      using strict id_take_nth_drop [of 7 "bn_keys p"] full sep by simp
    with that show ?thesis by (auto simp: sorted_wrt_append)
  qed
  show "\<forall>x \<in> bt_keyset w L. x < sep"
  proof
    fix x assume "x \<in> bt_keyset w L"
    then consider "x \<in> set (take 7 (bn_keys p))" | c where "c \<in> set (take 8 ps)" "x \<in> bt_keyset w c"
      by (auto simp: L_def keys)
    then show "x < sep"
    proof cases
      case 2
      then obtain i where i: "i < 8" "c = ps ! i" using len by (auto simp: in_set_conv_nth)
      then have "findch (bn_keys p) x = i" using 2 len routedD [OF routed] by simp
      then show ?thesis
        using i full findch_nth_gt [of "bn_keys p" x] sorted_nth_mono [OF srt, of i 7] sep by auto
    qed (rule low)
  qed
  show "\<forall>x \<in> bt_keyset w R. sep \<le> x"
  proof
    fix x assume "x \<in> bt_keyset w R"
    then consider "x \<in> set (drop 8 (bn_keys p))" | c where "c \<in> set (drop 8 ps)" "x \<in> bt_keyset w c"
      by (auto simp: R_def keys)
    then show "sep \<le> x"
    proof cases
      case 2
      then obtain i where i: "8 + i < 16" "c = ps ! (8 + i)" using len by (auto simp: in_set_conv_nth)
      then have "findch (bn_keys p) x = 8 + i" using 2 len routedD [OF routed] by simp
      then show ?thesis
        using findch_nth_le [of 7 "bn_keys p" x] sep by simp
    qed (rule high)
  qed
  show "bt_keyset w L \<noteq> {}"
    using full by (auto simp: L_def keys)
  show "bt_keyset w L \<union> bt_keyset w R \<union> {sep} \<subseteq> bt_keyset w (BNode a p ps)"
    using full sep by (auto simp: L_def R_def keys dest: in_set_takeD in_set_dropD)
  assume "u \<le> w"
  show "bt_map (BNode a p ps) u y = bt_map (if y < sep then L else R) u y"
  proof (cases "y < sep")
    case True
    have "findch (take 7 (bn_keys p)) y = findch (bn_keys p) y"
      using findch_take [OF srt m] True sep by simp
    moreover from this have "findch (bn_keys p) y < 8"
      using findch_le [of "take 7 (bn_keys p)" y] full by simp
    ultimately show ?thesis
      using True bt_map_node [OF inv \<open>u \<le> w\<close>, of y] bt_map_node [OF invL [unfolded L_def] \<open>u \<le> w\<close>, of y]
      by (simp add: L_def keys)
  next
    case False
    then have "findch (bn_keys p) y = 8 + findch (drop 8 (bn_keys p)) y"
      using findch_drop [OF srt m, of y] sep by simp
    then show ?thesis
      using False len bt_map_node [OF inv \<open>u \<le> w\<close>, of y] bt_map_node [OF invR [unfolded R_def] \<open>u \<le> w\<close>, of y]
      by (simp add: R_def keys)
  qed
qed

end
