(* ===== verification/BT_Cow_Correct.thy ===== *)
theory BT_Cow_Correct
  imports BT_Restructure
begin

text \<open>
  Correctness of the staged path copy. \<open>cow_post\<close> is what a finished update owes: a well-formed tree
  holding the update at the new version, built from the old nodes and fresh ones, with exactly the
  replaced old nodes retired.
\<close>

text \<open>
  \<open>T\<close> is the tree before the update, \<open>b\<close> the first fresh address, \<open>R\<close> the nodes replaced. The multiset
  equation says that the nodes of the new tree and the replaced ones together are the old nodes and
  the fresh ones, all of which are in the new tree: nothing is leaked, nothing is retired twice,
  nothing live is retired.
\<close>

definition cow_post ::
    "nat \<Rightarrow> u32 \<Rightarrow> nat \<Rightarrow> u64 \<Rightarrow> u64 \<Rightarrow> bt_tree \<Rightarrow> addr \<Rightarrow> bt_store \<Rightarrow> bt_tree \<Rightarrow> addr list \<Rightarrow> bool" where
  "cow_post slots ver h k v T b s' T' R \<longleftrightarrow>
     store_ok s' \<and> b \<le> brk s' \<and> bt_repr s' T' \<and> bt_inv slots ver UINT64_MAX h T' \<and>
     bt_now T' = (bt_now T)(k \<mapsto> v) \<and>
     bt_keyset UINT64_MAX T' \<subseteq> insert k (bt_keyset UINT64_MAX T) \<and>
     (bt_minfill T \<longrightarrow> bt_minfill T') \<and>
     mset (bt_addrs T') + mset R = mset (bt_addrs T) + mset [b..<brk s'] \<and>
     {b..<brk s'} \<subseteq> set (bt_addrs T')"

lemma is_leaf_tree:
  assumes "is_leaf ver es n" "sorted_wrt (<) (map fst es)" "length es \<le> 15"
  shows "bt_inv slots ver w 0 (BLeaf a n)" "bt_now (BLeaf a n) = map_of es"
    "bt_keyset w (BLeaf a n) = fst ` set es" "bt_minfill (BLeaf a n) \<longleftrightarrow> 8 \<le> length es"
proof -
  note facts = is_leaf_ok [OF assms]
  show "bt_inv slots ver w 0 (BLeaf a n)" using facts(1) by simp
  show "bt_now (BLeaf a n) = map_of es"
    using facts(2) bt_map_leaf [OF facts(1)] by (simp add: fun_eq_iff leaf_latest_def)
  show "bt_keyset w (BLeaf a n) = fst ` set es" using facts(4) by simp
  show "bt_minfill (BLeaf a n) \<longleftrightarrow> 8 \<le> length es" using assms(1) by (simp add: is_leaf_def BT_B_def)
qed

lemma bt_now_leaf: "leaf_ok slots hi t \<Longrightarrow> bt_now (BLeaf a t) = leaf_latest t"
  by (simp add: fun_eq_iff bt_map_leaf leaf_latest_def)

lemma leaf_split_facts:
  assumes upd: "leaf_updated t k v es" and es: "es = el @ er" "el \<noteq> []" "er \<noteq> []"
    and sep: "sep = fst (hd er)"
  shows "sorted_wrt (<) (map fst el)" "sorted_wrt (<) (map fst er)"
    and "\<forall>x \<in> fst ` set el. x < sep" "\<forall>x \<in> fst ` set er. sep \<le> x"
    and "fst ` set el \<union> fst ` set er \<union> {sep} \<subseteq> insert k (leaf_keyset UINT64_MAX t)"
    and "((leaf_latest t)(k \<mapsto> v)) x = (if x < sep then map_of el x else map_of er x)"
proof -
  have strict: "sorted_wrt (<) (map fst el @ map fst er)"
    using upd es(1) by (simp add: leaf_updated_def)
  then show srt: "sorted_wrt (<) (map fst el)" "sorted_wrt (<) (map fst er)"
    by (simp_all add: sorted_wrt_append)
  obtain e er' where er: "er = e # er'" using es(3) by (cases er) auto
  show low: "\<forall>x \<in> fst ` set el. x < sep"
    using strict by (auto simp: sorted_wrt_append sep er)
  show high: "\<forall>x \<in> fst ` set er. sep \<le> x"
    using srt(2) by (auto simp: sep er less_imp_le)
  show "fst ` set el \<union> fst ` set er \<union> {sep} \<subseteq> insert k (leaf_keyset UINT64_MAX t)"
    using upd es(1) by (auto simp: leaf_updated_def sep er)
  have map: "((leaf_latest t)(k \<mapsto> v)) x = map_of (el @ er) x"
    using upd es(1) by (simp add: leaf_updated_def)
  show "((leaf_latest t)(k \<mapsto> v)) x = (if x < sep then map_of el x else map_of er x)"
  proof (cases "x < sep")
    case True
    then have "x \<notin> fst ` set er" using high by auto
    then have "map_of er x = None" by (simp add: map_of_eq_None_iff)
    then show ?thesis
      using True map by (auto simp: map_add_def split: option.splits)
  next
    case False
    then have "x \<notin> fst ` set el" using low by auto
    then have "map_of el x = None" by (simp add: map_of_eq_None_iff)
    then show ?thesis
      using False map by (auto simp: map_add_def split: option.splits)
  qed
qed

lemma is_leaf_type: "is_leaf ver es n \<Longrightarrow> bn_type n = BT_LEAF"
  by (simp add: is_leaf_def)

text \<open>A leaf child replaced by one or by two new leaves.\<close>

lemma parent_one_leaf:
  assumes inv: "bt_inv slots hi UINT64_MAX (Suc 0) (BNode a t ts)"
    and i: "i = findch (bn_keys t) k" "ts ! i = BLeaf pa p" and hi: "hi \<le> ver"
    and upd: "leaf_updated p k v es" and n: "is_leaf ver es n" "length es \<le> 15"
    and t': "bn_keys t' = bn_keys t"
  shows "bt_inv slots ver UINT64_MAX (Suc 0) (BNode a t' (ts[i := BLeaf la n]))" (is "?inv")
    and "bt_now (BNode a t' (ts[i := BLeaf la n])) = (bt_now (BNode a t ts))(k \<mapsto> v)"
    and "bt_keyset UINT64_MAX (BNode a t' (ts[i := BLeaf la n])) \<subseteq> insert k (bt_keyset UINT64_MAX (BNode a t ts))"
proof -
  have il: "i < length ts"
    using inv findch_le [of "bn_keys t" k] by (simp add: i less_Suc_eq_le)
  have "bt_inv slots hi UINT64_MAX 0 (ts ! i) \<and> bt_minfill (ts ! i)"
    using inv nth_mem [OF il] by simp
  then have ok: "leaf_ok slots hi p" and fill: "8 \<le> bn_size p"
    by (simp_all add: i(2) BT_B_def)
  note leaf = is_leaf_tree [OF n(1) _ n(2)]
  have srt: "sorted_wrt (<) (map fst es)" and len: "bn_size p \<le> length es"
    and keys: "fst ` set es \<subseteq> insert k (leaf_keyset UINT64_MAX p)"
    and map: "map_of es = (leaf_latest p)(k \<mapsto> v)"
    using upd by (auto simp: leaf_updated_def fun_eq_iff)
  have sub: "bt_keyset UINT64_MAX (BLeaf la n) \<subseteq> insert k (bt_keyset UINT64_MAX (ts ! i))"
    using keys leaf(3) [OF srt] by (simp add: i(2))
  show inv': ?inv
    using leaf(1,4) [OF srt] sub fill len
    by (intro bt_inv_replace(1) [OF inv i(1) t' _ _ _ hi]) auto
  show "bt_keyset UINT64_MAX (BNode a t' (ts[i := BLeaf la n])) \<subseteq> insert k (bt_keyset UINT64_MAX (BNode a t ts))"
    using leaf(1,4) [OF srt] sub fill len
    by (intro bt_inv_replace(2) [OF inv i(1) t' _ _ _ hi]) auto
  show "bt_now (BNode a t' (ts[i := BLeaf la n])) = (bt_now (BNode a t ts))(k \<mapsto> v)"
    using leaf(2) [OF srt] map bt_now_leaf [OF ok]
    by (intro bt_map_replace [OF inv inv' i(1) t']) (simp_all add: i(2))
qed

lemma parent_two_leaves:
  fixes la ra :: addr
  assumes inv: "bt_inv slots hi UINT64_MAX (Suc 0) (BNode a t ts)"
    and i: "i = findch (bn_keys t) k" "ts ! i = BLeaf pa p" and hi: "hi \<le> ver" and "bn_size t < 15"
    and upd: "leaf_updated p k v (el @ er)" and n: "is_leaf ver el n" "length el \<le> 15" "8 \<le> length el"
    and m: "is_leaf ver er m" "length er \<le> 15" "8 \<le> length er" and sep: "sep = fst (hd er)"
    and t': "bn_keys t' = take i (bn_keys t) @ sep # drop i (bn_keys t)"
  defines "ts' \<equiv> take i ts @ BLeaf la n # BLeaf ra m # drop (Suc i) ts"
  shows "bt_inv slots ver UINT64_MAX (Suc 0) (BNode a t' ts')" (is "?inv")
    and "bt_now (BNode a t' ts') = (bt_now (BNode a t ts))(k \<mapsto> v)"
    and "bt_keyset UINT64_MAX (BNode a t' ts') \<subseteq> insert k (bt_keyset UINT64_MAX (BNode a t ts))"
proof -
  have il: "i < length ts"
    using inv findch_le [of "bn_keys t" k] by (simp add: i less_Suc_eq_le)
  have "bt_inv slots hi UINT64_MAX 0 (ts ! i)"
    using inv nth_mem [OF il] by simp
  then have ok: "leaf_ok slots hi p" by (simp add: i(2))
  have ne: "el \<noteq> []" "er \<noteq> []" using n m by auto
  note split = leaf_split_facts [OF upd refl ne sep]
  note l = is_leaf_tree [OF n(1) split(1) n(2)]
  note r = is_leaf_tree [OF m(1) split(2) m(2)]
  have routed: "findch (bn_keys t) x = i" if "x \<in> insert k (leaf_keyset UINT64_MAX p)" for x
    using that inv il routedD [of UINT64_MAX "bn_keys t" ts i x] i by auto
  show inv': ?inv
    unfolding ts'_def
  proof (rule bt_inv_split [OF inv il assms(5) t' l(1) _ r(1) _ _ _ _ hi])
    show "bt_minfill (BLeaf la n)" "bt_minfill (BLeaf ra m)" using l(4) r(4) n m by auto
    show "\<forall>x \<in> bt_keyset UINT64_MAX (BLeaf la n). x < sep \<and> findch (bn_keys t) x = i"
      using split(3,5) routed unfolding l(3) by blast
    show "\<forall>x \<in> bt_keyset UINT64_MAX (BLeaf ra m). sep \<le> x \<and> findch (bn_keys t) x = i"
      using split(4,5) routed unfolding r(3) by blast
    show sepi: "findch (bn_keys t) sep = i" using split(5) routed by blast
    show "bt_keyset UINT64_MAX (BLeaf la n) \<noteq> {}" using ne unfolding l(3) by simp
  qed
  have sepi: "findch (bn_keys t) sep = i" using split(5) routed by blast
  show "bt_keyset UINT64_MAX (BNode a t' ts') \<subseteq> insert k (bt_keyset UINT64_MAX (BNode a t ts))"
    unfolding ts'_def using split(5) l(3) r(3)
    by (intro bt_keyset_split [OF il t']) (simp add: i(2))
  show "bt_now (BNode a t' ts') = (bt_now (BNode a t ts))(k \<mapsto> v)"
  proof
    fix y
    have "bt_now (BNode a t ts) y = bt_now (ts ! findch (bn_keys t) y) y"
      by (rule bt_map_node [OF inv]) simp
    then have "bt_now (BNode a t ts) y = leaf_latest p y" if "findch (bn_keys t) y = i"
      using that by (simp add: i(2) bt_now_leaf [OF ok])
    then show "bt_now (BNode a t' ts') y = ((bt_now (BNode a t ts))(k \<mapsto> v)) y"
      unfolding ts'_def
      using split(6) [of y] l(2) r(2) bt_map_split [OF inv il _ inv' [unfolded ts'_def] t' sepi, of UINT64_MAX y] i(1)
      by (auto split: if_splits)
  qed
qed

section \<open>Running the stages\<close>

lemma retire_replaced_fields [simp]:
  "c_t_cur (retire_replaced n c) = c_t_cur c" "c_t_past (retire_replaced n c) = c_t_past c"
  "c_root (retire_replaced n c) = c_root c" "c_key (retire_replaced n c) = c_key c"
  "c_val (retire_replaced n c) = c_val c" "c_sno (retire_replaced n c) = c_sno c"
  "c_fat_slots (retire_replaced n c) = c_fat_slots c"
  "c_gc_enabled (retire_replaced n c) = c_gc_enabled c"
  by (simp_all add: retire_replaced_def)

lemma retire_replaced_bt_fields [simp]:
  "c_worker_fat (retire_replaced n c) = c_worker_fat c"
  "c_split_idx (retire_replaced n c) = c_split_idx c"
  "c_leaf_pair (retire_replaced n c) = c_leaf_pair c"
  by (simp_all add: retire_replaced_def)

lemma ret_state_upd [simp]:
  "ret_state (c\<lparr>c_t_past := a\<rparr>) = ret_state c" "ret_state (c\<lparr>c_t_cur := a\<rparr>) = ret_state c"
  "ret_state (c\<lparr>c_root := a\<rparr>) = ret_state c"
  by (simp_all add: ret_state_def)

lemma ret_state_bt_upd [simp]:
  "ret_state (c\<lparr>c_split_idx := i\<rparr>) = ret_state (c :: bt_ctx)"
  by (simp add: ret_state_def)

lemma bt_handlers_simps [simp]:
  "bt_handlers OP_INIT = bt_handle_init" "bt_handlers BT_SEARCH_DOWN = bt_handle_search_down"
  "bt_handlers BT_SEARCH_SPLIT = bt_handle_search_split"
  "BT_SEARCH_DOWN \<noteq> OP_DONE" "BT_SEARCH_SPLIT \<noteq> OP_DONE"
  by (simp_all add: bt_handlers_eq OP_INIT_def OP_DONE_def BT_SEARCH_DOWN_def BT_SEARCH_SPLIT_def)

text \<open>
  \<open>cow_runs\<close>: the stage \<open>update_cow\<close> on a complete node succeeds, writes nothing old but that node, and
  the stages after it finish the update of the whole subtree, whatever happened in between outside
  the subtree and the fresh nodes.
\<close>

definition cow_runs :: "nat \<Rightarrow> nat \<Rightarrow> bt_tree \<Rightarrow> bt_ctx \<Rightarrow> bt_store \<Rightarrow> bool" where
  "cow_runs slots h T c s \<longleftrightarrow>
     (\<exists>op c1 s1. bt_update_cow c s = Some (op, c1, s1) \<and> store_ok s1 \<and> brk s \<le> brk s1 \<and>
        (\<forall>a < brk s. a \<noteq> bt_addr T \<longrightarrow> cells s1 a = cells s a) \<and>
        (\<forall>s2. store_ok s2 \<longrightarrow> brk s2 = brk s1 \<longrightarrow>
           (\<forall>a. a \<in> set (bt_addrs T) \<or> brk s \<le> a \<longrightarrow> cells s2 a = cells s1 a) \<longrightarrow>
           (\<exists>c' s' T' R. run_handlers bt_handlers op c1 s2 = Some (c', s') \<and>
              bt_addr T' = bt_addr T \<and> c_root c' = c_root c \<and>
              (\<forall>a < brk s. cells s' a = cells s2 a) \<and>
              ret_state c' = ret_state (fold retire_replaced R c) \<and> length R \<le> h \<and>
              cow_post slots (c_sno c) h (c_key c) (c_val c) T (brk s) s' T' R)))"

lemma cow_runs_doneI:
  assumes "bt_update_cow c s = Some (OP_DONE, c1, s1)" "store_ok s1" "brk s \<le> brk s1"
    and "\<forall>a < brk s. a \<noteq> bt_addr T \<longrightarrow> cells s1 a = cells s a"
    and "bt_addr T' = bt_addr T" "c_root c1 = c_root c"
    and "ret_state c1 = ret_state (fold retire_replaced R c)" "length R \<le> h"
    and post: "\<And>s2. store_ok s2 \<Longrightarrow> brk s2 = brk s1 \<Longrightarrow>
      \<forall>a. a \<in> set (bt_addrs T) \<or> brk s \<le> a \<longrightarrow> cells s2 a = cells s1 a \<Longrightarrow>
      cow_post slots (c_sno c) h (c_key c) (c_val c) T (brk s) s2 T' R"
  shows "cow_runs slots h T c s"
proof -
  have "\<exists>c' s' T' R. run_handlers bt_handlers OP_DONE c1 s2 = Some (c', s') \<and>
      bt_addr T' = bt_addr T \<and> c_root c' = c_root c \<and> (\<forall>a < brk s. cells s' a = cells s2 a) \<and>
      ret_state c' = ret_state (fold retire_replaced R c) \<and> length R \<le> h \<and>
      cow_post slots (c_sno c) h (c_key c) (c_val c) T (brk s) s' T' R"
    if "store_ok s2" "brk s2 = brk s1" "\<forall>a. a \<in> set (bt_addrs T) \<or> brk s \<le> a \<longrightarrow> cells s2 a = cells s1 a" for s2
    using post [OF that] assms(5-8) by (intro exI [of _ c1] exI [of _ s2] exI [of _ T'] exI [of _ R]) simp
  with assms(1-4) show ?thesis
    unfolding cow_runs_def by blast
qed

lemma children_kept:
  assumes ok: "store_ok s" and rep: "bt_repr s (BNode a t ts)" and dist: "distinct (bt_addrs (BNode a t ts))"
    and keep: "\<And>b. b \<in> set (bt_addrs (BNode a t ts)) \<Longrightarrow> b \<noteq> a \<Longrightarrow> b < brk s \<Longrightarrow> cells s' b = cells s b"
    and x: "x \<in> set ts"
  shows "bt_repr s' x"
proof (rule bt_repr_frame [of s])
  show rx: "bt_repr s x" using rep x by simp
  fix b assume b: "b \<in> set (bt_addrs x)"
  then have "b \<noteq> a" "b \<in> set (bt_addrs (BNode a t ts))" using dist x by auto
  moreover have "b < brk s" by (rule bt_repr_addrs [OF ok rx b])
  ultimately show "cells s' b = cells s b" by (intro keep)
qed

lemma in_set_updateE:
  assumes "y \<in> set (ts[i := x])"
  obtains "y = x" | "y \<in> set ts"
  using assms set_update_subset_insert [of ts i x] by auto

lemma insert_child_Some:
  assumes "i < length ts" "bn_chs t = map bt_addr ts" "length ts = Suc (bn_size t)" "bn_size t < 15"
  shows "bt_insert_child t k (bt_addr l) (bt_addr r) i =
    Some (t\<lparr>bn_keys := take i (bn_keys t) @ k # drop i (bn_keys t),
            bn_chs := map bt_addr (take i ts @ l # r # drop (Suc i) ts)\<rparr>)"
  using assms
  by (simp add: bt_insert_child_def BT_B_def take_map drop_map take_Suc_conv_app_nth)

lemma cow_from_leaf:
  assumes ok: "store_ok s" and rep: "bt_repr s T" and inv: "bt_inv slots hi UINT64_MAX (Suc 0) T"
    and size: "bn_size (bt_node T) < 15" and dist: "distinct (bt_addrs T)"
    and c: "c_t_cur c = bt_addr T" "hi < c_sno c" "c_fat_slots c = slots" "\<not> c_worker_fat c"
  shows "cow_runs slots (Suc 0) T c s"
proof -
  from inv obtain ca cn ts where T: "T = BNode ca cn ts" by (elim bt_inv_Suc_cases)
  let ?k = "c_key c" and ?v = "c_val c" and ?ver = "c_sno c"
  let ?i = "findch (bn_keys cn) ?k"
  note inv = inv [unfolded T] and rep = rep [unfolded T] and dist = dist [unfolded T]
  have il: "?i < length ts"
    using inv findch_le [of "bn_keys cn" ?k] by (simp add: less_Suc_eq_le)
  have "bt_inv slots hi UINT64_MAX 0 (ts ! ?i)" using inv nth_mem [OF il] by simp
  then obtain pa p where P: "ts ! ?i = BLeaf pa p" and pok: "leaf_ok slots hi p" by (elim bt_inv_0_cases)
  have repP: "bt_repr s (BLeaf pa p)"
    using rep il unfolding P [symmetric] by simp
  then have cells: "cells s ca = Some cn" "cells s pa = Some p"
    using rep by simp_all
  then have lt: "ca < brk s" "pa < brk s" using cells by (simp_all add: store_ok_less [OF ok])
  have chs: "bn_chs cn = map bt_addr ts" "bn_type p = BT_LEAF" using rep repP by simp_all
  let ?c = "c\<lparr>c_t_past := pa\<rparr>"
  let ?c1 = "retire_replaced pa ?c"
  have ne: "brk s \<noteq> nullptr" using ok by (rule store_ok_brk_pos)
  have ca0: "ca \<noteq> nullptr" by (rule store_ok_not_null [OF ok cells(1)])
  obtain es res where res: "update_leaf_cow p ?c s = Some res" and upd: "leaf_updated p ?k ?v es"
    and lr: "leaf_result ?ver ?k es s res"
    using update_leaf_cow_result [OF pok, of ?c s] c by auto
  have ret: "ret_state ?c1 = ret_state (fold retire_replaced [pa] c)"
    using ret_state_retire [of ?c c pa] by simp
  note hi = less_imp_le [OF c(2)]
  from lr [unfolded leaf_result_def] consider
      (one) n where "length es \<le> 15" "is_leaf ?ver es n" "res = ((?k, brk s, nullptr), snd (alloc n s))"
    | (two) el er n m where "es = el @ er" "8 \<le> length el" "length el \<le> 15" "8 \<le> length er" "length er \<le> 15"
        "is_leaf ?ver el n" "is_leaf ?ver er m"
        "res = ((fst (hd er), brk s, Suc (brk s)), snd (alloc m (snd (alloc n s))))"
    by blast
  then show ?thesis
  proof cases
    case one
    let ?cn = "cn\<lparr>bn_chs := (bn_chs cn)[?i := brk s], bn_cow_ready := True\<rparr>"
    let ?s1 = "s\<lparr>cells := (cells s)(brk s \<mapsto> n, ca \<mapsto> ?cn), brk := Suc (brk s)\<rparr>"
    let ?T = "BNode ca ?cn (ts[?i := BLeaf (brk s) n])"
    have run: "bt_update_cow c s = Some (OP_DONE, ?c1, ?s1)"
      using res one(3) c cells lt il chs
      by (simp add: T bt_update_cow_def Let_def bt_findch_def P alloc_def put_def bt_publish_cow_ready_def)
    have sok: "store_ok ?s1"
      using ok lt ca0 by (auto simp: store_ok_def)
    note facts = parent_one_leaf [OF inv refl P hi upd one(2,1), of ?cn "brk s", simplified]
    have m: "mset (bt_addrs ?T) + mset [pa] = mset (bt_addrs T) + mset [brk s..<Suc (brk s)]"
      using mset_concat_update [OF il, of bt_addrs "BLeaf (brk s) n"] by (simp add: T P)
    have "BLeaf (brk s) n \<in> set (ts[?i := BLeaf (brk s) n])" by (rule set_update_memI [OF il])
    then have fresh: "{brk s..<Suc (brk s)} \<subseteq> set (bt_addrs ?T)" by force
    have post: "cow_post slots ?ver (Suc 0) ?k ?v T (brk s) s2 ?T [pa]"
      if s2: "store_ok s2" "brk s2 = brk ?s1"
        "\<forall>a. a \<in> set (bt_addrs T) \<or> brk s \<le> a \<longrightarrow> cells s2 a = cells ?s1 a" for s2
    proof -
      have "bt_repr s2 x" if "x \<in> set (ts[?i := BLeaf (brk s) n])" for x
        using that
      proof (rule in_set_updateE)
        assume "x = BLeaf (brk s) n"
        then show "bt_repr s2 x" using s2(3) lt one(2) by (simp add: is_leaf_type)
      next
        assume x: "x \<in> set ts"
        show "bt_repr s2 x"
        proof (rule children_kept [OF ok rep dist _ x])
          fix b assume "b \<in> set (bt_addrs (BNode ca cn ts))" "b \<noteq> ca" "b < brk s"
          then have "cells s2 b = cells ?s1 b" using s2(3) unfolding T by blast
          then show "cells s2 b = cells s b" using \<open>b \<noteq> ca\<close> \<open>b < brk s\<close> by simp
        qed
      qed
      then have "bt_repr s2 ?T"
        using s2(3) rep by (auto simp: T map_update)
      then show ?thesis
        using s2 facts m inv fresh by (simp add: cow_post_def T)
    qed
    show ?thesis
      by (rule cow_runs_doneI [OF run sok _ _ _ _ ret _ post]) (use lt in \<open>simp_all add: T\<close>)
  next
    case two
    let ?sep = "fst (hd er)"
    let ?ks = "take ?i (bn_keys cn) @ ?sep # drop ?i (bn_keys cn)"
    let ?ts = "take ?i ts @ BLeaf (brk s) n # BLeaf (Suc (brk s)) m # drop (Suc ?i) ts"
    let ?cn = "cn\<lparr>bn_keys := ?ks, bn_chs := map bt_addr ?ts, bn_cow_ready := True\<rparr>"
    let ?s1 = "s\<lparr>cells := (cells s)(brk s \<mapsto> n, Suc (brk s) \<mapsto> m, ca \<mapsto> ?cn), brk := Suc (Suc (brk s))\<rparr>"
    let ?T = "BNode ca ?cn ?ts"
    have ins: "bt_insert_child cn ?sep (brk s) (Suc (brk s)) ?i =
        Some (cn\<lparr>bn_keys := ?ks, bn_chs := map bt_addr ?ts\<rparr>)"
      using insert_child_Some [OF il chs(1), of ?sep "BLeaf (brk s) n" "BLeaf (Suc (brk s)) m"] inv size
      by (simp add: T)
    have run: "bt_update_cow c s = Some (OP_DONE, ?c1, ?s1)"
      using res two(8) c cells lt il chs ins
      by (simp add: T bt_update_cow_def Let_def bt_findch_def P alloc_def put_def bt_publish_cow_ready_def
          fun_upd_twist)
    have sok: "store_ok ?s1"
      using ok lt ca0 by (auto simp: store_ok_def)
    have size': "bn_size cn < 15" using size by (simp add: T)
    note facts = parent_two_leaves [OF inv refl P hi size' upd [unfolded two(1)] two(6,3,2,7,5,4) refl, of ?cn, simplified]
    have m: "mset (bt_addrs ?T) + mset [pa] = mset (bt_addrs T) + mset [brk s..<Suc (Suc (brk s))]"
      using mset_concat_split [OF il, of bt_addrs "BLeaf (brk s) n" "BLeaf (Suc (brk s)) m"] by (simp add: T P)
    have fresh: "{brk s..<Suc (Suc (brk s))} \<subseteq> set (bt_addrs ?T)" by auto
    have post: "cow_post slots ?ver (Suc 0) ?k ?v T (brk s) s2 ?T [pa]"
      if s2: "store_ok s2" "brk s2 = brk ?s1"
        "\<forall>a. a \<in> set (bt_addrs T) \<or> brk s \<le> a \<longrightarrow> cells s2 a = cells ?s1 a" for s2
    proof -
      have new: "bt_repr s2 (BLeaf (brk s) n)" "bt_repr s2 (BLeaf (Suc (brk s)) m)"
        using s2(3) lt two(6,7) by (simp_all add: is_leaf_type)
      have old: "bt_repr s2 x" if x: "x \<in> set ts" for x
      proof (rule children_kept [OF ok rep dist _ x])
        fix b assume "b \<in> set (bt_addrs (BNode ca cn ts))" "b \<noteq> ca" "b < brk s"
        then have "cells s2 b = cells ?s1 b" using s2(3) unfolding T by blast
        then show "cells s2 b = cells s b" using \<open>b \<noteq> ca\<close> \<open>b < brk s\<close> by simp
      qed
      have "\<forall>x \<in> set ?ts. bt_repr s2 x"
        using new old by (auto dest: in_set_takeD in_set_dropD)
      then have "bt_repr s2 ?T"
        using s2(3) rep by (simp add: T)
      then show ?thesis
        using s2 facts m inv fresh by (simp add: cow_post_def T)
    qed
    show ?thesis
      by (rule cow_runs_doneI [OF run sok _ _ _ _ ret _ post]) (use lt in \<open>simp_all add: T\<close>)
  qed
qed

section \<open>Going down one level\<close>

lemma cow_post_trans:
  assumes post: "cow_post slots ver h k v T2 b2 s' T' R" and "b \<le> b2"
    and "bt_now T2 = bt_now T" "bt_keyset UINT64_MAX T2 \<subseteq> bt_keyset UINT64_MAX T" "bt_minfill T \<longrightarrow> bt_minfill T2"
    and m: "mset (bt_addrs T2) + mset R0 = mset (bt_addrs T) + mset [b..<b2]"
    and fresh: "{b..<b2} \<subseteq> set (bt_addrs T')"
  shows "cow_post slots ver h k v T b s' T' (R0 @ R)"
proof -
  have le: "b2 \<le> brk s'" and m': "mset (bt_addrs T') + mset R = mset (bt_addrs T2) + mset [b2..<brk s']"
    using post by (auto simp: cow_post_def)
  have "mset [b..<brk s'] = mset [b..<b2] + mset [b2..<brk s']"
    using \<open>b \<le> b2\<close> le upt_add_eq_append [of b b2 "brk s' - b2"] by simp
  moreover have "mset (bt_addrs T') + (mset R0 + mset R) = (mset (bt_addrs T2) + mset R0) + mset [b2..<brk s']"
  proof -
    have "mset (bt_addrs T') + (mset R0 + mset R) = (mset (bt_addrs T') + mset R) + mset R0"
      by (simp only: ac_simps)
    then show ?thesis unfolding m' by (simp only: ac_simps)
  qed
  ultimately have "mset (bt_addrs T') + mset (R0 @ R) = mset (bt_addrs T) + mset [b..<brk s']"
    unfolding m by (simp add: ac_simps)
  moreover have "{b..<brk s'} = {b..<b2} \<union> {b2..<brk s'}" using \<open>b \<le> b2\<close> le by (simp add: ivl_disj_un_two)
  ultimately show ?thesis
    using assms le by (auto simp: cow_post_def)
qed

lemma distinct_mset_subset:
  assumes sub: "mset xs \<subseteq># mset ys" and "distinct ys"
  shows "distinct xs"
  unfolding distinct_count_atmost_1
proof
  fix a
  have "count (mset xs) a \<le> count (mset ys) a"
    using sub by (rule mset_subset_eq_count)
  moreover have "count (mset ys) a \<le> 1"
    using assms(2) by (simp add: distinct_count_atmost_1)
  ultimately have le: "count (mset xs) a \<le> 1" by (rule order_trans)
  show "count (mset xs) a = (if a \<in> set xs then 1 else 0)"
  proof (cases "a \<in> set xs")
    case True
    then have "0 < count (mset xs) a" by simp
    with le have "count (mset xs) a = 1" by linarith
    with True show ?thesis by simp
  qed simp
qed

lemma distinct_after:
  assumes "mset xs + mset rs = mset ys + mset [b..<b']" "distinct ys" "\<And>y. y \<in> set ys \<Longrightarrow> y < b"
  shows "distinct xs"
proof (rule distinct_mset_subset)
  show "mset xs \<subseteq># mset (ys @ [b..<b'])"
    using assms(1) by (metis mset_append mset_subset_eq_add_left)
  show "distinct (ys @ [b..<b'])"
    using assms(2,3) by fastforce
qed

text \<open>
  A finished child makes a finished parent, when the parent and the other children are in the store
  at the end.
\<close>

lemma combine_child:
  assumes inv: "bt_inv slots hi UINT64_MAX (Suc h) (BNode ca cn ts)"
    and j: "j = findch (bn_keys cn) k" and hi: "hi \<le> ver"
    and post: "cow_post slots ver h k v (ts ! j) b s' x R" and addr: "bt_addr x = bt_addr (ts ! j)"
    and cn: "cells s' ca = Some cn" "bn_type cn = BT_INTERNAL" "bn_chs cn = map bt_addr ts"
    and others: "\<And>i. i < length ts \<Longrightarrow> i \<noteq> j \<Longrightarrow> bt_repr s' (ts ! i)"
  shows "cow_post slots ver (Suc h) k v (BNode ca cn ts) b s' (BNode ca cn (ts[j := x])) R"
proof -
  let ?T = "BNode ca cn (ts[j := x])"
  have jl: "j < length ts"
    using inv findch_le [of "bn_keys cn" k] by (simp add: j less_Suc_eq_le)
  have fill: "bt_minfill (ts ! j)" using inv nth_mem [OF jl] by simp
  note post' = post [unfolded cow_post_def]
  have inv': "bt_inv slots ver UINT64_MAX (Suc h) ?T"
    using post' fill by (intro bt_inv_replace(1) [OF inv j refl _ _ _ hi]) auto
  have keys: "bt_keyset UINT64_MAX ?T \<subseteq> insert k (bt_keyset UINT64_MAX (BNode ca cn ts))"
    using post' fill by (intro bt_inv_replace(2) [OF inv j refl _ _ _ hi]) auto
  have map: "bt_now ?T = (bt_now (BNode ca cn ts))(k \<mapsto> v)"
    using post' by (intro bt_map_replace [OF inv inv' j refl]) auto
  have "bt_repr s' y" if "y \<in> set (ts[j := x])" for y
  proof -
    from that obtain i where i: "i < length ts" "y = ts[j := x] ! i" by (auto simp: in_set_conv_nth)
    then show ?thesis using others [of i] post' by (cases "i = j") auto
  qed
  moreover have "map bt_addr (ts[j := x]) = map bt_addr ts"
    using addr jl by (metis list_update_id map_update nth_map)
  ultimately have "bt_repr s' ?T" using cn by simp
  moreover have "mset (bt_addrs ?T) + mset R = mset (bt_addrs (BNode ca cn ts)) + mset [b..<brk s']"
  proof -
    have a: "mset (bt_addrs x) + mset R = mset (bt_addrs (ts ! j)) + mset [b..<brk s']"
      using post' by simp
    have "mset (concat (map bt_addrs (ts[j := x]))) + mset R + mset (bt_addrs (ts ! j)) =
        mset (concat (map bt_addrs ts)) + (mset (bt_addrs x) + mset R)"
      using mset_concat_update [OF jl, of bt_addrs x] by (simp add: ac_simps)
    then show ?thesis unfolding a by (simp add: ac_simps)
  qed
  moreover have "{b..<brk s'} \<subseteq> set (bt_addrs ?T)"
    using post' set_update_memI [OF jl, of x] by force
  ultimately show ?thesis
    using post' inv' keys map by (simp add: cow_post_def)
qed

text \<open>Siblings do not share nodes, so writes below one child leave the others in place.\<close>

lemma siblings_kept:
  assumes ok: "store_ok s" and rep: "bt_repr s (BNode ca cn ts)" and dist: "distinct (bt_addrs (BNode ca cn ts))"
    and jl: "j < length ts" and frame: "\<forall>a < brk s. a \<noteq> bt_addr (ts ! j) \<longrightarrow> cells s' a = cells s a"
  shows "cells s' ca = Some cn" and "\<And>i. i < length ts \<Longrightarrow> i \<noteq> j \<Longrightarrow> bt_repr s' (ts ! i)"
proof -
  have "ca < brk s" using rep store_ok_less [OF ok, of ca cn] by simp
  moreover have "ca \<noteq> bt_addr (ts ! j)"
    using dist nth_mem [OF jl] bt_addr_in_addrs [of "ts ! j"] by auto
  ultimately show "cells s' ca = Some cn" using frame rep by simp
next
  fix i assume i: "i < length ts" "i \<noteq> j"
  have ry: "bt_repr s (ts ! i)" using rep i(1) by simp
  have "b \<noteq> bt_addr (ts ! j)" if "b \<in> set (bt_addrs (ts ! i))" for b
    using distinct_concat_nth_disjoint [of "map bt_addrs ts" i j] dist i jl that bt_addr_in_addrs [of "ts ! j"]
    by auto
  then show "bt_repr s' (ts ! i)"
    using frame bt_repr_addrs [OF ok ry] by (intro bt_repr_frame [OF ry]) simp
qed

lemma finish_child:
  assumes ok: "store_ok s" and rep: "bt_repr s (BNode ca cn ts)"
    and inv: "bt_inv slots hi UINT64_MAX (Suc h) (BNode ca cn ts)" and dist: "distinct (bt_addrs (BNode ca cn ts))"
    and j: "j = findch (bn_keys cn) (c_key c)" and hi: "hi \<le> c_sno c" and run: "cow_runs slots h (ts ! j) c s"
  shows "\<exists>op c1 s1 c' s' T' R. bt_update_cow c s = Some (op, c1, s1) \<and>
    run_handlers bt_handlers op c1 s1 = Some (c', s') \<and> bt_addr T' = ca \<and> c_root c' = c_root c \<and>
    (\<forall>a < brk s. a \<noteq> bt_addr (ts ! j) \<longrightarrow> cells s' a = cells s a) \<and>
    ret_state c' = ret_state (fold retire_replaced R c) \<and> length R \<le> h \<and> bt_addr ` set ts \<subseteq> set (bt_addrs T') \<and>
    cow_post slots (c_sno c) (Suc h) (c_key c) (c_val c) (BNode ca cn ts) (brk s) s' T' R"
proof -
  let ?k = "c_key c" and ?v = "c_val c" and ?ver = "c_sno c"
  have jl: "j < length ts"
    using inv findch_le [of "bn_keys cn" ?k] by (simp add: j less_Suc_eq_le)
  from run obtain op c1 s1 where step: "bt_update_cow c s = Some (op, c1, s1)" "store_ok s1"
      "\<forall>a < brk s. a \<noteq> bt_addr (ts ! j) \<longrightarrow> cells s1 a = cells s a"
    and rest: "\<exists>c' s' T' R. run_handlers bt_handlers op c1 s1 = Some (c', s') \<and>
              bt_addr T' = bt_addr (ts ! j) \<and> c_root c' = c_root c \<and>
              (\<forall>a < brk s. cells s' a = cells s1 a) \<and>
              ret_state c' = ret_state (fold retire_replaced R c) \<and> length R \<le> h \<and>
              cow_post slots ?ver h ?k ?v (ts ! j) (brk s) s' T' R"
    unfolding cow_runs_def by blast
  from rest obtain c' s' x R where x: "run_handlers bt_handlers op c1 s1 = Some (c', s')"
      "bt_addr x = bt_addr (ts ! j)" "c_root c' = c_root c" "\<forall>a < brk s. cells s' a = cells s1 a"
      "ret_state c' = ret_state (fold retire_replaced R c)" "length R \<le> h"
    and post: "cow_post slots ?ver h ?k ?v (ts ! j) (brk s) s' x R"
    by blast
  have frame: "\<forall>a < brk s. a \<noteq> bt_addr (ts ! j) \<longrightarrow> cells s' a = cells s a"
    using step(3) x(4) by simp
  note kept = siblings_kept [OF ok rep dist jl frame]
  have cn: "bn_type cn = BT_INTERNAL" "bn_chs cn = map bt_addr ts" using rep by simp_all
  have "cow_post slots ?ver (Suc h) ?k ?v (BNode ca cn ts) (brk s) s' (BNode ca cn (ts[j := x])) R"
    by (rule combine_child [OF inv j hi post x(2) kept(1) cn kept(2)])
  moreover have "bt_addr ` set ts \<subseteq> set (bt_addrs (BNode ca cn (ts[j := x])))"
  proof -
    have "bt_addr ` set ts = bt_addr ` set (ts[j := x])"
      using x(2) jl by (metis list.set_map list_update_id map_update nth_map)
    then show ?thesis by (auto intro: bt_addr_in_addrs)
  qed
  ultimately show ?thesis using step(1) x frame
    by (intro exI [of _ op] exI [of _ c1] exI [of _ s1] exI [of _ c'] exI [of _ s']
        exI [of _ "BNode ca cn (ts[j := x])"] exI [of _ R]) simp
qed

lemma cow_runsI:
  assumes "bt_update_cow c s = Some (op, c1, s1)" "store_ok s1" "brk s \<le> brk s1"
    and "\<forall>a < brk s. a \<noteq> bt_addr T \<longrightarrow> cells s1 a = cells s a"
    and "\<And>s2. store_ok s2 \<Longrightarrow> brk s2 = brk s1 \<Longrightarrow>
      \<forall>a. a \<in> set (bt_addrs T) \<or> brk s \<le> a \<longrightarrow> cells s2 a = cells s1 a \<Longrightarrow>
      \<exists>c' s' T' R. run_handlers bt_handlers op c1 s2 = Some (c', s') \<and>
        bt_addr T' = bt_addr T \<and> c_root c' = c_root c \<and> (\<forall>a < brk s. cells s' a = cells s2 a) \<and>
        ret_state c' = ret_state (fold retire_replaced R c) \<and> length R \<le> h \<and>
        cow_post slots (c_sno c) h (c_key c) (c_val c) T (brk s) s' T' R"
  shows "cow_runs slots h T c s"
  unfolding cow_runs_def using assms by blast

definition cow_ih :: "nat \<Rightarrow> u32 \<Rightarrow> nat \<Rightarrow> bool" where
  "cow_ih slots hi h \<longleftrightarrow>
     (\<forall>T c s. store_ok s \<longrightarrow> bt_repr s T \<longrightarrow> bt_inv slots hi UINT64_MAX h T \<longrightarrow>
        bn_size (bt_node T) < 15 \<longrightarrow> distinct (bt_addrs T) \<longrightarrow> c_t_cur c = bt_addr T \<longrightarrow>
        hi < c_sno c \<longrightarrow> c_fat_slots c = slots \<longrightarrow> \<not> c_worker_fat c \<longrightarrow> cow_runs slots h T c s)"

lemma cow_ihD:
  "cow_ih slots hi h \<Longrightarrow> store_ok s \<Longrightarrow> bt_repr s T \<Longrightarrow> bt_inv slots hi UINT64_MAX h T \<Longrightarrow>
     bn_size (bt_node T) < 15 \<Longrightarrow> distinct (bt_addrs T) \<Longrightarrow> c_t_cur c = bt_addr T \<Longrightarrow>
     hi < c_sno c \<Longrightarrow> c_fat_slots c = slots \<Longrightarrow> \<not> c_worker_fat c \<Longrightarrow> cow_runs slots h T c s"
  by (simp add: cow_ih_def)

text \<open>A child replaced by one with the same contents leaves the tree's map and keys as they are.\<close>

lemma same_child:
  assumes inv: "bt_inv slots hi UINT64_MAX (Suc h) (BNode a t ts)" and i: "i = findch (bn_keys t) k"
    and t': "bn_keys t' = bn_keys t"
    and x: "bt_inv slots hi UINT64_MAX h x" "bt_minfill x" "bt_keyset UINT64_MAX x \<subseteq> bt_keyset UINT64_MAX (ts ! i)"
      "bt_now x = bt_now (ts ! i)"
  shows "bt_inv slots hi UINT64_MAX (Suc h) (BNode a t' (ts[i := x]))"
    and "bt_now (BNode a t' (ts[i := x])) = bt_now (BNode a t ts)"
    and "bt_keyset UINT64_MAX (BNode a t' (ts[i := x])) \<subseteq> bt_keyset UINT64_MAX (BNode a t ts)"
proof -
  have il: "i < length ts"
    using inv findch_le [of "bn_keys t" k] by (simp add: i less_Suc_eq_le)
  show inv': "bt_inv slots hi UINT64_MAX (Suc h) (BNode a t' (ts[i := x]))"
    using x by (intro bt_inv_replace(1) [OF inv i t' x(1,2)]) auto
  show "bt_now (BNode a t' (ts[i := x])) = bt_now (BNode a t ts)"
  proof
    fix y
    show "bt_now (BNode a t' (ts[i := x])) y = bt_now (BNode a t ts) y"
      using bt_map_node [OF inv, of UINT64_MAX y] bt_map_node [OF inv', of UINT64_MAX y] x(4) il t'
      by (cases "findch (bn_keys t) y = i") auto
  qed
  have "bt_keyset UINT64_MAX y \<subseteq> bt_keyset UINT64_MAX (BNode a t ts)" if "y \<in> set (ts[i := x])" for y
    using that
  proof (rule in_set_updateE)
    assume "y = x"
    then show ?thesis using x(3) nth_mem [OF il] by auto
  qed auto
  then show "bt_keyset UINT64_MAX (BNode a t' (ts[i := x])) \<subseteq> bt_keyset UINT64_MAX (BNode a t ts)"
    using t' by auto
qed

text \<open>The copy of an internal node has everything of the node but its address, version and flag.\<close>

lemma copy_same:
  assumes inv: "bt_inv slots hi UINT64_MAX (Suc h) (BNode a t ts)" and t': "bn_keys t' = bn_keys t"
  shows "bt_inv slots hi UINT64_MAX (Suc h) (BNode a' t' ts)" "bt_now (BNode a' t' ts) = bt_now (BNode a t ts)"
    "bt_keyset w (BNode a' t' ts) = bt_keyset w (BNode a t ts)"
    "bt_minfill (BNode a' t' ts) \<longleftrightarrow> bt_minfill (BNode a t ts)"
  using assms by (simp_all add: bt_map_def)

lemma cow_down:
  assumes ih: "cow_ih slots hi (Suc h)"
    and ok: "store_ok s" and rep: "bt_repr s (BNode ca cn ts)"
    and inv: "bt_inv slots hi UINT64_MAX (Suc (Suc h)) (BNode ca cn ts)"
    and dist: "distinct (bt_addrs (BNode ca cn ts))"
    and c: "c_t_cur c = ca" "hi < c_sno c" "c_fat_slots c = slots" "\<not> c_worker_fat c"
    and i: "i = findch (bn_keys cn) (c_key c)" and P: "ts ! i = BNode pa p ps" and size: "bn_size p \<noteq> 15"
  shows "cow_runs slots (Suc (Suc h)) (BNode ca cn ts) c s"
proof -
  let ?T = "BNode ca cn ts" and ?ver = "c_sno c" and ?na = "brk s"
  have il: "i < length ts"
    using inv findch_le [of "bn_keys cn" "c_key c"] by (simp add: i less_Suc_eq_le)
  have Pin: "BNode pa p ps \<in> set ts" using nth_mem [OF il] by (simp add: P)
  have repP: "bt_repr s (BNode pa p ps)" and invP: "bt_inv slots hi UINT64_MAX (Suc h) (BNode pa p ps)"
    and fillP: "bt_minfill (BNode pa p ps)"
    using rep inv Pin by auto
  have cells: "cells s ca = Some cn" "cells s pa = Some p" using rep repP by simp_all
  have lt: "ca < ?na" "pa < ?na" using cells by (simp_all add: store_ok_less [OF ok])
  have ca0: "ca \<noteq> nullptr" by (rule store_ok_not_null [OF ok cells(1)])
  have pca: "pa \<noteq> ca" using dist Pin by auto
  have paT: "pa \<in> set (bt_addrs (BNode ca cn ts))" using Pin by force
  let ?raw = "bt_copy_internal ?ver p" and ?n = "(bt_copy_internal ?ver p)\<lparr>bn_chs := bn_chs p\<rparr>"
  let ?cn = "cn\<lparr>bn_chs := (bn_chs cn)[i := ?na], bn_cow_ready := True\<rparr>"
  let ?c1 = "retire_replaced pa (c\<lparr>c_t_past := pa, c_t_cur := ?na\<rparr>)"
  let ?s1 = "s\<lparr>cells := (cells s)(?na \<mapsto> ?raw, ca \<mapsto> ?cn), brk := Suc ?na\<rparr>"
  let ?X = "BNode ?na ?n ps"
  let ?T2 = "BNode ca ?cn (ts[i := ?X])"
  have chs: "bn_chs cn = map bt_addr ts" "bn_type cn = BT_INTERNAL" "bn_type p = BT_INTERNAL" "bn_chs p = map bt_addr ps"
    using rep repP by simp_all
  have nkeys: "bn_keys ?n = bn_keys p" "bn_type ?n = BT_INTERNAL" "bn_keys ?raw = bn_keys p" "bn_type ?raw = BT_INTERNAL"
    by (simp_all add: bt_copy_internal_def bt_new_internal_def bt_new_node_def)
  have step: "bt_update_cow c s = Some (BT_SEARCH_DOWN, ?c1, ?s1)"
    using c cells lt il chs size P
    by (simp add: bt_update_cow_def Let_def bt_findch_def i [symmetric] alloc_def put_def
        bt_publish_cow_ready_def BT_B_def)
  have sok: "store_ok ?s1"
    using ok lt ca0 by (auto simp: store_ok_def)
  note X = copy_same [OF invP nkeys(1), where a' = ?na]
  have same: "bt_minfill ?X" "bt_keyset UINT64_MAX ?X \<subseteq> bt_keyset UINT64_MAX (ts ! i)" "bt_now ?X = bt_now (ts ! i)"
    using X(2-4) fillP unfolding P by blast+
  have ckeys: "bn_keys ?cn = bn_keys cn" by simp
  note T2 = same_child [OF inv i ckeys X(1) same]
  have m: "mset (bt_addrs ?T2) + mset [pa] = mset (bt_addrs ?T) + mset [?na..<Suc ?na]"
    using mset_concat_update [OF il, of bt_addrs ?X] by (simp add: P)
  have dist2: "distinct (bt_addrs ?T2)"
    using bt_repr_addrs [OF ok rep] by (intro distinct_after [OF m dist])
  show ?thesis
  proof (rule cow_runsI [OF step sok])
    fix s2 :: bt_store
    assume s2: "store_ok s2" "brk s2 = brk ?s1"
      and agree: "\<forall>a. a \<in> set (bt_addrs ?T) \<or> ?na \<le> a \<longrightarrow> cells s2 a = cells ?s1 a"
    let ?s3 = "s2\<lparr>cells := (cells s2)(?na \<mapsto> ?n)\<rparr>"
    have na: "cells s2 ?na = Some ?raw" "cells s2 pa = Some p" "cells s2 ca = Some ?cn"
      using agree [rule_format, of ?na] agree [rule_format, of pa] agree [rule_format, of ca] cells lt pca paT
      by simp_all
    have sok3: "store_ok ?s3" by (rule store_ok_upd [OF s2(1) na(1)])
    have kept: "bt_repr ?s3 x" if "x \<in> set ts" for x
    proof (rule children_kept [OF ok rep dist _ that])
      fix b assume "b \<in> set (bt_addrs ?T)" "b \<noteq> ca" "b < ?na"
      then show "cells ?s3 b = cells s b" using agree [rule_format, of b] by simp
    qed
    have repX: "bt_repr ?s3 ?X" using kept [OF Pin] chs nkeys by simp
    have rep2: "bt_repr ?s3 ?T2"
      using kept repX na(3) lt chs by (auto simp: map_update elim!: in_set_updateE)
    have j: "i = findch (bn_keys ?cn) (c_key ?c1)" by (simp add: i)
    have distX: "distinct (bt_addrs ?X)"
      using dist2 il by (metis bt_addrs.simps(2) distinct.simps(2) distinct_concat_iff set_update_memI image_eqI list.set_map)
    have "cow_runs slots (Suc h) ?X ?c1 ?s3"
      using size invP c nkeys(1) by (intro cow_ihD [OF ih sok3 repX X(1) _ distX]) (simp_all add: BT_B_def)
    then have runX: "cow_runs slots (Suc h) (ts[i := ?X] ! i) ?c1 ?s3" using il by simp
    have hi': "hi \<le> c_sno ?c1" using c(2) by simp
    obtain op c2 s4 c' s' T' R where r: "bt_update_cow ?c1 ?s3 = Some (op, c2, s4)"
      "run_handlers bt_handlers op c2 s4 = Some (c', s')" "bt_addr T' = ca" "c_root c' = c_root ?c1"
      "\<forall>a < brk ?s3. a \<noteq> bt_addr (ts[i := ?X] ! i) \<longrightarrow> cells s' a = cells ?s3 a"
      "ret_state c' = ret_state (fold retire_replaced R ?c1)" "length R \<le> Suc h"
      and T'in: "bt_addr ` set (ts[i := ?X]) \<subseteq> set (bt_addrs T')"
      and post: "cow_post slots (c_sno ?c1) (Suc (Suc h)) (c_key ?c1) (c_val ?c1) ?T2 (brk ?s3) s' T' R"
      using finish_child [OF sok3 rep2 T2(1) dist2 j hi' runX] by - (elim exE conjE, rule that)
    have "bt_handlers BT_SEARCH_DOWN ?c1 s2 = Some (op, c2, s4)"
      using na r(1) by (simp add: bt_handle_search_down_def bt_copych_def put_def)
    then have run: "run_handlers bt_handlers BT_SEARCH_DOWN ?c1 s2 = Some (c', s')"
      using r(2) by (subst run_handlers_step) simp_all
    have "cow_post slots ?ver (Suc (Suc h)) (c_key c) (c_val c) ?T ?na s' T' ([pa] @ R)"
    proof (rule cow_post_trans [OF _ _ T2(2,3) _ m])
      show "cow_post slots ?ver (Suc (Suc h)) (c_key c) (c_val c) ?T2 (Suc ?na) s' T' R"
        using post s2(2) by simp
      show "{?na..<Suc ?na} \<subseteq> set (bt_addrs T')"
        using T'in set_update_memI [OF il, of ?X] by force
    qed simp_all
    moreover have "ret_state c' = ret_state (fold retire_replaced (pa # R) c)"
      using r(6) ret_state_fold [of ?c1 "retire_replaced pa c" R] ret_state_retire [of "c\<lparr>c_t_past := pa, c_t_cur := ?na\<rparr>" c pa]
      by simp
    moreover have "\<forall>a < ?na. cells s' a = cells s2 a"
      using r(5) s2(2) il by simp
    ultimately show "\<exists>c' s' T' R. run_handlers bt_handlers BT_SEARCH_DOWN ?c1 s2 = Some (c', s') \<and>
        bt_addr T' = bt_addr ?T \<and> c_root c' = c_root c \<and> (\<forall>a < brk s. cells s' a = cells s2 a) \<and>
        ret_state c' = ret_state (fold retire_replaced R c) \<and> length R \<le> Suc (Suc h) \<and>
        cow_post slots (c_sno c) (Suc (Suc h)) (c_key c) (c_val c) ?T (brk s) s' T' R"
      using run r(3,4,7) by (intro exI [of _ c'] exI [of _ s'] exI [of _ T'] exI [of _ "pa # R"]) simp
  qed (use lt in simp_all)
qed

lemma cut_child:
  fixes la ra :: addr
  assumes inv: "bt_inv slots hi UINT64_MAX (Suc (Suc h)) (BNode a t ts)" and i: "i = findch (bn_keys t) k"
    and P: "ts ! i = BNode pa p ps" and full: "bn_size p = 15" and size: "bn_size t < 15"
    and lr: "bn_keys l = take 7 (bn_keys p)" "bn_keys r = drop 8 (bn_keys p)"
    and sep: "sep = bn_keys p ! 7" and t': "bn_keys t' = take i (bn_keys t) @ sep # drop i (bn_keys t)"
  defines "T2 \<equiv> BNode a t' (take i ts @ BNode la l (take 8 ps) # BNode ra r (drop 8 ps) # drop (Suc i) ts)"
  shows "bt_inv slots hi UINT64_MAX (Suc (Suc h)) T2"
    and "bt_now T2 = bt_now (BNode a t ts)"
    and "bt_keyset UINT64_MAX T2 \<subseteq> bt_keyset UINT64_MAX (BNode a t ts)"
    and "findch (bn_keys t') k = (if k < sep then i else Suc i)"
proof -
  let ?L = "BNode la l (take 8 ps)" and ?R = "BNode ra r (drop 8 ps)" and ?P = "BNode pa p ps"
  have il: "i < length ts"
    using inv findch_le [of "bn_keys t" k] by (simp add: i less_Suc_eq_le)
  have invP: "bt_inv slots hi UINT64_MAX (Suc h) ?P"
    using inv nth_mem [OF il] unfolding P by auto
  note cut = bt_cut [OF invP full lr sep]
  have routed: "findch (bn_keys t) x = i" if "x \<in> bt_keyset UINT64_MAX ?P" for x
    using that inv il routedD [of UINT64_MAX "bn_keys t" ts i x] P by simp
  have sepi: "findch (bn_keys t) sep = i" using cut(8) routed by blast
  show inv': "bt_inv slots hi UINT64_MAX (Suc (Suc h)) T2"
    using cut(5-8) routed
    unfolding T2_def
    by (intro bt_inv_split [OF inv il size t' cut(1,2,3,4) _ _ sepi order_refl cut(7)]) blast+
  show "bt_keyset UINT64_MAX T2 \<subseteq> bt_keyset UINT64_MAX (BNode a t ts)"
  proof -
    obtain x where x: "x \<in> bt_keyset UINT64_MAX ?P" using cut(8) by blast
    then have "x \<in> bt_keyset UINT64_MAX (ts ! i)" by (simp only: P)
    then have "x \<in> bt_keyset UINT64_MAX (BNode a t ts)"
      using nth_mem [OF il] by auto
    moreover have "bt_keyset UINT64_MAX T2 \<subseteq> insert x (bt_keyset UINT64_MAX (BNode a t ts))"
      using cut(8) unfolding T2_def P [symmetric] by (intro bt_keyset_split [OF il t']) blast
    ultimately show ?thesis by auto
  qed
  show "bt_now T2 = bt_now (BNode a t ts)"
  proof
    fix y
    have "bt_now (BNode a t ts) y = bt_now (ts ! findch (bn_keys t) y) y"
      by (rule bt_map_node [OF inv]) simp
    then show "bt_now T2 y = bt_now (BNode a t ts) y"
      using bt_map_split [OF inv il _ inv' [unfolded T2_def] t' sepi, of UINT64_MAX y] cut(9) [of UINT64_MAX y] P by (simp add: T2_def)
  qed
  have "sorted (bn_keys t)" using inv by (simp add: sorted_wrt_less_sorted)
  then show "findch (bn_keys t') k = (if k < sep then i else Suc i)"
    unfolding t' by (subst findch_insert [OF _ sepi]) (simp_all add: i)
qed

lemma bt_split_full:
  "bn_size p = 15 \<Longrightarrow> bt_split ver p =
     Some (bn_keys p ! 7, (bt_new_internal ver 7)\<lparr>bn_keys := take 7 (bn_keys p)\<rparr>,
           (bt_new_internal ver 7)\<lparr>bn_keys := drop 8 (bn_keys p)\<rparr>)"
  by (simp add: bt_split_def BT_B_def bt_new_internal_def bt_new_node_def)

lemma new_internal_fields [simp]:
  "bn_type (bt_new_internal ver n) = BT_INTERNAL" "bn_chs (bt_new_internal ver n) = []"
  by (simp_all add: bt_new_internal_def bt_new_node_def)

lemma cow_split:
  assumes ih: "cow_ih slots hi (Suc h)"
    and ok: "store_ok s" and rep: "bt_repr s (BNode ca cn ts)"
    and inv: "bt_inv slots hi UINT64_MAX (Suc (Suc h)) (BNode ca cn ts)" and room: "bn_size cn < 15"
    and dist: "distinct (bt_addrs (BNode ca cn ts))"
    and c: "c_t_cur c = ca" "hi < c_sno c" "c_fat_slots c = slots" "\<not> c_worker_fat c"
    and i: "i = findch (bn_keys cn) (c_key c)" and P: "ts ! i = BNode pa p ps" and size: "bn_size p = 15"
  shows "cow_runs slots (Suc (Suc h)) (BNode ca cn ts) c s"
proof -
  let ?T = "BNode ca cn ts" and ?ver = "c_sno c" and ?k = "c_key c" and ?la = "brk s" and ?ra = "Suc (brk s)"
  have il: "i < length ts"
    using inv findch_le [of "bn_keys cn" "c_key c"] by (simp add: i less_Suc_eq_le)
  have Pin: "BNode pa p ps \<in> set ts" using nth_mem [OF il] by (simp add: P)
  have repP: "bt_repr s (BNode pa p ps)" and invP: "bt_inv slots hi UINT64_MAX (Suc h) (BNode pa p ps)"
    using rep inv Pin by auto
  have cells: "cells s ca = Some cn" "cells s pa = Some p" using rep repP by simp_all
  have lt: "ca < ?la" "pa < ?la" using cells by (simp_all add: store_ok_less [OF ok])
  have ca0: "ca \<noteq> nullptr" by (rule store_ok_not_null [OF ok cells(1)])
  have pca: "pa \<noteq> ca" using dist Pin by auto
  have paT: "pa \<in> set (bt_addrs ?T)" using Pin by force
  have chs: "bn_chs cn = map bt_addr ts" "bn_type cn = BT_INTERNAL" "bn_type p = BT_INTERNAL" "bn_chs p = map bt_addr ps"
    using rep repP by simp_all
  have lenp: "length ps = 16" using invP size by simp
  let ?sep = "bn_keys p ! 7"
  let ?l = "(bt_new_internal ?ver 7)\<lparr>bn_keys := take 7 (bn_keys p)\<rparr>"
  let ?r = "(bt_new_internal ?ver 7)\<lparr>bn_keys := drop 8 (bn_keys p)\<rparr>"
  let ?l1 = "?l\<lparr>bn_chs := map bt_addr (take 8 ps), bn_cow_ready := (?sep \<le> ?k \<or> bn_cow_ready ?l)\<rparr>"
  let ?r1 = "?r\<lparr>bn_chs := map bt_addr (drop 8 ps), bn_cow_ready := (?k < ?sep \<or> bn_cow_ready ?r)\<rparr>"
  let ?L = "BNode ?la ?l1 (take 8 ps)" and ?R = "BNode ?ra ?r1 (drop 8 ps)"
  let ?ks = "take i (bn_keys cn) @ ?sep # drop i (bn_keys cn)"
  let ?ts = "take i ts @ ?L # ?R # drop (Suc i) ts"
  let ?cn = "cn\<lparr>bn_keys := ?ks, bn_chs := map bt_addr ?ts, bn_cow_ready := True\<rparr>"
  let ?T2 = "BNode ca ?cn ?ts"
  let ?c1 = "retire_replaced pa (c\<lparr>c_t_past := pa, c_split_idx := i\<rparr>)"
  let ?s1 = "s\<lparr>cells := (cells s)(?la \<mapsto> ?l, ?ra \<mapsto> ?r, ca \<mapsto> ?cn), brk := Suc ?ra\<rparr>"
  have ins: "bt_insert_child cn ?sep ?la ?ra i = Some (cn\<lparr>bn_keys := ?ks, bn_chs := map bt_addr ?ts\<rparr>)"
    using insert_child_Some [OF il chs(1), of ?sep ?L ?R] inv room by simp
  have step: "bt_update_cow c s = Some (BT_SEARCH_SPLIT, ?c1, ?s1)"
    using c cells lt il chs size P ins
    by (simp add: bt_update_cow_def Let_def bt_findch_def i [symmetric] alloc_def put_def
        bt_publish_cow_ready_def BT_B_def bt_split_full fun_upd_twist)
  have sok: "store_ok ?s1"
    using ok lt ca0 by (auto simp: store_ok_def)
  have kl: "bn_keys ?l1 = take 7 (bn_keys p)" and kr: "bn_keys ?r1 = drop 8 (bn_keys p)" by simp_all
  have kc: "bn_keys ?cn = ?ks" by simp
  note T2 = cut_child [OF inv i P size room kl kr refl kc]
  note cut = bt_cut [OF invP size kl kr refl]
  have mps: "mset (concat (map bt_addrs (take 8 ps))) + mset (concat (map bt_addrs (drop 8 ps))) = mset (concat (map bt_addrs ps))"
    by (metis append_take_drop_id concat_append map_append mset_append)
  have m: "mset (bt_addrs ?T2) + mset [pa] = mset (bt_addrs ?T) + mset [?la..<Suc ?ra]"
  proof -
    have "mset (concat (map bt_addrs ?ts)) + mset (pa # concat (map bt_addrs ps)) =
        mset (concat (map bt_addrs ts)) + (mset (concat (map bt_addrs (take 8 ps))) + mset (concat (map bt_addrs (drop 8 ps)))) + mset [?la, ?ra]"
      using mset_concat_split [OF il, of bt_addrs ?L ?R] by (simp add: P)
    then show ?thesis unfolding mps by (simp add: ac_simps)
  qed
  have dist2: "distinct (bt_addrs ?T2)"
    using bt_repr_addrs [OF ok rep] by (intro distinct_after [OF m dist])
  show ?thesis
  proof (rule cow_runsI [OF step sok])
    fix s2 :: bt_store
    assume s2: "store_ok s2" "brk s2 = brk ?s1"
      and agree: "\<forall>a. a \<in> set (bt_addrs ?T) \<or> ?la \<le> a \<longrightarrow> cells s2 a = cells ?s1 a"
    let ?s3 = "s2\<lparr>cells := (cells s2)(?la \<mapsto> ?l1, ?ra \<mapsto> ?r1)\<rparr>"
    let ?c2 = "?c1\<lparr>c_t_cur := (if ?sep \<le> ?k then ?ra else ?la)\<rparr>"
    have na: "cells s2 ?la = Some ?l" "cells s2 ?ra = Some ?r" "cells s2 pa = Some p" "cells s2 ca = Some ?cn"
      using agree [rule_format, of ?la] agree [rule_format, of ?ra] agree [rule_format, of pa] agree [rule_format, of ca]
        cells lt pca paT by simp_all
    have sok3: "store_ok ?s3"
      using s2(1) na store_ok_brk_pos [OF ok] by (auto simp: store_ok_def)
    have kept: "bt_repr ?s3 x" if "x \<in> set ts" for x
    proof (rule children_kept [OF ok rep dist _ that])
      fix b assume "b \<in> set (bt_addrs ?T)" "b \<noteq> ca" "b < ?la"
      then show "cells ?s3 b = cells s b" using agree [rule_format, of b] by simp
    qed
    have "\<forall>x \<in> set ps. bt_repr ?s3 x" using kept [OF Pin] by simp
    then have repL: "bt_repr ?s3 ?L" and repR: "bt_repr ?s3 ?R"
      by (auto dest: in_set_takeD in_set_dropD)
    have "\<forall>x \<in> set ?ts. bt_repr ?s3 x"
      using kept repL repR by (auto simp del: bt_repr.simps dest: in_set_takeD in_set_dropD)
    moreover have "cells ?s3 ca = Some ?cn" "bn_type ?cn = BT_INTERNAL" "bn_chs ?cn = map bt_addr ?ts"
      using na(4) lt chs by simp_all
    ultimately have rep2: "bt_repr ?s3 ?T2"
      unfolding bt_repr.simps by blast
    let ?j = "if ?k < ?sep then i else Suc i" and ?X = "if ?k < ?sep then ?L else ?R"
    have j: "?j = findch (bn_keys ?cn) (c_key ?c2)" using T2(4) by simp
    have hi': "hi \<le> c_sno ?c2" using c(2) by simp
    have tsj: "?ts ! ?j = ?X" using il by (simp add: nth_append)
    have repX: "bt_repr ?s3 ?X"
      using repL repR by (cases "?k < ?sep") (simp_all only: if_True if_False)
    have invX: "bt_inv slots hi UINT64_MAX (Suc h) ?X"
      using cut(1,3) by (cases "?k < ?sep") (simp_all only: if_True if_False)
    have "?X \<in> set ?ts" by simp
    then have distX: "distinct (bt_addrs ?X)"
      using dist2 unfolding bt_addrs.simps distinct.simps(2) distinct_concat_iff by auto
    have "cow_runs slots (Suc h) ?X ?c2 ?s3"
      using size c by (intro cow_ihD [OF ih sok3 repX invX _ distX]) (auto simp: not_less not_le)
    then have runX: "cow_runs slots (Suc h) (?ts ! ?j) ?c2 ?s3" unfolding tsj .
    obtain op c3 s4 c' s' T' R where r: "bt_update_cow ?c2 ?s3 = Some (op, c3, s4)"
      "run_handlers bt_handlers op c3 s4 = Some (c', s')" "bt_addr T' = ca" "c_root c' = c_root ?c2"
      "\<forall>a < brk ?s3. a \<noteq> bt_addr (?ts ! ?j) \<longrightarrow> cells s' a = cells ?s3 a"
      "ret_state c' = ret_state (fold retire_replaced R ?c2)" "length R \<le> Suc h"
      and T'in: "bt_addr ` set ?ts \<subseteq> set (bt_addrs T')"
      and post: "cow_post slots (c_sno ?c2) (Suc (Suc h)) (c_key ?c2) (c_val ?c2) ?T2 (brk ?s3) s' T' R"
      using finish_child [OF sok3 rep2 T2(1) dist2 j hi' runX] by - (elim exE conjE, rule that)
    have ith: "nth_opt (bn_chs ?cn) i = Some ?la" "nth_opt (bn_chs ?cn) (Suc i) = Some ?ra" "nth_opt (bn_keys ?cn) i = Some ?sep"
      using il inv by (simp_all add: nth_opt_def nth_append)
    have fill: "bt_copych_split ?la ?ra pa s2 = Some (s2\<lparr>cells := (cells s2)
        (?la \<mapsto> ?l\<lparr>bn_chs := map bt_addr (take 8 ps)\<rparr>, ?ra \<mapsto> ?r\<lparr>bn_chs := map bt_addr (drop 8 ps)\<rparr>)\<rparr>)"
      using na lenp chs by (simp add: bt_copych_split_def put_def BT_B_def take_map drop_map)
    have "bt_handle_search_split ?c1 s2 = bt_update_cow ?c2 ?s3"
    proof (cases "?k < ?sep")
      case True
      then show ?thesis
        using na(4) ith fill c(1)
        by (simp add: bt_handle_search_split_def Let_def bt_publish_cow_ready_def put_def not_le [symmetric]
            bt_new_internal_def bt_new_node_def)
    next
      case False
      then have le: "?sep \<le> ?k" by simp
      then show ?thesis
        using na(4) ith fill c(1)
        by (simp add: bt_handle_search_split_def Let_def bt_publish_cow_ready_def put_def leD [OF le] fun_upd_twist
            bt_new_internal_def bt_new_node_def)
    qed
    then have "bt_handlers BT_SEARCH_SPLIT ?c1 s2 = Some (op, c3, s4)"
      using r(1) by simp
    then have run: "run_handlers bt_handlers BT_SEARCH_SPLIT ?c1 s2 = Some (c', s')"
      using r(2) by (subst run_handlers_step) simp_all
    have "cow_post slots ?ver (Suc (Suc h)) (c_key c) (c_val c) ?T ?la s' T' ([pa] @ R)"
    proof (rule cow_post_trans [OF _ _ T2(2) T2(3) _ m])
      show "cow_post slots ?ver (Suc (Suc h)) (c_key c) (c_val c) ?T2 (Suc ?ra) s' T' R"
        using post s2(2) by simp
      show "{?la..<Suc ?ra} \<subseteq> set (bt_addrs T')"
      proof -
        have "{?la..<Suc ?ra} = {?la, ?ra}" by auto
        then show ?thesis using T'in by simp
      qed
    qed auto
    moreover have "ret_state c' = ret_state (fold retire_replaced (pa # R) c)"
      using r(6) ret_state_fold [of ?c2 "retire_replaced pa c" R] ret_state_retire [of "c\<lparr>c_t_past := pa, c_split_idx := i\<rparr>" c pa]
      by simp
    moreover have "\<forall>a < ?la. cells s' a = cells s2 a"
      using r(5) s2(2) unfolding tsj by simp
    ultimately show "\<exists>c' s' T' R. run_handlers bt_handlers BT_SEARCH_SPLIT ?c1 s2 = Some (c', s') \<and>
        bt_addr T' = bt_addr ?T \<and> c_root c' = c_root c \<and> (\<forall>a < brk s. cells s' a = cells s2 a) \<and>
        ret_state c' = ret_state (fold retire_replaced R c) \<and> length R \<le> Suc (Suc h) \<and>
        cow_post slots (c_sno c) (Suc (Suc h)) (c_key c) (c_val c) ?T (brk s) s' T' R"
      using run r(3,4,7) by (intro exI [of _ c'] exI [of _ s'] exI [of _ T'] exI [of _ "pa # R"]) simp
  qed (use lt in simp_all)
qed

lemma cow_from: "cow_ih slots hi (Suc h)"
proof (induction h)
  case 0
  show ?case
    unfolding cow_ih_def by (intro allI impI cow_from_leaf)
next
  case (Suc h)
  show ?case
    unfolding cow_ih_def
  proof (intro allI impI)
    fix T :: bt_tree and c :: bt_ctx and s :: bt_store
    assume a: "store_ok s" "bt_repr s T" "bt_inv slots hi UINT64_MAX (Suc (Suc h)) T" "bn_size (bt_node T) < 15"
      "distinct (bt_addrs T)" "c_t_cur c = bt_addr T" "hi < c_sno c" "c_fat_slots c = slots" "\<not> c_worker_fat c"
    from a(3) obtain ca cn ts where T: "T = BNode ca cn ts" by (elim bt_inv_Suc_cases)
    let ?i = "findch (bn_keys cn) (c_key c)"
    have "?i < length ts"
      using a(3) findch_le [of "bn_keys cn" "c_key c"] by (simp add: T less_Suc_eq_le)
    then have "bt_inv slots hi UINT64_MAX (Suc h) (ts ! ?i)" using a(3) by (simp add: T)
    then obtain pa p ps where P: "ts ! ?i = BNode pa p ps" by (elim bt_inv_Suc_cases)
    show "cow_runs slots (Suc (Suc h)) T c s"
    proof (cases "bn_size p = 15")
      case True
      show ?thesis
        unfolding T
        by (rule cow_split [OF Suc.IH a(1) a(2,3,4,5,6) [unfolded T bt_tree.sel] a(7,8,9) refl P True])
    next
      case False
      show ?thesis
        unfolding T
        by (rule cow_down [OF Suc.IH a(1) a(2,3,5,6) [unfolded T bt_tree.sel] a(7,8,9) refl P False])
    qed
  qed
qed

end
