(* ===== verification/BT_Update_Correct.thy ===== *)
theory BT_Update_Correct
  imports BT_Cow_Correct
begin

text \<open>
  The entry stage and with it whole updates: the copying path for every shape of root, the append to
  a version buffer, and \<open>bt_exec\<close>, which the schedulers run for one task.
\<close>

text \<open>What an update owes to the tree of the previous version; \<open>h'\<close> is the new height.\<close>

definition update_post ::
    "nat \<Rightarrow> u32 \<Rightarrow> nat \<Rightarrow> u64 \<Rightarrow> u64 \<Rightarrow> bt_tree \<Rightarrow> bt_store \<Rightarrow> bt_store \<Rightarrow> bt_tree \<Rightarrow> addr list \<Rightarrow> bool" where
  "update_post slots ver h' k v T s s' T' R \<longleftrightarrow>
     store_ok s' \<and> brk s \<le> brk s' \<and> bt_repr s' T' \<and> bt_inv slots ver UINT64_MAX h' T' \<and>
     bt_now T' = (bt_now T)(k \<mapsto> v) \<and>
     mset (bt_addrs T') + mset R = mset (bt_addrs T) + mset [brk s..<brk s'] \<and>
     {brk s..<brk s'} \<subseteq> set (bt_addrs T')"

lemma new_root_inv:
  assumes lr: "bt_inv slots hi w h l" "bt_minfill l" "bt_inv slots hi w h r" "bt_minfill r"
    and ks: "\<forall>x \<in> bt_keyset w l. x < sep" "\<forall>x \<in> bt_keyset w r. sep \<le> x" and t: "bn_keys t = [sep]"
  shows "bt_inv slots hi w (Suc h) (BNode a t [l, r])"
    and "u \<le> w \<Longrightarrow> bt_map (BNode a t [l, r]) u y = bt_map (if y < sep then l else r) u y"
proof -
  have "bt_routed w [sep] [l, r]"
    unfolding bt_routed_def
  proof (intro allI impI ballI)
    fix i x assume "i < length [l, r]" "x \<in> bt_keyset w ([l, r] ! i)"
    then show "findch [sep] x = i"
      using ks by (cases i) (auto simp: not_less)
  qed
  then show inv: "bt_inv slots hi w (Suc h) (BNode a t [l, r])"
    using lr t by (simp add: BT_B_def)
  assume "u \<le> w"
  then show "bt_map (BNode a t [l, r]) u y = bt_map (if y < sep then l else r) u y"
    using bt_map_node [OF inv, of u y] t by simp
qed

lemma new_root_fields [simp]:
  "bn_keys (bt_new_root ver k l r) = [k]" "bn_chs (bt_new_root ver k l r) = [l, r]"
  "bn_type (bt_new_root ver k l r) = BT_INTERNAL"
  by (simp_all add: bt_new_root_def bt_new_internal_def bt_new_node_def)

lemma store_upd_comm: "s\<lparr>brk := b, cells := f\<rparr> = s\<lparr>cells := f, brk := b\<rparr>"
  by simp

section \<open>The copying entry\<close>

definition init_cow_runs :: "nat \<Rightarrow> nat \<Rightarrow> bt_tree \<Rightarrow> bt_ctx \<Rightarrow> bt_store \<Rightarrow> bool" where
  "init_cow_runs slots h T c s \<longleftrightarrow>
     (\<exists>op c1 s1 c' s' h' T' R.
        bt_handle_init_cow c s = Some (op, c1, s1) \<and> run_handlers bt_handlers op c1 s1 = Some (c', s') \<and>
        c_root c' = bt_addr T' \<and> h \<le> h' \<and> h' \<le> Suc h \<and> (\<forall>a < brk s. cells s' a = cells s a) \<and>
        ret_state c' = ret_state (fold retire_replaced R c) \<and> length R \<le> Suc h \<and>
        update_post slots (c_sno c) h' (c_key c) (c_val c) T s s' T' R)"

lemma init_cow_leaf:
  assumes ok: "store_ok s" and rep: "bt_repr s (BLeaf pa p)" and pok: "leaf_ok slots hi p"
    and c: "c_t_past c = pa" "hi < c_sno c" "c_fat_slots c = slots" "\<not> c_worker_fat c"
  shows "init_cow_runs slots 0 (BLeaf pa p) c s"
proof -
  let ?k = "c_key c" and ?v = "c_val c" and ?ver = "c_sno c"
  have cell: "cells s pa = Some p" "bn_type p = BT_LEAF" using rep by simp_all
  have lt: "pa < brk s" by (rule store_ok_less [OF ok cell(1)])
  have ne: "brk s \<noteq> nullptr" using ok by (rule store_ok_brk_pos)
  obtain es res where res: "update_leaf_cow p c s = Some res" and upd: "leaf_updated p ?k ?v es"
    and lr: "leaf_result ?ver ?k es s res"
    using update_leaf_cow_result [OF pok c(2,3,4), of s] by auto
  have ret: "ret_state (retire_replaced pa (c\<lparr>c_root := a\<rparr>)) = ret_state (fold retire_replaced [pa] c)" for a
    using ret_state_retire [of "c\<lparr>c_root := a\<rparr>" c pa] by simp
  have srt: "sorted_wrt (<) (map fst es)" and map: "map_of es = (leaf_latest p)(?k \<mapsto> ?v)"
    using upd by (auto simp: leaf_updated_def fun_eq_iff)
  from lr [unfolded leaf_result_def] consider
      (one) n where "length es \<le> 15" "is_leaf ?ver es n" "res = ((?k, brk s, nullptr), snd (alloc n s))"
    | (two) el er n m where "es = el @ er" "8 \<le> length el" "length el \<le> 15" "8 \<le> length er" "length er \<le> 15"
        "is_leaf ?ver el n" "is_leaf ?ver er m"
        "res = ((fst (hd er), brk s, Suc (brk s)), snd (alloc m (snd (alloc n s))))"
    by blast
  then show ?thesis
  proof cases
    case one
    let ?s1 = "snd (alloc n s)" and ?c1 = "retire_replaced pa (c\<lparr>c_root := brk s\<rparr>)" and ?T = "BLeaf (brk s) n"
    have run: "bt_handle_init_cow c s = Some (OP_DONE, ?c1, ?s1)"
      using res one(3) cell c by (simp add: bt_handle_init_cow_def Let_def)
    note leaf = is_leaf_tree [OF one(2) srt one(1)]
    have "update_post slots ?ver 0 ?k ?v (BLeaf pa p) s ?s1 ?T [pa]"
      using store_ok_alloc [OF ok] leaf(1) leaf(2) map one(2) bt_now_leaf [OF pok]
      by (simp add: update_post_def alloc_def is_leaf_type)
    then show ?thesis
      unfolding init_cow_runs_def run using ret lt
      by (intro exI [of _ OP_DONE] exI [of _ ?c1] exI [of _ ?s1] exI [of _ 0] exI [of _ ?T] exI [of _ "[pa]"])
         (simp add: alloc_def)
  next
    case two
    let ?sep = "fst (hd er)" and ?ro = "Suc (Suc (brk s))"
    let ?s1 = "snd (alloc (bt_new_root ?ver ?sep (brk s) (Suc (brk s))) (snd (alloc m (snd (alloc n s)))))"
    let ?c1 = "retire_replaced pa (c\<lparr>c_root := ?ro\<rparr>)"
    let ?L = "BLeaf (brk s) n" and ?R = "BLeaf (Suc (brk s)) m"
    let ?T = "BNode ?ro (bt_new_root ?ver ?sep (brk s) (Suc (brk s))) [?L, ?R]"
    have run: "bt_handle_init_cow c s = Some (OP_DONE, ?c1, ?s1)"
      using res two(8) cell c by (simp add: bt_handle_init_cow_def Let_def alloc_def)
    have nes: "el \<noteq> []" "er \<noteq> []" using two by auto
    note split = leaf_split_facts [OF upd two(1) nes refl]
    note l = is_leaf_tree [OF two(6) split(1) two(3)] and r = is_leaf_tree [OF two(7) split(2) two(5)]
    have fill: "bt_minfill ?L" "bt_minfill ?R" using l(4) r(4) two by auto
    have ks: "\<forall>x \<in> bt_keyset UINT64_MAX ?L. x < ?sep" "\<forall>x \<in> bt_keyset UINT64_MAX ?R. ?sep \<le> x"
      using split(3,4) unfolding l(3) r(3) by blast+
    note root = new_root_inv [OF l(1) fill(1) r(1) fill(2) ks new_root_fields(1)]
    have now: "bt_now ?T = (bt_now (BLeaf pa p))(?k \<mapsto> ?v)"
    proof
      fix y
      show "bt_now ?T y = ((bt_now (BLeaf pa p))(?k \<mapsto> ?v)) y"
        using root(2) [where u = UINT64_MAX and y = y] split(6) [of y] l(2) r(2) bt_now_leaf [OF pok, of pa] by simp
    qed
    have "store_ok ?s1" using ok by (auto simp: alloc_def store_ok_def)
    moreover have "bt_repr ?s1 ?T" using two(6,7) by (simp add: alloc_def is_leaf_type)
    ultimately have "update_post slots ?ver (Suc 0) ?k ?v (BLeaf pa p) s ?s1 ?T [pa]"
      using root(1) now by (auto simp add: update_post_def alloc_def)
    then show ?thesis
      unfolding init_cow_runs_def run using ret lt
      by (intro exI [of _ OP_DONE] exI [of _ ?c1] exI [of _ ?s1] exI [of _ "Suc 0"] exI [of _ ?T] exI [of _ "[pa]"])
         (simp add: alloc_def)
  qed
qed

lemma init_cow_internal:
  assumes ok: "store_ok s" and rep: "bt_repr s (BNode pa p ps)"
    and inv: "bt_inv slots hi UINT64_MAX (Suc h) (BNode pa p ps)" and dist: "distinct (bt_addrs (BNode pa p ps))"
    and c: "c_t_past c = pa" "hi < c_sno c" "c_fat_slots c = slots" "\<not> c_worker_fat c"
    and size: "bn_size p < 15"
  shows "init_cow_runs slots (Suc h) (BNode pa p ps) c s"
proof -
  let ?P = "BNode pa p ps" and ?ver = "c_sno c" and ?na = "brk s"
  have cell: "cells s pa = Some p" "bn_type p = BT_INTERNAL" "bn_chs p = map bt_addr ps" using rep by simp_all
  have lt: "pa < ?na" by (rule store_ok_less [OF ok cell(1)])
  let ?n = "(bt_copy_internal ?ver p)\<lparr>bn_chs := bn_chs p\<rparr>"
  let ?s1 = "s\<lparr>cells := (cells s)(?na \<mapsto> ?n), brk := Suc ?na\<rparr>"
  let ?c1 = "retire_replaced pa (c\<lparr>c_root := ?na, c_t_cur := ?na\<rparr>)"
  let ?X = "BNode ?na ?n ps"
  have nkeys: "bn_keys ?n = bn_keys p" "bn_type ?n = BT_INTERNAL" "bn_keys (bt_copy_internal ?ver p) = bn_keys p"
    by (simp_all add: bt_copy_internal_def bt_new_internal_def bt_new_node_def)
  note X = copy_same [OF inv nkeys(1)]
  have sok: "store_ok ?s1" using ok by (auto simp: store_ok_def)
  have kept: "bt_repr ?s1 x" if "x \<in> set ps" for x
    by (rule children_kept [OF ok rep dist _ that]) simp
  have repX: "bt_repr ?s1 ?X" using kept cell nkeys by simp
  have m: "mset (bt_addrs ?X) + mset [pa] = mset (bt_addrs ?P) + mset [?na..<Suc ?na]" by simp
  have distX: "distinct (bt_addrs ?X)"
    using bt_repr_addrs [OF ok rep] by (intro distinct_after [OF m dist])
  have "cow_runs slots (Suc h) ?X ?c1 ?s1"
    using size c nkeys(1) by (intro cow_ihD [OF cow_from sok repX X(1) _ distX]) simp_all
  then obtain op c2 s2 c' s' T' R where r: "bt_update_cow ?c1 ?s1 = Some (op, c2, s2)"
    "\<forall>a < brk ?s1. a \<noteq> ?na \<longrightarrow> cells s2 a = cells ?s1 a"
    "run_handlers bt_handlers op c2 s2 = Some (c', s')" "bt_addr T' = ?na" "c_root c' = c_root ?c1"
    "\<forall>a < brk ?s1. cells s' a = cells s2 a"
    "ret_state c' = ret_state (fold retire_replaced R ?c1)" "length R \<le> Suc h"
    and post: "cow_post slots (c_sno ?c1) (Suc h) (c_key ?c1) (c_val ?c1) ?X (brk ?s1) s' T' R"
    unfolding cow_runs_def by (auto simp del: bt_addrs.simps)
  have run: "bt_handle_init_cow c s = Some (op, c2, s2)"
    using cell c size r(1) lt by (simp add: bt_handle_init_cow_def Let_def alloc_def bt_copych_def put_def BT_B_def store_upd_comm)
  have "cow_post slots ?ver (Suc h) (c_key c) (c_val c) ?P ?na s' T' ([pa] @ R)"
  proof (rule cow_post_trans [OF _ _ X(2) _ _ m])
    show "cow_post slots ?ver (Suc h) (c_key c) (c_val c) ?X (Suc ?na) s' T' R" using post by simp
    show "bt_keyset UINT64_MAX ?X \<subseteq> bt_keyset UINT64_MAX ?P" unfolding X(3) ..
    show "bt_minfill ?P \<longrightarrow> bt_minfill ?X" using X(4) by blast
    show "{?na..<Suc ?na} \<subseteq> set (bt_addrs T')" using r(4) bt_addr_in_addrs [of T'] by auto
  qed simp
  then have "update_post slots ?ver (Suc h) (c_key c) (c_val c) ?P s s' T' (pa # R)"
    by (simp add: cow_post_def update_post_def)
  moreover have "ret_state c' = ret_state (fold retire_replaced (pa # R) c)"
    using r(7) ret_state_fold [of ?c1 "retire_replaced pa c" R] ret_state_retire [of "c\<lparr>c_root := ?na, c_t_cur := ?na\<rparr>" c pa]
    by simp
  ultimately show ?thesis
    unfolding init_cow_runs_def using run r lt
    by (intro exI [of _ op] exI [of _ c2] exI [of _ s2] exI [of _ c'] exI [of _ s'] exI [of _ "Suc h"]
        exI [of _ T'] exI [of _ "pa # R"]) simp
qed

lemma init_cow_full:
  assumes ok: "store_ok s" and rep: "bt_repr s (BNode pa p ps)"
    and inv: "bt_inv slots hi UINT64_MAX (Suc h) (BNode pa p ps)" and dist: "distinct (bt_addrs (BNode pa p ps))"
    and c: "c_t_past c = pa" "hi < c_sno c" "c_fat_slots c = slots" "\<not> c_worker_fat c"
    and size: "bn_size p = 15"
  shows "init_cow_runs slots (Suc h) (BNode pa p ps) c s"
proof -
  let ?P = "BNode pa p ps" and ?ver = "c_sno c" and ?k = "c_key c" and ?v = "c_val c"
  let ?la = "brk s" and ?ra = "Suc (brk s)" and ?ro = "Suc (Suc (brk s))" and ?sep = "bn_keys p ! 7"
  have cell: "cells s pa = Some p" "bn_type p = BT_INTERNAL" "bn_chs p = map bt_addr ps" using rep by simp_all
  have lt: "pa < ?la" by (rule store_ok_less [OF ok cell(1)])
  have lenp: "length ps = 16" using inv size by simp
  let ?l = "(bt_new_internal ?ver 7)\<lparr>bn_keys := take 7 (bn_keys p)\<rparr>"
  let ?r = "(bt_new_internal ?ver 7)\<lparr>bn_keys := drop 8 (bn_keys p)\<rparr>"
  let ?l1 = "?l\<lparr>bn_chs := map bt_addr (take 8 ps)\<rparr>" and ?r1 = "?r\<lparr>bn_chs := map bt_addr (drop 8 ps)\<rparr>"
  let ?rn = "bt_new_root ?ver ?sep ?la ?ra"
  let ?cur = "if ?k < ?sep then ?la else ?ra" and ?sib = "if ?k < ?sep then ?ra else ?la"
  let ?s1 = "s\<lparr>cells := (cells s)(?la \<mapsto> ?l1, ?ra \<mapsto> ?r1, ?ro \<mapsto> ?rn), brk := Suc ?ro\<rparr>"
  let ?c1 = "retire_replaced pa (c\<lparr>c_root := ?ro, c_t_cur := ?cur\<rparr>)"
  let ?l2 = "if ?k < ?sep then ?l1 else ?l1\<lparr>bn_cow_ready := True\<rparr>"
  let ?r2 = "if ?k < ?sep then ?r1\<lparr>bn_cow_ready := True\<rparr> else ?r1"
  let ?sn = "if ?k < ?sep then ?r2 else ?l2"
  let ?rn2 = "?rn\<lparr>bn_cow_ready := True\<rparr>"
  let ?L = "BNode ?la ?l2 (take 8 ps)" and ?R = "BNode ?ra ?r2 (drop 8 ps)"
  let ?j = "if ?k < ?sep then 0 else Suc 0" and ?X = "if ?k < ?sep then ?L else ?R"
  let ?T2 = "BNode ?ro ?rn2 [?L, ?R]"
  have kl: "bn_keys ?l2 = take 7 (bn_keys p)" and kr: "bn_keys ?r2 = drop 8 (bn_keys p)" by simp_all
  note cut = bt_cut [OF inv size kl kr refl]
  have rn2: "bn_keys ?rn2 = [?sep]" by simp
  note root = new_root_inv [OF cut(1,2,3,4,5,6) rn2, where a = ?ro]
  have invT2: "bt_inv slots hi UINT64_MAX (Suc (Suc h)) ?T2" by (rule root(1))
  have now: "bt_now ?T2 = bt_now ?P"
  proof
    fix y
    have "bt_now ?T2 y = bt_now (if y < ?sep then ?L else ?R) y"
      by (rule root(2)) simp
    also have "\<dots> = bt_now ?P y"
      by (rule cut(9) [symmetric]) simp
    finally show "bt_now ?T2 y = bt_now ?P y" .
  qed
  have sok: "store_ok ?s1" using ok by (auto simp: store_ok_def)
  have kept: "bt_repr s' x" if "x \<in> set ps" "\<And>a. a < ?la \<Longrightarrow> cells s' a = cells s a" for x s'
    by (rule children_kept [OF ok rep dist _ that(1)]) (rule that(2))
  have mps: "mset (concat (map bt_addrs (take 8 ps))) + mset (concat (map bt_addrs (drop 8 ps))) = mset (concat (map bt_addrs ps))"
    by (metis append_take_drop_id concat_append map_append mset_append)
  have m: "mset (bt_addrs ?T2) + mset [pa] = mset (bt_addrs ?P) + mset [?la..<Suc ?ro]"
    using mps by simp
  have dist2: "distinct (bt_addrs ?T2)"
    using bt_repr_addrs [OF ok rep] by (intro distinct_after [OF m dist])
  have repX: "bt_repr ?s1 ?X"
    using cell by (auto intro!: kept dest: in_set_takeD in_set_dropD)
  have invX: "bt_inv slots hi UINT64_MAX (Suc h) ?X"
    using cut(1) [of ?la] cut(3) [of ?ra] by (cases "?k < ?sep") (simp_all only: if_True if_False)
  have distX: "distinct (bt_addrs ?X)" using dist2 by (auto split: if_splits)
  have "cow_runs slots (Suc h) ?X ?c1 ?s1"
    using size c by (intro cow_ihD [OF cow_from sok repX invX _ distX]) auto
  then obtain op c2 s2 where step: "bt_update_cow ?c1 ?s1 = Some (op, c2, s2)" "store_ok s2" "brk ?s1 \<le> brk s2"
      "\<forall>a < brk ?s1. a \<noteq> bt_addr ?X \<longrightarrow> cells s2 a = cells ?s1 a"
    and rest: "\<forall>s3. store_ok s3 \<longrightarrow> brk s3 = brk s2 \<longrightarrow>
           (\<forall>a. a \<in> set (bt_addrs ?X) \<or> brk ?s1 \<le> a \<longrightarrow> cells s3 a = cells s2 a) \<longrightarrow>
           (\<exists>c' s' T' R. run_handlers bt_handlers op c2 s3 = Some (c', s') \<and>
              bt_addr T' = bt_addr ?X \<and> c_root c' = c_root ?c1 \<and>
              (\<forall>a < brk ?s1. cells s' a = cells s3 a) \<and>
              ret_state c' = ret_state (fold retire_replaced R ?c1) \<and> length R \<le> Suc h \<and>
              cow_post slots (c_sno ?c1) (Suc h) (c_key ?c1) (c_val ?c1) ?X (brk ?s1) s' T' R)"
    unfolding cow_runs_def by blast
  have sibX: "?sib \<notin> set (bt_addrs ?X)" "?ro \<notin> set (bt_addrs ?X)" "?sib \<noteq> bt_addr ?X"
    using dist2 by (auto split: if_splits)
  have s2cells: "cells s2 ?sib = Some (if ?k < ?sep then ?r1 else ?l1)" "cells s2 ?ro = Some ?rn"
    using step(4) [rule_format, of ?sib] step(4) [rule_format, of ?ro] by auto
  let ?s3 = "s2\<lparr>cells := (cells s2)(?sib \<mapsto> ?sn, ?ro \<mapsto> ?rn2)\<rparr>"
  have sok3: "store_ok ?s3"
    using step(2) s2cells store_ok_brk_pos [OF ok] by (auto simp: store_ok_def)
  have agree: "\<forall>a. a \<in> set (bt_addrs ?X) \<or> brk ?s1 \<le> a \<longrightarrow> cells ?s3 a = cells s2 a"
    using sibX by auto
  have brk3: "brk ?s3 = brk s2" by simp
  from rest [THEN spec, THEN mp, OF sok3, THEN mp, OF brk3, THEN mp, OF agree]
  obtain c' s' x R where r: "run_handlers bt_handlers op c2 ?s3 = Some (c', s')"
      "bt_addr x = bt_addr ?X" "c_root c' = c_root ?c1" "\<forall>a < brk ?s1. cells s' a = cells ?s3 a"
      "ret_state c' = ret_state (fold retire_replaced R ?c1)" "length R \<le> Suc h"
      and post: "cow_post slots (c_sno ?c1) (Suc h) (c_key ?c1) (c_val ?c1) ?X (brk ?s1) s' x R"
    by blast
  have fill: "bt_copych_split ?la ?ra pa (s\<lparr>cells := (cells s)(?la \<mapsto> ?l, ?ra \<mapsto> ?r, ?ro \<mapsto> ?rn), brk := Suc ?ro\<rparr>) = Some ?s1"
    using cell lt lenp by (simp add: bt_copych_split_def put_def BT_B_def take_map drop_map store_upd_comm fun_upd_twist)
  have run: "bt_handle_init_cow c s = Some (op, c2, ?s3)"
    using cell c size lt step(1) s2cells fill
    by (cases "?k < ?sep")
       (simp_all add: bt_handle_init_cow_def Let_def alloc_def BT_B_def bt_split_full bt_publish_cow_ready_def put_def
         store_upd_comm fun_upd_twist)
  have j: "?j = findch (bn_keys ?rn2) ?k" by (auto simp: not_less not_le)
  have low: "cells s' a = cells s a" if "a < ?la" for a
    using that r(4) step(4) by auto
  have "cells s' ?sib = Some ?sn" and cn: "cells s' ?ro = Some ?rn2"
    using r(4) [rule_format, of ?sib] r(4) [rule_format, of ?ro] by auto
  then have others: "bt_repr s' ([?L, ?R] ! i)" if "i < length [?L, ?R]" "i \<noteq> ?j" for i
    using that cell by (cases i) (auto split: if_splits intro!: kept low dest: in_set_takeD in_set_dropD)
  have tsj: "[?L, ?R] ! ?j = ?X" by simp
  have hi: "hi \<le> ?ver" using c(2) by simp
  have post': "cow_post slots ?ver (Suc h) ?k ?v ([?L, ?R] ! ?j) (Suc ?ro) s' x R"
    unfolding tsj using post by simp
  have addrx: "bt_addr x = bt_addr ([?L, ?R] ! ?j)" unfolding tsj by (rule r(2))
  let ?T' = "BNode ?ro ?rn2 ([?L, ?R][?j := x])"
  have "cow_post slots ?ver (Suc (Suc h)) ?k ?v ?T2 (Suc ?ro) s' ?T' R"
    by (rule combine_child [OF invT2 j hi post' addrx cn _ _ others]) simp_all
  note P2 = this [unfolded cow_post_def]
  have le: "Suc ?ro \<le> brk s'" using P2 by simp
  have "[?la..<brk s'] = [?la..<Suc ?ro] @ [Suc ?ro..<brk s']"
  proof -
    from le obtain d where "brk s' = Suc ?ro + d" by (auto simp: le_iff_add)
    then show ?thesis by (simp only:) (rule upt_add_eq_append, simp)
  qed
  then have "mset [?la..<brk s'] = mset [?la..<Suc ?ro] + mset [Suc ?ro..<brk s']"
    by (simp only: mset_append)
  moreover have "mset (bt_addrs ?T') + mset (pa # R) = (mset (bt_addrs ?T2) + mset [pa]) + mset [Suc ?ro..<brk s']"
    using P2 by (simp only: mset.simps ac_simps) simp
  ultimately have "mset (bt_addrs ?T') + mset (pa # R) = mset (bt_addrs ?P) + mset [?la..<brk s']"
    unfolding m by (simp only: ac_simps)
  moreover have "{?la..<brk s'} \<subseteq> set (bt_addrs ?T')"
  proof -
    have "bt_addr x \<in> set (bt_addrs x)" by simp
    moreover have "{?la..<Suc ?ro} = {?la, ?ra, ?ro}" by auto
    ultimately have low: "{?la..<Suc ?ro} \<subseteq> set (bt_addrs ?T')" using r(2) by (cases "?k < ?sep") auto
    have "{?la..<brk s'} = {?la..<Suc ?ro} \<union> {Suc ?ro..<brk s'}" using le by (simp add: ivl_disj_un_two)
    then show ?thesis using P2 low by blast
  qed
  ultimately have "update_post slots ?ver (Suc (Suc h)) ?k ?v ?P s s' ?T' (pa # R)"
    using P2 le unfolding update_post_def now by simp
  moreover have "ret_state c' = ret_state (fold retire_replaced (pa # R) c)"
    using r(5) ret_state_fold [of ?c1 "retire_replaced pa c" R] ret_state_retire [of "c\<lparr>c_root := ?ro, c_t_cur := ?cur\<rparr>" c pa]
    by simp
  ultimately show ?thesis
    unfolding init_cow_runs_def using run r low
    by (intro exI [of _ op] exI [of _ c2] exI [of _ ?s3] exI [of _ c'] exI [of _ s'] exI [of _ "Suc (Suc h)"]
        exI [of _ ?T'] exI [of _ "pa # R"]) simp
qed

end
