(* ===== verification/BT_Exec_Correct.thy ===== *)
theory BT_Exec_Correct
  imports BT_Update_Correct
begin

text \<open>
  The append to a leaf's version buffer, and whole updates. An append changes a leaf in place, so it is
  visible through the roots of all earlier versions that share the leaf: \<open>bt_put_leaf\<close> is its effect on
  any such tree, and the snapshots below the new version do not change.
\<close>

fun bt_put_leaf :: "addr \<Rightarrow> bt_node \<Rightarrow> bt_tree \<Rightarrow> bt_tree" where
  "bt_put_leaf l t (BLeaf a n) = BLeaf a (if a = l then t else n)"
| "bt_put_leaf l t (BNode a n ts) = BNode a n (map (bt_put_leaf l t) ts)"

lemma bt_put_leaf_addr [simp]: "bt_addr (bt_put_leaf l t T) = bt_addr T"
  by (cases T) auto

lemma bt_put_leaf_addrs [simp]: "bt_addrs (bt_put_leaf l t T) = bt_addrs T"
proof (induction T)
  case (BNode a n ts)
  then have "map (bt_addrs \<circ> bt_put_leaf l t) ts = map bt_addrs ts" by simp
  then show ?case by (simp only: bt_put_leaf.simps bt_addrs.simps map_map)
qed simp

lemma bt_put_leaf_other: "l \<notin> set (bt_addrs T) \<Longrightarrow> bt_put_leaf l t T = T"
proof (induction T)
  case (BNode a n ts)
  then have "map (bt_put_leaf l t) ts = map id ts" by (intro map_cong) auto
  then show ?case by simp
qed auto

lemma bt_put_leaf_repr:
  assumes "bt_repr s T" and l: "cells s l = Some t" "bn_type t = BT_LEAF" and t': "bn_type t' = BT_LEAF"
  shows "bt_repr (s\<lparr>cells := (cells s)(l \<mapsto> t')\<rparr>) (bt_put_leaf l t' T)"
  using assms(1)
proof (induction T)
  case (BNode a n ts)
  have "a \<noteq> l" using BNode.prems l by auto
  with BNode show ?case by auto
qed (use t' in auto)

section \<open>The leaf after an append\<close>

definition leaf_appended :: "nat \<Rightarrow> u32 \<Rightarrow> u64 \<Rightarrow> u64 \<Rightarrow> bt_node \<Rightarrow> bt_node \<Rightarrow> bool" where
  "leaf_appended slots ver k v t t' \<longleftrightarrow>
     (\<exists>b b'. (bn_delta t = Some b \<or> bn_delta t = None \<and> b = new_delta_block slots) \<and>
        delta_append slots (ucast ver) k v b = Some b' \<and> supported_fat_slots slots \<and>
        t' = t\<lparr>bn_delta := Some b'\<rparr>)"

lemma new_block_used [simp]: "db_used (new_delta_block slots) = []"
  by (simp add: db_used_def new_delta_block_def)

lemma leaf_appended_facts:
  assumes ok: "leaf_ok slots hi t" and "hi < ver" and app: "leaf_appended slots ver k v t t'"
  shows "leaf_ok slots ver t'" "bn_keys t' = bn_keys t" "bn_type t' = BT_LEAF"
    and "w < ucast ver \<Longrightarrow> leaf_keyset w t' = leaf_keyset w t"
    and "u < ucast ver \<Longrightarrow> leaf_records t' u = leaf_records t u"
    and "leaf_keyset UINT64_MAX t' = insert k (leaf_keyset UINT64_MAX t)"
    and "leaf_latest t' = (leaf_latest t)(k \<mapsto> v)"
proof -
  obtain b b' where b: "bn_delta t = Some b \<or> bn_delta t = None \<and> b = new_delta_block slots"
    and b': "delta_append slots (ucast ver) k v b = Some b'" and sup: "supported_fat_slots slots"
    and t': "t' = t\<lparr>bn_delta := Some b'\<rparr>"
    using app by (auto simp: leaf_appended_def)
  have leaf: "bn_type t = BT_LEAF" "bn_ver t \<le> hi" using ok by (auto simp: leaf_ok_def)
  have bok: "delta_ok slots (bn_ver t) hi b"
    using b leaf_ok_delta_ok [OF ok] delta_ok_new [OF sup] by auto
  have lo: "bn_ver t < ver" using leaf(2) \<open>hi < ver\<close> by (rule le_less_trans)
  have bok': "delta_ok slots (bn_ver t) ver b'"
    by (rule delta_append_ok [OF bok b' \<open>hi < ver\<close> lo])
  let ?sl = "\<lparr>ds_version = ucast ver, ds_key = k, ds_value = v\<rparr>"
  have used: "db_used b' = db_used b @ [?sl]" by (rule delta_append_used [OF bok b'])
  show ok': "leaf_ok slots ver t'"
    using ok bok' \<open>hi < ver\<close> by (auto simp: leaf_ok_def t' less_imp_le)
  show "bn_keys t' = bn_keys t" "bn_type t' = BT_LEAF" using leaf by (simp_all add: t')
  have ks: "leaf_keyset w t = set (bn_keys t) \<union> ds_key ` set (filter (\<lambda>sl. ds_version sl \<le> w) (db_used b))" for w
    using b by (auto simp: leaf_keyset_def)
  show "leaf_keyset w t' = leaf_keyset w t" if "w < ucast ver"
    unfolding ks using that by (auto simp: leaf_keyset_def t' used dest: leD)
  show "leaf_keyset UINT64_MAX t' = insert k (leaf_keyset UINT64_MAX t)"
    unfolding ks by (simp add: leaf_keyset_def t' used)
  have vis: "visible_records u (bn_delta t) = map slot_record (filter (\<lambda>sl. ds_version sl \<le> u) (db_used b))" for u
    using b visible_records_used [OF bok] by auto
  show "leaf_records t' u = leaf_records t u" if "u < ucast ver"
    using that vis [of u] visible_records_used [OF bok', of u] used
    by (simp add: leaf_records_def leaf_ok_leaf_delta [OF ok] leaf_ok_leaf_delta [OF ok']) (simp add: t')
  show "leaf_latest t' = (leaf_latest t)(k \<mapsto> v)"
  proof
    fix x
    have "leaf_latest t x = (case last_value (map slot_record (db_used b)) x of
       None \<Rightarrow> map_of (zip (bn_keys t) (bn_vals t)) x | Some y \<Rightarrow> Some y)"
      unfolding leaf_latest_eq [OF ok] using b by auto
    then show "leaf_latest t' x = ((leaf_latest t)(k \<mapsto> v)) x"
      unfolding leaf_latest_eq [OF ok'] by (simp add: t' used split: option.splits)
  qed
qed

section \<open>Trees after an append\<close>

text \<open>Earlier snapshots: nothing a reader below the new version sees is changed.\<close>

lemma bt_put_leaf_old:
  assumes l: "cells s l = Some t" and app: "leaf_appended slots ver k v t t'" and "hi < ver" and w: "w < ucast ver"
    and rep: "bt_repr s T" and inv: "bt_inv slots hi w h T"
  shows "bt_inv slots ver w h (bt_put_leaf l t' T) \<and> bt_keyset w (bt_put_leaf l t' T) = bt_keyset w T \<and>
    (bt_minfill (bt_put_leaf l t' T) \<longleftrightarrow> bt_minfill T) \<and>
    (\<forall>u \<le> w. bt_contents u (bt_put_leaf l t' T) = bt_contents u T)"
  using rep inv
proof (induction h arbitrary: T)
  case 0
  then obtain a n where T: "T = BLeaf a n" and ok: "leaf_ok slots hi n" by (elim bt_inv_0_cases)
  show ?case
  proof (cases "a = l")
    case True
    then have "n = t" using 0 l T by simp
    then have ok: "leaf_ok slots hi t" using ok by simp
    note facts = leaf_appended_facts [OF ok \<open>hi < ver\<close> app]
    have "leaf_records t' u = leaf_records t u" if "u \<le> w" for u
      using that w by (intro facts(5)) (rule le_less_trans)
    then show ?thesis
      using facts(1,2) facts(4) [OF w] True \<open>n = t\<close> by (simp add: T leaf_entries_def)
  next
    case False
    then show ?thesis using 0 T leaf_ok_mono [OF ok less_imp_le [OF \<open>hi < ver\<close>]] by simp
  qed
next
  case (Suc h)
  from Suc.prems(2) obtain a n ts where T: "T = BNode a n ts" by (elim bt_inv_Suc_cases)
  let ?f = "bt_put_leaf l t'"
  have sub: "bt_inv slots ver w h (?f x)" "bt_keyset w (?f x) = bt_keyset w x" "bt_minfill (?f x) = bt_minfill x"
    "\<And>u. u \<le> w \<Longrightarrow> bt_contents u (?f x) = bt_contents u x" if "x \<in> set ts" for x
    using Suc.IH [of x] Suc.prems that by (auto simp: T)
  have "bt_routed w (bn_keys n) (map ?f ts)"
    using Suc.prems(2) sub(2) by (simp add: T bt_routed_def)
  then have "bt_inv slots ver w (Suc h) (?f T)"
    using Suc.prems(2) sub(1,3) by (simp add: T)
  moreover have "bt_keyset w (?f T) = bt_keyset w T" using sub(2) by (simp add: T)
  moreover have "bt_contents u (?f T) = bt_contents u T" if "u \<le> w" for u
  proof -
    have "map (bt_contents u \<circ> ?f) ts = map (bt_contents u) ts" using sub(4) [OF _ that] by simp
    then show ?thesis by (simp only: T bt_put_leaf.simps bt_contents.simps map_map)
  qed
  ultimately show ?case by (simp add: T)
qed

text \<open>The current tree: the update takes effect.\<close>

lemma bt_put_leaf_now:
  assumes l: "cells s l = Some t" and app: "leaf_appended slots ver k v t t'" and "hi < ver"
    and rep: "bt_repr s T" and inv: "bt_inv slots hi UINT64_MAX h T" and dist: "distinct (bt_addrs T)"
    and desc: "bt_descend s (bt_addr T) k = Some l"
  shows "bt_inv slots ver UINT64_MAX h (bt_put_leaf l t' T) \<and>
    bt_keyset UINT64_MAX (bt_put_leaf l t' T) \<subseteq> insert k (bt_keyset UINT64_MAX T) \<and>
    (bt_minfill (bt_put_leaf l t' T) \<longleftrightarrow> bt_minfill T) \<and>
    bt_now (bt_put_leaf l t' T) = (bt_now T)(k \<mapsto> v) \<and> l \<in> set (bt_addrs T)"
  using rep inv dist desc
proof (induction h arbitrary: T)
  case 0
  then obtain a n where T: "T = BLeaf a n" and ok: "leaf_ok slots hi n" by (elim bt_inv_0_cases)
  have "a = l" "n = t" using 0 T l by (auto simp: bt_descend.simps [of s a])
  then have ok: "leaf_ok slots hi t" using ok by simp
  note facts = leaf_appended_facts [OF ok \<open>hi < ver\<close> app]
  show ?case
    using facts \<open>a = l\<close> \<open>n = t\<close> bt_now_leaf [OF facts(1)] bt_now_leaf [OF ok] by (simp add: T)
next
  case (Suc h)
  from Suc.prems(2) obtain a n ts where T: "T = BNode a n ts" by (elim bt_inv_Suc_cases)
  let ?f = "bt_put_leaf l t'" and ?j = "findch (bn_keys n) k"
  have jl: "?j < length ts"
    using Suc.prems findch_le [of "bn_keys n" k] by (simp add: T less_Suc_eq_le)
  have d: "bt_descend s (bt_addr (ts ! ?j)) k = Some l"
    using Suc.prems jl by (simp add: T bt_descend.simps [of s a] bt_findch_def)
  have prems: "bt_repr s (ts ! ?j)" "bt_inv slots hi UINT64_MAX h (ts ! ?j)" "distinct (bt_addrs (ts ! ?j))"
    using Suc.prems jl by (auto simp: T distinct_concat_iff)
  note IH = Suc.IH [OF prems d]
  have "map ?f ts = ts[?j := ?f (ts ! ?j)]"
  proof (rule nth_equalityI)
    fix i assume i: "i < length (map ?f ts)"
    show "map ?f ts ! i = ts[?j := ?f (ts ! ?j)] ! i"
    proof (cases "i = ?j")
      case False
      have "l \<notin> set (bt_addrs (ts ! i))"
        using distinct_concat_nth_disjoint [of "map bt_addrs ts" i ?j] Suc.prems(3) IH i jl False by (auto simp: T)
      then show ?thesis using i False by (simp add: bt_put_leaf_other)
    qed (use i in simp)
  qed simp
  then have fT: "?f T = BNode a n (ts[?j := ?f (ts ! ?j)])" by (simp add: T)
  note inv = Suc.prems(2) [unfolded T]
  have fill: "bt_minfill (ts ! ?j)" using inv nth_mem [OF jl] by simp
  have inv': "bt_inv slots ver UINT64_MAX (Suc h) (?f T)"
    unfolding fT using IH fill \<open>hi < ver\<close> by (intro bt_inv_replace(1) [OF inv refl refl]) auto
  moreover have "bt_keyset UINT64_MAX (?f T) \<subseteq> insert k (bt_keyset UINT64_MAX T)"
    unfolding fT unfolding T using IH fill \<open>hi < ver\<close> by (intro bt_inv_replace(2) [OF inv refl refl]) auto
  moreover have "bt_now (?f T) = (bt_now T)(k \<mapsto> v)"
    unfolding fT unfolding T using IH inv' by (intro bt_map_replace [OF inv _ refl refl]) (auto simp: fT)
  moreover have "l \<in> set (bt_addrs T)"
    using IH jl nth_mem [OF jl] by (auto simp: T)
  moreover have "bt_minfill (?f T) \<longleftrightarrow> bt_minfill T" by (simp add: T)
  ultimately show ?case by blast
qed

section \<open>Whole updates\<close>

text \<open>
  What an update leaves of every tree of an earlier version \<open>w\<close>: the same root and nodes, the same
  contents for all snapshots up to \<open>w\<close>.
\<close>

definition snapshots_kept :: "nat \<Rightarrow> u32 \<Rightarrow> u32 \<Rightarrow> bt_store \<Rightarrow> bt_store \<Rightarrow> bool" where
  "snapshots_kept slots hi ver s s' \<longleftrightarrow>
     (\<forall>w h T. w < ucast ver \<longrightarrow> bt_repr s T \<longrightarrow> bt_inv slots hi w h T \<longrightarrow>
        (\<exists>T'. bt_repr s' T' \<and> bt_addr T' = bt_addr T \<and> bt_addrs T' = bt_addrs T \<and> bt_inv slots ver w h T' \<and>
              (\<forall>u \<le> w. bt_contents u T' = bt_contents u T)))"

lemma snapshots_keptD:
  assumes "snapshots_kept slots hi ver s s'" "w < ucast ver" "bt_repr s T" "bt_inv slots hi w h T"
  obtains T' where "bt_repr s' T'" "bt_addr T' = bt_addr T" "bt_addrs T' = bt_addrs T" "bt_inv slots ver w h T'"
    "\<And>u. u \<le> w \<Longrightarrow> bt_contents u T' = bt_contents u T"
  using assms unfolding snapshots_kept_def by blast

lemma snapshots_kept_frame:
  assumes "store_ok s" "\<forall>a < brk s. cells s' a = cells s a" "hi \<le> ver"
  shows "snapshots_kept slots hi ver s s'"
  unfolding snapshots_kept_def
proof (intro allI impI)
  fix w h T assume T: "bt_repr s T" "bt_inv slots hi w h T"
  have "bt_repr s' T"
    using assms(2) bt_repr_addrs [OF assms(1) T(1)] by (intro bt_repr_frame [OF T(1)]) simp
  then show "\<exists>T'. bt_repr s' T' \<and> bt_addr T' = bt_addr T \<and> bt_addrs T' = bt_addrs T \<and> bt_inv slots ver w h T' \<and>
              (\<forall>u \<le> w. bt_contents u T' = bt_contents u T)"
    using bt_inv_mono [OF T(2) assms(3)] by blast
qed

lemma snapshots_kept_append:
  assumes l: "cells s l = Some t" and app: "leaf_appended slots ver k v t t'" and "hi < ver"
    and t: "bn_type t = BT_LEAF" "bn_type t' = BT_LEAF"
  shows "snapshots_kept slots hi ver s (s\<lparr>cells := (cells s)(l \<mapsto> t')\<rparr>)"
  unfolding snapshots_kept_def
proof (intro allI impI)
  fix w h T assume w: "w < ucast ver" and T: "bt_repr s T" "bt_inv slots hi w h T"
  show "\<exists>T'. bt_repr (s\<lparr>cells := (cells s)(l \<mapsto> t')\<rparr>) T' \<and> bt_addr T' = bt_addr T \<and> bt_addrs T' = bt_addrs T \<and>
      bt_inv slots ver w h T' \<and> (\<forall>u \<le> w. bt_contents u T' = bt_contents u T)"
    using bt_put_leaf_repr [OF T(1) l t] bt_put_leaf_old [OF l app \<open>hi < ver\<close> w T]
    by (intro exI [of _ "bt_put_leaf l t' T"]) simp
qed

lemma append_leaf_delta_cases:
  assumes ok: "leaf_ok slots hi t" and cell: "cells s l = Some t" and sup: "supported_fat_slots slots"
  obtains (full) "bt_append_leaf_delta l slots ver k v s = Some (False, s)"
    | (appended) b b' where "bt_append_leaf_delta l slots ver k v s = Some (True, s\<lparr>cells := (cells s)(l \<mapsto> t\<lparr>bn_delta := Some b'\<rparr>)\<rparr>)"
        "bn_delta t = Some b \<or> bn_delta t = None \<and> b = new_delta_block slots" "delta_append slots ver k v b = Some b'"
proof -
  have type: "bn_type t = BT_LEAF" using ok by (simp add: leaf_ok_def)
  let ?b = "case bn_delta t of None \<Rightarrow> new_delta_block slots | Some b \<Rightarrow> b"
  show thesis
  proof (cases "delta_append slots ver k v ?b")
    case None
    have "bn_delta t \<noteq> None"
    proof
      assume "bn_delta t = None"
      then show False
        using None supported_le_8 [OF sup] by (simp add: delta_append_def new_delta_block_def)
    qed
    then have same: "bt_publish_leaf_delta ?b t = t" by (auto simp: bt_publish_leaf_delta_def)
    have "bt_append_leaf_delta l slots ver k v s = Some (False, s\<lparr>cells := (cells s)(l \<mapsto> bt_publish_leaf_delta ?b t)\<rparr>)"
      using None cell type sup
      by (simp add: bt_append_leaf_delta_def leaf_ok_leaf_delta [OF ok] put_def Let_def split: option.splits)
    then show thesis using cell unfolding same by (intro full) (simp add: fun_upd_idem)
  next
    case (Some b')
    have "bt_append_leaf_delta l slots ver k v s = Some (True, s\<lparr>cells := (cells s)(l \<mapsto> t\<lparr>bn_delta := Some b'\<rparr>)\<rparr>)"
      using Some cell type sup
      by (simp add: bt_append_leaf_delta_def leaf_ok_leaf_delta [OF ok] put_def Let_def bt_publish_leaf_delta_def
          split: option.splits)
    moreover have "bn_delta t = Some ?b \<or> bn_delta t = None \<and> ?b = new_delta_block slots"
      by (cases "bn_delta t") auto
    ultimately show thesis using Some by (intro appended)
  qed
qed

lemma init_cow_runs_all:
  assumes ok: "store_ok s" and rep: "bt_repr s T" and inv: "bt_inv slots hi UINT64_MAX h T" and dist: "distinct (bt_addrs T)"
    and c: "c_t_past c = bt_addr T" "hi < c_sno c" "c_fat_slots c = slots" "\<not> c_worker_fat c"
  shows "init_cow_runs slots h T c s"
proof (cases h)
  case 0
  with inv obtain a t where T: "T = BLeaf a t" and lok: "leaf_ok slots hi t" by (auto elim: bt_inv_0_cases)
  show ?thesis
    unfolding T 0 using rep c by (intro init_cow_leaf [OF ok _ lok]) (simp_all add: T)
next
  case (Suc h')
  with inv obtain a t ts where T: "T = BNode a t ts" by (auto elim: bt_inv_Suc_cases)
  have le: "bn_size t \<le> 15" using inv by (simp add: T Suc BT_B_def)
  show ?thesis
  proof (cases "bn_size t = 15")
    case True
    show ?thesis
      unfolding T Suc
      by (rule init_cow_full [OF ok rep [unfolded T] inv [unfolded T Suc] dist [unfolded T] c(1) [unfolded T bt_tree.sel] c(2-4) True])
  next
    case False
    with le have lt: "bn_size t < 15" by simp
    show ?thesis
      unfolding T Suc
      by (rule init_cow_internal [OF ok rep [unfolded T] inv [unfolded T Suc] dist [unfolded T] c(1) [unfolded T bt_tree.sel] c(2-4) lt])
  qed
qed

text \<open>The result of one task: the new version, the old versions, the retirements.\<close>

definition exec_post :: "nat \<Rightarrow> u32 \<Rightarrow> nat \<Rightarrow> bt_tree \<Rightarrow> bt_ctx \<Rightarrow> bt_store \<Rightarrow> bt_ctx \<Rightarrow> bt_store \<Rightarrow> bool" where
  "exec_post slots hi h T c s c' s' \<longleftrightarrow>
     (\<exists>h' T' R. c_root c' = bt_addr T' \<and> h \<le> h' \<and> h' \<le> Suc h \<and>
        update_post slots (c_sno c) h' (c_key c) (c_val c) T s s' T' R \<and>
        ret_state c' = ret_state (fold retire_replaced R c) \<and> length R \<le> Suc h) \<and>
     snapshots_kept slots hi (c_sno c) s s' \<and> dom (cells s) \<subseteq> dom (cells s')"

lemma dom_cells_mono: "store_ok s \<Longrightarrow> \<forall>a < brk s. cells s' a = cells s a \<Longrightarrow> dom (cells s) \<subseteq> dom (cells s')"
  using store_ok_less by fastforce

lemma bt_exec_post:
  assumes ok: "store_ok s" and rep: "bt_repr s T" and inv: "bt_inv slots hi UINT64_MAX h T" and dist: "distinct (bt_addrs T)"
    and c: "c_t_past c = bt_addr T" "hi < c_sno c" "c_fat_slots c = slots" "\<not> c_worker_fat c"
  shows "\<exists>c' s'. bt_exec c s = Some (c', s') \<and> exec_post slots hi h T c s c' s'"
proof -
  let ?ver = "c_sno c" and ?k = "c_key c" and ?v = "c_val c"
  obtain op c1 s1 c' s' h' T' R where cow: "bt_handle_init_cow c s = Some (op, c1, s1)"
    "run_handlers bt_handlers op c1 s1 = Some (c', s')" "c_root c' = bt_addr T'" "h \<le> h'" "h' \<le> Suc h"
    "\<forall>a < brk s. cells s' a = cells s a" "ret_state c' = ret_state (fold retire_replaced R c)" "length R \<le> Suc h"
    "update_post slots ?ver h' ?k ?v T s s' T' R"
    using init_cow_runs_all [OF assms] unfolding init_cow_runs_def by blast
  have "exec_post slots hi h T c s c' s'"
    using cow(3-9) snapshots_kept_frame [OF ok cow(6) less_imp_le [OF c(2)]] dom_cells_mono [OF ok cow(6)]
    unfolding exec_post_def by blast
  moreover have "bt_exec c s = Some (c', s')" if "bt_handle_init c s = bt_handle_init_cow c s"
    using cow(1,2) by (simp add: bt_exec_def that)
  ultimately have copy: ?thesis if "bt_handle_init c s = bt_handle_init_cow c s" using that by blast
  show ?thesis
  proof (cases "supported_fat_slots slots")
    case False
    then show ?thesis by (intro copy) (simp add: bt_handle_init_def c)
  next
    case sup: True
    obtain l t where desc: "bt_descend s (bt_addr T) ?k = Some l" and cell: "cells s l = Some t" and lok: "leaf_ok slots hi t"
      using bt_descend_repr [OF rep inv, of ?k] by blast
    show ?thesis
    proof (cases rule: append_leaf_delta_cases [OF lok cell sup, of "ucast ?ver" ?k ?v, case_names full appended])
      case full
      then show ?thesis using desc c sup by (intro copy) (simp add: bt_handle_init_def)
    next
      case (appended b b')
      let ?t = "t\<lparr>bn_delta := Some b'\<rparr>" and ?c = "c\<lparr>c_root := bt_addr T\<rparr>"
      let ?s = "s\<lparr>cells := (cells s)(l \<mapsto> ?t)\<rparr>" and ?T = "bt_put_leaf l ?t T"
      have app: "leaf_appended slots ?ver ?k ?v t ?t"
        using appended(2,3) sup unfolding leaf_appended_def by blast
      have type: "bn_type t = BT_LEAF" "bn_type ?t = BT_LEAF" using lok by (simp_all add: leaf_ok_def)
      have run: "bt_exec c s = Some (?c, ?s)"
        using appended(1) desc c sup by (simp add: bt_exec_def bt_handle_init_def)
      have "update_post slots ?ver h ?k ?v T s ?s ?T []"
        using bt_put_leaf_now [OF cell app c(2) rep inv dist desc] bt_put_leaf_repr [OF rep cell type]
          store_ok_upd [OF ok cell] by (simp add: update_post_def)
      moreover have "snapshots_kept slots hi ?ver s ?s"
        by (rule snapshots_kept_append [OF cell app c(2) type])
      moreover have "c_root ?c = bt_addr ?T" "ret_state ?c = ret_state (fold retire_replaced [] c)" by simp_all
      moreover have "dom (cells s) \<subseteq> dom (cells ?s)" by auto
      ultimately have "exec_post slots hi h T c s ?c ?s"
        unfolding exec_post_def by (intro conjI exI [of _ h] exI [of _ ?T] exI [of _ "[]"]) simp_all
      with run show ?thesis by blast
    qed
  qed
qed

end
