(* ===== verification/Reclamation.thy ===== *)
theory Reclamation
  imports Update_Context
begin

text \<open>
  Version-based reclamation (\<^verbatim>\<open>lib/conctrl/reclamation.hpp\<close>, class \<^verbatim>\<open>epoch_reclaimer\<close>): publication of a
  root and its version under a sequence counter, pinning of a snapshot by a reader, retirement of
  replaced nodes and their reclamation.

  First the object and its methods as they run alone; then the protocol: every atomic access of
  \<open>publish\<close>, \<open>pin\<close>, \<open>unpin_\<close> and \<open>try_reclaim\<close> is one action of a system of readers, reclaimers and one
  publisher (\<^verbatim>\<open>seq_cst\<close> accesses, so any interleaving). Bytes and node counts are \<^verbatim>\<open>uint64_t\<close> and wrap.
  The parameters \<open>node_size\<close>, \<open>free_node\<close> and the checkpoint hooks stand for the static members of the
  template argument.
\<close>

section \<open>The object\<close>

record retire_batch =
  rb_version :: u64
  rb_bytes :: u64
  rb_count :: u64
  rb_nodes :: "addr list"
  rb_checkpoint :: addr

record gc =
  g_enabled :: bool
  g_consistent :: bool
  g_readers :: "u64 list"
  g_seq :: u64
  g_root :: addr
  g_version :: u64
  g_retired :: "retire_batch list"
  g_retired_nodes :: u64
  g_reclaimed_nodes :: u64
  g_retired_bytes :: u64
  g_reclaimed_bytes :: u64

definition INACTIVE :: u64 where
  "INACTIVE = UINT64_MAX"

definition init_gc :: "addr \<Rightarrow> nat \<Rightarrow> bool \<Rightarrow> bool \<Rightarrow> gc" where
  "init_gc initial_root n_readers enabled consistent_snapshot =
     \<lparr>g_enabled = enabled, g_consistent = (enabled \<or> consistent_snapshot),
      g_readers = (if enabled then replicate (max n_readers 1) INACTIVE else []),
      g_seq = 0, g_root = initial_root, g_version = 0, g_retired = [],
      g_retired_nodes = 0, g_reclaimed_nodes = 0, g_retired_bytes = 0, g_reclaimed_bytes = 0\<rparr>"

text \<open>The four stores of \<open>publish\<close>; without a consistent snapshot only the middle two.\<close>

definition publish_begin :: "gc \<Rightarrow> gc" where
  "publish_begin g = (if g_consistent g then g\<lparr>g_seq := g_seq g + 1\<rparr> else g)"

definition publish_root :: "addr \<Rightarrow> gc \<Rightarrow> gc" where
  "publish_root root g = g\<lparr>g_root := root\<rparr>"

definition publish_version :: "u64 \<Rightarrow> gc \<Rightarrow> gc" where
  "publish_version version g = g\<lparr>g_version := version\<rparr>"

definition publish_end :: "gc \<Rightarrow> gc" where
  "publish_end g = (if g_consistent g then g\<lparr>g_seq := g_seq g + 1\<rparr> else g)"

definition publish :: "addr \<Rightarrow> u64 \<Rightarrow> gc \<Rightarrow> gc" where
  "publish root version g =
     publish_end (publish_version version (publish_root root (publish_begin g)))"

text \<open>
  The control points of \<open>pin\<close>: after the sequence load, the root load, the version load, the store of
  the reader's slot; \<open>RD_PINNED\<close> is the returned guard.
\<close>

datatype reader_phase =
    RD_IDLE
  | RD_SEQ u64
  | RD_ROOT u64 addr
  | RD_CAND u64 addr u64
  | RD_STORED u64 addr u64
  | RD_PINNED addr u64

definition set_reader :: "nat \<Rightarrow> u64 \<Rightarrow> gc \<Rightarrow> gc" where
  "set_reader cid version g =
     (if g_enabled g then g\<lparr>g_readers := (g_readers g)[cid := version]\<rparr> else g)"

fun pin_step :: "nat \<Rightarrow> reader_phase \<Rightarrow> gc \<Rightarrow> reader_phase \<times> gc" where
  "pin_step cid RD_IDLE g =
     (if \<not> g_consistent g then (RD_SEQ 0, g)
      else if g_seq g AND 1 \<noteq> 0 then (RD_IDLE, g) else (RD_SEQ (g_seq g), g))"
| "pin_step cid (RD_SEQ s) g = (RD_ROOT s (g_root g), g)"
| "pin_step cid (RD_ROOT s r) g =
     (if \<not> g_consistent g then (RD_PINNED r (g_version g), g) else (RD_CAND s r (g_version g), g))"
| "pin_step cid (RD_CAND s r v) g = (RD_STORED s r v, set_reader cid v g)"
| "pin_step cid (RD_STORED s r v) g =
     (if s = g_seq g then (RD_PINNED r v, g) else (RD_IDLE, set_reader cid INACTIVE g))"
| "pin_step cid (RD_PINNED r v) g = (RD_PINNED r v, g)"

definition unpin :: "nat \<Rightarrow> gc \<Rightarrow> gc" where
  "unpin cid g = set_reader cid INACTIVE g"

text \<open>A pin that is not interrupted: five steps.\<close>

definition pin_alone :: "nat \<Rightarrow> gc \<Rightarrow> reader_phase \<times> gc" where
  "pin_alone cid g =
     ((\<lambda>(p, g). pin_step cid p g) ^^ 5) (RD_IDLE, g)"

definition oldest_step :: "u64 \<Rightarrow> u64 \<Rightarrow> u64" where
  "oldest_step oldest version = (if version \<noteq> INACTIVE then min oldest version else oldest)"

definition oldest_active_reader :: "gc \<Rightarrow> u64" where
  "oldest_active_reader g = foldl oldest_step (g_version g) (g_readers g)"

text \<open>
  \<open>retire\<close>: the nodes that a context has replaced become a batch. The hook \<open>stats\<close> exists only for trees
  with a checkpoint; the batch then also owns the checkpoint structure of the previous root.
\<close>

definition push_batch :: "retire_batch \<Rightarrow> gc \<Rightarrow> gc" where
  "push_batch b g =
     g\<lparr>g_retired := g_retired g @ [b], g_retired_nodes := g_retired_nodes g + rb_count b,
       g_retired_bytes := g_retired_bytes g + rb_bytes b\<rparr>"

definition retire ::
    "(addr \<Rightarrow> u64) \<Rightarrow> (addr \<Rightarrow> u64 \<times> u64) option \<Rightarrow> u64 \<Rightarrow> ('z) ctx_scheme \<Rightarrow> gc \<Rightarrow> ('z) ctx_scheme \<times> gc" where
  "retire node_size stats version c g =
     (if \<not> g_enabled g then (clear_retired c, g)
      else
        let (nodes, n, c') = drain_retired c;
            b = \<lparr>rb_version = version, rb_bytes = sum_list (map node_size nodes),
                 rb_count = of_nat (length nodes), rb_nodes = nodes, rb_checkpoint = nullptr\<rparr>;
            b' = (case stats of
                    Some f \<Rightarrow>
                      if c_checkpoint_rebuilt c
                      then let (k, by) = f (c_t_past c)
                           in b\<lparr>rb_checkpoint := c_t_past c, rb_count := rb_count b + k,
                               rb_bytes := rb_bytes b + by\<rparr>
                      else b
                  | None \<Rightarrow> b)
        in if rb_count b' = 0 then (c', g) else (c', push_batch b' g))"

text \<open>The loop of \<open>try_reclaim\<close>: whole batches from the front, as long as they are old enough.\<close>

fun free_batches ::
    "(addr \<Rightarrow> 's \<Rightarrow> 's option) \<Rightarrow> (addr \<Rightarrow> 's \<Rightarrow> 's option) \<Rightarrow> u64 \<Rightarrow> retire_batch list \<Rightarrow> 's
      \<Rightarrow> (retire_batch list \<times> u64 \<times> u64 \<times> 's) option" where
  "free_batches free_node free_checkpoint safe [] s = Some ([], 0, 0, s)"
| "free_batches free_node free_checkpoint safe (b # bs) s =
     (if rb_version b \<le> safe
      then do {
        s1 \<leftarrow> fold (\<lambda>a r. Option.bind r (free_node a)) (rb_nodes b) (Some s);
        s2 \<leftarrow> (if rb_checkpoint b \<noteq> nullptr then free_checkpoint (rb_checkpoint b) s1 else Some s1);
        (bs', k, by, s3) \<leftarrow> free_batches free_node free_checkpoint safe bs s2;
        Some (bs', rb_count b + k, rb_bytes b + by, s3) }
      else Some (b # bs, 0, 0, s))"

definition try_reclaim_safe ::
    "(addr \<Rightarrow> 's \<Rightarrow> 's option) \<Rightarrow> (addr \<Rightarrow> 's \<Rightarrow> 's option) \<Rightarrow> u64 \<Rightarrow> gc \<Rightarrow> 's \<Rightarrow> (gc \<times> 's) option" where
  "try_reclaim_safe free_node free_checkpoint safe g s = do {
     (bs, k, by, s') \<leftarrow> free_batches free_node free_checkpoint safe (g_retired g) s;
     Some (g\<lparr>g_retired := bs, g_reclaimed_nodes := g_reclaimed_nodes g + k,
             g_reclaimed_bytes := g_reclaimed_bytes g + by\<rparr>, s') }"

text \<open>What a reclamation does to the queue and the counters, apart from the freeing.\<close>

definition pop_batches :: "u64 \<Rightarrow> gc \<Rightarrow> gc" where
  "pop_batches safe g =
     (let old = takeWhile (\<lambda>b. rb_version b \<le> safe) (g_retired g)
      in g\<lparr>g_retired := dropWhile (\<lambda>b. rb_version b \<le> safe) (g_retired g),
           g_reclaimed_nodes := g_reclaimed_nodes g + sum_list (map rb_count old),
           g_reclaimed_bytes := g_reclaimed_bytes g + sum_list (map rb_bytes old)\<rparr>)"

definition try_reclaim ::
    "(addr \<Rightarrow> 's \<Rightarrow> 's option) \<Rightarrow> (addr \<Rightarrow> 's \<Rightarrow> 's option) \<Rightarrow> u64 \<Rightarrow> gc \<Rightarrow> 's \<Rightarrow> (gc \<times> 's) option" where
  "try_reclaim free_node free_checkpoint writer_safe g s =
     (if \<not> g_enabled g then Some (g, s)
      else try_reclaim_safe free_node free_checkpoint (min (oldest_active_reader g) writer_safe) g s)"

record gc_statistics =
  gs_retired_nodes :: u64
  gs_reclaimed_nodes :: u64
  gs_pending_nodes :: u64
  gs_retired_bytes :: u64
  gs_reclaimed_bytes :: u64
  gs_pending_bytes :: u64

definition get_statistics :: "gc \<Rightarrow> gc_statistics" where
  "get_statistics g =
     \<lparr>gs_retired_nodes = g_retired_nodes g, gs_reclaimed_nodes = g_reclaimed_nodes g,
      gs_pending_nodes = g_retired_nodes g - g_reclaimed_nodes g,
      gs_retired_bytes = g_retired_bytes g, gs_reclaimed_bytes = g_reclaimed_bytes g,
      gs_pending_bytes = g_retired_bytes g - g_reclaimed_bytes g\<rparr>"

section \<open>The methods alone\<close>

lemma pin_alone_pinned:
  assumes "g_seq g AND 1 = 0"
  shows "fst (pin_alone cid g) = RD_PINNED (g_root g) (g_version g)"
  using assms by (simp add: pin_alone_def eval_nat_numeral set_reader_def)

lemma oldest_fold_le: "foldl oldest_step m vs \<le> m"
proof (induction vs arbitrary: m)
  case (Cons v vs)
  have "foldl oldest_step (oldest_step m v) vs \<le> oldest_step m v" by (rule Cons.IH)
  also have "oldest_step m v \<le> m" by (simp add: oldest_step_def)
  finally show ?case by simp
qed simp

lemma oldest_fold_active: "v \<in> set vs \<Longrightarrow> v \<noteq> INACTIVE \<Longrightarrow> foldl oldest_step m vs \<le> v"
proof (induction vs arbitrary: m)
  case (Cons x vs)
  show ?case
  proof (cases "v = x")
    case True
    have "foldl oldest_step (oldest_step m v) vs \<le> oldest_step m v" by (rule oldest_fold_le)
    also have "oldest_step m v \<le> v" using Cons.prems(2) by (simp add: oldest_step_def)
    finally show ?thesis by (simp add: True)
  next
    case False
    then show ?thesis using Cons by simp
  qed
qed simp

lemma retire_cases:
  assumes "retire node_size stats version c g = (c', g')"
  obtains "g' = g" | b where "g_enabled g" "g' = push_batch b g" "rb_version b = version"
    "stats = None \<Longrightarrow> rb_nodes b = fst (drain_retired c) \<and> rb_checkpoint b = nullptr"
  using assms
  by (auto simp: retire_def Let_def split: if_splits prod.splits option.splits)

lemma free_batches_takeWhile:
  "free_batches fn fc safe bs s = Some (bs', k, by, s') \<Longrightarrow>
     bs' = dropWhile (\<lambda>b. rb_version b \<le> safe) bs \<and>
     k = sum_list (map rb_count (takeWhile (\<lambda>b. rb_version b \<le> safe) bs)) \<and>
     by = sum_list (map rb_bytes (takeWhile (\<lambda>b. rb_version b \<le> safe) bs))"
proof (induction bs arbitrary: s bs' k "by" s')
  case (Cons b bs)
  show ?case
  proof (cases "rb_version b \<le> safe")
    case True
    with Cons.prems obtain s2 k1 by1 where
      "free_batches fn fc safe bs s2 = Some (bs', k1, by1, s')" "k = rb_count b + k1" "by = rb_bytes b + by1"
      by (auto simp: bind_Some_iff)
    with Cons.IH [OF this(1)] True show ?thesis by simp
  qed (use Cons.prems in auto)
qed simp

lemma try_reclaim_safe_pops:
  "try_reclaim_safe fn fc safe g s = Some (g', s') \<Longrightarrow> g' = pop_batches safe g"
  by (auto simp: try_reclaim_safe_def pop_batches_def Let_def bind_Some_iff dest!: free_batches_takeWhile)

lemma batch_fields [simp]:
  "g_seq (pop_batches w g) = g_seq g" "g_root (pop_batches w g) = g_root g"
  "g_version (pop_batches w g) = g_version g" "g_readers (pop_batches w g) = g_readers g"
  "g_enabled (pop_batches w g) = g_enabled g" "g_consistent (pop_batches w g) = g_consistent g"
  "g_retired (pop_batches w g) = dropWhile (\<lambda>b. rb_version b \<le> w) (g_retired g)"
  "g_seq (push_batch b g) = g_seq g" "g_root (push_batch b g) = g_root g"
  "g_version (push_batch b g) = g_version g" "g_readers (push_batch b g) = g_readers g"
  "g_enabled (push_batch b g) = g_enabled g" "g_consistent (push_batch b g) = g_consistent g"
  "g_retired (push_batch b g) = g_retired g @ [b]"
  by (simp_all add: pop_batches_def push_batch_def Let_def)

text \<open>What is pending is what the queue holds, in nodes and in bytes, whatever was retired and freed.\<close>

definition gc_accounted :: "gc \<Rightarrow> bool" where
  "gc_accounted g \<longleftrightarrow>
     gs_pending_nodes (get_statistics g) = sum_list (map rb_count (g_retired g)) \<and>
     gs_pending_bytes (get_statistics g) = sum_list (map rb_bytes (g_retired g))"

lemma retire_accounted:
  assumes "gc_accounted g" and "retire node_size stats version c g = (c', g')"
  shows "gc_accounted g'"
  using assms
  by (auto simp: retire_def push_batch_def gc_accounted_def get_statistics_def Let_def algebra_simps
      split: prod.splits if_splits option.splits)

lemma free_batches_sums:
  "free_batches fn fc safe bs s = Some (bs', k, by, s') \<Longrightarrow>
     sum_list (map rb_count bs) = k + sum_list (map rb_count bs') \<and>
     sum_list (map rb_bytes bs) = by + sum_list (map rb_bytes bs') \<and>
     bs' = dropWhile (\<lambda>b. rb_version b \<le> safe) bs"
proof (induction bs arbitrary: s bs' k "by" s')
  case (Cons b bs)
  show ?case
  proof (cases "rb_version b \<le> safe")
    case True
    with Cons.prems obtain s2 k1 by1 where
      "free_batches fn fc safe bs s2 = Some (bs', k1, by1, s')" "k = rb_count b + k1" "by = rb_bytes b + by1"
      by (auto simp: bind_Some_iff)
    with Cons.IH [OF this(1)] True show ?thesis by (simp add: algebra_simps)
  qed (use Cons.prems in auto)
qed simp

lemma try_reclaim_accounted:
  assumes "gc_accounted g" and "try_reclaim fn fc wsafe g s = Some (g', s')"
  shows "gc_accounted g'"
proof (cases "g_enabled g")
  case True
  with assms(2) obtain bs k "by" where
    "free_batches fn fc (min (oldest_active_reader g) wsafe) (g_retired g) s = Some (bs, k, by, s')"
    "g' = g\<lparr>g_retired := bs, g_reclaimed_nodes := g_reclaimed_nodes g + k, g_reclaimed_bytes := g_reclaimed_bytes g + by\<rparr>"
    by (auto simp: try_reclaim_def try_reclaim_safe_def bind_Some_iff)
  with free_batches_sums [OF this(1)] assms(1) show ?thesis
    by (simp add: gc_accounted_def get_statistics_def algebra_simps)
qed (use assms in \<open>simp add: try_reclaim_def\<close>)

end
