(* ===== verification/Reclaim_Protocol.thy ===== *)
theory Reclaim_Protocol
  imports Reclamation
begin

text \<open>
  The pin/publish/reclaim protocol of \<^verbatim>\<open>epoch_reclaimer\<close> under every interleaving. One publisher, one
  reader per slot and any number of reclaimers take the atomic actions of \<open>gc_act\<close>. The ghost fields
  record the number of sequence increments, the pairs whose publication has begun, the batches that
  have been freed and the largest version up to which. The safety theorem: a pinned snapshot is a published
  pair, and no batch newer than it has been freed.
\<close>

datatype pub_phase = PUB_IDLE | PUB_ROOT addr u64 | PUB_VERSION addr u64 | PUB_END

text \<open>\<open>RC_SCAN i oldest w\<close>: slots below \<open>i\<close> have been read; \<open>w\<close> is the caller's writer-safe version.\<close>

datatype reclaim_phase = RC_IDLE | RC_SCAN nat u64 u64

record gc_sys =
  gs_gc :: gc
  gs_rd :: "nat \<Rightarrow> reader_phase"
  gs_rc :: "nat \<Rightarrow> reclaim_phase"
  gs_pub :: pub_phase
  gs_count :: nat
  gs_pubs :: "(addr \<times> u64) set"
  gs_bound :: u64
  gs_freed :: "retire_batch list"

datatype gc_act =
    PubBegin addr u64
  | PubRoot
  | PubVersion
  | PubEnd
  | Reader nat
  | Unpin nat
  | RcStart nat u64
  | RcScan nat
  | RcFree nat
  | Retire retire_batch

definition gc_start :: "addr \<Rightarrow> nat \<Rightarrow> bool \<Rightarrow> gc_sys" where
  "gc_start root n enabled =
     \<lparr>gs_gc = init_gc root n enabled True, gs_rd = (\<lambda>_. RD_IDLE), gs_rc = (\<lambda>_. RC_IDLE), gs_pub = PUB_IDLE,
      gs_count = 0, gs_pubs = {(root, 0)}, gs_bound = 0, gs_freed = []\<rparr>"

fun gc_do :: "gc_act \<Rightarrow> gc_sys \<Rightarrow> gc_sys option" where
  "gc_do (PubBegin r v) S =
     (if gs_pub S = PUB_IDLE
      then Some (S\<lparr>gs_gc := publish_begin (gs_gc S), gs_pub := PUB_ROOT r v, gs_count := Suc (gs_count S),
                   gs_pubs := insert (r, v) (gs_pubs S)\<rparr>)
      else None)"
| "gc_do PubRoot S =
     (case gs_pub S of PUB_ROOT r v \<Rightarrow> Some (S\<lparr>gs_gc := publish_root r (gs_gc S), gs_pub := PUB_VERSION r v\<rparr>)
      | _ \<Rightarrow> None)"
| "gc_do PubVersion S =
     (case gs_pub S of PUB_VERSION r v \<Rightarrow> Some (S\<lparr>gs_gc := publish_version v (gs_gc S), gs_pub := PUB_END\<rparr>)
      | _ \<Rightarrow> None)"
| "gc_do PubEnd S =
     (if gs_pub S = PUB_END
      then Some (S\<lparr>gs_gc := publish_end (gs_gc S), gs_pub := PUB_IDLE, gs_count := Suc (gs_count S)\<rparr>)
      else None)"
| "gc_do (Reader cid) S =
     (if g_enabled (gs_gc S) \<longrightarrow> cid < length (g_readers (gs_gc S))
      then let (p, g) = pin_step cid (gs_rd S cid) (gs_gc S)
           in Some (S\<lparr>gs_gc := g, gs_rd := (gs_rd S)(cid := p)\<rparr>)
      else None)"
| "gc_do (Unpin cid) S =
     (case gs_rd S cid of
        RD_PINNED r v \<Rightarrow> Some (S\<lparr>gs_gc := unpin cid (gs_gc S), gs_rd := (gs_rd S)(cid := RD_IDLE)\<rparr>)
      | _ \<Rightarrow> None)"
| "gc_do (RcStart t w) S =
     (if g_enabled (gs_gc S) \<and> gs_rc S t = RC_IDLE
      then Some (S\<lparr>gs_rc := (gs_rc S)(t := RC_SCAN 0 (g_version (gs_gc S)) w)\<rparr>) else None)"
| "gc_do (RcScan t) S =
     (case gs_rc S t of
        RC_SCAN i m w \<Rightarrow>
          if i < length (g_readers (gs_gc S))
          then Some (S\<lparr>gs_rc := (gs_rc S)(t := RC_SCAN (Suc i) (oldest_step m (g_readers (gs_gc S) ! i)) w)\<rparr>)
          else None
      | _ \<Rightarrow> None)"
| "gc_do (RcFree t) S =
     (case gs_rc S t of
        RC_SCAN i m w \<Rightarrow>
          if i = length (g_readers (gs_gc S))
          then Some (S\<lparr>gs_gc := pop_batches (min m w) (gs_gc S),
                       gs_rc := (gs_rc S)(t := RC_IDLE), gs_bound := max (gs_bound S) (min m w),
                       gs_freed := gs_freed S @ takeWhile (\<lambda>b. rb_version b \<le> min m w) (g_retired (gs_gc S))\<rparr>)
          else None
      | _ \<Rightarrow> None)"
| "gc_do (Retire b) S =
     (if g_enabled (gs_gc S) then Some (S\<lparr>gs_gc := push_batch b (gs_gc S)\<rparr>) else None)"

text \<open>The publisher's obligation: versions do not decrease, and no version is the inactive mark.\<close>

definition act_ok :: "gc_act \<Rightarrow> gc_sys \<Rightarrow> bool" where
  "act_ok a S \<longleftrightarrow> (\<forall>r v. a = PubBegin r v \<longrightarrow> g_version (gs_gc S) \<le> v \<and> v \<noteq> INACTIVE)"

inductive gc_reach :: "addr \<Rightarrow> nat \<Rightarrow> bool \<Rightarrow> gc_sys \<Rightarrow> bool" for root n enabled where
  start: "gc_reach root n enabled (gc_start root n enabled)"
| step: "gc_reach root n enabled S \<Longrightarrow> act_ok a S \<Longrightarrow> gc_do a S = Some S' \<Longrightarrow> gc_reach root n enabled S'"

section \<open>The invariant\<close>

text \<open>A sequence value that a reader has loaded: an even count not in the future.\<close>

definition seen :: "gc_sys \<Rightarrow> u64 \<Rightarrow> bool" where
  "seen S s \<longleftrightarrow> (\<exists>c \<le> gs_count S. even c \<and> s = of_nat c)"

definition bounded_rd :: "gc_sys \<Rightarrow> nat \<Rightarrow> u64 \<Rightarrow> bool" where
  "bounded_rd S cid v \<longleftrightarrow>
     gs_bound S \<le> v \<and> (\<forall>t i m w. gs_rc S t = RC_SCAN i m w \<longrightarrow> cid < i \<longrightarrow> m \<le> v)"

definition reader_ok :: "gc_sys \<Rightarrow> nat \<Rightarrow> bool" where
  "reader_ok S cid \<longleftrightarrow>
     (let g = gs_gc S in
      case gs_rd S cid of
        RD_IDLE \<Rightarrow> True
      | RD_SEQ s \<Rightarrow> seen S s
      | RD_ROOT s r \<Rightarrow> seen S s \<and> (s = g_seq g \<longrightarrow> r = g_root g)
      | RD_CAND s r v \<Rightarrow> seen S s \<and> (s = g_seq g \<longrightarrow> r = g_root g \<and> v = g_version g)
      | RD_STORED s r v \<Rightarrow> seen S s \<and>
          (s = g_seq g \<longrightarrow> r = g_root g \<and> v = g_version g \<and> (g_enabled g \<longrightarrow> g_readers g ! cid = v) \<and> bounded_rd S cid v)
      | RD_PINNED r v \<Rightarrow> (r, v) \<in> gs_pubs S \<and> (g_enabled g \<longrightarrow> g_readers g ! cid = v) \<and> bounded_rd S cid v \<and>
          v \<le> g_version g \<and> v \<noteq> INACTIVE)"

definition pub_ok :: "gc_sys \<Rightarrow> bool" where
  "pub_ok S \<longleftrightarrow>
     g_seq (gs_gc S) = of_nat (gs_count S) \<and> (gs_pub S = PUB_IDLE \<longleftrightarrow> even (gs_count S)) \<and>
     g_version (gs_gc S) \<noteq> INACTIVE \<and>
     (case gs_pub S of
        PUB_IDLE \<Rightarrow> (g_root (gs_gc S), g_version (gs_gc S)) \<in> gs_pubs S
      | PUB_ROOT r v \<Rightarrow> (r, v) \<in> gs_pubs S \<and> g_version (gs_gc S) \<le> v \<and> v \<noteq> INACTIVE
      | PUB_VERSION r v \<Rightarrow> (r, v) \<in> gs_pubs S \<and> g_root (gs_gc S) = r \<and> g_version (gs_gc S) \<le> v \<and> v \<noteq> INACTIVE
      | PUB_END \<Rightarrow> (g_root (gs_gc S), g_version (gs_gc S)) \<in> gs_pubs S)"

definition reclaimers_ok :: "gc_sys \<Rightarrow> bool" where
  "reclaimers_ok S \<longleftrightarrow>
     gs_bound S \<le> g_version (gs_gc S) \<and>
     (\<forall>t i m w. gs_rc S t = RC_SCAN i m w \<longrightarrow> m \<le> g_version (gs_gc S))"

text \<open>A slot that a reader may use: with reclamation off, no slot is written and every number is one.\<close>

definition reader_cid :: "gc \<Rightarrow> nat \<Rightarrow> bool" where
  "reader_cid g cid \<longleftrightarrow> g_enabled g \<longrightarrow> cid < length (g_readers g)"

text \<open>What does not depend on the sequence counter: the freed batches, and that nothing is freed when off.\<close>

definition freed_ok :: "gc_sys \<Rightarrow> bool" where
  "freed_ok S \<longleftrightarrow>
     (\<forall>b \<in> set (gs_freed S). rb_version b \<le> gs_bound S) \<and>
     (\<not> g_enabled (gs_gc S) \<longrightarrow> gs_freed S = [] \<and> gs_bound S = 0 \<and> gs_rc S = (\<lambda>_. RC_IDLE))"

definition gc_inv :: "gc_sys \<Rightarrow> bool" where
  "gc_inv S \<longleftrightarrow>
     freed_ok S \<and> g_consistent (gs_gc S) \<and>
     (gs_count S < 2 ^ 64 \<longrightarrow>
        pub_ok S \<and> reclaimers_ok S \<and> (\<forall>cid. reader_cid (gs_gc S) cid \<longrightarrow> reader_ok S cid))"

lemma gc_inv_start: "gc_inv (gc_start root n enabled)"
  by (simp add: gc_inv_def freed_ok_def gc_start_def init_gc_def pub_ok_def reclaimers_ok_def reader_ok_def INACTIVE_def UINT64_MAX_def)

lemma of_nat_u64_eq: "c < 2 ^ 64 \<Longrightarrow> d < 2 ^ 64 \<Longrightarrow> (of_nat c :: u64) = of_nat d \<longleftrightarrow> c = d"
  by (simp add: word_unat_eq_iff unat_of_nat)

lemma and_1_odd: "(of_nat c :: u64) AND 1 = 0 \<longleftrightarrow> even c"
  by (simp add: and_one_eq flip: even_iff_mod_2_eq_zero)

lemma seen_stale:
  assumes "seen S s" "gs_count S < 2 ^ 64" "s = of_nat (gs_count S)"
  shows "even (gs_count S)"
proof -
  from assms(1) obtain c where c: "c \<le> gs_count S" "even c" "s = of_nat c" by (auto simp: seen_def)
  then have "c < 2 ^ 64" using assms(2) by (rule_tac le_less_trans)
  then have "c = gs_count S" using assms(2,3) c(3) of_nat_u64_eq by blast
  with c(2) show ?thesis by simp
qed

lemma seen_older:
  assumes "seen S s" "Suc (gs_count S) < 2 ^ 64"
  shows "s \<noteq> of_nat (Suc (gs_count S))"
proof
  assume s: "s = of_nat (Suc (gs_count S))"
  from assms(1) obtain c where c: "c \<le> gs_count S" "s = of_nat c" by (auto simp: seen_def)
  then have "c < 2 ^ 64" using assms(2) by (rule_tac le_less_trans) auto
  then have "c = Suc (gs_count S)" using assms(2) c(2) s of_nat_u64_eq by blast
  with c(1) show False by simp
qed

lemma seen_mono: "seen S s \<Longrightarrow> gs_count S \<le> gs_count S' \<Longrightarrow> seen S' s"
  unfolding seen_def using order_trans by blast

lemma bounded_rdD: "bounded_rd S cid v \<Longrightarrow> gs_rc S t = RC_SCAN i m w \<Longrightarrow> cid < i \<Longrightarrow> m \<le> v"
  unfolding bounded_rd_def by blast

lemma reclaimers_okD: "reclaimers_ok S \<Longrightarrow> gs_rc S t = RC_SCAN i m w \<Longrightarrow> m \<le> g_version (gs_gc S)"
  unfolding reclaimers_ok_def by blast

lemma reclaimers_okI:
  "gs_bound S \<le> g_version (gs_gc S) \<Longrightarrow>
     (\<And>t i m w. gs_rc S t = RC_SCAN i m w \<Longrightarrow> m \<le> g_version (gs_gc S)) \<Longrightarrow> reclaimers_ok S"
  unfolding reclaimers_ok_def by blast

lemma reclaimers_ok_bound: "reclaimers_ok S \<Longrightarrow> gs_bound S \<le> g_version (gs_gc S)"
  unfolding reclaimers_ok_def by blast

lemma gc_invD:
  assumes "gc_inv S" "gs_count S < 2 ^ 64"
  shows "pub_ok S" "reclaimers_ok S" "\<And>cid. reader_cid (gs_gc S) cid \<Longrightarrow> reader_ok S cid"
  using assms by (simp_all add: gc_inv_def)

section \<open>Every action preserves it\<close>

text \<open>
  The three publication steps that run while the count is odd, and the two that change the count, touch
  no reader whose sequence value could still validate.
\<close>

lemma reader_ok_publish:
  assumes "reader_ok S cid" and stale: "\<And>s. seen S s \<Longrightarrow> s \<noteq> g_seq (gs_gc S')"
    and same: "gs_rd S' = gs_rd S" "gs_rc S' = gs_rc S" "gs_bound S' = gs_bound S"
      "g_readers (gs_gc S') = g_readers (gs_gc S)" "g_enabled (gs_gc S') = g_enabled (gs_gc S)"
    and mono: "gs_count S \<le> gs_count S'" "gs_pubs S \<subseteq> gs_pubs S'" "g_version (gs_gc S) \<le> g_version (gs_gc S')"
  shows "reader_ok S' cid"
proof -
  have b: "bounded_rd S' cid v = bounded_rd S cid v" for v by (simp add: bounded_rd_def same)
  note * = assms(1) stale seen_mono [OF _ mono(1)] mono(2)
  show ?thesis
  proof (cases "gs_rd S cid")
    case (RD_PINNED r v)
    then have "v \<le> g_version (gs_gc S)" using assms(1) by (simp add: reader_ok_def Let_def)
    then have "v \<le> g_version (gs_gc S')" using mono(3) by (rule order_trans)
    then show ?thesis using RD_PINNED assms(1) mono(2) by (auto simp: reader_ok_def Let_def b same)
  qed (use * in \<open>auto simp: reader_ok_def Let_def b same\<close>)
qed

lemma inv_PubBegin:
  assumes inv: "gc_inv S" and act: "act_ok (PubBegin r v) S" and S': "gc_do (PubBegin r v) S = Some S'"
  shows "gc_inv S'"
proof -
  have s: "gs_pub S = PUB_IDLE" "S' = S\<lparr>gs_gc := publish_begin (gs_gc S), gs_pub := PUB_ROOT r v,
      gs_count := Suc (gs_count S), gs_pubs := insert (r, v) (gs_pubs S)\<rparr>"
    using S' by (auto split: if_splits)
  have g: "g_consistent (gs_gc S)" "freed_ok S" using inv by (simp_all add: gc_inv_def)
  have v: "g_version (gs_gc S) \<le> v" "v \<noteq> INACTIVE" using act by (simp_all add: act_ok_def)
  have "pub_ok S' \<and> reclaimers_ok S' \<and> (\<forall>cid. reader_cid (gs_gc S') cid \<longrightarrow> reader_ok S' cid)"
    if lt: "gs_count S' < 2 ^ 64"
  proof -
    have lt': "gs_count S < 2 ^ 64" "Suc (gs_count S) < 2 ^ 64" using lt s by simp_all
    note inv = gc_invD [OF inv lt'(1)]
    have seq: "g_seq (gs_gc S') = of_nat (Suc (gs_count S))"
      using inv(1) g by (simp add: s publish_begin_def pub_ok_def add.commute)
    have "pub_ok S'" using inv(1) g v s(1) seq by (auto simp: pub_ok_def s(2) publish_begin_def)
    moreover have "reclaimers_ok S'" using inv(2) g by (simp add: reclaimers_ok_def s publish_begin_def)
    moreover have "reader_ok S' cid" if "reader_cid (gs_gc S') cid" for cid
    proof (rule reader_ok_publish [OF inv(3)])
      show "reader_cid (gs_gc S) cid" using that g by (simp add: s publish_begin_def reader_cid_def)
      show "s \<noteq> g_seq (gs_gc S')" if "seen S s" for s
        unfolding seq by (rule seen_older [OF that lt'(2)])
    qed (use g in \<open>auto simp: s publish_begin_def\<close>)
    ultimately show ?thesis by blast
  qed
  then show ?thesis using g by (simp add: gc_inv_def freed_ok_def s publish_begin_def)
qed

lemma inv_PubRoot:
  assumes inv: "gc_inv S" and S': "gc_do PubRoot S = Some S'"
  shows "gc_inv S'"
proof -
  obtain r v where s: "gs_pub S = PUB_ROOT r v" "S' = S\<lparr>gs_gc := publish_root r (gs_gc S), gs_pub := PUB_VERSION r v\<rparr>"
    using S' by (auto split: pub_phase.splits)
  have g: "g_consistent (gs_gc S)" "freed_ok S" using inv by (simp_all add: gc_inv_def)
  have "pub_ok S' \<and> reclaimers_ok S' \<and> (\<forall>cid. reader_cid (gs_gc S') cid \<longrightarrow> reader_ok S' cid)"
    if lt: "gs_count S' < 2 ^ 64"
  proof -
    have lt': "gs_count S < 2 ^ 64" using lt s by simp
    note inv = gc_invD [OF inv lt']
    have odd: "odd (gs_count S)" using inv(1) s(1) by (auto simp: pub_ok_def)
    have "pub_ok S'" using inv(1) s(1) by (auto simp: pub_ok_def s(2) publish_root_def)
    moreover have "reclaimers_ok S'" using inv(2) by (simp add: reclaimers_ok_def s publish_root_def)
    moreover have "reader_ok S' cid" if "reader_cid (gs_gc S') cid" for cid
    proof (rule reader_ok_publish [OF inv(3)])
      show "reader_cid (gs_gc S) cid" using that by (simp add: s publish_root_def reader_cid_def)
      show "s \<noteq> g_seq (gs_gc S')" if "seen S s" for s
        using seen_stale [OF that lt'] odd inv(1) by (auto simp: s publish_root_def pub_ok_def)
    qed (auto simp: s publish_root_def)
    ultimately show ?thesis by blast
  qed
  then show ?thesis using g by (simp add: gc_inv_def freed_ok_def s publish_root_def)
qed

lemma inv_PubVersion:
  assumes inv: "gc_inv S" and S': "gc_do PubVersion S = Some S'"
  shows "gc_inv S'"
proof -
  obtain r v where s: "gs_pub S = PUB_VERSION r v" "S' = S\<lparr>gs_gc := publish_version v (gs_gc S), gs_pub := PUB_END\<rparr>"
    using S' by (auto split: pub_phase.splits)
  have g: "g_consistent (gs_gc S)" "freed_ok S" using inv by (simp_all add: gc_inv_def)
  have "pub_ok S' \<and> reclaimers_ok S' \<and> (\<forall>cid. reader_cid (gs_gc S') cid \<longrightarrow> reader_ok S' cid)"
    if lt: "gs_count S' < 2 ^ 64"
  proof -
    have lt': "gs_count S < 2 ^ 64" using lt s by simp
    note inv = gc_invD [OF inv lt']
    have odd: "odd (gs_count S)" and le: "g_version (gs_gc S) \<le> v" using inv(1) s(1) by (auto simp: pub_ok_def)
    have "pub_ok S'" using inv(1) s(1) by (auto simp: pub_ok_def s(2) publish_version_def)
    moreover have "reclaimers_ok S'"
    proof (rule reclaimers_okI)
      show "gs_bound S' \<le> g_version (gs_gc S')"
        using reclaimers_ok_bound [OF inv(2)] le by (simp add: s publish_version_def)
      show "m \<le> g_version (gs_gc S')" if "gs_rc S' t = RC_SCAN i m w" for t i m w
        using reclaimers_okD [OF inv(2), of t i m w] that le by (simp add: s publish_version_def)
    qed
    moreover have "reader_ok S' cid" if "reader_cid (gs_gc S') cid" for cid
    proof (rule reader_ok_publish [OF inv(3)])
      show "reader_cid (gs_gc S) cid" using that by (simp add: s publish_version_def reader_cid_def)
      show "s \<noteq> g_seq (gs_gc S')" if "seen S s" for s
        using seen_stale [OF that lt'] odd inv(1) by (auto simp: s publish_version_def pub_ok_def)
    qed (use le in \<open>auto simp: s publish_version_def\<close>)
    ultimately show ?thesis by blast
  qed
  then show ?thesis using g by (simp add: gc_inv_def freed_ok_def s publish_version_def)
qed

lemma inv_PubEnd:
  assumes inv: "gc_inv S" and S': "gc_do PubEnd S = Some S'"
  shows "gc_inv S'"
proof -
  have s: "gs_pub S = PUB_END" "S' = S\<lparr>gs_gc := publish_end (gs_gc S), gs_pub := PUB_IDLE, gs_count := Suc (gs_count S)\<rparr>"
    using S' by (auto split: if_splits)
  have g: "g_consistent (gs_gc S)" "freed_ok S" using inv by (simp_all add: gc_inv_def)
  have "pub_ok S' \<and> reclaimers_ok S' \<and> (\<forall>cid. reader_cid (gs_gc S') cid \<longrightarrow> reader_ok S' cid)"
    if lt: "gs_count S' < 2 ^ 64"
  proof -
    have lt': "gs_count S < 2 ^ 64" "Suc (gs_count S) < 2 ^ 64" using lt s by simp_all
    note inv = gc_invD [OF inv lt'(1)]
    have seq: "g_seq (gs_gc S') = of_nat (Suc (gs_count S))"
      using inv(1) g by (simp add: s publish_end_def pub_ok_def add.commute)
    have "pub_ok S'" using inv(1) g s(1) seq by (auto simp: pub_ok_def s(2) publish_end_def)
    moreover have "reclaimers_ok S'" using inv(2) g by (simp add: reclaimers_ok_def s publish_end_def)
    moreover have "reader_ok S' cid" if "reader_cid (gs_gc S') cid" for cid
    proof (rule reader_ok_publish [OF inv(3)])
      show "reader_cid (gs_gc S) cid" using that g by (simp add: s publish_end_def reader_cid_def)
      show "s \<noteq> g_seq (gs_gc S')" if "seen S s" for s
        unfolding seq by (rule seen_older [OF that lt'(2)])
    qed (use g in \<open>auto simp: s publish_end_def\<close>)
    ultimately show ?thesis by blast
  qed
  then show ?thesis using g by (simp add: gc_inv_def freed_ok_def s publish_end_def)
qed

text \<open>A reader's step concerns its own slot only.\<close>

lemma reader_ok_other:
  assumes "reader_ok S cid" and "gs_rd S' cid = gs_rd S cid" "g_readers (gs_gc S') ! cid = g_readers (gs_gc S) ! cid"
    and "gs_rc S' = gs_rc S" "gs_bound S' = gs_bound S" "gs_count S' = gs_count S" "gs_pubs S' = gs_pubs S"
    "g_enabled (gs_gc S') = g_enabled (gs_gc S)" "g_seq (gs_gc S') = g_seq (gs_gc S)" "g_root (gs_gc S') = g_root (gs_gc S)" "g_version (gs_gc S') = g_version (gs_gc S)"
  shows "reader_ok S' cid"
proof -
  have sn: "seen S' = seen S" by (simp add: seen_def assms(6) fun_eq_iff)
  show ?thesis using assms(1) unfolding reader_ok_def Let_def bounded_rd_def sn assms(2-) .
qed

lemma set_reader_cid [simp]: "reader_cid (set_reader c v g) d = reader_cid g d"
  by (simp add: reader_cid_def set_reader_def)

lemma set_reader_fields [simp]:
  "g_seq (set_reader c v g) = g_seq g" "g_root (set_reader c v g) = g_root g"
  "g_version (set_reader c v g) = g_version g" "length (g_readers (set_reader c v g)) = length (g_readers g)"
  "g_enabled (set_reader c v g) = g_enabled g" "g_consistent (set_reader c v g) = g_consistent g"
  "c \<noteq> d \<Longrightarrow> g_readers (set_reader c v g) ! d = g_readers g ! d"
  "g_enabled g \<Longrightarrow> c < length (g_readers g) \<Longrightarrow> g_readers (set_reader c v g) ! c = v"
  by (simp_all add: set_reader_def)

lemma pin_step_fields:
  assumes "pin_step cid p g = (p', g')"
  shows "g_seq g' = g_seq g" "g_root g' = g_root g" "g_version g' = g_version g"
    "length (g_readers g') = length (g_readers g)" "g_enabled g' = g_enabled g" "g_consistent g' = g_consistent g"
    "d \<noteq> cid \<Longrightarrow> g_readers g' ! d = g_readers g ! d"
  using assms by (cases p; auto split: if_splits)+

lemma inv_Reader:
  assumes inv: "gc_inv S" and S': "gc_do (Reader cid) S = Some S'"
  shows "gc_inv S'"
proof -
  obtain p g where cid: "reader_cid (gs_gc S) cid" and step: "pin_step cid (gs_rd S cid) (gs_gc S) = (p, g)"
    and s: "S' = S\<lparr>gs_gc := g, gs_rd := (gs_rd S)(cid := p)\<rparr>"
    using S' by (auto simp: reader_cid_def split: if_splits prod.splits)
  note f = pin_step_fields [OF step]
  have en: "g_consistent (gs_gc S)" "freed_ok S" using inv by (simp_all add: gc_inv_def)
  have cids: "reader_cid g d = reader_cid (gs_gc S) d" for d using f by (simp add: reader_cid_def)
  have "pub_ok S' \<and> reclaimers_ok S' \<and> (\<forall>d. reader_cid (gs_gc S') d \<longrightarrow> reader_ok S' d)"
    if lt: "gs_count S' < 2 ^ 64"
  proof -
    have lt': "gs_count S < 2 ^ 64" using lt s by simp
    note inv = gc_invD [OF inv lt']
    have "pub_ok S'" using inv(1) f by (cases "gs_pub S") (simp_all add: pub_ok_def s)
    moreover have "reclaimers_ok S'" using inv(2) f by (simp add: reclaimers_ok_def s)
    moreover have "reader_ok S' d" if "reader_cid (gs_gc S') d" for d
    proof (cases "d = cid")
      case False
      then show ?thesis using that f cids by (intro reader_ok_other [OF inv(3) [of d]]) (auto simp: s)
    next
      case True
      have ok: "reader_ok S cid" by (rule inv(3) [OF cid])
      have seq: "g_seq (gs_gc S) = of_nat (gs_count S)" and ver: "g_version (gs_gc S) \<noteq> INACTIVE"
        using inv(1) by (simp_all add: pub_ok_def)
      have bnd: "bounded_rd S cid (g_version (gs_gc S))"
        using inv(2) by (auto simp: bounded_rd_def reclaimers_ok_def)
      have bnd': "bounded_rd S' cid v = bounded_rd S cid v" and sn': "seen S' = seen S" for v
        by (auto simp: bounded_rd_def seen_def s)
      have pubs: "(g_root (gs_gc S), g_version (gs_gc S)) \<in> gs_pubs S" if "even (gs_count S)"
        using inv(1) that by (auto simp: pub_ok_def)
      show ?thesis
      proof (cases "gs_rd S cid")
        case RD_IDLE
        have "even (gs_count S) \<Longrightarrow> seen S (g_seq (gs_gc S))"
          unfolding seen_def seq by blast
        then show ?thesis
          using RD_IDLE step en seq and_1_odd [of "gs_count S"] True sn'
          by (auto simp: reader_ok_def s split: if_splits)
      next
        case (RD_SEQ sq)
        then show ?thesis using step ok True sn' by (auto simp: reader_ok_def s)
      next
        case (RD_ROOT sq r)
        then show ?thesis using step ok True sn' en by (auto simp: reader_ok_def s)
      next
        case (RD_CAND sq r v)
        then have "p = RD_STORED sq r v" "g = set_reader cid v (gs_gc S)" using step by auto
        then show ?thesis
          using RD_CAND ok True sn' bnd' bnd en cid by (auto simp: reader_ok_def reader_cid_def Let_def s)
      next
        case (RD_STORED sq r v)
        show ?thesis
        proof (cases "sq = g_seq (gs_gc S)")
          case eq: True
          then have "p = RD_PINNED r v" "g = gs_gc S" using step RD_STORED by auto
          moreover have "seen S sq" using ok RD_STORED by (simp add: reader_ok_def Let_def)
          then have "even (gs_count S)" using seen_stale [OF _ lt'] eq seq by simp
          ultimately show ?thesis
            using RD_STORED ok True bnd' eq pubs ver by (auto simp: reader_ok_def Let_def s)
        next
          case False
          then have "p = RD_IDLE" using step RD_STORED by auto
          then show ?thesis using True by (simp add: reader_ok_def s)
        qed
      next
        case (RD_PINNED r v)
        then have "p = RD_PINNED r v" "g = gs_gc S" using step by auto
        then show ?thesis using RD_PINNED ok True bnd' by (auto simp: reader_ok_def Let_def s)
      qed
    qed
    ultimately show ?thesis by blast
  qed
  then show ?thesis using en f by (simp add: gc_inv_def freed_ok_def s)
qed

lemma inv_Unpin:
  assumes inv: "gc_inv S" and S': "gc_do (Unpin cid) S = Some S'"
  shows "gc_inv S'"
proof -
  have s: "S' = S\<lparr>gs_gc := set_reader cid INACTIVE (gs_gc S), gs_rd := (gs_rd S)(cid := RD_IDLE)\<rparr>"
    using S' by (auto simp: unpin_def split: reader_phase.splits)
  have "pub_ok S' \<and> reclaimers_ok S' \<and> (\<forall>d. reader_cid (gs_gc S') d \<longrightarrow> reader_ok S' d)"
    if lt: "gs_count S' < 2 ^ 64"
  proof -
    have lt': "gs_count S < 2 ^ 64" using lt s by simp
    note inv = gc_invD [OF inv lt']
    have "pub_ok S'" using inv(1) by (cases "gs_pub S") (simp_all add: pub_ok_def s)
    moreover have "reclaimers_ok S'" using inv(2) by (simp add: reclaimers_ok_def s)
    moreover have "reader_ok S' d" if "reader_cid (gs_gc S') d" for d
    proof (cases "d = cid")
      case False
      then show ?thesis using that by (intro reader_ok_other [OF inv(3) [of d]]) (auto simp: s)
    qed (simp add: reader_ok_def s)
    ultimately show ?thesis by blast
  qed
  then show ?thesis using inv by (simp add: gc_inv_def freed_ok_def s)
qed

text \<open>Reclaimers only read what the readers announce.\<close>

lemma inv_Rc:
  assumes inv: "gc_inv S"
    and same: "gs_rd S' = gs_rd S" "gs_pub S' = gs_pub S" "gs_count S' = gs_count S" "gs_pubs S' = gs_pubs S"
      "g_readers (gs_gc S') = g_readers (gs_gc S)" "g_seq (gs_gc S') = g_seq (gs_gc S)" "g_root (gs_gc S') = g_root (gs_gc S)"
      "g_version (gs_gc S') = g_version (gs_gc S)" "g_enabled (gs_gc S') = g_enabled (gs_gc S)"
      "g_consistent (gs_gc S') = g_consistent (gs_gc S)"
    and rc: "reclaimers_ok S \<Longrightarrow> reclaimers_ok S'"
    and bnd: "\<And>cid v. reader_cid (gs_gc S) cid \<Longrightarrow> bounded_rd S cid v \<Longrightarrow>
      (g_enabled (gs_gc S) \<longrightarrow> g_readers (gs_gc S) ! cid = v) \<Longrightarrow> v \<noteq> INACTIVE \<Longrightarrow> bounded_rd S' cid v"
    and freed: "freed_ok S \<Longrightarrow> freed_ok S'"
  shows "gc_inv S'"
proof -
  have "pub_ok S' \<and> reclaimers_ok S' \<and> (\<forall>d. reader_cid (gs_gc S') d \<longrightarrow> reader_ok S' d)"
    if lt: "gs_count S' < 2 ^ 64"
  proof -
    have lt': "gs_count S < 2 ^ 64" using lt same by simp
    note inv = gc_invD [OF inv lt']
    have ver: "g_version (gs_gc S) \<noteq> INACTIVE" using inv(1) by (simp add: pub_ok_def)
    have "pub_ok S'" using inv(1) by (cases "gs_pub S") (simp_all add: pub_ok_def same)
    moreover have "reader_ok S' d" if "reader_cid (gs_gc S') d" for d
    proof -
      have d: "reader_cid (gs_gc S) d" using that by (simp add: same reader_cid_def)
      have sn: "seen S' = seen S" by (simp add: seen_def same fun_eq_iff)
      show ?thesis
        using inv(3) [OF d] bnd [OF d] ver
        unfolding reader_ok_def Let_def same sn by (cases "gs_rd S d") auto
    qed
    ultimately show ?thesis using rc inv(2) by blast
  qed
  then show ?thesis using inv freed by (simp add: gc_inv_def same)
qed

lemma inv_RcStart:
  assumes inv: "gc_inv S" and S': "gc_do (RcStart t w) S = Some S'"
  shows "gc_inv S'"
proof -
  have s: "g_enabled (gs_gc S)" "S' = S\<lparr>gs_rc := (gs_rc S)(t := RC_SCAN 0 (g_version (gs_gc S)) w)\<rparr>"
    using S' by (auto split: if_splits)
  show ?thesis
    by (rule inv_Rc [OF inv]) (use s(1) in \<open>auto simp: s(2) reclaimers_ok_def bounded_rd_def freed_ok_def\<close>)
qed

text \<open>A thread that scans does so with reclamation enabled.\<close>

lemma scanning_enabled: "gc_inv S \<Longrightarrow> gs_rc S t = RC_SCAN i m w \<Longrightarrow> g_enabled (gs_gc S)"
  by (auto simp: gc_inv_def freed_ok_def)

lemma inv_RcScan:
  assumes inv: "gc_inv S" and S': "gc_do (RcScan t) S = Some S'"
  shows "gc_inv S'"
proof -
  obtain i m w where rc: "gs_rc S t = RC_SCAN i m w" "i < length (g_readers (gs_gc S))"
    and s: "S' = S\<lparr>gs_rc := (gs_rc S)(t := RC_SCAN (Suc i) (oldest_step m (g_readers (gs_gc S) ! i)) w)\<rparr>"
    using S' by (auto split: reclaim_phase.splits if_splits)
  have en: "g_enabled (gs_gc S)" by (rule scanning_enabled [OF inv rc(1)])
  have le: "oldest_step m x \<le> m" and le': "x \<noteq> INACTIVE \<Longrightarrow> oldest_step m x \<le> x" for x
    by (simp_all add: oldest_step_def)
  show ?thesis
  proof (rule inv_Rc [OF inv])
    show "reclaimers_ok S'" if "reclaimers_ok S"
    proof (rule reclaimers_okI)
      show "gs_bound S' \<le> g_version (gs_gc S')" using reclaimers_ok_bound [OF that] by (simp add: s)
      show "m' \<le> g_version (gs_gc S')" if "gs_rc S' t' = RC_SCAN i' m' w'" for t' i' m' w'
        using that reclaimers_okD [OF \<open>reclaimers_ok S\<close>] rc(1) order_trans [OF le]
        by (auto simp: s split: if_splits)
    qed
    show "freed_ok S \<Longrightarrow> freed_ok S'" using en by (simp add: freed_ok_def s)
    fix cid v assume b: "bounded_rd S cid v" "g_enabled (gs_gc S) \<longrightarrow> g_readers (gs_gc S) ! cid = v" "v \<noteq> INACTIVE"
    have "oldest_step m (g_readers (gs_gc S) ! i) \<le> v" if "cid < Suc i"
    proof (cases "cid = i")
      case True
      then show ?thesis using b en le' by simp
    next
      case False
      then have "m \<le> v" using bounded_rdD [OF b(1) rc(1)] that by simp
      with le show ?thesis by (rule order_trans)
    qed
    then show "bounded_rd S' cid v" using b(1) by (auto simp: s bounded_rd_def)
  qed (simp_all add: s)
qed

lemma inv_RcFree:
  assumes inv: "gc_inv S" and S': "gc_do (RcFree t) S = Some S'"
  shows "gc_inv S'"
proof -
  obtain i m w where rc: "gs_rc S t = RC_SCAN i m w" "i = length (g_readers (gs_gc S))"
    and s: "S' = S\<lparr>gs_gc := pop_batches (min m w) (gs_gc S),
                       gs_rc := (gs_rc S)(t := RC_IDLE), gs_bound := max (gs_bound S) (min m w),
                       gs_freed := gs_freed S @ takeWhile (\<lambda>b. rb_version b \<le> min m w) (g_retired (gs_gc S))\<rparr>"
    using S' by (auto split: reclaim_phase.splits if_splits)
  have en: "g_enabled (gs_gc S)" by (rule scanning_enabled [OF inv rc(1)])
  show ?thesis
  proof (rule inv_Rc [OF inv])
    show "reclaimers_ok S'" if "reclaimers_ok S"
      using that rc(1) by (auto simp: s reclaimers_ok_def min_le_iff_disj)
    have "rb_version b \<le> min m w" if "b \<in> set (takeWhile (\<lambda>b. rb_version b \<le> min m w) (g_retired (gs_gc S)))" for b
      using set_takeWhileD [OF that] by blast
    then have "\<forall>b \<in> set (takeWhile (\<lambda>b. rb_version b \<le> min m w) (g_retired (gs_gc S))). rb_version b \<le> max (gs_bound S) (min m w)"
      by (meson max.coboundedI2)
    moreover have "\<forall>b \<in> set (gs_freed S). rb_version b \<le> max (gs_bound S) (min m w)" if "freed_ok S"
      using that unfolding freed_ok_def by (meson max.coboundedI1)
    ultimately show "freed_ok S'" if "freed_ok S"
      using that en unfolding freed_ok_def s by (simp add: ball_Un del: min_less_iff_conj)
    fix cid v assume b: "reader_cid (gs_gc S) cid" "bounded_rd S cid v"
    then have "m \<le> v" using bounded_rdD [OF _ rc(1)] rc(2) en by (auto simp: reader_cid_def)
    then show "bounded_rd S' cid v" using b(2) by (auto simp: s bounded_rd_def min_le_iff_disj)
  qed (simp_all add: s)
qed

lemma inv_Retire:
  assumes inv: "gc_inv S" and S': "gc_do (Retire b) S = Some S'"
  shows "gc_inv S'"
proof -
  have s: "S' = S\<lparr>gs_gc := push_batch b (gs_gc S)\<rparr>" using S' by (simp split: if_splits)
  show ?thesis
    by (rule inv_Rc [OF inv]) (simp_all add: s reclaimers_ok_def bounded_rd_def freed_ok_def)
qed

theorem gc_do_inv: "gc_inv S \<Longrightarrow> act_ok a S \<Longrightarrow> gc_do a S = Some S' \<Longrightarrow> gc_inv S'"
  by (cases a)
     (auto intro: inv_PubBegin inv_PubRoot inv_PubVersion inv_PubEnd inv_Reader inv_Unpin inv_RcStart inv_RcScan
        inv_RcFree inv_Retire simp del: gc_do.simps)

lemma gc_reach_inv: "gc_reach root n enabled S \<Longrightarrow> gc_inv S"
  by (induction rule: gc_reach.induct) (auto intro: gc_inv_start gc_do_inv)

end
