(* ===== verification/Seqcow.thy ===== *)
theory Seqcow
  imports Reclaim_Protocol
begin

text \<open>
  The sequential controller (\<^verbatim>\<open>lib/conctrl/seqcow.hpp\<close>): clients put updates into a ring of contexts, one
  worker executes them in ticket order, publishes the new root and reclaims replaced nodes, readers pin
  published snapshots. The controller is generic in the tree, a record of operations here as it is a
  template argument there.

  The system interleaves the atomic actions of its threads: one action per access to a shared atomic
  variable; the execution of one task is one action (\<^verbatim>\<open>exec_task_\<close> writes nothing that a reader at an
  older version sees, theory \<open>BT_Exec_Correct\<close>).
\<close>

definition BUFFER_SIZE :: nat where
  "BUFFER_SIZE = 65536"

definition UINT32_MAX :: u64 where
  "UINT32_MAX = 4294967295"

record ('z, 's) tree_ops =
  ti_exec :: "'z ctx_scheme \<Rightarrow> 's \<Rightarrow> ('z ctx_scheme \<times> 's) option"
  ti_free :: "addr \<Rightarrow> 's \<Rightarrow> 's option"
  ti_node_size :: "'s \<Rightarrow> addr \<Rightarrow> u64"

text \<open>The control points of \<open>worker_main_\<close> after its loads, and of a client inside \<open>update\<close>.\<close>

datatype worker_phase = W_TOP | W_EXEC | W_PUBLISH | W_COMMIT | W_RECLAIM | W_STOPPED

record ('z, 's) seqcow =
  q_fat_slots :: nat
  q_gc :: gc_sys
  q_submitted :: u64
  q_committed :: u64
  q_ctxs :: "nat \<Rightarrow> 'z ctx_scheme"
  q_store :: 's
  q_lock :: "nat option"
  q_pend :: "nat \<Rightarrow> u64 option"
  q_phase :: worker_phase
  q_stop :: bool
  q_stop_local :: bool
  q_sub_local :: u64
  q_com_local :: u64
  q_com_next :: u64
  q_log :: "(u64 \<times> u64) list"

definition ring :: "u64 \<Rightarrow> nat" where
  "ring tid = unat tid mod BUFFER_SIZE"

definition init_task ::
    "nat \<Rightarrow> bool \<Rightarrow> u64 \<Rightarrow> u64 \<Rightarrow> u64 \<Rightarrow> ('z) ctx_scheme \<Rightarrow> ('z) ctx_scheme" where
  "init_task fat_slots gc_on tid key val c =
     c\<lparr>c_op := OP_INIT, c_retry := False, c_wait_child := False, c_wait_subtree := False,
       c_new_checkpoint := False, c_gc_enabled := gc_on, c_checkpoint_rebuilt := False,
       c_fat_slots := fat_slots, c_sno := ucast tid, c_key := key, c_val := val\<rparr>"

definition exec_task ::
    "('z, 's) tree_ops \<Rightarrow> u64 \<Rightarrow> (nat \<Rightarrow> 'z ctx_scheme) \<Rightarrow> 's \<Rightarrow> ('z ctx_scheme \<times> 's) option" where
  "exec_task I tid ctxs s =
     ti_exec I ((ctxs (ring tid))\<lparr>c_t_past := c_root (ctxs (ring (tid - 1)))\<rparr>) s"

text \<open>The constructor: zeroed contexts, done, with the initial root as version 0.\<close>

definition seqcow_init ::
    "'z ctx_scheme \<Rightarrow> addr \<Rightarrow> 's \<Rightarrow> nat \<Rightarrow> bool \<Rightarrow> nat \<Rightarrow> ('z, 's) seqcow" where
  "seqcow_init zero t_init s n_readers gc_on fat_slots =
     \<lparr>q_fat_slots = fat_slots,
      q_gc = (gc_start t_init n_readers gc_on)\<lparr>gs_gc := init_gc t_init n_readers gc_on (fat_slots \<noteq> 0)\<rparr>,
      q_submitted = 0, q_committed = 0,
      q_ctxs = (\<lambda>i. if i = 0 then zero\<lparr>c_op := OP_DONE, c_sno := 0, c_root := t_init\<rparr> else zero\<lparr>c_op := OP_DONE\<rparr>),
      q_store = s, q_lock = None, q_pend = (\<lambda>_. None), q_phase = W_TOP, q_stop = False, q_stop_local = False,
      q_sub_local = 0, q_com_local = 0, q_com_next = 0, q_log = []\<rparr>"

text \<open>
  Client actions. With fat leaves the submission holds a mutex: the context is filled and only then the
  frontier moved. Without, the ticket is reserved first and the context filled afterwards.
  \<open>ClientLock\<close> also makes the check that the ticket fits a version and the wait for a free ring cell.
\<close>

datatype seq_act =
    ClientLock nat u64 u64
  | ClientSubmit nat u64 u64
  | ClientReserve nat
  | ClientFill nat u64 u64
  | WorkerLoad
  | WorkerExec
  | WorkerExecEnd
  | WorkerPublish
  | WorkerCommit
  | WorkerReclaim
  | WorkerStop
  | ReclaimStart nat
  | ReclaimScan nat
  | ReclaimFree nat
  | ReaderPin nat
  | ReaderUnpin nat
  | Destroy

definition do_gc :: "gc_act \<Rightarrow> ('z, 's) seqcow \<Rightarrow> ('z, 's) seqcow option" where
  "do_gc a q = map_option (\<lambda>g. q\<lparr>q_gc := g\<rparr>) (gc_do a (q_gc q))"

definition worker_root :: "('z, 's) seqcow \<Rightarrow> addr" where
  "worker_root q = c_root (q_ctxs q (ring (q_com_local q)))"

text \<open>The next of the four stores of \<open>gc_.publish\<close>; after the last one the worker goes on.\<close>

definition worker_publish :: "('z, 's) seqcow \<Rightarrow> ('z, 's) seqcow option" where
  "worker_publish q =
     (case gs_pub (q_gc q) of
        PUB_IDLE \<Rightarrow> do_gc (PubBegin (worker_root q) (q_com_local q)) q
      | PUB_ROOT r v \<Rightarrow> do_gc PubRoot q
      | PUB_VERSION r v \<Rightarrow> do_gc PubVersion q
      | PUB_END \<Rightarrow> map_option (\<lambda>q. q\<lparr>q_phase := W_COMMIT\<rparr>) (do_gc PubEnd q))"

text \<open>
  The freeing part of \<open>try_reclaim\<close> of thread \<open>t\<close>, with the tree's \<open>free_node\<close>; the worker then goes
  back to the head of its loop.
\<close>

definition reclaim_free :: "('z, 's) tree_ops \<Rightarrow> nat \<Rightarrow> ('z, 's) seqcow \<Rightarrow> ('z, 's) seqcow option" where
  "reclaim_free I t q =
     (case gs_rc (q_gc q) t of
        RC_IDLE \<Rightarrow> None
      | RC_SCAN i m w \<Rightarrow> do {
          G \<leftarrow> gc_do (RcFree t) (q_gc q);
          (g, s) \<leftarrow> try_reclaim_safe (ti_free I) (\<lambda>_ _. None) (min m w) (gs_gc (q_gc q)) (q_store q);
          Some (q\<lparr>q_gc := G\<lparr>gs_gc := g\<rparr>, q_store := s, q_phase := (if t = 0 then W_TOP else q_phase q)\<rparr>) })"

text \<open>
  Thread 0 is the worker; \<open>collect_garbage\<close> may be called by any other thread. With collection off
  \<open>try_reclaim\<close> returns at once (\<open>WorkerReclaim\<close>), otherwise it scans the readers and frees.
\<close>

fun seq_do :: "('z, 's) tree_ops \<Rightarrow> seq_act \<Rightarrow> ('z, 's) seqcow \<Rightarrow> ('z, 's) seqcow option" where
  "seq_do I (ClientLock cl key val) q =
     (let tid = q_submitted q + 1 in
      if q_fat_slots q \<noteq> 0 \<and> q_lock q = None \<and> \<not> q_stop q \<and> tid \<le> UINT32_MAX \<and>
         tid < q_committed q + of_nat BUFFER_SIZE
      then Some (q\<lparr>q_lock := Some cl, q_pend := (q_pend q)(cl := Some tid),
                   q_ctxs := (q_ctxs q)(ring tid :=
                     init_task (q_fat_slots q) (g_enabled (gs_gc (q_gc q))) tid key val (q_ctxs q (ring tid)))\<rparr>)
      else None)"
| "seq_do I (ClientSubmit cl key val) q =
     (case q_pend q cl of
        Some tid \<Rightarrow>
          if q_lock q = Some cl \<and> c_key (q_ctxs q (ring tid)) = key \<and> c_val (q_ctxs q (ring tid)) = val
          then Some (q\<lparr>q_submitted := tid, q_lock := None, q_pend := (q_pend q)(cl := None),
                       q_log := q_log q @ [(key, val)]\<rparr>)
          else None
      | None \<Rightarrow> None)"
| "seq_do I (ClientReserve cl) q =
     (if q_fat_slots q = 0 \<and> q_pend q cl = None \<and> \<not> q_stop q
      then Some (q\<lparr>q_submitted := q_submitted q + 1, q_pend := (q_pend q)(cl := Some (q_submitted q + 1))\<rparr>)
      else None)"
| "seq_do I (ClientFill cl key val) q =
     (case q_pend q cl of
        Some tid \<Rightarrow>
          if q_fat_slots q = 0 \<and> tid < q_committed q + of_nat BUFFER_SIZE
          then Some (q\<lparr>q_pend := (q_pend q)(cl := None),
                       q_ctxs := (q_ctxs q)(ring tid :=
                         init_task 0 (g_enabled (gs_gc (q_gc q))) tid key val (q_ctxs q (ring tid)))\<rparr>)
          else None
      | None \<Rightarrow> None)"
| "seq_do I WorkerLoad q =
     (if q_phase q = W_TOP \<and> (\<not> q_stop_local q \<or> q_com_local q < q_sub_local q)
      then Some (q\<lparr>q_stop_local := q_stop q, q_sub_local := q_submitted q, q_com_next := q_com_local q,
                   q_phase := W_EXEC\<rparr>)
      else None)"
| "seq_do I WorkerExec q =
     (if q_phase q = W_EXEC \<and> q_com_next q < q_sub_local q \<and>
         q_com_next q \<le> q_com_local q + of_nat (BUFFER_SIZE div 2)
      then let tid = q_com_next q + 1 in
        case exec_task I tid (q_ctxs q) (q_store q) of
          None \<Rightarrow> None
        | Some (c, s) \<Rightarrow>
            let (c', g) = retire (ti_node_size I s) None tid c (gs_gc (q_gc q))
            in Some (q\<lparr>q_ctxs := (q_ctxs q)(ring tid := c'), q_store := s,
                       q_gc := (q_gc q)\<lparr>gs_gc := g\<rparr>, q_com_next := tid\<rparr>)
      else None)"
| "seq_do I WorkerExecEnd q =
     (if q_phase q = W_EXEC \<and> \<not> (q_com_next q < q_sub_local q \<and>
         q_com_next q \<le> q_com_local q + of_nat (BUFFER_SIZE div 2))
      then Some (if q_com_next q > q_com_local q
                 then q\<lparr>q_com_local := q_com_next q, q_phase := W_PUBLISH\<rparr> else q\<lparr>q_phase := W_TOP\<rparr>)
      else None)"
| "seq_do I WorkerPublish q = (if q_phase q = W_PUBLISH then worker_publish q else None)"
| "seq_do I WorkerCommit q =
     (if q_phase q = W_COMMIT then Some (q\<lparr>q_committed := q_com_local q, q_phase := W_RECLAIM\<rparr>) else None)"
| "seq_do I WorkerReclaim q =
     (if q_phase q = W_RECLAIM \<and> \<not> g_enabled (gs_gc (q_gc q)) then Some (q\<lparr>q_phase := W_TOP\<rparr>) else None)"
| "seq_do I WorkerStop q =
     (if q_phase q = W_TOP \<and> q_stop_local q \<and> q_com_local q = q_sub_local q
      then Some (q\<lparr>q_phase := W_STOPPED\<rparr>) else None)"
| "seq_do I (ReclaimStart t) q =
     (if g_enabled (gs_gc (q_gc q)) \<and> (t = 0 \<longrightarrow> q_phase q = W_RECLAIM)
      then do_gc (RcStart t (if t = 0 then q_com_local q else q_committed q)) q else None)"
| "seq_do I (ReclaimScan t) q = do_gc (RcScan t) q"
| "seq_do I (ReclaimFree t) q = reclaim_free I t q"
| "seq_do I (ReaderPin cid) q = do_gc (Reader cid) q"
| "seq_do I (ReaderUnpin cid) q = do_gc (Unpin cid) q"
| "seq_do I Destroy q = Some (q\<lparr>q_stop := True\<rparr>)"

inductive seq_reach :: "('z, 's) tree_ops \<Rightarrow> ('z, 's) seqcow \<Rightarrow> ('z, 's) seqcow \<Rightarrow> bool" for I q0 where
  start: "seq_reach I q0 q0"
| step: "seq_reach I q0 q \<Longrightarrow> seq_do I a q = Some q' \<Longrightarrow> seq_reach I q0 q'"

end
