(* ===== verification/BT_Interface.thy ===== *)
theory BT_Interface
  imports BT_Exec_Correct Seqcow
begin

text \<open>
  The B+Tree as the template argument of the controllers (\<^verbatim>\<open>src/adapters/btree.hpp\<close>), and the facts about
  it that a controller needs: height bound, the retirement list of a task, the nodes an update frees.
\<close>

type_synonym bt_ctx_more = "unit bt_ctx_ext"

definition bt_node_bytes :: "bt_store \<Rightarrow> addr \<Rightarrow> u64" where
  "bt_node_bytes s a = (case cells s a of None \<Rightarrow> 0 | Some t \<Rightarrow> of_nat (bt_node_size t))"

definition bt_tree_ops :: "(bt_ctx_more, bt_store) tree_ops" where
  "bt_tree_ops = \<lparr>ti_exec = bt_exec, ti_free = bt_free_node, ti_node_size = bt_node_bytes\<rparr>"

definition bt_zero_ctx :: bt_ctx where
  "bt_zero_ctx =
     \<lparr>c_op = 0, c_retry = False, c_wait_child = False, c_wait_subtree = False, c_new_checkpoint = False,
      c_gc_enabled = False, c_checkpoint_rebuilt = False, c_sno = 0, c_cno = 0, c_root = nullptr,
      c_t_cur = nullptr, c_t_past = nullptr, c_key = 0, c_val = 0, c_retired_inline = replicate 6 nullptr,
      c_retired_overflow = [], c_retired_count = 0, c_fat_slots = 0, c_split_idx = 0, c_worker_fat = False,
      c_leaf_pair = False\<rparr>"

section \<open>Height\<close>

lemma leaf_entries_length:
  assumes "leaf_ok slots hi t"
  shows "bn_size t \<le> length (leaf_entries t u)"
proof -
  have "set (bn_keys t) \<subseteq> fst ` set (leaf_entries t u)"
  proof -
    have "fst ` set (leaf_entries t u) = lr_key ` set (leaf_records t u)"
      by (simp add: leaf_entries_def image_image newest_sort_keys)
    moreover have "lr_key ` set (base_records (bn_ver t) (bn_keys t) (bn_vals t)) = set (bn_keys t)"
      using assms base_records_keys [of "bn_vals t" "bn_keys t" "bn_ver t"] by (metis leaf_ok_def list.set_map)
    ultimately show ?thesis by (auto simp: leaf_records_def)
  qed
  then have "card (set (bn_keys t)) \<le> card (fst ` set (leaf_entries t u))"
    by (intro card_mono) simp_all
  also have "\<dots> \<le> card (set (leaf_entries t u))" by (rule card_image_le) simp
  also have "\<dots> \<le> length (leaf_entries t u)" by (rule card_length)
  finally show ?thesis
    using assms by (simp add: leaf_ok_def distinct_card strict_sorted_iff)
qed

lemma sum_list_at_least: "\<forall>x\<in>set ts. k \<le> f x \<Longrightarrow> length ts * (k :: nat) \<le> (\<Sum>x\<leftarrow>ts. f x)"
proof (induction ts)
  case (Cons x ts)
  then have "k \<le> f x" "length ts * k \<le> (\<Sum>x\<leftarrow>ts. f x)" by simp_all
  then show ?case by simp
qed simp

lemma bt_contents_length:
  "bt_inv slots hi w h T \<Longrightarrow> bt_minfill T \<Longrightarrow> 8 ^ Suc h \<le> length (bt_contents u T)"
proof (induction slots hi w h T rule: bt_inv.induct)
  case (1 slots hi w a t)
  then show ?case using leaf_entries_length [of slots hi t u] by (simp add: BT_B_def)
next
  case (2 slots hi w h a t ts)
  have len: "\<forall>x\<in>set ts. 8 ^ Suc h \<le> length (bt_contents u x)"
    using 2 by auto
  have ge: "length ts * 8 ^ Suc h \<le> (\<Sum>x\<leftarrow>ts. length (bt_contents u x))"
    by (rule sum_list_at_least [OF len])
  have "8 \<le> length ts" using "2.prems" by (simp add: BT_B_def)
  then have "8 * 8 ^ Suc h \<le> length ts * 8 ^ Suc h" by (rule mult_right_mono) simp
  then have "8 * 8 ^ Suc h \<le> (\<Sum>x\<leftarrow>ts. length (bt_contents u x))" using ge by (rule order_trans)
  then show ?case by (simp add: length_concat comp_def)
qed simp_all

lemma strict_length_u64: "sorted_wrt (<) (xs :: u64 list) \<Longrightarrow> length xs \<le> 2 ^ 64"
proof -
  assume "sorted_wrt (<) xs"
  then have "length xs = card (set xs)" by (simp add: distinct_card strict_sorted_iff)
  also have "\<dots> \<le> card (UNIV :: u64 set)" by (intro card_mono) simp_all
  also have "\<dots> = 2 ^ 64" by (simp add: card_word)
  finally show ?thesis .
qed

text \<open>Keys have 64 bits, so a tree has at most 22 levels.\<close>

lemma bt_height_bound:
  assumes inv: "bt_inv slots hi w h T"
  shows "h \<le> 21"
proof (cases h)
  case (Suc h')
  with inv obtain a t ts where T: "T = BNode a t ts" by (auto elim: bt_inv_Suc_cases)
  obtain x y zs where ts: "ts = x # y # zs"
    using inv by (cases ts; cases "tl ts") (auto simp: T Suc)
  have "8 ^ Suc h' \<le> length (bt_contents 0 x)"
    using inv by (intro bt_contents_length [of slots hi w h']) (auto simp: T Suc ts)
  also have "\<dots> \<le> length (bt_contents 0 T)" by (simp add: T ts)
  also have "\<dots> \<le> 2 ^ 64"
    using strict_length_u64 [OF bt_contents_strict [OF inv, of 0]] by simp
  finally have "(8 :: nat) ^ Suc h' \<le> 2 ^ 64" .
  then have "(2 :: nat) ^ (3 * Suc h') \<le> 2 ^ 64" by (simp only: power_mult) simp
  then have "3 * Suc h' \<le> 64" by (rule power_le_imp_le_exp [rotated]) simp
  then show ?thesis using Suc by simp
qed simp

section \<open>Handlers do not switch a context to worker mode\<close>

lemma run_handlers_inv:
  assumes keep: "\<And>op c s op' c' s'. H op c s = Some (op', c', s') \<Longrightarrow> P c \<Longrightarrow> P c'"
    and run: "run_handlers H op c s = Some y" and init: "P c"
  shows "P (fst y)"
proof -
  have "(\<forall>op c s op' c' s'. H op c s = Some (op', c', s') \<longrightarrow> P c \<longrightarrow> P c') \<longrightarrow> P c \<longrightarrow> P (fst y)"
    using run
  proof (induction H op c s y rule: run_handlers.raw_induct [rotated, consumes 1, case_names step])
    case (step run H op c s y)
    show ?case
    proof (intro impI)
      assume k: "\<forall>op c s op' c' s'. H op c s = Some (op', c', s') \<longrightarrow> P c \<longrightarrow> P c'" and "P c"
      show "P (fst y)"
      proof (cases "op = OP_DONE")
        case True
        with step(2) \<open>P c\<close> show ?thesis by auto
      next
        case False
        with step(2) obtain op' c' s' where h: "H op c s = Some (op', c', s')" and r: "run H op' c' s' = Some y"
          by (auto split: option.splits)
        have "P c'" using k h \<open>P c\<close> by blast
        with step(1) [OF r] k show ?thesis by blast
      qed
    qed
  qed
  with keep init show ?thesis by blast
qed


definition keeps_fat :: "bt_ctx \<Rightarrow> nat \<times> bt_ctx \<times> bt_store \<Rightarrow> bool" where
  "keeps_fat c r \<longleftrightarrow> c_worker_fat (fst (snd r)) = c_worker_fat c"

lemma retire_replaced_worker_fat [simp]: "c_worker_fat (retire_replaced n c) = c_worker_fat c"
  by (simp add: retire_replaced_def)

lemma bt_update_cow_worker_fat: "opt_all (keeps_fat c) (bt_update_cow c s)"
  unfolding bt_update_cow_def by (intro opt_intros) (auto simp: keeps_fat_def)

lemma bt_init_cow_worker_fat: "opt_all (keeps_fat c) (bt_handle_init_cow c s)"
  unfolding bt_handle_init_cow_def
  by (intro opt_intros) (auto simp: keeps_fat_def dest!: opt_allD [OF bt_update_cow_worker_fat])

lemma bt_init_worker_fat: "opt_all (keeps_fat c) (bt_handle_init c s)"
  unfolding bt_handle_init_def
  by (intro opt_intros bt_init_cow_worker_fat) (auto simp: keeps_fat_def)

lemma bt_search_down_worker_fat: "opt_all (keeps_fat c) (bt_handle_search_down c s)"
  unfolding bt_handle_search_down_def by (intro opt_intros bt_update_cow_worker_fat)

lemma bt_search_split_worker_fat: "opt_all (keeps_fat c) (bt_handle_search_split c s)"
proof -
  have "opt_all (keeps_fat c) (bt_update_cow d s)" if "c_worker_fat d = c_worker_fat c" for d s
    using bt_update_cow_worker_fat [of d s] that by (simp add: opt_all_def keeps_fat_def)
  then show ?thesis unfolding bt_handle_search_split_def by (intro opt_intros) simp_all
qed

lemma bt_leaf_stage_worker_fat:
  "opt_all (keeps_fat c) (bt_handle_fat_append c s)" "opt_all (keeps_fat c) (bt_handle_materialize c s)"
  unfolding bt_handle_fat_append_def bt_handle_materialize_def
  by (intro opt_intros; simp add: keeps_fat_def)+

lemma bt_handlers_worker_fat: "opt_all (keeps_fat c) (bt_handlers op c s)"
  using bt_init_worker_fat bt_search_down_worker_fat bt_search_split_worker_fat bt_leaf_stage_worker_fat
  by (simp add: bt_handlers_eq)

lemma bt_exec_worker_fat:
  assumes "bt_exec c s = Some (c', s')"
  shows "c_worker_fat c' = c_worker_fat c"
proof -
  have step: "c_worker_fat d' = c_worker_fat d" if "bt_handlers op d s = Some (op', d', s')" for op d s op' d' s'
    using opt_allD [OF bt_handlers_worker_fat that] by (simp add: keeps_fat_def)
  from assms obtain op c1 s1 where "bt_handlers OP_INIT c s = Some (op, c1, s1)"
    "run_handlers bt_handlers op c1 s1 = Some (c', s')"
    by (auto simp: bt_exec_def bind_Some_iff)
  then show ?thesis
    using run_handlers_inv [of bt_handlers "\<lambda>d. c_worker_fat d = c_worker_fat c" op c1 s1 "(c', s')"]
      step by fastforce
qed

section \<open>A tree in a store\<close>

definition bt_wf :: "nat \<Rightarrow> u32 \<Rightarrow> nat \<Rightarrow> bt_store \<Rightarrow> bt_tree \<Rightarrow> bool" where
  "bt_wf slots hi h s T \<longleftrightarrow>
     store_ok s \<and> bt_repr s T \<and> bt_inv slots hi UINT64_MAX h T \<and> distinct (bt_addrs T)"

text \<open>A context that is ready to run on the tree with newest version \<open>hi\<close>.\<close>

definition bt_task :: "nat \<Rightarrow> u32 \<Rightarrow> bt_tree \<Rightarrow> bt_ctx \<Rightarrow> bool" where
  "bt_task slots hi T c \<longleftrightarrow>
     c_t_past c = bt_addr T \<and> hi < c_sno c \<and> c_fat_slots c = slots \<and> \<not> c_worker_fat c"

lemma bt_exec_runs:
  assumes "bt_wf slots hi h s T" "bt_task slots hi T c"
  shows "\<exists>c' s'. bt_exec c s = Some (c', s') \<and> exec_post slots hi h T c s c' s'"
  using assms unfolding bt_wf_def bt_task_def by (intro bt_exec_post) simp_all


lemma bt_wf_addrs:
  assumes "bt_wf slots hi h s T"
  shows "\<forall>a \<in> set (bt_addrs T). a < brk s" "nullptr \<notin> set (bt_addrs T)"
  using assms bt_repr_addrs [of s T] bt_repr_allocated [of s T nullptr] by (auto simp: bt_wf_def store_ok_def)

text \<open>The nodes that an update retires are those that the new tree does not share.\<close>

lemma update_post_distinct:
  assumes "distinct (bt_addrs T)" "\<forall>a \<in> set (bt_addrs T). a < brk s" and post: "update_post slots ver h' k v T s s' T' R"
  shows "distinct (bt_addrs T')"
proof -
  have "mset (bt_addrs T') \<subseteq># mset (bt_addrs T @ [brk s..<brk s'])"
    using post by (metis mset_append mset_subset_eq_add_left update_post_def)
  moreover have "distinct (bt_addrs T @ [brk s..<brk s'])" using assms(1,2) by auto
  ultimately show ?thesis by (rule distinct_mset_subset)
qed

lemma update_post_retired:
  assumes dist: "distinct (bt_addrs T)" and lt: "\<forall>a \<in> set (bt_addrs T). a < brk s" and nn: "nullptr \<notin> set (bt_addrs T)"
    and post: "update_post slots ver h' k v T s s' T' R"
  shows "set R = set (bt_addrs T) - set (bt_addrs T')" "distinct R" "nullptr \<notin> set R"
proof -
  let ?F = "[brk s..<brk s']"
  have m: "mset (bt_addrs T' @ R) = mset (bt_addrs T @ ?F)" and F: "set ?F \<subseteq> set (bt_addrs T')"
    using post by (simp_all add: update_post_def)
  have "distinct (bt_addrs T @ ?F)" using dist lt by auto
  then have d: "distinct (bt_addrs T' @ R)" using m by (metis mset_eq_imp_distinct_iff)
  then show "distinct R" by simp
  have "set (bt_addrs T') \<union> set R = set (bt_addrs T) \<union> set ?F"
    using m by (metis mset_eq_setD set_append)
  moreover have "set (bt_addrs T) \<inter> set ?F = {}" using lt by auto
  ultimately show R: "set R = set (bt_addrs T) - set (bt_addrs T')" using d F by auto
  then show "nullptr \<notin> set R" using nn by simp
qed

end
