(* ===== verification/BT_Properties.thy ===== *)
theory BT_Properties
  imports BT_Interface
begin

text \<open>
  What the B+Tree promises, stated on its operations \<open>bt_find\<close>, \<open>bt_scan\<close> and \<open>bt_exec\<close>, with a small
  tree as a witness: a leaf of two records whose version buffer of two slots holds one more.
\<close>

section \<open>A small tree\<close>

definition ex_leaf :: bt_node where
  "ex_leaf =
     \<lparr>bn_ver = 0, bn_type = BT_LEAF, bn_cow_ready = True, bn_keys = [10, 20], bn_chs = [], bn_vals = [100, 200],
      bn_delta = Some \<lparr>db_capacity = 2, db_count = 1,
        db_slots = [\<lparr>ds_version = 1, ds_key = 15, ds_value = 150\<rparr>, empty_slot]\<rparr>\<rparr>"

definition ex_store :: bt_store where
  "ex_store = \<lparr>cells = [1 \<mapsto> ex_leaf], brk = 2\<rparr>"

definition ex_tree :: bt_tree where
  "ex_tree = BLeaf 1 ex_leaf"

definition ex_ctx :: bt_ctx where
  "ex_ctx = bt_zero_ctx\<lparr>c_t_past := 1, c_sno := 2, c_key := 20, c_val := 7, c_fat_slots := 2, c_gc_enabled := True\<rparr>"

lemma ex_wf: "bt_wf 2 1 0 ex_store ex_tree"
  by (auto simp: bt_wf_def store_ok_def ex_store_def ex_tree_def ex_leaf_def leaf_ok_def delta_ok_def db_used_def
      supported_fat_slots_def empty_slot_def BT_B_def)

lemma ex_task: "bt_task 2 1 ex_tree ex_ctx"
  by (simp add: bt_task_def ex_ctx_def ex_tree_def bt_zero_ctx_def)

lemma ex_contents: "leaf_entries ex_leaf 1 = [(10, 100), (15, 150), (20, 200)]"
  by (simp add: leaf_entries_def leaf_records_def base_records_def visible_records_def ex_leaf_def bt_leaf_delta_def
      slot_visible_def slot_record_def empty_slot_def sort_records_def DELTA_PENDING_def)

section \<open>Queries\<close>

text \<open>
  C3: a lookup at a snapshot version descends to the right leaf and returns what the tree maps the key to
  at that version, without a failed access, for every well-formed tree, key and version.
\<close>

theorem bt_lookup_correct:
  assumes "bt_wf slots hi h s T"
  shows "bt_find s (bt_addr T) k u = Some (map_of (bt_contents u T) k)"
proof -
  have "bt_find s (bt_addr T) k u = Some (bt_map T u k)"
    using assms word_order.extremum [of u]
    by (intro bt_find_correct [of s T slots hi "UINT64_MAX" h]) (simp_all add: bt_wf_def UINT64_MAX_def)
  then show ?thesis by (simp add: bt_map_def)
qed

theorem bt_lookup_correct_witness:
  "bt_find ex_store 1 15 1 = Some (map_of (bt_contents 1 ex_tree) 15) \<and> map_of (bt_contents 1 ex_tree) 15 = Some 150"
  using bt_lookup_correct [OF ex_wf, of 15 1] by (simp add: ex_tree_def ex_contents)

text \<open>
  C4: a range scan from a key at a snapshot version returns the first entries, in key order and without
  duplicates, of what the tree holds at that version from the key on.
\<close>

theorem bt_range_correct:
  assumes "bt_wf slots hi h s T" and "h < fuel"
  shows "bt_scan fuel s (bt_addr T) k n u = Some (take n (filter (\<lambda>e. k \<le> fst e) (bt_contents u T))) \<and>
    sorted_wrt (<) (map fst (bt_contents u T))"
  using assms word_order.extremum [of u] bt_scan_correct [of s T slots hi UINT64_MAX h fuel u k n]
    bt_contents_strict [of slots hi UINT64_MAX h T u]
  by (simp add: bt_wf_def UINT64_MAX_def)

theorem bt_range_correct_witness:
  "bt_scan 1 ex_store 1 12 5 1 = Some [(15, 150), (20, 200)]"
  using bt_range_correct [OF ex_wf, of 1 12 5 1] by (simp add: ex_tree_def ex_contents)

section \<open>Updates\<close>

text \<open>
  C2: an update runs to its end on every well-formed tree (append to a version buffer, path copy, leaf
  and node splits, a new root), and at its version and later the new root maps the key to the value and
  every other key as before.
\<close>

theorem bt_update_refines_map:
  assumes wf: "bt_wf slots hi h s T" and task: "bt_task slots hi T c"
  shows "\<exists>c' s'. bt_exec c s = Some (c', s') \<and>
    (\<forall>k u. ucast (c_sno c) \<le> u \<longrightarrow>
       bt_find s' (c_root c') k u = Some (((bt_map T u)(c_key c \<mapsto> c_val c)) k))"
proof -
  obtain c' s' where run: "bt_exec c s = Some (c', s')" "exec_post slots hi h T c s c' s'"
    using bt_exec_runs [OF assms] by blast
  then obtain h' T' R where T': "c_root c' = bt_addr T'" "update_post slots (c_sno c) h' (c_key c) (c_val c) T s s' T' R"
    unfolding exec_post_def by blast
  have "bt_find s' (c_root c') k u = Some (((bt_map T u)(c_key c \<mapsto> c_val c)) k)" if u: "ucast (c_sno c) \<le> u" for k u
  proof -
    have inv': "bt_inv slots (c_sno c) UINT64_MAX h' T'" and inv: "bt_inv slots hi UINT64_MAX h T" and le: "ucast hi \<le> u"
      using T' wf task u by (auto simp: update_post_def bt_wf_def bt_task_def intro: order_trans [rotated])
    have "bt_find s' (c_root c') k u = Some (bt_map T' u k)"
      unfolding T'(1) using T'(2) inv' word_order.extremum [of u]
      by (intro bt_find_correct [of s' T' slots "c_sno c" UINT64_MAX h']) (simp_all add: update_post_def UINT64_MAX_def)
    moreover have "bt_map T' u = bt_now T'" by (rule bt_map_stable [OF inv' u])
    moreover have "bt_map T u = bt_now T" by (rule bt_map_stable [OF inv le])
    ultimately show ?thesis using T'(2) by (simp add: update_post_def)
  qed
  with run(1) show ?thesis by blast
qed

theorem bt_update_refines_map_witness:
  "\<exists>c' s'. bt_exec ex_ctx ex_store = Some (c', s') \<and> bt_find s' (c_root c') 20 2 = Some (Some 7)"
  using bt_update_refines_map [OF ex_wf ex_task] by (force simp: ex_ctx_def)

text \<open>
  C5: the update leaves a well-formed tree: every node below the root at least half full, all leaves at
  the same depth, separators in order, at most one level more, at most 22 levels in all.
\<close>

theorem bt_update_keeps_tree:
  assumes "bt_wf slots hi h s T" and "bt_task slots hi T c"
  shows "\<exists>c' s' T' h'. bt_exec c s = Some (c', s') \<and> c_root c' = bt_addr T' \<and>
    bt_wf slots (c_sno c) h' s' T' \<and> h \<le> h' \<and> h' \<le> Suc h \<and> h' < 22"
proof -
  obtain c' s' h' T' R where "bt_exec c s = Some (c', s')" "c_root c' = bt_addr T'" "h \<le> h'" "h' \<le> Suc h"
    and post: "update_post slots (c_sno c) h' (c_key c) (c_val c) T s s' T' R"
    using bt_exec_runs [OF assms] unfolding exec_post_def by blast
  moreover have "distinct (bt_addrs T')"
    using assms(1) bt_wf_addrs [OF assms(1)] update_post_distinct [OF _ _ post] by (simp add: bt_wf_def)
  moreover have "h' \<le> 21"
    using post by (intro bt_height_bound [of slots "c_sno c" UINT64_MAX h' T']) (simp add: update_post_def)
  ultimately show ?thesis
    by (intro exI [of _ c'] exI [of _ s'] exI [of _ T'] exI [of _ h']) (simp add: bt_wf_def update_post_def)
qed

theorem bt_update_keeps_tree_witness:
  "\<exists>c' s' T' h'. bt_exec ex_ctx ex_store = Some (c', s') \<and> c_root c' = bt_addr T' \<and> bt_wf 2 2 h' s' T' \<and> h' \<le> 1"
  using bt_update_keeps_tree [OF ex_wf ex_task] by (auto simp: ex_ctx_def)

text \<open>
  C8: snapshot isolation. For every tree of an earlier version (of which the readers may still see
  versions up to \<open>w\<close>) an update changes no lookup and no scan at those versions: neither the nodes
  it copies nor the slot it appends is visible to them.
\<close>

theorem bt_update_isolated:
  assumes wf: "bt_wf slots hi h s T" and task: "bt_task slots hi T c" and run: "bt_exec c s = Some (c', s')"
    and old: "bt_repr s T0" "bt_inv slots hi w h0 T0" "w < ucast (c_sno c)" "u \<le> w" "h0 < fuel"
  shows "bt_find s' (bt_addr T0) k u = bt_find s (bt_addr T0) k u \<and>
    bt_scan fuel s' (bt_addr T0) k n u = bt_scan fuel s (bt_addr T0) k n u"
proof -
  have post: "exec_post slots hi h T c s c' s'"
    using bt_exec_runs [OF wf task] run by auto
  then have kept: "snapshots_kept slots hi (c_sno c) s s'" and ok': "store_ok s'"
    unfolding exec_post_def update_post_def by blast+
  have ok: "store_ok s" using wf by (simp add: bt_wf_def)
  obtain T1 where T1: "bt_repr s' T1" "bt_addr T1 = bt_addr T0" "bt_inv slots (c_sno c) w h0 T1"
    and same: "bt_contents u T1 = bt_contents u T0"
    using snapshots_keptD [OF kept old(3,1,2)] old(4) by metis
  have "bt_find s' (bt_addr T1) k u = Some (bt_map T1 u k)" "bt_find s (bt_addr T0) k u = Some (bt_map T0 u k)"
    using bt_find_correct [OF ok' T1(1,3) old(4)] bt_find_correct [OF ok old(1,2,4)] by simp_all
  moreover have "bt_scan fuel s' (bt_addr T1) k n u = Some (take n (filter (\<lambda>e. k \<le> fst e) (bt_contents u T1)))"
    "bt_scan fuel s (bt_addr T0) k n u = Some (take n (filter (\<lambda>e. k \<le> fst e) (bt_contents u T0)))"
    using bt_scan_correct [OF ok' T1(1,3) old(5,4)] bt_scan_correct [OF ok old(1,2,5,4)] by simp_all
  ultimately show ?thesis using T1(2) same by (simp add: bt_map_def)
qed

theorem bt_update_isolated_witness:
  "\<exists>c' s'. bt_exec ex_ctx ex_store = Some (c', s') \<and> bt_find s' 1 20 1 = bt_find ex_store 1 20 1"
proof -
  obtain c' s' where run: "bt_exec ex_ctx ex_store = Some (c', s')"
    using bt_exec_runs [OF ex_wf ex_task] by blast
  have "bt_repr ex_store ex_tree" "bt_inv 2 1 1 0 ex_tree"
    using ex_wf bt_inv_weaken [of 2 1 UINT64_MAX 0 ex_tree 1] by (simp_all add: bt_wf_def UINT64_MAX_def)
  from bt_update_isolated [OF ex_wf ex_task run this, of 1 1 20 0] run
  show ?thesis by (simp add: ex_ctx_def ex_tree_def)
qed

text \<open>
  C9: with collection on, the retirement list that the update leaves in its context names every node of
  the old tree that the new tree does not share, each once and nothing else; it is at most 22 nodes
  long, so its counter does not wrap.
\<close>

theorem bt_update_retires_replaced:
  assumes wf: "bt_wf slots hi h s T" and task: "bt_task slots hi T c"
    and empty: "retired_ok c" "c_gc_enabled c" "c_retired_count c = 0"
  shows "\<exists>c' s' T'. bt_exec c s = Some (c', s') \<and> bt_repr s' T' \<and> bt_addr T' = c_root c' \<and>
    set (retired_nodes c') = set (bt_addrs T) - set (bt_addrs T') \<and> distinct (retired_nodes c') \<and>
    length (retired_nodes c') \<le> 22"
proof -
  obtain c' s' h' T' R where run: "bt_exec c s = Some (c', s')" "c_root c' = bt_addr T'"
    and post: "update_post slots (c_sno c) h' (c_key c) (c_val c) T s s' T' R"
    and ret: "ret_state c' = ret_state (fold retire_replaced R c)" "length R \<le> Suc h"
    using bt_exec_runs [OF wf task] unfolding exec_post_def by blast
  have h: "h \<le> 21" using wf by (intro bt_height_bound [of slots hi UINT64_MAX h T]) (simp add: bt_wf_def)
  have R: "set R = set (bt_addrs T) - set (bt_addrs T')" "distinct R" "nullptr \<notin> set R"
    using wf bt_wf_addrs [OF wf] update_post_retired [OF _ _ _ post] by (simp_all add: bt_wf_def)
  have "c_retired_count c + length R < 65535" using ret(2) h empty(3) by simp
  from retire_fold [OF empty(1,2) this R(3)]
  have "mset (retired_nodes (fold retire_replaced R c)) = mset (retired_nodes c) + mset R" by simp
  moreover have "retired_nodes c = []" using empty(1,3) by (simp add: retired_nodes_eq retired_ok_def)
  ultimately have m: "mset (retired_nodes c') = mset R"
    using ret_state_retired [OF ret(1)] by simp
  then have "set (retired_nodes c') = set R" "distinct (retired_nodes c')" "length (retired_nodes c') = length R"
    using R(2) by (metis set_mset_mset, metis mset_eq_imp_distinct_iff, metis size_mset)
  with R ret(2) h run post show ?thesis
    by (intro exI [of _ c'] exI [of _ s'] exI [of _ T']) (simp add: update_post_def)
qed

theorem bt_update_retires_replaced_witness:
  "\<exists>c' s' T'. bt_exec ex_ctx ex_store = Some (c', s') \<and> bt_repr s' T' \<and> bt_addr T' = c_root c' \<and>
     set (retired_nodes c') = {1} - set (bt_addrs T')"
  using bt_update_retires_replaced [OF ex_wf ex_task]
  by (auto simp: ex_ctx_def bt_zero_ctx_def retired_ok_def RETIRED_INLINE_CAPACITY_def ex_tree_def)

end
