(* ===== verification/Fat_Value.thy ===== *)
theory Fat_Value
  imports Prelude
begin

text \<open>
  The per-key version history of a radix-tree leaf (\<^verbatim>\<open>lib/common/fat_value.hpp\<close>): two inline records and
  one overflow block of two or six more. Version 0 is an unused record; records are filled in order by
  the only writer and never changed. \<open>read\<close> is what every reader evaluates at its snapshot.
\<close>

record fat_value =
  fv_values :: "u64 list"
  fv_versions :: "u32 list"
  fv_extra :: "(u64 \<times> u32) list option"

definition empty_fat :: fat_value where
  "empty_fat = \<lparr>fv_values = [0, 0], fv_versions = [0, 0], fv_extra = None\<rparr>"

text \<open>One step of the two loops of \<open>read\<close>: \<open>best\<close> is the newest version accepted so far.\<close>

definition fat_read_step :: "u64 \<Rightarrow> u64 \<times> u64 \<Rightarrow> u64 \<times> u32 \<Rightarrow> u64 \<times> u64" where
  "fat_read_step snapshot acc r =
     (if snd r \<noteq> 0 \<and> ucast (snd r) \<le> snapshot \<and> snd acc < ucast (snd r) then (fst r, ucast (snd r)) else acc)"

definition fat_records :: "fat_value \<Rightarrow> (u64 \<times> u32) list" where
  "fat_records v =
     zip (fv_values v) (fv_versions v) @ (case fv_extra v of None \<Rightarrow> [] | Some rs \<Rightarrow> rs)"

definition fat_read :: "fat_value \<Rightarrow> u64 \<Rightarrow> u64 \<Rightarrow> u64" where
  "fat_read v base snapshot =
     (let acc = foldl (fat_read_step snapshot) (base, 0) (zip (fv_values v) (fv_versions v))
      in fst (case fv_extra v of None \<Rightarrow> acc | Some rs \<Rightarrow> foldl (fat_read_step snapshot) acc rs))"

text \<open>\<open>first_free\<close> is the search loop of both parts of \<open>append\<close>.\<close>

fun first_free :: "u32 list \<Rightarrow> nat option" where
  "first_free [] = None"
| "first_free (v # vs) = (if v = 0 then Some 0 else map_option Suc (first_free vs))"

definition fat_append :: "nat \<Rightarrow> u32 \<Rightarrow> u64 \<Rightarrow> fat_value \<Rightarrow> fat_value option" where
  "fat_append slots version val v =
     (if version = 0 \<or> (slots \<noteq> 2 \<and> slots \<noteq> 4 \<and> slots \<noteq> 8) then None
      else case first_free (fv_versions v) of
        Some i \<Rightarrow> Some (v\<lparr>fv_values := (fv_values v)[i := val], fv_versions := (fv_versions v)[i := version]\<rparr>)
      | None \<Rightarrow>
          if slots = 2 then None
          else let rs = (case fv_extra v of None \<Rightarrow> replicate (slots - 2) (0, 0) | Some rs \<Rightarrow> rs)
               in case first_free (map snd rs) of
                    None \<Rightarrow> None
                  | Some i \<Rightarrow> Some (v\<lparr>fv_extra := Some (rs[i := (val, version)])\<rparr>))"

text \<open>\<^verbatim>\<open>sizeof(uint64_t)\<close> is 8 and \<^verbatim>\<open>sizeof(record)\<close> is 16.\<close>

definition fat_bytes :: "nat \<Rightarrow> nat" where
  "fat_bytes capacity = 8 + capacity * 16"

definition fat_allocated_bytes :: "fat_value \<Rightarrow> nat" where
  "fat_allocated_bytes v = (case fv_extra v of None \<Rightarrow> 0 | Some rs \<Rightarrow> fat_bytes (length rs))"

section \<open>The history a record represents\<close>

text \<open>
  A well-formed history of capacity \<open>slots\<close>: the used records come first and their versions increase up
  to \<open>hi\<close>; the overflow block exists only when the inline records are used.
\<close>

definition fat_used :: "fat_value \<Rightarrow> (u64 \<times> u32) list" where
  "fat_used v = filter (\<lambda>r. snd r \<noteq> 0) (fat_records v)"

definition fat_ok :: "nat \<Rightarrow> u32 \<Rightarrow> fat_value \<Rightarrow> bool" where
  "fat_ok slots hi v \<longleftrightarrow>
     length (fv_values v) = 2 \<and> length (fv_versions v) = 2 \<and>
     (case fv_extra v of None \<Rightarrow> True | Some rs \<Rightarrow> length rs = slots - 2 \<and> 0 \<notin> set (fv_versions v)) \<and>
     (\<exists>n. fat_records v = fat_used v @ replicate n (0, 0)) \<and>
     sorted_wrt (<) (map snd (fat_used v)) \<and> (\<forall>r \<in> set (fat_used v). snd r \<le> hi)"

text \<open>What the history means: the newest value not younger than the snapshot, else the base value.\<close>

definition newest_value :: "(u64 \<times> u32) list \<Rightarrow> u64 \<Rightarrow> u64 \<Rightarrow> u64" where
  "newest_value rs base snapshot = last (base # map fst (filter (\<lambda>r. ucast (snd r) \<le> snapshot) rs))"

lemma fat_read_records: "fat_read v base snapshot = fst (foldl (fat_read_step snapshot) (base, 0) (fat_records v))"
  by (simp add: fat_read_def fat_records_def Let_def split: option.splits)

lemma fold_read_unused: "foldl (fat_read_step u) acc (replicate n (0, 0)) = acc"
  by (induction n) (simp_all add: fat_read_step_def)

lemma fold_read_used:
  assumes "sorted_wrt (<) (map snd rs)" "\<forall>r \<in> set rs. snd acc < ucast (snd r) \<and> snd r \<noteq> 0"
  shows "fst (foldl (fat_read_step u) acc rs) = newest_value rs (fst acc) u"
  using assms
proof (induction rs arbitrary: acc)
  case (Cons r rs)
  let ?acc = "fat_read_step u acc r"
  show ?case
  proof (cases "ucast (snd r) \<le> u")
    case True
    then have acc: "?acc = (fst r, ucast (snd r))" using Cons.prems by (simp add: fat_read_step_def)
    have "fst (foldl (fat_read_step u) ?acc rs) = newest_value rs (fst ?acc) u"
      using Cons.prems by (intro Cons.IH) (auto simp: acc)
    with True show ?thesis by (simp add: newest_value_def acc)
  next
    case False
    then have acc: "?acc = acc" by (simp add: fat_read_step_def)
    have "fst (foldl (fat_read_step u) acc rs) = newest_value rs (fst acc) u"
      using Cons.prems by (intro Cons.IH) auto
    with False show ?thesis by (simp add: newest_value_def acc)
  qed
qed (simp add: newest_value_def)

lemma fat_read_newest:
  assumes "fat_ok slots hi v"
  shows "fat_read v base u = newest_value (fat_used v) base u"
proof -
  obtain n where n: "fat_records v = fat_used v @ replicate n (0, 0)" and sorted: "sorted_wrt (<) (map snd (fat_used v))"
    using assms unfolding fat_ok_def by blast
  have "\<forall>r \<in> set (fat_used v). 0 < (ucast (snd r) :: u64) \<and> snd r \<noteq> 0"
    by (simp add: fat_used_def word_greater_zero_iff)
  then have "fst (foldl (fat_read_step u) (base, 0) (fat_used v)) = newest_value (fat_used v) base u"
    using fold_read_used [OF sorted, of "(base, 0)" u] by simp
  then show ?thesis
    unfolding fat_read_records n foldl_append fold_read_unused .
qed

lemma empty_fat_ok [simp]: "fat_ok slots hi empty_fat" "fat_used empty_fat = []"
  by (simp_all add: fat_ok_def empty_fat_def fat_used_def fat_records_def exI [of _ 2] numeral_2_eq_2)

lemma fat_read_empty [simp]: "fat_read empty_fat base u = base"
  using fat_read_newest [OF empty_fat_ok(1)] by (simp add: newest_value_def)

section \<open>Appending\<close>

lemma first_free_append:
  "\<forall>v \<in> set vs. v \<noteq> 0 \<Longrightarrow> first_free (vs @ ws) = map_option (\<lambda>i. length vs + i) (first_free ws)"
  by (induction vs; cases "first_free ws") simp_all

lemma first_free_replicate: "first_free (replicate n 0) = (if n = 0 then None else Some 0)"
  by (cases n) simp_all

text \<open>In a list whose used records come first, the first unused one is right behind them.\<close>

lemma first_free_used:
  assumes "\<forall>r \<in> set us. snd r \<noteq> 0"
  shows "first_free (map snd (us @ replicate n (0, 0))) = (if n = 0 then None else Some (length us))"
  using assms by (simp add: first_free_append first_free_replicate)

lemma fill_used: "n \<noteq> 0 \<Longrightarrow> (us @ replicate n z)[length us := x] = us @ x # replicate (n - 1) z"
  by (cases n) (simp_all add: list_update_append)

lemma filter_used_fill:
  "\<forall>r \<in> set us. snd r \<noteq> 0 \<Longrightarrow> ver \<noteq> 0 \<Longrightarrow>
     filter (\<lambda>r. snd r \<noteq> 0) (us @ (val, ver) # replicate n (0, 0)) = us @ [(val, ver :: u32)]"
  by (induction us) auto


lemma records_split:
  "xs @ rs = us @ replicate n z \<Longrightarrow> us = xs @ us' \<Longrightarrow> rs = us' @ replicate n z"
  by simp

definition fat_appended :: "nat \<Rightarrow> u32 \<Rightarrow> u64 \<Rightarrow> fat_value \<Rightarrow> bool" where
  "fat_appended slots ver val v \<longleftrightarrow>
     (case fat_append slots ver val v of
        None \<Rightarrow> length (fat_used v) = slots
      | Some v' \<Rightarrow> fat_ok slots ver v' \<and> fat_used v' = fat_used v @ [(val, ver)])"

lemma fat_ok_extra:
  assumes "fv_values v = [a, b]" "fv_versions v = [x, y]" "x \<noteq> 0" "y \<noteq> 0" "fv_extra v = Some (us @ replicate n (0, 0))"
    "\<forall>r \<in> set us. snd r \<noteq> 0"
  shows "fat_used v = (a, x) # (b, y) # us"
    and "length us + n = slots - 2 \<Longrightarrow> sorted_wrt (<) (x # y # map snd us) \<Longrightarrow> \<forall>z \<in> {x, y} \<union> snd ` set us. z \<le> hi \<Longrightarrow>
      fat_ok slots hi v"
proof -
  show used: "fat_used v = (a, x) # (b, y) # us"
    using assms by (simp add: fat_used_def fat_records_def)
  assume l: "length us + n = slots - 2" "sorted_wrt (<) (x # y # map snd us)" "\<forall>z \<in> {x, y} \<union> snd ` set us. z \<le> hi"
  have "fat_records v = fat_used v @ replicate n (0, 0)" unfolding used using assms by (simp add: fat_records_def)
  then show "fat_ok slots hi v"
    unfolding fat_ok_def used using assms l by auto
qed

lemma fat_append_correct:
  assumes ok: "fat_ok slots hi v" and "hi < ver" and slots: "slots = 2 \<or> slots = 4 \<or> slots = 8"
  shows "fat_appended slots ver val v"
proof -
  obtain a b where vals: "fv_values v = [a, b]"
    using ok by (cases "fv_values v"; cases "tl (fv_values v)") (auto simp: fat_ok_def)
  obtain x y where vers: "fv_versions v = [x, y]"
    using ok by (cases "fv_versions v"; cases "tl (fv_versions v)") (auto simp: fat_ok_def)
  obtain n where recs: "fat_records v = fat_used v @ replicate n (0, 0)" using ok by (auto simp: fat_ok_def)
  have ver: "ver \<noteq> 0" using \<open>hi < ver\<close> by auto
  show ?thesis
  proof (cases "x = 0 \<or> y = 0")
    case True
    then have none: "fv_extra v = None" using ok by (auto simp: fat_ok_def vers split: option.splits)
    show ?thesis
    proof (cases "x = 0")
      case x: True
      have "fat_used v = []"
        using recs x by (cases "fat_used v") (auto simp: fat_records_def vals vers none fat_used_def split: if_splits)
      then have "a = 0 \<and> b = 0 \<and> y = 0"
        using recs by (cases n; cases "n - 1") (auto simp: fat_records_def vals vers none)
      then show ?thesis
        using ver slots x none vals vers \<open>fat_used v = []\<close>
        by (auto simp: fat_appended_def fat_append_def fat_ok_def fat_used_def fat_records_def intro!: exI [of _ 1])
    next
      case False
      then have used: "fat_used v = [(a, x)]" using True by (simp add: fat_used_def fat_records_def vals vers none)
      then have "b = 0" using recs by (cases n) (auto simp: fat_records_def vals vers none)
      then show ?thesis
        using ver slots False True none vals vers used ok \<open>hi < ver\<close>
        by (auto simp: fat_appended_def fat_append_def fat_ok_def fat_used_def fat_records_def)
    qed
  next
    case False
    define us where "us = filter (\<lambda>r. snd r \<noteq> 0) (case fv_extra v of None \<Rightarrow> [] | Some rs \<Rightarrow> rs)"
    have used: "fat_used v = (a, x) # (b, y) # us"
      using False by (simp add: fat_used_def fat_records_def vals vers us_def split: option.splits)
    have us: "\<forall>r \<in> set us. snd r \<noteq> 0" by (simp add: us_def)
    have bnd: "sorted_wrt (<) (x # y # map snd us)" "\<forall>z \<in> {x, y} \<union> snd ` set us. z \<le> hi"
      using ok by (auto simp: fat_ok_def used)
    show ?thesis
    proof (cases "slots = 2")
      case two: True
      then have "us = []" using ok by (auto simp: us_def fat_ok_def split: option.splits)
      moreover have "fat_append slots ver val v = None" using False two by (simp add: fat_append_def vers)
      ultimately show ?thesis using two by (simp add: fat_appended_def used)
    next
      case big: False
      define m where "m = slots - 2 - length us"
      have rs: "(case fv_extra v of None \<Rightarrow> replicate (slots - 2) (0, 0) | Some rs \<Rightarrow> rs) = us @ replicate m (0, 0)"
        and m: "length us + m = slots - 2"
      proof (atomize (full), cases "fv_extra v")
        case (Some rs)
        have "rs = us @ replicate n (0, 0)" using recs by (simp add: fat_records_def vals vers Some used)
        moreover have len: "length rs = slots - 2" using ok by (simp add: fat_ok_def Some)
        moreover have "m = n" using calculation unfolding m_def by (metis add_diff_cancel_left' length_append length_replicate)
        ultimately show "(case fv_extra v of None \<Rightarrow> replicate (slots - 2) (0, 0) | Some rs \<Rightarrow> rs) = us @ replicate m (0, 0) \<and>
            length us + m = slots - 2" by (simp add: Some)
      qed (simp add: us_def m_def)
      show ?thesis
      proof (cases "m = 0")
        case True
        have "fat_append slots ver val v = None"
          using False big ver slots first_free_used [OF us, of m]
          by (simp add: fat_append_def vers rs True)
        with m slots big show ?thesis by (auto simp: fat_appended_def used True)
      next
        case pos: False
        let ?rs = "(us @ [(val, ver)]) @ replicate (m - 1) (0, 0)"
        let ?v = "v\<lparr>fv_extra := Some ?rs\<rparr>"
        have "fat_append slots ver val v = Some ?v"
          using False big ver slots pos first_free_used [OF us, of m] fill_used [OF pos, of us]
          by (simp add: fat_append_def vers rs)
        moreover have us': "\<forall>r \<in> set (us @ [(val, ver)]). snd r \<noteq> 0" using us ver by simp
        moreover have "fat_used ?v = (a, x) # (b, y) # us @ [(val, ver)]"
          using False vals vers us' by (intro fat_ok_extra(1)) simp_all
        moreover have "\<forall>z \<in> {x, y} \<union> snd ` set us. z < ver" using bnd(2) \<open>hi < ver\<close> by (meson le_less_trans)
        then have "sorted_wrt (<) (x # y # map snd (us @ [(val, ver)]))" "\<forall>z \<in> {x, y} \<union> snd ` set (us @ [(val, ver)]). z \<le> ver"
          using bnd(1) by (auto simp: sorted_wrt_append less_imp_le)
        then have "fat_ok slots ver ?v"
          using False vals vers us' m pos by (intro fat_ok_extra(2) [of _ a b x y "us @ [(val, ver)]" "m - 1"]) simp_all
        ultimately show ?thesis by (simp add: fat_appended_def used)
      qed
    qed
  qed
qed

section \<open>What a reader sees\<close>

lemma newest_value_snoc:
  "newest_value (rs @ [(val, ver)]) base u = (if ucast ver \<le> u then val else newest_value rs base u)"
  by (simp add: newest_value_def)

lemma fat_append_reads:
  assumes "fat_ok slots hi v" "hi < ver" "fat_append slots ver val v = Some v'"
  shows "fat_ok slots ver v'" "fat_read v' base u = (if ucast ver \<le> u then val else fat_read v base u)"
proof -
  have "slots = 2 \<or> slots = 4 \<or> slots = 8" using assms(3) by (simp add: fat_append_def split: if_splits)
  then have "fat_appended slots ver val v" using fat_append_correct assms(1,2) by blast
  then show ok: "fat_ok slots ver v'" by (simp add: fat_appended_def assms(3))
  have used: "fat_used v' = fat_used v @ [(val, ver)]"
    using \<open>fat_appended slots ver val v\<close> by (simp add: fat_appended_def assms(3))
  show "fat_read v' base u = (if ucast ver \<le> u then val else fat_read v base u)"
    by (simp only: fat_read_newest [OF ok] fat_read_newest [OF assms(1)] used newest_value_snoc)
qed

text \<open>
  C13: a value appended under a version is what every read at that version or later returns, reads at an
  earlier version are unchanged, and the history stays well formed; so histories can be appended and read
  any number of times.
\<close>

theorem fat_append_read:
  assumes "fat_ok slots hi v" "hi < ver" "fat_append slots ver val v = Some v'"
  shows "fat_ok slots ver v' \<and> fat_read v' base u = (if ucast ver \<le> u then val else fat_read v base u)"
  using fat_append_reads [OF assms] by blast

definition ex_history :: fat_value where
  "ex_history = \<lparr>fv_values = [10, 20], fv_versions = [3, 5], fv_extra = Some [(30, 6), (0, 0)]\<rparr>"

lemma ex_history_ok: "fat_ok 4 6 ex_history" "length (fat_used ex_history) = 3"
  by (auto simp: fat_ok_def fat_used_def fat_records_def ex_history_def intro: exI [of _ 1])

theorem fat_append_read_witness:
  "\<exists>v'. fat_append 4 9 40 ex_history = Some v' \<and> fat_ok 4 9 v' \<and>
    fat_read v' 1 9 = 40 \<and> fat_read v' 1 5 = fat_read ex_history 1 5"
proof -
  obtain v' where v': "fat_append 4 9 40 ex_history = Some v'"
    by (simp add: fat_append_def ex_history_def)
  show ?thesis
    using fat_append_read [OF ex_history_ok(1) _ v', of 1 9] fat_append_read [OF ex_history_ok(1) _ v', of 1 5] v'
    by (intro exI [of _ v']) simp
qed

text \<open>
  C14: an append of a newer version fails exactly when the version is 0, the capacity is none of 2, 4 and 8,
  or as many records as the capacity allows are used: a history never holds more than \<open>slots\<close> records.
\<close>

theorem fat_append_fails:
  assumes "fat_ok slots hi v" "ver \<noteq> 0 \<Longrightarrow> hi < ver"
  shows "fat_append slots ver val v = None \<longleftrightarrow>
    ver = 0 \<or> slots \<notin> {2, 4, 8} \<or> length (fat_used v) = slots"
proof (cases "ver \<noteq> 0 \<and> (slots = 2 \<or> slots = 4 \<or> slots = 8)")
  case True
  then have "fat_appended slots ver val v" using fat_append_correct assms by blast
  moreover have "length (fat_used v) \<noteq> slots" if v': "fat_append slots ver val v = Some v'" for v'
  proof -
    have "length (fat_used v') \<le> length (fat_records v')" by (simp add: fat_used_def)
    moreover have "fat_ok slots ver v'" "fat_used v' = fat_used v @ [(val, ver)]"
      using \<open>fat_appended slots ver val v\<close> by (simp_all add: fat_appended_def v')
    moreover have "length (fat_records v') \<le> slots"
      using \<open>fat_ok slots ver v'\<close> True by (auto simp: fat_ok_def fat_records_def split: option.splits)
    ultimately show ?thesis by simp
  qed
  ultimately show ?thesis using True by (cases "fat_append slots ver val v") (auto simp: fat_appended_def)
next
  case False
  then show ?thesis by (auto simp: fat_append_def)
qed

theorem fat_append_fails_witness:
  "\<exists>v'. fat_append 4 9 40 ex_history = Some v' \<and> fat_append 4 10 50 v' = None"
proof -
  obtain v' where v': "fat_append 4 9 40 ex_history = Some v'"
    by (simp add: fat_append_def ex_history_def)
  have app: "fat_appended 4 9 40 ex_history" by (rule fat_append_correct [OF ex_history_ok(1)]) simp_all
  then have ok: "fat_ok 4 9 v'" and "length (fat_used v') = 4"
    by (simp_all add: fat_appended_def v' ex_history_ok(2))
  then show ?thesis using v' fat_append_fails [of 4 9 v' 10 50] by (intro exI [of _ v']) simp
qed

end
