(* ===== verification/Radix_Base.thy ===== *)
theory Radix_Base
  imports Update_Context Fat_Value
begin

text \<open>
  What the two radix trees (\<^verbatim>\<open>lib/trees/art\<close>, \<^verbatim>\<open>lib/trees/aert\<close>) share: arrays of which only a prefix
  has been initialised, the position of the first differing bit of two keys, and the search loops over
  the key bytes of a node.

  A buffer is the list of the initialised cells of an array of \<open>cap\<close> cells. The operations are those of
  \<^verbatim>\<open>lib/common/arrayops.hpp\<close> on such arrays; reading an uninitialised cell or writing past the end fails.
\<close>

section \<open>Buffers\<close>

definition buf_copy :: "nat \<Rightarrow> 'a list \<Rightarrow> 'a list \<Rightarrow> nat \<Rightarrow> 'a list option" where
  "buf_copy cap dst src n =
     (if n \<le> length src \<and> n \<le> cap then Some (take n src @ drop n dst) else None)"

definition buf_insert :: "nat \<Rightarrow> 'a list \<Rightarrow> nat \<Rightarrow> nat \<Rightarrow> 'a \<Rightarrow> 'a list option" where
  "buf_insert cap xs sz pos e =
     (if pos \<le> sz \<and> sz \<le> length xs \<and> sz < cap
      then Some (take pos xs @ e # take (sz - pos) (drop pos xs) @ drop (Suc sz) xs) else None)"

definition buf_copy_insert :: "nat \<Rightarrow> 'a list \<Rightarrow> 'a list \<Rightarrow> nat \<Rightarrow> nat \<Rightarrow> 'a \<Rightarrow> 'a list option" where
  "buf_copy_insert cap dst src sz pos e =
     (if pos \<le> sz \<and> sz \<le> length src \<and> sz < cap
      then Some (take pos src @ e # take (sz - pos) (drop pos src) @ drop (Suc sz) dst) else None)"

definition buf_write :: "nat \<Rightarrow> 'a list \<Rightarrow> nat \<Rightarrow> 'a \<Rightarrow> 'a list option" where
  "buf_write cap xs i e =
     (if i < length xs then Some (xs[i := e])
      else if i = length xs \<and> i < cap then Some (xs @ [e]) else None)"

lemma buf_write_same [simp]: "i < length xs \<Longrightarrow> buf_write cap xs i e = Some (xs[i := e])"
  by (simp add: buf_write_def)

lemma buf_copy_fresh [simp]: "n \<le> length src \<Longrightarrow> n \<le> cap \<Longrightarrow> buf_copy cap [] src n = Some (take n src)"
  by (simp add: buf_copy_def)

text \<open>An insertion at its place is an update of the list one element longer.\<close>

definition list_insert :: "nat \<Rightarrow> 'a \<Rightarrow> 'a list \<Rightarrow> 'a list" where
  "list_insert pos e xs = take pos xs @ e # drop pos xs"

lemma length_list_insert [simp]: "length (list_insert pos e xs) = Suc (length xs)"
  by (simp add: list_insert_def)

lemma set_list_insert [simp]: "set (list_insert pos e xs) = insert e (set xs)"
  by (simp add: list_insert_def) (metis append_take_drop_id set_append)

lemma take_list_insert:
  assumes "pos \<le> sz" "sz \<le> length xs"
  shows "take (Suc sz) (take pos xs @ e # take (sz - pos) (drop pos xs) @ rest) = list_insert pos e (take sz xs)"
proof -
  have "take (Suc sz) ((take pos xs @ e # take (sz - pos) (drop pos xs)) @ rest) = take pos xs @ e # take (sz - pos) (drop pos xs)"
    using assms by (subst take_append) simp
  then show ?thesis using assms by (simp add: list_insert_def min_def drop_take)
qed

lemma buf_insert_live:
  assumes "buf_insert cap xs sz pos e = Some ys"
  shows "take (Suc sz) ys = list_insert pos e (take sz xs)" "Suc sz \<le> length ys" "pos \<le> sz"
  using assms take_list_insert [of pos sz xs e "drop (Suc sz) xs"]
  by (auto simp: buf_insert_def split: if_splits)

lemma buf_copy_insert_live:
  assumes "buf_copy_insert cap dst src sz pos e = Some ys"
  shows "take (Suc sz) ys = list_insert pos e (take sz src)" "Suc sz \<le> length ys" "pos \<le> sz"
  using assms take_list_insert [of pos sz src e "drop (Suc sz) dst"]
  by (auto simp: buf_copy_insert_def split: if_splits)

section \<open>Search loops over key bytes\<close>

fun find_key :: "u8 list \<Rightarrow> u8 \<Rightarrow> nat option" where
  "find_key [] k = None"
| "find_key (x # xs) k = (if x = k then Some 0 else map_option Suc (find_key xs k))"

fun find_gt :: "u8 list \<Rightarrow> u8 \<Rightarrow> nat" where
  "find_gt [] k = 0"
| "find_gt (x # xs) k = (if x \<le> k then Suc (find_gt xs k) else 0)"

lemma find_key_None: "find_key xs k = None \<longleftrightarrow> k \<notin> set xs"
  by (induction xs) auto

lemma find_key_Some: "find_key xs k = Some i \<Longrightarrow> i < length xs \<and> xs ! i = k"
proof (induction xs arbitrary: i)
  case (Cons x xs)
  then show ?case by (cases i) (auto split: if_splits)
qed simp

lemma find_key_nth: "distinct xs \<Longrightarrow> i < length xs \<Longrightarrow> find_key xs (xs ! i) = Some i"
proof (induction xs arbitrary: i)
  case (Cons x xs)
  then show ?case by (cases i) auto
qed simp

lemma find_gt_le: "find_gt xs k \<le> length xs"
  by (induction xs) auto

lemma find_gt_below: "x \<in> set (take (find_gt xs k) xs) \<Longrightarrow> x \<le> k"
  by (induction xs) (auto split: if_splits)

lemma find_gt_above: "sorted xs \<Longrightarrow> x \<in> set (drop (find_gt xs k) xs) \<Longrightarrow> k < x"
  by (induction xs) (auto split: if_splits)

lemma find_gt_insert_strict:
  assumes s: "sorted_wrt (<) xs" and k: "k \<notin> set xs"
  shows "sorted_wrt (<) (list_insert (find_gt xs k) k xs)"
proof -
  let ?i = "find_gt xs k"
  have split: "sorted_wrt (<) (take ?i xs @ drop ?i xs)" using s by simp
  have "x < k" if "x \<in> set (take ?i xs)" for x
    using find_gt_below [OF that] k in_set_takeD [OF that] by (metis order_le_imp_less_or_eq)
  moreover have "k < x" if "x \<in> set (drop ?i xs)" for x
    using find_gt_above that s strict_sorted_imp_sorted by blast
  ultimately show ?thesis using split by (auto simp: list_insert_def sorted_wrt_append simp del: append_take_drop_id)
qed

text \<open>Parallel arrays: the element at the index of a key.\<close>

definition assoc_get :: "u8 list \<Rightarrow> 'a list \<Rightarrow> u8 \<Rightarrow> 'a option" where
  "assoc_get ks vs k = map_of (zip ks vs) k"

lemma assoc_get_find:
  "length ks \<le> length vs \<Longrightarrow> assoc_get ks vs k = (case find_key ks k of None \<Rightarrow> None | Some i \<Rightarrow> Some (vs ! i))"
proof (induction ks arbitrary: vs)
  case (Cons x ks)
  then obtain v vs' where "vs = v # vs'" by (cases vs) auto
  with Cons show ?case by (auto simp: assoc_get_def split: option.splits)
qed (simp add: assoc_get_def)

lemma zip_list_insert:
  "length ks = length vs \<Longrightarrow> zip (list_insert pos k ks) (list_insert pos v vs) = list_insert pos (k, v) (zip ks vs)"
  by (simp add: list_insert_def take_zip drop_zip zip_append)

lemma map_of_list_insert:
  "k \<notin> fst ` set xs \<Longrightarrow> map_of (list_insert pos (k, v) xs) = (map_of xs)(k \<mapsto> v)"
proof -
  assume "k \<notin> fst ` set xs"
  then have "map_of (take pos xs) k = None" by (auto simp: map_of_eq_None_iff dest: in_set_takeD)
  then have "map_of (list_insert pos (k, v) xs) = (map_of (take pos xs @ drop pos xs))(k \<mapsto> v)"
    by (auto simp: list_insert_def fun_eq_iff map_add_def split: option.splits simp del: append_take_drop_id)
  then show ?thesis by simp
qed

section \<open>Leading zeros and common prefixes\<close>

text \<open>\<^verbatim>\<open>__builtin_clzll\<close> on a nonzero word.\<close>

fun clz_from :: "nat \<Rightarrow> u64 \<Rightarrow> nat" where
  "clz_from 0 w = 0"
| "clz_from (Suc n) w = (if bit w n then 0 else Suc (clz_from n w))"

definition clz64 :: "u64 \<Rightarrow> nat" where
  "clz64 w = clz_from 64 w"

lemma clz_from_ge: "m \<le> n \<Longrightarrow> m \<le> clz_from n w \<longleftrightarrow> (\<forall>i. n - m \<le> i \<longrightarrow> i < n \<longrightarrow> \<not> bit w i)"
proof (induction n arbitrary: m)
  case (Suc n)
  show ?case
  proof (cases m)
    case m: (Suc m')
    show ?thesis
    proof (cases "bit w n")
      case False
      have "m' \<le> clz_from n w \<longleftrightarrow> (\<forall>i. n - m' \<le> i \<longrightarrow> i < n \<longrightarrow> \<not> bit w i)"
        using Suc m by simp
      then show ?thesis using False m by (auto simp: less_Suc_eq)
    next
      case True
      then show ?thesis using m by (auto intro!: exI [of _ n])
    qed
  qed simp
qed simp

lemma clz64_ge: "m \<le> 64 \<Longrightarrow> m \<le> clz64 w \<longleftrightarrow> (\<forall>i. 64 - m \<le> i \<longrightarrow> i < 64 \<longrightarrow> \<not> bit w i)"
  unfolding clz64_def by (rule clz_from_ge)

text \<open>Two keys agree on their first \<open>n\<close> bits.\<close>

definition agree :: "nat \<Rightarrow> u64 \<Rightarrow> u64 \<Rightarrow> bool" where
  "agree n x y \<longleftrightarrow> (\<forall>i. 64 - n \<le> i \<longrightarrow> i < 64 \<longrightarrow> bit x i = bit y i)"

lemma agree_refl [simp]: "agree n x x"
  by (simp add: agree_def)

lemma agree_0 [simp]: "agree 0 x y"
  by (simp add: agree_def)

lemma agree_sym: "agree n x y \<Longrightarrow> agree n y x"
  by (simp add: agree_def)

lemma agree_trans: "agree n x y \<Longrightarrow> agree n y z \<Longrightarrow> agree n x z"
  by (simp add: agree_def)

lemma agree_mono: "agree n x y \<Longrightarrow> m \<le> n \<Longrightarrow> agree m x y"
  by (auto simp: agree_def)

lemma agree_64: "agree 64 x y \<longleftrightarrow> x = y"
  by (auto simp: agree_def bit_eq_iff intro: bit_imp_possible_bit dest: bit_imp_possible_bit)

end
