(* ===== verification/ART_Node.thy ===== *)
theory ART_Node
  imports Radix_Base
begin

text \<open>
  The nodes of the adaptive radix tree (\<^verbatim>\<open>lib/trees/art\<close>: \<^verbatim>\<open>node.hpp\<close>, \<^verbatim>\<open>leaf.hpp\<close>, \<^verbatim>\<open>node4.hpp\<close>,
  \<^verbatim>\<open>node16.hpp\<close>, \<^verbatim>\<open>node48.hpp\<close>, \<^verbatim>\<open>node256.hpp\<close>, \<^verbatim>\<open>node_wrapper.hpp\<close>; prefix \<open>art_\<close>). One record stands for
  the five structs: \<open>an_keys\<close> are the four or sixteen key bytes, \<open>an_slts\<close> the 256 slot numbers of a
  \<^verbatim>\<open>node48\<close>, \<open>an_chs\<close> the initialised part of the child array (empty in a node whose children are copied
  at the next pipeline stage), \<open>an_val\<close> and \<open>an_fat\<close> the value of a leaf and its history.
\<close>

datatype art_type = NODE4 | NODE16 | NODE48 | NODE256 | ALEAF

record art_node =
  an_ver :: u64
  an_type :: art_type
  an_size :: nat
  an_ofs :: nat
  an_len :: nat
  an_pfx :: u64
  an_keys :: "u8 list"
  an_slts :: "u8 list"
  an_chs :: "addr list"
  an_val :: u64
  an_fat :: fat_value

type_synonym art_store = "art_node store"

text \<open>Byte \<open>pos\<close> of a key, most significant first; a position above 7 is a negative shift in the C++.\<close>

definition art_partial_key :: "u64 \<Rightarrow> nat \<Rightarrow> u8 option" where
  "art_partial_key key pos = (if pos \<le> 7 then Some (ucast (drop_bit (56 - 8 * pos) key)) else None)"

definition art_prefix_mask :: "nat \<Rightarrow> nat \<Rightarrow> u64" where
  "art_prefix_mask ofs len =
     (if len = 0 then 0 else push_bit (8 * (8 - len - ofs)) (drop_bit (8 * (8 - len)) (- 1)))"

definition art_prefix_match :: "art_node \<Rightarrow> u64 \<Rightarrow> nat" where
  "art_prefix_match t key =
     (if an_len t = 0 then 0
      else let d = push_bit (8 * an_ofs t) (key XOR an_pfx t)
           in if d = 0 then an_len t else clz64 d div 8)"

fun art_capacity :: "art_type \<Rightarrow> nat" where
  "art_capacity NODE4 = 4"
| "art_capacity NODE16 = 16"
| "art_capacity NODE48 = 48"
| "art_capacity NODE256 = 256"
| "art_capacity ALEAF = 0"

fun art_initial_size :: "art_type \<Rightarrow> nat" where
  "art_initial_size NODE4 = 2"
| "art_initial_size NODE16 = 4"
| "art_initial_size NODE48 = 16"
| "art_initial_size NODE256 = 48"
| "art_initial_size ALEAF = 1"

fun art_key_cells :: "art_type \<Rightarrow> nat" where
  "art_key_cells NODE4 = 4"
| "art_key_cells NODE16 = 16"
| "art_key_cells _ = 0"

definition art_new_node :: "u64 \<Rightarrow> art_type \<Rightarrow> nat \<Rightarrow> nat \<Rightarrow> u64 \<Rightarrow> art_node" where
  "art_new_node ver type ofs len key =
     \<lparr>an_ver = ver, an_type = type, an_size = art_initial_size type, an_ofs = ofs, an_len = len,
      an_pfx = (if type = ALEAF then key else key AND art_prefix_mask ofs len),
      an_keys = replicate (art_key_cells type) 0,
      an_slts = (if type = NODE48 then replicate 256 0 else []),
      an_chs = replicate (art_capacity type) nullptr, an_val = 0, an_fat = empty_fat\<rparr>"

text \<open>A copied leaf takes the value that its history has at the new version; inner nodes lack their children.\<close>

definition art_node_copy :: "art_node \<Rightarrow> u64 \<Rightarrow> art_node" where
  "art_node_copy t ver =
     (if an_type t = ALEAF
      then t\<lparr>an_val := fat_read (an_fat t) (an_val t) ver, an_fat := empty_fat, an_ver := ver\<rparr>
      else t\<lparr>an_chs := [], an_ver := ver\<rparr>)"

text \<open>The sizes of the five structs.\<close>

fun art_struct_size :: "art_type \<Rightarrow> nat" where
  "art_struct_size NODE4 = 64"
| "art_struct_size NODE16 = 192"
| "art_struct_size NODE48 = 704"
| "art_struct_size NODE256 = 2112"
| "art_struct_size ALEAF = 64"

definition art_node_size :: "art_node \<Rightarrow> nat" where
  "art_node_size t =
     art_struct_size (an_type t) + (if an_type t = ALEAF then fat_allocated_bytes (an_fat t) else 0)"

definition art_free_node :: "addr \<Rightarrow> art_store \<Rightarrow> art_store option" where
  "art_free_node a s = dealloc a s"

definition art_new_leaf :: "u64 \<Rightarrow> nat \<Rightarrow> u64 \<Rightarrow> u64 \<Rightarrow> art_node" where
  "art_new_leaf ver ofs key val = (art_new_node ver ALEAF ofs (8 - ofs) key)\<lparr>an_val := val\<rparr>"

definition art_leaf_update :: "u64 \<Rightarrow> art_node \<Rightarrow> u64 \<Rightarrow> art_node" where
  "art_leaf_update ver t val = (art_node_copy t ver)\<lparr>an_val := val\<rparr>"

section \<open>Node4 and Node16\<close>

definition node4_find :: "art_node \<Rightarrow> u8 \<Rightarrow> nat option" where
  "node4_find t k =
     (if an_keys t ! 0 = k then Some 0
      else if an_keys t ! 1 = k then Some 1
      else if an_size t = 2 then None
      else if an_keys t ! 2 = k then Some 2
      else if an_size t = 3 then None
      else if an_keys t ! 3 = k then Some 3
      else None)"

definition node4_findgt :: "art_node \<Rightarrow> u8 \<Rightarrow> nat" where
  "node4_findgt t k = find_gt (take (an_size t) (an_keys t)) k"

definition node4_append :: "art_node \<Rightarrow> u8 \<Rightarrow> (nat \<times> art_node) option" where
  "node4_append t k = do {
     let idx = node4_findgt t k;
     ks \<leftarrow> buf_insert 4 (an_keys t) (an_size t) idx k;
     Some (idx, t\<lparr>an_keys := ks, an_size := an_size t + 1\<rparr>) }"

definition node4_extend :: "art_node \<Rightarrow> u64 \<Rightarrow> art_node" where
  "node4_extend t ver =
     (let n = art_new_node ver NODE16 (an_ofs t) (an_len t) (an_pfx t)
      in n\<lparr>an_keys := take 4 (an_keys t) @ drop 4 (an_keys n)\<rparr>)"

definition node16_find_loop :: "art_node \<Rightarrow> u8 \<Rightarrow> nat option" where
  "node16_find_loop t k = find_key (take (an_size t) (an_keys t)) k"

text \<open>
  The SSE2 search: compare all sixteen bytes, gather one bit per byte, mask the bits of the live bytes and
  count the trailing zeros.
\<close>

fun movemask :: "u8 list \<Rightarrow> u8 \<Rightarrow> u32" where
  "movemask [] k = 0"
| "movemask (x # xs) k = of_bool (x = k) OR push_bit 1 (movemask xs k)"

fun ctz_from :: "nat \<Rightarrow> nat \<Rightarrow> u32 \<Rightarrow> nat" where
  "ctz_from 0 i w = i"
| "ctz_from (Suc n) i w = (if bit w i then i else ctz_from n (Suc i) w)"

definition node16_find :: "art_node \<Rightarrow> u8 \<Rightarrow> nat option" where
  "node16_find t k =
     (let bitfield = movemask (an_keys t) k AND NOT (push_bit (an_size t) (NOT 0))
      in if bitfield = 0 then None else Some (ctz_from 32 0 bitfield))"

definition node16_findgt :: "art_node \<Rightarrow> u8 \<Rightarrow> nat" where
  "node16_findgt t k = find_gt (take (an_size t) (an_keys t)) k"

definition node16_append :: "art_node \<Rightarrow> u8 \<Rightarrow> (nat \<times> art_node) option" where
  "node16_append t k = do {
     let idx = node16_findgt t k;
     ks \<leftarrow> buf_insert 16 (an_keys t) (an_size t) idx k;
     Some (idx, t\<lparr>an_keys := ks, an_size := an_size t + 1\<rparr>) }"

fun number_slots :: "u8 list \<Rightarrow> nat \<Rightarrow> u8 list \<Rightarrow> u8 list" where
  "number_slots [] i sl = sl"
| "number_slots (k # ks) i sl = number_slots ks (Suc i) (sl[unat k := of_nat i])"

definition node16_extend :: "art_node \<Rightarrow> u64 \<Rightarrow> art_node" where
  "node16_extend t ver =
     (art_new_node ver NODE48 (an_ofs t) (an_len t) (an_pfx t))
       \<lparr>an_slts := number_slots (take 16 (an_keys t)) 0 (replicate 256 (- 1))\<rparr>"

lemma bit_mask_cons:
  "bit (of_bool b OR push_bit 1 w :: u32) i \<longleftrightarrow> (case i of 0 \<Rightarrow> b | Suc j \<Rightarrow> j < 31 \<and> bit w j)"
  by (simp only: bit_or_iff bit_push_bit_iff bit_of_bool_iff) (auto split: nat.splits)

lemma bit_movemask: "length xs \<le> 32 \<Longrightarrow> bit (movemask xs k) i \<longleftrightarrow> i < length xs \<and> xs ! i = k"
proof (induction xs arbitrary: i)
  case (Cons x xs)
  have "length xs \<le> 32" using Cons.prems by simp
  then have IH: "bit (movemask xs k) j \<longleftrightarrow> j < length xs \<and> xs ! j = k" for j by (rule Cons.IH)
  show ?case
  proof (cases i)
    case (Suc j)
    then show ?thesis using Cons.prems unfolding movemask.simps bit_mask_cons by (auto simp: IH)
  qed (simp only: movemask.simps bit_mask_cons, simp)
qed simp

lemma ctz_from_first:
  "i + n \<le> 32 \<Longrightarrow> j < n \<Longrightarrow> bit w (i + j) \<Longrightarrow> (\<forall>l < j. \<not> bit w (i + l)) \<Longrightarrow> ctz_from n i w = i + j"
proof (induction n arbitrary: i j)
  case (Suc n)
  show ?case
  proof (cases j)
    case (Suc j')
    have "\<not> bit w i" using Suc.prems(4) Suc by auto
    moreover have "ctz_from n (Suc i) w = Suc i + j'"
      using Suc Suc.prems by (intro Suc.IH) (auto dest: spec [of _ "Suc _"])
    ultimately show ?thesis using Suc by simp
  qed (use Suc.prems in simp)
qed simp

lemma find_key_first:
  "find_key xs k = Some j \<longleftrightarrow> j < length xs \<and> xs ! j = k \<and> (\<forall>l < j. xs ! l \<noteq> k)"
proof (induction xs arbitrary: j)
  case (Cons x xs)
  then show ?case by (cases j) (auto simp: less_Suc_eq_0_disj)
qed simp

lemma node16_find_loop_eq_aux:
  assumes "length (an_keys t) = 16" "an_size t \<le> 16"
  shows "node16_find t k = node16_find_loop t k"
proof -
  let ?w = "movemask (an_keys t) k AND NOT (push_bit (an_size t) (NOT 0))"
  have bit: "bit ?w i \<longleftrightarrow> i < an_size t \<and> an_keys t ! i = k" for i
    using assms by (auto simp: bit_simps bit_movemask)
  show ?thesis
  proof (cases "node16_find_loop t k")
    case None
    then have "\<not> bit ?w i" for i
      using assms unfolding bit node16_find_loop_def by (auto simp: find_key_None in_set_conv_nth)
    then have "?w = 0" by (intro bit_eqI) simp
    with None show ?thesis by (simp add: node16_find_def)
  next
    case (Some j)
    then have j: "j < an_size t" "an_keys t ! j = k" "\<forall>l < j. an_keys t ! l \<noteq> k"
      using assms by (auto simp: node16_find_loop_def find_key_first)
    then have "bit ?w j" "\<forall>l < j. \<not> bit ?w l" unfolding bit by auto
    moreover have "?w \<noteq> 0" using \<open>bit ?w j\<close> by force
    moreover have "ctz_from 32 0 ?w = j" using ctz_from_first [of 0 32 j ?w] calculation j(1) assms(2) by simp
    ultimately show ?thesis unfolding Some node16_find_def Let_def by (simp only: if_False)
  qed
qed

text \<open>
  C17: the vectorised search of a \<^verbatim>\<open>node16\<close> (byte comparison, bit mask of the live lanes, trailing zeros)
  finds the same index as the portable loop over the live keys, whatever the unused lanes hold.
\<close>

theorem node16_find_loop_eq:
  assumes "length (an_keys t) = 16" "an_size t \<le> 16"
  shows "node16_find t k = node16_find_loop t k"
  using assms by (rule node16_find_loop_eq_aux)

theorem node16_find_loop_eq_witness:
  "let t = (art_new_node 0 NODE16 0 0 0)\<lparr>an_keys := [2, 3, 5, 7] @ replicate 12 9, an_size := 4\<rparr>
   in node16_find t 5 = Some 2 \<and> node16_find t 9 = None"
proof -
  let ?t = "(art_new_node 0 NODE16 0 0 0)\<lparr>an_keys := [2, 3, 5, 7] @ replicate 12 9, an_size := 4\<rparr>"
  have "node16_find ?t k = node16_find_loop ?t k" for k by (rule node16_find_loop_eq) simp_all
  then show ?thesis by (simp add: node16_find_loop_def)
qed

section \<open>Node48 and Node256\<close>

definition node48_slot :: "art_node \<Rightarrow> u8 \<Rightarrow> u8" where
  "node48_slot t k = an_slts t ! unat k"

definition node48_append :: "art_node \<Rightarrow> u8 \<Rightarrow> (nat \<times> art_node) option" where
  "node48_append t k =
     Some (unat k, t\<lparr>an_slts := (an_slts t)[unat k := of_nat (an_size t)], an_size := an_size t + 1\<rparr>)"

definition node48_extend :: "art_node \<Rightarrow> u64 \<Rightarrow> art_node" where
  "node48_extend t ver = art_new_node ver NODE256 (an_ofs t) (an_len t) (an_pfx t)"

text \<open>The loop of \<open>node48_copych_extend\<close> over all byte values: the first argument counts down.\<close>

fun spread_slots :: "nat \<Rightarrow> u8 list \<Rightarrow> addr list \<Rightarrow> addr list \<Rightarrow> addr list option" where
  "spread_slots 0 sl src dst = Some dst"
| "spread_slots (Suc n) sl src dst =
     (let k = 255 - n; i = sl ! k
      in if i \<noteq> - 1
         then do { c \<leftarrow> nth_opt src (unat i); dst' \<leftarrow> buf_write 256 dst k c; spread_slots n sl src dst' }
         else spread_slots n sl src dst)"

section \<open>Dispatch on the node type\<close>

definition art_find_idx :: "art_node \<Rightarrow> u8 \<Rightarrow> nat option" where
  "art_find_idx t k =
     (case an_type t of
        NODE4 \<Rightarrow> node4_find t k
      | NODE16 \<Rightarrow> node16_find t k
      | NODE48 \<Rightarrow> if node48_slot t k = - 1 then None else Some (unat k)
      | NODE256 \<Rightarrow> Some (unat k)
      | ALEAF \<Rightarrow> None)"

text \<open>The cell of the child array that \<open>getch\<close> returns the address of.\<close>

definition art_cell :: "art_node \<Rightarrow> nat \<Rightarrow> nat option" where
  "art_cell t idx =
     (case an_type t of
        ALEAF \<Rightarrow> None
      | NODE48 \<Rightarrow> map_option unat (nth_opt (an_slts t) idx)
      | _ \<Rightarrow> Some idx)"

definition art_getch :: "art_node \<Rightarrow> nat \<Rightarrow> addr option" where
  "art_getch t idx = do { i \<leftarrow> art_cell t idx; nth_opt (an_chs t) i }"

definition art_setch :: "art_node \<Rightarrow> nat \<Rightarrow> addr \<Rightarrow> art_node option" where
  "art_setch t idx ch = do {
     i \<leftarrow> art_cell t idx;
     chs \<leftarrow> buf_write (art_capacity (an_type t)) (an_chs t) i ch;
     Some (t\<lparr>an_chs := chs\<rparr>) }"

definition art_findch :: "art_node \<Rightarrow> u8 \<Rightarrow> addr option" where
  "art_findch t k =
     (case an_type t of
        NODE4 \<Rightarrow> (case node4_find t k of None \<Rightarrow> Some nullptr | Some i \<Rightarrow> nth_opt (an_chs t) i)
      | NODE16 \<Rightarrow> (case node16_find t k of None \<Rightarrow> Some nullptr | Some i \<Rightarrow> nth_opt (an_chs t) i)
      | NODE48 \<Rightarrow> if node48_slot t k = - 1 then Some nullptr else nth_opt (an_chs t) (unat (node48_slot t k))
      | NODE256 \<Rightarrow> nth_opt (an_chs t) (unat k)
      | ALEAF \<Rightarrow> Some nullptr)"

definition art_append :: "art_node \<Rightarrow> u8 \<Rightarrow> (nat \<times> art_node) option" where
  "art_append t k =
     (case an_type t of
        NODE4 \<Rightarrow> node4_append t k
      | NODE16 \<Rightarrow> node16_append t k
      | NODE48 \<Rightarrow> node48_append t k
      | NODE256 \<Rightarrow> Some (unat k, t)
      | ALEAF \<Rightarrow> Some (0, t))"

definition art_insertch :: "art_node \<Rightarrow> nat \<Rightarrow> addr \<Rightarrow> art_node option" where
  "art_insertch t idx ch =
     (case an_type t of
        NODE4 \<Rightarrow> do { chs \<leftarrow> buf_insert 4 (an_chs t) (an_size t - 1) idx ch; Some (t\<lparr>an_chs := chs\<rparr>) }
      | NODE16 \<Rightarrow> do { chs \<leftarrow> buf_insert 16 (an_chs t) (an_size t - 1) idx ch; Some (t\<lparr>an_chs := chs\<rparr>) }
      | NODE48 \<Rightarrow> art_setch t idx ch
      | NODE256 \<Rightarrow> art_setch t idx ch
      | ALEAF \<Rightarrow> Some t)"

definition art_is_full :: "art_node \<Rightarrow> bool" where
  "art_is_full t =
     (case an_type t of
        NODE4 \<Rightarrow> an_size t = 4
      | NODE16 \<Rightarrow> an_size t = 16
      | NODE48 \<Rightarrow> an_size t = 48
      | NODE256 \<Rightarrow> False
      | ALEAF \<Rightarrow> True)"

definition art_node_extend :: "art_node \<Rightarrow> u64 \<Rightarrow> art_node option" where
  "art_node_extend t ver =
     (case an_type t of
        NODE4 \<Rightarrow> Some (node4_extend t ver)
      | NODE16 \<Rightarrow> Some (node16_extend t ver)
      | NODE48 \<Rightarrow> Some (node48_extend t ver)
      | _ \<Rightarrow> None)"

text \<open>\<open>copych\<close> without an index copies all children between nodes of one type (a leaf has none).\<close>

definition art_copych :: "art_node \<Rightarrow> art_node \<Rightarrow> art_node option" where
  "art_copych n t =
     (case an_type n of
        ALEAF \<Rightarrow> Some n
      | NODE256 \<Rightarrow> do { chs \<leftarrow> buf_copy 256 (an_chs n) (an_chs t) 256; Some (n\<lparr>an_chs := chs\<rparr>) }
      | ty \<Rightarrow> do { chs \<leftarrow> buf_copy (art_capacity ty) (an_chs n) (an_chs t) (an_size t); Some (n\<lparr>an_chs := chs\<rparr>) })"

text \<open>With an index it leaves room for the new child, and \<open>n\<close> may be the next larger type.\<close>

definition art_copych_at :: "art_node \<Rightarrow> art_node \<Rightarrow> nat \<Rightarrow> art_node option" where
  "art_copych_at n t idx =
     (if an_type t = an_type n \<and> an_type n \<in> {NODE48, NODE256, ALEAF} then art_copych n t
      else case an_type t of
        NODE4 \<Rightarrow> do { chs \<leftarrow> buf_copy_insert (art_capacity (an_type n)) (an_chs n) (an_chs t) (an_size t) idx nullptr;
                     Some (n\<lparr>an_chs := chs\<rparr>) }
      | NODE16 \<Rightarrow>
          if an_type n = NODE16
          then do { chs \<leftarrow> buf_copy_insert 16 (an_chs n) (an_chs t) (an_size t) idx nullptr; Some (n\<lparr>an_chs := chs\<rparr>) }
          else do { chs \<leftarrow> buf_copy 48 (an_chs n) (an_chs t) (an_size t); Some (n\<lparr>an_chs := chs\<rparr>) }
      | NODE48 \<Rightarrow> do { chs \<leftarrow> spread_slots 256 (an_slts t) (an_chs t) (an_chs n); Some (n\<lparr>an_chs := chs\<rparr>) }
      | _ \<Rightarrow> Some n)"

end
