(* ===== verification/ART_Cow.thy ===== *)
theory ART_Cow
  imports ART_Node
begin

text \<open>
  Queries and updates of the adaptive radix tree: \<^verbatim>\<open>query.hpp\<close>, \<^verbatim>\<open>fat_lookup.hpp\<close>, \<^verbatim>\<open>update_cow.hpp\<close>,
  \<^verbatim>\<open>handlers.hpp\<close>, \<^verbatim>\<open>update_inplace.hpp\<close> and \<^verbatim>\<open>build.hpp\<close>. The loops of the lookups may run forever on a
  cyclic store, so they are partial functions; scans and in-place updates recurse with fuel (nine levels
  are enough for eight key bytes).
\<close>

section \<open>Lookup\<close>

text \<open>One step of the descent: stop at a leaf, at a mismatch, or go to the child.\<close>

datatype art_step = ART_MISS | ART_LEAF | ART_CHILD addr

definition art_step_at :: "art_node \<Rightarrow> u64 \<Rightarrow> art_step option" where
  "art_step_at t key =
     (if an_len t > art_prefix_match t key then Some ART_MISS
      else if an_type t = ALEAF then Some ART_LEAF
      else do {
        k \<leftarrow> art_partial_key key (an_ofs t + an_len t);
        c \<leftarrow> art_findch t k;
        Some (ART_CHILD c) })"

partial_function (option) art_leaf_for :: "art_store \<Rightarrow> addr \<Rightarrow> u64 \<Rightarrow> addr option" where
  "art_leaf_for s a key =
     (if a = nullptr then Some nullptr
      else do {
        t \<leftarrow> cells s a;
        st \<leftarrow> art_step_at t key;
        (case st of ART_MISS \<Rightarrow> Some nullptr | ART_LEAF \<Rightarrow> Some a | ART_CHILD c \<Rightarrow> art_leaf_for s c key) })"

declare art_leaf_for.simps [code]

partial_function (option) art_find :: "art_store \<Rightarrow> addr \<Rightarrow> u64 \<Rightarrow> u64 \<Rightarrow> u64 option option" where
  "art_find s a key version =
     (if a = nullptr then Some None
      else do {
        t \<leftarrow> cells s a;
        st \<leftarrow> art_step_at t key;
        (case st of
           ART_MISS \<Rightarrow> Some None
         | ART_LEAF \<Rightarrow> Some (Some (fat_read (an_fat t) (an_val t) version))
         | ART_CHILD c \<Rightarrow> art_find s c key version) })"

declare art_find.simps [code]

section \<open>Scans\<close>

text \<open>The children that the scan loop of a node visits, from the first byte above \<open>pkey\<close>.\<close>

definition art_scan_list :: "art_node \<Rightarrow> u8 option \<Rightarrow> addr list option" where
  "art_scan_list t pkey =
     (let from = (case pkey of None \<Rightarrow> 0 | Some k \<Rightarrow> unat k + 1)
      in case an_type t of
        NODE4 \<Rightarrow>
          if an_size t \<le> length (an_chs t)
          then Some (drop (case pkey of None \<Rightarrow> 0 | Some k \<Rightarrow> node4_findgt t k) (take (an_size t) (an_chs t))) else None
      | NODE16 \<Rightarrow>
          if an_size t \<le> length (an_chs t)
          then Some (drop (case pkey of None \<Rightarrow> 0 | Some k \<Rightarrow> node16_findgt t k) (take (an_size t) (an_chs t))) else None
      | NODE48 \<Rightarrow> those (map (\<lambda>i. nth_opt (an_chs t) (unat (an_slts t ! i)))
                     (filter (\<lambda>i. an_slts t ! i \<noteq> - 1) [from..<256]))
      | NODE256 \<Rightarrow> map_option (filter (\<lambda>c. c \<noteq> nullptr)) (those (map (nth_opt (an_chs t)) [from..<256]))
      | ALEAF \<Rightarrow> Some [])"

fun art_scan_append ::
    "nat \<Rightarrow> art_store \<Rightarrow> addr \<Rightarrow> u8 option \<Rightarrow> nat \<Rightarrow> u64 \<Rightarrow> (u64 \<times> u64) list \<Rightarrow> (u64 \<times> u64) list option"
  and art_scan_children ::
    "nat \<Rightarrow> art_store \<Rightarrow> addr list \<Rightarrow> nat \<Rightarrow> u64 \<Rightarrow> (u64 \<times> u64) list \<Rightarrow> (u64 \<times> u64) list option" where
  "art_scan_append 0 s a pkey n version ret = None"
| "art_scan_append (Suc f) s a pkey n version ret =
     (case cells s a of
        None \<Rightarrow> None
      | Some t \<Rightarrow>
          if an_type t = ALEAF
          then Some (ret @ [(an_pfx t, fat_read (an_fat t) (an_val t) version)])
          else (case art_scan_list t pkey of
                  None \<Rightarrow> None | Some cs \<Rightarrow> art_scan_children f s cs n version ret))"
| "art_scan_children f s [] n version ret = Some ret"
| "art_scan_children f s (c # cs) n version ret =
     (if length ret < n
      then (case art_scan_append f s c None n version ret of
              None \<Rightarrow> None | Some ret' \<Rightarrow> art_scan_children f s cs n version ret')
      else Some ret)"

fun art_scan_search ::
    "nat \<Rightarrow> art_store \<Rightarrow> addr \<Rightarrow> u64 \<Rightarrow> nat \<Rightarrow> u64 \<Rightarrow> (u64 \<times> u64) list \<Rightarrow> (u64 \<times> u64) list option" where
  "art_scan_search 0 s a key n version ret = (if a = nullptr then Some ret else None)"
| "art_scan_search (Suc f) s a key n version ret =
     (if a = nullptr then Some ret
      else do {
        t \<leftarrow> cells s a;
        let pmlen = art_prefix_match t key;
        if an_len t > pmlen then do {
          tk \<leftarrow> art_partial_key (an_pfx t) (an_ofs t + pmlen);
          k \<leftarrow> art_partial_key key (an_ofs t + pmlen);
          if tk < k then Some ret else art_scan_append (Suc f) s a None n version ret }
        else if an_type t = ALEAF
        then Some (ret @ [(an_pfx t, fat_read (an_fat t) (an_val t) version)])
        else do {
          k \<leftarrow> art_partial_key key (an_ofs t + an_len t);
          c \<leftarrow> art_findch t k;
          ret' \<leftarrow> art_scan_search f s c key n version ret;
          art_scan_append (Suc f) s a (Some k) n version ret' } })"

definition art_scan :: "nat \<Rightarrow> art_store \<Rightarrow> addr \<Rightarrow> u64 \<Rightarrow> nat \<Rightarrow> u64 \<Rightarrow> (u64 \<times> u64) list option" where
  "art_scan fuel s a key n version = art_scan_search fuel s a key n version []"

section \<open>The path-copying update\<close>

definition ART_SEARCH :: nat where "ART_SEARCH = 1"
definition ART_INSERT :: nat where "ART_INSERT = 2"
definition ART_FORK :: nat where "ART_FORK = 3"

record art_ctx = ctx +
  c_key_ofs :: nat
  c_ch_idx :: nat

text \<open>Shortening the prefix of a node that moves below a new parent, used by both forks.\<close>

definition art_cut_prefix :: "nat \<Rightarrow> art_node \<Rightarrow> art_node" where
  "art_cut_prefix pmlen t =
     (let ofs = an_ofs t + pmlen + 1; len = an_len t - (pmlen + 1)
      in t\<lparr>an_ofs := ofs, an_len := len,
           an_pfx := (if an_type t = ALEAF then an_pfx t else an_pfx t AND art_prefix_mask ofs len)\<rparr>)"

definition art_node_fork_cow :: "art_ctx \<Rightarrow> art_node \<Rightarrow> nat \<Rightarrow> art_store \<Rightarrow> (addr \<times> art_ctx \<times> art_store) option" where
  "art_node_fork_cow c past pmlen s = do {
     let par = art_new_node (ucast (c_sno c)) NODE4 (c_key_ofs c) pmlen (c_key c);
     let (pa, s1) = alloc par s;
     let (ca, s2) = alloc (art_cut_prefix pmlen (art_node_copy past (ucast (c_sno c)))) s1;
     pk0 \<leftarrow> art_partial_key (an_pfx past) (an_ofs past + pmlen);
     let ofs = c_key_ofs c + pmlen;
     pk1 \<leftarrow> art_partial_key (c_key c) ofs;
     let idx = (if pk0 > pk1 then 1 else 0);
     let (la, s3) = alloc (art_new_leaf (ucast (c_sno c)) (ofs + 1) (c_key c) (c_val c)) s2;
     s4 \<leftarrow> put pa (par\<lparr>an_keys := ((an_keys par)[idx := pk0])[1 - idx := pk1],
                       an_chs := ((an_chs par)[idx := ca])[1 - idx := la]\<rparr>) s3;
     Some (pa, c\<lparr>c_key_ofs := ofs, c_ch_idx := idx\<rparr>, s4) }"

text \<open>
  \<open>update_cow\<close> returns the pointer it stores through its argument \<^verbatim>\<open>tp\<close>; the caller stores it in the root
  or in a child cell.
\<close>

definition art_update_cow :: "art_ctx \<Rightarrow> art_store \<Rightarrow> (nat \<times> addr \<times> art_ctx \<times> art_store) option" where
  "art_update_cow c s =
     (let pa = c_t_past c; ver = ucast (c_sno c) in
      if pa = nullptr
      then let (a, s1) = alloc (art_new_leaf ver (c_key_ofs c) (c_key c) (c_val c)) s in Some (OP_DONE, a, c, s1)
      else do {
        past \<leftarrow> cells s pa;
        let pmlen = art_prefix_match past (c_key c);
        if pmlen < an_len past then do {
          (a, c1, s1) \<leftarrow> art_node_fork_cow c past pmlen s;
          Some (ART_FORK, a, retire_replaced pa c1, s1) }
        else if an_type past = ALEAF
        then let (a, s1) = alloc (art_leaf_update ver past (c_val c)) s
             in Some (OP_DONE, a, retire_replaced pa c, s1)
        else do {
          k \<leftarrow> art_partial_key (c_key c) (c_key_ofs c + an_len past);
          let c1 = c\<lparr>c_key_ofs := c_key_ofs c + an_len past + 1\<rparr>;
          (case art_find_idx past k of
             Some i \<Rightarrow>
               let (a, s1) = alloc (art_node_copy past ver) s
               in Some (ART_SEARCH, a, retire_replaced pa (c1\<lparr>c_ch_idx := i\<rparr>), s1)
           | None \<Rightarrow> do {
               n \<leftarrow> (if art_is_full past then art_node_extend past ver else Some (art_node_copy past ver));
               (i, n') \<leftarrow> art_append n k;
               let (a, s1) = alloc n' s;
               Some (ART_INSERT, a, retire_replaced pa (c1\<lparr>c_ch_idx := i\<rparr>), s1) }) } })"

definition art_cow_begin :: "art_ctx \<Rightarrow> art_store \<Rightarrow> (nat \<times> art_ctx \<times> art_store) option" where
  "art_cow_begin c s = do {
     (op, a, c1, s1) \<leftarrow> art_update_cow (c\<lparr>c_key_ofs := 0\<rparr>) s;
     Some (op, c1\<lparr>c_root := a, c_t_cur := a\<rparr>, s1) }"

definition art_handle_init :: "art_ctx \<Rightarrow> art_store \<Rightarrow> (nat \<times> art_ctx \<times> art_store) option" where
  "art_handle_init c s =
     (if c_fat_slots c \<noteq> 0 then do {
        l \<leftarrow> art_leaf_for s (c_t_past c) (c_key c);
        if l = nullptr then art_cow_begin c s
        else do {
          t \<leftarrow> cells s l;
          (case fat_append (c_fat_slots c) (c_sno c) (c_val c) (an_fat t) of
             Some v \<Rightarrow> do { s1 \<leftarrow> put l (t\<lparr>an_fat := v\<rparr>) s; Some (OP_DONE, c\<lparr>c_root := c_t_past c\<rparr>, s1) }
           | None \<Rightarrow> art_cow_begin c s) } }
      else art_cow_begin c s)"

definition art_handle_search :: "art_ctx \<Rightarrow> art_store \<Rightarrow> (nat \<times> art_ctx \<times> art_store) option" where
  "art_handle_search c s = do {
     let ca = c_t_cur c;
     cur \<leftarrow> cells s ca;
     past \<leftarrow> cells s (c_t_past c);
     cur' \<leftarrow> art_copych cur past;
     s1 \<leftarrow> put ca cur' s;
     next \<leftarrow> art_getch past (c_ch_idx c);
     (op, a, c1, s2) \<leftarrow> art_update_cow (c\<lparr>c_t_past := next\<rparr>) s1;
     cur'' \<leftarrow> art_setch cur' (c_ch_idx c) a;
     s3 \<leftarrow> put ca cur'' s2;
     Some (op, c1\<lparr>c_t_cur := a\<rparr>, s3) }"

definition art_handle_insert :: "art_ctx \<Rightarrow> art_store \<Rightarrow> (nat \<times> art_ctx \<times> art_store) option" where
  "art_handle_insert c s = do {
     cur \<leftarrow> cells s (c_t_cur c);
     past \<leftarrow> cells s (c_t_past c);
     cur' \<leftarrow> art_copych_at cur past (c_ch_idx c);
     let (a, s1) = alloc (art_new_leaf (ucast (c_sno c)) (c_key_ofs c) (c_key c) (c_val c)) s;
     cur'' \<leftarrow> art_setch cur' (c_ch_idx c) a;
     s2 \<leftarrow> put (c_t_cur c) cur'' s1;
     Some (OP_DONE, c, s2) }"

definition art_handle_fork :: "art_ctx \<Rightarrow> art_store \<Rightarrow> (nat \<times> art_ctx \<times> art_store) option" where
  "art_handle_fork c s = do {
     par \<leftarrow> cells s (c_t_cur c);
     ca \<leftarrow> nth_opt (an_chs par) (c_ch_idx c);
     cur \<leftarrow> cells s ca;
     past \<leftarrow> cells s (c_t_past c);
     cur' \<leftarrow> art_copych cur past;
     s1 \<leftarrow> put ca cur' s;
     Some (OP_DONE, c\<lparr>c_t_cur := ca\<rparr>, s1) }"

definition art_table :: "(art_ctx, art_store) handler_table" where
  "art_table =
     [Some art_handle_init, Some art_handle_search, Some art_handle_insert,
      Some art_handle_fork,
      None, None, None, None, None, None, None, None, None, None, None, None]"

definition art_handlers :: "nat \<Rightarrow> art_ctx \<Rightarrow> art_store \<Rightarrow> (nat \<times> art_ctx \<times> art_store) option" where
  "art_handlers = call_handler art_table"

lemma art_handlers_eq:
  "art_handlers op =
     (if op = OP_INIT then art_handle_init
      else if op = ART_SEARCH then art_handle_search
      else if op = ART_INSERT then art_handle_insert
      else if op = ART_FORK then art_handle_fork
      else (\<lambda>c s. None))"
proof (cases "op < 16")
  case True
  then have "op \<in> set [0..<16]" by simp
  then show ?thesis
    unfolding art_handlers_def art_table_def call_handler_def
    by (auto simp: upt_rec OP_INIT_def ART_SEARCH_def ART_INSERT_def ART_FORK_def)
qed (simp add: art_handlers_def art_table_def OP_INIT_def ART_SEARCH_def ART_INSERT_def ART_FORK_def)

definition art_exec :: "art_ctx \<Rightarrow> art_store \<Rightarrow> (art_ctx \<times> art_store) option" where
  "art_exec c s = do {
     (op, c1, s1) \<leftarrow> art_handlers OP_INIT c s;
     run_handlers art_handlers op c1 s1 }"

text \<open>\<open>pipeline_fat_begin\<close> of the adapter probes the leaf history only when it may append.\<close>

definition art_pipeline_fat_begin :: "bool \<Rightarrow> art_ctx \<Rightarrow> art_store \<Rightarrow> (nat \<times> art_ctx \<times> art_store) option" where
  "art_pipeline_fat_begin can_append c s = (if can_append then art_handle_init c s else art_cow_begin c s)"

section \<open>The in-place update and the bulk build\<close>

definition art_node_fork_inplace ::
    "addr \<Rightarrow> nat \<Rightarrow> nat \<Rightarrow> u64 \<Rightarrow> u64 \<Rightarrow> art_store \<Rightarrow> (addr \<times> art_store) option" where
  "art_node_fork_inplace a ofs pmlen key val s = do {
     t \<leftarrow> cells s a;
     let par = art_new_node 0 NODE4 ofs pmlen key;
     let (pa, s1) = alloc par s;
     pk0 \<leftarrow> art_partial_key (an_pfx t) (an_ofs t + pmlen);
     s2 \<leftarrow> put a (art_cut_prefix pmlen t) s1;
     pk1 \<leftarrow> art_partial_key key (ofs + pmlen);
     let idx = (if pk0 > pk1 then 1 else 0);
     let (la, s3) = alloc (art_new_leaf 0 (ofs + pmlen + 1) key val) s2;
     s4 \<leftarrow> put pa (par\<lparr>an_keys := ((an_keys par)[idx := pk0])[1 - idx := pk1],
                       an_chs := ((an_chs par)[idx := a])[1 - idx := la]\<rparr>) s3;
     Some (pa, s4) }"

fun art_update_inplace ::
    "nat \<Rightarrow> addr \<Rightarrow> nat \<Rightarrow> u64 \<Rightarrow> u64 \<Rightarrow> art_store \<Rightarrow> (addr \<times> art_store) option" where
  "art_update_inplace 0 a ofs key val s = None"
| "art_update_inplace (Suc f) a ofs key val s =
     (if a = nullptr then Some (alloc (art_new_leaf 0 ofs key val) s)
      else case cells s a of
        None \<Rightarrow> None
      | Some t \<Rightarrow>
          if art_prefix_match t key < an_len t
          then art_node_fork_inplace a ofs (art_prefix_match t key) key val s
          else if an_type t = ALEAF
          then (case put a (t\<lparr>an_val := val\<rparr>) s of None \<Rightarrow> None | Some s1 \<Rightarrow> Some (a, s1))
          else (case art_partial_key key (ofs + an_len t) of
              None \<Rightarrow> None
            | Some k \<Rightarrow>
                (case art_find_idx t k of
                   Some i \<Rightarrow>
                     (case art_getch t i of
                        None \<Rightarrow> None
                      | Some ch \<Rightarrow>
                          (case art_update_inplace f ch (ofs + an_len t + 1) key val s of
                             None \<Rightarrow> None
                           | Some (ch', s1) \<Rightarrow> do {
                               t' \<leftarrow> cells s1 a;
                               t'' \<leftarrow> art_setch t' i ch';
                               s2 \<leftarrow> put a t'' s1;
                               Some (a, s2) }))
                 | None \<Rightarrow>
                     if art_is_full t then do {
                       n \<leftarrow> art_node_extend t 0;
                       (i, n1) \<leftarrow> art_append n k;
                       n2 \<leftarrow> art_copych_at n1 t i;
                       let (la, s1) = alloc (art_new_leaf 0 (ofs + an_len t + 1) key val) s;
                       n3 \<leftarrow> art_setch n2 i la;
                       let (na, s2) = alloc n3 s1;
                       s3 \<leftarrow> art_free_node a s2;
                       Some (na, s3) }
                     else do {
                       (i, n1) \<leftarrow> art_append t k;
                       let (la, s1) = alloc (art_new_leaf 0 (ofs + an_len t + 1) key val) s;
                       n2 \<leftarrow> art_insertch n1 i la;
                       s2 \<leftarrow> put a n2 s1;
                       Some (a, s2) })))"

fun art_build :: "(u64 \<times> u64) list \<Rightarrow> addr \<Rightarrow> art_store \<Rightarrow> (addr \<times> art_store) option" where
  "art_build [] t s = Some (t, s)"
| "art_build ((k, v) # es) t s = do {
     (t', s') \<leftarrow> art_update_inplace 9 t 0 k v s;
     art_build es t' s' }"

end
