(* ===== verification/AERT_Node.thy ===== *)
theory AERT_Node
  imports Radix_Base
begin

text \<open>
  The nodes of the adaptive radix tree with embedded pointer keys (\<^verbatim>\<open>lib/trees/aert\<close>: \<^verbatim>\<open>node.hpp\<close>,
  \<^verbatim>\<open>leaf.hpp\<close>, \<^verbatim>\<open>node4.hpp\<close>, \<^verbatim>\<open>node16.hpp\<close>, \<^verbatim>\<open>nodeh4.hpp\<close>, \<^verbatim>\<open>nodeh16.hpp\<close>, \<^verbatim>\<open>node_wrapper.hpp\<close>; prefix
  \<open>aert_\<close>). Offsets and lengths are in bits.

  A pointer is a number: the object with store address \<open>a\<close> is at \<open>32 * a\<close> (nodes are aligned) and the low
  five bits are the tag, sixteen plus a four-bit key when the edge embeds one. Loading or storing through
  a pointer with a tag, a misaligned access in the C++, fails.
\<close>

datatype aert_type = ENODE4 | ENODE16 | ENODEH4 | ENODEH16 | ELEAF

record aert_node =
  en_ver :: u64
  en_type :: aert_type
  en_size :: nat
  en_ofs :: nat
  en_len :: nat
  en_pfx :: u64
  en_keys :: "u8 list"
  en_chs :: "addr list"
  en_val :: u64
  en_fat :: fat_value

type_synonym aert_store = "aert_node store"

definition aert_ld :: "aert_store \<Rightarrow> addr \<Rightarrow> aert_node option" where
  "aert_ld s p = (if p mod 32 = 0 then cells s (p div 32) else None)"

definition aert_st :: "addr \<Rightarrow> aert_node \<Rightarrow> aert_store \<Rightarrow> aert_store option" where
  "aert_st p t s = (if p mod 32 = 0 then put (p div 32) t s else None)"

definition aert_alloc :: "aert_node \<Rightarrow> aert_store \<Rightarrow> addr \<times> aert_store" where
  "aert_alloc t s = (let (a, s') = alloc t s in (32 * a, s'))"

definition extract_ptr :: "addr \<Rightarrow> addr" where
  "extract_ptr p = 32 * (p div 32)"

definition unembed_ptr :: "addr \<Rightarrow> addr \<times> nat" where
  "unembed_ptr p = (extract_ptr p, p mod 32)"

definition embed_ptr :: "addr \<Rightarrow> nat \<Rightarrow> addr" where
  "embed_ptr p ptr_key = p OR (ptr_key mod 32)"

definition embedded :: "nat \<Rightarrow> bool" where
  "embedded tag \<longleftrightarrow> tag AND 16 \<noteq> 0"

text \<open>Bits \<open>pos\<close> to \<open>pos + len - 1\<close> of a key; past the end it is a negative shift in the C++.\<close>

definition aert_partial_key :: "u64 \<Rightarrow> nat \<Rightarrow> nat \<Rightarrow> u8 option" where
  "aert_partial_key key pos len =
     (if len + pos \<le> 64 then Some (ucast (drop_bit (64 - len - pos) key) AND drop_bit (8 - len) 0xff) else None)"

definition aert_prefix_mask :: "nat \<Rightarrow> nat \<Rightarrow> u64" where
  "aert_prefix_mask ofs len =
     (if len = 0 then 0 else push_bit (64 - len - ofs) (drop_bit (64 - len) (- 1)))"

definition aert_prefix_match :: "aert_node \<Rightarrow> u64 \<Rightarrow> nat" where
  "aert_prefix_match t key =
     (if en_len t = 0 then 0
      else let d = push_bit (en_ofs t) ((key XOR en_pfx t) AND aert_prefix_mask (en_ofs t) (en_len t))
           in if d = 0 then en_len t else clz64 d AND 0xfc)"

text \<open>Whether the embedded four bits, those before bit \<open>ofs\<close>, match: the result is 4 when they do.\<close>

definition ptr_pfx_match :: "nat \<Rightarrow> nat \<Rightarrow> u64 \<Rightarrow> nat" where
  "ptr_pfx_match ppfx ofs key =
     (let mask = push_bit (64 - ofs) (of_nat ppfx AND 0x0f);
          d = push_bit (ofs - 4) (key XOR mask) OR push_bit 59 1
      in clz64 d)"

fun node_key_len :: "aert_type \<Rightarrow> nat" where
  "node_key_len ENODE4 = 8"
| "node_key_len ENODE16 = 8"
| "node_key_len ENODEH4 = 4"
| "node_key_len ENODEH16 = 4"
| "node_key_len ELEAF = 4"

fun aert_capacity :: "aert_type \<Rightarrow> nat" where
  "aert_capacity ENODE4 = 4"
| "aert_capacity ENODE16 = 16"
| "aert_capacity ENODEH4 = 4"
| "aert_capacity ENODEH16 = 16"
| "aert_capacity ELEAF = 0"

fun aert_initial_size :: "aert_type \<Rightarrow> nat" where
  "aert_initial_size ENODE4 = 2"
| "aert_initial_size ENODE16 = 4"
| "aert_initial_size ENODEH4 = 2"
| "aert_initial_size ENODEH16 = 0"
| "aert_initial_size ELEAF = 1"

fun aert_key_cells :: "aert_type \<Rightarrow> nat" where
  "aert_key_cells ENODE4 = 4"
| "aert_key_cells ENODE16 = 16"
| "aert_key_cells ENODEH4 = 4"
| "aert_key_cells _ = 0"

definition aert_new_node :: "u64 \<Rightarrow> aert_type \<Rightarrow> nat \<Rightarrow> nat \<Rightarrow> u64 \<Rightarrow> aert_node" where
  "aert_new_node ver type ofs len key =
     \<lparr>en_ver = ver, en_type = type, en_size = aert_initial_size type, en_ofs = ofs, en_len = len,
      en_pfx = (if type = ELEAF then key else key AND aert_prefix_mask ofs len),
      en_keys = replicate (aert_key_cells type) 0, en_chs = replicate (aert_capacity type) nullptr,
      en_val = 0, en_fat = empty_fat\<rparr>"

definition aert_new_nodeh :: "u64 \<Rightarrow> nat \<Rightarrow> nat \<Rightarrow> nat \<Rightarrow> u64 \<Rightarrow> aert_node" where
  "aert_new_nodeh ver sz ofs len key =
     (aert_new_node ver (if sz > 4 then ENODEH16 else ENODEH4) ofs len key)\<lparr>en_size := 0\<rparr>"

definition aert_node_copy :: "aert_node \<Rightarrow> u64 \<Rightarrow> aert_node" where
  "aert_node_copy t ver =
     (if en_type t = ELEAF
      then t\<lparr>en_val := fat_read (en_fat t) (en_val t) ver, en_fat := empty_fat, en_ver := ver\<rparr>
      else t\<lparr>en_chs := [], en_ver := ver\<rparr>)"

fun aert_struct_size :: "aert_type \<Rightarrow> nat" where
  "aert_struct_size ENODE4 = 64"
| "aert_struct_size ENODE16 = 192"
| "aert_struct_size ENODEH4 = 64"
| "aert_struct_size ENODEH16 = 192"
| "aert_struct_size ELEAF = 64"

definition aert_node_size :: "aert_store \<Rightarrow> addr \<Rightarrow> nat option" where
  "aert_node_size s tagged = do {
     t \<leftarrow> aert_ld s (extract_ptr tagged);
     Some (aert_struct_size (en_type t) + (if en_type t = ELEAF then fat_allocated_bytes (en_fat t) else 0)) }"

definition aert_free_node :: "addr \<Rightarrow> aert_store \<Rightarrow> aert_store option" where
  "aert_free_node tagged s = dealloc (tagged div 32) s"

text \<open>
  \<open>new_leaf\<close>: at an offset in the middle of a byte the leaf starts at the next byte and its pointer embeds
  the four bits between.
\<close>

definition aert_new_leaf :: "u64 \<Rightarrow> nat \<Rightarrow> u64 \<Rightarrow> u64 \<Rightarrow> aert_store \<Rightarrow> (addr \<times> aert_store) option" where
  "aert_new_leaf ver ofs key val s =
     (if ofs mod 8 = 4 then do {
        let (p, s1) = aert_alloc ((aert_new_node ver ELEAF (ofs + 4) (60 - ofs) key)\<lparr>en_val := val\<rparr>) s;
        k \<leftarrow> aert_partial_key key ofs 4;
        Some (embed_ptr p (unat k OR 16), s1) }
      else Some (aert_alloc ((aert_new_node ver ELEAF ofs (64 - ofs) key)\<lparr>en_val := val\<rparr>) s))"

definition aert_leaf_update :: "u64 \<Rightarrow> aert_node \<Rightarrow> u64 \<Rightarrow> aert_node" where
  "aert_leaf_update ver t val = (aert_node_copy t ver)\<lparr>en_val := val\<rparr>"

section \<open>The node types\<close>

text \<open>The searches return the index plus one, 0 when the key is absent.\<close>

definition aert_find4 :: "aert_node \<Rightarrow> u8 \<Rightarrow> nat" where
  "aert_find4 t k =
     (if en_keys t ! 0 = k then 1
      else if en_keys t ! 1 = k then 2
      else if en_size t = 2 then 0
      else if en_keys t ! 2 = k then 3
      else if en_size t = 3 then 0
      else if en_keys t ! 3 = k then 4
      else 0)"

definition aert_find16 :: "aert_node \<Rightarrow> u8 \<Rightarrow> nat" where
  "aert_find16 t k = (case find_key (take (en_size t) (en_keys t)) k of None \<Rightarrow> 0 | Some i \<Rightarrow> i + 1)"

definition aert_findgt :: "aert_node \<Rightarrow> u8 \<Rightarrow> nat" where
  "aert_findgt t k = find_gt (take (en_size t) (en_keys t)) k"

definition aert_findidx :: "aert_node \<Rightarrow> u8 \<Rightarrow> nat" where
  "aert_findidx t k =
     (case en_type t of
        ENODE4 \<Rightarrow> aert_find4 t k
      | ENODE16 \<Rightarrow> aert_find16 t k
      | ENODEH4 \<Rightarrow> aert_find4 t k
      | ENODEH16 \<Rightarrow> unat k + 1
      | ELEAF \<Rightarrow> 0)"

definition aert_getch :: "aert_node \<Rightarrow> nat \<Rightarrow> addr option" where
  "aert_getch t idx = (if en_type t = ELEAF then None else nth_opt (en_chs t) idx)"

definition aert_setch :: "aert_node \<Rightarrow> nat \<Rightarrow> addr \<Rightarrow> aert_node option" where
  "aert_setch t idx ch =
     (if en_type t = ELEAF then None
      else do { chs \<leftarrow> buf_write (aert_capacity (en_type t)) (en_chs t) idx ch; Some (t\<lparr>en_chs := chs\<rparr>) })"

definition aert_findch :: "aert_node \<Rightarrow> u8 \<Rightarrow> addr option" where
  "aert_findch t k =
     (case en_type t of
        ENODEH16 \<Rightarrow> nth_opt (en_chs t) (unat k)
      | ELEAF \<Rightarrow> Some nullptr
      | _ \<Rightarrow> (let i = aert_findidx t k in if i = 0 then Some nullptr else nth_opt (en_chs t) (i - 1)))"

definition aert_append :: "aert_node \<Rightarrow> u8 \<Rightarrow> (nat \<times> aert_node) option" where
  "aert_append t k =
     (case en_type t of
        ENODEH16 \<Rightarrow> Some (unat k, t)
      | ELEAF \<Rightarrow> Some (0, t)
      | ty \<Rightarrow> do {
          let idx = aert_findgt t k;
          ks \<leftarrow> buf_insert (aert_capacity ty) (en_keys t) (en_size t) idx k;
          Some (idx, t\<lparr>en_keys := ks, en_size := en_size t + 1\<rparr>) })"

text \<open>A copy of the node with room for one more key; its children are copied at the next stage.\<close>

definition aert_copy_append :: "aert_node \<Rightarrow> u64 \<Rightarrow> u8 \<Rightarrow> (nat \<times> aert_node) option" where
  "aert_copy_append t ver k =
     (case en_type t of
        ENODEH16 \<Rightarrow> Some (unat k, aert_node_copy t ver)
      | ELEAF \<Rightarrow> None
      | ty \<Rightarrow> do {
          let idx = aert_findgt t k;
          ks \<leftarrow> buf_copy_insert (aert_capacity ty) [] (en_keys t) (en_size t) idx k;
          Some (idx, t\<lparr>en_ver := ver, en_size := en_size t + 1, en_keys := ks, en_chs := []\<rparr>) })"

definition aert_insertch :: "aert_node \<Rightarrow> nat \<Rightarrow> addr \<Rightarrow> aert_node option" where
  "aert_insertch t idx ch =
     (case en_type t of
        ENODEH16 \<Rightarrow> aert_setch t idx ch
      | ELEAF \<Rightarrow> Some t
      | ty \<Rightarrow> do { chs \<leftarrow> buf_insert (aert_capacity ty) (en_chs t) (en_size t - 1) idx ch; Some (t\<lparr>en_chs := chs\<rparr>) })"

definition aert_is_full :: "aert_node \<Rightarrow> bool" where
  "aert_is_full t =
     (case en_type t of
        ENODE4 \<Rightarrow> en_size t = 4
      | ENODE16 \<Rightarrow> en_size t = 16
      | ENODEH4 \<Rightarrow> en_size t = 4
      | ENODEH16 \<Rightarrow> False
      | ELEAF \<Rightarrow> True)"

text \<open>\<open>extend_append\<close>: a full \<^verbatim>\<open>node4\<close> becomes a \<^verbatim>\<open>node16\<close>, a full \<^verbatim>\<open>nodeh4\<close> a \<^verbatim>\<open>nodeh16\<close>.\<close>

definition aert_extend_append :: "aert_node \<Rightarrow> u64 \<Rightarrow> u8 \<Rightarrow> (nat \<times> aert_node) option" where
  "aert_extend_append t ver k =
     (case en_type t of
        ENODE4 \<Rightarrow> do {
          let n = aert_new_node ver ENODE16 (en_ofs t) (en_len t) (en_pfx t);
          let idx = aert_findgt t k;
          ks \<leftarrow> buf_copy_insert 16 (en_keys n) (en_keys t) (en_size t) idx k;
          Some (idx, n\<lparr>en_size := en_size n + 1, en_keys := ks\<rparr>) }
      | ENODEH4 \<Rightarrow> Some (unat k, aert_new_node ver ENODEH16 (en_ofs t) (en_len t) (en_pfx t))
      | _ \<Rightarrow> None)"

definition aert_node_extend :: "aert_node \<Rightarrow> u64 \<Rightarrow> aert_node option" where
  "aert_node_extend t ver =
     (case en_type t of
        ENODE4 \<Rightarrow>
          (let n = aert_new_node ver ENODE16 (en_ofs t) (en_len t) (en_pfx t)
           in Some (n\<lparr>en_keys := take 4 (en_keys t) @ drop 4 (en_keys n)\<rparr>))
      | ENODEH4 \<Rightarrow> Some (aert_new_node ver ENODEH16 (en_ofs t) (en_len t) (en_pfx t))
      | _ \<Rightarrow> None)"

text \<open>The loop of \<open>nodeh4_copych_extend\<close>.\<close>

fun aert_spread :: "u8 list \<Rightarrow> addr list \<Rightarrow> addr list \<Rightarrow> addr list option" where
  "aert_spread [] src dst = Some dst"
| "aert_spread (k # ks) (c # cs) dst = do { dst' \<leftarrow> buf_write 16 dst (unat k) c; aert_spread ks cs dst' }"
| "aert_spread (k # ks) [] dst = None"

definition aert_copych :: "aert_node \<Rightarrow> aert_node \<Rightarrow> aert_node option" where
  "aert_copych n t =
     (case en_type t of
        ELEAF \<Rightarrow> Some n
      | ENODE16 \<Rightarrow> if en_type n = ENODE16
          then do { chs \<leftarrow> buf_copy 16 (en_chs n) (en_chs t) (en_size t); Some (n\<lparr>en_chs := chs\<rparr>) } else Some n
      | ENODEH16 \<Rightarrow> if en_type n = ENODEH16
          then do { chs \<leftarrow> buf_copy 16 (en_chs n) (en_chs t) 16; Some (n\<lparr>en_chs := chs\<rparr>) } else Some n
      | ENODE4 \<Rightarrow> do { chs \<leftarrow> buf_copy (aert_capacity (en_type n)) (en_chs n) (en_chs t) (en_size t); Some (n\<lparr>en_chs := chs\<rparr>) }
      | ENODEH4 \<Rightarrow> if en_type n = ENODEH4
          then do { chs \<leftarrow> buf_copy 4 (en_chs n) (en_chs t) (en_size t); Some (n\<lparr>en_chs := chs\<rparr>) }
          else do { chs \<leftarrow> aert_spread (take (en_size t) (en_keys t)) (en_chs t) (en_chs n); Some (n\<lparr>en_chs := chs\<rparr>) })"

definition aert_copych_at :: "aert_node \<Rightarrow> aert_node \<Rightarrow> nat \<Rightarrow> aert_node option" where
  "aert_copych_at n t idx =
     (if en_type t = ENODE4 \<or> en_type t \<in> {ENODE16, ENODEH4} \<and> en_type n = en_type t
      then do { chs \<leftarrow> buf_copy_insert (aert_capacity (en_type n)) (en_chs n) (en_chs t) (en_size t) idx nullptr;
                Some (n\<lparr>en_chs := chs\<rparr>) }
      else aert_copych n t)"

end
