(* ===== verification/AERT_Cow.thy ===== *)
theory AERT_Cow
  imports AERT_Node
begin

text \<open>
  Queries and updates of the AERT: \<^verbatim>\<open>query.hpp\<close>, \<^verbatim>\<open>fat_lookup.hpp\<close>, \<^verbatim>\<open>update_cow.hpp\<close>,
  \<^verbatim>\<open>update_inplace.hpp\<close>, \<^verbatim>\<open>handlers.hpp\<close> and \<^verbatim>\<open>build.hpp\<close>. A byte with more than sixteen children is two
  levels of half-byte nodes; a half-byte node with one child is no node but a tag on the pointer.
\<close>

section \<open>Lookup\<close>

datatype aert_step = AERT_MISS | AERT_LEAF | AERT_CHILD addr

text \<open>One step from a pointer: its tag, then the prefix of its node, then the child.\<close>

definition aert_step_at :: "aert_node \<Rightarrow> nat \<Rightarrow> u64 \<Rightarrow> aert_step option" where
  "aert_step_at t tag key =
     (if embedded tag \<and> ptr_pfx_match tag (en_ofs t) key < 4 then Some AERT_MISS
      else if en_len t > aert_prefix_match t key AND 0xf8 then Some AERT_MISS
      else if en_type t = ELEAF then Some AERT_LEAF
      else do {
        k \<leftarrow> aert_partial_key key (en_ofs t + en_len t) (node_key_len (en_type t));
        c \<leftarrow> aert_findch t k;
        Some (AERT_CHILD c) })"

partial_function (option) aert_find :: "aert_store \<Rightarrow> addr \<Rightarrow> u64 \<Rightarrow> u64 \<Rightarrow> u64 option option" where
  "aert_find s p key version =
     (if p = nullptr then Some None
      else do {
        t \<leftarrow> aert_ld s (fst (unembed_ptr p));
        st \<leftarrow> aert_step_at t (snd (unembed_ptr p)) key;
        (case st of
           AERT_MISS \<Rightarrow> Some None
         | AERT_LEAF \<Rightarrow> Some (Some (fat_read (en_fat t) (en_val t) version))
         | AERT_CHILD c \<Rightarrow> aert_find s c key version) })"

declare aert_find.simps [code]

partial_function (option) aert_leaf_for :: "aert_store \<Rightarrow> addr \<Rightarrow> u64 \<Rightarrow> addr option" where
  "aert_leaf_for s p key =
     (if p = nullptr then Some nullptr
      else do {
        t \<leftarrow> aert_ld s (fst (unembed_ptr p));
        st \<leftarrow> aert_step_at t (snd (unembed_ptr p)) key;
        (case st of
           AERT_MISS \<Rightarrow> Some nullptr
         | AERT_LEAF \<Rightarrow> Some (fst (unembed_ptr p))
         | AERT_CHILD c \<Rightarrow> aert_leaf_for s c key) })"

declare aert_leaf_for.simps [code]

section \<open>Scans\<close>

definition aert_scan_list :: "aert_node \<Rightarrow> u8 option \<Rightarrow> addr list option" where
  "aert_scan_list t pkey =
     (case en_type t of
        ENODEH16 \<Rightarrow> map_option (filter (\<lambda>c. c \<noteq> nullptr))
                      (those (map (nth_opt (en_chs t)) [(case pkey of None \<Rightarrow> 0 | Some k \<Rightarrow> unat k + 1)..<16]))
      | ELEAF \<Rightarrow> Some []
      | _ \<Rightarrow>
          if en_size t \<le> length (en_chs t)
          then Some (drop (case pkey of None \<Rightarrow> 0 | Some k \<Rightarrow> aert_findgt t k) (take (en_size t) (en_chs t)))
          else None)"

fun aert_scan_append ::
    "nat \<Rightarrow> aert_store \<Rightarrow> addr \<Rightarrow> u8 option \<Rightarrow> nat \<Rightarrow> u64 \<Rightarrow> (u64 \<times> u64) list \<Rightarrow> (u64 \<times> u64) list option"
  and aert_scan_children ::
    "nat \<Rightarrow> aert_store \<Rightarrow> addr list \<Rightarrow> nat \<Rightarrow> u64 \<Rightarrow> (u64 \<times> u64) list \<Rightarrow> (u64 \<times> u64) list option" where
  "aert_scan_append 0 s p pkey n version ret = None"
| "aert_scan_append (Suc f) s p pkey n version ret =
     (case aert_ld s (extract_ptr p) of
        None \<Rightarrow> None
      | Some t \<Rightarrow>
          if en_type t = ELEAF
          then Some (ret @ [(en_pfx t, fat_read (en_fat t) (en_val t) version)])
          else (case aert_scan_list t pkey of
                  None \<Rightarrow> None | Some cs \<Rightarrow> aert_scan_children f s cs n version ret))"
| "aert_scan_children f s [] n version ret = Some ret"
| "aert_scan_children f s (c # cs) n version ret =
     (if length ret < n
      then (case aert_scan_append f s c None n version ret of
              None \<Rightarrow> None | Some ret' \<Rightarrow> aert_scan_children f s cs n version ret')
      else Some ret)"

fun aert_scan_search ::
    "nat \<Rightarrow> aert_store \<Rightarrow> addr \<Rightarrow> u64 \<Rightarrow> nat \<Rightarrow> u64 \<Rightarrow> (u64 \<times> u64) list \<Rightarrow> (u64 \<times> u64) list option" where
  "aert_scan_search 0 s p key n version ret = (if p = nullptr then Some ret else None)"
| "aert_scan_search (Suc f) s p key n version ret =
     (if p = nullptr then Some ret
      else do {
        let a = fst (unembed_ptr p);
        let tag = snd (unembed_ptr p);
        t \<leftarrow> aert_ld s a;
        if embedded tag \<and> ptr_pfx_match tag (en_ofs t) key < 4 then do {
          hpfx \<leftarrow> aert_partial_key key (en_ofs t) 4;
          if tag mod 16 < unat hpfx then Some ret else aert_scan_append (Suc f) s a None n version ret }
        else do {
          let pmlen = aert_prefix_match t key AND 0xf8;
          if en_len t > pmlen then do {
            tk \<leftarrow> aert_partial_key (en_pfx t) (en_ofs t + pmlen) 8;
            k \<leftarrow> aert_partial_key key (en_ofs t + pmlen) 8;
            if tk < k then Some ret else aert_scan_append (Suc f) s a None n version ret }
          else if en_type t = ELEAF
          then Some (ret @ [(en_pfx t, fat_read (en_fat t) (en_val t) version)])
          else do {
            k \<leftarrow> aert_partial_key key (en_ofs t + en_len t) (node_key_len (en_type t));
            c \<leftarrow> aert_findch t k;
            ret' \<leftarrow> aert_scan_search f s c key n version ret;
            aert_scan_append (Suc f) s a (Some k) n version ret' } } })"

definition aert_scan :: "nat \<Rightarrow> aert_store \<Rightarrow> addr \<Rightarrow> u64 \<Rightarrow> nat \<Rightarrow> u64 \<Rightarrow> (u64 \<times> u64) list option" where
  "aert_scan fuel s p key n version = aert_scan_search fuel s p key n version []"

section \<open>Splitting a full node into half-byte nodes\<close>

text \<open>\<open>ch_sz\<close>: the number of children, the new one included, per high half of their byte.\<close>

definition half_counts :: "u8 list \<Rightarrow> u8 \<Rightarrow> nat list" where
  "half_counts ks k =
     map (\<lambda>h. length (filter (\<lambda>x. unat (drop_bit 4 x) = h) (take 16 ks)) + (if unat (drop_bit 4 k) = h then 1 else 0)) [0..<16]"

text \<open>The second loop of \<open>create_upper_half\<close>: a lower node for every high half with several children.\<close>

fun add_lower_halves ::
    "u64 \<Rightarrow> nat \<Rightarrow> nat list \<Rightarrow> nat list \<Rightarrow> aert_node \<Rightarrow> aert_store \<Rightarrow> (aert_node \<times> aert_store) option" where
  "add_lower_halves ver ofs sz [] uh s = Some (uh, s)"
| "add_lower_halves ver ofs sz (h # hs) uh s =
     (if sz ! h > 1 then do {
        (i, uh1) \<leftarrow> aert_append uh (of_nat h);
        let (lp, s1) = aert_alloc (aert_new_nodeh ver (sz ! h) ofs 0 0) s;
        uh2 \<leftarrow> aert_setch uh1 i lp;
        add_lower_halves ver ofs sz hs uh2 s1 }
      else add_lower_halves ver ofs sz hs uh s)"

definition create_upper_half :: "aert_node \<Rightarrow> u64 \<Rightarrow> u8 \<Rightarrow> aert_store \<Rightarrow> (addr \<times> aert_store) option" where
  "create_upper_half t ver pkey s = do {
     let sz = half_counts (en_keys t) pkey;
     let cnt = length (filter (\<lambda>n. n \<noteq> 0) sz);
     let uh = aert_new_nodeh ver cnt (en_ofs t) (en_len t) (en_pfx t);
     let (p, s1) = aert_alloc uh s;
     (uh', s2) \<leftarrow> add_lower_halves ver (en_ofs t + en_len t + 4) sz [0..<16] uh s1;
     s3 \<leftarrow> aert_st p uh' s2;
     Some (p, s3) }"

definition create_lower_half :: "addr \<Rightarrow> addr \<Rightarrow> u8 \<Rightarrow> aert_store \<Rightarrow> aert_store option" where
  "create_lower_half p ch pkey s = do {
     let hi = drop_bit 4 pkey;
     let lo = pkey AND 0x0f;
     uh \<leftarrow> aert_ld s p;
     lp \<leftarrow> aert_findch uh hi;
     if lp = nullptr then do {
       (i, uh1) \<leftarrow> aert_append uh hi;
       uh2 \<leftarrow> aert_insertch uh1 i (embed_ptr ch (unat lo OR 16));
       aert_st p uh2 s }
     else do {
       lh \<leftarrow> aert_ld s lp;
       (i, lh1) \<leftarrow> aert_append lh lo;
       lh2 \<leftarrow> aert_insertch lh1 i ch;
       aert_st lp lh2 s } }"

fun create_lower_halves :: "addr \<Rightarrow> (addr \<times> u8) list \<Rightarrow> aert_store \<Rightarrow> aert_store option" where
  "create_lower_halves p [] s = Some s"
| "create_lower_halves p ((ch, k) # cs) s = do { s1 \<leftarrow> create_lower_half p ch k s; create_lower_halves p cs s1 }"

section \<open>The path-copying update\<close>

definition AERT_SEARCH :: nat where "AERT_SEARCH = 1"
definition AERT_INSERT :: nat where "AERT_INSERT = 2"
definition AERT_FORK :: nat where "AERT_FORK = 3"
definition AERT_SPLIT :: nat where "AERT_SPLIT = 4"

record aert_ctx = ctx +
  e_key_ofs :: nat
  e_ch_idx :: nat
  e_embed_pfx :: nat

definition aert_cut_prefix :: "nat \<Rightarrow> aert_node \<Rightarrow> aert_node" where
  "aert_cut_prefix pmlen t =
     (let ofs = en_ofs t + pmlen + 8; len = en_len t - (pmlen + 8)
      in t\<lparr>en_ofs := ofs, en_len := len,
           en_pfx := (if en_type t = ELEAF then en_pfx t else en_pfx t AND aert_prefix_mask ofs len)\<rparr>)"

text \<open>A new parent with two children in the order of their keys.\<close>

definition aert_two :: "aert_node \<Rightarrow> u8 \<Rightarrow> addr \<Rightarrow> u8 \<Rightarrow> addr \<Rightarrow> nat \<times> aert_node" where
  "aert_two par pk0 p0 pk1 p1 =
     (let idx = (if pk0 > pk1 then 1 else 0)
      in (idx, par\<lparr>en_keys := ((en_keys par)[idx := pk0])[1 - idx := pk1],
                   en_chs := ((en_chs par)[idx := p0])[1 - idx := p1]\<rparr>))"

definition aert_node_fork_cow :: "aert_ctx \<Rightarrow> aert_node \<Rightarrow> nat \<Rightarrow> aert_store \<Rightarrow> (addr \<times> aert_ctx \<times> aert_store) option" where
  "aert_node_fork_cow c past pmlen s = do {
     let par = aert_new_node (ucast (c_sno c)) ENODE4 (e_key_ofs c) pmlen (c_key c);
     let (pp, s1) = aert_alloc par s;
     let (cp, s2) = aert_alloc (aert_cut_prefix pmlen (aert_node_copy past (ucast (c_sno c)))) s1;
     pk0 \<leftarrow> aert_partial_key (en_pfx past) (en_ofs past + pmlen) 8;
     let ofs = e_key_ofs c + pmlen;
     pk1 \<leftarrow> aert_partial_key (c_key c) ofs 8;
     (lp, s3) \<leftarrow> aert_new_leaf (ucast (c_sno c)) (ofs + 8) (c_key c) (c_val c) s2;
     let (idx, par') = aert_two par pk0 cp pk1 lp;
     s4 \<leftarrow> aert_st pp par' s3;
     Some (pp, c\<lparr>e_key_ofs := ofs, e_ch_idx := idx\<rparr>, s4) }"

definition aert_nodeh_fork_cow :: "aert_ctx \<Rightarrow> aert_store \<Rightarrow> (addr \<times> aert_ctx \<times> aert_store) option" where
  "aert_nodeh_fork_cow c s = do {
     let par = aert_new_node (ucast (c_sno c)) ENODEH4 (e_key_ofs c) 0 (c_key c);
     let (pp, s1) = aert_alloc par s;
     let pk0 = of_nat (c_t_past c mod 16);
     pk1 \<leftarrow> aert_partial_key (c_key c) (e_key_ofs c) 4;
     (lp, s2) \<leftarrow> aert_new_leaf (ucast (c_sno c)) (e_key_ofs c + 4) (c_key c) (c_val c) s1;
     let (idx, par') = aert_two par pk0 (extract_ptr (c_t_past c)) pk1 lp;
     s3 \<leftarrow> aert_st pp par' s2;
     Some (pp, c\<lparr>e_ch_idx := idx\<rparr>, s3) }"

definition aert_update_cow :: "aert_ctx \<Rightarrow> aert_store \<Rightarrow> (nat \<times> addr \<times> aert_ctx \<times> aert_store) option" where
  "aert_update_cow c s =
     (let (pp, tag) = unembed_ptr (c_t_past c); ver = ucast (c_sno c) in
      if pp = nullptr then do {
        (p, s1) \<leftarrow> aert_new_leaf ver (e_key_ofs c) (c_key c) (c_val c) s;
        Some (OP_DONE, p, c, s1) }
      else do {
        past \<leftarrow> aert_ld s pp;
        if embedded tag \<and> ptr_pfx_match tag (en_ofs past) (c_key c) < 4 then do {
          (p, c1, s1) \<leftarrow> aert_nodeh_fork_cow c s;
          Some (OP_DONE, p, c1, s1) }
        else do {
          let c0 = c\<lparr>e_key_ofs := e_key_ofs c + (if embedded tag then 4 else 0)\<rparr>;
          let pmlen = aert_prefix_match past (c_key c) AND 0xf8;
          if pmlen < en_len past then do {
            (p, c1, s1) \<leftarrow> aert_node_fork_cow c0 past pmlen s;
            Some (AERT_FORK, embed_ptr p tag, retire_replaced pp c1, s1) }
          else if en_type past = ELEAF
          then let (p, s1) = aert_alloc (aert_leaf_update ver past (c_val c)) s
               in Some (OP_DONE, embed_ptr p tag, retire_replaced pp c0, s1)
          else do {
            let key_len = node_key_len (en_type past);
            k \<leftarrow> aert_partial_key (c_key c) (e_key_ofs c0 + en_len past) key_len;
            let c1 = c0\<lparr>e_key_ofs := e_key_ofs c0 + en_len past + key_len\<rparr>;
            let idx = aert_findidx past k;
            if idx \<noteq> 0
            then let (p, s1) = aert_alloc (aert_node_copy past ver) s
                 in Some (AERT_SEARCH, embed_ptr p tag, retire_replaced pp (c1\<lparr>e_ch_idx := idx - 1\<rparr>), s1)
            else if en_size past = 16 then do {
              (p, s1) \<leftarrow> create_upper_half past ver k s;
              Some (AERT_SPLIT, embed_ptr p tag, retire_replaced pp c1, s1) }
            else do {
              (i, n) \<leftarrow> (if aert_is_full past then aert_extend_append past ver k else aert_copy_append past ver k);
              let (p, s1) = aert_alloc n s;
              Some (AERT_INSERT, embed_ptr p tag, retire_replaced pp (c1\<lparr>e_ch_idx := i\<rparr>), s1) } } } })"

definition aert_cow_begin :: "aert_ctx \<Rightarrow> aert_store \<Rightarrow> (nat \<times> aert_ctx \<times> aert_store) option" where
  "aert_cow_begin c s = do {
     (op, p, c1, s1) \<leftarrow> aert_update_cow (c\<lparr>e_key_ofs := 0\<rparr>) s;
     Some (op, c1\<lparr>c_root := p, c_t_cur := p\<rparr>, s1) }"

definition aert_handle_init :: "aert_ctx \<Rightarrow> aert_store \<Rightarrow> (nat \<times> aert_ctx \<times> aert_store) option" where
  "aert_handle_init c s =
     (if c_fat_slots c \<noteq> 0 then do {
        l \<leftarrow> aert_leaf_for s (c_t_past c) (c_key c);
        if l = nullptr then aert_cow_begin c s
        else do {
          t \<leftarrow> aert_ld s l;
          (case fat_append (c_fat_slots c) (c_sno c) (c_val c) (en_fat t) of
             Some v \<Rightarrow> do { s1 \<leftarrow> aert_st l (t\<lparr>en_fat := v\<rparr>) s; Some (OP_DONE, c\<lparr>c_root := c_t_past c\<rparr>, s1) }
           | None \<Rightarrow> aert_cow_begin c s) } }
      else aert_cow_begin c s)"

definition aert_handle_search :: "aert_ctx \<Rightarrow> aert_store \<Rightarrow> (nat \<times> aert_ctx \<times> aert_store) option" where
  "aert_handle_search c s = do {
     let cp = extract_ptr (c_t_cur c);
     cur \<leftarrow> aert_ld s cp;
     past \<leftarrow> aert_ld s (c_t_past c);
     cur' \<leftarrow> aert_copych cur past;
     s1 \<leftarrow> aert_st cp cur' s;
     p \<leftarrow> aert_getch past (e_ch_idx c);
     (op, q, c1, s2) \<leftarrow> aert_update_cow (c\<lparr>c_t_past := p\<rparr>) s1;
     cur'' \<leftarrow> aert_setch cur' (e_ch_idx c) q;
     s3 \<leftarrow> aert_st cp cur'' s2;
     let (pp, tag) = unembed_ptr (c_t_past c1);
     Some (op, c1\<lparr>c_t_cur := q, c_t_past := pp, e_embed_pfx := tag\<rparr>, s3) }"

text \<open>\<open>handle_split\<close> uses \<^verbatim>\<open>ctx->t_cur\<close> as it is: it does not remove the tag as the other handlers do.\<close>

definition aert_handle_split :: "aert_ctx \<Rightarrow> aert_store \<Rightarrow> (nat \<times> aert_ctx \<times> aert_store) option" where
  "aert_handle_split c s = do {
     past \<leftarrow> aert_ld s (c_t_past c);
     cs \<leftarrow> (if en_size past \<le> length (en_chs past) \<and> en_size past \<le> length (en_keys past)
           then Some (take (en_size past) (zip (en_chs past) (en_keys past))) else None);
     s1 \<leftarrow> create_lower_halves (c_t_cur c) cs s;
     (lp, s2) \<leftarrow> aert_new_leaf (ucast (c_sno c)) (e_key_ofs c) (c_key c) (c_val c) s1;
     k \<leftarrow> aert_partial_key (c_key c) (e_key_ofs c - 8) 8;
     s3 \<leftarrow> create_lower_half (c_t_cur c) lp k s2;
     Some (OP_DONE, c, s3) }"

definition aert_handle_insert :: "aert_ctx \<Rightarrow> aert_store \<Rightarrow> (nat \<times> aert_ctx \<times> aert_store) option" where
  "aert_handle_insert c s = do {
     let cp = extract_ptr (c_t_cur c);
     cur \<leftarrow> aert_ld s cp;
     past \<leftarrow> aert_ld s (c_t_past c);
     cur' \<leftarrow> aert_copych_at cur past (e_ch_idx c);
     (lp, s1) \<leftarrow>
       (if e_key_ofs c mod 8 = 0
        then aert_new_leaf (ucast (c_sno c)) (e_key_ofs c) (c_key c) (c_val c) s
        else do {
          (p, s1) \<leftarrow> aert_new_leaf (ucast (c_sno c)) (e_key_ofs c + 4) (c_key c) (c_val c) s;
          k \<leftarrow> aert_partial_key (c_key c) (e_key_ofs c) 4;
          Some (embed_ptr p (unat k OR 16), s1) });
     cur'' \<leftarrow> aert_setch cur' (e_ch_idx c) lp;
     s2 \<leftarrow> aert_st cp cur'' s1;
     Some (OP_DONE, c, s2) }"

definition aert_handle_fork :: "aert_ctx \<Rightarrow> aert_store \<Rightarrow> (nat \<times> aert_ctx \<times> aert_store) option" where
  "aert_handle_fork c s = do {
     par \<leftarrow> aert_ld s (extract_ptr (c_t_cur c));
     cp \<leftarrow> nth_opt (en_chs par) (e_ch_idx c);
     cur \<leftarrow> aert_ld s (extract_ptr cp);
     past \<leftarrow> aert_ld s (c_t_past c);
     cur' \<leftarrow> aert_copych cur past;
     s1 \<leftarrow> aert_st (extract_ptr cp) cur' s;
     Some (OP_DONE, c\<lparr>c_t_cur := cp\<rparr>, s1) }"

definition aert_table :: "(aert_ctx, aert_store) handler_table" where
  "aert_table =
     [Some aert_handle_init, Some aert_handle_search, Some aert_handle_insert,
      Some aert_handle_fork, Some aert_handle_split,
      None, None, None, None, None, None, None, None, None, None, None]"

definition aert_handlers :: "nat \<Rightarrow> aert_ctx \<Rightarrow> aert_store \<Rightarrow> (nat \<times> aert_ctx \<times> aert_store) option" where
  "aert_handlers = call_handler aert_table"

lemma aert_handlers_eq:
  "aert_handlers op =
     (if op = OP_INIT then aert_handle_init
      else if op = AERT_SEARCH then aert_handle_search
      else if op = AERT_INSERT then aert_handle_insert
      else if op = AERT_FORK then aert_handle_fork
      else if op = AERT_SPLIT then aert_handle_split
      else (\<lambda>c s. None))"
proof (cases "op < 16")
  case True
  then have "op \<in> set [0..<16]" by simp
  then show ?thesis
    unfolding aert_handlers_def aert_table_def call_handler_def
    by (auto simp: upt_rec OP_INIT_def AERT_SEARCH_def AERT_INSERT_def AERT_FORK_def AERT_SPLIT_def)
qed (simp add: aert_handlers_def aert_table_def OP_INIT_def AERT_SEARCH_def AERT_INSERT_def AERT_FORK_def AERT_SPLIT_def)

definition aert_exec :: "aert_ctx \<Rightarrow> aert_store \<Rightarrow> (aert_ctx \<times> aert_store) option" where
  "aert_exec c s = do {
     (op, c1, s1) \<leftarrow> aert_handlers OP_INIT c s;
     run_handlers aert_handlers op c1 s1 }"

definition aert_pipeline_fat_begin :: "bool \<Rightarrow> aert_ctx \<Rightarrow> aert_store \<Rightarrow> (nat \<times> aert_ctx \<times> aert_store) option" where
  "aert_pipeline_fat_begin can_append c s = (if can_append then aert_handle_init c s else aert_cow_begin c s)"

section \<open>The in-place update and the bulk build\<close>

definition aert_node_fork_inplace ::
    "nat \<Rightarrow> addr \<Rightarrow> nat \<Rightarrow> u64 \<Rightarrow> u64 \<Rightarrow> aert_store \<Rightarrow> (addr \<times> aert_store) option" where
  "aert_node_fork_inplace pmlen a ofs key val s = do {
     t \<leftarrow> aert_ld s a;
     let par = aert_new_node 0 ENODE4 ofs pmlen key;
     let (pp, s1) = aert_alloc par s;
     pk0 \<leftarrow> aert_partial_key (en_pfx t) (en_ofs t + pmlen) 8;
     s2 \<leftarrow> aert_st a (aert_cut_prefix pmlen t) s1;
     pk1 \<leftarrow> aert_partial_key key (ofs + pmlen) 8;
     (lp, s3) \<leftarrow> aert_new_leaf 0 (ofs + pmlen + 8) key val s2;
     s4 \<leftarrow> aert_st pp (snd (aert_two par pk0 a pk1 lp)) s3;
     Some (pp, s4) }"

definition aert_nodeh_fork_inplace ::
    "addr \<Rightarrow> nat \<Rightarrow> nat \<Rightarrow> u64 \<Rightarrow> u64 \<Rightarrow> aert_store \<Rightarrow> (addr \<times> aert_store) option" where
  "aert_nodeh_fork_inplace a tag ofs key val s = do {
     let par = aert_new_node 0 ENODEH4 ofs 0 key;
     let (pp, s1) = aert_alloc par s;
     pk1 \<leftarrow> aert_partial_key key ofs 4;
     (lp, s2) \<leftarrow> aert_new_leaf 0 (ofs + 4) key val s1;
     s3 \<leftarrow> aert_st pp (snd (aert_two par (of_nat (tag mod 16)) a pk1 lp)) s2;
     Some (pp, s3) }"

definition aert_node_split_inplace ::
    "addr \<Rightarrow> u8 \<Rightarrow> nat \<Rightarrow> u64 \<Rightarrow> u64 \<Rightarrow> aert_store \<Rightarrow> (addr \<times> aert_store) option" where
  "aert_node_split_inplace a pkey ofs key val s = do {
     t \<leftarrow> aert_ld s a;
     (up, s1) \<leftarrow> create_upper_half t 0 pkey s;
     cs \<leftarrow> (if en_size t \<le> length (en_chs t) \<and> en_size t \<le> length (en_keys t)
           then Some (take (en_size t) (zip (en_chs t) (en_keys t))) else None);
     s2 \<leftarrow> create_lower_halves up cs s1;
     (lp, s3) \<leftarrow> aert_new_leaf 0 ofs key val s2;
     k \<leftarrow> aert_partial_key key (ofs - 8) 8;
     s4 \<leftarrow> create_lower_half up lp k s3;
     s5 \<leftarrow> aert_free_node a s4;
     Some (up, s5) }"

text \<open>What \<open>update_inplace\<close> does at a node that has no child for the key byte.\<close>

definition aert_add_inplace ::
    "addr \<Rightarrow> aert_node \<Rightarrow> nat \<Rightarrow> u8 \<Rightarrow> nat \<Rightarrow> u64 \<Rightarrow> u64 \<Rightarrow> aert_store \<Rightarrow> (addr \<times> aert_store) option" where
  "aert_add_inplace a t tag k ofs key val s =
     (if en_size t = 16 then do {
        (p, s1) \<leftarrow> aert_node_split_inplace a k ofs key val s;
        Some (embed_ptr p tag, s1) }
      else if aert_is_full t then do {
        (i, n) \<leftarrow> aert_extend_append t 0 k;
        n1 \<leftarrow> aert_copych_at n t i;
        (lp, s1) \<leftarrow> aert_new_leaf 0 ofs key val s;
        n2 \<leftarrow> aert_setch n1 i lp;
        let (p, s2) = aert_alloc n2 s1;
        s3 \<leftarrow> aert_free_node a s2;
        Some (embed_ptr p tag, s3) }
      else do {
        (i, t1) \<leftarrow> aert_append t k;
        (lp, s1) \<leftarrow> aert_new_leaf 0 ofs key val s;
        t2 \<leftarrow> aert_insertch t1 i lp;
        s2 \<leftarrow> aert_st a t2 s1;
        Some (embed_ptr a tag, s2) })"

fun aert_update_inplace ::
    "nat \<Rightarrow> addr \<Rightarrow> nat \<Rightarrow> u64 \<Rightarrow> u64 \<Rightarrow> aert_store \<Rightarrow> (addr \<times> aert_store) option" where
  "aert_update_inplace 0 p ofs key val s = None"
| "aert_update_inplace (Suc f) p ofs key val s =
     (if p = nullptr then aert_new_leaf 0 ofs key val s
      else
        let a = fst (unembed_ptr p); tag = snd (unembed_ptr p);
            ofs0 = ofs + (if embedded tag then 4 else 0)
        in case aert_ld s a of
          None \<Rightarrow> None
        | Some t \<Rightarrow>
            if embedded tag \<and> ptr_pfx_match tag (en_ofs t) key < 4
            then aert_nodeh_fork_inplace a tag ofs key val s
            else if aert_prefix_match t key AND 0xf8 < en_len t
            then (case aert_node_fork_inplace (aert_prefix_match t key AND 0xf8) a ofs0 key val s of
                    None \<Rightarrow> None | Some (q, s1) \<Rightarrow> Some (embed_ptr q tag, s1))
            else if en_type t = ELEAF
            then (case aert_st a (t\<lparr>en_val := val\<rparr>) s of None \<Rightarrow> None | Some s1 \<Rightarrow> Some (embed_ptr a tag, s1))
            else
              let len = node_key_len (en_type t); ofs1 = ofs0 + en_len t + len
              in case aert_partial_key key (ofs0 + en_len t) len of
                   None \<Rightarrow> None
                 | Some k \<Rightarrow>
                     let i = aert_findidx t k
                     in if i = 0 then aert_add_inplace a t tag k ofs1 key val s
                        else (case aert_getch t (i - 1) of
                                None \<Rightarrow> None
                              | Some ch \<Rightarrow>
                                  (case aert_update_inplace f ch ofs1 key val s of
                                     None \<Rightarrow> None
                                   | Some (ch', s1) \<Rightarrow> do {
                                       t' \<leftarrow> aert_ld s1 a;
                                       t'' \<leftarrow> aert_setch t' (i - 1) ch';
                                       s2 \<leftarrow> aert_st a t'' s1;
                                       Some (embed_ptr a tag, s2) })))"

fun aert_build :: "(u64 \<times> u64) list \<Rightarrow> addr \<Rightarrow> aert_store \<Rightarrow> (addr \<times> aert_store) option" where
  "aert_build [] t s = Some (t, s)"
| "aert_build ((k, v) # es) t s = do {
     (t', s') \<leftarrow> aert_update_inplace 17 t 0 k v s;
     aert_build es t' s' }"

end
