(* ===== verification/BT_Bulk.thy ===== *)
theory BT_Bulk
  imports BT_Cow
begin

text \<open>
  The remaining operations of the B+Tree: bulk build (\<^verbatim>\<open>build.hpp\<close>), in-place update
  (\<^verbatim>\<open>update_inplace.hpp\<close>), the merge of a wave of prepared leaves (\<^verbatim>\<open>fat_merge.hpp\<close>) and the hooks of the
  adapter (\<^verbatim>\<open>src/adapters/btree.hpp\<close>).
\<close>

section \<open>Bulk build\<close>

text \<open>
  The chunk sizes of one level: \<open>m\<close> nodes for \<open>m * B + r\<close> entries, the \<open>r\<close> extra entries spread by the
  running remainder \<open>k\<close>. The loop runs until all \<open>n\<close> entries are consumed.
\<close>

function chunk_sizes :: "nat \<Rightarrow> nat \<Rightarrow> nat \<Rightarrow> nat \<Rightarrow> nat list" where
  "chunk_sizes m r k n =
     (if n = 0 then []
      else let sz = BT_B + (k + r) div m in sz # chunk_sizes m r ((k + r) mod m) (n - sz))"
  by auto
termination by (relation "measure (\<lambda>(m, r, k, n). n)") (auto simp: BT_B_def)

declare chunk_sizes.simps [simp del]

fun split_by :: "nat list \<Rightarrow> 'a list \<Rightarrow> 'a list list option" where
  "split_by [] xs = (if xs = [] then Some [] else None)"
| "split_by (n # ns) xs =
     (if n \<le> length xs then map_option ((#) (take n xs)) (split_by ns (drop n xs)) else None)"

definition level_chunks :: "'a list \<Rightarrow> 'a list list option" where
  "level_chunks xs = (let n = length xs; m = n div BT_B in split_by (chunk_sizes m (n - m * BT_B) 0 n) xs)"

fun alloc_all :: "'n list \<Rightarrow> 'n store \<Rightarrow> addr list \<times> 'n store" where
  "alloc_all [] s = ([], s)"
| "alloc_all (n # ns) s = (let (a, s1) = alloc n s; (as, s2) = alloc_all ns s1 in (a # as, s2))"

definition bt_internal_of :: "u32 \<Rightarrow> (u64 \<times> addr) list \<Rightarrow> bt_node" where
  "bt_internal_of ver es =
     (bt_new_internal ver (length es - 1))\<lparr>bn_keys := map fst (tl es), bn_chs := map snd es\<rparr>"

definition bt_leaf_of :: "u32 \<Rightarrow> (u64 \<times> u64) list \<Rightarrow> bt_node" where
  "bt_leaf_of ver es = (bt_new_leaf ver (length es))\<lparr>bn_keys := map fst es, bn_vals := map snd es\<rparr>"

text \<open>\<open>chkeys\<close> and \<open>chs\<close> are one list of pairs: the first key below a child, and the child.\<close>

fun bt_build_internal :: "nat \<Rightarrow> (u64 \<times> addr) list \<Rightarrow> bt_store \<Rightarrow> (addr \<times> bt_store) option" where
  "bt_build_internal 0 es s = None"
| "bt_build_internal (Suc f) es s =
     (if length es < 2 * BT_B then Some (alloc (bt_internal_of 0 es) s)
      else case level_chunks es of
        None \<Rightarrow> None
      | Some cs \<Rightarrow>
          (let (as, s1) = alloc_all (map (bt_internal_of 0) cs) s
           in bt_build_internal f (zip (map (fst \<circ> hd) cs) as) s1))"

definition bt_build_sorted :: "(u64 \<times> u64) list \<Rightarrow> bt_store \<Rightarrow> (addr \<times> bt_store) option" where
  "bt_build_sorted es s =
     (if length es < 2 * BT_B then Some (alloc (bt_leaf_of 0 es) s)
      else do {
        cs \<leftarrow> level_chunks es;
        let (as, s1) = alloc_all (map (bt_leaf_of 0) cs) s;
        bt_build_internal (length es) (zip (map (fst \<circ> hd) cs) as) s1 })"

definition bt_build :: "(u64 \<times> u64) list \<Rightarrow> bt_store \<Rightarrow> (addr \<times> bt_store) option" where
  "bt_build es s = bt_build_sorted (sort_key id es) s"

section \<open>In-place update\<close>

text \<open>\<open>update_leaf_inplace\<close> on the leaf at an address; the third component is null when it was not split.\<close>

definition bt_update_leaf_inplace ::
    "addr \<Rightarrow> u64 \<Rightarrow> u64 \<Rightarrow> bt_store \<Rightarrow> ((u64 \<times> addr \<times> addr) \<times> bt_store) option" where
  "bt_update_leaf_inplace a k v s = do {
     t \<leftarrow> cells s a;
     let i = bt_findval t k;
     if i < bn_size t \<and> bn_keys t ! i = k then do {
       s1 \<leftarrow> put a (t\<lparr>bn_vals := (bn_vals t)[i := v]\<rparr>) s;
       Some ((k, a, nullptr), s1) }
     else if bn_size t < 2 * BT_B - 1 then do {
       ks \<leftarrow> array_insert (2 * BT_B - 1) (bn_keys t) i k;
       vs \<leftarrow> array_insert (2 * BT_B) (bn_vals t) i v;
       s1 \<leftarrow> put a (t\<lparr>bn_keys := ks, bn_vals := vs\<rparr>) s;
       Some ((k, a, nullptr), s1) }
     else do {
       (lk, lv, rk, rv) \<leftarrow>
         (if i < BT_B
          then do {
            lk \<leftarrow> array_copy_insert (replicate BT_B 0) (bn_keys t) (BT_B - 1) i k;
            lv \<leftarrow> array_copy_insert (replicate BT_B 0) (bn_vals t) (BT_B - 1) i v;
            rk \<leftarrow> array_copy (replicate BT_B 0) (drop (BT_B - 1) (bn_keys t)) BT_B;
            rv \<leftarrow> array_copy (replicate BT_B 0) (drop (BT_B - 1) (bn_vals t)) BT_B;
            Some (lk, lv, rk, rv) }
          else do {
            lk \<leftarrow> array_copy (replicate BT_B 0) (bn_keys t) BT_B;
            lv \<leftarrow> array_copy (replicate BT_B 0) (bn_vals t) BT_B;
            rk \<leftarrow> array_copy_insert (replicate BT_B 0) (drop BT_B (bn_keys t)) (BT_B - 1) (i - BT_B) k;
            rv \<leftarrow> array_copy_insert (replicate BT_B 0) (drop BT_B (bn_vals t)) (BT_B - 1) (i - BT_B) v;
            Some (lk, lv, rk, rv) });
       let (l, s1) = alloc (bt_leaf_with 0 lk lv) s;
       let (r, s2) = alloc (bt_leaf_with 0 rk rv) s1;
       Some ((rk ! 0, l, r), s2) } }"

text \<open>A split child \<open>i\<close> of the node at \<open>a\<close>: the halves take its place and its children.\<close>

definition bt_split_child :: "addr \<Rightarrow> nat \<Rightarrow> addr \<Rightarrow> bt_store \<Rightarrow> (u64 \<times> addr \<times> addr \<times> bt_store) option" where
  "bt_split_child a i ca s = do {
     ch \<leftarrow> cells s ca;
     (p, l, r) \<leftarrow> bt_split 0 ch;
     let (la, s1) = alloc l s;
     let (ra, s2) = alloc r s1;
     t \<leftarrow> cells s2 a;
     t' \<leftarrow> bt_insert_child t p la ra i;
     s3 \<leftarrow> put a t' s2;
     s4 \<leftarrow> bt_copych_split la ra ca s3;
     s5 \<leftarrow> dealloc ca s4;
     Some (p, la, ra, s5) }"

fun bt_update_internal_inplace :: "nat \<Rightarrow> addr \<Rightarrow> u64 \<Rightarrow> u64 \<Rightarrow> bt_store \<Rightarrow> bt_store option" where
  "bt_update_internal_inplace 0 a k v s = None"
| "bt_update_internal_inplace (Suc f) a k v s =
     (case cells s a of
        None \<Rightarrow> None
      | Some t \<Rightarrow>
          let i = bt_findch t k in
          (case nth_opt (bn_chs t) i of
             None \<Rightarrow> None
           | Some ca \<Rightarrow>
               (case cells s ca of
                  None \<Rightarrow> None
                | Some ch \<Rightarrow>
                    if bn_type ch = BT_LEAF
                    then do {
                      ((p, l, r), s1) \<leftarrow> bt_update_leaf_inplace ca k v s;
                      if r \<noteq> nullptr then do {
                        s2 \<leftarrow> dealloc ca s1;
                        t' \<leftarrow> bt_insert_child t p l r i;
                        put a t' s2 }
                      else Some s1 }
                    else if bn_size ch < 2 * BT_B - 1 then bt_update_internal_inplace f ca k v s
                    else (case bt_split_child a i ca s of
                            None \<Rightarrow> None
                          | Some (p, la, ra, s1) \<Rightarrow>
                              bt_update_internal_inplace f (if p \<le> k then ra else la) k v s1))))"

definition bt_update_root_inplace :: "nat \<Rightarrow> addr \<Rightarrow> u64 \<Rightarrow> u64 \<Rightarrow> bt_store \<Rightarrow> (addr \<times> bt_store) option" where
  "bt_update_root_inplace f a k v s = do {
     t \<leftarrow> cells s a;
     if bn_type t = BT_LEAF then do {
       ((p, l, r), s1) \<leftarrow> bt_update_leaf_inplace a k v s;
       if r \<noteq> nullptr then do {
         s2 \<leftarrow> dealloc a s1;
         Some (alloc (bt_new_root 0 p l r) s2) }
       else Some (a, s1) }
     else if bn_size t < 2 * BT_B - 1 then do {
       s1 \<leftarrow> bt_update_internal_inplace f a k v s;
       Some (a, s1) }
     else do {
       (p, l, r) \<leftarrow> bt_split 0 t;
       let (la, s1) = alloc l s;
       let (ra, s2) = alloc r s1;
       let (na, s3) = alloc (bt_new_root 0 p la ra) s2;
       s4 \<leftarrow> bt_copych_split la ra a s3;
       s5 \<leftarrow> dealloc a s4;
       s6 \<leftarrow> bt_update_internal_inplace f (if p \<le> k then ra else la) k v s5;
       Some (na, s6) } }"

section \<open>Merging a wave of prepared leaves\<close>

text \<open>
  \<open>prepare_fat_leaf\<close> materialises one leaf privately; \<open>merge\<close> builds the new internal nodes above all
  replaced leaves of a wave. A stale or duplicate replacement throws: \<open>STALE\<close>. The vectors \<open>allocated\<close>
  and \<open>retired\<close> are threaded with the store.
\<close>

record bt_change =
  ch_old :: addr
  ch_route :: u64
  ch_sep :: u64
  ch_left :: addr
  ch_right :: addr

datatype merge_error = STALE | INVALID_BRANCH

record 's merge_state =
  ms_store :: 's
  ms_allocated :: "addr list"
  ms_retired :: "addr list"

definition bt_prepare_fat_leaf :: "addr \<Rightarrow> u32 \<Rightarrow> u64 \<Rightarrow> u64 \<Rightarrow> bt_store \<Rightarrow> (bt_change \<times> bt_store) option" where
  "bt_prepare_fat_leaf a version key val s = do {
     t \<leftarrow> cells s a;
     ((sep, l, r), s1) \<leftarrow> materialize_leaf_cow t version key val s;
     Some (\<lparr>ch_old = a, ch_route = key, ch_sep = sep, ch_left = l, ch_right = r\<rparr>, s1) }"

definition bt_merge_internal ::
    "u32 \<Rightarrow> addr list \<Rightarrow> u64 list \<Rightarrow> bt_store merge_state \<Rightarrow> addr \<times> bt_store merge_state" where
  "bt_merge_internal version children ks M =
     (let (a, s) = alloc ((bt_new_internal version (length children - 1))\<lparr>bn_keys := ks, bn_chs := children\<rparr>) (ms_store M)
      in (a, M\<lparr>ms_store := s, ms_allocated := ms_allocated M @ [a]\<rparr>))"

text \<open>The new node, or the two halves, from the collected children and separators.\<close>

definition bt_merge_finish ::
    "u32 \<Rightarrow> addr list \<Rightarrow> u64 list \<Rightarrow> bt_store merge_state \<Rightarrow> (addr \<times> addr \<times> u64) \<times> bt_store merge_state" where
  "bt_merge_finish version children ks M =
     (let n = length children; h = n div 2 in
      if n \<le> 2 * BT_B
      then let (a, M1) = bt_merge_internal version children ks M in ((a, nullptr, 0), M1)
      else let (l, M1) = bt_merge_internal version (take h children) (take (h - 1) ks) M;
               (r, M2) = bt_merge_internal version (drop h children) (drop h ks) M1
           in ((l, r, ks ! (h - 1)), M2))"

text \<open>The changes that go to a child: those routed below its upper separator, all for the last child.\<close>

definition route_span :: "u64 option \<Rightarrow> bt_change list \<Rightarrow> bt_change list \<times> bt_change list" where
  "route_span bound cs =
     (case bound of None \<Rightarrow> (cs, [])
      | Some k \<Rightarrow> (takeWhile (\<lambda>c. ch_route c < k) cs, dropWhile (\<lambda>c. ch_route c < k) cs))"

fun bt_merge ::
    "nat \<Rightarrow> u32 \<Rightarrow> addr \<Rightarrow> bt_change list \<Rightarrow> bt_store merge_state \<Rightarrow>
      (merge_error + (addr \<times> addr \<times> u64) \<times> bt_store merge_state) option"
  and bt_merge_children ::
    "nat \<Rightarrow> u32 \<Rightarrow> addr list \<Rightarrow> u64 list \<Rightarrow> bt_change list \<Rightarrow> addr list \<times> u64 list \<Rightarrow> bt_store merge_state \<Rightarrow>
      (merge_error + (addr list \<times> u64 list) \<times> bt_store merge_state) option" where
  "bt_merge 0 version old cs M = None"
| "bt_merge (Suc f) version old cs M =
     (if cs = [] then Some (Inr ((old, nullptr, 0), M))
      else case cells (ms_store M) old of
        None \<Rightarrow> None
      | Some t \<Rightarrow>
          if bn_type t = BT_LEAF
          then (case cs of
                  [c] \<Rightarrow> if ch_old c = old
                         then Some (Inr ((ch_left c, ch_right c, ch_sep c), M\<lparr>ms_retired := ms_retired M @ [old]\<rparr>))
                         else Some (Inl STALE)
                | _ \<Rightarrow> Some (Inl STALE))
          else (case bt_merge_children f version (bn_chs t) (bn_keys t) cs ([], []) M of
                  None \<Rightarrow> None
                | Some (Inl e) \<Rightarrow> Some (Inl e)
                | Some (Inr ((children, ks), M1)) \<Rightarrow>
                    Some (Inr (bt_merge_finish version children ks (M1\<lparr>ms_retired := ms_retired M1 @ [old]\<rparr>)))))"
| "bt_merge_children f version [] ks cs acc M = Some (Inr (acc, M))"
| "bt_merge_children f version (a # as) ks cs acc M =
     (let (here, rest) = route_span (if ks = [] then None else Some (hd ks)) cs in
      case bt_merge f version a here M of
        None \<Rightarrow> None
      | Some (Inl e) \<Rightarrow> Some (Inl e)
      | Some (Inr ((l, r, sep), M1)) \<Rightarrow>
          let children = fst acc @ (if r = nullptr then [l] else [l, r]);
              keys = snd acc @ (if r = nullptr then [] else [sep]) @ (if as = [] \<or> ks = [] then [] else [hd ks])
          in bt_merge_children f version as (tl ks) rest (children, keys) M1)"

definition bt_merge_build ::
    "nat \<Rightarrow> addr \<Rightarrow> bt_change list \<Rightarrow> u32 \<Rightarrow> bt_store \<Rightarrow> (merge_error + addr \<times> bt_store merge_state) option" where
  "bt_merge_build f old changes version s =
     (case bt_merge f version old (sort_key ch_route changes) \<lparr>ms_store = s, ms_allocated = [], ms_retired = []\<rparr> of
        None \<Rightarrow> None
      | Some (Inl e) \<Rightarrow> Some (Inl e)
      | Some (Inr ((l, r, sep), M)) \<Rightarrow>
          if r = nullptr then Some (Inr (l, M)) else Some (Inr (bt_merge_internal version [l, r] [sep] M)))"

section \<open>The hooks of the pipelined controllers\<close>

definition bt_pipeline_fat_begin :: "bool \<Rightarrow> bt_ctx \<Rightarrow> bt_store \<Rightarrow> (nat \<times> bt_ctx \<times> bt_store) option" where
  "bt_pipeline_fat_begin can_append c s = (if can_append then bt_handle_init c s else bt_handle_init_cow c s)"

text \<open>The descent over completed nodes: \<open>None\<close> inside is an unfinished path.\<close>

partial_function (option) bt_ready_leaf :: "bt_store \<Rightarrow> u64 \<Rightarrow> addr \<Rightarrow> u64 \<Rightarrow> addr option option" where
  "bt_ready_leaf s committed a key =
     (case cells s a of
        None \<Rightarrow> None
      | Some t \<Rightarrow>
          if bn_type t = BT_LEAF then Some (Some a)
          else if ucast (bn_ver t) > committed \<and> \<not> bt_is_cow_ready t then Some None
          else if bt_findch t key < length (bn_chs t)
               then bt_ready_leaf s committed (bn_chs t ! bt_findch t key) key
               else None)"

declare bt_ready_leaf.simps [code]

definition bt_pipeline_fat_try :: "u64 \<Rightarrow> bt_ctx \<Rightarrow> bt_store \<Rightarrow> (int \<times> bt_ctx \<times> bt_store) option" where
  "bt_pipeline_fat_try committed c s = do {
     leaf \<leftarrow> bt_ready_leaf s committed (c_t_past c) (c_key c);
     (case leaf of
        None \<Rightarrow> Some (- 1, c, s)
      | Some l \<Rightarrow> do {
          (ok, s1) \<leftarrow> bt_append_leaf_delta l (c_fat_slots c) (ucast (c_sno c)) (c_key c) (c_val c) s;
          if ok then Some (1, c\<lparr>c_root := c_t_past c\<rparr>, s1) else Some (0, c, s1) }) }"

definition bt_pipeline_fat_configure :: "bool \<Rightarrow> bt_ctx \<Rightarrow> bt_ctx" where
  "bt_pipeline_fat_configure worker_fat c = c\<lparr>c_worker_fat := worker_fat, c_leaf_pair := False\<rparr>"

definition bt_pipeline_fat_task :: "bt_ctx \<Rightarrow> nat" where
  "bt_pipeline_fat_task c = (if c_op c = BT_FAT_APPEND then 1 else if c_op c = BT_MATERIALIZE then 2 else 0)"

definition bt_pipeline_fat_reserve :: "u64 \<Rightarrow> bt_ctx \<Rightarrow> bt_store \<Rightarrow> (int \<times> bt_ctx \<times> bt_store) option" where
  "bt_pipeline_fat_reserve committed c s = do {
     leaf \<leftarrow> bt_ready_leaf s committed (c_t_past c) (c_key c);
     (case leaf of
        None \<Rightarrow> Some (- 1, c, s)
      | Some l \<Rightarrow> do {
          (i, s1) \<leftarrow> bt_reserve_leaf_delta l (c_fat_slots c) (ucast (c_sno c)) (c_key c) s;
          (case i of
             None \<Rightarrow> Some (0, c, s1)
           | Some i \<Rightarrow> Some (1, c\<lparr>c_t_cur := l, c_split_idx := i, c_root := c_t_past c, c_op := BT_FAT_APPEND\<rparr>, s1)) }) }"

definition bt_concurrent_fat_cow_begin :: "bt_ctx \<Rightarrow> bt_store \<Rightarrow> (nat \<times> bt_ctx \<times> bt_store) option" where
  "bt_concurrent_fat_cow_begin c s =
     bt_handle_init_cow (if c_fat_slots c = 0 then c\<lparr>c_fat_slots := 2\<rparr> else c) s"

definition bt_concurrent_fat_available :: "bt_node \<Rightarrow> nat \<Rightarrow> nat" where
  "bt_concurrent_fat_available t slots =
     (case bt_leaf_delta t of None \<Rightarrow> slots
      | Some b \<Rightarrow> if db_capacity b = slots then slots - db_count b else 0)"

end
