(* ===== verification/BE_Node.thy ===== *)
theory BE_Node
  imports BT_Bulk
begin

text \<open>
  The BeTree (\<^verbatim>\<open>lib/trees/betree\<close>; prefix \<open>be_\<close>): nodes and queries (\<^verbatim>\<open>node.hpp\<close>, \<^verbatim>\<open>query.hpp\<close>). It is a
  B+Tree whose upper levels keep their shape between checkpoints: an \<open>UPPER\<close> node never splits, below a
  \<open>BOUNDARY\<close> node elastic subtrees of \<open>LOWER\<close> nodes grow, and a tree that has grown too high is rebuilt.
  Leaf version buffers are those of \<open>Delta_Block\<close>, the source declares them again in this namespace.
\<close>

datatype be_type = UPPER | LOWER | BOUNDARY | BELEAF

definition BE_E :: nat where
  "BE_E = 3"

record be_node =
  be_ver :: u32
  be_type :: be_type
  be_verge :: nat
  be_height :: nat
  be_keys :: "u64 list"
  be_chs :: "addr list"
  be_vals :: "u64 list"
  be_delta :: "delta_block option"

type_synonym be_store = "be_node store"

abbreviation be_size :: "be_node \<Rightarrow> nat" where
  "be_size t \<equiv> length (be_keys t)"

definition be_new_node :: "u32 \<Rightarrow> be_type \<Rightarrow> nat \<Rightarrow> be_node" where
  "be_new_node ver type sz =
     \<lparr>be_ver = ver, be_type = type, be_verge = 0, be_height = 0, be_keys = replicate sz 0, be_chs = [],
      be_vals = [], be_delta = None\<rparr>"

definition be_new_leaf :: "u32 \<Rightarrow> nat \<Rightarrow> be_node" where
  "be_new_leaf ver sz = (be_new_node ver BELEAF sz)\<lparr>be_vals := replicate sz 0\<rparr>"

definition be_new_internal :: "u32 \<Rightarrow> nat \<Rightarrow> be_node" where
  "be_new_internal ver sz = be_new_node ver LOWER sz"

definition be_new_root :: "u32 \<Rightarrow> u64 \<Rightarrow> addr \<Rightarrow> addr \<Rightarrow> be_node" where
  "be_new_root ver key ch0 ch1 = (be_new_internal ver 1)\<lparr>be_keys := [key], be_chs := [ch0, ch1]\<rparr>"

definition be_copy_leaf :: "be_node \<Rightarrow> u32 \<Rightarrow> be_node" where
  "be_copy_leaf t ver = t\<lparr>be_ver := ver, be_delta := None\<rparr>"

definition be_copy_internal :: "be_node \<Rightarrow> u32 \<Rightarrow> be_node" where
  "be_copy_internal t ver = t\<lparr>be_ver := ver, be_chs := []\<rparr>"

definition be_leaf_delta :: "be_node \<Rightarrow> delta_block option" where
  "be_leaf_delta t = (if be_type t \<noteq> BELEAF then None else be_delta t)"

definition be_publish_leaf_delta :: "delta_block \<Rightarrow> be_node \<Rightarrow> be_node" where
  "be_publish_leaf_delta b t = t\<lparr>be_delta := Some b\<rparr>"

definition be_leaf_delta_capacity :: "be_node \<Rightarrow> nat" where
  "be_leaf_delta_capacity t = (case be_leaf_delta t of None \<Rightarrow> 0 | Some b \<Rightarrow> db_capacity b)"

definition be_leaf_delta_count :: "be_node \<Rightarrow> nat" where
  "be_leaf_delta_count t =
     (case be_leaf_delta t of None \<Rightarrow> 0
      | Some b \<Rightarrow> length (filter (\<lambda>sl. ds_version sl \<noteq> 0) (take (db_capacity b) (db_slots b))))"

definition be_append_leaf_delta ::
    "addr \<Rightarrow> nat \<Rightarrow> u64 \<Rightarrow> u64 \<Rightarrow> u64 \<Rightarrow> be_store \<Rightarrow> (bool \<times> be_store) option" where
  "be_append_leaf_delta a capacity version key value s =
     (if \<not> supported_fat_slots capacity then Some (False, s)
      else do {
        t \<leftarrow> cells s a;
        if be_type t \<noteq> BELEAF then None
        else let b = (case be_leaf_delta t of None \<Rightarrow> new_delta_block capacity | Some b \<Rightarrow> b)
             in case delta_append capacity version key value b of
                  None \<Rightarrow> do { s' \<leftarrow> put a (be_publish_leaf_delta b t) s; Some (False, s') }
                | Some b' \<Rightarrow> do { s' \<leftarrow> put a (be_publish_leaf_delta b' t) s; Some (True, s') } })"

definition be_node_size :: "be_node \<Rightarrow> nat" where
  "be_node_size t =
     256 + (case be_leaf_delta t of None \<Rightarrow> 0 | Some b \<Rightarrow> delta_block_size (db_capacity b))"

definition be_free_node :: "addr \<Rightarrow> be_store \<Rightarrow> be_store option" where
  "be_free_node a s = dealloc a s"

definition be_split :: "be_node \<Rightarrow> u32 \<Rightarrow> (u64 \<times> be_node \<times> be_node) option" where
  "be_split t ver = do {
     l \<leftarrow> array_copy (be_keys (be_new_internal ver (BT_B - 1))) (be_keys t) (BT_B - 1);
     r \<leftarrow> array_copy (be_keys (be_new_internal ver (BT_B - 1))) (drop BT_B (be_keys t)) (BT_B - 1);
     k \<leftarrow> nth_opt (be_keys t) (BT_B - 1);
     Some (k, (be_new_internal ver (BT_B - 1))\<lparr>be_height := be_height t, be_keys := l\<rparr>,
              (be_new_internal ver (BT_B - 1))\<lparr>be_height := be_height t, be_keys := r\<rparr>) }"

definition be_copych :: "addr \<Rightarrow> addr \<Rightarrow> be_store \<Rightarrow> be_store option" where
  "be_copych t_new t_old s = do {
     n \<leftarrow> cells s t_new;
     m \<leftarrow> cells s t_old;
     put t_new (n\<lparr>be_chs := be_chs m\<rparr>) s }"

definition be_copych_split :: "addr \<Rightarrow> addr \<Rightarrow> addr \<Rightarrow> be_store \<Rightarrow> be_store option" where
  "be_copych_split t0 t1 t_old s = do {
     m \<leftarrow> cells s t_old;
     n0 \<leftarrow> cells s t0;
     s' \<leftarrow> put t0 (n0\<lparr>be_chs := take BT_B (be_chs m)\<rparr>) s;
     n1 \<leftarrow> cells s' t1;
     put t1 (n1\<lparr>be_chs := take BT_B (drop BT_B (be_chs m))\<rparr>) s' }"

definition be_findch :: "be_node \<Rightarrow> u64 \<Rightarrow> nat" where
  "be_findch t key = findch (be_keys t) key"

definition be_findval :: "be_node \<Rightarrow> u64 \<Rightarrow> nat" where
  "be_findval t key = findval (be_keys t) key"

definition be_insert_child :: "be_node \<Rightarrow> u64 \<Rightarrow> addr \<Rightarrow> addr \<Rightarrow> nat \<Rightarrow> be_node option" where
  "be_insert_child t key t_l t_r pos = do {
     ks \<leftarrow> array_insert (2 * BT_B - 1) (be_keys t) pos key;
     if pos < length (be_chs t) then do {
       cs \<leftarrow> array_insert (2 * BT_B) ((be_chs t)[pos := t_l]) (pos + 1) t_r;
       Some (t\<lparr>be_keys := ks, be_chs := cs\<rparr>) }
     else None }"

partial_function (option) be_descend :: "be_store \<Rightarrow> addr \<Rightarrow> u64 \<Rightarrow> addr option" where
  "be_descend s a key =
     (case cells s a of
        None \<Rightarrow> None
      | Some t \<Rightarrow>
          if be_type t = BELEAF then Some a
          else if be_findch t key < length (be_chs t)
               then be_descend s (be_chs t ! be_findch t key) key
               else None)"

declare be_descend.simps [code]

section \<open>Queries\<close>

text \<open>Unlike the B+Tree's, a BeTree slot is never reserved: any nonzero version up to the snapshot counts.\<close>

definition be_visible :: "u64 \<Rightarrow> delta_slot \<Rightarrow> bool" where
  "be_visible snapshot sl \<longleftrightarrow> ds_version sl \<noteq> 0 \<and> ds_version sl \<le> snapshot"

definition be_find_slot_step ::
    "u64 \<Rightarrow> u64 \<Rightarrow> u64 option \<times> u64 \<Rightarrow> delta_slot \<Rightarrow> u64 option \<times> u64" where
  "be_find_slot_step key snapshot acc sl =
     (if be_visible snapshot sl \<and> snd acc \<le> ds_version sl \<and> ds_key sl = key
      then (Some (ds_value sl), ds_version sl) else acc)"

definition be_find_leaf :: "be_node \<Rightarrow> u64 \<Rightarrow> u64 \<Rightarrow> u64 option" where
  "be_find_leaf t key snapshot =
     (let i = be_findval t key;
          base = (if i < be_size t \<and> be_keys t ! i = key
                  then (Some (be_vals t ! i), ucast (be_ver t)) else (None, 0))
      in case be_leaf_delta t of
           None \<Rightarrow> fst base
         | Some b \<Rightarrow> fst (foldl (be_find_slot_step key snapshot) base (take (db_capacity b) (db_slots b))))"

definition be_find :: "be_store \<Rightarrow> addr \<Rightarrow> u64 \<Rightarrow> u64 \<Rightarrow> u64 option option" where
  "be_find s t key snapshot =
     (if t = nullptr then Some None
      else do {
        l \<leftarrow> be_descend s t key;
        n \<leftarrow> cells s l;
        Some (be_find_leaf n key snapshot) })"

definition be_visible_records :: "u64 \<Rightarrow> delta_block option \<Rightarrow> leaf_record list" where
  "be_visible_records snapshot d =
     (case d of None \<Rightarrow> []
      | Some b \<Rightarrow> map slot_record (filter (be_visible snapshot) (take (db_capacity b) (db_slots b))))"

definition be_leaf_records :: "be_node \<Rightarrow> u64 \<Rightarrow> leaf_record list" where
  "be_leaf_records t snapshot =
     base_records (be_ver t) (be_keys t) (be_vals t) @ be_visible_records snapshot (be_leaf_delta t)"

definition be_scan_visible_leaf ::
    "be_node \<Rightarrow> u64 \<Rightarrow> bool \<Rightarrow> nat \<Rightarrow> u64 \<Rightarrow> (u64 \<times> u64) list \<Rightarrow> (u64 \<times> u64) list" where
  "be_scan_visible_leaf t lower use_lower n snapshot ret =
     scan_emit lower use_lower n (newest_runs (sort_records (be_leaf_records t snapshot))) ret"

fun be_scan_visible_append ::
    "nat \<Rightarrow> be_store \<Rightarrow> addr \<Rightarrow> nat \<Rightarrow> u64 \<Rightarrow> (u64 \<times> u64) list \<Rightarrow> (u64 \<times> u64) list option"
  and be_scan_visible_children ::
    "nat \<Rightarrow> be_store \<Rightarrow> addr list \<Rightarrow> nat \<Rightarrow> u64 \<Rightarrow> (u64 \<times> u64) list \<Rightarrow> (u64 \<times> u64) list option" where
  "be_scan_visible_append 0 s a n snapshot ret = None"
| "be_scan_visible_append (Suc f) s a n snapshot ret =
     (case cells s a of
        None \<Rightarrow> None
      | Some t \<Rightarrow>
          if be_type t = BELEAF then Some (be_scan_visible_leaf t 0 False n snapshot ret)
          else be_scan_visible_children f s (be_chs t) n snapshot ret)"
| "be_scan_visible_children f s [] n snapshot ret = Some ret"
| "be_scan_visible_children f s (a # as) n snapshot ret =
     (if length ret < n
      then (case be_scan_visible_append f s a n snapshot ret of
              None \<Rightarrow> None
            | Some ret' \<Rightarrow> be_scan_visible_children f s as n snapshot ret')
      else Some ret)"

fun be_scan_visible_search ::
    "nat \<Rightarrow> be_store \<Rightarrow> addr \<Rightarrow> u64 \<Rightarrow> nat \<Rightarrow> u64 \<Rightarrow> (u64 \<times> u64) list \<Rightarrow> (u64 \<times> u64) list option" where
  "be_scan_visible_search 0 s a key n snapshot ret = None"
| "be_scan_visible_search (Suc f) s a key n snapshot ret =
     (case cells s a of
        None \<Rightarrow> None
      | Some t \<Rightarrow>
          if be_type t = BELEAF then Some (be_scan_visible_leaf t key True n snapshot ret)
          else (case nth_opt (be_chs t) (be_findch t key) of
                  None \<Rightarrow> None
                | Some c \<Rightarrow>
                    (case be_scan_visible_search f s c key n snapshot ret of
                       None \<Rightarrow> None
                     | Some ret' \<Rightarrow>
                         be_scan_visible_children f s (drop (be_findch t key + 1) (be_chs t)) n snapshot ret')))"

definition be_scan :: "nat \<Rightarrow> be_store \<Rightarrow> addr \<Rightarrow> u64 \<Rightarrow> nat \<Rightarrow> u64 \<Rightarrow> (u64 \<times> u64) list option" where
  "be_scan fuel s t key n snapshot =
     (if t \<noteq> nullptr \<and> n \<noteq> 0 then be_scan_visible_search fuel s t key n snapshot [] else Some [])"

end
