(* ===== verification/BE_Cow.thy ===== *)
theory BE_Cow
  imports BE_Node
begin

text \<open>
  Updates and checkpoints of the BeTree: \<^verbatim>\<open>build.hpp\<close>, \<^verbatim>\<open>rebuild.hpp\<close>, \<^verbatim>\<open>update_cow.hpp\<close>,
  \<^verbatim>\<open>handlers.hpp\<close>, \<^verbatim>\<open>update_inplace.hpp\<close>, \<^verbatim>\<open>fat_merge.hpp\<close>. Recursions over a tree take fuel.
\<close>

section \<open>Bulk build\<close>

definition be_internal_of :: "(u64 \<times> addr) list \<Rightarrow> be_node" where
  "be_internal_of es =
     (be_new_internal 0 (length es - 1))\<lparr>be_keys := map fst (tl es), be_chs := map snd es\<rparr>"

definition be_leaf_of :: "(u64 \<times> u64) list \<Rightarrow> be_node" where
  "be_leaf_of es = (be_new_leaf 0 (length es))\<lparr>be_keys := map fst es, be_vals := map snd es\<rparr>"

fun be_set_type :: "be_type \<Rightarrow> addr list \<Rightarrow> be_store \<Rightarrow> be_store option" where
  "be_set_type ty [] s = Some s"
| "be_set_type ty (a # as) s = do { t \<leftarrow> cells s a; s1 \<leftarrow> put a (t\<lparr>be_type := ty\<rparr>) s; be_set_type ty as s1 }"

text \<open>\<open>build_internal\<close> returns the root of the levels it built and their number.\<close>

fun be_build_internal ::
    "nat \<Rightarrow> nat \<Rightarrow> (u64 \<times> addr) list \<Rightarrow> be_store \<Rightarrow> (addr \<times> nat \<times> be_store) option" where
  "be_build_internal 0 h es s = None"
| "be_build_internal (Suc f) h es s =
     (if length es < 2 * BT_B
      then let (a, s1) = alloc ((be_internal_of es)\<lparr>be_type := (if h = 0 then BOUNDARY else UPPER), be_verge := h\<rparr>) s
           in Some (a, 1, s1)
      else case level_chunks es of
        None \<Rightarrow> None
      | Some cs \<Rightarrow>
          (let (as, s1) = alloc_all (map be_internal_of cs) s in
           case be_build_internal f h (zip (map (fst \<circ> hd) cs) as) s1 of
             None \<Rightarrow> None
           | Some (t, d, s2) \<Rightarrow> do {
               s3 \<leftarrow> (if d < h then be_set_type UPPER as s2 else if d = h then be_set_type BOUNDARY as s2 else Some s2);
               Some (t, d + 1, s3) }))"

definition be_build_sorted :: "nat \<Rightarrow> (u64 \<times> u64) list \<Rightarrow> be_store \<Rightarrow> (addr \<times> be_store) option" where
  "be_build_sorted h es s =
     (if length es < 2 * BT_B then Some (alloc ((be_leaf_of es)\<lparr>be_verge := h\<rparr>) s)
      else do {
        cs \<leftarrow> level_chunks es;
        let (as, s1) = alloc_all (map be_leaf_of cs) s;
        (t, d, s2) \<leftarrow> be_build_internal (length es) h (zip (map (fst \<circ> hd) cs) as) s1;
        Some (t, s2) })"

definition be_build :: "nat \<Rightarrow> (u64 \<times> u64) list \<Rightarrow> be_store \<Rightarrow> (addr \<times> be_store) option" where
  "be_build h es s = be_build_sorted h (sort_key id es) s"

section \<open>Checkpoints\<close>

text \<open>
  \<open>unfold_elems\<close> collects the newest visible value of every key. Its sort also orders a slot behind a base
  record of the same key and version, which is the order of the list the records are taken from.
\<close>

fun be_unfold_elems ::
    "nat \<Rightarrow> be_store \<Rightarrow> addr \<Rightarrow> (u64 \<times> u64) list \<Rightarrow> u64 \<Rightarrow> (u64 \<times> u64) list option"
  and be_unfold_children ::
    "nat \<Rightarrow> be_store \<Rightarrow> addr list \<Rightarrow> (u64 \<times> u64) list \<Rightarrow> u64 \<Rightarrow> (u64 \<times> u64) list option" where
  "be_unfold_elems 0 s a elems snapshot = None"
| "be_unfold_elems (Suc f) s a elems snapshot =
     (case cells s a of
        None \<Rightarrow> None
      | Some t \<Rightarrow>
          if be_type t \<noteq> BELEAF then be_unfold_children f s (be_chs t) elems snapshot
          else Some (elems @ map (\<lambda>r. (lr_key r, lr_value r))
                               (newest_runs (sort_records (be_leaf_records t snapshot)))))"
| "be_unfold_children f s [] elems snapshot = Some elems"
| "be_unfold_children f s (a # as) elems snapshot =
     (case be_unfold_elems f s a elems snapshot of
        None \<Rightarrow> None | Some elems' \<Rightarrow> be_unfold_children f s as elems' snapshot)"

definition be_rebuild_entire :: "nat \<Rightarrow> addr \<Rightarrow> nat \<Rightarrow> u64 \<Rightarrow> be_store \<Rightarrow> (addr \<times> be_store) option" where
  "be_rebuild_entire f a h snapshot s = do {
     elems \<leftarrow> be_unfold_elems f s a [] snapshot;
     be_build_sorted h elems s }"

text \<open>
  \<open>unfold_extra\<close> and \<open>unfold_upper_part\<close> collect the height-zero subtrees and the separators between them;
  \<open>(ks, cs)\<close> are the two vectors. A leaf has no child pointers: reading them fails.
\<close>

fun be_unfold_extra ::
    "nat \<Rightarrow> be_store \<Rightarrow> addr \<Rightarrow> u64 list \<times> addr list \<Rightarrow> (u64 list \<times> addr list) option"
  and be_unfold_extras ::
    "nat \<Rightarrow> be_store \<Rightarrow> addr list \<Rightarrow> u64 list \<Rightarrow> u64 list \<times> addr list \<Rightarrow> (u64 list \<times> addr list) option" where
  "be_unfold_extra 0 s a acc = None"
| "be_unfold_extra (Suc f) s a acc =
     (case cells s a of
        None \<Rightarrow> None
      | Some t \<Rightarrow>
          if be_height t = 0 then Some (fst acc, snd acc @ [a])
          else be_unfold_extras f s (be_chs t) (be_keys t) acc)"
| "be_unfold_extras f s [] ks acc = None"
| "be_unfold_extras f s (a # as) [] acc = be_unfold_extra f s a acc"
| "be_unfold_extras f s (a # as) (k # ks) acc =
     (case be_unfold_extra f s a acc of
        None \<Rightarrow> None
      | Some acc' \<Rightarrow> be_unfold_extras f s as ks (fst acc' @ [k], snd acc'))"

fun be_unfold_upper ::
    "nat \<Rightarrow> be_store \<Rightarrow> addr \<Rightarrow> u64 list \<times> addr list \<Rightarrow> (u64 list \<times> addr list) option"
  and be_unfold_uppers ::
    "nat \<Rightarrow> be_store \<Rightarrow> addr list \<Rightarrow> u64 list \<Rightarrow> u64 list \<times> addr list \<Rightarrow> (u64 list \<times> addr list) option" where
  "be_unfold_upper 0 s a acc = None"
| "be_unfold_upper (Suc f) s a acc =
     (case cells s a of
        None \<Rightarrow> None
      | Some t \<Rightarrow>
          if be_type t \<noteq> BOUNDARY then be_unfold_uppers f s (be_chs t) (be_keys t) acc
          else be_unfold_extras f s (be_chs t) (be_keys t) acc)"
| "be_unfold_uppers f s [] ks acc = None"
| "be_unfold_uppers f s (a # as) [] acc = be_unfold_upper f s a acc"
| "be_unfold_uppers f s (a # as) (k # ks) acc =
     (case be_unfold_upper f s a acc of
        None \<Rightarrow> None
      | Some acc' \<Rightarrow> be_unfold_uppers f s as ks (fst acc' @ [k], snd acc'))"

definition be_rebuild_internal :: "nat \<Rightarrow> addr \<Rightarrow> nat \<Rightarrow> be_store \<Rightarrow> (addr \<times> be_store) option" where
  "be_rebuild_internal f a h s = do {
     (ks, cs) \<leftarrow> be_unfold_upper f s a ([0], []);
     (t, d, s1) \<leftarrow> be_build_internal (length cs) h (zip ks cs) s;
     Some (t, s1) }"

text \<open>Whether the leftmost path reaches a leaf within \<open>h\<close> levels.\<close>

fun be_leaf_over_boundary :: "nat \<Rightarrow> be_store \<Rightarrow> addr \<Rightarrow> bool option" where
  "be_leaf_over_boundary 0 s a = do { t \<leftarrow> cells s a; Some (be_type t = BELEAF) }"
| "be_leaf_over_boundary (Suc h) s a = do {
     t \<leftarrow> cells s a;
     if be_type t = BELEAF then Some True
     else do { c \<leftarrow> nth_opt (be_chs t) 0; be_leaf_over_boundary h s c } }"

definition be_rebuild :: "nat \<Rightarrow> addr \<Rightarrow> nat \<Rightarrow> u64 \<Rightarrow> be_store \<Rightarrow> (addr \<times> be_store) option" where
  "be_rebuild f a h snapshot s = do {
     over \<leftarrow> be_leaf_over_boundary h s a;
     if over then be_rebuild_entire f a h snapshot s else be_rebuild_internal f a h s }"

text \<open>The nodes that a rebuild replaces, in the order in which the visitor is called.\<close>

fun be_visit_entire :: "nat \<Rightarrow> be_store \<Rightarrow> addr \<Rightarrow> addr list option" where
  "be_visit_entire 0 s a = None"
| "be_visit_entire (Suc f) s a =
     (case cells s a of
        None \<Rightarrow> None
      | Some t \<Rightarrow>
          if be_type t \<noteq> BELEAF
          then map_option (\<lambda>vs. concat vs @ [a]) (those (map (be_visit_entire f s) (be_chs t)))
          else Some [a])"

fun be_visit_extra :: "nat \<Rightarrow> be_store \<Rightarrow> addr \<Rightarrow> addr list option" where
  "be_visit_extra 0 s a = None"
| "be_visit_extra (Suc f) s a =
     (case cells s a of
        None \<Rightarrow> None
      | Some t \<Rightarrow>
          if be_height t = 0 then Some []
          else map_option (\<lambda>vs. concat vs @ [a]) (those (map (be_visit_extra f s) (be_chs t))))"

fun be_visit_upper :: "nat \<Rightarrow> be_store \<Rightarrow> addr \<Rightarrow> addr list option" where
  "be_visit_upper 0 s a = None"
| "be_visit_upper (Suc f) s a =
     (case cells s a of
        None \<Rightarrow> None
      | Some t \<Rightarrow>
          if be_type t = BELEAF then None
          else map_option (\<lambda>vs. concat vs @ [a])
                 (those (map (if be_type t \<noteq> BOUNDARY then be_visit_upper f s else be_visit_extra f s) (be_chs t))))"

definition be_visit_checkpoint :: "nat \<Rightarrow> be_store \<Rightarrow> addr \<Rightarrow> addr list option" where
  "be_visit_checkpoint f s a = do {
     t \<leftarrow> cells s a;
     over \<leftarrow> be_leaf_over_boundary (be_verge t) s a;
     if over then be_visit_entire f s a else be_visit_upper f s a }"

definition be_checkpoint_retired_stats :: "nat \<Rightarrow> be_store \<Rightarrow> addr \<Rightarrow> (nat \<times> nat) option" where
  "be_checkpoint_retired_stats f s a = do {
     vs \<leftarrow> be_visit_checkpoint f s a;
     ts \<leftarrow> those (map (cells s) vs);
     Some (length vs, sum_list (map be_node_size ts)) }"

fun be_free_all :: "addr list \<Rightarrow> be_store \<Rightarrow> be_store option" where
  "be_free_all [] s = Some s"
| "be_free_all (a # as) s = do { s1 \<leftarrow> be_free_node a s; be_free_all as s1 }"

definition be_free_checkpoint :: "nat \<Rightarrow> addr \<Rightarrow> be_store \<Rightarrow> be_store option" where
  "be_free_checkpoint f a s = do { vs \<leftarrow> be_visit_checkpoint f s a; be_free_all vs s }"

section \<open>The path-copying update\<close>

definition BE_SEARCH_UPPER :: nat where "BE_SEARCH_UPPER = 1"
definition BE_SEARCH_ELASTIC :: nat where "BE_SEARCH_ELASTIC = 2"
definition BE_SEARCH_LOWER :: nat where "BE_SEARCH_LOWER = 3"
definition BE_SEARCH_SPLIT :: nat where "BE_SEARCH_SPLIT = 4"

record be_ctx = ctx +
  b_split_idx :: nat

definition be_leaf_of_records :: "u32 \<Rightarrow> leaf_record list \<Rightarrow> be_node" where
  "be_leaf_of_records ver rs =
     (be_new_leaf ver (length rs))\<lparr>be_keys := map lr_key rs, be_vals := map lr_value rs\<rparr>"

definition be_materialize_leaf_cow ::
    "be_node \<Rightarrow> u32 \<Rightarrow> u64 \<Rightarrow> u64 \<Rightarrow> be_store \<Rightarrow> ((u64 \<times> addr \<times> addr) \<times> be_store) option" where
  "be_materialize_leaf_cow t sno key val s =
     (let all = be_leaf_records t (ucast sno) @ [\<lparr>lr_key = key, lr_value = val, lr_version = ucast sno\<rparr>];
          records = newest_runs (sort_records all);
          n = length records
      in if length all > (2 * BT_B - 1) + BT_MAX_FAT_SLOTS + 1 then None
         else if n \<le> 2 * BT_B - 1
              then let (l, s1) = alloc ((be_leaf_of_records sno records)\<lparr>be_verge := be_verge t\<rparr>) s
                   in Some ((key, l, nullptr), s1)
              else let (l, s1) = alloc (be_leaf_of_records sno (take (n div 2) records)) s;
                       (r, s2) = alloc (be_leaf_of_records sno (drop (n div 2) records)) s1
                   in Some ((lr_key (records ! (n div 2)), l, r), s2))"

definition be_leaf_with :: "u32 \<Rightarrow> u64 list \<Rightarrow> u64 list \<Rightarrow> be_node" where
  "be_leaf_with ver ks vs = (be_new_leaf ver (length ks))\<lparr>be_keys := ks, be_vals := vs\<rparr>"

text \<open>The two halves of a full leaf with the new entry in its place, keys and values alike.\<close>

definition be_halves :: "'a list \<Rightarrow> nat \<Rightarrow> 'a \<Rightarrow> ('a list \<times> 'a list) option" where
  "be_halves xs i x =
     (if i < BT_B
      then do {
        l \<leftarrow> array_copy_insert (replicate BT_B x) xs (BT_B - 1) i x;
        r \<leftarrow> array_copy (replicate BT_B x) (drop (BT_B - 1) xs) BT_B;
        Some (l, r) }
      else do {
        l \<leftarrow> array_copy (replicate BT_B x) xs BT_B;
        r \<leftarrow> array_copy_insert (replicate BT_B x) (drop BT_B xs) (BT_B - 1) (i - BT_B) x;
        Some (l, r) })"

definition be_split_leaf :: "u32 \<Rightarrow> be_node \<Rightarrow> u64 \<Rightarrow> u64 \<Rightarrow> be_store \<Rightarrow> ((u64 \<times> addr \<times> addr) \<times> be_store) option" where
  "be_split_leaf ver t key val s = do {
     let i = be_findval t key;
     (lk, rk) \<leftarrow> be_halves (be_keys t) i key;
     (lv, rv) \<leftarrow> be_halves (be_vals t) i val;
     let (l, s1) = alloc (be_leaf_with ver lk lv) s;
     let (r, s2) = alloc (be_leaf_with ver rk rv) s1;
     Some ((rk ! 0, l, r), s2) }"

definition be_update_leaf_cow ::
    "be_node \<Rightarrow> be_ctx \<Rightarrow> be_store \<Rightarrow> ((u64 \<times> addr \<times> addr) \<times> be_store) option" where
  "be_update_leaf_cow t c s =
     (if supported_fat_slots (c_fat_slots c)
      then be_materialize_leaf_cow t (c_sno c) (c_key c) (c_val c) s
      else
        let ver = c_sno c; key = c_key c; val = c_val c; i = be_findval t key; sz = be_size t
        in if i < sz \<and> be_keys t ! i = key
           then let n = be_copy_leaf t ver;
                    (a, s1) = alloc (n\<lparr>be_vals := (be_vals n)[i := val]\<rparr>) s
                in Some ((key, a, nullptr), s1)
           else if sz < 2 * BT_B - 1
           then do {
             ks \<leftarrow> array_copy_insert (replicate (sz + 1) 0) (be_keys t) sz i key;
             vs \<leftarrow> array_copy_insert (replicate (sz + 1) 0) (be_vals t) sz i val;
             let (a, s1) = alloc ((be_leaf_with ver ks vs)\<lparr>be_verge := be_verge t\<rparr>) s;
             Some ((key, a, nullptr), s1) }
           else be_split_leaf ver t key val s)"

text \<open>As in the radix trees, the pointer stored through \<^verbatim>\<open>tp\<close> is returned.\<close>

definition be_update_upper_cow :: "be_ctx \<Rightarrow> be_store \<Rightarrow> (nat \<times> addr \<times> be_ctx \<times> be_store) option" where
  "be_update_upper_cow c s = do {
     let pa = c_t_past c;
     p \<leftarrow> cells s pa;
     if be_type p = BELEAF then do {
       ((k, l, r), s1) \<leftarrow> be_update_leaf_cow p c s;
       let (a, s2) = (if r = nullptr then (l, s1)
                      else alloc ((be_new_root (c_sno c) k l r)\<lparr>be_verge := be_verge p, be_type := BOUNDARY\<rparr>) s1);
       Some (OP_DONE, a, retire_replaced pa c, s2) }
     else do {
       let (a, s1) = alloc (be_copy_internal p (c_sno c)) s;
       let c1 = retire_replaced pa c;
       if be_type p = BOUNDARY then Some (BE_SEARCH_ELASTIC, a, c1\<lparr>c_wait_child := True\<rparr>, s1)
       else Some (BE_SEARCH_UPPER, a, c1, s1) } }"

definition be_update_lower_cow :: "be_ctx \<Rightarrow> be_store \<Rightarrow> (nat \<times> be_ctx \<times> be_store) option" where
  "be_update_lower_cow c s = do {
     cur \<leftarrow> cells s (c_t_cur c);
     let i = be_findch cur (c_key c);
     pa \<leftarrow> nth_opt (be_chs cur) i;
     p \<leftarrow> cells s pa;
     let c = c\<lparr>c_t_past := pa\<rparr>;
     if be_type p = BELEAF then do {
       ((k, l, r), s1) \<leftarrow> be_update_leaf_cow p c s;
       cur' \<leftarrow> (if r = nullptr then Some (cur\<lparr>be_chs := (be_chs cur)[i := l]\<rparr>)
               else be_insert_child cur k l r i);
       s2 \<leftarrow> put (c_t_cur c) cur' s1;
       Some (OP_DONE, retire_replaced pa c, s2) }
     else if be_size p = 2 * BT_B - 1 then do {
       (k, l, r) \<leftarrow> be_split p (c_sno c);
       let (la, s1) = alloc l s;
       let (ra, s2) = alloc r s1;
       cur' \<leftarrow> be_insert_child cur k la ra i;
       s3 \<leftarrow> put (c_t_cur c) cur' s2;
       Some (BE_SEARCH_SPLIT, retire_replaced pa (c\<lparr>b_split_idx := i\<rparr>), s3) }
     else do {
       let (na, s1) = alloc (be_copy_internal p (c_sno c)) s;
       s2 \<leftarrow> put (c_t_cur c) (cur\<lparr>be_chs := (be_chs cur)[i := na]\<rparr>) s1;
       Some (BE_SEARCH_LOWER, retire_replaced pa (c\<lparr>c_t_cur := na\<rparr>), s2) } }"

section \<open>The handlers\<close>

definition be_cow_begin :: "be_ctx \<Rightarrow> be_store \<Rightarrow> (nat \<times> be_ctx \<times> be_store) option" where
  "be_cow_begin c s = do {
     (op, a, c1, s1) \<leftarrow> be_update_upper_cow c s;
     Some (op, c1\<lparr>c_root := a, c_t_cur := a\<rparr>, s1) }"

definition be_handle_init :: "be_ctx \<Rightarrow> be_store \<Rightarrow> (nat \<times> be_ctx \<times> be_store) option" where
  "be_handle_init c s =
     (if supported_fat_slots (c_fat_slots c) then do {
        leaf \<leftarrow> be_descend s (c_t_past c) (c_key c);
        (ok, s1) \<leftarrow> be_append_leaf_delta leaf (c_fat_slots c) (ucast (c_sno c)) (c_key c) (c_val c) s;
        if ok then Some (OP_DONE, c\<lparr>c_root := c_t_past c\<rparr>, s1)
        else be_cow_begin c s1 }
      else be_cow_begin c s)"

definition be_handle_upper :: "be_ctx \<Rightarrow> be_store \<Rightarrow> (nat \<times> be_ctx \<times> be_store) option" where
  "be_handle_upper c s = do {
     s1 \<leftarrow> be_copych (c_t_cur c) (c_t_past c) s;
     past \<leftarrow> cells s1 (c_t_past c);
     let i = be_findch past (c_key c);
     pa \<leftarrow> nth_opt (be_chs past) i;
     (op, a, c1, s2) \<leftarrow> be_update_upper_cow (c\<lparr>c_t_past := pa\<rparr>) s1;
     cur \<leftarrow> cells s2 (c_t_cur c);
     s3 \<leftarrow> put (c_t_cur c) (cur\<lparr>be_chs := (be_chs cur)[i := a]\<rparr>) s2;
     Some (op, c1\<lparr>c_t_cur := a\<rparr>, s3) }"

definition be_handle_elastic :: "be_ctx \<Rightarrow> be_store \<Rightarrow> (nat \<times> be_ctx \<times> be_store) option" where
  "be_handle_elastic c s = do {
     let ca = c_t_cur c;
     s1 \<leftarrow> be_copych ca (c_t_past c) s;
     past0 \<leftarrow> cells s1 (c_t_past c);
     let i = be_findch past0 (c_key c);
     pa \<leftarrow> nth_opt (be_chs past0) i;
     p \<leftarrow> cells s1 pa;
     cur \<leftarrow> cells s1 ca;
     let c = c\<lparr>c_t_past := pa\<rparr>;
     if be_type p = BELEAF then do {
       ((k, l, r), s2) \<leftarrow> be_update_leaf_cow p c s1;
       let (a, s3) = (if r = nullptr then (l, s2)
                      else alloc ((be_new_root (c_sno c) k l r)\<lparr>be_height := 1\<rparr>) s2);
       let c1 = (if r \<noteq> nullptr \<and> 1 > BE_E then c\<lparr>c_new_checkpoint := True\<rparr> else c);
       s4 \<leftarrow> put ca (cur\<lparr>be_chs := (be_chs cur)[i := a]\<rparr>) s3;
       Some (OP_DONE, retire_replaced pa c1, s4) }
     else do {
       (a, t_cur, c1, s4) \<leftarrow>
         (if be_size p < 2 * BT_B - 1 then do {
            let (na, s2) = alloc (be_copy_internal p (c_sno c)) s1;
            s3 \<leftarrow> be_copych na pa s2;
            Some (na, na, c, s3) }
          else do {
            (k, l, r) \<leftarrow> be_split p (c_sno c);
            let (la, s2) = alloc l s1;
            let (ra, s3) = alloc r s2;
            let h = be_height p + 1;
            let (root, s4) = alloc ((be_new_root (c_sno c) k la ra)\<lparr>be_height := h\<rparr>) s3;
            s5 \<leftarrow> be_copych_split la ra pa s4;
            Some (root, if c_key c < k then la else ra,
                  if h > BE_E then c\<lparr>c_new_checkpoint := True\<rparr> else c, s5) });
       s5 \<leftarrow> put ca (cur\<lparr>be_chs := (be_chs cur)[i := a]\<rparr>) s4;
       be_update_lower_cow (retire_replaced pa (c1\<lparr>c_t_cur := t_cur\<rparr>)) s5 } }"

definition be_handle_lower :: "be_ctx \<Rightarrow> be_store \<Rightarrow> (nat \<times> be_ctx \<times> be_store) option" where
  "be_handle_lower c s = do {
     s1 \<leftarrow> be_copych (c_t_cur c) (c_t_past c) s;
     be_update_lower_cow c s1 }"

definition be_handle_split :: "be_ctx \<Rightarrow> be_store \<Rightarrow> (nat \<times> be_ctx \<times> be_store) option" where
  "be_handle_split c s = do {
     let i = b_split_idx c;
     cur \<leftarrow> cells s (c_t_cur c);
     t0 \<leftarrow> nth_opt (be_chs cur) i;
     t1 \<leftarrow> nth_opt (be_chs cur) (i + 1);
     s1 \<leftarrow> be_copych_split t0 t1 (c_t_past c) s;
     k \<leftarrow> nth_opt (be_keys cur) i;
     be_update_lower_cow (c\<lparr>c_t_cur := (if k \<le> c_key c then t1 else t0)\<rparr>) s1 }"

definition be_table :: "(be_ctx, be_store) handler_table" where
  "be_table =
     [Some be_handle_init, Some be_handle_upper, Some be_handle_elastic,
      Some be_handle_lower, Some be_handle_split,
      None, None, None, None, None, None, None, None, None, None, None]"

definition be_handlers :: "nat \<Rightarrow> be_ctx \<Rightarrow> be_store \<Rightarrow> (nat \<times> be_ctx \<times> be_store) option" where
  "be_handlers = call_handler be_table"

lemma be_handlers_eq:
  "be_handlers op =
     (if op = OP_INIT then be_handle_init
      else if op = BE_SEARCH_UPPER then be_handle_upper
      else if op = BE_SEARCH_ELASTIC then be_handle_elastic
      else if op = BE_SEARCH_LOWER then be_handle_lower
      else if op = BE_SEARCH_SPLIT then be_handle_split
      else (\<lambda>c s. None))"
proof (cases "op < 16")
  case True
  then have "op \<in> set [0..<16]" by simp
  then show ?thesis
    unfolding be_handlers_def be_table_def call_handler_def
    by (auto simp: upt_rec OP_INIT_def BE_SEARCH_UPPER_def BE_SEARCH_ELASTIC_def BE_SEARCH_LOWER_def BE_SEARCH_SPLIT_def)
qed (simp add: be_handlers_def be_table_def OP_INIT_def BE_SEARCH_UPPER_def BE_SEARCH_ELASTIC_def BE_SEARCH_LOWER_def BE_SEARCH_SPLIT_def)

definition be_exec :: "be_ctx \<Rightarrow> be_store \<Rightarrow> (be_ctx \<times> be_store) option" where
  "be_exec c s = do {
     (op, c1, s1) \<leftarrow> be_handlers OP_INIT c s;
     run_handlers be_handlers op c1 s1 }"

definition be_checkpoint_handler :: "nat \<Rightarrow> be_ctx \<Rightarrow> be_store \<Rightarrow> (be_ctx \<times> be_store) option" where
  "be_checkpoint_handler f c s = do {
     p \<leftarrow> cells s (c_t_past c);
     (a, s1) \<leftarrow> be_rebuild f (c_t_past c) (be_verge p) (ucast (c_sno c)) s;
     Some (c\<lparr>c_root := a\<rparr>, s1) }"

definition be_pipeline_fat_begin :: "bool \<Rightarrow> be_ctx \<Rightarrow> be_store \<Rightarrow> (nat \<times> be_ctx \<times> be_store) option" where
  "be_pipeline_fat_begin can_append c s = (if can_append then be_handle_init c s else be_cow_begin c s)"

definition be_concurrent_fat_cow_begin :: "be_ctx \<Rightarrow> be_store \<Rightarrow> (nat \<times> be_ctx \<times> be_store) option" where
  "be_concurrent_fat_cow_begin c s = be_cow_begin (if c_fat_slots c = 0 then c\<lparr>c_fat_slots := 2\<rparr> else c) s"

end
