(* ===== verification/Dispatch.thy ===== *)
theory Dispatch
  imports BT_Properties ART_Cow AERT_Cow BE_Cow
begin

text \<open>
  The schedulers call \<^verbatim>\<open>T::handlers[ctx->op](ctx)\<close> through a table of sixteen function pointers, most
  of them null (\<open>bt_table\<close> and the others, next to the handlers of each tree). Every handler of every tree
  returns the index of an entry that its table has, or DONE, so the loop calls no null pointer.
\<close>

definition yields :: "nat set \<Rightarrow> nat \<times> 'c \<times> 's \<Rightarrow> bool" where
  "yields ops r \<longleftrightarrow> fst r \<in> ops"

text \<open>The codes that lead from one handler to the next.\<close>

abbreviation bt_ops :: "nat set" where "bt_ops \<equiv> {BT_SEARCH_DOWN, BT_SEARCH_SPLIT, BT_FAT_APPEND, BT_MATERIALIZE, OP_DONE}"
abbreviation art_ops :: "nat set" where "art_ops \<equiv> {ART_SEARCH, ART_INSERT, ART_FORK, OP_DONE}"
abbreviation aert_ops :: "nat set" where "aert_ops \<equiv> {AERT_SEARCH, AERT_INSERT, AERT_FORK, AERT_SPLIT, OP_DONE}"
abbreviation be_ops :: "nat set" where
  "be_ops \<equiv> {BE_SEARCH_UPPER, BE_SEARCH_ELASTIC, BE_SEARCH_LOWER, BE_SEARCH_SPLIT, OP_DONE}"

lemmas table_codes = OP_INIT_def OP_DONE_def BT_SEARCH_DOWN_def BT_SEARCH_SPLIT_def BT_FAT_APPEND_def BT_MATERIALIZE_def
  ART_SEARCH_def ART_INSERT_def ART_FORK_def AERT_SEARCH_def AERT_INSERT_def AERT_FORK_def AERT_SPLIT_def
  BE_SEARCH_UPPER_def BE_SEARCH_ELASTIC_def BE_SEARCH_LOWER_def BE_SEARCH_SPLIT_def

section \<open>B+Tree\<close>

lemma bt_update_yields: "opt_all (yields bt_ops) (bt_update_cow c s)"
  unfolding bt_update_cow_def by (intro opt_intros) (simp_all add: yields_def)

lemma bt_init_cow_yields: "opt_all (yields bt_ops) (bt_handle_init_cow c s)"
  unfolding bt_handle_init_cow_def
  by (intro opt_intros) (auto simp: yields_def dest!: opt_allD [OF bt_update_yields])

lemma bt_init_yields: "opt_all (yields bt_ops) (bt_handle_init c s)"
  unfolding bt_handle_init_def by (intro opt_intros bt_init_cow_yields) (simp_all add: yields_def)

lemma bt_stage_yields:
  "opt_all (yields bt_ops) (bt_handle_search_down c s)" "opt_all (yields bt_ops) (bt_handle_search_split c s)"
  "opt_all (yields bt_ops) (bt_handle_fat_append c s)" "opt_all (yields bt_ops) (bt_handle_materialize c s)"
  unfolding bt_handle_search_down_def bt_handle_search_split_def bt_handle_fat_append_def bt_handle_materialize_def
  by (intro opt_intros bt_update_yields; simp add: yields_def)+

lemma bt_table_runs: "op \<in> bt_ops \<Longrightarrow> runnable bt_table op"
  by (auto simp: runnable_def bt_table_def table_codes)

lemma bt_handlers_yield: "bt_handlers op c s = Some (op', c', s') \<Longrightarrow> op' \<in> bt_ops"
  using bt_init_yields [of c s] bt_stage_yields [of c s]
  by (auto simp: bt_handlers_eq opt_all_def yields_def split: if_splits)

text \<open>
  C11: the loop of a scheduler never calls a null entry of the B+Tree's table of sixteen handlers. From
  \<open>handlers[0]\<close>, whatever context and store it starts from, after any number of calls the code in the
  context is DONE or the index of an entry that is there.
\<close>

theorem bt_dispatch_total:
  assumes "dispatched bt_table (OP_INIT, c, s) (op', c', s')"
  shows "op' = OP_DONE \<or> (\<exists>h. op' < 16 \<and> bt_table ! op' = Some h)"
  using dispatched_runnable [OF assms] bt_table_runs bt_handlers_yield [unfolded bt_handlers_def]
  by (auto simp: runnable_def bt_table_def table_codes)

theorem bt_dispatch_total_witness:
  "\<exists>op c s. dispatched bt_table (OP_INIT, ex_ctx, ex_store) (op, c, s) \<and> op \<noteq> OP_INIT \<and>
     (op = OP_DONE \<or> (\<exists>h. op < 16 \<and> bt_table ! op = Some h))"
proof -
  obtain c' s' where "bt_exec ex_ctx ex_store = Some (c', s')" using bt_exec_runs [OF ex_wf ex_task] by blast
  then obtain op c s where run: "bt_handlers OP_INIT ex_ctx ex_store = Some (op, c, s)"
    by (auto simp: bt_exec_def bind_Some_iff)
  have d: "dispatched bt_table (OP_INIT, ex_ctx, ex_store) (op, c, s)"
    by (rule dispatched.next_op [OF dispatched.first]) (use run in \<open>simp_all add: bt_handlers_def OP_INIT_def OP_DONE_def\<close>)
  have "op \<noteq> OP_INIT" using bt_handlers_yield [OF run] by (auto simp: table_codes)
  with d bt_dispatch_total [OF d] show ?thesis by blast
qed

section \<open>Radix trees\<close>

lemma art_update_yields: "opt_all (yields art_ops) (art_update_cow c s)"
  unfolding art_update_cow_def by (intro opt_intros) (simp_all add: yields_def split: prod.split)

lemma art_begin_yields: "opt_all (yields art_ops) (art_cow_begin c s)"
  unfolding art_cow_begin_def
  by (intro opt_intros) (auto simp: yields_def dest!: opt_allD [OF art_update_yields])

lemma yields_result: "opt_all (yields ops) m \<Longrightarrow> m = Some p \<Longrightarrow> p = (op, x) \<Longrightarrow> op \<in> ops"
  by (simp add: opt_all_def yields_def)

lemma yields_done: "OP_DONE \<in> ops \<Longrightarrow> yields ops (OP_DONE, x)"
  by (simp add: yields_def)

lemma yieldsI: "op \<in> ops \<Longrightarrow> yields ops (op, x)"
  by (simp add: yields_def)

lemma art_init_yields: "opt_all (yields art_ops) (art_handle_init c s)"
  unfolding art_handle_init_def by (intro opt_intros art_begin_yields) (simp add: yields_def)

lemma art_search_yields: "opt_all (yields art_ops) (art_handle_search c s)"
  unfolding art_handle_search_def
  by (intro opt_intros; erule yieldsI [OF yields_result [OF art_update_yields]])

lemma art_last_yields:
  "opt_all (yields art_ops) (art_handle_insert c s)"  "opt_all (yields art_ops) (art_handle_fork c s)"
  unfolding art_handle_insert_def art_handle_fork_def by (intro opt_intros yields_done; simp)+

lemma aert_update_yields: "opt_all (yields aert_ops) (aert_update_cow c s)"
  unfolding aert_update_cow_def by (intro opt_intros) (simp_all add: yields_def split: prod.split)

lemma aert_begin_yields: "opt_all (yields aert_ops) (aert_cow_begin c s)"
  unfolding aert_cow_begin_def
  by (intro opt_intros) (auto simp: yields_def dest!: opt_allD [OF aert_update_yields])

lemma aert_init_yields: "opt_all (yields aert_ops) (aert_handle_init c s)"
  unfolding aert_handle_init_def by (intro opt_intros aert_begin_yields) (simp add: yields_def)

lemma aert_search_yields: "opt_all (yields aert_ops) (aert_handle_search c s)"
  unfolding aert_handle_search_def
  by (intro opt_intros; erule yieldsI [OF yields_result [OF aert_update_yields]])

lemma aert_split_yields: "opt_all (yields aert_ops) (aert_handle_split c s)"
  unfolding aert_handle_split_def by (intro opt_intros yields_done) simp

lemma aert_insert_yields: "opt_all (yields aert_ops) (aert_handle_insert c s)"
  unfolding aert_handle_insert_def by (rule opt_intros)+ (rule yields_done, simp (no_asm))

lemma aert_fork_yields: "opt_all (yields aert_ops) (aert_handle_fork c s)"
  unfolding aert_handle_fork_def by (intro opt_intros yields_done) simp

lemmas aert_last_yields = aert_split_yields aert_insert_yields aert_fork_yields

section \<open>B+-like tree with an elastic part\<close>

lemma be_lower_yields: "opt_all (yields be_ops) (be_update_lower_cow c s)"
  unfolding be_update_lower_cow_def by (intro opt_intros) (simp_all add: yields_def)

lemma be_upper_yields: "opt_all (yields be_ops) (be_update_upper_cow c s)"
  unfolding be_update_upper_cow_def by (intro opt_intros) (simp_all add: yields_def)

lemma be_begin_yields: "opt_all (yields be_ops) (be_cow_begin c s)"
  unfolding be_cow_begin_def
  by (intro opt_intros) (auto simp: yields_def dest!: opt_allD [OF be_upper_yields])

lemma be_init_yields: "opt_all (yields be_ops) (be_handle_init c s)"
  unfolding be_handle_init_def by (intro opt_intros be_begin_yields) (simp add: yields_def)

lemma be_upper_stage_yields: "opt_all (yields be_ops) (be_handle_upper c s)"
  unfolding be_handle_upper_def
  by (intro opt_intros; erule yieldsI [OF yields_result [OF be_upper_yields]])

lemma be_elastic_yields: "opt_all (yields be_ops) (be_handle_elastic c s)"
  unfolding be_handle_elastic_def by (intro opt_intros be_lower_yields) (simp only: yields_def fst_conv, simp)

lemma be_last_yields:
  "opt_all (yields be_ops) (be_handle_lower c s)" "opt_all (yields be_ops) (be_handle_split c s)"
  unfolding be_handle_lower_def be_handle_split_def by (intro opt_intros be_lower_yields)+

section \<open>The three tables\<close>

lemma art_table_yields: "opt_all (yields art_ops) (art_handlers op c s)"
  unfolding art_handlers_eq
  by (simp add: art_init_yields art_search_yields art_last_yields)

lemma aert_table_yields: "opt_all (yields aert_ops) (aert_handlers op c s)"
  unfolding aert_handlers_eq
  by (simp add: aert_init_yields aert_search_yields aert_last_yields)

lemma be_table_yields: "opt_all (yields be_ops) (be_handlers op c s)"
  unfolding be_handlers_eq
  by (simp add: be_init_yields be_upper_stage_yields be_elastic_yields be_last_yields)

lemma radix_table_runs:
  "op \<in> art_ops \<Longrightarrow> runnable art_table op" "op' \<in> aert_ops \<Longrightarrow> runnable aert_table op'"
  "op'' \<in> be_ops \<Longrightarrow> runnable be_table op''"
  by (auto simp: runnable_def art_table_def aert_table_def be_table_def table_codes)

lemma table_yieldD: "opt_all (yields ops) (H op c s) \<Longrightarrow> H op c s = Some (op', c', s') \<Longrightarrow> op' \<in> ops"
  by (auto simp: opt_all_def yields_def)

lemma tables_runnable:
  "dispatched art_table (OP_INIT, c1, s1) r1 \<Longrightarrow> runnable art_table (fst r1)"
  "dispatched aert_table (OP_INIT, c2, s2) r2 \<Longrightarrow> runnable aert_table (fst r2)"
  "dispatched be_table (OP_INIT, c3, s3) r3 \<Longrightarrow> runnable be_table (fst r3)"
proof -
  have init: "runnable art_table OP_INIT" "runnable aert_table OP_INIT" "runnable be_table OP_INIT"
    by (auto simp: runnable_def art_table_def aert_table_def be_table_def OP_INIT_def)
  show "dispatched art_table (OP_INIT, c1, s1) r1 \<Longrightarrow> runnable art_table (fst r1)"
    by (erule dispatched_runnable [OF _ init(1)])
       (rule radix_table_runs, rule table_yieldD [of _ art_handlers, OF art_table_yields], simp add: art_handlers_def)
  show "dispatched aert_table (OP_INIT, c2, s2) r2 \<Longrightarrow> runnable aert_table (fst r2)"
    by (erule dispatched_runnable [OF _ init(2)])
       (rule radix_table_runs, rule table_yieldD [of _ aert_handlers, OF aert_table_yields], simp add: aert_handlers_def)
  show "dispatched be_table (OP_INIT, c3, s3) r3 \<Longrightarrow> runnable be_table (fst r3)"
    by (erule dispatched_runnable [OF _ init(3)])
       (rule radix_table_runs, rule table_yieldD [of _ be_handlers, OF be_table_yields], simp add: be_handlers_def)
qed

text \<open>
  C12: nor does it ever call a null entry of the tables of the other three trees, from any context and
  store.
\<close>

theorem other_dispatch_total:
  "(dispatched art_table (OP_INIT, c1, s1) (op1, d1, t1) \<longrightarrow>
      op1 = OP_DONE \<or> (\<exists>h. op1 < 16 \<and> art_table ! op1 = Some h)) \<and>
   (dispatched aert_table (OP_INIT, c2, s2) (op2, d2, t2) \<longrightarrow>
      op2 = OP_DONE \<or> (\<exists>h. op2 < 16 \<and> aert_table ! op2 = Some h)) \<and>
   (dispatched be_table (OP_INIT, c3, s3) (op3, d3, t3) \<longrightarrow>
      op3 = OP_DONE \<or> (\<exists>h. op3 < 16 \<and> be_table ! op3 = Some h))"
  using tables_runnable(1) [of c1 s1 "(op1, d1, t1)"] tables_runnable(2) [of c2 s2 "(op2, d2, t2)"]
    tables_runnable(3) [of c3 s3 "(op3, d3, t3)"]
  by (auto simp: runnable_def art_table_def aert_table_def be_table_def table_codes)

text \<open>
  First calls: the empty radix trees make a leaf and are done, a boundary node of the third tree is copied
  and leads into the elastic part.
\<close>

definition dx_art :: art_ctx where
  "dx_art = ctx.extend (ctx.truncate bt_zero_ctx) (art_ctx.fields 0 0)"

definition dx_aert :: aert_ctx where
  "dx_aert = ctx.extend (ctx.truncate bt_zero_ctx) (aert_ctx.fields 0 0 0)"

definition dx_be :: be_ctx where
  "dx_be = (ctx.extend (ctx.truncate bt_zero_ctx) (be_ctx.fields 0))\<lparr>c_t_past := 1\<rparr>"

definition dx_store :: be_store where
  "dx_store = \<lparr>cells = [1 \<mapsto> \<lparr>be_ver = 0, be_type = BOUNDARY, be_verge = 0, be_height = 1, be_keys = [5], be_chs = [2, 3],
     be_vals = [], be_delta = None\<rparr>], brk = 4\<rparr>"

lemmas dx_defs = dx_art_def dx_aert_def dx_be_def bt_zero_ctx_def ctx.defs art_ctx.defs aert_ctx.defs be_ctx.defs

lemma dx_calls:
  "\<exists>c s. call_handler art_table OP_INIT dx_art \<lparr>cells = Map.empty, brk = 1\<rparr> = Some (OP_DONE, c, s)"
  "\<exists>c s. call_handler aert_table OP_INIT dx_aert \<lparr>cells = Map.empty, brk = 1\<rparr> = Some (OP_DONE, c, s)"
  "\<exists>c s. call_handler be_table OP_INIT dx_be dx_store = Some (BE_SEARCH_ELASTIC, c, s)"
  by (simp_all add: call_handler_def art_table_def aert_table_def be_table_def OP_INIT_def dx_defs dx_store_def
      art_handle_init_def art_cow_begin_def art_update_cow_def aert_handle_init_def aert_cow_begin_def aert_update_cow_def
      unembed_ptr_def extract_ptr_def aert_new_leaf_def be_handle_init_def be_cow_begin_def be_update_upper_cow_def
      supported_fat_slots_def Let_def split: prod.splits)

theorem other_dispatch_total_witness:
  "\<exists>c s d t e u. dispatched art_table (OP_INIT, dx_art, \<lparr>cells = Map.empty, brk = 1\<rparr>) (OP_DONE, c, s) \<and>
     dispatched aert_table (OP_INIT, dx_aert, \<lparr>cells = Map.empty, brk = 1\<rparr>) (OP_DONE, d, t) \<and>
     dispatched be_table (OP_INIT, dx_be, dx_store) (BE_SEARCH_ELASTIC, e, u) \<and>
     (\<exists>h. BE_SEARCH_ELASTIC < 16 \<and> be_table ! BE_SEARCH_ELASTIC = Some h)"
proof -
  obtain c s d t e u where run: "call_handler art_table OP_INIT dx_art \<lparr>cells = Map.empty, brk = 1\<rparr> = Some (OP_DONE, c, s)"
    "call_handler aert_table OP_INIT dx_aert \<lparr>cells = Map.empty, brk = 1\<rparr> = Some (OP_DONE, d, t)"
    "call_handler be_table OP_INIT dx_be dx_store = Some (BE_SEARCH_ELASTIC, e, u)" using dx_calls by blast
  have "OP_INIT \<noteq> OP_DONE" by (simp add: OP_INIT_def OP_DONE_def)
  then have *: "dispatched art_table (OP_INIT, dx_art, \<lparr>cells = Map.empty, brk = 1\<rparr>) (OP_DONE, c, s)"
    "dispatched aert_table (OP_INIT, dx_aert, \<lparr>cells = Map.empty, brk = 1\<rparr>) (OP_DONE, d, t)"
    "dispatched be_table (OP_INIT, dx_be, dx_store) (BE_SEARCH_ELASTIC, e, u)"
    using run by (blast intro: dispatched.next_op [OF dispatched.first])+
  have "BE_SEARCH_ELASTIC \<noteq> OP_DONE" by (simp add: table_codes)
  with * other_dispatch_total [of dx_art "\<lparr>cells = Map.empty, brk = 1\<rparr>" OP_DONE c s dx_aert
    "\<lparr>cells = Map.empty, brk = 1\<rparr>" OP_DONE d t dx_be dx_store BE_SEARCH_ELASTIC e u]
  show ?thesis by (intro exI [of _ c] exI [of _ s] exI [of _ d] exI [of _ t] exI [of _ e] exI [of _ u]) blast
qed

end
