(* ===== verification/Seqcow_Correct.thy ===== *)
theory Seqcow_Correct
  imports Seqcow
begin

text \<open>
  Correctness of the sequential controller in fat-node mode, for any path-copying tree that keeps the
  contract \<open>cow_tree\<close>: in every reachable state, whatever the interleaving of clients, worker, readers
  and reclaimers, the store holds every snapshot that a reader can still pin, and the snapshot of
  version \<open>v\<close> is the initial map after the first \<open>v\<close> submitted updates.
\<close>

section \<open>The contract of a tree\<close>

text \<open>
  \<open>cur s hi r F f\<close>: the newest tree, of version \<open>hi\<close>, has root \<open>r\<close>, nodes \<open>F\<close> and stands for the map \<open>f\<close>.
  \<open>snap s hi w r F f\<close>: in a store of newest version \<open>hi\<close> a reader at snapshot version \<open>w\<close> sees \<open>f\<close> below \<open>r\<close>.
  An update builds the next version, keeps every older snapshot and names the nodes it does not share;
  freeing a node keeps every tree that does not contain it.
\<close>

locale cow_tree =
  fixes I :: "('z, 's) tree_ops"
    and slots :: nat
    and idle :: "'z ctx_scheme \<Rightarrow> bool"
    and ok :: "'s \<Rightarrow> bool"
    and top :: "'s \<Rightarrow> addr"
    and live :: "'s \<Rightarrow> addr set"
    and cur :: "'s \<Rightarrow> u32 \<Rightarrow> addr \<Rightarrow> addr set \<Rightarrow> (u64 \<Rightarrow> u64 option) \<Rightarrow> bool"
    and snap :: "'s \<Rightarrow> u32 \<Rightarrow> u64 \<Rightarrow> addr \<Rightarrow> addr set \<Rightarrow> (u64 \<Rightarrow> u64 option) \<Rightarrow> bool"
  assumes idle_more: "ctx.more c = ctx.more d \<Longrightarrow> idle c = idle d"
    and live_top: "ok s \<Longrightarrow> a \<in> live s \<Longrightarrow> 0 < a \<and> a < top s"
    and snap_live: "snap s hi w r F f \<Longrightarrow> F \<subseteq> live s"
    and cur_snap: "cur s hi r F f \<Longrightarrow> snap s hi (ucast hi) r F f"
    and exec: "ok s \<Longrightarrow> cur s hi r F f \<Longrightarrow> c_t_past c = r \<Longrightarrow> hi < c_sno c \<Longrightarrow> c_fat_slots c = slots \<Longrightarrow>
      idle c \<Longrightarrow> retired_ok c \<Longrightarrow> c_retired_count c = 0 \<Longrightarrow>
      \<exists>c' s' F'. ti_exec I c s = Some (c', s') \<and> ok s' \<and> top s \<le> top s' \<and> live s \<subseteq> live s' \<and>
        cur s' (c_sno c) (c_root c') F' (f(c_key c \<mapsto> c_val c)) \<and> F' \<subseteq> F \<union> {top s..<top s'} \<and>
        idle c' \<and> retired_ok c' \<and>
        (c_gc_enabled c \<longrightarrow> set (retired_nodes c') = F - F' \<and> distinct (retired_nodes c')) \<and>
        (\<forall>w r0 F0 f0. snap s hi w r0 F0 f0 \<longrightarrow> w < ucast (c_sno c) \<longrightarrow> snap s' (c_sno c) w r0 F0 f0)"
    and free: "ok s \<Longrightarrow> a \<in> live s \<Longrightarrow>
      \<exists>s'. ti_free I a s = Some s' \<and> ok s' \<and> top s' = top s \<and> live s' = live s - {a} \<and>
        (\<forall>hi w r F f. snap s hi w r F f \<longrightarrow> a \<notin> F \<longrightarrow> snap s' hi w r F f) \<and>
        (\<forall>hi r F f. cur s hi r F f \<longrightarrow> a \<notin> F \<longrightarrow> cur s' hi r F f)"

section \<open>The specification: a log of updates\<close>

definition content :: "(u64 \<Rightarrow> u64 option) \<Rightarrow> (u64 \<times> u64) list \<Rightarrow> nat \<Rightarrow> u64 \<Rightarrow> u64 option" where
  "content m log v = foldl (\<lambda>m e. m(fst e \<mapsto> snd e)) m (take v log)"

lemma content_0 [simp]: "content m log 0 = m"
  by (simp add: content_def)

lemma content_Suc: "v < length log \<Longrightarrow> content m log (Suc v) = (content m log v)(fst (log ! v) \<mapsto> snd (log ! v))"
  by (simp add: content_def take_Suc_conv_app_nth)

lemma content_append [simp]: "v \<le> length log \<Longrightarrow> content m (log @ es) v = content m log v"
  by (simp add: content_def)

abbreviation q_sub :: "('z, 's) seqcow \<Rightarrow> nat" where "q_sub q \<equiv> unat (q_submitted q)"
abbreviation q_com :: "('z, 's) seqcow \<Rightarrow> nat" where "q_com q \<equiv> unat (q_committed q)"
abbreviation q_loc :: "('z, 's) seqcow \<Rightarrow> nat" where "q_loc q \<equiv> unat (q_com_local q)"
abbreviation q_nxt :: "('z, 's) seqcow \<Rightarrow> nat" where "q_nxt q \<equiv> unat (q_com_next q)"

section \<open>Words\<close>

lemma ucast_of_nat_32_64: "n < 2 ^ 32 \<Longrightarrow> (ucast (of_nat n :: u32) :: u64) = of_nat n"
  by (simp add: word_unat_eq_iff unat_of_nat)

lemma of_nat_32_less: "n < m \<Longrightarrow> m < 2 ^ 32 \<Longrightarrow> (of_nat n :: u32) < of_nat m"
  by (simp add: word_less_nat_alt unat_of_nat)

lemma of_nat_64_less: "n < m \<Longrightarrow> m < 2 ^ 32 \<Longrightarrow> (of_nat n :: u64) < of_nat m"
  by (simp add: word_less_nat_alt unat_of_nat)

lemma unat_Suc_64: "unat (x :: u64) < 2 ^ 64 - 1 \<Longrightarrow> unat (x + 1) = Suc (unat x)"
  by (simp add: unat_word_ariths)

lemma ucast_64_32_of_nat: "(ucast (x :: u64) :: u32) = of_nat (unat x)"
  by (simp add: word_unat_eq_iff unat_of_nat unsigned_ucast_eq take_bit_eq_mod)

lemma ring_unat: "ring t = unat t mod 65536"
  by (simp add: ring_def BUFFER_SIZE_def)

text \<open>Tickets in a window shorter than the ring use different cells.\<close>

lemma ring_distinct: "i < j \<Longrightarrow> j < i + 65536 \<Longrightarrow> i mod 65536 \<noteq> j mod (65536 :: nat)"
  by (metis add_diff_inverse_nat less_imp_not_less mod_eq_dvd_iff_nat less_or_eq_imp_le nat_dvd_not_less
      zero_less_diff add_less_cancel_left)

lemma window_word: "unat (x :: u64) < 2 ^ 33 \<Longrightarrow> (y < x + of_nat BUFFER_SIZE) = (unat y < unat x + 65536)"
proof -
  assume "unat x < 2 ^ 33"
  then have "unat (x + of_nat BUFFER_SIZE) = unat x + 65536"
    by (simp add: unat_word_ariths BUFFER_SIZE_def)
  then show ?thesis by (simp add: word_less_nat_alt)
qed

section \<open>The invariant\<close>

text \<open>
  Tickets: committed, local, executed and submitted counters in this order, the window shorter than the
  ring, the ticket of the client that holds the lock next in line.
\<close>

definition tickets :: "nat \<Rightarrow> ('z, 's) seqcow \<Rightarrow> bool" where
  "tickets slots q \<longleftrightarrow>
     q_fat_slots q = slots \<and>
     q_com q \<le> q_loc q \<and> q_loc q \<le> q_nxt q \<and> q_nxt q \<le> q_sub q \<and> q_sub q = length (q_log q) \<and>
     q_sub q < 2 ^ 32 \<and> q_sub q < q_com q + 65536 \<and> unat (q_sub_local q) \<le> q_sub q \<and>
     q_nxt q \<le> unat (q_sub_local q) \<and>
     (q_stop_local q \<or> q_phase q = W_STOPPED \<longrightarrow> q_stop q) \<and>
     (q_phase q \<noteq> W_EXEC \<longrightarrow> q_nxt q = q_loc q) \<and>
     (if q_phase q \<in> {W_PUBLISH, W_COMMIT} then q_com q < q_loc q else q_com q = q_loc q) \<and>
     (\<forall>cl. q_lock q = Some cl \<longrightarrow>
        q_pend q cl = Some (q_submitted q + 1) \<and> q_sub q + 1 < 2 ^ 32 \<and> q_sub q + 1 < q_com q + 65536)"

text \<open>A context that holds the task of ticket \<open>t\<close>.\<close>

definition filled :: "nat \<Rightarrow> bool \<Rightarrow> nat \<Rightarrow> 'z ctx_scheme \<Rightarrow> bool" where
  "filled slots gc_on t c \<longleftrightarrow> c_sno c = of_nat t \<and> c_fat_slots c = slots \<and> c_gc_enabled c = gc_on"

definition cells_ok ::
    "('z ctx_scheme \<Rightarrow> bool) \<Rightarrow> nat \<Rightarrow> bool \<Rightarrow> (nat \<Rightarrow> addr) \<Rightarrow> ('z, 's) seqcow \<Rightarrow> bool" where
  "cells_ok idle slots gc_on rts q \<longleftrightarrow>
     (\<forall>i. idle (q_ctxs q i) \<and> retired_ok (q_ctxs q i) \<and> c_retired_count (q_ctxs q i) = 0) \<and>
     c_root (q_ctxs q (q_nxt q mod 65536)) = rts (q_nxt q) \<and>
     (\<forall>t. q_nxt q \<le> t \<and> t < q_sub q \<longrightarrow>
        filled slots gc_on (Suc t) (q_ctxs q (Suc t mod 65536)) \<and>
        (c_key (q_ctxs q (Suc t mod 65536)), c_val (q_ctxs q (Suc t mod 65536))) = q_log q ! t) \<and>
     (q_lock q \<noteq> None \<longrightarrow> filled slots gc_on (Suc (q_sub q)) (q_ctxs q (Suc (q_sub q) mod 65536)))"

text \<open>The publication protocol runs underneath, and publishes what the worker has executed.\<close>

definition protocol_ok :: "addr \<Rightarrow> nat \<Rightarrow> bool \<Rightarrow> (nat \<Rightarrow> addr) \<Rightarrow> ('z, 's) seqcow \<Rightarrow> bool" where
  "protocol_ok t0 n gc_on rts q \<longleftrightarrow>
     gc_reach t0 n gc_on (q_gc q) \<and>
     (\<forall>p \<in> gs_pubs (q_gc q). unat (snd p) \<le> q_loc q \<and> fst p = rts (unat (snd p))) \<and>
     (if q_phase q = W_PUBLISH
      then gs_count (q_gc q) + (if gs_pub (q_gc q) = PUB_IDLE then 2 else 1) \<le> 2 * q_loc q
      else gs_pub (q_gc q) = PUB_IDLE \<and> gs_count (q_gc q) \<le> 2 * q_loc q) \<and>
     (\<forall>r v. gs_pub (q_gc q) = PUB_ROOT r v \<or> gs_pub (q_gc q) = PUB_VERSION r v \<longrightarrow> unat v = q_loc q) \<and>
     q_com q \<le> unat (g_version (gs_gc (q_gc q))) \<and>
     (q_phase q = W_PUBLISH \<and> gs_pub (q_gc q) = PUB_END \<or> q_phase q = W_COMMIT \<longrightarrow>
        unat (g_version (gs_gc (q_gc q))) = q_loc q) \<and>
     (\<forall>t i m w. gs_rc (q_gc q) t = RC_SCAN i m w \<longrightarrow> unat w \<le> q_com q) \<and>
     (gs_rc (q_gc q) 0 \<noteq> RC_IDLE \<longrightarrow> q_phase q = W_RECLAIM)"

text \<open>A pending batch: the nodes of the version before it that its own version does not share.\<close>

definition batch_ok :: "(nat \<Rightarrow> addr set) \<Rightarrow> nat \<Rightarrow> addr set \<Rightarrow> retire_batch \<Rightarrow> bool" where
  "batch_ok Fs n lv b \<longleftrightarrow>
     (\<exists>v < n. unat (rb_version b) = Suc v \<and> set (rb_nodes b) = Fs v - Fs (Suc v)) \<and>
     distinct (rb_nodes b) \<and> rb_checkpoint b = nullptr \<and> set (rb_nodes b) \<subseteq> lv"

text \<open>The nodes of the batches that a reclamation up to version \<open>safe\<close> pops.\<close>

definition reclaimed :: "u64 \<Rightarrow> ('z, 's) seqcow \<Rightarrow> addr set" where
  "reclaimed safe q = \<Union>(set ` rb_nodes ` set (takeWhile (\<lambda>b. rb_version b \<le> safe) (g_retired (gs_gc (q_gc q)))))"

text \<open>Once a node has left the tree it is in no later version.\<close>

definition gone_for_good :: "(nat \<Rightarrow> addr set) \<Rightarrow> nat \<Rightarrow> bool" where
  "gone_for_good Fs n \<longleftrightarrow> (\<forall>v w. v < w \<longrightarrow> w \<le> n \<longrightarrow> (Fs v - Fs (Suc v)) \<inter> Fs w = {})"

text \<open>The pure part of the clients' and the worker's actions.\<close>

lemma content_submit: "n \<le> length log \<Longrightarrow> v \<le> n \<Longrightarrow> content m (log @ [e]) v = content m log v"
  by simp

lemma gone_extend:
  assumes gone: "gone_for_good Fs n" and top: "\<forall>v \<le> n. \<forall>a \<in> Fs v. a < (t :: nat)" and F: "F \<subseteq> Fs n \<union> {t..<t'}"
  shows "gone_for_good (Fs(Suc n := F)) (Suc n)"
  unfolding gone_for_good_def
proof (intro allI impI)
  fix v w assume vw: "v < w" "w \<le> Suc n"
  show "((Fs(Suc n := F)) v - (Fs(Suc n := F)) (Suc v)) \<inter> (Fs(Suc n := F)) w = {}"
  proof (cases "w = Suc n")
    case False
    then show ?thesis using vw gone by (auto simp: gone_for_good_def)
  next
    case w: True
    show ?thesis
    proof (cases "v = n")
      case True
      then show ?thesis using w by auto
    next
      case False
      then have "(Fs v - Fs (Suc v)) \<inter> Fs n = {}" using vw w gone by (auto simp: gone_for_good_def)
      moreover have "v \<le> n" using vw w by simp
      then have "\<forall>a \<in> Fs v. a < t" using top by blast
      ultimately have "(Fs v - Fs (Suc v)) \<inter> F = {}" using F by fastforce
      then show ?thesis using False vw w by auto
    qed
  qed
qed

text \<open>The part of the protocol state that an action of the protocol changes.\<close>

lemma gc_do_reach: "gc_reach t0 n gc_on G \<Longrightarrow> act_ok a G \<Longrightarrow> gc_do a G = Some G' \<Longrightarrow> gc_reach t0 n gc_on G'"
  by (rule gc_reach.step)

lemma gc_reach_enabled: "gc_reach t0 n gc_on G \<Longrightarrow> g_enabled (gs_gc G) = gc_on"
proof (induction rule: gc_reach.induct)
  case (step S a S')
  then show ?case
    by (cases a)
       (auto simp: publish_begin_def publish_root_def publish_version_def publish_end_def unpin_def
         dest: pin_step_fields split: if_splits pub_phase.splits reader_phase.splits reclaim_phase.splits prod.splits)
qed (simp add: gc_start_def init_gc_def)

lemma retired_ok_drained:
  assumes "retired_ok c"
  shows "retired_ok (snd (snd (drain_retired c)))" "c_retired_count (snd (snd (drain_retired c))) = 0"
  using assms
  by (simp_all add: drain_retired_def retired_ok_def Let_def RETIRED_INLINE_CAPACITY_def)

lemma drained_frame [simp]:
  "ctx.more (snd (snd (drain_retired c))) = ctx.more c" "c_root (snd (snd (drain_retired c))) = c_root c"
  by (simp_all add: drain_retired_def Let_def)

lemma retire_ctx: "fst (retire node_size stats version c g) = snd (snd (drain_retired c))"
  by (simp add: retire_def clear_retired_def Let_def split: prod.splits option.splits)

section \<open>The store of a state\<close>

context cow_tree
begin

definition heap_ok :: "(u64 \<Rightarrow> u64 option) \<Rightarrow> (nat \<Rightarrow> addr) \<Rightarrow> (nat \<Rightarrow> addr set) \<Rightarrow> ('z, 's) seqcow \<Rightarrow> bool" where
  "heap_ok m0 rts Fs q \<longleftrightarrow>
     ok (q_store q) \<and>
     cur (q_store q) (of_nat (q_nxt q)) (rts (q_nxt q)) (Fs (q_nxt q)) (content m0 (q_log q) (q_nxt q)) \<and>
     (\<forall>v \<le> q_nxt q. unat (gs_bound (q_gc q)) \<le> v \<longrightarrow>
        snap (q_store q) (of_nat (q_nxt q)) (of_nat v) (rts v) (Fs v) (content m0 (q_log q) v)) \<and>
     (\<forall>v \<le> q_nxt q. \<forall>a \<in> Fs v. a < top (q_store q)) \<and> gone_for_good Fs (q_nxt q) \<and>
     (\<forall>b \<in> set (g_retired (gs_gc (q_gc q))). batch_ok Fs (q_nxt q) (live (q_store q)) b) \<and>
     sorted_wrt (\<lambda>b c. rb_version b < rb_version c) (g_retired (gs_gc (q_gc q)))"

definition seq_inv ::
    "addr \<Rightarrow> nat \<Rightarrow> bool \<Rightarrow> (u64 \<Rightarrow> u64 option) \<Rightarrow> (nat \<Rightarrow> addr) \<Rightarrow> (nat \<Rightarrow> addr set) \<Rightarrow> ('z, 's) seqcow \<Rightarrow> bool" where
  "seq_inv t0 n gc_on m0 rts Fs q \<longleftrightarrow>
     tickets slots q \<and> cells_ok idle slots gc_on rts q \<and> protocol_ok t0 n gc_on rts q \<and> heap_ok m0 rts Fs q"

text \<open>Freeing pairwise distinct live nodes succeeds, and keeps every tree that has none of them.\<close>

definition kept_without :: "addr set \<Rightarrow> 's \<Rightarrow> 's \<Rightarrow> bool" where
  "kept_without N s s' \<longleftrightarrow>
     ok s' \<and> top s' = top s \<and> live s' = live s - N \<and>
     (\<forall>hi w r F f. snap s hi w r F f \<longrightarrow> N \<inter> F = {} \<longrightarrow> snap s' hi w r F f) \<and>
     (\<forall>hi r F f. cur s hi r F f \<longrightarrow> N \<inter> F = {} \<longrightarrow> cur s' hi r F f)"

lemma kept_without_refl: "ok s \<Longrightarrow> kept_without {} s s"
  by (simp add: kept_without_def)

lemma kept_without_trans: "kept_without N s s' \<Longrightarrow> kept_without M s' s'' \<Longrightarrow> kept_without (N \<union> M) s s''"
  unfolding kept_without_def by (auto simp: Int_Un_distrib2)

lemma free_nodes:
  assumes "ok s" "distinct ns" "set ns \<subseteq> live s"
  shows "\<exists>s'. fold (\<lambda>a r. Option.bind r (ti_free I a)) ns (Some s) = Some s' \<and> kept_without (set ns) s s'"
  using assms
proof (induction ns arbitrary: s)
  case Nil
  then show ?case by (simp add: kept_without_refl)
next
  case (Cons a ns)
  have "a \<in> live s" using Cons.prems by simp
  from free [OF Cons.prems(1) this] obtain s1 where s1: "ti_free I a s = Some s1" "kept_without {a} s s1"
    unfolding kept_without_def by auto
  then have "ok s1" "live s1 = live s - {a}" by (simp_all add: kept_without_def)
  moreover have "set ns \<subseteq> live s1" using Cons.prems calculation by auto
  ultimately obtain s' where "fold (\<lambda>a r. Option.bind r (ti_free I a)) ns (Some s1) = Some s'" "kept_without (set ns) s1 s'"
    using Cons.IH [of s1] Cons.prems(2) by auto
  with s1 kept_without_trans [OF s1(2)] show ?case by auto
qed

text \<open>All nodes of the batches that a reclamation up to version \<open>safe\<close> frees.\<close>

definition freed_nodes :: "u64 \<Rightarrow> retire_batch list \<Rightarrow> addr set" where
  "freed_nodes safe bs = \<Union>(set ` rb_nodes ` set (takeWhile (\<lambda>b. rb_version b \<le> safe) bs))"

lemma free_batches_run:
  assumes "ok s" "\<forall>b \<in> set bs. batch_ok Fs n (live s) b" "sorted_wrt (\<lambda>b c. rb_version b < rb_version c) bs"
    and gone: "gone_for_good Fs n"
  shows "\<exists>bs' k by s'. free_batches (ti_free I) (\<lambda>_ _. None) safe bs s = Some (bs', k, by, s') \<and>
    kept_without (freed_nodes safe bs) s s' \<and> (\<forall>b \<in> set bs'. batch_ok Fs n (live s') b)"
  using assms(1-3)
proof (induction bs arbitrary: s)
  case Nil
  then show ?case by (simp add: kept_without_refl freed_nodes_def)
next
  case (Cons b bs)
  show ?case
  proof (cases "rb_version b \<le> safe")
    case False
    then show ?thesis using Cons.prems by (simp add: kept_without_refl freed_nodes_def)
  next
    case True
    have b: "batch_ok Fs n (live s) b" using Cons.prems(2) by simp
    then obtain s1 where s1: "fold (\<lambda>a r. Option.bind r (ti_free I a)) (rb_nodes b) (Some s) = Some s1"
      "kept_without (set (rb_nodes b)) s s1"
      using free_nodes [OF Cons.prems(1), of "rb_nodes b"] by (auto simp: batch_ok_def)
    have "batch_ok Fs n (live s1) c" if c: "c \<in> set bs" for c
    proof -
      have ok: "batch_ok Fs n (live s) c" and less: "rb_version b < rb_version c" using Cons.prems(2,3) c by auto
      obtain v where v: "v < n" "unat (rb_version b) = Suc v" "set (rb_nodes b) = Fs v - Fs (Suc v)"
        using b by (auto simp: batch_ok_def)
      obtain w where w: "w < n" "unat (rb_version c) = Suc w" "set (rb_nodes c) = Fs w - Fs (Suc w)"
        using ok by (auto simp: batch_ok_def)
      have "v < w" using less v(2) w(2) by (simp add: word_less_nat_alt)
      then have "(Fs v - Fs (Suc v)) \<inter> Fs w = {}" using gone w(1) by (simp add: gone_for_good_def)
      then have "set (rb_nodes b) \<inter> set (rb_nodes c) = {}" using v(3) w(3) by auto
      then show ?thesis using ok s1(2) by (auto simp: batch_ok_def kept_without_def)
    qed
    moreover have "ok s1" using s1(2) by (simp add: kept_without_def)
    ultimately obtain bs' k "by" s' where
      run: "free_batches (ti_free I) (\<lambda>_ _. None) safe bs s1 = Some (bs', k, by, s')"
        "kept_without (freed_nodes safe bs) s1 s'" "\<forall>b \<in> set bs'. batch_ok Fs n (live s') b"
      using Cons.IH [of s1] Cons.prems(3) by auto
    have "kept_without (set (rb_nodes b) \<union> freed_nodes safe bs) s s'" by (rule kept_without_trans [OF s1(2) run(2)])
    moreover have "freed_nodes safe (b # bs) = set (rb_nodes b) \<union> freed_nodes safe bs"
      using True by (simp add: freed_nodes_def)
    moreover have "rb_checkpoint b = nullptr" using b by (simp add: batch_ok_def)
    ultimately show ?thesis using True s1(1) run by auto
  qed
qed

lemma heap_ok_frame:
  assumes "heap_ok m0 rts Fs q" "q_store q' = q_store q" "q_com_next q' = q_com_next q"
    "gs_bound (q_gc q') = gs_bound (q_gc q)" "g_retired (gs_gc (q_gc q')) = g_retired (gs_gc (q_gc q))"
    and log: "\<And>v. v \<le> q_nxt q \<Longrightarrow> content m0 (q_log q') v = content m0 (q_log q) v"
  shows "heap_ok m0 rts Fs q'"
  using assms(1) unfolding heap_ok_def assms(2-5) by (simp add: log)

end

lemma cells_ok_frame:
  assumes "cells_ok idle slots gc_on rts q" "q_ctxs q' = q_ctxs q" "q_com_next q' = q_com_next q"
    "q_submitted q' = q_submitted q" "q_log q' = q_log q" "q_lock q' = q_lock q"
  shows "cells_ok idle slots gc_on rts q'"
  using assms(1) unfolding cells_ok_def assms(2-) .

section \<open>Protocol actions\<close>

lemma protocol_frame:
  assumes p: "protocol_ok t0 n gc_on rts q" and reach: "gc_reach t0 n gc_on (q_gc q')"
    and same: "gs_pubs (q_gc q') = gs_pubs (q_gc q)" "gs_count (q_gc q') = gs_count (q_gc q)" "gs_pub (q_gc q') = gs_pub (q_gc q)"
      "g_version (gs_gc (q_gc q')) = g_version (gs_gc (q_gc q))"
      "q_com_local q' = q_com_local q" "q_committed q' = q_committed q"
    and phase: "q_phase q' = q_phase q \<or> q_phase q \<noteq> W_PUBLISH \<and> q_phase q' \<noteq> W_PUBLISH \<and> q_phase q' \<noteq> W_COMMIT"
    and rc: "\<And>t i m w. gs_rc (q_gc q') t = RC_SCAN i m w \<Longrightarrow> unat w \<le> q_com q"
      "gs_rc (q_gc q') 0 \<noteq> RC_IDLE \<Longrightarrow> q_phase q' = W_RECLAIM"
  shows "protocol_ok t0 n gc_on rts q'"
proof -
  have rcs: "\<forall>t i m w. gs_rc (q_gc q') t = RC_SCAN i m w \<longrightarrow> unat w \<le> q_com q"
      "gs_rc (q_gc q') 0 \<noteq> RC_IDLE \<longrightarrow> q_phase q' = W_RECLAIM" using rc by blast+
  show ?thesis
  proof (cases "q_phase q' = q_phase q")
    case True
    show ?thesis using p reach rcs [unfolded True] unfolding protocol_ok_def same True
      by (elim conjE) (intro conjI; assumption)
  next
    case False
    then have ph: "q_phase q \<noteq> W_PUBLISH" "q_phase q' \<noteq> W_PUBLISH" "q_phase q' \<noteq> W_COMMIT" using phase by blast+
    show ?thesis using p reach rcs unfolding protocol_ok_def same
      by (elim conjE) (intro conjI; (assumption | simp add: ph))
  qed
qed

lemma protocol_okI:
  assumes "gc_reach t0 n gc_on (q_gc q)"
    and "\<And>r v. (r, v) \<in> gs_pubs (q_gc q) \<Longrightarrow> unat v \<le> q_loc q \<and> r = rts (unat v)"
    and "if q_phase q = W_PUBLISH
      then gs_count (q_gc q) + (if gs_pub (q_gc q) = PUB_IDLE then 2 else 1) \<le> 2 * q_loc q
      else gs_pub (q_gc q) = PUB_IDLE \<and> gs_count (q_gc q) \<le> 2 * q_loc q"
    and "\<And>r v. gs_pub (q_gc q) = PUB_ROOT r v \<or> gs_pub (q_gc q) = PUB_VERSION r v \<Longrightarrow> unat v = q_loc q"
    and "q_com q \<le> unat (g_version (gs_gc (q_gc q)))"
    and "q_phase q = W_PUBLISH \<and> gs_pub (q_gc q) = PUB_END \<or> q_phase q = W_COMMIT \<Longrightarrow>
      unat (g_version (gs_gc (q_gc q))) = q_loc q"
    and "\<And>t i m w. gs_rc (q_gc q) t = RC_SCAN i m w \<Longrightarrow> unat w \<le> q_com q"
    and "gs_rc (q_gc q) 0 \<noteq> RC_IDLE \<Longrightarrow> q_phase q = W_RECLAIM"
  shows "protocol_ok t0 n gc_on rts q"
  unfolding protocol_ok_def using assms by (intro conjI ballI allI impI) auto

lemma protocol_idle:
  assumes "protocol_ok t0 n gc_on rts q" "q_phase q \<noteq> W_PUBLISH"
  shows "gs_pub (q_gc q) = PUB_IDLE" "gs_count (q_gc q) \<le> 2 * q_loc q"
  using assms by (simp_all add: protocol_ok_def)

lemma protocol_pub:
  assumes "protocol_ok t0 n gc_on rts q" "(r, v) \<in> gs_pubs (q_gc q)"
  shows "unat v \<le> q_loc q" "r = rts (unat v)"
  using assms unfolding protocol_ok_def by fastforce+

lemma protocol_version:
  assumes "protocol_ok t0 n gc_on rts q"
  shows "q_com q \<le> unat (g_version (gs_gc (q_gc q)))"
    and "q_phase q = W_COMMIT \<Longrightarrow> unat (g_version (gs_gc (q_gc q))) = q_loc q"
  using assms unfolding protocol_ok_def by blast+

lemma protocol_rc: "protocol_ok t0 n gc_on rts q \<Longrightarrow> gs_rc (q_gc q) t = RC_SCAN i m w \<Longrightarrow> unat w \<le> q_com q"
  unfolding protocol_ok_def by blast

lemma protocol_rc0: "protocol_ok t0 n gc_on rts q \<Longrightarrow> gs_rc (q_gc q) 0 \<noteq> RC_IDLE \<Longrightarrow> q_phase q = W_RECLAIM"
  unfolding protocol_ok_def by blast

lemma protocol_reach: "protocol_ok t0 n gc_on rts q \<Longrightarrow> gc_reach t0 n gc_on (q_gc q)"
  unfolding protocol_ok_def by blast

lemma protocol_rc_on:
  assumes "protocol_ok t0 n gc_on rts q" "gs_rc (q_gc q) t \<noteq> RC_IDLE"
  shows gc_on
proof -
  note reach = protocol_reach [OF assms(1)]
  have "freed_ok (q_gc q)" using gc_reach_inv [OF reach] unfolding gc_inv_def by (rule conjunct1)
  then show ?thesis using assms(2) gc_reach_enabled [OF reach] by (auto simp: freed_ok_def)
qed

lemma protocol_count:
  assumes "protocol_ok t0 n gc_on rts q" "q_loc q < 2 ^ 32"
  shows "gs_count (q_gc q) < 2 ^ 64"
proof -
  have "gs_count (q_gc q) \<le> 2 * q_loc q" using assms(1) by (auto simp: protocol_ok_def split: if_splits)
  then show ?thesis using assms(2) by simp
qed

lemma gc_inert:
  assumes "gc_do a G = Some G'" "\<And>r v. a \<noteq> PubBegin r v" "a \<noteq> PubRoot" "a \<noteq> PubVersion" "a \<noteq> PubEnd"
  shows "gs_pubs G' = gs_pubs G \<and> gs_count G' = gs_count G \<and> gs_pub G' = gs_pub G \<and>
    g_version (gs_gc G') = g_version (gs_gc G)"
  using assms
  by (cases a) (auto simp: unpin_def dest: pin_step_fields split: if_splits prod.splits reader_phase.splits reclaim_phase.splits)

lemma gc_keeps_queue:
  assumes "gc_do a G = Some G'" "\<And>t. a \<noteq> RcFree t" "\<And>b. a \<noteq> Retire b"
  shows "gs_bound G' = gs_bound G \<and> g_retired (gs_gc G') = g_retired (gs_gc G)"
proof -
  have pin: "g_retired g' = g_retired g" if "pin_step cid p g = (p', g')" for cid p g p' g'
    using that by (cases p) (auto simp: set_reader_def split: if_splits)
  show ?thesis
    using assms
    by (cases a)
       (auto simp: unpin_def set_reader_def publish_begin_def publish_root_def publish_version_def publish_end_def
         dest: pin split: if_splits prod.splits reader_phase.splits reclaim_phase.splits pub_phase.splits)
qed

lemma act_ok_inert: "(\<And>r v. a \<noteq> PubBegin r v) \<Longrightarrow> act_ok a S"
  by (simp add: act_ok_def)

text \<open>The current version is one that has been published, as long as no publication runs.\<close>

lemma protocol_idle_version:
  assumes p: "protocol_ok t0 n gc_on rts q" and lt: "q_loc q < 2 ^ 32" and idle: "gs_pub (q_gc q) = PUB_IDLE"
  shows "unat (g_version (gs_gc (q_gc q))) \<le> q_loc q"
proof -
  have "pub_ok (q_gc q)"
    using gc_invD(1) [OF gc_reach_inv [OF protocol_reach [OF p]] protocol_count [OF p lt]] .
  then have "(g_root (gs_gc (q_gc q)), g_version (gs_gc (q_gc q))) \<in> gs_pubs (q_gc q)"
    using idle by (simp add: pub_ok_def)
  moreover have "\<forall>p \<in> gs_pubs (q_gc q). unat (snd p) \<le> q_loc q" using p by (simp add: protocol_ok_def)
  ultimately show ?thesis by fastforce
qed

text \<open>The four stores of a publication.\<close>

lemma protocol_publish:
  assumes p: "protocol_ok t0 n gc_on rts q" and tk: "tickets slots q" and cl: "cells_ok idle slots gc_on rts q"
    and ph: "q_phase q = W_PUBLISH" and run: "worker_publish q = Some q'"
  shows "protocol_ok t0 n gc_on rts q' \<and>
    (\<exists>G. gs_bound G = gs_bound (q_gc q) \<and> g_retired (gs_gc G) = g_retired (gs_gc (q_gc q)) \<and>
      (q' = q\<lparr>q_gc := G\<rparr> \<or> q' = q\<lparr>q_gc := G, q_phase := W_COMMIT\<rparr>))"
proof -
  let ?G = "q_gc q"
  have le: "q_loc q < 2 ^ 32" and com: "q_com q \<le> q_loc q" and nxt: "q_nxt q = q_loc q"
    using tk ph by (simp_all add: tickets_def)
  note reach = protocol_reach [OF p]
  have root: "worker_root q = rts (q_loc q)"
    using cl nxt by (simp add: worker_root_def ring_unat cells_ok_def)
  show ?thesis
  proof (cases "gs_pub ?G")
    case PUB_IDLE
    let ?a = "PubBegin (worker_root q) (q_com_local q)"
    obtain G where G: "gc_do ?a ?G = Some G" "q' = q\<lparr>q_gc := G\<rparr>"
      using run PUB_IDLE by (auto simp: worker_publish_def do_gc_def split: if_splits)
    have "act_ok ?a ?G"
      using protocol_idle_version [OF p le PUB_IDLE] le
      by (auto simp: act_ok_def word_le_nat_alt INACTIVE_def UINT64_MAX_def unsigned_minus_1_eq_mask mask_eq_exp_minus_1)
    from gc_do_reach [OF reach this G(1)] have "gc_reach t0 n gc_on G" .
    then have "protocol_ok t0 n gc_on rts q'"
      using p G PUB_IDLE ph root by (auto simp: protocol_ok_def publish_begin_def)
    then show ?thesis using gc_keeps_queue [OF G(1)] G(2) by auto
  next
    case (PUB_ROOT r v)
    obtain G where G: "gc_do PubRoot ?G = Some G" "q' = q\<lparr>q_gc := G\<rparr>"
      using run PUB_ROOT by (auto simp: worker_publish_def do_gc_def)
    have "gc_reach t0 n gc_on G" by (rule gc_do_reach [OF reach _ G(1)]) (simp add: act_ok_def)
    then have "protocol_ok t0 n gc_on rts q'"
      using p G PUB_ROOT ph by (auto simp: protocol_ok_def publish_root_def)
    then show ?thesis using gc_keeps_queue [OF G(1)] G(2) by auto
  next
    case (PUB_VERSION r v)
    obtain G where G: "gc_do PubVersion ?G = Some G" "q' = q\<lparr>q_gc := G\<rparr>"
      using run PUB_VERSION by (auto simp: worker_publish_def do_gc_def)
    have "gc_reach t0 n gc_on G" by (rule gc_do_reach [OF reach _ G(1)]) (simp add: act_ok_def)
    then have "protocol_ok t0 n gc_on rts q'"
      using p G PUB_VERSION ph com by (auto simp: protocol_ok_def publish_version_def)
    then show ?thesis using gc_keeps_queue [OF G(1)] G(2) by auto
  next
    case PUB_END
    obtain G where G: "gc_do PubEnd ?G = Some G" "q' = q\<lparr>q_gc := G, q_phase := W_COMMIT\<rparr>"
      using run PUB_END by (auto simp: worker_publish_def do_gc_def)
    have "gc_reach t0 n gc_on G" by (rule gc_do_reach [OF reach _ G(1)]) (simp add: act_ok_def)
    then have "protocol_ok t0 n gc_on rts q'"
      using p G PUB_END ph by (auto simp: protocol_ok_def publish_end_def)
    then show ?thesis using gc_keeps_queue [OF G(1)] G(2) by auto
  qed
qed

section \<open>Every action keeps the invariant\<close>

lemma ready_init:
  "retired_ok (init_task sl g tid k v c) = retired_ok c" "c_retired_count (init_task sl g tid k v c) = c_retired_count c"
  "ctx.more (init_task sl g tid k v c) = ctx.more c"
  "c_root (init_task sl g tid k v c) = c_root c" "c_key (init_task sl g tid k v c) = k"
  "c_val (init_task sl g tid k v c) = v" "c_fat_slots (init_task sl g tid k v c) = sl"
  "c_gc_enabled (init_task sl g tid k v c) = g" "c_sno (init_task sl g tid k v c) = ucast tid"
  by (simp_all add: init_task_def retired_ok_def)

context cow_tree
begin

lemmas seq_parts = seq_inv_def

lemma inv_gc_only:
  assumes inv: "seq_inv t0 n gc_on m0 rts Fs q" and p: "protocol_ok t0 n gc_on rts q'"
    and q': "q' = q\<lparr>q_gc := G\<rparr>" and "gs_bound G = gs_bound (q_gc q)" "g_retired (gs_gc G) = g_retired (gs_gc (q_gc q))"
  shows "seq_inv t0 n gc_on m0 rts Fs q'"
proof -
  have "tickets slots q'" using inv by (auto simp: seq_inv_def tickets_def q')
  moreover have "cells_ok idle slots gc_on rts q'"
    by (rule cells_ok_frame [of _ _ _ _ q]) (use inv in \<open>simp_all add: seq_inv_def q'\<close>)
  moreover have "heap_ok m0 rts Fs q'"
    by (rule heap_ok_frame [of _ _ _ q]) (use inv assms(4-) in \<open>simp_all add: seq_inv_def q'\<close>)
  ultimately show ?thesis using p by (simp add: seq_inv_def)
qed

lemma inv_gc_act:
  assumes inv: "seq_inv t0 n gc_on m0 rts Fs q" and G: "gc_do a (q_gc q) = Some G"
    and a: "\<And>r v. a \<noteq> PubBegin r v" "a \<noteq> PubRoot" "a \<noteq> PubVersion" "a \<noteq> PubEnd" "\<And>t. a \<noteq> RcFree t" "\<And>b. a \<noteq> Retire b"
    and rc: "\<And>t i m w. gs_rc G t = RC_SCAN i m w \<Longrightarrow> unat w \<le> q_com q"
      "gs_rc G 0 \<noteq> RC_IDLE \<Longrightarrow> q_phase q = W_RECLAIM"
  shows "seq_inv t0 n gc_on m0 rts Fs (q\<lparr>q_gc := G\<rparr>)"
proof -
  have p: "protocol_ok t0 n gc_on rts q" using inv by (simp add: seq_inv_def)
  have "gc_reach t0 n gc_on G"
    by (rule gc_do_reach [OF protocol_reach [OF p] act_ok_inert [OF a(1)] G])
  then have "protocol_ok t0 n gc_on rts (q\<lparr>q_gc := G\<rparr>)"
    using gc_inert [OF G a(1-4)] rc by (intro protocol_frame [OF p]) simp_all
  then show ?thesis using gc_keeps_queue [OF G a(5,6)] by (intro inv_gc_only [OF inv _ refl]) simp_all
qed

lemma inv_reader:
  assumes inv: "seq_inv t0 n gc_on m0 rts Fs q" and run: "do_gc (Reader cid) q = Some q'"
  shows "seq_inv t0 n gc_on m0 rts Fs q'"
proof -
  obtain G where G: "gc_do (Reader cid) (q_gc q) = Some G" "q' = q\<lparr>q_gc := G\<rparr>" using run by (auto simp: do_gc_def simp del: gc_do.simps)
  have p: "protocol_ok t0 n gc_on rts q" using inv by (simp add: seq_inv_def)
  have "gs_rc G = gs_rc (q_gc q)" using G(1) by (auto split: if_splits prod.splits)
  then show ?thesis unfolding G(2) using protocol_rc [OF p] protocol_rc0 [OF p] by (intro inv_gc_act [OF inv G(1)]) simp_all
qed

lemma inv_unpin:
  assumes inv: "seq_inv t0 n gc_on m0 rts Fs q" and run: "do_gc (Unpin cid) q = Some q'"
  shows "seq_inv t0 n gc_on m0 rts Fs q'"
proof -
  obtain G where G: "gc_do (Unpin cid) (q_gc q) = Some G" "q' = q\<lparr>q_gc := G\<rparr>" using run by (auto simp: do_gc_def simp del: gc_do.simps)
  have p: "protocol_ok t0 n gc_on rts q" using inv by (simp add: seq_inv_def)
  have "gs_rc G = gs_rc (q_gc q)" using G(1) by (auto split: reader_phase.splits)
  then show ?thesis unfolding G(2) using protocol_rc [OF p] protocol_rc0 [OF p] by (intro inv_gc_act [OF inv G(1)]) simp_all
qed

lemma inv_reclaim_start:
  assumes inv: "seq_inv t0 n gc_on m0 rts Fs q" and w: "unat w \<le> q_com q" "t = 0 \<Longrightarrow> q_phase q = W_RECLAIM" and run: "do_gc (RcStart t w) q = Some q'"
  shows "seq_inv t0 n gc_on m0 rts Fs q'"
proof -
  obtain G where G: "gc_do (RcStart t w) (q_gc q) = Some G" "q' = q\<lparr>q_gc := G\<rparr>" using run by (auto simp: do_gc_def simp del: gc_do.simps)
  have p: "protocol_ok t0 n gc_on rts q" using inv by (simp add: seq_inv_def)
  have "gs_rc G = (gs_rc (q_gc q))(t := RC_SCAN 0 (g_version (gs_gc (q_gc q))) w)" using G(1) by (auto split: if_splits)
  then show ?thesis unfolding G(2) using protocol_rc [OF p] protocol_rc0 [OF p] w
    by (intro inv_gc_act [OF inv G(1)]) (simp_all split: if_splits)
qed

lemma inv_reclaim_scan:
  assumes inv: "seq_inv t0 n gc_on m0 rts Fs q" and run: "do_gc (RcScan t) q = Some q'"
  shows "seq_inv t0 n gc_on m0 rts Fs q'"
proof -
  obtain G where G: "gc_do (RcScan t) (q_gc q) = Some G" "q' = q\<lparr>q_gc := G\<rparr>" using run by (auto simp: do_gc_def simp del: gc_do.simps)
  have p: "protocol_ok t0 n gc_on rts q" using inv by (simp add: seq_inv_def)
  obtain i m w x where "gs_rc (q_gc q) t = RC_SCAN i m w" "gs_rc G = (gs_rc (q_gc q))(t := RC_SCAN (Suc i) x w)"
    using G(1) by (auto split: if_splits reclaim_phase.splits)
  then show ?thesis unfolding G(2) using protocol_rc [OF p] protocol_rc0 [OF p]
    by (intro inv_gc_act [OF inv G(1)]) (simp_all split: if_splits)
qed

lemma inv_publish:
  assumes inv: "seq_inv t0 n gc_on m0 rts Fs q" and ph: "q_phase q = W_PUBLISH" and run: "worker_publish q = Some q'"
  shows "seq_inv t0 n gc_on m0 rts Fs q'"
proof -
  note parts = inv [unfolded seq_inv_def]
  from protocol_publish [OF parts [THEN conjunct2, THEN conjunct2, THEN conjunct1] parts [THEN conjunct1]
      parts [THEN conjunct2, THEN conjunct1] ph run]
  obtain G where p: "protocol_ok t0 n gc_on rts q'"
    and G: "gs_bound G = gs_bound (q_gc q)" "g_retired (gs_gc G) = g_retired (gs_gc (q_gc q))"
    and q': "q' = q\<lparr>q_gc := G\<rparr> \<or> q' = q\<lparr>q_gc := G, q_phase := W_COMMIT\<rparr>" by blast
  have "tickets slots q'" using parts ph q' by (auto simp: tickets_def)
  moreover have "cells_ok idle slots gc_on rts q'"
    by (rule cells_ok_frame [of _ _ _ _ q]) (use parts q' in auto)
  moreover have "heap_ok m0 rts Fs q'"
    by (rule heap_ok_frame [of _ _ _ q]) (use parts q' G in auto)
  ultimately show ?thesis using p by (simp add: seq_inv_def)
qed

lemma inv_lock:
  assumes inv: "seq_inv t0 n gc_on m0 rts Fs q" and run: "seq_do I (ClientLock cl k v) q = Some q'"
  shows "seq_inv t0 n gc_on m0 rts Fs q'"
proof -
  let ?tid = "q_submitted q + 1"
  let ?c = "init_task (q_fat_slots q) (g_enabled (gs_gc (q_gc q))) ?tid k v (q_ctxs q (ring ?tid))"
  have q': "q' = q\<lparr>q_lock := Some cl, q_pend := (q_pend q)(cl := Some ?tid), q_ctxs := (q_ctxs q)(ring ?tid := ?c)\<rparr>"
    and guard: "?tid \<le> UINT32_MAX" "?tid < q_committed q + of_nat BUFFER_SIZE" "q_lock q = None"
    using run by (auto simp: Let_def split: if_splits)
  have tk: "tickets slots q" and cl: "cells_ok idle slots gc_on rts q" and p: "protocol_ok t0 n gc_on rts q"
    and hp: "heap_ok m0 rts Fs q" using inv by (simp_all add: seq_inv_def)
  have num: "q_sub q < 2 ^ 32" "q_com q \<le> q_nxt q" "q_nxt q \<le> q_sub q" "q_com q < 2 ^ 33" "q_sub q < q_com q + 65536"
    using tk by (simp_all add: tickets_def)
  have tid: "unat ?tid = Suc (q_sub q)" using num(1) by (intro unat_Suc_64) simp
  have lim: "Suc (q_sub q) < 2 ^ 32" using guard(1) tid by (simp add: UINT32_MAX_def word_le_nat_alt)
  have win: "Suc (q_sub q) < q_com q + 65536" using guard(2) tid window_word [OF num(4)] by simp
  have ring: "ring ?tid = Suc (q_sub q) mod 65536" by (simp add: ring_unat tid)
  have other: "Suc (q_sub q) mod 65536 \<noteq> t mod 65536" if "q_nxt q \<le> t" "t < Suc (q_sub q)" for t
    using ring_distinct [of t "Suc (q_sub q)"] that win num(2) by auto
  have "filled slots gc_on (Suc (q_sub q)) ?c"
    using gc_reach_enabled [OF protocol_reach [OF p]] tk tid
    by (simp add: filled_def ready_init ucast_64_32_of_nat tickets_def)
  moreover have "idle ?c"
    using cl idle_more [of ?c "q_ctxs q (ring ?tid)"] by (simp add: cells_ok_def ready_init)
  moreover have ready: "idle (q_ctxs q i) \<and> retired_ok (q_ctxs q i) \<and> c_retired_count (q_ctxs q i) = 0" for i
    using cl by (simp add: cells_ok_def)
  moreover have "q_ctxs q' (q_nxt q mod 65536) = q_ctxs q (q_nxt q mod 65536)"
    using other [of "q_nxt q"] num(3) by (simp add: q' ring)
  moreover have "q_ctxs q' (Suc t mod 65536) = q_ctxs q (Suc t mod 65536)" if "q_nxt q \<le> t" "t < q_sub q" for t
    using other [of "Suc t"] that by (simp add: q' ring)
  moreover have "q_ctxs q' (Suc (q_sub q) mod 65536) = ?c" by (simp add: q' ring)
  moreover have "q_com_next q' = q_com_next q" "q_submitted q' = q_submitted q" "q_log q' = q_log q" by (simp_all add: q')
  moreover have "q_ctxs q' i = (if i = ring ?tid then ?c else q_ctxs q i)" for i by (simp add: q')
  ultimately have "cells_ok idle slots gc_on rts q'"
    using cl unfolding cells_ok_def by (simp add: ready_init del: of_nat_Suc)
  moreover have "tickets slots q'" using tk lim win by (auto simp: tickets_def q')
  moreover have "protocol_ok t0 n gc_on rts q'"
    by (rule protocol_frame [OF p]) (use p protocol_rc [OF p] protocol_rc0 [OF p] in \<open>auto simp: q' protocol_reach\<close>)
  moreover have "heap_ok m0 rts Fs q'" by (rule heap_ok_frame [OF hp]) (simp_all add: q')
  ultimately show ?thesis by (simp add: seq_inv_def)
qed

lemma inv_submit:
  assumes inv: "seq_inv t0 n gc_on m0 rts Fs q" and run: "seq_do I (ClientSubmit cl k v) q = Some q'"
  shows "seq_inv t0 n gc_on m0 rts Fs q'"
proof -
  let ?tid = "q_submitted q + 1"
  have tk: "tickets slots q" and cl: "cells_ok idle slots gc_on rts q" and p: "protocol_ok t0 n gc_on rts q"
    and hp: "heap_ok m0 rts Fs q" using inv by (simp_all add: seq_inv_def)
  have lock: "q_lock q = Some cl" using run by (auto split: option.splits if_splits)
  then have pend: "q_pend q cl = Some ?tid" and lim: "Suc (q_sub q) < 2 ^ 32" "Suc (q_sub q) < q_com q + 65536"
    using tk by (auto simp: tickets_def)
  have tid: "unat ?tid = Suc (q_sub q)" using lim by (intro unat_Suc_64) simp
  have q': "q' = q\<lparr>q_submitted := ?tid, q_lock := None, q_pend := (q_pend q)(cl := None), q_log := q_log q @ [(k, v)]\<rparr>"
    and kv: "c_key (q_ctxs q (ring ?tid)) = k" "c_val (q_ctxs q (ring ?tid)) = v"
    using run lock pend by (auto split: if_splits)
  have sub: "q_nxt q \<le> q_sub q" "q_sub q = length (q_log q)" using tk by (simp_all add: tickets_def)
  have "tickets slots q'" using tk tid lim by (auto simp: tickets_def q')
  moreover have "cells_ok idle slots gc_on rts q'"
    using cl lock kv tid sub
    by (auto simp: cells_ok_def q' ring_unat nth_append less_Suc_eq simp del: of_nat_Suc)
  moreover have "protocol_ok t0 n gc_on rts q'"
    by (rule protocol_frame [OF p]) (use p protocol_rc [OF p] protocol_rc0 [OF p] in \<open>auto simp: q' protocol_reach\<close>)
  moreover have "heap_ok m0 rts Fs q'" by (rule heap_ok_frame [OF hp]) (use sub in \<open>simp_all add: q'\<close>)
  ultimately show ?thesis by (simp add: seq_inv_def)
qed

lemma inv_load:
  assumes inv: "seq_inv t0 n gc_on m0 rts Fs q" and run: "seq_do I WorkerLoad q = Some q'"
  shows "seq_inv t0 n gc_on m0 rts Fs q'"
proof -
  have tk: "tickets slots q" and cl: "cells_ok idle slots gc_on rts q" and p: "protocol_ok t0 n gc_on rts q"
    and hp: "heap_ok m0 rts Fs q" using inv by (simp_all add: seq_inv_def)
  have ph: "q_phase q = W_TOP" using run by (auto split: if_splits)
  then have "q_nxt q = q_loc q" using tk by (simp add: tickets_def)
  then have nxt: "q_com_next q = q_com_local q" by (rule word_unat_eq_iff [THEN iffD2])
  have q': "q' = q\<lparr>q_stop_local := q_stop q, q_sub_local := q_submitted q, q_com_next := q_com_next q, q_phase := W_EXEC\<rparr>"
    using run nxt by (auto split: if_splits)
  have "tickets slots q'" using tk ph by (auto simp: tickets_def q')
  moreover have "cells_ok idle slots gc_on rts q'" by (rule cells_ok_frame [OF cl]) (simp_all add: q')
  moreover have "protocol_ok t0 n gc_on rts q'"
    by (rule protocol_frame [OF p]) (use p ph protocol_rc [OF p] protocol_rc0 [OF p] in \<open>auto simp: q' protocol_reach\<close>)
  moreover have "heap_ok m0 rts Fs q'" by (rule heap_ok_frame [OF hp]) (simp_all add: q')
  ultimately show ?thesis by (simp add: seq_inv_def)
qed

text \<open>Changes of the worker's control point only.\<close>

lemma inv_phase:
  assumes inv: "seq_inv t0 n gc_on m0 rts Fs q" and q': "q' = q\<lparr>q_phase := ph'\<rparr>"
    and ph: "q_phase q \<notin> {W_PUBLISH, W_COMMIT}" "ph' = W_STOPPED \<longrightarrow> q_stop q" "ph' \<notin> {W_PUBLISH, W_COMMIT, W_EXEC}" "q_com_next q = q_com_local q"
      "gs_rc (q_gc q) 0 = RC_IDLE"
  shows "seq_inv t0 n gc_on m0 rts Fs q'"
proof -
  have tk: "tickets slots q" and cl: "cells_ok idle slots gc_on rts q" and p: "protocol_ok t0 n gc_on rts q"
    and hp: "heap_ok m0 rts Fs q" using inv by (simp_all add: seq_inv_def)
  have "tickets slots q'" using tk ph by (auto simp: tickets_def q')
  moreover have "cells_ok idle slots gc_on rts q'" by (rule cells_ok_frame [OF cl]) (simp_all add: q')
  moreover have "protocol_ok t0 n gc_on rts q'"
    by (rule protocol_frame [OF p]) (use p ph protocol_rc [OF p] protocol_rc0 [OF p] in \<open>auto simp: q' protocol_reach\<close>)
  moreover have "heap_ok m0 rts Fs q'" by (rule heap_ok_frame [OF hp]) (simp_all add: q')
  ultimately show ?thesis by (simp add: seq_inv_def)
qed

lemma inv_exec_end:
  assumes inv: "seq_inv t0 n gc_on m0 rts Fs q" and run: "seq_do I WorkerExecEnd q = Some q'"
  shows "seq_inv t0 n gc_on m0 rts Fs q'"
proof (cases "q_com_next q > q_com_local q")
  case False
  have ph: "q_phase q = W_EXEC" and q': "q' = q\<lparr>q_phase := W_TOP\<rparr>" using run False by (auto split: if_splits)
  have "q_loc q \<le> q_nxt q" using inv by (simp add: seq_inv_def tickets_def)
  then have "q_com_next q = q_com_local q" using False by (simp add: not_less word_le_nat_alt word_unat_eq_iff)
  moreover have "gs_rc (q_gc q) 0 = RC_IDLE" using protocol_rc0 [of t0 n gc_on rts q] inv ph by (auto simp: seq_inv_def)
  ultimately show ?thesis using ph by (intro inv_phase [OF inv q']) simp_all
next
  case True
  have ph: "q_phase q = W_EXEC" and q': "q' = q\<lparr>q_com_local := q_com_next q, q_phase := W_PUBLISH\<rparr>"
    using run True by (auto split: if_splits)
  have tk: "tickets slots q" and cl: "cells_ok idle slots gc_on rts q" and p: "protocol_ok t0 n gc_on rts q"
    and hp: "heap_ok m0 rts Fs q" using inv by (simp_all add: seq_inv_def)
  have lt: "q_loc q < q_nxt q" using True by (simp add: word_less_nat_alt)
  have "tickets slots q'" using tk ph lt by (auto simp: tickets_def q')
  moreover have "cells_ok idle slots gc_on rts q'" by (rule cells_ok_frame [OF cl]) (simp_all add: q')
  moreover have "protocol_ok t0 n gc_on rts q'"
  proof (rule protocol_okI)
    show "unat v \<le> q_loc q' \<and> r = rts (unat v)" if "(r, v) \<in> gs_pubs (q_gc q')" for r v
      using protocol_pub [OF p, of r v] that lt by (simp add: q')
    show "q_com q' \<le> unat (g_version (gs_gc (q_gc q')))" using protocol_version(1) [OF p] by (simp add: q')
    show "unat w \<le> q_com q'" if "gs_rc (q_gc q') t = RC_SCAN i m w" for t i m w
      using protocol_rc [OF p, of t i m w] that by (simp add: q')
  qed (use protocol_idle [OF p] protocol_reach [OF p] protocol_rc0 [OF p] ph lt in \<open>simp_all add: q'\<close>)
  moreover have "heap_ok m0 rts Fs q'" by (rule heap_ok_frame [OF hp]) (simp_all add: q')
  ultimately show ?thesis by (simp add: seq_inv_def)
qed

lemma inv_commit:
  assumes inv: "seq_inv t0 n gc_on m0 rts Fs q" and run: "seq_do I WorkerCommit q = Some q'"
  shows "seq_inv t0 n gc_on m0 rts Fs q'"
proof -
  have ph: "q_phase q = W_COMMIT" and q': "q' = q\<lparr>q_committed := q_com_local q, q_phase := W_RECLAIM\<rparr>"
    using run by (auto split: if_splits)
  have tk: "tickets slots q" and cl: "cells_ok idle slots gc_on rts q" and p: "protocol_ok t0 n gc_on rts q"
    and hp: "heap_ok m0 rts Fs q" using inv by (simp_all add: seq_inv_def)
  have le: "q_com q \<le> q_loc q" using tk by (simp add: tickets_def)
  have "tickets slots q'" using tk ph le by (auto simp: tickets_def q')
  moreover have "cells_ok idle slots gc_on rts q'" by (rule cells_ok_frame [OF cl]) (simp_all add: q')
  moreover have "protocol_ok t0 n gc_on rts q'"
  proof (rule protocol_okI)
    show "unat v \<le> q_loc q' \<and> r = rts (unat v)" if "(r, v) \<in> gs_pubs (q_gc q')" for r v
      using protocol_pub [OF p, of r v] that by (simp add: q')
    show "unat w \<le> q_com q'" if "gs_rc (q_gc q') t = RC_SCAN i m w" for t i m w
      using protocol_rc [OF p, of t i m w] that le by (simp add: q')
  qed (use protocol_idle [OF p] protocol_reach [OF p] protocol_version [OF p] protocol_rc0 [OF p] ph in \<open>simp_all add: q'\<close>)
  moreover have "heap_ok m0 rts Fs q'" by (rule heap_ok_frame [OF hp]) (simp_all add: q')
  ultimately show ?thesis by (simp add: seq_inv_def)
qed

text \<open>The task that the worker takes next runs, and builds the next version.\<close>

lemma next_task_runs:
  assumes inv: "seq_inv t0 n gc_on m0 rts Fs q" and lt: "q_nxt q < q_sub q"
  shows "\<exists>c' s' F'. exec_task I (q_com_next q + 1) (q_ctxs q) (q_store q) = Some (c', s') \<and>
    ok s' \<and> top (q_store q) \<le> top s' \<and> live (q_store q) \<subseteq> live s' \<and>
    cur s' (of_nat (Suc (q_nxt q))) (c_root c') F' (content m0 (q_log q) (Suc (q_nxt q))) \<and>
    F' \<subseteq> Fs (q_nxt q) \<union> {top (q_store q)..<top s'} \<and> idle c' \<and> retired_ok c' \<and>
    (gc_on \<longrightarrow> set (retired_nodes c') = Fs (q_nxt q) - F' \<and> distinct (retired_nodes c')) \<and>
    (\<forall>w r0 F0 f0. snap (q_store q) (of_nat (q_nxt q)) w r0 F0 f0 \<longrightarrow> w < of_nat (Suc (q_nxt q)) \<longrightarrow>
      snap s' (of_nat (Suc (q_nxt q))) w r0 F0 f0)"
proof -
  let ?m = "q_nxt q" and ?tid = "q_com_next q + 1"
  let ?c = "(q_ctxs q (ring ?tid))\<lparr>c_t_past := rts ?m\<rparr>"
  have tk: "tickets slots q" and cl: "cells_ok idle slots gc_on rts q" and hp: "heap_ok m0 rts Fs q"
    using inv by (simp_all add: seq_inv_def)
  have num: "q_sub q < 2 ^ 32" "q_sub q = length (q_log q)" using tk by (simp_all add: tickets_def)
  have tid: "unat ?tid = Suc ?m" using num(1) lt by (intro unat_Suc_64) simp
  have cell: "filled slots gc_on (Suc ?m) (q_ctxs q (ring ?tid))"
    "(c_key (q_ctxs q (ring ?tid)), c_val (q_ctxs q (ring ?tid))) = q_log q ! ?m"
    using cl lt by (simp_all add: cells_ok_def ring_unat tid)
  have root: "c_root (q_ctxs q (ring (q_com_next q))) = rts ?m" using cl by (simp add: cells_ok_def ring_unat)
  have less: "(of_nat ?m :: u32) < of_nat (Suc ?m)"
    by (rule of_nat_32_less) (use num(1) lt in simp_all)
  have "idle ?c" using cl idle_more [of ?c "q_ctxs q (ring ?tid)"] by (simp add: cells_ok_def)
  moreover have "retired_ok ?c" "c_retired_count ?c = 0" using cl by (simp_all add: cells_ok_def retired_ok_def)
  ultimately obtain c' s' F' where run: "ti_exec I ?c (q_store q) = Some (c', s')"
    and post: "ok s'" "top (q_store q) \<le> top s'" "live (q_store q) \<subseteq> live s'"
    "cur s' (c_sno ?c) (c_root c') F' ((content m0 (q_log q) ?m)(c_key ?c \<mapsto> c_val ?c))"
    "F' \<subseteq> Fs ?m \<union> {top (q_store q)..<top s'}" "idle c'" "retired_ok c'"
    "c_gc_enabled ?c \<longrightarrow> set (retired_nodes c') = Fs ?m - F' \<and> distinct (retired_nodes c')"
    "\<forall>w r0 F0 f0. snap (q_store q) (of_nat ?m) w r0 F0 f0 \<longrightarrow> w < ucast (c_sno ?c) \<longrightarrow> snap s' (c_sno ?c) w r0 F0 f0"
    using exec [of "q_store q" "of_nat ?m" "rts ?m" "Fs ?m" "content m0 (q_log q) ?m" ?c] hp cell(1) less
    by (auto simp: heap_ok_def filled_def)
  have sno: "c_sno ?c = of_nat (Suc ?m)" "(ucast (of_nat (Suc ?m) :: u32) :: u64) = of_nat (Suc ?m)"
    using cell(1) num(1) lt by (simp_all add: filled_def ucast_of_nat_32_64 del: of_nat_Suc)
  have kv: "(content m0 (q_log q) ?m)(c_key ?c \<mapsto> c_val ?c) = content m0 (q_log q) (Suc ?m)"
    using cell(2) lt num(2) by (simp add: content_Suc flip: cell(2))
  have ex: "exec_task I ?tid (q_ctxs q) (q_store q) = Some (c', s')"
    using run by (simp add: exec_task_def root)
  have ret: "gc_on \<longrightarrow> set (retired_nodes c') = Fs ?m - F' \<and> distinct (retired_nodes c')"
    using post(8) cell(1) by (simp add: filled_def)
  show ?thesis
    by (intro exI [of _ c'] exI [of _ s'] exI [of _ F'] conjI ex ret post [unfolded sno kv])
qed

lemma inv_exec:
  assumes inv: "seq_inv t0 n gc_on m0 rts Fs q" and run: "seq_do I WorkerExec q = Some q'"
  shows "\<exists>rts' Fs'. seq_inv t0 n gc_on m0 rts' Fs' q'"
proof -
  let ?m = "q_nxt q" and ?tid = "q_com_next q + 1" and ?s = "q_store q"
  have tk: "tickets slots q" and cl: "cells_ok idle slots gc_on rts q" and p: "protocol_ok t0 n gc_on rts q"
    and hp: "heap_ok m0 rts Fs q" using inv by (simp_all add: seq_inv_def)
  have ph: "q_phase q = W_EXEC" and lt: "q_com_next q < q_sub_local q" using run by (auto split: if_splits)
  have num: "q_sub q < 2 ^ 32" "q_com q \<le> ?m" "q_loc q \<le> ?m" "q_sub q < q_com q + 65536" "q_sub q = length (q_log q)"
    and lts: "?m < unat (q_sub_local q)" "?m < q_sub q"
    using tk lt by (auto simp: tickets_def word_less_nat_alt)
  have tid: "unat ?tid = Suc ?m" using num(1) lts by (intro unat_Suc_64) simp
  obtain c' s' F' where ex: "exec_task I ?tid (q_ctxs q) ?s = Some (c', s')"
    and post: "ok s'" "top ?s \<le> top s'" "live ?s \<subseteq> live s'"
      "cur s' (of_nat (Suc ?m)) (c_root c') F' (content m0 (q_log q) (Suc ?m))"
      "F' \<subseteq> Fs ?m \<union> {top ?s..<top s'}" "idle c'" "retired_ok c'"
      "gc_on \<longrightarrow> set (retired_nodes c') = Fs ?m - F' \<and> distinct (retired_nodes c')"
    and keep: "\<And>w r0 F0 f0. snap ?s (of_nat ?m) w r0 F0 f0 \<Longrightarrow> w < of_nat (Suc ?m) \<Longrightarrow>
        snap s' (of_nat (Suc ?m)) w r0 F0 f0"
    using next_task_runs [OF inv lts(2)] by blast
  obtain c'' g where rt: "retire (ti_node_size I s') None ?tid c' (gs_gc (q_gc q)) = (c'', g)" by fastforce
  let ?G = "(q_gc q)\<lparr>gs_gc := g\<rparr>"
  have q': "q' = q\<lparr>q_ctxs := (q_ctxs q)(ring ?tid := c''), q_store := s', q_gc := ?G, q_com_next := ?tid\<rparr>"
    using run ex rt by (auto simp: Let_def split: if_splits)
  let ?rts = "rts(Suc ?m := c_root c')" and ?Fs = "Fs(Suc ?m := F')"
  have c'': "c'' = snd (snd (drain_retired c'))" using retire_ctx [of "ti_node_size I s'" None ?tid c' "gs_gc (q_gc q)"] rt by simp
  have enabled: "g_enabled (gs_gc (q_gc q)) = gc_on" by (rule gc_reach_enabled [OF protocol_reach [OF p]])
  have nxt': "q_nxt q' = Suc ?m" by (simp add: q' tid)
  have small: "?m < 2 ^ 32" "Suc ?m < 2 ^ 32" using num(1) lts(2) by simp_all
  have cs: "snap s' (of_nat (Suc ?m)) (of_nat (Suc ?m)) (c_root c') F' (content m0 (q_log q) (Suc ?m))"
    using cur_snap [OF post(4)] unfolding ucast_of_nat_32_64 [OF small(2)] .
  have "cur ?s (of_nat ?m) (rts ?m) (Fs ?m) (content m0 (q_log q) ?m)" using hp unfolding heap_ok_def by (elim conjE)
  from cur_snap [OF this] have hp_snap: "snap ?s (of_nat ?m) (of_nat ?m) (rts ?m) (Fs ?m) (content m0 (q_log q) ?m)"
    unfolding ucast_of_nat_32_64 [OF small(1)] .
  have tk': "tickets slots q'"
    using tk lts num tid ph by (auto simp: tickets_def q')
  have "idle c''" using idle_more [of c'' c'] post(6) by (simp add: c'')
  moreover have "retired_ok c''" "c_retired_count c'' = 0" using retired_ok_drained [OF post(7)] by (simp_all add: c'')
  moreover have "idle (q_ctxs q i) \<and> retired_ok (q_ctxs q i) \<and> c_retired_count (q_ctxs q i) = 0" for i
    using cl by (simp add: cells_ok_def)
  moreover have "q_ctxs q' i = (if i = Suc ?m mod 65536 then c'' else q_ctxs q i)" for i by (simp add: q' ring_unat tid)
  moreover have "Suc t mod 65536 \<noteq> Suc ?m mod 65536" if "Suc ?m \<le> t" "t \<le> q_sub q" for t
    using ring_distinct [of "Suc ?m" "Suc t"] that num(2,4) by auto
  ultimately have cl': "cells_ok idle slots gc_on ?rts q'"
    using cl lts unfolding cells_ok_def nxt' by (auto simp: q' c'' tid simp del: of_nat_Suc)
  have reach: "gc_reach t0 n gc_on ?G"
    using rt
  proof (cases rule: retire_cases)
    case 1
    then show ?thesis using protocol_reach [OF p] by simp
  next
    case (2 b)
    then show ?thesis by (intro gc_do_reach [OF protocol_reach [OF p], of "Retire b"]) (simp_all add: act_ok_def)
  qed
  have fields: "g_version g = g_version (gs_gc (q_gc q))" using rt by (cases rule: retire_cases) simp_all
  have p': "protocol_ok t0 n gc_on ?rts q'"
  proof (rule protocol_okI)
    show "unat v \<le> q_loc q' \<and> r = ?rts (unat v)" if "(r, v) \<in> gs_pubs (q_gc q')" for r v
      using protocol_pub [OF p, of r v] that num(3) by (auto simp: q')
    show "unat w \<le> q_com q'" if "gs_rc (q_gc q') t = RC_SCAN i m w" for t i m w
      using protocol_rc [OF p, of t i m w] that by (simp add: q')
  qed (use protocol_idle [OF p] protocol_version [OF p] protocol_rc0 [OF p] reach ph fields in \<open>simp_all add: q'\<close>)
  have batches: "(\<forall>b \<in> set (g_retired g). batch_ok ?Fs (Suc ?m) (live s') b) \<and>
      sorted_wrt (\<lambda>b c. rb_version b < rb_version c) (g_retired g)"
  proof -
    have old: "batch_ok ?Fs (Suc ?m) (live s') b" if b: "b \<in> set (g_retired (gs_gc (q_gc q)))" for b
    proof -
      have "batch_ok Fs ?m (live ?s) b" using hp b by (simp add: heap_ok_def)
      then obtain v where "v < ?m" "unat (rb_version b) = Suc v" "set (rb_nodes b) = Fs v - Fs (Suc v)"
        "distinct (rb_nodes b)" "rb_checkpoint b = nullptr" "set (rb_nodes b) \<subseteq> live ?s"
        by (auto simp: batch_ok_def)
      then show ?thesis using post(3) unfolding batch_ok_def by (intro conjI exI [of _ v]) auto
    qed
    have ver: "rb_version b < ?tid" if "b \<in> set (g_retired (gs_gc (q_gc q)))" for b
    proof -
      have "batch_ok Fs ?m (live ?s) b" using hp that by (simp add: heap_ok_def)
      then show ?thesis by (auto simp: batch_ok_def word_less_nat_alt tid)
    qed
    have sorted: "sorted_wrt (\<lambda>b c. rb_version b < rb_version c) (g_retired (gs_gc (q_gc q)))"
      using hp by (simp add: heap_ok_def)
    from rt show ?thesis
    proof (cases rule: retire_cases)
      case 1
      then show ?thesis using old sorted by simp
    next
      case (2 b)
      then have b: "rb_nodes b = retired_nodes c'" "rb_checkpoint b = nullptr" "rb_version b = ?tid" and on: gc_on
        using enabled by (simp_all add: retired_nodes_def)
      have "Fs ?m \<subseteq> live s'" using snap_live [OF hp_snap] post(3) by blast
      then have "batch_ok ?Fs (Suc ?m) (live s') b"
        using post(8) on b tid unfolding batch_ok_def by (intro conjI exI [of _ ?m]) auto
      then show ?thesis using 2(2) old sorted ver b(3) by (auto simp: sorted_wrt_append)
    qed
  qed
  have hp': "heap_ok m0 ?rts ?Fs q'"
  proof -
    have snaps: "snap s' (of_nat (Suc ?m)) (of_nat v) (?rts v) (?Fs v) (content m0 (q_log q) v)"
      if "v \<le> Suc ?m" "unat (gs_bound (q_gc q)) \<le> v" for v
    proof (cases "v = Suc ?m")
      case True
      then show ?thesis using cs by simp
    next
      case False
      then have v: "v \<le> ?m" using that by simp
      then have "snap ?s (of_nat ?m) (of_nat v) (rts v) (Fs v) (content m0 (q_log q) v)"
        using hp that by (simp add: heap_ok_def)
      moreover have "(of_nat v :: u64) < of_nat (Suc ?m)" by (rule of_nat_64_less) (use v num(1) lts in simp_all)
      ultimately show ?thesis using keep False by simp
    qed
    have tops: "\<forall>v \<le> ?m. \<forall>a \<in> Fs v. a < top ?s" using hp by (simp add: heap_ok_def)
    have "\<forall>a \<in> F'. a < top s'" using snap_live [OF cs] live_top [OF post(1)] by blast
    then have "\<forall>v \<le> Suc ?m. \<forall>a \<in> ?Fs v. a < top s'"
      using tops post(2) by (auto simp: le_Suc_eq intro: less_le_trans)
    moreover have "gone_for_good ?Fs (Suc ?m)"
      using hp by (intro gone_extend [OF _ tops post(5)]) (simp add: heap_ok_def)
    ultimately show ?thesis
      unfolding heap_ok_def nxt' using post(1,4) snaps batches by (simp add: q' del: of_nat_Suc)
  qed
  show ?thesis using tk' cl' p' hp' unfolding seq_inv_def by blast
qed

text \<open>A reclamation never frees a node twice nor one that is still part of a visible version.\<close>

lemma reclaim_free_runs:
  assumes inv: "seq_inv t0 n gc_on m0 rts Fs q" and rc: "gs_rc (q_gc q) t = RC_SCAN i m w"
    and i: "i = length (g_readers (gs_gc (q_gc q)))"
  shows "\<exists>q'. reclaim_free I t q = Some q' \<and> seq_inv t0 n gc_on m0 rts Fs q'"
proof -
  let ?safe = "min m w" and ?s = "q_store q" and ?bs = "g_retired (gs_gc (q_gc q))"
  have tk: "tickets slots q" and cl: "cells_ok idle slots gc_on rts q" and p: "protocol_ok t0 n gc_on rts q"
    and hp: "heap_ok m0 rts Fs q" using inv by (simp_all add: seq_inv_def)
  have gone: "gone_for_good Fs (q_nxt q)" and bs: "\<forall>b \<in> set ?bs. batch_ok Fs (q_nxt q) (live ?s) b"
    and sorted: "sorted_wrt (\<lambda>b c. rb_version b < rb_version c) ?bs" and ok: "ok ?s"
    using hp by (simp_all add: heap_ok_def)
  obtain bs' k "by" s' where run: "free_batches (ti_free I) (\<lambda>_ _. None) ?safe ?bs ?s = Some (bs', k, by, s')"
    and kept: "kept_without (freed_nodes ?safe ?bs) ?s s'" and bs': "\<forall>b \<in> set bs'. batch_ok Fs (q_nxt q) (live s') b"
    using free_batches_run [OF ok bs sorted gone] by blast
  let ?g = "pop_batches ?safe (gs_gc (q_gc q))"
  have tried: "try_reclaim_safe (ti_free I) (\<lambda>_ _. None) ?safe (gs_gc (q_gc q)) ?s = Some (?g, s')"
    using run free_batches_takeWhile [OF run] by (simp add: try_reclaim_safe_def pop_batches_def Let_def)
  obtain G where G: "gc_do (RcFree t) (q_gc q) = Some G" "gs_gc G = ?g" "gs_rc G = (gs_rc (q_gc q))(t := RC_IDLE)"
    "gs_bound G = max (gs_bound (q_gc q)) ?safe"
    using rc i by simp
  let ?q = "q\<lparr>q_gc := G, q_store := s', q_phase := (if t = 0 then W_TOP else q_phase q)\<rparr>"
  have "G\<lparr>gs_gc := ?g\<rparr> = G" using G(2) by simp
  then have res: "reclaim_free I t q = Some ?q"
    using rc G(1) tried unfolding reclaim_free_def by (simp del: gc_do.simps)
  have ph: "q_phase q = W_RECLAIM" if "t = 0" using protocol_rc0 [OF p] rc that by simp
  have "tickets slots ?q" using tk ph by (auto simp: tickets_def)
  moreover have "cells_ok idle slots gc_on rts ?q" by (rule cells_ok_frame [OF cl]) simp_all
  moreover have "protocol_ok t0 n gc_on rts ?q"
  proof (rule protocol_frame [OF p])
    show "gc_reach t0 n gc_on (q_gc ?q)"
      using gc_do_reach [OF protocol_reach [OF p] _ G(1)] by (simp add: act_ok_def)
    show "unat w' \<le> q_com q" if "gs_rc (q_gc ?q) t' = RC_SCAN i' m' w'" for t' i' m' w'
      using that protocol_rc [OF p, of t'] G(3) by (simp split: if_splits)
    show "gs_rc (q_gc ?q) 0 \<noteq> RC_IDLE \<Longrightarrow> q_phase ?q = W_RECLAIM"
      using protocol_rc0 [OF p] G(3) by (simp split: if_splits)
  qed (use gc_inert [OF G(1)] ph in simp_all)
  moreover have "heap_ok m0 rts Fs ?q"
  proof -
    have apart: "freed_nodes ?safe ?bs \<inter> Fs v = {}" if v: "v \<le> q_nxt q" "unat ?safe \<le> v \<or> v = q_nxt q" for v
    proof -
      have "set (rb_nodes b) \<inter> Fs v = {}" if b: "b \<in> set (takeWhile (\<lambda>b. rb_version b \<le> ?safe) ?bs)" for b
      proof -
        have "b \<in> set ?bs" "rb_version b \<le> ?safe" using set_takeWhileD [OF b] by blast+
        moreover then obtain u where u: "u < q_nxt q" "unat (rb_version b) = Suc u" "set (rb_nodes b) = Fs u - Fs (Suc u)"
          using bs by (auto simp: batch_ok_def)
        moreover have "unat (rb_version b) \<le> unat ?safe" using calculation(2) by (simp only: word_le_nat_alt)
        ultimately have "u < v" using v by linarith
        then show ?thesis using gone v(1) u(3) by (simp add: gone_for_good_def)
      qed
      then show ?thesis unfolding freed_nodes_def by blast
    qed
    have ret: "g_retired (gs_gc G) = bs'"
      using free_batches_takeWhile [OF run] by (simp add: G(2))
    have "sorted_wrt (\<lambda>b c. rb_version b < rb_version c) bs'"
      using sorted free_batches_takeWhile [OF run] by (simp add: dropWhile_eq_drop sorted_wrt_drop)
    moreover have "unat ?safe \<le> v" if "unat (max (gs_bound (q_gc q)) ?safe) \<le> v" for v
      using that max.cobounded2 [of ?safe "gs_bound (q_gc q)"] by (meson order_trans word_le_nat_alt)
    moreover have "unat (gs_bound (q_gc q)) \<le> v" if "unat (max (gs_bound (q_gc q)) ?safe) \<le> v" for v
      using that max.cobounded1 [of "gs_bound (q_gc q)" ?safe] by (meson order_trans word_le_nat_alt)
    ultimately show ?thesis
      using hp kept apart bs' gone unfolding heap_ok_def kept_without_def by (simp add: ret G(4))
  qed
  ultimately show ?thesis using res unfolding seq_inv_def by blast
qed

section \<open>Reachable states\<close>

definition start_ok :: "'z ctx_scheme \<Rightarrow> addr \<Rightarrow> 's \<Rightarrow> (u64 \<Rightarrow> u64 option) \<Rightarrow> bool" where
  "start_ok zero t0 s m0 \<longleftrightarrow>
     slots \<noteq> 0 \<and> ok s \<and> (\<exists>F. cur s 0 t0 F m0) \<and> idle zero \<and> retired_ok zero \<and> c_retired_count zero = 0"

lemma inv_start:
  assumes "start_ok zero t0 s m0"
  shows "\<exists>rts Fs. seq_inv t0 n gc_on m0 rts Fs (seqcow_init zero t0 s n gc_on slots)"
proof -
  let ?q = "seqcow_init zero t0 s n gc_on slots"
  obtain F where cur: "ok s" "cur s 0 t0 F m0" and z: "slots \<noteq> 0" "idle zero" "retired_ok zero" "c_retired_count zero = 0"
    using assms by (auto simp: start_ok_def)
  have gc: "q_gc ?q = gc_start t0 n gc_on" using z by (simp add: seqcow_init_def gc_start_def)
  have g: "gs_gc (gc_start t0 n gc_on) = init_gc t0 n gc_on True" by (simp add: gc_start_def)
  have idle: "idle (c :: 'z ctx_scheme)" if "ctx.more c = ctx.more zero" for c using idle_more [OF that] z by simp
  have snap: "snap s 0 0 t0 F m0" using cur_snap [OF cur(2)] by simp
  have "tickets slots ?q" by (simp add: tickets_def seqcow_init_def)
  moreover have "cells_ok idle slots gc_on (\<lambda>_. t0) ?q"
    using z by (simp add: cells_ok_def seqcow_init_def retired_ok_def idle)
  moreover have "protocol_ok t0 n gc_on (\<lambda>_. t0) ?q"
    by (rule protocol_okI, unfold gc)
       (simp_all add: gc_reach.start, simp_all add: gc_start_def seqcow_init_def)
  moreover have "heap_ok m0 (\<lambda>_. t0) (\<lambda>_. F) ?q"
    using cur snap snap_live [OF snap] live_top [OF cur(1)]
    by (auto simp: heap_ok_def gc g init_gc_def gone_for_good_def) (auto simp: seqcow_init_def)
  ultimately show ?thesis unfolding seq_inv_def by blast
qed

lemma inv_step:
  assumes inv: "seq_inv t0 n gc_on m0 rts Fs q" and slots: "slots \<noteq> 0" and run: "seq_do I a q = Some q'"
  shows "\<exists>rts' Fs'. seq_inv t0 n gc_on m0 rts' Fs' q'"
proof -
  have p: "protocol_ok t0 n gc_on rts q" and tk: "tickets slots q" using inv by (simp_all add: seq_inv_def)
  have fat: "q_fat_slots q \<noteq> 0" using tk slots by (simp add: tickets_def)
  have nxt: "q_com_next q = q_com_local q" if "q_phase q \<noteq> W_EXEC"
    using tk that by (simp add: tickets_def word_unat_eq_iff)
  have same: ?thesis if "seq_inv t0 n gc_on m0 rts Fs q'" using that by blast
  show ?thesis
  proof (cases a)
    case (ClientLock cl k v)
    then show ?thesis using inv_lock [OF inv] run same by blast
  next
    case (ClientSubmit cl k v)
    then show ?thesis using inv_submit [OF inv] run same by blast
  next
    case (ClientReserve cl)
    then show ?thesis using run fat by simp
  next
    case (ClientFill cl k v)
    then show ?thesis using run fat by (simp split: option.splits)
  next
    case WorkerLoad
    then show ?thesis using inv_load [OF inv] run same by blast
  next
    case WorkerExec
    then show ?thesis using inv_exec [OF inv] run by blast
  next
    case WorkerExecEnd
    then show ?thesis using inv_exec_end [OF inv] run same by blast
  next
    case WorkerPublish
    then show ?thesis using inv_publish [OF inv] run same by (simp split: if_splits)
  next
    case WorkerCommit
    then show ?thesis using inv_commit [OF inv] run same by blast
  next
    case WorkerReclaim
    then have ph: "q_phase q = W_RECLAIM" and off: "\<not> g_enabled (gs_gc (q_gc q))" and q': "q' = q\<lparr>q_phase := W_TOP\<rparr>"
      using run by (simp_all split: if_splits)
    then have "gs_rc (q_gc q) 0 = RC_IDLE"
      using protocol_rc_on [OF p, of 0] gc_reach_enabled [OF protocol_reach [OF p]] by blast
    then show ?thesis using ph nxt by (intro same inv_phase [OF inv q']) simp_all
  next
    case WorkerStop
    then have ph: "q_phase q = W_TOP" and q': "q' = q\<lparr>q_phase := W_STOPPED\<rparr>"
      using run by (simp_all split: if_splits)
    then have "gs_rc (q_gc q) 0 = RC_IDLE" using protocol_rc0 [OF p] by auto
    moreover have "q_stop q" using WorkerStop run tk by (simp add: tickets_def split: if_splits)
    ultimately show ?thesis using ph nxt by (intro same inv_phase [OF inv q']) simp_all
  next
    case (ReclaimStart t)
    show ?thesis
    proof (cases "t = 0")
      case True
      then have ph: "q_phase q = W_RECLAIM" and run': "do_gc (RcStart 0 (q_com_local q)) q = Some q'"
        using run ReclaimStart by (simp_all split: if_splits del: gc_do.simps)
      have "q_loc q \<le> q_com q" using tk ph by (simp add: tickets_def)
      then show ?thesis using inv_reclaim_start [OF inv _ _ run'] ph by (intro same) simp
    next
      case False
      then have "do_gc (RcStart t (q_committed q)) q = Some q'"
        using run ReclaimStart by (simp split: if_splits del: gc_do.simps)
      then show ?thesis using inv_reclaim_start [OF inv, of "q_committed q" t] False by (intro same) simp
    qed
  next
    case (ReclaimScan t)
    then show ?thesis using inv_reclaim_scan [OF inv] run same by simp
  next
    case (ReclaimFree t)
    then have run': "reclaim_free I t q = Some q'" using run by simp
    then obtain i m w where "gs_rc (q_gc q) t = RC_SCAN i m w" "i = length (g_readers (gs_gc (q_gc q)))"
      by (auto simp: reclaim_free_def split: reclaim_phase.splits if_splits)
    from reclaim_free_runs [OF inv this] run' show ?thesis by (intro same) auto
  next
    case (ReaderPin cid)
    then show ?thesis using inv_reader [OF inv] run same by simp
  next
    case (ReaderUnpin cid)
    then show ?thesis using inv_unpin [OF inv] run same by simp
  next
    case Destroy
    then have q': "q' = q\<lparr>q_stop := True\<rparr>" using run by simp
    have "tickets slots q'" using tk by (auto simp: tickets_def q')
    moreover have "cells_ok idle slots gc_on rts q'"
      by (rule cells_ok_frame [of _ _ _ _ q]) (use inv in \<open>simp_all add: seq_inv_def q'\<close>)
    moreover have "protocol_ok t0 n gc_on rts q'"
      by (rule protocol_frame [OF p]) (use p protocol_rc [OF p] protocol_rc0 [OF p] in \<open>auto simp: q' protocol_reach\<close>)
    moreover have "heap_ok m0 rts Fs q'"
      by (rule heap_ok_frame [of _ _ _ q]) (use inv in \<open>simp_all add: seq_inv_def q'\<close>)
    ultimately have "seq_inv t0 n gc_on m0 rts Fs q'" by (simp add: seq_inv_def)
    then show ?thesis by (rule same)
  qed
qed

theorem seq_reach_inv:
  assumes "start_ok zero t0 s m0" and "seq_reach I (seqcow_init zero t0 s n gc_on slots) q"
  shows "\<exists>rts Fs. seq_inv t0 n gc_on m0 rts Fs q"
  using assms(2)
proof (induction rule: seq_reach.induct)
  case start
  show ?case by (rule inv_start [OF assms(1)])
next
  case (step q a q')
  have "slots \<noteq> 0" using assms(1) by (simp add: start_ok_def)
  then show ?case using step.IH inv_step step.hyps(2) by blast
qed

section \<open>What readers see\<close>

lemma pinned_snapshot:
  assumes inv: "seq_inv t0 n gc_on m0 rts Fs q" and cid: "reader_cid (gs_gc (q_gc q)) cid"
    and pinned: "gs_rd (q_gc q) cid = RD_PINNED r v"
  shows "snap (q_store q) (of_nat (q_nxt q)) v r (Fs (unat v)) (content m0 (q_log q) (unat v)) \<and> unat v \<le> q_loc q"
proof -
  have p: "protocol_ok t0 n gc_on rts q" and tk: "tickets slots q" and hp: "heap_ok m0 rts Fs q"
    using inv by (simp_all add: seq_inv_def)
  have "q_loc q < 2 ^ 32" and le: "q_loc q \<le> q_nxt q" using tk by (simp_all add: tickets_def)
  then have "reader_ok (q_gc q) cid"
    using gc_invD(3) [OF gc_reach_inv [OF protocol_reach [OF p]] protocol_count [OF p]] cid by blast
  then have pub: "(r, v) \<in> gs_pubs (q_gc q)" and bnd: "gs_bound (q_gc q) \<le> v"
    using pinned by (simp_all add: reader_ok_def Let_def bounded_rd_def)
  note rv = protocol_pub [OF p pub]
  have "snap (q_store q) (of_nat (q_nxt q)) (of_nat (unat v)) (rts (unat v)) (Fs (unat v)) (content m0 (q_log q) (unat v))"
    using hp rv le bnd unfolding heap_ok_def by (auto simp: word_le_nat_alt simp del: of_nat_unat)
  then show ?thesis using rv by simp
qed

text \<open>
  What a reclamation that has scanned the readers frees: the nodes of the popped batches, none of which
  is part of a version that a reader has pinned or that the worker starts the next update from.
\<close>

lemma reclaim_keeps:
  assumes inv: "seq_inv t0 n gc_on m0 rts Fs q" and rc: "gs_rc (q_gc q) t = RC_SCAN i m w"
    and i: "i = length (g_readers (gs_gc (q_gc q)))"
  obtains q' where "reclaim_free I t q = Some q'" "seq_inv t0 n gc_on m0 rts Fs q'"
    "live (q_store q') = live (q_store q) - reclaimed (min m w) q"
    "\<And>cid r v. reader_cid (gs_gc (q_gc q)) cid \<Longrightarrow> gs_rd (q_gc q) cid = RD_PINNED r v \<Longrightarrow>
       reclaimed (min m w) q \<inter> Fs (unat v) = {} \<and> reader_cid (gs_gc (q_gc q')) cid \<and> gs_rd (q_gc q') cid = RD_PINNED r v"
    "reclaimed (min m w) q \<inter> Fs (q_nxt q) = {}" "q_log q' = q_log q"
proof -
  let ?bs = "g_retired (gs_gc (q_gc q))" and ?safe = "min m w"
  obtain q' where q': "reclaim_free I t q = Some q'" and inv': "seq_inv t0 n gc_on m0 rts Fs q'"
    using reclaim_free_runs [OF inv rc i] by blast
  have hp: "heap_ok m0 rts Fs q" and hp': "heap_ok m0 rts Fs q'" using inv inv' by (simp_all add: seq_inv_def)
  obtain g s' where run: "try_reclaim_safe (ti_free I) (\<lambda>_ _. None) ?safe (gs_gc (q_gc q)) (q_store q) = Some (g, s')"
    and eqs: "q_store q' = s'" "gs_gc (q_gc q') = g" "gs_rd (q_gc q') = gs_rd (q_gc q)" "q_com_next q' = q_com_next q"
      "q_log q' = q_log q"
    using q' rc by (auto simp: reclaim_free_def bind_Some_iff split: if_splits)
  obtain bs k "by" where fb: "free_batches (ti_free I) (\<lambda>_ _. None) ?safe ?bs (q_store q) = Some (bs, k, by, s')"
    using run by (auto simp: try_reclaim_safe_def bind_Some_iff)
  have "freed_nodes ?safe ?bs = reclaimed ?safe q" by (simp add: freed_nodes_def reclaimed_def)
  then have live: "live s' = live (q_store q) - reclaimed ?safe q"
    using fb free_batches_run [of "q_store q" ?bs Fs "q_nxt q" ?safe] hp by (auto simp: heap_ok_def kept_without_def)
  have cid': "reader_cid (gs_gc (q_gc q')) cid = reader_cid (gs_gc (q_gc q)) cid" for cid
    using try_reclaim_safe_pops [OF run] eqs(2) by (simp add: reader_cid_def)
  have gone: "reclaimed ?safe q \<inter> F = {}" if "snap (q_store q') hi v r F f" for hi v r F f
    using snap_live [OF that] live eqs(1) by auto
  have "reclaimed ?safe q \<inter> Fs (unat v) = {}"
    if "reader_cid (gs_gc (q_gc q)) cid" "gs_rd (q_gc q) cid = RD_PINNED r v" for cid r v
    using pinned_snapshot [OF inv', of cid r v] that cid' eqs(3) by (intro gone) auto
  moreover have "reclaimed ?safe q \<inter> Fs (q_nxt q) = {}"
    using gone hp' cur_snap eqs(4) unfolding heap_ok_def by metis
  ultimately show thesis using q' inv' live eqs cid' by (intro that [of q']) simp_all
qed

text \<open>A pin that succeeds is not older than what was committed when it succeeded.\<close>

lemma pin_fresh:
  assumes inv: "seq_inv t0 n gc_on m0 rts Fs q" and run: "seq_do I (ReaderPin cid) q = Some q'"
    and new: "gs_rd (q_gc q') cid = RD_PINNED r v" "gs_rd (q_gc q) cid \<noteq> RD_PINNED r v"
  shows "q_com q \<le> unat v"
proof -
  have p: "protocol_ok t0 n gc_on rts q" and tk: "tickets slots q" using inv by (simp_all add: seq_inv_def)
  have lt: "q_loc q < 2 ^ 32" using tk by (simp add: tickets_def)
  note gi = gc_reach_inv [OF protocol_reach [OF p]]
  have con: "g_consistent (gs_gc (q_gc q))" using gi by (simp add: gc_inv_def)
  have cid: "reader_cid (gs_gc (q_gc q)) cid" and "fst (pin_step cid (gs_rd (q_gc q) cid) (gs_gc (q_gc q))) = RD_PINNED r v"
    using run new by (auto simp: do_gc_def reader_cid_def split: if_splits prod.splits)
  then obtain sq where "gs_rd (q_gc q) cid = RD_STORED sq r v" "sq = g_seq (gs_gc (q_gc q))"
    using con new(2) by (cases "gs_rd (q_gc q) cid") (auto split: if_splits)
  then have "v = g_version (gs_gc (q_gc q))"
    using gc_invD(3) [OF gi protocol_count [OF p lt] cid] by (simp add: reader_ok_def Let_def)
  then show ?thesis using protocol_version(1) [OF p] by simp
qed

end

section \<open>The worker finishes what was submitted\<close>

fun seq_run :: "('z, 's) tree_ops \<Rightarrow> seq_act list \<Rightarrow> ('z, 's) seqcow \<Rightarrow> ('z, 's) seqcow option" where
  "seq_run I [] q = Some q"
| "seq_run I (a # as) q = (case seq_do I a q of None \<Rightarrow> None | Some q' \<Rightarrow> seq_run I as q')"

text \<open>The actions of the worker thread inside \<^verbatim>\<open>worker_main_\<close>, up to its end.\<close>

definition worker_acts :: "seq_act set" where
  "worker_acts =
     {WorkerLoad, WorkerExec, WorkerExecEnd, WorkerPublish, WorkerCommit, WorkerReclaim, ReclaimStart 0, ReclaimScan 0,
      ReclaimFree 0}"

definition scan_left :: "('z, 's) seqcow \<Rightarrow> nat" where
  "scan_left q =
     (case gs_rc (q_gc q) 0 of
        RC_IDLE \<Rightarrow> length (g_readers (gs_gc (q_gc q))) + 2
      | RC_SCAN i m w \<Rightarrow> length (g_readers (gs_gc (q_gc q))) + 1 - i)"

text \<open>The actions that are left, at most, before the next commit.\<close>

definition worker_rank :: "('z, 's) seqcow \<Rightarrow> nat" where
  "worker_rank q =
     (case q_phase q of
        W_STOPPED \<Rightarrow> 0
      | W_COMMIT \<Rightarrow> 1
      | W_PUBLISH \<Rightarrow>
          (case gs_pub (q_gc q) of PUB_IDLE \<Rightarrow> 5 | PUB_ROOT _ _ \<Rightarrow> 4 | PUB_VERSION _ _ \<Rightarrow> 3 | PUB_END \<Rightarrow> 2)
      | W_EXEC \<Rightarrow> if q_loc q < unat (q_sub_local q) then 6 + (q_sub q - q_nxt q) else 8 + q_sub q
      | W_TOP \<Rightarrow> 7 + q_sub q
      | W_RECLAIM \<Rightarrow> 9 + q_sub q + scan_left q)"

lemma scan_bound: "gc_reach t0 n gc_on S \<Longrightarrow> gs_rc S t = RC_SCAN i m w \<Longrightarrow> i \<le> length (g_readers (gs_gc S))"
proof (induction arbitrary: t i m w rule: gc_reach.induct)
  case (step S a S')
  have pin: "length (g_readers g') = length (g_readers g)" if "pin_step cid p g = (p', g')" for cid p g p' g'
    using pin_step_fields [OF that] by simp
  show ?case
    using step
    by (cases a)
       (auto simp: publish_begin_def publish_root_def publish_version_def publish_end_def unpin_def
         dest: pin split: if_splits pub_phase.splits reader_phase.splits reclaim_phase.splits prod.splits)
qed (simp add: gc_start_def)

definition worker_left :: "('z, 's) seqcow \<Rightarrow> nat \<times> nat" where
  "worker_left q = (q_sub q - q_com q, worker_rank q)"

definition advances :: "('z, 's) tree_ops \<Rightarrow> ('z, 's) seqcow \<Rightarrow> bool" where
  "advances I q \<longleftrightarrow>
     (\<exists>a \<in> worker_acts. \<exists>q'. seq_do I a q = Some q' \<and> q_submitted q' = q_submitted q \<and> q_log q' = q_log q \<and>
        \<not> q_stop q' \<and> (worker_left q', worker_left q) \<in> less_than <*lex*> less_than)"

definition step_ahead :: "('z, 's) seqcow \<Rightarrow> ('z, 's) seqcow option \<Rightarrow> bool" where
  "step_ahead q r \<longleftrightarrow>
     (case r of None \<Rightarrow> False
      | Some q' \<Rightarrow>
          q_submitted q' = q_submitted q \<and> q_log q' = q_log q \<and> \<not> q_stop q' \<and>
          (q_sub q - q_com q' < q_sub q - q_com q \<or> q_committed q' = q_committed q \<and> worker_rank q' < worker_rank q))"

lemma advancesI:
  assumes "a \<in> worker_acts" "step_ahead q (seq_do I a q)"
  shows "advances I q"
proof -
  obtain q' where q': "seq_do I a q = Some q'" using assms(2) by (cases "seq_do I a q") (simp_all add: step_ahead_def)
  then have "(worker_left q', worker_left q) \<in> less_than <*lex*> less_than"
    "q_submitted q' = q_submitted q" "q_log q' = q_log q" "\<not> q_stop q'"
    using assms(2) by (auto simp: step_ahead_def worker_left_def)
  with q' assms(1) show ?thesis unfolding advances_def by blast
qed

context cow_tree
begin

text \<open>Unless told to stop, the worker always has a next action, and comes closer to the last ticket.\<close>

lemma worker_advances_reclaim:
  assumes inv: "seq_inv t0 n gc_on m0 rts Fs q" and go: "\<not> q_stop q" and ph: "q_phase q = W_RECLAIM"
  shows "advances I q"
proof -
  have p: "protocol_ok t0 n gc_on rts q" using inv by (simp_all add: seq_inv_def)
  show ?thesis
  proof (cases "g_enabled (gs_gc (q_gc q))")
    case False
    then show ?thesis
      using ph go by (intro advancesI [of WorkerReclaim]) (simp_all add: step_ahead_def worker_acts_def worker_rank_def)
  next
    case on: True
    show ?thesis
    proof (cases "gs_rc (q_gc q) 0")
      case RC_IDLE
      then show ?thesis
        using ph go on by (intro advancesI [of "ReclaimStart 0"]) (simp_all add: step_ahead_def worker_acts_def worker_rank_def scan_left_def do_gc_def)
    next
      case (RC_SCAN i m w)
      have le: "i \<le> length (g_readers (gs_gc (q_gc q)))" by (rule scan_bound [OF protocol_reach [OF p] RC_SCAN])
      show ?thesis
      proof (cases "i = length (g_readers (gs_gc (q_gc q)))")
        case False
        then show ?thesis
          using ph go RC_SCAN le
          by (intro advancesI [of "ReclaimScan 0"]) (simp_all add: step_ahead_def worker_acts_def worker_rank_def scan_left_def do_gc_def)
      next
        case True
        obtain q' where q': "reclaim_free I 0 q = Some q'" using reclaim_free_runs [OF inv RC_SCAN True] by blast
        then have "q_phase q' = W_TOP \<and> q_submitted q' = q_submitted q \<and> q_log q' = q_log q \<and> q_stop q' = q_stop q \<and>
            q_committed q' = q_committed q"
          using RC_SCAN by (auto simp: reclaim_free_def bind_Some_iff)
        then show ?thesis
          using ph go q' by (intro advancesI [of "ReclaimFree 0"]) (simp_all add: step_ahead_def worker_acts_def worker_rank_def)
      qed
    qed
  qed
qed

lemma worker_advances_exec:
  assumes inv: "seq_inv t0 n gc_on m0 rts Fs q" and go: "\<not> q_stop q" and ph: "q_phase q = W_EXEC"
  shows "advances I q"
proof -
  have tk: "tickets slots q" and p: "protocol_ok t0 n gc_on rts q" using inv by (simp_all add: seq_inv_def)
  have idle: "gs_pub (q_gc q) = PUB_IDLE" using protocol_idle(1) [OF p] ph by simp
  have num: "q_loc q \<le> q_nxt q" "q_nxt q \<le> unat (q_sub_local q)" "unat (q_sub_local q) \<le> q_sub q" "q_sub q < 2 ^ 32"
    using tk by (simp_all add: tickets_def)
  show ?thesis
  proof (cases "q_com_next q < q_sub_local q \<and> q_com_next q \<le> q_com_local q + of_nat (BUFFER_SIZE div 2)")
    case True
    then have lt: "q_nxt q < unat (q_sub_local q)" by (simp add: word_less_nat_alt)
    have tid: "unat (q_com_next q + 1) = Suc (q_nxt q)" using num lt by (intro unat_Suc_64) simp
    obtain c' s' where ex: "exec_task I (q_com_next q + 1) (q_ctxs q) (q_store q) = Some (c', s')"
      using next_task_runs [OF inv] lt num by fastforce
    obtain c'' g where rt: "retire (ti_node_size I s') None (q_com_next q + 1) c' (gs_gc (q_gc q)) = (c'', g)" by fastforce
    let ?q = "q\<lparr>q_ctxs := (q_ctxs q)(ring (q_com_next q + 1) := c''), q_store := s', q_gc := (q_gc q)\<lparr>gs_gc := g\<rparr>,
      q_com_next := q_com_next q + 1\<rparr>"
    have "seq_do I WorkerExec q = Some ?q" using ph True ex rt by (simp add: Let_def)
    then have "step_ahead q (seq_do I WorkerExec q)"
      using lt num ph go tid by (simp only: step_ahead_def option.case) (simp add: worker_rank_def)
    then show ?thesis by (rule advancesI [rotated]) (simp add: worker_acts_def)
  next
    case False
    then show ?thesis
    proof (cases "q_com_next q > q_com_local q")
      case True
      let ?q = "q\<lparr>q_com_local := q_com_next q, q_phase := W_PUBLISH\<rparr>"
      have "seq_do I WorkerExecEnd q = Some ?q" using ph False True by auto
      then show ?thesis
        using num ph go idle True
        by (intro advancesI [of WorkerExecEnd]) (simp_all add: step_ahead_def worker_acts_def worker_rank_def word_less_nat_alt)
    next
      case stay: False
      have le: "q_com_local q \<le> q_com_local q + of_nat (BUFFER_SIZE div 2)"
        using num by (intro word_le_nat_alt [THEN iffD2]) (simp add: unat_word_ariths BUFFER_SIZE_def)
      have eq: "q_com_next q = q_com_local q" using stay num(1) by (simp add: not_less word_le_nat_alt word_unat_eq_iff)
      then have "\<not> q_com_next q < q_sub_local q" using False le by simp
      then have "q_loc q \<ge> unat (q_sub_local q)" using eq by (simp add: word_less_nat_alt)
      moreover have "seq_do I WorkerExecEnd q = Some (q\<lparr>q_phase := W_TOP\<rparr>)" using ph False stay by auto
      ultimately show ?thesis
        using ph go by (intro advancesI [of WorkerExecEnd]) (simp_all add: step_ahead_def worker_acts_def worker_rank_def)
    qed
  qed
qed

lemma worker_advances:
  assumes inv: "seq_inv t0 n gc_on m0 rts Fs q" and go: "\<not> q_stop q" and todo: "q_com q < q_sub q"
  shows "advances I q"
proof -
  have tk: "tickets slots q" using inv by (simp_all add: seq_inv_def)
  have sl: "\<not> q_stop_local q" "q_phase q \<noteq> W_STOPPED" using tk go by (auto simp: tickets_def)
  show ?thesis
  proof (cases "q_phase q")
    case W_TOP
    then have "q_com q = q_loc q" "q_nxt q \<le> q_sub q" "q_loc q \<le> q_nxt q" using tk by (simp_all add: tickets_def)
    moreover have "q_nxt q = q_loc q" using tk W_TOP by (simp add: tickets_def)
    moreover have "seq_do I WorkerLoad q = Some (q\<lparr>q_stop_local := q_stop q, q_sub_local := q_submitted q,
        q_com_next := q_com_local q, q_phase := W_EXEC\<rparr>)" using W_TOP sl by simp
    ultimately show ?thesis
      using go todo W_TOP by (intro advancesI [of WorkerLoad]) (simp_all add: step_ahead_def worker_acts_def worker_rank_def)
  next
    case W_PUBLISH
    then show ?thesis
      using go
      by (cases "gs_pub (q_gc q)"; intro advancesI [of WorkerPublish])
         (simp_all add: step_ahead_def worker_acts_def worker_rank_def worker_publish_def do_gc_def)
  next
    case W_COMMIT
    then have "q_com q < q_loc q" "q_loc q \<le> q_sub q" using tk by (simp_all add: tickets_def)
    then have "q_sub q - q_loc q < q_sub q - q_com q" by linarith
    then show ?thesis using W_COMMIT go by (intro advancesI [of WorkerCommit]) (simp_all add: step_ahead_def worker_acts_def)
  qed (use worker_advances_exec [OF inv go] worker_advances_reclaim [OF inv go] sl in simp_all)
qed

theorem worker_finishes:
  assumes "seq_inv t0 n gc_on m0 rts Fs q" and "slots \<noteq> 0" and "\<not> q_stop q"
  shows "\<exists>as q'. set as \<subseteq> worker_acts \<and> seq_run I as q = Some q' \<and> q_log q' = q_log q \<and>
    q_submitted q' = q_submitted q \<and> q_committed q' = q_submitted q"
  using assms
proof (induction "worker_left q" arbitrary: q rts Fs rule: wf_induct_rule [OF wf_lex_prod [OF wf_less_than wf_less_than]])
  case (1 q)
  show ?case
  proof (cases "q_com q < q_sub q")
    case False
    have "q_com q \<le> q_sub q" using "1.prems"(1) by (simp add: seq_inv_def tickets_def)
    then have "q_committed q = q_submitted q" using False by (simp add: word_unat_eq_iff)
    then show ?thesis by (intro exI [of _ "[]"] exI [of _ q]) simp
  next
    case True
    then obtain a q1 where a: "a \<in> worker_acts" "seq_do I a q = Some q1" "q_submitted q1 = q_submitted q" "q_log q1 = q_log q"
      "\<not> q_stop q1" "(worker_left q1, worker_left q) \<in> less_than <*lex*> less_than"
      using worker_advances [OF "1.prems"(1,3)] unfolding advances_def by blast
    obtain rts1 Fs1 where "seq_inv t0 n gc_on m0 rts1 Fs1 q1" using inv_step [OF "1.prems"(1,2) a(2)] by blast
    from "1.hyps" [OF a(6) this "1.prems"(2) a(5)] obtain as q' where
      "set as \<subseteq> worker_acts" "seq_run I as q1 = Some q'" "q_log q' = q_log q1" "q_submitted q' = q_submitted q1"
      "q_committed q' = q_submitted q1" by blast
    then show ?thesis using a by (intro exI [of _ "a # as"] exI [of _ q']) auto
  qed
qed

end

end
