(* ===== verification/BT_Seqcow.thy ===== *)
theory BT_Seqcow
  imports BT_Properties Seqcow_Correct
begin

text \<open>
  The B+Tree under the sequential controller: the tree keeps the contract \<open>cow_tree\<close> (an interpretation
  on the model of \<^verbatim>\<open>src/adapters/btree.hpp\<close>), and the composed system promises consistent and fresh
  snapshots, memory safety of reclamation and progress of the worker.
\<close>

section \<open>The B+Tree keeps the contract\<close>

definition bt_cur :: "nat \<Rightarrow> bt_store \<Rightarrow> u32 \<Rightarrow> addr \<Rightarrow> addr set \<Rightarrow> (u64 \<Rightarrow> u64 option) \<Rightarrow> bool" where
  "bt_cur slots s hi r F f \<longleftrightarrow>
     (\<exists>T h. bt_wf slots hi h s T \<and> bt_addr T = r \<and> set (bt_addrs T) = F \<and> bt_now T = f)"

definition bt_snap :: "nat \<Rightarrow> bt_store \<Rightarrow> u32 \<Rightarrow> u64 \<Rightarrow> addr \<Rightarrow> addr set \<Rightarrow> (u64 \<Rightarrow> u64 option) \<Rightarrow> bool" where
  "bt_snap slots s hi w r F f \<longleftrightarrow>
     (\<exists>T h. bt_repr s T \<and> bt_inv slots hi w h T \<and> bt_addr T = r \<and> set (bt_addrs T) = F \<and> bt_map T w = f)"

lemma bt_cur_snap: "bt_cur slots s hi r F f \<Longrightarrow> bt_snap slots s hi (ucast hi) r F f"
proof -
  assume "bt_cur slots s hi r F f"
  then obtain T h where T: "bt_wf slots hi h s T" "bt_addr T = r" "set (bt_addrs T) = F" "bt_now T = f"
    by (auto simp: bt_cur_def)
  then have inv: "bt_inv slots hi UINT64_MAX h T" by (simp add: bt_wf_def)
  have "bt_inv slots hi (ucast hi) h T"
    using bt_inv_weaken [OF inv, of "ucast hi"] by (simp add: UINT64_MAX_def)
  moreover have "bt_map T (ucast hi) = bt_now T" by (rule bt_map_stable [OF inv]) simp
  ultimately show ?thesis using T unfolding bt_snap_def bt_wf_def by blast
qed

lemma bt_repr_live: "bt_repr s T \<Longrightarrow> set (bt_addrs T) \<subseteq> dom (cells s)"
  using bt_repr_allocated by fastforce

text \<open>Freeing a node keeps every tree that does not contain it.\<close>

lemma bt_free_repr: "bt_repr s T \<Longrightarrow> a \<notin> set (bt_addrs T) \<Longrightarrow> bt_repr (s\<lparr>cells := (cells s)(a := None)\<rparr>) T"
  by (erule bt_repr_frame) auto

lemma bt_free_contract:
  assumes ok: "store_ok s" and live: "a \<in> dom (cells s)"
  shows "\<exists>s'. ti_free bt_tree_ops a s = Some s' \<and> store_ok s' \<and> brk s' = brk s \<and> dom (cells s') = dom (cells s) - {a} \<and>
    (\<forall>hi w r F f. bt_snap slots s hi w r F f \<longrightarrow> a \<notin> F \<longrightarrow> bt_snap slots s' hi w r F f) \<and>
    (\<forall>hi r F f. bt_cur slots s hi r F f \<longrightarrow> a \<notin> F \<longrightarrow> bt_cur slots s' hi r F f)"
proof -
  obtain t where t: "cells s a = Some t" using live by blast
  let ?s = "s\<lparr>cells := (cells s)(a := None)\<rparr>"
  have ok': "store_ok ?s" using store_ok_upd [OF ok t, of None] .
  have "ti_free bt_tree_ops a s = Some ?s" using t by (simp add: bt_tree_ops_def bt_free_node_def dealloc_Some)
  moreover have "bt_snap slots ?s hi w r F f" if "bt_snap slots s hi w r F f" "a \<notin> F" for hi w r F f
    using that bt_free_repr [of s _ a] unfolding bt_snap_def by blast
  moreover have "bt_cur slots ?s hi r F f" if "bt_cur slots s hi r F f" "a \<notin> F" for hi r F f
    using that bt_free_repr [of s _ a] ok' unfolding bt_cur_def bt_wf_def by blast
  ultimately show ?thesis using ok' by (intro exI [of _ ?s]) auto
qed

lemma bt_exec_contract:
  assumes ok: "store_ok s" and cur: "bt_cur slots s hi r F f"
    and c: "c_t_past c = r" "hi < c_sno c" "c_fat_slots c = slots" "\<not> c_worker_fat c" "retired_ok c" "c_retired_count c = 0"
  shows "\<exists>c' s' F'. ti_exec bt_tree_ops c s = Some (c', s') \<and> store_ok s' \<and> brk s \<le> brk s' \<and>
    dom (cells s) \<subseteq> dom (cells s') \<and> bt_cur slots s' (c_sno c) (c_root c') F' (f(c_key c \<mapsto> c_val c)) \<and>
    F' \<subseteq> F \<union> {brk s..<brk s'} \<and> \<not> c_worker_fat c' \<and> retired_ok c' \<and>
    (c_gc_enabled c \<longrightarrow> set (retired_nodes c') = F - F' \<and> distinct (retired_nodes c')) \<and>
    (\<forall>w r0 F0 f0. bt_snap slots s hi w r0 F0 f0 \<longrightarrow> w < ucast (c_sno c) \<longrightarrow> bt_snap slots s' (c_sno c) w r0 F0 f0)"
proof -
  obtain T h where wf: "bt_wf slots hi h s T" and T: "bt_addr T = r" "set (bt_addrs T) = F" "bt_now T = f"
    using cur by (auto simp: bt_cur_def)
  have task: "bt_task slots hi T c" using c T by (simp add: bt_task_def)
  obtain c' s' h' T' R where run: "bt_exec c s = Some (c', s')" "c_root c' = bt_addr T'"
    and post: "update_post slots (c_sno c) h' (c_key c) (c_val c) T s s' T' R"
    and ret: "ret_state c' = ret_state (fold retire_replaced R c)" "length R \<le> Suc h"
    and kept: "snapshots_kept slots hi (c_sno c) s s'" and dom: "dom (cells s) \<subseteq> dom (cells s')"
    using bt_exec_runs [OF wf task] unfolding exec_post_def by blast
  have h: "h \<le> 21" using wf by (intro bt_height_bound [of slots hi UINT64_MAX h T]) (simp add: bt_wf_def)
  have R: "set R = set (bt_addrs T) - set (bt_addrs T')" "distinct R" "nullptr \<notin> set R"
    using wf bt_wf_addrs [OF wf] update_post_retired [OF _ _ _ post] by (simp_all add: bt_wf_def)
  have "distinct (bt_addrs T')"
    using wf bt_wf_addrs [OF wf] update_post_distinct [OF _ _ post] by (simp add: bt_wf_def)
  then have cur': "bt_cur slots s' (c_sno c) (c_root c') (set (bt_addrs T')) (f(c_key c \<mapsto> c_val c))"
    using post run(2) T unfolding bt_cur_def bt_wf_def by (intro exI [of _ T'] exI [of _ h']) (simp add: update_post_def)
  have "mset (bt_addrs T' @ R) = mset (bt_addrs T @ [brk s..<brk s'])" using post by (simp add: update_post_def)
  from mset_eq_setD [OF this] have F': "set (bt_addrs T') \<subseteq> F \<union> {brk s..<brk s'}" using T by auto
  have bound: "c_retired_count c + length R < 65535" using ret(2) h c by simp
  have rok: "retired_ok c'"
    using ret_state_retired [OF ret(1)] retire_fold [OF c(5) _ bound R(3)] retire_fold_off [of c R] c(5)
    by (cases "c_gc_enabled c") auto
  have rn: "set (retired_nodes c') = F - set (bt_addrs T') \<and> distinct (retired_nodes c')" if "c_gc_enabled c"
  proof -
    have "retired_nodes c = []" using c(5,6) by (simp add: retired_nodes_eq retired_ok_def)
    then have "mset (retired_nodes c') = mset R"
      using ret_state_retired [OF ret(1)] retire_fold [OF c(5) that bound R(3)] by simp
    then show ?thesis using R T by (metis mset_eq_setD mset_eq_imp_distinct_iff)
  qed
  have snaps: "bt_snap slots s' (c_sno c) w r0 F0 f0" if s: "bt_snap slots s hi w r0 F0 f0" and w: "w < ucast (c_sno c)" for w r0 F0 f0
  proof -
    obtain T0 h0 where T0: "bt_repr s T0" "bt_inv slots hi w h0 T0" "bt_addr T0 = r0" "set (bt_addrs T0) = F0" "bt_map T0 w = f0"
      using s by (auto simp: bt_snap_def)
    from snapshots_keptD [OF kept w T0(1,2)] obtain T1 where "bt_repr s' T1" "bt_addr T1 = bt_addr T0" "bt_addrs T1 = bt_addrs T0"
      "bt_inv slots (c_sno c) w h0 T1" "bt_contents w T1 = bt_contents w T0" by (metis order_refl)
    then show ?thesis using T0 unfolding bt_snap_def by (intro exI [of _ T1] exI [of _ h0]) (simp add: bt_map_def)
  qed
  have fat: "\<not> c_worker_fat c'" using bt_exec_worker_fat [OF run(1)] c(4) by simp
  have "store_ok s'" "brk s \<le> brk s'" using post by (simp_all add: update_post_def)
  then show ?thesis
    using run(1) dom cur' F' fat rok rn snaps
    by (intro exI [of _ c'] exI [of _ s'] exI [of _ "set (bt_addrs T')"]) (simp add: bt_tree_ops_def)
qed

lemma bt_idle_more: "ctx.more c = ctx.more d \<Longrightarrow> c_worker_fat c = c_worker_fat (d :: bt_ctx)"
  by (cases c; cases d) simp

interpretation bt_cow: cow_tree bt_tree_ops slots "\<lambda>c. \<not> c_worker_fat c" store_ok brk "\<lambda>s. dom (cells s)"
  "bt_cur slots" "bt_snap slots" for slots
proof (unfold_locales, goal_cases)
  case (1 c d)
  then show ?case using bt_idle_more [of c d] by simp
next
  case (2 s a)
  then show ?case using store_ok_less [of s a] store_ok_not_null [of s a] by auto
next
  case (3 s hi w r F f)
  then show ?case using bt_repr_live by (auto simp: bt_snap_def)
next
  case (4 s hi r F f)
  then show ?case by (rule bt_cur_snap)
next
  case (5 s hi r F f c)
  then show ?case by (rule bt_exec_contract)
next
  case (6 s a)
  then show ?case by (rule bt_free_contract)
qed

section \<open>The composed system\<close>

text \<open>The controller over a B+Tree of version 0, in fat-node mode.\<close>

definition bt_system :: "bt_store \<Rightarrow> bt_tree \<Rightarrow> nat \<Rightarrow> bool \<Rightarrow> nat \<Rightarrow> (bt_ctx_more, bt_store) seqcow" where
  "bt_system s T n gc_on slots = seqcow_init bt_zero_ctx (bt_addr T) s n gc_on slots"

lemma bt_start_ok:
  assumes "bt_wf slots 0 h s T" "slots \<noteq> 0"
  shows "bt_cow.start_ok slots bt_zero_ctx (bt_addr T) s (bt_now T)"
proof -
  have "bt_cur slots s 0 (bt_addr T) (set (bt_addrs T)) (bt_now T)"
    using assms(1) unfolding bt_cur_def by blast
  then show ?thesis
    using assms unfolding bt_cow.start_ok_def
    by (auto simp: bt_wf_def bt_zero_ctx_def retired_ok_def RETIRED_INLINE_CAPACITY_def)
qed

lemma bt_system_inv:
  assumes "bt_wf slots 0 h s T" "slots \<noteq> 0" "seq_reach bt_tree_ops (bt_system s T n gc_on slots) q"
  obtains rts Fs where "bt_cow.seq_inv slots (bt_addr T) n gc_on (bt_now T) rts Fs q"
  using bt_cow.seq_reach_inv [OF bt_start_ok [OF assms(1,2)] assms(3) [unfolded bt_system_def]] by blast

lemma bt_inv_store:
  assumes "bt_cow.seq_inv slots t0 n gc_on m0 rts Fs q"
  shows "store_ok (q_store q)" "q_loc q \<le> q_sub q"
  using assms by (simp_all add: bt_cow.seq_inv_def bt_cow.heap_ok_def tickets_def)

lemma bt_snap_find: "store_ok s \<Longrightarrow> bt_snap slots s hi w r F f \<Longrightarrow> bt_find s r k w = Some (f k)"
  unfolding bt_snap_def using bt_find_correct by fastforce

lemma bt_snap_scan:
  "store_ok s \<Longrightarrow> bt_snap slots s hi w r F f \<Longrightarrow>
     \<exists>es. sorted_wrt (<) (map fst es) \<and> map_of es = f \<and>
       (\<forall>k m fuel. 21 < fuel \<longrightarrow> bt_scan fuel s r k m w = Some (take m (filter (\<lambda>e. k \<le> fst e) es)))"
proof -
  assume ok: "store_ok s" and "bt_snap slots s hi w r F f"
  then obtain T h where T: "bt_repr s T" "bt_inv slots hi w h T" "bt_addr T = r" "bt_map T w = f"
    by (auto simp: bt_snap_def)
  have "h \<le> 21" by (rule bt_height_bound [OF T(2)])
  then have "bt_scan fuel s r k m w = Some (take m (filter (\<lambda>e. k \<le> fst e) (bt_contents w T)))" if "21 < fuel" for k m fuel
    using bt_scan_correct [OF ok T(1,2), of fuel w k m] T(3) that by simp
  then show ?thesis
    using T(4) bt_contents_strict [OF T(2), of w] by (intro exI [of _ "bt_contents w T"]) (simp add: bt_map_def fun_eq_iff)
qed

text \<open>The nodes of a snapshot, and what freeing others leaves of it.\<close>

lemma bt_free_node_cells: "bt_free_node a s = Some s' \<Longrightarrow> cells s' = cells s |` (- {a})"
  by (auto simp: bt_free_node_def dealloc_def fun_eq_iff restrict_map_def split: option.splits)

lemma bt_free_list_cells:
  "fold (\<lambda>a r. Option.bind r (bt_free_node a)) ns (Some s) = Some s' \<Longrightarrow> cells s' = cells s |` (- set ns)"
proof (induction ns arbitrary: s)
  case (Cons a ns)
  have none: "fold (\<lambda>a r. Option.bind r (bt_free_node a)) ns None = None" for ns by (induction ns) auto
  obtain s1 where s1: "bt_free_node a s = Some s1" using Cons.prems none by (cases "bt_free_node a s") auto
  have "cells s' = cells s1 |` (- set ns)" using Cons s1 by simp
  then show ?case using bt_free_node_cells [OF s1] by (auto simp: restrict_map_def fun_eq_iff)
qed (simp add: restrict_map_def)

lemma bt_free_batches_cells:
  "free_batches bt_free_node (\<lambda>_ _. None) safe bs s = Some (bs', k, by, s') \<Longrightarrow>
     cells s' = cells s |` (- \<Union>(set ` rb_nodes ` set (takeWhile (\<lambda>b. rb_version b \<le> safe) bs)))"
proof (induction bs arbitrary: s bs' k "by")
  case (Cons b bs)
  show ?case
  proof (cases "rb_version b \<le> safe")
    case True
    with Cons.prems obtain s1 bs1 k1 by1 where
      "fold (\<lambda>a r. Option.bind r (bt_free_node a)) (rb_nodes b) (Some s) = Some s1"
      "free_batches bt_free_node (\<lambda>_ _. None) safe bs s1 = Some (bs1, k1, by1, s')"
      by (auto simp: bind_Some_iff split: if_splits)
    with Cons.IH [OF this(2)] bt_free_list_cells [OF this(1)] True show ?thesis
      by (auto simp: restrict_map_def fun_eq_iff)
  qed (use Cons.prems in \<open>auto simp: restrict_map_def\<close>)
qed (simp add: restrict_map_def)

lemma bt_snap_keep:
  assumes "bt_snap slots s hi w r F f" "N \<inter> F = {}" "cells s' = cells s |` (- N)"
  obtains T where "bt_addr T = r" "set (bt_addrs T) = F" "bt_repr s T" "bt_repr s' T"
proof -
  obtain T where T: "bt_addr T = r" "set (bt_addrs T) = F" "bt_repr s T" using assms(1) by (auto simp: bt_snap_def)
  moreover have "bt_repr s' T" by (rule bt_repr_frame [OF T(3)]) (use assms T(2) in \<open>auto simp: restrict_map_def\<close>)
  ultimately show thesis by (rule that)
qed

text \<open>A system whose tree is the single leaf of two records, and a reader that pins it.\<close>

definition ex_init :: "(bt_ctx_more, bt_store) seqcow" where
  "ex_init = bt_system \<lparr>cells = [1 \<mapsto> ex_leaf\<lparr>bn_delta := None\<rparr>], brk = 2\<rparr> (BLeaf 1 (ex_leaf\<lparr>bn_delta := None\<rparr>)) 1 True 2"

lemma ex_init_wf: "bt_wf 2 0 0 \<lparr>cells = [1 \<mapsto> ex_leaf\<lparr>bn_delta := None\<rparr>], brk = 2\<rparr> (BLeaf 1 (ex_leaf\<lparr>bn_delta := None\<rparr>))"
  by (auto simp: bt_wf_def store_ok_def ex_leaf_def leaf_ok_def BT_B_def)

lemma seq_run_reach: "seq_reach I q0 q \<Longrightarrow> seq_run I as q = Some q' \<Longrightarrow> seq_reach I q0 q'"
  by (induction as arbitrary: q) (auto split: option.splits intro: seq_reach.step)

definition ex_pinned :: "(bt_ctx_more, bt_store) seqcow" where
  "ex_pinned = the (seq_run bt_tree_ops (replicate 5 (ReaderPin 0)) ex_init)"

lemma ex_pins: "seq_run bt_tree_ops (replicate 5 (ReaderPin 0)) ex_init = Some ex_pinned"
  "gs_rd (q_gc ex_pinned) 0 = RD_PINNED 1 0" "q_store ex_pinned = q_store ex_init" "q_log ex_pinned = []"
  by (simp_all add: ex_pinned_def ex_init_def bt_system_def seqcow_init_def gc_start_def init_gc_def eval_nat_numeral
      do_gc_def set_reader_def)

lemma ex_reach: "seq_reach bt_tree_ops ex_init ex_pinned"
  by (rule seq_run_reach [OF seq_reach.start ex_pins(1)])

lemmas ex_reach' = ex_reach [unfolded ex_init_def]

text \<open>
  C1: snapshot consistency of the whole system in fat-node mode (\<open>slots \<noteq> 0\<close>: the tree keeps versions in
  its leaves). In every state that any interleaving of clients, worker, readers and reclaimers can reach,
  a reader that has pinned version \<open>v\<close> finds for every key exactly what the first \<open>v\<close> submitted updates,
  applied in submission order to the initial map, leave there, and its range scans return the first
  entries of that same map, in key order, from any key on (a scan of a tree of height at most 21 needs no
  more than 22 levels of recursion); no query touches a freed node, also while newer updates run and old
  nodes are reclaimed.
\<close>

theorem bt_seqcow_snapshot:
  assumes wf: "bt_wf slots 0 h s T" "slots \<noteq> 0" and reach: "seq_reach bt_tree_ops (bt_system s T n gc_on slots) q"
    and pinned: "gs_rd (q_gc q) cid = RD_PINNED r v" "reader_cid (gs_gc (q_gc q)) cid"
  shows "unat v \<le> length (q_log q) \<and>
    (\<forall>k. bt_find (q_store q) r k v = Some (content (bt_now T) (q_log q) (unat v) k)) \<and>
    (\<exists>es. sorted_wrt (<) (map fst es) \<and> map_of es = content (bt_now T) (q_log q) (unat v) \<and>
       (\<forall>k m fuel. 21 < fuel \<longrightarrow> bt_scan fuel (q_store q) r k m v = Some (take m (filter (\<lambda>e. k \<le> fst e) es))))"
proof -
  obtain rts Fs where inv: "bt_cow.seq_inv slots (bt_addr T) n gc_on (bt_now T) rts Fs q"
    by (rule bt_system_inv [OF wf reach])
  have "q_sub q = length (q_log q)" using inv by (simp add: bt_cow.seq_inv_def tickets_def)
  moreover note bt_cow.pinned_snapshot [OF inv pinned(2,1)]
  ultimately show ?thesis
    using bt_snap_find [OF bt_inv_store(1) [OF inv], of slots _ v r] bt_snap_scan [OF bt_inv_store(1) [OF inv], of slots _ v r]
      bt_inv_store(2) [OF inv] by auto
qed

theorem bt_seqcow_snapshot_witness:
  "gs_rd (q_gc ex_pinned) 0 = RD_PINNED 1 0 \<and> bt_find (q_store ex_pinned) 1 10 0 = Some (Some 100) \<and>
    (\<exists>es. map_of es = [10 \<mapsto> 100, 20 \<mapsto> 200] \<and> bt_scan 22 (q_store ex_pinned) 1 10 5 0 = Some (take 5 (filter (\<lambda>e. 10 \<le> fst e) es)))"
proof -
  have "reader_cid (gs_gc (q_gc ex_pinned)) 0"
    by (simp add: reader_cid_def ex_pinned_def ex_init_def bt_system_def seqcow_init_def gc_start_def init_gc_def
        eval_nat_numeral do_gc_def set_reader_def)
  note * = bt_seqcow_snapshot [OF ex_init_wf _ ex_reach' ex_pins(2) this]
  have "bt_now (BLeaf 1 (ex_leaf\<lparr>bn_delta := None\<rparr>)) = [10 \<mapsto> 100, 20 \<mapsto> 200]"
    by (auto simp: bt_map_def leaf_entries_def leaf_records_def base_records_def visible_records_def ex_leaf_def
      bt_leaf_delta_def sort_records_def)
  with * ex_pins show ?thesis by auto
qed

text \<open>
  C10: freshness, in fat-node mode. The version that a successful \<open>pin\<close> returns is at least the number of updates that
  were committed when it returned: a client that waits for its ticket with \<open>wait_for_processing\<close> and
  then queries sees its own update.
\<close>

theorem bt_seqcow_fresh:
  assumes wf: "bt_wf slots 0 h s T" "slots \<noteq> 0" and reach: "seq_reach bt_tree_ops (bt_system s T n gc_on slots) q"
    and pin: "seq_do bt_tree_ops (ReaderPin cid) q = Some q'" "gs_rd (q_gc q') cid = RD_PINNED r v"
      "gs_rd (q_gc q) cid \<noteq> RD_PINNED r v"
  shows "q_committed q \<le> v"
proof -
  obtain rts Fs where inv: "bt_cow.seq_inv slots (bt_addr T) n gc_on (bt_now T) rts Fs q"
    by (rule bt_system_inv [OF wf reach])
  from bt_cow.pin_fresh [OF inv pin] show ?thesis by (simp add: word_le_nat_alt)
qed

theorem bt_seqcow_fresh_witness:
  "\<exists>q. seq_do bt_tree_ops (ReaderPin 0) q = Some ex_pinned \<and> q_committed q \<le> 0"
proof -
  let ?q = "the (seq_run bt_tree_ops (replicate 4 (ReaderPin 0)) ex_init)"
  have q: "seq_run bt_tree_ops (replicate 4 (ReaderPin 0)) ex_init = Some ?q" "seq_do bt_tree_ops (ReaderPin 0) ?q = Some ex_pinned"
    "gs_rd (q_gc ?q) 0 \<noteq> RD_PINNED 1 0"
    by (simp_all add: ex_pinned_def ex_init_def bt_system_def seqcow_init_def gc_start_def init_gc_def eval_nat_numeral
      do_gc_def set_reader_def)
  have "seq_reach bt_tree_ops ex_init ?q" by (rule seq_run_reach [OF seq_reach.start q(1)])
  from bt_seqcow_fresh [OF ex_init_wf _ this [unfolded ex_init_def] q(2) [unfolded ex_init_def] ex_pins(2) q(3) [unfolded ex_init_def]] q(2)
  show ?thesis by (auto simp: ex_init_def)
qed

text \<open>
  C6: reclamation is memory safe, in fat-node mode. Whenever a thread has scanned all readers, the freeing
  that follows succeeds (no node is freed twice and none that was not allocated), frees exactly the nodes
  of the batches it pops, and leaves every other cell as it was. None of the freed nodes belongs to the
  tree that a reader has pinned, which keeps its pin and finds its whole tree in the store afterwards, nor
  to the tree that the worker starts its next update from.
\<close>

theorem bt_seqcow_reclaim_safe:
  assumes wf: "bt_wf slots 0 h s T" "slots \<noteq> 0" and reach: "seq_reach bt_tree_ops (bt_system s T n gc_on slots) q"
    and scanned: "gs_rc (q_gc q) t = RC_SCAN (length (g_readers (gs_gc (q_gc q)))) m w"
  shows "\<exists>q'. seq_do bt_tree_ops (ReclaimFree t) q = Some q' \<and>
    g_retired (gs_gc (q_gc q')) = dropWhile (\<lambda>b. rb_version b \<le> min m w) (g_retired (gs_gc (q_gc q))) \<and>
    reclaimed (min m w) q \<subseteq> dom (cells (q_store q)) \<and>
    cells (q_store q') = cells (q_store q) |` (- reclaimed (min m w) q) \<and>
    (\<forall>cid r v. gs_rd (q_gc q) cid = RD_PINNED r v \<and> reader_cid (gs_gc (q_gc q)) cid \<longrightarrow>
       gs_rd (q_gc q') cid = RD_PINNED r v \<and>
       (\<exists>T0. bt_addr T0 = r \<and> bt_repr (q_store q) T0 \<and> reclaimed (min m w) q \<inter> set (bt_addrs T0) = {} \<and>
          bt_repr (q_store q') T0)) \<and>
    (\<exists>T1. bt_addr T1 = c_root (q_ctxs q (ring (q_com_next q))) \<and> bt_repr (q_store q) T1 \<and>
       reclaimed (min m w) q \<inter> set (bt_addrs T1) = {} \<and> bt_repr (q_store q') T1)"
proof -
  let ?N = "reclaimed (min m w) q"
  obtain rts Fs where inv: "bt_cow.seq_inv slots (bt_addr T) n gc_on (bt_now T) rts Fs q"
    by (rule bt_system_inv [OF wf reach])
  obtain q' where q': "reclaim_free bt_tree_ops t q = Some q'"
    and pins: "\<And>cid r v. reader_cid (gs_gc (q_gc q)) cid \<Longrightarrow> gs_rd (q_gc q) cid = RD_PINNED r v \<Longrightarrow>
       ?N \<inter> Fs (unat v) = {} \<and> reader_cid (gs_gc (q_gc q')) cid \<and> gs_rd (q_gc q') cid = RD_PINNED r v"
    and own: "?N \<inter> Fs (q_nxt q) = {}"
    by (rule bt_cow.reclaim_keeps [OF inv scanned refl]) blast
  obtain g s' where run: "try_reclaim_safe bt_free_node (\<lambda>_ _. None) (min m w) (gs_gc (q_gc q)) (q_store q) = Some (g, s')"
    and g: "gs_gc (q_gc q') = g" "q_store q' = s'"
    using q' scanned by (auto simp: reclaim_free_def bind_Some_iff bt_tree_ops_def)
  have cells': "cells s' = cells (q_store q) |` (- ?N)"
    using run bt_free_batches_cells [of "min m w" "g_retired (gs_gc (q_gc q))" "q_store q"]
    unfolding reclaimed_def by (auto simp: try_reclaim_safe_def bind_Some_iff)
  have hp: "bt_cow.heap_ok slots (bt_now T) rts Fs q" and root: "c_root (q_ctxs q (ring (q_com_next q))) = rts (q_nxt q)"
    using inv by (simp_all add: bt_cow.seq_inv_def cells_ok_def ring_unat)
  have "?N \<subseteq> dom (cells (q_store q))"
    using hp set_takeWhileD unfolding bt_cow.heap_ok_def batch_ok_def reclaimed_def by fast
  moreover have "\<exists>T0. bt_addr T0 = r \<and> bt_repr (q_store q) T0 \<and> ?N \<inter> set (bt_addrs T0) = {} \<and> bt_repr s' T0"
    if p: "gs_rd (q_gc q) cid = RD_PINNED r v" "reader_cid (gs_gc (q_gc q)) cid" for cid r v
    using bt_cow.pinned_snapshot [OF inv p(2,1)] pins [OF p(2,1)] by (metis bt_snap_keep [OF _ _ cells'])
  moreover have "\<exists>T1. bt_addr T1 = rts (q_nxt q) \<and> bt_repr (q_store q) T1 \<and> ?N \<inter> set (bt_addrs T1) = {} \<and> bt_repr s' T1"
    using hp bt_cur_snap own unfolding bt_cow.heap_ok_def by (metis bt_snap_keep [OF _ _ cells'])
  moreover have "g_retired g = dropWhile (\<lambda>b. rb_version b \<le> min m w) (g_retired (gs_gc (q_gc q)))"
    using try_reclaim_safe_pops [OF run] by simp
  ultimately show ?thesis using q' g cells' pins root by auto
qed

definition ex_scanned :: "(bt_ctx_more, bt_store) seqcow" where
  "ex_scanned = the (seq_run bt_tree_ops [ReclaimStart 1, ReclaimScan 1] ex_init)"

theorem bt_seqcow_reclaim_safe_witness:
  "gs_rc (q_gc ex_scanned) 1 = RC_SCAN 1 0 0 \<and> (\<exists>q'. seq_do bt_tree_ops (ReclaimFree 1) ex_scanned = Some q')"
proof -
  have run: "seq_run bt_tree_ops [ReclaimStart 1, ReclaimScan 1] ex_init = Some ex_scanned"
    "gs_rc (q_gc ex_scanned) 1 = RC_SCAN 1 0 0" "length (g_readers (gs_gc (q_gc ex_scanned))) = 1"
    by (simp_all add: ex_scanned_def ex_init_def bt_system_def seqcow_init_def gc_start_def init_gc_def do_gc_def
        oldest_step_def)
  have "seq_reach bt_tree_ops ex_init ex_scanned" by (rule seq_run_reach [OF seq_reach.start run(1)])
  from bt_seqcow_reclaim_safe [OF ex_init_wf _ this [unfolded ex_init_def], of 1 0 0] run show ?thesis by auto
qed

text \<open>
  C7: in fat-node mode the worker is never stuck and finishes. From every reachable state of a controller
  that is not being destroyed, some sequence of actions of the worker thread alone commits everything that was
  submitted, and then the published version is the last ticket: \<open>wait_for_processing\<close> ends.
\<close>

theorem bt_seqcow_worker_finishes:
  assumes wf: "bt_wf slots 0 h s T" "slots \<noteq> 0" and reach: "seq_reach bt_tree_ops (bt_system s T n gc_on slots) q"
    and running: "\<not> q_stop q"
  shows "\<exists>as q'. set as \<subseteq> worker_acts \<and> seq_run bt_tree_ops as q = Some q' \<and> q_log q' = q_log q \<and>
    unat (q_committed q') = length (q_log q) \<and> q_committed q' \<le> g_version (gs_gc (q_gc q'))"
proof -
  obtain rts Fs where inv: "bt_cow.seq_inv slots (bt_addr T) n gc_on (bt_now T) rts Fs q"
    by (rule bt_system_inv [OF wf reach])
  obtain as q' where run: "set as \<subseteq> worker_acts" "seq_run bt_tree_ops as q = Some q'" "q_log q' = q_log q"
    "q_submitted q' = q_submitted q" "q_committed q' = q_submitted q"
    using bt_cow.worker_finishes [OF inv wf(2) running] by blast
  have "seq_reach bt_tree_ops (bt_system s T n gc_on slots) q'" by (rule seq_run_reach [OF reach run(2)])
  then obtain rts' Fs' where "bt_cow.seq_inv slots (bt_addr T) n gc_on (bt_now T) rts' Fs' q'"
    by (rule bt_system_inv [OF wf])
  then have "q_committed q' \<le> g_version (gs_gc (q_gc q'))"
    using protocol_version(1) by (auto simp: bt_cow.seq_inv_def word_le_nat_alt)
  moreover have "q_sub q = length (q_log q)" using inv by (simp add: bt_cow.seq_inv_def tickets_def)
  ultimately show ?thesis using run by (intro exI [of _ as] exI [of _ q']) simp
qed

definition ex_submitted :: "(bt_ctx_more, bt_store) seqcow" where
  "ex_submitted = the (seq_run bt_tree_ops [ClientLock 0 20 7, ClientSubmit 0 20 7] ex_init)"

theorem bt_seqcow_worker_finishes_witness:
  "q_committed ex_submitted = 0 \<and> (\<exists>as q'. seq_run bt_tree_ops as ex_submitted = Some q' \<and> unat (q_committed q') = 1)"
proof -
  have run: "seq_run bt_tree_ops [ClientLock 0 20 7, ClientSubmit 0 20 7] ex_init = Some ex_submitted"
    "q_committed ex_submitted = 0" "\<not> q_stop ex_submitted" "length (q_log ex_submitted) = 1"
    by (simp_all add: ex_submitted_def ex_init_def bt_system_def seqcow_init_def gc_start_def init_gc_def
        UINT32_MAX_def BUFFER_SIZE_def init_task_def ring_def)
  have "seq_reach bt_tree_ops ex_init ex_submitted" by (rule seq_run_reach [OF seq_reach.start run(1)])
  from bt_seqcow_worker_finishes [OF ex_init_wf _ this [unfolded ex_init_def] run(3)] run(2,4) show ?thesis by auto
qed

section \<open>The default mode\<close>

text \<open>The system of one leaf without versions (\<open>slots = 0\<close>), and the leaf that an unfilled context makes of it.\<close>

definition ex_default :: "(bt_ctx_more, bt_store) seqcow" where
  "ex_default = bt_system \<lparr>cells = [1 \<mapsto> ex_leaf\<lparr>bn_delta := None\<rparr>], brk = 2\<rparr> (BLeaf 1 (ex_leaf\<lparr>bn_delta := None\<rparr>)) 1 True 0"

definition unfilled_leaf :: bt_node where
  "unfilled_leaf = bt_leaf_with 0 [0, 10, 20] [0, 100, 200]"

lemma default_exec:
  assumes "c_t_past c = 1" "c_key c = 0" "c_val c = 0" "c_sno c = 0" "c_fat_slots c = 0" "\<not> c_worker_fat c"
  shows "\<exists>c'. bt_exec c \<lparr>cells = [1 \<mapsto> ex_leaf\<lparr>bn_delta := None\<rparr>], brk = 2\<rparr> =
      Some (c', \<lparr>cells = [1 \<mapsto> ex_leaf\<lparr>bn_delta := None\<rparr>, 2 \<mapsto> unfilled_leaf], brk = 3\<rparr>) \<and> c_root c' = 2"
  using assms
  by (simp add: bt_exec_def bt_handle_init_def supported_fat_slots_def bt_handle_init_cow_def ex_leaf_def update_leaf_cow_def
      bt_findval_def alloc_def BT_B_def Let_def array_copy_insert_def unfilled_leaf_def)

lemma seq_run_append: "seq_run I (as @ bs) q = (case seq_run I as q of None \<Rightarrow> None | Some q' \<Rightarrow> seq_run I bs q')"
  by (induction as arbitrary: q) (auto split: option.splits)

text \<open>
  C37: without versions in the leaves, the default of the constructor, the guarantees above fail. A call that
  has taken its ticket and not yet filled the context is overtaken by the worker, which executes the zeroed
  context: the ticket is committed, key 0 is found with a value that nobody put, and the update of key 20
  that the call then writes to the cell of its committed ticket is in no tree.
\<close>

theorem seqcow_default_unfilled:
  "\<exists>q. seq_run bt_tree_ops [ClientReserve 0, WorkerLoad, WorkerExec, WorkerExecEnd, WorkerPublish, WorkerPublish, WorkerPublish, WorkerPublish, WorkerCommit,
       ClientFill 0 20 7] ex_default = Some q \<and>
     q_committed q = 1 \<and> g_root (gs_gc (q_gc q)) = 2 \<and> bt_find (q_store q) 2 0 0 = Some (Some 0) \<and>
     bt_find (q_store q) 2 20 0 = Some (Some 200)"
proof -
  let ?s = "\<lparr>cells = [1 \<mapsto> ex_leaf\<lparr>bn_delta := None\<rparr>], brk = 2\<rparr>"
  let ?c = "(bt_zero_ctx\<lparr>c_op := OP_DONE\<rparr>)\<lparr>c_t_past := 1\<rparr>"
  obtain c' where ex: "bt_exec ?c ?s = Some (c', \<lparr>cells = [1 \<mapsto> ex_leaf\<lparr>bn_delta := None\<rparr>, 2 \<mapsto> unfilled_leaf], brk = 3\<rparr>)"
    and root: "c_root c' = 2"
    using default_exec [of ?c] by (auto simp: bt_zero_ctx_def)
  let ?q = "ex_default\<lparr>q_submitted := 1, q_pend := (q_pend ex_default)(0 := Some 1), q_sub_local := 1, q_phase := W_EXEC\<rparr>"
  have q: "seq_run bt_tree_ops [ClientReserve 0, WorkerLoad] ex_default = Some ?q"
    by (simp add: ex_default_def bt_system_def seqcow_init_def gc_start_def init_gc_def)
  have e: "exec_task bt_tree_ops 1 (q_ctxs ?q) (q_store ?q) = Some (c', \<lparr>cells = [1 \<mapsto> ex_leaf\<lparr>bn_delta := None\<rparr>, 2 \<mapsto> unfilled_leaf], brk = 3\<rparr>)"
    using ex by (simp add: exec_task_def bt_tree_ops_def ex_default_def bt_system_def seqcow_init_def ring_def BUFFER_SIZE_def)
  obtain c'' g where ret: "retire (ti_node_size bt_tree_ops \<lparr>cells = [1 \<mapsto> ex_leaf\<lparr>bn_delta := None\<rparr>, 2 \<mapsto> unfilled_leaf], brk = 3\<rparr>)
      None 1 c' (gs_gc (q_gc ?q)) = (c'', g)" by fastforce
  have g: "g_seq g = 0" "g_consistent g"
    by (rule retire_cases [OF ret]; simp add: ex_default_def bt_system_def seqcow_init_def gc_start_def init_gc_def)+
  have root'': "c_root c'' = 2" using retire_ctx ret root by (metis drained_frame(2) fst_conv)
  let ?s1 = "\<lparr>cells = [1 \<mapsto> ex_leaf\<lparr>bn_delta := None\<rparr>, 2 \<mapsto> unfilled_leaf], brk = 3\<rparr>"
  let ?q1 = "?q\<lparr>q_ctxs := (q_ctxs ?q)(ring 1 := c''), q_store := ?s1, q_gc := (q_gc ?q)\<lparr>gs_gc := g\<rparr>, q_com_next := 1\<rparr>"
  have d: "q_phase ?q = W_EXEC" "q_com_next ?q = 0" "q_com_local ?q = 0" "q_sub_local ?q = 1"
    by (simp_all add: ex_default_def bt_system_def seqcow_init_def)
  have q1: "seq_do bt_tree_ops WorkerExec ?q = Some ?q1" using e ret d by (simp add: Let_def BUFFER_SIZE_def)
  let ?as = "[WorkerExecEnd, WorkerPublish, WorkerPublish, WorkerPublish, WorkerPublish, WorkerCommit, ClientFill 0 20 7]"
  have "\<exists>q. seq_run bt_tree_ops ?as ?q1 = Some q \<and> q_committed q = 1 \<and> g_root (gs_gc (q_gc q)) = 2 \<and> q_store q = ?s1"
    using g root''
    by (simp add: ex_default_def bt_system_def seqcow_init_def gc_start_def BUFFER_SIZE_def worker_publish_def do_gc_def
      worker_root_def ring_def publish_begin_def publish_root_def publish_version_def publish_end_def)
  then obtain q' where q': "seq_run bt_tree_ops ?as ?q1 = Some q'" "q_committed q' = 1" "g_root (gs_gc (q_gc q')) = 2" "q_store q' = ?s1"
    by blast
  have find: "bt_find ?s1 2 0 0 = Some (Some 0)" "bt_find ?s1 2 20 0 = Some (Some 200)"
    by (simp_all add: bt_find_def bt_descend.simps [of _ 2] unfilled_leaf_def bt_leaf_with_def bt_new_leaf_def bt_find_leaf_def
      bt_new_node_def bt_findval_def bt_leaf_delta_def Let_def)
  have "seq_run bt_tree_ops ([ClientReserve 0, WorkerLoad] @ WorkerExec # ?as) ex_default = Some q'"
    unfolding seq_run_append q by (simp only: option.case seq_run.simps(2) [of _ WorkerExec] q1 q'(1))
  then show ?thesis using q' find by (intro exI [of _ q']) simp
qed

end
