(* ===== verification/BT_Build.thy ===== *)
theory BT_Build
  imports BT_Bulk BT_Properties
begin

text \<open>
  Correctness of the bulk build (\<^verbatim>\<open>lib/trees/btree/build.hpp\<close>): every level is cut into nodes of legal size,
  the recursion over the levels ends, and the result is a well-formed tree with the entries given.
\<close>

section \<open>Cutting a level into nodes\<close>

text \<open>
  With \<open>j\<close> nodes left and running remainder \<open>k\<close>, \<open>j * B + (k + j * r) div m\<close> entries are left: the loop
  ends after exactly \<open>m\<close> nodes with no entry over.
\<close>

definition entries_left :: "nat \<Rightarrow> nat \<Rightarrow> nat \<Rightarrow> nat \<Rightarrow> nat" where
  "entries_left m r k j = j * BT_B + (k + j * r) div m"

lemma entries_left_Suc:
  assumes "0 < m"
  shows "entries_left m r k (Suc j) = BT_B + (k + r) div m + entries_left m r ((k + r) mod m) j"
proof -
  have "k + Suc j * r = (k + r) mod m + j * r + m * ((k + r) div m)"
    using mod_mult_div_eq [of "k + r" m] by simp
  then have "(k + Suc j * r) div m = (k + r) div m + ((k + r) mod m + j * r) div m"
    using assms by (simp only:) (subst div_mult_self2, simp_all)
  then show ?thesis by (simp add: entries_left_def)
qed

lemma chunk_sizes_sum:
  assumes "0 < m" "k < m"
  shows "length (chunk_sizes m r k (entries_left m r k j)) = j \<and>
    sum_list (chunk_sizes m r k (entries_left m r k j)) = entries_left m r k j"
  using assms
proof (induction j arbitrary: k)
  case 0
  then show ?case by (subst (1 2) chunk_sizes.simps) (simp add: entries_left_def)
next
  case (Suc j)
  let ?k = "(k + r) mod m" let ?n = "entries_left m r k (Suc j)"
  have n: "?n = BT_B + (k + r) div m + entries_left m r ?k j" by (rule entries_left_Suc [OF Suc.prems(1)])
  have "?n \<noteq> 0" by (simp add: n BT_B_def)
  moreover have "?n - (BT_B + (k + r) div m) = entries_left m r ?k j" by (simp add: n)
  ultimately have "chunk_sizes m r k ?n = (BT_B + (k + r) div m) # chunk_sizes m r ?k (entries_left m r ?k j)"
    by (subst chunk_sizes.simps) (simp add: Let_def)
  then show ?case using Suc.IH [of ?k] Suc.prems by (simp add: n)
qed

lemma chunk_sizes_bounds:
  assumes "2 \<le> m" "r < BT_B" "k < m"
  shows "\<forall>sz \<in> set (chunk_sizes m r k n). BT_B \<le> sz \<and> sz \<le> BT_B + BT_B div 2"
  using assms
proof (induction m r k n rule: chunk_sizes.induct)
  case (1 m r k n)
  have "(k + r) div m \<le> (m + (BT_B - 2)) div m"
    using "1.prems" by (intro div_le_mono) (simp add: BT_B_def)
  also have "\<dots> = 1 + (BT_B - 2) div m" using "1.prems" by (subst div_add_self1) simp_all
  also have "\<dots> \<le> 1 + (BT_B - 2) div 2" using "1.prems" by (intro add_left_mono div_le_mono2) simp_all
  finally have sz: "(k + r) div m \<le> BT_B div 2" by (simp add: BT_B_def)
  show ?case
  proof (cases "n = 0")
    case False
    have "\<forall>sz \<in> set (chunk_sizes m r ((k + r) mod m) (n - (BT_B + (k + r) div m))). BT_B \<le> sz \<and> sz \<le> BT_B + BT_B div 2"
      using "1.IH" [OF False refl] "1.prems" by simp
    with sz False show ?thesis by (subst chunk_sizes.simps) (simp add: Let_def)
  qed (subst chunk_sizes.simps, simp)
qed

lemma split_by_exact:
  "sum_list ns = length xs \<Longrightarrow> \<exists>cs. split_by ns xs = Some cs \<and> concat cs = xs \<and> map length cs = ns"
proof (induction ns xs rule: split_by.induct)
  case (2 n ns xs)
  then have "n \<le> length xs" "sum_list ns = length (drop n xs)" by auto
  with "2.IH" obtain cs where "split_by ns (drop n xs) = Some cs" "concat cs = drop n xs" "map length cs = ns" by blast
  with \<open>n \<le> length xs\<close> show ?case by simp
qed simp

lemma split_by_map: "split_by ns (map f xs) = map_option (map (map f)) (split_by ns xs)"
  by (induction ns xs rule: split_by.induct) (simp_all add: take_map drop_map option.map_comp comp_def)

lemma level_chunks_map: "level_chunks (map f xs) = map_option (map (map f)) (level_chunks xs)"
  by (simp add: level_chunks_def Let_def split_by_map)

lemma level_chunks_exact:
  assumes "2 * BT_B \<le> length xs"
  obtains cs where "level_chunks xs = Some cs" "concat cs = xs" "length cs = length xs div BT_B"
    "\<forall>c \<in> set cs. BT_B \<le> length c \<and> length c \<le> BT_B + BT_B div 2"
proof -
  let ?n = "length xs" let ?m = "?n div BT_B" let ?r = "?n - ?m * BT_B"
  have m: "2 \<le> ?m" using div_le_mono [OF assms, of BT_B] by (simp add: BT_B_def)
  have r: "?r = ?n mod BT_B" by (metis minus_div_mult_eq_mod)
  then have "?r < BT_B" by (simp add: BT_B_def)
  have "entries_left ?m ?r 0 ?m = ?m * BT_B + ?r" using m by (simp add: entries_left_def)
  then have n: "entries_left ?m ?r 0 ?m = ?n" unfolding r by simp
  from chunk_sizes_sum [of ?m 0 ?r ?m] m have
    "length (chunk_sizes ?m ?r 0 ?n) = ?m" "sum_list (chunk_sizes ?m ?r 0 ?n) = ?n"
    unfolding n by auto
  with split_by_exact obtain cs where cs: "split_by (chunk_sizes ?m ?r 0 ?n) xs = Some cs" "concat cs = xs"
    "map length cs = chunk_sizes ?m ?r 0 ?n" by blast
  have "\<forall>sz \<in> set (chunk_sizes ?m ?r 0 ?n). BT_B \<le> sz \<and> sz \<le> BT_B + BT_B div 2"
    using chunk_sizes_bounds [of ?m ?r 0] m \<open>?r < BT_B\<close> by simp
  then have "\<forall>c \<in> set cs. BT_B \<le> length c \<and> length c \<le> BT_B + BT_B div 2"
    unfolding cs(3) [symmetric] by simp
  moreover have "length cs = ?m" using cs(3) \<open>length (chunk_sizes ?m ?r 0 ?n) = ?m\<close> by (metis length_map)
  ultimately show ?thesis using that cs by (simp add: level_chunks_def Let_def)
qed

section \<open>Allocating a level\<close>

lemma alloc_all_spec:
  assumes "store_ok s" "alloc_all ns s = (as, s')"
  shows "store_ok s' \<and> as = [brk s ..< brk s + length ns] \<and> brk s' = brk s + length ns \<and>
    (\<forall>a < brk s. cells s' a = cells s a) \<and> (\<forall>i < length ns. cells s' (brk s + i) = Some (ns ! i))"
  using assms
proof (induction ns arbitrary: s as s')
  case (Cons n ns)
  let ?s = "s\<lparr>cells := (cells s)(brk s \<mapsto> n), brk := Suc (brk s)\<rparr>"
  obtain bs s2 where bs: "alloc_all ns ?s = (bs, s2)" by fastforce
  with Cons.prems have eq: "as = brk s # bs" "s' = s2" by (simp_all add: alloc_eq Let_def)
  have ok: "store_ok ?s" using Cons.prems(1) by (rule store_ok_alloc)
  note IH = Cons.IH [OF ok bs]
  have "cells s2 (brk s) = Some n" using IH by simp
  moreover have "cells s2 (brk s + i) = Some ((n # ns) ! i)" if "0 < i" "i < length (n # ns)" for i
    using IH that by (cases i) auto
  ultimately have "\<forall>i < length (n # ns). cells s2 (brk s + i) = Some ((n # ns) ! i)"
    by (metis Nat.add_0_right gr0I nth_Cons_0)
  moreover have "brk s # [Suc (brk s) ..< Suc (brk s) + length ns] = [brk s ..< brk s + length (n # ns)]"
    by (simp add: upt_conv_Cons del: upt_Suc)
  ultimately show ?case unfolding eq using IH by (simp del: upt_Suc)
qed simp

section \<open>One level of the tree\<close>

text \<open>
  A level is the list of its subtrees with the least key of each: keys below a subtree lie between its
  key and the next one.
\<close>

type_synonym level = "(u64 \<times> bt_tree) list"

definition before :: "u64 \<times> bt_tree \<Rightarrow> u64 \<times> bt_tree \<Rightarrow> bool" where
  "before p q \<longleftrightarrow> fst p < fst q \<and> (\<forall>x \<in> bt_keyset UINT64_MAX (snd p). x < fst q)"

definition from_low :: "u64 \<times> bt_tree \<Rightarrow> bool" where
  "from_low p \<longleftrightarrow> (\<forall>x \<in> bt_keyset UINT64_MAX (snd p). fst p \<le> x)"

definition spread :: "level \<Rightarrow> bool" where
  "spread L \<longleftrightarrow> sorted_wrt before L \<and> (\<forall>p \<in> set L. from_low p)"

definition level_ok :: "nat \<Rightarrow> bt_store \<Rightarrow> nat \<Rightarrow> level \<Rightarrow> (u64 \<times> u64) list \<Rightarrow> bool" where
  "level_ok slots s h L es \<longleftrightarrow>
     store_ok s \<and> spread L \<and> (\<forall>p \<in> set L. bt_repr s (snd p) \<and> bt_inv slots 0 UINT64_MAX h (snd p) \<and> bt_minfill (snd p)) \<and>
     distinct (concat (map (bt_addrs \<circ> snd) L)) \<and>
     (\<forall>u k. map_of (concat (map (bt_contents u \<circ> snd) L)) k = map_of es k)"

lemma sorted_wrt_concat:
  assumes "sorted_wrt P (concat cs)"
  shows "(\<forall>c \<in> set cs. sorted_wrt P c) \<and> sorted_wrt (\<lambda>c d. \<forall>x \<in> set c. \<forall>y \<in> set d. P x y) cs"
  using assms by (induction cs) (auto simp: sorted_wrt_append)

lemma spread_fst: "spread L \<Longrightarrow> sorted_wrt (<) (map fst L)"
  by (auto simp: spread_def before_def sorted_wrt_map elim: sorted_wrt_mono_rel [rotated])

lemma spread_nth:
  assumes "spread L" "i < length L" "x \<in> bt_keyset UINT64_MAX (snd (L ! i))"
  shows "(\<forall>j \<le> i. fst (L ! j) \<le> x) \<and> (\<forall>j < length L. i < j \<longrightarrow> x < fst (L ! j))"
proof -
  have low: "fst (L ! i) \<le> x" using assms by (auto simp: spread_def from_low_def)
  have "fst (L ! j) \<le> x" if "j \<le> i" for j
  proof (cases "j = i")
    case False
    then have "before (L ! j) (L ! i)" using assms that by (auto simp: spread_def sorted_wrt_iff_nth_less)
    then show ?thesis using low by (auto simp: before_def)
  qed (simp add: low)
  moreover have "x < fst (L ! j)" if "j < length L" "i < j" for j
    using assms that by (auto simp: spread_def sorted_wrt_iff_nth_less before_def)
  ultimately show ?thesis by blast
qed

text \<open>The node above a piece of a level.\<close>

definition node_above :: "addr \<Rightarrow> level \<Rightarrow> bt_tree" where
  "node_above a c = BNode a (bt_internal_of 0 (map (\<lambda>p. (fst p, bt_addr (snd p))) c)) (map snd c)"

lemma internal_of_fields [simp]:
  "bn_keys (bt_internal_of ver es) = map fst (tl es)" "bn_chs (bt_internal_of ver es) = map snd es"
  "bn_type (bt_internal_of ver es) = BT_INTERNAL"
  by (simp_all add: bt_internal_of_def bt_new_internal_def bt_new_node_def)

lemma node_above_routed:
  assumes "spread c" "c \<noteq> []"
  shows "bt_routed UINT64_MAX (map fst (tl c)) (map snd c)"
  unfolding bt_routed_def
proof (intro allI impI ballI)
  fix i x assume i: "i < length (map snd c)" and "x \<in> bt_keyset UINT64_MAX (map snd c ! i)"
  then have x: "\<forall>j \<le> i. fst (c ! j) \<le> x" "\<forall>j < length c. i < j \<longrightarrow> x < fst (c ! j)"
    using spread_nth [OF assms(1), of i x] by simp_all
  have "sorted (map fst (tl c))"
    using spread_fst [OF assms(1)] assms(2) by (cases c) (simp_all add: strict_sorted_imp_sorted)
  moreover have "\<forall>j < i. map fst (tl c) ! j \<le> x"
    using x(1) i by (auto simp: nth_tl Suc_le_eq)
  moreover have "x < map fst (tl c) ! i" if "i < length (map fst (tl c))"
    using x(2) that assms(2) by (cases c) auto
  ultimately show "findch (map fst (tl c)) x = i" using i by (intro findch_eqI) auto
qed

lemma node_above_inv:
  assumes "spread c" "\<forall>p \<in> set c. bt_inv slots 0 UINT64_MAX h (snd p) \<and> bt_minfill (snd p)"
    "2 \<le> length c" "length c \<le> 2 * BT_B"
  shows "bt_inv slots 0 UINT64_MAX (Suc h) (node_above a c)"
    and "BT_B \<le> length c \<Longrightarrow> bt_minfill (node_above a c)"
proof -
  have ne: "c \<noteq> []" using assms(3) by auto
  have "sorted_wrt (<) (map fst (tl c))"
    using spread_fst [OF assms(1)] by (cases c) simp_all
  then show "bt_inv slots 0 UINT64_MAX (Suc h) (node_above a c)"
    using node_above_routed [OF assms(1) ne] assms by (cases c) (auto simp: node_above_def comp_def)
  show "BT_B \<le> length c \<Longrightarrow> bt_minfill (node_above a c)"
    using assms(3) by (cases c) (simp_all add: node_above_def)
qed

lemma node_above_keyset:
  assumes "c \<noteq> []" "spread c"
  shows "from_low (fst (hd c), node_above a c)"
proof -
  obtain p c' where c: "c = p # c'" using assms(1) by (cases c) auto
  have above: "\<forall>q \<in> set c. fst p \<le> fst q"
    using assms(2) by (auto simp: c spread_def before_def less_imp_le)
  have "fst p \<le> x" if "q \<in> set c" "x \<in> bt_keyset UINT64_MAX (snd q)" for q x
  proof -
    have "fst q \<le> x" using assms(2) that by (auto simp: spread_def from_low_def)
    with above that(1) show ?thesis by (meson order_trans)
  qed
  then have "\<forall>q \<in> set c. \<forall>x \<in> bt_keyset UINT64_MAX (snd q). fst p \<le> x" by blast
  with above show ?thesis unfolding from_low_def node_above_def c by auto
qed

lemma before_node_above:
  assumes "\<forall>p \<in> set c. \<forall>q \<in> set d. before p q" "c \<noteq> []" "d \<noteq> []"
  shows "before (fst (hd c), node_above a c) (fst (hd d), node_above b d)"
  using assms by (cases c; cases d) (auto simp: before_def node_above_def)

text \<open>One round of \<open>build_internal\<close> turns a level into the level above it.\<close>

definition level_above :: "addr list \<Rightarrow> level list \<Rightarrow> level" where
  "level_above as cs = map (\<lambda>(a, c). (fst (hd c), node_above a c)) (zip as cs)"

lemma spread_level_above:
  assumes "spread (concat cs)" "\<forall>c \<in> set cs. c \<noteq> []" "length as = length cs"
  shows "spread (level_above as cs)"
proof -
  have c: "\<forall>c \<in> set cs. sorted_wrt before c" "sorted_wrt (\<lambda>c d. \<forall>x \<in> set c. \<forall>y \<in> set d. before x y) cs"
    using sorted_wrt_concat [of before cs] assms(1) by (auto simp: spread_def)
  have low: "\<forall>c \<in> set cs. spread c" using c(1) assms(1) by (auto simp: spread_def)
  have "from_low p" if "p \<in> set (level_above as cs)" for p
    using that low assms(2) node_above_keyset by (auto simp: level_above_def dest: set_zip_rightD)
  moreover have "sorted_wrt before (level_above as cs)"
    using c(2) assms(2,3) before_node_above by (auto simp: level_above_def sorted_wrt_iff_nth_less)
  ultimately show ?thesis by (simp add: spread_def)
qed

lemma level_above_contents:
  "length as = length cs \<Longrightarrow>
     concat (map (bt_contents u \<circ> snd) (level_above as cs)) = concat (map (bt_contents u \<circ> snd) (concat cs))"
  unfolding level_above_def by (induction as cs rule: list_induct2) (simp_all add: node_above_def comp_def)

lemma level_above_addrs:
  "length as = length cs \<Longrightarrow>
     mset (concat (map (bt_addrs \<circ> snd) (level_above as cs))) =
       mset as + mset (concat (map (bt_addrs \<circ> snd) (concat cs)))"
  unfolding level_above_def by (induction as cs rule: list_induct2) (simp_all add: node_above_def comp_def)

lemma mset_distinct: "mset xs = mset ys + mset zs \<Longrightarrow> distinct ys \<Longrightarrow> distinct zs \<Longrightarrow> set ys \<inter> set zs = {} \<Longrightarrow> distinct xs"
  by (metis distinct_append mset_append mset_eq_imp_distinct_iff)

abbreviation level_entries :: "level \<Rightarrow> (u64 \<times> addr) list" where
  "level_entries L \<equiv> map (\<lambda>p. (fst p, bt_addr (snd p))) L"

lemma level_round:
  assumes L: "level_ok slots s h (concat cs) es"
    and cs: "\<forall>c \<in> set cs. BT_B \<le> length c \<and> length c \<le> 2 * BT_B"
    and run: "alloc_all (map (bt_internal_of 0 \<circ> level_entries) cs) s = (as, s')"
  shows "level_ok slots s' (Suc h) (level_above as cs) es \<and>
    level_entries (level_above as cs) = zip (map (fst \<circ> hd) cs) as"
proof -
  let ?L = "level_above as cs" let ?old = "concat (map (bt_addrs \<circ> snd) (concat cs))"
  have ok: "store_ok s" and inv: "\<forall>p \<in> set (concat cs). bt_repr s (snd p) \<and> bt_inv slots 0 UINT64_MAX h (snd p) \<and> bt_minfill (snd p)"
    and sp: "spread (concat cs)" using L by (simp_all add: level_ok_def)
  note new = alloc_all_spec [OF ok run]
  have len: "length as = length cs" using new by simp
  have ne: "\<forall>c \<in> set cs. c \<noteq> []" using cs by (auto simp: BT_B_def)
  have spc: "spread c" if "c \<in> set cs" for c
    using sorted_wrt_concat [of before cs] sp that by (auto simp: spread_def)
  have low: "\<forall>p \<in> set (concat cs). \<forall>a \<in> set (bt_addrs (snd p)). a < brk s" using inv bt_repr_addrs [OF ok] by blast
  then have below: "\<forall>a \<in> set ?old. a < brk s" by auto
  have keep: "\<forall>a < brk s. cells s' a = cells s a" using new by blast
  have old: "bt_repr s' (snd p)" if "p \<in> set (concat cs)" for p
  proof (rule bt_repr_frame)
    show "bt_repr s (snd p)" using inv that by blast
    show "cells s' a = cells s a" if "a \<in> set (bt_addrs (snd p))" for a
      using keep low \<open>p \<in> set (concat cs)\<close> that by blast
  qed
  have node: "bt_repr s' (snd p) \<and> bt_inv slots 0 UINT64_MAX (Suc h) (snd p) \<and> bt_minfill (snd p)" if p: "p \<in> set ?L" for p
  proof -
    from p obtain i where i: "i < length cs" "p = (fst (hd (cs ! i)), node_above (as ! i) (cs ! i))"
      by (auto simp: level_above_def set_zip len)
    have c: "cs ! i \<in> set cs" using i by simp
    have "cells s' (as ! i) = Some (bt_internal_of 0 (level_entries (cs ! i)))" using new i by simp
    moreover have "bt_repr s' (snd q)" if "q \<in> set (cs ! i)" for q
    proof -
      have "q \<in> set (concat cs)" using c that by auto
      then show ?thesis by (rule old)
    qed
    ultimately have "bt_repr s' (snd p)" by (simp add: i node_above_def comp_def)
    moreover have "2 \<le> length (cs ! i)" "length (cs ! i) \<le> 2 * BT_B" "BT_B \<le> length (cs ! i)"
      using cs c by (auto simp: BT_B_def)
    moreover have "\<forall>p \<in> set (cs ! i). bt_inv slots 0 UINT64_MAX h (snd p) \<and> bt_minfill (snd p)"
    proof
      fix p assume "p \<in> set (cs ! i)"
      then have "p \<in> set (concat cs)" using c by auto
      then show "bt_inv slots 0 UINT64_MAX h (snd p) \<and> bt_minfill (snd p)" using inv by blast
    qed
    ultimately show ?thesis
      using node_above_inv [OF spc [OF c], of slots h "as ! i"] by (simp add: i)
  qed
  have "distinct as" "\<forall>a \<in> set as. brk s \<le> a" using new by auto
  moreover have "set as \<inter> set ?old = {}"
    using below calculation(2) by (meson disjoint_iff leD)
  ultimately have "distinct as" "set as \<inter> set ?old = {}" by blast+
  then have "distinct (concat (map (bt_addrs \<circ> snd) ?L))"
    using mset_distinct [OF level_above_addrs [OF len]] L by (simp add: level_ok_def)
  moreover have "level_entries ?L = zip (map (fst \<circ> hd) cs) as"
    using len unfolding level_above_def by (induction as cs rule: list_induct2) (simp_all add: node_above_def)
  ultimately show ?thesis
    using node new spread_level_above [OF sp ne len] level_above_contents [OF len] L
    by (simp add: level_ok_def)
qed

section \<open>All levels\<close>

lemma level_root:
  assumes L: "level_ok slots s h L es" and len: "2 \<le> length L" "length L < 2 * BT_B"
  shows "\<exists>a s' T. bt_build_internal (Suc f) (level_entries L) s = Some (a, s') \<and> bt_wf slots 0 (Suc h) s' T \<and>
    bt_addr T = a \<and> (\<forall>u k. bt_map T u k = map_of es k)"
proof -
  let ?n = "bt_internal_of 0 (level_entries L)"
  obtain as s' where run: "alloc_all (map (bt_internal_of 0 \<circ> level_entries) [L]) s = (as, s')" by fastforce
  have ok: "store_ok s" using L by (simp add: level_ok_def)
  note new = alloc_all_spec [OF ok run]
  let ?T = "node_above (brk s) L"
  have s': "alloc ?n s = (brk s, s')" using run by (simp add: alloc_eq Let_def)
  have inv: "\<forall>p \<in> set L. bt_repr s (snd p) \<and> bt_inv slots 0 UINT64_MAX h (snd p) \<and> bt_minfill (snd p)"
    and sp: "spread L" using L by (simp_all add: level_ok_def)
  have below: "\<forall>p \<in> set L. \<forall>a \<in> set (bt_addrs (snd p)). a < brk s" using inv bt_repr_addrs [OF ok] by blast
  have keep: "\<forall>a < brk s. cells s' a = cells s a" using new by blast
  have "bt_repr s' (snd p)" if "p \<in> set L" for p
  proof (rule bt_repr_frame)
    show "bt_repr s (snd p)" using inv that by blast
    show "cells s' a = cells s a" if "a \<in> set (bt_addrs (snd p))" for a
      using keep below \<open>p \<in> set L\<close> that by blast
  qed
  moreover have "cells s' (brk s) = Some ?n" using new by simp
  ultimately have "bt_repr s' ?T" by (auto simp: node_above_def comp_def)
  moreover have "bt_inv slots 0 UINT64_MAX (Suc h) ?T"
    using node_above_inv(1) [OF sp, of slots h] inv len by (auto simp: BT_B_def)
  moreover have "distinct (bt_addrs ?T)"
    using L below by (auto simp: level_ok_def node_above_def comp_def)
  moreover have "bt_map ?T u k = map_of es k" for u k
    using L by (simp add: level_ok_def bt_map_def node_above_def comp_def)
  moreover have "bt_build_internal (Suc f) (level_entries L) s = Some (brk s, s')"
    using len by (simp add: s')
  ultimately show ?thesis using new
    by (intro exI [of _ "brk s"] exI [of _ s'] exI [of _ ?T]) (simp add: bt_wf_def, simp add: node_above_def)
qed

lemma build_levels:
  "level_ok slots s h L es \<Longrightarrow> 2 \<le> length L \<Longrightarrow> length L \<le> f \<Longrightarrow>
     \<exists>a s' T h'. bt_build_internal f (level_entries L) s = Some (a, s') \<and> bt_wf slots 0 h' s' T \<and>
       bt_addr T = a \<and> (\<forall>u k. bt_map T u k = map_of es k)"
proof (induction f arbitrary: s h L)
  case (Suc f)
  show ?case
  proof (cases "length L < 2 * BT_B")
    case True
    from level_root [OF Suc.prems(1,2) True, of f] show ?thesis by blast
  next
    case False
    then obtain cs where cs: "level_chunks L = Some cs" "concat cs = L" "length cs = length L div BT_B"
      "\<forall>c \<in> set cs. BT_B \<le> length c \<and> length c \<le> BT_B + BT_B div 2"
      by (meson level_chunks_exact not_less)
    obtain as s' where run: "alloc_all (map (bt_internal_of 0 \<circ> level_entries) cs) s = (as, s')" by fastforce
    have L: "level_ok slots s h (concat cs) es" using Suc.prems(1) cs(2) by simp
    have B: "\<forall>c \<in> set cs. BT_B \<le> length c \<and> length c \<le> 2 * BT_B" using cs(4) by (force simp: BT_B_def)
    from level_round [OF L B run] have up: "level_ok slots s' (Suc h) (level_above as cs) es"
      "level_entries (level_above as cs) = zip (map (fst \<circ> hd) cs) as" by auto
    have "store_ok s" using Suc.prems(1) by (simp add: level_ok_def)
    then have len: "length (level_above as cs) = length L div BT_B"
      using alloc_all_spec [OF _ run] cs(3) by (simp add: level_above_def)
    have "2 \<le> length (level_above as cs)" "length (level_above as cs) \<le> f"
      using False Suc.prems(2,3) unfolding len by (simp_all add: BT_B_def)
    from Suc.IH [OF up(1) this] obtain a s2 T h' where r:
      "bt_build_internal f (zip (map (fst \<circ> hd) cs) as) s' = Some (a, s2)" "bt_wf slots 0 h' s2 T" "bt_addr T = a"
      "\<forall>u k. bt_map T u k = map_of es k" unfolding up(2) by blast
    have "c \<noteq> []" if "c \<in> set cs" for c using B that by (auto simp: BT_B_def)
    then have heads: "map (fst \<circ> hd \<circ> level_entries) cs = map (fst \<circ> hd) cs" by (simp add: hd_map)
    have "bt_build_internal (Suc f) (level_entries L) s =
        (let (as, s1) = alloc_all (map (bt_internal_of 0 \<circ> level_entries) cs) s
         in bt_build_internal f (zip (map (fst \<circ> hd \<circ> level_entries) cs) as) s1)"
      using False cs(1) by (simp add: level_chunks_map comp_assoc)
    then have "bt_build_internal (Suc f) (level_entries L) s = bt_build_internal f (zip (map (fst \<circ> hd) cs) as) s'"
      unfolding heads run by simp
    with r show ?thesis by auto
  qed
qed simp

section \<open>The leaves\<close>

lemma leaf_of_fields [simp]:
  "bn_keys (bt_leaf_of ver es) = map fst es" "bn_vals (bt_leaf_of ver es) = map snd es"
  "bn_type (bt_leaf_of ver es) = BT_LEAF" "bn_ver (bt_leaf_of ver es) = ver" "bn_delta (bt_leaf_of ver es) = None"
  by (simp_all add: bt_leaf_of_def bt_new_leaf_def bt_new_node_def)

lemma leaf_of_ok:
  assumes "sorted_wrt (<) (map fst es)" "length es \<le> 2 * BT_B - 1"
  shows "leaf_ok slots 0 (bt_leaf_of 0 es)" "leaf_keyset w (bt_leaf_of 0 es) = fst ` set es"
    and "map_of (leaf_entries (bt_leaf_of 0 es) u) k = map_of es k"
proof -
  show ok: "leaf_ok slots 0 (bt_leaf_of 0 es)" for slots using assms by (simp add: leaf_ok_def)
  show "leaf_keyset w (bt_leaf_of 0 es) = fst ` set es" by (simp add: leaf_keyset_def)
  have "leaf_records (bt_leaf_of 0 es) u = base_records 0 (map fst es) (map snd es)"
    by (simp add: leaf_records_None [OF ok])
  then show "map_of (leaf_entries (bt_leaf_of 0 es) u) k = map_of es k"
    using last_value_base_map [of "map fst es" "map snd es" 0 k] assms
    by (simp add: leaf_entries_map [OF ok] zip_map_fst_snd)
qed

definition leaf_level :: "addr list \<Rightarrow> (u64 \<times> u64) list list \<Rightarrow> level" where
  "leaf_level as cs = map (\<lambda>(a, c). (fst (hd c), BLeaf a (bt_leaf_of 0 c))) (zip as cs)"

lemma leaf_level_contents:
  assumes "length as = length cs" "\<forall>c \<in> set cs. sorted_wrt (<) (map fst c) \<and> length c \<le> 2 * BT_B - 1"
  shows "map_of (concat (map (bt_contents u \<circ> snd) (leaf_level as cs))) k = map_of (concat cs) k"
  using assms unfolding leaf_level_def
  by (induction as cs rule: list_induct2) (auto simp: leaf_of_ok(3) map_add_def split: option.splits)

lemma spread_leaf_level:
  assumes "sorted_wrt (<) (map fst (concat cs))" "\<forall>c \<in> set cs. c \<noteq> []" "length as = length cs"
  shows "spread (leaf_level as cs)"
proof -
  let ?P = "\<lambda>x y :: u64 \<times> u64. fst x < fst y"
  have c: "\<forall>c \<in> set cs. sorted_wrt ?P c" "sorted_wrt (\<lambda>c d. \<forall>x \<in> set c. \<forall>y \<in> set d. ?P x y) cs"
    using sorted_wrt_concat [of ?P cs] assms(1) by (simp_all add: sorted_wrt_map)
  have "from_low p" if p: "p \<in> set (leaf_level as cs)" for p
  proof -
    obtain a x c' where "x # c' \<in> set cs" "p = (fst x, BLeaf a (bt_leaf_of 0 (x # c')))"
      using p assms(2) by (fastforce simp: leaf_level_def neq_Nil_conv dest: set_zip_rightD)
    then show ?thesis using c(1) by (force simp: from_low_def leaf_keyset_def less_imp_le)
  qed
  moreover have "sorted_wrt before (leaf_level as cs)"
    unfolding sorted_wrt_iff_nth_less
  proof (intro allI impI)
    fix i j assume ij: "i < j" "j < length (leaf_level as cs)"
    then have "\<forall>x \<in> set (cs ! i). \<forall>y \<in> set (cs ! j). fst x < fst y" "cs ! i \<noteq> []" "cs ! j \<noteq> []"
      using c(2) assms(2,3) by (simp_all add: leaf_level_def sorted_wrt_iff_nth_less)
    then have "\<forall>x \<in> set (cs ! i). fst x < fst (hd (cs ! j))" "fst (hd (cs ! i)) < fst (hd (cs ! j))" by simp_all
    then show "before (leaf_level as cs ! i) (leaf_level as cs ! j)"
      using ij assms(3) by (auto simp: leaf_level_def before_def leaf_keyset_def)
  qed
  ultimately show ?thesis by (simp add: spread_def)
qed

lemma leaf_level_ok:
  assumes ok: "store_ok s" and sorted: "sorted_wrt (<) (map fst (concat cs))"
    and cs: "\<forall>c \<in> set cs. BT_B \<le> length c \<and> length c \<le> 2 * BT_B - 1"
    and run: "alloc_all (map (bt_leaf_of 0) cs) s = (as, s')"
  shows "level_ok slots s' 0 (leaf_level as cs) (concat cs) \<and>
    level_entries (leaf_level as cs) = zip (map (fst \<circ> hd) cs) as"
proof -
  note new = alloc_all_spec [OF ok run]
  have len: "length as = length cs" using new by simp
  have ne: "\<forall>c \<in> set cs. c \<noteq> []" using cs by (auto simp: BT_B_def)
  have strict: "\<forall>c \<in> set cs. sorted_wrt (<) (map fst c)"
    using sorted_wrt_concat [of "\<lambda>x y. fst x < fst y" cs] sorted by (simp add: sorted_wrt_map)
  have "bt_repr s' (snd p) \<and> bt_inv slots 0 UINT64_MAX 0 (snd p) \<and> bt_minfill (snd p)" if p: "p \<in> set (leaf_level as cs)" for p
  proof -
    from p obtain i where i: "i < length cs" "p = (fst (hd (cs ! i)), BLeaf (as ! i) (bt_leaf_of 0 (cs ! i)))"
      by (auto simp: leaf_level_def set_zip len)
    have "cells s' (as ! i) = Some (bt_leaf_of 0 (cs ! i))" using new i by simp
    then show ?thesis using cs strict nth_mem [OF i(1)] leaf_of_ok(1) by (simp add: i)
  qed
  moreover have "concat (map (bt_addrs \<circ> snd) (leaf_level as cs)) = as"
    using len unfolding leaf_level_def by (induction as cs rule: list_induct2) simp_all
  moreover have "level_entries (leaf_level as cs) = zip (map (fst \<circ> hd) cs) as"
    using len unfolding leaf_level_def by (induction as cs rule: list_induct2) simp_all
  moreover have "map_of (concat (map (bt_contents u \<circ> snd) (leaf_level as cs))) k = map_of (concat cs) k" for u k
    using cs strict by (intro leaf_level_contents len) auto
  ultimately show ?thesis
    using new spread_leaf_level [OF sorted ne len] by (simp add: level_ok_def)
qed

lemma build_sorted_correct:
  assumes ok: "store_ok s" and sorted: "sorted_wrt (<) (map fst es)"
  shows "\<exists>a s' T h. bt_build_sorted es s = Some (a, s') \<and> bt_wf slots 0 h s' T \<and>
    bt_addr T = a \<and> (\<forall>u k. bt_map T u k = map_of es k)"
proof (cases "length es < 2 * BT_B")
  case True
  let ?T = "BLeaf (brk s) (bt_leaf_of 0 es)" let ?s = "s\<lparr>cells := (cells s)(brk s \<mapsto> bt_leaf_of 0 es), brk := Suc (brk s)\<rparr>"
  have len: "length es \<le> 2 * BT_B - 1" using True by simp
  have "bt_wf slots 0 0 ?s ?T"
    using leaf_of_ok(1) [OF sorted len] store_ok_alloc [OF ok] by (simp add: bt_wf_def)
  moreover have "bt_map ?T u k = map_of es k" for u k
    using leaf_of_ok(3) [OF sorted len] by (simp add: bt_map_def)
  ultimately show ?thesis
    using True by (intro exI [of _ "brk s"] exI [of _ ?s] exI [of _ ?T] exI [of _ 0]) (simp add: bt_build_sorted_def alloc_eq)
next
  case False
  then obtain cs where cs: "level_chunks es = Some cs" "concat cs = es" "length cs = length es div BT_B"
    "\<forall>c \<in> set cs. BT_B \<le> length c \<and> length c \<le> BT_B + BT_B div 2"
    by (meson level_chunks_exact not_less)
  obtain as s' where run: "alloc_all (map (bt_leaf_of 0) cs) s = (as, s')" by fastforce
  have B: "\<forall>c \<in> set cs. BT_B \<le> length c \<and> length c \<le> 2 * BT_B - 1" using cs(4) by (force simp: BT_B_def)
  have "sorted_wrt (<) (map fst (concat cs))" using sorted cs(2) by simp
  from leaf_level_ok [OF ok this B run] have up: "level_ok slots s' 0 (leaf_level as cs) es"
    "level_entries (leaf_level as cs) = zip (map (fst \<circ> hd) cs) as" using cs(2) by auto
  have len: "length (leaf_level as cs) = length es div BT_B"
    using alloc_all_spec [OF ok run] cs(3) by (simp add: leaf_level_def)
  have "2 \<le> length (leaf_level as cs)" "length (leaf_level as cs) \<le> length es"
    using False unfolding len by (simp_all add: BT_B_def)
  from build_levels [OF up(1) this] obtain a s2 T h' where r:
    "bt_build_internal (length es) (zip (map (fst \<circ> hd) cs) as) s' = Some (a, s2)" "bt_wf slots 0 h' s2 T" "bt_addr T = a"
    "\<forall>u k. bt_map T u k = map_of es k" unfolding up(2) by blast
  have "bt_build_sorted es s = bt_build_internal (length es) (zip (map (fst \<circ> hd) cs) as) s'"
    using False cs(1) run by (simp add: bt_build_sorted_def)
  with r show ?thesis by auto
qed

lemma sort_pairs:
  fixes es :: "(u64 \<times> u64) list"
  assumes "distinct (map fst es)"
  shows "sorted_wrt (<) (map fst (sort_key id es))" "map_of (sort_key id es) = map_of es"
proof -
  let ?xs = "sort_key id es"
  have d: "distinct (map fst ?xs)" using assms by (simp add: distinct_map inj_on_def)
  have "sorted ?xs" using sorted_sort_key [of id es] by simp
  then have "sorted (map fst ?xs)"
    by (auto simp: sorted_map less_eq_prod_def elim!: sorted_wrt_mono_rel [rotated])
  with d show "sorted_wrt (<) (map fst ?xs)" by (simp add: strict_sorted_iff)
  show "map_of ?xs = map_of es" using d assms by (simp add: map_of_inject_set)
qed

text \<open>
  C15: the bulk build of any list of entries with pairwise distinct keys, in any order (it sorts them first),
  ends and gives a well-formed tree that maps exactly the given keys to the given values; leaves and inner
  nodes have legal sizes on every level, the empty list included. Lists that repeat a key are not covered.
\<close>

theorem bt_build_correct:
  assumes "store_ok s" "distinct (map fst es)"
  shows "\<exists>a s' T h. bt_build es s = Some (a, s') \<and> bt_addr T = a \<and> bt_wf slots 0 h s' T \<and>
    (\<forall>u k. bt_find s' a k u = Some (map_of es k))"
proof -
  obtain a s' T h where r: "bt_build es s = Some (a, s')" "bt_wf slots 0 h s' T" "bt_addr T = a"
    "\<forall>u k. bt_map T u k = map_of es k"
    using build_sorted_correct [OF assms(1) sort_pairs(1) [OF assms(2)]] sort_pairs(2) [OF assms(2)]
    unfolding bt_build_def by metis
  have "bt_find s' (bt_addr T) k u = Some (bt_map T u k)" for u k
    using r(2) word_order.extremum [of u]
    by (intro bt_find_correct [of s' T slots 0 UINT64_MAX h]) (simp_all add: bt_wf_def UINT64_MAX_def)
  with r show ?thesis by auto
qed

theorem bt_build_correct_witness:
  "\<exists>a s'. bt_build [(5, 50), (2, 20), (9, 90)] empty_store = Some (a, s') \<and> bt_find s' a 2 0 = Some (Some 20)"
  using bt_build_correct [of empty_store "[(5, 50), (2, 20), (9, 90)]"] by fastforce

end
