(* ===== verification/MPSC.thy ===== *)
theory MPSC
  imports Prelude
begin

text \<open>
  The intrusive list of idle workers (\<^verbatim>\<open>lib/conctrl/mpsc_list.hpp\<close>): many threads push, one thread pops,
  without a lock. One step is one access to a shared atomic variable; the tail belongs to the popping
  thread alone. Loads and stores are sequentially consistent here.
\<close>

section \<open>Code\<close>

text \<open>The \<^verbatim>\<open>next\<close> fields of all items, the two ends, the address of the member \<^verbatim>\<open>stub_\<close>.\<close>

record mpsc =
  m_stub :: addr
  m_next :: "addr \<Rightarrow> addr option"
  m_head :: addr
  m_tail :: addr

definition mpsc_list :: "addr \<Rightarrow> mpsc" where
  "mpsc_list stub = \<lparr>m_stub = stub, m_next = Map.empty, m_head = stub, m_tail = stub\<rparr>"

text \<open>A thread inside \<open>push\<close>: before the reset of the item, before the exchange, before the link.\<close>

datatype push_phase = PU_IDLE | PU_NEXT addr | PU_SWAP addr | PU_LINK addr addr

fun push_step :: "push_phase \<Rightarrow> mpsc \<Rightarrow> push_phase \<times> mpsc" where
  "push_step PU_IDLE q = (PU_IDLE, q)"
| "push_step (PU_NEXT x) q = (PU_SWAP x, q\<lparr>m_next := (m_next q)(x := None)\<rparr>)"
| "push_step (PU_SWAP x) q = (PU_LINK x (m_head q), q\<lparr>m_head := x\<rparr>)"
| "push_step (PU_LINK x prev) q = (PU_IDLE, q\<lparr>m_next := (m_next q)(prev \<mapsto> x)\<rparr>)"

text \<open>
  The popping thread: after it skipped the stub, before it loads the head, while it pushes the stub, before
  the last look at the oldest item. A step returns the result of \<open>pop\<close> when it ends one.
\<close>

datatype pop_phase = PO_IDLE | PO_SKIP addr | PO_HEAD addr | PO_STUB addr | PO_LAST addr

fun pop_step :: "pop_phase \<Rightarrow> push_phase \<Rightarrow> mpsc \<Rightarrow> pop_phase \<times> push_phase \<times> mpsc \<times> addr option option" where
  "pop_step PO_IDLE p q =
     (let t = m_tail q in
      if t = m_stub q
      then (case m_next q t of
              None \<Rightarrow> (PO_IDLE, p, q, Some None)
            | Some n \<Rightarrow> (PO_SKIP n, p, q\<lparr>m_tail := n\<rparr>, None))
      else (case m_next q t of
              Some n \<Rightarrow> (PO_IDLE, p, q\<lparr>m_tail := n\<rparr>, Some (Some t))
            | None \<Rightarrow> (PO_HEAD t, p, q, None)))"
| "pop_step (PO_SKIP t) p q =
     (case m_next q t of
        Some n \<Rightarrow> (PO_IDLE, p, q\<lparr>m_tail := n\<rparr>, Some (Some t))
      | None \<Rightarrow> (PO_HEAD t, p, q, None))"
| "pop_step (PO_HEAD t) p q =
     (if t \<noteq> m_head q then (PO_IDLE, p, q, Some None) else (PO_STUB t, PU_NEXT (m_stub q), q, None))"
| "pop_step (PO_STUB t) p q =
     (let (p', q') = push_step p q in (if p' = PU_IDLE then PO_LAST t else PO_STUB t, p', q', None))"
| "pop_step (PO_LAST t) p q =
     (case m_next q t of
        Some n \<Rightarrow> (PO_IDLE, p, q\<lparr>m_tail := n\<rparr>, Some (Some t))
      | None \<Rightarrow> (PO_IDLE, p, q, Some None))"

section \<open>The list and its threads\<close>

text \<open>
  Thread 0 pops, and its push phase is that of the stub. The histories \<open>ms_pushed\<close> (in the order of the
  exchanges) and \<open>ms_popped\<close> and the set \<open>ms_busy\<close> of items that are owned by the list are not in the code.
\<close>

record mpsc_sys =
  ms_q :: mpsc
  ms_push :: "nat \<Rightarrow> push_phase"
  ms_pop :: pop_phase
  ms_pushed :: "addr list"
  ms_popped :: "addr list"
  ms_busy :: "addr set"

datatype mpsc_act = PushStart nat addr | PushStep nat | PopStep

definition mpsc_start :: "addr \<Rightarrow> mpsc_sys" where
  "mpsc_start stub =
     \<lparr>ms_q = mpsc_list stub, ms_push = (\<lambda>_. PU_IDLE), ms_pop = PO_IDLE, ms_pushed = [], ms_popped = [], ms_busy = {}\<rparr>"

definition logged :: "push_phase \<Rightarrow> mpsc \<Rightarrow> addr list" where
  "logged p q = (case p of PU_SWAP x \<Rightarrow> if x = m_stub q then [] else [x] | _ \<Rightarrow> [])"

text \<open>One step of the popping thread, with the result of the \<open>pop\<close> if it ends.\<close>

definition mpsc_pop :: "mpsc_sys \<Rightarrow> mpsc_sys \<times> addr option option" where
  "mpsc_pop s =
     (case pop_step (ms_pop s) (ms_push s 0) (ms_q s) of
        (c, p, q, r) \<Rightarrow>
          (s\<lparr>ms_q := q, ms_push := (ms_push s)(0 := p), ms_pop := c,
             ms_popped := ms_popped s @ (case r of Some (Some x) \<Rightarrow> [x] | _ \<Rightarrow> []),
             ms_busy := ms_busy s - (case r of Some (Some x) \<Rightarrow> {x} | _ \<Rightarrow> {})\<rparr>, r))"

text \<open>An item may be pushed when the list does not own it: a worker pushes itself after it was popped.\<close>

fun mpsc_do :: "mpsc_act \<Rightarrow> mpsc_sys \<Rightarrow> mpsc_sys option" where
  "mpsc_do (PushStart i x) s =
     (if i \<noteq> 0 \<and> ms_push s i = PU_IDLE \<and> x \<noteq> m_stub (ms_q s) \<and> x \<notin> ms_busy s
      then Some (s\<lparr>ms_push := (ms_push s)(i := PU_NEXT x), ms_busy := insert x (ms_busy s)\<rparr>) else None)"
| "mpsc_do (PushStep i) s =
     (if i \<noteq> 0 \<and> ms_push s i \<noteq> PU_IDLE
      then (case push_step (ms_push s i) (ms_q s) of
              (p, q) \<Rightarrow> Some (s\<lparr>ms_q := q, ms_push := (ms_push s)(i := p),
                                ms_pushed := ms_pushed s @ logged (ms_push s i) (ms_q s)\<rparr>)) else None)"
| "mpsc_do PopStep s = Some (fst (mpsc_pop s))"

inductive mpsc_reach :: "addr \<Rightarrow> mpsc_sys \<Rightarrow> bool" for stub where
  start: "mpsc_reach stub (mpsc_start stub)"
| step: "mpsc_reach stub s \<Longrightarrow> mpsc_do a s = Some s' \<Longrightarrow> mpsc_reach stub s'"

section \<open>Invariant\<close>

text \<open>
  The items in the list, in the order of the exchanges, are a path from the tail to the head; a link that is
  missing is owed by the thread between its exchange and its last store.
\<close>

definition owed :: "(nat \<Rightarrow> push_phase) \<Rightarrow> addr \<Rightarrow> addr \<Rightarrow> bool" where
  "owed pf x y \<longleftrightarrow> (\<exists>i. pf i = PU_LINK y x)"

definition linked :: "mpsc \<Rightarrow> (nat \<Rightarrow> push_phase) \<Rightarrow> addr \<Rightarrow> addr \<Rightarrow> bool" where
  "linked q pf x y \<longleftrightarrow> m_next q x = Some y \<or> m_next q x = None \<and> owed pf x y"

definition follows :: "addr list \<Rightarrow> addr \<Rightarrow> addr \<Rightarrow> bool" where
  "follows L x y \<longleftrightarrow> (\<exists>A B. L = A @ x # y # B)"

fun phase_item :: "push_phase \<Rightarrow> addr option" where
  "phase_item PU_IDLE = None"
| "phase_item (PU_NEXT x) = Some x"
| "phase_item (PU_SWAP x) = Some x"
| "phase_item (PU_LINK x p) = Some x"

fun push_ok :: "mpsc \<Rightarrow> addr list \<Rightarrow> push_phase \<Rightarrow> bool" where
  "push_ok q L PU_IDLE = True"
| "push_ok q L (PU_NEXT x) = (x \<notin> set L)"
| "push_ok q L (PU_SWAP x) = (x \<notin> set L \<and> m_next q x = None)"
| "push_ok q L (PU_LINK x p) = (follows L p x \<and> m_next q p = None)"

fun pop_ok :: "mpsc \<Rightarrow> push_phase \<Rightarrow> pop_phase \<Rightarrow> bool" where
  "pop_ok q p PO_IDLE = (p = PU_IDLE)"
| "pop_ok q p (PO_SKIP t) = (p = PU_IDLE \<and> t = m_tail q \<and> t \<noteq> m_stub q)"
| "pop_ok q p (PO_HEAD t) = (p = PU_IDLE \<and> t = m_tail q \<and> t \<noteq> m_stub q)"
| "pop_ok q p (PO_STUB t) = (phase_item p = Some (m_stub q) \<and> t = m_tail q \<and> t \<noteq> m_stub q)"
| "pop_ok q p (PO_LAST t) = (p = PU_IDLE \<and> t = m_tail q \<and> t \<noteq> m_stub q)"

definition path_ok :: "mpsc \<Rightarrow> (nat \<Rightarrow> push_phase) \<Rightarrow> addr list \<Rightarrow> bool" where
  "path_ok q pf L \<longleftrightarrow>
     L \<noteq> [] \<and> hd L = m_tail q \<and> last L = m_head q \<and> distinct L \<and> m_next q (last L) = None \<and> successively (linked q pf) L"

definition items_ok :: "addr \<Rightarrow> (nat \<Rightarrow> push_phase) \<Rightarrow> addr set \<Rightarrow> bool" where
  "items_ok stub pf busy \<longleftrightarrow>
     (\<forall>i x. phase_item (pf i) = Some x \<longrightarrow> (if i = 0 then x = stub else x \<in> busy \<and> x \<noteq> stub)) \<and>
     (\<forall>i j x. phase_item (pf i) = Some x \<longrightarrow> phase_item (pf j) = Some x \<longrightarrow> i = j)"

definition threads_ok :: "mpsc \<Rightarrow> (nat \<Rightarrow> push_phase) \<Rightarrow> addr set \<Rightarrow> addr list \<Rightarrow> bool" where
  "threads_ok q pf busy L \<longleftrightarrow>
     (\<forall>i. push_ok q L (pf i)) \<and> items_ok (m_stub q) pf busy"

definition mpsc_inv :: "addr \<Rightarrow> mpsc_sys \<Rightarrow> addr list \<Rightarrow> bool" where
  "mpsc_inv stub s L \<longleftrightarrow>
     m_stub (ms_q s) = stub \<and> path_ok (ms_q s) (ms_push s) L \<and> threads_ok (ms_q s) (ms_push s) (ms_busy s) L \<and>
     pop_ok (ms_q s) (ms_push s 0) (ms_pop s) \<and>
     set L - {stub} \<subseteq> ms_busy s \<and> stub \<notin> ms_busy s \<and> ms_pushed s = ms_popped s @ filter (\<lambda>x. x \<noteq> stub) L"

lemma items_mono:
  "items_ok stub pf busy \<Longrightarrow> (\<And>j y. phase_item (pf' j) = Some y \<Longrightarrow> phase_item (pf j) = Some y) \<Longrightarrow> items_ok stub pf' busy"
  unfolding items_ok_def by blast

lemma items_unique: "items_ok stub pf busy \<Longrightarrow> phase_item (pf i) = Some x \<Longrightarrow> j \<noteq> i \<Longrightarrow> phase_item (pf j) \<noteq> Some x"
  unfolding items_ok_def by blast

lemma owed_upd: "pf i \<noteq> PU_LINK y x \<Longrightarrow> owed (pf(i := p)) x y \<longleftrightarrow> p = PU_LINK y x \<or> owed pf x y"
  unfolding owed_def by (metis fun_upd_other fun_upd_same)

lemma follows_unique:
  assumes "distinct L" "follows L x y" "follows L x z"
  shows "y = z"
proof -
  obtain A B where "L = A @ x # y # B" using assms(2) by (auto simp: follows_def)
  moreover obtain A' B' where "L = A' @ x # z # B'" using assms(3) by (auto simp: follows_def)
  ultimately have L: "L = A @ x # y # B" "L = A' @ x # z # B'" .
  have "x \<notin> set A" "x \<notin> set (y # B)" "x \<notin> set A'" "x \<notin> set (z # B')" using assms(1) L(1) assms(1) [unfolded L(2)] by auto
  moreover have "A @ x # y # B = A' @ x # z # B'" using L by simp
  ultimately have "y # B = z # B'" by (metis append_Cons_eq_iff)
  then show ?thesis by simp
qed

lemma follows_in: "follows L x y \<Longrightarrow> x \<in> set L \<and> y \<in> set L"
  by (auto simp: follows_def)

lemma follows_Cons: "follows L x y \<Longrightarrow> follows (t # L) x y"
  unfolding follows_def by (metis append_Cons)

lemma follows_snoc: "follows L x y \<Longrightarrow> follows (L @ [z]) x y"
  unfolding follows_def by (metis append.assoc append_Cons)

lemma follows_last: "L \<noteq> [] \<Longrightarrow> follows (L @ [z]) (last L) z"
  unfolding follows_def by (metis append.assoc append_Cons append_Nil append_butlast_last_id)

lemma follows_tl:
  assumes "follows (t # L) x y" "x \<noteq> t"
  shows "follows L x y"
proof -
  obtain A B where "t # L = A @ x # y # B" using assms(1) by (auto simp: follows_def)
  with assms(2) show ?thesis by (cases A) (auto simp: follows_def)
qed

lemma follows_not_hd:
  assumes "distinct (t # L)" "follows (t # L) x y"
  shows "y \<noteq> t"
proof -
  obtain A B where "t # L = A @ x # y # B" using assms(2) by (auto simp: follows_def)
  with assms(1) show ?thesis by (cases A) auto
qed

lemma follows_not_last:
  assumes "distinct L" "follows L x y"
  shows "x \<noteq> last L"
proof -
  obtain A B where "L = A @ x # y # B" using assms(2) by (auto simp: follows_def)
  with assms(1) show ?thesis by auto
qed

lemma successively_follows: "successively P L \<Longrightarrow> follows L x y \<Longrightarrow> P x y"
  by (auto simp: follows_def successively_append_iff)

lemma successively_followsI: "(\<And>x y. follows L x y \<Longrightarrow> P x y) \<Longrightarrow> successively P L"
proof (induction L rule: induct_list012)
  case (3 x y zs)
  have "P x y" by (rule 3(3)) (auto simp: follows_def intro: exI [of _ "[]"])
  moreover have "successively P (y # zs)"
    by (rule 3(2)) (rule 3(3) [OF follows_Cons])
  ultimately show ?case by simp
qed simp_all

section \<open>A step of push\<close>

lemma push_next_keeps:
  assumes path: "path_ok q pf L" and th: "threads_ok q pf busy L" and i: "pf i = PU_NEXT x"
  shows "path_ok (q\<lparr>m_next := (m_next q)(x := None)\<rparr>) (pf(i := PU_SWAP x)) L"
    and "threads_ok (q\<lparr>m_next := (m_next q)(x := None)\<rparr>) (pf(i := PU_SWAP x)) busy L"
proof -
  let ?q = "q\<lparr>m_next := (m_next q)(x := None)\<rparr>" let ?pf = "pf(i := PU_SWAP x)"
  have x: "x \<notin> set L" using th i unfolding threads_ok_def by (metis push_ok.simps(2))
  have owed: "owed ?pf a b = owed pf a b" for a b using i by (auto simp: owed_upd)
  have "linked ?q ?pf a b" if "follows L a b" for a b
  proof -
    have "a \<noteq> x" using follows_in [OF that] x by auto
    then show ?thesis using successively_follows [OF _ that, of "linked q pf"] path by (simp add: path_ok_def linked_def owed)
  qed
  then have "successively (linked ?q ?pf) L" by (rule successively_followsI)
  moreover have "L \<noteq> []" using path by (simp add: path_ok_def)
  then have "last L \<noteq> x" using last_in_set [of L] x by metis
  ultimately show "path_ok ?q ?pf L" using path by (auto simp: path_ok_def)
  have "push_ok ?q L (?pf j)" for j
  proof (cases "j = i")
    case True
    then show ?thesis using x by simp
  next
    case False
    have "push_ok q L (pf j)" using th by (simp add: threads_ok_def)
    then show ?thesis using False x follows_in by (cases "pf j") auto
  qed
  moreover have "phase_item (?pf j) = Some y \<Longrightarrow> phase_item (pf j) = Some y" for j y using i by (simp split: if_splits)
  ultimately show "threads_ok ?q ?pf busy L" using th items_mono [of _ pf busy ?pf] by (simp add: threads_ok_def)
qed

lemma push_swap_keeps:
  assumes path: "path_ok q pf L" and th: "threads_ok q pf busy L" and i: "pf i = PU_SWAP x"
  shows "path_ok (q\<lparr>m_head := x\<rparr>) (pf(i := PU_LINK x (m_head q))) (L @ [x])"
    and "threads_ok (q\<lparr>m_head := x\<rparr>) (pf(i := PU_LINK x (m_head q))) busy (L @ [x])"
proof -
  let ?q = "q\<lparr>m_head := x\<rparr>" let ?pf = "pf(i := PU_LINK x (m_head q))"
  have p: "L \<noteq> []" "last L = m_head q" "distinct L" "m_next q (last L) = None" "successively (linked q pf) L"
    using path unfolding path_ok_def by blast+
  have "push_ok q L (PU_SWAP x)" using th i unfolding threads_ok_def by metis
  then have x: "x \<notin> set L" "m_next q x = None" by simp_all
  have "owed ?pf a b \<longleftrightarrow> owed pf a b \<or> a = m_head q \<and> b = x" for a b
    using i by (auto simp: owed_upd)
  then have link: "linked ?q ?pf a b \<longleftrightarrow> linked q pf a b \<or> m_next q a = None \<and> a = m_head q \<and> b = x" for a b
    by (auto simp: linked_def)
  have "successively (linked ?q ?pf) L" using p(5) by (rule successively_mono) (simp add: link)
  then have "successively (linked ?q ?pf) (L @ [x])" using p(2,4) by (auto simp: successively_append_iff link)
  then show "path_ok ?q ?pf (L @ [x])" using path x by (simp add: path_ok_def)
  have uniq: "phase_item (pf j) \<noteq> Some x" if "j \<noteq> i" for j
    using th i that items_unique [of "m_stub q" pf busy i x j] by (simp add: threads_ok_def)
  have "push_ok ?q (L @ [x]) (?pf j)" for j
  proof (cases "j = i")
    case True
    then show ?thesis using p follows_last [OF p(1), of x] by simp
  next
    case False
    have "push_ok q L (pf j)" using th by (simp add: threads_ok_def)
    then show ?thesis using False uniq [OF False] follows_snoc by (cases "pf j") auto
  qed
  moreover have "phase_item (?pf j) = Some y \<Longrightarrow> phase_item (pf j) = Some y" for j y using i by (simp split: if_splits)
  ultimately show "threads_ok ?q ?pf busy (L @ [x])" using th items_mono [of _ pf busy ?pf] by (simp add: threads_ok_def)
qed

lemma push_link_keeps:
  assumes path: "path_ok q pf L" and th: "threads_ok q pf busy L" and i: "pf i = PU_LINK x p"
  shows "path_ok (q\<lparr>m_next := (m_next q)(p \<mapsto> x)\<rparr>) (pf(i := PU_IDLE)) L"
    and "threads_ok (q\<lparr>m_next := (m_next q)(p \<mapsto> x)\<rparr>) (pf(i := PU_IDLE)) busy L"
proof -
  let ?q = "q\<lparr>m_next := (m_next q)(p \<mapsto> x)\<rparr>" let ?pf = "pf(i := PU_IDLE)"
  have d: "distinct L" and "successively (linked q pf) L" using path by (simp_all add: path_ok_def)
  have "push_ok q L (PU_LINK x p)" using th i unfolding threads_ok_def by metis
  then have f: "follows L p x" "m_next q p = None" by simp_all
  have "linked ?q ?pf a b" if ab: "follows L a b" for a b
  proof (cases "a = p")
    case True
    then have "b = x" using follows_unique [OF d ab] f(1) by simp
    with True show ?thesis by (simp add: linked_def)
  next
    case False
    have "linked q pf a b" by (rule successively_follows) fact+
    moreover have "owed ?pf a b" if o: "owed pf a b"
    proof -
      have "pf i \<noteq> PU_LINK b a" using i False by simp
      then show ?thesis using o by (simp add: owed_upd)
    qed
    ultimately show ?thesis using False by (auto simp: linked_def)
  qed
  then have "successively (linked ?q ?pf) L" by (rule successively_followsI)
  then show "path_ok ?q ?pf L" using path follows_not_last [OF d f(1)] by (auto simp: path_ok_def)
  have uniq: "phase_item (pf j) \<noteq> Some x" if "j \<noteq> i" for j
    using th i that items_unique [of "m_stub q" pf busy i x j] by (simp add: threads_ok_def)
  have "push_ok ?q L (?pf j)" for j
  proof (cases "j = i")
    case False
    have ok: "push_ok q L (pf j)" using th by (simp add: threads_ok_def)
    show ?thesis
    proof (cases "pf j")
      case (PU_SWAP y)
      then show ?thesis using ok False follows_in [OF f(1)] by auto
    next
      case (PU_LINK y r)
      then have "r \<noteq> p" using ok uniq [OF False] follows_unique [OF d f(1)] by auto
      then show ?thesis using ok False PU_LINK by simp
    qed (use ok False in simp_all)
  qed simp
  moreover have "phase_item (?pf j) = Some y \<Longrightarrow> phase_item (pf j) = Some y" for j y by (simp split: if_splits)
  ultimately show "threads_ok ?q ?pf busy L" using th items_mono [of _ pf busy ?pf] by (simp add: threads_ok_def)
qed

definition pushes :: "push_phase \<Rightarrow> addr list" where
  "pushes p = (case p of PU_SWAP x \<Rightarrow> [x] | _ \<Rightarrow> [])"

lemma push_keeps:
  assumes "path_ok q pf L" "threads_ok q pf busy L" "push_step (pf i) q = (p, q')"
  shows "path_ok q' (pf(i := p)) (L @ pushes (pf i))" "threads_ok q' (pf(i := p)) busy (L @ pushes (pf i))"
    and "m_stub q' = m_stub q" "m_tail q' = m_tail q" "p = PU_IDLE \<or> phase_item p = phase_item (pf i)"
proof -
  have idle: "pf(i := PU_IDLE) = pf" if "pf i = PU_IDLE" using that by (simp add: fun_upd_idem)
  show "path_ok q' (pf(i := p)) (L @ pushes (pf i))" "threads_ok q' (pf(i := p)) busy (L @ pushes (pf i))"
    using assms push_next_keeps [OF assms(1,2)] push_swap_keeps [OF assms(1,2)] push_link_keeps [OF assms(1,2)] idle
    by (cases "pf i"; auto simp: pushes_def)+
  show "m_stub q' = m_stub q" "m_tail q' = m_tail q" "p = PU_IDLE \<or> phase_item p = phase_item (pf i)"
    using assms(3) by (cases "pf i"; auto)+
qed

section \<open>A step of pop\<close>

text \<open>The tail moves on when its link is set.\<close>

lemma advance_keeps:
  assumes path: "path_ok q pf L" and th: "threads_ok q pf busy L" and n: "m_next q (m_tail q) = Some n"
  obtains L' where "L = m_tail q # L'" "path_ok (q\<lparr>m_tail := n\<rparr>) pf L'" "threads_ok (q\<lparr>m_tail := n\<rparr>) pf busy L'"
    "\<And>i. phase_item (pf i) \<noteq> Some (m_tail q)" "distinct L"
proof -
  let ?t = "m_tail q" let ?q = "q\<lparr>m_tail := n\<rparr>"
  have p: "L \<noteq> []" "hd L = ?t" "distinct L" "m_next q (last L) = None" "last L = m_head q" "successively (linked q pf) L"
    using path unfolding path_ok_def by blast+
  obtain L' where L: "L = ?t # L'" using p(1,2) by (cases L) auto
  have "L' \<noteq> []"
  proof
    assume "L' = []"
    then have "last L = ?t" by (subst L) simp
    then show False using p(4) n by simp
  qed
  then obtain y L'' where L': "L' = y # L''" by (cases L') auto
  have "linked q pf ?t y" using p(6) unfolding L L' by simp
  then have y: "y = n" using n by (simp add: linked_def)
  have last: "last L' = last L" using \<open>L' \<noteq> []\<close> by (subst L) simp
  have "successively (linked q pf) L'" using p(6) unfolding L L' by simp
  then have s': "successively (linked ?q pf) L'" by (rule successively_mono) (simp add: linked_def)
  have "distinct (?t # L')" using p(3) L by simp
  then have "path_ok ?q pf L'" unfolding path_ok_def last using p(4,5) s' L' y \<open>L' \<noteq> []\<close> by simp
  moreover have "push_ok ?q L' (pf i)" for i
  proof -
    have ok: "push_ok q L (pf i)" using th by (simp add: threads_ok_def)
    show ?thesis
    proof (cases "pf i")
      case (PU_LINK x r)
      then have f: "follows L r x" "m_next q r = None" using ok by simp_all
      then have "r \<noteq> ?t" using n by auto
      then have "follows L' r x" using f(1) follows_tl L by metis
      then show ?thesis using PU_LINK f(2) by simp
    next
      case (PU_NEXT x)
      then have "x \<notin> set (?t # L')" using ok L by simp
      then show ?thesis using PU_NEXT by simp
    next
      case (PU_SWAP x)
      then have "x \<notin> set (?t # L')" "m_next q x = None" using ok L by simp_all
      then show ?thesis using PU_SWAP by simp
    qed simp
  qed
  then have "threads_ok ?q pf busy L'" using th by (simp add: threads_ok_def)
  moreover have "phase_item (pf i) \<noteq> Some ?t" for i
  proof -
    have ok: "push_ok q L (pf i)" using th by (simp add: threads_ok_def)
    have "?t \<in> set L" by (subst L) simp
    moreover have "x \<noteq> ?t" if "pf i = PU_LINK x r" for x r
      using ok that follows_not_hd [of ?t L' r x] p(3) L by simp
    ultimately show ?thesis using ok by (cases "pf i") auto
  qed
  ultimately show thesis using that L p(3) by blast
qed

section \<open>Every step keeps the invariant\<close>

lemma mpsc_invD:
  assumes "mpsc_inv stub s L"
  shows "m_stub (ms_q s) = stub" "path_ok (ms_q s) (ms_push s) L" "threads_ok (ms_q s) (ms_push s) (ms_busy s) L"
    "pop_ok (ms_q s) (ms_push s 0) (ms_pop s)" "set L - {stub} \<subseteq> ms_busy s" "stub \<notin> ms_busy s"
    "ms_pushed s = ms_popped s @ filter (\<lambda>x. x \<noteq> stub) L" "items_ok stub (ms_push s) (ms_busy s)"
  using assms by (auto simp: mpsc_inv_def threads_ok_def)

lemma path_cong: "linked q pf' = linked q pf \<Longrightarrow> path_ok q pf' L = path_ok q pf L"
  by (simp only: path_ok_def)

lemma items_drop:
  assumes "items_ok stub pf busy" "\<And>i. phase_item (pf i) \<noteq> Some t"
  shows "items_ok stub pf (busy - {t})"
  unfolding items_ok_def
proof (intro conjI allI impI)
  show "if i = 0 then x = stub else x \<in> busy - {t} \<and> x \<noteq> stub" if "phase_item (pf i) = Some x" for i x
    using assms(1) [unfolded items_ok_def, THEN conjunct1] assms(2) [of i] that by auto
  show "i = j" if "phase_item (pf i) = Some x" "phase_item (pf j) = Some x" for i j x
    using items_unique [OF assms(1) that(1), of j] that(2) by blast
qed

lemma items_add:
  assumes ok: "items_ok stub pf busy" and new: "\<And>j. phase_item (pf j) \<noteq> Some x"
    and x: "if i = 0 then x = stub else x \<in> busy' \<and> x \<noteq> stub" and "busy \<subseteq> busy'"
  shows "items_ok stub (pf(i := PU_NEXT x)) busy'"
  unfolding items_ok_def
proof (intro conjI allI impI)
  fix j y assume j: "phase_item ((pf(i := PU_NEXT x)) j) = Some y"
  show "if j = 0 then y = stub else y \<in> busy' \<and> y \<noteq> stub"
  proof (cases "j = i")
    case True
    then show ?thesis using j x by (auto split: if_splits)
  next
    case False
    then show ?thesis using j ok [unfolded items_ok_def, THEN conjunct1] \<open>busy \<subseteq> busy'\<close> by (cases "j = 0") auto
  qed
next
  fix j k y assume a: "phase_item ((pf(i := PU_NEXT x)) j) = Some y" "phase_item ((pf(i := PU_NEXT x)) k) = Some y"
  show "j = k"
  proof (cases "j = i \<or> k = i")
    case True
    then show ?thesis using a new [of j] new [of k] by (auto split: if_splits)
  next
    case False
    then show ?thesis using a items_unique [OF ok, of j y k] by auto
  qed
qed

lemma inv_push_start:
  assumes inv: "mpsc_inv stub s L" and i: "i \<noteq> 0" "ms_push s i = PU_IDLE" "x \<noteq> stub" "x \<notin> ms_busy s"
  shows "mpsc_inv stub (s\<lparr>ms_push := (ms_push s)(i := PU_NEXT x), ms_busy := insert x (ms_busy s)\<rparr>) L"
proof -
  let ?pf = "(ms_push s)(i := PU_NEXT x)"
  note d = mpsc_invD [OF inv]
  have "linked (ms_q s) ?pf = linked (ms_q s) (ms_push s)"
    using i(2) by (simp add: fun_eq_iff linked_def owed_upd)
  then have path: "path_ok (ms_q s) ?pf L" using path_cong d(2) by blast
  have x: "x \<notin> set L" using d(5) i(3,4) by blast
  have "push_ok (ms_q s) L (?pf j)" for j using d(3) x by (cases "j = i") (simp_all add: threads_ok_def)
  moreover have "phase_item (ms_push s j) \<noteq> Some x" for j
    using d(8) i(3,4) unfolding items_ok_def by metis
  then have "items_ok stub ?pf (insert x (ms_busy s))"
    using i(1,3) by (intro items_add [OF d(8)]) auto
  ultimately have "threads_ok (ms_q s) ?pf (insert x (ms_busy s)) L" using d(1) by (simp add: threads_ok_def)
  with path d i show ?thesis by (auto simp: mpsc_inv_def)
qed

lemma inv_push_step:
  assumes inv: "mpsc_inv stub s L" and i: "i \<noteq> 0" and st: "push_step (ms_push s i) (ms_q s) = (p, q)"
  shows "mpsc_inv stub (s\<lparr>ms_q := q, ms_push := (ms_push s)(i := p), ms_pushed := ms_pushed s @ logged (ms_push s i) (ms_q s)\<rparr>)
    (L @ pushes (ms_push s i))"
proof -
  note d = mpsc_invD [OF inv]
  note k = push_keeps [OF d(2,3) st]
  have x: "x \<noteq> stub" "x \<in> ms_busy s" if "ms_push s i = PU_SWAP x" for x
    using d(8) i that unfolding items_ok_def by (metis phase_item.simps(3))+
  have "pop_ok q (ms_push s 0) (ms_pop s)" using d(4) k(3,4) by (cases "ms_pop s") simp_all
  moreover have "set (L @ pushes (ms_push s i)) - {stub} \<subseteq> ms_busy s"
    using d(5) x by (auto simp: pushes_def split: push_phase.splits)
  moreover have "filter (\<lambda>x. x \<noteq> stub) (pushes (ms_push s i)) = logged (ms_push s i) (ms_q s)"
    using x(1) d(1) by (simp add: pushes_def logged_def split: push_phase.split)
  ultimately show ?thesis using d k i by (simp add: mpsc_inv_def)
qed

text \<open>The ends of a \<open>pop\<close>: with the oldest item, and without one.\<close>

lemma inv_pop_some:
  assumes inv: "mpsc_inv stub s L" and p: "ms_push s 0 = PU_IDLE" and t: "m_tail (ms_q s) \<noteq> stub" "m_next (ms_q s) (m_tail (ms_q s)) = Some n"
  obtains L' where "mpsc_inv stub (s\<lparr>ms_q := ms_q s\<lparr>m_tail := n\<rparr>, ms_pop := PO_IDLE, ms_popped := ms_popped s @ [m_tail (ms_q s)],
    ms_busy := ms_busy s - {m_tail (ms_q s)}\<rparr>) L'"
proof -
  note d = mpsc_invD [OF inv]
  obtain L' where L': "L = m_tail (ms_q s) # L'" "path_ok (ms_q s\<lparr>m_tail := n\<rparr>) (ms_push s) L'"
    "threads_ok (ms_q s\<lparr>m_tail := n\<rparr>) (ms_push s) (ms_busy s) L'" "\<And>i. phase_item (ms_push s i) \<noteq> Some (m_tail (ms_q s))" "distinct L"
    using advance_keeps [OF d(2,3) t(2)] by blast
  have "distinct (m_tail (ms_q s) # L')" using L'(1,5) by simp
  then have "set L' - {stub} \<subseteq> ms_busy s - {m_tail (ms_q s)}" using d(5) L'(1) by auto
  moreover have "items_ok stub (ms_push s) (ms_busy s - {m_tail (ms_q s)})" by (rule items_drop [OF d(8) L'(4)])
  then have "threads_ok (ms_q s\<lparr>m_tail := n\<rparr>) (ms_push s) (ms_busy s - {m_tail (ms_q s)}) L'"
    using L'(3) d(1) by (simp add: threads_ok_def)
  moreover have "ms_pushed s = ms_popped s @ m_tail (ms_q s) # filter (\<lambda>x. x \<noteq> stub) L'"
  proof -
    have "filter (\<lambda>x. x \<noteq> stub) L = m_tail (ms_q s) # filter (\<lambda>x. x \<noteq> stub) L'" by (subst L'(1)) (simp add: t(1))
    then show ?thesis by (simp only: d(7))
  qed
  ultimately have "mpsc_inv stub (s\<lparr>ms_q := ms_q s\<lparr>m_tail := n\<rparr>, ms_pop := PO_IDLE, ms_popped := ms_popped s @ [m_tail (ms_q s)],
    ms_busy := ms_busy s - {m_tail (ms_q s)}\<rparr>) L'"
    using L'(2) d(1,6) p by (simp add: mpsc_inv_def)
  then show thesis by (rule that)
qed

lemma inv_pop_phase:
  assumes "mpsc_inv stub s L" "pop_ok (ms_q s) (ms_push s 0) c"
  shows "mpsc_inv stub (s\<lparr>ms_pop := c\<rparr>) L"
  using assms by (simp add: mpsc_inv_def)

lemma inv_pop:
  assumes inv: "mpsc_inv stub s L"
  obtains L' where "mpsc_inv stub (fst (mpsc_pop s)) L'"
proof -
  note d = mpsc_invD [OF inv]
  have upd: "s\<lparr>ms_q := ms_q s, ms_push := (ms_push s)(0 := ms_push s 0)\<rparr> = s" by simp
  let ?t = "m_tail (ms_q s)"
  show thesis
  proof (cases "ms_pop s")
    case PO_IDLE
    then have p: "ms_push s 0 = PU_IDLE" using d(4) by simp
    show thesis
    proof (cases "m_next (ms_q s) ?t")
      case None
      then show thesis
        using PO_IDLE p d(1) that inv inv_pop_phase [OF inv, of "PO_HEAD ?t"] inv_pop_phase [OF inv, of PO_IDLE] by (cases "?t = stub") (simp_all add: mpsc_pop_def Let_def fun_upd_idem)
    next
      case (Some n)
      show thesis
      proof (cases "?t = stub")
        case False
        then show thesis using inv_pop_some [OF inv p _ Some] that PO_IDLE Some p d(1) by (auto simp: mpsc_pop_def Let_def fun_upd_idem)
      next
        case True
        obtain L' where L': "L = ?t # L'" "path_ok (ms_q s\<lparr>m_tail := n\<rparr>) (ms_push s) L'"
          "threads_ok (ms_q s\<lparr>m_tail := n\<rparr>) (ms_push s) (ms_busy s) L'" "distinct L"
          using advance_keeps [OF d(2,3) Some] by blast
        have "hd L' = n" "L' \<noteq> []" using L'(2) by (simp_all add: path_ok_def)
        then have "n \<noteq> stub" using L'(1,4) True by (metis distinct.simps(2) hd_in_set)
        moreover have "filter (\<lambda>x. x \<noteq> stub) L = filter (\<lambda>x. x \<noteq> stub) L'" by (subst L'(1)) (simp add: True)
        moreover have "set L' - {stub} \<subseteq> ms_busy s" using d(5) L'(1) by auto
        ultimately have "mpsc_inv stub (s\<lparr>ms_q := ms_q s\<lparr>m_tail := n\<rparr>, ms_pop := PO_SKIP n\<rparr>) L'"
          using L'(2,3) d p by (simp add: mpsc_inv_def)
        then show thesis using that PO_IDLE Some True p d(1) by (simp add: mpsc_pop_def Let_def fun_upd_idem)
      qed
    qed
  next
    case (PO_SKIP t)
    then have p: "ms_push s 0 = PU_IDLE" "t = ?t" "t \<noteq> stub" using d(1,4) by simp_all
    show thesis
    proof (cases "m_next (ms_q s) t")
      case None
      then show thesis using PO_SKIP p d(1) that inv_pop_phase [OF inv, of "PO_HEAD t"] by (simp add: mpsc_pop_def fun_upd_idem)
    next
      case (Some n)
      then show thesis using inv_pop_some [OF inv p(1)] that PO_SKIP p by (auto simp: mpsc_pop_def fun_upd_idem)
    qed
  next
    case (PO_LAST t)
    then have p: "ms_push s 0 = PU_IDLE" "t = ?t" "t \<noteq> stub" using d(1,4) by simp_all
    show thesis
    proof (cases "m_next (ms_q s) t")
      case None
      then show thesis using PO_LAST p d(1) that inv_pop_phase [OF inv, of PO_IDLE] by (simp add: mpsc_pop_def fun_upd_idem)
    next
      case (Some n)
      then show thesis using inv_pop_some [OF inv p(1)] that PO_LAST p by (auto simp: mpsc_pop_def fun_upd_idem)
    qed
  next
    case (PO_HEAD t)
    then have p: "ms_push s 0 = PU_IDLE" "t = ?t" "t \<noteq> stub" using d(1,4) by simp_all
    show thesis
    proof (cases "t = m_head (ms_q s)")
      case False
      then show thesis using PO_HEAD p d(1) that inv_pop_phase [OF inv, of PO_IDLE] by (simp add: mpsc_pop_def fun_upd_idem)
    next
      case True
      have L: "L \<noteq> []" "hd L = last L" "distinct L" using d(2) p(2) True unfolding path_ok_def by auto
      have "L = [t]"
      proof (cases L)
        case (Cons y L')
        then have "L' = []" using L(2,3) by (cases L' rule: rev_cases) auto
        then show ?thesis using Cons d(2) p(2) by (simp add: path_ok_def)
      qed (use L in simp)
      let ?pf = "(ms_push s)(0 := PU_NEXT stub)"
      have "linked (ms_q s) ?pf = linked (ms_q s) (ms_push s)" using p(1) by (simp add: fun_eq_iff linked_def owed_upd)
      then have "path_ok (ms_q s) ?pf L" using path_cong d(2) by blast
      moreover have "push_ok (ms_q s) L (?pf j)" for j
        using d(3) p(3) \<open>L = [t]\<close> by (cases "j = 0") (simp_all add: threads_ok_def)
      moreover have "phase_item (ms_push s j) \<noteq> Some stub" for j
        using d(8) p(1) d(6) unfolding items_ok_def by (metis option.distinct(1) phase_item.simps(1))
      then have "items_ok stub ?pf (ms_busy s)" by (intro items_add [OF d(8)]) auto
      ultimately have "mpsc_inv stub (s\<lparr>ms_push := ?pf, ms_pop := PO_STUB t\<rparr>) L"
        using d p by (simp add: mpsc_inv_def threads_ok_def)
      then show thesis using that PO_HEAD True d(1) by (simp add: mpsc_pop_def)
    qed
  next
    case (PO_STUB t)
    then have p: "phase_item (ms_push s 0) = Some stub" "t = ?t" "t \<noteq> stub" using d(1,4) by simp_all
    obtain p' q' where st: "push_step (ms_push s 0) (ms_q s) = (p', q')" by force
    note k = push_keeps [OF d(2,3) st]
    have "filter (\<lambda>x. x \<noteq> stub) (L @ pushes (ms_push s 0)) = filter (\<lambda>x. x \<noteq> stub) L"
      "set (L @ pushes (ms_push s 0)) - {stub} \<subseteq> ms_busy s"
      using p(1) d(5) by (cases "ms_push s 0"; auto simp: pushes_def)+
    then have "mpsc_inv stub (s\<lparr>ms_q := q', ms_push := (ms_push s)(0 := p'), ms_pop := if p' = PU_IDLE then PO_LAST t else PO_STUB t\<rparr>)
        (L @ pushes (ms_push s 0))"
      using d k p by (auto simp: mpsc_inv_def)
    then show thesis using that PO_STUB st by (simp add: mpsc_pop_def)
  qed
qed

lemma mpsc_start_inv: "mpsc_inv stub (mpsc_start stub) [stub]"
  by (simp add: mpsc_inv_def mpsc_start_def mpsc_list_def path_ok_def threads_ok_def items_ok_def)

lemma mpsc_do_inv:
  assumes "mpsc_inv stub s L" "mpsc_do a s = Some s'"
  obtains L' where "mpsc_inv stub s' L'"
proof (cases a)
  case (PushStart i x)
  then show thesis using assms that inv_push_start [OF assms(1), of i x] mpsc_invD(1) [OF assms(1)] by (auto split: if_splits)
next
  case (PushStep i)
  obtain p q where st: "push_step (ms_push s i) (ms_q s) = (p, q)" by force
  show thesis using PushStep assms that inv_push_step [OF assms(1) _ st] st by (auto split: if_splits)
next
  case PopStep
  then show thesis using assms that inv_pop [OF assms(1)] by auto
qed

lemma mpsc_reach_inv:
  assumes "mpsc_reach stub s"
  obtains L where "mpsc_inv stub s L"
proof -
  from assms have "\<exists>L. mpsc_inv stub s L"
    by induction (use mpsc_start_inv mpsc_do_inv in blast)+
  then show thesis using that by blast
qed

section \<open>Properties\<close>

text \<open>
  C23: the list is a queue without loss and duplication. In every state that any interleaving of pushing
  threads and the popping thread reaches, the items popped so far are a prefix of the items pushed so far (in
  the order of their exchanges), the rest are distinct and still owned by the list, and the stub is not
  among them.
\<close>

theorem mpsc_fifo:
  assumes "mpsc_reach stub s"
  shows "\<exists>rest. ms_pushed s = ms_popped s @ rest \<and> distinct rest \<and> set rest \<subseteq> ms_busy s \<and> stub \<notin> set rest"
proof -
  obtain L where inv: "mpsc_inv stub s L" by (rule mpsc_reach_inv [OF assms])
  note d = mpsc_invD [OF inv]
  have "distinct L" using d(2) by (simp add: path_ok_def)
  then show ?thesis using d(5,7) by (intro exI [of _ "filter (\<lambda>x. x \<noteq> stub) L"]) auto
qed

text \<open>The popping thread runs alone until \<open>pop\<close> returns, for at most so many steps.\<close>

fun pop_run :: "nat \<Rightarrow> mpsc_sys \<Rightarrow> (mpsc_sys \<times> addr option) option" where
  "pop_run 0 s = None"
| "pop_run (Suc n) s = (case mpsc_pop s of (s', r) \<Rightarrow> (case r of None \<Rightarrow> pop_run n s' | Some x \<Rightarrow> Some (s', x)))"

definition mpsc_queue :: "mpsc_sys \<Rightarrow> addr list" where
  "mpsc_queue s = drop (length (ms_popped s)) (ms_pushed s)"

lemma pop_single:
  assumes "path_ok (ms_q s) (ms_push s) [t]" "t \<noteq> m_stub (ms_q s)" "\<forall>i. ms_push s i = PU_IDLE" "ms_pop s = PO_HEAD t"
  shows "\<exists>s'. pop_run (Suc (Suc (Suc (Suc (Suc n))))) s = Some (s', Some t)"
  using assms by (simp add: path_ok_def mpsc_pop_def)

text \<open>
  C24: \<open>pop\<close> ends and is complete. When no push is under way, a \<open>pop\<close> that runs alone returns within eight
  steps, with the oldest item of the queue, and with no item only when the queue is empty: an idle worker
  that has pushed itself is found.
\<close>

theorem mpsc_pop_complete:
  assumes reach: "mpsc_reach stub s" and idle: "\<forall>i. ms_push s i = PU_IDLE" "ms_pop s = PO_IDLE"
  shows "\<exists>s'. pop_run 8 s = Some (s', case mpsc_queue s of [] \<Rightarrow> None | x # xs \<Rightarrow> Some x)"
proof -
  obtain L where inv: "mpsc_inv stub s L" by (rule mpsc_reach_inv [OF reach])
  note d = mpsc_invD [OF inv]
  have p: "L \<noteq> []" "hd L = m_tail (ms_q s)" "distinct L" "last L = m_head (ms_q s)" "m_next (ms_q s) (last L) = None"
    "successively (linked (ms_q s) (ms_push s)) L"
    using d(2) unfolding path_ok_def by blast+
  have link: "linked (ms_q s) (ms_push s) x y \<longleftrightarrow> m_next (ms_q s) x = Some y" for x y
    using idle(1) by (simp add: linked_def owed_def)
  have q: "mpsc_queue s = filter (\<lambda>x. x \<noteq> stub) L" using d(7) by (simp add: mpsc_queue_def)
  obtain t L' where L: "L = t # L'" using p(1) by (cases L) auto
  have tail: "m_tail (ms_q s) = t" using p(2) by (simp add: L)
  have upd: "(ms_push s)(0 := PU_IDLE) = ms_push s" using idle(1) by (simp add: fun_upd_idem)
  show ?thesis
  proof (cases L')
    case Nil
    have n: "m_next (ms_q s) t = None" using p(5) by (simp add: L Nil)
    show ?thesis
    proof (cases "t = stub")
      case True
      then show ?thesis using n q L Nil tail d(1) idle by (simp add: eval_nat_numeral mpsc_pop_def)
    next
      case False
      have "\<exists>s'. pop_run (Suc (Suc (Suc (Suc (Suc 2))))) (s\<lparr>ms_pop := PO_HEAD t\<rparr>) = Some (s', Some t)"
        using d(2) False d(1) idle(1) by (intro pop_single) (simp_all add: L Nil)
      then show ?thesis using n q L Nil tail d(1) idle False by (simp add: eval_nat_numeral mpsc_pop_def [of s] upd)
    qed
  next
    case (Cons y L'')
    have n: "m_next (ms_q s) t = Some y" using p(6) by (simp add: L Cons link)
    show ?thesis
    proof (cases "t = stub")
      case False
      then show ?thesis using n q L Cons tail d(1) idle by (simp add: eval_nat_numeral mpsc_pop_def)
    next
      case True
      then have y: "y \<noteq> stub" using p(3) by (simp add: L Cons)
      let ?s = "s\<lparr>ms_q := ms_q s\<lparr>m_tail := y\<rparr>, ms_pop := PO_SKIP y\<rparr>"
      have s1: "mpsc_pop s = (?s, None)" using n tail d(1) idle True by (simp add: mpsc_pop_def upd)
      show ?thesis
      proof (cases L'')
        case (Cons z L3)
        have "m_next (ms_q s) y = Some z" using p(6) by (simp add: L \<open>L' = y # L''\<close> Cons link)
        then show ?thesis using s1 q L \<open>L' = y # L''\<close> True y idle by (simp add: eval_nat_numeral mpsc_pop_def [of ?s])
      next
        case Nil
        have n2: "m_next (ms_q s) y = None" using p(5) by (simp add: L \<open>L' = y # L''\<close> Nil)
        let ?s2 = "?s\<lparr>ms_pop := PO_HEAD y\<rparr>"
        have s2: "mpsc_pop ?s = (?s2, None)" using n2 idle by (simp add: mpsc_pop_def upd)
        have "m_head (ms_q s) = y" using p(4) by (simp add: L \<open>L' = y # L''\<close> Nil)
        then have "path_ok (ms_q ?s2) (ms_push ?s2) [y]" using n2 by (simp add: path_ok_def)
        then have "\<exists>s'. pop_run (Suc (Suc (Suc (Suc (Suc 1))))) ?s2 = Some (s', Some y)"
          using y d(1) idle(1) by (intro pop_single) simp_all
        then show ?thesis using s1 s2 q L \<open>L' = y # L''\<close> Nil True y by (simp add: eval_nat_numeral)
      qed
    qed
  qed
qed

text \<open>Two workers push themselves, the exchanges before the links of both.\<close>

definition mpsc_ex :: mpsc_sys where
  "mpsc_ex = foldl (\<lambda>s a. the (mpsc_do a s)) (mpsc_start 9)
     [PushStart 1 5, PushStart 2 7, PushStep 1, PushStep 2, PushStep 2, PushStep 1, PushStep 1, PushStep 2]"

lemma mpsc_run_reach: "mpsc_reach stub s \<Longrightarrow> mpsc_do a s = Some s' \<Longrightarrow> mpsc_reach stub (the (mpsc_do a s))"
  using mpsc_reach.step by fastforce

lemma mpsc_ex_reach: "mpsc_reach 9 mpsc_ex" "ms_pushed mpsc_ex = [7, 5]" "ms_popped mpsc_ex = []"
  "ms_pop mpsc_ex = PO_IDLE" "\<forall>i. ms_push mpsc_ex i = PU_IDLE"
proof -
  show "mpsc_reach 9 mpsc_ex" unfolding mpsc_ex_def foldl.simps
    by (intro mpsc_run_reach mpsc_reach.start) (simp_all add: mpsc_start_def mpsc_list_def logged_def)
qed (simp_all add: mpsc_ex_def mpsc_start_def mpsc_list_def logged_def)

theorem mpsc_fifo_witness: "\<exists>rest. ms_pushed mpsc_ex = ms_popped mpsc_ex @ rest \<and> distinct rest \<and> rest = [7, 5]"
  using mpsc_fifo [OF mpsc_ex_reach(1)] mpsc_ex_reach by auto

theorem mpsc_pop_complete_witness: "\<exists>s'. pop_run 8 mpsc_ex = Some (s', Some 7)"
  using mpsc_pop_complete [OF mpsc_ex_reach(1,5,4)] mpsc_ex_reach(2,3) by (simp add: mpsc_queue_def)

end
