(* ===== verification/Wave.thy ===== *)
theory Wave
  imports Reclamation
begin

text \<open>
  The ordered-wave controller (\<^verbatim>\<open>lib/conctrl/concow_fat.hpp\<close>), first half: planning a wave and executing its
  groups. A batch of operations is planned against an immutable root: operations with the same target leaf
  (the same key, where the leaf is missing) form a group, found through an open-addressing hash table, and a
  leaf takes no more operations than its version buffer has room for. Groups are then executed by a pool of
  workers in any interleaving.
\<close>

section \<open>The tree behind the controller\<close>

record fop =
  fop_ticket :: u64
  fop_key :: u64
  fop_value :: u64

text \<open>What the merge of a wave hands to the reclaimer; the exceptions that end a wave.\<close>

record merged =
  mg_root :: addr
  mg_t_past :: addr
  mg_retired :: "addr list"
  mg_rebuilt :: bool

datatype wave_error = LOST_CAPACITY | BAD_MERGE

text \<open>
  The static members of the template argument that the controller uses; \<open>fh_address\<close> is the address that
  the allocator gave a node, as a number.
\<close>

record ('z, 's, 'r) fat_hooks =
  fh_address :: "addr \<Rightarrow> u64"
  fh_target :: "'s \<Rightarrow> addr \<Rightarrow> u64 \<Rightarrow> addr option"
  fh_available :: "'s \<Rightarrow> addr \<Rightarrow> nat \<Rightarrow> nat option"
  fh_append :: "addr \<Rightarrow> nat \<Rightarrow> u64 \<Rightarrow> u64 \<Rightarrow> u64 \<Rightarrow> 's \<Rightarrow> (bool \<times> 's) option"
  fh_prepare :: "addr \<Rightarrow> u64 \<Rightarrow> u64 \<Rightarrow> u64 \<Rightarrow> 's \<Rightarrow> ('r \<times> 's) option"
  fh_merge :: "addr \<Rightarrow> 'r list \<Rightarrow> u32 \<Rightarrow> 's \<Rightarrow> (wave_error + merged \<times> 's) option"
  fh_begin :: "'z ctx_scheme \<Rightarrow> 's \<Rightarrow> (nat \<times> 'z ctx_scheme \<times> 's) option"
  fh_handlers :: "nat \<Rightarrow> 'z ctx_scheme \<Rightarrow> 's \<Rightarrow> (nat \<times> 'z ctx_scheme \<times> 's) option"
  fh_checkpoint :: "'z ctx_scheme \<Rightarrow> 's \<Rightarrow> ('z ctx_scheme \<times> 's) option"
  fh_free :: "addr \<Rightarrow> 's \<Rightarrow> 's option"
  fh_free_checkpoint :: "addr \<Rightarrow> 's \<Rightarrow> 's option"
  fh_node_size :: "'s \<Rightarrow> addr \<Rightarrow> u64"
  fh_stats :: "('s \<Rightarrow> addr \<Rightarrow> u64 \<times> u64) option"

section \<open>Planning\<close>

text \<open>\<open>END\<close> is \<open>None\<close>.\<close>

record wtask =
  tk_op :: fop
  tk_next :: "nat option"

record 'r wgroup =
  gr_leaf :: addr
  gr_first :: nat
  gr_last :: nat
  gr_count :: nat
  gr_materialize :: bool
  gr_replacement :: "'r option"

record bucket =
  bk_leaf :: addr
  bk_group :: nat
  bk_key :: u64
  bk_occupied :: bool

definition empty_bucket :: bucket where
  "empty_bucket = \<lparr>bk_leaf = nullptr, bk_group = 0, bk_key = 0, bk_occupied = False\<rparr>"

definition HASH_MULTIPLIER :: u64 where
  "HASH_MULTIPLIER = 11400714819323198485"

definition wave_hash :: "(addr \<Rightarrow> u64) \<Rightarrow> addr \<Rightarrow> u64 \<Rightarrow> nat \<Rightarrow> nat" where
  "wave_hash address leaf key n =
     unat ((if leaf \<noteq> nullptr then drop_bit 6 (address leaf) else key) * HASH_MULTIPLIER AND (of_nat n - 1))"

definition next_slot :: "nat \<Rightarrow> nat \<Rightarrow> nat" where
  "next_slot h n = unat ((of_nat h + 1 :: u64) AND (of_nat n - 1))"

text \<open>A bucket of another target.\<close>

definition bk_other :: "bucket \<Rightarrow> addr \<Rightarrow> u64 \<Rightarrow> bool" where
  "bk_other b leaf key \<longleftrightarrow> bk_leaf b \<noteq> leaf \<or> (leaf = nullptr \<and> bk_key b \<noteq> key)"

text \<open>The probe loop; a table without a free bucket would make it run forever, here fuel runs out.\<close>

fun probe :: "nat \<Rightarrow> bucket list \<Rightarrow> addr \<Rightarrow> u64 \<Rightarrow> nat \<Rightarrow> nat option" where
  "probe 0 table leaf key h = None"
| "probe (Suc f) table leaf key h =
     (case nth_opt table h of
        None \<Rightarrow> None
      | Some b \<Rightarrow>
          if bk_occupied b \<and> bk_other b leaf key then probe f table leaf key (next_slot h (length table)) else Some h)"

type_synonym 'r plan = "wtask list \<times> 'r wgroup list \<times> bucket list"

text \<open>One turn of the loop of \<open>plan_wave\<close>; \<open>Some None\<close> is the \<^verbatim>\<open>break\<close>.\<close>

definition plan_step ::
    "('z, 's, 'r) fat_hooks \<Rightarrow> nat \<Rightarrow> bool \<Rightarrow> addr \<Rightarrow> 's \<Rightarrow> nat \<Rightarrow> 'r plan \<Rightarrow> 'r plan option option" where
  "plan_step I slots materialize root s pos pl =
     (case pl of (batch, groups, table) \<Rightarrow> do {
        item \<leftarrow> nth_opt batch pos;
        let key = fop_key (tk_op item);
        leaf \<leftarrow> fh_target I s root key;
        available \<leftarrow> fh_available I s leaf slots;
        h \<leftarrow> probe (length table) table leaf key (wave_hash (fh_address I) leaf key (length table));
        entry \<leftarrow> nth_opt table h;
        reserved \<leftarrow> (if bk_occupied entry then map_option gr_count (nth_opt groups (bk_group entry)) else Some 0);
        if reserved \<ge> available + (if materialize then 1 else 0) then Some None
        else
          let batch1 = batch[pos := item\<lparr>tk_next := None\<rparr>] in
          if \<not> bk_occupied entry
          then Some (Some
            (batch1,
             groups @ [\<lparr>gr_leaf = leaf, gr_first = pos, gr_last = pos, gr_count = 1,
                        gr_materialize = (reserved = available), gr_replacement = None\<rparr>],
             table[h := \<lparr>bk_leaf = leaf, bk_group = length groups, bk_key = key, bk_occupied = True\<rparr>]))
          else do {
            g \<leftarrow> nth_opt groups (bk_group entry);
            prev \<leftarrow> nth_opt batch1 (gr_last g);
            Some (Some
              (batch1[gr_last g := prev\<lparr>tk_next := Some pos\<rparr>],
               groups[bk_group entry := g\<lparr>gr_last := pos, gr_count := gr_count g + 1,
                                          gr_materialize := (reserved = available)\<rparr>],
               table)) } })"

fun plan_loop ::
    "('z, 's, 'r) fat_hooks \<Rightarrow> nat \<Rightarrow> bool \<Rightarrow> addr \<Rightarrow> 's \<Rightarrow> nat \<Rightarrow> nat \<Rightarrow> 'r plan \<Rightarrow> (nat \<times> 'r plan) option" where
  "plan_loop I slots materialize root s 0 pos pl = Some (pos, pl)"
| "plan_loop I slots materialize root s (Suc n) pos pl =
     (case plan_step I slots materialize root s pos pl of
        None \<Rightarrow> None
      | Some None \<Rightarrow> Some (pos, pl)
      | Some (Some pl') \<Rightarrow> plan_loop I slots materialize root s n (Suc pos) pl')"

text \<open>The table is cleared, then the batch planned from \<open>first\<close> on.\<close>

definition plan_wave ::
    "('z, 's, 'r) fat_hooks \<Rightarrow> nat \<Rightarrow> bool \<Rightarrow> addr \<Rightarrow> 's \<Rightarrow> nat \<Rightarrow> nat \<Rightarrow> wtask list
      \<Rightarrow> (nat \<times> 'r plan) option" where
  "plan_wave I slots materialize root s table_size first batch =
     plan_loop I slots materialize root s (length batch - first) first
       (batch, [], replicate table_size empty_bucket)"

section \<open>Executing groups\<close>

text \<open>One turn of the loop of \<open>execute_group\<close>, for the operation at \<open>pos\<close> of group \<open>i\<close>.\<close>

definition group_step ::
    "('z, 's, 'r) fat_hooks \<Rightarrow> nat \<Rightarrow> wtask list \<Rightarrow> nat \<Rightarrow> nat \<Rightarrow> 'r wgroup list \<times> 's
      \<Rightarrow> (wave_error + nat option \<times> 'r wgroup list \<times> 's) option" where
  "group_step I slots batch i pos gs =
     (case gs of (groups, s) \<Rightarrow> do {
        item \<leftarrow> nth_opt batch pos;
        g \<leftarrow> nth_opt groups i;
        let op = tk_op item;
        if gr_materialize g \<and> pos = gr_last g then do {
          (r, s1) \<leftarrow> fh_prepare I (gr_leaf g) (fop_ticket op) (fop_key op) (fop_value op) s;
          Some (Inr (tk_next item, groups[i := g\<lparr>gr_replacement := Some r\<rparr>], s1)) }
        else do {
          (ok, s1) \<leftarrow> fh_append I (gr_leaf g) slots (fop_ticket op) (fop_key op) (fop_value op) s;
          Some (if ok then Inr (tk_next item, groups, s1) else Inl LOST_CAPACITY) } })"

fun execute_group ::
    "nat \<Rightarrow> ('z, 's, 'r) fat_hooks \<Rightarrow> nat \<Rightarrow> wtask list \<Rightarrow> nat \<Rightarrow> nat option \<Rightarrow> 'r wgroup list \<times> 's
      \<Rightarrow> (wave_error + 'r wgroup list \<times> 's) option" where
  "execute_group f I slots batch i None gs = Some (Inr gs)"
| "execute_group 0 I slots batch i (Some pos) gs = None"
| "execute_group (Suc f) I slots batch i (Some pos) gs =
     (case group_step I slots batch i pos gs of
        None \<Rightarrow> None
      | Some (Inl e) \<Rightarrow> Some (Inl e)
      | Some (Inr (nxt, gs')) \<Rightarrow> execute_group f I slots batch i nxt gs')"

text \<open>A small wave is executed by the coordinator, group by group.\<close>

fun execute_inline ::
    "('z, 's, 'r) fat_hooks \<Rightarrow> nat \<Rightarrow> wtask list \<Rightarrow> nat list \<Rightarrow> 'r wgroup list \<times> 's
      \<Rightarrow> (wave_error + 'r wgroup list \<times> 's) option" where
  "execute_inline I slots batch [] gs = Some (Inr gs)"
| "execute_inline I slots batch (i # is) gs =
     (case nth_opt (fst gs) i of
        None \<Rightarrow> None
      | Some g \<Rightarrow>
          (case execute_group (Suc (length batch)) I slots batch i (Some (gr_first g)) gs of
             None \<Rightarrow> None
           | Some (Inl e) \<Rightarrow> Some (Inl e)
           | Some (Inr gs') \<Rightarrow> execute_inline I slots batch is gs'))"

section \<open>The worker pool\<close>

text \<open>
  A worker waits for the next generation, then claims groups from the shared counter until none is left; an
  exception of a group ends its work on this wave and is kept for the coordinator.
\<close>

datatype wk_phase = WK_WAIT | WK_CLAIM | WK_GROUP nat "nat option" | WK_LEAVE

record ('s, 'r) pool =
  pl_store :: 's
  pl_groups :: "'r wgroup list"
  pl_generation :: nat
  pl_remaining :: nat
  pl_next :: nat
  pl_seen :: "nat \<Rightarrow> nat"
  pl_phase :: "nat \<Rightarrow> wk_phase"
  pl_failure :: "wave_error option"

datatype wk_act = Wake nat | Claim nat | Exec nat | Leave nat

fun pool_do ::
    "('z, 's, 'r) fat_hooks \<Rightarrow> nat \<Rightarrow> nat \<Rightarrow> wtask list \<Rightarrow> wk_act \<Rightarrow> ('s, 'r) pool \<Rightarrow> ('s, 'r) pool option" where
  "pool_do I slots workers batch (Wake w) p =
     (if w < workers \<and> pl_phase p w = WK_WAIT \<and> pl_generation p \<noteq> pl_seen p w
      then Some (p\<lparr>pl_seen := (pl_seen p)(w := pl_generation p), pl_phase := (pl_phase p)(w := WK_CLAIM)\<rparr>)
      else None)"
| "pool_do I slots workers batch (Claim w) p =
     (if w < workers \<and> pl_phase p w = WK_CLAIM
      then Some (p\<lparr>pl_next := pl_next p + 1,
                   pl_phase := (pl_phase p)(w :=
                     (if pl_next p < length (pl_groups p)
                      then WK_GROUP (pl_next p) (Some (gr_first (pl_groups p ! pl_next p))) else WK_LEAVE))\<rparr>)
      else None)"
| "pool_do I slots workers batch (Exec w) p =
     (case pl_phase p w of
        WK_GROUP i None \<Rightarrow> if w < workers then Some (p\<lparr>pl_phase := (pl_phase p)(w := WK_CLAIM)\<rparr>) else None
      | WK_GROUP i (Some pos) \<Rightarrow>
          if w < workers
          then (case group_step I slots batch i pos (pl_groups p, pl_store p) of
                  None \<Rightarrow> None
                | Some (Inl e) \<Rightarrow>
                    Some (p\<lparr>pl_phase := (pl_phase p)(w := WK_LEAVE),
                            pl_failure := (case pl_failure p of None \<Rightarrow> Some e | Some e' \<Rightarrow> Some e')\<rparr>)
                | Some (Inr (nxt, gs, s)) \<Rightarrow>
                    Some (p\<lparr>pl_phase := (pl_phase p)(w := WK_GROUP i nxt), pl_groups := gs, pl_store := s\<rparr>))
          else None
      | _ \<Rightarrow> None)"
| "pool_do I slots workers batch (Leave w) p =
     (if w < workers \<and> pl_phase p w = WK_LEAVE
      then Some (p\<lparr>pl_remaining := pl_remaining p - 1, pl_phase := (pl_phase p)(w := WK_WAIT)\<rparr>) else None)"

text \<open>What the coordinator does before it waits for the pool.\<close>

definition start_wave :: "nat \<Rightarrow> 'r wgroup list \<Rightarrow> 's \<Rightarrow> ('s, 'r) pool \<Rightarrow> ('s, 'r) pool" where
  "start_wave workers groups s p =
     p\<lparr>pl_store := s, pl_groups := groups, pl_next := 0, pl_remaining := workers, pl_generation := pl_generation p + 1\<rparr>"

inductive pool_reach ::
    "('z, 's, 'r) fat_hooks \<Rightarrow> nat \<Rightarrow> nat \<Rightarrow> wtask list \<Rightarrow> ('s, 'r) pool \<Rightarrow> ('s, 'r) pool \<Rightarrow> bool"
  for I slots workers batch p0 where
  start: "pool_reach I slots workers batch p0 p0"
| step: "pool_reach I slots workers batch p0 p \<Longrightarrow> pool_do I slots workers batch a p = Some p' \<Longrightarrow>
    pool_reach I slots workers batch p0 p'"

text \<open>A schedule of the pool.\<close>

fun pool_run :: "('z, 's, 'r) fat_hooks \<Rightarrow> nat \<Rightarrow> nat \<Rightarrow> wtask list \<Rightarrow> wk_act list \<Rightarrow> ('s, 'r) pool \<Rightarrow> ('s, 'r) pool option" where
  "pool_run I slots workers batch [] p = Some p"
| "pool_run I slots workers batch (a # as) p =
     (case pool_do I slots workers batch a p of None \<Rightarrow> None | Some p' \<Rightarrow> pool_run I slots workers batch as p')"

lemma pool_run_reach:
  "pool_reach I slots workers batch p0 p \<Longrightarrow> pool_run I slots workers batch as p = Some p' \<Longrightarrow>
    pool_reach I slots workers batch p0 p'"
  by (induction as arbitrary: p) (auto split: option.splits intro: pool_reach.step)

end
