(* ===== verification/Wave_Control.thy ===== *)
theory Wave_Control
  imports Wave Reclaim_Protocol
begin

text \<open>
  The ordered-wave controller (\<^verbatim>\<open>lib/conctrl/concow_fat.hpp\<close>), second half: options and construction,
  submission by clients, the coordinator that turns the queue into waves and path copies, publication,
  commit and reclamation. The system interleaves atomic actions as in \<open>Seqcow\<close>: an access under
  \<^verbatim>\<open>input_mutex_\<close> is one action, each access of the reclamation protocol is one, and executing a wave or a
  path copy is one (neither changes what a reader of an older version sees). The worker pool inside a wave
  runs by an explicit schedule of its own atomic actions.
\<close>

section \<open>Options and errors\<close>

record wave_options =
  wo_workers :: nat
  wo_readers :: nat
  wo_slots :: nat
  wo_gc :: bool
  wo_queue_capacity :: nat
  wo_batch_size :: nat
  wo_parallel_min_groups :: nat
  wo_parallel_materialization :: bool

definition default_options :: wave_options where
  "default_options =
     \<lparr>wo_workers = 2, wo_readers = 1, wo_slots = 2, wo_gc = True, wo_queue_capacity = 4096, wo_batch_size = 256,
      wo_parallel_min_groups = 16, wo_parallel_materialization = False\<rparr>"

datatype control_error =
    INVALID_OPTIONS | NULL_ROOT | CONTROLLER_STOPPING | VERSION_EXHAUSTED | READER_RANGE | WAVE_FAILURE wave_error

definition validate :: "wave_options \<Rightarrow> control_error + wave_options" where
  "validate opts =
     (if wo_workers opts = 0 \<or> wo_readers opts = 0 \<or> wo_queue_capacity opts = 0 \<or> wo_batch_size opts = 0 \<or>
         wo_parallel_min_groups opts = 0 \<or> wo_batch_size opts > wo_queue_capacity opts \<or> wo_batch_size opts > 2 ^ 20 \<or>
         (wo_slots opts \<noteq> 0 \<and> wo_slots opts \<noteq> 2 \<and> wo_slots opts \<noteq> 4 \<and> wo_slots opts \<noteq> 8)
      then Inl INVALID_OPTIONS else Inr opts)"

text \<open>\<^verbatim>\<open>std::bit_ceil\<close>: the least power of two that is not smaller.\<close>

fun bit_ceil :: "nat \<Rightarrow> nat" where
  "bit_ceil n = (if n \<le> 1 then 1 else 2 * bit_ceil ((n + 1) div 2))"

declare bit_ceil.simps [simp del]

section \<open>The state\<close>

record wave_stats =
  ws_appended :: u64
  ws_cows :: u64
  ws_waves :: u64
  ws_max_groups :: u64
  ws_parallel_waves :: u64
  ws_parallel_updates :: u64
  ws_materialization_waves :: u64
  ws_parallel_materializations :: u64

definition zero_stats :: wave_stats where
  "zero_stats =
     \<lparr>ws_appended = 0, ws_cows = 0, ws_waves = 0, ws_max_groups = 0, ws_parallel_waves = 0, ws_parallel_updates = 0,
      ws_materialization_waves = 0, ws_parallel_materializations = 0\<rparr>"

text \<open>
  The control points of \<open>coordinator_main\<close>: waiting for input, at the head of the loop over the batch, at a
  path copy, at a planned wave that ends before a position, behind it (with the flag \<^verbatim>\<open>parallel\<close>), inside
  \<open>publish\<close> for a ticket (with the position to go on from), before the commit, in the reclamation.
\<close>

datatype coord_phase =
    CO_WAIT | CO_BATCH | CO_COW | CO_RUN nat | CO_MERGE bool nat
  | CO_PUBLISH u64 nat | CO_COMMIT u64 nat | CO_RECLAIM u64 nat | CO_STOPPED

text \<open>\<open>cf_log\<close> is a ghost: the accepted updates.\<close>

record ('s, 'r) concow_fat =
  cf_opts :: wave_options
  cf_gc :: gc_sys
  cf_root :: addr
  cf_queue :: "fop list"
  cf_batch :: "wtask list"
  cf_groups :: "'r wgroup list"
  cf_table :: "bucket list"
  cf_submitted :: u64
  cf_stopping :: bool
  cf_failure :: "wave_error option"
  cf_committed :: u64
  cf_store :: 's
  cf_pool :: "('s, 'r) pool"
  cf_next :: u64
  cf_first :: nat
  cf_phase :: coord_phase
  cf_stats :: wave_stats
  cf_log :: "(u64 \<times> u64) list"

definition zero_op :: fop where
  "zero_op = \<lparr>fop_ticket = 0, fop_key = 0, fop_value = 0\<rparr>"

text \<open>The constructor; \<open>allow_empty\<close> is \<^verbatim>\<open>T::allow_empty_root\<close>.\<close>

definition concow_fat :: "bool \<Rightarrow> addr \<Rightarrow> 's \<Rightarrow> wave_options \<Rightarrow> control_error + ('s, 'r) concow_fat" where
  "concow_fat allow_empty root s opts =
     (case validate opts of
        Inl e \<Rightarrow> Inl e
      | Inr opts \<Rightarrow>
          if root = nullptr \<and> \<not> allow_empty then Inl NULL_ROOT
          else Inr
            \<lparr>cf_opts = opts, cf_gc = gc_start root (wo_readers opts) (wo_gc opts), cf_root = root,
             cf_queue = replicate (wo_queue_capacity opts) zero_op, cf_batch = [], cf_groups = [],
             cf_table = replicate (bit_ceil (2 * wo_batch_size opts)) empty_bucket,
             cf_submitted = 0, cf_stopping = False, cf_failure = None, cf_committed = 0, cf_store = s,
             cf_pool = \<lparr>pl_store = s, pl_groups = [], pl_generation = 0, pl_remaining = 0, pl_next = 0,
                        pl_seen = (\<lambda>_. 0), pl_phase = (\<lambda>_. WK_WAIT), pl_failure = None\<rparr>,
             cf_next = 1, cf_first = 0, cf_phase = CO_WAIT, cf_stats = zero_stats, cf_log = []\<rparr>)"

section \<open>Clients\<close>

text \<open>
  \<open>None\<close>: the condition variable waits. The bound on tickets keeps them below \<^verbatim>\<open>UINT32_MAX\<close>, as the nodes
  hold versions of 32 bits.
\<close>

definition update_blocks :: "('s, 'r) concow_fat \<Rightarrow> bool" where
  "update_blocks w \<longleftrightarrow>
     \<not> (cf_failure w \<noteq> None \<or> cf_stopping w \<or> cf_submitted w - cf_committed w < of_nat (length (cf_queue w)))"

definition cf_update :: "u64 \<Rightarrow> u64 \<Rightarrow> ('s, 'r) concow_fat \<Rightarrow> (control_error + u64 \<times> ('s, 'r) concow_fat) option" where
  "cf_update key val w =
     (if update_blocks w then None
      else case cf_failure w of
        Some e \<Rightarrow> Some (Inl (WAVE_FAILURE e))
      | None \<Rightarrow>
          if cf_stopping w then Some (Inl CONTROLLER_STOPPING)
          else if cf_submitted w = 4294967295 then Some (Inl VERSION_EXHAUSTED)
          else
            let ticket = cf_submitted w + 1;
                op = \<lparr>fop_ticket = ticket, fop_key = key, fop_value = val\<rparr>
            in Some (Inr (ticket, w\<lparr>cf_submitted := ticket,
                 cf_queue := (cf_queue w)[unat ticket mod length (cf_queue w) := op],
                 cf_log := cf_log w @ [(key, val)]\<rparr>)))"

definition cf_wait_for_processing :: "u64 \<Rightarrow> ('s, 'r) concow_fat \<Rightarrow> (control_error + unit) option" where
  "cf_wait_for_processing ticket w =
     (if cf_failure w = None \<and> cf_committed w < ticket then None
      else case cf_failure w of Some e \<Rightarrow> Some (Inl (WAVE_FAILURE e)) | None \<Rightarrow> Some (Inr ()))"

definition cf_do_gc :: "gc_act \<Rightarrow> ('s, 'r) concow_fat \<Rightarrow> ('s, 'r) concow_fat option" where
  "cf_do_gc a w = map_option (\<lambda>g. w\<lparr>cf_gc := g\<rparr>) (gc_do a (cf_gc w))"

text \<open>The next step of the pin of a query; a reader out of range throws.\<close>

definition cf_query :: "nat \<Rightarrow> ('s, 'r) concow_fat \<Rightarrow> (control_error + ('s, 'r) concow_fat) option" where
  "cf_query cid w =
     (if cid \<ge> wo_readers (cf_opts w) then Some (Inl READER_RANGE)
      else map_option Inr (cf_do_gc (Reader cid) w))"

section \<open>The coordinator\<close>

definition coord_fail :: "wave_error \<Rightarrow> ('s, 'r) concow_fat \<Rightarrow> ('s, 'r) concow_fat" where
  "coord_fail e w = w\<lparr>cf_failure := Some e, cf_stopping := True, cf_phase := CO_STOPPED\<rparr>"

definition coord_take :: "('s, 'r) concow_fat \<Rightarrow> ('s, 'r) concow_fat option" where
  "coord_take w =
     (if \<not> (cf_stopping w \<or> cf_next w \<le> cf_submitted w) then None
      else if cf_submitted w < cf_next w then Some (w\<lparr>cf_phase := CO_STOPPED\<rparr>)
      else
        let planned = unat (min (of_nat (wo_batch_size (cf_opts w))) (cf_submitted w - cf_next w + 1)) in do {
          ops \<leftarrow> those (map (\<lambda>i. nth_opt (cf_queue w) (unat (cf_next w + of_nat i) mod length (cf_queue w))) [0..<planned]);
          Some (w\<lparr>cf_batch := map (\<lambda>op. \<lparr>tk_op = op, tk_next = None\<rparr>) ops, cf_first := 0, cf_phase := CO_BATCH\<rparr>) })"

text \<open>The head of the loop over the batch, with the planning of the next wave.\<close>

definition coord_plan :: "('z, 's, 'r) fat_hooks \<Rightarrow> ('s, 'r) concow_fat \<Rightarrow> ('s, 'r) concow_fat option" where
  "coord_plan I w =
     (if cf_first w < length (cf_batch w)
      then if wo_slots (cf_opts w) \<noteq> 0 \<or> wo_parallel_materialization (cf_opts w)
           then do {
             (pos, batch, groups, table) \<leftarrow>
               plan_wave I (wo_slots (cf_opts w)) (wo_parallel_materialization (cf_opts w)) (cf_root w) (cf_store w)
                 (length (cf_table w)) (cf_first w) (cf_batch w);
             Some (w\<lparr>cf_batch := batch, cf_groups := groups, cf_table := table,
                     cf_phase := (if pos = cf_first w then CO_COW else CO_RUN pos)\<rparr>) }
           else Some (w\<lparr>cf_phase := CO_COW\<rparr>)
      else if cf_batch w = [] then None
      else Some (w\<lparr>cf_next := fop_ticket (tk_op (last (cf_batch w))) + 1, cf_phase := CO_WAIT\<rparr>))"

text \<open>\<open>cow_update\<close>; \<open>zero\<close> is a value-initialised context.\<close>

definition cow_ctx :: "'z ctx_scheme \<Rightarrow> wave_options \<Rightarrow> addr \<Rightarrow> fop \<Rightarrow> 'z ctx_scheme" where
  "cow_ctx zero opts root op =
     zero\<lparr>c_sno := ucast (fop_ticket op), c_key := fop_key op, c_val := fop_value op, c_t_past := root,
          c_fat_slots := wo_slots opts, c_gc_enabled := wo_gc opts\<rparr>"

definition coord_cow :: "('z, 's, 'r) fat_hooks \<Rightarrow> 'z ctx_scheme \<Rightarrow> ('s, 'r) concow_fat \<Rightarrow> ('s, 'r) concow_fat option" where
  "coord_cow I zero w = do {
     item \<leftarrow> nth_opt (cf_batch w) (cf_first w);
     let op = tk_op item;
     (o1, c1, s1) \<leftarrow> fh_begin I (cow_ctx zero (cf_opts w) (cf_root w) op) (cf_store w);
     (c2, s2) \<leftarrow> run_handlers (fh_handlers I) o1 c1 s1;
     (c3, s3) \<leftarrow> (if c_new_checkpoint c2
       then map_option (\<lambda>(c, s). (c\<lparr>c_checkpoint_rebuilt := True\<rparr>, s)) (fh_checkpoint I (c2\<lparr>c_t_past := c_root c2\<rparr>) s2)
       else Some (c2, s2));
     let (c4, g) = retire (fh_node_size I s3) (map_option (\<lambda>f. f s3) (fh_stats I)) (fop_ticket op) c3 (gs_gc (cf_gc w));
     Some (w\<lparr>cf_root := c_root c3, cf_store := s3, cf_gc := (cf_gc w)\<lparr>gs_gc := g\<rparr>,
             cf_stats := (cf_stats w)\<lparr>ws_cows := ws_cows (cf_stats w) + 1\<rparr>,
             cf_phase := CO_PUBLISH (fop_ticket op) (cf_first w + 1)\<rparr>) }"

text \<open>\<open>run_wave\<close>: a small wave inline, otherwise by the pool, which the schedule brings to its end.\<close>

definition runs_inline :: "wave_options \<Rightarrow> 'r wgroup list \<Rightarrow> bool" where
  "runs_inline opts groups \<longleftrightarrow>
     length groups = 1 \<or> wo_workers opts = 1 \<or> length groups < wo_parallel_min_groups opts"

definition coord_run ::
    "('z, 's, 'r) fat_hooks \<Rightarrow> wk_act list \<Rightarrow> nat \<Rightarrow> ('s, 'r) concow_fat \<Rightarrow> ('s, 'r) concow_fat option" where
  "coord_run I acts pos w =
     (let opts = cf_opts w in
      if runs_inline opts (cf_groups w)
      then (case execute_inline I (wo_slots opts) (cf_batch w) [0..<length (cf_groups w)] (cf_groups w, cf_store w) of
              None \<Rightarrow> None
            | Some (Inl e) \<Rightarrow> Some (coord_fail e w)
            | Some (Inr (groups, s)) \<Rightarrow> Some (w\<lparr>cf_groups := groups, cf_store := s, cf_phase := CO_MERGE False pos\<rparr>))
      else (case pool_run I (wo_slots opts) (wo_workers opts) (cf_batch w) acts
                   (start_wave (wo_workers opts) (cf_groups w) (cf_store w) (cf_pool w)) of
              None \<Rightarrow> None
            | Some p \<Rightarrow>
                if pl_remaining p \<noteq> 0 then None
                else (case pl_failure p of
                        Some e \<Rightarrow> Some (coord_fail e w)
                      | None \<Rightarrow> Some (w\<lparr>cf_groups := pl_groups p, cf_store := pl_store p, cf_pool := p,
                                       cf_phase := CO_MERGE True pos\<rparr>))))"

text \<open>\<open>gc_.retire\<close> for a merge: its nodes become one batch, with the checkpoint it replaced.\<close>

definition retire_merged ::
    "(addr \<Rightarrow> u64) \<Rightarrow> (addr \<Rightarrow> u64 \<times> u64) option \<Rightarrow> u64 \<Rightarrow> merged \<Rightarrow> gc \<Rightarrow> gc" where
  "retire_merged node_size stats version m g =
     (if \<not> g_enabled g then g
      else
        let b = \<lparr>rb_version = version, rb_bytes = sum_list (map node_size (mg_retired m)),
                 rb_count = of_nat (length (mg_retired m)), rb_nodes = mg_retired m, rb_checkpoint = nullptr\<rparr>;
            b' = (case stats of
                    Some f \<Rightarrow>
                      if mg_rebuilt m
                      then let (k, by) = f (mg_t_past m)
                           in b\<lparr>rb_checkpoint := mg_t_past m, rb_count := rb_count b + k, rb_bytes := rb_bytes b + by\<rparr>
                      else b
                  | None \<Rightarrow> b)
        in if rb_count b' = 0 then g else push_batch b' g)"

definition wave_stats_after :: "bool \<Rightarrow> nat \<Rightarrow> nat \<Rightarrow> nat \<Rightarrow> wave_stats \<Rightarrow> wave_stats" where
  "wave_stats_after parallel planned materialized groups st =
     (let st1 = (if materialized = 0 then st
                 else st\<lparr>ws_materialization_waves := ws_materialization_waves st + 1,
                         ws_cows := ws_cows st + of_nat materialized,
                         ws_parallel_materializations :=
                           ws_parallel_materializations st + (if parallel then of_nat materialized else 0)\<rparr>);
          st2 = (if parallel
                 then st1\<lparr>ws_parallel_waves := ws_parallel_waves st1 + 1,
                          ws_parallel_updates := ws_parallel_updates st1 + of_nat planned\<rparr> else st1)
      in st2\<lparr>ws_appended := ws_appended st2 + of_nat (planned - materialized), ws_waves := ws_waves st2 + 1,
             ws_max_groups := max (ws_max_groups st2) (of_nat groups)\<rparr>)"

definition coord_merge ::
    "('z, 's, 'r) fat_hooks \<Rightarrow> bool \<Rightarrow> nat \<Rightarrow> ('s, 'r) concow_fat \<Rightarrow> ('s, 'r) concow_fat option" where
  "coord_merge I parallel pos w = do {
     reps \<leftarrow> those (map gr_replacement (filter gr_materialize (cf_groups w)));
     item \<leftarrow> nth_opt (cf_batch w) (pos - 1);
     let ticket = fop_ticket (tk_op item);
     let st = wave_stats_after parallel (pos - cf_first w) (length reps) (length (cf_groups w)) (cf_stats w);
     if reps = [] then Some (w\<lparr>cf_stats := st, cf_phase := CO_PUBLISH ticket pos\<rparr>)
     else (case fh_merge I (cf_root w) reps (ucast ticket) (cf_store w) of
             None \<Rightarrow> None
           | Some (Inl e) \<Rightarrow> Some (coord_fail e w)
           | Some (Inr (m, s)) \<Rightarrow>
               let g = retire_merged (fh_node_size I s) (map_option (\<lambda>f. f s) (fh_stats I)) ticket m (gs_gc (cf_gc w))
               in Some (w\<lparr>cf_root := mg_root m, cf_store := s, cf_gc := (cf_gc w)\<lparr>gs_gc := g\<rparr>, cf_stats := st,
                          cf_phase := CO_PUBLISH ticket pos\<rparr>)) }"

definition coord_publish :: "u64 \<Rightarrow> nat \<Rightarrow> ('s, 'r) concow_fat \<Rightarrow> ('s, 'r) concow_fat option" where
  "coord_publish ticket n w =
     (case gs_pub (cf_gc w) of
        PUB_IDLE \<Rightarrow> cf_do_gc (PubBegin (cf_root w) ticket) w
      | PUB_ROOT r v \<Rightarrow> cf_do_gc PubRoot w
      | PUB_VERSION r v \<Rightarrow> cf_do_gc PubVersion w
      | PUB_END \<Rightarrow> map_option (\<lambda>w. w\<lparr>cf_phase := CO_COMMIT ticket n\<rparr>) (cf_do_gc PubEnd w))"

text \<open>
  The freeing part of \<open>try_reclaim\<close> of thread \<open>t\<close>; thread 0 is the coordinator, which then goes on with its
  batch.
\<close>

definition cf_reclaim_free :: "('z, 's, 'r) fat_hooks \<Rightarrow> nat \<Rightarrow> ('s, 'r) concow_fat \<Rightarrow> ('s, 'r) concow_fat option" where
  "cf_reclaim_free I t w =
     (case gs_rc (cf_gc w) t of
        RC_IDLE \<Rightarrow> None
      | RC_SCAN i m v \<Rightarrow> do {
          G \<leftarrow> gc_do (RcFree t) (cf_gc w);
          (g, s) \<leftarrow> try_reclaim_safe (fh_free I) (fh_free_checkpoint I) (min m v) (gs_gc (cf_gc w)) (cf_store w);
          let w' = w\<lparr>cf_gc := G\<lparr>gs_gc := g\<rparr>, cf_store := s\<rparr>;
          Some (case cf_phase w of
                  CO_RECLAIM ticket n \<Rightarrow> if t = 0 then w'\<lparr>cf_first := n, cf_phase := CO_BATCH\<rparr> else w'
                | _ \<Rightarrow> w') })"

definition coord_step ::
    "('z, 's, 'r) fat_hooks \<Rightarrow> 'z ctx_scheme \<Rightarrow> wk_act list \<Rightarrow> ('s, 'r) concow_fat \<Rightarrow> ('s, 'r) concow_fat option" where
  "coord_step I zero acts w =
     (case cf_phase w of
        CO_WAIT \<Rightarrow> coord_take w
      | CO_BATCH \<Rightarrow> coord_plan I w
      | CO_COW \<Rightarrow> coord_cow I zero w
      | CO_RUN pos \<Rightarrow> coord_run I acts pos w
      | CO_MERGE parallel pos \<Rightarrow> coord_merge I parallel pos w
      | CO_PUBLISH ticket n \<Rightarrow> coord_publish ticket n w
      | CO_COMMIT ticket n \<Rightarrow> Some (w\<lparr>cf_committed := ticket, cf_phase := CO_RECLAIM ticket n\<rparr>)
      | CO_RECLAIM ticket n \<Rightarrow>
          if g_enabled (gs_gc (cf_gc w)) then None else Some (w\<lparr>cf_first := n, cf_phase := CO_BATCH\<rparr>)
      | CO_STOPPED \<Rightarrow> None)"

section \<open>The system\<close>

datatype cf_act =
    CfUpdate u64 u64
  | CfCoord "wk_act list"
  | CfReclaimStart nat
  | CfReclaimScan nat
  | CfReclaimFree nat
  | CfPin nat
  | CfUnpin nat
  | CfDestroy

text \<open>
  A call that throws leaves the state. \<open>collect_garbage\<close> and the last reclamation of the destructor are
  reclamations of other threads than the coordinator. \<open>CfDestroy\<close> is the store of \<^verbatim>\<open>stopping_\<close>; the
  coordinator drains the queue before it stops.
\<close>

fun cf_do ::
    "('z, 's, 'r) fat_hooks \<Rightarrow> 'z ctx_scheme \<Rightarrow> cf_act \<Rightarrow> ('s, 'r) concow_fat \<Rightarrow> ('s, 'r) concow_fat option" where
  "cf_do I zero (CfUpdate key val) w =
     map_option (\<lambda>r. case r of Inl e \<Rightarrow> w | Inr (ticket, w') \<Rightarrow> w') (cf_update key val w)"
| "cf_do I zero (CfCoord acts) w = coord_step I zero acts w"
| "cf_do I zero (CfReclaimStart t) w =
     (if g_enabled (gs_gc (cf_gc w))
      then if t = 0
           then (case cf_phase w of CO_RECLAIM ticket n \<Rightarrow> cf_do_gc (RcStart 0 ticket) w | _ \<Rightarrow> None)
           else cf_do_gc (RcStart t (cf_committed w)) w
      else None)"
| "cf_do I zero (CfReclaimScan t) w = cf_do_gc (RcScan t) w"
| "cf_do I zero (CfReclaimFree t) w = cf_reclaim_free I t w"
| "cf_do I zero (CfPin cid) w = map_option (\<lambda>r. case r of Inl e \<Rightarrow> w | Inr w' \<Rightarrow> w') (cf_query cid w)"
| "cf_do I zero (CfUnpin cid) w = cf_do_gc (Unpin cid) w"
| "cf_do I zero CfDestroy w = Some (w\<lparr>cf_stopping := True\<rparr>)"

inductive cf_reach ::
    "('z, 's, 'r) fat_hooks \<Rightarrow> 'z ctx_scheme \<Rightarrow> ('s, 'r) concow_fat \<Rightarrow> ('s, 'r) concow_fat \<Rightarrow> bool"
  for I zero w0 where
  start: "cf_reach I zero w0 w0"
| step: "cf_reach I zero w0 w \<Longrightarrow> cf_do I zero a w = Some w' \<Longrightarrow> cf_reach I zero w0 w'"

end
