(* ===== verification/ART_Merge.thy ===== *)
theory ART_Merge
  imports ART_Cow BT_Bulk Wave
begin

text \<open>
  The merge of a wave into a radix tree (\<^verbatim>\<open>lib/trees/art/fat_merge.hpp\<close>) and the hooks of
  \<^verbatim>\<open>src/adapters/art.hpp\<close> for the ordered-wave controller. A replacement is a private leaf for one key; the
  merge builds the new inner nodes above all of them in one pass over the sorted keys.
\<close>

section \<open>Replacements\<close>

record art_change =
  ac_old :: addr
  ac_route :: u64
  ac_value :: addr

text \<open>One key per leaf: the newest update replaces the whole history; the offset is set when the leaf is installed.\<close>

definition art_prepare_fat_leaf :: "addr \<Rightarrow> u64 \<Rightarrow> u64 \<Rightarrow> u64 \<Rightarrow> art_store \<Rightarrow> art_change \<times> art_store" where
  "art_prepare_fat_leaf old version key val s =
     (let (a, s1) = alloc (art_new_leaf version 0 key val) s
      in (\<lparr>ac_old = old, ac_route = key, ac_value = a\<rparr>, s1))"

section \<open>The merge\<close>

text \<open>The first byte from \<open>depth\<close> on in which two keys differ, 8 if there is none.\<close>

definition art_common :: "u64 \<Rightarrow> u64 \<Rightarrow> nat \<Rightarrow> nat" where
  "art_common a b depth =
     (if depth = 8 then 8
      else let d = push_bit (8 * depth) (a XOR b) in if d = 0 then 8 else depth + clz64 d div 8)"

definition art_own :: "art_node \<Rightarrow> art_store merge_state \<Rightarrow> addr \<times> art_store merge_state" where
  "art_own t M =
     (let (a, s) = alloc t (ms_store M) in (a, M\<lparr>ms_store := s, ms_allocated := ms_allocated M @ [a]\<rparr>))"

definition art_clone :: "addr \<Rightarrow> nat \<Rightarrow> u64 \<Rightarrow> art_store merge_state \<Rightarrow> (addr \<times> art_store merge_state) option" where
  "art_clone old depth version M = do {
     t \<leftarrow> cells (ms_store M) old;
     p \<leftarrow> (if an_type t = ALEAF then Some (art_node_copy t version) else art_copych (art_node_copy t version) t);
     let len = an_ofs t + an_len t - depth;
     let p' = p\<lparr>an_len := len, an_ofs := depth,
                an_pfx := (if an_type t = ALEAF then an_pfx p else an_pfx p AND art_prefix_mask depth len)\<rparr>;
     let (a, M1) = art_own p' M;
     Some (a, M1\<lparr>ms_retired := ms_retired M1 @ [old]\<rparr>) }"

text \<open>The children of a node, spread over all 256 branches; a leaf throws.\<close>

fun spread_keys :: "u8 list \<Rightarrow> addr list \<Rightarrow> addr list \<Rightarrow> addr list" where
  "spread_keys (k # ks) (c # cs) out = spread_keys ks cs (out[unat k := c])"
| "spread_keys _ _ out = out"

definition art_children :: "art_node \<Rightarrow> (merge_error + addr list) option" where
  "art_children t =
     (case an_type t of
        ALEAF \<Rightarrow> Some (Inl INVALID_BRANCH)
      | NODE48 \<Rightarrow> map_option Inr (spread_slots 256 (an_slts t) (an_chs t) (replicate 256 nullptr))
      | NODE256 \<Rightarrow> if length (an_chs t) = 256 then Some (Inr (an_chs t)) else None
      | _ \<Rightarrow> if an_size t \<le> length (an_chs t)
             then Some (Inr (spread_keys (take (an_size t) (an_keys t)) (an_chs t) (replicate 256 nullptr))) else None)"

text \<open>The byte of a change at a branch; the changes of one byte.\<close>

definition route_byte :: "nat \<Rightarrow> art_change \<Rightarrow> u8" where
  "route_byte branch c = (case art_partial_key (ac_route c) branch of None \<Rightarrow> 0 | Some k \<Rightarrow> k)"

function byte_runs :: "nat \<Rightarrow> art_change list \<Rightarrow> (u8 \<times> art_change list) list" where
  "byte_runs branch [] = []"
| "byte_runs branch (c # cs) =
     (route_byte branch c, c # takeWhile (\<lambda>d. route_byte branch d = route_byte branch c) cs) #
     byte_runs branch (dropWhile (\<lambda>d. route_byte branch d = route_byte branch c) cs)"
  by pat_completeness auto
termination
  by (relation "measure (\<lambda>(b, cs). length cs)") (auto simp: less_Suc_eq_le length_dropWhile_le)

text \<open>Whether the node has room for the new children of these changes.\<close>

definition art_missing :: "art_node \<Rightarrow> (u8 \<times> art_change list) list \<Rightarrow> nat option" where
  "art_missing t runs = do {
     chs \<leftarrow> those (map (\<lambda>r. art_findch t (fst r)) runs);
     Some (length (filter (\<lambda>c. c = nullptr) chs)) }"

definition art_fits :: "art_node \<Rightarrow> (u8 \<times> art_change list) list \<Rightarrow> bool option" where
  "art_fits t runs =
     (if an_type t = NODE256 then Some True
      else do {
        n \<leftarrow> art_missing t runs;
        Some (an_size t + n \<le> (if an_type t = NODE4 then 4 else if an_type t = NODE16 then 16 else 48)) })"

text \<open>Where the keys of the changes and the old node part.\<close>

definition art_branch :: "art_node option \<Rightarrow> art_change list \<Rightarrow> nat \<Rightarrow> nat" where
  "art_branch old cs depth =
     (let b = art_common (ac_route (hd cs)) (ac_route (last cs)) depth
      in case old of None \<Rightarrow> b
         | Some t \<Rightarrow> min b (min (an_ofs t + an_len t) (art_common (ac_route (hd cs)) (an_pfx t) depth)))"

definition art_merge_type :: "nat \<Rightarrow> art_type" where
  "art_merge_type n =
     (if n \<le> 4 then NODE4 else if n \<le> 16 then NODE16 else if n \<le> 48 then NODE48 else NODE256)"

text \<open>The new node above the merged children.\<close>

fun art_add_children :: "art_node \<Rightarrow> nat \<Rightarrow> addr list \<Rightarrow> art_node option" where
  "art_add_children p k [] = Some p"
| "art_add_children p k (c # cs) =
     (if c = nullptr then art_add_children p (Suc k) cs
      else do {
        (i, p1) \<leftarrow> art_append p (of_nat k);
        p2 \<leftarrow> art_insertch p1 i c;
        art_add_children p2 (Suc k) cs })"

definition art_merge_node :: "u64 \<Rightarrow> nat \<Rightarrow> nat \<Rightarrow> u64 \<Rightarrow> addr list \<Rightarrow> art_node option" where
  "art_merge_node version depth branch route chs =
     (let type = art_merge_type (length (filter (\<lambda>c. c \<noteq> nullptr) chs));
          p = (art_new_node version type depth (branch - depth) route)
                \<lparr>an_size := 0, an_slts := (if type = NODE48 then replicate 256 (- 1) else []),
                 an_chs := (if type = NODE256 then replicate 256 nullptr else [])\<rparr>
      in art_add_children p 0 chs)"

text \<open>A replacement takes the place of the leaf it was prepared for.\<close>

definition art_install :: "addr \<Rightarrow> art_change \<Rightarrow> nat \<Rightarrow> art_store merge_state \<Rightarrow> (addr \<times> art_store merge_state) option" where
  "art_install old c depth M = do {
     p \<leftarrow> cells (ms_store M) (ac_value c);
     s \<leftarrow> put (ac_value c) (p\<lparr>an_ofs := depth, an_len := 8 - depth\<rparr>) (ms_store M);
     Some (ac_value c, M\<lparr>ms_store := s, ms_retired := ms_retired M @ (if old = nullptr then [] else [old])\<rparr>) }"

text \<open>A merged child goes into the clone: over the previous child of its byte, or as a new one.\<close>

definition art_place :: "addr \<Rightarrow> u8 \<Rightarrow> addr \<Rightarrow> addr \<Rightarrow> art_store merge_state \<Rightarrow> art_store merge_state option" where
  "art_place p key previous child M = do {
     t \<leftarrow> cells (ms_store M) p;
     t' \<leftarrow> (if previous \<noteq> nullptr
            then do { i \<leftarrow> art_find_idx t key; art_setch t i child }
            else do { (i, t1) \<leftarrow> art_append t key; art_insertch t1 i child });
     s \<leftarrow> put p t' (ms_store M);
     Some (M\<lparr>ms_store := s\<rparr>) }"

text \<open>
  What \<open>merge\<close> does with a node before it descends: it is done, it throws, it clones the node because the new
  children fit, or it collects the children for a new node.
\<close>

datatype art_merge_plan =
    MP_DONE addr "art_store merge_state"
  | MP_THROW merge_error
  | MP_FITS art_node addr nat "art_store merge_state"
  | MP_REBUILD bool nat "addr list"

definition art_merge_rebuild :: "addr \<Rightarrow> art_node option \<Rightarrow> bool \<Rightarrow> nat \<Rightarrow> art_merge_plan option" where
  "art_merge_rebuild old node same branch =
     (case node of
        None \<Rightarrow> Some (MP_REBUILD same branch (replicate 256 nullptr))
      | Some t \<Rightarrow>
          if same
          then map_option (\<lambda>r. case r of Inl e \<Rightarrow> MP_THROW e | Inr chs \<Rightarrow> MP_REBUILD same branch chs) (art_children t)
          else do {
            k \<leftarrow> art_partial_key (an_pfx t) branch;
            Some (MP_REBUILD same branch ((replicate 256 nullptr)[unat k := old])) })"

definition art_plan_merge ::
    "u64 \<Rightarrow> addr \<Rightarrow> art_change list \<Rightarrow> nat \<Rightarrow> art_store merge_state \<Rightarrow> art_merge_plan option" where
  "art_plan_merge version old cs depth M = do {
     node \<leftarrow> (if old = nullptr then Some None else map_option Some (cells (ms_store M) old));
     if cs = []
     then (case node of
             None \<Rightarrow> Some (MP_DONE old M)
           | Some t \<Rightarrow>
               if an_ofs t \<noteq> depth
               then do { (a, M1) \<leftarrow> art_clone old depth version M; Some (MP_DONE a M1) }
               else Some (MP_DONE old M))
     else do {
       let branch = art_branch node cs depth;
       if branch = 8
       then (if length cs \<noteq> 1 \<or> ac_old (hd cs) \<noteq> old then Some (MP_THROW STALE)
             else do { (a, M1) \<leftarrow> art_install old (hd cs) depth M; Some (MP_DONE a M1) })
       else do {
         let same = (case node of None \<Rightarrow> False | Some t \<Rightarrow> an_type t \<noteq> ALEAF \<and> branch = an_ofs t + an_len t);
         fits \<leftarrow> (case node of None \<Rightarrow> Some False
                  | Some t \<Rightarrow> if same then art_fits t (byte_runs branch cs) else Some False);
         (case node of
            Some t \<Rightarrow>
              if fits then do { (p, M1) \<leftarrow> art_clone old depth version M; Some (MP_FITS t p branch M1) }
              else art_merge_rebuild old node same branch
          | None \<Rightarrow> art_merge_rebuild old node same branch) } } }"

text \<open>The new node is built when its children are merged.\<close>

definition art_merge_finish ::
    "u64 \<Rightarrow> addr \<Rightarrow> bool \<Rightarrow> nat \<Rightarrow> nat \<Rightarrow> u64 \<Rightarrow> addr list \<Rightarrow> art_store merge_state \<Rightarrow>
      (merge_error + addr \<times> art_store merge_state) option" where
  "art_merge_finish version old same depth branch route chs M =
     (if length (filter (\<lambda>c. c \<noteq> nullptr) chs) < 2 then Some (Inl INVALID_BRANCH)
      else do {
        p \<leftarrow> art_merge_node version depth branch route chs;
        let (a, M1) = art_own p M;
        Some (Inr (a, M1\<lparr>ms_retired := ms_retired M1 @ (if same then [old] else [])\<rparr>)) })"

text \<open>
  \<open>merge\<close> with fuel: the depth grows with every call. \<open>art_merge_runs\<close> is the loop over the runs that fit
  into the cloned node, \<open>art_merge_slots\<close> the loop over all 256 branches.
\<close>

function (sequential) art_merge ::
    "nat \<Rightarrow> u64 \<Rightarrow> addr \<Rightarrow> art_change list \<Rightarrow> nat \<Rightarrow> art_store merge_state \<Rightarrow>
      (merge_error + addr \<times> art_store merge_state) option"
  and art_merge_runs ::
    "nat \<Rightarrow> u64 \<Rightarrow> art_node \<Rightarrow> addr \<Rightarrow> nat \<Rightarrow> (u8 \<times> art_change list) list \<Rightarrow> art_store merge_state \<Rightarrow>
      (merge_error + art_store merge_state) option"
  and art_merge_slots ::
    "nat \<Rightarrow> u64 \<Rightarrow> nat \<Rightarrow> nat \<Rightarrow> addr list \<Rightarrow> art_change list \<Rightarrow> addr list \<Rightarrow> art_store merge_state \<Rightarrow>
      (merge_error + addr list \<times> art_store merge_state) option" where
  "art_merge 0 version old cs depth M = None"
| "art_merge (Suc f) version old cs depth M =
     (case art_plan_merge version old cs depth M of
        None \<Rightarrow> None
      | Some (MP_DONE a M1) \<Rightarrow> Some (Inr (a, M1))
      | Some (MP_THROW e) \<Rightarrow> Some (Inl e)
      | Some (MP_FITS t p branch M1) \<Rightarrow>
          (case art_merge_runs f version t p branch (byte_runs branch cs) M1 of
             None \<Rightarrow> None
           | Some (Inl e) \<Rightarrow> Some (Inl e)
           | Some (Inr M2) \<Rightarrow> Some (Inr (p, M2)))
      | Some (MP_REBUILD same branch chs) \<Rightarrow>
          (case art_merge_slots f version branch 0 chs cs [] M of
             None \<Rightarrow> None
           | Some (Inl e) \<Rightarrow> Some (Inl e)
           | Some (Inr (chs', M1)) \<Rightarrow> art_merge_finish version old same depth branch (ac_route (hd cs)) chs' M1))"
| "art_merge_runs f version node p branch [] M = Some (Inr M)"
| "art_merge_runs f version node p branch (r # runs) M =
     (case art_findch node (fst r) of
        None \<Rightarrow> None
      | Some previous \<Rightarrow>
          (case art_merge f version previous (snd r) (branch + 1) M of
             None \<Rightarrow> None
           | Some (Inl e) \<Rightarrow> Some (Inl e)
           | Some (Inr (child, M1)) \<Rightarrow>
               (case art_place p (fst r) previous child M1 of
                  None \<Rightarrow> None
                | Some M2 \<Rightarrow> art_merge_runs f version node p branch runs M2)))"
| "art_merge_slots f version branch k [] cs out M = Some (Inr (out, M))"
| "art_merge_slots f version branch k (c # chs) cs out M =
     (let run = takeWhile (\<lambda>d. route_byte branch d = of_nat k) cs;
          rest = dropWhile (\<lambda>d. route_byte branch d = of_nat k) cs
      in if c = nullptr \<and> run = []
      then art_merge_slots f version branch (Suc k) chs rest (out @ [c]) M
      else case art_merge f version c run (branch + 1) M of
             None \<Rightarrow> None
           | Some (Inl e) \<Rightarrow> Some (Inl e)
           | Some (Inr (c', M1)) \<Rightarrow> art_merge_slots f version branch (Suc k) chs rest (out @ [c']) M1)"
  by pat_completeness auto
termination
  by (relation "measures
    [\<lambda>x. case x of Inl (f, _) \<Rightarrow> 2 * f | Inr (Inl (f, _)) \<Rightarrow> 2 * f + 1 | Inr (Inr (f, _)) \<Rightarrow> 2 * f + 1,
     \<lambda>x. case x of Inl _ \<Rightarrow> 0 | Inr (Inl (f, _, _, _, _, rs, _)) \<Rightarrow> length rs | Inr (Inr (f, _, _, _, chs, _)) \<Rightarrow> length chs]")
    simp_all

text \<open>Nine levels are enough: a call at depth 8 has branch 8 or no change.\<close>

definition art_merge_build :: "addr \<Rightarrow> art_change list \<Rightarrow> u32 \<Rightarrow> art_store \<Rightarrow> (merge_error + addr \<times> art_store merge_state) option" where
  "art_merge_build old changes version s =
     art_merge 10 (ucast version) old (sort_key ac_route changes) 0 \<lparr>ms_store = s, ms_allocated = [], ms_retired = []\<rparr>"

end
