(* ===== verification/ART_Bytes.thy ===== *)
theory ART_Bytes
  imports ART_Cow
begin

text \<open>
  Keys as strings of eight bytes: the prefix comparison of \<^verbatim>\<open>node.hpp\<close> (exclusive or, shift, count leading
  zeros) and the prefix mask, in terms of the bytes of the keys.
\<close>

definition abyte :: "u64 \<Rightarrow> nat \<Rightarrow> u8" where
  "abyte x p = ucast (drop_bit (56 - 8 * p) x)"

lemma partial_key_abyte: "p \<le> 7 \<Longrightarrow> art_partial_key x p = Some (abyte x p)"
  by (simp add: art_partial_key_def abyte_def)

lemma bit_abyte: "bit (abyte x p) j \<longleftrightarrow> j < 8 \<and> bit x (56 - 8 * p + j)"
  by (auto simp: abyte_def bit_simps)

lemma abyte_eq_iff:
  assumes "p \<le> 7"
  shows "abyte x p = abyte y p \<longleftrightarrow> (\<forall>i. 56 - 8 * p \<le> i \<longrightarrow> i < 64 - 8 * p \<longrightarrow> bit x i = bit y i)"
proof
  assume "abyte x p = abyte y p"
  then have eq: "bit (abyte x p) j = bit (abyte y p) j" for j by simp
  show "\<forall>i. 56 - 8 * p \<le> i \<longrightarrow> i < 64 - 8 * p \<longrightarrow> bit x i = bit y i"
  proof (intro allI impI)
    fix i assume i: "56 - 8 * p \<le> i" "i < 64 - 8 * p"
    then have "i - (56 - 8 * p) < 8" using assms by arith
    with eq [of "i - (56 - 8 * p)"] i show "bit x i = bit y i" by (simp add: bit_abyte)
  qed
next
  assume r: "\<forall>i. 56 - 8 * p \<le> i \<longrightarrow> i < 64 - 8 * p \<longrightarrow> bit x i = bit y i"
  show "abyte x p = abyte y p"
  proof (rule bit_eqI)
    fix n
    have "n < 8 \<Longrightarrow> 56 - 8 * p + n < 64 - 8 * p" using assms by arith
    with r show "bit (abyte x p) n = bit (abyte y p) n" by (auto simp: bit_abyte)
  qed
qed

text \<open>Agreement on the bytes from \<open>ofs\<close> up to \<open>e\<close>.\<close>

definition same_bytes :: "nat \<Rightarrow> nat \<Rightarrow> u64 \<Rightarrow> u64 \<Rightarrow> bool" where
  "same_bytes ofs e x y \<longleftrightarrow> (\<forall>p. ofs \<le> p \<longrightarrow> p < e \<longrightarrow> abyte x p = abyte y p)"

lemma same_bytes_refl [simp]: "same_bytes ofs e x x"
  by (simp add: same_bytes_def)

lemma same_bytes_sym: "same_bytes ofs e x y \<Longrightarrow> same_bytes ofs e y x"
  by (simp add: same_bytes_def)

lemma same_bytes_trans: "same_bytes ofs e x y \<Longrightarrow> same_bytes ofs e y z \<Longrightarrow> same_bytes ofs e x z"
  by (simp add: same_bytes_def)

lemma same_bytes_mono: "same_bytes ofs e x y \<Longrightarrow> ofs \<le> ofs' \<Longrightarrow> e' \<le> e \<Longrightarrow> same_bytes ofs' e' x y"
  by (simp add: same_bytes_def)

lemma same_bytes_empty [simp]: "same_bytes ofs ofs x y"
  by (simp add: same_bytes_def)

lemma same_bytes_split:
  "ofs \<le> m \<Longrightarrow> m \<le> e \<Longrightarrow> same_bytes ofs e x y \<longleftrightarrow> same_bytes ofs m x y \<and> same_bytes m e x y"
  unfolding same_bytes_def by (meson leI less_le_trans le_trans)

lemma same_bytes_Suc:
  "ofs \<le> e \<Longrightarrow> same_bytes ofs (Suc e) x y \<longleftrightarrow> same_bytes ofs e x y \<and> abyte x e = abyte y e"
  by (auto simp: same_bytes_def less_Suc_eq)

lemma same_bytes_bits:
  "e \<le> 8 \<Longrightarrow> same_bytes ofs e x y \<longleftrightarrow> (\<forall>i. 64 - 8 * e \<le> i \<longrightarrow> i < 64 - 8 * ofs \<longrightarrow> bit x i = bit y i)"
proof (induction e)
  case (Suc e)
  show ?case
  proof (cases "ofs \<le> e")
    case True
    have "(\<forall>i. 64 - 8 * Suc e \<le> i \<longrightarrow> i < 64 - 8 * ofs \<longrightarrow> bit x i = bit y i) \<longleftrightarrow>
      (\<forall>i. 64 - 8 * e \<le> i \<longrightarrow> i < 64 - 8 * ofs \<longrightarrow> bit x i = bit y i) \<and>
      (\<forall>i. 56 - 8 * e \<le> i \<longrightarrow> i < 64 - 8 * e \<longrightarrow> bit x i = bit y i)"
    proof -
      have "64 - 8 * Suc e \<le> i \<and> i < 64 - 8 * ofs \<longleftrightarrow>
        64 - 8 * e \<le> i \<and> i < 64 - 8 * ofs \<or> 56 - 8 * e \<le> i \<and> i < 64 - 8 * e" for i
        using True Suc.prems by (cases "i < 64 - 8 * e") auto
      then show ?thesis by blast
    qed
    with Suc True show ?thesis by (simp add: same_bytes_Suc abyte_eq_iff)
  qed (auto simp: same_bytes_def)
qed (auto simp: same_bytes_def)

lemma same_bytes_eq: "same_bytes 0 8 x y \<longleftrightarrow> x = y"
  by (auto simp: same_bytes_bits bit_eq_iff dest: bit_imp_possible_bit)

section \<open>The prefix of a node\<close>

lemma bit_xor_shift:
  "i < 64 \<Longrightarrow> bit (push_bit m (x XOR y) :: u64) i \<longleftrightarrow> m \<le> i \<and> bit x (i - m) \<noteq> bit y (i - m)"
  by (simp only: bit_push_bit_iff bit_xor_iff possible_bit_word) simp

lemma bit_shift_mask:
  "bit (push_bit m (drop_bit k (- 1)) :: u64) i \<longleftrightarrow> m \<le> i \<and> i < 64 \<and> k + (i - m) < 64"
  by (simp only: bit_push_bit_iff bit_drop_bit_eq comp_def bit_minus_1_iff possible_bit_word) simp

lemma shift_range:
  fixes m n i :: nat
  assumes "m + n \<le> 8"
  shows "64 - 8 * n \<le> i \<Longrightarrow> i < 64 \<Longrightarrow> 64 - 8 * (m + n) \<le> i - 8 * m \<and> i - 8 * m < 64 - 8 * m"
    and "64 - 8 * (m + n) \<le> i \<Longrightarrow> i < 64 - 8 * m \<Longrightarrow> 64 - 8 * n \<le> i + 8 * m \<and> i + 8 * m < 64"
  using assms by auto

lemma prefix_match_ge:
  assumes "an_ofs t + an_len t \<le> 8" "n \<le> an_len t"
  shows "n \<le> art_prefix_match t key \<longleftrightarrow> same_bytes (an_ofs t) (an_ofs t + n) key (an_pfx t)"
proof (cases "an_len t = 0")
  case False
  let ?o = "an_ofs t" let ?d = "push_bit (8 * ?o) (key XOR an_pfx t)"
  have on: "?o + n \<le> 8" using assms by simp
  have bits: "same_bytes ?o (?o + n) key (an_pfx t) \<longleftrightarrow> (\<forall>i. 64 - 8 * n \<le> i \<longrightarrow> i < 64 \<longrightarrow> \<not> bit ?d i)"
  proof -
    have "same_bytes ?o (?o + n) key (an_pfx t) \<longleftrightarrow>
        (\<forall>i. 64 - 8 * (?o + n) \<le> i \<longrightarrow> i < 64 - 8 * ?o \<longrightarrow> bit key i = bit (an_pfx t) i)"
      using assms by (intro same_bytes_bits) simp
    also have "\<dots> \<longleftrightarrow> (\<forall>i. 64 - 8 * n \<le> i \<longrightarrow> i < 64 \<longrightarrow> \<not> bit ?d i)"
    proof
      assume l: "\<forall>i. 64 - 8 * (?o + n) \<le> i \<longrightarrow> i < 64 - 8 * ?o \<longrightarrow> bit key i = bit (an_pfx t) i"
      show "\<forall>i. 64 - 8 * n \<le> i \<longrightarrow> i < 64 \<longrightarrow> \<not> bit ?d i"
      proof (intro allI impI)
        fix i assume i: "64 - 8 * n \<le> i" "i < 64"
        then have "64 - 8 * (?o + n) \<le> i - 8 * ?o" "i - 8 * ?o < 64 - 8 * ?o" using shift_range(1) [OF on] by blast+
        with l have "bit key (i - 8 * ?o) = bit (an_pfx t) (i - 8 * ?o)" by blast
        then show "\<not> bit ?d i" unfolding bit_xor_shift [OF i(2)] by blast
      qed
    next
      assume r: "\<forall>i. 64 - 8 * n \<le> i \<longrightarrow> i < 64 \<longrightarrow> \<not> bit ?d i"
      show "\<forall>i. 64 - 8 * (?o + n) \<le> i \<longrightarrow> i < 64 - 8 * ?o \<longrightarrow> bit key i = bit (an_pfx t) i"
      proof (intro allI impI)
        fix i assume i: "64 - 8 * (?o + n) \<le> i" "i < 64 - 8 * ?o"
        then have "64 - 8 * n \<le> i + 8 * ?o" "i + 8 * ?o < 64" using shift_range(2) [OF on] by blast+
        with r have "\<not> bit ?d (i + 8 * ?o)" by blast
        then show "bit key i = bit (an_pfx t) i" unfolding bit_xor_shift [OF \<open>i + 8 * ?o < 64\<close>] by simp
      qed
    qed
    finally show ?thesis .
  qed
  show ?thesis
  proof (cases "?d = 0")
    case True
    then have "\<not> bit ?d i" for i by simp
    then have "same_bytes ?o (?o + n) key (an_pfx t)" unfolding bits by blast
    with True False assms(2) show ?thesis by (simp add: art_prefix_match_def)
  next
    case nz: False
    have "n \<le> clz64 ?d div 8 \<longleftrightarrow> 8 * n \<le> clz64 ?d" by (simp add: less_eq_div_iff_mult_less_eq mult.commute)
    then show ?thesis unfolding bits using nz False assms clz64_ge [of "8 * n" ?d] by (simp add: art_prefix_match_def)
  qed
qed (use assms in simp)

lemma prefix_mismatch:
  assumes "an_ofs t + an_len t \<le> 8" and m: "art_prefix_match t key < an_len t"
  shows "same_bytes (an_ofs t) (an_ofs t + art_prefix_match t key) key (an_pfx t)"
    and "abyte key (an_ofs t + art_prefix_match t key) \<noteq> abyte (an_pfx t) (an_ofs t + art_prefix_match t key)"
proof -
  show same: "same_bytes (an_ofs t) (an_ofs t + art_prefix_match t key) key (an_pfx t)"
    using prefix_match_ge [OF assms(1), of "art_prefix_match t key" key] m by simp
  have "\<not> same_bytes (an_ofs t) (an_ofs t + Suc (art_prefix_match t key)) key (an_pfx t)"
    using prefix_match_ge [OF assms(1), of "Suc (art_prefix_match t key)" key] m by simp
  with same show "abyte key (an_ofs t + art_prefix_match t key) \<noteq> abyte (an_pfx t) (an_ofs t + art_prefix_match t key)"
    by (simp add: same_bytes_Suc)
qed

lemma bit_prefix_mask:
  "ofs + len \<le> 8 \<Longrightarrow> bit (art_prefix_mask ofs len) i \<longleftrightarrow> 64 - 8 * (ofs + len) \<le> i \<and> i < 64 - 8 * ofs"
proof -
  assume a: "ofs + len \<le> 8"
  show ?thesis
  proof (cases "len = 0")
    case False
    have "bit (art_prefix_mask ofs len) i \<longleftrightarrow>
        8 * (8 - len - ofs) \<le> i \<and> i < 64 \<and> 8 * (8 - len) + (i - 8 * (8 - len - ofs)) < 64"
      using False by (simp only: art_prefix_mask_def if_False bit_shift_mask)
    also have "\<dots> \<longleftrightarrow> 64 - 8 * (ofs + len) \<le> i \<and> i < 64 - 8 * ofs"
      using a False by auto
    finally show ?thesis .
  qed (simp add: art_prefix_mask_def)
qed

lemma mask_same_bytes:
  assumes "ofs + len \<le> 8"
  shows "same_bytes ofs (ofs + len) (x AND art_prefix_mask ofs len) x"
  using assms by (auto simp: same_bytes_bits bit_prefix_mask bit_and_iff)

end
