(* ===== verification/ART_View.thy ===== *)
theory ART_View
  imports ART_Bytes
begin

text \<open>
  What a node of the adaptive radix tree means, whatever its size class: a map from key bytes to children.
  For each operation of \<^verbatim>\<open>node_wrapper.hpp\<close> its effect on this map: search, replacement of a child,
  insertion with growth to the next size class, copying.
\<close>

section \<open>Representation invariants of the four size classes\<close>

definition live_keys :: "art_node \<Rightarrow> u8 list" where
  "live_keys t = take (an_size t) (an_keys t)"

definition live_chs :: "art_node \<Rightarrow> addr list" where
  "live_chs t = take (an_size t) (an_chs t)"

definition keys_ok :: "nat \<Rightarrow> art_node \<Rightarrow> bool" where
  "keys_ok cap t \<longleftrightarrow>
     length (an_keys t) = cap \<and> 2 \<le> an_size t \<and> an_size t \<le> cap \<and> sorted_wrt (<) (live_keys t) \<and>
     an_size t \<le> length (an_chs t) \<and> length (an_chs t) \<le> cap \<and> nullptr \<notin> set (live_chs t)"

definition slots_ok :: "art_node \<Rightarrow> bool" where
  "slots_ok t \<longleftrightarrow>
     length (an_slts t) = 256 \<and> an_size t \<le> 48 \<and> an_size t \<le> length (an_chs t) \<and> length (an_chs t) \<le> 48 \<and>
     nullptr \<notin> set (live_chs t) \<and>
     (\<forall>k. node48_slot t k \<noteq> - 1 \<longrightarrow> unat (node48_slot t k) < an_size t) \<and>
     (\<forall>k l. node48_slot t k \<noteq> - 1 \<longrightarrow> node48_slot t k = node48_slot t l \<longrightarrow> k = l)"

definition art_node_ok :: "art_node \<Rightarrow> bool" where
  "art_node_ok t \<longleftrightarrow>
     (case an_type t of
        NODE4 \<Rightarrow> keys_ok 4 t
      | NODE16 \<Rightarrow> keys_ok 16 t
      | NODE48 \<Rightarrow> slots_ok t
      | NODE256 \<Rightarrow> length (an_chs t) = 256
      | ALEAF \<Rightarrow> False)"

text \<open>The child of a key byte, null when there is none.\<close>

definition art_view :: "art_node \<Rightarrow> u8 \<Rightarrow> addr" where
  "art_view t k = (case art_findch t k of None \<Rightarrow> nullptr | Some c \<Rightarrow> c)"

lemma keys_ok_lengths: "keys_ok cap t \<Longrightarrow> length (live_keys t) = an_size t \<and> length (live_chs t) = an_size t"
  by (simp add: keys_ok_def live_keys_def live_chs_def)

lemma unat_byte: "unat (k :: u8) < 256"
  using unsigned_less [where ?'a = nat and w = k] by simp

section \<open>Searching\<close>

lemma node4_find_eq:
  assumes "keys_ok 4 t"
  shows "node4_find t k = find_key (live_keys t) k"
proof -
  have "length (an_keys t) = 4" "an_size t = 2 \<or> an_size t = 3 \<or> an_size t = 4"
    using assms by (auto simp: keys_ok_def)
  then obtain a b c d where "an_keys t = [a, b, c, d]"
    by (auto simp: numeral_eq_Suc length_Suc_conv)
  with \<open>an_size t = 2 \<or> _\<close> show ?thesis by (auto simp: node4_find_def live_keys_def numeral_3_eq_3 numeral_2_eq_2)
qed

lemma node16_find_eq: "keys_ok 16 t \<Longrightarrow> node16_find t k = find_key (live_keys t) k"
  using node16_find_loop_eq_aux [of t k] by (simp add: keys_ok_def node16_find_loop_def live_keys_def)

lemma keys_find:
  assumes "keys_ok cap t"
  shows "(case find_key (live_keys t) k of None \<Rightarrow> Some nullptr | Some i \<Rightarrow> nth_opt (an_chs t) i) =
    Some (case map_of (zip (live_keys t) (live_chs t)) k of None \<Rightarrow> nullptr | Some c \<Rightarrow> c)"
proof -
  have "length (live_keys t) \<le> length (live_chs t)" using keys_ok_lengths [OF assms] by simp
  note get = assoc_get_find [OF this, of k, unfolded assoc_get_def]
  show ?thesis
  proof (cases "find_key (live_keys t) k")
    case (Some i)
    then have "i < an_size t" using find_key_Some [OF Some] keys_ok_lengths [OF assms] by simp
    moreover have "live_chs t ! i = an_chs t ! i" "i < length (an_chs t)"
      using calculation assms by (simp_all add: keys_ok_def live_chs_def)
    ultimately show ?thesis by (simp add: get Some)
  qed (simp add: get)
qed

lemma node48_slot_live:
  assumes "slots_ok t" "node48_slot t k \<noteq> - 1"
  shows "unat (node48_slot t k) < an_size t" "live_chs t ! unat (node48_slot t k) = an_chs t ! unat (node48_slot t k)"
proof -
  show "unat (node48_slot t k) < an_size t" using assms unfolding slots_ok_def by blast
  then show "live_chs t ! unat (node48_slot t k) = an_chs t ! unat (node48_slot t k)" by (simp add: live_chs_def)
qed

lemma node48_slot_child:
  assumes "slots_ok t" "node48_slot t k \<noteq> - 1"
  shows "unat (node48_slot t k) < length (an_chs t)" "an_chs t ! unat (node48_slot t k) \<noteq> nullptr"
proof -
  have i: "unat (node48_slot t k) < an_size t" "an_size t \<le> length (an_chs t)" using assms by (auto simp: slots_ok_def)
  then show "unat (node48_slot t k) < length (an_chs t)" by simp
  have "live_chs t ! unat (node48_slot t k) \<in> set (live_chs t)" using i by (intro nth_mem) (simp add: live_chs_def)
  moreover have "live_chs t ! unat (node48_slot t k) = an_chs t ! unat (node48_slot t k)" using i by (simp add: live_chs_def)
  moreover have "nullptr \<notin> set (live_chs t)" using assms(1) by (simp add: slots_ok_def)
  ultimately show "an_chs t ! unat (node48_slot t k) \<noteq> nullptr" by metis
qed

text \<open>The view, computed for each size class.\<close>

lemma view_keys:
  "an_type t = NODE4 \<Longrightarrow> keys_ok 4 t \<Longrightarrow> art_view t k = (case map_of (zip (live_keys t) (live_chs t)) k of None \<Rightarrow> nullptr | Some c \<Rightarrow> c)"
  "an_type t = NODE16 \<Longrightarrow> keys_ok 16 t \<Longrightarrow> art_view t k = (case map_of (zip (live_keys t) (live_chs t)) k of None \<Rightarrow> nullptr | Some c \<Rightarrow> c)"
  by (simp_all add: art_view_def art_findch_def node4_find_eq node16_find_eq keys_find)

lemma view_48:
  "an_type t = NODE48 \<Longrightarrow> slots_ok t \<Longrightarrow>
     art_view t k = (if node48_slot t k = - 1 then nullptr else an_chs t ! unat (node48_slot t k))"
  using node48_slot_child [of t k] by (simp add: art_view_def art_findch_def)

lemma view_256: "an_type t = NODE256 \<Longrightarrow> length (an_chs t) = 256 \<Longrightarrow> art_view t k = an_chs t ! unat k"
  using unat_byte [of k] by (simp add: art_view_def art_findch_def)

lemma findch_view: "art_node_ok t \<Longrightarrow> art_findch t k = Some (art_view t k)"
  using node48_slot_child [of t k] unat_byte [of k]
  by (auto simp: art_node_ok_def art_view_def art_findch_def node4_find_eq node16_find_eq keys_find
      split: art_type.splits)

lemma find_idx_None:
  assumes "art_node_ok t" "art_find_idx t k = None"
  shows "art_view t k = nullptr" "an_type t \<noteq> NODE256"
    and "an_type t = NODE4 \<or> an_type t = NODE16 \<Longrightarrow> k \<notin> set (live_keys t)"
    and "an_type t = NODE48 \<Longrightarrow> node48_slot t k = - 1"
  using assms
  by (auto simp: art_node_ok_def art_find_idx_def art_view_def art_findch_def node4_find_eq node16_find_eq
      simp flip: find_key_None split: art_type.splits if_splits)

section \<open>Replacing a child\<close>

lemma map_of_zip_update:
  "distinct ks \<Longrightarrow> length vs = length ks \<Longrightarrow> find_key ks k = Some i \<Longrightarrow>
     map_of (zip ks (vs[i := a])) = (map_of (zip ks vs))(k \<mapsto> a)"
proof (induction ks arbitrary: vs i)
  case (Cons x ks)
  then obtain v vs' where vs: "vs = v # vs'" by (cases vs) auto
  show ?case
  proof (cases "x = k")
    case False
    then obtain j where "i = Suc j" "find_key ks k = Some j" using Cons.prems(3) by auto
    with Cons.IH [of vs' j] Cons.prems False show ?thesis by (auto simp: vs fun_eq_iff)
  qed (use Cons.prems in \<open>auto simp: vs fun_eq_iff\<close>)
qed simp

lemma live_keys_distinct: "keys_ok cap t \<Longrightarrow> distinct (live_keys t)"
  by (simp add: keys_ok_def strict_sorted_iff)

lemma keys_setch:
  assumes ok: "keys_ok cap t" and i: "find_key (live_keys t) k = Some i" and "a \<noteq> nullptr"
  shows "i < length (an_chs t)" "keys_ok cap (t\<lparr>an_chs := (an_chs t)[i := a]\<rparr>)"
    and "map_of (zip (live_keys t) (live_chs (t\<lparr>an_chs := (an_chs t)[i := a]\<rparr>))) =
      (map_of (zip (live_keys t) (live_chs t)))(k \<mapsto> a)"
proof -
  let ?t = "t\<lparr>an_chs := (an_chs t)[i := a]\<rparr>"
  have i': "i < an_size t" using find_key_Some [OF i] keys_ok_lengths [OF ok] by simp
  with ok show "i < length (an_chs t)" by (simp add: keys_ok_def)
  have live: "live_chs ?t = (live_chs t)[i := a]" by (simp add: live_chs_def take_update_swap)
  then have "set (live_chs ?t) \<subseteq> insert a (set (live_chs t))" by (simp add: set_update_subset_insert)
  then show "keys_ok cap ?t" using ok \<open>a \<noteq> nullptr\<close> by (auto simp: keys_ok_def live_keys_def)
  show "map_of (zip (live_keys t) (live_chs ?t)) = (map_of (zip (live_keys t) (live_chs t)))(k \<mapsto> a)"
    unfolding live using keys_ok_lengths [OF ok] by (intro map_of_zip_update [OF live_keys_distinct [OF ok] _ i]) simp
qed

lemma live_keys_chs [simp]: "live_keys (t\<lparr>an_chs := xs\<rparr>) = live_keys t"
  by (simp add: live_keys_def)

lemma slots_setch:
  assumes ok: "slots_ok t" and k: "node48_slot t k \<noteq> - 1" and "a \<noteq> nullptr"
  shows "slots_ok (t\<lparr>an_chs := (an_chs t)[unat (node48_slot t k) := a]\<rparr>)"
proof -
  let ?i = "unat (node48_slot t k)" let ?t = "t\<lparr>an_chs := (an_chs t)[?i := a]\<rparr>"
  have "live_chs ?t = (live_chs t)[?i := a]" by (simp add: live_chs_def take_update_swap)
  then have "set (live_chs ?t) \<subseteq> insert a (set (live_chs t))" by (simp add: set_update_subset_insert)
  moreover have "node48_slot ?t = node48_slot t" by (simp add: fun_eq_iff node48_slot_def)
  ultimately show ?thesis using ok \<open>a \<noteq> nullptr\<close> unfolding slots_ok_def by auto
qed

text \<open>The children of a node change, nothing else.\<close>

definition rechild :: "art_node \<Rightarrow> art_node \<Rightarrow> bool" where
  "rechild t t' \<longleftrightarrow> t' = t\<lparr>an_chs := an_chs t'\<rparr>"

lemma rechildI [intro]: "rechild t (t\<lparr>an_chs := xs\<rparr>)"
  by (simp add: rechild_def)

lemma setch_view:
  assumes ok: "art_node_ok t" and i: "art_find_idx t k = Some i" and a: "a \<noteq> nullptr"
  shows "\<exists>t'. art_setch t i a = Some t' \<and> art_node_ok t' \<and> art_view t' = (art_view t)(k := a) \<and> rechild t t'"
proof (cases "an_type t")
  case NODE4
  then have o: "keys_ok 4 t" and i: "find_key (live_keys t) k = Some i"
    using ok i by (simp_all add: art_node_ok_def art_find_idx_def node4_find_eq)
  let ?t = "t\<lparr>an_chs := (an_chs t)[i := a]\<rparr>"
  note s = keys_setch [OF o i a]
  have "art_setch t i a = Some ?t" using NODE4 s(1) by (simp add: art_setch_def art_cell_def)
  moreover have "art_view ?t = (art_view t)(k := a)"
    using NODE4 o s(2,3) by (intro ext) (simp add: view_keys)
  ultimately show ?thesis using NODE4 s(2) by (intro exI [of _ ?t]) (auto simp: art_node_ok_def)
next
  case NODE16
  then have o: "keys_ok 16 t" and i: "find_key (live_keys t) k = Some i"
    using ok i by (simp_all add: art_node_ok_def art_find_idx_def node16_find_eq)
  let ?t = "t\<lparr>an_chs := (an_chs t)[i := a]\<rparr>"
  note s = keys_setch [OF o i a]
  have "art_setch t i a = Some ?t" using NODE16 s(1) by (simp add: art_setch_def art_cell_def)
  moreover have "art_view ?t = (art_view t)(k := a)"
    using NODE16 o s(2,3) by (intro ext) (simp add: view_keys)
  ultimately show ?thesis using NODE16 s(2) by (intro exI [of _ ?t]) (auto simp: art_node_ok_def)
next
  case NODE48
  then have o: "slots_ok t" and i: "i = unat k" "node48_slot t k \<noteq> - 1"
    using ok i by (auto simp: art_node_ok_def art_find_idx_def split: if_splits)
  let ?i = "unat (node48_slot t k)" let ?t = "t\<lparr>an_chs := (an_chs t)[?i := a]\<rparr>"
  have "nth_opt (an_slts t) (unat k) = Some (node48_slot t k)"
    using o unat_byte [of k] by (simp add: slots_ok_def node48_slot_def)
  then have "art_setch t i a = Some ?t"
    using NODE48 i node48_slot_child(1) [OF o i(2)] by (simp add: art_setch_def art_cell_def)
  moreover have ok': "slots_ok ?t" by (rule slots_setch [OF o i(2) a])
  moreover have "art_view ?t = (art_view t)(k := a)"
  proof
    fix l
    have slot: "node48_slot ?t l = node48_slot t l" by (simp add: node48_slot_def)
    show "art_view ?t l = ((art_view t)(k := a)) l"
    proof (cases "l = k")
      case True
      then show ?thesis using NODE48 ok' slot i node48_slot_child(1) [OF o i(2)] by (simp add: view_48)
    next
      case False
      then have "node48_slot t l \<noteq> node48_slot t k" using o i(2) unfolding slots_ok_def by metis
      then have "unat (node48_slot t l) \<noteq> ?i" by (simp add: word_unat_eq_iff)
      then show ?thesis using NODE48 o ok' slot False by (simp add: view_48)
    qed
  qed
  ultimately show ?thesis using NODE48 by (intro exI [of _ ?t]) (auto simp: art_node_ok_def)
next
  case NODE256
  then have o: "length (an_chs t) = 256" and i: "i = unat k" using ok i by (simp_all add: art_node_ok_def art_find_idx_def)
  let ?t = "t\<lparr>an_chs := (an_chs t)[unat k := a]\<rparr>"
  have "art_setch t i a = Some ?t" using NODE256 o i unat_byte [of k] by (simp add: art_setch_def art_cell_def)
  moreover have "art_view ?t = (art_view t)(k := a)"
    using NODE256 o unat_byte by (intro ext) (simp add: view_256 nth_list_update word_unat_eq_iff)
  ultimately show ?thesis using NODE256 o by (intro exI [of _ ?t]) (auto simp: art_node_ok_def)
qed (use ok in \<open>simp add: art_node_ok_def\<close>)

lemma getch_view:
  assumes ok: "art_node_ok t" and i: "art_find_idx t k = Some i"
  shows "art_getch t i = Some (art_view t k)"
proof (cases "an_type t")
  case NODE48
  then have o: "slots_ok t" and i: "i = unat k" "node48_slot t k \<noteq> - 1"
    using ok i by (auto simp: art_node_ok_def art_find_idx_def split: if_splits)
  have "nth_opt (an_slts t) (unat k) = Some (node48_slot t k)"
    using o unat_byte [of k] by (simp add: slots_ok_def node48_slot_def)
  then show ?thesis using NODE48 i o node48_slot_child(1) [OF o i(2)] by (simp add: art_getch_def art_cell_def view_48)
next
  case NODE256
  then show ?thesis
    using ok i unat_byte [of k] by (simp add: art_node_ok_def art_find_idx_def art_getch_def art_cell_def view_256)
next
  case NODE4
  then have o: "keys_ok 4 t" and "find_key (live_keys t) k = Some i"
    using ok i by (simp_all add: art_node_ok_def art_find_idx_def node4_find_eq)
  with keys_find [OF o, of k] NODE4 show ?thesis by (simp add: view_keys art_getch_def art_cell_def)
next
  case NODE16
  then have o: "keys_ok 16 t" and "find_key (live_keys t) k = Some i"
    using ok i by (simp_all add: art_node_ok_def art_find_idx_def node16_find_eq)
  with keys_find [OF o, of k] NODE16 show ?thesis by (simp add: view_keys art_getch_def art_cell_def)
qed (use ok in \<open>simp add: art_node_ok_def\<close>)

section \<open>Copies\<close>

text \<open>Copying the children of a node into a copy of its header.\<close>

definition same_index :: "art_node \<Rightarrow> art_node \<Rightarrow> bool" where
  "same_index n t \<longleftrightarrow>
     an_type n = an_type t \<and> an_size n = an_size t \<and> an_keys n = an_keys t \<and> an_slts n = an_slts t"

lemma find_idx_same: "same_index n t \<Longrightarrow> art_find_idx n k = art_find_idx t k"
  by (cases "an_type t") (simp_all add: same_index_def art_find_idx_def node4_find_def node16_find_def node48_slot_def)

lemma slot_same: "same_index n t \<Longrightarrow> node48_slot n k = node48_slot t k"
  by (simp add: same_index_def node48_slot_def)

lemma view_same:
  assumes ok: "art_node_ok t" and n: "same_index n t"
    and chs: "if an_type t = NODE256 then an_chs n = an_chs t else an_chs n = live_chs t"
  shows "art_node_ok n \<and> art_view n = art_view t"
proof -
  have keys: "live_keys n = live_keys t" using n by (simp add: same_index_def live_keys_def)
  have len: "length (live_chs t) = an_size t" "an_size t \<le> art_capacity (an_type t)"
    if "an_type t \<noteq> NODE256"
    using ok that by (auto simp: art_node_ok_def keys_ok_def slots_ok_def live_chs_def split: art_type.splits)
  have live: "live_chs n = live_chs t" if "an_type t \<noteq> NODE256"
    using chs that len n by (simp add: live_chs_def [of n] same_index_def)
  have kok: "keys_ok cap n" if "keys_ok cap t" "an_type t \<noteq> NODE256" for cap
    using that n keys live len(1) chs by (simp add: keys_ok_def same_index_def)
  have sok: "slots_ok n" if o: "slots_ok t" "an_type t \<noteq> NODE256"
  proof -
    have "length (an_slts t) = 256" "an_size t \<le> 48" "nullptr \<notin> set (live_chs t)" using o(1) unfolding slots_ok_def by blast+
    then have "length (an_slts n) = 256 \<and> an_size n \<le> 48 \<and> an_size n \<le> length (an_chs n) \<and> length (an_chs n) \<le> 48 \<and>
        nullptr \<notin> set (live_chs n)" "an_size n = an_size t"
      using n live len(1) chs o(2) by (simp_all add: same_index_def)
    then show ?thesis using o(1) unfolding slots_ok_def slot_same [OF n] by metis
  qed
  have ty: "an_type n = an_type t" using n by (simp add: same_index_def)
  have "art_node_ok n"
  proof (cases "an_type t")
    case NODE4
    moreover have "keys_ok 4 n" using ok NODE4 by (intro kok) (simp_all add: art_node_ok_def)
    ultimately show ?thesis by (simp add: art_node_ok_def ty)
  next
    case NODE16
    moreover have "keys_ok 16 n" using ok NODE16 by (intro kok) (simp_all add: art_node_ok_def)
    ultimately show ?thesis by (simp add: art_node_ok_def ty)
  next
    case NODE48
    moreover have "slots_ok n" using ok NODE48 by (intro sok) (simp_all add: art_node_ok_def)
    ultimately show ?thesis by (simp add: art_node_ok_def ty)
  next
    case NODE256
    then show ?thesis using ok chs by (simp add: art_node_ok_def ty)
  qed (use ok in \<open>simp add: art_node_ok_def\<close>)
  moreover have "art_view n k = art_view t k" for k
  proof (cases "an_type t")
    case NODE48
    then have o: "slots_ok t" "slots_ok n" using ok \<open>art_node_ok n\<close> n by (auto simp: art_node_ok_def same_index_def)
    have "an_chs n ! unat (node48_slot t k) = an_chs t ! unat (node48_slot t k)" if "node48_slot t k \<noteq> - 1"
      using node48_slot_live [OF o(1) that] chs NODE48 by simp
    then show ?thesis using NODE48 ty o slot_same [OF n] by (simp add: view_48)
  qed (use ok \<open>art_node_ok n\<close> ty chs live keys in \<open>simp_all add: art_node_ok_def view_keys view_256\<close>)
  ultimately show ?thesis by blast
qed

text \<open>Copying the children of a node into a copy of its header.\<close>

lemma copych_view:
  assumes ok: "art_node_ok t" and n: "same_index n t" "an_chs n = []"
  shows "\<exists>n'. art_copych n t = Some n' \<and> art_node_ok n' \<and> art_view n' = art_view t \<and> rechild n n' \<and> same_index n' t"
proof -
  let ?n = "n\<lparr>an_chs := if an_type t = NODE256 then an_chs t else live_chs t\<rparr>"
  have idx: "same_index ?n t" using n by (simp add: same_index_def)
  have "art_copych n t = Some ?n"
    using ok n by (cases "an_type t")
      (auto simp: art_node_ok_def keys_ok_def slots_ok_def art_copych_def same_index_def buf_copy_def live_chs_def)
  moreover have "art_node_ok ?n \<and> art_view ?n = art_view t" by (rule view_same [OF ok idx]) simp
  ultimately show ?thesis using idx by blast
qed

section \<open>Inserting a child\<close>

lemma list_insert_update: "i \<le> length xs \<Longrightarrow> (list_insert i x xs)[i := y] = list_insert i y xs"
  by (simp add: list_insert_def list_update_append)

text \<open>Insertion into the sorted key array, possibly of a larger node.\<close>

lemma keys_insert:
  assumes ok: "keys_ok cap t" and k: "k \<notin> set (live_keys t)" and i: "i = find_gt (live_keys t) k" and a: "a \<noteq> nullptr"
    and n: "length (an_keys n) = cap'" "an_size n = Suc (an_size t)" "Suc (an_size t) \<le> cap'"
      "live_keys n = list_insert i k (live_keys t)" "live_chs n = list_insert i a (live_chs t)"
      "Suc (an_size t) \<le> length (an_chs n)" "length (an_chs n) \<le> cap'"
  shows "keys_ok cap' n"
    and "map_of (zip (live_keys n) (live_chs n)) = (map_of (zip (live_keys t) (live_chs t)))(k \<mapsto> a)"
proof -
  have sorted: "sorted_wrt (<) (live_keys t)" and null: "nullptr \<notin> set (live_chs t)" using ok by (simp_all add: keys_ok_def)
  have "sorted_wrt (<) (live_keys n)" unfolding n(4) i by (rule find_gt_insert_strict [OF sorted k])
  then show "keys_ok cap' n" using n a null ok by (simp add: keys_ok_def)
  have "k \<notin> fst ` set (zip (live_keys t) (live_chs t))" using k by (auto dest: set_zip_leftD)
  then show "map_of (zip (live_keys n) (live_chs n)) = (map_of (zip (live_keys t) (live_chs t)))(k \<mapsto> a)"
    using keys_ok_lengths [OF ok] unfolding n(4,5) by (simp add: zip_list_insert map_of_list_insert)
qed

definition header_like :: "art_node \<Rightarrow> u64 \<Rightarrow> art_node \<Rightarrow> bool" where
  "header_like t ver n \<longleftrightarrow>
     an_ver n = ver \<and> an_ofs n = an_ofs t \<and> an_len n = an_len t \<and> an_type n \<noteq> ALEAF \<and>
     an_pfx n \<in> {an_pfx t, an_pfx t AND art_prefix_mask (an_ofs t) (an_len t)}"

lemma rechild_fields:
  assumes "rechild t t'"
  shows "an_ver t' = an_ver t" "an_type t' = an_type t" "an_size t' = an_size t" "an_ofs t' = an_ofs t"
    "an_len t' = an_len t" "an_pfx t' = an_pfx t" "an_keys t' = an_keys t" "an_slts t' = an_slts t"
    "an_val t' = an_val t" "an_fat t' = an_fat t"
  using assms unfolding rechild_def by (cases t; cases t'; simp)+

lemma rechild_header: "header_like t ver n \<Longrightarrow> rechild n n' \<Longrightarrow> header_like t ver n'"
  by (simp add: header_like_def rechild_fields)

text \<open>A node with a fresh key whose child is set at the next pipeline stage.\<close>

definition grows_to :: "art_node \<Rightarrow> u64 \<Rightarrow> u8 \<Rightarrow> nat \<Rightarrow> art_node \<Rightarrow> bool" where
  "grows_to t ver k i n \<longleftrightarrow>
     (\<exists>cur. art_copych_at n t i = Some cur \<and>
       (\<forall>a. a \<noteq> nullptr \<longrightarrow> (\<exists>n'. art_setch cur i a = Some n' \<and> art_node_ok n' \<and>
          art_view n' = (art_view t)(k := a) \<and> header_like t ver n')))"

lemma keys_grow:
  assumes t: "keys_ok cap t" "an_type t = (if cap = 4 then NODE4 else NODE16)" "cap = 4 \<or> cap = 16"
    and k: "k \<notin> set (live_keys t)" and i: "i = find_gt (live_keys t) k"
    and n: "length (an_keys n) = cap'" "an_size n = Suc (an_size t)" "Suc (an_size t) \<le> cap'" "cap' = 4 \<or> cap' = 16" "cap \<le> cap'"
      "an_type n = (if cap' = 4 then NODE4 else NODE16)" "live_keys n = list_insert i k (live_keys t)"
      "length (an_chs n) \<le> cap'" "header_like t ver n"
  shows "grows_to t ver k i n"
proof -
  have len: "an_size t \<le> length (an_chs t)" using t(1) by (simp add: keys_ok_def)
  have i_le: "i \<le> an_size t" using find_gt_le [of "live_keys t" k] keys_ok_lengths [OF t(1)] i by simp
  define chs where "chs = take i (an_chs t) @ nullptr # take (an_size t - i) (drop i (an_chs t)) @ drop (Suc (an_size t)) (an_chs n)"
  have ins: "buf_copy_insert cap' (an_chs n) (an_chs t) (an_size t) i nullptr = Some chs"
    using i_le len n(3) by (simp add: buf_copy_insert_def chs_def)
  note live = buf_copy_insert_live [OF ins]
  have "length (take i (an_chs t)) = i" "length (take (an_size t - i) (drop i (an_chs t))) = an_size t - i"
    using i_le len by simp_all
  then have "length chs = i + Suc (an_size t - i) + (length (an_chs n) - Suc (an_size t))"
    unfolding chs_def by (simp only: length_append length_Cons length_drop)
  then have "length chs = max (Suc (an_size t)) (length (an_chs n))" using i_le by simp
  then have chs_len: "Suc (an_size t) \<le> length chs" "length chs \<le> cap'" using n(3,8) by auto
  have copy: "art_copych_at n t i = Some (n\<lparr>an_chs := chs\<rparr>)"
    using t n ins by (auto simp: art_copych_at_def split: if_splits)
  have "\<exists>n'. art_setch (n\<lparr>an_chs := chs\<rparr>) i a = Some n' \<and> art_node_ok n' \<and> art_view n' = (art_view t)(k := a) \<and> header_like t ver n'"
    if a: "a \<noteq> nullptr" for a
  proof -
    let ?n = "n\<lparr>an_chs := chs[i := a]\<rparr>"
    have "live_chs ?n = take (Suc (an_size t)) (chs[i := a])" using n(2) by (simp add: live_chs_def)
    also have "\<dots> = (list_insert i nullptr (take (an_size t) (an_chs t)))[i := a]"
      using live(1) by (simp add: take_update_swap)
    also have "\<dots> = list_insert i a (live_chs t)" using i_le len by (simp add: list_insert_update live_chs_def)
    finally have "live_chs ?n = list_insert i a (live_chs t)" .
    from keys_insert [OF t(1) k i a _ _ n(3) _ this] n chs_len
    have ok: "keys_ok cap' ?n" and m: "map_of (zip (live_keys ?n) (live_chs ?n)) = (map_of (zip (live_keys t) (live_chs t)))(k \<mapsto> a)"
      by simp_all
    have "art_view ?n = (art_view t)(k := a)"
    proof
      fix l
      have "art_view ?n l = (case map_of (zip (live_keys ?n) (live_chs ?n)) l of None \<Rightarrow> nullptr | Some c \<Rightarrow> c)"
        using ok n(4,6) by (auto simp: view_keys split: if_splits)
      moreover have "art_view t l = (case map_of (zip (live_keys t) (live_chs t)) l of None \<Rightarrow> nullptr | Some c \<Rightarrow> c)"
        using t by (auto simp: view_keys split: if_splits)
      ultimately show "art_view ?n l = ((art_view t)(k := a)) l" by (simp only: m) simp
    qed
    moreover have "art_setch (n\<lparr>an_chs := chs\<rparr>) i a = Some ?n"
      using n(6) chs_len i_le by (auto simp: art_setch_def art_cell_def)
    moreover have "art_node_ok ?n" using ok n(4,6) by (auto simp: art_node_ok_def)
    moreover have "header_like t ver ?n" using n(9) by (simp add: header_like_def)
    ultimately show ?thesis by blast
  qed
  with copy show ?thesis unfolding grows_to_def by blast
qed

text \<open>Growth of a full \<^verbatim>\<open>node16\<close> to a \<^verbatim>\<open>node48\<close>: the children get the slot numbers of their keys.\<close>

lemma length_number_slots [simp]: "length (number_slots ks i sl) = length sl"
  by (induction ks i sl rule: number_slots.induct) simp_all

lemma number_slots_nth:
  "distinct ks \<Longrightarrow> length sl = 256 \<Longrightarrow>
     number_slots ks i sl ! unat k = (case find_key ks k of None \<Rightarrow> sl ! unat k | Some j \<Rightarrow> of_nat (i + j))"
proof (induction ks i sl rule: number_slots.induct)
  case (2 x ks i sl)
  have "find_key ks x = None" using 2(2) by (simp add: find_key_None)
  then show ?case
  proof (cases "x = k")
    case True
    with 2 \<open>find_key ks x = None\<close> show ?thesis using unat_byte [of x] by simp
  next
    case False
    then have "unat x \<noteq> unat k" by (simp add: word_unat_eq_iff)
    with 2 False show ?thesis by (simp add: ac_simps split: option.splits)
  qed
qed simp

lemma small_slot: "i < 48 \<Longrightarrow> unat (of_nat i :: u8) = i \<and> (of_nat i :: u8) \<noteq> - 1"
proof -
  assume "i < 48"
  then have u: "unat (of_nat i :: u8) = i" by (simp add: unat_of_nat)
  have "unat (- 1 :: u8) = 255" by (simp add: unsigned_minus_1_eq_mask mask_eq_exp_minus_1)
  with u \<open>i < 48\<close> show ?thesis by force
qed

text \<open>A \<^verbatim>\<open>node48\<close> with a fresh slot: the next free child cell.\<close>

lemma slots_grow:
  fixes n :: art_node
  assumes slots: "\<And>l. node48_slot n l = (if l = k then of_nat m else sl l)"
    and old: "\<And>l. sl l \<noteq> - 1 \<Longrightarrow> unat (sl l) < m" "\<And>l l'. sl l \<noteq> - 1 \<Longrightarrow> sl l = sl l' \<Longrightarrow> l = l'"
    and m: "m < 48" "length (an_slts n) = 256" "an_type n = NODE48" "an_size n = Suc m"
    and chs: "take m (an_chs n) = cs" "length cs = m" "nullptr \<notin> set cs" "length (an_chs n) \<le> 48"
    and view: "\<And>l. f l = (if sl l = - 1 then nullptr else cs ! unat (sl l))" and a: "a \<noteq> nullptr"
  shows "\<exists>n'. art_setch n (unat k) a = Some n' \<and> art_node_ok n' \<and> art_view n' = f(k := a) \<and> rechild n n'"
proof -
  have len: "m \<le> length (an_chs n)" using chs(1,2) by (metis length_take min.cobounded1)
  define xs where "xs = (if m < length (an_chs n) then (an_chs n)[m := a] else an_chs n @ [a])"
  have xs: "take (Suc m) xs = cs @ [a]" "Suc m \<le> length xs" "length xs \<le> 48"
    using len chs m(1) by (auto simp: xs_def take_Suc_conv_app_nth)
  have nth: "xs ! i = cs ! i" if "i < m" for i
    using that xs(1) chs(2) by (metis less_SucI nth_append nth_take)
  have nth_m: "xs ! m = a" using xs(1) chs(2) by (metis lessI nth_append_length nth_take)
  let ?n = "n\<lparr>an_chs := xs\<rparr>"
  have slot: "node48_slot ?n l = (if l = k then of_nat m else sl l)" for l
    using slots [of l] by (simp add: node48_slot_def)
  note mm = small_slot [OF m(1)]
  have "nth_opt (an_slts n) (unat k) = Some (of_nat m)"
    using slots [of k] m(2) unat_byte [of k] by (simp add: node48_slot_def)
  then have "art_setch n (unat k) a = Some ?n"
    using m mm len by (simp add: art_setch_def art_cell_def buf_write_def xs_def)
  moreover have ok: "slots_ok ?n"
    unfolding slots_ok_def
  proof (intro conjI allI impI)
    show "nullptr \<notin> set (live_chs ?n)" using xs(1) chs(3) a m(4) by (simp add: live_chs_def)
    fix l l'
    show "unat (node48_slot ?n l) < an_size ?n" if "node48_slot ?n l \<noteq> - 1"
    proof (cases "l = k")
      case True
      then show ?thesis using mm m(4) by (simp only: slot if_True) simp
    next
      case False
      then have "sl l \<noteq> - 1" using that slot [of l] by simp
      then have "unat (sl l) < m" by (rule old(1))
      then show ?thesis using False m(4) by (simp only: slot if_False) simp
    qed
    show "l = l'" if "node48_slot ?n l \<noteq> - 1" "node48_slot ?n l = node48_slot ?n l'"
    proof (cases "l = k \<or> l' = k")
      case True
      show ?thesis
      proof (rule ccontr)
        assume "l \<noteq> l'"
        have z: "sl (if l = k then l' else l) = of_nat m" "sl (if l = k then l' else l) \<noteq> - 1"
          using True that \<open>l \<noteq> l'\<close> unfolding slot by (auto split: if_splits)
        have "unat (sl (if l = k then l' else l)) < m" by (rule old(1) [OF z(2)])
        then show False unfolding z(1) using mm by (metis less_irrefl)
      qed
    next
      case False
      then show ?thesis using that old(2) [of l l'] slot by metis
    qed
  qed (use xs m in simp_all)
  moreover have "art_view ?n = f(k := a)"
  proof
    fix l
    show "art_view ?n l = (f(k := a)) l"
      using ok m(3) old(1) [of l] nth [of "unat (sl l)"] nth_m mm view [of l] by (simp add: view_48 slot)
  qed
  ultimately show ?thesis using m(3) by (intro exI [of _ ?n]) (auto simp: art_node_ok_def)
qed

text \<open>A full \<^verbatim>\<open>node48\<close> becomes a \<^verbatim>\<open>node256\<close>: every child moves to the cell of its byte.\<close>

lemma spread_slots_spec:
  assumes "\<And>k. k < 256 \<Longrightarrow> sl ! k \<noteq> - 1 \<Longrightarrow> unat (sl ! k) < length src"
  shows "m \<le> 256 \<Longrightarrow> length dst = 256 \<Longrightarrow>
    \<exists>dst'. spread_slots m sl src dst = Some dst' \<and> length dst' = 256 \<and>
      (\<forall>k < 256. dst' ! k = (if 256 - m \<le> k \<and> sl ! k \<noteq> - 1 then src ! unat (sl ! k) else dst ! k))"
proof (induction m arbitrary: dst)
  case (Suc m)
  define k where "k = 255 - m"
  have k: "k < 256" "256 - Suc m = k" "256 - m = Suc k" using Suc.prems(1) by (simp_all add: k_def)
  define d where "d = (if sl ! k \<noteq> - 1 then dst[k := src ! unat (sl ! k)] else dst)"
  have len: "length d = 256" using Suc.prems(2) by (simp add: d_def)
  have "spread_slots (Suc m) sl src dst = spread_slots m sl src d"
    using assms [OF k(1)] k(1) Suc.prems(2) by (simp add: Let_def d_def flip: k_def)
  moreover obtain dst' where d': "spread_slots m sl src d = Some dst'" "length dst' = 256"
    "\<forall>i < 256. dst' ! i = (if 256 - m \<le> i \<and> sl ! i \<noteq> - 1 then src ! unat (sl ! i) else d ! i)"
    using Suc.IH [OF _ len] Suc.prems(1) by auto
  moreover have "dst' ! i = (if k \<le> i \<and> sl ! i \<noteq> - 1 then src ! unat (sl ! i) else dst ! i)" if i: "i < 256" for i
  proof (cases "i = k")
    case True
    then show ?thesis using d'(3) i k Suc.prems(2) by (simp add: d_def)
  next
    case False
    then have "d ! i = dst ! i" by (simp add: d_def)
    then show ?thesis using d'(3) i k False by auto
  qed
  ultimately show ?case unfolding k(2) by simp
qed simp

text \<open>
  The key is absent: the new node (a copy, or the next larger class) has room for it, and after both
  pipeline stages its view is the old one with the new child.
\<close>

lemma node4_grow:
  assumes t: "art_node_ok t" "an_type t = NODE4" and none: "art_find_idx t k = None"
    and n: "(if art_is_full t then art_node_extend t ver else Some (art_node_copy t ver)) = Some n"
  shows "\<exists>i n'. art_append n k = Some (i, n') \<and> grows_to t ver k i n'"
proof -
  have ok: "keys_ok 4 t" and k: "k \<notin> set (live_keys t)"
    using t find_idx_None(3) [OF t(1) none] by (simp_all add: art_node_ok_def)
  let ?i = "find_gt (live_keys t) k"
  have i: "?i \<le> an_size t" using find_gt_le [of "live_keys t" k] keys_ok_lengths [OF ok] by simp
  have len: "length (an_keys t) = 4" "2 \<le> an_size t" "an_size t \<le> 4" using ok by (simp_all add: keys_ok_def)
  show ?thesis
  proof (cases "an_size t = 4")
    case False
    then have n: "n = art_node_copy t ver" using n t(2) by (simp add: art_is_full_def)
    obtain ks where ks: "buf_insert 4 (an_keys t) (an_size t) ?i k = Some ks" "length ks = 4"
      using False len i by (auto simp: buf_insert_def)
    let ?n = "n\<lparr>an_keys := ks, an_size := Suc (an_size t)\<rparr>"
    have "art_append n k = Some (?i, ?n)"
      using t(2) ks by (simp add: n art_append_def node4_append_def node4_findgt_def art_node_copy_def live_keys_def)
    moreover have "live_keys ?n = list_insert ?i k (live_keys t)"
      using buf_insert_live(1) [OF ks(1)] by (simp add: live_keys_def)
    then have "grows_to t ver k ?i ?n"
      using t(2) ok k False len ks by (intro keys_grow [where cap = 4 and cap' = 4]) (simp_all add: n art_node_copy_def header_like_def)
    ultimately show ?thesis by blast
  next
    case True
    then have n: "n = node4_extend t ver" using n t(2) by (simp add: art_is_full_def art_node_extend_def)
    have keys: "an_keys n = an_keys t @ replicate 12 0" "an_size n = 4" "an_type n = NODE16" "length (an_chs n) = 16"
      using len by (simp_all add: n node4_extend_def art_new_node_def)
    obtain ks where ks: "buf_insert 16 (an_keys n) 4 ?i k = Some ks" "length ks = 16"
      using keys len i True by (auto simp: buf_insert_def)
    let ?n = "n\<lparr>an_keys := ks, an_size := Suc (an_size t)\<rparr>"
    have "take 4 (an_keys n) = live_keys t" using keys len True by (simp add: live_keys_def)
    then have "art_append n k = Some (?i, ?n)" and live: "live_keys ?n = list_insert ?i k (live_keys t)"
      using keys ks True buf_insert_live(1) [OF ks(1)]
      by (simp_all add: art_append_def node16_append_def node16_findgt_def live_keys_def)
    moreover have "header_like t ver ?n" by (auto simp: n node4_extend_def art_new_node_def header_like_def)
    then have "grows_to t ver k ?i ?n"
      using t(2) ok k True len ks keys live by (intro keys_grow [where cap = 4 and cap' = 16]) simp_all
    ultimately show ?thesis by blast
  qed
qed

lemma node16_grow:
  assumes t: "art_node_ok t" "an_type t = NODE16" and none: "art_find_idx t k = None"
    and n: "(if art_is_full t then art_node_extend t ver else Some (art_node_copy t ver)) = Some n"
  shows "\<exists>i n'. art_append n k = Some (i, n') \<and> grows_to t ver k i n'"
proof -
  have ok: "keys_ok 16 t" and k: "k \<notin> set (live_keys t)"
    using t find_idx_None(3) [OF t(1) none] by (simp_all add: art_node_ok_def)
  let ?i = "find_gt (live_keys t) k"
  have i: "?i \<le> an_size t" using find_gt_le [of "live_keys t" k] keys_ok_lengths [OF ok] by simp
  have len: "length (an_keys t) = 16" "2 \<le> an_size t" "an_size t \<le> 16" "an_size t \<le> length (an_chs t)"
    using ok by (simp_all add: keys_ok_def)
  show ?thesis
  proof (cases "an_size t = 16")
    case False
    then have n: "n = art_node_copy t ver" using n t(2) by (simp add: art_is_full_def)
    obtain ks where ks: "buf_insert 16 (an_keys t) (an_size t) ?i k = Some ks" "length ks = 16"
      using False len i by (auto simp: buf_insert_def)
    let ?n = "n\<lparr>an_keys := ks, an_size := Suc (an_size t)\<rparr>"
    have "art_append n k = Some (?i, ?n)"
      using t(2) ks by (simp add: n art_append_def node16_append_def node16_findgt_def art_node_copy_def live_keys_def)
    moreover have "live_keys ?n = list_insert ?i k (live_keys t)"
      using buf_insert_live(1) [OF ks(1)] by (simp add: live_keys_def)
    then have "grows_to t ver k ?i ?n"
      using t(2) ok k False len ks by (intro keys_grow [where cap = 16 and cap' = 16]) (simp_all add: n art_node_copy_def header_like_def)
    ultimately show ?thesis by blast
  next
    case True
    then have n: "n = node16_extend t ver" using n t(2) by (simp add: art_is_full_def art_node_extend_def)
    let ?sl = "number_slots (an_keys t) 0 (replicate 256 (- 1))"
    have keys: "live_keys t = an_keys t" using len True by (simp add: live_keys_def)
    have nf: "an_slts n = ?sl" "an_size n = 16" "an_type n = NODE48" "an_chs n = replicate 48 nullptr"
      using len by (simp_all add: n node16_extend_def art_new_node_def)
    let ?n = "n\<lparr>an_slts := ?sl[unat k := 16], an_size := 17\<rparr>"
    have "art_append n k = Some (unat k, ?n)" using nf by (simp add: art_append_def node48_append_def)
    moreover have "grows_to t ver k (unat k) ?n"
    proof -
      let ?cur = "?n\<lparr>an_chs := live_chs t @ replicate 32 nullptr\<rparr>"
      have live: "length (live_chs t) = 16" "nullptr \<notin> set (live_chs t)"
        using ok True keys_ok_lengths [OF ok] by (simp_all add: keys_ok_def)
      have "art_copych_at ?n t (unat k) = Some ?cur"
        using t(2) nf True len by (simp add: art_copych_at_def buf_copy_def live_chs_def)
      moreover have "\<exists>n'. art_setch ?cur (unat k) a = Some n' \<and> art_node_ok n' \<and> art_view n' = (art_view t)(k := a) \<and> header_like t ver n'"
        if a: "a \<noteq> nullptr" for a
      proof -
        define sl where "sl l = (case find_key (live_keys t) l of None \<Rightarrow> - 1 | Some j \<Rightarrow> (of_nat j :: u8))" for l
        have d: "distinct (live_keys t)" by (rule live_keys_distinct [OF ok])
        have slots: "node48_slot ?cur l = (if l = k then of_nat 16 else sl l)" for l
          using number_slots_nth [OF d, of "replicate 256 (- 1)" 0 l] unat_byte [of l] unat_byte [of k]
          by (auto simp: node48_slot_def sl_def keys nth_list_update word_unat_eq_iff split: option.splits)
        have key: "find_key (live_keys t) l = Some j \<Longrightarrow> j < 16 \<and> sl l = of_nat j \<and> unat (sl l) = j \<and> sl l \<noteq> - 1" for l j
          using find_key_Some [of "live_keys t" l j] keys_ok_lengths [OF ok] True small_slot [of j] by (simp add: sl_def)
        have used: "sl l \<noteq> - 1 \<Longrightarrow> \<exists>j. find_key (live_keys t) l = Some j" for l by (auto simp: sl_def split: option.splits)
        have "\<exists>n'. art_setch ?cur (unat k) a = Some n' \<and> art_node_ok n' \<and> art_view n' = (art_view t)(k := a) \<and> rechild ?cur n'"
        proof (rule slots_grow [OF slots, where cs = "live_chs t"])
          show "unat (sl l) < 16" if "sl l \<noteq> - 1" for l using used [OF that] key by auto
          show "l = l'" if l: "sl l \<noteq> - 1" "sl l = sl l'" for l l'
          proof -
            obtain j j' where "find_key (live_keys t) l = Some j" "find_key (live_keys t) l' = Some j'"
              using used [OF l(1)] used [of l'] l by metis
            with key [of l j] key [of l' j'] l(2) have "find_key (live_keys t) l = Some j" "find_key (live_keys t) l' = Some j" by auto
            then show ?thesis using find_key_Some by metis
          qed
          show "art_view t l = (if sl l = - 1 then nullptr else live_chs t ! unat (sl l))" for l
          proof (cases "find_key (live_keys t) l")
            case None
            then show ?thesis using t(2) keys_find [OF ok, of l] by (simp add: view_keys ok sl_def)
          next
            case (Some j)
            then have "j < length (an_chs t)" "live_chs t ! j = an_chs t ! j" using key [OF Some] len True by (simp_all add: live_chs_def)
            then have "art_view t l = live_chs t ! j" using t(2) keys_find [OF ok, of l] by (simp add: view_keys ok Some)
            moreover have "unat (sl l) = j" "sl l \<noteq> - 1" using key [OF Some] by blast+
            ultimately show ?thesis by (simp only: if_False)
          qed
        qed (use live nf len a in simp_all)
        moreover have "header_like t ver ?cur" by (auto simp: n node16_extend_def art_new_node_def header_like_def)
        ultimately show ?thesis using rechild_header by blast
      qed
      ultimately show ?thesis unfolding grows_to_def by blast
    qed
    ultimately show ?thesis by blast
  qed
qed

lemma node48_grow:
  assumes t: "art_node_ok t" "an_type t = NODE48" and none: "art_find_idx t k = None"
    and n: "(if art_is_full t then art_node_extend t ver else Some (art_node_copy t ver)) = Some n"
  shows "\<exists>i n'. art_append n k = Some (i, n') \<and> grows_to t ver k i n'"
proof -
  have ok: "slots_ok t" and k: "node48_slot t k = - 1"
    using t find_idx_None(4) [OF t(1) none] by (simp_all add: art_node_ok_def)
  have len: "length (an_slts t) = 256" "an_size t \<le> 48" "an_size t \<le> length (an_chs t)" "nullptr \<notin> set (live_chs t)"
    using ok unfolding slots_ok_def by blast+
  have live: "length (live_chs t) = an_size t" using len(3) by (simp add: live_chs_def)
  have view: "art_view t l = (if node48_slot t l = - 1 then nullptr else live_chs t ! unat (node48_slot t l))" for l
    using node48_slot_live(2) [OF ok, of l] view_48 [OF t(2) ok, of l] by simp
  show ?thesis
  proof (cases "an_size t = 48")
    case False
    then have n: "n = art_node_copy t ver" using n t(2) by (simp add: art_is_full_def)
    let ?n = "n\<lparr>an_slts := (an_slts t)[unat k := of_nat (an_size t)], an_size := Suc (an_size t)\<rparr>"
    have "art_append n k = Some (unat k, ?n)" using t(2) by (simp add: n art_append_def node48_append_def art_node_copy_def)
    moreover have "grows_to t ver k (unat k) ?n"
    proof -
      let ?cur = "?n\<lparr>an_chs := live_chs t\<rparr>"
      have "art_copych_at ?n t (unat k) = Some ?cur"
        using t(2) len by (simp add: n art_node_copy_def art_copych_at_def art_copych_def live_chs_def)
      moreover have "\<exists>n'. art_setch ?cur (unat k) a = Some n' \<and> art_node_ok n' \<and> art_view n' = (art_view t)(k := a) \<and> header_like t ver n'"
        if a: "a \<noteq> nullptr" for a
      proof -
        have slots: "node48_slot ?cur l = (if l = k then of_nat (an_size t) else node48_slot t l)" for l
          using len(1) unat_byte [of l] unat_byte [of k] by (auto simp: node48_slot_def nth_list_update word_unat_eq_iff)
        have "\<exists>n'. art_setch ?cur (unat k) a = Some n' \<and> art_node_ok n' \<and> art_view n' = (art_view t)(k := a) \<and> rechild ?cur n'"
        proof (rule slots_grow [OF slots, where cs = "live_chs t"])
          show "unat (node48_slot t l) < an_size t" if "node48_slot t l \<noteq> - 1" for l by (rule node48_slot_live(1) [OF ok that])
          show "l = l'" if "node48_slot t l \<noteq> - 1" "node48_slot t l = node48_slot t l'" for l l'
            using ok that unfolding slots_ok_def by blast
          show "art_view t l = (if node48_slot t l = - 1 then nullptr else live_chs t ! unat (node48_slot t l))" for l by (rule view)
        qed (use t(2) len live False a in \<open>simp_all add: n art_node_copy_def\<close>)
        moreover have "header_like t ver ?cur" using t(2) by (simp add: n art_node_copy_def header_like_def)
        ultimately show ?thesis using rechild_header by blast
      qed
      ultimately show ?thesis unfolding grows_to_def by blast
    qed
    ultimately show ?thesis by blast
  next
    case True
    then have n: "n = node48_extend t ver" using n t(2) by (simp add: art_is_full_def art_node_extend_def)
    have nf: "an_type n = NODE256" "an_chs n = replicate 256 nullptr" "header_like t ver n"
      by (auto simp: n node48_extend_def art_new_node_def header_like_def)
    have "art_append n k = Some (unat k, n)" using nf by (simp add: art_append_def)
    moreover have "grows_to t ver k (unat k) n"
    proof -
      have src: "unat (an_slts t ! j) < length (an_chs t)" if j: "j < 256" "an_slts t ! j \<noteq> - 1" for j
      proof -
        have "unat (of_nat j :: u8) = j" using j(1) by (simp add: unat_of_nat)
        then have "node48_slot t (of_nat j) = an_slts t ! j" by (simp add: node48_slot_def)
        then show ?thesis using node48_slot_live(1) [OF ok, of "of_nat j"] j(2) len(3) by simp
      qed
      from spread_slots_spec [OF src, where m = 256 and dst = "replicate 256 nullptr"] obtain chs where
        chs: "spread_slots 256 (an_slts t) (an_chs t) (replicate 256 nullptr) = Some chs" "length chs = 256"
        "\<forall>j < 256. chs ! j = (if an_slts t ! j \<noteq> - 1 then an_chs t ! unat (an_slts t ! j) else nullptr)" by auto
      let ?cur = "n\<lparr>an_chs := chs\<rparr>"
      have "art_copych_at n t (unat k) = Some ?cur"
        using t(2) nf chs(1) by (simp add: art_copych_at_def)
      moreover have same: "art_view ?cur = art_view t"
      proof
        fix l
        have "art_view ?cur l = chs ! unat l" using view_256 [of ?cur l] nf(1) chs(2) by simp
        also have "\<dots> = (if node48_slot t l \<noteq> - 1 then an_chs t ! unat (node48_slot t l) else nullptr)"
          unfolding node48_slot_def by (rule chs(3) [rule_format, OF unat_byte])
        finally show "art_view ?cur l = art_view t l" unfolding view_48 [OF t(2) ok] by (cases "node48_slot t l = - 1") (simp_all only: if_True if_False simp_thms)
      qed
      moreover have cok: "art_node_ok ?cur" using nf chs by (simp add: art_node_ok_def)
      moreover have "art_find_idx ?cur k = Some (unat k)" using nf by (simp add: art_find_idx_def)
      moreover have "header_like t ver ?cur" using nf(3) by (simp add: header_like_def)
      ultimately have idx: "art_find_idx ?cur k = Some (unat k)" and hd: "header_like t ver ?cur" and
        copy: "art_copych_at n t (unat k) = Some ?cur" by blast+
      have "\<exists>n'. art_setch ?cur (unat k) a = Some n' \<and> art_node_ok n' \<and> art_view n' = (art_view t)(k := a) \<and> header_like t ver n'"
        if a: "a \<noteq> nullptr" for a
        using setch_view [OF cok idx a] rechild_header [OF hd] unfolding same by blast
      with copy show ?thesis unfolding grows_to_def by blast
    qed
    ultimately show ?thesis by blast
  qed
qed

lemma node_grow:
  assumes "art_node_ok t" "art_find_idx t k = None"
  shows "\<exists>n i n'. (if art_is_full t then art_node_extend t ver else Some (art_node_copy t ver)) = Some n \<and>
    art_append n k = Some (i, n') \<and> grows_to t ver k i n'"
proof -
  have ty: "an_type t = NODE4 \<or> an_type t = NODE16 \<or> an_type t = NODE48"
    using find_idx_None(2) [OF assms] assms(1) by (cases "an_type t") (simp_all add: art_node_ok_def)
  then obtain n where n: "(if art_is_full t then art_node_extend t ver else Some (art_node_copy t ver)) = Some n"
    by (cases "art_is_full t") (auto simp: art_node_extend_def)
  with ty show ?thesis
    using node4_grow [OF assms(1) _ assms(2) n] node16_grow [OF assms(1) _ assms(2) n] node48_grow [OF assms(1) _ assms(2) n]
    by blast
qed

end
