(* ===== verification/ART_Tree.thy ===== *)
theory ART_Tree
  imports ART_View
begin

text \<open>
  The adaptive radix tree as a whole: its abstraction as a datatype, the invariant, the map from keys to
  values it stands for at a snapshot version, and the correctness of the lookups over it.
\<close>

datatype art_tree = ATip | ALf addr art_node | AIn addr art_node "u8 \<Rightarrow> art_tree"

fun art_addr :: "art_tree \<Rightarrow> addr" where
  "art_addr ATip = nullptr"
| "art_addr (ALf a t) = a"
| "art_addr (AIn a t cs) = a"

primrec art_addrs :: "art_tree \<Rightarrow> addr set" where
  "art_addrs ATip = {}"
| "art_addrs (ALf a t) = {a}"
| "art_addrs (AIn a t cs) = insert a (\<Union>k. art_addrs (cs k))"

primrec art_keys :: "art_tree \<Rightarrow> u64 set" where
  "art_keys ATip = {}"
| "art_keys (ALf a t) = {an_pfx t}"
| "art_keys (AIn a t cs) = (\<Union>k. art_keys (cs k))"

primrec art_repr :: "art_store \<Rightarrow> art_tree \<Rightarrow> bool" where
  "art_repr s ATip \<longleftrightarrow> True"
| "art_repr s (ALf a t) \<longleftrightarrow> cells s a = Some t"
| "art_repr s (AIn a t cs) \<longleftrightarrow> cells s a = Some t \<and> (\<forall>k. art_repr s (cs k))"

text \<open>The value of a key at a snapshot: descend by the branching bytes, compare the whole key at the leaf.\<close>

primrec art_map :: "u64 \<Rightarrow> art_tree \<Rightarrow> u64 \<Rightarrow> u64 option" where
  "art_map u ATip = (\<lambda>key. None)"
| "art_map u (ALf a t) = (\<lambda>key. if key = an_pfx t then Some (fat_read (an_fat t) (an_val t) u) else None)"
| "art_map u (AIn a t cs) = (\<lambda>key. art_map u (cs (abyte key (an_ofs t + an_len t))) key)"

primrec art_leaf_addr :: "art_tree \<Rightarrow> u64 \<Rightarrow> addr" where
  "art_leaf_addr ATip = (\<lambda>key. nullptr)"
| "art_leaf_addr (ALf a t) = (\<lambda>key. if key = an_pfx t then a else nullptr)"
| "art_leaf_addr (AIn a t cs) = (\<lambda>key. art_leaf_addr (cs (abyte key (an_ofs t + an_len t))) key)"

text \<open>
  The invariant of a subtree at byte offset \<open>ofs\<close>: every node is a sound representation of its children,
  all keys below it agree with its prefix and with the byte that leads to them, addresses do not repeat.
\<close>

primrec art_inv :: "nat \<Rightarrow> u32 \<Rightarrow> art_tree \<Rightarrow> nat \<Rightarrow> bool" where
  "art_inv slots hi ATip = (\<lambda>ofs. True)"
| "art_inv slots hi (ALf a t) = (\<lambda>ofs.
     an_type t = ALEAF \<and> ofs \<le> 8 \<and> an_ofs t = ofs \<and> an_len t = 8 - ofs \<and> fat_ok slots hi (an_fat t))"
| "art_inv slots hi (AIn a t cs) = (\<lambda>ofs.
     art_node_ok t \<and> an_ofs t = ofs \<and> ofs + an_len t \<le> 7 \<and> (\<forall>k. art_view t k = art_addr (cs k)) \<and>
     (\<forall>k. \<forall>x \<in> art_keys (cs k). same_bytes ofs (ofs + an_len t) x (an_pfx t) \<and> abyte x (ofs + an_len t) = k) \<and>
     (\<forall>k. art_inv slots hi (cs k) (ofs + an_len t + 1)) \<and>
     (\<forall>k. a \<notin> art_addrs (cs k)) \<and> (\<forall>k l. k \<noteq> l \<longrightarrow> art_addrs (cs k) \<inter> art_addrs (cs l) = {}))"

lemma art_inv_inner:
  assumes "art_inv slots hi (AIn a t cs) ofs"
  shows "art_node_ok t" "an_ofs t = ofs" "ofs + an_len t \<le> 7" "art_view t k = art_addr (cs k)"
    and "x \<in> art_keys (cs k) \<Longrightarrow> same_bytes ofs (ofs + an_len t) x (an_pfx t)"
    and "x \<in> art_keys (cs k) \<Longrightarrow> abyte x (ofs + an_len t) = k"
    and "art_inv slots hi (cs k) (ofs + an_len t + 1)" "a \<notin> art_addrs (cs k)"
    and "k \<noteq> l \<Longrightarrow> art_addrs (cs k) \<inter> art_addrs (cs l) = {}"
  using assms unfolding art_inv.simps by blast+

lemma art_inv_innerI:
  assumes "art_node_ok t" "an_ofs t = ofs" "ofs + an_len t \<le> 7" "\<And>k. art_view t k = art_addr (cs k)"
    and "\<And>k x. x \<in> art_keys (cs k) \<Longrightarrow> same_bytes ofs (ofs + an_len t) x (an_pfx t) \<and> abyte x (ofs + an_len t) = k"
    and "\<And>k. art_inv slots hi (cs k) (ofs + an_len t + 1)" "\<And>k. a \<notin> art_addrs (cs k)"
    and "\<And>k l. k \<noteq> l \<Longrightarrow> art_addrs (cs k) \<inter> art_addrs (cs l) = {}"
  shows "art_inv slots hi (AIn a t cs) ofs"
  using assms unfolding art_inv.simps by blast

section \<open>Frames\<close>

lemma fat_ok_mono: "fat_ok slots hi v \<Longrightarrow> hi \<le> hi' \<Longrightarrow> fat_ok slots hi' v"
  unfolding fat_ok_def by (meson order_trans)

lemma art_repr_frame:
  "art_repr s T \<Longrightarrow> (\<And>a. a \<in> art_addrs T \<Longrightarrow> cells s' a = cells s a) \<Longrightarrow> art_repr s' T"
proof (induction T)
  case (AIn a t cs)
  have "art_repr s' (cs k)" for k
    using AIn.IH [of "cs k"] AIn.prems by auto
  with AIn.prems show ?case by auto
qed simp_all

lemma art_repr_live: "art_repr s T \<Longrightarrow> art_addrs T \<subseteq> dom (cells s)"
proof (induction T)
  case (AIn a t cs)
  have "art_addrs (cs k) \<subseteq> dom (cells s)" for k using AIn by auto
  with AIn.prems show ?case by auto
qed auto

lemma art_repr_below: "store_ok s \<Longrightarrow> art_repr s T \<Longrightarrow> x \<in> art_addrs T \<Longrightarrow> 0 < x \<and> x < brk s"
  using art_repr_live [of s T] store_ok_less [of s x] store_ok_not_null [of s x] by fastforce

lemma art_addr_in: "T \<noteq> ATip \<Longrightarrow> art_addr T \<in> art_addrs T"
  by (cases T) auto

lemma art_addr_null: "store_ok s \<Longrightarrow> art_repr s T \<Longrightarrow> art_addr T = nullptr \<longleftrightarrow> T = ATip"
  using art_repr_below [of s T "art_addr T"] art_addr_in [of T] by (cases T) auto

lemma art_inv_mono: "art_inv slots hi T ofs \<Longrightarrow> hi \<le> hi' \<Longrightarrow> art_inv slots hi' T ofs"
proof (induction T arbitrary: ofs)
  case (ALf a t)
  then show ?case by (auto simp: fat_ok_mono)
next
  case (AIn a t cs)
  have "art_inv slots hi' (cs k) (ofs + an_len t + 1)" for k
    using AIn.prems by (intro AIn.IH) auto
  with AIn.prems show ?case by simp
qed simp

section \<open>Keys\<close>

lemma art_leaf_bytes:
  "art_inv slots hi (ALf a t) ofs \<Longrightarrow> an_len t \<le> art_prefix_match t key \<longleftrightarrow> same_bytes ofs 8 key (an_pfx t)"
  using prefix_match_ge [of t "an_len t" key] by simp

lemma art_inner_bytes:
  "art_inv slots hi (AIn a t cs) ofs \<Longrightarrow>
     an_len t \<le> art_prefix_match t key \<longleftrightarrow> same_bytes ofs (ofs + an_len t) key (an_pfx t)"
  using prefix_match_ge [of t "an_len t" key] by simp

lemma same_bytes_key: "same_bytes 0 ofs x key \<Longrightarrow> ofs \<le> 8 \<Longrightarrow> same_bytes ofs 8 key x \<longleftrightarrow> key = x"
  using same_bytes_split [of 0 ofs 8 key x] same_bytes_eq [of key x] same_bytes_sym [of 0 ofs x key] by auto

lemma art_map_keys: "art_inv slots hi T ofs \<Longrightarrow> dom (art_map u T) = art_keys T"
proof (induction T arbitrary: ofs)
  case (AIn a t cs)
  have IH: "dom (art_map u (cs k)) = art_keys (cs k)" for k
    using AIn.prems by (intro AIn.IH [of "cs k" "ofs + an_len t + 1"]) auto
  have "abyte x (an_ofs t + an_len t) = k" if "x \<in> art_keys (cs k)" for x k using AIn.prems that by auto
  then have "key \<in> art_keys (AIn a t cs) \<longleftrightarrow> key \<in> art_keys (cs (abyte key (an_ofs t + an_len t)))" for key by auto
  then show ?case unfolding IH [symmetric] by (auto simp: dom_def)
qed (auto simp: dom_def)

text \<open>Below a node the keys agree up to the offset of its children.\<close>

lemma art_child_bytes:
  assumes "art_inv slots hi (AIn a t cs) ofs" "same_bytes ofs (ofs + an_len t) key (an_pfx t)"
    "\<forall>x \<in> art_keys (AIn a t cs). same_bytes 0 ofs x key"
  shows "\<forall>x \<in> art_keys (cs (abyte key (ofs + an_len t))). same_bytes 0 (ofs + an_len t + 1) x key"
proof
  let ?e = "ofs + an_len t"
  fix x assume x: "x \<in> art_keys (cs (abyte key ?e))"
  have "same_bytes 0 ofs x key" using assms(3) x by auto
  moreover have "same_bytes ofs ?e x (an_pfx t)" "abyte x ?e = abyte key ?e" using assms(1) x by auto
  ultimately show "same_bytes 0 (?e + 1) x key"
    using assms(2) same_bytes_split [of 0 ofs ?e x key] same_bytes_trans [of ofs ?e x "an_pfx t" key] same_bytes_sym
    by (simp add: same_bytes_Suc)
qed

section \<open>Lookups\<close>

lemma art_step_leaf:
  assumes "art_inv slots hi (ALf a t) ofs" "same_bytes 0 ofs (an_pfx t) key"
  shows "art_step_at t key = Some (if key = an_pfx t then ART_LEAF else ART_MISS)"
proof -
  have "an_len t \<le> art_prefix_match t key \<longleftrightarrow> key = an_pfx t"
    using art_leaf_bytes [OF assms(1)] same_bytes_key [OF assms(2)] assms(1) by auto
  then show ?thesis using assms(1) by (cases "key = an_pfx t") (auto simp: art_step_at_def)
qed

lemma art_step_inner:
  assumes inv: "art_inv slots hi (AIn a t cs) ofs"
  shows "art_step_at t key = Some (if same_bytes ofs (ofs + an_len t) key (an_pfx t)
    then ART_CHILD (art_addr (cs (abyte key (ofs + an_len t)))) else ART_MISS)"
proof -
  have "an_type t \<noteq> ALEAF" "art_partial_key key (an_ofs t + an_len t) = Some (abyte key (ofs + an_len t))"
    using inv by (auto simp: art_node_ok_def partial_key_abyte)
  moreover have "art_findch t k = Some (art_addr (cs k))" for k using inv by (simp add: findch_view)
  ultimately show ?thesis using art_inner_bytes [OF inv, of key] by (auto simp: art_step_at_def not_less)
qed

lemma art_find_correct:
  assumes "store_ok s" "art_repr s T" "art_inv slots hi T ofs" "\<forall>x \<in> art_keys T. same_bytes 0 ofs x key"
  shows "art_find s (art_addr T) key u = Some (art_map u T key)"
  using assms
proof (induction T arbitrary: ofs)
  case ATip
  show ?case by (subst art_find.simps) simp
next
  case (ALf a t)
  then have "a \<noteq> nullptr" by (auto dest: store_ok_not_null)
  with ALf art_step_leaf [of slots hi a t ofs key] show ?case by (subst art_find.simps) simp
next
  case (AIn a t cs)
  let ?c = "cs (abyte key (ofs + an_len t))"
  note inv = AIn.prems(3)
  have a: "a \<noteq> nullptr" "cells s a = Some t" using AIn.prems by (auto dest: store_ok_not_null)
  have o: "an_ofs t = ofs" using inv by simp
  show ?case
  proof (cases "same_bytes ofs (ofs + an_len t) key (an_pfx t)")
    case True
    have "art_find s (art_addr ?c) key u = Some (art_map u ?c key)"
      using AIn.prems art_child_bytes [OF inv True AIn.prems(4)] by (intro AIn.IH [of ?c "ofs + an_len t + 1"]) auto
    with a True art_step_inner [OF inv, of key] o show ?thesis by (subst art_find.simps) simp
  next
    case False
    have "key \<notin> art_keys (AIn a t cs)" using False inv by auto
    then have "art_map u (AIn a t cs) key = None" using art_map_keys [OF inv, of u] by blast
    with a False art_step_inner [OF inv, of key] show ?thesis by (subst art_find.simps) simp
  qed
qed

lemma art_leaf_for_correct:
  assumes "store_ok s" "art_repr s T" "art_inv slots hi T ofs" "\<forall>x \<in> art_keys T. same_bytes 0 ofs x key"
  shows "art_leaf_for s (art_addr T) key = Some (if key \<in> art_keys T then art_leaf_addr T key else nullptr)"
  using assms
proof (induction T arbitrary: ofs)
  case ATip
  show ?case by (subst art_leaf_for.simps) simp
next
  case (ALf a t)
  then have "a \<noteq> nullptr" by (auto dest: store_ok_not_null)
  with ALf art_step_leaf [of slots hi a t ofs key] show ?case by (subst art_leaf_for.simps) simp
next
  case (AIn a t cs)
  let ?c = "cs (abyte key (ofs + an_len t))"
  note inv = AIn.prems(3)
  have a: "a \<noteq> nullptr" "cells s a = Some t" using AIn.prems by (auto dest: store_ok_not_null)
  have o: "an_ofs t = ofs" using inv by simp
  show ?case
  proof (cases "same_bytes ofs (ofs + an_len t) key (an_pfx t)")
    case True
    have "art_leaf_for s (art_addr ?c) key = Some (if key \<in> art_keys ?c then art_leaf_addr ?c key else nullptr)"
      using AIn.prems art_child_bytes [OF inv True AIn.prems(4)] by (intro AIn.IH [of ?c "ofs + an_len t + 1"]) auto
    moreover have "key \<in> art_keys (AIn a t cs) \<longleftrightarrow> key \<in> art_keys ?c" using inv by auto
    ultimately show ?thesis using a True art_step_inner [OF inv, of key] o by (subst art_leaf_for.simps) simp
  next
    case False
    have "key \<notin> art_keys (AIn a t cs)" using False inv by auto
    with a False art_step_inner [OF inv, of key] show ?thesis by (subst art_leaf_for.simps) simp
  qed
qed

end
