(* ===== verification/ART_Update.thy ===== *)
theory ART_Update
  imports ART_Tree
begin

text \<open>
  The path-copying update of the adaptive radix tree: what one call of \<open>update_cow\<close> leaves to the later
  stages, and that the stages finish with the updated subtree, for every case of the code: empty position,
  leaf, prefix mismatch, missing branch with and without growth, descent.
\<close>

section \<open>Specification of an update of a subtree\<close>

definition art_upd :: "nat \<Rightarrow> u32 \<Rightarrow> u64 \<Rightarrow> u64 \<Rightarrow> art_tree \<Rightarrow> art_tree \<Rightarrow> nat \<Rightarrow> bool" where
  "art_upd slots ver key val T T' ofs \<longleftrightarrow>
     art_inv slots ver T' ofs \<and> art_keys T' = insert key (art_keys T) \<and>
     (\<forall>u. ucast ver \<le> u \<longrightarrow> art_map u T' = (art_map u T)(key \<mapsto> val))"

text \<open>
  From store \<open>s\<close> to \<open>s'\<close> the subtree \<open>T\<close> becomes \<open>T'\<close>: only cells in \<open>F\<close> and new cells change; the nodes in
  \<open>R\<close> are replaced, the other nodes of \<open>T\<close> are shared.
\<close>

definition art_done ::
    "nat \<Rightarrow> art_ctx \<Rightarrow> nat \<Rightarrow> art_tree \<Rightarrow> addr set \<Rightarrow> art_store \<Rightarrow> art_store \<Rightarrow> art_tree \<Rightarrow> addr list \<Rightarrow> bool" where
  "art_done slots c ofs T F s s' T' R \<longleftrightarrow>
     store_ok s' \<and> brk s \<le> brk s' \<and> dom (cells s) \<subseteq> dom (cells s') \<and>
     (\<forall>x < brk s. x \<notin> F \<longrightarrow> cells s' x = cells s x) \<and>
     art_repr s' T' \<and> art_upd slots (c_sno c) (c_key c) (c_val c) T T' ofs \<and>
     set R \<subseteq> art_addrs T \<and> distinct R \<and> length R + ofs \<le> 9 \<and>
     art_addrs T - set R \<subseteq> art_addrs T' \<and> art_addrs T' \<inter> set R = {} \<and>
     art_addrs T' \<subseteq> art_addrs T \<union> F \<union> {brk s..<brk s'}"

text \<open>The stages after \<open>update_cow\<close> finish, in whatever store the earlier stages have completed meanwhile.\<close>

definition art_pending ::
    "nat \<Rightarrow> art_ctx \<Rightarrow> nat \<Rightarrow> art_tree \<Rightarrow> addr set \<Rightarrow> nat \<Rightarrow> addr \<Rightarrow> art_ctx \<Rightarrow> art_store \<Rightarrow> bool" where
  "art_pending slots c ofs T F op a c1 s1 \<longleftrightarrow>
     (\<forall>s2 r. store_ok s2 \<longrightarrow> brk s1 \<le> brk s2 \<longrightarrow> (\<forall>x \<in> F \<union> art_addrs T. cells s2 x = cells s1 x) \<longrightarrow>
       (\<exists>c3 s3 T' R. run_handlers art_handlers op (c1\<lparr>c_root := r, c_t_cur := a\<rparr>) s2 = Some (c3, s3) \<and>
          art_addr T' = a \<and> c_root c3 = r \<and> art_done slots c ofs T F s2 s3 T' R \<and>
          ret_state c3 = ret_state (fold retire_replaced R c)))"

lemma art_pendingD:
  assumes "art_pending slots c ofs T F op a c1 s1" "store_ok s2" "brk s1 \<le> brk s2"
    "\<forall>x \<in> F \<union> art_addrs T. cells s2 x = cells s1 x"
  shows "\<exists>c3 s3 T' R. run_handlers art_handlers op (c1\<lparr>c_root := r, c_t_cur := a\<rparr>) s2 = Some (c3, s3) \<and>
    art_addr T' = a \<and> c_root c3 = r \<and> art_done slots c ofs T F s2 s3 T' R \<and>
    ret_state c3 = ret_state (fold retire_replaced R c)"
  using assms unfolding art_pending_def by blast

definition art_started :: "nat \<Rightarrow> art_ctx \<Rightarrow> nat \<Rightarrow> art_tree \<Rightarrow> art_store \<Rightarrow> bool" where
  "art_started slots c ofs T s \<longleftrightarrow>
     (\<exists>op a c1 s1. art_update_cow c s = Some (op, a, c1, s1) \<and> store_ok s1 \<and> brk s \<le> a \<and> a < brk s1 \<and>
        dom (cells s) \<subseteq> dom (cells s1) \<and> (\<forall>x < brk s. cells s1 x = cells s x) \<and>
        art_pending slots c ofs T {brk s..<brk s1} op a c1 s1)"

text \<open>What a call of \<open>update_cow\<close> starts from.\<close>

definition art_at :: "nat \<Rightarrow> u32 \<Rightarrow> art_ctx \<Rightarrow> nat \<Rightarrow> art_tree \<Rightarrow> art_store \<Rightarrow> bool" where
  "art_at slots hi c ofs T s \<longleftrightarrow>
     store_ok s \<and> art_repr s T \<and> art_inv slots hi T ofs \<and> (\<forall>x \<in> art_keys T. same_bytes 0 ofs x (c_key c)) \<and>
     c_t_past c = art_addr T \<and> c_key_ofs c = ofs \<and> ofs \<le> 8 \<and> hi < c_sno c"

lemma art_code_simps [simp]:
  "OP_DONE \<noteq> ART_SEARCH" "OP_DONE \<noteq> ART_INSERT" "OP_DONE \<noteq> ART_FORK" "OP_INIT \<noteq> OP_DONE"
  "ART_SEARCH \<noteq> OP_DONE" "ART_INSERT \<noteq> OP_DONE" "ART_FORK \<noteq> OP_DONE"
  "art_handlers ART_SEARCH = art_handle_search" "art_handlers ART_INSERT = art_handle_insert"
  "art_handlers ART_FORK = art_handle_fork" "art_handlers OP_INIT = art_handle_init"
  by (simp_all add: OP_DONE_def OP_INIT_def ART_SEARCH_def ART_INSERT_def ART_FORK_def art_handlers_eq)

text \<open>The values a history had before the update stay, so a copy may take them at the new version.\<close>

lemma newest_value_all:
  "(\<forall>r \<in> set rs. ucast (snd r) \<le> u) \<Longrightarrow> newest_value rs base u = last (base # map fst rs)"
  by (simp add: newest_value_def)

lemma fat_read_stable:
  assumes "fat_ok slots hi v" "ucast hi \<le> u" "ucast hi \<le> w"
  shows "fat_read v base u = fat_read v base w"
proof -
  have "\<forall>r \<in> set (fat_used v). (ucast (snd r) :: u64) \<le> ucast hi"
    using assms(1) by (auto simp: fat_ok_def word_le_nat_alt)
  then have "\<forall>r \<in> set (fat_used v). ucast (snd r) \<le> u" "\<forall>r \<in> set (fat_used v). ucast (snd r) \<le> w"
    using assms(2,3) by (blast intro: order_trans)+
  then show ?thesis unfolding fat_read_newest [OF assms(1)] by (simp add: newest_value_all)
qed

lemma ucast_mono_32: "(a :: u32) \<le> b \<Longrightarrow> (ucast a :: u64) \<le> ucast b"
  by (simp add: word_le_nat_alt)

section \<open>An empty position\<close>

lemma new_leaf_inv:
  "ofs \<le> 8 \<Longrightarrow> art_inv slots hi (ALf a (art_new_leaf ver ofs key val)) ofs"
  by (simp add: art_new_leaf_def art_new_node_def)

lemma new_leaf_map: "art_map u (ALf a (art_new_leaf ver ofs key val)) = [key \<mapsto> val]"
  by (auto simp: art_new_leaf_def art_new_node_def fun_eq_iff)

lemma new_leaf_keys [simp]: "art_keys (ALf a (art_new_leaf ver ofs key val)) = {key}"
  by (simp add: art_new_leaf_def art_new_node_def)

lemma pendingI_done:
  assumes "a \<in> F" and "art_repr s1 T'" "art_addr T' = a" "art_addrs T' \<subseteq> F" "art_upd slots (c_sno c) (c_key c) (c_val c) T T' ofs"
    and "set R \<subseteq> art_addrs T" "distinct R" "length R + ofs \<le> 9" "art_addrs T - set R \<subseteq> {}" "F \<inter> art_addrs T = {}"
    and "ret_state c1 = ret_state (fold retire_replaced R c)"
  shows "art_pending slots c ofs T F OP_DONE a c1 s1"
  unfolding art_pending_def
proof (intro allI impI)
  fix s2 r assume s2: "store_ok s2" "brk s1 \<le> brk s2" "\<forall>x \<in> F \<union> art_addrs T. cells s2 x = cells s1 x"
  have "art_repr s2 T'"
  proof (rule art_repr_frame [OF assms(2)])
    show "cells s2 x = cells s1 x" if "x \<in> art_addrs T'" for x using that assms(4) s2(3) by blast
  qed
  moreover have "art_addrs T' \<inter> set R = {}" using assms(4,6,10) by blast
  moreover have "art_addrs T - set R \<subseteq> art_addrs T'" using assms(9) by blast
  moreover have "art_addrs T' \<subseteq> art_addrs T \<union> F \<union> {brk s2..<brk s2}" using assms(4) by blast
  ultimately have "art_done slots c ofs T F s2 s2 T' R"
    unfolding art_done_def using s2(1) assms(5-8) by simp
  moreover have "ret_state (c1\<lparr>c_root := r, c_t_cur := a\<rparr>) = ret_state c1" by (simp add: ret_state_def)
  ultimately show "\<exists>c3 s3 T' R. run_handlers art_handlers OP_DONE (c1\<lparr>c_root := r, c_t_cur := a\<rparr>) s2 = Some (c3, s3) \<and>
      art_addr T' = a \<and> c_root c3 = r \<and> art_done slots c ofs T F s2 s3 T' R \<and> ret_state c3 = ret_state (fold retire_replaced R c)"
    using assms(3,11)
    by (intro exI [of _ "c1\<lparr>c_root := r, c_t_cur := a\<rparr>"] exI [of _ s2] exI [of _ T'] exI [of _ R]) simp
qed

lemma art_start_empty:
  assumes "art_at slots hi c ofs ATip s"
  shows "art_started slots c ofs ATip s"
proof -
  let ?l = "art_new_leaf (ucast (c_sno c)) ofs (c_key c) (c_val c)"
  let ?s = "s\<lparr>cells := (cells s)(brk s \<mapsto> ?l), brk := Suc (brk s)\<rparr>"
  have at: "store_ok s" "c_t_past c = nullptr" "c_key_ofs c = ofs" "ofs \<le> 8" using assms by (simp_all add: art_at_def)
  have run: "art_update_cow c s = Some (OP_DONE, brk s, c, ?s)"
    using at by (simp add: art_update_cow_def alloc_eq)
  have "art_upd slots (c_sno c) (c_key c) (c_val c) ATip (ALf (brk s) ?l) ofs"
    using new_leaf_inv [OF at(4), of slots "c_sno c" "brk s"] by (simp add: art_upd_def new_leaf_map del: art_inv.simps art_keys.simps(2) art_map.simps(2))
  then have "art_pending slots c ofs ATip {brk s..<brk ?s} OP_DONE (brk s) c ?s"
    using at by (intro pendingI_done [where T' = "ALf (brk s) ?l" and R = "[]"]) simp_all
  with run store_ok_alloc [OF at(1)] show ?thesis unfolding art_started_def
    by (intro exI [of _ OP_DONE] exI [of _ "brk s"] exI [of _ c] exI [of _ ?s]) auto
qed

section \<open>A leaf with the key\<close>

lemma art_start_leaf:
  assumes at: "art_at slots hi c ofs (ALf a t) s" and key: "an_pfx t = c_key c"
  shows "art_started slots c ofs (ALf a t) s"
proof -
  let ?l = "art_leaf_update (ucast (c_sno c)) t (c_val c)"
  let ?s = "s\<lparr>cells := (cells s)(brk s \<mapsto> ?l), brk := Suc (brk s)\<rparr>"
  have o: "store_ok s" "c_t_past c = a" "cells s a = Some t" "c_key_ofs c = ofs" "ofs \<le> 8" and inv: "art_inv slots hi (ALf a t) ofs"
    using at by (simp_all add: art_at_def)
  have "a < brk s" "a \<noteq> nullptr" using o by (auto dest: store_ok_less store_ok_not_null)
  have "an_len t \<le> art_prefix_match t (c_key c)" using art_leaf_bytes [OF inv, of "c_key c"] key by simp
  then have run: "art_update_cow c s = Some (OP_DONE, brk s, retire_replaced a c, ?s)"
    using o \<open>a \<noteq> nullptr\<close> inv by (simp add: art_update_cow_def alloc_eq)
  have l: "an_type ?l = ALEAF" "an_pfx ?l = c_key c" "an_ofs ?l = ofs" "an_len ?l = 8 - ofs" "an_fat ?l = empty_fat" "an_val ?l = c_val c"
    using inv key by (simp_all add: art_leaf_update_def art_node_copy_def)
  then have "art_upd slots (c_sno c) (c_key c) (c_val c) (ALf a t) (ALf (brk s) ?l) ofs"
    using o key by (auto simp: art_upd_def fun_eq_iff)
  then have "art_pending slots c ofs (ALf a t) {brk s..<brk ?s} OP_DONE (brk s) (retire_replaced a c) ?s"
    using o \<open>a < brk s\<close> by (intro pendingI_done [where T' = "ALf (brk s) ?l" and R = "[a]"]) simp_all
  with run store_ok_alloc [OF o(1)] show ?thesis unfolding art_started_def
    by (intro exI [of _ OP_DONE] exI [of _ "brk s"] exI [of _ "retire_replaced a c"] exI [of _ ?s]) auto
qed

section \<open>A prefix mismatch\<close>

text \<open>The new parent of the two branches.\<close>

definition fork_parent :: "u64 \<Rightarrow> nat \<Rightarrow> nat \<Rightarrow> u64 \<Rightarrow> u8 \<Rightarrow> u8 \<Rightarrow> addr \<Rightarrow> addr \<Rightarrow> art_node" where
  "fork_parent ver ofs pmlen key pk0 pk1 ca la =
     (let par = art_new_node ver NODE4 ofs pmlen key; idx = (if pk0 > pk1 then 1 else 0)
      in par\<lparr>an_keys := ((an_keys par)[idx := pk0])[1 - idx := pk1], an_chs := ((an_chs par)[idx := ca])[1 - idx := la]\<rparr>)"

lemma fork_parent_fields [simp]:
  "an_type (fork_parent ver ofs pmlen key pk0 pk1 ca la) = NODE4" "an_ofs (fork_parent ver ofs pmlen key pk0 pk1 ca la) = ofs"
  "an_len (fork_parent ver ofs pmlen key pk0 pk1 ca la) = pmlen"
  "an_pfx (fork_parent ver ofs pmlen key pk0 pk1 ca la) = key AND art_prefix_mask ofs pmlen"
  by (simp_all add: fork_parent_def art_new_node_def Let_def)

lemma fork_parent_ok:
  assumes "pk0 \<noteq> pk1" "ca \<noteq> nullptr" "la \<noteq> nullptr"
  shows "art_node_ok (fork_parent ver ofs pmlen key pk0 pk1 ca la)"
    and "art_view (fork_parent ver ofs pmlen key pk0 pk1 ca la) = (\<lambda>_. nullptr)(pk0 := ca, pk1 := la)"
proof -
  let ?p = "fork_parent ver ofs pmlen key pk0 pk1 ca la"
  have keys: "live_keys ?p = (if pk0 > pk1 then [pk1, pk0] else [pk0, pk1])"
    and chs: "live_chs ?p = (if pk0 > pk1 then [la, ca] else [ca, la])"
    by (simp_all add: fork_parent_def art_new_node_def Let_def live_keys_def live_chs_def eval_nat_numeral)
  have ok: "keys_ok 4 ?p"
    unfolding keys_ok_def keys chs using assms by (auto simp: fork_parent_def art_new_node_def Let_def)
  then show "art_node_ok ?p" by (simp add: art_node_ok_def)
  show "art_view ?p = (\<lambda>_. nullptr)(pk0 := ca, pk1 := la)"
    using assms(1) by (auto simp: fun_eq_iff view_keys(1) [OF _ ok] keys chs)
qed

text \<open>A subtree that has moved below the new parent, under the address of its copied root.\<close>

definition art_cut :: "nat \<Rightarrow> u32 \<Rightarrow> nat \<Rightarrow> addr \<Rightarrow> art_tree \<Rightarrow> art_tree \<Rightarrow> nat \<Rightarrow> bool" where
  "art_cut slots ver pmlen ca T Tc ofs \<longleftrightarrow>
     art_addr Tc = ca \<and> art_addrs Tc = insert ca (art_addrs T - {art_addr T}) \<and> art_keys Tc = art_keys T \<and>
     art_inv slots ver Tc (ofs + pmlen + 1) \<and> (\<forall>u. ucast ver \<le> u \<longrightarrow> art_map u Tc = art_map u T)"

lemma cut_leaf:
  assumes inv: "art_inv slots hi (ALf a t) ofs" and "hi < ver" and m: "pmlen < an_len t"
  shows "art_cut slots ver pmlen ca (ALf a t) (ALf ca (art_cut_prefix pmlen (art_node_copy t (ucast ver)))) ofs"
proof -
  let ?t = "art_cut_prefix pmlen (art_node_copy t (ucast ver))"
  have f: "an_type ?t = ALEAF" "an_pfx ?t = an_pfx t" "an_ofs ?t = ofs + pmlen + 1" "an_len ?t = 8 - (ofs + pmlen + 1)"
    "an_fat ?t = empty_fat" "an_val ?t = fat_read (an_fat t) (an_val t) (ucast ver)"
    using inv by (simp_all add: art_cut_prefix_def art_node_copy_def Let_def)
  have "fat_read (an_fat t) (an_val t) (ucast ver) = fat_read (an_fat t) (an_val t) u" if "ucast ver \<le> u" for u
  proof -
    have "(ucast hi :: u64) \<le> ucast ver" using \<open>hi < ver\<close> by (intro ucast_mono_32) simp
    moreover from this that have "(ucast hi :: u64) \<le> u" by (rule order_trans)
    ultimately show ?thesis using inv by (intro fat_read_stable [of slots hi]) simp_all
  qed
  then show ?thesis using f inv m by (auto simp: art_cut_def fun_eq_iff)
qed

lemma cut_inner:
  assumes inv: "art_inv slots hi (AIn a t cs) ofs" and "hi < ver" and m: "pmlen < an_len t"
    and n: "rechild (art_cut_prefix pmlen (art_node_copy t v)) n" "art_node_ok n" "art_view n = art_view t"
    and ca: "ca \<notin> art_addrs (AIn a t cs)"
  shows "art_cut slots ver pmlen ca (AIn a t cs) (AIn ca n cs) ofs"
proof -
  have ty: "an_type t \<noteq> ALEAF" using inv by (auto simp: art_node_ok_def)
  have f: "an_ofs n = ofs + pmlen + 1" "an_len n = an_len t - (pmlen + 1)"
    "an_pfx n = an_pfx t AND art_prefix_mask (ofs + pmlen + 1) (an_len t - (pmlen + 1))"
    using inv ty by (simp_all add: rechild_fields [OF n(1)] art_cut_prefix_def art_node_copy_def Let_def)
  let ?o = "ofs + pmlen + 1" let ?l = "an_len t - (pmlen + 1)"
  have e: "?o + ?l = ofs + an_len t" "?o + ?l \<le> 7" using inv m by simp_all
  have pfx: "same_bytes ?o (?o + ?l) x (an_pfx n)" if "same_bytes ofs (ofs + an_len t) x (an_pfx t)" for x
  proof -
    have "same_bytes ?o (?o + ?l) (an_pfx n) (an_pfx t)" using e(2) unfolding f(3) by (intro mask_same_bytes) simp
    moreover have "same_bytes ?o (?o + ?l) x (an_pfx t)" using that e(1) by (intro same_bytes_mono [OF that]) simp_all
    ultimately show ?thesis by (meson same_bytes_sym same_bytes_trans)
  qed
  note i = art_inv_inner [OF inv]
  have "hi \<le> ver" using \<open>hi < ver\<close> by simp
  have "art_inv slots ver (AIn ca n cs) ?o"
  proof (rule art_inv_innerI, goal_cases)
    case 1 show ?case by (rule n(2))
  next
    case 2 show ?case by (rule f(1))
  next
    case 3 show ?case unfolding f(2) by (rule e(2))
  next
    case (4 k) show ?case unfolding n(3) by (rule i(4))
  next
    case (5 k x)
    have "same_bytes ?o (?o + ?l) x (an_pfx n)" by (rule pfx [OF i(5) [OF 5]])
    moreover have "abyte x (?o + ?l) = k" unfolding e(1) by (rule i(6) [OF 5])
    ultimately show ?case unfolding f(2) by blast
  next
    case (6 k) show ?case unfolding f(2) e(1) by (rule art_inv_mono [OF i(7) \<open>hi \<le> ver\<close>])
  next
    case (7 k) show ?case using ca by simp
  next
    case (8 k l) then show ?case by (rule i(9))
  qed
  moreover have "art_addrs (AIn ca n cs) = insert ca (art_addrs (AIn a t cs) - {a})" using i(8) by auto
  moreover have "art_map u (AIn ca n cs) = art_map u (AIn a t cs)" for u
    using f(1,2) e(1) i(2) by (simp add: fun_eq_iff)
  ultimately show ?thesis by (simp add: art_cut_def)
qed

text \<open>The updated subtree after a fork.\<close>

lemma fork_upd:
  fixes val v v' :: u64
  assumes cut: "art_cut slots ver pmlen ca T Tc ofs" and le: "ofs + pmlen \<le> 7"
    and keys: "\<forall>x \<in> art_keys T. same_bytes ofs (ofs + pmlen) x key \<and> abyte x (ofs + pmlen) = pk0"
    and pk: "pk1 = abyte key (ofs + pmlen)" "pk0 \<noteq> pk1"
    and addrs: "pa \<noteq> ca" "pa \<noteq> la" "la \<noteq> ca" "pa \<notin> art_addrs T" "la \<notin> art_addrs T" "ca \<noteq> nullptr" "la \<noteq> nullptr"
  defines "T' \<equiv> AIn pa (fork_parent v ofs pmlen key pk0 pk1 ca la) ((\<lambda>_. ATip)(pk0 := Tc, pk1 := ALf la (art_new_leaf v' (ofs + pmlen + 1) key val)))"
  shows "art_upd slots ver key val T T' ofs"
    and "art_addrs T' = {pa, la, ca} \<union> (art_addrs T - {art_addr T})"
proof -
  let ?e = "ofs + pmlen" let ?p = "fork_parent v ofs pmlen key pk0 pk1 ca la" let ?l = "art_new_leaf v' (?e + 1) key val"
  let ?cs = "(\<lambda>_. ATip)(pk0 := Tc, pk1 := ALf la ?l)"
  have c: "art_addr Tc = ca" "art_addrs Tc = insert ca (art_addrs T - {art_addr T})" "art_keys Tc = art_keys T"
    "art_inv slots ver Tc (?e + 1)" "\<forall>u. ucast ver \<le> u \<longrightarrow> art_map u Tc = art_map u T"
    using cut by (simp_all add: art_cut_def)
  have leaf: "art_inv slots ver (ALf la ?l) (?e + 1)" using le by (intro new_leaf_inv) simp
  have pfx: "same_bytes ofs ?e x (an_pfx ?p)" if "same_bytes ofs ?e x key" for x
    using mask_same_bytes [of ofs pmlen key] le that by (simp add: same_bytes_sym same_bytes_trans [OF that])
  have view: "art_view ?p k = art_addr (?cs k)" for k
    using c(1) unfolding fork_parent_ok(2) [OF pk(2) addrs(6,7)] by simp
  have kk: "same_bytes ofs ?e x (an_pfx ?p) \<and> abyte x ?e = k" if "x \<in> art_keys (?cs k)" for x k
  proof (cases "k = pk1")
    case True
    then have "x = key" using that by (simp add: art_new_leaf_def art_new_node_def)
    then show ?thesis using pfx [of key] pk(1) True by simp
  next
    case False
    then have "x \<in> art_keys T" "k = pk0" using that c(3) by (auto split: if_splits)
    then show ?thesis using keys pfx [of x] by blast
  qed
  have child: "art_inv slots ver (?cs k) (?e + 1)" for k
    using c(4) leaf by (simp del: art_inv.simps(2) add: art_inv.simps(1))
  have fresh: "pa \<notin> art_addrs (?cs k)" for k using addrs c(2) by simp
  have disj: "art_addrs (?cs k) \<inter> art_addrs (?cs l) = {}" if "k \<noteq> l" for k l using that addrs c(2) by auto
  have "art_inv slots ver T' ofs"
    unfolding T'_def art_inv.simps fork_parent_fields
    using fork_parent_ok(1) [OF pk(2) addrs(6,7)] le view kk child fresh disj by (simp del: fun_upd_apply)
  moreover have keys': "art_keys T' = insert key (art_keys T)"
  proof -
    have "art_keys T' = art_keys (?cs pk0) \<union> art_keys (?cs pk1)" unfolding T'_def by (auto split: if_splits)
    then show ?thesis using pk(2) c(3) by (simp add: art_new_leaf_def art_new_node_def)
  qed
  moreover have "art_map u T' = (art_map u T)(key \<mapsto> val)" if u: "ucast ver \<le> u" for u
  proof
    fix x
    have dom: "dom (art_map u T) = art_keys T"
      using art_map_keys [OF c(4), of u] c(3,5) u by simp
    have T': "art_map u T' x = art_map u (?cs (abyte x ?e)) x" by (simp add: T'_def)
    show "art_map u T' x = ((art_map u T)(key \<mapsto> val)) x"
    proof (cases "abyte x ?e = pk1")
      case True
      have "x \<notin> art_keys T" using keys pk(2) True by auto
      then have "art_map u T x = None" using dom by auto
      then show ?thesis unfolding T' using True by (simp add: art_new_leaf_def art_new_node_def)
    next
      case False
      then have "x \<noteq> key" using pk(1) by auto
      moreover have "art_map u T x = None" if "abyte x ?e \<noteq> pk0" using that keys dom by auto
      ultimately show ?thesis unfolding T' using False c(5) u by simp
    qed
  qed
  ultimately show "art_upd slots ver key val T T' ofs" by (simp add: art_upd_def)
  have "art_addrs T' = insert pa (art_addrs (?cs pk0) \<union> art_addrs (?cs pk1))" unfolding T'_def by (auto split: if_splits)
  then show "art_addrs T' = {pa, la, ca} \<union> (art_addrs T - {art_addr T})" using pk(2) c(2) by auto
qed

lemma fork_parent_child:
  "nth_opt (an_chs (fork_parent ver ofs pmlen key pk0 pk1 ca la)) (if pk0 > pk1 then 1 else 0) = Some ca"
  by (simp add: fork_parent_def art_new_node_def Let_def)

text \<open>Both kinds of nodes, with the facts that the fork needs.\<close>

lemma art_at_node:
  assumes at: "art_at slots hi c ofs T s" and T: "T = ALf a t \<or> T = AIn a t cs"
  shows "cells s a = Some t" "a \<noteq> nullptr" "a < brk s" "an_ofs t = ofs" "ofs + an_len t \<le> 8" "c_t_past c = a" "art_addr T = a"
    and "a \<in> art_addrs T" "\<forall>x \<in> art_keys T. same_bytes ofs (ofs + an_len t) x (an_pfx t)"
  using at T by (auto simp: art_at_def dest: store_ok_not_null store_ok_less)

lemma cut_any:
  assumes at: "art_at slots hi c ofs T s" and T: "T = ALf a t \<or> T = AIn a t cs" and m: "pmlen < an_len t"
    and ca: "brk s \<le> ca"
  defines "n0 \<equiv> art_cut_prefix pmlen (art_node_copy t (ucast (c_sno c)))"
  shows "\<exists>n Tc. art_copych n0 t = Some n \<and> art_cut slots (c_sno c) pmlen ca T Tc ofs \<and>
    (\<forall>s'. cells s' ca = Some n \<longrightarrow> (\<forall>x \<in> art_addrs T. cells s' x = cells s x) \<longrightarrow> art_repr s' Tc)"
  using T
proof
  assume T: "T = ALf a t"
  have inv: "art_inv slots hi (ALf a t) ofs" and "hi < c_sno c" using at by (simp_all add: art_at_def T)
  have "an_type n0 = ALEAF" using inv by (simp add: n0_def art_cut_prefix_def art_node_copy_def Let_def)
  then have "art_copych n0 t = Some n0" by (simp add: art_copych_def)
  moreover have "art_cut slots (c_sno c) pmlen ca T (ALf ca n0) ofs"
    unfolding T n0_def by (rule cut_leaf [OF inv \<open>hi < c_sno c\<close> m])
  ultimately show ?thesis by (intro exI [of _ n0] exI [of _ "ALf ca n0"]) simp
next
  assume T: "T = AIn a t cs"
  have inv: "art_inv slots hi (AIn a t cs) ofs" and "hi < c_sno c" "store_ok s" "art_repr s (AIn a t cs)"
    using at by (simp_all add: art_at_def T del: art_repr.simps)
  have ok: "art_node_ok t" and ty: "an_type t \<noteq> ALEAF" using art_inv_inner(1) [OF inv] by (auto simp: art_node_ok_def)
  have idx: "same_index n0 t" "an_chs n0 = []"
    using ty by (simp_all add: n0_def art_cut_prefix_def art_node_copy_def Let_def same_index_def)
  obtain n where n: "art_copych n0 t = Some n" "art_node_ok n" "art_view n = art_view t" "rechild n0 n"
    using copych_view [OF ok idx] by blast
  have "ca \<notin> art_addrs T" using art_repr_below [OF \<open>store_ok s\<close> \<open>art_repr s (AIn a t cs)\<close>, of ca] ca by (auto simp: T)
  then have "art_cut slots (c_sno c) pmlen ca T (AIn ca n cs) ofs"
    unfolding T by (intro cut_inner [OF inv \<open>hi < c_sno c\<close> m n(4) [unfolded n0_def] n(2,3)])
  moreover have "art_repr s' (AIn ca n cs)" if s': "cells s' ca = Some n" "\<forall>x \<in> art_addrs T. cells s' x = cells s x" for s'
  proof -
    have "art_repr s' (AIn a t cs)"
      using s'(2) unfolding T by (intro art_repr_frame [OF \<open>art_repr s (AIn a t cs)\<close>]) blast
    with s'(1) show ?thesis by simp
  qed
  ultimately show ?thesis using n(1) by blast
qed

lemma retire_replaced_art [simp]:
  "c_key_ofs (retire_replaced a c) = c_key_ofs c" "c_ch_idx (retire_replaced a c) = c_ch_idx c"
  by (simp_all add: retire_replaced_def)

lemma handle_fork_step:
  assumes "cells s (c_t_cur c) = Some par" "nth_opt (an_chs par) (c_ch_idx c) = Some ca" "cells s ca = Some cur"
    "cells s (c_t_past c) = Some past" "art_copych cur past = Some n"
  shows "art_handle_fork c s = Some (OP_DONE, c\<lparr>c_t_cur := ca\<rparr>, s\<lparr>cells := (cells s)(ca \<mapsto> n)\<rparr>)"
  using assms by (simp add: art_handle_fork_def put_Some)

lemma art_start_fork:
  assumes at: "art_at slots hi c ofs T s" and T: "T = ALf a t \<or> T = AIn a t cs"
    and m: "art_prefix_match t (c_key c) < an_len t"
  shows "art_started slots c ofs T s"
proof -
  note n = art_at_node [OF at T]
  have o: "store_ok s" "c_key_ofs c = ofs" "art_repr s T" using at by (simp_all add: art_at_def)
  let ?m = "art_prefix_match t (c_key c)" let ?e = "ofs + ?m" let ?v = "ucast (c_sno c) :: u64"
  let ?pk0 = "abyte (an_pfx t) ?e" let ?pk1 = "abyte (c_key c) ?e"
  let ?pa = "brk s" let ?ca = "Suc (brk s)" let ?la = "Suc (Suc (brk s))"
  let ?idx = "if ?pk0 > ?pk1 then 1 else 0 :: nat"
  let ?par = "fork_parent ?v ofs ?m (c_key c) ?pk0 ?pk1 ?ca ?la"
  let ?n0 = "art_cut_prefix ?m (art_node_copy t ?v)" let ?l = "art_new_leaf ?v (?e + 1) (c_key c) (c_val c)"
  let ?s1 = "s\<lparr>cells := (cells s)(?pa \<mapsto> ?par, ?ca \<mapsto> ?n0, ?la \<mapsto> ?l), brk := brk s + 3\<rparr>"
  let ?c1 = "retire_replaced a (c\<lparr>c_key_ofs := ?e, c_ch_idx := ?idx\<rparr>)"
  have le: "?e \<le> 7" "an_ofs t + an_len t \<le> 8" using m n(4,5) by simp_all
  note mis = prefix_mismatch [OF le(2) m, unfolded n(4)]
  have run: "art_update_cow c s = Some (ART_FORK, ?pa, ?c1, ?s1)"
    using n o le m by (simp add: art_update_cow_def art_node_fork_cow_def partial_key_abyte alloc_eq put_Some fork_parent_def
        Let_def fun_upd_twist)
  have keys: "\<forall>x \<in> art_keys T. same_bytes ofs ?e x (c_key c) \<and> abyte x ?e = ?pk0"
  proof
    fix x assume "x \<in> art_keys T"
    then have x: "same_bytes ofs (ofs + an_len t) x (an_pfx t)" using n(9) by blast
    have "same_bytes ofs ?e x (an_pfx t)" using m by (intro same_bytes_mono [OF x]) simp_all
    moreover have "same_bytes ofs (Suc ?e) x (an_pfx t)" using m by (intro same_bytes_mono [OF x]) simp_all
    ultimately show "same_bytes ofs ?e x (c_key c) \<and> abyte x ?e = ?pk0"
      using mis(1) by (meson le_add1 same_bytes_Suc same_bytes_sym same_bytes_trans)
  qed
  have below: "\<forall>x \<in> art_addrs T. x < brk s" using art_repr_below [OF o(1,3)] by blast
  have ok1: "store_ok ?s1" using o(1) by (auto simp: store_ok_def)
  have pend: "art_pending slots c ofs T {brk s..<brk ?s1} ART_FORK ?pa ?c1 ?s1"
    unfolding art_pending_def
  proof (intro allI impI)
    fix s2 r
    assume s2: "store_ok s2" "brk ?s1 \<le> brk s2" "\<forall>x \<in> {brk s..<brk ?s1} \<union> art_addrs T. cells s2 x = cells ?s1 x"
    have cs2: "cells s2 ?pa = Some ?par" "cells s2 ?ca = Some ?n0" "cells s2 ?la = Some ?l" using s2(3) by simp_all
    have old: "cells s2 x = cells s x" if "x \<in> art_addrs T" for x
    proof -
      have "x < brk s" using below that by blast
      moreover have "cells s2 x = cells ?s1 x" using s2(3) that by blast
      ultimately show ?thesis by simp
    qed
    then have "cells s2 a = Some t" using n(1,8) by simp
    obtain n' Tc where n': "art_copych ?n0 t = Some n'" "art_cut slots (c_sno c) ?m ?ca T Tc ofs"
      "\<forall>s'. cells s' ?ca = Some n' \<longrightarrow> (\<forall>x \<in> art_addrs T. cells s' x = cells s x) \<longrightarrow> art_repr s' Tc"
      using cut_any [OF at T m, of ?ca] by auto
    let ?s3 = "s2\<lparr>cells := (cells s2)(?ca \<mapsto> n')\<rparr>"
    let ?c2 = "?c1\<lparr>c_root := r, c_t_cur := ?pa\<rparr>" let ?c3 = "?c2\<lparr>c_t_cur := ?ca\<rparr>"
    have h: "art_handle_fork ?c2 s2 = Some (OP_DONE, ?c3, ?s3)"
      using cs2 \<open>cells s2 a = Some t\<close> n(6) n'(1) fork_parent_child
      by (intro handle_fork_step [where par = ?par and cur = ?n0 and past = t]) simp_all
    have fin: "run_handlers art_handlers ART_FORK ?c2 s2 = Some (?c3, ?s3)"
      using run_handlers_step [of ART_FORK art_handlers ?c2 s2 OP_DONE ?c3 ?s3] h by simp
    let ?T' = "AIn ?pa ?par ((\<lambda>_. ATip)(?pk0 := Tc, ?pk1 := ALf ?la ?l))"
    have ne: "?pk0 \<noteq> ?pk1" using mis(2) by simp
    have upd: "art_upd slots (c_sno c) (c_key c) (c_val c) T ?T' ofs"
      and addrs: "art_addrs ?T' = {?pa, ?la, ?ca} \<union> (art_addrs T - {art_addr T})"
      using below by (intro fork_upd [OF n'(2) le(1) keys refl ne]; auto)+
    have "\<forall>x \<in> art_addrs T. cells ?s3 x = cells s x"
    proof
      fix x assume x: "x \<in> art_addrs T"
      then have "x \<noteq> ?ca" using below by (meson lessI not_less_iff_gr_or_eq less_trans)
      then show "cells ?s3 x = cells s x" using old [OF x] by simp
    qed
    then have "art_repr ?s3 Tc" using n'(3) by simp
    then have "art_repr ?s3 ?T'" using cs2 by simp
    moreover have "store_ok ?s3" by (rule store_ok_upd [OF s2(1) cs2(2)])
    moreover have "art_addrs ?T' \<inter> set [a] = {}" unfolding addrs n(7) using n(3) by auto
    moreover have "art_addrs T - set [a] \<subseteq> art_addrs ?T'" unfolding addrs n(7) by auto
    moreover have "art_addrs ?T' \<subseteq> art_addrs T \<union> {brk s..<brk ?s1} \<union> {brk s2..<brk ?s3}" unfolding addrs by auto
    ultimately have "art_done slots c ofs T {brk s..<brk ?s1} s2 ?s3 ?T' [a]"
      unfolding art_done_def using upd n(8) le(1) by auto
    moreover have "ret_state ?c3 = ret_state (fold retire_replaced [a] c)"
      using ret_state_retire [of "c\<lparr>c_key_ofs := ?e, c_ch_idx := ?idx\<rparr>" c a] by (simp add: ret_state_def)
    ultimately show "\<exists>c3 s3 T' R. run_handlers art_handlers ART_FORK ?c2 s2 = Some (c3, s3) \<and>
        art_addr T' = ?pa \<and> c_root c3 = r \<and> art_done slots c ofs T {brk s..<brk ?s1} s2 s3 T' R \<and>
        ret_state c3 = ret_state (fold retire_replaced R c)"
      using fin by (intro exI [of _ ?c3] exI [of _ ?s3] exI [of _ ?T'] exI [of _ "[a]"]) simp
  qed
  show ?thesis unfolding art_started_def
    using run ok1 pend by (intro exI [of _ ART_FORK] exI [of _ ?pa] exI [of _ ?c1] exI [of _ ?s1]) auto
qed

section \<open>A new child of a copied node\<close>

lemma header_pfx:
  assumes "header_like t v n" "an_ofs t + an_len t \<le> 8"
  shows "same_bytes (an_ofs t) (an_ofs t + an_len t) (an_pfx n) (an_pfx t)"
proof -
  have "an_pfx n = an_pfx t \<or> an_pfx n = an_pfx t AND art_prefix_mask (an_ofs t) (an_len t)"
    using assms(1) by (simp add: header_like_def)
  then show ?thesis using mask_same_bytes [OF assms(2), of "an_pfx t"] by auto
qed

text \<open>One branch of a node is replaced by an updated subtree.\<close>

lemma graft_upd:
  fixes key val :: u64
  assumes inv: "art_inv slots hi (AIn a t cs) ofs" and "hi < ver"
    and key: "same_bytes ofs (ofs + an_len t) key (an_pfx t)" and k: "k = abyte key (ofs + an_len t)"
    and n: "header_like t v n" "art_node_ok n" "art_view n = (art_view t)(k := art_addr T1)"
    and upd: "art_upd slots ver key val (cs k) T1 (ofs + an_len t + 1)"
    and na: "na \<notin> art_addrs T1" "\<And>l. na \<notin> art_addrs (cs l)"
    and disj: "\<And>l. l \<noteq> k \<Longrightarrow> art_addrs T1 \<inter> art_addrs (cs l) = {}"
  shows "art_upd slots ver key val (AIn a t cs) (AIn na n (cs(k := T1))) ofs"
proof -
  let ?e = "ofs + an_len t" let ?cs = "cs(k := T1)"
  note i = art_inv_inner [OF inv]
  have T1: "art_inv slots ver T1 (?e + 1)" "art_keys T1 = insert key (art_keys (cs k))"
    "\<And>u. ucast ver \<le> u \<Longrightarrow> art_map u T1 = (art_map u (cs k))(key \<mapsto> val)"
    using upd by (simp_all add: art_upd_def)
  have f: "an_ofs n = ofs" "an_len n = an_len t" using n(1) i(2) by (simp_all add: header_like_def)
  have pfx: "same_bytes ofs ?e x (an_pfx n)" if "same_bytes ofs ?e x (an_pfx t)" for x
  proof -
    have "same_bytes ofs ?e (an_pfx n) (an_pfx t)" using header_pfx [OF n(1)] i(2,3) by simp
    with that show ?thesis by (meson same_bytes_sym same_bytes_trans)
  qed
  have "hi \<le> ver" using \<open>hi < ver\<close> by simp
  have "art_inv slots ver (AIn na n ?cs) ofs"
  proof (rule art_inv_innerI, goal_cases)
    case 1 show ?case by (rule n(2))
  next
    case 2 show ?case by (rule f(1))
  next
    case 3 show ?case unfolding f(2) by (rule i(3))
  next
    case (4 l) show ?case unfolding n(3) using i(4) [of l] by simp
  next
    case (5 l x)
    then have "x \<in> art_keys (cs l) \<or> x = key \<and> l = k" using T1(2) by (auto split: if_splits)
    then show ?case unfolding f(2) using pfx key k i(5,6) by blast
  next
    case (6 l) show ?case unfolding f(2) using T1(1) art_inv_mono [OF i(7) \<open>hi \<le> ver\<close>] by simp
  next
    case (7 l) show ?case using na by simp
  next
    case (8 l m) then show ?case using disj [of l] disj [of m] i(9) [of l m] by (cases "l = k"; cases "m = k") (simp_all add: Int_commute)
  qed
  moreover have "art_keys (AIn na n ?cs) = insert key (art_keys (AIn a t cs))"
    using T1(2) by (auto split: if_splits)
  moreover have "art_map u (AIn na n ?cs) = (art_map u (AIn a t cs))(key \<mapsto> val)" if u: "ucast ver \<le> u" for u
  proof
    fix x
    show "art_map u (AIn na n ?cs) x = ((art_map u (AIn a t cs))(key \<mapsto> val)) x"
    proof (cases "abyte x ?e = k")
      case True
      then show ?thesis using T1(3) [OF u] f i(2) by simp
    next
      case False
      then have "x \<noteq> key" using k by auto
      then show ?thesis using False f i(2) by simp
    qed
  qed
  ultimately show ?thesis by (simp add: art_upd_def)
qed

text \<open>The addresses of a node with a replaced branch.\<close>

lemma graft_addrs: "art_addrs (AIn na n (cs(k := T1))) = insert na (art_addrs T1 \<union> (\<Union>l \<in> - {k}. art_addrs (cs l)))"
  by (auto split: if_splits)

text \<open>
  The second half of a step: the copy at \<open>na\<close> has its branch set, in the store \<open>s'\<close> that the stages end in.
\<close>

lemma graft_done:
  assumes ok: "store_ok s" "art_repr s (AIn a t cs)" and inv: "art_inv slots hi (AIn a t cs) ofs" and "hi < c_sno c"
    and key: "same_bytes ofs (ofs + an_len t) (c_key c) (an_pfx t)" and k: "k = abyte (c_key c) (ofs + an_len t)"
    and n: "header_like t v n" "art_node_ok n" "art_view n = (art_view t)(k := art_addr T1)" "cells s' na = Some n"
    and child: "art_done slots c' (ofs + an_len t + 1) (cs k) F s1 s' T1 R" "c_sno c' = c_sno c" "c_key c' = c_key c" "c_val c' = c_val c"
    and na: "na \<in> G" "na \<notin> F" "na < brk s1" "na \<notin> art_addrs (AIn a t cs)"
    and s: "dom (cells s) \<subseteq> dom (cells s')" "brk s \<le> brk s'" "\<forall>x < brk s. x \<notin> G \<longrightarrow> cells s' x = cells s x"
      "F \<subseteq> {brk s..<brk s'}" "brk s \<le> brk s1" "G \<inter> art_addrs (AIn a t cs) = {}"
  shows "art_done slots c ofs (AIn a t cs) G s s' (AIn na n (cs(k := T1))) (a # R)"
proof -
  let ?T = "AIn a t cs"
  note i = art_inv_inner [OF inv]
  have d: "store_ok s'" "art_repr s' T1" "art_upd slots (c_sno c) (c_key c) (c_val c) (cs k) T1 (ofs + an_len t + 1)"
    "set R \<subseteq> art_addrs (cs k)" "distinct R" "length R + (ofs + an_len t + 1) \<le> 9"
    "art_addrs (cs k) - set R \<subseteq> art_addrs T1" "art_addrs T1 \<inter> set R = {}"
    "art_addrs T1 \<subseteq> art_addrs (cs k) \<union> F \<union> {brk s1..<brk s'}"
    using child unfolding art_done_def by simp_all
  have below: "x < brk s" if "x \<in> art_addrs ?T" for x using art_repr_below [OF ok that] by simp
  have sub: "art_addrs (cs l) \<subseteq> art_addrs ?T" for l by auto
  have new: "x \<notin> art_addrs ?T" if "x \<in> F \<union> {brk s1..<brk s'}" for x
  proof
    assume "x \<in> art_addrs ?T"
    moreover have "brk s \<le> x" using that s(4,5) by auto
    ultimately show False using below [of x] by simp
  qed
  have naT: "na \<notin> art_addrs (cs l)" for l using na(4) by auto
  have na1: "na \<notin> art_addrs T1" using d(9) naT [of k] na(2,3) by auto
  have disj: "art_addrs T1 \<inter> art_addrs (cs l) = {}" if "l \<noteq> k" for l
  proof -
    have "art_addrs (cs k) \<inter> art_addrs (cs l) = {}" using i(9) that by blast
    then show ?thesis using d(9) new sub [of l] by blast
  qed
  have "a \<notin> art_addrs T1" using d(9) i(8) [of k] new [of a] by auto
  have rep: "art_repr s' (cs l)" for l
  proof (rule art_repr_frame)
    show "art_repr s (cs l)" using ok(2) by simp
    show "cells s' x = cells s x" if "x \<in> art_addrs (cs l)" for x
      using s(3,6) below [of x] sub [of l] that by blast
  qed
  have "art_repr s' (AIn na n (cs(k := T1)))" using rep d(2) n(4) by simp
  moreover have "art_upd slots (c_sno c) (c_key c) (c_val c) ?T (AIn na n (cs(k := T1))) ofs"
    by (rule graft_upd [OF inv \<open>hi < c_sno c\<close> key k n(1-3) d(3) na1 naT disj])
  moreover have "set (a # R) \<subseteq> art_addrs ?T" using d(4) by auto
  moreover have "distinct (a # R)" using d(4,5) i(8) [of k] by auto
  moreover have "length (a # R) + ofs \<le> 9" using d(6) by simp
  moreover have "art_addrs ?T - set (a # R) \<subseteq> art_addrs (AIn na n (cs(k := T1)))"
  proof
    fix x assume x: "x \<in> art_addrs ?T - set (a # R)"
    then obtain l where "x \<in> art_addrs (cs l)" by auto
    then show "x \<in> art_addrs (AIn na n (cs(k := T1)))"
      unfolding graft_addrs using d(7) x by (cases "l = k") auto
  qed
  moreover have "art_addrs (AIn na n (cs(k := T1))) \<inter> set (a # R) = {}"
  proof -
    have "na \<notin> set (a # R)" using na(4) d(4) naT by auto
    moreover have "art_addrs (cs l) \<inter> set (a # R) = {}" if "l \<noteq> k" for l
    proof -
      have "art_addrs (cs k) \<inter> art_addrs (cs l) = {}" using i(9) that by blast
      then show ?thesis using d(4) i(8) [of l] by auto
    qed
    ultimately show ?thesis unfolding graft_addrs using \<open>a \<notin> art_addrs T1\<close> d(8) by auto
  qed
  moreover have "art_addrs (AIn na n (cs(k := T1))) \<subseteq> art_addrs ?T \<union> G \<union> {brk s..<brk s'}"
  proof -
    have "art_addrs T1 \<subseteq> art_addrs ?T \<union> {brk s..<brk s'}" using d(9) sub [of k] s(4,5) by fastforce
    then show ?thesis unfolding graft_addrs using na(1) by auto
  qed
  ultimately show ?thesis unfolding art_done_def using d(1) s(1-3) by blast
qed

section \<open>A missing branch\<close>

lemma art_at_inner:
  assumes at: "art_at slots hi c ofs (AIn a t cs) s" and m: "an_len t \<le> art_prefix_match t (c_key c)"
  shows "store_ok s" "art_repr s (AIn a t cs)" "cells s a = Some t" "a \<noteq> nullptr" "art_inv slots hi (AIn a t cs) ofs"
    and "an_type t \<noteq> ALEAF" "c_t_past c = a" "c_key_ofs c = ofs" "hi < c_sno c"
    and "same_bytes ofs (ofs + an_len t) (c_key c) (an_pfx t)"
    and "art_partial_key (c_key c) (ofs + an_len t) = Some (abyte (c_key c) (ofs + an_len t))"
    and "\<not> art_prefix_match t (c_key c) < an_len t"
    and "\<forall>x \<in> art_keys (cs (abyte (c_key c) (ofs + an_len t))). same_bytes 0 (ofs + an_len t + 1) x (c_key c)"
proof -
  have o: "store_ok s" "art_repr s (AIn a t cs)" "art_inv slots hi (AIn a t cs) ofs" "c_t_past c = a" "c_key_ofs c = ofs"
    "hi < c_sno c" "\<forall>x \<in> art_keys (AIn a t cs). same_bytes 0 ofs x (c_key c)"
    using at by (simp_all add: art_at_def del: art_repr.simps art_inv.simps)
  then show "store_ok s" "art_repr s (AIn a t cs)" "art_inv slots hi (AIn a t cs) ofs" "c_t_past c = a" "c_key_ofs c = ofs"
    "hi < c_sno c" by simp_all
  show "cells s a = Some t" using o(2) by simp
  then show "a \<noteq> nullptr" using o(1) store_ok_not_null [of s] by auto
  show "an_type t \<noteq> ALEAF" using art_inv_inner(1) [OF o(3)] by (auto simp: art_node_ok_def)
  show b: "same_bytes ofs (ofs + an_len t) (c_key c) (an_pfx t)" using m art_inner_bytes [OF o(3)] by simp
  show "art_partial_key (c_key c) (ofs + an_len t) = Some (abyte (c_key c) (ofs + an_len t))"
    using art_inv_inner(3) [OF o(3)] by (simp add: partial_key_abyte)
  show "\<not> art_prefix_match t (c_key c) < an_len t" using m by simp
  show "\<forall>x \<in> art_keys (cs (abyte (c_key c) (ofs + an_len t))). same_bytes 0 (ofs + an_len t + 1) x (c_key c)"
    by (rule art_child_bytes [OF o(3) b o(7)])
qed

lemma handle_insert_step:
  assumes "cells s (c_t_cur c) = Some cur" "cells s (c_t_past c) = Some past" "art_copych_at cur past (c_ch_idx c) = Some n"
    "art_setch n (c_ch_idx c) (brk s) = Some n'" "c_t_cur c < brk s"
  shows "art_handle_insert c s = Some (OP_DONE, c,
    s\<lparr>cells := (cells s)(brk s \<mapsto> art_new_leaf (ucast (c_sno c)) (c_key_ofs c) (c_key c) (c_val c), c_t_cur c \<mapsto> n'),
      brk := Suc (brk s)\<rparr>)"
  using assms by (simp add: art_handle_insert_def alloc_eq put_Some)

text \<open>The cell of a missing branch is a tip.\<close>

lemma art_child_tip:
  assumes "store_ok s" "art_repr s (AIn a t cs)" "art_inv slots hi (AIn a t cs) ofs" "art_find_idx t k = None"
  shows "cs k = ATip"
proof -
  have "art_addr (cs k) = nullptr" using find_idx_None(1) [OF art_inv_inner(1) [OF assms(3)] assms(4)] art_inv_inner(4) [OF assms(3)] by simp
  moreover have "art_repr s (cs k)" using assms(2) by simp
  ultimately show ?thesis using art_addr_null [OF assms(1)] by simp
qed

lemma art_start_insert:
  assumes at: "art_at slots hi c ofs (AIn a t cs) s" and m: "an_len t \<le> art_prefix_match t (c_key c)"
    and none: "art_find_idx t (abyte (c_key c) (ofs + an_len t)) = None"
  shows "art_started slots c ofs (AIn a t cs) s"
proof -
  note o = art_at_inner [OF at m] let ?v = "ucast (c_sno c) :: u64" let ?e = "ofs + an_len t"
  define k where "k = abyte (c_key c) ?e"
  note i = art_inv_inner [OF o(5)]
  obtain n0 j n where n: "(if art_is_full t then art_node_extend t ?v else Some (art_node_copy t ?v)) = Some n0"
    "art_append n0 k = Some (j, n)" "grows_to t ?v k j n"
    using node_grow [OF i(1), of k ?v] none unfolding k_def by blast
  obtain cur where cur: "art_copych_at n t j = Some cur"
    "\<And>x. x \<noteq> nullptr \<Longrightarrow> \<exists>n'. art_setch cur j x = Some n' \<and> art_node_ok n' \<and> art_view n' = (art_view t)(k := x) \<and> header_like t ?v n'"
    using n(3) unfolding grows_to_def by blast
  have tip: "cs k = ATip" using art_child_tip [OF o(1,2,5)] none by (simp add: k_def)
  let ?pa = "brk s" let ?s1 = "s\<lparr>cells := (cells s)(?pa \<mapsto> n), brk := Suc (brk s)\<rparr>"
  let ?c1 = "retire_replaced a (c\<lparr>c_key_ofs := ?e + 1, c_ch_idx := j\<rparr>)"
  have run: "art_update_cow c s = Some (ART_INSERT, ?pa, ?c1, ?s1)"
    using o n(1,2) none by (simp add: art_update_cow_def alloc_eq Let_def k_def [symmetric])
  have below: "x < brk s" if "x \<in> art_addrs (AIn a t cs)" for x using art_repr_below [OF o(1,2) that] by simp
  have pend: "art_pending slots c ofs (AIn a t cs) {brk s..<brk ?s1} ART_INSERT ?pa ?c1 ?s1"
    unfolding art_pending_def
  proof (intro allI impI)
    fix s2 r
    assume s2: "store_ok s2" "brk ?s1 \<le> brk s2" "\<forall>x \<in> {brk s..<brk ?s1} \<union> art_addrs (AIn a t cs). cells s2 x = cells ?s1 x"
    have cs2: "cells s2 ?pa = Some n" using s2(3) by simp
    have "a < brk s" by (rule below) simp
    then have past: "cells s2 a = Some t" using s2(3) o(3) by simp
    have old: "cells s2 x = cells s x" if "x \<in> art_addrs (AIn a t cs)" for x
    proof -
      have "cells s2 x = cells ?s1 x" using s2(3) that by blast
      then show ?thesis using below [OF that] by simp
    qed
    have "brk s2 \<noteq> nullptr" using s2(1) by (simp add: store_ok_def)
    from cur(2) [OF this] obtain n' where n': "art_setch cur j (brk s2) = Some n'" "art_node_ok n'"
      "art_view n' = (art_view t)(k := brk s2)" "header_like t ?v n'" by blast
    let ?c2 = "?c1\<lparr>c_root := r, c_t_cur := ?pa\<rparr>" let ?l = "art_new_leaf ?v (?e + 1) (c_key c) (c_val c)"
    let ?s3 = "s2\<lparr>cells := (cells s2)(brk s2 \<mapsto> ?l, ?pa \<mapsto> n'), brk := Suc (brk s2)\<rparr>"
    let ?T1 = "ALf (brk s2) ?l"
    have "art_handle_insert ?c2 s2 = Some (OP_DONE, ?c2, ?s3)"
      using cs2 past o(7) cur(1) n'(1) s2(2) by (subst handle_insert_step [where cur = n and past = t and n = cur and n' = n']) simp_all
    then have fin: "run_handlers art_handlers ART_INSERT ?c2 s2 = Some (?c2, ?s3)"
      using run_handlers_step [of ART_INSERT art_handlers ?c2 s2 OP_DONE ?c2 ?s3] by simp
    let ?s2' = "s2\<lparr>cells := (cells s2)(brk s2 \<mapsto> ?l), brk := Suc (brk s2)\<rparr>"
    have "cells ?s2' ?pa = Some n" using cs2 s2(2) by simp
    from store_ok_upd [OF store_ok_alloc [OF s2(1), of ?l] this, of "Some n'"] have ok3: "store_ok ?s3"
      by (simp add: store_ok_def)
    have upd1: "art_upd slots (c_sno c) (c_key c) (c_val c) (cs k) ?T1 (?e + 1)"
      using new_leaf_inv [of "?e + 1" slots "c_sno c" "brk s2" ?v "c_key c" "c_val c"] i(3)
      by (simp add: art_upd_def tip new_leaf_map del: art_inv.simps art_keys.simps(2) art_map.simps(2))
    have child: "art_done slots c (?e + 1) (cs k) {} (s2\<lparr>cells := (cells s2)(?pa \<mapsto> n')\<rparr>) ?s3 ?T1 []"
      unfolding art_done_def using upd1 ok3 s2(2) i(3) by (auto simp: tip)
    have rep2: "art_repr s2 (AIn a t cs)"
      using old by (intro art_repr_frame [OF o(2)]) blast
    have "art_done slots c ofs (AIn a t cs) {brk s..<brk ?s1} s2 ?s3 (AIn ?pa n' (cs(k := ?T1))) [a]"
    proof (rule graft_done [OF s2(1) rep2 o(5,9,10) k_def n'(4,2) _ _ child refl refl refl])
      show "?pa \<notin> art_addrs (AIn a t cs)" using below by blast
      show "{brk s..<brk ?s1} \<inter> art_addrs (AIn a t cs) = {}" using below by fastforce
    qed (use n'(3) s2(2) in auto)
    moreover have "ret_state ?c2 = ret_state (fold retire_replaced [a] c)"
      using ret_state_retire [of "c\<lparr>c_key_ofs := ?e + 1, c_ch_idx := j\<rparr>" c a] by (simp add: ret_state_def)
    ultimately show "\<exists>c3 s3 T' R. run_handlers art_handlers ART_INSERT ?c2 s2 = Some (c3, s3) \<and>
        art_addr T' = ?pa \<and> c_root c3 = r \<and> art_done slots c ofs (AIn a t cs) {brk s..<brk ?s1} s2 s3 T' R \<and>
        ret_state c3 = ret_state (fold retire_replaced R c)"
      using fin by (intro exI [of _ ?c2] exI [of _ ?s3] exI [of _ "AIn ?pa n' (cs(k := ?T1))"] exI [of _ "[a]"]) simp
  qed
  show ?thesis unfolding art_started_def
    using run store_ok_alloc [OF o(1), of n] pend
    by (intro exI [of _ ART_INSERT] exI [of _ ?pa] exI [of _ ?c1] exI [of _ ?s1]) auto
qed

section \<open>Descent\<close>

definition keeps_root :: "art_ctx \<Rightarrow> nat \<times> addr \<times> art_ctx \<times> art_store \<Rightarrow> bool" where
  "keeps_root c r \<longleftrightarrow> c_root (fst (snd (snd r))) = c_root c"

lemma fork_cow_root: "opt_all (\<lambda>r. c_root (fst (snd r)) = c_root c) (art_node_fork_cow c past pmlen s)"
  unfolding art_node_fork_cow_def by (intro opt_intros) simp_all

lemma update_cow_keeps_root: "opt_all (keeps_root c) (art_update_cow c s)"
  unfolding art_update_cow_def
  by (intro opt_intros) (auto simp: keeps_root_def dest!: opt_allD [OF fork_cow_root])

lemma update_cow_root: "art_update_cow c s = Some (op, a, c1, s1) \<Longrightarrow> c_root c1 = c_root c"
  using opt_allD [OF update_cow_keeps_root] by (fastforce simp: keeps_root_def)

lemma handle_search_step:
  assumes "cells s (c_t_cur c) = Some cur" "cells s (c_t_past c) = Some past" "art_copych cur past = Some n"
    "art_getch past (c_ch_idx c) = Some ch"
    "art_update_cow (c\<lparr>c_t_past := ch\<rparr>) (s\<lparr>cells := (cells s)(c_t_cur c \<mapsto> n)\<rparr>) = Some (op, a, c1, s1)"
    "art_setch n (c_ch_idx c) a = Some n'" "c_t_cur c \<in> dom (cells s1)"
  shows "art_handle_search c s = Some (op, c1\<lparr>c_t_cur := a\<rparr>, s1\<lparr>cells := (cells s1)(c_t_cur c \<mapsto> n')\<rparr>)"
  using assms by (auto simp: art_handle_search_def put_Some put_def)

lemma art_start_search:
  assumes at: "art_at slots hi c ofs (AIn a t cs) s" and m: "an_len t \<le> art_prefix_match t (c_key c)"
    and idx: "art_find_idx t (abyte (c_key c) (ofs + an_len t)) = Some j"
    and IH: "\<And>c' s'. art_at slots hi c' (ofs + an_len t + 1) (cs (abyte (c_key c) (ofs + an_len t))) s' \<Longrightarrow>
      art_started slots c' (ofs + an_len t + 1) (cs (abyte (c_key c) (ofs + an_len t))) s'"
  shows "art_started slots c ofs (AIn a t cs) s"
proof -
  let ?T = "AIn a t cs"
  note o = art_at_inner [OF at m] let ?v = "ucast (c_sno c) :: u64" let ?e = "ofs + an_len t"
  define k where "k = abyte (c_key c) ?e"
  note i = art_inv_inner [OF o(5)]
  note idx = idx [folded k_def] and IH = IH [folded k_def]
  let ?n0 = "art_node_copy t ?v" let ?pa = "brk s" let ?s1 = "s\<lparr>cells := (cells s)(?pa \<mapsto> ?n0), brk := Suc (brk s)\<rparr>"
  let ?c1 = "retire_replaced a (c\<lparr>c_key_ofs := ?e + 1, c_ch_idx := j\<rparr>)"
  have n0: "same_index ?n0 t" "an_chs ?n0 = []" "header_like t ?v ?n0"
    using o(6) by (simp_all add: art_node_copy_def Let_def same_index_def header_like_def)
  obtain n where n: "art_copych ?n0 t = Some n" "art_node_ok n" "art_view n = art_view t" "rechild ?n0 n" "same_index n t"
    using copych_view [OF i(1) n0(1,2)] by blast
  have nidx: "art_find_idx n k = Some j" using find_idx_same [OF n(5)] idx by simp
  have run: "art_update_cow c s = Some (ART_SEARCH, ?pa, ?c1, ?s1)"
    using o idx by (simp add: art_update_cow_def alloc_eq Let_def k_def [symmetric])
  have below: "x < brk s" if "x \<in> art_addrs ?T" for x using art_repr_below [OF o(1,2) that] by simp
  have paT: "?pa \<notin> art_addrs ?T" using below by blast
  have paF: "{brk s..<brk ?s1} \<inter> art_addrs ?T = {}" using below by fastforce
  have sub: "art_addrs (cs l) \<subseteq> art_addrs ?T" for l by auto
  have pend: "art_pending slots c ofs ?T {brk s..<brk ?s1} ART_SEARCH ?pa ?c1 ?s1"
    unfolding art_pending_def
  proof (intro allI impI)
    fix s2 r
    assume s2: "store_ok s2" "brk ?s1 \<le> brk s2" "\<forall>x \<in> {brk s..<brk ?s1} \<union> art_addrs ?T. cells s2 x = cells ?s1 x"
    have cs2: "cells s2 ?pa = Some ?n0" using s2(3) by simp
    have old: "cells s2 x = cells s x" if "x \<in> art_addrs ?T" for x
    proof -
      have "cells s2 x = cells ?s1 x" using s2(3) that by blast
      then show ?thesis using below [OF that] by simp
    qed
    have past: "cells s2 a = Some t" using old [of a] o(3) by simp
    have rep2: "art_repr s2 ?T" using old by (intro art_repr_frame [OF o(2)]) blast
    let ?c2 = "?c1\<lparr>c_root := r, c_t_cur := ?pa\<rparr>" let ?s3 = "s2\<lparr>cells := (cells s2)(?pa \<mapsto> n)\<rparr>"
    let ?c3 = "?c2\<lparr>c_t_past := art_addr (cs k)\<rparr>"
    have ok3: "store_ok ?s3" by (rule store_ok_upd [OF s2(1) cs2])
    have rep3: "art_repr ?s3 ?T"
    proof (rule art_repr_frame [OF rep2])
      show "cells ?s3 x = cells s2 x" if "x \<in> art_addrs ?T" for x using that paT by auto
    qed
    have "art_at slots hi ?c3 (?e + 1) (cs k) ?s3"
      unfolding art_at_def using ok3 rep3 i(3,7) o(9,13) by (simp add: k_def)
    then have "art_started slots ?c3 (?e + 1) (cs k) ?s3" by (rule IH)
    then obtain op a1 c4 s4 where st: "art_update_cow ?c3 ?s3 = Some (op, a1, c4, s4)" "store_ok s4" "brk ?s3 \<le> a1" "a1 < brk s4"
      "dom (cells ?s3) \<subseteq> dom (cells s4)" "\<forall>x < brk ?s3. cells s4 x = cells ?s3 x"
      "art_pending slots ?c3 (?e + 1) (cs k) {brk ?s3..<brk s4} op a1 c4 s4"
      unfolding art_started_def by blast
    have "brk ?s3 = brk s2" by simp
    note st = st [unfolded this]
    have root: "c_root c4 = r" using update_cow_root [OF st(1)] by simp
    have lt: "?pa < brk s2" using s2(2) by simp
    have "a1 \<noteq> nullptr" using st(3) lt by auto
    then obtain n' where n': "art_setch n j a1 = Some n'" "art_node_ok n'"
      "art_view n' = (art_view t)(k := a1)" "rechild n n'" using setch_view [OF n(2) nidx] unfolding n(3) by blast
    have hd: "header_like t ?v n'" by (rule rechild_header [OF rechild_header [OF n0(3) n(4)] n'(4)])
    let ?s5 = "s4\<lparr>cells := (cells s4)(?pa \<mapsto> n')\<rparr>" let ?c5 = "c4\<lparr>c_t_cur := a1\<rparr>"
    have pa4: "cells s4 ?pa = Some n" using st(6) lt by simp
    have get: "art_getch t j = Some (art_addr (cs k))" using getch_view [OF i(1) idx] i(4) [of k] by simp
    have h: "art_handle_search ?c2 s2 = Some (op, ?c5, ?s5)"
      using cs2 past o(7) n(1) get st(1) n'(1) pa4
      by (subst handle_search_step [where cur = ?n0 and past = t and n = n and n' = n' and ch = "art_addr (cs k)"
            and op = op and a = a1 and ?c1.0 = c4 and ?s1.0 = s4]) auto
    have ok5: "store_ok ?s5" by (rule store_ok_upd [OF st(2) pa4])
    have b5: "brk s4 \<le> brk ?s5" by simp
    have f5: "\<forall>x \<in> {brk s2..<brk s4} \<union> art_addrs (cs k). cells ?s5 x = cells s4 x"
    proof
      fix x assume "x \<in> {brk s2..<brk s4} \<union> art_addrs (cs k)"
      then have "x \<noteq> ?pa" using lt paT sub [of k] by auto
      then show "cells ?s5 x = cells s4 x" by simp
    qed
    obtain c6 s6 T1 R where p: "run_handlers art_handlers op (c4\<lparr>c_root := r, c_t_cur := a1\<rparr>) ?s5 = Some (c6, s6)"
      "art_addr T1 = a1" "c_root c6 = r" "art_done slots ?c3 (?e + 1) (cs k) {brk s2..<brk s4} ?s5 s6 T1 R"
      "ret_state c6 = ret_state (fold retire_replaced R ?c3)"
      using art_pendingD [OF st(7) ok5 b5 f5, of r] by blast
    have "c4\<lparr>c_root := r, c_t_cur := a1\<rparr> = ?c5" using root by simp
    then have fin: "run_handlers art_handlers ART_SEARCH ?c2 s2 = Some (c6, s6)"
      using run_handlers_step [of ART_SEARCH art_handlers ?c2 s2 op ?c5 ?s5] h p(1) by simp
    have d: "brk s4 \<le> brk s6" "dom (cells ?s5) \<subseteq> dom (cells s6)" "\<forall>x < brk s4. x \<notin> {brk s2..<brk s4} \<longrightarrow> cells s6 x = cells ?s5 x"
      using p(4) unfolding art_done_def by simp_all
    have le: "brk s2 \<le> brk s4" using st(3,4) by simp
    have pa6: "cells s6 ?pa = Some n'" using d(3) lt le by simp
    have "art_done slots c ofs ?T {brk s..<brk ?s1} s2 s6 (AIn ?pa n' (cs(k := T1))) (a # R)"
    proof (rule graft_done [OF s2(1) rep2 o(5,9,10) k_def hd n'(2) _ pa6 p(4)])
      show "art_view n' = (art_view t)(k := art_addr T1)" unfolding p(2) by (rule n'(3))
      have "dom (cells s2) \<subseteq> dom (cells s4)" "dom (cells s4) \<subseteq> dom (cells s6)" using d(2) st(5) by auto
      then show "dom (cells s2) \<subseteq> dom (cells s6)" by (rule order_trans)
      show "\<forall>x<brk s2. x \<notin> {brk s..<brk ?s1} \<longrightarrow> cells s6 x = cells s2 x" using d(3) st(6) le by auto
      show "brk s2 \<le> brk s6" "{brk s2..<brk s4} \<subseteq> {brk s2..<brk s6}" "brk s2 \<le> brk ?s5" using d(1) le by simp_all
    qed (use lt le paT paF in simp_all)
    moreover have "ret_state c6 = ret_state (fold retire_replaced (a # R) c)"
    proof -
      have "ret_state ?c3 = ret_state (retire_replaced a c)"
        using ret_state_retire [of "c\<lparr>c_key_ofs := ?e + 1, c_ch_idx := j\<rparr>" c a] by (simp add: ret_state_def)
      from ret_state_fold [OF this, of R] show ?thesis using p(5) by simp
    qed
    ultimately show "\<exists>c3 s3 T' R. run_handlers art_handlers ART_SEARCH ?c2 s2 = Some (c3, s3) \<and>
        art_addr T' = ?pa \<and> c_root c3 = r \<and> art_done slots c ofs ?T {brk s..<brk ?s1} s2 s3 T' R \<and>
        ret_state c3 = ret_state (fold retire_replaced R c)"
      using fin p(3) by (intro exI [of _ c6] exI [of _ s6] exI [of _ "AIn ?pa n' (cs(k := T1))"] exI [of _ "a # R"]) simp
  qed
  show ?thesis unfolding art_started_def
    using run store_ok_alloc [OF o(1), of ?n0] pend
    by (intro exI [of _ ART_SEARCH] exI [of _ ?pa] exI [of _ ?c1] exI [of _ ?s1]) auto
qed

section \<open>Every case together\<close>

lemma art_runs: "art_at slots hi c ofs T s \<Longrightarrow> art_started slots c ofs T s"
proof (induction T arbitrary: c ofs s)
  case ATip
  then show ?case by (rule art_start_empty)
next
  case (ALf a t)
  have inv: "art_inv slots hi (ALf a t) ofs" and b: "same_bytes 0 ofs (an_pfx t) (c_key c)" and "ofs \<le> 8"
    using ALf by (simp_all add: art_at_def)
  show ?case
  proof (cases "art_prefix_match t (c_key c) < an_len t")
    case True
    then show ?thesis using art_start_fork [OF ALf, of a t "\<lambda>_. ATip"] by simp
  next
    case False
    then have "an_pfx t = c_key c" using art_leaf_bytes [OF inv, of "c_key c"] same_bytes_key [OF b \<open>ofs \<le> 8\<close>] by simp
    then show ?thesis by (rule art_start_leaf [OF ALf])
  qed
next
  case (AIn a t cs)
  show ?case
  proof (cases "art_prefix_match t (c_key c) < an_len t")
    case True
    then show ?thesis using art_start_fork [OF AIn.prems, of a t cs] by simp
  next
    case False
    then have m: "an_len t \<le> art_prefix_match t (c_key c)" by simp
    show ?thesis
    proof (cases "art_find_idx t (abyte (c_key c) (ofs + an_len t))")
      case None
      then show ?thesis by (rule art_start_insert [OF AIn.prems m])
    next
      case (Some j)
      show ?thesis by (rule art_start_search [OF AIn.prems m Some]) (rule AIn.IH, rule rangeI)
    qed
  qed
qed

end
