(* ===== verification/ART_Exec.thy ===== *)
theory ART_Exec
  imports ART_Update
begin

text \<open>
  Whole updates of the adaptive radix tree: the append to the history of the leaf of the key when it has
  room, the path copy otherwise; and what an update leaves of the trees of earlier versions.
\<close>

section \<open>A tree in a store\<close>

definition art_wf :: "nat \<Rightarrow> u32 \<Rightarrow> art_store \<Rightarrow> art_tree \<Rightarrow> bool" where
  "art_wf slots hi s T \<longleftrightarrow> store_ok s \<and> art_repr s T \<and> art_inv slots hi T 0"

definition art_now :: "art_tree \<Rightarrow> u64 \<Rightarrow> u64 option" where
  "art_now T = art_map UINT64_MAX T"

definition art_task :: "nat \<Rightarrow> u32 \<Rightarrow> art_tree \<Rightarrow> art_ctx \<Rightarrow> bool" where
  "art_task slots hi T c \<longleftrightarrow> c_t_past c = art_addr T \<and> hi < c_sno c \<and> c_fat_slots c = slots"

lemma art_map_stable:
  "art_inv slots hi T ofs \<Longrightarrow> ucast hi \<le> u \<Longrightarrow> ucast hi \<le> w \<Longrightarrow> art_map u T = art_map w T"
proof (induction T arbitrary: ofs)
  case (ALf a t)
  then show ?case using fat_read_stable [of slots hi "an_fat t" u w] by (simp add: fun_eq_iff)
next
  case (AIn a t cs)
  have "art_map u (cs k) = art_map w (cs k)" for k
    by (rule AIn.IH [OF _ art_inv_inner(7) [OF AIn.prems(1)] AIn.prems(2,3)]) simp
  then show ?case by (simp add: fun_eq_iff)
qed simp

section \<open>The leaf of a key\<close>

lemma art_leaf_addr_ok:
  "art_repr s T \<Longrightarrow> art_inv slots hi T ofs \<Longrightarrow> key \<in> art_keys T \<Longrightarrow>
     \<exists>t. cells s (art_leaf_addr T key) = Some t \<and> an_type t = ALEAF \<and> an_pfx t = key \<and> fat_ok slots hi (an_fat t) \<and>
       art_leaf_addr T key \<in> art_addrs T"
proof (induction T arbitrary: ofs)
  case (AIn a t cs)
  obtain k where k: "key \<in> art_keys (cs k)" using AIn.prems(3) by auto
  then have b: "abyte key (an_ofs t + an_len t) = k"
    using art_inv_inner(2,6) [OF AIn.prems(2)] by simp
  have rep: "art_repr s (cs k)" using AIn.prems(1) by simp
  show ?case using AIn.IH [OF _ rep art_inv_inner(7) [OF AIn.prems(2)] k] b by auto
qed auto

section \<open>The tree after an append in place\<close>

primrec art_put_leaf :: "addr \<Rightarrow> art_node \<Rightarrow> art_tree \<Rightarrow> art_tree" where
  "art_put_leaf l t' ATip = ATip"
| "art_put_leaf l t' (ALf a t) = ALf a (if a = l then t' else t)"
| "art_put_leaf l t' (AIn a t cs) = AIn a t (\<lambda>k. art_put_leaf l t' (cs k))"

lemma put_leaf_addr [simp]: "art_addr (art_put_leaf l t' T) = art_addr T"
  by (cases T) simp_all

lemma put_leaf_addrs [simp]: "art_addrs (art_put_leaf l t' T) = art_addrs T"
  by (induction T) simp_all

lemma put_leaf_other: "l \<notin> art_addrs T \<Longrightarrow> art_put_leaf l t' T = T"
  by (induction T) (simp_all add: fun_eq_iff)

text \<open>An append to the leaf at \<open>l\<close>, in a store that represents the tree.\<close>

definition leaf_append :: "nat \<Rightarrow> u32 \<Rightarrow> u64 \<Rightarrow> art_node \<Rightarrow> art_node \<Rightarrow> bool" where
  "leaf_append slots ver val t t' \<longleftrightarrow>
     an_type t = ALEAF \<and> (\<exists>v. fat_append slots ver val (an_fat t) = Some v \<and> t' = t\<lparr>an_fat := v\<rparr>)"

lemma leaf_append_keys:
  assumes "leaf_append slots ver val t t'" "cells s l = Some t" "art_repr s T"
  shows "art_keys (art_put_leaf l t' T) = art_keys T"
  using assms(3)
proof (induction T)
  case (ALf a t0)
  then show ?case using assms by (auto simp: leaf_append_def)
qed simp_all

lemma leaf_append_repr:
  assumes t: "leaf_append slots ver val t t'" "cells s l = Some t" and "art_repr s T" "art_inv slots hi T ofs"
  shows "art_repr (s\<lparr>cells := (cells s)(l \<mapsto> t')\<rparr>) (art_put_leaf l t' T)"
  using assms(3,4)
proof (induction T arbitrary: ofs)
  case (AIn a t0 cs)
  have "an_type t0 \<noteq> ALEAF" using art_inv_inner(1) [OF AIn.prems(2)] by (auto simp: art_node_ok_def)
  then have "a \<noteq> l" using AIn.prems(1) t by (auto simp: leaf_append_def)
  moreover have "art_repr (s\<lparr>cells := (cells s)(l \<mapsto> t')\<rparr>) (art_put_leaf l t' (cs k))" for k
    using AIn.prems(1) by (intro AIn.IH [OF _ _ art_inv_inner(7) [OF AIn.prems(2)]]) simp_all
  moreover have "cells s a = Some t0" using AIn.prems(1) by simp
  ultimately show ?case by (simp del: fun_upd_apply add: fun_upd_other)
qed auto

lemma leaf_append_inv:
  assumes t: "leaf_append slots ver val t t'" "cells s l = Some t" and "hi < ver" and "art_repr s T" "art_inv slots hi T ofs"
  shows "art_inv slots ver (art_put_leaf l t' T) ofs"
  using assms(4,5)
proof (induction T arbitrary: ofs)
  case (ALf a t0)
  have "hi \<le> ver" using \<open>hi < ver\<close> by simp
  show ?case
  proof (cases "a = l")
    case True
    then have "t0 = t" using ALf.prems(1) t(2) by simp
    obtain v where v: "fat_append slots ver val (an_fat t) = Some v" "t' = t\<lparr>an_fat := v\<rparr>"
      using t(1) by (auto simp: leaf_append_def)
    have "fat_ok slots ver v" using ALf.prems(2) \<open>t0 = t\<close> by (intro fat_append_reads(1) [OF _ \<open>hi < ver\<close> v(1)]) simp
    then show ?thesis using True ALf.prems(2) v(2) \<open>t0 = t\<close> by simp
  next
    case False
    then show ?thesis using art_inv_mono [OF ALf.prems(2) \<open>hi \<le> ver\<close>] by simp
  qed
next
  case (AIn a t0 cs)
  note i = art_inv_inner [OF AIn.prems(2)]
  have sub: "art_repr s (cs k)" for k using AIn.prems(1) by simp
  note keys = leaf_append_keys [OF t sub]
  show ?case unfolding art_put_leaf.simps
  proof (rule art_inv_innerI, goal_cases)
    case 1 show ?case by (rule i(1))
  next
    case 2 show ?case by (rule i(2))
  next
    case 3 show ?case by (rule i(3))
  next
    case (4 k) show ?case using i(4) by simp
  next
    case (5 k x) then show ?case unfolding keys using i(5,6) by blast
  next
    case (6 k) show ?case by (rule AIn.IH [OF _ sub i(7)]) simp
  next
    case (7 k) show ?case using i(8) by simp
  next
    case (8 k m) then show ?case using i(9) by simp
  qed
qed simp

text \<open>Snapshots before the version of the append see no change.\<close>

lemma leaf_append_old:
  assumes t: "leaf_append slots ver val t t'" "cells s l = Some t" and "hi < ver" and u: "u < ucast ver"
    and "art_repr s T" "art_inv slots hi T ofs"
  shows "art_map u (art_put_leaf l t' T) = art_map u T"
  using assms(5,6)
proof (induction T arbitrary: ofs)
  case (ALf a t0)
  show ?case
  proof (cases "a = l")
    case True
    then have "t0 = t" using ALf.prems(1) t(2) by simp
    obtain v where v: "fat_append slots ver val (an_fat t) = Some v" "t' = t\<lparr>an_fat := v\<rparr>"
      using t(1) by (auto simp: leaf_append_def)
    have "fat_read v (an_val t) u = fat_read (an_fat t) (an_val t) u"
      using ALf.prems(2) \<open>t0 = t\<close> u by (subst fat_append_reads(2) [OF _ \<open>hi < ver\<close> v(1)]) (auto simp: not_le)
    then show ?thesis using True v(2) \<open>t0 = t\<close> by (simp add: fun_eq_iff)
  qed simp
next
  case (AIn a t0 cs)
  have "art_map u (art_put_leaf l t' (cs k)) = art_map u (cs k)" for k
    using AIn.prems(1) by (intro AIn.IH [OF _ _ art_inv_inner(7) [OF AIn.prems(2)]]) simp_all
  then show ?case by (simp add: fun_eq_iff)
qed simp

text \<open>Later snapshots see the new value under the key of the leaf.\<close>

lemma leaf_in_keys:
  assumes "cells s l = Some t" "an_type t = ALEAF"
  shows "art_repr s T \<Longrightarrow> art_inv slots hi T ofs \<Longrightarrow> l \<in> art_addrs T \<Longrightarrow> an_pfx t \<in> art_keys T"
proof (induction T arbitrary: ofs)
  case (AIn a t0 cs)
  have "an_type t0 \<noteq> ALEAF" using art_inv_inner(1) [OF AIn.prems(2)] by (auto simp: art_node_ok_def)
  then have "l \<noteq> a" using AIn.prems(1) assms by auto
  then obtain k where k: "l \<in> art_addrs (cs k)" using AIn.prems(3) by auto
  have "an_pfx t \<in> art_keys (cs k)"
    using AIn.prems(1) k by (intro AIn.IH [OF _ _ art_inv_inner(7) [OF AIn.prems(2)]]) simp_all
  then show ?case by auto
qed (use assms in auto)

lemma leaf_append_now:
  assumes t: "leaf_append slots ver val t t'" "cells s l = Some t" and "hi < ver" and u: "ucast ver \<le> u"
    and "art_repr s T" "art_inv slots hi T ofs" "l \<in> art_addrs T"
  shows "art_map u (art_put_leaf l t' T) = (art_map u T)(an_pfx t \<mapsto> val)"
  using assms(5-7)
proof (induction T arbitrary: ofs)
  case (ALf a t0)
  then have "a = l" "t0 = t" using t(2) by simp_all
  obtain v where v: "fat_append slots ver val (an_fat t) = Some v" "t' = t\<lparr>an_fat := v\<rparr>"
    using t(1) by (auto simp: leaf_append_def)
  have "fat_read v (an_val t) u = val"
    using ALf.prems(2) \<open>t0 = t\<close> u by (subst fat_append_reads(2) [OF _ \<open>hi < ver\<close> v(1)]) auto
  then show ?case using v(2) \<open>t0 = t\<close> \<open>a = l\<close> by (simp add: fun_eq_iff)
next
  case (AIn a t0 cs)
  note i = art_inv_inner [OF AIn.prems(2)]
  have ty: "an_type t = ALEAF" using t(1) by (simp add: leaf_append_def)
  have "an_type t0 \<noteq> ALEAF" using i(1) by (auto simp: art_node_ok_def)
  then have "l \<noteq> a" using AIn.prems(1) t(2) ty by auto
  then obtain k where k: "l \<in> art_addrs (cs k)" using AIn.prems(3) by auto
  have sub: "art_repr s (cs j)" for j using AIn.prems(1) by simp
  have IH: "art_map u (art_put_leaf l t' (cs k)) = (art_map u (cs k))(an_pfx t \<mapsto> val)"
    by (rule AIn.IH [OF _ sub i(7) k]) simp
  have other: "art_put_leaf l t' (cs j) = cs j" if "j \<noteq> k" for j
    using i(9) [OF that] k by (intro put_leaf_other) blast
  have b: "abyte (an_pfx t) (an_ofs t0 + an_len t0) = k"
    using leaf_in_keys [OF t(2) ty sub i(7) k] i(2,6) by simp
  show ?case
  proof
    fix x
    let ?j = "abyte x (an_ofs t0 + an_len t0)"
    show "art_map u (art_put_leaf l t' (AIn a t0 cs)) x = ((art_map u (AIn a t0 cs))(an_pfx t \<mapsto> val)) x"
    proof (cases "?j = k")
      case True
      then show ?thesis using IH by simp
    next
      case False
      then have "x \<noteq> an_pfx t" using b by auto
      then show ?thesis using other [OF False] by simp
    qed
  qed
qed simp

section \<open>What an update leaves of earlier trees\<close>

definition art_snapshots_kept :: "nat \<Rightarrow> u32 \<Rightarrow> u32 \<Rightarrow> art_store \<Rightarrow> art_store \<Rightarrow> bool" where
  "art_snapshots_kept slots hi ver s s' \<longleftrightarrow>
     (\<forall>w T. w < ucast ver \<longrightarrow> art_repr s T \<longrightarrow> art_inv slots hi T 0 \<longrightarrow>
        (\<exists>T'. art_repr s' T' \<and> art_addr T' = art_addr T \<and> art_addrs T' = art_addrs T \<and> art_inv slots ver T' 0 \<and>
              (\<forall>u \<le> w. art_map u T' = art_map u T)))"

lemma art_kept_frame:
  assumes "store_ok s" "\<forall>x < brk s. cells s' x = cells s x" "hi \<le> ver"
  shows "art_snapshots_kept slots hi ver s s'"
  unfolding art_snapshots_kept_def
proof (intro allI impI)
  fix w T assume T: "art_repr s T" "art_inv slots hi T 0"
  have "art_repr s' T"
  proof (rule art_repr_frame [OF T(1)])
    show "cells s' x = cells s x" if "x \<in> art_addrs T" for x
      using assms(2) art_repr_below [OF assms(1) T(1) that] by blast
  qed
  then show "\<exists>T'. art_repr s' T' \<and> art_addr T' = art_addr T \<and> art_addrs T' = art_addrs T \<and> art_inv slots ver T' 0 \<and>
      (\<forall>u \<le> w. art_map u T' = art_map u T)"
    using art_inv_mono [OF T(2) assms(3)] by blast
qed

lemma art_kept_append:
  assumes t: "leaf_append slots ver val t t'" "cells s l = Some t" and "hi < ver"
  shows "art_snapshots_kept slots hi ver s (s\<lparr>cells := (cells s)(l \<mapsto> t')\<rparr>)"
  unfolding art_snapshots_kept_def
proof (intro allI impI)
  fix w T assume w: "w < (ucast ver :: u64)" and T: "art_repr s T" "art_inv slots hi T 0"
  have "\<forall>u \<le> w. art_map u (art_put_leaf l t' T) = art_map u T"
    using w by (intro allI impI leaf_append_old [OF t \<open>hi < ver\<close> _ T]) (rule le_less_trans)
  then show "\<exists>T'. art_repr (s\<lparr>cells := (cells s)(l \<mapsto> t')\<rparr>) T' \<and> art_addr T' = art_addr T \<and> art_addrs T' = art_addrs T \<and>
      art_inv slots ver T' 0 \<and> (\<forall>u \<le> w. art_map u T' = art_map u T)"
    using leaf_append_repr [OF t T] leaf_append_inv [OF t \<open>hi < ver\<close> T] by (intro exI [of _ "art_put_leaf l t' T"]) simp
qed

section \<open>The result of one task\<close>

definition art_post :: "nat \<Rightarrow> u32 \<Rightarrow> art_tree \<Rightarrow> art_ctx \<Rightarrow> art_store \<Rightarrow> art_ctx \<Rightarrow> art_store \<Rightarrow> art_tree \<Rightarrow> addr list \<Rightarrow> bool" where
  "art_post slots hi T c s c' s' T' R \<longleftrightarrow>
     art_wf slots (c_sno c) s' T' \<and> c_root c' = art_addr T' \<and> art_now T' = (art_now T)(c_key c \<mapsto> c_val c) \<and>
     brk s \<le> brk s' \<and> dom (cells s) \<subseteq> dom (cells s') \<and> art_addrs T' \<subseteq> art_addrs T \<union> {brk s..<brk s'} \<and>
     set R = art_addrs T - art_addrs T' \<and> distinct R \<and> length R \<le> 9 \<and>
     ret_state c' = ret_state (fold retire_replaced R c) \<and> art_snapshots_kept slots hi (c_sno c) s s'"

lemma art_now_upd: "art_upd slots ver key val T T' ofs \<Longrightarrow> art_now T' = (art_now T)(key \<mapsto> val)"
  using ucast_mono_32 [of ver "- 1"] by (simp add: art_upd_def art_now_def UINT64_MAX_def)

text \<open>The path copy, started and finished.\<close>

lemma art_copy_runs:
  assumes wf: "art_wf slots hi s T" and c: "c_t_past c = art_addr T" "hi < c_sno c"
  shows "\<exists>op c1 s1 c' s' T' R. art_cow_begin c s = Some (op, c1, s1) \<and> run_handlers art_handlers op c1 s1 = Some (c', s') \<and>
    art_post slots hi T c s c' s' T' R"
proof -
  let ?c = "c\<lparr>c_key_ofs := 0\<rparr>"
  have "art_at slots hi ?c 0 T s" using wf c by (simp add: art_at_def art_wf_def)
  then obtain op a c1 s1 where st: "art_update_cow ?c s = Some (op, a, c1, s1)" "store_ok s1" "brk s \<le> a" "a < brk s1"
    "dom (cells s) \<subseteq> dom (cells s1)" "\<forall>x < brk s. cells s1 x = cells s x"
    "art_pending slots ?c 0 T {brk s..<brk s1} op a c1 s1"
    using art_runs unfolding art_started_def by blast
  obtain c' s' T' R where run: "run_handlers art_handlers op (c1\<lparr>c_root := a, c_t_cur := a\<rparr>) s1 = Some (c', s')"
    "art_addr T' = a" "c_root c' = a" "art_done slots ?c 0 T {brk s..<brk s1} s1 s' T' R"
    "ret_state c' = ret_state (fold retire_replaced R ?c)"
    using art_pendingD [OF st(7,2) order_refl, of a] by blast
  have d: "store_ok s'" "brk s1 \<le> brk s'" "dom (cells s1) \<subseteq> dom (cells s')"
    "\<forall>x < brk s1. x \<notin> {brk s..<brk s1} \<longrightarrow> cells s' x = cells s1 x" "art_repr s' T'"
    "art_upd slots (c_sno c) (c_key c) (c_val c) T T' 0" "set R \<subseteq> art_addrs T" "distinct R" "length R \<le> 9"
    "art_addrs T - set R \<subseteq> art_addrs T'" "art_addrs T' \<inter> set R = {}"
    "art_addrs T' \<subseteq> art_addrs T \<union> {brk s..<brk s1} \<union> {brk s1..<brk s'}"
    using run(4) unfolding art_done_def by simp_all
  have le: "brk s \<le> brk s1" using st(3,4) by simp
  have frame: "\<forall>x < brk s. cells s' x = cells s x" using d(4) st(6) le by auto
  have "art_snapshots_kept slots hi (c_sno c) s s'"
    using wf c(2) by (intro art_kept_frame [OF _ frame]) (simp_all add: art_wf_def)
  moreover have "dom (cells s) \<subseteq> dom (cells s')" using st(5) d(3) by (rule order_trans)
  moreover have "set R = art_addrs T - art_addrs T'" using d(7,10,11) by blast
  moreover have "art_addrs T' \<subseteq> art_addrs T \<union> {brk s..<brk s'}" using d(2,12) le by fastforce
  moreover have "ret_state c' = ret_state (fold retire_replaced R c)"
    using run(5) ret_state_fold [of ?c c R] by (simp add: ret_state_def)
  moreover have "art_wf slots (c_sno c) s' T'" using d(1,5,6) by (simp add: art_wf_def art_upd_def)
  moreover have "brk s \<le> brk s'" using le d(2) by simp
  ultimately have "art_post slots hi T c s c' s' T' R"
    unfolding art_post_def using run(2,3) art_now_upd [OF d(6)] d(8,9) by simp
  moreover have "art_cow_begin c s = Some (op, c1\<lparr>c_root := a, c_t_cur := a\<rparr>, s1)" using st(1) by (simp add: art_cow_begin_def)
  ultimately show ?thesis using run(1) by blast
qed

text \<open>The append in place.\<close>

lemma art_append_runs:
  assumes wf: "art_wf slots hi s T" and task: "art_task slots hi T c"
    and l: "cells s l = Some t" "an_type t = ALEAF" "an_pfx t = c_key c" "l \<in> art_addrs T"
    and v: "fat_append slots (c_sno c) (c_val c) (an_fat t) = Some v"
  shows "art_post slots hi T c s (c\<lparr>c_root := c_t_past c\<rparr>) (s\<lparr>cells := (cells s)(l \<mapsto> t\<lparr>an_fat := v\<rparr>)\<rparr>)
    (art_put_leaf l (t\<lparr>an_fat := v\<rparr>) T) []"
proof -
  let ?t = "t\<lparr>an_fat := v\<rparr>" let ?s = "s\<lparr>cells := (cells s)(l \<mapsto> ?t)\<rparr>"
  have app: "leaf_append slots (c_sno c) (c_val c) t ?t" using l(2) v by (simp add: leaf_append_def)
  have w: "store_ok s" "art_repr s T" "art_inv slots hi T 0" using wf by (simp_all add: art_wf_def)
  have hi: "hi < c_sno c" using task by (simp add: art_task_def)
  have "(ucast (c_sno c) :: u64) \<le> UINT64_MAX" by (simp add: UINT64_MAX_def)
  from leaf_append_now [OF app l(1) hi this w(2,3) l(4)] have "art_now (art_put_leaf l ?t T) = (art_now T)(c_key c \<mapsto> c_val c)"
    using l(3) by (simp add: art_now_def)
  moreover have "art_wf slots (c_sno c) ?s (art_put_leaf l ?t T)"
    using store_ok_upd [OF w(1) l(1)] leaf_append_repr [OF app l(1) w(2,3)] leaf_append_inv [OF app l(1) hi w(2,3)]
    by (simp add: art_wf_def)
  moreover have "art_snapshots_kept slots hi (c_sno c) s ?s" by (rule art_kept_append [OF app l(1) hi])
  ultimately show ?thesis using task by (auto simp: art_post_def art_task_def ret_state_def)
qed

lemma art_exec_runs:
  assumes wf: "art_wf slots hi s T" and task: "art_task slots hi T c"
  shows "\<exists>c' s' T' R. art_exec c s = Some (c', s') \<and> art_post slots hi T c s c' s' T' R"
proof -
  have w: "store_ok s" "art_repr s T" "art_inv slots hi T 0" using wf by (simp_all add: art_wf_def)
  have c: "c_t_past c = art_addr T" "hi < c_sno c" "c_fat_slots c = slots" using task by (simp_all add: art_task_def)
  have copy: ?thesis if "art_handle_init c s = art_cow_begin c s"
    using art_copy_runs [OF wf c(1,2)] that by (fastforce simp: art_exec_def)
  have lf: "art_leaf_for s (c_t_past c) (c_key c) =
      Some (if c_key c \<in> art_keys T then art_leaf_addr T (c_key c) else nullptr)"
    unfolding c(1) by (rule art_leaf_for_correct [OF w]) simp
  show ?thesis
  proof (cases "slots \<noteq> 0 \<and> c_key c \<in> art_keys T")
    case False
    then show ?thesis using lf c(3) by (intro copy) (auto simp: art_handle_init_def)
  next
    case True
    then obtain l t where l: "art_leaf_addr T (c_key c) = l" "cells s l = Some t" "an_type t = ALEAF" "an_pfx t = c_key c"
      "fat_ok slots hi (an_fat t)" "l \<in> art_addrs T"
      using art_leaf_addr_ok [OF w(2,3)] by blast
    have "l \<noteq> nullptr" using l(2) w(1) store_ok_not_null [of s l] by auto
    show ?thesis
    proof (cases "fat_append slots (c_sno c) (c_val c) (an_fat t)")
      case None
      then show ?thesis using True lf l c(3) \<open>l \<noteq> nullptr\<close> by (intro copy) (simp add: art_handle_init_def)
    next
      case (Some v)
      have "art_exec c s = Some (c\<lparr>c_root := c_t_past c\<rparr>, s\<lparr>cells := (cells s)(l \<mapsto> t\<lparr>an_fat := v\<rparr>)\<rparr>)"
        using True lf l c(3) \<open>l \<noteq> nullptr\<close> Some by (simp add: art_exec_def art_handle_init_def put_Some)
      then show ?thesis using art_append_runs [OF wf task l(2,3,4,6) Some] by blast
    qed
  qed
qed

end
