(* ===== verification/ART_Seqcow.thy ===== *)
theory ART_Seqcow
  imports ART_Exec BT_Seqcow
begin

text \<open>
  The adaptive radix tree under the sequential controller: an interpretation of \<open>cow_tree\<close> on the model of
  \<^verbatim>\<open>src/adapters/art.hpp\<close>, and the properties of the tree and of the composed system. Unlike the B+Tree
  the root may be empty.
\<close>

definition art_node_bytes :: "art_store \<Rightarrow> addr \<Rightarrow> u64" where
  "art_node_bytes s a = (case cells s a of None \<Rightarrow> 0 | Some t \<Rightarrow> of_nat (art_node_size t))"

type_synonym art_ctx_more = "unit art_ctx_ext"

definition art_tree_ops :: "(art_ctx_more, art_store) tree_ops" where
  "art_tree_ops = \<lparr>ti_exec = art_exec, ti_free = art_free_node, ti_node_size = art_node_bytes\<rparr>"

definition art_zero_ctx :: art_ctx where
  "art_zero_ctx =
     \<lparr>c_op = 0, c_retry = False, c_wait_child = False, c_wait_subtree = False, c_new_checkpoint = False,
      c_gc_enabled = False, c_checkpoint_rebuilt = False, c_sno = 0, c_cno = 0, c_root = nullptr,
      c_t_cur = nullptr, c_t_past = nullptr, c_key = 0, c_val = 0, c_retired_inline = replicate 6 nullptr,
      c_retired_overflow = [], c_retired_count = 0, c_fat_slots = 0, c_key_ofs = 0, c_ch_idx = 0\<rparr>"

section \<open>The radix tree keeps the contract\<close>

definition art_cur :: "nat \<Rightarrow> art_store \<Rightarrow> u32 \<Rightarrow> addr \<Rightarrow> addr set \<Rightarrow> (u64 \<Rightarrow> u64 option) \<Rightarrow> bool" where
  "art_cur slots s hi r F f \<longleftrightarrow> (\<exists>T. art_wf slots hi s T \<and> art_addr T = r \<and> art_addrs T = F \<and> art_now T = f)"

definition art_snap :: "nat \<Rightarrow> art_store \<Rightarrow> u32 \<Rightarrow> u64 \<Rightarrow> addr \<Rightarrow> addr set \<Rightarrow> (u64 \<Rightarrow> u64 option) \<Rightarrow> bool" where
  "art_snap slots s hi w r F f \<longleftrightarrow>
     (\<exists>T. art_repr s T \<and> art_inv slots hi T 0 \<and> art_addr T = r \<and> art_addrs T = F \<and> art_map w T = f)"

lemma art_cur_snap: "art_cur slots s hi r F f \<Longrightarrow> art_snap slots s hi (ucast hi) r F f"
proof -
  assume "art_cur slots s hi r F f"
  then obtain T where T: "art_wf slots hi s T" "art_addr T = r" "art_addrs T = F" "art_now T = f" by (auto simp: art_cur_def)
  have "art_map (ucast hi) T = art_now T"
    using T(1) unfolding art_now_def art_wf_def by (intro art_map_stable [of slots hi T 0]) (simp_all add: UINT64_MAX_def)
  then show ?thesis using T unfolding art_snap_def art_wf_def by blast
qed

lemma art_free_repr: "art_repr s T \<Longrightarrow> a \<notin> art_addrs T \<Longrightarrow> art_repr (s\<lparr>cells := (cells s)(a := None)\<rparr>) T"
  by (erule art_repr_frame) auto

lemma art_free_contract:
  assumes ok: "store_ok s" and live: "a \<in> dom (cells s)"
  shows "\<exists>s'. ti_free art_tree_ops a s = Some s' \<and> store_ok s' \<and> brk s' = brk s \<and> dom (cells s') = dom (cells s) - {a} \<and>
    (\<forall>hi w r F f. art_snap slots s hi w r F f \<longrightarrow> a \<notin> F \<longrightarrow> art_snap slots s' hi w r F f) \<and>
    (\<forall>hi r F f. art_cur slots s hi r F f \<longrightarrow> a \<notin> F \<longrightarrow> art_cur slots s' hi r F f)"
proof -
  obtain t where t: "cells s a = Some t" using live by blast
  let ?s = "s\<lparr>cells := (cells s)(a := None)\<rparr>"
  have ok': "store_ok ?s" using store_ok_upd [OF ok t, of None] .
  have "ti_free art_tree_ops a s = Some ?s" using t by (simp add: art_tree_ops_def art_free_node_def dealloc_Some)
  moreover have "art_snap slots ?s hi w r F f" if "art_snap slots s hi w r F f" "a \<notin> F" for hi w r F f
    using that art_free_repr [of s _ a] unfolding art_snap_def by blast
  moreover have "art_cur slots ?s hi r F f" if "art_cur slots s hi r F f" "a \<notin> F" for hi r F f
    using that art_free_repr [of s _ a] ok' unfolding art_cur_def art_wf_def by blast
  ultimately show ?thesis using ok' by (intro exI [of _ ?s]) auto
qed

lemma art_exec_contract:
  assumes cur: "art_cur slots s hi r F f"
    and c: "c_t_past c = r" "hi < c_sno c" "c_fat_slots c = slots" "retired_ok c" "c_retired_count c = 0"
  shows "\<exists>c' s' F'. ti_exec art_tree_ops c s = Some (c', s') \<and> store_ok s' \<and> brk s \<le> brk s' \<and>
    dom (cells s) \<subseteq> dom (cells s') \<and> art_cur slots s' (c_sno c) (c_root c') F' (f(c_key c \<mapsto> c_val c)) \<and>
    F' \<subseteq> F \<union> {brk s..<brk s'} \<and> True \<and> retired_ok c' \<and>
    (c_gc_enabled c \<longrightarrow> set (retired_nodes c') = F - F' \<and> distinct (retired_nodes c')) \<and>
    (\<forall>w r0 F0 f0. art_snap slots s hi w r0 F0 f0 \<longrightarrow> w < ucast (c_sno c) \<longrightarrow> art_snap slots s' (c_sno c) w r0 F0 f0)"
proof -
  obtain T where wf: "art_wf slots hi s T" and T: "art_addr T = r" "art_addrs T = F" "art_now T = f"
    using cur by (auto simp: art_cur_def)
  have "art_task slots hi T c" using c T by (simp add: art_task_def)
  from art_exec_runs [OF wf this] obtain c' s' T' R where run: "art_exec c s = Some (c', s')"
    and post: "art_post slots hi T c s c' s' T' R" by blast
  have p: "art_wf slots (c_sno c) s' T'" "c_root c' = art_addr T'" "art_now T' = (art_now T)(c_key c \<mapsto> c_val c)" "brk s \<le> brk s'"
    "dom (cells s) \<subseteq> dom (cells s')" "art_addrs T' \<subseteq> art_addrs T \<union> {brk s..<brk s'}" "set R = art_addrs T - art_addrs T'"
    "distinct R" "length R \<le> 9" "ret_state c' = ret_state (fold retire_replaced R c)" "art_snapshots_kept slots hi (c_sno c) s s'"
    using post unfolding art_post_def by simp_all
  have "nullptr \<notin> art_addrs T" using wf art_repr_below [of s T nullptr] by (auto simp: art_wf_def)
  then have nn: "nullptr \<notin> set R" using p(7) by simp
  have bound: "c_retired_count c + length R < 65535" using p(9) c by simp
  have rok: "retired_ok c'"
    using ret_state_retired [OF p(10)] retire_fold [OF c(4) _ bound nn] retire_fold_off [of c R] c(4)
    by (cases "c_gc_enabled c") auto
  have rn: "set (retired_nodes c') = F - art_addrs T' \<and> distinct (retired_nodes c')" if "c_gc_enabled c"
  proof -
    have "retired_nodes c = []" using c(4,5) by (simp add: retired_nodes_eq retired_ok_def)
    then have "mset (retired_nodes c') = mset R"
      using ret_state_retired [OF p(10)] retire_fold [OF c(4) that bound nn] by simp
    then show ?thesis using p(7,8) T by (metis mset_eq_setD mset_eq_imp_distinct_iff)
  qed
  have snaps: "art_snap slots s' (c_sno c) w r0 F0 f0" if s: "art_snap slots s hi w r0 F0 f0" and w: "w < ucast (c_sno c)" for w r0 F0 f0
  proof -
    obtain T0 where T0: "art_repr s T0" "art_inv slots hi T0 0" "art_addr T0 = r0" "art_addrs T0 = F0" "art_map w T0 = f0"
      using s by (auto simp: art_snap_def)
    obtain T1 where "art_repr s' T1" "art_addr T1 = art_addr T0" "art_addrs T1 = art_addrs T0"
      "art_inv slots (c_sno c) T1 0" "art_map w T1 = art_map w T0"
      using p(11) w T0(1,2) unfolding art_snapshots_kept_def by (metis order_refl)
    then show ?thesis using T0 unfolding art_snap_def by (intro exI [of _ T1]) simp
  qed
  have "art_cur slots s' (c_sno c) (c_root c') (art_addrs T') (f(c_key c \<mapsto> c_val c))"
    using p(1-3) T unfolding art_cur_def by (intro exI [of _ T']) simp
  then show ?thesis
    using run p(1,4-6) rok rn snaps T
    by (intro exI [of _ c'] exI [of _ s'] exI [of _ "art_addrs T'"]) (simp add: art_tree_ops_def art_wf_def)
qed

interpretation art_cow: cow_tree art_tree_ops slots "\<lambda>_. True" store_ok brk "\<lambda>s. dom (cells s)"
  "art_cur slots" "art_snap slots" for slots
proof (unfold_locales, goal_cases)
  case (2 s a)
  then show ?case using store_ok_less [of s a] store_ok_not_null [of s a] by auto
next
  case (3 s hi w r F f)
  then show ?case using art_repr_live by (auto simp: art_snap_def)
next
  case (4 s hi r F f)
  then show ?case by (rule art_cur_snap)
next
  case (5 s hi r F f c)
  show ?case by (rule art_exec_contract [OF 5(2-5,7,8)])
next
  case (6 s a)
  then show ?case by (rule art_free_contract)
qed simp

section \<open>A small tree\<close>

definition art_ex_leaf :: art_node where
  "art_ex_leaf = art_new_leaf 0 0 5 50"

definition art_ex_store :: art_store where
  "art_ex_store = \<lparr>cells = [1 \<mapsto> art_ex_leaf], brk = 2\<rparr>"

definition art_ex_ctx :: art_ctx where
  "art_ex_ctx = art_zero_ctx\<lparr>c_t_past := 1, c_sno := 1, c_key := 7, c_val := 70, c_fat_slots := 2, c_gc_enabled := True\<rparr>"

lemma art_ex_wf: "art_wf 2 0 art_ex_store (ALf 1 art_ex_leaf)"
  using new_leaf_inv [of 0 2 0 1 0 5 50]
  by (simp add: art_wf_def art_ex_store_def art_ex_leaf_def store_ok_def del: art_inv.simps)

lemma art_ex_task: "art_task 2 0 (ALf 1 art_ex_leaf) art_ex_ctx"
  by (simp add: art_task_def art_ex_ctx_def art_zero_ctx_def)

lemma art_ex_map: "art_map u (ALf 1 art_ex_leaf) = [5 \<mapsto> 50]"
  unfolding art_ex_leaf_def by (rule new_leaf_map)

section \<open>The tree\<close>

text \<open>
  C21: a lookup in a radix tree (inner nodes of all four sizes, compressed prefixes, fat leaves) ends and
  returns what the tree maps the key to at the snapshot version.
\<close>

theorem art_lookup_correct:
  assumes "art_wf slots hi s T"
  shows "art_find s (art_addr T) k u = Some (art_map u T k)"
  using assms unfolding art_wf_def by (intro art_find_correct [of s T slots hi 0]) simp_all

theorem art_lookup_correct_witness:
  "art_find art_ex_store 1 5 0 = Some (Some 50) \<and> art_find art_ex_store 1 6 0 = Some None"
  using art_lookup_correct [OF art_ex_wf, of 5 0] art_lookup_correct [OF art_ex_wf, of 6 0]
  unfolding art_ex_map by simp

text \<open>
  C18: an update of a radix tree runs to its end on every well-formed tree (append to the history of a leaf,
  new leaf, replaced leaf, prefix split, new branch with growth of the node, path copy), and the new root
  maps the key to the value and every other key as before.
\<close>

theorem art_update_refines_map:
  assumes wf: "art_wf slots hi s T" and task: "art_task slots hi T c"
  shows "\<exists>c' s'. art_exec c s = Some (c', s') \<and>
    (\<forall>k u. ucast (c_sno c) \<le> u \<longrightarrow> art_find s' (c_root c') k u = Some (((art_map u T)(c_key c \<mapsto> c_val c)) k))"
proof -
  obtain c' s' T' R where run: "art_exec c s = Some (c', s')" and post: "art_post slots hi T c s c' s' T' R"
    using art_exec_runs [OF assms] by blast
  have p: "art_wf slots (c_sno c) s' T'" "c_root c' = art_addr T'" "art_now T' = (art_now T)(c_key c \<mapsto> c_val c)"
    using post by (simp_all add: art_post_def)
  have "art_find s' (c_root c') k u = Some (((art_map u T)(c_key c \<mapsto> c_val c)) k)" if u: "ucast (c_sno c) \<le> u" for k u
  proof -
    have "(ucast hi :: u64) \<le> ucast (c_sno c)" using task by (intro ucast_mono_32) (auto simp: art_task_def)
    then have "ucast hi \<le> u" using u by (rule order_trans)
    then have "art_map u T = art_now T"
      using wf unfolding art_wf_def art_now_def by (intro art_map_stable [of slots hi T 0]) (simp_all add: UINT64_MAX_def)
    moreover have "art_map u T' = art_now T'"
      using p(1) u unfolding art_wf_def art_now_def by (intro art_map_stable [of slots "c_sno c" T' 0]) (simp_all add: UINT64_MAX_def)
    moreover have "art_find s' (c_root c') k u = Some (art_map u T' k)"
      unfolding p(2) using p(1) unfolding art_wf_def by (intro art_find_correct [of s' T' slots "c_sno c" 0]) simp_all
    ultimately show ?thesis using p(3) by simp
  qed
  with run show ?thesis by blast
qed

theorem art_update_refines_map_witness:
  "\<exists>c' s'. art_exec art_ex_ctx art_ex_store = Some (c', s') \<and> art_find s' (c_root c') 7 1 = Some (Some 70) \<and>
    art_find s' (c_root c') 5 1 = Some (Some 50)"
proof -
  obtain c' s' where "art_exec art_ex_ctx art_ex_store = Some (c', s')"
    and f: "\<And>k u. ucast (c_sno art_ex_ctx) \<le> u \<Longrightarrow>
      art_find s' (c_root c') k u = Some (([5 \<mapsto> 50](c_key art_ex_ctx \<mapsto> c_val art_ex_ctx)) k)"
    using art_update_refines_map [OF art_ex_wf art_ex_task] unfolding art_ex_map by blast
  then show ?thesis using f [of 1 7] f [of 1 5] by (simp add: art_ex_ctx_def)
qed

text \<open>
  C20: the update leaves a well-formed radix tree (sorted or indexed child arrays, live children only,
  prefixes and branching bytes that agree with every key below) and retires at most nine nodes, each once:
  exactly those the new tree does not share.
\<close>

theorem art_update_keeps_tree:
  assumes wf: "art_wf slots hi s T" and task: "art_task slots hi T c"
    and ret: "retired_ok c" "retired_nodes c = []" "c_gc_enabled c"
  shows "\<exists>c' s' T'. art_exec c s = Some (c', s') \<and> c_root c' = art_addr T' \<and> art_wf slots (c_sno c) s' T' \<and>
    set (retired_nodes c') = art_addrs T - art_addrs T' \<and> distinct (retired_nodes c') \<and> length (retired_nodes c') \<le> 9"
proof -
  obtain c' s' T' R where run: "art_exec c s = Some (c', s')" and post: "art_post slots hi T c s c' s' T' R"
    using art_exec_runs [OF wf task] by blast
  have p: "art_wf slots (c_sno c) s' T'" "c_root c' = art_addr T'" "set R = art_addrs T - art_addrs T'"
    "distinct R" "length R \<le> 9" "ret_state c' = ret_state (fold retire_replaced R c)"
    using post by (simp_all add: art_post_def)
  have "nullptr \<notin> art_addrs T" using wf art_repr_below [of s T nullptr] by (auto simp: art_wf_def)
  then have nn: "nullptr \<notin> set R" using p(3) by simp
  have "fst (snd (drain_retired c)) = 0"
    using drain_retired_count [OF ret(1)] ret(2) by (simp add: retired_nodes_def)
  then have "c_retired_count c = 0" by (simp add: drain_retired_def Let_def)
  then have "mset (retired_nodes c') = mset R"
    using ret_state_retired [OF p(6)] retire_fold [OF ret(1,3) _ nn] p(5) ret(2) by simp
  then have "set (retired_nodes c') = set R" "distinct (retired_nodes c')" "length (retired_nodes c') = length R"
    using p(4) by (metis mset_eq_setD, metis mset_eq_imp_distinct_iff, metis mset_eq_length)
  then show ?thesis using run p by (intro exI [of _ c'] exI [of _ s'] exI [of _ T']) simp
qed

theorem art_update_keeps_tree_witness:
  "\<exists>c' s' T'. art_exec art_ex_ctx art_ex_store = Some (c', s') \<and> art_wf 2 1 s' T' \<and> length (retired_nodes c') \<le> 9"
proof -
  have "retired_ok art_ex_ctx" "retired_nodes art_ex_ctx = []" "c_gc_enabled art_ex_ctx"
    by (simp_all add: retired_ok_def retired_nodes_eq art_ex_ctx_def art_zero_ctx_def RETIRED_INLINE_CAPACITY_def)
  from art_update_keeps_tree [OF art_ex_wf art_ex_task this] show ?thesis by (auto simp: art_ex_ctx_def)
qed

text \<open>
  C22: an update of a radix tree changes no lookup that an older snapshot makes: for every tree of an
  earlier version still in the store, reads below the version of the update are the same before and after.
\<close>

theorem art_update_isolated:
  assumes wf: "art_wf slots hi s T" and task: "art_task slots hi T c" and run: "art_exec c s = Some (c', s')"
    and old: "art_repr s T0" "art_inv slots hi T0 0" "u < ucast (c_sno c)"
  shows "art_find s' (art_addr T0) k u = art_find s (art_addr T0) k u"
proof -
  obtain T' R where post: "art_post slots hi T c s c' s' T' R" using art_exec_runs [OF wf task] run by auto
  then have kept: "art_snapshots_kept slots hi (c_sno c) s s'" and ok': "store_ok s'" by (simp_all add: art_post_def art_wf_def)
  obtain T1 where T1: "art_repr s' T1" "art_addr T1 = art_addr T0" "art_inv slots (c_sno c) T1 0" "art_map u T1 = art_map u T0"
    using kept old unfolding art_snapshots_kept_def by (metis order_refl)
  have "art_find s' (art_addr T1) k u = Some (art_map u T1 k)" by (rule art_find_correct [OF ok' T1(1,3)]) simp
  moreover have "art_find s (art_addr T0) k u = Some (art_map u T0 k)"
    using wf old by (intro art_find_correct [of s T0 slots hi 0]) (simp_all add: art_wf_def)
  ultimately show ?thesis using T1(2,4) by simp
qed

theorem art_update_isolated_witness:
  "\<exists>c' s'. art_exec art_ex_ctx art_ex_store = Some (c', s') \<and> art_find s' 1 7 0 = Some None"
proof -
  obtain c' s' where run: "art_exec art_ex_ctx art_ex_store = Some (c', s')"
    using art_exec_runs [OF art_ex_wf art_ex_task] by blast
  have o: "art_repr art_ex_store (ALf 1 art_ex_leaf)" "art_inv 2 0 (ALf 1 art_ex_leaf) 0" "store_ok art_ex_store"
    using art_ex_wf by (simp_all add: art_wf_def)
  have "art_find art_ex_store (art_addr (ALf 1 art_ex_leaf)) 7 0 = Some (art_map 0 (ALf 1 art_ex_leaf) 7)"
    by (rule art_find_correct [OF o(3,1,2)]) simp
  moreover have "art_find s' (art_addr (ALf 1 art_ex_leaf)) 7 0 = art_find art_ex_store (art_addr (ALf 1 art_ex_leaf)) 7 0"
    by (rule art_update_isolated [OF art_ex_wf art_ex_task run o(1,2)]) (simp add: art_ex_ctx_def)
  ultimately show ?thesis using run unfolding art_ex_map by (intro exI [of _ c'] exI [of _ s']) simp
qed

section \<open>The composed system\<close>

definition art_system :: "art_store \<Rightarrow> art_tree \<Rightarrow> nat \<Rightarrow> bool \<Rightarrow> nat \<Rightarrow> (art_ctx_more, art_store) seqcow" where
  "art_system s T n gc_on slots = seqcow_init art_zero_ctx (art_addr T) s n gc_on slots"

lemma art_start_ok:
  assumes "art_wf slots 0 s T" "slots \<noteq> 0"
  shows "art_cow.start_ok slots art_zero_ctx (art_addr T) s (art_now T)"
proof -
  have "art_cur slots s 0 (art_addr T) (art_addrs T) (art_now T)" using assms(1) unfolding art_cur_def by blast
  then show ?thesis
    using assms unfolding art_cow.start_ok_def
    by (auto simp: art_wf_def art_zero_ctx_def retired_ok_def RETIRED_INLINE_CAPACITY_def)
qed

lemma art_system_inv:
  assumes "art_wf slots 0 s T" "slots \<noteq> 0" "seq_reach art_tree_ops (art_system s T n gc_on slots) q"
  obtains rts Fs where "art_cow.seq_inv slots (art_addr T) n gc_on (art_now T) rts Fs q"
  using art_cow.seq_reach_inv [OF art_start_ok [OF assms(1,2)] assms(3) [unfolded art_system_def]] by blast

lemma art_snap_find: "store_ok s \<Longrightarrow> art_snap slots s hi w r F f \<Longrightarrow> art_find s r k w = Some (f k)"
  unfolding art_snap_def using art_find_correct by fastforce

lemma art_pinned_find:
  assumes inv: "art_cow.seq_inv slots t0 n gc_on m0 rts Fs q"
    and p: "gs_rd (q_gc q) cid = RD_PINNED r v" "reader_cid (gs_gc (q_gc q)) cid"
  shows "art_find (q_store q) r k v = Some (content m0 (q_log q) (unat v) k) \<and> unat v \<le> length (q_log q)"
proof -
  have "q_sub q = length (q_log q)" "store_ok (q_store q)" "q_loc q \<le> q_sub q"
    using inv by (simp_all add: art_cow.seq_inv_def art_cow.heap_ok_def tickets_def)
  then show ?thesis
    using art_cow.pinned_snapshot [OF inv p(2,1)] art_snap_find [of "q_store q" slots _ v r] by auto
qed

text \<open>
  C19: snapshot consistency of the radix tree under the sequential controller in fat-node mode
  (\<open>slots \<noteq> 0\<close>), started empty or not: in every reachable state a pinned reader finds for every key exactly
  what the submitted updates up to its version leave there. A thread that has scanned the readers frees
  exactly the nodes of the batches it pops, and every reader keeps its pin and all its lookups.
\<close>

theorem art_seqcow_snapshot:
  assumes wf: "art_wf slots 0 s T" "slots \<noteq> 0" and reach: "seq_reach art_tree_ops (art_system s T n gc_on slots) q"
  shows "(\<forall>cid r v k. gs_rd (q_gc q) cid = RD_PINNED r v \<longrightarrow> reader_cid (gs_gc (q_gc q)) cid \<longrightarrow>
      art_find (q_store q) r k v = Some (content (art_now T) (q_log q) (unat v) k) \<and> unat v \<le> length (q_log q)) \<and>
    (\<forall>t m w. gs_rc (q_gc q) t = RC_SCAN (length (g_readers (gs_gc (q_gc q)))) m w \<longrightarrow>
      (\<exists>q'. seq_do art_tree_ops (ReclaimFree t) q = Some q' \<and>
         dom (cells (q_store q')) = dom (cells (q_store q)) - reclaimed (min m w) q \<and>
         (\<forall>cid r v k. gs_rd (q_gc q) cid = RD_PINNED r v \<longrightarrow> reader_cid (gs_gc (q_gc q)) cid \<longrightarrow>
            gs_rd (q_gc q') cid = RD_PINNED r v \<and> art_find (q_store q') r k v = art_find (q_store q) r k v)))"
proof -
  obtain rts Fs where inv: "art_cow.seq_inv slots (art_addr T) n gc_on (art_now T) rts Fs q"
    by (rule art_system_inv [OF wf reach])
  note seen = art_pinned_find [OF inv]
  have "\<exists>q'. seq_do art_tree_ops (ReclaimFree t) q = Some q' \<and>
      dom (cells (q_store q')) = dom (cells (q_store q)) - reclaimed (min m w) q \<and>
      (\<forall>cid r v k. gs_rd (q_gc q) cid = RD_PINNED r v \<longrightarrow> reader_cid (gs_gc (q_gc q)) cid \<longrightarrow>
         gs_rd (q_gc q') cid = RD_PINNED r v \<and> art_find (q_store q') r k v = art_find (q_store q) r k v)"
    if sc: "gs_rc (q_gc q) t = RC_SCAN (length (g_readers (gs_gc (q_gc q)))) m w" for t m w
  proof -
    obtain q' where q': "reclaim_free art_tree_ops t q = Some q'" "art_cow.seq_inv slots (art_addr T) n gc_on (art_now T) rts Fs q'"
      "dom (cells (q_store q')) = dom (cells (q_store q)) - reclaimed (min m w) q" "q_log q' = q_log q"
      and pins: "\<And>cid r v. reader_cid (gs_gc (q_gc q)) cid \<Longrightarrow> gs_rd (q_gc q) cid = RD_PINNED r v \<Longrightarrow>
        reader_cid (gs_gc (q_gc q')) cid \<and> gs_rd (q_gc q') cid = RD_PINNED r v"
      by (rule art_cow.reclaim_keeps [OF inv sc refl]) blast
    have "art_find (q_store q') r k v = art_find (q_store q) r k v"
      if p: "gs_rd (q_gc q) cid = RD_PINNED r v" "reader_cid (gs_gc (q_gc q)) cid" for cid r v k
      using art_pinned_find [OF q'(2), of cid r v k] pins [OF p(2,1)] seen [OF p] q'(4) by simp
    then show ?thesis using q' pins by auto
  qed
  with seen show ?thesis by blast
qed

text \<open>
  The tree of one leaf, an update that inserts a second key, executed, published and committed, and a
  reader that then pins version 1.
\<close>

definition art_ex_init :: "(art_ctx_more, art_store) seqcow" where
  "art_ex_init = art_system art_ex_store (ALf 1 art_ex_leaf) 1 True 2"

definition art_ex_loaded :: "(art_ctx_more, art_store) seqcow" where
  "art_ex_loaded = the (seq_run art_tree_ops [ClientLock 0 7 70, ClientSubmit 0 7 70, WorkerLoad] art_ex_init)"

lemma art_ex_loads: "seq_run art_tree_ops [ClientLock 0 7 70, ClientSubmit 0 7 70, WorkerLoad] art_ex_init = Some art_ex_loaded"
  "gs_gc (q_gc art_ex_loaded) = init_gc 1 1 True True" "gs_pub (q_gc art_ex_loaded) = PUB_IDLE"
  "gs_rd (q_gc art_ex_loaded) = (\<lambda>_. RD_IDLE)" "q_phase art_ex_loaded = W_EXEC" "q_com_next art_ex_loaded = 0"
  "q_com_local art_ex_loaded = 0" "q_sub_local art_ex_loaded = 1" "q_submitted art_ex_loaded = 1"
  "q_log art_ex_loaded = [(7, 70)]"
  by (simp_all add: art_ex_loaded_def art_ex_init_def art_system_def seqcow_init_def gc_start_def
      UINT32_MAX_def BUFFER_SIZE_def init_task_def ring_def)

lemma art_ex_pins:
  obtains q r where "seq_reach art_tree_ops art_ex_init q" "gs_rd (q_gc q) 0 = RD_PINNED r 1" "q_log q = [(7, 70)]"
    "reader_cid (gs_gc (q_gc q)) 0"
proof -
  let ?q = art_ex_loaded
  have reach: "seq_reach art_tree_ops art_ex_init ?q" by (rule seq_run_reach [OF seq_reach.start art_ex_loads(1)])
  obtain rts Fs where inv: "art_cow.seq_inv 2 (art_addr (ALf 1 art_ex_leaf)) 1 True (art_now (ALf 1 art_ex_leaf)) rts Fs ?q"
    by (rule art_system_inv [OF art_ex_wf _ reach [unfolded art_ex_init_def]]) simp
  then obtain c s where ex: "exec_task art_tree_ops 1 (q_ctxs ?q) (q_store ?q) = Some (c, s)"
    using art_cow.next_task_runs [OF inv] art_ex_loads(6,9) by auto
  obtain c' g where ret: "retire (ti_node_size art_tree_ops s) None 1 c (gs_gc (q_gc ?q)) = (c', g)" by fastforce
  have g: "g_seq g = 0" "g_readers g = [INACTIVE]" "g_consistent g" "g_enabled g"
    by (rule retire_cases [OF ret]; simp add: art_ex_loads init_gc_def)+
  let ?q1 = "?q\<lparr>q_ctxs := (q_ctxs ?q)(ring 1 := c'), q_store := s, q_gc := (q_gc ?q)\<lparr>gs_gc := g\<rparr>, q_com_next := 1\<rparr>"
  have q1: "seq_do art_tree_ops WorkerExec ?q = Some ?q1" using ex ret by (simp add: art_ex_loads Let_def BUFFER_SIZE_def)
  obtain q2 where q2: "seq_do art_tree_ops WorkerExecEnd ?q1 = Some q2" "q_phase q2 = W_PUBLISH" "gs_gc (q_gc q2) = g"
    "gs_pub (q_gc q2) = PUB_IDLE" "gs_rd (q_gc q2) = (\<lambda>_. RD_IDLE)" "q_com_local q2 = 1" "q_log q2 = [(7, 70)]"
    by (simp add: art_ex_loads BUFFER_SIZE_def)
  let ?as = "[WorkerPublish, WorkerPublish, WorkerPublish, WorkerPublish, WorkerCommit,
    ReaderPin 0, ReaderPin 0, ReaderPin 0, ReaderPin 0, ReaderPin 0]"
  have "\<exists>q r. seq_run art_tree_ops ?as q2 = Some q \<and> gs_rd (q_gc q) 0 = RD_PINNED r 1 \<and> q_log q = [(7, 70)] \<and>
      reader_cid (gs_gc (q_gc q)) 0"
    using q2(2-) g by (simp add: worker_publish_def do_gc_def reader_cid_def set_reader_def
      publish_begin_def publish_root_def publish_version_def publish_end_def)
  then have "\<exists>q r. seq_run art_tree_ops (WorkerExec # WorkerExecEnd # ?as) ?q = Some q \<and> gs_rd (q_gc q) 0 = RD_PINNED r 1 \<and>
      q_log q = [(7, 70)] \<and> reader_cid (gs_gc (q_gc q)) 0"
    using q1 q2(1) by (simp only: seq_run.simps option.case)
  then show thesis using seq_run_reach [OF reach] that by blast
qed

theorem art_seqcow_snapshot_witness:
  "\<exists>(q :: (art_ctx_more, art_store) seqcow) r. gs_rd (q_gc q) 0 = RD_PINNED r 1 \<and> art_find (q_store q) r 7 1 = Some (Some 70) \<and>
     art_find (q_store q) r 5 1 = Some (Some 50) \<and> art_find (q_store q) r 6 1 = Some None"
proof -
  obtain q r where q: "seq_reach art_tree_ops art_ex_init q" "gs_rd (q_gc q) 0 = RD_PINNED r 1" "q_log q = [(7, 70)]"
    "reader_cid (gs_gc (q_gc q)) 0" by (rule art_ex_pins)
  have "art_now (ALf 1 art_ex_leaf) = [5 \<mapsto> 50]" unfolding art_now_def by (rule art_ex_map)
  then have "art_find (q_store q) r k 1 = Some (([5 \<mapsto> 50, 7 \<mapsto> 70]) k)" for k
    using art_seqcow_snapshot [OF art_ex_wf _ q(1) [unfolded art_ex_init_def]] q(2-4) by (auto simp: content_def)
  from this [of 7] this [of 5] this [of 6] show ?thesis using q(2) by (intro exI [of _ q] exI [of _ r]) simp
qed

end
