(* ===== verification/Wave_Plan.thy ===== *)
theory Wave_Plan
  imports Wave
begin

text \<open>
  The plan of a wave is a partition: every planned operation is in exactly one chain, a chain holds the
  operations of one target in ticket order, and no longer than the room of its leaf. The hash table behaves
  like a search through the list of groups.
\<close>

section \<open>The hash table\<close>

lemma word_mask: "m < 64 \<Longrightarrow> (of_nat (2 ^ m) - 1 :: u64) = mask m"
  by (simp add: mask_eq_exp_minus_1)

lemma next_slot_mod: "m < 64 \<Longrightarrow> h < 2 ^ m \<Longrightarrow> next_slot h (2 ^ m) = (h + 1) mod 2 ^ m"
proof -
  assume m: "m < 64" "h < 2 ^ m"
  have dvd: "(2 :: nat) ^ m dvd 2 ^ 64" using m(1) by (intro le_imp_power_dvd) simp
  have "next_slot h (2 ^ m) = unat (take_bit m (of_nat (h + 1) :: u64))"
    by (simp only: next_slot_def word_mask [OF m(1)] take_bit_eq_mask) (simp add: add.commute)
  also have "\<dots> = take_bit m (unat (of_nat (h + 1) :: u64))" by (simp only: unsigned_take_bit_eq)
  also have "unat (of_nat (h + 1) :: u64) = (h + 1) mod 2 ^ 64" by (simp only: unat_of_nat) simp
  also have "take_bit m \<dots> = (h + 1) mod 2 ^ m"
    by (simp only: take_bit_eq_mod mod_mod_cancel [OF dvd])
  finally show ?thesis .
qed

lemma wave_hash_less: "m < 64 \<Longrightarrow> wave_hash address leaf key (2 ^ m) < 2 ^ m"
  unfolding wave_hash_def word_mask by (simp add: flip: take_bit_eq_mask) (simp add: unsigned_take_bit_eq)

definition slot_at :: "nat \<Rightarrow> nat \<Rightarrow> nat \<Rightarrow> nat" where
  "slot_at m h d = (h + d) mod 2 ^ m"

lemma slot_at_less [simp]: "slot_at m h d < 2 ^ m"
  by (simp add: slot_at_def)

lemma slot_at_Suc: "slot_at m (Suc h mod 2 ^ m) d = slot_at m h (Suc d)"
  by (simp add: slot_at_def mod_add_left_eq)

lemma slot_at_onto:
  assumes "h < 2 ^ m" "u < 2 ^ m"
  obtains d where "d < 2 ^ m" "slot_at m h d = u"
proof
  show "(u + (2 ^ m - h)) mod 2 ^ m < 2 ^ m" by simp
  have "slot_at m h ((u + (2 ^ m - h)) mod 2 ^ m) = (h + (u + (2 ^ m - h))) mod 2 ^ m"
    by (simp add: slot_at_def mod_add_right_eq)
  also have "h + (u + (2 ^ m - h)) = u + 2 ^ m" using assms(1) by simp
  finally show "slot_at m h ((u + (2 ^ m - h)) mod 2 ^ m) = u" using assms(2) by simp
qed

lemma probe_at:
  assumes m: "m < 64" "length table = 2 ^ m" "h < 2 ^ m"
    and before: "\<forall>e < d. bk_occupied (table ! slot_at m h e) \<and> bk_other (table ! slot_at m h e) leaf key"
    and here: "\<not> (bk_occupied (table ! slot_at m h d) \<and> bk_other (table ! slot_at m h d) leaf key)" and "d < f"
  shows "probe f table leaf key h = Some (slot_at m h d)"
  using m(3) before here \<open>d < f\<close>
proof (induction d arbitrary: h f)
  case 0
  then obtain f' where "f = Suc f'" by (cases f) auto
  then show ?case using 0 m(2) by (auto simp: slot_at_def)
next
  case (Suc d)
  then obtain f' where f: "f = Suc f'" by (cases f) auto
  have first: "bk_occupied (table ! h)" "bk_other (table ! h) leaf key"
    using Suc.prems(1,2) by (auto simp: slot_at_def dest: spec [of _ 0])
  let ?h = "(h + 1) mod 2 ^ m"
  have "probe f' table leaf key ?h = Some (slot_at m ?h d)"
    using Suc.prems f by (intro Suc.IH) (auto simp: slot_at_Suc)
  then show ?case using first m Suc.prems(1) f next_slot_mod [OF m(1) Suc.prems(1)] by (simp add: slot_at_Suc)
qed

text \<open>
  A table of a list of targets: entry \<open>i\<close> is found by probing from its hash, no bucket before it is free.
\<close>

definition same_target :: "addr \<times> u64 \<Rightarrow> addr \<times> u64 \<Rightarrow> bool" where
  "same_target x y \<longleftrightarrow> fst x = fst y \<and> (fst x = nullptr \<longrightarrow> snd x = snd y)"

lemma same_target_refl [simp]: "same_target x x"
  by (simp add: same_target_def)

lemma same_target_sym: "same_target x y \<Longrightarrow> same_target y x"
  by (simp add: same_target_def)

lemma same_target_trans: "same_target x y \<Longrightarrow> same_target y z \<Longrightarrow> same_target x z"
  by (auto simp: same_target_def)

lemma same_target_hash: "same_target (l, k) (l', k') \<Longrightarrow> wave_hash f l k n = wave_hash f l' k' n"
  by (auto simp: same_target_def wave_hash_def)

lemma bk_other_target: "bk_other b leaf key \<longleftrightarrow> \<not> same_target (bk_leaf b, bk_key b) (leaf, key)"
  by (auto simp: bk_other_def same_target_def)

definition table_ok :: "(addr \<Rightarrow> u64) \<Rightarrow> nat \<Rightarrow> (addr \<times> u64) list \<Rightarrow> bucket list \<Rightarrow> bool" where
  "table_ok address m ts table \<longleftrightarrow>
     length table = 2 ^ m \<and>
     (\<forall>h < 2 ^ m. bk_occupied (table ! h) \<longrightarrow>
        bk_group (table ! h) < length ts \<and> ts ! bk_group (table ! h) = (bk_leaf (table ! h), bk_key (table ! h))) \<and>
     card {h. h < 2 ^ m \<and> bk_occupied (table ! h)} \<le> length ts \<and>
     (\<forall>i < length ts. \<exists>d < 2 ^ m. let h0 = wave_hash address (fst (ts ! i)) (snd (ts ! i)) (2 ^ m) in
        bk_occupied (table ! slot_at m h0 d) \<and> bk_group (table ! slot_at m h0 d) = i \<and>
        (\<forall>e < d. bk_occupied (table ! slot_at m h0 e)))"

definition targets_apart :: "(addr \<times> u64) list \<Rightarrow> bool" where
  "targets_apart ts \<longleftrightarrow> (\<forall>i < length ts. \<forall>j < length ts. i \<noteq> j \<longrightarrow> \<not> same_target (ts ! i) (ts ! j))"

lemma targets_apart_snoc:
  assumes apart: "targets_apart ts" and new: "\<And>t. t \<in> set ts \<Longrightarrow> \<not> same_target t u"
  shows "targets_apart (ts @ [u])"
  unfolding targets_apart_def
proof (intro allI impI)
  fix i j assume i: "i < length (ts @ [u])" and j: "j < length (ts @ [u])" and ne: "i \<noteq> j"
  consider "i < length ts" "j < length ts" | "i = length ts" "j < length ts" | "j = length ts" "i < length ts"
    using i j ne by fastforce
  then show "\<not> same_target ((ts @ [u]) ! i) ((ts @ [u]) ! j)"
  proof cases
    case 1 then show ?thesis using apart ne by (simp add: targets_apart_def nth_append)
  next
    case 2
    then have "\<not> same_target (ts ! j) u" using new by simp
    then have "\<not> same_target u (ts ! j)" using same_target_sym by blast
    then show ?thesis using 2 by (simp add: nth_append)
  next
    case 3 then show ?thesis using new by (simp add: nth_append)
  qed
qed

lemma table_ok_empty: "table_ok address m [] (replicate (2 ^ m) empty_bucket)"
  by (simp add: table_ok_def empty_bucket_def)

text \<open>A known target is found.\<close>

lemma probe_known:
  assumes m: "m < 64" and ok: "table_ok address m ts table" and apart: "targets_apart ts"
    and i: "i < length ts" "same_target (ts ! i) (leaf, key)"
  obtains h where "probe (2 ^ m) table leaf key (wave_hash address leaf key (2 ^ m)) = Some h" "h < 2 ^ m"
    "bk_occupied (table ! h)" "bk_group (table ! h) = i"
proof -
  let ?start = "wave_hash address leaf key (2 ^ m)"
  have hash: "wave_hash address (fst (ts ! i)) (snd (ts ! i)) (2 ^ m) = ?start"
    using i(2) same_target_hash [of "fst (ts ! i)" "snd (ts ! i)"] by simp
  have h0: "?start < 2 ^ m" by (rule wave_hash_less [OF m])
  have len: "length table = 2 ^ m" using ok by (simp add: table_ok_def)
  obtain d where d: "d < 2 ^ m" "bk_occupied (table ! slot_at m ?start d)" "bk_group (table ! slot_at m ?start d) = i"
    "\<forall>e < d. bk_occupied (table ! slot_at m ?start e)"
  proof -
    have "\<exists>d < 2 ^ m. let h0 = wave_hash address (fst (ts ! i)) (snd (ts ! i)) (2 ^ m) in
        bk_occupied (table ! slot_at m h0 d) \<and> bk_group (table ! slot_at m h0 d) = i \<and>
        (\<forall>e < d. bk_occupied (table ! slot_at m h0 e))"
      using ok i(1) unfolding table_ok_def by blast
    then show thesis using that unfolding Let_def hash by blast
  qed
  have entry: "bk_group (table ! h) < length ts" "ts ! bk_group (table ! h) = (bk_leaf (table ! h), bk_key (table ! h))"
    if "h < 2 ^ m" "bk_occupied (table ! h)" for h
    using ok that unfolding table_ok_def by blast+
  have other: "bk_other (table ! h) leaf key \<longleftrightarrow> bk_group (table ! h) \<noteq> i" if h: "h < 2 ^ m" "bk_occupied (table ! h)" for h
  proof -
    note en = entry [OF h]
    have eq: "bk_other (table ! h) leaf key \<longleftrightarrow> \<not> same_target (ts ! bk_group (table ! h)) (leaf, key)"
      by (simp add: bk_other_target en(2))
    show ?thesis
    proof (cases "bk_group (table ! h) = i")
      case True
      then show ?thesis using eq i(2) by simp
    next
      case False
      have "\<not> same_target (ts ! bk_group (table ! h)) (leaf, key)"
      proof
        assume "same_target (ts ! bk_group (table ! h)) (leaf, key)"
        from same_target_trans [OF this same_target_sym [OF i(2)]]
        show False using apart i(1) en(1) False unfolding targets_apart_def by blast
      qed
      then show ?thesis using eq False by simp
    qed
  qed
  define d' where "d' = (LEAST e. \<not> (bk_occupied (table ! slot_at m ?start e) \<and> bk_other (table ! slot_at m ?start e) leaf key))"
  have stop: "\<not> (bk_occupied (table ! slot_at m ?start d) \<and> bk_other (table ! slot_at m ?start d) leaf key)"
    using other d(2,3) by simp
  have d': "d' \<le> d" unfolding d'_def using stop by (rule Least_le)
  have here: "\<not> (bk_occupied (table ! slot_at m ?start d') \<and> bk_other (table ! slot_at m ?start d') leaf key)"
    unfolding d'_def using stop by (rule LeastI)
  have "\<forall>e < d'. bk_occupied (table ! slot_at m ?start e) \<and> bk_other (table ! slot_at m ?start e) leaf key"
    unfolding d'_def using not_less_Least by blast
  then have "probe (2 ^ m) table leaf key ?start = Some (slot_at m ?start d')"
    using here d' d(1) by (intro probe_at [OF m len h0]) simp_all
  moreover have occ: "bk_occupied (table ! slot_at m ?start d')" using d' d(2,4) by (cases "d' = d") auto
  moreover have "bk_group (table ! slot_at m ?start d') = i" using here occ other by simp
  ultimately show thesis using that by simp
qed

text \<open>For a new target the probe ends at a free bucket, and an entry there keeps the table.\<close>

lemma probe_new:
  assumes m: "m < 64" and ok: "table_ok address m ts table" and room: "length ts < 2 ^ m"
    and new: "\<And>i. i < length ts \<Longrightarrow> \<not> same_target (ts ! i) (leaf, key)"
  obtains h where "probe (2 ^ m) table leaf key (wave_hash address leaf key (2 ^ m)) = Some h" "h < 2 ^ m"
    "\<not> bk_occupied (table ! h)"
    "table_ok address m (ts @ [(leaf, key)])
       (table[h := \<lparr>bk_leaf = leaf, bk_group = length ts, bk_key = key, bk_occupied = True\<rparr>])"
proof -
  let ?start = "wave_hash address leaf key (2 ^ m)"
  let ?occ = "{h. h < 2 ^ m \<and> bk_occupied (table ! h)}"
  have h0: "?start < 2 ^ m" by (rule wave_hash_less [OF m])
  have len: "length table = 2 ^ m" and card: "card ?occ \<le> length ts"
    and entry: "\<And>h. h < 2 ^ m \<Longrightarrow> bk_occupied (table ! h) \<Longrightarrow>
      bk_group (table ! h) < length ts \<and> ts ! bk_group (table ! h) = (bk_leaf (table ! h), bk_key (table ! h))"
    and found: "\<And>i. i < length ts \<Longrightarrow> \<exists>d < 2 ^ m. let h0 = wave_hash address (fst (ts ! i)) (snd (ts ! i)) (2 ^ m) in
        bk_occupied (table ! slot_at m h0 d) \<and> bk_group (table ! slot_at m h0 d) = i \<and>
        (\<forall>e < d. bk_occupied (table ! slot_at m h0 e))"
    using ok unfolding table_ok_def by blast+
  have other: "bk_other (table ! h) leaf key" if h: "h < 2 ^ m" "bk_occupied (table ! h)" for h
    using entry [OF h] new [of "bk_group (table ! h)"] by (simp add: bk_other_target)
  have "\<exists>u < 2 ^ m. \<not> bk_occupied (table ! u)"
  proof (rule ccontr)
    assume "\<not> (\<exists>u < 2 ^ m. \<not> bk_occupied (table ! u))"
    then have "?occ = {..< 2 ^ m}" by auto
    then have "card ?occ = 2 ^ m" by simp
    with card room show False by simp
  qed
  then obtain u where u: "u < 2 ^ m" "\<not> bk_occupied (table ! u)" by blast
  obtain d0 where d0: "d0 < 2 ^ m" "slot_at m ?start d0 = u" by (rule slot_at_onto [OF h0 u(1)])
  define d where "d = (LEAST e. \<not> bk_occupied (table ! slot_at m ?start e))"
  have d0': "\<not> bk_occupied (table ! slot_at m ?start d0)" using d0(2) u(2) by simp
  have free: "\<not> bk_occupied (table ! slot_at m ?start d)" unfolding d_def using d0' by (rule LeastI)
  have "d \<le> d0" unfolding d_def using d0' by (rule Least_le)
  have before: "\<forall>e < d. bk_occupied (table ! slot_at m ?start e)" unfolding d_def using not_less_Least by blast
  let ?h = "slot_at m ?start d" let ?b = "\<lparr>bk_leaf = leaf, bk_group = length ts, bk_key = key, bk_occupied = True\<rparr>"
  have pr: "probe (2 ^ m) table leaf key ?start = Some ?h"
  proof (rule probe_at [OF m len h0])
    show "\<forall>e < d. bk_occupied (table ! slot_at m ?start e) \<and> bk_other (table ! slot_at m ?start e) leaf key"
      using before other by simp
    show "\<not> (bk_occupied (table ! slot_at m ?start d) \<and> bk_other (table ! slot_at m ?start d) leaf key)" using free by simp
    show "d < 2 ^ m" using \<open>d \<le> d0\<close> d0(1) by simp
  qed
  have upd: "table[?h := ?b] ! h = (if h = ?h then ?b else table ! h)" if "h < 2 ^ m" for h
    using that len by simp
  have "{h. h < 2 ^ m \<and> bk_occupied (table[?h := ?b] ! h)} \<subseteq> insert ?h ?occ" using upd by auto
  then have "card {h. h < 2 ^ m \<and> bk_occupied (table[?h := ?b] ! h)} \<le> card (insert ?h ?occ)"
    by (intro card_mono) simp_all
  also have "\<dots> \<le> Suc (length ts)" using card by (simp add: card_insert_if)
  finally have card': "card {h. h < 2 ^ m \<and> bk_occupied (table[?h := ?b] ! h)} \<le> length (ts @ [(leaf, key)])" by simp
  have "table_ok address m (ts @ [(leaf, key)]) (table[?h := ?b])"
    unfolding table_ok_def
  proof (intro conjI allI impI)
    show "length (table[?h := ?b]) = 2 ^ m" using len by simp
    show "card {h. h < 2 ^ m \<and> bk_occupied (table[?h := ?b] ! h)} \<le> length (ts @ [(leaf, key)])" by (rule card')
  next
    fix h assume h: "h < 2 ^ m" "bk_occupied (table[?h := ?b] ! h)"
    show "bk_group (table[?h := ?b] ! h) < length (ts @ [(leaf, key)])"
      using h entry [OF h(1)] by (cases "h = ?h") (auto simp: upd less_Suc_eq)
    show "(ts @ [(leaf, key)]) ! bk_group (table[?h := ?b] ! h) = (bk_leaf (table[?h := ?b] ! h), bk_key (table[?h := ?b] ! h))"
      using h entry [OF h(1)] by (cases "h = ?h") (auto simp: upd nth_append)
  next
    fix i assume i: "i < length (ts @ [(leaf, key)])"
    show "\<exists>d < 2 ^ m. let h0 = wave_hash address (fst ((ts @ [(leaf, key)]) ! i)) (snd ((ts @ [(leaf, key)]) ! i)) (2 ^ m) in
        bk_occupied (table[?h := ?b] ! slot_at m h0 d) \<and> bk_group (table[?h := ?b] ! slot_at m h0 d) = i \<and>
        (\<forall>e < d. bk_occupied (table[?h := ?b] ! slot_at m h0 e))"
    proof (cases "i < length ts")
      case True
      let ?gstart = "wave_hash address (fst (ts ! i)) (snd (ts ! i)) (2 ^ m)"
      obtain c where c: "c < 2 ^ m" "bk_occupied (table ! slot_at m ?gstart c)" "bk_group (table ! slot_at m ?gstart c) = i"
        "\<forall>e < c. bk_occupied (table ! slot_at m ?gstart e)"
        using found [OF True] unfolding Let_def by blast
      have "slot_at m ?gstart c \<noteq> ?h" using c(2) free by metis
      then show ?thesis using c True upd by (intro exI [of _ c]) (auto simp: nth_append Let_def)
    next
      case False
      then have i: "i = length ts" using i by simp
      show ?thesis using before upd \<open>d \<le> d0\<close> d0(1) i by (intro exI [of _ d]) (auto simp: Let_def)
    qed
  qed
  then show thesis using that [OF pr _ free] by simp
qed

section \<open>Chains\<close>

text \<open>The positions that \<open>execute_group\<close> visits.\<close>

fun chain_from :: "nat \<Rightarrow> wtask list \<Rightarrow> nat option \<Rightarrow> nat list" where
  "chain_from f batch None = []"
| "chain_from 0 batch (Some p) = []"
| "chain_from (Suc f) batch (Some p) = p # chain_from f batch (tk_next (batch ! p))"

definition group_chain :: "wtask list \<Rightarrow> 'r wgroup \<Rightarrow> nat list" where
  "group_chain batch g = chain_from (Suc (length batch)) batch (Some (gr_first g))"

text \<open>The links of the batch lead through \<open>ps\<close>.\<close>

fun chain_links :: "wtask list \<Rightarrow> nat list \<Rightarrow> bool" where
  "chain_links batch [] \<longleftrightarrow> True"
| "chain_links batch (p # ps) \<longleftrightarrow> tk_next (batch ! p) = (case ps of [] \<Rightarrow> None | q # qs \<Rightarrow> Some q) \<and> chain_links batch ps"

lemma chain_from_links:
  "chain_links batch ps \<Longrightarrow> length ps \<le> f \<Longrightarrow>
    chain_from f batch (case ps of [] \<Rightarrow> None | q # qs \<Rightarrow> Some q) = ps"
proof (induction ps arbitrary: f)
  case (Cons p ps)
  then obtain f' where "f = Suc f'" by (cases f) auto
  with Cons show ?case by simp
qed simp

lemma chain_links_update:
  "chain_links batch ps \<Longrightarrow> q \<notin> set ps \<Longrightarrow> chain_links (batch[q := x]) ps"
  by (induction ps) auto

lemma chain_links_snoc:
  assumes "chain_links batch ps" "ps \<noteq> []" "distinct (ps @ [q])" "set (ps @ [q]) \<subseteq> {..< length batch}"
    and "tk_next x = Some q" "tk_next (batch ! q) = None"
  shows "chain_links (batch[last ps := x]) (ps @ [q])"
  using assms
proof (induction ps)
  case (Cons p ps)
  show ?case
  proof (cases ps)
    case Nil
    then show ?thesis using Cons.prems by auto
  next
    case (Cons r rs)
    have "chain_links (batch[last ps := x]) (ps @ [q])"
      using Cons.prems Cons by (intro Cons.IH) auto
    moreover have "last ps \<in> set ps" using Cons by (simp add: last_in_set)
    then have "p \<noteq> last ps" using Cons.prems(3) by auto
    moreover have "tk_next (batch ! p) = Some r" using Cons.prems(1) Cons by simp
    ultimately show ?thesis using Cons Cons.prems(4) by simp
  qed
qed simp

lemma chain_links_from: "length (chain_from f batch q) < f \<Longrightarrow> chain_links batch (chain_from f batch q)"
proof (induction f batch q rule: chain_from.induct)
  case (3 f batch p)
  then have "chain_links batch (chain_from f batch (tk_next (batch ! p)))" by simp
  moreover have "tk_next (batch ! p) = (case chain_from f batch (tk_next (batch ! p)) of [] \<Rightarrow> None | q # qs \<Rightarrow> Some q)"
    using "3.prems" by (cases f; cases "tk_next (batch ! p)") simp_all
  ultimately show ?case by simp
qed simp_all

section \<open>The planned groups\<close>

text \<open>
  The operations of a group among the first \<open>pos\<close>: those with the target of its first operation. \<open>tg\<close> gives the target and key of a
  position, \<open>room\<close> the number of operations a leaf takes.
\<close>

definition same_group :: "(nat \<Rightarrow> addr \<times> u64) \<Rightarrow> nat \<Rightarrow> nat \<Rightarrow> nat \<Rightarrow> nat list" where
  "same_group tg first pos p0 = filter (\<lambda>p. same_target (tg p) (tg p0)) [first ..< pos]"

lemma same_group_set: "p \<in> set (same_group tg first pos p0) \<longleftrightarrow> first \<le> p \<and> p < pos \<and> same_target (tg p) (tg p0)"
  by (auto simp: same_group_def)

lemma same_group_Suc:
  "first \<le> pos \<Longrightarrow> same_group tg first (Suc pos) p0 =
     same_group tg first pos p0 @ (if same_target (tg pos) (tg p0) then [pos] else [])"
  by (simp add: same_group_def)

lemma same_group_distinct [simp]: "distinct (same_group tg first pos p0)"
  by (simp add: same_group_def)

lemma same_target_cong: "same_target x y \<Longrightarrow> same_target z x \<longleftrightarrow> same_target z y"
  by (blast intro: same_target_trans same_target_sym)

lemma same_group_cong: "same_target (tg p) (tg q) \<Longrightarrow> same_group tg first pos p = same_group tg first pos q"
  unfolding same_group_def by (simp add: same_target_cong [of "tg p" "tg q"])

definition group_ok ::
    "(nat \<Rightarrow> addr \<times> u64) \<Rightarrow> (addr \<Rightarrow> nat) \<Rightarrow> bool \<Rightarrow> nat \<Rightarrow> nat \<Rightarrow> wtask list \<Rightarrow> 'r wgroup \<Rightarrow> bool" where
  "group_ok tg room mat first pos batch g \<longleftrightarrow>
     (let ps = same_group tg first pos (gr_first g) in
      first \<le> gr_first g \<and> gr_first g < pos \<and> ps \<noteq> [] \<and> hd ps = gr_first g \<and> last ps = gr_last g \<and> length ps = gr_count g \<and>
      chain_links batch ps \<and> gr_leaf g = fst (tg (gr_first g)) \<and>
      gr_count g \<le> room (gr_leaf g) + (if mat then 1 else 0) \<and>
      gr_materialize g = (gr_count g = Suc (room (gr_leaf g))) \<and> gr_replacement g = None)"

definition plan_inv ::
    "(addr \<Rightarrow> u64) \<Rightarrow> nat \<Rightarrow> (nat \<Rightarrow> addr \<times> u64) \<Rightarrow> (addr \<Rightarrow> nat) \<Rightarrow> bool \<Rightarrow> fop list \<Rightarrow> nat \<Rightarrow> nat \<Rightarrow> 'r plan \<Rightarrow> bool" where
  "plan_inv address m tg room mat ops first pos pl \<longleftrightarrow>
     (case pl of (batch, groups, table) \<Rightarrow>
        map tk_op batch = ops \<and> first \<le> pos \<and> pos \<le> length ops \<and> length groups \<le> pos - first \<and>
        (\<forall>g \<in> set groups. group_ok tg room mat first pos batch g) \<and>
        (\<forall>p. first \<le> p \<longrightarrow> p < pos \<longrightarrow> (\<exists>g \<in> set groups. same_target (tg p) (tg (gr_first g)))) \<and>
        targets_apart (map (tg \<circ> gr_first) groups) \<and>
        table_ok address m (map (tg \<circ> gr_first) groups) table)"

lemma plan_invI:
  assumes "map tk_op batch = ops" "first \<le> pos" "pos \<le> length ops" "length groups \<le> pos - first"
    and "\<And>g. g \<in> set groups \<Longrightarrow> group_ok tg room mat first pos batch g"
    and "\<And>p. first \<le> p \<Longrightarrow> p < pos \<Longrightarrow> \<exists>g \<in> set groups. same_target (tg p) (tg (gr_first g))"
    and "targets_apart (map (tg \<circ> gr_first) groups)" "table_ok address m (map (tg \<circ> gr_first) groups) table"
  shows "plan_inv address m tg room mat ops first pos (batch, groups, table)"
  using assms unfolding plan_inv_def by blast

lemma ex_first:
  "(\<exists>g \<in> set gs. same_target t (tg (gr_first g))) \<longleftrightarrow> (\<exists>u \<in> set (map (tg \<circ> gr_first) gs). same_target t u)"
  by simp

lemma group_ok_keep:
  assumes "group_ok tg room mat first pos batch g" "\<not> same_target (tg pos) (tg (gr_first g))" "first \<le> pos"
  shows "group_ok tg room mat first (Suc pos) batch g"
proof -
  have "same_group tg first (Suc pos) (gr_first g) = same_group tg first pos (gr_first g)"
    using assms(2,3) by (simp add: same_group_Suc)
  then show ?thesis using assms(1) less_SucI unfolding group_ok_def Let_def by metis
qed

lemma group_ok_write:
  assumes "group_ok tg room mat first pos batch g" "q \<notin> set (same_group tg first pos (gr_first g))"
  shows "group_ok tg room mat first pos (batch[q := x]) g"
  using assms chain_links_update [OF _ assms(2)] unfolding group_ok_def Let_def by blast

lemma group_ok_extend:
  assumes g: "group_ok tg room mat first pos batch g" and same: "same_target (tg pos) (tg (gr_first g))"
    and less: "gr_count g < room (gr_leaf g) + (if mat then 1 else 0)" and len: "pos < length batch"
    and x: "tk_next x = Some pos" "tk_next (batch ! pos) = None"
  shows "group_ok tg room mat first (Suc pos) (batch[gr_last g := x])
    (g\<lparr>gr_last := pos, gr_count := gr_count g + 1, gr_materialize := (gr_count g = room (gr_leaf g))\<rparr>)"
proof -
  let ?ps = "same_group tg first pos (gr_first g)"
  have first: "first \<le> pos" using g by (simp add: group_ok_def Let_def)
  have ps: "?ps \<noteq> []" "hd ?ps = gr_first g" "last ?ps = gr_last g" "length ?ps = gr_count g" "chain_links batch ?ps"
    using g by (simp_all add: group_ok_def Let_def)
  have "chain_links (batch[last ?ps := x]) (?ps @ [pos])"
    using ps x len by (intro chain_links_snoc) (auto simp: same_group_set)
  then show ?thesis using g same less ps first
    by (simp add: group_ok_def Let_def same_group_Suc)
qed

lemma plan_step_known:
  assumes inv: "plan_inv address m tg room mat ops first pos (batch, groups, table)"
    and m: "m < 64" and pos: "pos < length ops" and tg: "tg pos = (leaf, fop_key (ops ! pos))"
    and hooks: "fh_address I = address" "fh_target I s root (fop_key (ops ! pos)) = Some leaf" "fh_available I s leaf slots = Some (room leaf)"
    and known: "i < length groups" "same_target (tg (gr_first (groups ! i))) (tg pos)"
    and roomy: "gr_count (groups ! i) < room leaf + (if mat then 1 else 0)"
  obtains pl' where "plan_step I slots mat root s pos (batch, groups, table) = Some (Some pl')"
    "plan_inv address m tg room mat ops first (Suc pos) pl'"
proof -
  let ?ts = "map (tg \<circ> gr_first) groups" let ?g = "groups ! i"
  have ops: "map tk_op batch = ops" and range: "first \<le> pos" "length groups \<le> pos - first"
    and groups: "\<And>g. g \<in> set groups \<Longrightarrow> group_ok tg room mat first pos batch g"
    and cover: "\<And>p. first \<le> p \<Longrightarrow> p < pos \<Longrightarrow> \<exists>g \<in> set groups. same_target (tg p) (tg (gr_first g))"
    and apart: "targets_apart ?ts" and table: "table_ok address m ?ts table"
    using inv unfolding plan_inv_def by auto
  have len: "length batch = length ops" using ops by (metis length_map)
  have tlen: "length table = 2 ^ m" using table by (simp add: table_ok_def)
  have key: "tk_op (batch ! pos) = ops ! pos" using ops pos len by (metis nth_map)
  obtain h where h: "probe (2 ^ m) table leaf (fop_key (ops ! pos)) (wave_hash address leaf (fop_key (ops ! pos)) (2 ^ m)) = Some h"
    "h < 2 ^ m" "bk_occupied (table ! h)" "bk_group (table ! h) = i"
  proof (rule probe_known [OF m table apart, of i leaf "fop_key (ops ! pos)"])
    show "i < length ?ts" "same_target (?ts ! i) (leaf, fop_key (ops ! pos))" using known tg by simp_all
  qed (use that in simp)
  have gi: "?g \<in> set groups" using known(1) by simp
  note g = groups [OF gi]
  have gl: "gr_leaf ?g = leaf" using g known(2) tg by (auto simp: group_ok_def Let_def same_target_def)
  have last: "gr_last ?g \<in> set (same_group tg first pos (gr_first ?g))"
    using g by (auto simp: group_ok_def Let_def dest: last_in_set)
  then have lastless: "gr_last ?g < pos" by (simp add: same_group_set)
  let ?b1 = "batch[pos := (batch ! pos)\<lparr>tk_next := None\<rparr>]"
  let ?x = "(batch ! gr_last ?g)\<lparr>tk_next := Some pos\<rparr>"
  let ?g' = "?g\<lparr>gr_last := pos, gr_count := gr_count ?g + 1, gr_materialize := (gr_count ?g = room leaf)\<rparr>"
  let ?b2 = "?b1[gr_last ?g := ?x]" let ?gs = "groups[i := ?g']"
  have step: "plan_step I slots mat root s pos (batch, groups, table) = Some (Some (?b2, ?gs, table))"
    using h known(1) roomy pos len lastless hooks tlen by (auto simp: plan_step_def key)
  have w: "group_ok tg room mat first pos ?b1 g'" if "g' \<in> set groups" for g'
    using groups [OF that] by (rule group_ok_write) (simp add: same_group_set)
  have "group_ok tg room mat first (Suc pos) ?b2 ?g'"
    using w [OF gi] known(2) roomy pos len unfolding gl [symmetric]
    by (intro group_ok_extend) (simp_all add: same_target_sym)
  moreover have "group_ok tg room mat first (Suc pos) ?b2 (groups ! j)" if j: "j < length groups" "j \<noteq> i" for j
  proof (rule group_ok_keep [OF group_ok_write])
    have ij: "\<not> same_target (tg (gr_first (groups ! i))) (tg (gr_first (groups ! j)))"
      using apart known(1) j unfolding targets_apart_def by force
    show "group_ok tg room mat first pos ?b1 (groups ! j)" using w j(1) by simp
    show "gr_last ?g \<notin> set (same_group tg first pos (gr_first (groups ! j)))"
      using last ij unfolding same_group_set by (blast intro: same_target_trans same_target_sym)
    show "\<not> same_target (tg pos) (tg (gr_first (groups ! j)))"
      using ij known(2) by (blast intro: same_target_trans)
    show "first \<le> pos" by (rule range(1))
  qed
  ultimately have all: "group_ok tg room mat first (Suc pos) ?b2 g'" if g': "g' \<in> set ?gs" for g'
  proof -
    obtain j where j: "j < length groups" "g' = ?gs ! j" using g' by (auto simp only: in_set_conv_nth length_list_update)
    show ?thesis
    proof (cases "j = i")
      case True
      then have "g' = ?g'" using j known(1) by simp
      with \<open>group_ok tg room mat first (Suc pos) ?b2 ?g'\<close> show ?thesis by simp
    next
      case False
      then have "g' = groups ! j" using j by simp
      with \<open>\<And>j. j < length groups \<Longrightarrow> j \<noteq> i \<Longrightarrow> group_ok tg room mat first (Suc pos) ?b2 (groups ! j)\<close> [OF j(1) False]
      show ?thesis by simp
    qed
  qed
  have firsts: "map (tg \<circ> gr_first) ?gs = ?ts"
    using known(1) by (intro nth_equalityI) (auto simp: nth_list_update)
  have gset: "(\<exists>g' \<in> set ?gs. same_target (tg p) (tg (gr_first g'))) \<longleftrightarrow> (\<exists>g' \<in> set groups. same_target (tg p) (tg (gr_first g')))" for p
    unfolding ex_first firsts by (rule refl)
  have ops2: "map tk_op ?b2 = ops" using ops len pos lastless key
    by (intro nth_equalityI) (auto simp: nth_list_update)
  have cover2: "\<exists>g \<in> set ?gs. same_target (tg p) (tg (gr_first g))" if p: "first \<le> p" "p < Suc pos" for p
  proof (cases "p = pos")
    case True
    then show ?thesis unfolding gset using gi known(2) same_target_sym by blast
  next
    case False
    then show ?thesis unfolding gset using cover [OF p(1)] p(2) by simp
  qed
  have "plan_inv address m tg room mat ops first (Suc pos) (?b2, ?gs, table)"
  proof (rule plan_invI [OF ops2])
    show "first \<le> Suc pos" "Suc pos \<le> length ops" "length ?gs \<le> Suc pos - first" using range pos by simp_all
    show "targets_apart (map (tg \<circ> gr_first) ?gs)" unfolding firsts by (rule apart)
    show "table_ok address m (map (tg \<circ> gr_first) ?gs) table" unfolding firsts by (rule table)
  qed (erule all, erule (1) cover2)
  with step show thesis by (rule that)
qed

lemma plan_step_fresh:
  assumes inv: "plan_inv address m tg room mat ops first pos (batch, groups, table)"
    and m: "m < 64" "length ops - first \<le> 2 ^ m" and pos: "pos < length ops" and tg: "tg pos = (leaf, fop_key (ops ! pos))"
    and hooks: "fh_address I = address" "fh_target I s root (fop_key (ops ! pos)) = Some leaf" "fh_available I s leaf slots = Some (room leaf)"
    and new: "\<And>g. g \<in> set groups \<Longrightarrow> \<not> same_target (tg (gr_first g)) (tg pos)"
  shows "plan_step I slots mat root s pos (batch, groups, table) = Some None \<and> \<not> 0 < room leaf + (if mat then 1 else 0) \<or>
    (\<exists>pl'. plan_step I slots mat root s pos (batch, groups, table) = Some (Some pl') \<and>
      plan_inv address m tg room mat ops first (Suc pos) pl')"
proof -
  let ?ts = "map (tg \<circ> gr_first) groups"
  have ops: "map tk_op batch = ops" and range: "first \<le> pos" "length groups \<le> pos - first"
    and groups: "\<And>g. g \<in> set groups \<Longrightarrow> group_ok tg room mat first pos batch g"
    and cover: "\<And>p. first \<le> p \<Longrightarrow> p < pos \<Longrightarrow> \<exists>g \<in> set groups. same_target (tg p) (tg (gr_first g))"
    and apart: "targets_apart ?ts" and table: "table_ok address m ?ts table"
    using inv unfolding plan_inv_def by auto
  have len: "length batch = length ops" using ops by (metis length_map)
  have tlen: "length table = 2 ^ m" using table by (simp add: table_ok_def)
  have key: "tk_op (batch ! pos) = ops ! pos" using ops pos len by (metis nth_map)
  let ?key = "fop_key (ops ! pos)"
  obtain h where h: "probe (2 ^ m) table leaf ?key (wave_hash address leaf ?key (2 ^ m)) = Some h" "h < 2 ^ m" "\<not> bk_occupied (table ! h)"
    "table_ok address m (?ts @ [(leaf, ?key)]) (table[h := \<lparr>bk_leaf = leaf, bk_group = length groups, bk_key = ?key, bk_occupied = True\<rparr>])"
  proof (rule probe_new [OF m(1) table, of leaf ?key])
    show "length ?ts < 2 ^ m" using range m(2) pos by simp
    show "\<not> same_target (?ts ! i) (leaf, ?key)" if "i < length ?ts" for i using new that tg by simp
  qed (use that in simp)
  show ?thesis
  proof (cases "0 < room leaf + (if mat then 1 else 0)")
    case False
    then have "plan_step I slots mat root s pos (batch, groups, table) = Some None"
      using h pos len hooks tlen by (auto simp: plan_step_def key Let_def split: if_splits)
    with False show ?thesis by blast
  next
    case True
    let ?b1 = "batch[pos := (batch ! pos)\<lparr>tk_next := None\<rparr>]"
    let ?g' = "\<lparr>gr_leaf = leaf, gr_first = pos, gr_last = pos, gr_count = 1, gr_materialize = (0 = room leaf), gr_replacement = None\<rparr>"
    let ?t' = "table[h := \<lparr>bk_leaf = leaf, bk_group = length groups, bk_key = ?key, bk_occupied = True\<rparr>]"
    have step: "plan_step I slots mat root s pos (batch, groups, table) = Some (Some (?b1, groups @ [?g'], ?t'))"
      using h pos len hooks tlen True by (auto simp: plan_step_def key Let_def)
    have old: "group_ok tg room mat first (Suc pos) ?b1 g" if g: "g \<in> set groups" for g
    proof (rule group_ok_keep [OF group_ok_write [OF groups [OF g]] _ range(1)])
      show "pos \<notin> set (same_group tg first pos (gr_first g))" by (simp add: same_group_set)
      show "\<not> same_target (tg pos) (tg (gr_first g))" using new [OF g] same_target_sym by blast
    qed
    have none: "same_group tg first pos pos = []"
    proof -
      have "\<not> same_target (tg p) (tg pos)" if p: "first \<le> p" "p < pos" for p
      proof
        assume "same_target (tg p) (tg pos)"
        moreover obtain g where "g \<in> set groups" "same_target (tg p) (tg (gr_first g))" using cover [OF p] by blast
        ultimately show False using new same_target_trans same_target_sym by blast
      qed
      then show ?thesis by (auto simp: same_group_def)
    qed
    have fresh: "group_ok tg room mat first (Suc pos) ?b1 ?g'"
      using range(1) True pos len tg by (auto simp: group_ok_def Let_def same_group_Suc none)
    have ops1: "map tk_op ?b1 = ops" using ops len pos key by (intro nth_equalityI) (auto simp: nth_list_update)
    have cover1: "\<exists>g \<in> set (groups @ [?g']). same_target (tg p) (tg (gr_first g))" if p: "first \<le> p" "p < Suc pos" for p
      using cover [OF p(1)] p(2) by (cases "p = pos") auto
    have apart1: "targets_apart (map (tg \<circ> gr_first) (groups @ [?g']))"
      unfolding map_append list.map by (rule targets_apart_snoc [OF apart]) (use new in auto)
    have all1: "group_ok tg room mat first (Suc pos) ?b1 g" if "g \<in> set (groups @ [?g'])" for g
      using that old fresh by auto
    have "plan_inv address m tg room mat ops first (Suc pos) (?b1, groups @ [?g'], ?t')"
      using range pos h(4) tg by (intro plan_invI ops1 all1 cover1 apart1) simp_all
    with step show ?thesis by blast
  qed
qed

section \<open>The loop\<close>

text \<open>The hooks answer for every operation of the batch.\<close>

definition hooks_answer :: "('z, 's, 'r) fat_hooks \<Rightarrow> nat \<Rightarrow> addr \<Rightarrow> 's \<Rightarrow> fop list \<Rightarrow> bool" where
  "hooks_answer I slots root s ops \<longleftrightarrow>
     (\<forall>op \<in> set ops. \<exists>leaf n. fh_target I s root (fop_key op) = Some leaf \<and> fh_available I s leaf slots = Some n)"

definition op_target :: "('z, 's, 'r) fat_hooks \<Rightarrow> addr \<Rightarrow> 's \<Rightarrow> fop list \<Rightarrow> nat \<Rightarrow> addr \<times> u64" where
  "op_target I root s ops p = (the (fh_target I s root (fop_key (ops ! p))), fop_key (ops ! p))"

definition leaf_room :: "('z, 's, 'r) fat_hooks \<Rightarrow> nat \<Rightarrow> 's \<Rightarrow> addr \<Rightarrow> nat" where
  "leaf_room I slots s leaf = (case fh_available I s leaf slots of None \<Rightarrow> 0 | Some n \<Rightarrow> n)"

definition group_full :: "(nat \<Rightarrow> addr \<times> u64) \<Rightarrow> (addr \<Rightarrow> nat) \<Rightarrow> bool \<Rightarrow> nat \<Rightarrow> nat \<Rightarrow> bool" where
  "group_full tg room mat first pos \<longleftrightarrow>
     room (fst (tg pos)) + (if mat then 1 else 0) \<le> length (same_group tg first pos pos)"

lemma plan_step_total:
  fixes I :: "('z, 's, 'r) fat_hooks" and root :: addr and s :: 's and slots :: nat
  defines "tg \<equiv> \<lambda>ops. op_target I root s ops" and "room \<equiv> leaf_room I slots s"
  assumes inv: "plan_inv (fh_address I) m (tg ops) room mat ops first pos pl"
    and m: "m < 64" "length ops - first \<le> 2 ^ m" and hooks: "hooks_answer I slots root s ops" and pos: "pos < length ops"
  shows "plan_step I slots mat root s pos pl = Some None \<and> group_full (tg ops) room mat first pos \<or>
    (\<exists>pl'. plan_step I slots mat root s pos pl = Some (Some pl') \<and>
      plan_inv (fh_address I) m (tg ops) room mat ops first (Suc pos) pl')"
proof -
  obtain batch groups table where pl: "pl = (batch, groups, table)" by (cases pl)
  note inv = inv [unfolded pl]
  let ?key = "fop_key (ops ! pos)" let ?tg = "tg ops"
  obtain leaf n where h: "fh_target I s root ?key = Some leaf" "fh_available I s leaf slots = Some n"
    using hooks pos unfolding hooks_answer_def by (meson nth_mem)
  have tg: "?tg pos = (leaf, ?key)" using h(1) by (simp add: tg_def op_target_def)
  have room: "fh_available I s leaf slots = Some (room leaf)" using h(2) by (simp add: room_def leaf_room_def)
  have groups: "\<And>g. g \<in> set groups \<Longrightarrow> group_ok ?tg room mat first pos batch g"
    and apart: "targets_apart (map (?tg \<circ> gr_first) groups)" and table: "table_ok (fh_address I) m (map (?tg \<circ> gr_first) groups) table"
    and range: "first \<le> pos" and ops: "map tk_op batch = ops"
    using inv unfolding plan_inv_def by auto
  have empty: "same_group ?tg first pos pos = []" if "\<not> (\<exists>g \<in> set groups. same_target (?tg pos) (?tg (gr_first g)))"
  proof -
    have "\<not> same_target (?tg p) (?tg pos)" if p: "first \<le> p" "p < pos" for p
      using that \<open>\<not> (\<exists>g \<in> set groups. same_target (?tg pos) (?tg (gr_first g)))\<close> inv same_target_trans same_target_sym
      unfolding plan_inv_def prod.case by blast
    then show ?thesis by (auto simp: same_group_def)
  qed
  show ?thesis
  proof (cases "\<exists>g \<in> set groups. same_target (?tg pos) (?tg (gr_first g))")
    case False
    have "plan_step I slots mat root s pos (batch, groups, table) = Some None \<and> \<not> 0 < room leaf + (if mat then 1 else 0) \<or>
      (\<exists>pl'. plan_step I slots mat root s pos (batch, groups, table) = Some (Some pl') \<and>
        plan_inv (fh_address I) m ?tg room mat ops first (Suc pos) pl')"
      using False same_target_sym by (intro plan_step_fresh [OF inv m pos tg refl h(1) room]) blast
    then show ?thesis using empty [OF False] tg unfolding pl group_full_def by auto
  next
    case True
    then obtain i where i: "i < length groups" "same_target (?tg pos) (?tg (gr_first (groups ! i)))"
      by (metis in_set_conv_nth)
    have gi: "group_ok ?tg room mat first pos batch (groups ! i)" using groups i(1) by simp
    have cnt: "gr_count (groups ! i) = length (same_group ?tg first pos pos)"
      using gi same_group_cong [OF i(2)] unfolding group_ok_def Let_def by metis
    show ?thesis
    proof (cases "gr_count (groups ! i) < room leaf + (if mat then 1 else 0)")
      case True
      show ?thesis
        by (rule plan_step_known [OF inv m(1) pos tg refl h(1) room i(1) same_target_sym [OF i(2)] True]) (auto simp: pl)
    next
      case False
      obtain h' where h': "probe (2 ^ m) table leaf ?key (wave_hash (fh_address I) leaf ?key (2 ^ m)) = Some h'"
        "h' < 2 ^ m" "bk_occupied (table ! h')" "bk_group (table ! h') = i"
      proof (rule probe_known [OF m(1) table apart, of i leaf ?key])
        show "i < length (map (?tg \<circ> gr_first) groups)" "same_target (map (?tg \<circ> gr_first) groups ! i) (leaf, ?key)"
          using i tg same_target_sym by auto
      qed (use that in simp)
      have "tk_op (batch ! pos) = ops ! pos" "pos < length batch" using ops pos by (metis nth_map length_map)+
      then have "plan_step I slots mat root s pos pl = Some None"
        using h' i(1) False h(1) room table by (auto simp: pl plan_step_def Let_def table_ok_def)
      with False cnt tg show ?thesis unfolding group_full_def by auto
    qed
  qed
qed

lemma plan_loop_total:
  fixes I :: "('z, 's, 'r) fat_hooks"
  assumes "plan_inv (fh_address I) m (op_target I root s ops) (leaf_room I slots s) mat ops first pos pl"
    and m: "m < 64" "length ops - first \<le> 2 ^ m" and hooks: "hooks_answer I slots root s ops" and "pos + n = length ops"
  shows "\<exists>pos' pl'. plan_loop I slots mat root s n pos pl = Some (pos', pl') \<and>
    plan_inv (fh_address I) m (op_target I root s ops) (leaf_room I slots s) mat ops first pos' pl' \<and>
    (pos' < length ops \<longrightarrow> group_full (op_target I root s ops) (leaf_room I slots s) mat first pos')"
  using assms(1,5)
proof (induction n arbitrary: pos pl)
  case 0
  then show ?case by simp
next
  case (Suc n)
  then have "pos < length ops" by simp
  from plan_step_total [OF Suc.prems(1) m hooks this]
  consider (full) "plan_step I slots mat root s pos pl = Some None" "group_full (op_target I root s ops) (leaf_room I slots s) mat first pos"
    | (more) pl' where "plan_step I slots mat root s pos pl = Some (Some pl')"
        "plan_inv (fh_address I) m (op_target I root s ops) (leaf_room I slots s) mat ops first (Suc pos) pl'"
    by blast
  then show ?case
  proof cases
    case full
    then show ?thesis using Suc.prems(1) by simp
  next
    case more
    then show ?thesis using Suc.IH [OF more(2)] Suc.prems(2) by simp
  qed
qed

lemma group_ok_chain:
  assumes g: "group_ok tg room mat first pos batch g" and "pos \<le> length batch"
  shows "group_chain batch g = same_group tg first pos (gr_first g)"
proof -
  let ?ps = "same_group tg first pos (gr_first g)"
  have ps: "?ps \<noteq> []" "hd ?ps = gr_first g" "chain_links batch ?ps" using g by (simp_all add: group_ok_def Let_def)
  have "length ?ps \<le> length [first ..< pos]" unfolding same_group_def by (rule length_filter_le)
  also have "\<dots> \<le> length batch" using assms(2) by simp
  finally have "length ?ps \<le> Suc (length batch)" by simp
  from chain_from_links [OF ps(3) this] show ?thesis
    using ps(1,2) by (cases ?ps) (simp_all add: group_chain_def del: chain_from.simps)
qed

definition wave_planned ::
    "('z, 's, 'r) fat_hooks \<Rightarrow> nat \<Rightarrow> bool \<Rightarrow> addr \<Rightarrow> 's \<Rightarrow> fop list \<Rightarrow> nat \<Rightarrow> nat \<Rightarrow> wtask list \<Rightarrow> 'r wgroup list \<Rightarrow> bool" where
  "wave_planned I slots mat root s ops first pos batch groups \<longleftrightarrow>
     (let tg = op_target I root s ops; room = leaf_room I slots s in
      map tk_op batch = ops \<and> first \<le> pos \<and> pos \<le> length ops \<and>
      (\<forall>g \<in> set groups.
        group_chain batch g = same_group tg first pos (gr_first g) \<and> gr_first g \<in> set (group_chain batch g) \<and>
        gr_last g = last (group_chain batch g) \<and> gr_leaf g = fst (tg (gr_first g)) \<and>
        length (group_chain batch g) \<le> room (gr_leaf g) + (if mat then 1 else 0) \<and>
        gr_materialize g = (length (group_chain batch g) = room (gr_leaf g) + 1)) \<and>
      (\<forall>p. first \<le> p \<longrightarrow> p < pos \<longrightarrow> (\<exists>!i. i < length groups \<and> p \<in> set (group_chain batch (groups ! i)))))"

lemma plan_inv_planned:
  assumes inv: "plan_inv address m (op_target I root s ops) (leaf_room I slots s) mat ops first pos (batch, groups, table)"
  shows "wave_planned I slots mat root s ops first pos batch groups"
proof -
  let ?tg = "op_target I root s ops"
  have ops: "map tk_op batch = ops" and range: "first \<le> pos" "pos \<le> length ops"
    and groups: "\<And>g. g \<in> set groups \<Longrightarrow> group_ok ?tg (leaf_room I slots s) mat first pos batch g"
    and cover: "\<And>p. first \<le> p \<Longrightarrow> p < pos \<Longrightarrow> \<exists>g \<in> set groups. same_target (?tg p) (?tg (gr_first g))"
    and apart: "targets_apart (map (?tg \<circ> gr_first) groups)"
    using inv unfolding plan_inv_def by auto
  have len: "pos \<le> length batch" using ops range by (metis length_map)
  note chain = group_ok_chain [OF groups len]
  have "\<exists>!i. i < length groups \<and> p \<in> set (group_chain batch (groups ! i))" if p: "first \<le> p" "p < pos" for p
  proof -
    obtain i where i: "i < length groups" "same_target (?tg p) (?tg (gr_first (groups ! i)))"
      using cover [OF p] by (metis in_set_conv_nth)
    have "p \<in> set (group_chain batch (groups ! i))" using i p by (simp add: chain same_group_set)
    moreover have "j = i" if j: "j < length groups" "p \<in> set (group_chain batch (groups ! j))" for j
    proof (rule ccontr)
      assume "j \<noteq> i"
      then have "\<not> same_target (?tg (gr_first (groups ! i))) (?tg (gr_first (groups ! j)))"
        using apart i(1) j(1) unfolding targets_apart_def by force
      moreover have "same_target (?tg p) (?tg (gr_first (groups ! j)))" using j by (simp add: chain same_group_set)
      ultimately show False using i(2) same_target_trans same_target_sym by blast
    qed
    ultimately show ?thesis using i(1) by blast
  qed
  moreover have "group_chain batch g = same_group ?tg first pos (gr_first g) \<and> gr_first g \<in> set (group_chain batch g) \<and>
        gr_last g = last (group_chain batch g) \<and> gr_leaf g = fst (?tg (gr_first g)) \<and>
        length (group_chain batch g) \<le> leaf_room I slots s (gr_leaf g) + (if mat then 1 else 0) \<and>
        gr_materialize g = (length (group_chain batch g) = leaf_room I slots s (gr_leaf g) + 1)" if g: "g \<in> set groups" for g
    using groups [OF g] chain [OF g] hd_in_set [of "same_group ?tg first pos (gr_first g)"]
    unfolding group_ok_def Let_def Suc_eq_plus1 by metis
  ultimately show ?thesis using ops range unfolding wave_planned_def Let_def by blast
qed

lemma plan_wave_total:
  assumes "m < 64" "length batch - first \<le> 2 ^ m" "first \<le> length batch"
    and "hooks_answer I slots root s (map tk_op batch)"
  shows "\<exists>pos batch' groups table.
    plan_wave I slots mat root s (2 ^ m) first batch = Some (pos, batch', groups, table) \<and>
    wave_planned I slots mat root s (map tk_op batch) first pos batch' groups \<and>
    (pos < length batch \<longrightarrow>
      group_full (op_target I root s (map tk_op batch)) (leaf_room I slots s) mat first pos)"
proof -
  let ?ops = "map tk_op batch"
  have start: "plan_inv (fh_address I) m (op_target I root s ?ops) (leaf_room I slots s) mat ?ops first first
      (batch, [], replicate (2 ^ m) empty_bucket)"
    using assms(3) by (intro plan_invI) (simp_all add: targets_apart_def table_ok_empty)
  have len: "length ?ops - first \<le> 2 ^ m" "first + (length batch - first) = length ?ops" using assms(2,3) by simp_all
  show ?thesis
    using plan_loop_total [OF start assms(1) len(1) assms(4) len(2)] plan_inv_planned
    unfolding plan_wave_def by (smt (verit) length_map prod_cases3)
qed

text \<open>
  C25: planning a wave is correct. With a power of two of buckets, at least as many as operations, the hash
  table never makes the planning loop forever, and the plan is the partition of the planned operations by
  target: each is in the chain of exactly one group, in ticket order, a chain is no longer than the room of
  its leaf (one longer exactly if its last operation is a materialisation, which only the parallel option
  allows), and planning stops at the first operation whose group is full.
\<close>

theorem plan_wave_correct:
  assumes "m < 64" "length batch - first \<le> 2 ^ m" "first \<le> length batch"
    and "hooks_answer I slots root s (map tk_op batch)"
  shows "\<exists>pos batch' groups table.
    plan_wave I slots mat root s (2 ^ m) first batch = Some (pos, batch', groups, table) \<and>
    wave_planned I slots mat root s (map tk_op batch) first pos batch' groups \<and>
    (pos < length batch \<longrightarrow>
      group_full (op_target I root s (map tk_op batch)) (leaf_room I slots s) mat first pos)"
  using assms by (rule plan_wave_total)

end
