(* ===== verification/Wave_Exec.thy ===== *)
theory Wave_Exec
  imports Wave_Plan
begin

text \<open>
  Executing a wave: whatever the interleaving of the workers, a planned wave never runs out of reserved room,
  and when the pool is done the store is the one that appending the operations one by one in ticket order
  would leave. The laws that the leaves of a tree must obey for this are the locale \<open>wave_leaves\<close>.
\<close>

section \<open>Appending one by one\<close>

type_synonym leaf_op = "addr \<times> fop"

definition leaf_append_op :: "('z, 's, 'r) fat_hooks \<Rightarrow> nat \<Rightarrow> leaf_op \<Rightarrow> 's \<Rightarrow> (bool \<times> 's) option" where
  "leaf_append_op I slots x s =
     fh_append I (fst x) slots (fop_ticket (snd x)) (fop_key (snd x)) (fop_value (snd x)) s"

fun append_all :: "('z, 's, 'r) fat_hooks \<Rightarrow> nat \<Rightarrow> leaf_op list \<Rightarrow> 's \<Rightarrow> 's option" where
  "append_all I slots [] s = Some s"
| "append_all I slots (x # xs) s =
     (case leaf_append_op I slots x s of Some (True, s') \<Rightarrow> append_all I slots xs s' | _ \<Rightarrow> None)"

lemma append_all_append:
  "append_all I slots (xs @ ys) s = (case append_all I slots xs s of None \<Rightarrow> None | Some s' \<Rightarrow> append_all I slots ys s')"
  by (induction xs arbitrary: s) (auto split: option.splits prod.splits bool.splits)

locale wave_leaves =
  fixes I :: "('z, 's, 'r) fat_hooks" and slots :: nat and fits :: "'s \<Rightarrow> leaf_op \<Rightarrow> bool"
  assumes room: "fits s x \<Longrightarrow> fh_available I s (fst x) slots = Some (Suc n) \<Longrightarrow>
      \<exists>s'. leaf_append_op I slots x s = Some (True, s') \<and> fh_available I s' (fst x) slots = Some n"
    and other: "fits s x \<Longrightarrow> leaf_append_op I slots x s = Some (True, s') \<Longrightarrow> l \<noteq> fst x \<Longrightarrow>
      fh_available I s' l slots = fh_available I s l slots"
    and keeps: "fits s x \<Longrightarrow> leaf_append_op I slots x s = Some (True, s') \<Longrightarrow> fits s y \<Longrightarrow> fits s' y"
    and commute: "fits s x \<Longrightarrow> fits s y \<Longrightarrow> fst x \<noteq> fst y \<Longrightarrow>
      leaf_append_op I slots x s = Some (True, s1) \<Longrightarrow> leaf_append_op I slots y s1 = Some (True, s2) \<Longrightarrow>
      \<exists>s1'. leaf_append_op I slots y s = Some (True, s1') \<and> leaf_append_op I slots x s1' = Some (True, s2)"
begin

lemma append_all_Cons:
  "append_all I slots (x # xs) s = Some s' \<longleftrightarrow>
    (\<exists>s1. leaf_append_op I slots x s = Some (True, s1) \<and> append_all I slots xs s1 = Some s')"
  by (auto split: option.splits prod.splits bool.splits)

lemma append_all_fits: "append_all I slots xs s = Some s' \<Longrightarrow> \<forall>x \<in> set xs. fits s x \<Longrightarrow> fits s y \<Longrightarrow> fits s' y"
proof (induction xs arbitrary: s)
  case (Cons x xs)
  then obtain s1 where s1: "leaf_append_op I slots x s = Some (True, s1)" "append_all I slots xs s1 = Some s'"
    unfolding append_all_Cons by blast
  have "fits s1 z" if "fits s z" for z using keeps [OF _ s1(1) that] Cons.prems(2) by simp
  then show ?case using Cons.IH [OF s1(2)] Cons.prems(2,3) by simp
qed simp

text \<open>An operation moves before operations on other leaves.\<close>

lemma append_all_front:
  assumes "append_all I slots (xs @ y # ys) s = Some s'" "\<forall>x \<in> set xs. fst x \<noteq> fst y"
    and "\<forall>x \<in> set xs. fits s x" "fits s y"
  shows "append_all I slots (y # xs @ ys) s = Some s'"
  using assms
proof (induction xs arbitrary: s)
  case (Cons x xs)
  obtain s1 where s1: "leaf_append_op I slots x s = Some (True, s1)" "append_all I slots (xs @ y # ys) s1 = Some s'"
    using Cons.prems(1) append_all_Cons [of x "xs @ y # ys" s s'] by auto
  have f1: "fits s1 z" if "fits s z" for z using keeps [OF _ s1(1) that] Cons.prems(3) by simp
  have "append_all I slots (y # xs @ ys) s1 = Some s'"
    using Cons.prems f1 by (intro Cons.IH [OF s1(2)]) auto
  then obtain s2 where s2: "leaf_append_op I slots y s1 = Some (True, s2)" "append_all I slots (xs @ ys) s2 = Some s'"
    unfolding append_all_Cons by blast
  obtain s1' where "leaf_append_op I slots y s = Some (True, s1')" "leaf_append_op I slots x s1' = Some (True, s2)"
    using commute [OF _ _ _ s1(1) s2(1)] Cons.prems(2-4) by auto
  then show ?case using s2(2) unfolding append_Cons append_all_Cons by blast
qed simp

text \<open>Two orders that agree on every leaf leave the same store.\<close>

lemma append_all_reorder:
  assumes "append_all I slots xs s = Some s'" "\<forall>x \<in> set xs. fits s x"
    and "\<And>l. filter (\<lambda>x. fst x = l) xs = filter (\<lambda>x. fst x = l) ys"
  shows "append_all I slots ys s = Some s'"
  using assms
proof (induction ys arbitrary: xs s)
  case Nil
  have "xs = []"
  proof (cases xs)
    case (Cons x xs')
    then show ?thesis using Nil.prems(3) [of "fst x"] by simp
  qed
  then show ?case using Nil.prems(1) by simp
next
  case (Cons y ys)
  have "filter (\<lambda>x. fst x = fst y) xs = y # filter (\<lambda>x. fst x = fst y) ys" using Cons.prems(3) [of "fst y"] by simp
  then obtain us vs where xs: "xs = us @ y # vs" "\<forall>u \<in> set us. fst u \<noteq> fst y"
    "filter (\<lambda>x. fst x = fst y) ys = filter (\<lambda>x. fst x = fst y) vs"
    unfolding filter_eq_Cons_iff by blast
  have run: "append_all I slots (y # us @ vs) s = Some s'"
    using Cons.prems(1,2) xs by (intro append_all_front) auto
  then obtain s1 where s1: "leaf_append_op I slots y s = Some (True, s1)" "append_all I slots (us @ vs) s1 = Some s'"
    unfolding append_all_Cons by blast
  have "append_all I slots ys s1 = Some s'"
  proof (rule Cons.IH [OF s1(2)])
    show "\<forall>x \<in> set (us @ vs). fits s1 x" using keeps [OF _ s1(1)] Cons.prems(2) xs(1) by auto
    show "filter (\<lambda>x. fst x = l) (us @ vs) = filter (\<lambda>x. fst x = l) ys" for l
    proof (cases "l = fst y")
      case True
      then show ?thesis using xs(2,3) by simp
    next
      case False
      then show ?thesis using Cons.prems(3) [of l] xs(1) by simp
    qed
  qed
  then show ?case using s1(1) unfolding append_all_Cons by blast
qed

end

section \<open>The pool\<close>

definition wave_leaf_op :: "'r wgroup list \<Rightarrow> wtask list \<Rightarrow> nat \<Rightarrow> nat \<Rightarrow> leaf_op" where
  "wave_leaf_op groups batch i p = (gr_leaf (groups ! i), tk_op (batch ! p))"

text \<open>The groups of a wave without materialisation: links that end, different leaves.\<close>

definition wave_groups :: "wtask list \<Rightarrow> 'r wgroup list \<Rightarrow> bool" where
  "wave_groups batch groups \<longleftrightarrow>
     (\<forall>g \<in> set groups. chain_links batch (group_chain batch g) \<and> set (group_chain batch g) \<subseteq> {..< length batch} \<and>
        \<not> gr_materialize g) \<and>
     distinct (map gr_leaf groups)"

text \<open>The pool before the first wave and between waves.\<close>

definition pool_idle :: "nat \<Rightarrow> ('s, 'r) pool \<Rightarrow> bool" where
  "pool_idle workers p \<longleftrightarrow>
     (\<forall>w. pl_phase p w = WK_WAIT) \<and> (\<forall>w < workers. pl_seen p w = pl_generation p) \<and> pl_failure p = None"

definition wk_done :: "('s, 'r) pool \<Rightarrow> nat \<Rightarrow> bool" where
  "wk_done p w \<longleftrightarrow> pl_phase p w = WK_WAIT \<and> pl_seen p w = pl_generation p"

text \<open>\<open>n i\<close> operations of group \<open>i\<close> are done.\<close>

definition wk_ok :: "nat \<Rightarrow> (nat \<Rightarrow> nat list) \<Rightarrow> (nat \<Rightarrow> nat) \<Rightarrow> ('s, 'r) pool \<Rightarrow> nat \<Rightarrow> bool" where
  "wk_ok N c n p w \<longleftrightarrow>
     (case pl_phase p w of
        WK_WAIT \<Rightarrow> pl_seen p w = pl_generation p \<longrightarrow> N \<le> pl_next p
      | WK_CLAIM \<Rightarrow> pl_seen p w = pl_generation p
      | WK_LEAVE \<Rightarrow> pl_seen p w = pl_generation p \<and> N \<le> pl_next p
      | WK_GROUP i nxt \<Rightarrow> pl_seen p w = pl_generation p \<and> i < N \<and> i < pl_next p \<and>
          nxt = (if n i < length (c i) then Some (c i ! n i) else None))"

definition wk_group :: "('s, 'r) pool \<Rightarrow> nat \<Rightarrow> nat option" where
  "wk_group p w = (case pl_phase p w of WK_GROUP i nxt \<Rightarrow> Some i | _ \<Rightarrow> None)"

definition pool_sched :: "nat \<Rightarrow> nat \<Rightarrow> (nat \<Rightarrow> nat list) \<Rightarrow> (nat \<Rightarrow> nat) \<Rightarrow> ('s, 'r) pool \<Rightarrow> bool" where
  "pool_sched workers N c n p \<longleftrightarrow>
     (\<forall>w < workers. wk_ok N c n p w) \<and> (\<forall>w \<ge> workers. pl_phase p w = WK_WAIT) \<and>
     (\<forall>w v i. wk_group p w = Some i \<longrightarrow> wk_group p v = Some i \<longrightarrow> w = v) \<and>
     (\<forall>i < N. pl_next p \<le> i \<longrightarrow> n i = 0) \<and> (\<forall>i < N. n i \<le> length (c i)) \<and>
     (\<forall>i < N. i < pl_next p \<longrightarrow> (\<exists>w. wk_group p w = Some i) \<or> n i = length (c i)) \<and>
     pl_remaining p = card {w. w < workers \<and> \<not> wk_done p w} \<and> pl_failure p = None"

text \<open>\<open>es\<close> are the operations done so far, as pairs of a group and a position, in the order of their execution.\<close>

definition pool_data ::
    "('z, 's, 'r) fat_hooks \<Rightarrow> nat \<Rightarrow> ('s \<Rightarrow> leaf_op \<Rightarrow> bool) \<Rightarrow> wtask list \<Rightarrow> 'r wgroup list \<Rightarrow> (nat \<Rightarrow> nat) \<Rightarrow>
      (nat \<times> nat) list \<Rightarrow> 's \<Rightarrow> ('s, 'r) pool \<Rightarrow> bool" where
  "pool_data I slots fits batch groups n es s0 p \<longleftrightarrow>
     (let c = (\<lambda>i. group_chain batch (groups ! i)) in
      pl_groups p = groups \<and> (\<forall>e \<in> set es. fst e < length groups) \<and>
      (\<forall>i < length groups. map snd (filter (\<lambda>e. fst e = i) es) = take (n i) (c i)) \<and>
      append_all I slots (map (\<lambda>e. wave_leaf_op groups batch (fst e) (snd e)) es) s0 = Some (pl_store p) \<and>
      (\<forall>i < length groups. \<forall>q \<in> set (c i). fits (pl_store p) (wave_leaf_op groups batch i q)) \<and>
      (\<forall>i < length groups. \<exists>k. fh_available I (pl_store p) (gr_leaf (groups ! i)) slots = Some k \<and> length (c i) - n i \<le> k))"

lemma pool_dataI:
  assumes "pl_groups p = groups" "\<And>e. e \<in> set es \<Longrightarrow> fst e < length groups"
    and "\<And>i. i < length groups \<Longrightarrow> map snd (filter (\<lambda>e. fst e = i) es) = take (n i) (group_chain batch (groups ! i))"
    and "append_all I slots (map (\<lambda>e. wave_leaf_op groups batch (fst e) (snd e)) es) s0 = Some (pl_store p)"
    and "\<And>i q. i < length groups \<Longrightarrow> q \<in> set (group_chain batch (groups ! i)) \<Longrightarrow>
      fits (pl_store p) (wave_leaf_op groups batch i q)"
    and "\<And>i. i < length groups \<Longrightarrow> \<exists>k. fh_available I (pl_store p) (gr_leaf (groups ! i)) slots = Some k \<and>
      length (group_chain batch (groups ! i)) - n i \<le> k"
  shows "pool_data I slots fits batch groups n es s0 p"
  using assms unfolding pool_data_def Let_def by blast

lemma chain_links_next:
  "chain_links batch ps \<Longrightarrow> j < length ps \<Longrightarrow>
    tk_next (batch ! (ps ! j)) = (if Suc j < length ps then Some (ps ! Suc j) else None)"
proof (induction ps arbitrary: j)
  case (Cons p ps)
  show ?case
  proof (cases j)
    case 0
    then show ?thesis using Cons.prems by (cases ps) auto
  next
    case (Suc j')
    then show ?thesis using Cons by simp
  qed
qed simp

lemma group_chain_first: "group_chain batch g = gr_first g # chain_from (length batch) batch (tk_next (batch ! gr_first g))"
  by (simp add: group_chain_def)

lemma wk_group_upd: "wk_group (p\<lparr>pl_phase := (pl_phase p)(w := ph)\<rparr>) v =
    (if v = w then (case ph of WK_GROUP i nxt \<Rightarrow> Some i | _ \<Rightarrow> None) else wk_group p v)"
  by (simp add: wk_group_def)

lemma card_pull: "w < workers \<Longrightarrow> \<not> wk_done p w \<Longrightarrow> (\<And>v. v \<noteq> w \<Longrightarrow> wk_done p' v = wk_done p v) \<Longrightarrow>
    card {v. v < workers \<and> \<not> wk_done p' v} = card {v. v < workers \<and> \<not> wk_done p v} - (if wk_done p' w then 1 else 0)"
proof -
  assume a: "w < workers" "\<not> wk_done p w" "\<And>v. v \<noteq> w \<Longrightarrow> wk_done p' v = wk_done p v"
  let ?A = "{v. v < workers \<and> \<not> wk_done p v}"
  show ?thesis
  proof (cases "wk_done p' w")
    case True
    have "{v. v < workers \<and> \<not> wk_done p' v} = ?A - {w}"
    proof (rule set_eqI)
      show "v \<in> {v. v < workers \<and> \<not> wk_done p' v} \<longleftrightarrow> v \<in> ?A - {w}" for v
        using a True by (cases "v = w") simp_all
    qed
    then show ?thesis using a(1,2) True by simp
  next
    case False
    have "{v. v < workers \<and> \<not> wk_done p' v} = ?A"
    proof (rule Collect_cong)
      show "(v < workers \<and> \<not> wk_done p' v) = (v < workers \<and> \<not> wk_done p v)" for v
        using a False by (cases "v = w") simp_all
    qed
    then show ?thesis using False by simp
  qed
qed

lemma wk_ok_keep:
  "wk_ok N c n p v \<Longrightarrow> pl_phase p' v = pl_phase p v \<Longrightarrow> pl_seen p' v = pl_seen p v \<Longrightarrow>
    pl_generation p' = pl_generation p \<Longrightarrow> pl_next p \<le> pl_next p' \<Longrightarrow> wk_ok N c n p' v"
  by (auto simp: wk_ok_def split: wk_phase.splits)

lemma pool_schedD:
  assumes "pool_sched workers N c n p"
  shows "\<And>w. w < workers \<Longrightarrow> wk_ok N c n p w" "\<And>w. workers \<le> w \<Longrightarrow> pl_phase p w = WK_WAIT"
    "\<And>w v i. wk_group p w = Some i \<Longrightarrow> wk_group p v = Some i \<Longrightarrow> w = v"
    "\<And>i. i < N \<Longrightarrow> pl_next p \<le> i \<Longrightarrow> n i = 0" "\<And>i. i < N \<Longrightarrow> n i \<le> length (c i)"
    "\<And>i. i < N \<Longrightarrow> i < pl_next p \<Longrightarrow> (\<exists>w. wk_group p w = Some i) \<or> n i = length (c i)"
    "pl_remaining p = card {w. w < workers \<and> \<not> wk_done p w}" "pl_failure p = None"
  using assms unfolding pool_sched_def by blast+

lemma pool_schedI:
  assumes "\<And>w. w < workers \<Longrightarrow> wk_ok N c n p w" "\<And>w. workers \<le> w \<Longrightarrow> pl_phase p w = WK_WAIT"
    "\<And>w v i. wk_group p w = Some i \<Longrightarrow> wk_group p v = Some i \<Longrightarrow> w = v"
    "\<And>i. i < N \<Longrightarrow> pl_next p \<le> i \<Longrightarrow> n i = 0" "\<And>i. i < N \<Longrightarrow> n i \<le> length (c i)"
    "\<And>i. i < N \<Longrightarrow> i < pl_next p \<Longrightarrow> (\<exists>w. wk_group p w = Some i) \<or> n i = length (c i)"
    "pl_remaining p = card {w. w < workers \<and> \<not> wk_done p w}" "pl_failure p = None"
  shows "pool_sched workers N c n p"
  using assms unfolding pool_sched_def by blast

lemma sched_group:
  assumes "pool_sched workers N c n p" "wk_group p v = Some i"
  shows "i < N" "i < pl_next p" "v < workers"
proof -
  obtain nxt where ph: "pl_phase p v = WK_GROUP i nxt" using assms(2) by (auto simp: wk_group_def split: wk_phase.splits)
  then show "v < workers" using pool_schedD(2) [OF assms(1), of v] by (cases "v < workers") auto
  from pool_schedD(1) [OF assms(1) this] ph show "i < N" "i < pl_next p" by (simp_all add: wk_ok_def)
qed

lemma sched_wake:
  assumes s: "pool_sched workers N c n p" and w: "w < workers" "pl_phase p w = WK_WAIT" "pl_generation p \<noteq> pl_seen p w"
  shows "pool_sched workers N c n (p\<lparr>pl_seen := (pl_seen p)(w := pl_generation p), pl_phase := (pl_phase p)(w := WK_CLAIM)\<rparr>)"
    (is "pool_sched _ _ _ _ ?p")
proof (rule pool_schedI)
  have g: "wk_group ?p v = (if v = w then None else wk_group p v)" for v by (simp add: wk_group_def)
  show "wk_ok N c n ?p v" if v: "v < workers" for v
  proof (cases "v = w")
    case False
    then show ?thesis by (intro wk_ok_keep [OF pool_schedD(1) [OF s v]]) simp_all
  qed (simp add: wk_ok_def)
  show "pl_phase ?p v = WK_WAIT" if "workers \<le> v" for v using pool_schedD(2) [OF s that] that w(1) by auto
  show "v = v'" if "wk_group ?p v = Some i" "wk_group ?p v' = Some i" for v v' i
    using that pool_schedD(3) [OF s, of v i v'] by (simp add: g split: if_splits)
  show "n i = 0" if "i < N" "pl_next ?p \<le> i" for i using pool_schedD(4) [OF s] that by simp
  show "n i \<le> length (c i)" if "i < N" for i using pool_schedD(5) [OF s] that by simp
  have "wk_group p w = None" using w(2) by (simp add: wk_group_def)
  then show "(\<exists>v. wk_group ?p v = Some i) \<or> n i = length (c i)" if "i < N" "i < pl_next ?p" for i
    using pool_schedD(6) [OF s, of i] that g by (metis option.distinct(1) pool.select_convs(5) pool.surjective pool.update_convs(6,7))
  have nd: "\<not> wk_done p w" using w(3) by (simp add: wk_done_def)
  show "pl_remaining ?p = card {w. w < workers \<and> \<not> wk_done ?p w}"
    using card_pull [OF w(1) nd, of ?p] pool_schedD(7) [OF s] by (simp add: wk_done_def)
  show "pl_failure ?p = None" using pool_schedD(8) [OF s] by simp
qed

lemma sched_claim:
  assumes s: "pool_sched workers N c n p" and w: "w < workers" "pl_phase p w = WK_CLAIM"
    and c: "\<And>i. i < N \<Longrightarrow> c i \<noteq> [] \<and> hd (c i) = f i"
  shows "pool_sched workers N c n (p\<lparr>pl_next := pl_next p + 1, pl_phase := (pl_phase p)(w :=
      (if pl_next p < N then WK_GROUP (pl_next p) (Some (f (pl_next p))) else WK_LEAVE))\<rparr>)"
    (is "pool_sched _ _ _ _ ?p")
proof (rule pool_schedI)
  have g: "wk_group ?p v = (if v = w then (if pl_next p < N then Some (pl_next p) else None) else wk_group p v)" for v
    by (simp add: wk_group_def)
  have gw: "wk_group p w = None" using w(2) by (simp add: wk_group_def)
  show "wk_ok N c n ?p v" if v: "v < workers" for v
  proof (cases "v = w")
    case True
    have "pl_seen p w = pl_generation p" using pool_schedD(1) [OF s w(1)] w(2) by (simp add: wk_ok_def)
    then show ?thesis using True c [of "pl_next p"] pool_schedD(4) [OF s, of "pl_next p"]
      by (auto simp: wk_ok_def hd_conv_nth)
  next
    case False
    then show ?thesis by (intro wk_ok_keep [OF pool_schedD(1) [OF s v]]) simp_all
  qed
  show "pl_phase ?p v = WK_WAIT" if "workers \<le> v" for v using pool_schedD(2) [OF s that] that w(1) by auto
  show "v = v'" if "wk_group ?p v = Some i" "wk_group ?p v' = Some i" for v v' i
    using that pool_schedD(3) [OF s, of v i v'] sched_group(2) [OF s, of v i] sched_group(2) [OF s, of v' i]
    unfolding g by (auto split: if_splits)
  show "n i = 0" if "i < N" "pl_next ?p \<le> i" for i using pool_schedD(4) [OF s] that by simp
  show "n i \<le> length (c i)" if "i < N" for i using pool_schedD(5) [OF s] that by simp
  show "(\<exists>v. wk_group ?p v = Some i) \<or> n i = length (c i)" if i: "i < N" "i < pl_next ?p" for i
  proof (cases "i = pl_next p")
    case True
    then have "wk_group ?p w = Some i" using i g by simp
    then show ?thesis by blast
  next
    case False
    then have "(\<exists>v. wk_group p v = Some i) \<or> n i = length (c i)" using pool_schedD(6) [OF s i(1)] i(2) by simp
    then show ?thesis using g gw by (metis option.distinct(1))
  qed
  have nd: "\<not> wk_done p w" using w(2) by (simp add: wk_done_def)
  show "pl_remaining ?p = card {w. w < workers \<and> \<not> wk_done ?p w}"
    using card_pull [OF w(1) nd, of ?p] pool_schedD(7) [OF s] by (simp add: wk_done_def)
  show "pl_failure ?p = None" using pool_schedD(8) [OF s] by simp
qed

lemma sched_end:
  assumes s: "pool_sched workers N c n p" and w: "w < workers" "pl_phase p w = WK_GROUP i None"
  shows "pool_sched workers N c n (p\<lparr>pl_phase := (pl_phase p)(w := WK_CLAIM)\<rparr>)" (is "pool_sched _ _ _ _ ?p")
proof (rule pool_schedI)
  have g: "wk_group ?p v = (if v = w then None else wk_group p v)" for v by (simp add: wk_group_def)
  have gw: "wk_group p w = Some i" using w(2) by (simp add: wk_group_def)
  have ok: "pl_seen p w = pl_generation p" "i < N" "i < pl_next p" "\<not> n i < length (c i)"
    using pool_schedD(1) [OF s w(1)] w(2) by (auto simp: wk_ok_def split: if_splits)
  show "wk_ok N c n ?p v" if v: "v < workers" for v
  proof (cases "v = w")
    case False
    then show ?thesis by (intro wk_ok_keep [OF pool_schedD(1) [OF s v]]) simp_all
  qed (use ok in \<open>simp add: wk_ok_def\<close>)
  show "pl_phase ?p v = WK_WAIT" if "workers \<le> v" for v using pool_schedD(2) [OF s that] that w(1) by auto
  show "v = v'" if "wk_group ?p v = Some j" "wk_group ?p v' = Some j" for v v' j
    using that pool_schedD(3) [OF s, of v j v'] unfolding g by (auto split: if_splits)
  show "n i = 0" if "i < N" "pl_next ?p \<le> i" for i using pool_schedD(4) [OF s] that by simp
  show "n i \<le> length (c i)" if "i < N" for i using pool_schedD(5) [OF s] that by simp
  show "(\<exists>v. wk_group ?p v = Some j) \<or> n j = length (c j)" if j: "j < N" "j < pl_next ?p" for j
  proof (cases "j = i")
    case True
    then show ?thesis using ok(4) pool_schedD(5) [OF s, of i] j(1) by simp
  next
    case False
    have "(\<exists>v. wk_group p v = Some j) \<or> n j = length (c j)" using pool_schedD(6) [OF s j(1)] j(2) by simp
    then show ?thesis using g gw False by (metis option.inject)
  qed
  have nd: "\<not> wk_done p w" using w(2) by (simp add: wk_done_def)
  show "pl_remaining ?p = card {w. w < workers \<and> \<not> wk_done ?p w}"
    using card_pull [OF w(1) nd, of ?p] pool_schedD(7) [OF s] by (simp add: wk_done_def)
  show "pl_failure ?p = None" using pool_schedD(8) [OF s] by simp
qed

lemma sched_leave:
  assumes s: "pool_sched workers N c n p" and w: "w < workers" "pl_phase p w = WK_LEAVE"
  shows "pool_sched workers N c n (p\<lparr>pl_remaining := pl_remaining p - 1, pl_phase := (pl_phase p)(w := WK_WAIT)\<rparr>)"
    (is "pool_sched _ _ _ _ ?p")
proof (rule pool_schedI)
  have g: "wk_group ?p v = (if v = w then None else wk_group p v)" for v by (simp add: wk_group_def)
  have gw: "wk_group p w = None" using w(2) by (simp add: wk_group_def)
  have ok: "pl_seen p w = pl_generation p" "N \<le> pl_next p" using pool_schedD(1) [OF s w(1)] w(2) by (auto simp: wk_ok_def)
  show "wk_ok N c n ?p v" if v: "v < workers" for v
  proof (cases "v = w")
    case False
    then show ?thesis by (intro wk_ok_keep [OF pool_schedD(1) [OF s v]]) simp_all
  qed (use ok in \<open>simp add: wk_ok_def\<close>)
  show "pl_phase ?p v = WK_WAIT" if "workers \<le> v" for v using pool_schedD(2) [OF s that] that w(1) by auto
  show "v = v'" if "wk_group ?p v = Some j" "wk_group ?p v' = Some j" for v v' j
    using that pool_schedD(3) [OF s, of v j v'] unfolding g by (auto split: if_splits)
  show "n i = 0" if "i < N" "pl_next ?p \<le> i" for i using pool_schedD(4) [OF s] that by simp
  show "n i \<le> length (c i)" if "i < N" for i using pool_schedD(5) [OF s] that by simp
  show "(\<exists>v. wk_group ?p v = Some j) \<or> n j = length (c j)" if j: "j < N" "j < pl_next ?p" for j
  proof -
    have "(\<exists>v. wk_group p v = Some j) \<or> n j = length (c j)" using pool_schedD(6) [OF s j(1)] j(2) by simp
    then show ?thesis using g gw by (metis option.distinct(1))
  qed
  have nd: "\<not> wk_done p w" using w(2) by (simp add: wk_done_def)
  show "pl_remaining ?p = card {w. w < workers \<and> \<not> wk_done ?p w}"
    using card_pull [OF w(1) nd, of ?p] pool_schedD(7) [OF s] ok(1) by (simp add: wk_done_def)
  show "pl_failure ?p = None" using pool_schedD(8) [OF s] by simp
qed

lemma sched_exec:
  assumes s: "pool_sched workers N c n p" and w: "w < workers" "pl_phase p w = WK_GROUP i (Some pos)"
    and nxt: "nxt = (if Suc (n i) < length (c i) then Some (c i ! Suc (n i)) else None)"
  shows "pool_sched workers N c (n(i := Suc (n i))) (p\<lparr>pl_phase := (pl_phase p)(w := WK_GROUP i nxt), pl_store := st\<rparr>)"
    (is "pool_sched _ _ _ ?n ?p")
proof (rule pool_schedI)
  have g: "wk_group ?p v = wk_group p v" for v using w(2) by (simp add: wk_group_def)
  have gw: "wk_group p w = Some i" using w(2) by (simp add: wk_group_def)
  have ok: "pl_seen p w = pl_generation p" "i < N" "i < pl_next p" "n i < length (c i)"
    using pool_schedD(1) [OF s w(1)] w(2) by (auto simp: wk_ok_def split: if_splits)
  show "wk_ok N c ?n ?p v" if v: "v < workers" for v
  proof (cases "v = w")
    case True
    then show ?thesis using ok nxt by (simp add: wk_ok_def)
  next
    case False
    then have "wk_group p v \<noteq> Some i" using pool_schedD(3) [OF s gw, of v] by auto
    then show ?thesis using pool_schedD(1) [OF s v] False by (auto simp: wk_ok_def wk_group_def split: wk_phase.splits)
  qed
  show "pl_phase ?p v = WK_WAIT" if "workers \<le> v" for v using pool_schedD(2) [OF s that] that w(1) by auto
  show "v = v'" if "wk_group ?p v = Some j" "wk_group ?p v' = Some j" for v v' j
    using that pool_schedD(3) [OF s, of v j v'] unfolding g by blast
  show "?n j = 0" if "j < N" "pl_next ?p \<le> j" for j using pool_schedD(4) [OF s, of j] that ok(3) by auto
  show "?n j \<le> length (c j)" if "j < N" for j using pool_schedD(5) [OF s, of j] that ok(4) by auto
  show "(\<exists>v. wk_group ?p v = Some j) \<or> ?n j = length (c j)" if j: "j < N" "j < pl_next ?p" for j
    unfolding g using pool_schedD(6) [OF s j(1)] j(2) gw by (cases "j = i") auto
  have nd: "\<not> wk_done p w" using w(2) by (simp add: wk_done_def)
  show "pl_remaining ?p = card {w. w < workers \<and> \<not> wk_done ?p w}"
    using card_pull [OF w(1) nd, of ?p] pool_schedD(7) [OF s] by (simp add: wk_done_def)
  show "pl_failure ?p = None" using pool_schedD(8) [OF s] by simp
qed

context wave_leaves
begin

lemma data_exec:
  assumes d: "pool_data I slots fits batch groups n es s0 p" and gs: "wave_groups batch groups"
    and i: "i < length groups" "n i < length (group_chain batch (groups ! i))"
    and p': "pl_groups p' = pl_groups p"
  defines "pos \<equiv> group_chain batch (groups ! i) ! n i"
    and "nxt \<equiv> if Suc (n i) < length (group_chain batch (groups ! i)) then Some (group_chain batch (groups ! i) ! Suc (n i)) else None"
  shows "\<exists>s1. group_step I slots batch i pos (pl_groups p, pl_store p) = Some (Inr (nxt, groups, s1)) \<and>
    (pl_store p' = s1 \<longrightarrow> pool_data I slots fits batch groups (n(i := Suc (n i))) (es @ [(i, pos)]) s0 p')"
proof -
  let ?c = "\<lambda>i. group_chain batch (groups ! i)" let ?g = "groups ! i"
  let ?x = "wave_leaf_op groups batch i pos" let ?f = "\<lambda>e. wave_leaf_op groups batch (fst e) (snd e)"
  have g: "chain_links batch (?c i)" "set (?c i) \<subseteq> {..< length batch}" "\<not> gr_materialize ?g"
    and dist: "distinct (map gr_leaf groups)"
    using gs i(1) unfolding wave_groups_def by auto
  have posin: "pos \<in> set (?c i)" unfolding pos_def using i(2) by simp
  then have pos: "pos < length batch" using g(2) by blast
  have grps: "pl_groups p = groups" and below: "\<forall>e \<in> set es. fst e < length groups"
    and prog: "\<And>j. j < length groups \<Longrightarrow> map snd (filter (\<lambda>e. fst e = j) es) = take (n j) (?c j)"
    and run: "append_all I slots (map ?f es) s0 = Some (pl_store p)"
    and fit: "\<And>j q. j < length groups \<Longrightarrow> q \<in> set (?c j) \<Longrightarrow> fits (pl_store p) (wave_leaf_op groups batch j q)"
    and av: "\<And>j. j < length groups \<Longrightarrow> \<exists>k. fh_available I (pl_store p) (gr_leaf (groups ! j)) slots = Some k \<and> length (?c j) - n j \<le> k"
    using d unfolding pool_data_def Let_def by auto
  obtain k where k: "fh_available I (pl_store p) (gr_leaf ?g) slots = Some k" "length (?c i) - n i \<le> k" using av [OF i(1)] by blast
  then obtain k' where k': "k = Suc k'" using i(2) by (cases k) auto
  have fx: "fits (pl_store p) ?x" by (rule fit [OF i(1) posin])
  obtain s1 where s1: "leaf_append_op I slots ?x (pl_store p) = Some (True, s1)" "fh_available I s1 (gr_leaf ?g) slots = Some k'"
    using room [OF fx, of k'] k(1) k' by (auto simp: wave_leaf_op_def)
  have step: "group_step I slots batch i pos (pl_groups p, pl_store p) = Some (Inr (nxt, groups, s1))"
    using s1(1) pos i g(3) chain_links_next [OF g(1) i(2)]
    by (simp add: group_step_def grps leaf_append_op_def wave_leaf_op_def nxt_def pos_def Let_def)
  have fits1: "fits s1 y" if "fits (pl_store p) y" for y by (rule keeps [OF fx s1(1) that])
  have av1: "\<exists>k. fh_available I s1 (gr_leaf (groups ! j)) slots = Some k \<and> length (?c j) - (n(i := Suc (n i))) j \<le> k"
    if j: "j < length groups" for j
  proof (cases "j = i")
    case True
    then show ?thesis using s1(2) k(2) k' by auto
  next
    case False
    then have "gr_leaf (groups ! j) \<noteq> fst ?x"
      using dist i(1) j by (simp add: wave_leaf_op_def distinct_conv_nth)
    from other [OF fx s1(1) this] show ?thesis using av [OF j] False by auto
  qed
  have prog1: "map snd (filter (\<lambda>e. fst e = j) (es @ [(i, pos)])) = take ((n(i := Suc (n i))) j) (?c j)"
    if j: "j < length groups" for j
    using prog [OF j] i(2) by (cases "j = i") (simp_all add: pos_def take_Suc_conv_app_nth)
  have run1: "append_all I slots (map ?f (es @ [(i, pos)])) s0 = Some s1"
    using run s1(1) by (simp add: append_all_append)
  have "pool_data I slots fits batch groups (n(i := Suc (n i))) (es @ [(i, pos)]) s0 p'" if "pl_store p' = s1"
  proof (rule pool_dataI)
    show "pl_groups p' = groups" unfolding p' by (rule grps)
    show "fst e < length groups" if "e \<in> set (es @ [(i, pos)])" for e using that below i(1) by auto
    show "append_all I slots (map ?f (es @ [(i, pos)])) s0 = Some (pl_store p')" unfolding \<open>pl_store p' = s1\<close> by (rule run1)
    show "fits (pl_store p') (wave_leaf_op groups batch j q)" if "j < length groups" "q \<in> set (?c j)" for j q
      unfolding \<open>pl_store p' = s1\<close> by (rule fits1 [OF fit [OF that]])
    show "\<exists>k. fh_available I (pl_store p') (gr_leaf (groups ! j)) slots = Some k \<and> length (?c j) - (n(i := Suc (n i))) j \<le> k"
      if "j < length groups" for j
      unfolding \<open>pl_store p' = s1\<close> by (rule av1 [OF that])
  qed (erule prog1)
  with step show ?thesis by blast
qed

lemma pool_data_cong:
  "pool_data I slots fits batch groups n es s0 p \<Longrightarrow> pl_groups p' = pl_groups p \<Longrightarrow> pl_store p' = pl_store p \<Longrightarrow>
    pool_data I slots fits batch groups n es s0 p'"
  by (simp add: pool_data_def Let_def)

definition wave_inv where
  "wave_inv workers batch groups s0 p \<longleftrightarrow>
     (\<exists>n es. pool_sched workers (length groups) (\<lambda>i. group_chain batch (groups ! i)) n p \<and>
        pool_data I slots fits batch groups n es s0 p)"

lemma wave_inv_step:
  assumes inv: "wave_inv workers batch groups s0 p" and gs: "wave_groups batch groups"
    and step: "pool_do I slots workers batch a p = Some p'"
  shows "wave_inv workers batch groups s0 p'"
proof -
  let ?c = "\<lambda>i. group_chain batch (groups ! i)"
  obtain n es where s: "pool_sched workers (length groups) ?c n p" and d: "pool_data I slots fits batch groups n es s0 p"
    using inv unfolding wave_inv_def by blast
  have grps: "pl_groups p = groups" using d by (simp add: pool_data_def Let_def)
  show ?thesis
  proof (cases a)
    case (Wake w)
    then have "w < workers" "pl_phase p w = WK_WAIT" "pl_generation p \<noteq> pl_seen p w"
      and p': "p' = p\<lparr>pl_seen := (pl_seen p)(w := pl_generation p), pl_phase := (pl_phase p)(w := WK_CLAIM)\<rparr>"
      using step by (auto split: if_splits)
    from sched_wake [OF s this(1-3)] show ?thesis
      unfolding wave_inv_def p' by (intro exI conjI) (assumption, rule pool_data_cong [OF d], simp_all)
  next
    case (Claim w)
    then have w: "w < workers" "pl_phase p w = WK_CLAIM" and p': "p' = p\<lparr>pl_next := pl_next p + 1, pl_phase := (pl_phase p)(w :=
        (if pl_next p < length groups then WK_GROUP (pl_next p) (Some (gr_first (groups ! pl_next p))) else WK_LEAVE))\<rparr>"
      using step grps by (auto split: if_splits)
    have "pool_sched workers (length groups) ?c n p'"
      unfolding p' by (rule sched_claim [OF s w]) (simp add: group_chain_first)
    then show ?thesis unfolding wave_inv_def
      by (intro exI conjI) (assumption, rule pool_data_cong [OF d], simp_all add: p')
  next
    case (Leave w)
    then have w: "w < workers" "pl_phase p w = WK_LEAVE"
      and p': "p' = p\<lparr>pl_remaining := pl_remaining p - 1, pl_phase := (pl_phase p)(w := WK_WAIT)\<rparr>"
      using step by (auto split: if_splits)
    from sched_leave [OF s w] show ?thesis
      unfolding wave_inv_def p' by (intro exI conjI) (assumption, rule pool_data_cong [OF d], simp_all)
  next
    case (Exec w)
    then obtain i q where ph: "pl_phase p w = WK_GROUP i q" and w: "w < workers"
      using step by (auto split: wk_phase.splits option.splits if_splits)
    show ?thesis
    proof (cases q)
      case None
      then have p': "p' = p\<lparr>pl_phase := (pl_phase p)(w := WK_CLAIM)\<rparr>" using step Exec ph w by simp
      from sched_end [OF s w ph [unfolded None]] show ?thesis
        unfolding wave_inv_def p' by (intro exI conjI) (assumption, rule pool_data_cong [OF d], simp_all)
    next
      case (Some pos)
      have i: "i < length groups" "n i < length (?c i)" "pos = ?c i ! n i"
        using pool_schedD(1) [OF s w] ph Some by (auto simp: wk_ok_def split: if_splits)
      let ?nxt = "if Suc (n i) < length (?c i) then Some (?c i ! Suc (n i)) else None"
      let ?p = "\<lambda>st. p\<lparr>pl_phase := (pl_phase p)(w := WK_GROUP i ?nxt), pl_store := st\<rparr>"
      obtain s1 where st: "group_step I slots batch i pos (pl_groups p, pl_store p) = Some (Inr (?nxt, groups, s1))"
        and d1: "\<And>p'. pl_groups p' = pl_groups p \<Longrightarrow> pl_store p' = s1 \<Longrightarrow>
          pool_data I slots fits batch groups (n(i := Suc (n i))) (es @ [(i, pos)]) s0 p'"
      proof -
        obtain s1 where a: "group_step I slots batch i pos (pl_groups p, pl_store p) = Some (Inr (?nxt, groups, s1))"
          using data_exec [OF d gs i(1,2) refl] unfolding i(3) by blast
        have "pool_data I slots fits batch groups (n(i := Suc (n i))) (es @ [(i, pos)]) s0 p'"
          if "pl_groups p' = pl_groups p" "pl_store p' = s1" for p' :: "('s, 'r) pool"
          using data_exec [OF d gs i(1,2) that(1)] a that(2) unfolding i(3) by auto
        with a show thesis by (rule that)
      qed
      have p': "p' = p\<lparr>pl_phase := (pl_phase p)(w := WK_GROUP i ?nxt), pl_groups := groups, pl_store := s1\<rparr>"
        using step Exec ph w st Some by (simp split del: if_split)
      then have p'': "p' = ?p s1" using grps by simp
      have "pool_sched workers (length groups) ?c (n(i := Suc (n i))) (?p s1)"
        by (rule sched_exec [OF s w ph [unfolded Some] refl])
      moreover have "pool_data I slots fits batch groups (n(i := Suc (n i))) (es @ [(i, pos)]) s0 (?p s1)"
        by (rule d1) simp_all
      ultimately show ?thesis unfolding wave_inv_def p'' by blast
    qed
  qed
qed

lemma wave_inv_start:
  assumes "pool_idle workers p"
    and "\<And>g q. g \<in> set groups \<Longrightarrow> q \<in> set (group_chain batch g) \<Longrightarrow> fits s (gr_leaf g, tk_op (batch ! q))"
    and "\<And>g. g \<in> set groups \<Longrightarrow> \<exists>k. fh_available I s (gr_leaf g) slots = Some k \<and> length (group_chain batch g) \<le> k"
  shows "wave_inv workers batch groups s (start_wave workers groups s p)"
proof -
  let ?p = "start_wave workers groups s p"
  have idle: "pl_phase p w = WK_WAIT" "w < workers \<Longrightarrow> pl_seen p w = pl_generation p" "pl_failure p = None" for w
    using assms(1) unfolding pool_idle_def by blast+
  have g: "wk_group ?p w = None" for w using idle(1) by (simp add: wk_group_def start_wave_def)
  have "{w. w < workers \<and> \<not> wk_done ?p w} = {..< workers}" using idle by (auto simp: wk_done_def start_wave_def)
  then have "pool_sched workers (length groups) (\<lambda>i. group_chain batch (groups ! i)) (\<lambda>_. 0) ?p"
    using idle g by (intro pool_schedI) (simp_all add: wk_ok_def start_wave_def)
  moreover have "pool_data I slots fits batch groups (\<lambda>_. 0) [] s ?p"
    using assms(2,3) by (simp add: pool_data_def Let_def start_wave_def wave_leaf_op_def)
  ultimately show ?thesis unfolding wave_inv_def by blast
qed

text \<open>When the pool is done, the store is the one of the operations in any order that keeps the chains.\<close>

lemma wave_inv_done:
  assumes inv: "wave_inv workers batch groups s0 p" and gs: "wave_groups batch groups"
    and "pl_remaining p = 0" "0 < workers"
    and fit: "\<And>g q. g \<in> set groups \<Longrightarrow> q \<in> set (group_chain batch g) \<Longrightarrow> fits s0 (gr_leaf g, tk_op (batch ! q))"
    and xs: "\<And>g. g \<in> set groups \<Longrightarrow> filter (\<lambda>x. fst x = gr_leaf g) xs = map (\<lambda>q. (gr_leaf g, tk_op (batch ! q))) (group_chain batch g)"
      "\<And>x. x \<in> set xs \<Longrightarrow> fst x \<in> set (map gr_leaf groups)"
  shows "append_all I slots xs s0 = Some (pl_store p)" "pool_idle workers p"
proof -
  let ?c = "\<lambda>i. group_chain batch (groups ! i)"
  let ?f = "\<lambda>e. wave_leaf_op groups batch (fst e) (snd e)"
  obtain n es where s: "pool_sched workers (length groups) ?c n p" and d: "pool_data I slots fits batch groups n es s0 p"
    using inv unfolding wave_inv_def by blast
  have fin: "finite {w. w < workers \<and> \<not> wk_done p w}" by simp
  have fin_w: "wk_done p w" if "w < workers" for w
    using pool_schedD(7) [OF s] assms(3) fin that by auto
  have wait: "pl_phase p w = WK_WAIT" for w
    using fin_w [of w] pool_schedD(2) [OF s, of w] by (cases "w < workers") (auto simp: wk_done_def)
  show "pool_idle workers p" using wait fin_w pool_schedD(8) [OF s] by (simp add: pool_idle_def wk_done_def)
  have all_taken: "length groups \<le> pl_next p"
    using pool_schedD(1) [OF s assms(4)] fin_w [OF assms(4)] wait by (simp add: wk_ok_def wk_done_def)
  have "n i = length (?c i)" if "i < length groups" for i
    using pool_schedD(6) [OF s that] that all_taken wait by (auto simp: wk_group_def)
  then have prog: "map snd (filter (\<lambda>e. fst e = i) es) = ?c i" if "i < length groups" for i
    using d that unfolding pool_data_def Let_def by simp
  have below: "fst e < length groups" if "e \<in> set es" for e using d that unfolding pool_data_def Let_def by blast
  have run: "append_all I slots (map ?f es) s0 = Some (pl_store p)" using d unfolding pool_data_def Let_def by blast
  have dist: "distinct (map gr_leaf groups)" using gs unfolding wave_groups_def by blast
  have leaf: "filter (\<lambda>x. fst x = gr_leaf (groups ! i)) (map ?f es) = map (wave_leaf_op groups batch i) (?c i)" if i: "i < length groups" for i
  proof -
    have same: "gr_leaf (groups ! fst e) = gr_leaf (groups ! i) \<longleftrightarrow> fst e = i" if "e \<in> set es" for e
      using below [OF that] i dist by (auto simp: distinct_conv_nth)
    have "filter (\<lambda>x. fst x = gr_leaf (groups ! i)) (map ?f es) = map ?f (filter (\<lambda>e. fst e = i) es)"
      unfolding filter_map comp_def wave_leaf_op_def fst_conv
      by (rule arg_cong [where f = "map _"], rule filter_cong [OF refl], erule same)
    also have "\<dots> = map (wave_leaf_op groups batch i) (map snd (filter (\<lambda>e. fst e = i) es))" by simp
    finally show ?thesis using prog [OF i] by simp
  qed
  show "append_all I slots xs s0 = Some (pl_store p)"
  proof (rule append_all_reorder [OF run])
    show "\<forall>x \<in> set (map ?f es). fits s0 x"
    proof
      fix x assume "x \<in> set (map ?f es)"
      then obtain e where e: "e \<in> set es" "x = ?f e" by auto
      then have "snd e \<in> set (map snd (filter (\<lambda>e'. fst e' = fst e) es))" by force
      then have "snd e \<in> set (?c (fst e))" unfolding prog [OF below [OF e(1)]] .
      then show "fits s0 x" using fit [of "groups ! fst e" "snd e"] below [OF e(1)] e(2) by (simp add: wave_leaf_op_def)
    qed
    fix l
    show "filter (\<lambda>x. fst x = l) (map ?f es) = filter (\<lambda>x. fst x = l) xs"
    proof (cases "l \<in> set (map gr_leaf groups)")
      case True
      then obtain i where i: "i < length groups" "l = gr_leaf (groups ! i)" by (auto simp: in_set_conv_nth)
      then show ?thesis using leaf [OF i(1)] xs(1) [of "groups ! i"] by (simp add: wave_leaf_op_def)
    next
      case False
      then have "filter (\<lambda>x. fst x = l) xs = []" using xs(2) by (auto simp: filter_empty_conv)
      moreover have "filter (\<lambda>x. fst x = l) (map ?f es) = []" using False below by (auto simp: filter_empty_conv wave_leaf_op_def)
      ultimately show ?thesis by simp
    qed
  qed
qed

lemma wave_inv_reach:
  assumes "pool_reach I slots workers batch p0 p" "wave_inv workers batch groups s0 p0" "wave_groups batch groups"
  shows "wave_inv workers batch groups s0 p"
  using assms by (induction rule: pool_reach.induct) (auto intro: wave_inv_step)

end

section \<open>Planned waves\<close>

lemma planned_null:
  assumes "wave_planned I slots False root s ops first pos batch groups" "leaf_room I slots s nullptr = 0" "g \<in> set groups"
  shows "gr_leaf g \<noteq> nullptr"
proof
  assume "gr_leaf g = nullptr"
  then have "length (group_chain batch g) = 0"
    using assms unfolding wave_planned_def Let_def by (metis add_0_right if_False le_zero_eq)
  then show False by (simp add: group_chain_first)
qed

lemma planned_chain:
  assumes "wave_planned I slots False root s ops first pos batch groups" "leaf_room I slots s nullptr = 0" "g \<in> set groups"
  shows "group_chain batch g = filter (\<lambda>p. fst (op_target I root s ops p) = gr_leaf g) [first ..< pos]"
proof -
  let ?tg = "op_target I root s ops"
  have c: "group_chain batch g = same_group ?tg first pos (gr_first g)" "gr_leaf g = fst (?tg (gr_first g))"
    using assms(1,3) unfolding wave_planned_def Let_def by blast+
  have "same_target (?tg p) (?tg (gr_first g)) \<longleftrightarrow> fst (?tg p) = gr_leaf g" for p
    using planned_null [OF assms] c(2) by (auto simp: same_target_def)
  then show ?thesis unfolding c(1) same_group_def by simp
qed

lemma planned_groups:
  assumes plan: "wave_planned I slots False root s ops first pos batch groups" and null: "leaf_room I slots s nullptr = 0"
  shows "wave_groups batch groups"
proof -
  let ?tg = "op_target I root s ops"
  have len: "pos \<le> length batch" using plan unfolding wave_planned_def Let_def by (metis length_map)
  note chain = planned_chain [OF plan null]
  have "chain_links batch (group_chain batch g)" if g: "g \<in> set groups" for g
  proof -
    have "length (group_chain batch g) \<le> length [first ..< pos]" unfolding chain [OF g] by (rule length_filter_le)
    then have "length (group_chain batch g) < Suc (length batch)" using len by simp
    then show ?thesis unfolding group_chain_def by (rule chain_links_from)
  qed
  moreover have "set (group_chain batch g) \<subseteq> {..< length batch}" if g: "g \<in> set groups" for g
    using len unfolding chain [OF g] by auto
  moreover have "\<not> gr_materialize g" if g: "g \<in> set groups" for g
  proof -
    have "length (group_chain batch g) \<le> leaf_room I slots s (gr_leaf g) + (if False then 1 else 0)"
      "gr_materialize g = (length (group_chain batch g) = leaf_room I slots s (gr_leaf g) + 1)"
      using plan g unfolding wave_planned_def Let_def by blast+
    then show ?thesis by simp
  qed
  moreover have "distinct (map gr_leaf groups)"
    unfolding distinct_conv_nth
  proof (intro allI impI)
    fix i j assume i: "i < length (map gr_leaf groups)" and j: "j < length (map gr_leaf groups)" and "i \<noteq> j"
    show "map gr_leaf groups ! i \<noteq> map gr_leaf groups ! j"
    proof
      assume eq: "map gr_leaf groups ! i = map gr_leaf groups ! j"
      let ?q = "gr_first (groups ! j)"
      have gi: "groups ! i \<in> set groups" and gj: "groups ! j \<in> set groups" using i j by simp_all
      have "?q \<in> set (group_chain batch (groups ! j))" by (simp add: group_chain_first)
      moreover from this have "?q \<in> set (group_chain batch (groups ! i))"
        using eq i j unfolding chain [OF gi] chain [OF gj] by simp
      moreover from this have "first \<le> ?q" "?q < pos" unfolding chain [OF gi] by auto
      ultimately show False using plan \<open>i \<noteq> j\<close> i j unfolding wave_planned_def Let_def by (metis length_map)
    qed
  qed
  ultimately show ?thesis unfolding wave_groups_def by blast
qed

context wave_leaves
begin

text \<open>
  The pool executes a planned wave without failure, and leaves the store of the appends in ticket order.
\<close>

lemma planned_wave_inv:
  assumes plan: "wave_planned I slots False root s ops first pos batch groups" and null: "leaf_room I slots s nullptr = 0"
    and answer: "hooks_answer I slots root s ops" and idle: "pool_idle workers p0"
    and fit: "\<And>q. first \<le> q \<Longrightarrow> q < pos \<Longrightarrow> fst (op_target I root s ops q) \<noteq> nullptr \<Longrightarrow>
      fits s (fst (op_target I root s ops q), ops ! q)"
  shows "wave_inv workers batch groups s (start_wave workers groups s p0)"
    and "\<And>g q. g \<in> set groups \<Longrightarrow> q \<in> set (group_chain batch g) \<Longrightarrow> fits s (gr_leaf g, tk_op (batch ! q))"
proof -
  let ?tg = "op_target I root s ops"
  have ops: "map tk_op batch = ops" and range: "pos \<le> length ops" using plan unfolding wave_planned_def Let_def by blast+
  have op: "tk_op (batch ! q) = ops ! q" if "q < pos" for q using ops range that by (metis length_map less_le_trans nth_map)
  show fits_g: "fits s (gr_leaf g, tk_op (batch ! q))" if g: "g \<in> set groups" "q \<in> set (group_chain batch g)" for g q
  proof -
    have q: "first \<le> q" "q < pos" "fst (?tg q) = gr_leaf g" using g(2) unfolding planned_chain [OF plan null g(1)] by auto
    then show ?thesis using fit [OF q(1,2)] planned_null [OF plan null g(1)] op [OF q(2)] by simp
  qed
  have "\<exists>k. fh_available I s (gr_leaf g) slots = Some k \<and> length (group_chain batch g) \<le> k" if g: "g \<in> set groups" for g
  proof -
    have b: "gr_leaf g = fst (?tg (gr_first g))" "length (group_chain batch g) \<le> leaf_room I slots s (gr_leaf g) + (if False then 1 else 0)"
      using plan g unfolding wave_planned_def Let_def by blast+
    have "gr_first g \<in> set (group_chain batch g)" by (simp add: group_chain_first)
    then have "gr_first g < length ops" using range unfolding planned_chain [OF plan null g] by auto
    then have "ops ! gr_first g \<in> set ops" by simp
    then obtain leaf n where "fh_target I s root (fop_key (ops ! gr_first g)) = Some leaf" "fh_available I s leaf slots = Some n"
      using answer unfolding hooks_answer_def by blast
    then show ?thesis using b by (simp add: op_target_def leaf_room_def)
  qed
  then show "wave_inv workers batch groups s (start_wave workers groups s p0)"
    by (intro wave_inv_start [OF idle] fits_g)
qed

lemma planned_wave_store:
  assumes plan: "wave_planned I slots False root s ops first pos batch groups" and null: "leaf_room I slots s nullptr = 0"
    and answer: "hooks_answer I slots root s ops" and idle: "pool_idle workers p0"
    and fit: "\<And>q. first \<le> q \<Longrightarrow> q < pos \<Longrightarrow> fst (op_target I root s ops q) \<noteq> nullptr \<Longrightarrow>
      fits s (fst (op_target I root s ops q), ops ! q)"
    and reach: "pool_reach I slots workers batch (start_wave workers groups s p0) p"
  shows "pl_failure p = None"
    and "pl_remaining p = 0 \<Longrightarrow> 0 < workers \<Longrightarrow>
      append_all I slots (map (\<lambda>q. (fst (op_target I root s ops q), ops ! q)) [first ..< pos]) s = Some (pl_store p)"
    and "pl_remaining p = 0 \<Longrightarrow> 0 < workers \<Longrightarrow> pool_idle workers p"
proof -
  let ?tg = "op_target I root s ops" let ?xs = "map (\<lambda>q. (fst (?tg q), ops ! q)) [first ..< pos]"
  note start = planned_wave_inv [OF plan null answer idle fit]
  note gs = planned_groups [OF plan null]
  note inv = wave_inv_reach [OF reach start(1) gs]
  show "pl_failure p = None" using inv unfolding wave_inv_def by (auto dest: pool_schedD(8))
  have ops: "map tk_op batch = ops" and range: "pos \<le> length ops" using plan unfolding wave_planned_def Let_def by blast+
  have op: "tk_op (batch ! q) = ops ! q" if "q < pos" for q using ops range that by (metis length_map less_le_trans nth_map)
  have leaf: "filter (\<lambda>x. fst x = gr_leaf g) ?xs = map (\<lambda>q. (gr_leaf g, tk_op (batch ! q))) (group_chain batch g)"
    if g: "g \<in> set groups" for g
    unfolding planned_chain [OF plan null g] filter_map comp_def fst_conv
    by (rule map_cong [OF refl]) (auto simp: op)
  have cover: "fst x \<in> set (map gr_leaf groups)" if x: "x \<in> set ?xs" for x
  proof -
    obtain q where q: "first \<le> q" "q < pos" "fst x = fst (?tg q)" using x by auto
    have "\<forall>p. first \<le> p \<longrightarrow> p < pos \<longrightarrow> (\<exists>!i. i < length groups \<and> p \<in> set (group_chain batch (groups ! i)))"
      using plan unfolding wave_planned_def Let_def by blast
    then obtain i where i: "i < length groups" "q \<in> set (group_chain batch (groups ! i))" using q by blast
    then have "fst (?tg q) = gr_leaf (groups ! i)" using planned_chain [OF plan null nth_mem [OF i(1)]] by auto
    then show ?thesis using i(1) q(3) by simp
  qed
  show "append_all I slots ?xs s = Some (pl_store p)" "pool_idle workers p" if "pl_remaining p = 0" "0 < workers"
    using wave_inv_done [OF inv gs that start(2) leaf cover] by blast+
qed

end

end
