(* ===== verification/Wave_Tree.thy ===== *)
theory Wave_Tree
  imports Wave_Exec
begin

text \<open>
  A wave of appends on a tree: when the leaves obey the laws of \<open>wave_leaves\<close> and one append is a map update
  that older snapshots do not see, a planned wave executed by the pool, in any interleaving, is the sequence
  of its updates in ticket order. The locale \<open>wave_tree\<close> says what a tree must provide.
\<close>

definition apply_ops :: "(u64 \<Rightarrow> u64 option) \<Rightarrow> fop list \<Rightarrow> u64 \<Rightarrow> u64 option" where
  "apply_ops f ops = foldl (\<lambda>f op. f(fop_key op \<mapsto> fop_value op)) f ops"

definition fop_version :: "fop \<Rightarrow> u32" where
  "fop_version op = ucast (fop_ticket op)"

text \<open>
  \<open>ok hi s T\<close>: the store \<open>s\<close> holds the current tree \<open>T\<close> of newest version \<open>hi\<close>; \<open>old hi u s T\<close>: it holds \<open>T\<close> for readers
  of snapshot \<open>u\<close>. \<open>good\<close> is what the tree needs of the ticket of an operation. \<open>held T\<close> are the keys that have a leaf, \<open>leaf T k\<close> is the leaf that takes key \<open>k\<close>.
\<close>

locale wave_tree = wave_leaves I slots fits
  for I :: "('z, 's, 'r) fat_hooks" and slots :: nat and fits :: "'s \<Rightarrow> leaf_op \<Rightarrow> bool" +
  fixes ok :: "u32 \<Rightarrow> 's \<Rightarrow> 't \<Rightarrow> bool" and old :: "u32 \<Rightarrow> u64 \<Rightarrow> 's \<Rightarrow> 't \<Rightarrow> bool"
    and root :: "'t \<Rightarrow> addr" and held :: "'t \<Rightarrow> u64 set" and leaf :: "'t \<Rightarrow> u64 \<Rightarrow> addr"
    and now :: "'t \<Rightarrow> u64 \<Rightarrow> u64 option" and view :: "u64 \<Rightarrow> 't \<Rightarrow> u64 \<Rightarrow> u64 option"
    and find :: "'s \<Rightarrow> addr \<Rightarrow> u64 \<Rightarrow> u64 \<Rightarrow> u64 option option" and good :: "fop \<Rightarrow> bool"
  assumes target: "ok hi s T \<Longrightarrow> fh_target I s (root T) k = Some (if k \<in> held T then leaf T k else nullptr)"
    and answers: "ok hi s T \<Longrightarrow> \<exists>n. fh_available I s (if k \<in> held T then leaf T k else nullptr) slots = Some n"
    and no_room: "ok hi s T \<Longrightarrow> leaf_room I slots s nullptr = 0"
    and leaf_fits: "ok hi s T \<Longrightarrow> fop_version op \<noteq> 0 \<Longrightarrow> fop_key op \<in> held T \<Longrightarrow> fits s (leaf T (fop_key op), op)"
    and append_now: "ok hi s T \<Longrightarrow> hi < fop_version op \<Longrightarrow> fop_key op \<in> held T \<Longrightarrow> good op \<Longrightarrow>
      leaf_append_op I slots (leaf T (fop_key op), op) s = Some (True, s') \<Longrightarrow>
      \<exists>T'. ok (fop_version op) s' T' \<and> root T' = root T \<and> held T' = held T \<and> leaf T' = leaf T \<and>
        now T' = (now T)(fop_key op \<mapsto> fop_value op)"
    and append_old: "ok hi s T \<Longrightarrow> hi < fop_version op \<Longrightarrow> fop_key op \<in> held T \<Longrightarrow> good op \<Longrightarrow>
      leaf_append_op I slots (leaf T (fop_key op), op) s = Some (True, s') \<Longrightarrow>
      u < ucast (fop_version op) \<Longrightarrow> old hi u s T0 \<Longrightarrow>
      \<exists>T1. old (fop_version op) u s' T1 \<and> root T1 = root T0 \<and> view u T1 = view u T0"
    and find_now: "ok hi s T \<Longrightarrow> ucast hi \<le> u \<Longrightarrow> find s (root T) k u = Some (now T k)"
    and find_old: "old hi u s T \<Longrightarrow> find s (root T) k u = Some (view u T k)"
begin

text \<open>A run of appends in ticket order.\<close>

lemma append_all_now:
  assumes "ok hi s T" "sorted_wrt (<) (hi # map fop_version ops)" "fop_key ` set ops \<subseteq> held T" "\<forall>op \<in> set ops. good op"
    and "append_all I slots (map (\<lambda>op. (leaf T (fop_key op), op)) ops) s = Some s'"
  shows "\<exists>T'. ok (last (hi # map fop_version ops)) s' T' \<and> root T' = root T \<and> now T' = apply_ops (now T) ops"
  using assms
proof (induction ops arbitrary: hi s T)
  case Nil
  then show ?case by (intro exI [of _ T]) (simp add: apply_ops_def)
next
  case (Cons op ops)
  obtain s1 where s1: "leaf_append_op I slots (leaf T (fop_key op), op) s = Some (True, s1)"
    "append_all I slots (map (\<lambda>op. (leaf T (fop_key op), op)) ops) s1 = Some s'"
    using Cons.prems(5) unfolding list.map append_all_Cons by blast
  obtain T1 where T1: "ok (fop_version op) s1 T1" "root T1 = root T" "held T1 = held T" "leaf T1 = leaf T"
    "now T1 = (now T)(fop_key op \<mapsto> fop_value op)"
    using append_now [OF Cons.prems(1) _ _ _ s1(1)] Cons.prems(2-4) by auto
  have "\<exists>T'. ok (last (fop_version op # map fop_version ops)) s' T' \<and> root T' = root T1 \<and> now T' = apply_ops (now T1) ops"
    using Cons.prems(2-4) s1(2) T1(3,4) by (intro Cons.IH [OF T1(1)]) auto
  then show ?case using T1(2,5) by (auto simp: apply_ops_def)
qed

lemma append_all_old:
  assumes "ok hi s T" "sorted_wrt (<) (hi # map fop_version ops)" "fop_key ` set ops \<subseteq> held T" "\<forall>op \<in> set ops. good op"
    and "append_all I slots (map (\<lambda>op. (leaf T (fop_key op), op)) ops) s = Some s'"
    and "\<forall>op \<in> set ops. u < ucast (fop_version op)" "old hi u s T0"
  shows "\<exists>T1. old (last (hi # map fop_version ops)) u s' T1 \<and> root T1 = root T0 \<and> view u T1 = view u T0"
  using assms
proof (induction ops arbitrary: hi s T T0)
  case Nil
  then show ?case by (intro exI [of _ T0]) simp
next
  case (Cons op ops)
  obtain s1 where s1: "leaf_append_op I slots (leaf T (fop_key op), op) s = Some (True, s1)"
    "append_all I slots (map (\<lambda>op. (leaf T (fop_key op), op)) ops) s1 = Some s'"
    using Cons.prems(5) unfolding list.map append_all_Cons by blast
  have op: "hi < fop_version op" "fop_key op \<in> held T" "good op" "u < ucast (fop_version op)" using Cons.prems(2-4,6) by auto
  obtain T1 where T1: "ok (fop_version op) s1 T1" "held T1 = held T" "leaf T1 = leaf T"
    using append_now [OF Cons.prems(1) op(1-3) s1(1)] by blast
  obtain T2 where T2: "old (fop_version op) u s1 T2" "root T2 = root T0" "view u T2 = view u T0"
    using append_old [OF Cons.prems(1) op(1-3) s1(1) op(4) Cons.prems(7)] by blast
  have "\<exists>T3. old (last (fop_version op # map fop_version ops)) u s' T3 \<and> root T3 = root T2 \<and> view u T3 = view u T2"
    using Cons.prems(2-4,6) s1(2) T1(2,3) by (intro Cons.IH [OF T1(1) _ _ _ _ _ T2(1)]) auto
  then show ?case using T2(2,3) by auto
qed

text \<open>The hooks answer; only operations whose key has a leaf are planned.\<close>

lemma hooks_ok: "ok hi s T \<Longrightarrow> hooks_answer I slots (root T) s ops"
  unfolding hooks_answer_def using target answers by blast

lemma op_target_ok:
  "ok hi s T \<Longrightarrow> op_target I (root T) s ops p =
    (if fop_key (ops ! p) \<in> held T then leaf T (fop_key (ops ! p)) else nullptr, fop_key (ops ! p))"
  by (simp add: op_target_def target)

lemma planned_keys:
  assumes ok: "ok hi s T" and plan: "wave_planned I slots False (root T) s ops first pos batch groups"
    and q: "first \<le> q" "q < pos"
  shows "fop_key (ops ! q) \<in> held T"
proof -
  note null = no_room [OF ok]
  have "\<forall>p. first \<le> p \<longrightarrow> p < pos \<longrightarrow> (\<exists>!i. i < length groups \<and> p \<in> set (group_chain batch (groups ! i)))"
    using plan unfolding wave_planned_def Let_def by blast
  then obtain i where i: "i < length groups" "q \<in> set (group_chain batch (groups ! i))" using q by blast
  have gi: "groups ! i \<in> set groups" using i(1) by simp
  have "fst (op_target I (root T) s ops q) = gr_leaf (groups ! i)"
    using i(2) unfolding planned_chain [OF plan null gi] by simp
  then show ?thesis using planned_null [OF plan null gi] op_target_ok [OF ok] by (simp split: if_splits)
qed

lemma wave_correct:
  assumes ok: "ok hi s T" and pos: "first < pos"
    and tickets: "sorted_wrt (<) (hi # map fop_version (drop first ops))" and good: "\<forall>op \<in> set (drop first ops). good op"
    and plan: "wave_planned I slots False (root T) s ops first pos batch groups"
    and pool: "pool_idle workers p0" "0 < workers"
    and reach: "pool_reach I slots workers batch (start_wave workers groups s p0) p"
  shows "pl_failure p = None"
    and "pl_remaining p = 0 \<Longrightarrow> ucast (fop_version (ops ! (pos - 1))) \<le> u \<Longrightarrow>
      find (pl_store p) (root T) k u = Some (apply_ops (now T) (drop first (take pos ops)) k)"
    and "pl_remaining p = 0 \<Longrightarrow> old hi u s T0 \<Longrightarrow> u < ucast (fop_version (ops ! first)) \<Longrightarrow>
      find (pl_store p) (root T0) k u = find s (root T0) k u"
proof -
  let ?now = "drop first (take pos ops)"
  have range: "first \<le> pos" "pos \<le> length ops" using plan unfolding wave_planned_def Let_def by blast+
  have now: "?now = map ((!) ops) [first ..< pos]" using range by (intro nth_equalityI) simp_all
  have now': "drop first ops = ?now @ drop pos ops"
    using range by (metis append_take_drop_id diff_is_0_eq drop0 drop_append length_take min.absorb2)
  have sorted: "sorted_wrt (<) (hi # map fop_version ?now)"
    using tickets unfolding now' by (auto simp: sorted_wrt_append)
  have ver: "hi < fop_version (ops ! q)" if "first \<le> q" "q < pos" for q using sorted that unfolding now by auto
  have keys: "fop_key (ops ! q) \<in> held T" if "first \<le> q" "q < pos" for q by (rule planned_keys [OF ok plan that])
  have fit: "fits s (fst (op_target I (root T) s ops q), ops ! q)"
    if q: "first \<le> q" "q < pos" "fst (op_target I (root T) s ops q) \<noteq> nullptr" for q
  proof -
    have "fop_version (ops ! q) \<noteq> 0" using ver [OF q(1,2)] by auto
    then show ?thesis using leaf_fits [OF ok _ keys [OF q(1,2)]] keys [OF q(1,2)] by (simp add: op_target_ok [OF ok])
  qed
  show "pl_failure p = None"
    by (rule planned_wave_store(1) [OF plan no_room [OF ok] hooks_ok [OF ok] pool(1) _ reach]) (rule fit)
  have run: "append_all I slots (map (\<lambda>op. (leaf T (fop_key op), op)) ?now) s = Some (pl_store p)" if rem: "pl_remaining p = 0"
  proof -
    have "append_all I slots (map (\<lambda>q. (fst (op_target I (root T) s ops q), ops ! q)) [first ..< pos]) s = Some (pl_store p)"
      by (rule planned_wave_store(2) [OF plan no_room [OF ok] hooks_ok [OF ok] pool(1) _ reach rem pool(2)]) (rule fit)
    moreover have "map (\<lambda>q. (fst (op_target I (root T) s ops q), ops ! q)) [first ..< pos] =
        map (\<lambda>op. (leaf T (fop_key op), op)) ?now"
      unfolding now map_map comp_def by (rule map_cong [OF refl]) (auto simp: op_target_ok [OF ok] keys)
    ultimately show ?thesis by simp
  qed
  have sub: "fop_key ` set ?now \<subseteq> held T" unfolding now using keys by auto
  have good': "\<forall>op \<in> set ?now. good op" using good unfolding now' by simp
  have lastv: "last (hi # map fop_version ?now) = fop_version (ops ! (pos - 1))"
    unfolding now using pos by (simp add: last_map)
  show "find (pl_store p) (root T) k u = Some (apply_ops (now T) ?now k)"
    if rem: "pl_remaining p = 0" and u: "ucast (fop_version (ops ! (pos - 1))) \<le> u"
  proof -
    obtain T' where "ok (fop_version (ops ! (pos - 1))) (pl_store p) T'" "root T' = root T" "now T' = apply_ops (now T) ?now"
      using append_all_now [OF ok sorted sub good' run [OF rem]] unfolding lastv by blast
    then show ?thesis using find_now [of _ "pl_store p" T' u k] u by metis
  qed
  show "find (pl_store p) (root T0) k u = find s (root T0) k u"
    if rem: "pl_remaining p = 0" and T0: "old hi u s T0" and u: "u < ucast (fop_version (ops ! first))"
  proof -
    have "u < ucast (fop_version op)" if "op \<in> set ?now" for op
    proof -
      have "op \<in> (!) ops ` {first ..< pos}" using that unfolding now by simp
      then obtain q where q: "first \<le> q" "q < pos" "op = ops ! q" by (auto elim!: imageE)
      have "fop_version (ops ! first) \<le> fop_version (ops ! q)"
      proof (cases "q = first")
        case False
        have "sorted_wrt (<) (map fop_version (drop first ops))" using tickets by simp
        then have "map fop_version (drop first ops) ! 0 < map fop_version (drop first ops) ! (q - first)"
          using False q(1,2) range by (intro sorted_wrt_nth_less [OF \<open>sorted_wrt (<) (map fop_version (drop first ops))\<close>]) simp_all
        then show ?thesis using False q range by simp
      qed simp
      then show ?thesis using u q(3) by (simp add: less_le_trans)
    qed
    then obtain T1 where "old (last (hi # map fop_version ?now)) u (pl_store p) T1" "root T1 = root T0" "view u T1 = view u T0"
      using append_all_old [OF ok sorted sub good' run [OF rem] _ T0] by blast
    then show ?thesis using find_old [of _ u "pl_store p" T1 k] find_old [OF T0, of k] by metis
  qed
qed

end

end
