(* ===== verification/ART_Wave.thy ===== *)
theory ART_Wave
  imports ART_Merge ART_Seqcow Wave_Tree
begin

text \<open>
  The adaptive radix tree under the ordered-wave controller: the hooks of \<^verbatim>\<open>src/adapters/art.hpp\<close>, the laws of
  its leaves as an interpretation of \<open>wave_leaves\<close>, and what a wave of appends leaves behind.
\<close>

section \<open>The hooks\<close>

definition art_concurrent_fat_target :: "art_store \<Rightarrow> addr \<Rightarrow> u64 \<Rightarrow> addr option" where
  "art_concurrent_fat_target s root key = art_leaf_for s root key"

definition fat_used_count :: "fat_value \<Rightarrow> nat" where
  "fat_used_count v =
     length (filter (\<lambda>ver. ver \<noteq> 0) (fv_versions v)) +
     (case fv_extra v of None \<Rightarrow> 0 | Some rs \<Rightarrow> length (filter (\<lambda>r. snd r \<noteq> 0) rs))"

definition art_concurrent_fat_available :: "art_store \<Rightarrow> addr \<Rightarrow> nat \<Rightarrow> nat option" where
  "art_concurrent_fat_available s p slots =
     (if p = nullptr \<or> slots = 0 then Some 0
      else do {
        t \<leftarrow> cells s p;
        Some (if fat_used_count (an_fat t) \<le> slots then slots - fat_used_count (an_fat t) else 0) })"

definition art_concurrent_fat_append ::
    "addr \<Rightarrow> nat \<Rightarrow> u64 \<Rightarrow> u64 \<Rightarrow> u64 \<Rightarrow> art_store \<Rightarrow> (bool \<times> art_store) option" where
  "art_concurrent_fat_append p slots version key val s =
     (if p = nullptr then Some (False, s)
      else do {
        t \<leftarrow> cells s p;
        if an_pfx t \<noteq> key then Some (False, s)
        else (case fat_append slots (ucast version) val (an_fat t) of
                None \<Rightarrow> Some (False, s)
              | Some v \<Rightarrow> do { s1 \<leftarrow> put p (t\<lparr>an_fat := v\<rparr>) s; Some (True, s1) }) })"

definition art_concurrent_fat_cow_begin :: "art_ctx \<Rightarrow> art_store \<Rightarrow> (nat \<times> art_ctx \<times> art_store) option" where
  "art_concurrent_fat_cow_begin c s = do {
     (op, a, c1, s1) \<leftarrow> art_update_cow (c\<lparr>c_key_ofs := 0\<rparr>) s;
     let c2 = c1\<lparr>c_root := a\<rparr>;
     Some (op, c2\<lparr>c_t_cur := c_root c2\<rparr>, s1) }"

text \<open>A radix tree has no checkpoints; \<open>address\<close> is the address the allocator gave a node.\<close>

definition art_fat_hooks :: "(addr \<Rightarrow> u64) \<Rightarrow> (art_ctx_more, art_store, art_change) fat_hooks" where
  "art_fat_hooks address =
     \<lparr>fh_address = address,
      fh_target = art_concurrent_fat_target,
      fh_available = art_concurrent_fat_available,
      fh_append = art_concurrent_fat_append,
      fh_prepare = (\<lambda>p version key val s. Some (art_prepare_fat_leaf p version key val s)),
      fh_merge = (\<lambda>root cs version s.
        map_option (\<lambda>r. case r of
            Inl e \<Rightarrow> Inl BAD_MERGE
          | Inr (a, M) \<Rightarrow>
              Inr (\<lparr>mg_root = a, mg_t_past = nullptr, mg_retired = ms_retired M, mg_rebuilt = False\<rparr>, ms_store M))
          (art_merge_build root cs version s)),
      fh_begin = art_concurrent_fat_cow_begin,
      fh_handlers = art_handlers,
      fh_checkpoint = (\<lambda>c s. Some (c, s)),
      fh_free = art_free_node,
      fh_free_checkpoint = (\<lambda>a s. None),
      fh_node_size = art_node_bytes,
      fh_stats = None\<rparr>"

section \<open>The leaves obey the laws\<close>

definition fat_shape :: "nat \<Rightarrow> fat_value \<Rightarrow> bool" where
  "fat_shape slots v \<longleftrightarrow>
     length (fv_values v) = 2 \<and> length (fv_versions v) = 2 \<and>
     (case fv_extra v of None \<Rightarrow> True | Some rs \<Rightarrow> length rs = slots - 2)"

definition art_op_fits :: "nat \<Rightarrow> art_store \<Rightarrow> leaf_op \<Rightarrow> bool" where
  "art_op_fits slots s x \<longleftrightarrow>
     slots \<in> {2, 4, 8} \<and> (ucast (fop_ticket (snd x)) :: u32) \<noteq> 0 \<and> fst x \<noteq> nullptr \<and>
     (\<exists>t. cells s (fst x) = Some t \<and> an_type t = ALEAF \<and> an_pfx t = fop_key (snd x) \<and> fat_shape slots (an_fat t))"

lemma first_free_Some: "first_free vs = Some i \<Longrightarrow> i < length vs \<and> vs ! i = 0"
  by (induction vs arbitrary: i) (auto split: if_splits)

lemma first_free_None: "first_free vs = None \<Longrightarrow> \<forall>v \<in> set vs. v \<noteq> 0"
  by (induction vs) (auto split: if_splits)

lemma count_write:
  "i < length xs \<Longrightarrow> \<not> P (xs ! i) \<Longrightarrow> P x \<Longrightarrow> length (filter P (xs[i := x])) = Suc (length (filter P xs))"
  by (induction xs arbitrary: i) (auto split: nat.splits simp: nth_Cons)

lemma count_full: "\<forall>v \<in> set vs. P v \<Longrightarrow> length (filter P vs) = length vs"
  by simp

lemma fat_append_room:
  assumes v: "fat_shape slots v" and slots: "slots \<in> {2, 4, 8}" and ver: "ver \<noteq> 0" and used: "fat_used_count v < slots"
  shows "\<exists>v'. fat_append slots ver val v = Some v' \<and> fat_shape slots v' \<and> fat_used_count v' = Suc (fat_used_count v)"
proof (cases "first_free (fv_versions v)")
  case (Some i)
  then have "i < length (fv_versions v)" "\<not> fv_versions v ! i \<noteq> 0" using first_free_Some [OF Some] by simp_all
  from count_write [where P = "\<lambda>ver. ver \<noteq> 0", OF this, of ver] ver
  have "length (filter (\<lambda>ver. ver \<noteq> 0) ((fv_versions v)[i := ver])) = Suc (length (filter (\<lambda>ver. ver \<noteq> 0) (fv_versions v)))"
    by simp
  then show ?thesis using Some v slots ver by (auto simp: fat_append_def fat_shape_def fat_used_count_def)
next
  case None
  have two: "length (filter (\<lambda>ver. ver \<noteq> 0) (fv_versions v)) = 2"
    using count_full [OF first_free_None [OF None]] v by (simp add: fat_shape_def)
  then have ne: "slots \<noteq> 2" using used by (auto simp: fat_used_count_def)
  define rs where "rs = (case fv_extra v of None \<Rightarrow> replicate (slots - 2) (0, 0) | Some rs \<Rightarrow> rs)"
  have len: "length rs = slots - 2" using v by (auto simp: rs_def fat_shape_def split: option.splits)
  have cnt: "fat_used_count v = 2 + length (filter (\<lambda>r. snd r \<noteq> 0) rs)"
    using two by (auto simp: rs_def fat_used_count_def split: option.splits)
  have "\<exists>i. first_free (map snd rs) = Some i"
  proof (rule ccontr)
    assume "\<nexists>i. first_free (map snd rs) = Some i"
    then have "\<forall>v \<in> set (map snd rs). v \<noteq> 0" using first_free_None by blast
    then have "length (filter (\<lambda>r. snd r \<noteq> 0) rs) = length rs" by (intro count_full) auto
    then show False using cnt len used by simp
  qed
  then obtain i where i: "first_free (map snd rs) = Some i" by blast
  then have "i < length rs" "\<not> snd (rs ! i) \<noteq> 0" using first_free_Some [OF i] by auto
  from count_write [where P = "\<lambda>r. snd r \<noteq> 0", OF this, of "(val, ver)"] ver
  have "length (filter (\<lambda>r. snd r \<noteq> 0) (rs[i := (val, ver)])) = Suc (length (filter (\<lambda>r. snd r \<noteq> 0) rs))" by simp
  then show ?thesis using None i ne slots ver v two cnt len
    by (auto simp: fat_append_def fat_shape_def fat_used_count_def Let_def rs_def [symmetric])
qed

lemma art_leaf_op_Some:
  "leaf_append_op (art_fat_hooks address) slots x s = Some (True, s') \<longleftrightarrow>
     fst x \<noteq> nullptr \<and> (\<exists>t v. cells s (fst x) = Some t \<and> an_pfx t = fop_key (snd x) \<and>
       fat_append slots (ucast (fop_ticket (snd x))) (fop_value (snd x)) (an_fat t) = Some v \<and>
       s' = s\<lparr>cells := (cells s)(fst x \<mapsto> t\<lparr>an_fat := v\<rparr>)\<rparr>)"
proof (cases "cells s (fst x)")
  case None
  then show ?thesis by (simp add: leaf_append_op_def art_fat_hooks_def art_concurrent_fat_append_def)
next
  case (Some t)
  then show ?thesis
    by (cases "fat_append slots (ucast (fop_ticket (snd x))) (fop_value (snd x)) (an_fat t)")
      (auto simp: leaf_append_op_def art_fat_hooks_def art_concurrent_fat_append_def put_Some)
qed

lemma fat_append_shape: "fat_append slots ver val v = Some v' \<Longrightarrow> fat_shape slots v \<Longrightarrow> fat_shape slots v'"
  by (auto simp: fat_append_def fat_shape_def Let_def split: option.splits if_splits)

interpretation art_leaves: wave_leaves "art_fat_hooks address" slots "art_op_fits slots" for address slots
proof (unfold_locales, goal_cases)
  case (1 s x n)
  then obtain t where t: "cells s (fst x) = Some t" "an_pfx t = fop_key (snd x)" "fat_shape slots (an_fat t)"
    and a: "fst x \<noteq> nullptr" "slots \<in> {2, 4, 8}" "(ucast (fop_ticket (snd x)) :: u32) \<noteq> 0"
    by (auto simp: art_op_fits_def)
  have "fat_used_count (an_fat t) < slots" "n = slots - Suc (fat_used_count (an_fat t))"
    using 1(2) t(1) a(1,2) by (auto simp: art_fat_hooks_def art_concurrent_fat_available_def split: if_splits)
  moreover obtain v where "fat_append slots (ucast (fop_ticket (snd x))) (fop_value (snd x)) (an_fat t) = Some v"
    "fat_used_count v = Suc (fat_used_count (an_fat t))"
    using fat_append_room [OF t(3) a(2,3) calculation(1)] by blast
  ultimately show ?case using t a unfolding art_leaf_op_Some
    by (intro exI [of _ "s\<lparr>cells := (cells s)(fst x \<mapsto> t\<lparr>an_fat := v\<rparr>)\<rparr>"])
      (auto simp: art_fat_hooks_def art_concurrent_fat_available_def)
next
  case (2 s x s' l)
  then show ?case unfolding art_leaf_op_Some by (auto simp: art_fat_hooks_def art_concurrent_fat_available_def)
next
  case (3 s x s' y)
  then show ?case unfolding art_leaf_op_Some by (auto simp: art_op_fits_def fat_append_shape)
next
  case (4 s x y s1 s2)
  then show ?case unfolding art_leaf_op_Some by (auto simp: fun_upd_twist)
qed

section \<open>Appending in ticket order\<close>

lemma put_leaf_leaf_addr:
  assumes "leaf_append slots ver val t t'" "cells s l = Some t" "art_repr s T"
  shows "art_leaf_addr (art_put_leaf l t' T) k = art_leaf_addr T k"
  using assms(3)
proof (induction T)
  case (ALf a t0)
  then show ?case using assms by (auto simp: leaf_append_def)
qed simp_all

lemma art_append_op:
  assumes wf: "art_wf slots hi s T" and key: "fop_key op \<in> art_keys T" and ver: "hi < fop_version op"
    and run: "leaf_append_op (art_fat_hooks address) slots (art_leaf_addr T (fop_key op), op) s = Some (True, s')"
  shows "\<exists>T'. art_wf slots (fop_version op) s' T' \<and> art_addr T' = art_addr T \<and> art_keys T' = art_keys T \<and>
    (\<forall>k. art_leaf_addr T' k = art_leaf_addr T k) \<and> art_now T' = (art_now T)(fop_key op \<mapsto> fop_value op) \<and>
    art_snapshots_kept slots hi (fop_version op) s s'"
proof -
  have w: "store_ok s" "art_repr s T" "art_inv slots hi T 0" using wf by (simp_all add: art_wf_def)
  let ?l = "art_leaf_addr T (fop_key op)"
  let ?c = "art_zero_ctx\<lparr>c_t_past := art_addr T, c_sno := fop_version op, c_key := fop_key op, c_val := fop_value op,
    c_fat_slots := slots\<rparr>"
  obtain t where t: "cells s ?l = Some t" "an_type t = ALEAF" "an_pfx t = fop_key op" "?l \<in> art_addrs T"
    using art_leaf_addr_ok [OF w(2,3) key] by blast
  obtain v where v: "fat_append slots (fop_version op) (fop_value op) (an_fat t) = Some v"
    "s' = s\<lparr>cells := (cells s)(?l \<mapsto> t\<lparr>an_fat := v\<rparr>)\<rparr>"
    using run t(1) unfolding art_leaf_op_Some by (auto simp: fop_version_def)
  have task: "art_task slots hi T ?c" using ver by (simp add: art_task_def)
  have app: "leaf_append slots (fop_version op) (fop_value op) t (t\<lparr>an_fat := v\<rparr>)" using t(2) v(1) by (simp add: leaf_append_def)
  have "art_post slots hi T ?c s (?c\<lparr>c_root := c_t_past ?c\<rparr>) s' (art_put_leaf ?l (t\<lparr>an_fat := v\<rparr>) T) []"
    unfolding v(2) using t v(1) by (intro art_append_runs [OF wf task]) simp_all
  then show ?thesis
    using leaf_append_keys [OF app t(1) w(2)] put_leaf_leaf_addr [OF app t(1) w(2)]
    by (intro exI [of _ "art_put_leaf ?l (t\<lparr>an_fat := v\<rparr>) T"]) (simp add: art_post_def)
qed

text \<open>Every tree obeys the laws of a wave.\<close>

definition art_current :: "nat \<Rightarrow> u32 \<Rightarrow> art_store \<Rightarrow> art_tree \<Rightarrow> bool" where
  "art_current slots hi s T \<longleftrightarrow> slots \<in> {2, 4, 8} \<and> art_wf slots hi s T"

definition art_old :: "nat \<Rightarrow> u32 \<Rightarrow> u64 \<Rightarrow> art_store \<Rightarrow> art_tree \<Rightarrow> bool" where
  "art_old slots hi u s T \<longleftrightarrow> store_ok s \<and> art_repr s T \<and> art_inv slots hi T 0"

interpretation art_waves: wave_tree "art_fat_hooks address" slots "art_op_fits slots" "art_current slots" "art_old slots"
  art_addr art_keys art_leaf_addr art_now art_map art_find "\<lambda>_. True" for address slots
proof (unfold_locales, goal_cases)
  case (1 hi s T k)
  then show ?case using art_leaf_for_correct [of s T slots hi 0 k]
    by (simp add: art_fat_hooks_def art_concurrent_fat_target_def art_wf_def art_current_def)
next
  case (2 hi s T k)
  then show ?case using art_leaf_addr_ok [of s T slots hi 0 k]
    by (auto simp: art_fat_hooks_def art_concurrent_fat_available_def art_wf_def art_current_def)
next
  case (3 hi s T)
  then show ?case by (simp add: leaf_room_def art_fat_hooks_def art_concurrent_fat_available_def)
next
  case (4 hi s T op)
  have w: "art_repr s T" "art_inv slots hi T 0" "slots \<in> {2, 4, 8}" using 4(1) by (simp_all add: art_wf_def art_current_def)
  obtain t where t: "cells s (art_leaf_addr T (fop_key op)) = Some t" "an_type t = ALEAF" "an_pfx t = fop_key op"
    "fat_ok slots hi (an_fat t)" "art_leaf_addr T (fop_key op) \<in> art_addrs T"
    using art_leaf_addr_ok [OF w(1,2) 4(3)] by blast
  have "fat_shape slots (an_fat t)" using t(4) by (auto simp: fat_ok_def fat_shape_def split: option.splits)
  moreover have "art_leaf_addr T (fop_key op) \<noteq> nullptr" using 4(1) store_ok_not_null [of s "art_leaf_addr T (fop_key op)"] t(1)
    by (auto simp: art_current_def art_wf_def)
  ultimately show ?case using t w(3) 4(2) by (auto simp: art_op_fits_def fop_version_def)
next
  case (5 hi s T op s')
  then show ?case using art_append_op [of slots hi s T op address s'] unfolding art_current_def by blast
next
  case (6 hi s T op s' u T0)
  then obtain T' where T': "art_wf slots (fop_version op) s' T'" "art_snapshots_kept slots hi (fop_version op) s s'"
    using art_append_op [of slots hi s T op address s'] unfolding art_current_def by blast
  then show ?case using 6(6,7) unfolding art_old_def art_snapshots_kept_def art_wf_def by (metis order_refl)
next
  case (7 hi s T u k)
  then have w: "store_ok s" "art_repr s T" "art_inv slots hi T 0" by (simp_all add: art_wf_def art_current_def)
  have "art_map u T = art_now T" unfolding art_now_def
    by (rule art_map_stable [OF w(3) 7(2)]) (simp add: UINT64_MAX_def)
  then show ?case using art_find_correct [OF w, of k u] by simp
next
  case (8 hi u s T k)
  then have w: "store_ok s" "art_repr s T" "art_inv slots hi T 0" by (simp_all add: art_old_def)
  show ?case by (rule art_find_correct [OF w]) simp
qed

section \<open>A wave\<close>

text \<open>
  C26: a wave of appends on a radix tree. Whatever the interleaving of the worker pool on the planned groups,
  no worker finds its reserved room gone; and when all are done, every lookup from the last ticket of the
  wave on sees the updates of the wave applied in ticket order, and every tree of an earlier version reads
  as before.
\<close>

theorem art_wave_correct:
  fixes batch :: "wtask list" and address :: "addr \<Rightarrow> u64"
  defines "ops \<equiv> map tk_op batch"
  assumes wf: "art_wf slots hi s T" and slots: "slots \<in> {2, 4, 8}"
    and size: "m < 64" "length batch - first \<le> 2 ^ m" "first < pos"
    and tickets: "sorted_wrt (<) (hi # map fop_version (drop first ops))"
    and plan: "plan_wave (art_fat_hooks address) slots False (art_addr T) s (2 ^ m) first batch = Some (pos, batch', groups, table)"
    and pool: "pool_idle workers p0" "0 < workers"
    and reach: "pool_reach (art_fat_hooks address) slots workers batch' (start_wave workers groups s p0) p"
  shows "pl_failure p = None \<and>
    (pl_remaining p = 0 \<longrightarrow>
      (\<forall>k u. ucast (fop_version (ops ! (pos - 1))) \<le> u \<longrightarrow>
        art_find (pl_store p) (art_addr T) k u = Some (apply_ops (art_now T) (drop first (take pos ops)) k)) \<and>
      (\<forall>T0 k u. art_repr s T0 \<longrightarrow> art_inv slots hi T0 0 \<longrightarrow> u < ucast (fop_version (ops ! first)) \<longrightarrow>
        art_find (pl_store p) (art_addr T0) k u = art_find s (art_addr T0) k u))"
proof -
  have cur: "art_current slots hi s T" using wf slots by (simp add: art_current_def)
  have firstle: "first \<le> length batch"
    using plan size(3) unfolding plan_wave_def by (cases "first \<le> length batch") auto
  have planned: "wave_planned (art_fat_hooks address) slots False (art_addr T) s ops first pos batch' groups"
    using plan_wave_total [OF size(1,2) firstle art_waves.hooks_ok [OF cur], of address False] plan unfolding ops_def by auto
  have good: "\<forall>op \<in> set (drop first ops). True" by simp
  note w = art_waves.wave_correct [OF cur size(3) tickets good planned pool reach]
  have old: "art_old slots hi u s T0" if "art_repr s T0" "art_inv slots hi T0 0" for T0 u
    using that wf by (simp add: art_old_def art_wf_def)
  show ?thesis using w old by blast
qed

text \<open>Two updates of one key, executed by one worker.\<close>

definition wave_ex_batch :: "wtask list" where
  "wave_ex_batch =
     [\<lparr>tk_op = \<lparr>fop_ticket = 1, fop_key = 5, fop_value = 51\<rparr>, tk_next = None\<rparr>,
      \<lparr>tk_op = \<lparr>fop_ticket = 2, fop_key = 5, fop_value = 52\<rparr>, tk_next = None\<rparr>]"

definition wave_ex_linked :: "wtask list" where
  "wave_ex_linked = wave_ex_batch[0 := (wave_ex_batch ! 0)\<lparr>tk_next := Some 1\<rparr>]"

definition wave_ex_groups :: "art_change wgroup list" where
  "wave_ex_groups = [\<lparr>gr_leaf = 1, gr_first = 0, gr_last = 1, gr_count = 2, gr_materialize = False, gr_replacement = None\<rparr>]"

definition wave_ex_pool :: "(art_store, art_change) pool" where
  "wave_ex_pool = \<lparr>pl_store = art_ex_store, pl_groups = [], pl_generation = 0, pl_remaining = 0, pl_next = 0,
     pl_seen = (\<lambda>_. 0), pl_phase = (\<lambda>_. WK_WAIT), pl_failure = None\<rparr>"

lemma wave_ex_target: "art_leaf_for art_ex_store 1 5 = Some 1"
  using art_leaf_for_correct [of art_ex_store "ALf 1 art_ex_leaf" 2 0 0 5] art_ex_wf
  by (simp add: art_wf_def art_ex_leaf_def art_new_leaf_def art_new_node_def)

lemma wave_ex_hooks:
  "fh_target (art_fat_hooks of_nat) art_ex_store 1 5 = Some 1" "fh_available (art_fat_hooks of_nat) art_ex_store 1 2 = Some 2"
  "fh_address (art_fat_hooks of_nat) = of_nat" "wave_hash of_nat 1 5 4 = 0"
  using wave_ex_target
  by (simp_all add: art_fat_hooks_def art_concurrent_fat_target_def art_concurrent_fat_available_def fat_used_count_def
      art_ex_store_def art_ex_leaf_def art_new_leaf_def art_new_node_def empty_fat_def wave_hash_def drop_bit_eq_div)

lemma wave_ex_plan:
  "\<exists>table. plan_wave (art_fat_hooks of_nat) 2 False 1 art_ex_store (2 ^ 2) 0 wave_ex_batch =
     Some (2, wave_ex_linked, wave_ex_groups, table)"
proof -
  have table: "replicate (2 ^ 2) empty_bucket = [empty_bucket, empty_bucket, empty_bucket, empty_bucket]"
    by (simp add: eval_nat_numeral)
  have len: "length wave_ex_batch - 0 = Suc (Suc 0)" by (simp add: wave_ex_batch_def)
  let ?b = "\<lparr>bk_leaf = 1, bk_group = 0, bk_key = 5, bk_occupied = True\<rparr>"
  let ?e = "empty_bucket" let ?g = "(wave_ex_groups ! 0)\<lparr>gr_last := 0, gr_count := 1\<rparr>"
  have p1: "plan_step (art_fat_hooks of_nat) 2 False 1 art_ex_store 0 (wave_ex_batch, [], [?e, ?e, ?e, ?e]) =
      Some (Some (wave_ex_batch, [?g], [?b, ?e, ?e, ?e]))"
    using wave_ex_hooks
    by (simp add: plan_step_def wave_ex_batch_def wave_ex_groups_def empty_bucket_def Let_def numeral_eq_Suc)
  have p2: "plan_step (art_fat_hooks of_nat) 2 False 1 art_ex_store (Suc 0) (wave_ex_batch, [?g], [?b, ?e, ?e, ?e]) =
      Some (Some (wave_ex_linked, wave_ex_groups, [?b, ?e, ?e, ?e]))"
    using wave_ex_hooks
    by (simp add: plan_step_def wave_ex_batch_def wave_ex_linked_def wave_ex_groups_def bk_other_def Let_def numeral_eq_Suc)
  show ?thesis unfolding plan_wave_def table len plan_loop.simps p1 option.case p2 by (simp add: numeral_2_eq_2)
qed

theorem art_wave_correct_witness:
  "\<exists>p. pool_run (art_fat_hooks of_nat) 2 1 wave_ex_linked [Wake 0, Claim 0, Exec 0, Exec 0, Exec 0, Claim 0, Leave 0]
      (start_wave 1 wave_ex_groups art_ex_store wave_ex_pool) = Some p \<and> pl_remaining p = 0 \<and>
    art_find (pl_store p) 1 5 2 = Some (Some 52) \<and> art_find (pl_store p) 1 5 0 = Some (Some 50)"
proof -
  let ?start = "start_wave 1 wave_ex_groups art_ex_store wave_ex_pool"
  obtain p where run: "pool_run (art_fat_hooks of_nat) 2 1 wave_ex_linked
      [Wake 0, Claim 0, Exec 0, Exec 0, Exec 0, Claim 0, Leave 0] ?start = Some p" "pl_remaining p = 0"
    by (simp add: start_wave_def wave_ex_pool_def wave_ex_groups_def wave_ex_linked_def wave_ex_batch_def group_step_def
        art_fat_hooks_def art_concurrent_fat_append_def art_ex_store_def art_ex_leaf_def art_new_leaf_def art_new_node_def
        empty_fat_def fat_append_def put_Some Let_def)
  have reach: "pool_reach (art_fat_hooks of_nat) 2 1 wave_ex_linked ?start p"
    by (rule pool_run_reach [OF pool_reach.start run(1)])
  obtain table where plan: "plan_wave (art_fat_hooks of_nat) 2 False (art_addr (ALf 1 art_ex_leaf)) art_ex_store (2 ^ 2) 0 wave_ex_batch =
      Some (2, wave_ex_linked, wave_ex_groups, table)"
    using wave_ex_plan by auto
  have t: "sorted_wrt (<) (0 # map fop_version (drop 0 (map tk_op wave_ex_batch)))" "fop_version (map tk_op wave_ex_batch ! (2 - 1)) = 2"
    "fop_version (map tk_op wave_ex_batch ! 0) = 1" "drop 0 (take 2 (map tk_op wave_ex_batch)) = map tk_op wave_ex_batch"
    by (simp_all add: wave_ex_batch_def fop_version_def)
  have idle: "pool_idle 1 wave_ex_pool" by (simp add: pool_idle_def wave_ex_pool_def)
  have len: "(2 :: nat) < 64" "length wave_ex_batch - 0 \<le> 2 ^ 2" by (simp_all add: wave_ex_batch_def)
  have o: "art_repr art_ex_store (ALf 1 art_ex_leaf)" "art_inv 2 0 (ALf 1 art_ex_leaf) 0" "store_ok art_ex_store"
    using art_ex_wf by (simp_all add: art_wf_def)
  note w = art_wave_correct [OF art_ex_wf _ len _ t(1) plan idle _ reach]
  have "art_find (pl_store p) (art_addr (ALf 1 art_ex_leaf)) 5 2 =
      Some (apply_ops (art_now (ALf 1 art_ex_leaf)) (map tk_op wave_ex_batch) 5)"
    using w run(2) t(2,4) by simp
  moreover have "apply_ops f (map tk_op wave_ex_batch) 5 = Some 52" for f by (simp add: apply_ops_def wave_ex_batch_def)
  moreover have "art_find (pl_store p) (art_addr (ALf 1 art_ex_leaf)) 5 0 = art_find art_ex_store (art_addr (ALf 1 art_ex_leaf)) 5 0"
    using w run(2) t(3) o(1,2) by (simp del: art_inv.simps art_repr.simps art_addr.simps)
  moreover have "art_find art_ex_store (art_addr (ALf 1 art_ex_leaf)) 5 0 = Some (art_map 0 (ALf 1 art_ex_leaf) 5)"
    by (rule art_find_correct [OF o(3,1,2)]) simp
  ultimately show ?thesis using run unfolding art_ex_map by (intro exI [of _ p]) simp
qed

text \<open>The plan of this wave is also an instance of the general theorem on planning.\<close>

theorem plan_wave_correct_witness:
  "\<exists>pos batch' groups table.
    plan_wave (art_fat_hooks of_nat) 2 False 1 art_ex_store (2 ^ 2) 0 wave_ex_batch = Some (pos, batch', groups, table) \<and>
    wave_planned (art_fat_hooks of_nat) 2 False 1 art_ex_store (map tk_op wave_ex_batch) 0 pos batch' groups \<and> groups \<noteq> []"
proof -
  have a: "hooks_answer (art_fat_hooks of_nat) 2 1 art_ex_store (map tk_op wave_ex_batch)"
    using art_waves.hooks_ok [of 2 0 art_ex_store "ALf 1 art_ex_leaf" of_nat] art_ex_wf by (simp add: art_current_def)
  have "(2 :: nat) < 64" "length wave_ex_batch - 0 \<le> 2 ^ 2" "0 \<le> length wave_ex_batch" by (simp_all add: wave_ex_batch_def)
  from plan_wave_correct [OF this a, of False] wave_ex_plan show ?thesis by (auto simp: wave_ex_groups_def)
qed

end
