(* ===== verification/Wave_Tickets.thy ===== *)
theory Wave_Tickets
  imports Wave_Control ART_Wave
begin

text \<open>
  Tickets of the ordered-wave controller, for every tree: the ring of operations is never overwritten before
  the coordinator has read it, tickets are consecutive and fit 32 bits, and a batch is the next piece of the
  log of accepted updates.
\<close>

section \<open>The invariant\<close>

abbreviation cf_sub :: "('s, 'r) concow_fat \<Rightarrow> nat" where "cf_sub w \<equiv> unat (cf_submitted w)"
abbreviation cf_com :: "('s, 'r) concow_fat \<Rightarrow> nat" where "cf_com w \<equiv> unat (cf_committed w)"
abbreviation cf_cap :: "('s, 'r) concow_fat \<Rightarrow> nat" where "cf_cap w \<equiv> length (cf_queue w)"

text \<open>The operation of ticket \<open>Suc t\<close>.\<close>

definition log_op :: "(u64 \<times> u64) list \<Rightarrow> nat \<Rightarrow> fop" where
  "log_op log t = \<lparr>fop_ticket = of_nat (Suc t), fop_key = fst (log ! t), fop_value = snd (log ! t)\<rparr>"

text \<open>The tickets below the batch.\<close>

definition cf_base :: "('s, 'r) concow_fat \<Rightarrow> nat" where
  "cf_base w = unat (cf_next w) - 1"

definition batch_range :: "('s, 'r) concow_fat \<Rightarrow> bool" where
  "batch_range w \<longleftrightarrow>
     cf_batch w \<noteq> [] \<and> cf_base w + length (cf_batch w) \<le> cf_sub w \<and>
     map tk_op (cf_batch w) = map (log_op (cf_log w)) [cf_base w..<cf_base w + length (cf_batch w)]"

text \<open>What the control point says of the counters.\<close>

definition coord_ok :: "('s, 'r) concow_fat \<Rightarrow> bool" where
  "coord_ok w \<longleftrightarrow>
     (let n = length (cf_batch w); f = cf_first w in
      case cf_phase w of
        CO_WAIT \<Rightarrow> cf_com w = cf_base w
      | CO_BATCH \<Rightarrow> batch_range w \<and> f \<le> n \<and> cf_com w = cf_base w + f
      | CO_COW \<Rightarrow> batch_range w \<and> f < n \<and> cf_com w = cf_base w + f
      | CO_RUN pos \<Rightarrow> batch_range w \<and> f < pos \<and> pos \<le> n \<and> cf_com w = cf_base w + f
      | CO_MERGE parallel pos \<Rightarrow> batch_range w \<and> f < pos \<and> pos \<le> n \<and> cf_com w = cf_base w + f
      | CO_PUBLISH t k \<Rightarrow> batch_range w \<and> f < k \<and> k \<le> n \<and> cf_com w = cf_base w + f \<and> t = of_nat (cf_base w + k)
      | CO_COMMIT t k \<Rightarrow> batch_range w \<and> f < k \<and> k \<le> n \<and> cf_com w = cf_base w + f \<and> t = of_nat (cf_base w + k)
      | CO_RECLAIM t k \<Rightarrow> batch_range w \<and> f < k \<and> k \<le> n \<and> cf_com w = cf_base w + k \<and> t = of_nat (cf_base w + k)
      | CO_STOPPED \<Rightarrow> True)"

definition queue_ok :: "('s, 'r) concow_fat \<Rightarrow> bool" where
  "queue_ok w \<longleftrightarrow>
     cf_cap w \<noteq> 0 \<and> wo_batch_size (cf_opts w) \<le> cf_cap w \<and> wo_batch_size (cf_opts w) \<noteq> 0 \<and>
     cf_cap w < 2 ^ 32 \<and>
     cf_sub w = length (cf_log w) \<and> cf_sub w < 2 ^ 32 \<and> cf_com w \<le> cf_sub w \<and> cf_sub w \<le> cf_com w + cf_cap w \<and>
     0 < unat (cf_next w) \<and> cf_base w \<le> cf_sub w \<and>
     (\<forall>t. cf_com w \<le> t \<longrightarrow> t < cf_sub w \<longrightarrow> cf_queue w ! (Suc t mod cf_cap w) = log_op (cf_log w) t)"

definition cf_wf :: "('s, 'r) concow_fat \<Rightarrow> bool" where
  "cf_wf w \<longleftrightarrow> queue_ok w \<and> coord_ok w"

section \<open>Planning keeps the operations\<close>

lemma plan_step_ops:
  assumes "plan_step I slots mat root s pos (batch, groups, table) = Some (Some (batch', groups', table'))"
  shows "map tk_op batch' = map tk_op batch \<and> length table' = length table"
proof -
  have keep: "tk_op x = tk_op (xs ! i) \<Longrightarrow> map tk_op (xs[i := x]) = map tk_op xs" for xs i and x :: wtask
    by (cases "i < length xs") (simp_all add: map_update list_update_same_conv list_update_beyond)
  show ?thesis
    using assms unfolding plan_step_def prod.case
    by (auto simp: bind_Some_iff Let_def nth_opt_eq_Some nth_list_update keep split: if_splits)
qed

lemma plan_loop_ops:
  "plan_loop I slots mat root s n pos (batch, groups, table) = Some (pos', batch', groups', table') \<Longrightarrow>
    map tk_op batch' = map tk_op batch \<and> pos \<le> pos' \<and> pos' \<le> pos + n \<and> length table' = length table"
proof (induction n arbitrary: pos batch groups table)
  case (Suc n)
  show ?case
  proof (cases "plan_step I slots mat root s pos (batch, groups, table)")
    case (Some r)
    show ?thesis
    proof (cases r)
      case None
      then show ?thesis using Suc.prems Some by simp
    next
      case (Some pl)
      obtain b g t where pl: "pl = (b, g, t)" by (cases pl)
      then have st: "plan_step I slots mat root s pos (batch, groups, table) = Some (Some (b, g, t))"
        using Some \<open>plan_step I slots mat root s pos (batch, groups, table) = Some r\<close> by simp
      then have "plan_loop I slots mat root s n (Suc pos) (b, g, t) = Some (pos', batch', groups', table')"
        using Suc.prems by simp
      from Suc.IH [OF this] plan_step_ops [OF st] show ?thesis by auto
    qed
  qed (use Suc.prems in simp)
qed simp

lemma plan_wave_ops:
  assumes "plan_wave I slots mat root s tsize first batch = Some (pos, batch', groups, table)" "first \<le> length batch"
  shows "map tk_op batch' = map tk_op batch" "first \<le> pos" "pos \<le> length batch" "length table = tsize"
  using plan_loop_ops [OF assms(1) [unfolded plan_wave_def]] assms(2) by simp_all

section \<open>Every action keeps the invariant\<close>

lemma unat_less_iff: "x < (y :: u64) \<longleftrightarrow> unat x < unat y"
  by (simp add: word_less_nat_alt)

lemma unat_diff_le: "y \<le> (x :: u64) \<Longrightarrow> unat (x - y) = unat x - unat y"
  by (simp add: unat_sub)

lemma unat_of_nat_small: "n < 2 ^ 64 \<Longrightarrow> unat (of_nat n :: u64) = n"
  by (simp add: unat_of_nat)

lemma ring_cells_differ: "t < u \<Longrightarrow> u < t + cap \<Longrightarrow> Suc t mod cap \<noteq> Suc u mod (cap :: nat)"
proof
  assume a: "t < u" "u < t + cap" "Suc t mod cap = Suc u mod cap"
  then have "cap dvd Suc u - Suc t" by (metis mod_eq_dvd_iff_nat less_imp_le_nat Suc_le_mono)
  then have "cap \<le> Suc u - Suc t" using a(1) by (intro dvd_imp_le) simp_all
  then show False using a(1,2) by linarith
qed

lemma log_op_append: "t < length log \<Longrightarrow> log_op (log @ es) t = log_op log t"
  by (simp add: log_op_def nth_append)

lemma batch_op:
  assumes "batch_range w" "i < length (cf_batch w)"
  shows "tk_op (cf_batch w ! i) = log_op (cf_log w) (cf_base w + i)"
proof -
  have "map tk_op (cf_batch w) ! i = map (log_op (cf_log w)) [cf_base w..<cf_base w + length (cf_batch w)] ! i"
    using assms(1) unfolding batch_range_def by simp
  then show ?thesis using assms(2) by simp
qed

lemma cf_wf_update:
  assumes wf: "cf_wf w" and run: "cf_update key val w = Some (Inr (t, w'))"
  shows "cf_wf w'" and "t = of_nat (Suc (length (cf_log w)))" and "Suc (length (cf_log w)) < 2 ^ 32"
    and "cf_log w' = cf_log w @ [(key, val)]"
proof -
  let ?op = "\<lparr>fop_ticket = cf_submitted w + 1, fop_key = key, fop_value = val\<rparr>"
  have free: "cf_submitted w - cf_committed w < of_nat (cf_cap w)" "cf_submitted w \<noteq> 4294967295" "t = cf_submitted w + 1"
    and w': "w' = w\<lparr>cf_submitted := cf_submitted w + 1,
      cf_queue := (cf_queue w)[unat (cf_submitted w + 1) mod cf_cap w := ?op], cf_log := cf_log w @ [(key, val)]\<rparr>"
    using run by (auto simp: cf_update_def update_blocks_def Let_def split: if_splits option.splits)
  have q: "cf_cap w \<noteq> 0" "cf_cap w < 2 ^ 32" "cf_sub w = length (cf_log w)" "cf_sub w < 2 ^ 32" "cf_com w \<le> cf_sub w"
    "0 < unat (cf_next w)" "cf_base w \<le> cf_sub w"
    and cells: "\<And>t. cf_com w \<le> t \<Longrightarrow> t < cf_sub w \<Longrightarrow> cf_queue w ! (Suc t mod cf_cap w) = log_op (cf_log w) t"
    using wf by (simp_all add: cf_wf_def queue_ok_def)
  have "unat (cf_submitted w) \<noteq> 4294967295" using free(2) by (auto simp: word_unat_eq_iff)
  then have small: "Suc (cf_sub w) < 2 ^ 32" using q(4) by simp
  have sub: "unat (cf_submitted w + 1) = Suc (cf_sub w)" using q(4) by (simp add: unat_word_ariths)
  have room: "cf_sub w < cf_com w + cf_cap w"
    using free(1) q(2,5) by (simp add: unat_less_iff unat_diff_le word_le_nat_alt unat_of_nat_small)
  show "cf_log w' = cf_log w @ [(key, val)]" by (simp add: w')
  have tkt: "cf_submitted w + 1 = of_nat (Suc (cf_sub w))" by (simp add: add.commute)
  then show "t = of_nat (Suc (length (cf_log w)))" using free(3) q(3) by simp
  show "Suc (length (cf_log w)) < 2 ^ 32" using small q(3) by simp
  have new: "?op = log_op (cf_log w') (cf_sub w)"
    using q(3) tkt by (simp add: w' log_op_def nth_append)
  have "cf_queue w' ! (Suc t mod cf_cap w') = log_op (cf_log w') t" if t: "cf_com w' \<le> t" "t < cf_sub w'" for t
  proof (cases "t = cf_sub w")
    case True
    then show ?thesis using new q(1) by (simp add: w' sub)
  next
    case False
    then have lt: "cf_com w \<le> t" "t < cf_sub w" using t by (simp_all add: w' sub)
    have "Suc t mod cf_cap w \<noteq> Suc (cf_sub w) mod cf_cap w" using lt room by (intro ring_cells_differ) simp_all
    then show ?thesis using cells [OF lt] lt(2) q(3) by (simp add: w' sub log_op_append)
  qed
  then have "queue_ok w'"
    using wf small sub room q unfolding cf_wf_def queue_ok_def by (simp add: w' cf_base_def)
  moreover have range: "batch_range w \<Longrightarrow> batch_range w'"
  proof -
    assume b: "batch_range w"
    have "map (log_op (cf_log w @ [(key, val)])) [cf_base w..<cf_base w + length (cf_batch w)] =
        map (log_op (cf_log w)) [cf_base w..<cf_base w + length (cf_batch w)]"
      using b q(3) unfolding batch_range_def by (intro map_cong [OF refl] log_op_append) auto
    then show "batch_range w'" using b sub unfolding batch_range_def by (simp add: w' cf_base_def)
  qed
  have "coord_ok w'"
    using wf range unfolding cf_wf_def coord_ok_def Let_def by (auto simp: w' cf_base_def split: coord_phase.splits)
  ultimately show "cf_wf w'" by (simp add: cf_wf_def)
qed

lemma those_map_Some: "those (map Some xs) = Some xs"
  by (induction xs) simp_all

lemma map_shift: "map (\<lambda>i. f (a + i)) [0..<n] = map f [a..<a + n]"
  by (rule nth_equalityI) simp_all

text \<open>Changes outside the queue and the counters.\<close>

lemma cf_wf_frame:
  assumes wf: "cf_wf w"
    and same: "cf_queue w' = cf_queue w" "cf_opts w' = cf_opts w" "cf_submitted w' = cf_submitted w" "cf_log w' = cf_log w"
      "cf_committed w' = cf_committed w" "cf_next w' = cf_next w"
    and co: "coord_ok w'"
  shows "cf_wf w'"
  using wf co unfolding cf_wf_def queue_ok_def cf_base_def same by simp

lemma batch_range_frame:
  "batch_range w \<Longrightarrow> map tk_op (cf_batch w') = map tk_op (cf_batch w) \<Longrightarrow> cf_submitted w' = cf_submitted w \<Longrightarrow>
    cf_log w' = cf_log w \<Longrightarrow> cf_next w' = cf_next w \<Longrightarrow> batch_range w'"
  unfolding batch_range_def cf_base_def by (metis length_map map_is_Nil_conv)

lemma coord_ok_frame:
  assumes "coord_ok w" "map tk_op (cf_batch w') = map tk_op (cf_batch w)" "cf_submitted w' = cf_submitted w" "cf_log w' = cf_log w"
    "cf_next w' = cf_next w" "cf_committed w' = cf_committed w" "cf_first w' = cf_first w" "cf_phase w' = cf_phase w"
  shows "coord_ok w'"
proof -
  have len: "length (cf_batch w') = length (cf_batch w)" using assms(2) by (metis length_map)
  have base: "cf_base w' = cf_base w" using assms(5) by (simp add: cf_base_def)
  have "batch_range w \<Longrightarrow> batch_range w'" by (rule batch_range_frame) (use assms in auto)
  then show ?thesis
    using assms(1) unfolding coord_ok_def Let_def len base assms(6-8) by (cases "cf_phase w") auto
qed

lemma cf_do_gc_frame:
  "cf_do_gc a w = Some w' \<Longrightarrow> \<exists>G. gc_do a (cf_gc w) = Some G \<and> w' = w\<lparr>cf_gc := G\<rparr>"
  by (auto simp: cf_do_gc_def)

lemma cf_wf_gc: "cf_wf w \<Longrightarrow> cf_do_gc a w = Some w' \<Longrightarrow> cf_wf w'"
  by (drule cf_do_gc_frame, erule exE, rule cf_wf_frame) (auto simp: cf_wf_def intro: coord_ok_frame)

lemma coord_ok_stopped: "cf_phase w = CO_STOPPED \<Longrightarrow> coord_ok w"
  by (simp add: coord_ok_def)

lemma cf_wf_take:
  assumes wf: "cf_wf w" and ph: "cf_phase w = CO_WAIT" and run: "coord_take w = Some w'"
  shows "cf_wf w'"
proof (cases "cf_submitted w < cf_next w")
  case True
  then have "w' = w\<lparr>cf_phase := CO_STOPPED\<rparr>" using run by (auto simp: coord_take_def split: if_splits)
  then show ?thesis by (intro cf_wf_frame [OF wf]) (simp_all add: coord_ok_stopped)
next
  case False
  let ?b = "wo_batch_size (cf_opts w)" let ?n = "unat (min (of_nat ?b) (cf_submitted w - cf_next w + 1))"
  have q: "cf_cap w \<noteq> 0" "?b \<le> cf_cap w" "?b \<noteq> 0" "cf_cap w < 2 ^ 32" "cf_sub w < 2 ^ 32" "0 < unat (cf_next w)"
    and cells: "\<And>t. cf_com w \<le> t \<Longrightarrow> t < cf_sub w \<Longrightarrow> cf_queue w ! (Suc t mod cf_cap w) = log_op (cf_log w) t"
    using wf by (simp_all add: cf_wf_def queue_ok_def)
  have base: "cf_com w = cf_base w" using wf ph by (simp add: cf_wf_def coord_ok_def Let_def)
  have nxt: "unat (cf_next w) = Suc (cf_base w)" using q(6) by (simp add: cf_base_def)
  have le: "cf_next w \<le> cf_submitted w" using False by simp
  have d: "unat (cf_submitted w - cf_next w + 1) = cf_sub w - cf_base w"
  proof -
    have "unat (cf_submitted w - cf_next w) = cf_sub w - Suc (cf_base w)" using unat_diff_le [OF le] nxt by simp
    moreover have "Suc (cf_base w) \<le> cf_sub w" using le nxt by (simp add: word_le_nat_alt)
    ultimately show ?thesis using q(5) by (simp add: unat_word_ariths)
  qed
  have n: "?n = min ?b (cf_sub w - cf_base w)"
    unfolding min_def using d q(2,4) by (simp add: word_le_nat_alt unat_of_nat_small)
  have lt: "cf_base w < cf_sub w" using le nxt by (simp add: word_le_nat_alt)
  have idx: "unat (cf_next w + of_nat i) = Suc (cf_base w + i)" if "i < ?n" for i
  proof -
    have "i < cf_sub w" using that n by linarith
    then have "i < 2 ^ 32" using q(5) by linarith
    then have "unat (of_nat i :: u64) = i" by (simp add: unat_of_nat_small)
    then show ?thesis using nxt \<open>i < 2 ^ 32\<close> lt q(5) by (simp add: unat_word_ariths)
  qed
  have "map (\<lambda>i. nth_opt (cf_queue w) (unat (cf_next w + of_nat i) mod cf_cap w)) [0..<?n] =
      map Some (map (\<lambda>i. log_op (cf_log w) (cf_base w + i)) [0..<?n])"
  proof -
    have "nth_opt (cf_queue w) (unat (cf_next w + of_nat i) mod cf_cap w) = Some (log_op (cf_log w) (cf_base w + i))"
      if "i < ?n" for i
    proof -
      have "i < cf_sub w - cf_base w" using that n by linarith
      then have "cf_base w + i < cf_sub w" by linarith
      then show ?thesis using idx [OF that] q(1) cells [of "cf_base w + i"] base by simp
    qed
    then show ?thesis by simp
  qed
  then have those: "those (map (\<lambda>i. nth_opt (cf_queue w) (unat (cf_next w + of_nat i) mod cf_cap w)) [0..<?n]) =
      Some (map (\<lambda>i. log_op (cf_log w) (cf_base w + i)) [0..<?n])" by (simp only: those_map_Some)
  let ?batch = "map (\<lambda>op. \<lparr>tk_op = op, tk_next = None\<rparr>) (map (\<lambda>i. log_op (cf_log w) (cf_base w + i)) [0..<?n])"
  have w': "w' = w\<lparr>cf_batch := ?batch, cf_first := 0, cf_phase := CO_BATCH\<rparr>"
    using run False le those by (simp add: coord_take_def Let_def)
  have "map tk_op ?batch = map (log_op (cf_log w)) [cf_base w..<cf_base w + ?n]"
    by (simp add: comp_def map_shift)
  then have "batch_range w'"
    using n lt q(3) unfolding batch_range_def by (auto simp: w' cf_base_def)
  then have "coord_ok w'" using base by (simp add: coord_ok_def w' cf_base_def)
  then show ?thesis by (intro cf_wf_frame [OF wf]) (simp_all add: w')
qed

lemma cf_wf_plan:
  assumes wf: "cf_wf w" and ph: "cf_phase w = CO_BATCH" and run: "coord_plan I w = Some w'"
  shows "cf_wf w'"
proof -
  have co: "batch_range w" "cf_first w \<le> length (cf_batch w)" "cf_com w = cf_base w + cf_first w"
    using wf ph by (simp_all add: cf_wf_def coord_ok_def Let_def)
  show ?thesis
  proof (cases "cf_first w < length (cf_batch w)")
    case True
    show ?thesis
    proof (cases "wo_slots (cf_opts w) \<noteq> 0 \<or> wo_parallel_materialization (cf_opts w)")
      case False
      then have "w' = w\<lparr>cf_phase := CO_COW\<rparr>" using run True by (simp add: coord_plan_def)
      then show ?thesis using co True
        by (intro cf_wf_frame [OF wf]) (simp_all add: coord_ok_def cf_base_def batch_range_frame [OF co(1)])
    next
      case fat: True
      obtain pos batch groups table where pl: "plan_wave I (wo_slots (cf_opts w)) (wo_parallel_materialization (cf_opts w))
          (cf_root w) (cf_store w) (length (cf_table w)) (cf_first w) (cf_batch w) = Some (pos, batch, groups, table)"
        and w': "w' = w\<lparr>cf_batch := batch, cf_groups := groups, cf_table := table,
          cf_phase := (if pos = cf_first w then CO_COW else CO_RUN pos)\<rparr>"
        using run True fat by (auto simp: coord_plan_def bind_Some_iff)
      note ops = plan_wave_ops [OF pl co(2)]
      have len: "length batch = length (cf_batch w)" using ops(1) by (metis length_map)
      have "batch_range w'" by (rule batch_range_frame [OF co(1)]) (simp_all add: w' ops(1))
      then have "coord_ok w'" using co ops True len by (auto simp: coord_ok_def Let_def w' cf_base_def)
      then show ?thesis by (intro cf_wf_frame [OF wf]) (simp_all add: w')
    qed
  next
    case False
    then have f: "cf_first w = length (cf_batch w)" using co(2) by simp
    let ?t = "fop_ticket (tk_op (last (cf_batch w)))"
    have ne: "cf_batch w \<noteq> []" using co(1) by (simp add: batch_range_def)
    have w': "w' = w\<lparr>cf_next := ?t + 1, cf_phase := CO_WAIT\<rparr>" using run False ne by (simp add: coord_plan_def)
    have le: "cf_base w + cf_first w \<le> cf_sub w" "cf_sub w < 2 ^ 32"
      using co(1) f wf by (simp_all add: batch_range_def cf_wf_def queue_ok_def)
    have "tk_op (last (cf_batch w)) = log_op (cf_log w) (cf_base w + (length (cf_batch w) - 1))"
      using batch_op [OF co(1), of "length (cf_batch w) - 1"] ne by (simp add: last_conv_nth)
    then have "?t = of_nat (cf_base w + cf_first w)" using ne f by (cases "length (cf_batch w)") (simp_all add: log_op_def)
    then have "unat (?t + 1) = Suc (cf_base w + cf_first w)" using le by (simp add: unat_word_ariths unat_of_nat)
    then have base: "cf_base w' = cf_base w + cf_first w" "0 < unat (cf_next w')" by (simp_all add: cf_base_def w')
    show ?thesis
      using wf base co(3) le unfolding cf_wf_def queue_ok_def coord_ok_def by (simp add: w')
  qed
qed

lemma cf_reclaim_free_shape:
  assumes "cf_reclaim_free I t w = Some w'"
  shows "\<exists>G s ph f. w' = w\<lparr>cf_gc := G, cf_store := s, cf_first := f, cf_phase := ph\<rparr> \<and>
    (ph = cf_phase w \<and> f = cf_first w \<or> (\<exists>tk. cf_phase w = CO_RECLAIM tk f \<and> ph = CO_BATCH))"
proof -
  obtain G s where w': "w' = (case cf_phase w of
        CO_RECLAIM ticket n \<Rightarrow> if t = 0 then w\<lparr>cf_gc := G, cf_store := s, cf_first := n, cf_phase := CO_BATCH\<rparr>
          else w\<lparr>cf_gc := G, cf_store := s\<rparr>
      | _ \<Rightarrow> w\<lparr>cf_gc := G, cf_store := s\<rparr>)"
    using assms unfolding cf_reclaim_free_def Let_def by (auto simp: bind_Some_iff split: reclaim_phase.splits)
  have keep: "w\<lparr>cf_gc := G, cf_store := s\<rparr> = w\<lparr>cf_gc := G, cf_store := s, cf_first := cf_first w, cf_phase := cf_phase w\<rparr>" by simp
  show ?thesis
  proof (cases "t = 0 \<and> (\<exists>tk n. cf_phase w = CO_RECLAIM tk n)")
    case True
    then obtain tk n where tk: "t = 0" "cf_phase w = CO_RECLAIM tk n" by blast
    then have "w' = w\<lparr>cf_gc := G, cf_store := s, cf_first := n, cf_phase := CO_BATCH\<rparr>" using w' by simp
    then show ?thesis using tk by blast
  next
    case False
    then have "w' = w\<lparr>cf_gc := G, cf_store := s\<rparr>" unfolding w' by (cases "cf_phase w") simp_all
    then show ?thesis using keep by blast
  qed
qed

lemma coord_cow_shape:
  "coord_cow I zero w = Some w' \<Longrightarrow> \<exists>item r s G st. nth_opt (cf_batch w) (cf_first w) = Some item \<and>
    w' = w\<lparr>cf_root := r, cf_store := s, cf_gc := G, cf_stats := st,
      cf_phase := CO_PUBLISH (fop_ticket (tk_op item)) (cf_first w + 1)\<rparr>"
  unfolding coord_cow_def Let_def by (clarsimp simp: bind_Some_iff split_beta) blast

lemma coord_run_shape:
  assumes "coord_run I acts pos w = Some w'"
  shows "(\<exists>e. w' = coord_fail e w) \<or>
    (\<exists>gs s p parallel. w' = w\<lparr>cf_groups := gs, cf_store := s, cf_pool := p, cf_phase := CO_MERGE parallel pos\<rparr>)"
proof (cases "runs_inline (cf_opts w) (cf_groups w)")
  case True
  then consider e where "w' = coord_fail e w" | gs s where "w' = w\<lparr>cf_groups := gs, cf_store := s, cf_phase := CO_MERGE False pos\<rparr>"
    using assms unfolding coord_run_def Let_def by (auto split: option.splits sum.splits)
  then show ?thesis
  proof cases
    case 2
    then have "w' = w\<lparr>cf_groups := gs, cf_store := s, cf_pool := cf_pool w, cf_phase := CO_MERGE False pos\<rparr>" by simp
    then show ?thesis by blast
  qed blast
next
  case False
  then consider e where "w' = coord_fail e w"
    | p where "w' = w\<lparr>cf_groups := pl_groups p, cf_store := pl_store p, cf_pool := p, cf_phase := CO_MERGE True pos\<rparr>"
    using assms unfolding coord_run_def Let_def by (auto split: option.splits if_splits)
  then show ?thesis by cases blast+
qed

lemma coord_merge_shape:
  assumes "coord_merge I parallel pos w = Some w'"
  shows "(\<exists>e. w' = coord_fail e w) \<or>
    (\<exists>item r s G st. nth_opt (cf_batch w) (pos - 1) = Some item \<and>
      w' = w\<lparr>cf_root := r, cf_store := s, cf_gc := G, cf_stats := st, cf_phase := CO_PUBLISH (fop_ticket (tk_op item)) pos\<rparr>)"
proof -
  obtain reps item where item: "nth_opt (cf_batch w) (pos - 1) = Some item"
    and st: "(let ticket = fop_ticket (tk_op item);
        st = wave_stats_after parallel (pos - cf_first w) (length reps) (length (cf_groups w)) (cf_stats w) in
      if reps = [] then Some (w\<lparr>cf_stats := st, cf_phase := CO_PUBLISH ticket pos\<rparr>)
      else (case fh_merge I (cf_root w) reps (ucast ticket) (cf_store w) of
             None \<Rightarrow> None
           | Some (Inl e) \<Rightarrow> Some (coord_fail e w)
           | Some (Inr (m, s)) \<Rightarrow>
               let g = retire_merged (fh_node_size I s) (map_option (\<lambda>f. f s) (fh_stats I)) ticket m (gs_gc (cf_gc w))
               in Some (w\<lparr>cf_root := mg_root m, cf_store := s, cf_gc := (cf_gc w)\<lparr>gs_gc := g\<rparr>, cf_stats := st,
                          cf_phase := CO_PUBLISH ticket pos\<rparr>))) = Some w'"
    using assms unfolding coord_merge_def by (auto simp: bind_Some_iff)
  let ?t = "fop_ticket (tk_op item)"
  consider st where "w' = w\<lparr>cf_stats := st, cf_phase := CO_PUBLISH ?t pos\<rparr>" | e where "w' = coord_fail e w"
    | r s G st where "w' = w\<lparr>cf_root := r, cf_store := s, cf_gc := G, cf_stats := st, cf_phase := CO_PUBLISH ?t pos\<rparr>"
    using st unfolding Let_def by (auto split: if_splits option.splits sum.splits)
  then show ?thesis
  proof cases
    case (1 st)
    then have "w' = w\<lparr>cf_root := cf_root w, cf_store := cf_store w, cf_gc := cf_gc w, cf_stats := st, cf_phase := CO_PUBLISH ?t pos\<rparr>"
      by simp
    then show ?thesis using item by blast
  qed (use item in blast)+
qed

lemma cf_wf_step:
  assumes wf: "cf_wf w" and run: "cf_do I zero a w = Some w'"
  shows "cf_wf w'"
proof (cases a)
  case (CfUpdate key val)
  then obtain r where r: "cf_update key val w = Some r" "w' = (case r of Inl e \<Rightarrow> w | Inr (t, w1) \<Rightarrow> w1)" using run by auto
  then show ?thesis using cf_wf_update(1) [OF wf] wf by (cases r) auto
next
  case (CfReclaimStart t)
  then show ?thesis using run wf by (auto split: if_splits coord_phase.splits intro: cf_wf_gc)
next
  case (CfReclaimScan t)
  then show ?thesis using run wf by (auto intro: cf_wf_gc)
next
  case (CfReclaimFree t)
  then have "cf_reclaim_free I t w = Some w'" using run by simp
  then obtain G s ph f where w': "w' = w\<lparr>cf_gc := G, cf_store := s, cf_first := f, cf_phase := ph\<rparr>"
    and ph: "ph = cf_phase w \<and> f = cf_first w \<or> (\<exists>tk. cf_phase w = CO_RECLAIM tk f \<and> ph = CO_BATCH)"
    using cf_reclaim_free_shape by blast
  have "coord_ok w'"
    using ph
  proof
    assume a: "ph = cf_phase w \<and> f = cf_first w"
    have co: "coord_ok w" using wf by (simp add: cf_wf_def)
    show ?thesis by (rule coord_ok_frame [OF co]) (simp_all add: w' a)
  next
    assume "\<exists>tk. cf_phase w = CO_RECLAIM tk f \<and> ph = CO_BATCH"
    then obtain tk where a: "cf_phase w = CO_RECLAIM tk f" "ph = CO_BATCH" by blast
    then have co: "batch_range w" "f \<le> length (cf_batch w)" "cf_com w = cf_base w + f"
      using wf by (simp_all add: cf_wf_def coord_ok_def Let_def)
    have "batch_range w'" by (rule batch_range_frame [OF co(1)]) (simp_all add: w')
    then show ?thesis using co a by (simp add: coord_ok_def w' cf_base_def)
  qed
  then show ?thesis by (intro cf_wf_frame [OF wf]) (simp_all add: w')
next
  case (CfPin cid)
  then show ?thesis using run wf by (auto simp: cf_query_def intro: cf_wf_gc split: if_splits)
next
  case (CfUnpin cid)
  then show ?thesis using run wf by (auto intro: cf_wf_gc)
next
  case CfDestroy
  then show ?thesis using run wf by (intro cf_wf_frame [OF wf]) (auto simp: cf_wf_def intro: coord_ok_frame)
next
  case (CfCoord acts)
  then have step: "coord_step I zero acts w = Some w'" using run by simp
  have fail: "cf_wf (coord_fail e w)" for e
    by (intro cf_wf_frame [OF wf]) (simp_all add: coord_fail_def coord_ok_stopped)
  show ?thesis
  proof (cases "cf_phase w")
    case CO_WAIT
    then show ?thesis using step cf_wf_take [OF wf] by (simp add: coord_step_def)
  next
    case CO_BATCH
    then show ?thesis using step cf_wf_plan [OF wf] by (simp add: coord_step_def)
  next
    case CO_COW
    then have co: "batch_range w" "cf_first w < length (cf_batch w)" "cf_com w = cf_base w + cf_first w"
      using wf by (simp_all add: cf_wf_def coord_ok_def Let_def)
    have op: "fop_ticket (tk_op (cf_batch w ! cf_first w)) = of_nat (cf_base w + Suc (cf_first w))"
      using batch_op [OF co(1,2)] by (simp add: log_op_def)
    have "coord_cow I zero w = Some w'" using step CO_COW by (simp add: coord_step_def)
    from coord_cow_shape [OF this] obtain r s G st where w': "w' = w\<lparr>cf_root := r, cf_store := s, cf_gc := G, cf_stats := st,
        cf_phase := CO_PUBLISH (fop_ticket (tk_op (cf_batch w ! cf_first w))) (cf_first w + 1)\<rparr>"
      unfolding nth_opt_Some [OF co(2)] option.inject by blast
    have "batch_range w'" by (rule batch_range_frame [OF co(1)]) (simp_all add: w')
    moreover have "cf_base w' = cf_base w" by (simp add: w' cf_base_def)
    ultimately have "coord_ok w'" using co(2,3) op by (simp add: coord_ok_def Let_def w')
    then show ?thesis by (intro cf_wf_frame [OF wf]) (simp_all add: w')
  next
    case (CO_RUN pos)
    have "coord_run I acts pos w = Some w'" using step CO_RUN by (simp add: coord_step_def)
    from coord_run_shape [OF this] show ?thesis
    proof
      assume "\<exists>gs s p parallel. w' = w\<lparr>cf_groups := gs, cf_store := s, cf_pool := p, cf_phase := CO_MERGE parallel pos\<rparr>"
      then obtain gs s p parallel where w': "w' = w\<lparr>cf_groups := gs, cf_store := s, cf_pool := p, cf_phase := CO_MERGE parallel pos\<rparr>"
        by blast
      have co: "batch_range w" "cf_first w < pos" "pos \<le> length (cf_batch w)" "cf_com w = cf_base w + cf_first w"
        using wf CO_RUN by (simp_all add: cf_wf_def coord_ok_def Let_def)
      have "batch_range w'" by (rule batch_range_frame [OF co(1)]) (simp_all add: w')
      moreover have "cf_base w' = cf_base w" by (simp add: w' cf_base_def)
      ultimately have "coord_ok w'" using co(2-) by (simp add: coord_ok_def Let_def w')
      then show ?thesis by (intro cf_wf_frame [OF wf]) (simp_all add: w')
    qed (use fail in auto)
  next
    case (CO_MERGE parallel pos)
    then have co: "batch_range w" "cf_first w < pos" "pos \<le> length (cf_batch w)" "cf_com w = cf_base w + cf_first w"
      using wf by (simp_all add: cf_wf_def coord_ok_def Let_def)
    have lt: "pos - 1 < length (cf_batch w)" using co(2,3) by simp
    have op: "fop_ticket (tk_op (cf_batch w ! (pos - 1))) = of_nat (cf_base w + pos)"
    proof -
      have "Suc (cf_base w + (pos - 1)) = cf_base w + pos" using co(2) by simp
      then show ?thesis using batch_op [OF co(1) lt] unfolding log_op_def by (metis fop.select_convs(1))
    qed
    have "coord_merge I parallel pos w = Some w'" using step CO_MERGE by (simp add: coord_step_def)
    from coord_merge_shape [OF this, unfolded nth_opt_Some [OF lt] option.inject] show ?thesis
    proof
      assume "\<exists>item r s G st. cf_batch w ! (pos - 1) = item \<and> w' = w\<lparr>cf_root := r, cf_store := s, cf_gc := G, cf_stats := st,
          cf_phase := CO_PUBLISH (fop_ticket (tk_op item)) pos\<rparr>"
      then obtain r s G st where w': "w' = w\<lparr>cf_root := r, cf_store := s, cf_gc := G, cf_stats := st,
          cf_phase := CO_PUBLISH (fop_ticket (tk_op (cf_batch w ! (pos - 1)))) pos\<rparr>" by blast
      have "batch_range w'" by (rule batch_range_frame [OF co(1)]) (simp_all add: w')
      moreover have "cf_base w' = cf_base w" by (simp add: w' cf_base_def)
      ultimately have "coord_ok w'" using co(2-) op by (simp add: coord_ok_def Let_def w')
      then show ?thesis by (intro cf_wf_frame [OF wf]) (simp_all add: w')
    qed (use fail in auto)
  next
    case (CO_PUBLISH t k)
    then consider "\<exists>a. cf_do_gc a w = Some w'" | w1 where "cf_do_gc PubEnd w = Some w1" "w' = w1\<lparr>cf_phase := CO_COMMIT t k\<rparr>"
      using step by (auto simp: coord_step_def coord_publish_def split: pub_phase.splits)
    then show ?thesis
    proof cases
      case 1
      then show ?thesis using cf_wf_gc [OF wf] by blast
    next
      case 2
      then obtain G where w': "w' = w\<lparr>cf_gc := G, cf_phase := CO_COMMIT t k\<rparr>" using cf_do_gc_frame [of PubEnd w w1] by auto
      have co: "batch_range w" "cf_first w < k" "k \<le> length (cf_batch w)" "cf_com w = cf_base w + cf_first w"
          "t = of_nat (cf_base w + k)"
        using wf CO_PUBLISH by (simp_all add: cf_wf_def coord_ok_def Let_def)
      have "batch_range w'" by (rule batch_range_frame [OF co(1)]) (simp_all add: w')
      moreover have "cf_base w' = cf_base w" by (simp add: w' cf_base_def)
      ultimately have "coord_ok w'" using co(2-) by (simp add: coord_ok_def Let_def w')
      then show ?thesis by (intro cf_wf_frame [OF wf]) (simp_all add: w')
    qed
  next
    case (CO_COMMIT t k)
    then have w': "w' = w\<lparr>cf_committed := t, cf_phase := CO_RECLAIM t k\<rparr>" using step by (simp add: coord_step_def)
    have co: "batch_range w" "cf_first w < k" "k \<le> length (cf_batch w)" "cf_com w = cf_base w + cf_first w" "t = of_nat (cf_base w + k)"
      using wf CO_COMMIT by (simp_all add: cf_wf_def coord_ok_def Let_def)
    have le: "cf_base w + k \<le> cf_sub w" "cf_sub w < 2 ^ 32"
      using co(1,3) wf by (auto simp: batch_range_def cf_wf_def queue_ok_def)
    have t: "unat t = cf_base w + k" using le unfolding co(5) by (intro unat_of_nat_small) simp
    have sel: "cf_com w' = cf_base w + k" "cf_base w' = cf_base w" "cf_queue w' = cf_queue w" "cf_opts w' = cf_opts w"
      "cf_submitted w' = cf_submitted w" "cf_log w' = cf_log w" "cf_next w' = cf_next w"
      using t by (simp_all add: w' cf_base_def)
    have q: "queue_ok w" using wf by (simp add: cf_wf_def)
    have "queue_ok w'" using q le(1) co(2,4) unfolding queue_ok_def sel by simp
    moreover have "coord_ok w'"
    proof -
      have "batch_range w'" by (rule batch_range_frame [OF co(1)]) (simp_all add: w')
      moreover have "cf_base w' = cf_base w" by (simp add: w' cf_base_def)
      ultimately show ?thesis using co(2-) t by (simp add: coord_ok_def Let_def w')
    qed
    ultimately show ?thesis by (simp add: cf_wf_def)
  next
    case (CO_RECLAIM t k)
    then have w': "w' = w\<lparr>cf_first := k, cf_phase := CO_BATCH\<rparr>" using step by (auto simp: coord_step_def split: if_splits)
    have co: "batch_range w" "k \<le> length (cf_batch w)" "cf_com w = cf_base w + k"
      using wf CO_RECLAIM by (simp_all add: cf_wf_def coord_ok_def Let_def)
    have "batch_range w'" by (rule batch_range_frame [OF co(1)]) (simp_all add: w')
    moreover have "cf_base w' = cf_base w" by (simp add: w' cf_base_def)
    ultimately have "coord_ok w'" using co(2-) by (simp add: coord_ok_def Let_def w')
    then show ?thesis by (intro cf_wf_frame [OF wf]) (simp_all add: w')
  next
    case CO_STOPPED
    then show ?thesis using step by (simp add: coord_step_def)
  qed
qed

lemma cf_wf_start:
  assumes "concow_fat allow_empty r s opts = Inr w" "wo_queue_capacity opts < 2 ^ 32"
  shows "cf_wf w" "cf_log w = []" "cf_opts w = opts" "cf_cap w = wo_queue_capacity opts"
  using assms
  by (auto simp: concow_fat_def validate_def cf_wf_def queue_ok_def coord_ok_def cf_base_def split: if_splits sum.splits)

lemma cf_reach_wf: "cf_reach I zero w0 w \<Longrightarrow> cf_wf w0 \<Longrightarrow> cf_wf w"
  by (induction rule: cf_reach.induct) (auto intro: cf_wf_step)

section \<open>Tickets\<close>

text \<open>
  C27: in every reachable state of the ordered-wave controller, over any tree and any schedule, the counter of
  submissions is the number of accepted updates and fits the 32-bit versions of the nodes; what is committed
  was submitted, and at most the capacity of the ring is in flight.
\<close>

theorem cf_tickets_bounded:
  assumes "concow_fat allow_empty r s opts = Inr w0" and "wo_queue_capacity opts < 2 ^ 32"
    and "cf_reach I zero w0 w"
  shows "unat (cf_submitted w) = length (cf_log w) \<and> length (cf_log w) < 2 ^ 32 \<and>
    unat (cf_committed w) \<le> unat (cf_submitted w) \<and>
    unat (cf_submitted w) - unat (cf_committed w) \<le> length (cf_queue w)"
  using cf_reach_wf [OF assms(3) cf_wf_start(1) [OF assms(1,2)]] by (auto simp: cf_wf_def queue_ok_def)

text \<open>
  C28: an update waits exactly while nothing failed, nothing stops and the ring is full: it is accepted, under
  the next ticket, only when fewer updates than the ring has cells are in flight, and otherwise reports the
  failure of a wave, the stop of the controller or, with room in the ring after \<open>2 ^ 32 - 1\<close> updates, the end
  of the versions.
\<close>

theorem cf_update_outcome:
  assumes "concow_fat allow_empty r s opts = Inr w0" and "wo_queue_capacity opts < 2 ^ 32"
    and "cf_reach I zero w0 w"
  shows "case cf_update key val w of
      None \<Rightarrow> cf_failure w = None \<and> \<not> cf_stopping w \<and>
        unat (cf_submitted w) - unat (cf_committed w) = length (cf_queue w)
    | Some (Inl (WAVE_FAILURE e)) \<Rightarrow> cf_failure w = Some e
    | Some (Inl CONTROLLER_STOPPING) \<Rightarrow> cf_failure w = None \<and> cf_stopping w
    | Some (Inl VERSION_EXHAUSTED) \<Rightarrow> cf_failure w = None \<and> \<not> cf_stopping w \<and> length (cf_log w) = 2 ^ 32 - 1 \<and>
        unat (cf_submitted w) - unat (cf_committed w) < length (cf_queue w)
    | Some (Inl _) \<Rightarrow> False
    | Some (Inr (ticket, w')) \<Rightarrow> unat ticket = length (cf_log w) + 1 \<and> length (cf_log w) < 2 ^ 32 - 1 \<and>
        unat (cf_submitted w) - unat (cf_committed w) < length (cf_queue w) \<and>
        cf_log w' = cf_log w @ [(key, val)] \<and> cf_failure w = None \<and> \<not> cf_stopping w"
proof -
  have wf: "cf_wf w" using cf_reach_wf [OF assms(3) cf_wf_start(1) [OF assms(1,2)]] .
  then have q: "cf_cap w < 2 ^ 32" "cf_sub w = length (cf_log w)" "cf_sub w < 2 ^ 32" "cf_com w \<le> cf_sub w"
    "cf_sub w \<le> cf_com w + cf_cap w" by (simp_all add: cf_wf_def queue_ok_def)
  have full: "cf_submitted w - cf_committed w < of_nat (cf_cap w) \<longleftrightarrow> cf_sub w - cf_com w < cf_cap w"
    using q by (simp add: unat_less_iff unat_diff_le word_le_nat_alt unat_of_nat_small)
  show ?thesis
  proof (cases "update_blocks w")
    case True
    then show ?thesis using full q(4,5) by (auto simp: cf_update_def update_blocks_def)
  next
    case False
    show ?thesis
    proof (cases "cf_failure w = None \<and> \<not> cf_stopping w \<and> cf_submitted w \<noteq> 4294967295")
      case True
      then obtain t w' where ok: "cf_update key val w = Some (Inr (t, w'))"
        using False by (auto simp: cf_update_def Let_def)
      note u = cf_wf_update(2-4) [OF wf ok]
      have "unat t = length (cf_log w) + 1" using u(2) unfolding u(1) by (subst unat_of_nat_small) simp_all
      moreover have "cf_sub w - cf_com w < cf_cap w" using False True full by (simp add: update_blocks_def)
      ultimately show ?thesis using ok u(2,3) True by simp
    next
      case other: False
      have "length (cf_log w) = 2 ^ 32 - 1" if "cf_submitted w = 4294967295"
        using q(2) unfolding that by simp
      moreover have "cf_sub w - cf_com w < cf_cap w" if "cf_failure w = None" "\<not> cf_stopping w"
        using False full that by (simp add: update_blocks_def)
      ultimately show ?thesis using False other by (auto simp: cf_update_def split: option.splits)
    qed
  qed
qed

text \<open>
  C29: between taking a batch and its end, the batch of the coordinator is the next piece of the sequence of
  accepted updates, in order and under consecutive tickets, and the updates committed are exactly those before
  the place the coordinator has reached in it.
\<close>

theorem cf_batch_in_order:
  assumes "concow_fat allow_empty r s opts = Inr w0" and "wo_queue_capacity opts < 2 ^ 32"
    and "cf_reach I zero w0 w" and "cf_phase w = CO_BATCH"
  shows "\<exists>m. map (\<lambda>t. (fop_key (tk_op t), fop_value (tk_op t))) (cf_batch w) =
        take (length (cf_batch w)) (drop m (cf_log w)) \<and>
      map (\<lambda>t. unat (fop_ticket (tk_op t))) (cf_batch w) = map Suc [m..<m + length (cf_batch w)] \<and>
      unat (cf_committed w) = m + cf_first w \<and> cf_first w \<le> length (cf_batch w)"
proof -
  let ?n = "length (cf_batch w)" let ?m = "cf_base w"
  have wf: "cf_wf w" using cf_reach_wf [OF assms(3) cf_wf_start(1) [OF assms(1,2)]] .
  then have co: "batch_range w" "cf_first w \<le> ?n" "cf_com w = ?m + cf_first w"
    using assms(4) by (simp_all add: cf_wf_def coord_ok_def Let_def)
  have len: "?m + ?n \<le> length (cf_log w)" "length (cf_log w) < 2 ^ 32"
    using co(1) wf by (simp_all add: batch_range_def cf_wf_def queue_ok_def)
  have "map (\<lambda>t. (fop_key (tk_op t), fop_value (tk_op t))) (cf_batch w) = take ?n (drop ?m (cf_log w))"
    by (rule nth_equalityI) (use len batch_op [OF co(1)] in \<open>auto simp: log_op_def\<close>)
  moreover have "map (\<lambda>t. unat (fop_ticket (tk_op t))) (cf_batch w) = map Suc [?m..<?m + ?n]"
  proof (rule nth_equalityI)
    fix i assume "i < length (map (\<lambda>t. unat (fop_ticket (tk_op t))) (cf_batch w))"
    then have i: "i < ?n" by simp
    have "unat (of_nat (Suc (?m + i)) :: u64) = Suc (?m + i)" using len i by (intro unat_of_nat_small) simp
    then show "map (\<lambda>t. unat (fop_ticket (tk_op t))) (cf_batch w) ! i = map Suc [?m..<?m + ?n] ! i"
      using i batch_op [OF co(1) i] by (simp add: log_op_def del: of_nat_Suc)
  qed simp
  ultimately show ?thesis using co(2,3) by blast
qed

section \<open>Concrete runs\<close>

text \<open>A schedule of actions, and the state behind two updates of a tree of one leaf and the take of both.\<close>

fun cf_run :: "('z, 's, 'r) fat_hooks \<Rightarrow> 'z ctx_scheme \<Rightarrow> cf_act list \<Rightarrow> ('s, 'r) concow_fat \<Rightarrow> ('s, 'r) concow_fat option" where
  "cf_run I zero [] w = Some w"
| "cf_run I zero (a # as) w = (case cf_do I zero a w of None \<Rightarrow> None | Some w' \<Rightarrow> cf_run I zero as w')"

lemma cf_run_reach: "cf_run I zero as w = Some w' \<Longrightarrow> cf_reach I zero w0 w \<Longrightarrow> cf_reach I zero w0 w'"
  by (induction as arbitrary: w) (auto split: option.splits intro: cf_reach.step)

definition cf_ex_opts :: wave_options where
  "cf_ex_opts = default_options\<lparr>wo_queue_capacity := 4, wo_batch_size := 2\<rparr>"

definition cf_ex_start :: "(art_store, art_change) concow_fat" where
  "cf_ex_start =
     \<lparr>cf_opts = cf_ex_opts, cf_gc = gc_start 1 1 True, cf_root = 1, cf_queue = replicate 4 zero_op, cf_batch = [], cf_groups = [],
      cf_table = replicate 4 empty_bucket, cf_submitted = 0, cf_stopping = False, cf_failure = None, cf_committed = 0,
      cf_store = art_ex_store,
      cf_pool = \<lparr>pl_store = art_ex_store, pl_groups = [], pl_generation = 0, pl_remaining = 0, pl_next = 0,
                 pl_seen = (\<lambda>_. 0), pl_phase = (\<lambda>_. WK_WAIT), pl_failure = None\<rparr>,
      cf_next = 1, cf_first = 0, cf_phase = CO_WAIT, cf_stats = zero_stats, cf_log = []\<rparr>"

lemma cf_ex_start_eq: "concow_fat False 1 art_ex_store cf_ex_opts = Inr cf_ex_start"
proof -
  have "bit_ceil 4 = 4" by (simp add: bit_ceil.simps)
  then show ?thesis
    by (simp add: concow_fat_def validate_def cf_ex_start_def cf_ex_opts_def default_options_def)
qed

definition cf_ex_taken :: "(art_store, art_change) concow_fat" where
  "cf_ex_taken = cf_ex_start
     \<lparr>cf_submitted := 2, cf_log := [(5, 51), (5, 52)],
      cf_queue := [zero_op, \<lparr>fop_ticket = 1, fop_key = 5, fop_value = 51\<rparr>, \<lparr>fop_ticket = 2, fop_key = 5, fop_value = 52\<rparr>, zero_op],
      cf_batch := wave_ex_batch, cf_phase := CO_BATCH\<rparr>"

lemma cf_ex_phase: "cf_phase cf_ex_start = CO_WAIT"
  by (simp add: cf_ex_start_def)

lemma cf_ex_reach: "cf_reach (art_fat_hooks of_nat) art_zero_ctx cf_ex_start cf_ex_taken"
proof (rule cf_run_reach [OF _ cf_reach.start])
  let ?q = "[zero_op, \<lparr>fop_ticket = 1, fop_key = 5, fop_value = 51\<rparr>, \<lparr>fop_ticket = 2, fop_key = 5, fop_value = 52\<rparr>, zero_op]"
  let ?w1 = "cf_ex_start\<lparr>cf_submitted := 1, cf_log := [(5, 51)], 
      cf_queue := [zero_op, \<lparr>fop_ticket = 1, fop_key = 5, fop_value = 51\<rparr>, zero_op, zero_op]\<rparr>"
  let ?w2 = "cf_ex_start\<lparr>cf_submitted := 2, cf_log := [(5, 51), (5, 52)], cf_queue := ?q\<rparr>"
  have q: "replicate 4 zero_op = [zero_op, zero_op, zero_op, zero_op]" by (simp add: numeral_eq_Suc)
  have 1: "cf_update 5 51 cf_ex_start = Some (Inr (1, ?w1))"
    by (simp add: cf_update_def update_blocks_def cf_ex_start_def q)
  have 2: "cf_update 5 52 ?w1 = Some (Inr (2, ?w2))"
    by (simp add: cf_update_def update_blocks_def cf_ex_start_def q)
  have "[0..<2] = [0, Suc 0]" by (simp add: numeral_2_eq_2)
  then have 3: "coord_take ?w2 = Some cf_ex_taken"
    by (simp add: coord_take_def cf_ex_taken_def cf_ex_start_def cf_ex_opts_def wave_ex_batch_def)
  show "cf_run (art_fat_hooks of_nat) art_zero_ctx [CfUpdate 5 51, CfUpdate 5 52, CfCoord []] cf_ex_start = Some cf_ex_taken"
    using 3 by (simp add: 1 2 coord_step_def cf_ex_phase)
qed

theorem cf_tickets_bounded_witness:
  "unat (cf_submitted cf_ex_taken) = length (cf_log cf_ex_taken) \<and> cf_log cf_ex_taken \<noteq> []"
  using cf_tickets_bounded [OF cf_ex_start_eq _ cf_ex_reach] by (simp add: cf_ex_opts_def cf_ex_taken_def)

theorem cf_update_outcome_witness:
  "\<exists>ticket w'. cf_update 6 60 cf_ex_taken = Some (Inr (ticket, w')) \<and> unat ticket = 3"
proof -
  have o: "wo_queue_capacity cf_ex_opts < 2 ^ 32" by (simp add: cf_ex_opts_def)
  obtain ticket w' where u: "cf_update 6 60 cf_ex_taken = Some (Inr (ticket, w'))"
    by (simp add: cf_update_def update_blocks_def cf_ex_taken_def cf_ex_start_def Let_def)
  from cf_update_outcome [OF cf_ex_start_eq o cf_ex_reach, of 6 60] show ?thesis
    unfolding u by (simp add: cf_ex_taken_def)
qed

theorem cf_batch_in_order_witness:
  "\<exists>m. map (\<lambda>t. unat (fop_ticket (tk_op t))) (cf_batch cf_ex_taken) = map Suc [m..<m + 2] \<and> length (cf_log cf_ex_taken) = 2"
proof -
  have o: "wo_queue_capacity cf_ex_opts < 2 ^ 32" by (simp add: cf_ex_opts_def)
  have b: "length (cf_batch cf_ex_taken) = 2" "cf_phase cf_ex_taken = CO_BATCH" "length (cf_log cf_ex_taken) = 2"
    by (simp_all add: cf_ex_taken_def wave_ex_batch_def)
  from cf_batch_in_order [OF cf_ex_start_eq o cf_ex_reach b(2)] show ?thesis unfolding b by blast
qed

end
