(* ===== verification/Pipeline.thy ===== *)
theory Pipeline
  imports Seqcow
begin

text \<open>
  What the two pipelined controllers (\<^verbatim>\<open>lib/conctrl/concow.hpp\<close> and \<^verbatim>\<open>lib/conctrl/concow_cyclic.hpp\<close>) share: the
  ring of contexts with a stage per cell, the clients that fill it, the workers that run the last handlers of
  a task, and the monitor that admits, retires, publishes and commits in ticket order. Every access to a
  shared variable is one action; a handler is one action.

  Tickets are natural numbers: theory \<open>Concow_Safety\<close> shows that none exceeds \<open>2 ^ 32 - 1\<close>, so the 64-bit
  counters of the code do not wrap. A stage is the number of handlers that a worker has run, or the mark
  \<open>STAGE_ALL\<close> (\<^verbatim>\<open>~0UL\<close>) of a finished task.
\<close>

section \<open>The tree\<close>

text \<open>
  The members of the template argument. An optional member is \<open>None\<close> where the tree does not have it and the
  code asks with \<^verbatim>\<open>requires\<close>. \<open>po_ver\<close> reads the version of a node.
\<close>

record ('z, 's) pipe_ops =
  po_handlers :: "nat \<Rightarrow> 'z ctx_scheme \<Rightarrow> 's \<Rightarrow> (nat \<times> 'z ctx_scheme \<times> 's) option"
  po_begin :: "(bool \<Rightarrow> 'z ctx_scheme \<Rightarrow> 's \<Rightarrow> (nat \<times> 'z ctx_scheme \<times> 's) option) option"
  po_try :: "(u64 \<Rightarrow> 'z ctx_scheme \<Rightarrow> 's \<Rightarrow> (int \<times> 'z ctx_scheme \<times> 's) option) option"
  po_reserve :: "(u64 \<Rightarrow> 'z ctx_scheme \<Rightarrow> 's \<Rightarrow> (int \<times> 'z ctx_scheme \<times> 's) option) option"
  po_configure :: "(bool \<Rightarrow> 'z ctx_scheme \<Rightarrow> 'z ctx_scheme) option"
  po_task :: "('z ctx_scheme \<Rightarrow> nat) option"
  po_checkpoint :: "'z ctx_scheme \<Rightarrow> 's \<Rightarrow> ('z ctx_scheme \<times> 's) option"
  po_ver :: "'s \<Rightarrow> addr \<Rightarrow> u32 option"
  po_free :: "addr \<Rightarrow> 's \<Rightarrow> 's option"
  po_free_checkpoint :: "addr \<Rightarrow> 's \<Rightarrow> 's option"
  po_node_size :: "'s \<Rightarrow> addr \<Rightarrow> u64"
  po_stats :: "('s \<Rightarrow> addr \<Rightarrow> u64 \<times> u64) option"

datatype pipe_error =
    INVALID_THREADS | INVALID_SLOTS | NO_FAT_ADAPTER | NO_WORKER_ADAPTER | NEEDS_LOCAL_PROBE
  | TICKETS_EXHAUSTED | QUERY_NEEDS_VERSION

definition validate_threads :: "nat \<Rightarrow> pipe_error + nat" where
  "validate_threads n = (if n = 0 then Inl INVALID_THREADS else Inr n)"

definition validate_slots :: "('z, 's) pipe_ops \<Rightarrow> nat \<Rightarrow> pipe_error + nat" where
  "validate_slots I slots =
     (if slots \<noteq> 0 \<and> slots \<noteq> 2 \<and> slots \<noteq> 4 \<and> slots \<noteq> 8 then Inl INVALID_SLOTS
      else if po_begin I = None \<and> slots \<noteq> 0 then Inl NO_FAT_ADAPTER
      else Inr slots)"

section \<open>The shared state\<close>

datatype stage = STAGE nat | STAGE_ALL

fun stage_reached :: "nat \<Rightarrow> stage \<Rightarrow> bool" where
  "stage_reached n (STAGE m) \<longleftrightarrow> n \<le> m"
| "stage_reached n STAGE_ALL \<longleftrightarrow> True"

text \<open>
  A client inside \<open>update\<close>: before the ticket, in the spin for a free cell, filling the cell, before the
  store of the stage. A worker: polling its ticket, at the head of its loop, before the next handler, before
  the load of the commit frontier in \<open>wait_stage\<close>, before the store of the stage, before it reports back.
\<close>

datatype client_phase = CL_IDLE | CL_CALL u64 u64 | CL_SPIN nat u64 u64 | CL_FILL nat u64 u64 | CL_SIGNAL nat u64 u64

datatype exec_phase =
    EX_POLL | EX_HEAD nat nat | EX_RUN nat nat | EX_RELOAD nat nat | EX_STORE nat nat | EX_PUSH nat | EX_STOPPED

datatype monitor_phase =
    MO_TOP | MO_LOAD | MO_INIT nat | MO_ADVANCE | MO_COMMIT nat | MO_RETIRE nat | MO_PUBLISH | MO_STORE
  | MO_GC | MO_RECLAIM nat | MO_ACK nat | MO_STOPPED

text \<open>
  \<open>rs_inited\<close> is the frontier that the first pipe waits for (\<^verbatim>\<open>pipes_[0].pace\<close> or \<^verbatim>\<open>n_inited_\<close>). The ticket
  given to a worker is \<open>None\<close> for the stop mark. \<open>rs_log\<close> is a ghost: the update of each ticket, none for a
  ticket that carries no update.
\<close>

record ('z, 's) pipe_sys =
  rs_fat_slots :: nat
  rs_clients :: nat
  rs_workers :: nat
  rs_gc :: gc_sys
  rs_gc_requested :: nat
  rs_gc_completed :: nat
  rs_submitted :: nat
  rs_inited :: nat
  rs_committed :: nat
  rs_checkpoint :: nat
  rs_stages :: "nat \<Rightarrow> stage"
  rs_ctxs :: "nat \<Rightarrow> 'z ctx_scheme"
  rs_store :: 's
  rs_stop :: bool
  rs_available :: "nat list"
  rs_client :: "nat \<Rightarrow> client_phase"
  rs_wtid :: "nat \<Rightarrow> nat option"
  rs_wlast :: "nat \<Rightarrow> nat"
  rs_wphase :: "nat \<Rightarrow> exec_phase"
  rs_mo :: monitor_phase
  rs_mstop :: bool
  rs_msub :: nat
  rs_minit :: nat
  rs_mcom :: nat
  rs_mfrontier :: nat
  rs_log :: "nat \<Rightarrow> (u64 \<times> u64) option"

definition MAX_TICKET :: nat where
  "MAX_TICKET = unat UINT32_MAX"

definition rcell :: "nat \<Rightarrow> nat" where
  "rcell tid = tid mod BUFFER_SIZE"

abbreviation the_ctx :: "('z, 's, 'm) pipe_sys_scheme \<Rightarrow> nat \<Rightarrow> 'z ctx_scheme" where
  "the_ctx w tid \<equiv> rs_ctxs w (rcell tid)"

abbreviation the_stage :: "('z, 's, 'm) pipe_sys_scheme \<Rightarrow> nat \<Rightarrow> stage" where
  "the_stage w tid \<equiv> rs_stages w (rcell tid)"

definition set_ctx :: "nat \<Rightarrow> 'z ctx_scheme \<Rightarrow> ('z, 's, 'm) pipe_sys_scheme \<Rightarrow> ('z, 's, 'm) pipe_sys_scheme" where
  "set_ctx tid c w = w\<lparr>rs_ctxs := (rs_ctxs w)(rcell tid := c)\<rparr>"

definition set_stage :: "nat \<Rightarrow> stage \<Rightarrow> ('z, 's, 'm) pipe_sys_scheme \<Rightarrow> ('z, 's, 'm) pipe_sys_scheme" where
  "set_stage tid st w = w\<lparr>rs_stages := (rs_stages w)(rcell tid := st)\<rparr>"

definition set_client :: "nat \<Rightarrow> client_phase \<Rightarrow> ('z, 's, 'm) pipe_sys_scheme \<Rightarrow> ('z, 's, 'm) pipe_sys_scheme" where
  "set_client cl p w = w\<lparr>rs_client := (rs_client w)(cl := p)\<rparr>"

definition set_worker :: "nat \<Rightarrow> exec_phase \<Rightarrow> ('z, 's, 'm) pipe_sys_scheme \<Rightarrow> ('z, 's, 'm) pipe_sys_scheme" where
  "set_worker k p w = w\<lparr>rs_wphase := (rs_wphase w)(k := p)\<rparr>"

text \<open>The stage that a worker stores goes to the cell of \<^verbatim>\<open>ctx->sno\<close>.\<close>

definition sno_of :: "'z ctx_scheme \<Rightarrow> nat" where
  "sno_of c = unat (c_sno c)"

text \<open>The state behind the constructors; \<open>zero\<close> is a zeroed context.\<close>

definition pipe_start ::
    "'z ctx_scheme \<Rightarrow> addr \<Rightarrow> 's \<Rightarrow> nat \<Rightarrow> nat \<Rightarrow> nat \<Rightarrow> bool \<Rightarrow> nat \<Rightarrow> ('z, 's) pipe_sys" where
  "pipe_start zero t_init s n_clients n_workers n_readers gc_on fat_slots =
     \<lparr>rs_fat_slots = fat_slots, rs_clients = n_clients, rs_workers = n_workers,
      rs_gc = (gc_start t_init n_readers gc_on)\<lparr>gs_gc := init_gc t_init n_readers gc_on (fat_slots \<noteq> 0)\<rparr>,
      rs_gc_requested = 0, rs_gc_completed = 0, rs_submitted = 0, rs_inited = 0, rs_committed = 0, rs_checkpoint = 0,
      rs_stages = (\<lambda>_. STAGE_ALL),
      rs_ctxs = (\<lambda>i. if i = 0 then zero\<lparr>c_op := OP_DONE, c_sno := 0, c_root := t_init\<rparr> else zero\<lparr>c_op := OP_DONE\<rparr>),
      rs_store = s, rs_stop = False, rs_available = [0..<n_workers], rs_client = (\<lambda>_. CL_IDLE), rs_wtid = (\<lambda>_. Some 0),
      rs_wlast = (\<lambda>_. 0), rs_wphase = (\<lambda>_. EX_POLL), rs_mo = MO_TOP, rs_mstop = False, rs_msub = 0, rs_minit = 0,
      rs_mcom = 0, rs_mfrontier = 0, rs_log = (\<lambda>_. None)\<rparr>"

section \<open>Clients\<close>

text \<open>No call begins after the destructor has.\<close>

definition client_call :: "nat \<Rightarrow> u64 \<Rightarrow> u64 \<Rightarrow> ('z, 's, 'm) pipe_sys_scheme \<Rightarrow> ('z, 's, 'm) pipe_sys_scheme option" where
  "client_call cl key val w =
     (if cl < rs_clients w \<and> rs_client w cl = CL_IDLE \<and> \<not> rs_stop w then Some (set_client cl (CL_CALL key val) w) else None)"

text \<open>The exchange that takes the next ticket; \<open>skips\<close> says which tickets carry no update.\<close>

definition client_reserve ::
    "(nat \<Rightarrow> bool) \<Rightarrow> nat \<Rightarrow> ('z, 's, 'm) pipe_sys_scheme \<Rightarrow> (pipe_error + ('z, 's, 'm) pipe_sys_scheme) option" where
  "client_reserve skips cl w =
     (case rs_client w cl of
        CL_CALL key val \<Rightarrow>
          if rs_submitted w = MAX_TICKET then Some (Inl TICKETS_EXHAUSTED)
          else
            let tid = rs_submitted w + 1
            in Some (Inr (set_client cl (CL_SPIN tid key val)
                 (w\<lparr>rs_submitted := tid, rs_log := (rs_log w)(tid := (if skips tid then None else Some (key, val)))\<rparr>)))
      | _ \<Rightarrow> None)"

definition client_pass :: "nat \<Rightarrow> ('z, 's, 'm) pipe_sys_scheme \<Rightarrow> ('z, 's, 'm) pipe_sys_scheme option" where
  "client_pass cl w =
     (case rs_client w cl of
        CL_SPIN tid key val \<Rightarrow>
          if tid < rs_committed w + BUFFER_SIZE then Some (set_client cl (CL_FILL tid key val) w) else None
      | _ \<Rightarrow> None)"

definition client_fill ::
    "(nat \<Rightarrow> u64 \<Rightarrow> u64 \<Rightarrow> 'z ctx_scheme \<Rightarrow> 'z ctx_scheme) \<Rightarrow> nat \<Rightarrow> ('z, 's, 'm) pipe_sys_scheme
      \<Rightarrow> ('z, 's, 'm) pipe_sys_scheme option" where
  "client_fill fill cl w =
     (case rs_client w cl of
        CL_FILL tid key val \<Rightarrow>
          Some (set_client cl (CL_SIGNAL tid key val) (set_ctx tid (fill tid key val (the_ctx w tid)) w))
      | _ \<Rightarrow> None)"

definition client_signal :: "(nat \<Rightarrow> bool) \<Rightarrow> nat \<Rightarrow> ('z, 's, 'm) pipe_sys_scheme \<Rightarrow> ('z, 's, 'm) pipe_sys_scheme option" where
  "client_signal skips cl w =
     (case rs_client w cl of
        CL_SIGNAL tid key val \<Rightarrow>
          Some (set_client cl (if skips tid then CL_CALL key val else CL_IDLE) (set_stage tid (STAGE 0) w))
      | _ \<Rightarrow> None)"

text \<open>\<open>wait_for_processing\<close> and \<open>collect_garbage\<close>: a spin on a counter, after the request.\<close>

definition processed :: "nat \<Rightarrow> ('z, 's, 'm) pipe_sys_scheme \<Rightarrow> bool" where
  "processed n w \<longleftrightarrow> n \<le> rs_committed w"

definition gc_request :: "('z, 's, 'm) pipe_sys_scheme \<Rightarrow> ('z, 's, 'm) pipe_sys_scheme" where
  "gc_request w = (if g_enabled (gs_gc (rs_gc w)) then w\<lparr>rs_gc_requested := rs_gc_requested w + 1\<rparr> else w)"

definition gc_served :: "nat \<Rightarrow> ('z, 's, 'm) pipe_sys_scheme \<Rightarrow> bool" where
  "gc_served request w \<longleftrightarrow> request \<le> rs_gc_completed w"

definition rs_do_gc :: "gc_act \<Rightarrow> ('z, 's, 'm) pipe_sys_scheme \<Rightarrow> ('z, 's, 'm) pipe_sys_scheme option" where
  "rs_do_gc a w = map_option (\<lambda>g. w\<lparr>rs_gc := g\<rparr>) (gc_do a (rs_gc w))"

text \<open>The check of \<open>query\<close>: with fat leaves a callback must take the version.\<close>

definition query_check :: "bool \<Rightarrow> ('z, 's, 'm) pipe_sys_scheme \<Rightarrow> pipe_error + unit" where
  "query_check takes_version w =
     (if \<not> takes_version \<and> rs_fat_slots w \<noteq> 0 then Inl QUERY_NEEDS_VERSION else Inr ())"

section \<open>Handlers and waiting\<close>

definition step_ctx ::
    "('z, 's) pipe_ops \<Rightarrow> 'z ctx_scheme \<Rightarrow> 's \<Rightarrow> ('z ctx_scheme \<times> 's) option" where
  "step_ctx I c s = do { (op, c', s') \<leftarrow> po_handlers I (c_op c) c s; Some (c'\<lparr>c_op := op\<rparr>, s') }"

text \<open>The loop conditions of \<open>wait_version\<close> and \<open>wait_stage\<close>: may the task go on?\<close>

definition version_reached :: "('z, 's) pipe_ops \<Rightarrow> 'z ctx_scheme \<Rightarrow> 's \<Rightarrow> bool option" where
  "version_reached I c s = map_option (\<lambda>ver. \<not> c_cno c < ver) (po_ver I s (c_t_past c))"

definition stage_ready ::
    "('z, 's) pipe_ops \<Rightarrow> (nat \<Rightarrow> stage) \<Rightarrow> nat \<Rightarrow> 'z ctx_scheme \<Rightarrow> 's \<Rightarrow> bool option" where
  "stage_ready I stages n c s =
     map_option (\<lambda>ver. \<not> c_cno c < ver \<or> stage_reached n (stages (rcell (unat ver)))) (po_ver I s (c_t_past c))"

definition reload_cno :: "nat \<Rightarrow> ('z, 's, 'm) pipe_sys_scheme \<Rightarrow> ('z, 's, 'm) pipe_sys_scheme" where
  "reload_cno tid w = set_ctx tid ((the_ctx w tid)\<lparr>c_cno := of_nat (rs_committed w)\<rparr>) w"

definition run_handler ::
    "('z, 's) pipe_ops \<Rightarrow> nat \<Rightarrow> ('z, 's, 'm) pipe_sys_scheme \<Rightarrow> ('z, 's, 'm) pipe_sys_scheme option" where
  "run_handler I tid w = do { (c, s) \<leftarrow> step_ctx I (the_ctx w tid) (rs_store w); Some (set_ctx tid c (w\<lparr>rs_store := s\<rparr>)) }"

section \<open>Workers\<close>

definition worker_poll :: "nat \<Rightarrow> ('z, 's, 'm) pipe_sys_scheme \<Rightarrow> ('z, 's, 'm) pipe_sys_scheme option" where
  "worker_poll k w =
     (if rs_wphase w k = EX_POLL \<and> rs_wtid w k \<noteq> Some (rs_wlast w k)
      then Some (set_worker k (case rs_wtid w k of None \<Rightarrow> EX_STOPPED | Some tid \<Rightarrow> EX_HEAD tid 1) w)
      else None)"

definition worker_head :: "nat \<Rightarrow> ('z, 's, 'm) pipe_sys_scheme \<Rightarrow> ('z, 's, 'm) pipe_sys_scheme option" where
  "worker_head k w =
     (case rs_wphase w k of
        EX_HEAD tid n \<Rightarrow>
          let c = the_ctx w tid in
          if c_op c = OP_DONE
          then Some (set_worker k (EX_PUSH tid) (set_stage (sno_of c) STAGE_ALL (w\<lparr>rs_wlast := (rs_wlast w)(k := tid)\<rparr>)))
          else Some (set_worker k (EX_RUN tid n) w)
      | _ \<Rightarrow> None)"

definition worker_reload :: "nat \<Rightarrow> ('z, 's, 'm) pipe_sys_scheme \<Rightarrow> ('z, 's, 'm) pipe_sys_scheme option" where
  "worker_reload k w =
     (case rs_wphase w k of
        EX_RELOAD tid n \<Rightarrow> Some (set_worker k (EX_RUN tid n) (reload_cno tid w))
      | _ \<Rightarrow> None)"

definition worker_store :: "nat \<Rightarrow> ('z, 's, 'm) pipe_sys_scheme \<Rightarrow> ('z, 's, 'm) pipe_sys_scheme option" where
  "worker_store k w =
     (case rs_wphase w k of
        EX_STORE tid n \<Rightarrow> Some (set_worker k (EX_HEAD tid (n + 1)) (set_stage (sno_of (the_ctx w tid)) (STAGE n) w))
      | _ \<Rightarrow> None)"

text \<open>The list of free workers hands them out in order (theory \<open>MPSC\<close>).\<close>

definition worker_push :: "nat \<Rightarrow> ('z, 's, 'm) pipe_sys_scheme \<Rightarrow> ('z, 's, 'm) pipe_sys_scheme option" where
  "worker_push k w =
     (case rs_wphase w k of
        EX_PUSH tid \<Rightarrow> Some (set_worker k EX_POLL (w\<lparr>rs_available := rs_available w @ [k]\<rparr>))
      | _ \<Rightarrow> None)"

text \<open>The exit pipe hands a ticket to a worker it has popped.\<close>

definition give_task :: "nat \<Rightarrow> nat \<Rightarrow> ('z, 's, 'm) pipe_sys_scheme \<Rightarrow> ('z, 's, 'm) pipe_sys_scheme" where
  "give_task k tid w = w\<lparr>rs_wtid := (rs_wtid w)(k := Some tid)\<rparr>"

section \<open>The monitor\<close>

definition monitor_init :: "nat \<Rightarrow> ('z, 's, 'm) pipe_sys_scheme \<Rightarrow> ('z, 's, 'm) pipe_sys_scheme" where
  "monitor_init n w =
     (if n < rs_msub w \<and> the_stage w (n + 1) = STAGE 0 then w\<lparr>rs_mo := MO_INIT (n + 1)\<rparr>
      else if n > rs_minit w then w\<lparr>rs_minit := n, rs_mo := MO_ADVANCE\<rparr>
      else w\<lparr>rs_mo := MO_COMMIT (rs_mcom w)\<rparr>)"

definition monitor_commit :: "nat \<Rightarrow> ('z, 's, 'm) pipe_sys_scheme \<Rightarrow> ('z, 's, 'm) pipe_sys_scheme" where
  "monitor_commit n w =
     (if n < rs_minit w \<and> the_stage w (n + 1) = STAGE_ALL then w\<lparr>rs_mo := MO_RETIRE n\<rparr>
      else if n > rs_mcom w then w\<lparr>rs_mcom := n, rs_mo := MO_PUBLISH\<rparr>
      else w\<lparr>rs_mo := MO_GC\<rparr>)"

text \<open>\<open>ckpt\<close>: the controller keeps the frontier of flagged checkpoints.\<close>

definition monitor_retire ::
    "bool \<Rightarrow> ('z, 's) pipe_ops \<Rightarrow> nat \<Rightarrow> ('z, 's, 'm) pipe_sys_scheme \<Rightarrow> ('z, 's, 'm) pipe_sys_scheme" where
  "monitor_retire ckpt I n w =
     (let tid = n + 1;
          (c, g) = retire (po_node_size I (rs_store w)) (map_option (\<lambda>f. f (rs_store w)) (po_stats I)) (of_nat tid)
                     (the_ctx w tid) (gs_gc (rs_gc w));
          w' = set_ctx tid c (w\<lparr>rs_gc := (rs_gc w)\<lparr>gs_gc := g\<rparr>, rs_mo := MO_COMMIT tid\<rparr>)
      in if ckpt \<and> c_new_checkpoint c then w'\<lparr>rs_checkpoint := tid\<rparr> else w')"

definition monitor_publish :: "('z, 's, 'm) pipe_sys_scheme \<Rightarrow> ('z, 's, 'm) pipe_sys_scheme option" where
  "monitor_publish w =
     (case gs_pub (rs_gc w) of
        PUB_IDLE \<Rightarrow> rs_do_gc (PubBegin (c_root (the_ctx w (rs_mcom w))) (of_nat (rs_mcom w))) w
      | PUB_ROOT r v \<Rightarrow> rs_do_gc PubRoot w
      | PUB_VERSION r v \<Rightarrow> rs_do_gc PubVersion w
      | PUB_END \<Rightarrow> map_option (\<lambda>w. w\<lparr>rs_mo := MO_STORE\<rparr>) (rs_do_gc PubEnd w))"

text \<open>\<open>try_reclaim\<close>, with the loads of the readers' slots as actions of their own.\<close>

definition monitor_reclaim :: "('z, 's) pipe_ops \<Rightarrow> nat \<Rightarrow> ('z, 's, 'm) pipe_sys_scheme \<Rightarrow> ('z, 's, 'm) pipe_sys_scheme option" where
  "monitor_reclaim I request w =
     (if \<not> g_enabled (gs_gc (rs_gc w)) then Some (w\<lparr>rs_mo := MO_ACK request\<rparr>)
      else case gs_rc (rs_gc w) 0 of
        RC_IDLE \<Rightarrow> rs_do_gc (RcStart 0 (of_nat (rs_mcom w))) w
      | RC_SCAN i m v \<Rightarrow>
          if i < length (g_readers (gs_gc (rs_gc w))) then rs_do_gc (RcScan 0) w
          else do {
            G \<leftarrow> gc_do (RcFree 0) (rs_gc w);
            (g, s) \<leftarrow> try_reclaim_safe (po_free I) (po_free_checkpoint I) (min m v) (gs_gc (rs_gc w)) (rs_store w);
            Some (w\<lparr>rs_gc := G\<lparr>gs_gc := g\<rparr>, rs_store := s, rs_mo := MO_ACK request\<rparr>) })"

text \<open>\<open>margin\<close>: how far the monitor lets the pipes run on after its last commit.\<close>

definition monitor_step ::
    "bool \<Rightarrow> (nat \<Rightarrow> nat) \<Rightarrow> ('z, 's) pipe_ops \<Rightarrow> ('z, 's, 'm) pipe_sys_scheme \<Rightarrow> ('z, 's, 'm) pipe_sys_scheme option" where
  "monitor_step ckpt margin I w =
     (case rs_mo w of
        MO_TOP \<Rightarrow>
          if \<not> rs_mstop w \<or> rs_mcom w < rs_msub w then Some (w\<lparr>rs_mstop := rs_stop w, rs_mo := MO_LOAD\<rparr>)
          else Some (w\<lparr>rs_inited := rs_minit w + margin (rs_minit w), rs_mo := MO_STOPPED\<rparr>)
      | MO_LOAD \<Rightarrow> Some (w\<lparr>rs_msub := rs_submitted w, rs_mo := MO_INIT (rs_minit w)\<rparr>)
      | MO_INIT n \<Rightarrow> Some (monitor_init n w)
      | MO_ADVANCE \<Rightarrow> Some (w\<lparr>rs_inited := rs_minit w, rs_mo := MO_COMMIT (rs_mcom w)\<rparr>)
      | MO_COMMIT n \<Rightarrow> Some (monitor_commit n w)
      | MO_RETIRE n \<Rightarrow> Some (monitor_retire ckpt I n w)
      | MO_PUBLISH \<Rightarrow> monitor_publish w
      | MO_STORE \<Rightarrow> Some (w\<lparr>rs_committed := rs_mcom w, rs_mo := MO_GC\<rparr>)
      | MO_GC \<Rightarrow>
          if rs_gc_requested w > rs_gc_completed w \<or> rs_mcom w > rs_mfrontier w
          then Some (w\<lparr>rs_mo := MO_RECLAIM (rs_gc_requested w)\<rparr>)
          else Some (w\<lparr>rs_mo := MO_TOP\<rparr>)
      | MO_RECLAIM request \<Rightarrow> monitor_reclaim I request w
      | MO_ACK request \<Rightarrow> Some (w\<lparr>rs_mfrontier := rs_mcom w, rs_gc_completed := request, rs_mo := MO_TOP\<rparr>)
      | MO_STOPPED \<Rightarrow> None)"

end
