(* ===== verification/Concow.thy ===== *)
theory Concow
  imports Pipeline
begin

text \<open>
  The pipelined controller (\<^verbatim>\<open>lib/conctrl/concow.hpp\<close>): an entry pipe, inner pipes and an exit pipe, each
  a thread that takes the tickets in order once its predecessor has let them go; the exit pipe hands a task
  that is not finished to a worker. Clients, workers and the monitor are those of theory \<open>Pipeline\<close>.
\<close>

definition BATCH_SIZE :: nat where
  "BATCH_SIZE = 4096"

section \<open>The state\<close>

text \<open>
  A pipe at the head of its loop, with a ticket let go by its predecessor, inside \<open>iter_exec\<close>, in the wait
  before a checkpoint (entry), with a popped worker (exit), before it lets the ticket go, at its end.
  \<open>pp_last\<close> bounds the current call of the loop function, \<open>pp_final\<close> marks the call after the stop flag.
\<close>

datatype pipe_phase = PP_LOOP | PP_WORK | PP_EXEC | PP_CKPT | PP_GIVE nat | PP_PUT | PP_END

record pipe_state =
  pp_tid :: nat
  pp_last :: nat
  pp_final :: bool
  pp_cache :: nat
  pp_phase :: pipe_phase

record ('z, 's) concow = "('z, 's) pipe_sys" +
  cc_pipes :: nat
  cc_pace :: "nat \<Rightarrow> nat"
  cc_pipe :: "nat \<Rightarrow> pipe_state"
  cc_last_structural :: nat
  cc_last_checkpoint :: nat
  cc_fat_appends :: nat
  cc_structural :: nat
  cc_blocked :: nat
  cc_checkpoints :: nat

definition pipe_init :: pipe_state where
  "pipe_init = \<lparr>pp_tid = 1, pp_last = 0, pp_final = False, pp_cache = 0, pp_phase = PP_LOOP\<rparr>"

definition concow_new ::
    "('z, 's) pipe_ops \<Rightarrow> 'z ctx_scheme \<Rightarrow> nat \<Rightarrow> nat \<Rightarrow> nat \<Rightarrow> addr \<Rightarrow> 's \<Rightarrow> nat \<Rightarrow> bool \<Rightarrow> nat
      \<Rightarrow> pipe_error + ('z, 's) concow" where
  "concow_new I zero n_clients n_pipes n_workers t_init s n_readers gc_on fat_slots =
     (case validate_threads n_pipes of Inl e \<Rightarrow> Inl e | Inr n_pipes \<Rightarrow>
      case validate_threads n_workers of Inl e \<Rightarrow> Inl e | Inr n_workers \<Rightarrow>
      case validate_slots I fat_slots of Inl e \<Rightarrow> Inl e | Inr fat_slots \<Rightarrow>
        Inr (pipe_sys.extend (pipe_start zero t_init s n_clients n_workers n_readers gc_on fat_slots)
               (concow.fields n_pipes (\<lambda>_. 0) (\<lambda>_. pipe_init) 0 0 0 0 0 0)))"

text \<open>\<^verbatim>\<open>pipes_[p].pace\<close>; that of the entry pipe is moved by the monitor.\<close>

definition pace :: "nat \<Rightarrow> ('z, 's) concow \<Rightarrow> nat" where
  "pace p w = (if p = 0 then rs_inited w else cc_pace w p)"

definition set_pipe :: "nat \<Rightarrow> pipe_state \<Rightarrow> ('z, 's) concow \<Rightarrow> ('z, 's) concow" where
  "set_pipe p st w = w\<lparr>cc_pipe := (cc_pipe w)(p := st)\<rparr>"

definition set_phase :: "nat \<Rightarrow> pipe_phase \<Rightarrow> ('z, 's) concow \<Rightarrow> ('z, 's) concow" where
  "set_phase p ph w = set_pipe p ((cc_pipe w p)\<lparr>pp_phase := ph\<rparr>) w"

definition next_ticket :: "nat \<Rightarrow> ('z, 's) concow \<Rightarrow> ('z, 's) concow" where
  "next_ticket p w = set_pipe p ((cc_pipe w p)\<lparr>pp_tid := pp_tid (cc_pipe w p) + 1, pp_phase := PP_LOOP\<rparr>) w"

section \<open>Clients\<close>

text \<open>The tickets of cell 0 carry no update: there the entry pipe may rebuild a checkpoint.\<close>

definition concow_skips :: "nat \<Rightarrow> bool" where
  "concow_skips tid \<longleftrightarrow> tid mod BUFFER_SIZE = 0"

definition concow_fill :: "nat \<Rightarrow> bool \<Rightarrow> nat \<Rightarrow> u64 \<Rightarrow> u64 \<Rightarrow> 'z ctx_scheme \<Rightarrow> 'z ctx_scheme" where
  "concow_fill fat_slots gc_on tid key val c =
     (if concow_skips tid
      then c\<lparr>c_retry := False, c_wait_child := False, c_wait_subtree := False, c_new_checkpoint := False,
             c_gc_enabled := False, c_checkpoint_rebuilt := False, c_fat_slots := fat_slots, c_sno := of_nat tid\<rparr>
      else init_task fat_slots gc_on (of_nat tid) key val c)"

section \<open>Pipes\<close>

text \<open>The loop of \<open>pipe_main_\<close>: the next batch, or after the stop flag what was submitted.\<close>

definition pipe_epoch :: "nat \<Rightarrow> ('z, 's) concow \<Rightarrow> ('z, 's) concow" where
  "pipe_epoch p w =
     (let st = cc_pipe w p in
      if pp_final st then set_phase p PP_END w
      else if rs_stop w then set_pipe p (st\<lparr>pp_last := rs_submitted w, pp_final := True\<rparr>) w
      else set_pipe p (st\<lparr>pp_last := pp_last st + BATCH_SIZE\<rparr>) w)"

definition pipe_wait :: "nat \<Rightarrow> ('z, 's) concow \<Rightarrow> ('z, 's) concow" where
  "pipe_wait p w =
     (let st = cc_pipe w p;
          cache = (if pp_cache st < pp_tid st then pace p w else pp_cache st)
      in set_pipe p (st\<lparr>pp_cache := cache, pp_phase := (if cache < pp_tid st then PP_LOOP else PP_WORK)\<rparr>) w)"

definition pipe_put :: "nat \<Rightarrow> ('z, 's) concow \<Rightarrow> ('z, 's) concow" where
  "pipe_put p w = next_ticket p (w\<lparr>cc_pace := (cc_pace w)(p + 1 := pp_tid (cc_pipe w p))\<rparr>)"

definition after_handler :: "nat \<Rightarrow> nat \<Rightarrow> ('z, 's) concow \<Rightarrow> ('z, 's) concow" where
  "after_handler p tid w = set_phase p (if c_retry (the_ctx w tid) then PP_EXEC else PP_PUT) w"

text \<open>
  \<open>iter_exec\<close>. The spin in \<open>wait_version\<close> reads the commit frontier until the version of the past node has
  been committed.
\<close>

definition pipe_exec :: "('z, 's) pipe_ops \<Rightarrow> nat \<Rightarrow> ('z, 's) concow \<Rightarrow> ('z, 's) concow option" where
  "pipe_exec I p w =
     (let tid = pp_tid (cc_pipe w p); c = the_ctx w tid in
      if c_wait_child c then Some (after_handler p tid w)
      else do {
        go \<leftarrow> (if c_wait_subtree c then version_reached I c (rs_store w) else Some True);
        if go then map_option (after_handler p tid) (run_handler I tid w) else Some (reload_cno tid w) })"

text \<open>\<open>entry_begin\<close> is the first handler, through the fat hook where the tree has one.\<close>

definition entry_begin :: "('z, 's) pipe_ops \<Rightarrow> nat \<Rightarrow> ('z, 's) concow \<Rightarrow> ('z, 's) concow option" where
  "entry_begin I tid w =
     (let c = (the_ctx w tid)\<lparr>c_t_past := c_root (the_ctx w (tid - 1))\<rparr> in
      case po_begin I of
        Some begin \<Rightarrow>
          if rs_fat_slots w \<noteq> 0
          then do {
            let ready = (cc_last_structural w \<le> rs_committed w);
            (op, c', s') \<leftarrow> begin ready c (rs_store w);
            let w' = set_ctx tid (c'\<lparr>c_op := op\<rparr>)
                       (w\<lparr>rs_store := s', cc_blocked := cc_blocked w + (if ready then 0 else 1)\<rparr>);
            Some (if c_root c' = c_t_past c' then w'\<lparr>cc_fat_appends := cc_fat_appends w + 1\<rparr>
                  else w'\<lparr>cc_last_structural := tid, cc_structural := cc_structural w + 1\<rparr>) }
          else do {
            (op, c', s') \<leftarrow> po_handlers I 0 c (rs_store w);
            Some (set_ctx tid (c'\<lparr>c_op := op\<rparr>) (w\<lparr>rs_store := s'\<rparr>)) }
      | None \<Rightarrow> do {
          (op, c', s') \<leftarrow> po_handlers I 0 c (rs_store w);
          Some (set_ctx tid (c'\<lparr>c_op := op\<rparr>) (w\<lparr>rs_store := s'\<rparr>)) })"

definition entry_work :: "('z, 's) pipe_ops \<Rightarrow> ('z, 's) concow \<Rightarrow> ('z, 's) concow option" where
  "entry_work I w =
     (let tid = pp_tid (cc_pipe w 0); c = the_ctx w tid; past = c_root (the_ctx w (tid - 1)) in
      if tid mod BUFFER_SIZE = 0
      then let c' = c\<lparr>c_checkpoint_rebuilt := False, c_gc_enabled := g_enabled (gs_gc (rs_gc w))\<rparr> in
        if cc_last_checkpoint w < rs_checkpoint w
        then Some (set_phase 0 PP_CKPT (set_ctx tid (c'\<lparr>c_t_past := past\<rparr>) (w\<lparr>cc_last_checkpoint := tid\<rparr>)))
        else Some (set_phase 0 PP_PUT (set_ctx tid (c'\<lparr>c_root := past\<rparr>) w))
      else if c_op c = OP_INIT then map_option (after_handler 0 tid) (entry_begin I tid w)
      else Some (set_phase 0 PP_PUT w))"

definition entry_checkpoint :: "('z, 's) pipe_ops \<Rightarrow> ('z, 's) concow \<Rightarrow> ('z, 's) concow option" where
  "entry_checkpoint I w = do {
     let tid = pp_tid (cc_pipe w 0);
     go \<leftarrow> version_reached I (the_ctx w tid) (rs_store w);
     if go
     then do {
       (c, s) \<leftarrow> po_checkpoint I (the_ctx w tid) (rs_store w);
       Some (set_phase 0 PP_PUT (set_ctx tid (c\<lparr>c_checkpoint_rebuilt := True\<rparr>)
               (w\<lparr>rs_store := s, cc_last_structural := tid, cc_checkpoints := cc_checkpoints w + 1\<rparr>))) }
     else Some (reload_cno tid w) }"

text \<open>The exit pipe spins while no worker is free.\<close>

definition exit_work :: "nat \<Rightarrow> ('z, 's) concow \<Rightarrow> ('z, 's) concow option" where
  "exit_work p w =
     (let tid = pp_tid (cc_pipe w p) in
      if c_op (the_ctx w tid) = OP_DONE then Some (next_ticket p (set_stage tid STAGE_ALL w))
      else case rs_available w of
        [] \<Rightarrow> None
      | k # ks \<Rightarrow> Some (set_phase p (PP_GIVE k) (w\<lparr>rs_available := ks\<rparr>)))"

definition pipe_work :: "('z, 's) pipe_ops \<Rightarrow> nat \<Rightarrow> ('z, 's) concow \<Rightarrow> ('z, 's) concow option" where
  "pipe_work I p w =
     (if p = 0 then entry_work I w
      else if p = cc_pipes w then exit_work p w
      else Some (set_phase p (if c_op (the_ctx w (pp_tid (cc_pipe w p))) = OP_DONE then PP_PUT else PP_EXEC) w))"

definition pipe_step :: "('z, 's) pipe_ops \<Rightarrow> nat \<Rightarrow> ('z, 's) concow \<Rightarrow> ('z, 's) concow option" where
  "pipe_step I p w =
     (if cc_pipes w < p then None
      else case pp_phase (cc_pipe w p) of
        PP_LOOP \<Rightarrow> Some (if pp_tid (cc_pipe w p) > pp_last (cc_pipe w p) then pipe_epoch p w else pipe_wait p w)
      | PP_WORK \<Rightarrow> pipe_work I p w
      | PP_EXEC \<Rightarrow> pipe_exec I p w
      | PP_CKPT \<Rightarrow> entry_checkpoint I w
      | PP_GIVE k \<Rightarrow> Some (next_ticket p (give_task k (pp_tid (cc_pipe w p)) w))
      | PP_PUT \<Rightarrow> Some (pipe_put p w)
      | PP_END \<Rightarrow> None)"

section \<open>Workers and the monitor\<close>

definition worker_run :: "('z, 's) pipe_ops \<Rightarrow> nat \<Rightarrow> ('z, 's) concow \<Rightarrow> ('z, 's) concow option" where
  "worker_run I k w =
     (case rs_wphase w k of
        EX_RUN tid n \<Rightarrow>
          let c = the_ctx w tid in do {
            go \<leftarrow> (if c_wait_subtree c then version_reached I c (rs_store w)
                  else stage_ready I (rs_stages w) (n + (if c_wait_child c then 1 else 0)) c (rs_store w));
            if go
            then map_option (\<lambda>w'. set_worker k (if c_retry (the_ctx w' tid) then EX_RUN tid n else EX_STORE tid n) w')
                   (run_handler I tid w)
            else Some (if c_wait_subtree c then reload_cno tid w else set_worker k (EX_RELOAD tid n) w) }
      | _ \<Rightarrow> None)"

definition worker_step :: "('z, 's) pipe_ops \<Rightarrow> nat \<Rightarrow> ('z, 's) concow \<Rightarrow> ('z, 's) concow option" where
  "worker_step I k w =
     (case rs_wphase w k of
        EX_POLL \<Rightarrow> worker_poll k w
      | EX_HEAD tid n \<Rightarrow> worker_head k w
      | EX_RUN tid n \<Rightarrow> worker_run I k w
      | EX_RELOAD tid n \<Rightarrow> worker_reload k w
      | EX_STORE tid n \<Rightarrow> worker_store k w
      | EX_PUSH tid \<Rightarrow> worker_push k w
      | EX_STOPPED \<Rightarrow> None)"

text \<open>The bubbles that end the pipeline: to the end of the batch and one batch more.\<close>

definition concow_margin :: "nat \<Rightarrow> nat" where
  "concow_margin n = BATCH_SIZE + (BATCH_SIZE - n mod BATCH_SIZE) mod BATCH_SIZE"

section \<open>The system\<close>

text \<open>
  The destructor: the stop flag once no call is under way, the stop mark for the workers when the monitor and
  the pipes have ended, and the last reclamation when the workers have.
\<close>

datatype cc_act =
    CcCall nat u64 u64 | CcReserve nat | CcPass nat | CcFill nat | CcSignal nat
  | CcPipe nat | CcWorker nat | CcMonitor
  | CcPin nat | CcUnpin nat | CcRequest | CcStop | CcRelease | CcReclaim

definition clients_idle :: "('z, 's, 'm) pipe_sys_scheme \<Rightarrow> bool" where
  "clients_idle w \<longleftrightarrow> list_all (\<lambda>cl. rs_client w cl = CL_IDLE) [0..<rs_clients w]"

definition workers_stopped :: "('z, 's, 'm) pipe_sys_scheme \<Rightarrow> bool" where
  "workers_stopped w \<longleftrightarrow> list_all (\<lambda>k. rs_wphase w k = EX_STOPPED) [0..<rs_workers w]"

definition pipes_ended :: "('z, 's) concow \<Rightarrow> bool" where
  "pipes_ended w \<longleftrightarrow> list_all (\<lambda>p. pp_phase (cc_pipe w p) = PP_END) [0..<cc_pipes w + 1]"

fun cc_do :: "('z, 's) pipe_ops \<Rightarrow> cc_act \<Rightarrow> ('z, 's) concow \<Rightarrow> ('z, 's) concow option" where
  "cc_do I (CcCall cl key val) w = client_call cl key val w"
| "cc_do I (CcReserve cl) w =
     map_option (\<lambda>r. case r of Inl e \<Rightarrow> set_client cl CL_IDLE w | Inr w' \<Rightarrow> w') (client_reserve concow_skips cl w)"
| "cc_do I (CcPass cl) w = client_pass cl w"
| "cc_do I (CcFill cl) w = client_fill (concow_fill (rs_fat_slots w) (g_enabled (gs_gc (rs_gc w)))) cl w"
| "cc_do I (CcSignal cl) w = client_signal concow_skips cl w"
| "cc_do I (CcPipe p) w = pipe_step I p w"
| "cc_do I (CcWorker k) w = (if k < rs_workers w then worker_step I k w else None)"
| "cc_do I CcMonitor w = monitor_step True concow_margin I w"
| "cc_do I (CcPin cid) w = rs_do_gc (Reader cid) w"
| "cc_do I (CcUnpin cid) w = rs_do_gc (Unpin cid) w"
| "cc_do I CcRequest w = Some (gc_request w)"
| "cc_do I CcStop w = (if clients_idle w then Some (w\<lparr>rs_stop := True\<rparr>) else None)"
| "cc_do I CcRelease w =
     (if rs_mo w = MO_STOPPED \<and> pipes_ended w then Some (w\<lparr>rs_wtid := (\<lambda>_. None)\<rparr>) else None)"
| "cc_do I CcReclaim w =
     (if rs_mo w = MO_STOPPED \<and> workers_stopped w
      then do {
        (g, s) \<leftarrow> try_reclaim (po_free I) (po_free_checkpoint I) (of_nat (rs_committed w)) (gs_gc (rs_gc w)) (rs_store w);
        Some (w\<lparr>rs_gc := (rs_gc w)\<lparr>gs_gc := g\<rparr>, rs_store := s\<rparr>) }
      else None)"

inductive cc_reach :: "('z, 's) pipe_ops \<Rightarrow> ('z, 's) concow \<Rightarrow> ('z, 's) concow \<Rightarrow> bool" for I w0 where
  start: "cc_reach I w0 w0"
| step: "cc_reach I w0 w \<Longrightarrow> cc_do I a w = Some w' \<Longrightarrow> cc_reach I w0 w'"

section \<open>Counters\<close>

definition concow_statistics :: "('z, 's) concow \<Rightarrow> nat \<times> nat \<times> nat \<times> nat" where
  "concow_statistics w = (cc_fat_appends w, cc_structural w, cc_blocked w, cc_checkpoints w)"

end
