(* ===== verification/Pipeline_Ring.thy ===== *)
theory Pipeline_Ring
  imports Concow
begin

text \<open>
  The ring of the pipelined controllers: which thread owns a ticket, what its cell holds, and that clients,
  workers and the monitor keep it. The pipes are in \<open>Concow_Correct\<close>.
\<close>

section \<open>What the controllers rely on\<close>

text \<open>No operation of a tree changes the number, key or value of its task; a checkpoint keeps the operand.\<close>

definition same_task :: "'z ctx_scheme \<Rightarrow> 'z ctx_scheme \<Rightarrow> bool" where
  "same_task c c' \<longleftrightarrow> c_sno c' = c_sno c \<and> c_key c' = c_key c \<and> c_val c' = c_val c"

lemma same_task_refl [simp]: "same_task c c"
  by (simp add: same_task_def)

lemma same_task_trans: "same_task a b \<Longrightarrow> same_task b c \<Longrightarrow> same_task a c"
  by (simp add: same_task_def)

locale pipe_tree =
  fixes I :: "('z, 's) pipe_ops"
  assumes handlers_task: "po_handlers I op c s = Some (op', c', s') \<Longrightarrow> same_task c c'"
    and begin_task: "po_begin I = Some f \<Longrightarrow> f b c s = Some (op', c', s') \<Longrightarrow> same_task c c'"
    and try_task: "po_try I = Some g \<Longrightarrow> g v c s = Some (r, c', s') \<Longrightarrow> same_task c c'"
    and reserve_task: "po_reserve I = Some g \<Longrightarrow> g v c s = Some (r, c', s') \<Longrightarrow> same_task c c'"
    and configure_task: "po_configure I = Some h \<Longrightarrow> same_task c (h b c)"
    and checkpoint_task: "po_checkpoint I c s = Some (c', s') \<Longrightarrow> same_task c c' \<and> c_op c' = c_op c"
begin

lemma step_ctx_task: "step_ctx I c s = Some (c', s') \<Longrightarrow> same_task c c'"
  by (auto simp: step_ctx_def bind_Some_iff same_task_def dest!: handlers_task)

end

section \<open>Owners\<close>

text \<open>
  Who owns a ticket: nobody yet, a client before or after it filled the cell, the pipes, a worker, nobody any
  more.
\<close>

datatype place = PL_NONE | PL_WAIT nat | PL_READY nat | PL_PIPE | PL_WORKER nat | PL_DONE

definition task_ok :: "'z ctx_scheme \<Rightarrow> (u64 \<times> u64) option \<Rightarrow> nat \<Rightarrow> bool" where
  "task_ok c lg t \<longleftrightarrow> c_sno c = of_nat t \<and> (\<forall>key val. lg = Some (key, val) \<longrightarrow> c_key c = key \<and> c_val c = val)"

lemma task_ok_same: "task_ok c lg t \<Longrightarrow> same_task c c' \<Longrightarrow> task_ok c' lg t"
  by (auto simp: task_ok_def same_task_def)

fun cell_ok :: "stage \<Rightarrow> 'z ctx_scheme \<Rightarrow> (u64 \<times> u64) option \<Rightarrow> nat \<Rightarrow> place \<Rightarrow> bool" where
  "cell_ok st c lg t PL_NONE \<longleftrightarrow> st = STAGE_ALL \<and> c_op c = OP_DONE"
| "cell_ok st c lg t (PL_WAIT cl) \<longleftrightarrow> st = STAGE_ALL \<and> c_op c = OP_DONE"
| "cell_ok st c lg t (PL_READY cl) \<longleftrightarrow> st = STAGE_ALL \<and> task_ok c lg t"
| "cell_ok st c lg t PL_PIPE \<longleftrightarrow> st = STAGE 0 \<and> task_ok c lg t"
| "cell_ok st c lg t (PL_WORKER k) \<longleftrightarrow> st \<noteq> STAGE_ALL \<and> task_ok c lg t"
| "cell_ok st c lg t PL_DONE \<longleftrightarrow> st = STAGE_ALL \<and> c_op c = OP_DONE \<and> task_ok c lg t"

text \<open>The tickets the monitor has admitted and has counted as finished.\<close>

definition mo_inext :: "('z, 's, 'm) pipe_sys_scheme \<Rightarrow> nat" where
  "mo_inext w = (case rs_mo w of MO_INIT n \<Rightarrow> n | _ \<Rightarrow> rs_minit w)"

definition mo_cnext :: "('z, 's, 'm) pipe_sys_scheme \<Rightarrow> nat" where
  "mo_cnext w = (case rs_mo w of MO_COMMIT n \<Rightarrow> n | MO_RETIRE n \<Rightarrow> n | _ \<Rightarrow> rs_mcom w)"

definition in_window :: "('z, 's, 'm) pipe_sys_scheme \<Rightarrow> nat \<Rightarrow> bool" where
  "in_window w t \<longleftrightarrow> rs_committed w \<le> t \<and> t < rs_committed w + BUFFER_SIZE"

definition ring_order :: "('z, 's, 'm) pipe_sys_scheme \<Rightarrow> bool" where
  "ring_order w \<longleftrightarrow>
     rs_committed w \<le> rs_mcom w \<and> rs_mcom w \<le> mo_cnext w \<and> mo_cnext w \<le> rs_minit w \<and> rs_minit w \<le> mo_inext w \<and>
     mo_inext w \<le> rs_msub w \<and> rs_msub w \<le> rs_submitted w \<and> rs_submitted w \<le> MAX_TICKET \<and>
     mo_inext w < rs_committed w + BUFFER_SIZE"

definition ring_cells :: "('z, 's, 'm) pipe_sys_scheme \<Rightarrow> (nat \<Rightarrow> place) \<Rightarrow> bool" where
  "ring_cells w pl \<longleftrightarrow> (\<forall>t. in_window w t \<longrightarrow> cell_ok (the_stage w t) (the_ctx w t) (rs_log w t) t (pl t))"

fun holds_wait :: "client_phase \<Rightarrow> nat \<Rightarrow> bool" where
  "holds_wait (CL_SPIN u key val) t \<longleftrightarrow> u = t"
| "holds_wait (CL_FILL u key val) t \<longleftrightarrow> u = t"
| "holds_wait p t \<longleftrightarrow> False"

fun holds_ready :: "client_phase \<Rightarrow> nat \<Rightarrow> bool" where
  "holds_ready (CL_SIGNAL u key val) t \<longleftrightarrow> u = t"
| "holds_ready p t \<longleftrightarrow> False"

text \<open>What a client that has its ticket knows of it.\<close>

fun client_ok :: "(nat \<Rightarrow> bool) \<Rightarrow> ('z, 's, 'm) pipe_sys_scheme \<Rightarrow> client_phase \<Rightarrow> bool" where
  "client_ok skips w (CL_SPIN t key val) \<longleftrightarrow> rs_log w t = (if skips t then None else Some (key, val))"
| "client_ok skips w (CL_FILL t key val) \<longleftrightarrow>
     rs_log w t = (if skips t then None else Some (key, val)) \<and> t < rs_committed w + BUFFER_SIZE"
| "client_ok skips w (CL_SIGNAL t key val) \<longleftrightarrow>
     rs_log w t = (if skips t then None else Some (key, val)) \<and> t < rs_committed w + BUFFER_SIZE"
| "client_ok skips w p \<longleftrightarrow> True"

definition ring_clients :: "(nat \<Rightarrow> bool) \<Rightarrow> ('z, 's, 'm) pipe_sys_scheme \<Rightarrow> (nat \<Rightarrow> place) \<Rightarrow> bool" where
  "ring_clients skips w pl \<longleftrightarrow>
     (\<forall>cl. client_ok skips w (rs_client w cl) \<and> (rs_client w cl \<noteq> CL_IDLE \<longrightarrow> cl < rs_clients w \<and> \<not> rs_stop w)) \<and>
     (\<forall>cl t. (holds_wait (rs_client w cl) t \<longleftrightarrow> pl t = PL_WAIT cl) \<and> (holds_ready (rs_client w cl) t \<longleftrightarrow> pl t = PL_READY cl))"

text \<open>A worker owns the ticket it runs, and the one it has been given.\<close>

definition worker_ticket :: "('z, 's, 'm) pipe_sys_scheme \<Rightarrow> nat \<Rightarrow> nat option" where
  "worker_ticket w k =
     (case rs_wphase w k of
        EX_POLL \<Rightarrow> if rs_wtid w k = Some (rs_wlast w k) then None else rs_wtid w k
      | EX_HEAD t n \<Rightarrow> Some t | EX_RUN t n \<Rightarrow> Some t | EX_RELOAD t n \<Rightarrow> Some t | EX_STORE t n \<Rightarrow> Some t
      | EX_PUSH t \<Rightarrow> None | EX_STOPPED \<Rightarrow> None)"

definition worker_idle :: "('z, 's, 'm) pipe_sys_scheme \<Rightarrow> nat \<Rightarrow> bool" where
  "worker_idle w k \<longleftrightarrow> rs_wphase w k = EX_POLL \<and> rs_wtid w k = Some (rs_wlast w k)"

text \<open>A worker that runs or reports a ticket still has it in its ticket cell, unless the stop mark is there.\<close>

fun exec_ticket :: "exec_phase \<Rightarrow> nat option" where
  "exec_ticket EX_POLL = None"
| "exec_ticket (EX_HEAD t n) = Some t"
| "exec_ticket (EX_RUN t n) = Some t"
| "exec_ticket (EX_RELOAD t n) = Some t"
| "exec_ticket (EX_STORE t n) = Some t"
| "exec_ticket (EX_PUSH t) = Some t"
| "exec_ticket EX_STOPPED = None"

definition ring_workers :: "('z, 's, 'm) pipe_sys_scheme \<Rightarrow> (nat \<Rightarrow> place) \<Rightarrow> bool" where
  "ring_workers w pl \<longleftrightarrow>
     (\<forall>k t. worker_ticket w k = Some t \<longleftrightarrow> pl t = PL_WORKER k) \<and>
     (\<forall>k t. exec_ticket (rs_wphase w k) = Some t \<longrightarrow> rs_wtid w k = Some t \<or> rs_wtid w k = None) \<and>
     (\<forall>k t. rs_wphase w k = EX_PUSH t \<longrightarrow> rs_wlast w k = t)"

definition ring_places :: "('z, 's, 'm) pipe_sys_scheme \<Rightarrow> (nat \<Rightarrow> place) \<Rightarrow> bool" where
  "ring_places w pl \<longleftrightarrow>
     (\<forall>t. t \<le> mo_cnext w \<longrightarrow> pl t = PL_DONE) \<and>
     (\<forall>t. mo_cnext w < t \<longrightarrow> t \<le> mo_inext w \<longrightarrow> pl t = PL_DONE \<or> pl t = PL_PIPE \<or> (\<exists>k. pl t = PL_WORKER k)) \<and>
     (\<forall>t. mo_inext w < t \<longrightarrow> t \<le> rs_submitted w \<longrightarrow>
        pl t = PL_PIPE \<and> t < rs_committed w + BUFFER_SIZE \<or> (\<exists>cl. pl t = PL_WAIT cl \<or> pl t = PL_READY cl)) \<and>
     (\<forall>t. rs_submitted w < t \<longrightarrow> pl t = PL_NONE)"

definition ring_monitor :: "('z, 's, 'm) pipe_sys_scheme \<Rightarrow> (nat \<Rightarrow> place) \<Rightarrow> bool" where
  "ring_monitor w pl \<longleftrightarrow>
     (rs_mstop w \<longrightarrow> rs_stop w \<and> (rs_mo w \<noteq> MO_LOAD \<longrightarrow> rs_msub w = rs_submitted w)) \<and>
     (rs_mo w \<noteq> MO_STOPPED \<longrightarrow> rs_inited w \<le> rs_minit w) \<and>
     (rs_mo w = MO_STOPPED \<longrightarrow> rs_mcom w = rs_submitted w \<and> rs_stop w) \<and>
     (rs_mo w \<noteq> MO_PUBLISH \<and> rs_mo w \<noteq> MO_STORE \<longrightarrow> rs_committed w = rs_mcom w) \<and>
     (\<forall>n. rs_mo w = MO_RETIRE n \<longrightarrow> n < rs_minit w \<and> pl (Suc n) = PL_DONE)"

definition ring_inv :: "(nat \<Rightarrow> bool) \<Rightarrow> ('z, 's, 'm) pipe_sys_scheme \<Rightarrow> (nat \<Rightarrow> place) \<Rightarrow> bool" where
  "ring_inv skips w pl \<longleftrightarrow>
     ring_order w \<and> ring_cells w pl \<and> ring_clients skips w pl \<and> ring_workers w pl \<and> ring_places w pl \<and> ring_monitor w pl"

lemma ring_invI:
  "ring_order w \<Longrightarrow> ring_cells w pl \<Longrightarrow> ring_clients skips w pl \<Longrightarrow> ring_workers w pl \<Longrightarrow> ring_places w pl \<Longrightarrow>
    ring_monitor w pl \<Longrightarrow> ring_inv skips w pl"
  by (simp add: ring_inv_def)

lemma ring_invD:
  assumes "ring_inv skips w pl"
  shows "ring_order w" "ring_cells w pl" "ring_clients skips w pl" "ring_workers w pl" "ring_places w pl" "ring_monitor w pl"
  using assms by (simp_all add: ring_inv_def)

lemma ring_start: "ring_inv skips (pipe_sys.extend (pipe_start zero t s nc nw nr gc sl) m) (\<lambda>t. if t = 0 then PL_DONE else PL_NONE)"
proof (rule ring_invI)
  let ?w = "pipe_sys.extend (pipe_start zero t s nc nw nr gc sl) m" and ?pl = "\<lambda>t. if t = 0 then PL_DONE else PL_NONE"
  note d = pipe_start_def pipe_sys.defs mo_inext_def mo_cnext_def
  show "ring_order ?w" by (simp add: ring_order_def d MAX_TICKET_def BUFFER_SIZE_def)
  show "ring_cells ?w ?pl" by (auto simp: ring_cells_def in_window_def d rcell_def task_ok_def)
  show "ring_clients skips ?w ?pl" by (simp add: ring_clients_def d)
  show "ring_workers ?w ?pl" by (simp add: ring_workers_def worker_ticket_def d)
  show "ring_places ?w ?pl" by (simp add: ring_places_def d)
  show "ring_monitor ?w ?pl" by (simp add: ring_monitor_def d)
qed

section \<open>Cells\<close>

lemma rcell_near:
  assumes "a \<le> b" "b < a + BUFFER_SIZE" "rcell a = rcell b"
  shows "a = b"
proof -
  have "BUFFER_SIZE dvd b - a" using assms(1,3) by (metis mod_eq_dvd_iff_nat rcell_def)
  moreover have "b - a < BUFFER_SIZE" using assms(1,2) by linarith
  ultimately have "b - a = 0" using nat_dvd_not_less by blast
  then show ?thesis using assms(1) by simp
qed

lemma rcell_window:
  assumes "in_window w t" "in_window w u" "rcell t = rcell u"
  shows "t = u"
  using assms rcell_near [of t u] rcell_near [of u t] unfolding in_window_def by (cases "t \<le> u") auto

text \<open>A step that writes the cell of one ticket of the window.\<close>

lemma ring_cells_update:
  assumes cells: "ring_cells w pl" and t: "in_window w t"
    and upd: "rs_stages w' = (rs_stages w)(rcell t := st)" "rs_ctxs w' = (rs_ctxs w)(rcell t := c)"
    and same: "rs_log w' = rs_log w" "rs_committed w' = rs_committed w"
    and ok: "cell_ok st c (rs_log w t) t p"
  shows "ring_cells w' (pl(t := p))"
  unfolding ring_cells_def
proof (intro allI impI)
  fix u assume u: "in_window w' u"
  then have uw: "in_window w u" by (simp add: in_window_def same)
  show "cell_ok (the_stage w' u) (the_ctx w' u) (rs_log w' u) u ((pl(t := p)) u)"
  proof (cases "u = t")
    case True
    then show ?thesis using ok by (simp add: upd same)
  next
    case False
    then have "rcell u \<noteq> rcell t" using rcell_window [OF uw t] by blast
    then show ?thesis using cells uw False by (simp add: ring_cells_def upd same)
  qed
qed

lemma ring_cells_frame:
  "ring_cells w pl \<Longrightarrow> rs_stages w' = rs_stages w \<Longrightarrow> rs_ctxs w' = rs_ctxs w \<Longrightarrow> rs_log w' = rs_log w \<Longrightarrow>
    rs_committed w' = rs_committed w \<Longrightarrow> ring_cells w' pl"
  by (simp add: ring_cells_def in_window_def)

lemma ring_cellsD: "ring_cells w pl \<Longrightarrow> in_window w t \<Longrightarrow> cell_ok (the_stage w t) (the_ctx w t) (rs_log w t) t (pl t)"
  by (simp add: ring_cells_def)

text \<open>Every cell belongs to a ticket of the window.\<close>

lemma window_cell: "\<exists>t. in_window w t \<and> rcell t = rcell i"
proof -
  let ?c = "rs_committed w"
  let ?t = "?c + (i + (BUFFER_SIZE - ?c mod BUFFER_SIZE)) mod BUFFER_SIZE"
  have B: "0 < BUFFER_SIZE" by (simp add: BUFFER_SIZE_def)
  have "?t mod BUFFER_SIZE = (?c + (i + (BUFFER_SIZE - ?c mod BUFFER_SIZE))) mod BUFFER_SIZE" by (simp add: mod_add_right_eq)
  also have "\<dots> = (?c mod BUFFER_SIZE + (BUFFER_SIZE - ?c mod BUFFER_SIZE) + i) mod BUFFER_SIZE"
    using mod_add_left_eq [of ?c BUFFER_SIZE "i + (BUFFER_SIZE - ?c mod BUFFER_SIZE)"] by (simp only: ac_simps)
  also have "?c mod BUFFER_SIZE + (BUFFER_SIZE - ?c mod BUFFER_SIZE) = BUFFER_SIZE"
    using mod_less_divisor [OF B, of ?c] by simp
  finally have "rcell ?t = rcell i" by (simp add: rcell_def)
  moreover have "in_window w ?t" using mod_less_divisor [OF B] by (simp add: in_window_def)
  ultimately show ?thesis by blast
qed

text \<open>A write to a context that keeps its task, and its operand where no thread works on the cell.\<close>

lemma ring_cells_ctx:
  assumes cells: "ring_cells w pl" and same: "same_task (rs_ctxs w (rcell t)) c"
    and op: "c_op c = c_op (rs_ctxs w (rcell t)) \<or> in_window w t \<and> (pl t = PL_PIPE \<or> (\<exists>k. pl t = PL_WORKER k))"
    and upd: "rs_stages w' = rs_stages w" "rs_ctxs w' = (rs_ctxs w)(rcell t := c)" "rs_log w' = rs_log w"
      "rs_committed w' = rs_committed w"
  shows "ring_cells w' pl"
  unfolding ring_cells_def
proof (intro allI impI)
  fix u assume "in_window w' u"
  then have u: "in_window w u" by (simp add: in_window_def upd)
  note old = ring_cellsD [OF cells u]
  show "cell_ok (the_stage w' u) (the_ctx w' u) (rs_log w' u) u (pl u)"
  proof (cases "rcell u = rcell t")
    case True
    have t: "in_window w t \<Longrightarrow> u = t" using rcell_window [OF u _ True] by simp
    have s: "same_task (the_ctx w u) c" using same True by simp
    show ?thesis using old op t s True by (cases "pl u") (auto simp: upd intro: task_ok_same)
  next
    case False
    then show ?thesis using old by (simp add: upd)
  qed
qed

lemma busy_window:
  assumes "ring_inv skips w pl" "pl t = PL_PIPE \<or> (\<exists>k. pl t = PL_WORKER k)"
  shows "in_window w t" "mo_cnext w < t" "t \<le> rs_submitted w"
proof -
  note p = ring_invD(5) [OF assms(1), unfolded ring_places_def] and o = ring_invD(1) [OF assms(1), unfolded ring_order_def]
  show c: "mo_cnext w < t" using p assms(2) by (metis leI place.distinct place.simps)
  show s: "t \<le> rs_submitted w" using p assms(2) by (metis leI place.distinct place.simps)
  have "t < rs_committed w + BUFFER_SIZE"
  proof (cases "t \<le> mo_inext w")
    case True
    then show ?thesis using o by linarith
  next
    case False
    then show ?thesis using p s assms(2) by (metis leI place.distinct place.simps)
  qed
  then show "in_window w t" using c o by (simp add: in_window_def)
qed

text \<open>The fields that the invariant reads.\<close>

definition ring_view where
  "ring_view w =
     ((rs_clients w, rs_submitted w, rs_inited w, rs_committed w, rs_stages w, rs_ctxs w, rs_stop w, rs_client w),
      (rs_wtid w, rs_wlast w, rs_wphase w),
      (rs_mo w, rs_mstop w, rs_msub w, rs_minit w, rs_mcom w, rs_log w))"

lemma ring_view_fields:
  assumes "ring_view w' = ring_view w"
  shows "rs_clients w' = rs_clients w" "rs_submitted w' = rs_submitted w" "rs_inited w' = rs_inited w"
    "rs_committed w' = rs_committed w" "rs_stages w' = rs_stages w" "rs_ctxs w' = rs_ctxs w" "rs_stop w' = rs_stop w"
    "rs_client w' = rs_client w" "rs_wtid w' = rs_wtid w" "rs_wlast w' = rs_wlast w" "rs_wphase w' = rs_wphase w"
    "rs_mo w' = rs_mo w" "rs_mstop w' = rs_mstop w" "rs_msub w' = rs_msub w" "rs_minit w' = rs_minit w"
    "rs_mcom w' = rs_mcom w" "rs_log w' = rs_log w"
  using assms by (simp_all add: ring_view_def)

lemma client_ok_frame:
  "client_ok skips w p \<Longrightarrow> rs_log w' = rs_log w \<Longrightarrow> rs_committed w \<le> rs_committed w' \<Longrightarrow> client_ok skips w' p"
  by (cases p) auto

lemma ring_clients_frame:
  assumes "ring_clients skips w pl" "rs_log w' = rs_log w" "rs_committed w \<le> rs_committed w'" "rs_client w' = rs_client w"
    "rs_clients w' = rs_clients w" "rs_stop w' = rs_stop w"
  shows "ring_clients skips w' pl"
  using assms(1) client_ok_frame [OF _ assms(2,3)] unfolding ring_clients_def assms(4-) by blast

lemma ring_workers_frame:
  assumes "ring_workers w pl" "rs_wtid w' = rs_wtid w" "rs_wlast w' = rs_wlast w" "rs_wphase w' = rs_wphase w"
  shows "ring_workers w' pl"
  using assms(1) unfolding ring_workers_def worker_ticket_def assms(2-) .

lemma mo_frame:
  assumes "rs_mo w' = rs_mo w" "rs_minit w' = rs_minit w" "rs_mcom w' = rs_mcom w"
  shows "mo_inext w' = mo_inext w" "mo_cnext w' = mo_cnext w"
  unfolding mo_inext_def mo_cnext_def assms by (rule refl)+

lemma ring_order_frame:
  assumes "ring_order w" "rs_mo w' = rs_mo w" "rs_minit w' = rs_minit w" "rs_mcom w' = rs_mcom w"
    "rs_committed w' = rs_committed w" "rs_msub w' = rs_msub w" "rs_submitted w \<le> rs_submitted w'" "rs_submitted w' \<le> MAX_TICKET"
  shows "ring_order w'"
  using assms(1,7,8) unfolding ring_order_def mo_frame [OF assms(2-4)] assms(3-6) by linarith

lemma ring_places_frame:
  assumes "ring_places w pl" "rs_mo w' = rs_mo w" "rs_minit w' = rs_minit w" "rs_mcom w' = rs_mcom w"
    "rs_committed w' = rs_committed w" "rs_submitted w' = rs_submitted w"
  shows "ring_places w' pl"
  using assms(1) unfolding ring_places_def mo_frame [OF assms(2-4)] assms(5,6) .

lemma ring_monitor_frame:
  assumes "ring_monitor w pl" "rs_mo w' = rs_mo w" "rs_minit w' = rs_minit w" "rs_mcom w' = rs_mcom w"
    "rs_committed w' = rs_committed w" "rs_submitted w' = rs_submitted w" "rs_msub w' = rs_msub w" "rs_mstop w' = rs_mstop w"
    "rs_stop w' = rs_stop w" "rs_inited w' = rs_inited w"
  shows "ring_monitor w' pl"
  using assms(1) unfolding ring_monitor_def assms(2-) .

lemmas ring_frames = ring_order_frame ring_cells_frame ring_clients_frame ring_workers_frame ring_places_frame ring_monitor_frame

lemma ring_inv_view: "ring_view w' = ring_view w \<Longrightarrow> ring_inv skips w pl \<Longrightarrow> ring_inv skips w' pl"
proof (rule ring_invI)
  assume v: "ring_view w' = ring_view w" and inv: "ring_inv skips w pl"
  note f = ring_view_fields [OF v] and i = ring_invD [OF inv]
  show "ring_order w'" by (rule ring_order_frame [OF i(1)]) (use i(1) in \<open>simp_all add: f ring_order_def\<close>)
  show "ring_cells w' pl" by (rule ring_cells_frame [OF i(2)]) (simp_all add: f)
  show "ring_clients skips w' pl" by (rule ring_clients_frame [OF i(3)]) (simp_all add: f)
  show "ring_workers w' pl" by (rule ring_workers_frame [OF i(4)]) (simp_all add: f)
  show "ring_places w' pl" by (rule ring_places_frame [OF i(5)]) (simp_all add: f)
  show "ring_monitor w' pl" by (rule ring_monitor_frame [OF i(6)]) (simp_all add: f)
qed

text \<open>A write to a context alone.\<close>

lemma ring_set_ctx:
  assumes inv: "ring_inv skips w pl" and same: "same_task (the_ctx w t) c"
    and op: "c_op c = c_op (the_ctx w t) \<or> pl t = PL_PIPE \<or> (\<exists>k. pl t = PL_WORKER k)"
  shows "ring_inv skips (set_ctx t c w) pl"
proof (rule ring_invI)
  note i = ring_invD [OF inv]
  have f: "rs_stages (set_ctx t c w) = rs_stages w" "rs_ctxs (set_ctx t c w) = (rs_ctxs w)(rcell t := c)"
    "rs_log (set_ctx t c w) = rs_log w" "rs_committed (set_ctx t c w) = rs_committed w" by (simp_all add: set_ctx_def)
  show "ring_order (set_ctx t c w)"
    by (rule ring_order_frame [OF i(1)]) (use i(1) in \<open>simp_all add: set_ctx_def ring_order_def\<close>)
  show "ring_cells (set_ctx t c w) pl"
    by (rule ring_cells_ctx [OF i(2) same _ f]) (use op busy_window(1) [OF inv, of t] in auto)
  show "ring_clients skips (set_ctx t c w) pl" by (rule ring_clients_frame [OF i(3)]) (simp_all add: set_ctx_def)
  show "ring_workers (set_ctx t c w) pl" by (rule ring_workers_frame [OF i(4)]) (simp_all add: set_ctx_def)
  show "ring_places (set_ctx t c w) pl" by (rule ring_places_frame [OF i(5)]) (simp_all add: set_ctx_def)
  show "ring_monitor (set_ctx t c w) pl" by (rule ring_monitor_frame [OF i(6)]) (simp_all add: set_ctx_def)
qed

text \<open>Tickets that the monitor has not passed, and the places of a ticket of an owner.\<close>

lemma pl_submitted: "ring_inv skips w pl \<Longrightarrow> pl t \<noteq> PL_NONE \<Longrightarrow> t \<le> rs_submitted w"
  using ring_invD(5) [of skips w pl] unfolding ring_places_def by (meson linorder_not_less)

lemma pl_client_range:
  assumes "ring_inv skips w pl" "pl t = PL_WAIT cl \<or> pl t = PL_READY cl"
  shows "mo_inext w < t" "t \<le> rs_submitted w"
proof -
  note p = ring_invD(5) [OF assms(1), unfolded ring_places_def]
  show "t \<le> rs_submitted w" using pl_submitted [OF assms(1)] assms(2) by auto
  show "mo_inext w < t"
  proof (rule ccontr)
    assume "\<not> mo_inext w < t"
    then have "pl t = PL_DONE \<or> pl t = PL_PIPE \<or> (\<exists>k. pl t = PL_WORKER k)" using p by (meson linorder_not_less)
    then show False using assms(2) by auto
  qed
qed

lemma ring_ordered:
  assumes "ring_inv skips w pl"
  shows "rs_committed w \<le> rs_mcom w" "rs_mcom w \<le> mo_cnext w" "mo_cnext w \<le> rs_minit w" "rs_minit w \<le> mo_inext w"
    "mo_inext w \<le> rs_msub w" "rs_msub w \<le> rs_submitted w" "rs_submitted w \<le> MAX_TICKET"
    "mo_inext w < rs_committed w + BUFFER_SIZE"
  using ring_invD(1) [OF assms] by (simp_all add: ring_order_def)

section \<open>Clients\<close>

text \<open>One client moves; its tickets change places, those of the others do not.\<close>

lemma ring_clients_move:
  assumes old: "ring_clients skips w pl" and new: "rs_client w' = (rs_client w)(cl := p)"
    and same: "rs_clients w' = rs_clients w" "rs_stop w' = rs_stop w"
    and others: "\<And>c. c \<noteq> cl \<Longrightarrow> client_ok skips w (rs_client w c) \<Longrightarrow> client_ok skips w' (rs_client w c)"
      "\<And>c t. c \<noteq> cl \<Longrightarrow> (pl' t = PL_WAIT c \<longleftrightarrow> pl t = PL_WAIT c) \<and> (pl' t = PL_READY c \<longleftrightarrow> pl t = PL_READY c)"
    and own: "client_ok skips w' p" "p \<noteq> CL_IDLE \<Longrightarrow> cl < rs_clients w \<and> \<not> rs_stop w"
      "\<And>t. (holds_wait p t \<longleftrightarrow> pl' t = PL_WAIT cl) \<and> (holds_ready p t \<longleftrightarrow> pl' t = PL_READY cl)"
  shows "ring_clients skips w' pl'"
  unfolding ring_clients_def
proof (intro conjI allI)
  fix c t
  have o: "client_ok skips w (rs_client w c)" "rs_client w c \<noteq> CL_IDLE \<longrightarrow> c < rs_clients w \<and> \<not> rs_stop w"
    "holds_wait (rs_client w c) t \<longleftrightarrow> pl t = PL_WAIT c" "holds_ready (rs_client w c) t \<longleftrightarrow> pl t = PL_READY c"
    using old unfolding ring_clients_def by blast+
  show "client_ok skips w' (rs_client w' c)" using o(1) others(1) own(1) by (simp add: new)
  show "rs_client w' c \<noteq> CL_IDLE \<longrightarrow> c < rs_clients w' \<and> \<not> rs_stop w'" using o(2) own(2) by (simp add: new same)
  show "holds_wait (rs_client w' c) t \<longleftrightarrow> pl' t = PL_WAIT c" using o(3) others(2) [of c t] own(3) [of t] by (simp add: new)
  show "holds_ready (rs_client w' c) t \<longleftrightarrow> pl' t = PL_READY c" using o(4) others(2) [of c t] own(3) [of t] by (simp add: new)
qed

lemma ring_clientsD:
  assumes "ring_clients skips w pl"
  shows "client_ok skips w (rs_client w cl)" "rs_client w cl \<noteq> CL_IDLE \<Longrightarrow> cl < rs_clients w \<and> \<not> rs_stop w"
    "holds_wait (rs_client w cl) t \<longleftrightarrow> pl t = PL_WAIT cl" "holds_ready (rs_client w cl) t \<longleftrightarrow> pl t = PL_READY cl"
  using assms unfolding ring_clients_def by blast+

lemma ring_workers_places:
  assumes "ring_workers w pl" "rs_wtid w' = rs_wtid w" "rs_wlast w' = rs_wlast w" "rs_wphase w' = rs_wphase w"
    "\<And>t k. pl' t = PL_WORKER k \<longleftrightarrow> pl t = PL_WORKER k"
  shows "ring_workers w' pl'"
  using assms(1) unfolding ring_workers_def worker_ticket_def assms(2-) .

text \<open>A client that moves without a ticket before or behind.\<close>

lemma ring_client_free:
  assumes inv: "ring_inv skips w pl" and free: "\<And>t. \<not> holds_wait (rs_client w cl) t \<and> \<not> holds_ready (rs_client w cl) t"
    "\<And>t. \<not> holds_wait p t \<and> \<not> holds_ready p t" and ok: "client_ok skips w p" "p \<noteq> CL_IDLE \<Longrightarrow> cl < rs_clients w \<and> \<not> rs_stop w"
  shows "ring_inv skips (set_client cl p w) pl"
proof -
  note i = ring_invD [OF inv]
  show ?thesis
  proof (rule ring_invI)
    show "ring_order (set_client cl p w)"
      by (rule ring_order_frame [OF i(1)]) (use i(1) in \<open>simp_all add: set_client_def ring_order_def\<close>)
    show "ring_cells (set_client cl p w) pl" by (rule ring_cells_frame [OF i(2)]) (simp_all add: set_client_def)
    show "ring_clients skips (set_client cl p w) pl"
    proof (rule ring_clients_move [OF i(3), where cl = cl and p = p])
      show "rs_client (set_client cl p w) = (rs_client w)(cl := p)" by (simp add: set_client_def)
      show "client_ok skips (set_client cl p w) p" by (rule client_ok_frame [OF ok(1)]) (simp_all add: set_client_def)
      show "(holds_wait p t \<longleftrightarrow> pl t = PL_WAIT cl) \<and> (holds_ready p t \<longleftrightarrow> pl t = PL_READY cl)" for t
        using free [of t] ring_clientsD(3,4) [OF i(3), of cl t] by simp
    qed (use ok(2) in \<open>auto simp: set_client_def intro: client_ok_frame\<close>)
    show "ring_workers (set_client cl p w) pl" by (rule ring_workers_frame [OF i(4)]) (simp_all add: set_client_def)
    show "ring_places (set_client cl p w) pl" by (rule ring_places_frame [OF i(5)]) (simp_all add: set_client_def)
    show "ring_monitor (set_client cl p w) pl" by (rule ring_monitor_frame [OF i(6)]) (simp_all add: set_client_def)
  qed
qed

lemma ring_client_call:
  assumes inv: "ring_inv skips w pl" and run: "client_call cl key val w = Some w'"
  shows "ring_inv skips w' pl"
proof -
  have g: "w' = set_client cl (CL_CALL key val) w" "cl < rs_clients w" "rs_client w cl = CL_IDLE" "\<not> rs_stop w"
    using run by (auto simp: client_call_def split: if_splits)
  show ?thesis unfolding g(1) by (rule ring_client_free [OF inv]) (use g in auto)
qed

lemma ring_client_throw:
  assumes inv: "ring_inv skips w pl" and run: "client_reserve skips cl w = Some (Inl e)"
  shows "ring_inv skips (set_client cl CL_IDLE w) pl"
proof -
  obtain key val where "rs_client w cl = CL_CALL key val" using run by (auto simp: client_reserve_def split: client_phase.splits)
  then show ?thesis by (intro ring_client_free [OF inv]) auto
qed

lemma ring_client_reserve:
  assumes inv: "ring_inv skips w pl" and run: "client_reserve skips cl w = Some (Inr w')"
  shows "ring_inv skips w' (pl(Suc (rs_submitted w) := PL_WAIT cl))"
proof -
  let ?t = "Suc (rs_submitted w)" let ?pl = "pl(?t := PL_WAIT cl)"
  obtain key val where cl: "rs_client w cl = CL_CALL key val" "rs_submitted w \<noteq> MAX_TICKET"
    and w': "w' = set_client cl (CL_SPIN ?t key val)
      (w\<lparr>rs_submitted := ?t, rs_log := (rs_log w)(?t := (if skips ?t then None else Some (key, val)))\<rparr>)"
    using run by (auto simp: client_reserve_def Let_def split: client_phase.splits if_splits)
  note i = ring_invD [OF inv] and o = ring_ordered [OF inv]
  have new: "pl ?t = PL_NONE" using i(5) by (simp add: ring_places_def)
  have m: "mo_inext w' = mo_inext w" "mo_cnext w' = mo_cnext w" by (intro mo_frame; simp add: w' set_client_def)+
  have f: "rs_committed w' = rs_committed w" "rs_submitted w' = ?t" "rs_stages w' = rs_stages w" "rs_ctxs w' = rs_ctxs w"
    by (simp_all add: w' set_client_def)
  show ?thesis
  proof (rule ring_invI)
    show "ring_order w'" by (rule ring_order_frame [OF i(1)]) (use o(7) cl(2) in \<open>simp_all add: w' set_client_def\<close>)
    show "ring_cells w' ?pl"
      unfolding ring_cells_def
    proof (intro allI impI)
      fix t assume "in_window w' t"
      then have t: "in_window w t" by (simp add: in_window_def f)
      show "cell_ok (the_stage w' t) (the_ctx w' t) (rs_log w' t) t (?pl t)"
        using ring_cellsD [OF i(2) t] new by (cases "t = ?t") (simp_all add: w' set_client_def)
    qed
    show "ring_clients skips w' ?pl"
    proof (rule ring_clients_move [OF i(3), where cl = cl and p = "CL_SPIN ?t key val"])
      show "rs_client w' = (rs_client w)(cl := CL_SPIN ?t key val)" by (simp add: w' set_client_def)
      show "client_ok skips w' (CL_SPIN ?t key val)" by (simp add: w' set_client_def)
      fix c assume c: "c \<noteq> cl" "client_ok skips w (rs_client w c)"
      have "\<not> holds_wait (rs_client w c) ?t" "\<not> holds_ready (rs_client w c) ?t"
        using ring_clientsD(3,4) [OF i(3), of c ?t] new by simp_all
      then show "client_ok skips w' (rs_client w c)" using c(2) by (cases "rs_client w c") (auto simp: w' set_client_def)
    next
      show "(holds_wait (CL_SPIN ?t key val) t \<longleftrightarrow> ?pl t = PL_WAIT cl) \<and> (holds_ready (CL_SPIN ?t key val) t \<longleftrightarrow> ?pl t = PL_READY cl)" for t
        using ring_clientsD(3,4) [OF i(3), of cl t] cl(1) by auto
    qed (use ring_clientsD(2) [OF i(3), of cl] cl(1) new in \<open>auto simp: w' set_client_def\<close>)
    show "ring_workers w' ?pl" by (rule ring_workers_places [OF i(4)]) (use new in \<open>auto simp: w' set_client_def\<close>)
    show "ring_places w' ?pl"
      using i(5) o unfolding ring_places_def m f by (auto simp: le_Suc_eq)
    have "\<not> rs_stop w" using ring_clientsD(2) [OF i(3), of cl] cl(1) by simp
    then show "ring_monitor w' ?pl"
      using i(6) new unfolding ring_monitor_def by (auto simp: w' set_client_def)
  qed
qed

lemma ring_placesD:
  assumes "ring_places w pl"
  shows "t \<le> mo_cnext w \<Longrightarrow> pl t = PL_DONE"
    "mo_cnext w < t \<Longrightarrow> t \<le> mo_inext w \<Longrightarrow> pl t = PL_DONE \<or> pl t = PL_PIPE \<or> (\<exists>k. pl t = PL_WORKER k)"
    "mo_inext w < t \<Longrightarrow> t \<le> rs_submitted w \<Longrightarrow>
       pl t = PL_PIPE \<and> t < rs_committed w + BUFFER_SIZE \<or> (\<exists>cl. pl t = PL_WAIT cl \<or> pl t = PL_READY cl)"
    "rs_submitted w < t \<Longrightarrow> pl t = PL_NONE"
  using assms unfolding ring_places_def by blast+

text \<open>One ticket changes its place within its range.\<close>

lemma ring_places_upd:
  assumes old: "ring_places w pl" and same: "rs_mo w' = rs_mo w" "rs_minit w' = rs_minit w" "rs_mcom w' = rs_mcom w"
    "rs_committed w' = rs_committed w" "rs_submitted w' = rs_submitted w"
    and P: "mo_cnext w < t" "t \<le> rs_submitted w" "t \<le> mo_inext w \<Longrightarrow> P = PL_DONE \<or> P = PL_PIPE \<or> (\<exists>k. P = PL_WORKER k)"
      "mo_inext w < t \<Longrightarrow> P = PL_PIPE \<and> t < rs_committed w + BUFFER_SIZE \<or> (\<exists>cl. P = PL_WAIT cl \<or> P = PL_READY cl)"
  shows "ring_places w' (pl(t := P))"
  unfolding ring_places_def mo_frame [OF same(1-3)] same(4,5)
proof (intro conjI allI impI)
  fix u
  note d = ring_placesD [OF old, of u]
  show "u \<le> mo_cnext w \<Longrightarrow> (pl(t := P)) u = PL_DONE" using d(1) P(1) by simp
  show "rs_submitted w < u \<Longrightarrow> (pl(t := P)) u = PL_NONE" using d(4) P(2) by simp
  show "(pl(t := P)) u = PL_DONE \<or> (pl(t := P)) u = PL_PIPE \<or> (\<exists>k. (pl(t := P)) u = PL_WORKER k)"
    if "mo_cnext w < u" "u \<le> mo_inext w" using d(2) P(3) that by (cases "u = t") simp_all
  show "(pl(t := P)) u = PL_PIPE \<and> u < rs_committed w + BUFFER_SIZE \<or>
      (\<exists>cl. (pl(t := P)) u = PL_WAIT cl \<or> (pl(t := P)) u = PL_READY cl)"
    if "mo_inext w < u" "u \<le> rs_submitted w" using d(3) P(4) that by (cases "u = t") simp_all
qed

text \<open>A client that has its ticket writes the cell and goes on.\<close>

lemma ring_client_ticket:
  assumes inv: "ring_inv skips w pl" and t: "pl t = PL_WAIT cl \<or> pl t = PL_READY cl" and win: "in_window w t"
    and P: "P = PL_WAIT cl \<or> P = PL_READY cl \<or> P = PL_PIPE"
    and w': "w' = set_client cl p (w\<lparr>rs_stages := (rs_stages w)(rcell t := st), rs_ctxs := (rs_ctxs w)(rcell t := c)\<rparr>)"
    and cell: "cell_ok st c (rs_log w t) t P"
    and old: "\<And>u. holds_wait (rs_client w cl) u \<or> holds_ready (rs_client w cl) u \<Longrightarrow> u = t"
    and new: "\<And>u. (holds_wait p u \<longleftrightarrow> u = t \<and> P = PL_WAIT cl) \<and> (holds_ready p u \<longleftrightarrow> u = t \<and> P = PL_READY cl)"
    and ok: "client_ok skips w p"
  shows "ring_inv skips w' (pl(t := P))"
proof -
  let ?pl = "pl(t := P)"
  note i = ring_invD [OF inv] and o = ring_ordered [OF inv] and r = pl_client_range [OF inv t]
  have cl: "rs_client w cl \<noteq> CL_IDLE" using t ring_clientsD(3,4) [OF i(3), of cl t] by auto
  have f: "rs_committed w' = rs_committed w" "rs_submitted w' = rs_submitted w" by (simp_all add: w' set_client_def)
  show ?thesis
  proof (rule ring_invI)
    show "ring_order w'" by (rule ring_order_frame [OF i(1)]) (use o(7) in \<open>simp_all add: w' set_client_def\<close>)
    show "ring_cells w' ?pl" by (rule ring_cells_update [OF i(2) win _ _ _ _ cell]) (simp_all add: w' set_client_def)
    show "ring_clients skips w' ?pl"
    proof (rule ring_clients_move [OF i(3), where cl = cl and p = p])
      show "client_ok skips w' p" by (rule client_ok_frame [OF ok]) (simp_all add: w' set_client_def)
      show "(holds_wait p u \<longleftrightarrow> ?pl u = PL_WAIT cl) \<and> (holds_ready p u \<longleftrightarrow> ?pl u = PL_READY cl)" for u
      proof (cases "u = t")
        case True
        then show ?thesis using new [of t] by simp
      next
        case False
        then have "pl u \<noteq> PL_WAIT cl" "pl u \<noteq> PL_READY cl" using old [of u] ring_clientsD(3,4) [OF i(3), of cl u] by blast+
        then show ?thesis using new [of u] False by simp
      qed
      show "cl < rs_clients w \<and> \<not> rs_stop w" by (rule ring_clientsD(2) [OF i(3) cl])
      show "client_ok skips w' (rs_client w c)" if "client_ok skips w (rs_client w c)" for c
        by (rule client_ok_frame [OF that]) (simp_all add: w' set_client_def)
      show "(?pl u = PL_WAIT c \<longleftrightarrow> pl u = PL_WAIT c) \<and> (?pl u = PL_READY c \<longleftrightarrow> pl u = PL_READY c)" if "c \<noteq> cl" for c u
        using t P that by (cases "u = t") auto
    qed (simp_all add: w' set_client_def)
    show "ring_workers w' ?pl" by (rule ring_workers_places [OF i(4)]) (use t P in \<open>auto simp: w' set_client_def\<close>)
    show "ring_places w' ?pl"
    proof (rule ring_places_upd [OF i(5)])
      show "mo_cnext w < t" using r(1) o by linarith
      show "t \<le> rs_submitted w" by (rule r(2))
      show "P = PL_DONE \<or> P = PL_PIPE \<or> (\<exists>k. P = PL_WORKER k)" if "t \<le> mo_inext w" using that r(1) by simp
      show "P = PL_PIPE \<and> t < rs_committed w + BUFFER_SIZE \<or> (\<exists>cl. P = PL_WAIT cl \<or> P = PL_READY cl)"
        using P win unfolding in_window_def by blast
    qed (simp_all add: w' set_client_def)
    have "\<And>n. rs_mo w = MO_RETIRE n \<Longrightarrow> pl (Suc n) = PL_DONE" using i(6) by (simp add: ring_monitor_def)
    then show "ring_monitor w' ?pl"
      using i(6) t unfolding ring_monitor_def by (auto simp: w' set_client_def)
  qed
qed

lemma ring_client_pass:
  assumes inv: "ring_inv skips w pl" and run: "client_pass cl w = Some w'"
  shows "ring_inv skips w' pl"
proof -
  obtain t key val where cl: "rs_client w cl = CL_SPIN t key val" "t < rs_committed w + BUFFER_SIZE"
    and w': "w' = set_client cl (CL_FILL t key val) w"
    using run by (auto simp: client_pass_def split: client_phase.splits if_splits)
  have t: "pl t = PL_WAIT cl" using ring_clientsD(3) [OF ring_invD(3) [OF inv], of cl t] cl(1) by simp
  have win: "in_window w t"
    using cl(2) pl_client_range(1) [OF inv, of t cl] t ring_ordered [OF inv] by (auto simp: in_window_def)
  have "ring_inv skips w' (pl(t := PL_WAIT cl))"
  proof (rule ring_client_ticket [OF inv _ win, where cl = cl])
    show "w' = set_client cl (CL_FILL t key val) (w\<lparr>rs_stages := (rs_stages w)(rcell t := the_stage w t), rs_ctxs := (rs_ctxs w)(rcell t := the_ctx w t)\<rparr>)"
      by (simp add: w')
    show "cell_ok (the_stage w t) (the_ctx w t) (rs_log w t) t (PL_WAIT cl)" using ring_cellsD [OF ring_invD(2) [OF inv] win] t by simp
    show "client_ok skips w (CL_FILL t key val)" using ring_clientsD(1) [OF ring_invD(3) [OF inv], of cl] cl by simp
  qed (use cl(1) t in auto)
  moreover have "pl(t := PL_WAIT cl) = pl" using t by (intro ext) simp
  ultimately show ?thesis by simp
qed

lemma ring_client_fill:
  assumes inv: "ring_inv skips w pl" and run: "client_fill F cl w = Some w'"
    and F: "\<And>t key val c. c_sno (F t key val c) = of_nat t"
      "\<And>t key val c. \<not> skips t \<Longrightarrow> c_key (F t key val c) = key \<and> c_val (F t key val c) = val"
  shows "\<exists>t. pl t = PL_WAIT cl \<and> ring_inv skips w' (pl(t := PL_READY cl))"
proof -
  obtain t key val where cl: "rs_client w cl = CL_FILL t key val"
    and w': "w' = set_client cl (CL_SIGNAL t key val) (set_ctx t (F t key val (the_ctx w t)) w)"
    using run by (auto simp: client_fill_def split: client_phase.splits)
  have t: "pl t = PL_WAIT cl" using ring_clientsD(3) [OF ring_invD(3) [OF inv], of cl t] cl by simp
  have ok: "rs_log w t = (if skips t then None else Some (key, val))" "t < rs_committed w + BUFFER_SIZE"
    using ring_clientsD(1) [OF ring_invD(3) [OF inv], of cl] cl by simp_all
  have win: "in_window w t"
    using ok(2) pl_client_range(1) [OF inv, of t cl] t ring_ordered [OF inv] by (auto simp: in_window_def)
  have "ring_inv skips w' (pl(t := PL_READY cl))"
  proof (rule ring_client_ticket [OF inv _ win, where cl = cl])
    show "w' = set_client cl (CL_SIGNAL t key val)
        (w\<lparr>rs_stages := (rs_stages w)(rcell t := the_stage w t), rs_ctxs := (rs_ctxs w)(rcell t := F t key val (the_ctx w t))\<rparr>)"
      by (simp add: w' set_ctx_def)
    show "cell_ok (the_stage w t) (F t key val (the_ctx w t)) (rs_log w t) t (PL_READY cl)"
      using ring_cellsD [OF ring_invD(2) [OF inv] win] t F ok(1) by (simp add: task_ok_def)
  qed (use cl t ok in auto)
  then show ?thesis using t by blast
qed

lemma ring_client_signal:
  assumes inv: "ring_inv skips w pl" and run: "client_signal skips cl w = Some w'"
  shows "\<exists>t. pl t = PL_READY cl \<and> ring_inv skips w' (pl(t := PL_PIPE))"
proof -
  obtain t key val where cl: "rs_client w cl = CL_SIGNAL t key val"
    and w': "w' = set_client cl (if skips t then CL_CALL key val else CL_IDLE) (set_stage t (STAGE 0) w)"
    using run by (auto simp: client_signal_def split: client_phase.splits)
  have t: "pl t = PL_READY cl" using ring_clientsD(4) [OF ring_invD(3) [OF inv], of cl t] cl by simp
  have ok: "t < rs_committed w + BUFFER_SIZE"
    using ring_clientsD(1) [OF ring_invD(3) [OF inv], of cl] cl by simp
  have win: "in_window w t"
    using ok pl_client_range(1) [OF inv, of t cl] t ring_ordered [OF inv] by (auto simp: in_window_def)
  have "ring_inv skips w' (pl(t := PL_PIPE))"
  proof (rule ring_client_ticket [OF inv _ win, where cl = cl])
    show "w' = set_client cl (if skips t then CL_CALL key val else CL_IDLE)
        (w\<lparr>rs_stages := (rs_stages w)(rcell t := STAGE 0), rs_ctxs := (rs_ctxs w)(rcell t := the_ctx w t)\<rparr>)"
      by (simp add: w' set_stage_def)
    show "cell_ok (STAGE 0) (the_ctx w t) (rs_log w t) t PL_PIPE"
      using ring_cellsD [OF ring_invD(2) [OF inv] win] t by simp
  qed (use cl t in auto)
  then show ?thesis using t by blast
qed

section \<open>Workers\<close>

lemma ring_workersD:
  assumes "ring_workers w pl"
  shows "worker_ticket w k = Some t \<longleftrightarrow> pl t = PL_WORKER k"
    "exec_ticket (rs_wphase w k) = Some t \<Longrightarrow> rs_wtid w k = Some t \<or> rs_wtid w k = None"
    "rs_wphase w k = EX_PUSH t \<Longrightarrow> rs_wlast w k = t"
proof -
  show "worker_ticket w k = Some t \<longleftrightarrow> pl t = PL_WORKER k" using assms unfolding ring_workers_def by blast
  show "exec_ticket (rs_wphase w k) = Some t \<Longrightarrow> rs_wtid w k = Some t \<or> rs_wtid w k = None"
    using assms unfolding ring_workers_def by simp
  show "rs_wphase w k = EX_PUSH t \<Longrightarrow> rs_wlast w k = t" using assms unfolding ring_workers_def by simp
qed

text \<open>One worker moves, and at most one of its tickets changes place.\<close>

lemma ring_workers_move:
  assumes old: "ring_workers w pl"
    and others: "\<And>j. j \<noteq> k \<Longrightarrow> rs_wphase w' j = rs_wphase w j \<and> rs_wtid w' j = rs_wtid w j \<and> rs_wlast w' j = rs_wlast w j"
      "\<And>j t. j \<noteq> k \<Longrightarrow> pl' t = PL_WORKER j \<longleftrightarrow> pl t = PL_WORKER j"
    and own: "\<And>t. worker_ticket w' k = Some t \<longleftrightarrow> pl' t = PL_WORKER k"
      "\<And>t. exec_ticket (rs_wphase w' k) = Some t \<Longrightarrow> rs_wtid w' k = Some t \<or> rs_wtid w' k = None"
      "\<And>t. rs_wphase w' k = EX_PUSH t \<Longrightarrow> rs_wlast w' k = t"
  shows "ring_workers w' pl'"
  unfolding ring_workers_def
proof (intro conjI allI impI)
  fix j t
  have o: "j \<noteq> k \<Longrightarrow> worker_ticket w' j = worker_ticket w j" using others(1) [of j] unfolding worker_ticket_def by presburger
  note d = ring_workersD [OF old]
  show "worker_ticket w' j = Some t \<longleftrightarrow> pl' t = PL_WORKER j" using o d(1) others(2) own(1) by (cases "j = k") simp_all
  show "rs_wtid w' j = Some t \<or> rs_wtid w' j = None" if "exec_ticket (rs_wphase w' j) = Some t"
    using that d(2) others(1) own(2) by (cases "j = k") simp_all
  show "rs_wlast w' j = t" if "rs_wphase w' j = EX_PUSH t" using that d(3) others(1) own(3) by (cases "j = k") simp_all
qed

lemma ring_worker_phase:
  assumes inv: "ring_inv skips w pl" and ticket: "worker_ticket (set_worker k p w) k = worker_ticket w k"
    and exec: "\<And>t. exec_ticket p = Some t \<Longrightarrow> rs_wtid w k = Some t \<or> rs_wtid w k = None" "\<And>t. p = EX_PUSH t \<Longrightarrow> rs_wlast w k = t"
  shows "ring_inv skips (set_worker k p w) pl"
proof (rule ring_invI)
  note i = ring_invD [OF inv] and o = ring_ordered [OF inv]
  show "ring_order (set_worker k p w)" by (rule ring_order_frame [OF i(1)]) (use o(7) in \<open>simp_all add: set_worker_def\<close>)
  show "ring_cells (set_worker k p w) pl" by (rule ring_cells_frame [OF i(2)]) (simp_all add: set_worker_def)
  show "ring_clients skips (set_worker k p w) pl" by (rule ring_clients_frame [OF i(3)]) (simp_all add: set_worker_def)
  show "ring_workers (set_worker k p w) pl"
  proof (rule ring_workers_move [OF i(4), where k = k])
    show "worker_ticket (set_worker k p w) k = Some t \<longleftrightarrow> pl t = PL_WORKER k" for t
      unfolding ticket by (rule ring_workersD(1) [OF i(4)])
  qed (use exec in \<open>auto simp: set_worker_def\<close>)
  show "ring_places (set_worker k p w) pl" by (rule ring_places_frame [OF i(5)]) (simp_all add: set_worker_def)
  show "ring_monitor (set_worker k p w) pl" by (rule ring_monitor_frame [OF i(6)]) (simp_all add: set_worker_def)
qed

lemma ring_set_stage:
  assumes inv: "ring_inv skips w pl" and t: "pl t = PL_WORKER k" "st \<noteq> STAGE_ALL"
  shows "ring_inv skips (set_stage t st w) pl"
proof (rule ring_invI)
  note i = ring_invD [OF inv] and o = ring_ordered [OF inv]
  have win: "in_window w t" using busy_window(1) [OF inv] t(1) by blast
  show "ring_order (set_stage t st w)" by (rule ring_order_frame [OF i(1)]) (use o(7) in \<open>simp_all add: set_stage_def\<close>)
  have "ring_cells (set_stage t st w) (pl(t := PL_WORKER k))"
  proof (rule ring_cells_update [OF i(2) win])
    show "cell_ok st (the_ctx w t) (rs_log w t) t (PL_WORKER k)" using ring_cellsD [OF i(2) win] t by simp
  qed (simp_all add: set_stage_def)
  then show "ring_cells (set_stage t st w) pl" using t(1) by (metis fun_upd_triv)
  show "ring_clients skips (set_stage t st w) pl" by (rule ring_clients_frame [OF i(3)]) (simp_all add: set_stage_def)
  show "ring_workers (set_stage t st w) pl" by (rule ring_workers_frame [OF i(4)]) (simp_all add: set_stage_def)
  show "ring_places (set_stage t st w) pl" by (rule ring_places_frame [OF i(5)]) (simp_all add: set_stage_def)
  show "ring_monitor (set_stage t st w) pl" by (rule ring_monitor_frame [OF i(6)]) (simp_all add: set_stage_def)
qed

text \<open>The number in the context of a task is its ticket.\<close>

lemma busy_sno:
  assumes inv: "ring_inv skips w pl" and t: "pl t = PL_PIPE \<or> (\<exists>k. pl t = PL_WORKER k)"
  shows "sno_of (the_ctx w t) = t"
proof -
  have "task_ok (the_ctx w t) (rs_log w t) t"
    using ring_cellsD [OF ring_invD(2) [OF inv] busy_window(1) [OF inv t]] t by auto
  moreover have "t < 2 ^ 32" using busy_window(3) [OF inv t] ring_ordered(7) [OF inv] by (simp add: MAX_TICKET_def UINT32_MAX_def)
  ultimately show ?thesis by (simp add: task_ok_def sno_of_def unat_of_nat)
qed

lemma ring_worker_poll:
  assumes inv: "ring_inv skips w pl" and run: "worker_poll k w = Some w'"
  shows "ring_inv skips w' pl"
proof -
  have g: "rs_wphase w k = EX_POLL" "rs_wtid w k \<noteq> Some (rs_wlast w k)"
    and w': "w' = set_worker k (case rs_wtid w k of None \<Rightarrow> EX_STOPPED | Some tid \<Rightarrow> EX_HEAD tid 1) w"
    using run by (auto simp: worker_poll_def split: if_splits)
  show ?thesis
    unfolding w' by (rule ring_worker_phase [OF inv]) (use g in \<open>auto simp: worker_ticket_def set_worker_def split: option.splits\<close>)
qed

text \<open>A finished task leaves its worker or the exit pipe.\<close>

lemma ring_finish:
  assumes inv: "ring_inv skips w pl" and t: "pl t = PL_PIPE \<and> t \<le> mo_inext w \<or> pl t = PL_WORKER k" "c_op (the_ctx w t) = OP_DONE"
    and w': "rs_stages w' = (rs_stages w)(rcell t := STAGE_ALL)" "rs_ctxs w' = rs_ctxs w" "rs_log w' = rs_log w"
      "rs_committed w' = rs_committed w" "rs_mo w' = rs_mo w" "rs_minit w' = rs_minit w" "rs_mcom w' = rs_mcom w"
      "rs_msub w' = rs_msub w" "rs_submitted w' = rs_submitted w" "rs_client w' = rs_client w" "rs_clients w' = rs_clients w"
      "rs_stop w' = rs_stop w" "rs_mstop w' = rs_mstop w" "rs_inited w' = rs_inited w"
    and workers: "ring_workers w' (pl(t := PL_DONE))"
  shows "ring_inv skips w' (pl(t := PL_DONE))"
proof (rule ring_invI)
  note i = ring_invD [OF inv] and o = ring_ordered [OF inv]
  have busy: "pl t = PL_PIPE \<or> (\<exists>k. pl t = PL_WORKER k)" using t(1) by blast
  note b = busy_window [OF inv busy]
  have le: "t \<le> mo_inext w"
  proof (rule ccontr)
    assume "\<not> t \<le> mo_inext w"
    then show False using t(1) ring_placesD(3) [OF i(5), of t] b(3) by auto
  qed
  show "ring_order w'" by (rule ring_order_frame [OF i(1)]) (use o(7) in \<open>simp_all add: w'\<close>)
  show "ring_cells w' (pl(t := PL_DONE))"
  proof (rule ring_cells_update [OF i(2) b(1)])
    show "cell_ok STAGE_ALL (the_ctx w t) (rs_log w t) t PL_DONE"
      using ring_cellsD [OF i(2) b(1)] busy t(2) by auto
  qed (simp_all add: w')
  have "ring_clients skips w' pl" by (rule ring_clients_frame [OF i(3)]) (simp_all add: w')
  moreover have "(pl(t := PL_DONE)) u = PL_WAIT cl \<longleftrightarrow> pl u = PL_WAIT cl" "(pl(t := PL_DONE)) u = PL_READY cl \<longleftrightarrow> pl u = PL_READY cl"
    for u cl using busy by auto
  ultimately show "ring_clients skips w' (pl(t := PL_DONE))" unfolding ring_clients_def by simp
  show "ring_workers w' (pl(t := PL_DONE))" by (rule workers)
  show "ring_places w' (pl(t := PL_DONE))"
    by (rule ring_places_upd [OF i(5)]) (use b le in \<open>simp_all add: w'\<close>)
  show "ring_monitor w' (pl(t := PL_DONE))" using i(6) unfolding ring_monitor_def w' by simp
qed

lemma ring_worker_head:
  assumes inv: "ring_inv skips w pl" and run: "worker_head k w = Some w'"
  shows "ring_inv skips w' pl \<or> (\<exists>t. pl t = PL_WORKER k \<and> ring_inv skips w' (pl(t := PL_DONE)))"
proof -
  note i = ring_invD [OF inv]
  obtain t n where ph: "rs_wphase w k = EX_HEAD t n" using run by (auto simp: worker_head_def split: exec_phase.splits)
  have t: "pl t = PL_WORKER k" using ring_workersD(1) [OF i(4), of k t] ph by (simp add: worker_ticket_def)
  have only: "pl u = PL_WORKER k \<longleftrightarrow> u = t" for u using ring_workersD(1) [OF i(4), of k u] ph by (auto simp: worker_ticket_def)
  note ex = ring_workersD(2) [OF i(4), of k]
  show ?thesis
  proof (cases "c_op (the_ctx w t) = OP_DONE")
    case False
    then have w': "w' = set_worker k (EX_RUN t n) w" using run ph by (simp add: worker_head_def Let_def)
    have "ring_inv skips w' pl"
      unfolding w' by (rule ring_worker_phase [OF inv]) (use ex ph in \<open>auto simp: worker_ticket_def set_worker_def\<close>)
    then show ?thesis ..
  next
    case True
    have "sno_of (the_ctx w t) = t" using busy_sno [OF inv] t by blast
    then have w': "w' = set_worker k (EX_PUSH t) (set_stage t STAGE_ALL (w\<lparr>rs_wlast := (rs_wlast w)(k := t)\<rparr>))"
      using run ph True by (simp add: worker_head_def Let_def)
    have "ring_inv skips w' (pl(t := PL_DONE))"
    proof (rule ring_finish [OF inv _ True])
      show "ring_workers w' (pl(t := PL_DONE))"
      proof (rule ring_workers_move [OF i(4), where k = k])
        show "worker_ticket w' k = Some u \<longleftrightarrow> (pl(t := PL_DONE)) u = PL_WORKER k" for u
          using only [of u] by (simp add: w' worker_ticket_def set_worker_def set_stage_def)
        show "rs_wtid w' k = Some u \<or> rs_wtid w' k = None" if "exec_ticket (rs_wphase w' k) = Some u" for u
          using that ex ph by (simp add: w' set_worker_def set_stage_def)
      qed (use t in \<open>auto simp: w' set_worker_def set_stage_def\<close>)
    qed (use t in \<open>simp_all add: w' set_worker_def set_stage_def\<close>)
    then show ?thesis using t by blast
  qed
qed

lemma worker_runs:
  assumes inv: "ring_inv skips w pl" and "worker_ticket w k = Some t"
  shows "pl t = PL_WORKER k"
  using ring_workersD(1) [OF ring_invD(4) [OF inv], of k t] assms(2) by simp

lemma ring_worker_reload:
  assumes inv: "ring_inv skips w pl" and run: "worker_reload k w = Some w'"
  shows "ring_inv skips w' pl"
proof -
  obtain t n where ph: "rs_wphase w k = EX_RELOAD t n" and w': "w' = set_worker k (EX_RUN t n) (reload_cno t w)"
    using run by (auto simp: worker_reload_def split: exec_phase.splits)
  have r: "ring_inv skips (reload_cno t w) pl"
    unfolding reload_cno_def by (rule ring_set_ctx [OF inv]) (simp_all add: same_task_def)
  show ?thesis
    unfolding w' by (rule ring_worker_phase [OF r])
      (use ring_workersD(2) [OF ring_invD(4) [OF inv], of k] ph in \<open>auto simp: worker_ticket_def set_worker_def reload_cno_def set_ctx_def\<close>)
qed

lemma ring_worker_store:
  assumes inv: "ring_inv skips w pl" and run: "worker_store k w = Some w'"
  shows "ring_inv skips w' pl"
proof -
  obtain t n where ph: "rs_wphase w k = EX_STORE t n"
    and w': "w' = set_worker k (EX_HEAD t (n + 1)) (set_stage (sno_of (the_ctx w t)) (STAGE n) w)"
    using run by (auto simp: worker_store_def split: exec_phase.splits)
  have t: "pl t = PL_WORKER k" by (rule worker_runs [OF inv]) (simp add: worker_ticket_def ph)
  have r: "ring_inv skips (set_stage t (STAGE n) w) pl" by (rule ring_set_stage [OF inv t]) simp
  have "sno_of (the_ctx w t) = t" using busy_sno [OF inv] t by blast
  then show ?thesis
    unfolding w' using ring_workersD(2) [OF ring_invD(4) [OF inv], of k] ph
    by (simp, intro ring_worker_phase [OF r]) (auto simp: worker_ticket_def set_worker_def set_stage_def)
qed

lemma ring_worker_push:
  assumes inv: "ring_inv skips w pl" and run: "worker_push k w = Some w'"
  shows "ring_inv skips w' pl"
proof -
  obtain t where ph: "rs_wphase w k = EX_PUSH t" and w': "w' = set_worker k EX_POLL (w\<lparr>rs_available := rs_available w @ [k]\<rparr>)"
    using run by (auto simp: worker_push_def split: exec_phase.splits)
  have r: "ring_inv skips (w\<lparr>rs_available := rs_available w @ [k]\<rparr>) pl" by (rule ring_inv_view [OF _ inv]) (simp add: ring_view_def)
  note d = ring_workersD(2,3) [OF ring_invD(4) [OF inv], of k]
  have "rs_wtid w k = Some t \<or> rs_wtid w k = None" "rs_wlast w k = t" using d ph by simp_all
  then show ?thesis
    unfolding w' by (intro ring_worker_phase [OF r]) (auto simp: worker_ticket_def set_worker_def ph)
qed

section \<open>Pipes\<close>

lemma ring_exit_done:
  assumes inv: "ring_inv skips w pl" and t: "pl t = PL_PIPE" "t \<le> mo_inext w" "c_op (the_ctx w t) = OP_DONE"
  shows "ring_inv skips (set_stage t STAGE_ALL w) (pl(t := PL_DONE))"
proof (rule ring_finish [OF inv _ t(3)])
  show "ring_workers (set_stage t STAGE_ALL w) (pl(t := PL_DONE))"
    by (rule ring_workers_places [OF ring_invD(4) [OF inv]]) (use t(1) in \<open>auto simp: set_stage_def\<close>)
qed (use t in \<open>simp_all add: set_stage_def\<close>)

text \<open>The stage of a free cell is stored once more behind the last ticket.\<close>

lemma ring_exit_bubble:
  assumes inv: "ring_inv skips w pl" and st: "the_stage w t = STAGE_ALL"
  shows "ring_inv skips (set_stage t STAGE_ALL w) pl"
proof (rule ring_inv_view [OF _ inv])
  have "(rs_stages w)(rcell t := STAGE_ALL) = rs_stages w" using st by (intro ext) simp
  then show "ring_view (set_stage t STAGE_ALL w) = ring_view w" by (simp add: ring_view_def set_stage_def)
qed

lemma ring_give:
  assumes inv: "ring_inv skips w pl" and t: "pl t = PL_PIPE" "t \<le> mo_inext w" and k: "worker_idle w k" "rs_wlast w k \<noteq> t"
  shows "ring_inv skips (give_task k t w) (pl(t := PL_WORKER k))"
proof (rule ring_invI)
  let ?w = "give_task k t w" and ?pl = "pl(t := PL_WORKER k)"
  note i = ring_invD [OF inv] and o = ring_ordered [OF inv]
  have busy: "pl t = PL_PIPE \<or> (\<exists>k. pl t = PL_WORKER k)" using t(1) by blast
  note b = busy_window [OF inv busy]
  show "ring_order ?w" by (rule ring_order_frame [OF i(1)]) (use o(7) in \<open>simp_all add: give_task_def\<close>)
  show "ring_cells ?w ?pl"
  proof (rule ring_cells_update [OF i(2) b(1)])
    show "cell_ok (the_stage w t) (the_ctx w t) (rs_log w t) t (PL_WORKER k)" using ring_cellsD [OF i(2) b(1)] t(1) by simp
  qed (simp_all add: give_task_def)
  have "ring_clients skips ?w pl" by (rule ring_clients_frame [OF i(3)]) (simp_all add: give_task_def)
  moreover have "?pl u = PL_WAIT cl \<longleftrightarrow> pl u = PL_WAIT cl" "?pl u = PL_READY cl \<longleftrightarrow> pl u = PL_READY cl" for u cl
    using t(1) by auto
  ultimately show "ring_clients skips ?w ?pl" unfolding ring_clients_def by simp
  have none: "pl u \<noteq> PL_WORKER k" for u
    using ring_workersD(1) [OF i(4), of k u] k(1) by (auto simp: worker_ticket_def worker_idle_def)
  show "ring_workers ?w ?pl"
  proof (rule ring_workers_move [OF i(4), where k = k])
    show "worker_ticket ?w k = Some u \<longleftrightarrow> ?pl u = PL_WORKER k" for u
      using none [of u] k by (auto simp: worker_ticket_def worker_idle_def give_task_def)
  qed (use k t(1) in \<open>auto simp: give_task_def worker_idle_def\<close>)
  show "ring_places ?w ?pl" by (rule ring_places_upd [OF i(5)]) (use b t in \<open>simp_all add: give_task_def\<close>)
  show "ring_monitor ?w ?pl" using i(6) t(1) unfolding ring_monitor_def by (auto simp: give_task_def)
qed

context pipe_tree
begin

lemma ring_run_handler:
  assumes inv: "ring_inv skips w pl" and run: "run_handler I t w = Some w'"
    and t: "pl t = PL_PIPE \<or> (\<exists>k. pl t = PL_WORKER k)"
  shows "ring_inv skips w' pl"
proof -
  obtain c s where st: "step_ctx I (the_ctx w t) (rs_store w) = Some (c, s)" and w': "w' = set_ctx t c (w\<lparr>rs_store := s\<rparr>)"
    using run by (auto simp: run_handler_def bind_Some_iff)
  have r: "ring_inv skips (w\<lparr>rs_store := s\<rparr>) pl" by (rule ring_inv_view [OF _ inv]) (simp add: ring_view_def)
  show ?thesis unfolding w' by (rule ring_set_ctx [OF r]) (use step_ctx_task [OF st] t in simp_all)
qed

end

section \<open>The end of the controller\<close>

lemma ring_do_gc: "ring_inv skips w pl \<Longrightarrow> rs_do_gc a w = Some w' \<Longrightarrow> ring_inv skips w' pl"
  by (rule ring_inv_view) (auto simp: rs_do_gc_def ring_view_def)

lemma ring_gc_request: "ring_inv skips w pl \<Longrightarrow> ring_inv skips (gc_request w) pl"
  by (rule ring_inv_view) (simp_all add: gc_request_def ring_view_def)

lemma ring_stop:
  assumes inv: "ring_inv skips w pl" and idle: "clients_idle w"
  shows "ring_inv skips (w\<lparr>rs_stop := True\<rparr>) pl"
proof (rule ring_invI)
  let ?w = "w\<lparr>rs_stop := True\<rparr>"
  note i = ring_invD [OF inv] and o = ring_ordered [OF inv]
  have cl: "rs_client w c = CL_IDLE" for c
    using ring_clientsD(2) [OF i(3), of c] idle by (rule_tac ccontr) (auto simp: clients_idle_def list_all_iff)
  show "ring_order ?w" by (rule ring_order_frame [OF i(1)]) (use o(7) in simp_all)
  show "ring_cells ?w pl" by (rule ring_cells_frame [OF i(2)]) simp_all
  show "ring_clients skips ?w pl" using i(3) unfolding ring_clients_def by (simp add: cl)
  show "ring_workers ?w pl" by (rule ring_workers_frame [OF i(4)]) simp_all
  show "ring_places ?w pl" by (rule ring_places_frame [OF i(5)]) simp_all
  show "ring_monitor ?w pl" using i(6) unfolding ring_monitor_def by simp
qed

text \<open>Behind the monitor's end every ticket is done.\<close>

lemma stopped_done:
  assumes inv: "ring_inv skips w pl" and "rs_mo w = MO_STOPPED"
  shows "pl t = (if t \<le> rs_submitted w then PL_DONE else PL_NONE)"
proof -
  have "mo_cnext w = rs_submitted w" using ring_invD(6) [OF inv] assms(2) by (simp add: ring_monitor_def mo_cnext_def)
  then show ?thesis using ring_placesD(1,4) [OF ring_invD(5) [OF inv], of t] by simp
qed

lemma stopped_cell:
  assumes inv: "ring_inv skips w pl" and stop: "rs_mo w = MO_STOPPED"
  shows "the_stage w t = STAGE_ALL" "c_op (the_ctx w t) = OP_DONE"
proof -
  obtain u where u: "in_window w u" "rcell u = rcell t" using window_cell by blast
  have "cell_ok (the_stage w u) (the_ctx w u) (rs_log w u) u (pl u)" by (rule ring_cellsD [OF ring_invD(2) [OF inv] u(1)])
  then show "the_stage w t = STAGE_ALL" "c_op (the_ctx w t) = OP_DONE"
    using stopped_done [OF assms, of u] u(2) by (simp_all split: if_splits)
qed

lemma ring_release:
  assumes inv: "ring_inv skips w pl" and stop: "rs_mo w = MO_STOPPED"
  shows "ring_inv skips (w\<lparr>rs_wtid := (\<lambda>_. None)\<rparr>) pl"
proof (rule ring_invI)
  let ?w = "w\<lparr>rs_wtid := (\<lambda>_. None)\<rparr>"
  note i = ring_invD [OF inv] and o = ring_ordered [OF inv]
  show "ring_order ?w" by (rule ring_order_frame [OF i(1)]) (use o(7) in simp_all)
  show "ring_cells ?w pl" by (rule ring_cells_frame [OF i(2)]) simp_all
  show "ring_clients skips ?w pl" by (rule ring_clients_frame [OF i(3)]) simp_all
  have none: "worker_ticket w k = None" for k
  proof (rule ccontr)
    assume "worker_ticket w k \<noteq> None"
    then obtain t where "pl t = PL_WORKER k" using ring_workersD(1) [OF i(4), of k] by auto
    then show False using stopped_done [OF assms, of t] by (simp split: if_splits)
  qed
  have "worker_ticket ?w k = None" for k
    using none [of k] by (auto simp: worker_ticket_def split: exec_phase.splits if_splits)
  then show "ring_workers ?w pl"
    using none ring_workersD [OF i(4)] unfolding ring_workers_def by simp
  show "ring_places ?w pl" by (rule ring_places_frame [OF i(5)]) simp_all
  show "ring_monitor ?w pl" by (rule ring_monitor_frame [OF i(6)]) simp_all
qed

section \<open>The monitor\<close>

text \<open>The cell behind the admitted tickets: its stage is 0 only if its client has let it go.\<close>

lemma next_admitted:
  assumes inv: "ring_inv skips w pl" and n: "n = mo_inext w" "n < rs_msub w" "the_stage w (Suc n) = STAGE 0"
  shows "pl (Suc n) = PL_PIPE" "Suc n < rs_committed w + BUFFER_SIZE"
proof -
  note i = ring_invD [OF inv] and o = ring_ordered [OF inv]
  have win: "in_window w (Suc n)"
  proof (rule ccontr)
    assume "\<not> in_window w (Suc n)"
    then have e: "Suc n = rs_committed w + BUFFER_SIZE" using o n(1) by (auto simp: in_window_def)
    have c: "in_window w (rs_committed w)" by (simp add: in_window_def BUFFER_SIZE_def)
    have "pl (rs_committed w) = PL_DONE" using ring_placesD(1) [OF i(5)] o by simp
    then have "the_stage w (rs_committed w) = STAGE_ALL" using ring_cellsD [OF i(2) c] by simp
    moreover have "rcell (Suc n) = rcell (rs_committed w)" unfolding e by (simp add: rcell_def)
    ultimately show False using n(3) by simp
  qed
  then show "Suc n < rs_committed w + BUFFER_SIZE" by (simp add: in_window_def)
  have "pl (Suc n) = PL_PIPE \<or> (\<exists>cl. pl (Suc n) = PL_WAIT cl \<or> pl (Suc n) = PL_READY cl)"
    using ring_placesD(3) [OF i(5), of "Suc n"] n o by auto
  then show "pl (Suc n) = PL_PIPE" using ring_cellsD [OF i(2) win] n(3) by auto
qed

text \<open>A ticket that is admitted and whose stage is complete is done.\<close>

lemma next_finished:
  assumes inv: "ring_inv skips w pl" and n: "mo_cnext w < t" "t \<le> rs_minit w" "the_stage w t = STAGE_ALL"
  shows "pl t = PL_DONE"
proof -
  note i = ring_invD [OF inv] and o = ring_ordered [OF inv]
  have win: "in_window w t" using n o by (auto simp: in_window_def)
  have "pl t = PL_DONE \<or> pl t = PL_PIPE \<or> (\<exists>k. pl t = PL_WORKER k)" using ring_placesD(2) [OF i(5), of t] n o by simp
  then show ?thesis using ring_cellsD [OF i(2) win] n(3) by auto
qed

text \<open>A step of the monitor that changes its own counters only.\<close>

lemma ring_monitor_move:
  assumes inv: "ring_inv skips w pl"
    and same: "rs_committed w' = rs_committed w" "rs_submitted w' = rs_submitted w" "rs_stages w' = rs_stages w"
      "rs_ctxs w' = rs_ctxs w" "rs_log w' = rs_log w" "rs_client w' = rs_client w" "rs_clients w' = rs_clients w"
      "rs_stop w' = rs_stop w" "rs_wtid w' = rs_wtid w" "rs_wlast w' = rs_wlast w" "rs_wphase w' = rs_wphase w"
    and order: "ring_order w'" and places: "ring_places w' pl" and mon: "ring_monitor w' pl"
  shows "ring_inv skips w' pl"
proof (rule ring_invI [OF order _ _ _ places mon])
  note i = ring_invD [OF inv]
  show "ring_cells w' pl" by (rule ring_cells_frame [OF i(2)]) (simp_all add: same)
  show "ring_clients skips w' pl" by (rule ring_clients_frame [OF i(3)]) (simp_all add: same)
  show "ring_workers w' pl" by (rule ring_workers_frame [OF i(4)]) (simp_all add: same)
qed

lemma ring_monitorD:
  assumes "ring_monitor w pl"
  shows "rs_mstop w \<Longrightarrow> rs_stop w" "rs_mstop w \<Longrightarrow> rs_mo w \<noteq> MO_LOAD \<Longrightarrow> rs_msub w = rs_submitted w"
    "rs_mo w \<noteq> MO_STOPPED \<Longrightarrow> rs_inited w \<le> rs_minit w" "rs_mo w = MO_STOPPED \<Longrightarrow> rs_mcom w = rs_submitted w \<and> rs_stop w"
    "rs_mo w \<noteq> MO_PUBLISH \<Longrightarrow> rs_mo w \<noteq> MO_STORE \<Longrightarrow> rs_committed w = rs_mcom w"
    "rs_mo w = MO_RETIRE n \<Longrightarrow> n < rs_minit w \<and> pl (Suc n) = PL_DONE"
  using assms unfolding ring_monitor_def by blast+

text \<open>A monitor step that keeps its two frontiers, or only forgets where it was.\<close>

lemma ring_monitor_goto:
  assumes inv: "ring_inv skips w pl"
    and same: "rs_committed w' = rs_committed w" "rs_submitted w' = rs_submitted w" "rs_stages w' = rs_stages w"
      "rs_ctxs w' = rs_ctxs w" "rs_log w' = rs_log w" "rs_client w' = rs_client w" "rs_clients w' = rs_clients w"
      "rs_stop w' = rs_stop w" "rs_wtid w' = rs_wtid w" "rs_wlast w' = rs_wlast w" "rs_wphase w' = rs_wphase w"
    and mo: "mo_inext w' = mo_inext w" "mo_cnext w' = mo_cnext w" "rs_msub w \<le> rs_msub w'" "rs_msub w' \<le> rs_submitted w"
      "rs_mcom w' \<le> mo_cnext w" "rs_committed w \<le> rs_mcom w'" "mo_cnext w \<le> rs_minit w'" "rs_minit w' \<le> mo_inext w"
    and mon: "ring_monitor w' pl"
  shows "ring_inv skips w' pl"
proof (rule ring_monitor_move [OF inv same _ _ mon])
  note i = ring_invD [OF inv] and o = ring_ordered [OF inv]
  show "ring_order w'" using o mo(3-) unfolding ring_order_def mo(1,2) same(1,2) by linarith
  show "ring_places w' pl" using i(5) unfolding ring_places_def mo(1,2) same(1,2) .
qed

lemma ring_monitor_init:
  assumes inv: "ring_inv skips w pl" and ph: "rs_mo w = MO_INIT n"
  shows "ring_inv skips (monitor_init n w) pl"
proof -
  note i = ring_invD [OF inv] and o = ring_ordered [OF inv] and d = ring_monitorD [OF ring_invD(6) [OF inv]]
  have m: "mo_inext w = n" "mo_cnext w = rs_mcom w" by (simp_all add: mo_inext_def mo_cnext_def ph)
  have c: "rs_committed w = rs_mcom w" using d(5) ph by simp
  consider "n < rs_msub w" "the_stage w (Suc n) = STAGE 0" | "\<not> (n < rs_msub w \<and> the_stage w (Suc n) = STAGE 0)" "rs_minit w < n"
    | "\<not> (n < rs_msub w \<and> the_stage w (Suc n) = STAGE 0)" "rs_minit w = n" using o m by linarith
  then show ?thesis
  proof cases
    case 1
    then have w': "monitor_init n w = w\<lparr>rs_mo := MO_INIT (Suc n)\<rparr>" by (simp add: monitor_init_def)
    note new = next_admitted [OF inv m(1) [symmetric] 1]
    have m': "mo_inext (w\<lparr>rs_mo := MO_INIT (Suc n)\<rparr>) = Suc n" "mo_cnext (w\<lparr>rs_mo := MO_INIT (Suc n)\<rparr>) = rs_mcom w"
      by (simp_all add: mo_inext_def mo_cnext_def)
    show ?thesis
      unfolding w'
    proof (rule ring_monitor_move [OF inv])
      show "ring_order (w\<lparr>rs_mo := MO_INIT (Suc n)\<rparr>)"
        using o 1(1) new(2) unfolding ring_order_def m' m by simp
      show "ring_places (w\<lparr>rs_mo := MO_INIT (Suc n)\<rparr>) pl"
        unfolding ring_places_def m'
      proof (intro conjI allI impI)
        fix t
        note p = ring_placesD [OF i(5), of t, unfolded m]
        show "t \<le> rs_mcom w \<Longrightarrow> pl t = PL_DONE" by (rule p(1))
        show "pl t = PL_DONE \<or> pl t = PL_PIPE \<or> (\<exists>k. pl t = PL_WORKER k)" if "rs_mcom w < t" "t \<le> Suc n"
          using p(2) that new(1) by (cases "t = Suc n") simp_all
        show "pl t = PL_PIPE \<and> t < rs_committed (w\<lparr>rs_mo := MO_INIT (Suc n)\<rparr>) + BUFFER_SIZE \<or> (\<exists>cl. pl t = PL_WAIT cl \<or> pl t = PL_READY cl)"
          if "Suc n < t" "t \<le> rs_submitted (w\<lparr>rs_mo := MO_INIT (Suc n)\<rparr>)" using p(3) that by simp
        show "rs_submitted (w\<lparr>rs_mo := MO_INIT (Suc n)\<rparr>) < t \<Longrightarrow> pl t = PL_NONE" using p(4) by simp
      qed
      show "ring_monitor (w\<lparr>rs_mo := MO_INIT (Suc n)\<rparr>) pl" using i(6) unfolding ring_monitor_def by (simp add: ph)
    qed simp_all
  next
    case 2
    then have w': "monitor_init n w = w\<lparr>rs_minit := n, rs_mo := MO_ADVANCE\<rparr>" by (auto simp: monitor_init_def)
    show ?thesis
      unfolding w'
      by (rule ring_monitor_goto [OF inv]) (use o i(6) m 2 in \<open>auto simp: mo_inext_def mo_cnext_def ring_monitor_def ph\<close>)
  next
    case 3
    then have w': "monitor_init n w = w\<lparr>rs_mo := MO_COMMIT (rs_mcom w)\<rparr>" by (auto simp: monitor_init_def)
    show ?thesis
      unfolding w'
      by (rule ring_monitor_goto [OF inv]) (use o i(6) m 3 c in \<open>auto simp: mo_inext_def mo_cnext_def ring_monitor_def ph\<close>)
  qed
qed

lemma ring_monitor_commit:
  assumes inv: "ring_inv skips w pl" and ph: "rs_mo w = MO_COMMIT n"
  shows "ring_inv skips (monitor_commit n w) pl"
proof -
  note i = ring_invD [OF inv] and o = ring_ordered [OF inv] and d = ring_monitorD [OF ring_invD(6) [OF inv]]
  have m: "mo_inext w = rs_minit w" "mo_cnext w = n" by (simp_all add: mo_inext_def mo_cnext_def ph)
  have c: "rs_committed w = rs_mcom w" using d(5) ph by simp
  consider "n < rs_minit w" "the_stage w (Suc n) = STAGE_ALL" | "\<not> (n < rs_minit w \<and> the_stage w (Suc n) = STAGE_ALL)" "rs_mcom w < n"
    | "\<not> (n < rs_minit w \<and> the_stage w (Suc n) = STAGE_ALL)" "rs_mcom w = n" using o m by linarith
  then show ?thesis
  proof cases
    case 1
    then have w': "monitor_commit n w = w\<lparr>rs_mo := MO_RETIRE n\<rparr>" by (simp add: monitor_commit_def)
    have "pl (Suc n) = PL_DONE" by (rule next_finished [OF inv]) (use m 1 in simp_all)
    then show ?thesis
      unfolding w'
      by (intro ring_monitor_goto [OF inv]) (use o i(6) m 1 c in \<open>auto simp: mo_inext_def mo_cnext_def ring_monitor_def ph\<close>)
  next
    case 2
    then have w': "monitor_commit n w = w\<lparr>rs_mcom := n, rs_mo := MO_PUBLISH\<rparr>" by (auto simp: monitor_commit_def)
    show ?thesis
      unfolding w'
      by (rule ring_monitor_goto [OF inv]) (use o i(6) m 2 c in \<open>auto simp: mo_inext_def mo_cnext_def ring_monitor_def ph\<close>)
  next
    case 3
    then have w': "monitor_commit n w = w\<lparr>rs_mo := MO_GC\<rparr>" by (auto simp: monitor_commit_def)
    show ?thesis
      unfolding w'
      by (rule ring_monitor_goto [OF inv]) (use o i(6) m 3 c in \<open>auto simp: mo_inext_def mo_cnext_def ring_monitor_def ph\<close>)
  qed
qed

lemma retire_task: "retire ns st v c g = (c', g') \<Longrightarrow> same_task c c' \<and> c_op c' = c_op c"
  by (auto simp: retire_def clear_retired_def drain_retired_def same_task_def Let_def split: if_splits option.splits prod.splits)

lemma ring_monitor_retire:
  assumes inv: "ring_inv skips w pl" and ph: "rs_mo w = MO_RETIRE n"
  shows "ring_inv skips (monitor_retire ckpt I n w) pl"
proof -
  note i = ring_invD [OF inv] and o = ring_ordered [OF inv] and d = ring_monitorD [OF ring_invD(6) [OF inv]]
  have m: "mo_inext w = rs_minit w" "mo_cnext w = n" by (simp_all add: mo_inext_def mo_cnext_def ph)
  have new: "n < rs_minit w" "pl (Suc n) = PL_DONE" using d(6) [OF ph] by simp_all
  have c: "rs_committed w = rs_mcom w" using d(5) ph by simp
  let ?w = "w\<lparr>rs_mo := MO_COMMIT (Suc n)\<rparr>"
  have m': "mo_inext ?w = rs_minit w" "mo_cnext ?w = Suc n" by (simp_all add: mo_inext_def mo_cnext_def)
  have step: "ring_inv skips ?w pl"
  proof (rule ring_monitor_move [OF inv])
    show "ring_order ?w" using o new(1) unfolding ring_order_def m' m by simp
    show "ring_places ?w pl"
      unfolding ring_places_def m'
    proof (intro conjI allI impI)
      fix t
      note p = ring_placesD [OF i(5), of t, unfolded m]
      show "pl t = PL_DONE" if "t \<le> Suc n" using p(1) that new(2) by (cases "t = Suc n") simp_all
      show "pl t = PL_DONE \<or> pl t = PL_PIPE \<or> (\<exists>k. pl t = PL_WORKER k)" if "Suc n < t" "t \<le> rs_minit w"
        using p(2) that by simp
      show "pl t = PL_PIPE \<and> t < rs_committed ?w + BUFFER_SIZE \<or> (\<exists>cl. pl t = PL_WAIT cl \<or> pl t = PL_READY cl)"
        if "rs_minit w < t" "t \<le> rs_submitted ?w" using p(3) that by simp
      show "rs_submitted ?w < t \<Longrightarrow> pl t = PL_NONE" using p(4) by simp
    qed
    show "ring_monitor ?w pl" using i(6) unfolding ring_monitor_def by (simp add: ph)
  qed simp_all
  obtain c' g where r: "retire (po_node_size I (rs_store w)) (map_option (\<lambda>f. f (rs_store w)) (po_stats I)) (of_nat (Suc n))
      (the_ctx w (Suc n)) (gs_gc (rs_gc w)) = (c', g)" by fastforce
  note t = retire_task [OF r]
  have "ring_inv skips (set_ctx (Suc n) c' ?w) pl" by (rule ring_set_ctx [OF step]) (use t in simp_all)
  moreover have "ring_view (monitor_retire ckpt I n w) = ring_view (set_ctx (Suc n) c' ?w)"
    using r by (auto simp: monitor_retire_def ring_view_def set_ctx_def Let_def simp del: of_nat_Suc split: prod.splits)
  ultimately show ?thesis by (rule ring_inv_view [rotated])
qed

lemma ring_monitor_store:
  assumes inv: "ring_inv skips w pl" and ph: "rs_mo w = MO_STORE"
  shows "ring_inv skips (w\<lparr>rs_committed := rs_mcom w, rs_mo := MO_GC\<rparr>) pl"
proof (rule ring_invI)
  let ?w = "w\<lparr>rs_committed := rs_mcom w, rs_mo := MO_GC\<rparr>"
  note i = ring_invD [OF inv] and o = ring_ordered [OF inv] and d = ring_monitorD [OF ring_invD(6) [OF inv]]
  have m: "mo_inext w = rs_minit w" "mo_cnext w = rs_mcom w" "mo_inext ?w = rs_minit w" "mo_cnext ?w = rs_mcom w"
    by (simp_all add: mo_inext_def mo_cnext_def ph)
  show "ring_order ?w" using o unfolding ring_order_def m by simp
  show "ring_cells ?w pl"
    unfolding ring_cells_def
  proof (intro allI impI)
    fix t assume "in_window ?w t"
    then have t: "rs_mcom w \<le> t" "t < rs_mcom w + BUFFER_SIZE" by (simp_all add: in_window_def)
    show "cell_ok (the_stage ?w t) (the_ctx ?w t) (rs_log ?w t) t (pl t)"
    proof (cases "t < rs_committed w + BUFFER_SIZE")
      case True
      then have "in_window w t" using t o by (simp add: in_window_def)
      from ring_cellsD [OF i(2) this] show ?thesis by simp
    next
      case False
      let ?u = "t - BUFFER_SIZE"
      have u: "in_window w ?u" "?u \<le> mo_cnext w" "rcell ?u = rcell t"
        using False t o m by (auto simp: in_window_def rcell_def le_mod_geq)
      have free: "the_stage w t = STAGE_ALL" "c_op (the_ctx w t) = OP_DONE"
        using ring_cellsD [OF i(2) u(1)] ring_placesD(1) [OF i(5) u(2)] u(3) by simp_all
      have far: "mo_inext w < t" using False o m by simp
      show ?thesis
      proof (cases "t \<le> rs_submitted w")
        case False
        then show ?thesis using ring_placesD(4) [OF i(5), of t] free by simp
      next
        case True
        then obtain cl where cl: "pl t = PL_WAIT cl \<or> pl t = PL_READY cl"
          using ring_placesD(3) [OF i(5) far] False by auto
        have "pl t \<noteq> PL_READY cl"
        proof
          assume "pl t = PL_READY cl"
          then have "holds_ready (rs_client w cl) t" using ring_clientsD(4) [OF i(3)] by simp
          then show False using ring_clientsD(1) [OF i(3), of cl] False by (cases "rs_client w cl") auto
        qed
        then show ?thesis using cl free by simp
      qed
    qed
  qed
  show "ring_clients skips ?w pl" by (rule ring_clients_frame [OF i(3)]) (use o in simp_all)
  show "ring_workers ?w pl" by (rule ring_workers_frame [OF i(4)]) simp_all
  show "ring_places ?w pl"
    unfolding ring_places_def m
  proof (intro conjI allI impI)
    fix t
    note p = ring_placesD [OF i(5), of t, unfolded m]
    show "t \<le> rs_mcom w \<Longrightarrow> pl t = PL_DONE" by (rule p(1))
    show "rs_mcom w < t \<Longrightarrow> t \<le> rs_minit w \<Longrightarrow> pl t = PL_DONE \<or> pl t = PL_PIPE \<or> (\<exists>k. pl t = PL_WORKER k)" by (rule p(2))
    show "pl t = PL_PIPE \<and> t < rs_committed ?w + BUFFER_SIZE \<or> (\<exists>cl. pl t = PL_WAIT cl \<or> pl t = PL_READY cl)"
      if "rs_minit w < t" "t \<le> rs_submitted ?w" using p(3) that o by auto
    show "rs_submitted ?w < t \<Longrightarrow> pl t = PL_NONE" using p(4) by simp
  qed
  show "ring_monitor ?w pl" using i(6) unfolding ring_monitor_def by (simp add: ph)
qed

lemma ring_monitor_step:
  assumes inv: "ring_inv skips w pl" and run: "monitor_step ckpt margin I w = Some w'"
  shows "ring_inv skips w' pl"
proof -
  note i = ring_invD [OF inv] and o = ring_ordered [OF inv] and d = ring_monitorD [OF ring_invD(6) [OF inv]]
  have gc: "ring_inv skips (w\<lparr>rs_gc := g, rs_store := s\<rparr>) pl" for g s
    by (rule ring_inv_view [OF _ inv]) (simp add: ring_view_def)
  have goto: "ring_inv skips (w\<lparr>rs_mo := ph\<rparr>) pl"
    if "mo_inext w = rs_minit w" "mo_cnext w = rs_mcom w" "mo_inext (w\<lparr>rs_mo := ph\<rparr>) = rs_minit w"
      "mo_cnext (w\<lparr>rs_mo := ph\<rparr>) = rs_mcom w" "ring_monitor (w\<lparr>rs_mo := ph\<rparr>) pl" for ph
    by (rule ring_monitor_goto [OF inv]) (use that o in simp_all)
  show ?thesis
  proof (cases "rs_mo w")
    case MO_TOP
    then have m: "mo_inext w = rs_minit w" "mo_cnext w = rs_mcom w" by (simp_all add: mo_inext_def mo_cnext_def)
    show ?thesis
    proof (cases "\<not> rs_mstop w \<or> rs_mcom w < rs_msub w")
      case True
      then have "w' = w\<lparr>rs_mstop := rs_stop w, rs_mo := MO_LOAD\<rparr>" using run MO_TOP by (auto simp: monitor_step_def)
      then show ?thesis
        by (simp, intro ring_monitor_goto [OF inv])
          (use o i(6) m MO_TOP in \<open>auto simp: mo_inext_def mo_cnext_def ring_monitor_def\<close>)
    next
      case False
      then have w': "w' = w\<lparr>rs_inited := rs_minit w + margin (rs_minit w), rs_mo := MO_STOPPED\<rparr>"
        using run MO_TOP by (auto simp: monitor_step_def)
      have "rs_mcom w = rs_submitted w" using False d(2) MO_TOP o m by force
      then show ?thesis
        unfolding w' by (intro ring_monitor_goto [OF inv])
          (use o i(6) m MO_TOP d(1) False in \<open>auto simp: mo_inext_def mo_cnext_def ring_monitor_def\<close>)
    qed
  next
    case MO_LOAD
    then have w': "w' = w\<lparr>rs_msub := rs_submitted w, rs_mo := MO_INIT (rs_minit w)\<rparr>" using run by (simp add: monitor_step_def)
    show ?thesis
      unfolding w' by (rule ring_monitor_goto [OF inv])
        (use o i(6) MO_LOAD in \<open>auto simp: mo_inext_def mo_cnext_def ring_monitor_def\<close>)
  next
    case (MO_INIT n)
    then show ?thesis using run ring_monitor_init [OF inv MO_INIT] by (simp add: monitor_step_def)
  next
    case MO_ADVANCE
    then have w': "w' = w\<lparr>rs_inited := rs_minit w, rs_mo := MO_COMMIT (rs_mcom w)\<rparr>" using run by (simp add: monitor_step_def)
    show ?thesis
      unfolding w' by (rule ring_monitor_goto [OF inv])
        (use o i(6) MO_ADVANCE in \<open>auto simp: mo_inext_def mo_cnext_def ring_monitor_def\<close>)
  next
    case (MO_COMMIT n)
    then show ?thesis using run ring_monitor_commit [OF inv MO_COMMIT] by (simp add: monitor_step_def)
  next
    case (MO_RETIRE n)
    then have "w' = monitor_retire ckpt I n w" using run by (simp add: monitor_step_def)
    then show ?thesis using ring_monitor_retire [OF inv MO_RETIRE] by simp
  next
    case MO_PUBLISH
    then have "monitor_publish w = Some w'" using run by (simp add: monitor_step_def)
    then obtain g where "w' = w\<lparr>rs_gc := g\<rparr> \<or> w' = w\<lparr>rs_gc := g, rs_mo := MO_STORE\<rparr>"
      by (auto simp: monitor_publish_def rs_do_gc_def split: pub_phase.splits)
    then show ?thesis
    proof
      assume "w' = w\<lparr>rs_gc := g\<rparr>"
      then show ?thesis by (intro ring_inv_view [OF _ inv]) (simp add: ring_view_def)
    next
      assume w': "w' = w\<lparr>rs_gc := g, rs_mo := MO_STORE\<rparr>"
      show ?thesis
        unfolding w' by (rule ring_monitor_goto [OF inv])
          (use o i(6) MO_PUBLISH in \<open>auto simp: mo_inext_def mo_cnext_def ring_monitor_def\<close>)
    qed
  next
    case MO_STORE
    then show ?thesis using run ring_monitor_store [OF inv MO_STORE] by (simp add: monitor_step_def)
  next
    case MO_GC
    have "ring_inv skips (w\<lparr>rs_mo := MO_RECLAIM (rs_gc_requested w)\<rparr>) pl" "ring_inv skips (w\<lparr>rs_mo := MO_TOP\<rparr>) pl"
      by (rule goto; use i(6) MO_GC in \<open>auto simp: mo_inext_def mo_cnext_def ring_monitor_def\<close>)+
    moreover have "w' = w\<lparr>rs_mo := MO_RECLAIM (rs_gc_requested w)\<rparr> \<or> w' = w\<lparr>rs_mo := MO_TOP\<rparr>"
      using run MO_GC by (auto simp: monitor_step_def split: if_splits)
    ultimately show ?thesis by blast
  next
    case (MO_RECLAIM request)
    then have "monitor_reclaim I request w = Some w'" using run by (simp add: monitor_step_def)
    then obtain g s where "w' = w\<lparr>rs_mo := MO_ACK request\<rparr> \<or> w' = w\<lparr>rs_gc := g\<rparr> \<or>
        w' = w\<lparr>rs_gc := g, rs_store := s, rs_mo := MO_ACK request\<rparr>"
      by (auto simp: monitor_reclaim_def rs_do_gc_def bind_Some_iff split: if_splits reclaim_phase.splits)
    moreover have "ring_view (w\<lparr>rs_gc := g, rs_store := s, rs_mo := MO_ACK request\<rparr>) = ring_view (w\<lparr>rs_mo := MO_ACK request\<rparr>)"
      by (simp add: ring_view_def)
    ultimately have "w' = w\<lparr>rs_gc := g\<rparr> \<or> ring_view w' = ring_view (w\<lparr>rs_mo := MO_ACK request\<rparr>)"
      by metis
    then show ?thesis
    proof
      assume "w' = w\<lparr>rs_gc := g\<rparr>"
      then show ?thesis by (intro ring_inv_view [OF _ inv]) (simp add: ring_view_def)
    next
      assume v: "ring_view w' = ring_view (w\<lparr>rs_mo := MO_ACK request\<rparr>)"
      have "ring_inv skips (w\<lparr>rs_mo := MO_ACK request\<rparr>) pl"
        by (rule goto) (use i(6) MO_RECLAIM in \<open>auto simp: mo_inext_def mo_cnext_def ring_monitor_def\<close>)
      then show ?thesis by (rule ring_inv_view [OF v])
    qed
  next
    case (MO_ACK request)
    have "ring_inv skips (w\<lparr>rs_mo := MO_TOP\<rparr>) pl"
      by (rule goto) (use i(6) MO_ACK in \<open>auto simp: mo_inext_def mo_cnext_def ring_monitor_def\<close>)
    moreover have "ring_view w' = ring_view (w\<lparr>rs_mo := MO_TOP\<rparr>)" using run MO_ACK by (auto simp: monitor_step_def ring_view_def)
    ultimately show ?thesis by (rule ring_inv_view [rotated])
  next
    case MO_STOPPED
    then show ?thesis using run by (simp add: monitor_step_def)
  qed
qed

end
