(* ===== verification/Concow_Correct.thy ===== *)
theory Concow_Correct
  imports Pipeline_Ring
begin

text \<open>
  The pipelined controller keeps its ring: in every interleaving of clients, pipes, workers and monitor no two
  threads work on the same cell, the pipes take the tickets in order, and the monitor commits finished tasks
  in the order of their tickets.
\<close>

section \<open>The pipes\<close>

definition active :: "pipe_phase \<Rightarrow> bool" where
  "active ph \<longleftrightarrow> ph \<noteq> PP_LOOP \<and> ph \<noteq> PP_END"

definition pipe_ok :: "('z, 's) concow \<Rightarrow> (nat \<Rightarrow> place) \<Rightarrow> nat \<Rightarrow> bool" where
  "pipe_ok w pl p \<longleftrightarrow>
     (let st = cc_pipe w p; t = pp_tid st in
      1 \<le> t \<and> t \<le> Suc (pp_cache st) \<and> pp_cache st \<le> pace p w \<and> (active (pp_phase st) \<longrightarrow> t \<le> pp_cache st) \<and>
      (pp_phase st = PP_EXEC \<longrightarrow> p < cc_pipes w \<and> pl t = PL_PIPE) \<and> (pp_phase st = PP_CKPT \<longrightarrow> p = 0) \<and>
      (pp_phase st = PP_PUT \<longrightarrow> p < cc_pipes w) \<and>
      (\<forall>k. pp_phase st = PP_GIVE k \<longrightarrow>
         p = cc_pipes w \<and> pl t = PL_PIPE \<and> worker_idle w k \<and> k \<notin> set (rs_available w)))"

abbreviation exit_tid :: "('z, 's) concow \<Rightarrow> nat" where
  "exit_tid w \<equiv> pp_tid (cc_pipe w (cc_pipes w))"

definition pipes_ok :: "('z, 's) concow \<Rightarrow> (nat \<Rightarrow> place) \<Rightarrow> bool" where
  "pipes_ok w pl \<longleftrightarrow>
     0 < cc_pipes w \<and> (\<forall>p \<le> cc_pipes w. pipe_ok w pl p) \<and>
     (\<forall>p < cc_pipes w. cc_pace w (Suc p) = pp_tid (cc_pipe w p) - 1) \<and>
     (\<forall>t. pl t = PL_PIPE \<longrightarrow> exit_tid w \<le> t) \<and> (\<forall>t. exit_tid w \<le> t \<longrightarrow> t \<le> mo_inext w \<longrightarrow> pl t = PL_PIPE) \<and>
     (\<forall>k. rs_wlast w k < exit_tid w) \<and>
     (\<forall>k. rs_wtid w k = None \<longrightarrow> pp_phase (cc_pipe w (cc_pipes w)) = PP_END) \<and>
     (pp_phase (cc_pipe w (cc_pipes w)) \<noteq> PP_END \<longrightarrow>
        distinct (rs_available w) \<and> (\<forall>k \<in> set (rs_available w). worker_idle w k))"

lemma pipes_okI:
  assumes "0 < cc_pipes w" "\<And>p. p \<le> cc_pipes w \<Longrightarrow> pipe_ok w pl p"
    "\<And>p. p < cc_pipes w \<Longrightarrow> cc_pace w (Suc p) = pp_tid (cc_pipe w p) - 1" "\<And>t. pl t = PL_PIPE \<Longrightarrow> exit_tid w \<le> t"
    "\<And>t. exit_tid w \<le> t \<Longrightarrow> t \<le> mo_inext w \<Longrightarrow> pl t = PL_PIPE" "\<And>k. rs_wlast w k < exit_tid w"
    "pp_phase (cc_pipe w (cc_pipes w)) \<noteq> PP_END \<Longrightarrow> distinct (rs_available w)"
    "\<And>k. pp_phase (cc_pipe w (cc_pipes w)) \<noteq> PP_END \<Longrightarrow> k \<in> set (rs_available w) \<Longrightarrow> worker_idle w k"
    "\<And>k. rs_wtid w k = None \<Longrightarrow> pp_phase (cc_pipe w (cc_pipes w)) = PP_END"
  shows "pipes_ok w pl"
  using assms unfolding pipes_ok_def by blast

lemma pipes_okD:
  assumes "pipes_ok w pl"
  shows "0 < cc_pipes w" "p \<le> cc_pipes w \<Longrightarrow> pipe_ok w pl p"
    "p < cc_pipes w \<Longrightarrow> cc_pace w (Suc p) = pp_tid (cc_pipe w p) - 1" "pl t = PL_PIPE \<Longrightarrow> exit_tid w \<le> t"
    "exit_tid w \<le> t \<Longrightarrow> t \<le> mo_inext w \<Longrightarrow> pl t = PL_PIPE" "rs_wlast w k < exit_tid w"
    "pp_phase (cc_pipe w (cc_pipes w)) \<noteq> PP_END \<Longrightarrow> distinct (rs_available w)"
    "pp_phase (cc_pipe w (cc_pipes w)) \<noteq> PP_END \<Longrightarrow> k \<in> set (rs_available w) \<Longrightarrow> worker_idle w k"
    "rs_wtid w k = None \<Longrightarrow> pp_phase (cc_pipe w (cc_pipes w)) = PP_END"
  using assms unfolding pipes_ok_def by blast+

lemma pipe_okD:
  assumes "pipe_ok w pl p"
  shows "1 \<le> pp_tid (cc_pipe w p)" "pp_tid (cc_pipe w p) \<le> Suc (pp_cache (cc_pipe w p))" "pp_cache (cc_pipe w p) \<le> pace p w"
    "active (pp_phase (cc_pipe w p)) \<Longrightarrow> pp_tid (cc_pipe w p) \<le> pp_cache (cc_pipe w p)"
    "pp_phase (cc_pipe w p) = PP_EXEC \<Longrightarrow> p < cc_pipes w \<and> pl (pp_tid (cc_pipe w p)) = PL_PIPE"
    "pp_phase (cc_pipe w p) = PP_CKPT \<Longrightarrow> p = 0" "pp_phase (cc_pipe w p) = PP_PUT \<Longrightarrow> p < cc_pipes w"
    "pp_phase (cc_pipe w p) = PP_GIVE k \<Longrightarrow>
       p = cc_pipes w \<and> pl (pp_tid (cc_pipe w p)) = PL_PIPE \<and> worker_idle w k \<and> k \<notin> set (rs_available w)"
  using assms unfolding pipe_ok_def Let_def by blast+

definition concow_inv :: "('z, 's) concow \<Rightarrow> (nat \<Rightarrow> place) \<Rightarrow> bool" where
  "concow_inv w pl \<longleftrightarrow> ring_inv concow_skips w pl \<and> pipes_ok w pl"

text \<open>A later pipe has not overtaken an earlier one.\<close>

lemma pipe_next:
  assumes "pipes_ok w pl" "p < cc_pipes w"
  shows "pp_tid (cc_pipe w (Suc p)) \<le> pp_tid (cc_pipe w p)"
    "active (pp_phase (cc_pipe w (Suc p))) \<Longrightarrow> pp_tid (cc_pipe w (Suc p)) < pp_tid (cc_pipe w p)"
proof -
  have q: "pipe_ok w pl (Suc p)" "pipe_ok w pl p" using pipes_okD(2) [OF assms(1)] assms(2) by simp_all
  have c: "pp_cache (cc_pipe w (Suc p)) \<le> pp_tid (cc_pipe w p) - 1"
    using pipe_okD(3) [OF q(1)] pipes_okD(3) [OF assms] by (simp add: pace_def)
  show "pp_tid (cc_pipe w (Suc p)) \<le> pp_tid (cc_pipe w p)" using c pipe_okD(2) [OF q(1)] pipe_okD(1) [OF q(2)] by linarith
  show "pp_tid (cc_pipe w (Suc p)) < pp_tid (cc_pipe w p)" if "active (pp_phase (cc_pipe w (Suc p)))"
    using c pipe_okD(4) [OF q(1) that] pipe_okD(1) [OF q(1)] pipe_okD(1) [OF q(2)] by linarith
qed

lemma pipe_order:
  assumes ok: "pipes_ok w pl" and "p \<le> q" "q \<le> cc_pipes w"
  shows "pp_tid (cc_pipe w q) \<le> pp_tid (cc_pipe w p)"
    "p < q \<Longrightarrow> active (pp_phase (cc_pipe w q)) \<Longrightarrow> pp_tid (cc_pipe w q) < pp_tid (cc_pipe w p)"
proof -
  have *: "p \<le> q \<Longrightarrow> q \<le> cc_pipes w \<Longrightarrow> pp_tid (cc_pipe w q) \<le> pp_tid (cc_pipe w p)" for q
  proof (induction q rule: dec_induct)
    case (step m)
    then show ?case using pipe_next(1) [OF ok, of m] by simp
  qed simp
  show "pp_tid (cc_pipe w q) \<le> pp_tid (cc_pipe w p)" by (rule *) (use assms in simp_all)
  show "pp_tid (cc_pipe w q) < pp_tid (cc_pipe w p)" if "p < q" "active (pp_phase (cc_pipe w q))"
  proof -
    obtain m where m: "q = Suc m" "p \<le> m" using \<open>p < q\<close> by (cases q) auto
    then show ?thesis using pipe_next(2) [OF ok, of m] * [of m] that assms(3) by fastforce
  qed
qed

text \<open>What a pipe works on: its own ticket, or a bubble behind the last one.\<close>

lemma active_ticket:
  assumes inv: "concow_inv w pl" and p: "p \<le> cc_pipes w" and act: "active (pp_phase (cc_pipe w p))"
  defines "t \<equiv> pp_tid (cc_pipe w p)"
  shows "pl t = PL_PIPE \<and> t \<le> mo_inext w \<or> rs_mo w = MO_STOPPED \<and> rs_submitted w < t"
proof -
  have r: "ring_inv concow_skips w pl" and ok: "pipes_ok w pl" using inv by (simp_all add: concow_inv_def)
  note o = ring_ordered [OF r] and d = ring_monitorD [OF ring_invD(6) [OF r]]
  have "t \<le> rs_inited w"
  proof (cases p)
    case 0
    then show ?thesis
      using pipe_okD(3,4) [OF pipes_okD(2) [OF ok p]] act by (simp add: t_def pace_def)
  next
    case (Suc q)
    have "pp_tid (cc_pipe w p) < pp_tid (cc_pipe w 0)" by (rule pipe_order(2) [OF ok]) (use p act Suc in simp_all)
    moreover have "pp_tid (cc_pipe w 0) \<le> Suc (rs_inited w)"
      using pipe_okD(2,3) [OF pipes_okD(2) [OF ok, of 0]] by (simp add: pace_def)
    ultimately show ?thesis by (simp add: t_def)
  qed
  moreover have "exit_tid w \<le> t" unfolding t_def by (rule pipe_order(1) [OF ok]) (use p in simp_all)
  ultimately have *: "t \<le> mo_inext w \<Longrightarrow> pl t = PL_PIPE" using pipes_okD(5) [OF ok] by simp
  show ?thesis
  proof (cases "t \<le> mo_inext w")
    case False
    then have stop: "rs_mo w = MO_STOPPED" using \<open>t \<le> rs_inited w\<close> d(3) o by force
    then have "mo_inext w = rs_submitted w" using d(4) o by (simp add: mo_inext_def)
    then show ?thesis using stop False by simp
  qed (use * in simp)
qed

lemma active_cell:
  assumes inv: "concow_inv w pl" and p: "p \<le> cc_pipes w" and act: "active (pp_phase (cc_pipe w p))"
    and op: "c_op (the_ctx w (pp_tid (cc_pipe w p))) \<noteq> OP_DONE"
  shows "pl (pp_tid (cc_pipe w p)) = PL_PIPE" "pp_tid (cc_pipe w p) \<le> mo_inext w"
  using active_ticket [OF inv p act] stopped_cell(2) [of concow_skips w pl] inv op by (auto simp: concow_inv_def)

section \<open>Actions of the other threads\<close>

lemma pipes_ok_frame:
  assumes ok: "pipes_ok w pl"
    and same: "cc_pipes w' = cc_pipes w" "cc_pace w' = cc_pace w" "cc_pipe w' = cc_pipe w" "rs_available w' = rs_available w"
    and inited: "rs_inited w \<le> rs_inited w'"
    and idle: "\<And>k. pp_phase (cc_pipe w (cc_pipes w)) \<noteq> PP_END \<Longrightarrow> worker_idle w k \<Longrightarrow> worker_idle w' k"
    and last: "\<And>k. rs_wlast w' k < exit_tid w" "\<And>k. rs_wtid w' k = None \<Longrightarrow> pp_phase (cc_pipe w (cc_pipes w)) = PP_END"
    and keep: "\<And>t. pl t = PL_PIPE \<Longrightarrow> pl' t = PL_PIPE"
    and l1: "\<And>t. pl' t = PL_PIPE \<Longrightarrow> exit_tid w \<le> t"
    and l2: "\<And>t. exit_tid w \<le> t \<Longrightarrow> t \<le> mo_inext w' \<Longrightarrow> pl' t = PL_PIPE"
  shows "pipes_ok w' pl'"
proof (rule pipes_okI)
  fix p assume "p \<le> cc_pipes w'"
  then have "pipe_ok w pl p" using pipes_okD(2) [OF ok] by (simp add: same)
  note d = pipe_okD [OF this]
  have "pace p w \<le> pace p w'" using inited by (simp add: pace_def same)
  then show "pipe_ok w' pl' p"
    unfolding pipe_ok_def Let_def same
    using d(1,2,4,6,7) order_trans [OF d(3)] d(5) keep d(8) idle by auto
next
  show "0 < cc_pipes w'" using pipes_okD(1) [OF ok] by (simp add: same)
  show "cc_pace w' (Suc p) = pp_tid (cc_pipe w' p) - 1" if "p < cc_pipes w'" for p
    using pipes_okD(3) [OF ok] that by (simp add: same)
  show "exit_tid w' \<le> t" if "pl' t = PL_PIPE" for t using l1 [OF that] by (simp add: same)
  show "pl' t = PL_PIPE" if "exit_tid w' \<le> t" "t \<le> mo_inext w'" for t using l2 [of t] that by (simp add: same)
  show "rs_wlast w' k < exit_tid w'" for k using last(1) by (simp add: same)
  show "pp_phase (cc_pipe w' (cc_pipes w')) = PP_END" if "rs_wtid w' k = None" for k using last(2) [OF that] by (simp add: same)
  assume "pp_phase (cc_pipe w' (cc_pipes w')) \<noteq> PP_END"
  then have e: "pp_phase (cc_pipe w (cc_pipes w)) \<noteq> PP_END" by (simp add: same)
  show "distinct (rs_available w')" using pipes_okD(7) [OF ok e] by (simp add: same)
  show "worker_idle w' k" if "k \<in> set (rs_available w')" for k using idle [OF e] pipes_okD(8) [OF ok e] that by (simp add: same)
qed

text \<open>The tickets of the clients lie behind those of the pipes.\<close>

lemma client_behind:
  assumes inv: "concow_inv w pl" and t: "mo_inext w < t" "t \<le> rs_submitted w"
  shows "exit_tid w \<le> t"
proof -
  have r: "ring_inv concow_skips w pl" and ok: "pipes_ok w pl" using inv by (simp_all add: concow_inv_def)
  note o = ring_ordered [OF r] and d = ring_monitorD [OF ring_invD(6) [OF r]]
  have "rs_mo w \<noteq> MO_STOPPED" using d(4) o t by force
  then have "rs_inited w \<le> mo_inext w" using d(3) o by simp
  moreover have "exit_tid w \<le> Suc (rs_inited w)"
    using pipe_okD(2,3) [OF pipes_okD(2) [OF ok, of 0]] pipe_order(1) [OF ok, of 0 "cc_pipes w"] by (simp add: pace_def)
  ultimately show ?thesis using t by linarith
qed

text \<open>An action that changes no place.\<close>

lemma concow_inv_same:
  assumes inv: "concow_inv w pl" and ring: "ring_inv concow_skips w' pl"
    and same: "cc_pipes w' = cc_pipes w" "cc_pace w' = cc_pace w" "cc_pipe w' = cc_pipe w" "rs_available w' = rs_available w"
      "rs_submitted w' = rs_submitted w"
    and last: "\<And>k. rs_wlast w' k < exit_tid w" "\<And>k. rs_wtid w' k = None \<Longrightarrow> pp_phase (cc_pipe w (cc_pipes w)) = PP_END"
    and inited: "rs_inited w \<le> rs_inited w'"
    and idle: "\<And>k. pp_phase (cc_pipe w (cc_pipes w)) \<noteq> PP_END \<Longrightarrow> worker_idle w k \<Longrightarrow> worker_idle w' k"
  shows "concow_inv w' pl"
proof -
  have r: "ring_inv concow_skips w pl" and ok: "pipes_ok w pl" using inv by (simp_all add: concow_inv_def)
  have "pipes_ok w' pl"
  proof (rule pipes_ok_frame [OF ok same(1-4) inited idle last])
    show "exit_tid w \<le> t" if "pl t = PL_PIPE" for t by (rule pipes_okD(4) [OF ok that])
    fix t assume t: "exit_tid w \<le> t" "t \<le> mo_inext w'"
    show "pl t = PL_PIPE"
    proof (cases "t \<le> mo_inext w")
      case True
      then show ?thesis using pipes_okD(5) [OF ok t(1)] by simp
    next
      case False
      have "t \<le> rs_submitted w" using t(2) ring_ordered(5,6) [OF ring] by (simp add: same)
      then have "pl t = PL_PIPE \<or> (\<exists>cl. pl t = PL_WAIT cl \<or> pl t = PL_READY cl)"
        using ring_placesD(3) [OF ring_invD(5) [OF r], of t] False by auto
      moreover have "pl t = PL_DONE \<or> pl t = PL_PIPE \<or> (\<exists>k. pl t = PL_WORKER k)"
        using ring_placesD(1,2) [OF ring_invD(5) [OF ring], of t] t(2) by (cases "t \<le> mo_cnext w'") auto
      ultimately show ?thesis by auto
    qed
  qed
  then show ?thesis using ring by (simp add: concow_inv_def)
qed

lemma monitor_frame:
  fixes w :: "('z, 's) concow"
  assumes "monitor_step ckpt margin I w = Some w'"
  shows "cc_pipes w' = cc_pipes w" "cc_pace w' = cc_pace w" "cc_pipe w' = cc_pipe w" "rs_available w' = rs_available w"
    "rs_wlast w' = rs_wlast w" "rs_wphase w' = rs_wphase w" "rs_wtid w' = rs_wtid w" "rs_submitted w' = rs_submitted w"
  using assms
  by (auto simp: monitor_step_def monitor_init_def monitor_commit_def monitor_retire_def monitor_publish_def monitor_reclaim_def
      rs_do_gc_def set_ctx_def bind_Some_iff Let_def split: monitor_phase.splits if_splits prod.splits pub_phase.splits reclaim_phase.splits)

lemma monitor_inited:
  assumes inv: "ring_inv skips w pl" and run: "monitor_step ckpt margin I w = Some w'"
  shows "rs_inited w \<le> rs_inited w'"
proof -
  have "rs_mo w \<noteq> MO_STOPPED" using run by (auto simp: monitor_step_def)
  then have i: "rs_inited w \<le> rs_minit w" using ring_monitorD(3) [OF ring_invD(6) [OF inv]] by simp
  have "rs_inited w' = rs_inited w \<or> rs_inited w' = rs_minit w \<or> rs_inited w' = rs_minit w + margin (rs_minit w)"
    using run
    by (auto simp: monitor_step_def monitor_init_def monitor_commit_def monitor_retire_def monitor_publish_def monitor_reclaim_def
        rs_do_gc_def set_ctx_def bind_Some_iff Let_def split: monitor_phase.splits if_splits prod.splits pub_phase.splits reclaim_phase.splits)
  then show ?thesis using i by auto
qed

lemma worker_idle_frame: "rs_wphase w' k = rs_wphase w k \<Longrightarrow> rs_wtid w' k = rs_wtid w k \<Longrightarrow> rs_wlast w' k = rs_wlast w k \<Longrightarrow>
    worker_idle w' k = worker_idle w k"
  by (simp add: worker_idle_def)

lemma concow_monitor:
  assumes inv: "concow_inv w pl" and run: "monitor_step ckpt margin I w = Some w'"
  shows "concow_inv w' pl"
proof -
  have r: "ring_inv concow_skips w pl" using inv by (simp add: concow_inv_def)
  note f = monitor_frame [OF run]
  show ?thesis
    by (rule concow_inv_same [OF inv ring_monitor_step [OF r run]])
      (use monitor_inited [OF r run] pipes_okD(6,9) [of w pl] inv in \<open>simp_all add: f worker_idle_def concow_inv_def\<close>)
qed

text \<open>A client moves a ticket behind the pipes.\<close>

lemma concow_client:
  assumes inv: "concow_inv w pl" and ring: "ring_inv concow_skips w' (pl(t := P))"
    and same: "cc_pipes w' = cc_pipes w" "cc_pace w' = cc_pace w" "cc_pipe w' = cc_pipe w" "rs_available w' = rs_available w"
      "rs_wlast w' = rs_wlast w" "rs_inited w' = rs_inited w" "rs_wphase w' = rs_wphase w" "rs_wtid w' = rs_wtid w"
      "mo_inext w' = mo_inext w"
    and t: "mo_inext w < t" "P = PL_PIPE \<Longrightarrow> exit_tid w \<le> t" "pl t \<noteq> PL_PIPE"
  shows "concow_inv w' (pl(t := P))"
proof -
  have ok: "pipes_ok w pl" using inv by (simp add: concow_inv_def)
  have "pipes_ok w' (pl(t := P))"
  proof (rule pipes_ok_frame [OF ok same(1-4)])
    show "worker_idle w' k" if "worker_idle w k" for k using that by (simp add: worker_idle_def same)
    show "rs_wlast w' k < exit_tid w" for k using pipes_okD(6) [OF ok] by (simp add: same)
    show "pp_phase (cc_pipe w (cc_pipes w)) = PP_END" if "rs_wtid w' k = None" for k
      using pipes_okD(9) [OF ok, of k] that by (simp add: same)
    show "(pl(t := P)) u = PL_PIPE" if "pl u = PL_PIPE" for u using that t(3) by auto
    show "exit_tid w \<le> u" if "(pl(t := P)) u = PL_PIPE" for u
      using that t(2) pipes_okD(4) [OF ok, of u] by (cases "u = t") auto
    show "(pl(t := P)) u = PL_PIPE" if "exit_tid w \<le> u" "u \<le> mo_inext w'" for u
      using that t(1) pipes_okD(5) [OF ok, of u] by (auto simp: same)
  qed (simp add: same)
  then show ?thesis using ring by (simp add: concow_inv_def)
qed

lemma concow_fill_task:
  "c_sno (concow_fill slots gc t key val c) = of_nat t"
  "\<not> concow_skips t \<Longrightarrow> c_key (concow_fill slots gc t key val c) = key \<and> c_val (concow_fill slots gc t key val c) = val"
proof -
  have "(ucast (of_nat t :: u64) :: u32) = of_nat t"
    by (simp add: word_unat_eq_iff unat_of_nat unsigned_ucast_eq take_bit_eq_mod mod_mod_cancel)
  then show "c_sno (concow_fill slots gc t key val c) = of_nat t" by (simp add: concow_fill_def init_task_def)
qed (simp add: concow_fill_def init_task_def)

lemma concow_client_act:
  assumes inv: "concow_inv w pl" and run: "cc_do I a w = Some w'"
    and a: "a = CcCall cl key val \<or> a = CcReserve cl \<or> a = CcPass cl \<or> a = CcFill cl \<or> a = CcSignal cl"
  shows "\<exists>pl'. concow_inv w' pl'"
proof -
  have r: "ring_inv concow_skips w pl" and ok: "pipes_ok w pl" using inv by (simp_all add: concow_inv_def)
  note l = pipes_okD(6,9) [OF ok]
  from a show ?thesis
  proof (elim disjE)
    assume [simp]: "a = CcCall cl key val"
    have "concow_inv w' pl"
      by (rule concow_inv_same [OF inv ring_client_call [OF r]])
        (use run l in \<open>auto simp: client_call_def set_client_def worker_idle_def split: if_splits\<close>)
    then show ?thesis by blast
  next
    assume [simp]: "a = CcReserve cl"
    obtain x where x: "client_reserve concow_skips cl w = Some x" "w' = (case x of Inl e \<Rightarrow> set_client cl CL_IDLE w | Inr w' \<Rightarrow> w')"
      using run by auto
    consider e where "client_reserve concow_skips cl w = Some (Inl e)" "w' = set_client cl CL_IDLE w"
      | "client_reserve concow_skips cl w = Some (Inr w')" using x by (cases x) simp_all
    then show ?thesis
    proof cases
      case 1
      have "concow_inv w' pl"
        unfolding 1(2) by (rule concow_inv_same [OF inv ring_client_throw [OF r 1(1)]])
          (use l in \<open>simp_all add: set_client_def worker_idle_def\<close>)
      then show ?thesis by blast
    next
      case 2
      have f: "cc_pipes w' = cc_pipes w" "cc_pace w' = cc_pace w" "cc_pipe w' = cc_pipe w" "rs_available w' = rs_available w"
        "rs_wlast w' = rs_wlast w" "rs_inited w' = rs_inited w" "rs_wphase w' = rs_wphase w" "rs_wtid w' = rs_wtid w"
        "rs_mo w' = rs_mo w" "rs_minit w' = rs_minit w" "rs_mcom w' = rs_mcom w"
        using 2 by (auto simp: client_reserve_def set_client_def Let_def split: client_phase.splits if_splits)
      have "concow_inv w' (pl(Suc (rs_submitted w) := PL_WAIT cl))"
      proof (rule concow_client [OF inv ring_client_reserve [OF r 2] f(1-8)])
        show "mo_inext w' = mo_inext w" by (rule mo_frame) (simp_all add: f)
        show "mo_inext w < Suc (rs_submitted w)" using ring_ordered(5,6) [OF r] by simp
        show "pl (Suc (rs_submitted w)) \<noteq> PL_PIPE" using ring_placesD(4) [OF ring_invD(5) [OF r], of "Suc (rs_submitted w)"] by simp
      qed simp
      then show ?thesis by blast
    qed
  next
    assume [simp]: "a = CcPass cl"
    have "client_pass cl w = Some w'" using run by simp
    have "concow_inv w' pl"
      by (rule concow_inv_same [OF inv ring_client_pass [OF r \<open>client_pass cl w = Some w'\<close>]])
        (use run l in \<open>auto simp: client_pass_def set_client_def worker_idle_def split: if_splits client_phase.splits\<close>)
    then show ?thesis by blast
  next
    assume [simp]: "a = CcFill cl"
    have fill: "client_fill (concow_fill (rs_fat_slots w) (g_enabled (gs_gc (rs_gc w)))) cl w = Some w'" using run by simp
    obtain t where t: "pl t = PL_WAIT cl" "ring_inv concow_skips w' (pl(t := PL_READY cl))"
      using ring_client_fill [OF r fill] concow_fill_task by blast
    have f: "cc_pipes w' = cc_pipes w" "cc_pace w' = cc_pace w" "cc_pipe w' = cc_pipe w" "rs_available w' = rs_available w"
      "rs_wlast w' = rs_wlast w" "rs_inited w' = rs_inited w" "rs_wphase w' = rs_wphase w" "rs_wtid w' = rs_wtid w"
      "rs_mo w' = rs_mo w" "rs_minit w' = rs_minit w" "rs_mcom w' = rs_mcom w"
      using fill by (auto simp: client_fill_def set_client_def set_ctx_def split: client_phase.splits)
    have "concow_inv w' (pl(t := PL_READY cl))"
    proof (rule concow_client [OF inv t(2) f(1-8)])
      show "mo_inext w' = mo_inext w" by (rule mo_frame) (simp_all add: f)
      show "mo_inext w < t" using pl_client_range(1) [OF r, of t cl] t(1) by simp
    qed (use t(1) in simp_all)
    then show ?thesis by blast
  next
    assume [simp]: "a = CcSignal cl"
    have sig: "client_signal concow_skips cl w = Some w'" using run by simp
    obtain t where t: "pl t = PL_READY cl" "ring_inv concow_skips w' (pl(t := PL_PIPE))"
      using ring_client_signal [OF r sig] by blast
    have f: "cc_pipes w' = cc_pipes w" "cc_pace w' = cc_pace w" "cc_pipe w' = cc_pipe w" "rs_available w' = rs_available w"
      "rs_wlast w' = rs_wlast w" "rs_inited w' = rs_inited w" "rs_wphase w' = rs_wphase w" "rs_wtid w' = rs_wtid w"
      "rs_mo w' = rs_mo w" "rs_minit w' = rs_minit w" "rs_mcom w' = rs_mcom w"
      using sig by (auto simp: client_signal_def set_client_def set_stage_def split: client_phase.splits)
    have range: "mo_inext w < t" "t \<le> rs_submitted w" using pl_client_range [OF r, of t cl] t(1) by simp_all
    have "concow_inv w' (pl(t := PL_PIPE))"
    proof (rule concow_client [OF inv t(2) f(1-8)])
      show "mo_inext w' = mo_inext w" by (rule mo_frame) (simp_all add: f)
      show "exit_tid w \<le> t" by (rule client_behind [OF inv range])
    qed (use t(1) range in simp_all)
    then show ?thesis by blast
  qed
qed

text \<open>A worker that can move is not idle.\<close>

lemma idle_stays: "worker_idle w k \<Longrightarrow> worker_step I k w = None"
  by (simp add: worker_idle_def worker_step_def worker_poll_def)

definition worker_moved :: "nat \<Rightarrow> ('z, 's) concow \<Rightarrow> ('z, 's) concow \<Rightarrow> bool" where
  "worker_moved k w w' \<longleftrightarrow>
     cc_pipes w' = cc_pipes w \<and> cc_pace w' = cc_pace w \<and> cc_pipe w' = cc_pipe w \<and> rs_submitted w' = rs_submitted w \<and>
     rs_inited w' = rs_inited w \<and> rs_wtid w' = rs_wtid w \<and> rs_mo w' = rs_mo w \<and> rs_minit w' = rs_minit w \<and> rs_mcom w' = rs_mcom w \<and>
     (\<forall>j. j \<noteq> k \<longrightarrow> rs_wphase w' j = rs_wphase w j \<and> rs_wlast w' j = rs_wlast w j) \<and>
     (rs_available w' = rs_available w \<or> (\<exists>t. rs_wphase w k = EX_PUSH t \<and> rs_wphase w' k = EX_POLL \<and>
        rs_available w' = rs_available w @ [k] \<and> rs_wlast w' k = rs_wlast w k)) \<and>
     (rs_wlast w' k = rs_wlast w k \<or> worker_ticket w k = Some (rs_wlast w' k))"

lemma run_handler_frame:
  fixes w :: "('z, 's) concow"
  assumes "run_handler I t w = Some w'"
  shows "\<exists>c s. w' = set_ctx t c (w\<lparr>rs_store := s\<rparr>)"
  using assms by (auto simp: run_handler_def bind_Some_iff)

lemma worker_step_moved:
  assumes "worker_step I k w = Some w'"
  shows "worker_moved k w w'"
proof (cases "rs_wphase w k")
  case (EX_RUN t n)
  then have "worker_run I k w = Some w'" using assms by (simp add: worker_step_def)
  then consider w1 p where "run_handler I t w = Some w1" "w' = set_worker k p w1" | "w' = reload_cno t w" | p where "w' = set_worker k p w"
    using EX_RUN by (auto simp: worker_run_def Let_def bind_Some_iff split: if_splits)
  then show ?thesis
  proof cases
    case 1
    then obtain c s where "w1 = set_ctx t c (w\<lparr>rs_store := s\<rparr>)" using run_handler_frame by blast
    then show ?thesis using 1 by (simp add: worker_moved_def set_worker_def set_ctx_def)
  qed (simp_all add: worker_moved_def set_worker_def reload_cno_def set_ctx_def)
qed (use assms in \<open>auto simp: worker_step_def worker_poll_def worker_head_def worker_reload_def worker_store_def worker_push_def worker_moved_def
      set_worker_def set_stage_def set_ctx_def reload_cno_def worker_ticket_def Let_def split: if_splits\<close>)

context pipe_tree
begin

lemma ring_worker_step:
  assumes inv: "ring_inv skips w pl" and run: "worker_step I k w = Some w'"
  shows "ring_inv skips w' pl \<or> (\<exists>t. pl t = PL_WORKER k \<and> ring_inv skips w' (pl(t := PL_DONE)))"
proof (cases "rs_wphase w k")
  case (EX_RUN t n)
  have t: "pl t = PL_WORKER k" by (rule worker_runs [OF inv]) (simp add: worker_ticket_def EX_RUN)
  have ex: "rs_wtid w k = Some t \<or> rs_wtid w k = None" by (rule ring_workersD(2) [OF ring_invD(4) [OF inv]]) (simp add: EX_RUN)
  have "worker_run I k w = Some w'" using run EX_RUN by (simp add: worker_step_def)
  then consider w1 p where "run_handler I t w = Some w1" "w' = set_worker k p w1" "p = EX_RUN t n \<or> p = EX_STORE t n"
    | "w' = reload_cno t w" | "w' = set_worker k (EX_RELOAD t n) w"
    using EX_RUN by (auto simp: worker_run_def Let_def bind_Some_iff split: if_splits)
  then have "ring_inv skips w' pl"
  proof cases
    case 1
    have r: "ring_inv skips w1 pl" by (rule ring_run_handler [OF inv 1(1)]) (use t in blast)
    obtain c s where w1: "w1 = set_ctx t c (w\<lparr>rs_store := s\<rparr>)" using run_handler_frame [OF 1(1)] by blast
    show ?thesis
      unfolding 1(2) by (rule ring_worker_phase [OF r])
        (use 1(3) ex EX_RUN in \<open>auto simp: worker_ticket_def set_worker_def w1 set_ctx_def\<close>)
  next
    case 2
    then show ?thesis unfolding reload_cno_def by (simp, intro ring_set_ctx [OF inv]) (simp_all add: same_task_def)
  next
    case 3
    show ?thesis
      unfolding 3 by (rule ring_worker_phase [OF inv]) (use ex EX_RUN in \<open>auto simp: worker_ticket_def set_worker_def\<close>)
  qed
  then show ?thesis by blast
qed (use run ring_worker_poll [OF inv, of k w'] ring_worker_head [OF inv, of k w'] ring_worker_reload [OF inv, of k w']
      ring_worker_store [OF inv, of k w'] ring_worker_push [OF inv, of k w'] in \<open>simp_all add: worker_step_def\<close>)

lemma concow_worker:
  assumes inv: "concow_inv w pl" and run: "worker_step I k w = Some w'"
  shows "\<exists>pl'. concow_inv w' pl'"
proof -
  have r: "ring_inv concow_skips w pl" and ok: "pipes_ok w pl" using inv by (simp_all add: concow_inv_def)
  have moved: "worker_moved k w w'" by (rule worker_step_moved [OF run])
  have busy: "\<not> worker_idle w k" using idle_stays run by fastforce
  obtain pl' where pl': "ring_inv concow_skips w' pl'" "pl' = pl \<or> (\<exists>t. pl t = PL_WORKER k \<and> pl' = pl(t := PL_DONE))"
    using ring_worker_step [OF r run] by blast
  have f: "cc_pipes w' = cc_pipes w" "cc_pace w' = cc_pace w" "cc_pipe w' = cc_pipe w" "rs_inited w' = rs_inited w"
    "rs_wtid w' = rs_wtid w" and mi: "mo_inext w' = mo_inext w"
    using moved mo_frame(1) [of w' w] by (simp_all add: worker_moved_def)
  have idle: "worker_idle w' j" if "worker_idle w j" for j
    using that busy moved by (cases "j = k") (auto simp: worker_moved_def worker_idle_def)
  have held: "t < exit_tid w" if "pl t = PL_WORKER k" for t
  proof (rule ccontr)
    assume "\<not> t < exit_tid w"
    moreover have "t \<le> mo_inext w"
      using ring_placesD(3) [OF ring_invD(5) [OF r], of t] busy_window(3) [OF r, of t] that by (rule_tac ccontr) auto
    ultimately show False using pipes_okD(5) [OF ok, of t] that by simp
  qed
  have "pipes_ok w' pl'"
  proof (rule pipes_okI)
    show "0 < cc_pipes w'" using pipes_okD(1) [OF ok] by (simp add: f)
    show "cc_pace w' (Suc p) = pp_tid (cc_pipe w' p) - 1" if "p < cc_pipes w'" for p
      using pipes_okD(3) [OF ok] that by (simp add: f)
    show "exit_tid w' \<le> t" if "pl' t = PL_PIPE" for t
      using that pl'(2) pipes_okD(4) [OF ok, of t] by (auto simp: f split: if_splits)
    show "pl' t = PL_PIPE" if "exit_tid w' \<le> t" "t \<le> mo_inext w'" for t
    proof -
      have "pl t = PL_PIPE" using pipes_okD(5) [OF ok, of t] that by (simp add: f mi)
      then show ?thesis using pl'(2) by auto
    qed
    show "rs_wlast w' j < exit_tid w'" for j
    proof (cases "j = k \<and> rs_wlast w' k \<noteq> rs_wlast w k")
      case True
      then have "worker_ticket w k = Some (rs_wlast w' k)" using moved by (simp add: worker_moved_def)
      then have "pl (rs_wlast w' k) = PL_WORKER k" by (rule worker_runs [OF r])
      then show ?thesis using held True by (simp add: f)
    next
      case False
      have "j \<noteq> k \<longrightarrow> rs_wlast w' j = rs_wlast w j" using moved unfolding worker_moved_def by simp
      then have "rs_wlast w' j = rs_wlast w j" using False by auto
      then show ?thesis using pipes_okD(6) [OF ok, of j] by (simp add: f)
    qed
    show "pp_phase (cc_pipe w' (cc_pipes w')) = PP_END" if "rs_wtid w' j = None" for j
      using pipes_okD(9) [OF ok, of j] that by (simp add: f)
    fix p assume p: "p \<le> cc_pipes w'"
    then have "pipe_ok w pl p" using pipes_okD(2) [OF ok] by (simp add: f)
    note d = pipe_okD [OF this]
    have av: "j \<notin> set (rs_available w')" if "worker_idle w j" "j \<notin> set (rs_available w)" for j
      using that busy moved by (auto simp: worker_moved_def)
    have keep: "pl t = PL_PIPE \<Longrightarrow> pl' t = PL_PIPE" for t using pl'(2) by auto
    show "pipe_ok w' pl' p"
      unfolding pipe_ok_def Let_def f using d(1-4,6,7) d(5) keep d(8) idle av by (auto simp: pace_def f)
  next
    assume "pp_phase (cc_pipe w' (cc_pipes w')) \<noteq> PP_END"
    then have e: "pp_phase (cc_pipe w (cc_pipes w)) \<noteq> PP_END" by (simp add: f)
    have old: "distinct (rs_available w)" "\<And>j. j \<in> set (rs_available w) \<Longrightarrow> worker_idle w j" using pipes_okD(7,8) [OF ok] e by auto
    have push: "worker_idle w' k" if "rs_wphase w k = EX_PUSH t" "rs_wphase w' k = EX_POLL" "rs_wlast w' k = rs_wlast w k" for t
    proof -
      have "rs_wtid w k \<noteq> None" using pipes_okD(9) [OF ok, of k] e by blast
      then have "rs_wtid w k = Some t" using ring_workersD(2) [OF ring_invD(4) [OF r], of k t] that(1) by auto
      moreover have "rs_wlast w k = t" by (rule ring_workersD(3) [OF ring_invD(4) [OF r] that(1)])
      ultimately show ?thesis using that by (simp add: worker_idle_def f)
    qed
    show "distinct (rs_available w')" using old busy moved by (auto simp: worker_moved_def)
    show "worker_idle w' j" if "j \<in> set (rs_available w')" for j
      using that old idle push moved by (auto simp: worker_moved_def)
  qed
  then show ?thesis using pl'(1) by (auto simp: concow_inv_def)
qed

end

section \<open>Actions of the pipes\<close>

text \<open>A pipe moves and keeps its ticket.\<close>

lemma pipes_ok_stay:
  assumes ok: "pipes_ok w pl" and p: "p \<le> cc_pipes w"
    and w': "cc_pipes w' = cc_pipes w" "cc_pace w' = cc_pace w" "cc_pipe w' = (cc_pipe w)(p := st)" "rs_inited w' = rs_inited w"
      "rs_wphase w' = rs_wphase w" "rs_wtid w' = rs_wtid w" "rs_wlast w' = rs_wlast w" "mo_inext w' = mo_inext w"
    and st: "pp_tid st = pp_tid (cc_pipe w p)" "pp_phase (cc_pipe w p) \<noteq> PP_END" "pipe_ok w' pl p"
    and av: "rs_available w' = rs_available w \<or> p = cc_pipes w \<and> (\<exists>k. rs_available w = k # rs_available w')"
  shows "pipes_ok w' pl"
proof -
  have exit: "exit_tid w' = exit_tid w" using st(1) by (simp add: w')
  have idle: "worker_idle w' = worker_idle w" by (intro ext) (simp add: worker_idle_def w')
  have live: "pp_phase (cc_pipe w (cc_pipes w)) \<noteq> PP_END" if "pp_phase (cc_pipe w' (cc_pipes w')) \<noteq> PP_END"
    using that st(2) by (simp add: w' split: if_splits)
  show ?thesis
  proof (rule pipes_okI)
    show "0 < cc_pipes w'" using pipes_okD(1) [OF ok] by (simp add: w')
    show "cc_pace w' (Suc q) = pp_tid (cc_pipe w' q) - 1" if "q < cc_pipes w'" for q
      using pipes_okD(3) [OF ok] that st(1) by (simp add: w')
    show "exit_tid w' \<le> t" if "pl t = PL_PIPE" for t unfolding exit by (rule pipes_okD(4) [OF ok that])
    show "pl t = PL_PIPE" if "exit_tid w' \<le> t" "t \<le> mo_inext w'" for t
      using pipes_okD(5) [OF ok, of t] that unfolding exit by (simp add: w')
    show "rs_wlast w' k < exit_tid w'" for k unfolding exit using pipes_okD(6) [OF ok] by (simp add: w')
    show "pp_phase (cc_pipe w' (cc_pipes w')) = PP_END" if "rs_wtid w' k = None" for k
      using pipes_okD(9) [OF ok, of k] that st(2) by (auto simp: w')
    show "pipe_ok w' pl q" if q: "q \<le> cc_pipes w'" for q
    proof (cases "q = p")
      case False
      have "pipe_ok w pl q" using pipes_okD(2) [OF ok] q by (simp add: w')
      moreover have "set (rs_available w') \<subseteq> set (rs_available w)" using av by auto
      ultimately show ?thesis using False by (auto simp: pipe_ok_def Let_def w' idle pace_def)
    qed (use st(3) in simp)
    assume e: "pp_phase (cc_pipe w' (cc_pipes w')) \<noteq> PP_END"
    note old = pipes_okD(7,8) [OF ok live [OF e]]
    show "distinct (rs_available w')" using old(1) av by auto
    show "worker_idle w' k" if "k \<in> set (rs_available w')" for k using old(2) that av by (auto simp: idle)
  qed
qed

text \<open>A pipe before the exit lets its ticket go.\<close>

lemma pipes_ok_put:
  assumes ok: "pipes_ok w pl" and p: "p < cc_pipes w" and ph: "pp_phase (cc_pipe w p) = PP_PUT"
  shows "pipes_ok (pipe_put p w) pl"
proof -
  let ?w = "pipe_put p w" and ?t = "pp_tid (cc_pipe w p)"
  have w': "cc_pipes ?w = cc_pipes w" "cc_pace ?w = (cc_pace w)(Suc p := ?t)"
    "cc_pipe ?w = (cc_pipe w)(p := (cc_pipe w p)\<lparr>pp_tid := Suc ?t, pp_phase := PP_LOOP\<rparr>)" "rs_inited ?w = rs_inited w"
    "rs_wphase ?w = rs_wphase w" "rs_wtid ?w = rs_wtid w" "rs_wlast ?w = rs_wlast w" "rs_available ?w = rs_available w"
    by (simp_all add: pipe_put_def next_ticket_def set_pipe_def)
  have mi: "mo_inext ?w = mo_inext w" by (rule mo_frame) (simp_all add: pipe_put_def next_ticket_def set_pipe_def)
  have exit: "exit_tid ?w = exit_tid w" using p by (simp add: w')
  have idle: "worker_idle ?w = worker_idle w" by (intro ext) (simp add: worker_idle_def w')
  note dp = pipe_okD [OF pipes_okD(2) [OF ok, of p]]
  show ?thesis
  proof (rule pipes_okI)
    show "0 < cc_pipes ?w" using pipes_okD(1) [OF ok] by (simp add: w')
    show "cc_pace ?w (Suc q) = pp_tid (cc_pipe ?w q) - 1" if "q < cc_pipes ?w" for q
      using pipes_okD(3) [OF ok, of q] that by (simp add: w')
    show "exit_tid ?w \<le> t" if "pl t = PL_PIPE" for t unfolding exit by (rule pipes_okD(4) [OF ok that])
    show "pl t = PL_PIPE" if "exit_tid ?w \<le> t" "t \<le> mo_inext ?w" for t
      using pipes_okD(5) [OF ok, of t] that unfolding exit mi by simp
    show "rs_wlast ?w k < exit_tid ?w" for k unfolding exit using pipes_okD(6) [OF ok] by (simp add: w')
    show "pp_phase (cc_pipe ?w (cc_pipes ?w)) = PP_END" if "rs_wtid ?w k = None" for k
      using pipes_okD(9) [OF ok, of k] that p by (simp add: w')
    show "pipe_ok ?w pl q" if q: "q \<le> cc_pipes ?w" for q
    proof -
      have old: "pipe_ok w pl q" using pipes_okD(2) [OF ok] q by (simp add: w')
      have grow: "pace q w \<le> pace q ?w"
        using pipes_okD(3) [OF ok p] by (cases "q = Suc p") (auto simp: pace_def w')
      show ?thesis
      proof (cases "q = p")
        case True
        have "pace p ?w = pace p w" unfolding pace_def w'(2,4) by simp
        moreover have "active (pp_phase (cc_pipe w p))" by (simp add: ph active_def)
        ultimately show ?thesis
          using dp(1,3,4) p by (simp add: pipe_ok_def Let_def w' True active_def)
      next
        case False
        then show ?thesis using old grow order_trans [OF pipe_okD(3) [OF old] grow]
          by (simp add: pipe_ok_def Let_def w' idle)
      qed
    qed
  qed (use pipes_okD(7,8) [OF ok] p in \<open>auto simp: w' idle\<close>)
qed

text \<open>The exit pipe is done with its ticket.\<close>

lemma pipes_ok_exit:
  assumes ok: "pipes_ok w pl" and act: "active (pp_phase (cc_pipe w (cc_pipes w)))"
    and w': "cc_pipes w' = cc_pipes w" "cc_pace w' = cc_pace w"
      "cc_pipe w' = (cc_pipe w)(cc_pipes w := (cc_pipe w (cc_pipes w))\<lparr>pp_tid := Suc (exit_tid w), pp_phase := PP_LOOP\<rparr>)"
      "rs_inited w' = rs_inited w" "rs_wlast w' = rs_wlast w" "mo_inext w' = mo_inext w" "rs_available w' = rs_available w"
    and idle: "\<And>k. k \<in> set (rs_available w) \<Longrightarrow> worker_idle w k \<Longrightarrow> worker_idle w' k"
    and tid: "\<And>k. rs_wtid w k \<noteq> None \<Longrightarrow> rs_wtid w' k \<noteq> None"
    and pl': "\<And>t. t \<noteq> exit_tid w \<Longrightarrow> pl' t = pl t" "pl' (exit_tid w) \<noteq> PL_PIPE"
  shows "pipes_ok w' pl'"
proof -
  have exit: "exit_tid w' = Suc (exit_tid w)" by (simp add: w')
  have live: "pp_phase (cc_pipe w (cc_pipes w)) \<noteq> PP_END" using act by (simp add: active_def)
  show ?thesis
  proof (rule pipes_okI)
    show "0 < cc_pipes w'" using pipes_okD(1) [OF ok] by (simp add: w')
    show "cc_pace w' (Suc q) = pp_tid (cc_pipe w' q) - 1" if "q < cc_pipes w'" for q
      using pipes_okD(3) [OF ok, of q] that by (simp add: w')
    show "exit_tid w' \<le> t" if "pl' t = PL_PIPE" for t
      using that pl' pipes_okD(4) [OF ok, of t] unfolding exit by (cases "t = exit_tid w") auto
    show "pl' t = PL_PIPE" if "exit_tid w' \<le> t" "t \<le> mo_inext w'" for t
      using that pl'(1) [of t] pipes_okD(5) [OF ok, of t] unfolding exit by (simp add: w')
    show "rs_wlast w' k < exit_tid w'" for k unfolding exit using pipes_okD(6) [OF ok, of k] by (simp add: w')
    show "pp_phase (cc_pipe w' (cc_pipes w')) = PP_END" if "rs_wtid w' k = None" for k
      using pipes_okD(9) [OF ok, of k] tid [of k] live that by auto
    show "pipe_ok w' pl' q" if q: "q \<le> cc_pipes w'" for q
    proof -
      have old: "pipe_ok w pl q" using pipes_okD(2) [OF ok] q by (simp add: w')
      note d = pipe_okD [OF old]
      have pc: "pace q w' = pace q w" by (simp add: pace_def w')
      show ?thesis
      proof (cases "q = cc_pipes w")
        case True
        have "pace (cc_pipes w) w' = pace (cc_pipes w) w" using pc by (simp add: True)
        then show ?thesis using d(1,3,4) act True by (simp add: pipe_ok_def Let_def w' active_def)
      next
        case False
        then have "q < cc_pipes w" using q by (simp add: w')
        then have "pp_phase (cc_pipe w q) = PP_EXEC \<Longrightarrow> exit_tid w < pp_tid (cc_pipe w q)"
          using pipe_order(2) [OF ok, of q "cc_pipes w"] act by simp
        then show ?thesis
          using d pl'(1) False unfolding pipe_ok_def Let_def pc by (auto simp: w')
      qed
    qed
  qed (use pipes_okD(7,8) [OF ok live] idle in \<open>auto simp: w'\<close>)
qed

text \<open>A change of a pipe's record that the ring does not see.\<close>

lemma ring_set_pipe: "ring_inv skips w pl \<Longrightarrow> ring_inv skips (set_pipe p st w) pl"
  by (rule ring_inv_view) (simp_all add: ring_view_def set_pipe_def)

lemma ring_set_phase: "ring_inv skips w pl \<Longrightarrow> ring_inv skips (set_phase p ph w) pl"
  unfolding set_phase_def by (rule ring_set_pipe)

lemma ring_next_ticket: "ring_inv skips w pl \<Longrightarrow> ring_inv skips (next_ticket p w) pl"
  unfolding next_ticket_def by (rule ring_set_pipe)

text \<open>What the invariant of the controller reads.\<close>

definition conc_view where
  "conc_view w = (ring_view w, cc_pipes w, cc_pace w, cc_pipe w, rs_available w)"

text \<open>A pipe that ends a step at another control point, having written nothing but its context.\<close>

lemma concow_goto:
  assumes inv: "concow_inv w pl" and p: "p \<le> cc_pipes w" and act: "active (pp_phase (cc_pipe w p))"
    and ring: "ring_inv concow_skips w1 pl"
    and w1: "cc_pipes w1 = cc_pipes w" "cc_pace w1 = cc_pace w" "cc_pipe w1 = cc_pipe w" "rs_inited w1 = rs_inited w"
      "rs_wphase w1 = rs_wphase w" "rs_wtid w1 = rs_wtid w" "rs_wlast w1 = rs_wlast w" "mo_inext w1 = mo_inext w"
    and av: "rs_available w1 = rs_available w \<or> p = cc_pipes w \<and> (\<exists>k. rs_available w = k # rs_available w1)"
    and ph: "ph = PP_EXEC \<Longrightarrow> p < cc_pipes w \<and> pl (pp_tid (cc_pipe w p)) = PL_PIPE" "ph = PP_CKPT \<Longrightarrow> p = 0"
      "ph = PP_PUT \<Longrightarrow> p < cc_pipes w"
      "\<And>k. ph = PP_GIVE k \<Longrightarrow> p = cc_pipes w \<and> pl (pp_tid (cc_pipe w p)) = PL_PIPE \<and> worker_idle w k \<and> k \<notin> set (rs_available w1)"
  shows "concow_inv (set_phase p ph w1) pl"
proof -
  let ?w = "set_phase p ph w1"
  have ok: "pipes_ok w pl" using inv by (simp add: concow_inv_def)
  note d = pipe_okD [OF pipes_okD(2) [OF ok p]]
  have f: "cc_pipe ?w = (cc_pipe w)(p := (cc_pipe w p)\<lparr>pp_phase := ph\<rparr>)" by (simp add: set_phase_def set_pipe_def w1)
  have mi: "mo_inext ?w = mo_inext w" using w1(8) by (simp add: mo_inext_def set_phase_def set_pipe_def cong: monitor_phase.case_cong)
  have pc: "pace p ?w = pace p w" by (simp add: pace_def set_phase_def set_pipe_def w1)
  have g: "cc_pipes ?w = cc_pipes w" "cc_pace ?w = cc_pace w" "rs_inited ?w = rs_inited w" "rs_wphase ?w = rs_wphase w"
    "rs_wtid ?w = rs_wtid w" "rs_wlast ?w = rs_wlast w" "rs_available ?w = rs_available w1"
    using w1(1-7) by (simp_all add: set_phase_def set_pipe_def)
  have idle: "worker_idle ?w = worker_idle w" by (intro ext) (simp add: worker_idle_def g)
  have "pipe_ok ?w pl p"
    unfolding pipe_ok_def Let_def f pc g idle using d(1-4) act ph by auto
  moreover have "pp_phase (cc_pipe w p) \<noteq> PP_END" using act by (simp add: active_def)
  ultimately have "pipes_ok ?w pl"
    by (intro pipes_ok_stay [OF ok p g(1,2) f g(3-6) mi]) (use g(7) av in simp_all)
  then show ?thesis using ring_set_phase [OF ring] by (simp add: concow_inv_def)
qed

context pipe_tree
begin

lemma entry_begin_shape:
  assumes "entry_begin I t w = Some w'"
  shows "\<exists>c. same_task (the_ctx w t) c \<and> conc_view w' = conc_view (set_ctx t c w)"
proof -
  let ?c = "(the_ctx w t)\<lparr>c_t_past := c_root (the_ctx w (t - 1))\<rparr>"
  have plain: ?thesis if h: "po_handlers I 0 ?c (rs_store w) = Some (op, c', s')" "w' = set_ctx t (c'\<lparr>c_op := op\<rparr>) (w\<lparr>rs_store := s'\<rparr>)" for op c' s'
  proof (intro exI [of _ "c'\<lparr>c_op := op\<rparr>"] conjI)
    show "same_task (the_ctx w t) (c'\<lparr>c_op := op\<rparr>)" using handlers_task [OF h(1)] by (simp add: same_task_def)
    show "conc_view w' = conc_view (set_ctx t (c'\<lparr>c_op := op\<rparr>) w)" by (simp add: h(2) conc_view_def ring_view_def set_ctx_def)
  qed
  show ?thesis
  proof (cases "po_begin I = None \<or> rs_fat_slots w = 0")
    case True
    then show ?thesis using assms plain by (auto simp: entry_begin_def Let_def bind_Some_iff split: option.splits)
  next
    case False
    then obtain f where f: "po_begin I = Some f" by auto
    let ?ready = "cc_last_structural w \<le> rs_committed w"
    obtain op c' s' where b: "f ?ready ?c (rs_store w) = Some (op, c', s')"
      and w': "w' = (let w1 = set_ctx t (c'\<lparr>c_op := op\<rparr>) (w\<lparr>rs_store := s', cc_blocked := cc_blocked w + (if ?ready then 0 else 1)\<rparr>) in
        if c_root c' = c_t_past c' then w1\<lparr>cc_fat_appends := cc_fat_appends w + 1\<rparr>
        else w1\<lparr>cc_last_structural := t, cc_structural := cc_structural w + 1\<rparr>)"
      using assms f False by (auto simp: entry_begin_def Let_def bind_Some_iff)
    show ?thesis
    proof (intro exI [of _ "c'\<lparr>c_op := op\<rparr>"] conjI)
      show "same_task (the_ctx w t) (c'\<lparr>c_op := op\<rparr>)" using begin_task [OF f b] by (simp add: same_task_def)
      show "conc_view w' = conc_view (set_ctx t (c'\<lparr>c_op := op\<rparr>) w)"
        by (simp add: w' conc_view_def ring_view_def set_ctx_def Let_def)
    qed
  qed
qed

lemma concow_pipe:
  assumes inv: "concow_inv w pl" and run: "pipe_step I p w = Some w'"
  shows "\<exists>pl'. concow_inv w' pl'"
proof -
  have r: "ring_inv concow_skips w pl" and ok: "pipes_ok w pl" using inv by (simp_all add: concow_inv_def)
  have p: "p \<le> cc_pipes w" using run by (auto simp: pipe_step_def split: if_splits)
  let ?st = "cc_pipe w p" let ?t = "pp_tid ?st"
  note d = pipe_okD [OF pipes_okD(2) [OF ok p]]
  have same: "worker_idle (set_pipe p st w) = worker_idle w" "mo_inext (set_pipe p st w) = mo_inext w" "pace q (set_pipe p st w) = pace q w" for st q
    by (auto simp: worker_idle_def fun_eq_iff set_pipe_def pace_def intro!: mo_frame)
  have stay: "concow_inv (set_pipe p st w) pl"
    if "pp_tid st = ?t" "pp_phase ?st \<noteq> PP_END" "pp_cache ?st \<le> pp_cache st" "pp_cache st \<le> pace p w"
      "active (pp_phase st) \<Longrightarrow> ?t \<le> pp_cache st \<and> pp_phase st = PP_WORK" for st
  proof -
    have g: "cc_pipe (set_pipe p st w) = (cc_pipe w)(p := st)" by (simp add: set_pipe_def)
    have "pipe_ok (set_pipe p st w) pl p"
      unfolding pipe_ok_def Let_def same g using that d(1,2) by (auto simp: active_def)
    then have "pipes_ok (set_pipe p st w) pl"
      by (intro pipes_ok_stay [OF ok p _ _ g _ _ _ _ same(2) that(1,2)]) (simp_all add: set_pipe_def)
    then show ?thesis using ring_set_pipe [OF r] by (simp add: concow_inv_def)
  qed
  have goto: "concow_inv (set_phase p ph wx) pl"
    if "conc_view wx = conc_view (set_ctx ?t c w)" "same_task (the_ctx w ?t) c" "active (pp_phase ?st)"
      "c_op c = c_op (the_ctx w ?t) \<or> pl ?t = PL_PIPE" "ph = PP_EXEC \<Longrightarrow> p < cc_pipes w \<and> pl ?t = PL_PIPE" "ph = PP_CKPT \<Longrightarrow> p = 0"
      "p < cc_pipes w" "\<And>k. ph \<noteq> PP_GIVE k" for wx c ph
  proof (rule concow_goto [OF inv p that(3)])
    note v = that(1) [unfolded conc_view_def ring_view_def, simplified]
    have "ring_inv concow_skips (set_ctx ?t c w) pl" by (rule ring_set_ctx [OF r that(2)]) (use that(4) in blast)
    then show "ring_inv concow_skips wx pl" by (rule ring_inv_view [rotated]) (use that(1) in \<open>simp add: conc_view_def\<close>)
    show "mo_inext wx = mo_inext w" by (rule mo_frame) (use v in \<open>simp_all add: set_ctx_def\<close>)
    show "rs_available wx = rs_available w \<or> p = cc_pipes w \<and> (\<exists>k. rs_available w = k # rs_available wx)"
      using v by (simp add: set_ctx_def)
  qed (use that(1,5-8) in \<open>simp_all add: conc_view_def ring_view_def set_ctx_def\<close>)
  have idle_view: "conc_view (set_ctx ?t (the_ctx w ?t) w) = conc_view w" by (simp add: conc_view_def ring_view_def set_ctx_def)
  show ?thesis
  proof (cases "pp_phase ?st")
    case PP_LOOP
    have "concow_inv w' pl"
    proof (cases "pp_tid ?st > pp_last ?st")
      case True
      then have "w' = pipe_epoch p w" using run PP_LOOP p by (simp add: pipe_step_def)
      then show ?thesis
        unfolding pipe_epoch_def Let_def set_phase_def using PP_LOOP d(3) by (auto intro!: stay simp: active_def)
    next
      case False
      then have "w' = pipe_wait p w" using run PP_LOOP p by (simp add: pipe_step_def)
      then show ?thesis
        unfolding pipe_wait_def Let_def using PP_LOOP d(3) by (auto intro!: stay simp: active_def)
    qed
    then show ?thesis by blast
  next
    case PP_WORK
    have act: "active (pp_phase ?st)" by (simp add: PP_WORK active_def)
    note cell = active_cell [OF inv p act]
    have work: "pipe_work I p w = Some w'" using run PP_WORK p by (simp add: pipe_step_def)
    consider (entry) "p = 0" | (exit) "p \<noteq> 0" "p = cc_pipes w" | (inner) "p \<noteq> 0" "p < cc_pipes w" using p by linarith
    then show ?thesis
    proof cases
      case entry
      then have e: "entry_work I w = Some w'" and lt: "p < cc_pipes w" using work pipes_okD(1) [OF ok] by (simp_all add: pipe_work_def)
      let ?c = "(the_ctx w ?t)\<lparr>c_checkpoint_rebuilt := False, c_gc_enabled := g_enabled (gs_gc (rs_gc w))\<rparr>"
      let ?past = "c_root (the_ctx w (?t - 1))"
      consider "?t mod BUFFER_SIZE = 0" "w' = set_phase 0 PP_CKPT (set_ctx ?t (?c\<lparr>c_t_past := ?past\<rparr>) (w\<lparr>cc_last_checkpoint := ?t\<rparr>))"
        | "?t mod BUFFER_SIZE = 0" "w' = set_phase 0 PP_PUT (set_ctx ?t (?c\<lparr>c_root := ?past\<rparr>) w)"
        | w1 where "c_op (the_ctx w ?t) = OP_INIT" "entry_begin I ?t w = Some w1" "w' = after_handler 0 ?t w1"
        | "w' = set_phase 0 PP_PUT w"
        using e entry by (auto simp: entry_work_def Let_def split: if_splits)
      then have "concow_inv w' pl"
      proof cases
        case 1
        show ?thesis
          unfolding 1(2) entry [symmetric]
          by (rule goto [of _ "?c\<lparr>c_t_past := ?past\<rparr>"])
            (use act entry lt in \<open>simp_all add: conc_view_def ring_view_def set_ctx_def same_task_def\<close>)
      next
        case 2
        show ?thesis
          unfolding 2(2) entry [symmetric]
          by (rule goto [of _ "?c\<lparr>c_root := ?past\<rparr>"])
            (use act entry lt in \<open>simp_all add: conc_view_def ring_view_def set_ctx_def same_task_def\<close>)
      next
        case 3
        have "c_op (the_ctx w ?t) \<noteq> OP_DONE" using 3(1) by (simp add: OP_INIT_def OP_DONE_def)
        then have pl: "pl ?t = PL_PIPE" by (rule cell(1))
        obtain c where c: "same_task (the_ctx w ?t) c" "conc_view w1 = conc_view (set_ctx ?t c w)" using entry_begin_shape [OF 3(2)] by blast
        show ?thesis
          unfolding 3(3) after_handler_def entry [symmetric] by (rule goto [OF c(2,1)]) (use act pl lt in \<open>simp_all split: if_splits\<close>)
      next
        case 4
        show ?thesis
          unfolding 4 entry [symmetric]
          by (rule goto [of _ "the_ctx w ?t"]) (use act lt idle_view in simp_all)
      qed
      then show ?thesis by blast
    next
      case exit
      then have e: "exit_work p w = Some w'" using work by (simp add: pipe_work_def)
      show ?thesis
      proof (cases "c_op (the_ctx w ?t) = OP_DONE")
        case True
        then have w': "w' = next_ticket p (set_stage ?t STAGE_ALL w)" using e by (simp add: exit_work_def Let_def)
        obtain pl' where pl': "ring_inv concow_skips (set_stage ?t STAGE_ALL w) pl'" "\<And>u. u \<noteq> ?t \<Longrightarrow> pl' u = pl u" "pl' ?t \<noteq> PL_PIPE"
          using active_ticket [OF inv p act]
        proof
          assume "pl ?t = PL_PIPE \<and> ?t \<le> mo_inext w"
          then have "ring_inv concow_skips (set_stage ?t STAGE_ALL w) (pl(?t := PL_DONE))"
            using ring_exit_done [OF r _ _ True] by simp
          then show ?thesis by (rule that) simp_all
        next
          assume b: "rs_mo w = MO_STOPPED \<and> rs_submitted w < ?t"
          then have "ring_inv concow_skips (set_stage ?t STAGE_ALL w) pl"
            using ring_exit_bubble [OF r stopped_cell(1) [OF r]] by simp
          then show ?thesis by (rule that) (use b stopped_done [OF r, of ?t] in simp_all)
        qed
        have "pipes_ok w' pl'"
          by (rule pipes_ok_exit [OF ok]) (use act exit pl' in \<open>simp_all add: w' next_ticket_def set_pipe_def set_stage_def worker_idle_def mo_inext_def cong: monitor_phase.case_cong\<close>)
        moreover have "ring_inv concow_skips w' pl'" unfolding w' by (rule ring_next_ticket [OF pl'(1)])
        ultimately show ?thesis by (auto simp: concow_inv_def)
      next
        case False
        then obtain k ks where k: "rs_available w = k # ks" "w' = set_phase p (PP_GIVE k) (w\<lparr>rs_available := ks\<rparr>)"
          using e by (auto simp: exit_work_def Let_def split: list.splits)
        have live: "pp_phase (cc_pipe w (cc_pipes w)) \<noteq> PP_END" using act exit by (simp add: active_def)
        have "worker_idle w k" "k \<notin> set ks" using pipes_okD(7,8) [OF ok live] k(1) by simp_all
        moreover have "ring_inv concow_skips (w\<lparr>rs_available := ks\<rparr>) pl" by (rule ring_inv_view [OF _ r]) (simp add: ring_view_def)
        ultimately have "concow_inv w' pl"
          unfolding k(2)
          by (intro concow_goto [OF inv p act]) (use k(1) exit cell(1) False in \<open>simp_all add: mo_inext_def cong: monitor_phase.case_cong\<close>)
        then show ?thesis by blast
      qed
    next
      case inner
      then have w': "w' = set_phase p (if c_op (the_ctx w ?t) = OP_DONE then PP_PUT else PP_EXEC) w" using work by (simp add: pipe_work_def)
      have "concow_inv w' pl"
        unfolding w' by (rule goto [of _ "the_ctx w ?t"]) (use act inner idle_view cell(1) in \<open>simp_all split: if_splits\<close>)
      then show ?thesis by blast
    qed
  next
    case PP_EXEC
    have act: "active (pp_phase ?st)" by (simp add: PP_EXEC active_def)
    have pl: "pl ?t = PL_PIPE" "p < cc_pipes w" using d(5) PP_EXEC by simp_all
    have "pipe_exec I p w = Some w'" using run PP_EXEC p by (simp add: pipe_step_def)
    then consider "w' = after_handler p ?t w" | w1 where "run_handler I ?t w = Some w1" "w' = after_handler p ?t w1" | "w' = reload_cno ?t w"
      by (auto simp: pipe_exec_def Let_def bind_Some_iff split: if_splits)
    then have "concow_inv w' pl"
    proof cases
      case 1
      show ?thesis
        unfolding 1 after_handler_def by (rule goto [of _ "the_ctx w ?t"]) (use act pl idle_view in \<open>simp_all split: if_splits\<close>)
    next
      case 2
      obtain c s where st: "step_ctx I (the_ctx w ?t) (rs_store w) = Some (c, s)" and w1: "w1 = set_ctx ?t c (w\<lparr>rs_store := s\<rparr>)"
        using 2(1) by (auto simp: run_handler_def bind_Some_iff)
      show ?thesis
        unfolding 2(2) after_handler_def
        by (rule goto [of _ c]) (use act pl step_ctx_task [OF st] in \<open>simp_all add: w1 conc_view_def ring_view_def set_ctx_def split: if_splits\<close>)
    next
      case 3
      let ?c = "(the_ctx w ?t)\<lparr>c_cno := of_nat (rs_committed w)\<rparr>"
      have "concow_inv (set_phase p PP_EXEC (set_ctx ?t ?c w)) pl"
        by (rule goto [of _ ?c]) (use act pl in \<open>simp_all add: same_task_def\<close>)
      moreover have "(cc_pipe w)(p := ?st\<lparr>pp_phase := PP_EXEC\<rparr>) = cc_pipe w" using PP_EXEC by (intro ext) simp
      then have "set_phase p PP_EXEC (set_ctx ?t ?c w) = w'" by (simp add: 3 reload_cno_def set_phase_def set_pipe_def set_ctx_def)
      ultimately show ?thesis by simp
    qed
    then show ?thesis by blast
  next
    case PP_CKPT
    have act: "active (pp_phase ?st)" by (simp add: PP_CKPT active_def)
    have p0: "p = 0" "0 < cc_pipes w" using d(6) PP_CKPT pipes_okD(1) [OF ok] by simp_all
    have "entry_checkpoint I w = Some w'" using run PP_CKPT p by (simp add: pipe_step_def)
    then consider c s b n where "po_checkpoint I (the_ctx w ?t) (rs_store w) = Some (c, s)"
        "w' = set_phase 0 PP_PUT (set_ctx ?t (c\<lparr>c_checkpoint_rebuilt := True\<rparr>) (w\<lparr>rs_store := s, cc_last_structural := b, cc_checkpoints := n\<rparr>))"
      | "w' = reload_cno ?t w"
      using p0 by (auto simp: entry_checkpoint_def Let_def bind_Some_iff split: if_splits)
    then have "concow_inv w' pl"
    proof cases
      case 1
      show ?thesis
        unfolding 1(2) p0(1) [symmetric]
        by (rule goto [of _ "c\<lparr>c_checkpoint_rebuilt := True\<rparr>"])
          (use act p0 checkpoint_task [OF 1(1)] in \<open>simp_all add: conc_view_def ring_view_def set_ctx_def same_task_def\<close>)
    next
      case 2
      let ?c = "(the_ctx w ?t)\<lparr>c_cno := of_nat (rs_committed w)\<rparr>"
      have "concow_inv (set_phase p PP_CKPT (set_ctx ?t ?c w)) pl"
        by (rule goto [of _ ?c]) (use act p0 in \<open>simp_all add: same_task_def\<close>)
      moreover have "(cc_pipe w)(p := ?st\<lparr>pp_phase := PP_CKPT\<rparr>) = cc_pipe w" using PP_CKPT by (intro ext) simp
      then have "set_phase p PP_CKPT (set_ctx ?t ?c w) = w'" by (simp add: 2 reload_cno_def set_phase_def set_pipe_def set_ctx_def)
      ultimately show ?thesis by simp
    qed
    then show ?thesis by blast
  next
    case (PP_GIVE k)
    have act: "active (pp_phase ?st)" by (simp add: PP_GIVE active_def)
    have g: "p = cc_pipes w" "pl ?t = PL_PIPE" "worker_idle w k" "k \<notin> set (rs_available w)" using d(8) [OF PP_GIVE] by blast+
    have w': "w' = next_ticket p (give_task k ?t w)" using run PP_GIVE p by (simp add: pipe_step_def)
    have le: "?t \<le> mo_inext w" using active_ticket [OF inv p act] g(2) stopped_done [OF r, of ?t] by (auto split: if_splits)
    have "rs_wlast w k < ?t" using pipes_okD(6) [OF ok, of k] g(1) by simp
    then have "ring_inv concow_skips (give_task k ?t w) (pl(?t := PL_WORKER k))" by (intro ring_give [OF r g(2) le g(3)]) simp
    then have ring: "ring_inv concow_skips w' (pl(?t := PL_WORKER k))" unfolding w' by (rule ring_next_ticket)
    have "pipes_ok w' (pl(?t := PL_WORKER k))"
    proof (rule pipes_ok_exit [OF ok])
      show "worker_idle w' j" if "j \<in> set (rs_available w)" "worker_idle w j" for j
      proof -
        have "j \<noteq> k" using that(1) g(4) by blast
        then show ?thesis using that(2) by (simp add: w' next_ticket_def set_pipe_def give_task_def worker_idle_def)
      qed
      show "mo_inext w' = mo_inext w" by (rule mo_frame) (simp_all add: w' next_ticket_def set_pipe_def give_task_def)
    qed (use act g in \<open>auto simp: w' next_ticket_def set_pipe_def give_task_def\<close>)
    then show ?thesis using ring by (auto simp: concow_inv_def)
  next
    case PP_PUT
    have lt: "p < cc_pipes w" using d(7) PP_PUT by simp
    have w': "w' = pipe_put p w" using run PP_PUT p by (simp add: pipe_step_def)
    have "ring_inv concow_skips w' pl"
      unfolding w' pipe_put_def by (rule ring_next_ticket, rule ring_inv_view [OF _ r]) (simp add: ring_view_def)
    then show ?thesis using pipes_ok_put [OF ok lt PP_PUT] by (auto simp: concow_inv_def w')
  next
    case PP_END
    then show ?thesis using run p by (simp add: pipe_step_def)
  qed
qed

end

section \<open>Every action\<close>

lemma ring_view_mo: "ring_view w' = ring_view w \<Longrightarrow> mo_inext w' = mo_inext w"
  by (rule mo_frame) (simp_all add: ring_view_def)

text \<open>An action that the invariant does not see.\<close>

lemma concow_inv_view:
  assumes inv: "concow_inv w pl" and view: "conc_view w' = conc_view w"
  shows "concow_inv w' pl"
proof -
  have r: "ring_inv concow_skips w pl" and ok: "pipes_ok w pl" using inv by (simp_all add: concow_inv_def)
  have v: "ring_view w' = ring_view w" and c: "cc_pipes w' = cc_pipes w" "cc_pace w' = cc_pace w" "cc_pipe w' = cc_pipe w"
    "rs_available w' = rs_available w" using view by (simp_all add: conc_view_def)
  show ?thesis
    by (rule concow_inv_same [OF inv ring_inv_view [OF v r] c]) (use pipes_okD(6,9) [OF ok] v in \<open>simp_all add: ring_view_def worker_idle_def\<close>)
qed

lemma concow_stop:
  assumes inv: "concow_inv w pl" and idle: "clients_idle w"
  shows "concow_inv (w\<lparr>rs_stop := True\<rparr>) pl"
proof -
  have r: "ring_inv concow_skips w pl" and ok: "pipes_ok w pl" using inv by (simp_all add: concow_inv_def)
  show ?thesis
    by (rule concow_inv_same [OF inv ring_stop [OF r idle]]) (use pipes_okD(6,9) [OF ok] in \<open>simp_all add: worker_idle_def\<close>)
qed

lemma concow_release:
  assumes inv: "concow_inv w pl" and stop: "rs_mo w = MO_STOPPED" and ended: "pipes_ended w"
  shows "concow_inv (w\<lparr>rs_wtid := (\<lambda>_. None)\<rparr>) pl"
proof -
  have r: "ring_inv concow_skips w pl" and ok: "pipes_ok w pl" using inv by (simp_all add: concow_inv_def)
  have e: "pp_phase (cc_pipe w (cc_pipes w)) = PP_END" using ended by (simp add: pipes_ended_def)
  show ?thesis
    by (rule concow_inv_same [OF inv ring_release [OF r stop]]) (use pipes_okD(6) [OF ok] e in simp_all)
qed

context pipe_tree
begin

lemma concow_do:
  assumes inv: "concow_inv w pl" and run: "cc_do I a w = Some w'"
  shows "\<exists>pl'. concow_inv w' pl'"
proof (cases a)
  case (CcPipe p)
  then show ?thesis using concow_pipe [OF inv] run by simp
next
  case (CcWorker k)
  then show ?thesis using concow_worker [OF inv] run by (simp split: if_splits)
next
  case CcMonitor
  then have "monitor_step True concow_margin I w = Some w'" using run by simp
  then show ?thesis using concow_monitor [OF inv] by blast
next
  case CcStop
  then show ?thesis using concow_stop [OF inv] run by (auto split: if_splits)
next
  case CcRelease
  then show ?thesis using concow_release [OF inv] run by (auto split: if_splits)
next
  case CcReclaim
  then have "conc_view w' = conc_view w" using run by (auto simp: conc_view_def ring_view_def bind_Some_iff split: if_splits)
  then show ?thesis using concow_inv_view [OF inv] by blast
next
  case CcRequest
  then have "conc_view w' = conc_view w"
    using run by (cases "g_enabled (gs_gc (rs_gc w))") (auto simp: conc_view_def ring_view_def gc_request_def)
  then show ?thesis using concow_inv_view [OF inv] by blast
next
  case (CcPin c)
  then have "conc_view w' = conc_view w" using run by (auto simp: conc_view_def ring_view_def rs_do_gc_def)
  then show ?thesis using concow_inv_view [OF inv] by blast
next
  case (CcUnpin c)
  then have "conc_view w' = conc_view w" using run by (auto simp: conc_view_def ring_view_def rs_do_gc_def)
  then show ?thesis using concow_inv_view [OF inv] by blast
qed (rule concow_client_act [OF inv run]; simp)+

end

section \<open>The reachable states\<close>

lemma concow_start:
  assumes new: "concow_new I zero nc np nw t s nr gc slots = Inr w"
  shows "concow_inv w (\<lambda>t. if t = 0 then PL_DONE else PL_NONE)"
proof -
  obtain w0 where np: "0 < np" and w: "w = pipe_sys.extend (pipe_start zero t s nc nw nr gc w0)
      (concow.fields np (\<lambda>_. 0) (\<lambda>_. pipe_init) 0 0 0 0 0 0)"
    using new by (auto simp: concow_new_def validate_threads_def validate_slots_def split: if_splits)
  have "pipes_ok w (\<lambda>t. if t = 0 then PL_DONE else PL_NONE)"
    by (rule pipes_okI)
      (use np in \<open>auto simp: w concow.defs pipe_sys.defs pipe_start_def pipe_init_def pipe_ok_def active_def pace_def mo_inext_def worker_idle_def split: if_splits\<close>)
  moreover have "ring_inv concow_skips w (\<lambda>t. if t = 0 then PL_DONE else PL_NONE)" unfolding w by (rule ring_start)
  ultimately show ?thesis by (simp add: concow_inv_def)
qed

context pipe_tree
begin

lemma concow_reach_inv:
  assumes new: "concow_new I zero nc np nw t s nr gc slots = Inr w0" and reach: "cc_reach I w0 w"
  shows "\<exists>pl. concow_inv w pl"
  using reach
proof (induction rule: cc_reach.induct)
  case start
  show ?case using concow_start [OF new] by blast
next
  case (step w a w')
  then show ?case using concow_do by blast
qed

end

end
