(* ===== verification/Pipe_Trees.thy ===== *)
theory Pipe_Trees
  imports Concow_Correct Dispatch ART_Seqcow
begin

text \<open>
  The four trees behind the pipelined controllers: the members of their adapters
  (\<^verbatim>\<open>src/adapters/btree.hpp\<close>, \<^verbatim>\<open>art.hpp\<close>, \<^verbatim>\<open>aert.hpp\<close>, \<^verbatim>\<open>betree.hpp\<close>) as instances of \<open>pipe_ops\<close>, and that
  none of them touches the number, key or value of its task.
\<close>

section \<open>The adapters\<close>

definition bt_pipe_ops :: "(bt_ctx_more, bt_store) pipe_ops" where
  "bt_pipe_ops =
     \<lparr>po_handlers = bt_handlers, po_begin = Some bt_pipeline_fat_begin, po_try = Some bt_pipeline_fat_try,
      po_reserve = Some bt_pipeline_fat_reserve, po_configure = Some bt_pipeline_fat_configure,
      po_task = Some bt_pipeline_fat_task, po_checkpoint = (\<lambda>c s. Some (c, s)),
      po_ver = (\<lambda>s a. map_option bn_ver (cells s a)), po_free = bt_free_node, po_free_checkpoint = (\<lambda>_. Some),
      po_node_size = bt_node_bytes, po_stats = None\<rparr>"

definition art_pipe_ops :: "(art_ctx_more, art_store) pipe_ops" where
  "art_pipe_ops =
     \<lparr>po_handlers = art_handlers, po_begin = Some art_pipeline_fat_begin, po_try = None, po_reserve = None,
      po_configure = None, po_task = None, po_checkpoint = (\<lambda>c s. Some (c, s)),
      po_ver = (\<lambda>s a. map_option (\<lambda>t. ucast (an_ver t)) (cells s a)), po_free = art_free_node, po_free_checkpoint = (\<lambda>_. Some),
      po_node_size = art_node_bytes, po_stats = None\<rparr>"

text \<open>The BeTree walks a checkpoint with the fuel \<open>f\<close>.\<close>

definition aert_pipe_ops :: "(unit aert_ctx_ext, aert_store) pipe_ops" where
  "aert_pipe_ops =
     \<lparr>po_handlers = aert_handlers, po_begin = Some aert_pipeline_fat_begin, po_try = None, po_reserve = None,
      po_configure = None, po_task = None, po_checkpoint = (\<lambda>c s. Some (c, s)),
      po_ver = (\<lambda>s a. map_option (\<lambda>t. ucast (en_ver t)) (aert_ld s a)), po_free = aert_free_node,
      po_free_checkpoint = (\<lambda>_. Some),
      po_node_size = (\<lambda>s a. case aert_node_size s a of None \<Rightarrow> 0 | Some n \<Rightarrow> of_nat n), po_stats = None\<rparr>"

definition be_pipe_ops :: "nat \<Rightarrow> (unit be_ctx_ext, be_store) pipe_ops" where
  "be_pipe_ops f =
     \<lparr>po_handlers = be_handlers, po_begin = Some be_pipeline_fat_begin, po_try = None, po_reserve = None,
      po_configure = None, po_task = None, po_checkpoint = be_checkpoint_handler f,
      po_ver = (\<lambda>s a. map_option be_ver (cells s a)), po_free = be_free_node,
      po_free_checkpoint = be_free_checkpoint f,
      po_node_size = (\<lambda>s a. case cells s a of None \<Rightarrow> 0 | Some t \<Rightarrow> of_nat (be_node_size t)),
      po_stats = Some (\<lambda>s a. case be_checkpoint_retired_stats f s a of
        None \<Rightarrow> (0, 0) | Some (n, bytes) \<Rightarrow> (of_nat n, of_nat bytes))\<rparr>"

section \<open>Handlers keep their task\<close>

definition keeps :: "'z ctx_scheme \<Rightarrow> nat \<times> 'z ctx_scheme \<times> 's \<Rightarrow> bool" where
  "keeps c r \<longleftrightarrow> same_task c (fst (snd r))"

named_theorems task_dest

lemma keepsI: "same_task c d \<Longrightarrow> keeps c (op, d, s)"
  by (simp add: keeps_def)

lemma keepsD: "opt_all (keeps c) m \<Longrightarrow> m = Some (op, d, s) \<Longrightarrow> same_task c d"
  by (simp add: keeps_def opt_all_def)

lemma same_task_retire [simp]: "same_task c (retire_replaced a d) = same_task c d"
  by (simp add: same_task_def)

lemma same_task_rev: "same_task c d \<longleftrightarrow> c_sno d = c_sno c \<and> c_key d = c_key c \<and> c_val d = c_val c"
  by (auto simp: same_task_def)

lemma keeps_mono: "opt_all (keeps d) m \<Longrightarrow> same_task c d \<Longrightarrow> opt_all (keeps c) m"
  by (auto simp: opt_all_def keeps_def intro: same_task_trans)

lemma bt_update_keeps: "opt_all (keeps c) (bt_update_cow c s)"
  unfolding bt_update_cow_def by (intro opt_intros keepsI) (simp_all add: same_task_def)

lemmas bt_update_task = keepsD [OF bt_update_keeps]

lemma bt_init_cow_keeps: "opt_all (keeps c) (bt_handle_init_cow c s)"
  unfolding bt_handle_init_cow_def
  by (intro opt_intros keepsI) (auto simp: same_task_def dest!: bt_update_task)

lemma bt_init_keeps: "opt_all (keeps c) (bt_handle_init c s)"
  unfolding bt_handle_init_def by (intro opt_intros bt_init_cow_keeps keepsI) (simp_all add: same_task_def)

lemma bt_stage_keeps:
  "opt_all (keeps c) (bt_handle_search_down c s)" "opt_all (keeps c) (bt_handle_search_split c s)"
  "opt_all (keeps c) (bt_handle_fat_append c s)" "opt_all (keeps c) (bt_handle_materialize c s)"
  unfolding bt_handle_search_down_def bt_handle_search_split_def bt_handle_fat_append_def bt_handle_materialize_def
  by (intro opt_intros keeps_mono [OF bt_update_keeps] keepsI; simp add: same_task_def)+

lemma bt_table_keeps: "opt_all (keeps c) (bt_handlers op c s)"
  unfolding bt_handlers_eq by (simp add: bt_init_keeps bt_stage_keeps)

lemma bt_begin_keeps: "opt_all (keeps c) (bt_pipeline_fat_begin b c s)"
  unfolding bt_pipeline_fat_begin_def by (simp add: bt_init_keeps bt_init_cow_keeps)

lemma bt_hooks_keep:
  "opt_all (\<lambda>(r, d, s). same_task c d) (bt_pipeline_fat_try v c s)" "opt_all (\<lambda>(r, d, s). same_task c d) (bt_pipeline_fat_reserve v c s)"
  unfolding bt_pipeline_fat_try_def bt_pipeline_fat_reserve_def by (intro opt_intros; simp add: same_task_def)+

text \<open>The radix trees and the BeTree return the new pointer as well.\<close>

abbreviation keeps_ptr :: "'z ctx_scheme \<Rightarrow> nat \<times> addr \<times> 'z ctx_scheme \<times> 's \<Rightarrow> bool" where
  "keeps_ptr c r \<equiv> same_task c (fst (snd (snd r)))"

lemma keeps_ptrD: "opt_all (keeps_ptr c) m \<Longrightarrow> m = Some (op, a, d, s) \<Longrightarrow> same_task c d"
  by (simp add: opt_all_def)

lemma art_fork_keeps: "opt_all (\<lambda>(a, d, s). same_task c d) (art_node_fork_cow c p n s)"
  unfolding art_node_fork_cow_def by (intro opt_intros) (simp add: same_task_def)

lemma art_fork_task: "art_node_fork_cow c p n s = Some (a, d, s') \<Longrightarrow> same_task c d"
  using art_fork_keeps [of c p n s] by (simp add: opt_all_def)

lemma art_update_keeps: "opt_all (keeps_ptr c) (art_update_cow c s)"
  unfolding art_update_cow_def
  by (intro opt_intros) (auto simp: same_task_def dest!: art_fork_task split: prod.split)

lemmas art_update_task = keeps_ptrD [OF art_update_keeps]

lemma art_begin_keeps: "opt_all (keeps c) (art_cow_begin c s)"
  unfolding art_cow_begin_def by (intro opt_intros keepsI) (auto simp: same_task_def dest!: art_update_task)

lemma art_init_keeps: "opt_all (keeps c) (art_handle_init c s)"
  unfolding art_handle_init_def by (intro opt_intros art_begin_keeps keepsI) (simp_all add: same_task_def)

lemma art_stage_keeps:
  "opt_all (keeps c) (art_handle_search c s)" "opt_all (keeps c) (art_handle_insert c s)" "opt_all (keeps c) (art_handle_fork c s)"
  unfolding art_handle_search_def art_handle_insert_def art_handle_fork_def
  by (intro opt_intros keepsI; auto simp: same_task_def dest!: art_update_task)+

lemma art_table_keeps: "opt_all (keeps c) (art_handlers op c s)"
  unfolding art_handlers_eq by (simp add: art_init_keeps art_stage_keeps)

lemma art_pipe_begin_keeps: "opt_all (keeps c) (art_pipeline_fat_begin b c s)"
  unfolding art_pipeline_fat_begin_def by (simp add: art_init_keeps art_begin_keeps)

lemma aert_fork_keeps:
  "opt_all (\<lambda>(a, d, s). same_task c d) (aert_node_fork_cow c p n s)" "opt_all (\<lambda>(a, d, s). same_task c d) (aert_nodeh_fork_cow c s)"
  unfolding aert_node_fork_cow_def aert_nodeh_fork_cow_def by (intro opt_intros; simp add: same_task_def)+

lemma aert_fork_task:
  "aert_node_fork_cow c p n s = Some (a, d, s') \<Longrightarrow> same_task c d" "aert_nodeh_fork_cow c s = Some (a, d, s') \<Longrightarrow> same_task c d"
  using aert_fork_keeps [of c] by (fastforce simp: opt_all_def)+

lemma aert_update_keeps: "opt_all (keeps_ptr c) (aert_update_cow c s)"
  unfolding aert_update_cow_def
  by (intro opt_intros) (auto simp: same_task_def dest!: aert_fork_task split: prod.split)

lemmas aert_update_task = keeps_ptrD [OF aert_update_keeps]

lemma aert_begin_keeps: "opt_all (keeps c) (aert_cow_begin c s)"
  unfolding aert_cow_begin_def by (intro opt_intros keepsI) (auto simp: same_task_def dest!: aert_update_task)

lemma aert_init_keeps: "opt_all (keeps c) (aert_handle_init c s)"
  unfolding aert_handle_init_def by (intro opt_intros aert_begin_keeps keepsI) (simp_all add: same_task_def)

lemma aert_stage_keeps:
  "opt_all (keeps c) (aert_handle_search c s)" "opt_all (keeps c) (aert_handle_split c s)"
  "opt_all (keeps c) (aert_handle_insert c s)" "opt_all (keeps c) (aert_handle_fork c s)"
  unfolding aert_handle_search_def aert_handle_split_def aert_handle_insert_def aert_handle_fork_def
  by (intro opt_intros keepsI; auto simp: same_task_def dest!: aert_update_task)+

lemma aert_table_keeps: "opt_all (keeps c) (aert_handlers op c s)"
  unfolding aert_handlers_eq by (simp add: aert_init_keeps aert_stage_keeps)

lemma aert_pipe_begin_keeps: "opt_all (keeps c) (aert_pipeline_fat_begin b c s)"
  unfolding aert_pipeline_fat_begin_def by (simp add: aert_init_keeps aert_begin_keeps)

lemma be_upper_keeps: "opt_all (keeps_ptr c) (be_update_upper_cow c s)"
  unfolding be_update_upper_cow_def by (intro opt_intros) (simp_all add: same_task_def)

lemmas be_upper_task = keeps_ptrD [OF be_upper_keeps]

lemma be_lower_keeps: "opt_all (keeps c) (be_update_lower_cow c s)"
  unfolding be_update_lower_cow_def by (intro opt_intros keepsI) (simp_all add: same_task_def)

lemma be_begin_keeps: "opt_all (keeps c) (be_cow_begin c s)"
  unfolding be_cow_begin_def by (intro opt_intros keepsI) (auto simp: same_task_def dest!: be_upper_task)

lemma be_init_keeps: "opt_all (keeps c) (be_handle_init c s)"
  unfolding be_handle_init_def by (intro opt_intros be_begin_keeps keepsI) (simp_all add: same_task_def)

lemma elastic_tuple:
  "m = Some r \<Longrightarrow> r = (a, q) \<Longrightarrow> q = (t, q') \<Longrightarrow> q' = (d, s) \<Longrightarrow> opt_all (\<lambda>(a, t, d, s). same_task c d) m \<Longrightarrow>
    same_task c (retire_replaced p (d\<lparr>c_t_cur := x\<rparr>))"
  by (simp add: opt_all_def same_task_def)

lemma be_elastic_keeps: "opt_all (keeps c) (be_handle_elastic c s)"
  unfolding be_handle_elastic_def
  by (intro opt_intros keeps_mono [OF be_lower_keeps] keepsI;
      ((simp add: same_task_def; fail) | (erule (3) elastic_tuple, intro opt_intros; simp add: same_task_def)))

lemma be_stage_keeps:
  "opt_all (keeps c) (be_handle_upper c s)" "opt_all (keeps c) (be_handle_lower c s)" "opt_all (keeps c) (be_handle_split c s)"
  unfolding be_handle_upper_def be_handle_lower_def be_handle_split_def
  by (intro opt_intros keeps_mono [OF be_lower_keeps] keepsI; auto simp: same_task_def dest!: be_upper_task)+

lemma be_table_keeps: "opt_all (keeps c) (be_handlers op c s)"
  unfolding be_handlers_eq by (simp add: be_init_keeps be_elastic_keeps be_stage_keeps)

lemma be_pipe_begin_keeps: "opt_all (keeps c) (be_pipeline_fat_begin b c s)"
  unfolding be_pipeline_fat_begin_def by (simp add: be_init_keeps be_begin_keeps)

section \<open>The trees meet the interface\<close>

interpretation bt_pipe: pipe_tree bt_pipe_ops
proof unfold_locales
  show "same_task c c'" if "po_handlers bt_pipe_ops op c s = Some (op', c', s')" for op c s op' c' s'
    using that bt_table_keeps by (auto simp: bt_pipe_ops_def dest: keepsD)
  show "same_task c c'" if "po_begin bt_pipe_ops = Some f" "f b c s = Some (op', c', s')" for f b c s op' c' s'
    using that bt_begin_keeps by (auto simp: bt_pipe_ops_def dest: keepsD)
  show "same_task c c'" if "po_try bt_pipe_ops = Some g" "g v c s = Some (r, c', s')" for g v c s r c' s'
    using that bt_hooks_keep(1) [of c v s] by (auto simp: bt_pipe_ops_def opt_all_def)
  show "same_task c c'" if "po_reserve bt_pipe_ops = Some g" "g v c s = Some (r, c', s')" for g v c s r c' s'
    using that bt_hooks_keep(2) [of c v s] by (auto simp: bt_pipe_ops_def opt_all_def)
qed (auto simp: bt_pipe_ops_def bt_pipeline_fat_configure_def same_task_def)

interpretation art_pipe: pipe_tree art_pipe_ops
  by unfold_locales
    (auto simp: art_pipe_ops_def dest: keepsD [OF art_table_keeps] keepsD [OF art_pipe_begin_keeps])

interpretation aert_pipe: pipe_tree aert_pipe_ops
  by unfold_locales
    (auto simp: aert_pipe_ops_def dest: keepsD [OF aert_table_keeps] keepsD [OF aert_pipe_begin_keeps])

interpretation be_pipe: pipe_tree "be_pipe_ops f"
  by unfold_locales
    (auto simp: be_pipe_ops_def be_checkpoint_handler_def bind_Some_iff same_task_def
      dest: keepsD [OF be_table_keeps, unfolded same_task_def] keepsD [OF be_pipe_begin_keeps, unfolded same_task_def])

end
