(* ===== verification/Concow_Safety.thy ===== *)
theory Concow_Safety
  imports Pipe_Trees
begin

text \<open>
  What the pipelined controller promises in every reachable state: exclusive cells, tickets in order, the
  right task in every retired cell, and no submitted task lost by the destructor.
\<close>

section \<open>Who works on a cell\<close>

datatype cc_thread = Client nat | Pipe nat | Worker nat | Monitor

text \<open>The ticket whose cell a thread may write at its current control point.\<close>

fun client_holds :: "client_phase \<Rightarrow> nat option" where
  "client_holds (CL_FILL t key val) = Some t"
| "client_holds (CL_SIGNAL t key val) = Some t"
| "client_holds p = None"

fun worker_holds :: "exec_phase \<Rightarrow> nat option" where
  "worker_holds EX_POLL = None"
| "worker_holds (EX_HEAD t n) = Some t"
| "worker_holds (EX_RUN t n) = Some t"
| "worker_holds (EX_RELOAD t n) = Some t"
| "worker_holds (EX_STORE t n) = Some t"
| "worker_holds (EX_PUSH t) = None"
| "worker_holds EX_STOPPED = None"

fun cc_ticket :: "('z, 's) concow \<Rightarrow> cc_thread \<Rightarrow> nat option" where
  "cc_ticket w (Client cl) = client_holds (rs_client w cl)"
| "cc_ticket w (Pipe p) =
     (if p \<le> cc_pipes w \<and> active (pp_phase (cc_pipe w p)) then Some (pp_tid (cc_pipe w p)) else None)"
| "cc_ticket w (Worker k) = worker_holds (rs_wphase w k)"
| "cc_ticket w Monitor = (case rs_mo w of MO_RETIRE n \<Rightarrow> Some (Suc n) | _ \<Rightarrow> None)"

text \<open>The owner of a ticket in the window, as the place function names it.\<close>

fun cc_place :: "cc_thread \<Rightarrow> place \<Rightarrow> bool" where
  "cc_place (Client cl) P \<longleftrightarrow> P = PL_WAIT cl \<or> P = PL_READY cl"
| "cc_place (Pipe p) P \<longleftrightarrow> P = PL_PIPE"
| "cc_place (Worker k) P \<longleftrightarrow> P = PL_WORKER k"
| "cc_place Monitor P \<longleftrightarrow> P = PL_DONE"

lemma cc_place_unique: "cc_place a P \<Longrightarrow> cc_place b P \<Longrightarrow> a = b \<or> (\<exists>p q. a = Pipe p \<and> b = Pipe q)"
  by (cases a; cases b) auto

text \<open>The tickets behind the last one are the bubbles that drain the pipeline.\<close>

lemma cc_ticket_place:
  assumes inv: "concow_inv w pl" and t: "cc_ticket w a = Some t"
  shows "in_window w t \<and> cc_place a (pl t) \<or>
    (\<exists>p. a = Pipe p \<and> rs_mo w = MO_STOPPED \<and> rs_submitted w < t \<and> t \<le> rs_inited w)"
proof -
  have r: "ring_inv concow_skips w pl" and ok: "pipes_ok w pl" using inv by (simp_all add: concow_inv_def)
  note o = ring_ordered [OF r] and i = ring_invD [OF r]
  show ?thesis
  proof (cases a)
    case (Client cl)
    then have h: "pl t = PL_WAIT cl \<or> pl t = PL_READY cl" and b: "t < rs_committed w + BUFFER_SIZE"
      using t i(3) ring_clientsD(1) [OF i(3), of cl] unfolding ring_clients_def
      by (cases "rs_client w cl"; force)+
    have "mo_inext w < t" by (rule pl_client_range(1) [OF r h])
    then have "in_window w t" using b o by (simp add: in_window_def)
    then show ?thesis using h Client by simp
  next
    case (Pipe p)
    then have p: "p \<le> cc_pipes w" "active (pp_phase (cc_pipe w p))" "t = pp_tid (cc_pipe w p)"
      using t by (simp_all split: if_splits)
    have le: "t \<le> rs_inited w"
    proof (cases p)
      case 0
      then show ?thesis using pipe_okD(3,4) [OF pipes_okD(2) [OF ok p(1)]] p by (simp add: pace_def)
    next
      case (Suc q)
      have "t < pp_tid (cc_pipe w 0)" unfolding p(3) by (rule pipe_order(2) [OF ok]) (use p Suc in simp_all)
      moreover have "pp_tid (cc_pipe w 0) \<le> Suc (rs_inited w)"
        using pipe_okD(2,3) [OF pipes_okD(2) [OF ok, of 0]] by (simp add: pace_def)
      ultimately show ?thesis by simp
    qed
    from active_ticket [OF inv p(1,2)] show ?thesis
    proof
      assume "pl (pp_tid (cc_pipe w p)) = PL_PIPE \<and> pp_tid (cc_pipe w p) \<le> mo_inext w"
      then have "in_window w t" "pl t = PL_PIPE" using busy_window(1) [OF r, of t] p(3) by simp_all
      then show ?thesis using Pipe by simp
    qed (use Pipe p le in simp)
  next
    case (Worker k)
    then have "worker_ticket w k = Some t" using t by (cases "rs_wphase w k") (simp_all add: worker_ticket_def)
    then have "pl t = PL_WORKER k" by (rule worker_runs [OF r])
    then show ?thesis using busy_window(1) [OF r, of t] Worker by simp
  next
    case Monitor
    then obtain n where n: "rs_mo w = MO_RETIRE n" "t = Suc n" using t by (auto split: monitor_phase.splits)
    note d = ring_monitorD [OF i(6)]
    have "n < rs_minit w \<and> pl (Suc n) = PL_DONE" using i(6) n unfolding ring_monitor_def by blast
    moreover have "rs_committed w = rs_mcom w" "rs_mcom w \<le> n" using i(6) n o by (simp_all add: ring_monitor_def mo_cnext_def)
    ultimately show ?thesis using o n Monitor by (simp add: in_window_def)
  qed
qed

section \<open>How far the bubbles reach\<close>

text \<open>What only the monitor moves, and what only a call that takes a ticket does.\<close>

definition same_frontier :: "('z, 's) concow \<Rightarrow> ('z, 's) concow \<Rightarrow> bool" where
  "same_frontier w w' \<longleftrightarrow> rs_inited w' = rs_inited w \<and> rs_minit w' = rs_minit w \<and> rs_mo w' = rs_mo w \<and> rs_mcom w' = rs_mcom w \<and>
     rs_submitted w' = rs_submitted w \<and> rs_log w' = rs_log w"

lemma frontier_simps [simp]:
  "same_frontier w (set_phase p ph w1) = same_frontier w w1" "same_frontier w (set_pipe p st w1) = same_frontier w w1"
  "same_frontier w (next_ticket p w1) = same_frontier w w1" "same_frontier w (set_ctx t c w1) = same_frontier w w1"
  "same_frontier w (set_stage t sg w1) = same_frontier w w1" "same_frontier w (give_task k t w1) = same_frontier w w1"
  "same_frontier w (reload_cno t w1) = same_frontier w w1" "same_frontier w (after_handler p t w1) = same_frontier w w1"
  "same_frontier w (w1\<lparr>rs_store := s\<rparr>) = same_frontier w w1" "same_frontier w w"
  by (simp_all add: same_frontier_def set_phase_def set_pipe_def next_ticket_def set_ctx_def set_stage_def give_task_def
      reload_cno_def after_handler_def)

lemma frontier_cc [simp]:
  "same_frontier w (w1\<lparr>cc_pace := x\<rparr>) = same_frontier w w1" "same_frontier w (w1\<lparr>rs_available := ks\<rparr>) = same_frontier w w1"
  "same_frontier w (w1\<lparr>cc_blocked := n\<rparr>) = same_frontier w w1" "same_frontier w (w1\<lparr>cc_fat_appends := n\<rparr>) = same_frontier w w1"
  "same_frontier w (w1\<lparr>cc_last_structural := n\<rparr>) = same_frontier w w1" "same_frontier w (w1\<lparr>cc_structural := n\<rparr>) = same_frontier w w1"
  "same_frontier w (w1\<lparr>cc_last_checkpoint := n\<rparr>) = same_frontier w w1" "same_frontier w (w1\<lparr>cc_checkpoints := n\<rparr>) = same_frontier w w1"
  by (simp_all add: same_frontier_def)

lemma frontier_map: "opt_all (same_frontier w) m \<Longrightarrow> opt_all (same_frontier w) (map_option (after_handler p t) m)"
  by (cases m) simp_all

lemma begin_frontier: "opt_all (same_frontier w) (entry_begin I t w)"
  unfolding entry_begin_def by (intro opt_intros) (simp_all split: option.split)

lemma handler_frontier: "opt_all (same_frontier w) (run_handler I t w)"
  unfolding run_handler_def by (intro opt_intros) simp

lemma pipe_frame: "opt_all (same_frontier w) (pipe_step I p w)"
proof -
  have entry: "opt_all (same_frontier w) (entry_work I w)"
    unfolding entry_work_def by (intro opt_intros frontier_map begin_frontier) simp_all
  have exit: "opt_all (same_frontier w) (exit_work p w)"
    unfolding exit_work_def by (simp add: Let_def split: list.split)
  have work: "opt_all (same_frontier w) (pipe_work I p w)"
    unfolding pipe_work_def by (intro opt_intros entry exit) simp
  have exec: "opt_all (same_frontier w) (pipe_exec I p w)"
    unfolding pipe_exec_def by (intro opt_intros frontier_map handler_frontier) simp_all
  have ckpt: "opt_all (same_frontier w) (entry_checkpoint I w)"
    unfolding entry_checkpoint_def by (intro opt_intros) simp_all
  show ?thesis
    unfolding pipe_step_def
    by (cases "pp_phase (cc_pipe w p)") (simp_all add: work exec ckpt pipe_epoch_def pipe_wait_def pipe_put_def Let_def)
qed

lemma worker_frontier:
  assumes "worker_step I k w = Some w'"
  shows "same_frontier w w'"
proof -
  have "rs_log w' = rs_log w"
  proof (cases "rs_wphase w k")
    case (EX_RUN t n)
    then have "worker_run I k w = Some w'" using assms by (simp add: worker_step_def)
    then consider w1 p where "run_handler I t w = Some w1" "w' = set_worker k p w1" | "w' = reload_cno t w" | p where "w' = set_worker k p w"
      using EX_RUN by (auto simp: worker_run_def bind_Some_iff Let_def split: if_splits)
    then show ?thesis
      by cases (auto simp: set_worker_def reload_cno_def set_ctx_def dest!: run_handler_frame)
  qed (use assms in \<open>auto simp: worker_step_def worker_poll_def worker_head_def worker_reload_def worker_store_def worker_push_def
      set_worker_def set_stage_def reload_cno_def set_ctx_def Let_def split: if_splits\<close>)
  then show ?thesis using worker_step_moved [OF assms] by (simp add: worker_moved_def same_frontier_def)
qed

lemma do_frame:
  assumes "cc_do I a w = Some w'" "a \<noteq> CcMonitor" "\<And>cl. a \<noteq> CcReserve cl"
  shows "same_frontier w w'"
proof (cases a)
  case (CcPipe p)
  then show ?thesis using assms pipe_frame [of w I p] by (simp add: opt_all_def)
next
  case (CcWorker k)
  then show ?thesis using assms worker_frontier [of I k w w'] by (simp split: if_splits)
qed (use assms in \<open>auto simp: same_frontier_def client_call_def client_pass_def client_fill_def client_signal_def set_client_def
    set_ctx_def set_stage_def rs_do_gc_def gc_request_def bind_Some_iff split: if_splits client_phase.splits\<close>)

text \<open>The update that a call puts under its ticket: none where the tickets are exhausted.\<close>

fun taken :: "cc_act \<Rightarrow> ('z, 's) concow \<Rightarrow> (u64 \<times> u64) list" where
  "taken (CcReserve cl) w =
     (case rs_client w cl of
        CL_CALL key val \<Rightarrow> if rs_submitted w = MAX_TICKET then [] else [(key, val)]
      | _ \<Rightarrow> [])"
| "taken a w = []"

lemma reserve_taken:
  assumes "cc_do I (CcReserve cl) w = Some w'"
  shows "rs_inited w' = rs_inited w \<and> rs_minit w' = rs_minit w \<and> rs_mo w' = rs_mo w \<and> rs_mcom w' = rs_mcom w \<and>
    (taken (CcReserve cl) w = [] \<and> rs_submitted w' = rs_submitted w \<and> rs_log w' = rs_log w \<or>
     (\<exists>e. taken (CcReserve cl) w = [e] \<and> rs_submitted w' = Suc (rs_submitted w) \<and>
        rs_log w' = (rs_log w)(Suc (rs_submitted w) := (if concow_skips (Suc (rs_submitted w)) then None else Some e))))"
proof -
  obtain x where "client_reserve concow_skips cl w = Some x" "w' = (case x of Inl e \<Rightarrow> set_client cl CL_IDLE w | Inr w' \<Rightarrow> w')"
    using assms by auto
  then show ?thesis by (auto simp: client_reserve_def set_client_def Let_def split: client_phase.splits if_splits)
qed

lemma do_monitor_frame:
  assumes run: "cc_do I a w = Some w'" and "a \<noteq> CcMonitor"
  shows "rs_mo w' = rs_mo w \<and> rs_mcom w' = rs_mcom w"
proof (cases "\<exists>cl. a = CcReserve cl")
  case True
  then show ?thesis using reserve_taken run by metis
next
  case False
  then have "same_frontier w w'" using do_frame [OF run assms(2)] by blast
  then show ?thesis by (simp add: same_frontier_def)
qed

lemma margin_bound: "concow_margin n \<le> 2 * BATCH_SIZE"
  by (simp add: concow_margin_def BATCH_SIZE_def)

lemma monitor_reach:
  assumes "monitor_step ckpt concow_margin I w = Some w'" "rs_inited w \<le> rs_minit w + 2 * BATCH_SIZE" "rs_minit w \<le> mo_inext w"
  shows "rs_inited w' \<le> rs_minit w' + 2 * BATCH_SIZE"
  using assms margin_bound [of "rs_minit w"]
  by (auto simp: monitor_step_def monitor_init_def monitor_commit_def monitor_retire_def monitor_publish_def monitor_reclaim_def
      rs_do_gc_def set_ctx_def bind_Some_iff Let_def split: monitor_phase.splits if_splits prod.splits pub_phase.splits reclaim_phase.splits)

inductive_set concow_states :: "('z, 's) pipe_ops \<Rightarrow> ('z, 's) concow set" for I where
  reached: "concow_new I zero nc np nw t s nr gc slots = Inr w0 \<Longrightarrow> cc_reach I w0 w \<Longrightarrow> w \<in> concow_states I"

lemma start_reach: "concow_new I zero nc np nw t s nr gc slots = Inr w \<Longrightarrow> rs_inited w = 0"
  by (auto simp: concow_new_def concow.defs pipe_sys.defs pipe_start_def validate_threads_def validate_slots_def split: if_splits sum.splits)

context pipe_tree
begin

lemma reach_inv:
  assumes new: "concow_new I zero nc np nw t s nr gc slots = Inr w0" and reach: "cc_reach I w0 w"
  shows "\<exists>pl. concow_inv w pl \<and> rs_inited w \<le> rs_minit w + 2 * BATCH_SIZE"
  using reach
proof (induction rule: cc_reach.induct)
  case start
  show ?case using concow_start [OF new] start_reach [OF new] by auto
next
  case (step w a w')
  then obtain pl where inv: "concow_inv w pl" and le: "rs_inited w \<le> rs_minit w + 2 * BATCH_SIZE" by blast
  obtain pl' where "concow_inv w' pl'" using concow_do [OF inv step.hyps(2)] by blast
  moreover have "rs_inited w' \<le> rs_minit w' + 2 * BATCH_SIZE"
  proof (cases "a = CcMonitor")
    case True
    have "rs_minit w \<le> mo_inext w" using inv ring_ordered(4) by (auto simp: concow_inv_def)
    then show ?thesis using monitor_reach step.hyps(2) le True by simp
  next
    case False
    then show ?thesis
      using do_frame [OF step.hyps(2)] reserve_taken [of I _ w w'] step.hyps(2) le
      by (cases "\<exists>cl. a = CcReserve cl") (auto simp: same_frontier_def)
  qed
  ultimately show ?case by blast
qed

lemma states_inv: "w \<in> concow_states I \<Longrightarrow> \<exists>pl. concow_inv w pl \<and> rs_inited w \<le> rs_minit w + 2 * BATCH_SIZE"
  by (auto elim!: concow_states.cases dest: reach_inv)

end

section \<open>What holds in every reachable state\<close>

definition cc_exclusive :: "('z, 's) concow \<Rightarrow> bool" where
  "cc_exclusive w \<longleftrightarrow>
     (\<forall>a b t u. cc_ticket w a = Some t \<longrightarrow> cc_ticket w b = Some u \<longrightarrow> rcell t = rcell u \<longrightarrow> a = b)"

definition cc_ordered :: "('z, 's) concow \<Rightarrow> bool" where
  "cc_ordered w \<longleftrightarrow>
     rs_committed w \<le> rs_mcom w \<and> rs_mcom w \<le> rs_minit w \<and> rs_minit w \<le> rs_submitted w \<and> rs_submitted w \<le> 2 ^ 32 - 1 \<and>
     rs_minit w < rs_committed w + BUFFER_SIZE \<and>
     rs_inited w \<le> rs_minit w + (if rs_mo w = MO_STOPPED then 2 * BATCH_SIZE else 0) \<and>
     (\<forall>p \<le> cc_pipes w. pp_tid (cc_pipe w p) \<le> Suc (pace p w)) \<and>
     (\<forall>p < cc_pipes w. Suc (pace (Suc p) w) = pp_tid (cc_pipe w p)) \<and>
     (\<forall>p q. p < q \<longrightarrow> q \<le> cc_pipes w \<longrightarrow> pp_tid (cc_pipe w q) \<le> pp_tid (cc_pipe w p)) \<and>
     (\<forall>p \<le> cc_pipes w. active (pp_phase (cc_pipe w p)) \<longrightarrow>
        pp_tid (cc_pipe w p) \<le> pace p w \<and>
        (if rs_mo w = MO_STOPPED then rs_submitted w < pp_tid (cc_pipe w p) \<and> pp_tid (cc_pipe w p) \<le> rs_submitted w + 2 * BATCH_SIZE
         else rs_committed w < pp_tid (cc_pipe w p) \<and> pp_tid (cc_pipe w p) < rs_committed w + BUFFER_SIZE \<and>
           pp_tid (cc_pipe w p) \<le> rs_submitted w)) \<and>
     (\<forall>k. rs_wlast w k < pp_tid (cc_pipe w (cc_pipes w)))"

definition cc_retires_finished :: "('z, 's) concow \<Rightarrow> bool" where
  "cc_retires_finished w \<longleftrightarrow>
     (\<forall>n. rs_mo w = MO_RETIRE n \<longrightarrow>
        rs_committed w \<le> n \<and> n < rs_minit w \<and> the_stage w (Suc n) = STAGE_ALL \<and> c_op (the_ctx w (Suc n)) = OP_DONE \<and>
        c_sno (the_ctx w (Suc n)) = of_nat (Suc n) \<and>
        (\<forall>key val. rs_log w (Suc n) = Some (key, val) \<longrightarrow>
           c_key (the_ctx w (Suc n)) = key \<and> c_val (the_ctx w (Suc n)) = val))"

definition cc_drained :: "('z, 's) concow \<Rightarrow> bool" where
  "cc_drained w \<longleftrightarrow>
     (rs_mo w = MO_STOPPED \<longrightarrow>
        rs_stop w \<and> rs_committed w = rs_submitted w \<and> (\<forall>cl. cc_ticket w (Client cl) = None) \<and>
        (\<forall>k. cc_ticket w (Worker k) = None) \<and>
        (\<forall>i. rs_stages w (rcell i) = STAGE_ALL \<and> c_op (rs_ctxs w (rcell i)) = OP_DONE))"

context pipe_tree
begin

lemma exclusive:
  assumes "w \<in> concow_states I"
  shows "cc_exclusive w"
  unfolding cc_exclusive_def
proof (intro allI impI)
  fix a b t u assume tu: "cc_ticket w a = Some t" "cc_ticket w b = Some u" "rcell t = rcell u"
  obtain pl where inv: "concow_inv w pl" and le: "rs_inited w \<le> rs_minit w + 2 * BATCH_SIZE" using states_inv [OF assms] by blast
  have r: "ring_inv concow_skips w pl" and ok: "pipes_ok w pl" using inv by (simp_all add: concow_inv_def)
  note o = ring_ordered [OF r]
  have pipes: "p = q" if "a = Pipe p" "b = Pipe q" "t = u" for p q
  proof (rule ccontr)
    assume "p \<noteq> q"
    have pq: "p \<le> cc_pipes w" "q \<le> cc_pipes w" "active (pp_phase (cc_pipe w p))" "active (pp_phase (cc_pipe w q))"
      "pp_tid (cc_pipe w p) = pp_tid (cc_pipe w q)" using tu that by (auto split: if_splits)
    consider "p < q" | "q < p" using \<open>p \<noteq> q\<close> by linarith
    then show False using pipe_order(2) [OF ok, of p q] pipe_order(2) [OF ok, of q p] pq by cases simp_all
  qed
  show "a = b"
  proof (cases "rs_mo w = MO_STOPPED")
    case False
    have p: "in_window w t" "cc_place a (pl t)" "in_window w u" "cc_place b (pl u)"
      using cc_ticket_place [OF inv tu(1)] cc_ticket_place [OF inv tu(2)] False by simp_all
    have "t = u" by (rule rcell_window [OF p(1,3) tu(3)])
    then show ?thesis using cc_place_unique [of a "pl t" b] p(2,4) pipes by blast
  next
    case True
    have rest: "pl v = PL_DONE \<or> pl v = PL_NONE" for v using stopped_done [OF r True, of v] by simp
    have bubble: "\<exists>p. x = Pipe p \<and> rs_submitted w < v \<and> v \<le> rs_submitted w + 2 * BATCH_SIZE" if "cc_ticket w x = Some v" for x v
    proof -
      have "x \<noteq> Monitor" using that True by auto
      then have "\<not> cc_place x (pl v)" using rest [of v] by (cases x) auto
      then show ?thesis using cc_ticket_place [OF inv that] le o by auto
    qed
    obtain p q where b: "a = Pipe p" "b = Pipe q" "rs_submitted w < t" "rs_submitted w < u"
      "t \<le> rs_submitted w + 2 * BATCH_SIZE" "u \<le> rs_submitted w + 2 * BATCH_SIZE"
      using bubble [OF tu(1)] bubble [OF tu(2)] by blast
    have "t < u + BUFFER_SIZE" "u < t + BUFFER_SIZE" using b(3-6) by (simp_all add: BUFFER_SIZE_def BATCH_SIZE_def)
    then have "t = u" using rcell_near [of t u] rcell_near [of u t] tu(3) by (cases "t \<le> u") simp_all
    then show ?thesis using pipes b by blast
  qed
qed

lemma active_bounds:
  assumes inv: "concow_inv w pl" and le: "rs_inited w \<le> rs_minit w + 2 * BATCH_SIZE"
    and p: "p \<le> cc_pipes w" "active (pp_phase (cc_pipe w p))"
  defines "t \<equiv> pp_tid (cc_pipe w p)"
  shows "if rs_mo w = MO_STOPPED then rs_submitted w < t \<and> t \<le> rs_submitted w + 2 * BATCH_SIZE
    else rs_committed w < t \<and> t < rs_committed w + BUFFER_SIZE \<and> t \<le> rs_submitted w"
proof -
  have r: "ring_inv concow_skips w pl" using inv by (simp add: concow_inv_def)
  note o = ring_ordered [OF r] and i = ring_invD [OF r]
  have "cc_ticket w (Pipe p) = Some t" using p by (simp add: t_def)
  from cc_ticket_place [OF inv this] show ?thesis
  proof
    assume w: "in_window w t \<and> cc_place (Pipe p) (pl t)"
    then have pl: "pl t = PL_PIPE" by simp
    have "rs_mo w \<noteq> MO_STOPPED" using stopped_done [OF r, of t] pl by (auto split: if_splits)
    moreover have "t \<noteq> rs_committed w" using pl ring_placesD(1) [OF i(5), of t] o by auto
    moreover have "t \<le> rs_submitted w" using pl ring_placesD(4) [OF i(5), of t] by (metis not_le place.distinct(5))
    ultimately show ?thesis using w by (simp add: in_window_def)
  qed (use le o in auto)
qed

lemma ordered:
  assumes "w \<in> concow_states I"
  shows "cc_ordered w"
proof -
  obtain pl where inv: "concow_inv w pl" and le: "rs_inited w \<le> rs_minit w + 2 * BATCH_SIZE" using states_inv [OF assms] by blast
  have r: "ring_inv concow_skips w pl" and ok: "pipes_ok w pl" using inv by (simp_all add: concow_inv_def)
  have "rs_minit w < rs_committed w + BUFFER_SIZE" using ring_invD(1) [OF r] unfolding ring_order_def by linarith
  moreover have "MAX_TICKET = 2 ^ 32 - 1" by (simp add: MAX_TICKET_def UINT32_MAX_def)
  moreover have "rs_mo w \<noteq> MO_STOPPED \<Longrightarrow> rs_inited w \<le> rs_minit w" using ring_invD(6) [OF r] by (simp add: ring_monitor_def)
  moreover have "pp_tid (cc_pipe w p) \<le> Suc (pace p w)" if "p \<le> cc_pipes w" for p
    using pipe_okD(2,3) [OF pipes_okD(2) [OF ok that]] by simp
  moreover have "pp_tid (cc_pipe w p) \<le> pace p w" if "p \<le> cc_pipes w" "active (pp_phase (cc_pipe w p))" for p
    using pipe_okD(3,4) [OF pipes_okD(2) [OF ok that(1)]] that(2) by simp
  moreover have "Suc (pace (Suc p) w) = pp_tid (cc_pipe w p)" if "p < cc_pipes w" for p
    using pipes_okD(3) [OF ok that] pipe_okD(1) [OF pipes_okD(2) [OF ok, of p]] that by (simp add: pace_def)
  ultimately show ?thesis
    using ring_ordered [OF r] pipes_okD(6) [OF ok] pipe_order(1) [OF ok] active_bounds [OF inv le] le
    unfolding cc_ordered_def by simp
qed

lemma retires_finished:
  assumes "w \<in> concow_states I"
  shows "cc_retires_finished w"
  unfolding cc_retires_finished_def
proof (intro allI impI)
  fix n assume n: "rs_mo w = MO_RETIRE n"
  obtain pl where inv: "concow_inv w pl" using states_inv [OF assms] by blast
  have r: "ring_inv concow_skips w pl" using inv by (simp add: concow_inv_def)
  note o = ring_ordered [OF r] and i = ring_invD [OF r]
  have t: "cc_ticket w Monitor = Some (Suc n)" using n by simp
  have "in_window w (Suc n)" "pl (Suc n) = PL_DONE" using cc_ticket_place [OF inv t] by auto
  then have c: "cell_ok (the_stage w (Suc n)) (the_ctx w (Suc n)) (rs_log w (Suc n)) (Suc n) PL_DONE"
    using ring_cellsD [OF i(2), of "Suc n"] by simp
  have "n < rs_minit w" "rs_committed w \<le> n" using i(6) n o by (simp_all add: ring_monitor_def mo_cnext_def)
  with c show "rs_committed w \<le> n \<and> n < rs_minit w \<and> the_stage w (Suc n) = STAGE_ALL \<and> c_op (the_ctx w (Suc n)) = OP_DONE \<and>
      c_sno (the_ctx w (Suc n)) = of_nat (Suc n) \<and>
      (\<forall>key val. rs_log w (Suc n) = Some (key, val) \<longrightarrow> c_key (the_ctx w (Suc n)) = key \<and> c_val (the_ctx w (Suc n)) = val)"
    by (simp add: task_ok_def)
qed

lemma drained:
  assumes "w \<in> concow_states I"
  shows "cc_drained w"
  unfolding cc_drained_def
proof (intro impI conjI allI)
  assume stop: "rs_mo w = MO_STOPPED"
  obtain pl where inv: "concow_inv w pl" using states_inv [OF assms] by blast
  have r: "ring_inv concow_skips w pl" using inv by (simp add: concow_inv_def)
  note o = ring_ordered [OF r] and i = ring_invD [OF r]
  show "rs_stop w" "rs_committed w = rs_submitted w" using i(6) stop by (simp_all add: ring_monitor_def)
  have rest: "pl v = PL_DONE \<or> pl v = PL_NONE" for v using stopped_done [OF r stop, of v] by simp
  show "cc_ticket w (Client cl) = None" for cl
  proof (rule ccontr)
    assume "cc_ticket w (Client cl) \<noteq> None"
    then obtain t where t: "cc_ticket w (Client cl) = Some t" by blast
    show False using cc_ticket_place [OF inv t] rest [of t] by auto
  qed
  show "cc_ticket w (Worker k) = None" for k
  proof (rule ccontr)
    assume "cc_ticket w (Worker k) \<noteq> None"
    then obtain t where t: "cc_ticket w (Worker k) = Some t" by blast
    show False using cc_ticket_place [OF inv t] rest [of t] by auto
  qed
  show "rs_stages w (rcell j) = STAGE_ALL" "c_op (rs_ctxs w (rcell j)) = OP_DONE" for j using stopped_cell [OF r stop] by simp_all
qed

end

section \<open>What is retired, and when\<close>

text \<open>The retirement of a monitor step: the ticket and the content of its cell.\<close>

fun retired_by :: "cc_act \<Rightarrow> ('z, 's) concow \<Rightarrow> (nat \<times> 'z ctx_scheme) list" where
  "retired_by CcMonitor w = (case rs_mo w of MO_RETIRE n \<Rightarrow> [(Suc n, the_ctx w (Suc n))] | _ \<Rightarrow> [])"
| "retired_by a w = []"

text \<open>
  A run with its history: \<open>es\<close> the updates of the calls in the order in which they took their tickets, \<open>rs\<close> the
  retirements in the order in which the monitor made them.
\<close>

inductive cc_trace ::
    "('z, 's) pipe_ops \<Rightarrow> ('z, 's) concow \<Rightarrow> (u64 \<times> u64) list \<Rightarrow> (nat \<times> 'z ctx_scheme) list \<Rightarrow> ('z, 's) concow \<Rightarrow> bool"
  for I w0 where
  start: "cc_trace I w0 [] [] w0"
| step: "cc_trace I w0 es rs w \<Longrightarrow> cc_do I a w = Some w' \<Longrightarrow> cc_trace I w0 (es @ taken a w) (rs @ retired_by a w) w'"

lemma cc_trace_reach: "cc_trace I w0 es rs w \<Longrightarrow> cc_reach I w0 w"
  by (induction rule: cc_trace.induct) (auto intro: cc_reach.intros)

inductive_set concow_traces :: "('z, 's) pipe_ops \<Rightarrow> ((u64 \<times> u64) list \<times> (nat \<times> 'z ctx_scheme) list \<times> ('z, 's) concow) set"
  for I where
  traced: "concow_new I zero nc np nw t s nr gc slots = Inr w0 \<Longrightarrow> cc_trace I w0 es rs w \<Longrightarrow> (es, rs, w) \<in> concow_traces I"

text \<open>The ghost log of the state is the history of the calls.\<close>

definition log_of :: "(u64 \<times> u64) list \<Rightarrow> ('z, 's) concow \<Rightarrow> bool" where
  "log_of es w \<longleftrightarrow>
     length es = rs_submitted w \<and>
     (\<forall>i < length es. rs_log w (Suc i) = (if concow_skips (Suc i) then None else Some (es ! i)))"

lemma log_of_step:
  assumes log: "log_of es w" and run: "cc_do I a w = Some w'"
  shows "log_of (es @ taken a w) w'"
proof (cases "\<exists>cl. a = CcReserve cl")
  case True
  then obtain cl where a: "a = CcReserve cl" by blast
  show ?thesis using reserve_taken [of I cl w w'] run log unfolding a log_of_def by (auto simp: nth_append less_Suc_eq)
next
  case False
  have "taken a w = []" using False by (cases a) auto
  moreover have "rs_submitted w' = rs_submitted w \<and> rs_log w' = rs_log w"
  proof (cases "a = CcMonitor")
    case True
    then have "monitor_step True concow_margin I w = Some w'" using run by simp
    then have "rs_log w' = rs_log w"
      by (auto simp: monitor_step_def monitor_init_def monitor_commit_def monitor_retire_def monitor_publish_def monitor_reclaim_def
        rs_do_gc_def set_ctx_def bind_Some_iff Let_def split: monitor_phase.splits if_splits prod.splits pub_phase.splits reclaim_phase.splits)
    then show ?thesis using monitor_frame(8) [OF \<open>monitor_step True concow_margin I w = Some w'\<close>] by simp
  qed (use do_frame [OF run] False in \<open>auto simp: same_frontier_def\<close>)
  ultimately show ?thesis using log by (simp add: log_of_def)
qed

text \<open>The monitor has retired what it has counted.\<close>

lemma monitor_counts:
  assumes "monitor_step ckpt margin I w = Some w'" "rs_mcom w \<le> mo_cnext w"
  shows "mo_cnext w' = mo_cnext w + (case rs_mo w of MO_RETIRE n \<Rightarrow> 1 | _ \<Rightarrow> 0)"
  using assms
  by (auto simp: monitor_step_def monitor_init_def monitor_commit_def monitor_retire_def monitor_publish_def monitor_reclaim_def
      rs_do_gc_def set_ctx_def bind_Some_iff Let_def mo_cnext_def
      split: monitor_phase.splits if_splits prod.splits pub_phase.splits reclaim_phase.splits)

definition cc_retired :: "(u64 \<times> u64) list \<Rightarrow> (nat \<times> 'z ctx_scheme) list \<Rightarrow> ('z, 's) concow \<Rightarrow> bool" where
  "cc_retired es rs w \<longleftrightarrow>
     length es = rs_submitted w \<and> rs_committed w \<le> length rs \<and> length rs \<le> length es \<and>
     map fst rs = [1..<Suc (length rs)] \<and>
     (\<forall>i < length rs. let c = snd (rs ! i) in
        c_op c = OP_DONE \<and> c_sno c = of_nat (Suc i) \<and> (\<not> concow_skips (Suc i) \<longrightarrow> (c_key c, c_val c) = es ! i)) \<and>
     cc_retires_finished w"

context pipe_tree
begin

lemma trace_retired:
  assumes new: "concow_new I zero nc np nw t s nr gc slots = Inr w0" and trace: "cc_trace I w0 es rs w"
  shows "log_of es w \<and> length rs = mo_cnext w \<and> map fst rs = [1..<Suc (length rs)] \<and>
    (\<forall>i < length rs. let c = snd (rs ! i) in
       c_op c = OP_DONE \<and> c_sno c = of_nat (Suc i) \<and> (\<not> concow_skips (Suc i) \<longrightarrow> (c_key c, c_val c) = es ! i))"
  using trace
proof (induction rule: cc_trace.induct)
  case start
  have "rs_submitted w0 = 0 \<and> mo_cnext w0 = 0"
    using new by (auto simp: concow_new_def concow.defs pipe_sys.defs pipe_start_def validate_threads_def validate_slots_def
      mo_cnext_def split: if_splits sum.splits)
  then show ?case by (simp add: log_of_def)
next
  case (step es rs w a w')
  note IH = step.IH
  have reach: "cc_reach I w0 w" by (rule cc_trace_reach [OF step.hyps(1)])
  have state: "w \<in> concow_states I" by (rule concow_states.reached [OF new reach])
  obtain pl where "concow_inv w pl" using reach_inv [OF new reach] by blast
  then have r: "ring_inv concow_skips w pl" by (simp add: concow_inv_def)
  have o: "rs_mcom w \<le> mo_cnext w" "mo_cnext w \<le> rs_submitted w" using ring_ordered [OF r] by linarith+
  have log: "log_of (es @ taken a w) w'" using log_of_step [OF _ step.hyps(2)] IH by blast
  have old: "c_op c = OP_DONE \<and> c_sno c = of_nat (Suc i) \<and> (\<not> concow_skips (Suc i) \<longrightarrow> (c_key c, c_val c) = (es @ taken a w) ! i)"
    if "i < length rs" "c = snd (rs ! i)" for i c
    using IH that o by (auto simp: Let_def log_of_def nth_append)
  show ?case
  proof (cases "\<exists>n. a = CcMonitor \<and> rs_mo w = MO_RETIRE n")
    case True
    then obtain n where a: "a = CcMonitor" "rs_mo w = MO_RETIRE n" by blast
    let ?c = "the_ctx w (Suc n)"
    have run: "monitor_step True concow_margin I w = Some w'" using step.hyps(2) a by simp
    have n: "length rs = n" using IH a by (simp add: mo_cnext_def)
    have "cc_retires_finished w" by (rule retires_finished [OF state])
    then have c: "n < rs_minit w" "c_op ?c = OP_DONE" "c_sno ?c = of_nat (Suc n)"
      "\<And>key val. rs_log w (Suc n) = Some (key, val) \<Longrightarrow> c_key ?c = key \<and> c_val ?c = val"
      using a by (auto simp: cc_retires_finished_def)
    have "n < length es" using c(1) IH state ordered [OF state] by (simp add: log_of_def cc_ordered_def)
    then have "rs_log w (Suc n) = (if concow_skips (Suc n) then None else Some (es ! n))" using IH by (simp add: log_of_def)
    then have "(c_key ?c, c_val ?c) = es ! n" if "\<not> concow_skips (Suc n)" using c(4) [of "fst (es ! n)" "snd (es ! n)"] that by simp
    then have new: "c_op ?c = OP_DONE \<and> c_sno ?c = of_nat (Suc n) \<and> (\<not> concow_skips (Suc n) \<longrightarrow> (c_key ?c, c_val ?c) = (es @ taken a w) ! n)"
      using c(2,3) \<open>n < length es\<close> by (simp add: nth_append)
    have "mo_cnext w' = Suc n" using monitor_counts [OF run o(1)] a IH n by simp
    then show ?thesis using log IH n old new a by (auto simp: less_Suc_eq nth_append Let_def)
  next
    case False
    then have "retired_by a w = []" by (cases a) (auto split: monitor_phase.splits)
    moreover have "mo_cnext w' = mo_cnext w"
    proof (cases "a = CcMonitor")
      case True
      then have run: "monitor_step True concow_margin I w = Some w'" using step.hyps(2) by simp
      then show ?thesis using monitor_counts [OF run o(1)] False True by (auto split: monitor_phase.splits)
    next
      case other: False
      then have "rs_mo w' = rs_mo w \<and> rs_mcom w' = rs_mcom w" by (rule do_monitor_frame [OF step.hyps(2)])
      then show ?thesis by (simp add: mo_cnext_def split: monitor_phase.split)
    qed
    ultimately show ?thesis using log IH old by (auto simp: Let_def)
  qed
qed

lemma retired:
  assumes "(es, rs, w) \<in> concow_traces I"
  shows "cc_retired es rs w"
  using assms
proof cases
  case (traced zero nc np nw t s nr gc slots w0)
  note tr = trace_retired [OF traced]
  have reach: "cc_reach I w0 w" by (rule cc_trace_reach [OF traced(2)])
  obtain pl where "concow_inv w pl" using reach_inv [OF traced(1) reach] by blast
  then have r: "ring_inv concow_skips w pl" by (simp add: concow_inv_def)
  note o = ring_ordered [OF r]
  have "rs_committed w \<le> mo_cnext w" "mo_cnext w \<le> rs_submitted w" using o by linarith+
  then show ?thesis
    using tr retires_finished [OF concow_states.reached [OF traced(1) reach]] unfolding cc_retired_def log_of_def by simp
qed

end

section \<open>The stop flag and the batches\<close>

text \<open>What a pipe behind the entry changes: its own record and the pace of its successor.\<close>

definition beside :: "nat \<Rightarrow> ('z, 's) concow \<Rightarrow> ('z, 's) concow \<Rightarrow> bool" where
  "beside p w w' \<longleftrightarrow>
     cc_pipes w' = cc_pipes w \<and> (\<forall>q. q \<noteq> p \<longrightarrow> cc_pipe w' q = cc_pipe w q) \<and> (\<forall>q. q \<noteq> Suc p \<longrightarrow> cc_pace w' q = cc_pace w q)"

definition moved :: "nat \<Rightarrow> ('z, 's) concow \<Rightarrow> ('z, 's) concow \<Rightarrow> bool" where
  "moved p w w' \<longleftrightarrow> beside p w w' \<and> pp_phase (cc_pipe w' p) \<noteq> PP_CKPT"

lemma beside_simps [simp]:
  "beside p w (set_pipe p st w1) = beside p w w1" "beside p w (set_phase p ph w1) = beside p w w1"
  "beside p w (next_ticket p w1) = beside p w w1" "beside p w (set_ctx t c w1) = beside p w w1"
  "beside p w (set_stage t sg w1) = beside p w w1" "beside p w (give_task k t w1) = beside p w w1"
  "beside p w (w1\<lparr>rs_store := s\<rparr>) = beside p w w1" "beside p w (w1\<lparr>rs_available := ks\<rparr>) = beside p w w1"
  "beside p w (w1\<lparr>cc_pace := (cc_pace w1)(Suc p := x)\<rparr>) = beside p w w1" "beside p w w"
  by (simp_all add: beside_def set_phase_def set_pipe_def next_ticket_def set_ctx_def set_stage_def give_task_def)

lemma moved_simps [simp]:
  "moved p w (set_phase p ph w1) \<longleftrightarrow> beside p w w1 \<and> ph \<noteq> PP_CKPT"
  "moved p w (set_pipe p st w1) \<longleftrightarrow> beside p w w1 \<and> pp_phase st \<noteq> PP_CKPT"
  "moved p w (next_ticket p w1) \<longleftrightarrow> beside p w w1" "moved p w (after_handler p t w1) \<longleftrightarrow> beside p w w1"
  "moved p w (reload_cno t w) \<longleftrightarrow> pp_phase (cc_pipe w p) \<noteq> PP_CKPT"
  by (simp_all add: moved_def after_handler_def reload_cno_def set_phase_def set_pipe_def next_ticket_def set_ctx_def)
    (simp_all add: beside_def)

lemma pipe_moved:
  assumes "p \<noteq> 0" "pp_phase (cc_pipe w p) \<noteq> PP_CKPT"
  shows "opt_all (moved p w) (pipe_step I p w)"
proof -
  have handler: "opt_all (\<lambda>w'. beside p w w') (run_handler I t w)" for t
    unfolding run_handler_def by (intro opt_intros) simp
  have map: "opt_all (beside p w) m \<Longrightarrow> opt_all (moved p w) (map_option (after_handler p t) m)" for m t
    by (cases m) simp_all
  have exec: "opt_all (moved p w) (pipe_exec I p w)"
    unfolding pipe_exec_def by (intro opt_intros map handler) (simp_all add: assms(2))
  have exit: "opt_all (moved p w) (exit_work p w)"
    unfolding exit_work_def by (simp add: Let_def split: list.split)
  have work: "opt_all (moved p w) (pipe_work I p w)"
    unfolding pipe_work_def using assms exit by auto
  show ?thesis
    unfolding pipe_step_def using assms exec work
    by (cases "pp_phase (cc_pipe w p)") (simp_all add: pipe_epoch_def pipe_wait_def pipe_put_def Let_def)
qed

text \<open>The entry pipe has ended and the second waits for the first ticket of a batch it began.\<close>

definition pipe_stuck :: "('z, 's) concow \<Rightarrow> bool" where
  "pipe_stuck w \<longleftrightarrow>
     0 < cc_pipes w \<and> pp_phase (cc_pipe w 0) = PP_END \<and> cc_pace w 1 = 0 \<and>
     cc_pipe w 1 = \<lparr>pp_tid = 1, pp_last = BATCH_SIZE, pp_final = False, pp_cache = 0, pp_phase = PP_LOOP\<rparr> \<and>
     (\<forall>p. p \<noteq> 0 \<longrightarrow> pp_phase (cc_pipe w p) \<noteq> PP_CKPT)"

lemma stuck_pipe:
  assumes stuck: "pipe_stuck w" and run: "pipe_step I p w = Some w'"
  shows "pipe_stuck w'"
proof (cases "p = 0")
  case True
  then show ?thesis using assms by (auto simp: pipe_stuck_def pipe_step_def split: if_splits)
next
  case False
  have m: "moved p w w'"
    using opt_allD [OF pipe_moved [OF False, of w I] run] stuck False by (simp add: pipe_stuck_def)
  show ?thesis
  proof (cases "p = 1")
    case True
    have "cc_pipe w' 1 = cc_pipe w 1"
      using run stuck True
      by (auto simp: pipe_step_def pipe_stuck_def pipe_wait_def pace_def set_pipe_def BATCH_SIZE_def Let_def split: if_splits)
    then have "cc_pipe w' q = cc_pipe w q" for q using m True by (cases "q = 1") (simp_all add: moved_def beside_def)
    then show ?thesis using m stuck True by (simp add: moved_def beside_def pipe_stuck_def)
  next
    case other: False
    then show ?thesis using m stuck False by (auto simp: moved_def beside_def pipe_stuck_def)
  qed
qed

lemma stuck_other:
  assumes "cc_do I a w = Some w'" "\<And>p. a \<noteq> CcPipe p"
  shows "cc_pipes w' = cc_pipes w \<and> cc_pace w' = cc_pace w \<and> cc_pipe w' = cc_pipe w"
proof (cases a)
  case (CcWorker k)
  then show ?thesis using assms worker_step_moved [of I k w w'] by (simp add: worker_moved_def split: if_splits)
next
  case CcMonitor
  then show ?thesis using assms monitor_frame(1,2,3) by auto
next
  case (CcReserve cl)
  then obtain x where "client_reserve concow_skips cl w = Some x" "w' = (case x of Inl e \<Rightarrow> set_client cl CL_IDLE w | Inr w' \<Rightarrow> w')"
    using assms by auto
  then show ?thesis by (auto simp: client_reserve_def set_client_def Let_def split: client_phase.splits if_splits)
qed (use assms in \<open>auto simp: client_call_def client_pass_def client_fill_def client_signal_def set_client_def set_ctx_def set_stage_def
    rs_do_gc_def gc_request_def bind_Some_iff split: if_splits client_phase.splits\<close>)

lemma stuck_reach: "cc_reach I w w' \<Longrightarrow> pipe_stuck w \<Longrightarrow> pipe_stuck w'"
proof (induction rule: cc_reach.induct)
  case (step w1 a w2)
  show ?case
  proof (cases "\<exists>p. a = CcPipe p")
    case True
    then show ?thesis using step stuck_pipe by fastforce
  next
    case False
    then show ?thesis using step stuck_other [OF step.hyps(2)] by (simp add: pipe_stuck_def)
  qed
qed simp

lemma stuck_ended:
  assumes "pipe_stuck w"
  shows "\<not> pipes_ended w"
proof
  assume "pipes_ended w"
  moreover have "1 \<in> set [0..<cc_pipes w + 1]" using assms unfolding pipe_stuck_def by force
  ultimately have "pp_phase (cc_pipe w 1) = PP_END" unfolding pipes_ended_def list_all_iff by blast
  then show False using assms by (simp add: pipe_stuck_def)
qed

text \<open>From the start: the second pipe begins its first batch, the destructor stores the flag, the entry pipe sees it.\<close>

fun cc_run :: "('z, 's) pipe_ops \<Rightarrow> cc_act list \<Rightarrow> ('z, 's) concow \<Rightarrow> ('z, 's) concow option" where
  "cc_run I [] w = Some w"
| "cc_run I (a # as) w = (case cc_do I a w of None \<Rightarrow> None | Some w' \<Rightarrow> cc_run I as w')"

lemma cc_run_reach: "cc_reach I w0 w \<Longrightarrow> cc_run I as w = Some w' \<Longrightarrow> cc_reach I w0 w'"
  by (induction as arbitrary: w) (auto split: option.splits intro: cc_reach.step)

definition race :: "cc_act list" where
  "race = [CcPipe 1, CcStop, CcPipe 0, CcPipe 0]"

lemma race_stuck:
  assumes new: "concow_new I zero nc np nw t s nr gc slots = Inr w0"
  shows "\<exists>w. cc_run I race w0 = Some w \<and> pipe_stuck w \<and> rs_submitted w = 0"
proof -
  obtain n where np: "0 < np" and w0: "w0 = pipe_sys.extend (pipe_start zero t s nc nw nr gc n)
      (concow.fields np (\<lambda>_. 0) (\<lambda>_. pipe_init) 0 0 0 0 0 0)"
    using new by (auto simp: concow_new_def validate_threads_def validate_slots_def split: if_splits)
  show ?thesis
    using np
    by (simp add: race_def w0 concow.defs pipe_sys.defs pipe_start_def pipe_init_def pipe_step_def pipe_epoch_def set_pipe_def set_phase_def
        clients_idle_def list_all_iff pipe_stuck_def Let_def BATCH_SIZE_def)
qed

section \<open>The properties\<close>

text \<open>
  A B+Tree of one leaf, two clients and three pipes: ticket 1 has reached the entry pipe, the client of
  ticket 2 fills its cell.
\<close>

definition ex_new :: "(bt_ctx_more, bt_store) concow" where
  "ex_new = projr (concow_new bt_pipe_ops bt_zero_ctx 2 2 1 1 ex_store 1 True 2)"

definition ex_acts :: "cc_act list" where
  "ex_acts = [CcCall 0 20 7, CcReserve 0, CcPass 0, CcFill 0, CcSignal 0, CcMonitor, CcMonitor, CcMonitor, CcMonitor, CcMonitor,
     CcPipe 0, CcPipe 0, CcCall 1 30 8, CcReserve 1, CcPass 1]"

definition ex_busy :: "(bt_ctx_more, bt_store) concow" where
  "ex_busy = the (cc_run bt_pipe_ops ex_acts ex_new)"

lemma ex_new: "concow_new bt_pipe_ops bt_zero_ctx 2 2 1 1 ex_store 1 True 2 = Inr ex_new"
  by (simp add: ex_new_def concow_new_def validate_threads_def validate_slots_def bt_pipe_ops_def)

lemmas ex_start = ex_new_def concow_new_def validate_threads_def validate_slots_def bt_pipe_ops_def concow.defs pipe_sys.defs
  pipe_start_def pipe_init_def

lemma ex_busy_run: "cc_run bt_pipe_ops ex_acts ex_new = Some ex_busy"
  "cc_ticket ex_busy (Pipe 0) = Some 1" "cc_ticket ex_busy (Client 1) = Some 2"
  by (simp_all add: ex_busy_def ex_acts_def ex_start client_call_def client_reserve_def client_pass_def client_fill_def client_signal_def
      set_client_def set_stage_def set_ctx_def monitor_step_def monitor_init_def pipe_step_def pipe_epoch_def pipe_wait_def set_pipe_def
      pace_def rcell_def BUFFER_SIZE_def BATCH_SIZE_def MAX_TICKET_def UINT32_MAX_def concow_skips_def active_def Let_def)

lemma ex_busy_state: "ex_busy \<in> concow_states bt_pipe_ops"
  by (rule concow_states.reached [OF ex_new cc_run_reach [OF cc_reach.start ex_busy_run(1)]])

text \<open>
  C30: mutual exclusion on the ring. In no reachable state of the pipelined controller, over any of the four
  trees, with any number of clients, pipes and workers and in any interleaving, do two threads work on
  the same cell: not two clients, not a client and a pipe, not a pipe and the worker it handed the task to, not
  a worker and the monitor that retires the task, not two pipes that drain bubbles behind the last ticket.
\<close>

theorem concow_cells_exclusive:
  "concow_states bt_pipe_ops \<subseteq> {w. cc_exclusive w} \<and> concow_states art_pipe_ops \<subseteq> {w. cc_exclusive w} \<and>
   concow_states aert_pipe_ops \<subseteq> {w. cc_exclusive w} \<and> concow_states (be_pipe_ops f) \<subseteq> {w. cc_exclusive w}"
  using bt_pipe.exclusive art_pipe.exclusive aert_pipe.exclusive be_pipe.exclusive by blast

theorem concow_cells_exclusive_witness:
  "ex_busy \<in> concow_states bt_pipe_ops \<and> cc_ticket ex_busy (Pipe 0) = Some 1 \<and> cc_ticket ex_busy (Client 1) = Some 2 \<and> cc_exclusive ex_busy"
  using concow_cells_exclusive ex_busy_state ex_busy_run(2,3) by blast

text \<open>
  C31: order and bounds. In every reachable state the frontiers of the monitor are ordered, committed to
  admitted to submitted, no submitted ticket exceeds \<open>2 ^ 32 - 1\<close> (so the 32-bit versions do not wrap), and less
  than one ring of tickets is admitted and not committed. The entry pipe is never further than one ticket
  behind what the monitor has let go, which is at most what it has admitted, and every other pipe never
  further than what its predecessor has let go, which is what that has finished; so no pipe overtakes an
  earlier one. A pipe that works holds a submitted ticket that is not committed, within one ring of the
  committed ones; only after the monitor has ended do the pipes drain bubbles instead, at most two batches of
  them behind the last ticket. No worker has finished a ticket that the exit pipe has not handed out.
\<close>

theorem concow_tickets_ordered:
  "concow_states bt_pipe_ops \<subseteq> {w. cc_ordered w} \<and> concow_states art_pipe_ops \<subseteq> {w. cc_ordered w} \<and>
   concow_states aert_pipe_ops \<subseteq> {w. cc_ordered w} \<and> concow_states (be_pipe_ops f) \<subseteq> {w. cc_ordered w}"
  using bt_pipe.ordered art_pipe.ordered aert_pipe.ordered be_pipe.ordered by blast

theorem concow_tickets_ordered_witness:
  "ex_busy \<in> concow_states bt_pipe_ops \<and> cc_ticket ex_busy (Pipe 0) = Some 1 \<and> cc_ordered ex_busy"
  using concow_tickets_ordered ex_busy_state ex_busy_run(2) by blast










text \<open>
  C33: shutdown loses nothing. When the monitor has ended, every submitted ticket is committed, no client and no
  worker holds one, and every cell of the ring is finished, so the pipes see only bubbles.
\<close>

theorem concow_stop_drains:
  "concow_states bt_pipe_ops \<subseteq> {w. cc_drained w} \<and> concow_states art_pipe_ops \<subseteq> {w. cc_drained w} \<and>
   concow_states aert_pipe_ops \<subseteq> {w. cc_drained w} \<and> concow_states (be_pipe_ops f) \<subseteq> {w. cc_drained w}"
  using bt_pipe.drained art_pipe.drained aert_pipe.drained be_pipe.drained by blast

text \<open>
  C34: the destructor may never return. From every constructed controller a short interleaving leads to a
  state from which no continuation ends the pipes: the second pipe has begun its first batch before the
  stop flag is stored and the entry pipe loads the flag after, so it submits nothing to the batch that the
  second pipe waits for, and the join that precedes the release of the workers never succeeds.
\<close>

theorem concow_stop_hangs:
  assumes "concow_new I zero nc np nw t s nr gc slots = Inr w0"
  shows "\<exists>w. cc_run I [CcPipe 1, CcStop, CcPipe 0, CcPipe 0] w0 = Some w \<and>
    {w'. cc_reach I w w'} \<subseteq> {w'. \<not> pipes_ended w' \<and> cc_do I CcRelease w' = None}"
proof -
  obtain w where w: "cc_run I race w0 = Some w" "pipe_stuck w" using race_stuck [OF assms] by blast
  then show ?thesis using stuck_ended stuck_reach by (intro exI [of _ w]) (auto simp: race_def)
qed

theorem concow_stop_hangs_witness:
  "\<exists>w. cc_run bt_pipe_ops [CcPipe 1, CcStop, CcPipe 0, CcPipe 0] ex_new = Some w \<and> \<not> pipes_ended w"
  using concow_stop_hangs [OF ex_new] cc_reach.start by blast

end
