(* ===== verification/Cyclic.thy ===== *)
theory Cyclic
  imports Concow
begin

text \<open>
  The cyclic pipelined controller (\<^verbatim>\<open>lib/conctrl/concow_cyclic.hpp\<close>): \<open>N\<close> pipes, each of which takes every
  ticket; pipe \<open>p\<close> is the entry of the tickets of its own residue, the exit of those of the next residue and
  an inner pipe for the others. Clients, workers and the monitor are those of theory \<open>Pipeline\<close>.
\<close>

section \<open>The state\<close>

text \<open>
  A pipe at the head of its loop, with a ticket it may take, in \<open>wait_stage\<close> before and after its load of the
  commit frontier, before it pops a worker, with the worker, before it lets the ticket go, at its end.
\<close>

datatype cyc_phase = CY_LOOP | CY_WORK | CY_SPIN | CY_RELOAD | CY_POP | CY_GIVE nat | CY_PUT | CY_END

record cyc_pipe =
  cp_tid :: nat
  cp_last :: nat
  cp_final :: bool
  cp_tasks :: nat
  cp_pred :: nat
  cp_compl :: u32
  cp_phase :: cyc_phase

record ('z, 's) cyclic = "('z, 's) pipe_sys" +
  cy_n :: nat
  cy_local_probe :: bool
  cy_worker_fat :: bool
  cy_pace :: "nat \<Rightarrow> nat"
  cy_pipe :: "nat \<Rightarrow> cyc_pipe"
  cy_last_structural :: nat
  cy_fat_appends :: nat
  cy_structural :: nat
  cy_blocked :: nat
  cy_worker_appends :: "nat \<Rightarrow> nat"
  cy_worker_materializations :: "nat \<Rightarrow> nat"

definition validate_worker_fat :: "('z, 's) pipe_ops \<Rightarrow> bool \<Rightarrow> nat \<Rightarrow> bool \<Rightarrow> pipe_error + bool" where
  "validate_worker_fat I enabled slots local_probe =
     (if \<not> enabled \<or> slots = 0 then Inr False
      else if po_reserve I = None \<or> po_try I = None \<or> po_configure I = None \<or> po_task I = None then Inl NO_WORKER_ADAPTER
      else if \<not> local_probe then Inl NEEDS_LOCAL_PROBE
      else Inr True)"

definition cyc_init :: cyc_pipe where
  "cyc_init = \<lparr>cp_tid = 1, cp_last = 0, cp_final = False, cp_tasks = 0, cp_pred = 0, cp_compl = 0, cp_phase = CY_LOOP\<rparr>"

text \<open>\<open>n\<close> is the template parameter \<^verbatim>\<open>P\<close> plus one.\<close>

definition cyclic_new ::
    "('z, 's) pipe_ops \<Rightarrow> 'z ctx_scheme \<Rightarrow> nat \<Rightarrow> nat \<Rightarrow> nat \<Rightarrow> addr \<Rightarrow> 's \<Rightarrow> nat \<Rightarrow> bool \<Rightarrow> nat \<Rightarrow> bool \<Rightarrow> bool
      \<Rightarrow> pipe_error + ('z, 's) cyclic" where
  "cyclic_new I zero n_clients n n_workers t_init s n_readers gc_on fat_slots local_probe worker_fat =
     (case validate_threads n_workers of Inl e \<Rightarrow> Inl e | Inr n_workers \<Rightarrow>
      case validate_slots I fat_slots of Inl e \<Rightarrow> Inl e | Inr fat_slots \<Rightarrow>
      case validate_worker_fat I worker_fat fat_slots local_probe of Inl e \<Rightarrow> Inl e | Inr worker_fat \<Rightarrow>
        Inr (pipe_sys.extend (pipe_start zero t_init s n_clients n_workers n_readers gc_on fat_slots)
               (cyclic.fields n local_probe worker_fat (\<lambda>_. 0) (\<lambda>_. cyc_init) 0 0 0 0 (\<lambda>_. 0) (\<lambda>_. 0))))"

definition set_cyc :: "nat \<Rightarrow> cyc_pipe \<Rightarrow> ('z, 's) cyclic \<Rightarrow> ('z, 's) cyclic" where
  "set_cyc p st w = w\<lparr>cy_pipe := (cy_pipe w)(p := st)\<rparr>"

definition cyc_goto :: "nat \<Rightarrow> cyc_phase \<Rightarrow> ('z, 's) cyclic \<Rightarrow> ('z, 's) cyclic" where
  "cyc_goto p ph w = set_cyc p ((cy_pipe w p)\<lparr>cp_phase := ph\<rparr>) w"

definition cyc_next :: "nat \<Rightarrow> ('z, 's) cyclic \<Rightarrow> ('z, 's) cyclic" where
  "cyc_next p w = set_cyc p ((cy_pipe w p)\<lparr>cp_tid := cp_tid (cy_pipe w p) + 1, cp_phase := CY_LOOP\<rparr>) w"

section \<open>Roles\<close>

definition cyc_entry :: "nat \<Rightarrow> nat \<Rightarrow> nat \<Rightarrow> bool" where
  "cyc_entry n p tid \<longleftrightarrow> p = (tid - 1) mod n"

definition cyc_exit :: "nat \<Rightarrow> nat \<Rightarrow> nat \<Rightarrow> bool" where
  "cyc_exit n p tid \<longleftrightarrow> \<not> cyc_entry n p tid \<and> (p + 1) mod n = (tid - 1) mod n"

text \<open>Which tasks belong to the workers alone.\<close>

definition worker_fat_task :: "('z, 's) pipe_ops \<Rightarrow> 'z ctx_scheme \<Rightarrow> nat" where
  "worker_fat_task I c = (case po_task I of Some f \<Rightarrow> f c | None \<Rightarrow> 0)"

definition cyclic_fill ::
    "('z, 's) pipe_ops \<Rightarrow> bool \<Rightarrow> nat \<Rightarrow> bool \<Rightarrow> nat \<Rightarrow> u64 \<Rightarrow> u64 \<Rightarrow> 'z ctx_scheme \<Rightarrow> 'z ctx_scheme" where
  "cyclic_fill I worker_fat fat_slots gc_on tid key val c =
     (let c' = c\<lparr>c_op := OP_INIT, c_gc_enabled := gc_on, c_fat_slots := fat_slots, c_sno := of_nat tid,
                 c_key := key, c_val := val\<rparr>
      in case po_configure I of Some f \<Rightarrow> f worker_fat c' | None \<Rightarrow> c')"

section \<open>Pipes\<close>

definition cyclic_batch :: "nat \<Rightarrow> nat" where
  "cyclic_batch n = 2048 * n"

definition cyc_epoch :: "nat \<Rightarrow> ('z, 's) cyclic \<Rightarrow> ('z, 's) cyclic" where
  "cyc_epoch p w =
     (let st = cy_pipe w p in
      if cp_final st then cyc_goto p CY_END w
      else if rs_stop w then set_cyc p (st\<lparr>cp_last := rs_submitted w, cp_final := True\<rparr>) w
      else set_cyc p (st\<lparr>cp_last := cp_last st + cyclic_batch (cy_n w)\<rparr>) w)"

text \<open>A round takes all residues, so the bound is read at its first ticket only.\<close>

definition cyc_wait :: "nat \<Rightarrow> ('z, 's) cyclic \<Rightarrow> ('z, 's) cyclic" where
  "cyc_wait p w =
     (let st = cy_pipe w p; tid = cp_tid st in
      if cyc_entry (cy_n w) p tid
      then let tasks = (if cp_tasks st < tid then rs_inited w else cp_tasks st)
           in set_cyc p (st\<lparr>cp_tasks := tasks, cp_phase := (if tasks < tid then CY_LOOP else CY_WORK)\<rparr>) w
      else let pred = (if cp_pred st < tid then cy_pace w p else cp_pred st)
           in set_cyc p (st\<lparr>cp_pred := pred, cp_phase := (if pred < tid then CY_LOOP else CY_WORK)\<rparr>) w)"

definition cyc_put :: "nat \<Rightarrow> ('z, 's) cyclic \<Rightarrow> ('z, 's) cyclic" where
  "cyc_put p w = cyc_next p (w\<lparr>cy_pace := (cy_pace w)((p + 1) mod cy_n w := cp_tid (cy_pipe w p))\<rparr>)"

text \<open>
  The first handler of a task under fat leaves, and whether a probe was blocked. Worker mode reserves a slot
  on a finished path, the local probe appends there, otherwise the commit frontier must have passed the last
  structural update.
\<close>

definition fat_entry ::
    "('z, 's) pipe_ops \<Rightarrow> (bool \<Rightarrow> 'z ctx_scheme \<Rightarrow> 's \<Rightarrow> (nat \<times> 'z ctx_scheme \<times> 's) option)
      \<Rightarrow> bool \<Rightarrow> bool \<Rightarrow> nat \<Rightarrow> nat \<Rightarrow> 'z ctx_scheme \<Rightarrow> 's \<Rightarrow> (bool \<times> 'z ctx_scheme \<times> 's) option" where
  "fat_entry I begin worker_fat local_probe committed last_structural c s =
     (let gate = (\<lambda>_ :: unit.
            let ready = (last_structural \<le> committed)
            in map_option (\<lambda>(op, c', s'). (\<not> ready, c'\<lparr>c_op := op\<rparr>, s')) (begin ready c s)) in
      case po_try I of
        None \<Rightarrow> gate ()
      | Some probe \<Rightarrow>
          if worker_fat
          then (case po_reserve I of
                  None \<Rightarrow> Some (False, c, s)
                | Some reserve \<Rightarrow> do {
                    (r, c1, s1) \<leftarrow> reserve (of_nat committed) c s;
                    if r \<le> 0
                    then map_option (\<lambda>(op, c', s'). (r < 0, c'\<lparr>c_op := op\<rparr>, s')) (begin False c1 s1)
                    else Some (False, c1, s1) })
          else if local_probe
          then do {
            (r, c1, s1) \<leftarrow> probe (of_nat committed) c s;
            if r > 0 then Some (False, c1\<lparr>c_op := OP_DONE\<rparr>, s1)
            else map_option (\<lambda>(op, c', s'). (r < 0, c'\<lparr>c_op := op\<rparr>, s')) (begin False c1 s1) }
          else gate ())"

definition cyc_entry_work :: "('z, 's) pipe_ops \<Rightarrow> nat \<Rightarrow> ('z, 's) cyclic \<Rightarrow> ('z, 's) cyclic option" where
  "cyc_entry_work I p w =
     (let tid = cp_tid (cy_pipe w p);
          past = c_root (the_ctx w (tid - 1));
          c = (the_ctx w tid)\<lparr>c_t_past := past\<rparr> in
      if c_op c = OP_DONE then Some (cyc_goto p CY_PUT (set_ctx tid c w))
      else case (if rs_fat_slots w = 0 then None else po_begin I) of
        None \<Rightarrow> do {
          (c', s') \<leftarrow> step_ctx I c (rs_store w);
          Some (cyc_goto p CY_PUT (set_ctx tid c' (w\<lparr>rs_store := s'\<rparr>))) }
      | Some begin \<Rightarrow> do {
          (blocked, c', s') \<leftarrow>
            fat_entry I begin (cy_worker_fat w) (cy_local_probe w) (rs_committed w) (cy_last_structural w) c (rs_store w);
          let w' = set_ctx tid c' (w\<lparr>rs_store := s', cy_blocked := cy_blocked w + (if blocked then 1 else 0)\<rparr>);
          Some (cyc_goto p CY_PUT
            (if c_root c' = past then w'\<lparr>cy_fat_appends := cy_fat_appends w + 1\<rparr>
             else w'\<lparr>cy_last_structural := tid, cy_structural := cy_structural w + 1\<rparr>)) })"

definition cyc_inner_work :: "('z, 's) pipe_ops \<Rightarrow> nat \<Rightarrow> ('z, 's) cyclic \<Rightarrow> ('z, 's) cyclic option" where
  "cyc_inner_work I p w =
     (let tid = cp_tid (cy_pipe w p); c = the_ctx w tid in
      if c_op c \<noteq> OP_DONE \<and> worker_fat_task I c = 0
      then map_option (cyc_goto p CY_PUT) (run_handler I tid w)
      else Some (cyc_goto p CY_PUT w))"

definition cyc_exit_work :: "('z, 's) pipe_ops \<Rightarrow> nat \<Rightarrow> ('z, 's) cyclic \<Rightarrow> ('z, 's) cyclic" where
  "cyc_exit_work I p w =
     (let tid = cp_tid (cy_pipe w p); c = the_ctx w tid in
      if c_op c = OP_DONE then cyc_next p (set_stage tid STAGE_ALL w)
      else let c' = c\<lparr>c_cno := cp_compl (cy_pipe w p)\<rparr>
           in cyc_goto p (if worker_fat_task I c' = 0 then CY_SPIN else CY_POP) (set_ctx tid c' w))"

definition cyc_spin :: "('z, 's) pipe_ops \<Rightarrow> nat \<Rightarrow> ('z, 's) cyclic \<Rightarrow> ('z, 's) cyclic option" where
  "cyc_spin I p w = do {
     let tid = cp_tid (cy_pipe w p);
     go \<leftarrow> stage_ready I (rs_stages w) 1 (the_ctx w tid) (rs_store w);
     if go then map_option (cyc_goto p CY_POP) (run_handler I tid w) else Some (cyc_goto p CY_RELOAD w) }"

definition cyc_pop :: "nat \<Rightarrow> ('z, 's) cyclic \<Rightarrow> ('z, 's) cyclic option" where
  "cyc_pop p w =
     (case rs_available w of
        [] \<Rightarrow> None
      | k # ks \<Rightarrow>
          Some (set_cyc p ((cy_pipe w p)\<lparr>cp_compl := c_cno (the_ctx w (cp_tid (cy_pipe w p))), cp_phase := CY_GIVE k\<rparr>)
                  (w\<lparr>rs_available := ks\<rparr>)))"

definition cyc_work :: "('z, 's) pipe_ops \<Rightarrow> nat \<Rightarrow> ('z, 's) cyclic \<Rightarrow> ('z, 's) cyclic option" where
  "cyc_work I p w =
     (if cyc_entry (cy_n w) p (cp_tid (cy_pipe w p)) then cyc_entry_work I p w
      else if cyc_exit (cy_n w) p (cp_tid (cy_pipe w p)) then Some (cyc_exit_work I p w)
      else cyc_inner_work I p w)"

definition cyc_step :: "('z, 's) pipe_ops \<Rightarrow> nat \<Rightarrow> ('z, 's) cyclic \<Rightarrow> ('z, 's) cyclic option" where
  "cyc_step I p w =
     (let st = cy_pipe w p in
      if cy_n w \<le> p then None
      else case cp_phase st of
        CY_LOOP \<Rightarrow> Some (if (cp_tid st - 1) mod cy_n w = 0 \<and> cp_tid st > cp_last st then cyc_epoch p w else cyc_wait p w)
      | CY_WORK \<Rightarrow> cyc_work I p w
      | CY_SPIN \<Rightarrow> cyc_spin I p w
      | CY_RELOAD \<Rightarrow> Some (cyc_goto p CY_SPIN (reload_cno (cp_tid st) w))
      | CY_POP \<Rightarrow> cyc_pop p w
      | CY_GIVE k \<Rightarrow> Some (cyc_next p (give_task k (cp_tid st) w))
      | CY_PUT \<Rightarrow> Some (cyc_put p w)
      | CY_END \<Rightarrow> None)"

section \<open>Workers and the monitor\<close>

definition cyc_count :: "nat \<Rightarrow> nat \<Rightarrow> ('z, 's) cyclic \<Rightarrow> ('z, 's) cyclic" where
  "cyc_count k task w =
     (if task = 1 then w\<lparr>cy_worker_appends := (cy_worker_appends w)(k := cy_worker_appends w k + 1)\<rparr>
      else if task = 2
      then w\<lparr>cy_worker_materializations := (cy_worker_materializations w)(k := cy_worker_materializations w k + 1)\<rparr>
      else w)"

definition cyc_worker_run :: "('z, 's) pipe_ops \<Rightarrow> nat \<Rightarrow> ('z, 's) cyclic \<Rightarrow> ('z, 's) cyclic option" where
  "cyc_worker_run I k w =
     (case rs_wphase w k of
        EX_RUN tid n \<Rightarrow>
          let c = the_ctx w tid; task = worker_fat_task I c in do {
            go \<leftarrow> (if task \<noteq> 0 then Some True else stage_ready I (rs_stages w) (n + 1) c (rs_store w));
            if go then map_option (\<lambda>w'. set_worker k (EX_STORE tid n) (cyc_count k task w')) (run_handler I tid w)
            else Some (set_worker k (EX_RELOAD tid n) w) }
      | _ \<Rightarrow> None)"

definition cyc_worker_step :: "('z, 's) pipe_ops \<Rightarrow> nat \<Rightarrow> ('z, 's) cyclic \<Rightarrow> ('z, 's) cyclic option" where
  "cyc_worker_step I k w =
     (case rs_wphase w k of
        EX_POLL \<Rightarrow> worker_poll k w
      | EX_HEAD tid n \<Rightarrow> worker_head k w
      | EX_RUN tid n \<Rightarrow> cyc_worker_run I k w
      | EX_RELOAD tid n \<Rightarrow> worker_reload k w
      | EX_STORE tid n \<Rightarrow> worker_store k w
      | EX_PUSH tid \<Rightarrow> worker_push k w
      | EX_STOPPED \<Rightarrow> None)"

definition cyclic_margin :: "nat \<Rightarrow> nat \<Rightarrow> nat" where
  "cyclic_margin n m = cyclic_batch n + (cyclic_batch n - m mod cyclic_batch n) mod cyclic_batch n + n"

section \<open>The system\<close>

definition cyc_ended :: "('z, 's) cyclic \<Rightarrow> bool" where
  "cyc_ended w \<longleftrightarrow> list_all (\<lambda>p. cp_phase (cy_pipe w p) = CY_END) [0..<cy_n w]"

definition no_skips :: "nat \<Rightarrow> bool" where
  "no_skips tid \<longleftrightarrow> False"

fun cy_do :: "('z, 's) pipe_ops \<Rightarrow> cc_act \<Rightarrow> ('z, 's) cyclic \<Rightarrow> ('z, 's) cyclic option" where
  "cy_do I (CcCall cl key val) w = client_call cl key val w"
| "cy_do I (CcReserve cl) w =
     map_option (\<lambda>r. case r of Inl e \<Rightarrow> set_client cl CL_IDLE w | Inr w' \<Rightarrow> w') (client_reserve no_skips cl w)"
| "cy_do I (CcPass cl) w = client_pass cl w"
| "cy_do I (CcFill cl) w =
     client_fill (cyclic_fill I (cy_worker_fat w) (rs_fat_slots w) (g_enabled (gs_gc (rs_gc w)))) cl w"
| "cy_do I (CcSignal cl) w = client_signal no_skips cl w"
| "cy_do I (CcPipe p) w = cyc_step I p w"
| "cy_do I (CcWorker k) w = (if k < rs_workers w then cyc_worker_step I k w else None)"
| "cy_do I CcMonitor w = monitor_step False (cyclic_margin (cy_n w)) I w"
| "cy_do I (CcPin cid) w = rs_do_gc (Reader cid) w"
| "cy_do I (CcUnpin cid) w = rs_do_gc (Unpin cid) w"
| "cy_do I CcRequest w = Some (gc_request w)"
| "cy_do I CcStop w = (if clients_idle w then Some (w\<lparr>rs_stop := True\<rparr>) else None)"
| "cy_do I CcRelease w =
     (if rs_mo w = MO_STOPPED \<and> cyc_ended w then Some (w\<lparr>rs_wtid := (\<lambda>_. None)\<rparr>) else None)"
| "cy_do I CcReclaim w =
     (if rs_mo w = MO_STOPPED \<and> workers_stopped w
      then do {
        (g, s) \<leftarrow> try_reclaim (po_free I) (po_free_checkpoint I) (of_nat (rs_committed w)) (gs_gc (rs_gc w)) (rs_store w);
        Some (w\<lparr>rs_gc := (rs_gc w)\<lparr>gs_gc := g\<rparr>, rs_store := s\<rparr>) }
      else None)"

inductive cy_reach :: "('z, 's) pipe_ops \<Rightarrow> ('z, 's) cyclic \<Rightarrow> ('z, 's) cyclic \<Rightarrow> bool" for I w0 where
  start: "cy_reach I w0 w0"
| step: "cy_reach I w0 w \<Longrightarrow> cy_do I a w = Some w' \<Longrightarrow> cy_reach I w0 w'"

section \<open>Counters\<close>

definition cyclic_statistics :: "('z, 's) cyclic \<Rightarrow> nat \<times> nat \<times> nat \<times> nat \<times> nat" where
  "cyclic_statistics w =
     (cy_fat_appends w, cy_structural w, cy_blocked w,
      sum_list (map (cy_worker_appends w) [0..<rs_workers w]), sum_list (map (cy_worker_materializations w) [0..<rs_workers w]))"

definition cyclic_progress :: "('z, 's) cyclic \<Rightarrow> nat \<times> nat \<times> nat" where
  "cyclic_progress w = (rs_submitted w, rs_inited w, rs_committed w)"

end
