(* ===== verification/BT_Wave.thy ===== *)
theory BT_Wave
  imports BT_Bulk BT_Properties Wave_Tree
begin

text \<open>
  The B+Tree under the ordered-wave controller: the hooks of \<^verbatim>\<open>src/adapters/btree.hpp\<close>, the laws of its leaves
  (an interpretation of \<open>wave_leaves\<close>) and of the tree (\<open>wave_tree\<close>), and what a wave of appends does.
\<close>

section \<open>The hooks\<close>

definition bt_concurrent_fat_target :: "bt_store \<Rightarrow> addr \<Rightarrow> u64 \<Rightarrow> addr option" where
  "bt_concurrent_fat_target s root key = bt_descend s root key"

text \<open>A merge walks the tree with the fuel \<open>f\<close>; a B+Tree has no checkpoints.\<close>

definition bt_fat_hooks :: "nat \<Rightarrow> (addr \<Rightarrow> u64) \<Rightarrow> (bt_ctx_more, bt_store, bt_change) fat_hooks" where
  "bt_fat_hooks f address =
     \<lparr>fh_address = address,
      fh_target = bt_concurrent_fat_target,
      fh_available = (\<lambda>s a slots. map_option (\<lambda>t. bt_concurrent_fat_available t slots) (cells s a)),
      fh_append = bt_append_leaf_delta,
      fh_prepare = (\<lambda>leaf version key val s. bt_prepare_fat_leaf leaf (ucast version) key val s),
      fh_merge = (\<lambda>root cs version s.
        map_option (\<lambda>r. case r of
            Inl e \<Rightarrow> Inl BAD_MERGE
          | Inr (a, M) \<Rightarrow>
              Inr (\<lparr>mg_root = a, mg_t_past = nullptr, mg_retired = ms_retired M, mg_rebuilt = False\<rparr>, ms_store M))
          (bt_merge_build f root cs version s)),
      fh_begin = bt_concurrent_fat_cow_begin,
      fh_handlers = bt_handlers,
      fh_checkpoint = (\<lambda>c s. Some (c, s)),
      fh_free = bt_free_node,
      fh_free_checkpoint = (\<lambda>a s. None),
      fh_node_size = bt_node_bytes,
      fh_stats = None\<rparr>"

section \<open>The leaves obey the laws\<close>

definition bt_op_fits :: "nat \<Rightarrow> bt_store \<Rightarrow> leaf_op \<Rightarrow> bool" where
  "bt_op_fits slots s x \<longleftrightarrow>
     supported_fat_slots slots \<and> (\<exists>t. cells s (fst x) = Some t \<and> bn_type t = BT_LEAF)"

definition leaf_block :: "nat \<Rightarrow> bt_node \<Rightarrow> delta_block" where
  "leaf_block slots t = (case bn_delta t of None \<Rightarrow> new_delta_block slots | Some b \<Rightarrow> b)"

lemma bt_leaf_op_Some:
  "leaf_append_op (bt_fat_hooks f address) slots x s = Some (True, s') \<longleftrightarrow>
     supported_fat_slots slots \<and> (\<exists>t b. cells s (fst x) = Some t \<and> bn_type t = BT_LEAF \<and>
       delta_append slots (fop_ticket (snd x)) (fop_key (snd x)) (fop_value (snd x)) (leaf_block slots t) = Some b \<and>
       s' = s\<lparr>cells := (cells s)(fst x \<mapsto> t\<lparr>bn_delta := Some b\<rparr>)\<rparr>)"
proof (cases "cells s (fst x)")
  case None
  then show ?thesis by (simp add: leaf_append_op_def bt_fat_hooks_def bt_append_leaf_delta_def)
next
  case (Some t)
  then show ?thesis
    by (cases "delta_append slots (fop_ticket (snd x)) (fop_key (snd x)) (fop_value (snd x)) (leaf_block slots t)")
      (auto simp: leaf_append_op_def bt_fat_hooks_def bt_append_leaf_delta_def leaf_block_def bt_leaf_delta_def
        bt_publish_leaf_delta_def put_Some Let_def split: if_splits)
qed

lemma bt_available:
  "fh_available (bt_fat_hooks f address) s a slots = map_option (\<lambda>t. bt_concurrent_fat_available t slots) (cells s a)"
  by (simp add: bt_fat_hooks_def)

lemma leaf_room_after:
  assumes "delta_append slots v k x (leaf_block slots t) = Some b" "bn_type t = BT_LEAF"
  shows "Suc (bt_concurrent_fat_available (t\<lparr>bn_delta := Some b\<rparr>) slots) = bt_concurrent_fat_available t slots"
  using assms
  by (auto simp: delta_append_def leaf_block_def bt_concurrent_fat_available_def bt_leaf_delta_def new_delta_block_def
      split: option.splits if_splits)

interpretation bt_leaves: wave_leaves "bt_fat_hooks f address" slots "bt_op_fits slots" for f address slots
proof (unfold_locales, goal_cases)
  case (1 s x n)
  then obtain t where t: "cells s (fst x) = Some t" "bn_type t = BT_LEAF" "supported_fat_slots slots"
    "bt_concurrent_fat_available t slots = Suc n"
    by (auto simp: bt_op_fits_def bt_available)
  then have "delta_append slots (fop_ticket (snd x)) (fop_key (snd x)) (fop_value (snd x)) (leaf_block slots t) \<noteq> None"
    by (cases "bn_delta t") (auto simp: delta_append_def leaf_block_def bt_concurrent_fat_available_def bt_leaf_delta_def
        new_delta_block_def split: if_splits)
  then obtain b where b: "delta_append slots (fop_ticket (snd x)) (fop_key (snd x)) (fop_value (snd x)) (leaf_block slots t) = Some b"
    by blast
  then show ?case using t leaf_room_after [OF b t(2)] unfolding bt_leaf_op_Some bt_available
    by (intro exI [of _ "s\<lparr>cells := (cells s)(fst x \<mapsto> t\<lparr>bn_delta := Some b\<rparr>)\<rparr>"]) auto
next
  case (2 s x s' l)
  then show ?case unfolding bt_leaf_op_Some bt_available by auto
next
  case (3 s x s' y)
  then show ?case unfolding bt_leaf_op_Some by (auto simp: bt_op_fits_def)
next
  case (4 s x y s1 s2)
  then show ?case unfolding bt_leaf_op_Some by (auto simp: fun_upd_twist)
qed

section \<open>Appending to the leaf of a key\<close>

fun bt_leaf_addr :: "bt_tree \<Rightarrow> u64 \<Rightarrow> addr" where
  "bt_leaf_addr (BLeaf a t) k = a"
| "bt_leaf_addr (BNode a t ts) k = map (\<lambda>T. bt_leaf_addr T k) ts ! findch (bn_keys t) k"

lemma bt_descend_leaf:
  "bt_repr s T \<Longrightarrow> bt_inv slots hi w h T \<Longrightarrow> bt_descend s (bt_addr T) k = Some (bt_leaf_addr T k)"
proof (induction h arbitrary: T)
  case 0
  then obtain a t where "T = BLeaf a t" by (elim bt_inv_0_cases)
  then show ?case using 0 by (subst bt_descend.simps) simp
next
  case (Suc h)
  from Suc.prems(2) obtain a t ts where T: "T = BNode a t ts" by (elim bt_inv_Suc_cases)
  have i: "findch (bn_keys t) k < length ts" using Suc.prems T findch_le [of "bn_keys t" k] by (simp add: less_Suc_eq_le)
  have "bt_repr s (ts ! findch (bn_keys t) k)" "bt_inv slots hi w h (ts ! findch (bn_keys t) k)"
    using Suc.prems T i by auto
  then show ?case using Suc.IH [of "ts ! findch (bn_keys t) k"] Suc.prems T i
    by (subst bt_descend.simps) (simp add: bt_findch_def)
qed

lemma bt_put_leaf_leaf_addr [simp]:
  "bt_repr s T \<Longrightarrow> bt_inv slots hi w h T \<Longrightarrow> bt_leaf_addr (bt_put_leaf l t T) k = bt_leaf_addr T k"
proof (induction h arbitrary: T)
  case 0
  then obtain a t where "T = BLeaf a t" by (elim bt_inv_0_cases)
  then show ?case by simp
next
  case (Suc h)
  from Suc.prems(2) obtain a n ts where T: "T = BNode a n ts" by (elim bt_inv_Suc_cases)
  have i: "findch (bn_keys n) k < length ts" using Suc.prems T findch_le [of "bn_keys n" k] by (simp add: less_Suc_eq_le)
  then show ?case using Suc.IH [of "ts ! findch (bn_keys n) k"] Suc.prems by (simp add: T)
qed

text \<open>The ticket of an operation is its version when it fits 32 bits.\<close>

definition short_ticket :: "fop \<Rightarrow> bool" where
  "short_ticket op \<longleftrightarrow> fop_ticket op < 2 ^ 32"

lemma short_ticket_version: "short_ticket op \<Longrightarrow> fop_ticket op = ucast (fop_version op)"
  unfolding short_ticket_def fop_version_def word_unat_eq_iff
  by (simp add: unsigned_ucast_eq unsigned_take_bit_eq take_bit_nat_eq_self word_less_nat_alt)

lemma bt_append_op:
  assumes wf: "bt_wf slots hi h s T" and ver: "hi < fop_version op" and short: "short_ticket op"
    and run: "leaf_append_op (bt_fat_hooks f address) slots (bt_leaf_addr T (fop_key op), op) s = Some (True, s')"
  shows "\<exists>T'. bt_wf slots (fop_version op) h s' T' \<and> bt_addr T' = bt_addr T \<and> bt_leaf_addr T' = bt_leaf_addr T \<and>
    bt_now T' = (bt_now T)(fop_key op \<mapsto> fop_value op)" "snapshots_kept slots hi (fop_version op) s s'" "store_ok s'"
proof -
  have w: "store_ok s" "bt_repr s T" "bt_inv slots hi UINT64_MAX h T" "distinct (bt_addrs T)"
    using wf by (simp_all add: bt_wf_def)
  let ?l = "bt_leaf_addr T (fop_key op)"
  have desc: "bt_descend s (bt_addr T) (fop_key op) = Some ?l" by (rule bt_descend_leaf [OF w(2,3)])
  obtain t where t: "cells s ?l = Some t" "leaf_ok slots hi t"
    using bt_descend_repr [OF w(2,3), of "fop_key op"] desc by auto
  obtain b where b: "supported_fat_slots slots" "s' = s\<lparr>cells := (cells s)(?l \<mapsto> t\<lparr>bn_delta := Some b\<rparr>)\<rparr>"
    "delta_append slots (fop_ticket op) (fop_key op) (fop_value op) (leaf_block slots t) = Some b"
    using run t(1) unfolding bt_leaf_op_Some by auto
  let ?t = "t\<lparr>bn_delta := Some b\<rparr>"
  have app: "leaf_appended slots (fop_version op) (fop_key op) (fop_value op) t ?t"
    using b unfolding leaf_appended_def short_ticket_version [OF short, symmetric] leaf_block_def
    by (cases "bn_delta t") auto
  have type: "bn_type t = BT_LEAF" "bn_type ?t = BT_LEAF" using t(2) by (simp_all add: leaf_ok_def)
  show "store_ok s'" unfolding b(2) by (rule store_ok_upd [OF w(1) t(1)])
  show "snapshots_kept slots hi (fop_version op) s s'" unfolding b(2) by (rule snapshots_kept_append [OF t(1) app ver type])
  have "bt_wf slots (fop_version op) h s' (bt_put_leaf ?l ?t T)"
    unfolding b(2) bt_wf_def
    using bt_put_leaf_now [OF t(1) app ver w(2-4) desc] bt_put_leaf_repr [OF w(2) t(1) type] store_ok_upd [OF w(1) t(1)] w(4)
    by simp
  moreover have "bt_now (bt_put_leaf ?l ?t T) = (bt_now T)(fop_key op \<mapsto> fop_value op)"
    using bt_put_leaf_now [OF t(1) app ver w(2-4) desc] by blast
  moreover have "bt_leaf_addr (bt_put_leaf ?l ?t T) = bt_leaf_addr T"
    by (rule ext) (rule bt_put_leaf_leaf_addr [OF w(2,3)])
  ultimately show "\<exists>T'. bt_wf slots (fop_version op) h s' T' \<and> bt_addr T' = bt_addr T \<and> bt_leaf_addr T' = bt_leaf_addr T \<and>
    bt_now T' = (bt_now T)(fop_key op \<mapsto> fop_value op)"
    by (intro exI [of _ "bt_put_leaf ?l ?t T"]) simp
qed

section \<open>The tree obeys the laws\<close>

definition bt_current :: "nat \<Rightarrow> u32 \<Rightarrow> bt_store \<Rightarrow> bt_tree \<Rightarrow> bool" where
  "bt_current slots hi s T \<longleftrightarrow> supported_fat_slots slots \<and> (\<exists>h. bt_wf slots hi h s T)"

definition bt_old :: "nat \<Rightarrow> u32 \<Rightarrow> u64 \<Rightarrow> bt_store \<Rightarrow> bt_tree \<Rightarrow> bool" where
  "bt_old slots hi u s T \<longleftrightarrow> store_ok s \<and> bt_repr s T \<and> (\<exists>h. bt_inv slots hi u h T)"

lemma bt_current_leaf:
  assumes "bt_current slots hi s T"
  shows "bt_descend s (bt_addr T) k = Some (bt_leaf_addr T k)"
    and "\<exists>t. cells s (bt_leaf_addr T k) = Some t \<and> bn_type t = BT_LEAF"
proof -
  obtain h where w: "bt_repr s T" "bt_inv slots hi UINT64_MAX h T" using assms by (auto simp: bt_current_def bt_wf_def)
  show desc: "bt_descend s (bt_addr T) k = Some (bt_leaf_addr T k)" by (rule bt_descend_leaf [OF w])
  show "\<exists>t. cells s (bt_leaf_addr T k) = Some t \<and> bn_type t = BT_LEAF"
    using bt_descend_repr [OF w, of k] desc by (auto simp: leaf_ok_def)
qed

interpretation bt_waves: wave_tree "bt_fat_hooks f address" slots "bt_op_fits slots" "bt_current slots" "bt_old slots"
  bt_addr "\<lambda>_. UNIV" bt_leaf_addr bt_now "\<lambda>u T. bt_map T u" bt_find short_ticket for f address slots
proof (unfold_locales, goal_cases)
  case (1 hi s T k)
  then show ?case using bt_current_leaf(1) [OF 1, of k] by (simp add: bt_fat_hooks_def bt_concurrent_fat_target_def)
next
  case (2 hi s T k)
  then show ?case using bt_current_leaf(2) [OF 2, of k] by (auto simp: bt_available)
next
  case (3 hi s T)
  then have "cells s nullptr = None" by (auto simp: bt_current_def bt_wf_def store_ok_def)
  then show ?case by (simp add: leaf_room_def bt_available)
next
  case (4 hi s T op)
  then show ?case using bt_current_leaf(2) [OF 4(1), of "fop_key op"] by (simp add: bt_op_fits_def bt_current_def)
next
  case (5 hi s T op s')
  then show ?case using bt_append_op(1) [of slots hi _ s T op f address s'] unfolding bt_current_def by blast
next
  case (6 hi s T op s' u T0)
  then obtain h where wf: "bt_wf slots hi h s T" by (auto simp: bt_current_def)
  obtain h0 where T0: "bt_repr s T0" "bt_inv slots hi u h0 T0" using 6(7) by (auto simp: bt_old_def)
  note app = bt_append_op [OF wf 6(2,4,5)]
  obtain T1 where "bt_repr s' T1" "bt_addr T1 = bt_addr T0" "bt_inv slots (fop_version op) u h0 T1"
    "\<And>v. v \<le> u \<Longrightarrow> bt_contents v T1 = bt_contents v T0"
    using snapshots_keptD [OF app(2) 6(6) T0] by blast
  then show ?case using app(3) by (intro exI [of _ T1]) (auto simp: bt_old_def bt_map_def)
next
  case (7 hi s T u k)
  then obtain h where w: "store_ok s" "bt_repr s T" "bt_inv slots hi UINT64_MAX h T" by (auto simp: bt_wf_def bt_current_def)
  show ?case using bt_find_correct [OF w, of u k] bt_map_stable [OF w(3) 7(2)] word_order.extremum [of u]
    by (simp add: UINT64_MAX_def)
next
  case (8 hi u s T k)
  then obtain h where w: "store_ok s" "bt_repr s T" "bt_inv slots hi u h T" by (auto simp: bt_old_def)
  show ?case by (rule bt_find_correct [OF w order_refl])
qed

section \<open>A wave\<close>

text \<open>
  C35: a wave of appends on a B+Tree. Whatever the interleaving of the worker pool on the planned groups, no
  worker finds its reserved room gone; and when all are done, every lookup from the last ticket of the wave on
  sees the updates of the wave applied in ticket order, and every tree of an earlier version reads as before.
\<close>

theorem bt_wave_correct:
  fixes batch :: "wtask list" and address :: "addr \<Rightarrow> u64"
  defines "ops \<equiv> map tk_op batch"
  assumes wf: "bt_wf slots hi h s T" and slots: "supported_fat_slots slots"
    and size: "m < 64" "length batch - first \<le> 2 ^ m" "first < pos"
    and tickets: "sorted_wrt (<) (hi # map fop_version (drop first ops))" "\<forall>op \<in> set (drop first ops). fop_ticket op < 2 ^ 32"
    and plan: "plan_wave (bt_fat_hooks f address) slots False (bt_addr T) s (2 ^ m) first batch = Some (pos, batch', groups, table)"
    and pool: "pool_idle workers p0" "0 < workers"
    and reach: "pool_reach (bt_fat_hooks f address) slots workers batch' (start_wave workers groups s p0) p"
  shows "pl_failure p = None \<and>
    (pl_remaining p = 0 \<longrightarrow>
      (\<forall>k u. ucast (fop_version (ops ! (pos - 1))) \<le> u \<longrightarrow>
        bt_find (pl_store p) (bt_addr T) k u = Some (apply_ops (bt_now T) (drop first (take pos ops)) k)) \<and>
      (\<forall>T0 h0 w k u. bt_repr s T0 \<longrightarrow> bt_inv slots hi w h0 T0 \<longrightarrow> u \<le> w \<longrightarrow> u < ucast (fop_version (ops ! first)) \<longrightarrow>
        bt_find (pl_store p) (bt_addr T0) k u = bt_find s (bt_addr T0) k u))"
proof -
  have cur: "bt_current slots hi s T" using wf slots by (auto simp: bt_current_def)
  have firstle: "first \<le> length batch"
    using plan size(3) unfolding plan_wave_def by (cases "first \<le> length batch") auto
  have planned: "wave_planned (bt_fat_hooks f address) slots False (bt_addr T) s ops first pos batch' groups"
    using plan_wave_total [OF size(1,2) firstle bt_waves.hooks_ok [OF cur], of f address False] plan unfolding ops_def by auto
  have good: "\<forall>op \<in> set (drop first ops). short_ticket op" using tickets(2) unfolding short_ticket_def .
  note w = bt_waves.wave_correct [OF cur size(3) tickets(1) good planned pool reach]
  have old: "bt_old slots hi u s T0" if "bt_repr s T0" "bt_inv slots hi w h0 T0" "u \<le> w" for T0 h0 w u
    using that wf bt_inv_weaken [OF that(2,3)] by (auto simp: bt_old_def bt_wf_def)
  show ?thesis using w old by blast
qed

text \<open>Two updates of a leaf with room for one: the wave ends before the second.\<close>

definition bt_wave_batch :: "wtask list" where
  "bt_wave_batch =
     [\<lparr>tk_op = \<lparr>fop_ticket = 2, fop_key = 12, fop_value = 120\<rparr>, tk_next = None\<rparr>,
      \<lparr>tk_op = \<lparr>fop_ticket = 3, fop_key = 20, fop_value = 201\<rparr>, tk_next = None\<rparr>]"

definition bt_wave_groups :: "bt_change wgroup list" where
  "bt_wave_groups = [\<lparr>gr_leaf = 1, gr_first = 0, gr_last = 0, gr_count = 1, gr_materialize = False, gr_replacement = None\<rparr>]"

definition bt_wave_pool :: "(bt_store, bt_change) pool" where
  "bt_wave_pool = \<lparr>pl_store = ex_store, pl_groups = [], pl_generation = 0, pl_remaining = 0, pl_next = 0,
     pl_seen = (\<lambda>_. 0), pl_phase = (\<lambda>_. WK_WAIT), pl_failure = None\<rparr>"

lemma bt_wave_hooks:
  "fh_target (bt_fat_hooks 1 of_nat) ex_store 1 k = Some 1" "fh_available (bt_fat_hooks 1 of_nat) ex_store 1 2 = Some 1"
  "fh_address (bt_fat_hooks 1 of_nat) = of_nat" "wave_hash of_nat 1 k 4 = 0"
  using bt_descend_leaf [of ex_store ex_tree 2 1 UINT64_MAX 0 k] ex_wf
  by (simp_all add: bt_fat_hooks_def bt_concurrent_fat_target_def bt_concurrent_fat_available_def bt_wf_def
      ex_tree_def ex_store_def ex_leaf_def bt_leaf_delta_def wave_hash_def drop_bit_eq_div)

lemma bt_wave_plan:
  "\<exists>table. plan_wave (bt_fat_hooks 1 of_nat) 2 False 1 ex_store (2 ^ 2) 0 bt_wave_batch =
     Some (1, bt_wave_batch, bt_wave_groups, table)"
proof -
  have table: "replicate (2 ^ 2) empty_bucket = [empty_bucket, empty_bucket, empty_bucket, empty_bucket]"
    by (simp add: eval_nat_numeral)
  have len: "length bt_wave_batch - 0 = Suc (Suc 0)" by (simp add: bt_wave_batch_def)
  let ?b = "\<lparr>bk_leaf = 1, bk_group = 0, bk_key = 12, bk_occupied = True\<rparr>" let ?e = "empty_bucket"
  have p1: "plan_step (bt_fat_hooks 1 of_nat) 2 False 1 ex_store 0 (bt_wave_batch, [], [?e, ?e, ?e, ?e]) =
      Some (Some (bt_wave_batch, bt_wave_groups, [?b, ?e, ?e, ?e]))"
    using bt_wave_hooks
    by (simp add: plan_step_def bt_wave_batch_def bt_wave_groups_def empty_bucket_def Let_def numeral_eq_Suc)
  have p2: "plan_step (bt_fat_hooks 1 of_nat) 2 False 1 ex_store (Suc 0) (bt_wave_batch, bt_wave_groups, [?b, ?e, ?e, ?e]) =
      Some None"
    using bt_wave_hooks
    by (simp add: plan_step_def bt_wave_batch_def bt_wave_groups_def bk_other_def Let_def numeral_eq_Suc)
  show ?thesis unfolding plan_wave_def table len plan_loop.simps p1 option.case p2 by simp
qed

theorem bt_wave_correct_witness:
  "\<exists>p. pool_run (bt_fat_hooks 1 of_nat) 2 1 bt_wave_batch [Wake 0, Claim 0, Exec 0, Exec 0, Claim 0, Leave 0]
      (start_wave 1 bt_wave_groups ex_store bt_wave_pool) = Some p \<and> pl_remaining p = 0 \<and>
    bt_find (pl_store p) 1 12 2 = Some (Some 120) \<and> bt_find (pl_store p) 1 15 1 = Some (Some 150)"
proof -
  let ?start = "start_wave 1 bt_wave_groups ex_store bt_wave_pool"
  obtain p where run: "pool_run (bt_fat_hooks 1 of_nat) 2 1 bt_wave_batch [Wake 0, Claim 0, Exec 0, Exec 0, Claim 0, Leave 0] ?start = Some p"
    "pl_remaining p = 0"
    by (simp add: start_wave_def bt_wave_pool_def bt_wave_groups_def bt_wave_batch_def group_step_def
        bt_fat_hooks_def bt_append_leaf_delta_def supported_fat_slots_def ex_store_def ex_leaf_def bt_leaf_delta_def
        delta_append_def put_Some Let_def)
  have reach: "pool_reach (bt_fat_hooks 1 of_nat) 2 1 bt_wave_batch ?start p"
    by (rule pool_run_reach [OF pool_reach.start run(1)])
  obtain table where plan: "plan_wave (bt_fat_hooks 1 of_nat) 2 False (bt_addr ex_tree) ex_store (2 ^ 2) 0 bt_wave_batch =
      Some (1, bt_wave_batch, bt_wave_groups, table)"
    using bt_wave_plan by (auto simp: ex_tree_def)
  have t: "sorted_wrt (<) (1 # map fop_version (drop 0 (map tk_op bt_wave_batch)))"
    "\<forall>op \<in> set (drop 0 (map tk_op bt_wave_batch)). fop_ticket op < 2 ^ 32" "fop_version (map tk_op bt_wave_batch ! (1 - 1)) = 2"
    "fop_version (map tk_op bt_wave_batch ! 0) = 2" "drop 0 (take 1 (map tk_op bt_wave_batch)) = [tk_op (bt_wave_batch ! 0)]"
    by (simp_all add: bt_wave_batch_def fop_version_def)
  have sup: "supported_fat_slots 2" by (simp add: supported_fat_slots_def)
  have idle: "pool_idle 1 bt_wave_pool" by (simp add: pool_idle_def bt_wave_pool_def)
  have len: "(2 :: nat) < 64" "length bt_wave_batch - 0 \<le> 2 ^ 2" "(0 :: nat) < 1" by (simp_all add: bt_wave_batch_def)
  have o: "bt_repr ex_store ex_tree" "bt_inv 2 1 UINT64_MAX 0 ex_tree" using ex_wf by (simp_all add: bt_wf_def)
  have le: "(1 :: u64) \<le> UINT64_MAX" by (simp add: UINT64_MAX_def)
  note w = bt_wave_correct [OF ex_wf sup len t(1,2) plan idle len(3) reach]
  have "bt_find (pl_store p) (bt_addr ex_tree) 12 2 = Some (apply_ops (bt_now ex_tree) [tk_op (bt_wave_batch ! 0)] 12)"
    using w run(2) t(3,5) by simp
  moreover have "apply_ops f [tk_op (bt_wave_batch ! 0)] 12 = Some 120" for f by (simp add: apply_ops_def bt_wave_batch_def)
  moreover have "bt_find (pl_store p) (bt_addr ex_tree) 15 1 = bt_find ex_store (bt_addr ex_tree) 15 1"
  proof -
    have "u < ucast (fop_version (map tk_op bt_wave_batch ! 0)) \<Longrightarrow> u \<le> UINT64_MAX \<Longrightarrow>
      bt_find (pl_store p) (bt_addr ex_tree) 15 u = bt_find ex_store (bt_addr ex_tree) 15 u" for u
      using w run(2) o by blast
    then show ?thesis using t(4) le by simp
  qed
  ultimately show ?thesis using run bt_lookup_correct [OF ex_wf, of 15 1]
    by (intro exI [of _ p]) (simp add: ex_tree_def ex_contents)
qed

end
