(* ===== verification/BE_Merge.thy ===== *)
theory BE_Merge
  imports BE_Cow Wave
begin

text \<open>
  The BeTree outside the path copies: the in-place update (\<^verbatim>\<open>lib/trees/betree/update_inplace.hpp\<close>), the merge of a
  wave of prepared leaves (\<^verbatim>\<open>lib/trees/betree/fat_merge.hpp\<close>), which keeps the children of a boundary node and
  rebuilds the tree when an elastic subtree has grown too high, and the hooks of \<^verbatim>\<open>src/adapters/betree.hpp\<close> for
  the ordered-wave controller.
\<close>

section \<open>In-place update\<close>

definition be_update_leaf_inplace ::
    "addr \<Rightarrow> u64 \<Rightarrow> u64 \<Rightarrow> be_store \<Rightarrow> ((u64 \<times> addr \<times> addr) \<times> be_store) option" where
  "be_update_leaf_inplace a k v s = do {
     t \<leftarrow> cells s a;
     let i = be_findval t k;
     if i < be_size t \<and> be_keys t ! i = k then do {
       s1 \<leftarrow> put a (t\<lparr>be_vals := (be_vals t)[i := v]\<rparr>) s;
       Some ((k, a, nullptr), s1) }
     else if be_size t < 2 * BT_B - 1 then do {
       ks \<leftarrow> array_insert (2 * BT_B - 1) (be_keys t) i k;
       vs \<leftarrow> array_insert (2 * BT_B) (be_vals t) i v;
       s1 \<leftarrow> put a (t\<lparr>be_keys := ks, be_vals := vs\<rparr>) s;
       Some ((k, a, nullptr), s1) }
     else be_split_leaf 0 t k v s }"

text \<open>A split child \<open>i\<close> of the node at \<open>a\<close>: the halves take its place and its children.\<close>

definition be_split_child :: "addr \<Rightarrow> nat \<Rightarrow> addr \<Rightarrow> be_store \<Rightarrow> (u64 \<times> addr \<times> addr \<times> be_store) option" where
  "be_split_child a i ca s = do {
     ch \<leftarrow> cells s ca;
     (p, l, r) \<leftarrow> be_split ch 0;
     let (la, s1) = alloc l s;
     let (ra, s2) = alloc r s1;
     t \<leftarrow> cells s2 a;
     t' \<leftarrow> be_insert_child t p la ra i;
     s3 \<leftarrow> put a t' s2;
     s4 \<leftarrow> be_copych_split la ra ca s3;
     s5 \<leftarrow> dealloc ca s4;
     Some (p, la, ra, s5) }"

fun be_update_internal_inplace :: "nat \<Rightarrow> addr \<Rightarrow> u64 \<Rightarrow> u64 \<Rightarrow> be_store \<Rightarrow> be_store option" where
  "be_update_internal_inplace 0 a k v s = None"
| "be_update_internal_inplace (Suc f) a k v s =
     (case cells s a of
        None \<Rightarrow> None
      | Some t \<Rightarrow>
          let i = be_findch t k in
          (case nth_opt (be_chs t) i of
             None \<Rightarrow> None
           | Some ca \<Rightarrow>
               (case cells s ca of
                  None \<Rightarrow> None
                | Some ch \<Rightarrow>
                    if be_type ch = BELEAF
                    then do {
                      ((p, l, r), s1) \<leftarrow> be_update_leaf_inplace ca k v s;
                      if r \<noteq> nullptr then do {
                        s2 \<leftarrow> dealloc ca s1;
                        t' \<leftarrow> be_insert_child t p l r i;
                        put a t' s2 }
                      else Some s1 }
                    else if be_size ch < 2 * BT_B - 1 then be_update_internal_inplace f ca k v s
                    else (case be_split_child a i ca s of
                            None \<Rightarrow> None
                          | Some (p, la, ra, s1) \<Rightarrow>
                              be_update_internal_inplace f (if p \<le> k then ra else la) k v s1))))"

definition be_update_root_inplace :: "nat \<Rightarrow> addr \<Rightarrow> u64 \<Rightarrow> u64 \<Rightarrow> be_store \<Rightarrow> (addr \<times> be_store) option" where
  "be_update_root_inplace f a k v s = do {
     t \<leftarrow> cells s a;
     if be_type t = BELEAF then do {
       ((p, l, r), s1) \<leftarrow> be_update_leaf_inplace a k v s;
       if r \<noteq> nullptr then do {
         let (na, s2) = alloc ((be_new_root 0 p l r)\<lparr>be_verge := be_verge t\<rparr>) s1;
         s3 \<leftarrow> dealloc a s2;
         Some (na, s3) }
       else Some (a, s1) }
     else if be_size t < 2 * BT_B - 1 then do {
       s1 \<leftarrow> be_update_internal_inplace f a k v s;
       Some (a, s1) }
     else do {
       (p, l, r) \<leftarrow> be_split t 0;
       let (la, s1) = alloc l s;
       let (ra, s2) = alloc r s1;
       let (na, s3) = alloc ((be_new_root 0 p la ra)\<lparr>be_verge := be_verge t\<rparr>) s2;
       s4 \<leftarrow> be_copych_split la ra a s3;
       s5 \<leftarrow> dealloc a s4;
       s6 \<leftarrow> be_update_internal_inplace f (if p \<le> k then ra else la) k v s5;
       Some (na, s6) } }"

section \<open>Merging a wave of prepared leaves\<close>

text \<open>
  A replacement has the fields of the B+Tree's (\<open>bt_change\<close>). The merge state adds whether an elastic subtree
  has grown past its bound.
\<close>

type_synonym be_change = bt_change

record be_merge_state = "be_store merge_state" +
  bm_needs_checkpoint :: bool

definition be_prepare_fat_leaf :: "addr \<Rightarrow> u32 \<Rightarrow> u64 \<Rightarrow> u64 \<Rightarrow> be_store \<Rightarrow> (be_change \<times> be_store) option" where
  "be_prepare_fat_leaf a version key val s = do {
     t \<leftarrow> cells s a;
     ((sep, l, r), s1) \<leftarrow> be_materialize_leaf_cow t version key val s;
     Some (\<lparr>ch_old = a, ch_route = key, ch_sep = sep, ch_left = l, ch_right = r\<rparr>, s1) }"

definition be_internal_like ::
    "be_node \<Rightarrow> u32 \<Rightarrow> addr list \<Rightarrow> u64 list \<Rightarrow> be_merge_state \<Rightarrow> addr \<times> be_merge_state" where
  "be_internal_like model version children ks M =
     (let (a, s) = alloc ((be_new_internal version (length children - 1))
                            \<lparr>be_type := be_type model, be_verge := be_verge model, be_height := be_height model,
                             be_keys := ks, be_chs := children\<rparr>) (ms_store M)
      in (a, M\<lparr>ms_store := s, ms_allocated := ms_allocated M @ [a]\<rparr>))"

text \<open>The two halves of an elastic subtree go below a new root of their own.\<close>

definition be_elastic_parent ::
    "addr \<Rightarrow> addr \<times> addr \<times> u64 \<Rightarrow> u32 \<Rightarrow> be_merge_state \<Rightarrow> (addr \<times> be_merge_state) option" where
  "be_elastic_parent model child version M =
     (case child of (l, r, sep) \<Rightarrow> do {
        t \<leftarrow> cells (ms_store M) model;
        let (a, M1) = be_internal_like t version [l, r] [sep] M;
        p \<leftarrow> cells (ms_store M1) a;
        s \<leftarrow> put a (p\<lparr>be_type := LOWER, be_height := be_height t + 1\<rparr>) (ms_store M1);
        Some (a, M1\<lparr>ms_store := s, bm_needs_checkpoint := (bm_needs_checkpoint M1 \<or> be_height t + 1 > BE_E)\<rparr>) })"

definition be_merge_finish ::
    "be_node \<Rightarrow> u32 \<Rightarrow> addr list \<Rightarrow> u64 list \<Rightarrow> be_merge_state \<Rightarrow> (addr \<times> addr \<times> u64) \<times> be_merge_state" where
  "be_merge_finish t version children ks M =
     (let n = length children; h = n div 2 in
      if be_type t = BOUNDARY \<or> n \<le> 2 * BT_B
      then let (a, M1) = be_internal_like t version children ks M in ((a, nullptr, 0), M1)
      else let (l, M1) = be_internal_like t version (take h children) (take (h - 1) ks) M;
               (r, M2) = be_internal_like t version (drop h children) (drop h ks) M1
           in ((l, r, ks ! (h - 1)), M2))"

text \<open>What a node takes from a merged child, by its own type.\<close>

definition be_collect ::
    "be_type \<Rightarrow> u32 \<Rightarrow> addr \<Rightarrow> addr \<times> addr \<times> u64 \<Rightarrow> u64 option \<Rightarrow> addr list \<times> u64 list \<Rightarrow> be_merge_state
      \<Rightarrow> ((addr list \<times> u64 list) \<times> be_merge_state) option" where
  "be_collect type version old child bound acc M =
     (case child of (l, r, sep) \<Rightarrow>
        let above = (case bound of None \<Rightarrow> [] | Some k \<Rightarrow> [k]) in
        if type = BOUNDARY \<and> r \<noteq> nullptr
        then do {
          (a, M1) \<leftarrow> be_elastic_parent old (l, r, sep) version M;
          Some ((fst acc @ [a], snd acc @ above), M1) }
        else Some ((fst acc @ (if r = nullptr then [l] else [l, r]),
                    snd acc @ (if r = nullptr then [] else [sep]) @ above), M))"

fun be_merge ::
    "nat \<Rightarrow> u32 \<Rightarrow> addr \<Rightarrow> be_change list \<Rightarrow> be_merge_state \<Rightarrow>
      (merge_error + (addr \<times> addr \<times> u64) \<times> be_merge_state) option"
  and be_merge_children ::
    "nat \<Rightarrow> be_type \<Rightarrow> u32 \<Rightarrow> addr list \<Rightarrow> u64 list \<Rightarrow> be_change list \<Rightarrow> addr list \<times> u64 list \<Rightarrow> be_merge_state \<Rightarrow>
      (merge_error + (addr list \<times> u64 list) \<times> be_merge_state) option" where
  "be_merge 0 version old cs M = None"
| "be_merge (Suc f) version old cs M =
     (if cs = [] then Some (Inr ((old, nullptr, 0), M))
      else case cells (ms_store M) old of
        None \<Rightarrow> None
      | Some t \<Rightarrow>
          if be_type t = BELEAF
          then (case cs of
                  [c] \<Rightarrow> if ch_old c = old
                         then Some (Inr ((ch_left c, ch_right c, ch_sep c), M\<lparr>ms_retired := ms_retired M @ [old]\<rparr>))
                         else Some (Inl STALE)
                | _ \<Rightarrow> Some (Inl STALE))
          else (case be_merge_children f (be_type t) version (be_chs t) (be_keys t) cs ([], []) M of
                  None \<Rightarrow> None
                | Some (Inl e) \<Rightarrow> Some (Inl e)
                | Some (Inr ((children, ks), M1)) \<Rightarrow>
                    Some (Inr (be_merge_finish t version children ks (M1\<lparr>ms_retired := ms_retired M1 @ [old]\<rparr>)))))"
| "be_merge_children f type version [] ks cs acc M = Some (Inr (acc, M))"
| "be_merge_children f type version (a # as) ks cs acc M =
     (let bound = (if as = [] \<or> ks = [] then None else Some (hd ks));
          (here, rest) = route_span (if ks = [] then None else Some (hd ks)) cs in
      case be_merge f version a here M of
        None \<Rightarrow> None
      | Some (Inl e) \<Rightarrow> Some (Inl e)
      | Some (Inr (child, M1)) \<Rightarrow>
          (case be_collect type version a child bound acc M1 of
             None \<Rightarrow> None
           | Some (acc', M2) \<Rightarrow> be_merge_children f type version as (tl ks) rest acc' M2))"

text \<open>
  \<open>build\<close> returns the root, the tree that a rebuild replaced (null if none) and the merge state. A root that
  split gets a new one above it; a leaf that split becomes a boundary.
\<close>

definition be_new_top ::
    "addr \<Rightarrow> addr \<times> addr \<times> u64 \<Rightarrow> u32 \<Rightarrow> be_merge_state \<Rightarrow> (addr \<times> be_merge_state) option" where
  "be_new_top old child version M =
     (case child of (l, r, sep) \<Rightarrow>
        if r = nullptr then Some (l, M)
        else do {
          t \<leftarrow> cells (ms_store M) old;
          let (a, M1) = be_internal_like t version [l, r] [sep] M;
          p \<leftarrow> cells (ms_store M1) a;
          s \<leftarrow> put a (if be_type t = BELEAF then p\<lparr>be_type := BOUNDARY, be_height := 0\<rparr>
                     else p\<lparr>be_height := be_height t + 1\<rparr>) (ms_store M1);
          Some (a, M1\<lparr>ms_store := s\<rparr>) })"

definition be_merge_build ::
    "nat \<Rightarrow> addr \<Rightarrow> be_change list \<Rightarrow> u32 \<Rightarrow> be_store \<Rightarrow> (merge_error + addr \<times> addr \<times> be_merge_state) option" where
  "be_merge_build f old changes version s =
     (case be_merge f version old (sort_key ch_route changes)
             \<lparr>ms_store = s, ms_allocated = [], ms_retired = [], bm_needs_checkpoint = False\<rparr> of
        None \<Rightarrow> None
      | Some (Inl e) \<Rightarrow> Some (Inl e)
      | Some (Inr (child, M)) \<Rightarrow> do {
          (root, M1) \<leftarrow> be_new_top old child version M;
          if bm_needs_checkpoint M1
          then do {
            t \<leftarrow> cells (ms_store M1) root;
            (new, s1) \<leftarrow> be_rebuild f root (be_verge t) (ucast version) (ms_store M1);
            Some (Inr (new, root, M1\<lparr>ms_store := s1\<rparr>)) }
          else Some (Inr (root, nullptr, M1)) })"

section \<open>The hooks of the ordered-wave controller\<close>

definition be_concurrent_fat_available :: "be_store \<Rightarrow> addr \<Rightarrow> nat \<Rightarrow> nat option" where
  "be_concurrent_fat_available s a slots = do {
     t \<leftarrow> cells s a;
     Some (case be_leaf_delta t of
             None \<Rightarrow> slots
           | Some b \<Rightarrow> if db_capacity b = slots then slots - db_count b else 0) }"

definition be_concurrent_fat_target :: "be_store \<Rightarrow> addr \<Rightarrow> u64 \<Rightarrow> addr option" where
  "be_concurrent_fat_target s root key = be_descend s root key"

text \<open>The BeTree walks and rebuilds whole trees with the fuel \<open>f\<close>; its merge can replace the tree by a rebuilt one.\<close>

definition be_fat_hooks :: "nat \<Rightarrow> (addr \<Rightarrow> u64) \<Rightarrow> (unit be_ctx_ext, be_store, be_change) fat_hooks" where
  "be_fat_hooks f address =
     \<lparr>fh_address = address,
      fh_target = be_concurrent_fat_target,
      fh_available = be_concurrent_fat_available,
      fh_append = be_append_leaf_delta,
      fh_prepare = (\<lambda>leaf version key val s. be_prepare_fat_leaf leaf (ucast version) key val s),
      fh_merge = (\<lambda>root cs version s.
        map_option (\<lambda>r. case r of
            Inl e \<Rightarrow> Inl BAD_MERGE
          | Inr (a, t_past, M) \<Rightarrow>
              Inr (\<lparr>mg_root = a, mg_t_past = t_past, mg_retired = ms_retired M, mg_rebuilt = bm_needs_checkpoint M\<rparr>,
                ms_store M))
          (be_merge_build f root cs version s)),
      fh_begin = be_concurrent_fat_cow_begin,
      fh_handlers = be_handlers,
      fh_checkpoint = be_checkpoint_handler f,
      fh_free = be_free_node,
      fh_free_checkpoint = be_free_checkpoint f,
      fh_node_size = (\<lambda>s a. case cells s a of None \<Rightarrow> 0 | Some t \<Rightarrow> of_nat (be_node_size t)),
      fh_stats = Some (\<lambda>s a. case be_checkpoint_retired_stats f s a of
        None \<Rightarrow> (0, 0) | Some (n, bytes) \<Rightarrow> (of_nat n, of_nat bytes))\<rparr>"

end
