(* ===== verification/BE_Wave.thy ===== *)
theory BE_Wave
  imports BE_Merge Wave_Tree
begin

text \<open>
  The BeTree under the ordered-wave controller: its leaves obey the laws of \<open>wave_leaves\<close>, so a wave of appends
  executed by the worker pool is the sequence of its appends in ticket order.
\<close>

section \<open>The leaves obey the laws\<close>

definition be_op_fits :: "nat \<Rightarrow> be_store \<Rightarrow> leaf_op \<Rightarrow> bool" where
  "be_op_fits slots s x \<longleftrightarrow>
     supported_fat_slots slots \<and> (\<exists>t. cells s (fst x) = Some t \<and> be_type t = BELEAF)"

definition be_leaf_block :: "nat \<Rightarrow> be_node \<Rightarrow> delta_block" where
  "be_leaf_block slots t = (case be_delta t of None \<Rightarrow> new_delta_block slots | Some b \<Rightarrow> b)"

lemma be_leaf_op_Some:
  "leaf_append_op (be_fat_hooks f address) slots x s = Some (True, s') \<longleftrightarrow>
     supported_fat_slots slots \<and> (\<exists>t b. cells s (fst x) = Some t \<and> be_type t = BELEAF \<and>
       delta_append slots (fop_ticket (snd x)) (fop_key (snd x)) (fop_value (snd x)) (be_leaf_block slots t) = Some b \<and>
       s' = s\<lparr>cells := (cells s)(fst x \<mapsto> t\<lparr>be_delta := Some b\<rparr>)\<rparr>)"
proof (cases "cells s (fst x)")
  case None
  then show ?thesis by (simp add: leaf_append_op_def be_fat_hooks_def be_append_leaf_delta_def)
next
  case (Some t)
  then show ?thesis
    by (cases "delta_append slots (fop_ticket (snd x)) (fop_key (snd x)) (fop_value (snd x)) (be_leaf_block slots t)")
      (auto simp: leaf_append_op_def be_fat_hooks_def be_append_leaf_delta_def be_leaf_block_def be_leaf_delta_def
        be_publish_leaf_delta_def put_Some Let_def split: if_splits)
qed

text \<open>The room that a node reports.\<close>

definition be_node_room :: "be_node \<Rightarrow> nat \<Rightarrow> nat" where
  "be_node_room t slots =
     (case be_leaf_delta t of None \<Rightarrow> slots | Some b \<Rightarrow> if db_capacity b = slots then slots - db_count b else 0)"

lemma be_available:
  "fh_available (be_fat_hooks f address) s a slots = map_option (\<lambda>t. be_node_room t slots) (cells s a)"
  by (cases "cells s a") (simp_all add: be_fat_hooks_def be_concurrent_fat_available_def be_node_room_def)

lemma be_leaf_room_after:
  assumes "delta_append slots v k x (be_leaf_block slots t) = Some b" "be_type t = BELEAF"
  shows "Suc (be_node_room (t\<lparr>be_delta := Some b\<rparr>) slots) = be_node_room t slots"
  using assms
  by (auto simp: delta_append_def be_leaf_block_def be_node_room_def be_leaf_delta_def new_delta_block_def
      split: option.splits if_splits)

interpretation be_leaves: wave_leaves "be_fat_hooks f address" slots "be_op_fits slots" for f address slots
proof (unfold_locales, goal_cases)
  case (1 s x n)
  then obtain t where t: "cells s (fst x) = Some t" "be_type t = BELEAF" "supported_fat_slots slots"
    "be_node_room t slots = Suc n"
    by (auto simp: be_op_fits_def be_available)
  then have "delta_append slots (fop_ticket (snd x)) (fop_key (snd x)) (fop_value (snd x)) (be_leaf_block slots t) \<noteq> None"
    by (cases "be_delta t")
      (auto simp: delta_append_def be_leaf_block_def be_node_room_def be_leaf_delta_def new_delta_block_def split: if_splits)
  then obtain b where b: "delta_append slots (fop_ticket (snd x)) (fop_key (snd x)) (fop_value (snd x)) (be_leaf_block slots t) = Some b"
    by blast
  then show ?case using t be_leaf_room_after [OF b t(2)] unfolding be_leaf_op_Some be_available
    by (intro exI [of _ "s\<lparr>cells := (cells s)(fst x \<mapsto> t\<lparr>be_delta := Some b\<rparr>)\<rparr>"]) auto
next
  case (2 s x s' l)
  then show ?case unfolding be_leaf_op_Some be_available by auto
next
  case (3 s x s' y)
  then show ?case unfolding be_leaf_op_Some by (auto simp: be_op_fits_def)
next
  case (4 s x y s1 s2)
  then show ?case unfolding be_leaf_op_Some by (auto simp: fun_upd_twist)
qed

section \<open>A wave\<close>

text \<open>A descent ends at a leaf or not at all.\<close>

lemma be_descend_leaf: "be_descend s a k = Some l \<Longrightarrow> \<exists>t. cells s l = Some t \<and> be_type t = BELEAF"
proof (induction s a k l rule: be_descend.raw_induct [rotated, consumes 1, case_names step])
  case (step be_descend s a k l)
  then show ?case by (auto split: option.splits if_splits)
qed

definition be_reachable :: "be_store \<Rightarrow> addr \<Rightarrow> u64 \<Rightarrow> bool" where
  "be_reachable s root k \<longleftrightarrow> be_descend s root k \<noteq> None"

lemma be_hooks_answer:
  "\<forall>op \<in> set ops. be_reachable s root (fop_key op) \<Longrightarrow> hooks_answer (be_fat_hooks f address) slots root s ops"
  unfolding hooks_answer_def be_reachable_def be_available
  by (fastforce dest: be_descend_leaf simp: be_fat_hooks_def be_concurrent_fat_target_def)

text \<open>
  C36: a wave of appends on a BeTree in which the descents of its keys end. Whatever the interleaving of the
  worker pool on the planned groups, no worker finds its reserved room gone; and when all are done, the store
  is the one that the appends leave when they are made one by one in ticket order.
\<close>

theorem be_wave_ordered:
  fixes batch :: "wtask list" and address :: "addr \<Rightarrow> u64"
  defines "ops \<equiv> map tk_op batch"
  assumes store: "store_ok s" "\<forall>op \<in> set ops. be_reachable s root (fop_key op)" and slots: "supported_fat_slots slots"
    and size: "m < 64" "length batch - first \<le> 2 ^ m" "first \<le> length batch"
    and plan: "plan_wave (be_fat_hooks f address) slots False root s (2 ^ m) first batch = Some (pos, batch', groups, table)"
    and pool: "pool_idle workers p0" "0 < workers"
    and reach: "pool_reach (be_fat_hooks f address) slots workers batch' (start_wave workers groups s p0) p"
  shows "pl_failure p = None \<and>
    (pl_remaining p = 0 \<longrightarrow>
      append_all (be_fat_hooks f address) slots
        (map (\<lambda>op. (the (be_descend s root (fop_key op)), op)) (drop first (take pos ops))) s = Some (pl_store p))"
proof -
  let ?I = "be_fat_hooks f address" let ?now = "drop first (take pos ops)"
  note answer = be_hooks_answer [OF store(2), of f address slots]
  have planned: "wave_planned ?I slots False root s ops first pos batch' groups"
    using plan_wave_total [OF size(1,2,3) answer [unfolded ops_def], of False] plan unfolding ops_def by auto
  then have range: "first \<le> pos" "pos \<le> length ops" unfolding wave_planned_def Let_def by blast+
  have now: "?now = map ((!) ops) [first ..< pos]" using range by (intro nth_equalityI) simp_all
  have null: "leaf_room ?I slots s nullptr = 0" using store(1) by (simp add: leaf_room_def be_available store_ok_def)
  have target: "op_target ?I root s ops q = (the (be_descend s root (fop_key (ops ! q))), fop_key (ops ! q))" for q
    by (simp add: op_target_def be_fat_hooks_def be_concurrent_fat_target_def)
  have fit: "be_op_fits slots s (fst (op_target ?I root s ops q), ops ! q)" if "first \<le> q" "q < pos" for q
  proof -
    have "ops ! q \<in> set ops" using that range by simp
    then show ?thesis using store(2) slots be_descend_leaf [of s root "fop_key (ops ! q)"]
      by (auto simp: target be_op_fits_def be_reachable_def)
  qed
  have "pl_failure p = None"
    by (rule be_leaves.planned_wave_store(1) [OF planned null answer pool(1) _ reach]) (rule fit)
  moreover have "append_all ?I slots (map (\<lambda>q. (fst (op_target ?I root s ops q), ops ! q)) [first ..< pos]) s = Some (pl_store p)"
    if "pl_remaining p = 0"
    by (rule be_leaves.planned_wave_store(2) [OF planned null answer pool(1) _ reach that pool(2)]) (rule fit)
  ultimately show ?thesis unfolding now by (simp add: target comp_def)
qed

text \<open>Two leaves below a boundary node, an update for each, two workers that finish in the opposite order.\<close>

definition be_ex_root :: be_node where
  "be_ex_root = (be_new_internal 0 1)\<lparr>be_type := BOUNDARY, be_keys := [50], be_chs := [2, 3]\<rparr>"

definition be_ex_leaf :: "u64 \<Rightarrow> be_node" where
  "be_ex_leaf k = (be_new_leaf 0 1)\<lparr>be_keys := [k], be_vals := [k]\<rparr>"

definition be_ex_store :: be_store where
  "be_ex_store = \<lparr>cells = [1 \<mapsto> be_ex_root, 2 \<mapsto> be_ex_leaf 5, 3 \<mapsto> be_ex_leaf 70], brk = 4\<rparr>"

definition be_ex_batch :: "wtask list" where
  "be_ex_batch =
     [\<lparr>tk_op = \<lparr>fop_ticket = 1, fop_key = 60, fop_value = 600\<rparr>, tk_next = None\<rparr>,
      \<lparr>tk_op = \<lparr>fop_ticket = 2, fop_key = 10, fop_value = 100\<rparr>, tk_next = None\<rparr>]"

definition be_ex_groups :: "be_change wgroup list" where
  "be_ex_groups =
     [\<lparr>gr_leaf = 3, gr_first = 0, gr_last = 0, gr_count = 1, gr_materialize = False, gr_replacement = None\<rparr>,
      \<lparr>gr_leaf = 2, gr_first = 1, gr_last = 1, gr_count = 1, gr_materialize = False, gr_replacement = None\<rparr>]"

definition be_ex_pool :: "(be_store, be_change) pool" where
  "be_ex_pool = \<lparr>pl_store = be_ex_store, pl_groups = [], pl_generation = 0, pl_remaining = 0, pl_next = 0,
     pl_seen = (\<lambda>_. 0), pl_phase = (\<lambda>_. WK_WAIT), pl_failure = None\<rparr>"

definition be_ex_acts :: "wk_act list" where
  "be_ex_acts = [Wake 0, Claim 0, Wake 1, Claim 1, Exec 1, Exec 1, Exec 0, Claim 1, Exec 0, Leave 1, Claim 0, Leave 0]"

lemma be_ex_cells [simp]:
  "cells be_ex_store 1 = Some be_ex_root" "cells be_ex_store 2 = Some (be_ex_leaf 5)" "cells be_ex_store 3 = Some (be_ex_leaf 70)"
  "be_type be_ex_root = BOUNDARY" "be_keys be_ex_root = [50]" "be_chs be_ex_root = [2, 3]"
  "be_type (be_ex_leaf k) = BELEAF" "be_delta (be_ex_leaf k) = None"
  by (simp_all add: be_ex_store_def be_ex_root_def be_ex_leaf_def be_new_leaf_def be_new_node_def)

lemma be_ex_descend: "be_descend be_ex_store 1 k = Some (if k < 50 then 2 else 3)"
  by (subst be_descend.simps, subst be_descend.simps) (simp add: be_findch_def del: One_nat_def)

lemma be_ex_hooks:
  "fh_target (be_fat_hooks 1 of_nat) be_ex_store 1 60 = Some 3" "fh_target (be_fat_hooks 1 of_nat) be_ex_store 1 10 = Some 2"
  "fh_available (be_fat_hooks 1 of_nat) be_ex_store 2 2 = Some 2" "fh_available (be_fat_hooks 1 of_nat) be_ex_store 3 2 = Some 2"
  "fh_address (be_fat_hooks 1 of_nat) = of_nat" "wave_hash of_nat 2 k 4 = 0" "wave_hash of_nat 3 k 4 = 0"
proof -
  show "fh_target (be_fat_hooks 1 of_nat) be_ex_store 1 60 = Some 3" "fh_target (be_fat_hooks 1 of_nat) be_ex_store 1 10 = Some 2"
    by (simp_all add: be_fat_hooks_def be_concurrent_fat_target_def be_ex_descend del: One_nat_def)
qed (simp_all add: be_available be_node_room_def be_leaf_delta_def wave_hash_def drop_bit_eq_div,
  simp_all add: be_fat_hooks_def)

lemma be_ex_next: "next_slot 0 4 = 1"
  by (simp add: next_slot_def)

lemma be_ex_plan:
  "\<exists>table. plan_wave (be_fat_hooks 1 of_nat) 2 False 1 be_ex_store (2 ^ 2) 0 be_ex_batch =
     Some (2, be_ex_batch, be_ex_groups, table)"
proof -
  have table: "replicate (2 ^ 2) empty_bucket = [empty_bucket, empty_bucket, empty_bucket, empty_bucket]"
    by (simp add: eval_nat_numeral)
  have len: "length be_ex_batch - 0 = Suc (Suc 0)" by (simp add: be_ex_batch_def)
  let ?b = "\<lparr>bk_leaf = 3, bk_group = 0, bk_key = 60, bk_occupied = True\<rparr>" let ?e = "empty_bucket"
  let ?c = "\<lparr>bk_leaf = 2, bk_group = 1, bk_key = 10, bk_occupied = True\<rparr>"
  have p1: "plan_step (be_fat_hooks 1 of_nat) 2 False 1 be_ex_store 0 (be_ex_batch, [], [?e, ?e, ?e, ?e]) =
      Some (Some (be_ex_batch, [be_ex_groups ! 0], [?b, ?e, ?e, ?e]))"
    using be_ex_hooks
    by (simp add: plan_step_def be_ex_batch_def be_ex_groups_def empty_bucket_def Let_def numeral_eq_Suc)
  have p2: "plan_step (be_fat_hooks 1 of_nat) 2 False 1 be_ex_store (Suc 0) (be_ex_batch, [be_ex_groups ! 0], [?b, ?e, ?e, ?e]) =
      Some (Some (be_ex_batch, be_ex_groups, [?b, ?c, ?e, ?e]))"
    using be_ex_hooks be_ex_next
    by (simp add: plan_step_def be_ex_batch_def be_ex_groups_def bk_other_def empty_bucket_def Let_def numeral_eq_Suc)
  show ?thesis unfolding plan_wave_def table len plan_loop.simps p1 option.case p2 by (simp add: numeral_2_eq_2)
qed

theorem be_wave_ordered_witness:
  "\<exists>p. pool_run (be_fat_hooks 1 of_nat) 2 2 be_ex_batch be_ex_acts (start_wave 2 be_ex_groups be_ex_store be_ex_pool) = Some p \<and>
    pl_remaining p = 0 \<and>
    append_all (be_fat_hooks 1 of_nat) 2 [(3, tk_op (be_ex_batch ! 0)), (2, tk_op (be_ex_batch ! 1))] be_ex_store = Some (pl_store p)"
proof -
  let ?start = "start_wave 2 be_ex_groups be_ex_store be_ex_pool"
  obtain p where run: "pool_run (be_fat_hooks 1 of_nat) 2 2 be_ex_batch be_ex_acts ?start = Some p" "pl_remaining p = 0"
    by (simp add: start_wave_def be_ex_pool_def be_ex_groups_def be_ex_batch_def be_ex_acts_def group_step_def
        be_fat_hooks_def be_append_leaf_delta_def supported_fat_slots_def be_leaf_delta_def be_publish_leaf_delta_def
        new_delta_block_def delta_append_def put_Some Let_def)
  have reach: "pool_reach (be_fat_hooks 1 of_nat) 2 2 be_ex_batch ?start p"
    by (rule pool_run_reach [OF pool_reach.start run(1)])
  obtain table where plan: "plan_wave (be_fat_hooks 1 of_nat) 2 False 1 be_ex_store (2 ^ 2) 0 be_ex_batch =
      Some (2, be_ex_batch, be_ex_groups, table)"
    using be_ex_plan by blast
  have ok: "store_ok be_ex_store" by (auto simp: store_ok_def be_ex_store_def)
  have reachable: "\<forall>op \<in> set (map tk_op be_ex_batch). be_reachable be_ex_store 1 (fop_key op)"
    by (simp add: be_reachable_def be_ex_descend del: One_nat_def)
  have sup: "supported_fat_slots 2" by (simp add: supported_fat_slots_def)
  have len: "(2 :: nat) < 64" "length be_ex_batch - 0 \<le> 2 ^ 2" "0 \<le> length be_ex_batch" by (simp_all add: be_ex_batch_def)
  have idle: "pool_idle 2 be_ex_pool" "(0 :: nat) < 2" by (simp_all add: pool_idle_def be_ex_pool_def)
  have ops: "map (\<lambda>op. (the (be_descend be_ex_store 1 (fop_key op)), op)) (drop 0 (take 2 (map tk_op be_ex_batch))) =
      [(3, tk_op (be_ex_batch ! 0)), (2, tk_op (be_ex_batch ! 1))]"
    unfolding be_ex_batch_def by (simp add: be_ex_descend del: One_nat_def)
  show ?thesis using be_wave_ordered [OF ok reachable sup len plan idle reach] run unfolding ops by blast
qed

end
