(* ===== verification/AERT_Merge.thy ===== *)
theory AERT_Merge
  imports AERT_Cow ART_Wave
begin

text \<open>
  The merge of a wave into the AERT (\<^verbatim>\<open>lib/trees/aert/fat_merge.hpp\<close>) and the hooks of \<^verbatim>\<open>src/adapters/aert.hpp\<close> for
  the ordered-wave controller. Depths are in bits. A tagged edge stands for one branch of four bits: the merge
  keeps it while all keys follow it and turns it into a half-byte node when they part.
\<close>

section \<open>Replacements\<close>

text \<open>A replacement has the fields of the ART's (\<open>art_change\<close>); it holds pointers without a tag.\<close>

definition aert_prepare_fat_leaf :: "addr \<Rightarrow> u64 \<Rightarrow> u64 \<Rightarrow> u64 \<Rightarrow> aert_store \<Rightarrow> (art_change \<times> aert_store) option" where
  "aert_prepare_fat_leaf old version key val s = do {
     (a, s1) \<leftarrow> aert_new_leaf version 0 key val s;
     Some (\<lparr>ac_old = extract_ptr old, ac_route = key, ac_value = a\<rparr>, s1) }"

section \<open>New nodes\<close>

definition aert_own :: "aert_node \<Rightarrow> aert_store merge_state \<Rightarrow> addr \<times> aert_store merge_state" where
  "aert_own t M =
     (let (a, s) = aert_alloc t (ms_store M) in (a, M\<lparr>ms_store := s, ms_allocated := ms_allocated M @ [a]\<rparr>))"

text \<open>The first bit from \<open>depth\<close> on in which two keys differ, 64 if there is none.\<close>

definition aert_common :: "u64 \<Rightarrow> u64 \<Rightarrow> nat \<Rightarrow> nat" where
  "aert_common a b depth =
     (if depth = 64 then 64
      else let d = push_bit depth (a XOR b) in if d = 0 then 64 else depth + clz64 d)"

definition aert_clone :: "addr \<Rightarrow> nat \<Rightarrow> u64 \<Rightarrow> aert_store merge_state \<Rightarrow> (addr \<times> aert_store merge_state) option" where
  "aert_clone old depth version M = do {
     t \<leftarrow> aert_ld (ms_store M) old;
     p \<leftarrow> (if en_type t = ELEAF then Some (aert_node_copy t version) else aert_copych (aert_node_copy t version) t);
     let len = en_ofs t + en_len t - depth;
     let p' = p\<lparr>en_len := len, en_ofs := depth,
                en_pfx := (if en_type t = ELEAF then en_pfx p else en_pfx p AND aert_prefix_mask depth len)\<rparr>;
     let (a, M1) = aert_own p' M;
     Some (a, M1\<lparr>ms_retired := ms_retired M1 @ [old]\<rparr>) }"

definition aert_children :: "aert_node \<Rightarrow> addr list option" where
  "aert_children t = those (map (\<lambda>k. aert_findch t (of_nat k)) [0..<2 ^ node_key_len (en_type t)])"

text \<open>Children in key order into a node without any.\<close>

fun aert_add_children :: "aert_node \<Rightarrow> nat \<Rightarrow> addr list \<Rightarrow> aert_node option" where
  "aert_add_children p k [] = Some p"
| "aert_add_children p k (c # cs) =
     (if c = nullptr then aert_add_children p (Suc k) cs
      else do {
        (i, p1) \<leftarrow> aert_append p (of_nat k);
        p2 \<leftarrow> aert_insertch p1 i c;
        aert_add_children p2 (Suc k) cs })"

text \<open>
  \<open>assemble\<close>: a byte with more than sixteen children becomes an upper half-byte node over lower ones, a lower
  half with one child a tag.
\<close>

definition live :: "addr list \<Rightarrow> nat" where
  "live cs = length (filter (\<lambda>c. c \<noteq> nullptr) cs)"

fun only_child :: "nat \<Rightarrow> addr list \<Rightarrow> addr" where
  "only_child l [] = nullptr"
| "only_child l (c # cs) = (if c \<noteq> nullptr then embed_ptr c (16 OR l) else only_child (Suc l) cs)"

fun aert_add_halves ::
    "u64 \<Rightarrow> nat \<Rightarrow> addr \<Rightarrow> nat \<Rightarrow> addr list list \<Rightarrow> aert_store merge_state \<Rightarrow> aert_store merge_state option" where
  "aert_add_halves version low upper h [] M = Some M"
| "aert_add_halves version low upper h (g # gs) M =
     (if live g = 0 then aert_add_halves version low upper (Suc h) gs M
      else do {
        (child, M1) \<leftarrow>
          (if live g = 1 then Some (only_child 0 g, M)
           else map_option (\<lambda>q. aert_own q M) (aert_add_children (aert_new_nodeh version (live g) low 0 0) 0 g));
        t \<leftarrow> aert_ld (ms_store M1) upper;
        (i, t1) \<leftarrow> aert_append t (of_nat h);
        t2 \<leftarrow> aert_insertch t1 i child;
        s \<leftarrow> aert_st upper t2 (ms_store M1);
        aert_add_halves version low upper (Suc h) gs (M1\<lparr>ms_store := s\<rparr>) })"

definition aert_assemble ::
    "u64 \<Rightarrow> nat \<Rightarrow> nat \<Rightarrow> nat \<Rightarrow> u64 \<Rightarrow> addr list \<Rightarrow> aert_store merge_state \<Rightarrow> (addr \<times> aert_store merge_state) option" where
  "aert_assemble version depth branch width key chs M =
     (if width = 8 \<and> live chs > 16
      then do {
        let halves = map (\<lambda>h. take 16 (drop (16 * h) chs)) [0..<16];
        let highs = length (filter (\<lambda>g. live g \<noteq> 0) halves);
        let (upper, M1) = aert_own (aert_new_nodeh version highs depth (branch - depth) key) M;
        M2 \<leftarrow> aert_add_halves version (branch + 4) upper 0 halves M1;
        Some (upper, M2) }
      else do {
        let type = (if width = 4 then if live chs \<le> 4 then ENODEH4 else ENODEH16
                    else if live chs \<le> 4 then ENODE4 else ENODE16);
        p \<leftarrow> aert_add_children ((aert_new_node version type depth (branch - depth) key)\<lparr>en_size := 0\<rparr>) 0 chs;
        Some (aert_own p M) })"

section \<open>The merge\<close>

definition route_part :: "nat \<Rightarrow> nat \<Rightarrow> art_change \<Rightarrow> u8" where
  "route_part branch width c = (case aert_partial_key (ac_route c) branch width of None \<Rightarrow> 0 | Some k \<Rightarrow> k)"

function part_runs :: "nat \<Rightarrow> nat \<Rightarrow> art_change list \<Rightarrow> (u8 \<times> art_change list) list" where
  "part_runs branch width [] = []"
| "part_runs branch width (c # cs) =
     (route_part branch width c, c # takeWhile (\<lambda>d. route_part branch width d = route_part branch width c) cs) #
     part_runs branch width (dropWhile (\<lambda>d. route_part branch width d = route_part branch width c) cs)"
  by pat_completeness auto
termination
  by (relation "measure (\<lambda>(b, w, cs). length cs)") (auto simp: less_Suc_eq_le length_dropWhile_le)

definition aert_fits :: "aert_node \<Rightarrow> (u8 \<times> art_change list) list \<Rightarrow> bool option" where
  "aert_fits t runs =
     (if en_type t = ENODEH16 then Some True
      else do {
        chs \<leftarrow> those (map (\<lambda>r. aert_findch t (fst r)) runs);
        Some (en_size t + length (filter (\<lambda>c. c = nullptr) chs) \<le>
               (if en_type t = ENODE4 \<or> en_type t = ENODEH4 then 4 else 16)) })"

text \<open>Where the keys of the changes and the old node part, at a byte from \<open>depth\<close> on.\<close>

definition aert_branch :: "aert_node option \<Rightarrow> art_change list \<Rightarrow> nat \<Rightarrow> nat" where
  "aert_branch old cs depth =
     (let at = (\<lambda>key. depth + (aert_common (ac_route (hd cs)) key depth - depth) div 8 * 8);
          b = at (ac_route (last cs))
      in case old of None \<Rightarrow> b | Some t \<Rightarrow> min (min b (en_ofs t + en_len t)) (at (en_pfx t)))"

definition aert_install :: "addr \<Rightarrow> art_change \<Rightarrow> nat \<Rightarrow> aert_store merge_state \<Rightarrow> (addr \<times> aert_store merge_state) option" where
  "aert_install old c depth M = do {
     p \<leftarrow> aert_ld (ms_store M) (ac_value c);
     s \<leftarrow> aert_st (ac_value c) (p\<lparr>en_ofs := depth, en_len := 64 - depth\<rparr>) (ms_store M);
     Some (ac_value c, M\<lparr>ms_store := s, ms_retired := ms_retired M @ (if old = nullptr then [] else [old])\<rparr>) }"

definition aert_place :: "addr \<Rightarrow> u8 \<Rightarrow> addr \<Rightarrow> addr \<Rightarrow> aert_store merge_state \<Rightarrow> aert_store merge_state option" where
  "aert_place p key previous child M = do {
     t \<leftarrow> aert_ld (ms_store M) p;
     t' \<leftarrow> (if previous \<noteq> nullptr
            then if aert_findidx t key = 0 then None else aert_setch t (aert_findidx t key - 1) child
            else do { (i, t1) \<leftarrow> aert_append t key; aert_insertch t1 i child });
     s \<leftarrow> aert_st p t' (ms_store M);
     Some (M\<lparr>ms_store := s\<rparr>) }"

text \<open>
  What \<open>merge\<close> does with an edge before it descends: it is done, it throws, all changes follow its four bits,
  it clones the node because the new children fit, or it collects the children for a new node.
\<close>

datatype aert_merge_plan =
    EP_DONE addr "aert_store merge_state"
  | EP_THROW merge_error
  | EP_FOLLOW addr nat
  | EP_FITS aert_node addr nat nat "aert_store merge_state"
  | EP_REBUILD bool addr nat nat "addr list"

definition aert_plan_nibble :: "addr \<Rightarrow> nat \<Rightarrow> art_change list \<Rightarrow> nat \<Rightarrow> aert_merge_plan option" where
  "aert_plan_nibble old tag cs depth = do {
     first \<leftarrow> aert_partial_key (ac_route (hd cs)) depth 4;
     final \<leftarrow> aert_partial_key (ac_route (last cs)) depth 4;
     let nib = (if tag \<noteq> 0 then tag mod 16 else unat first);
     Some (if unat first = nib \<and> unat final = nib then EP_FOLLOW old nib
           else EP_REBUILD False old depth 4
                  (if old = nullptr then replicate 16 nullptr else (replicate 16 nullptr)[nib := old])) }"

definition aert_plan_node ::
    "u64 \<Rightarrow> addr \<Rightarrow> aert_node option \<Rightarrow> art_change list \<Rightarrow> nat \<Rightarrow> aert_store merge_state \<Rightarrow> aert_merge_plan option" where
  "aert_plan_node version old node cs depth M = do {
     let branch = aert_branch node cs depth;
     if branch = 64
     then (if length cs \<noteq> 1 \<or> ac_old (hd cs) \<noteq> old then Some (EP_THROW STALE)
           else do { (a, M1) \<leftarrow> aert_install old (hd cs) depth M; Some (EP_DONE a M1) })
     else (case node of
             None \<Rightarrow> Some (EP_REBUILD False old branch 8 (replicate 256 nullptr))
           | Some t \<Rightarrow> do {
               let same = (en_type t \<noteq> ELEAF \<and> branch = en_ofs t + en_len t);
               let width = (if same then node_key_len (en_type t) else 8);
               fits \<leftarrow> (if same then aert_fits t (part_runs branch width cs) else Some False);
               if fits then do { (p, M1) \<leftarrow> aert_clone old depth version M; Some (EP_FITS t p branch width M1) }
               else if same then do { chs \<leftarrow> aert_children t; Some (EP_REBUILD True old branch width chs) }
               else do {
                 k \<leftarrow> aert_partial_key (en_pfx t) branch width;
                 Some (EP_REBUILD False old branch width ((replicate 256 nullptr)[unat k := old])) } }) }"

definition aert_plan_merge ::
    "u64 \<Rightarrow> addr \<Rightarrow> art_change list \<Rightarrow> nat \<Rightarrow> aert_store merge_state \<Rightarrow> aert_merge_plan option" where
  "aert_plan_merge version tagged cs depth M =
     (let (old, tag) = unembed_ptr tagged in do {
        node \<leftarrow> (if old = nullptr then Some None else map_option Some (aert_ld (ms_store M) old));
        if cs = []
        then (case node of
                None \<Rightarrow> Some (EP_DONE tagged M)
              | Some t \<Rightarrow>
                  if tag \<noteq> 0 \<or> en_ofs t = depth then Some (EP_DONE tagged M)
                  else do { (a, M1) \<leftarrow> aert_clone old depth version M; Some (EP_DONE a M1) })
        else if tag \<noteq> 0 \<or> old = nullptr \<and> depth mod 8 = 4 then aert_plan_nibble old tag cs depth
        else aert_plan_node version old node cs depth M })"

function (sequential) aert_merge ::
    "nat \<Rightarrow> u64 \<Rightarrow> addr \<Rightarrow> art_change list \<Rightarrow> nat \<Rightarrow> aert_store merge_state \<Rightarrow>
      (merge_error + addr \<times> aert_store merge_state) option"
  and aert_merge_runs ::
    "nat \<Rightarrow> u64 \<Rightarrow> aert_node \<Rightarrow> addr \<Rightarrow> nat \<Rightarrow> (u8 \<times> art_change list) list \<Rightarrow> aert_store merge_state \<Rightarrow>
      (merge_error + aert_store merge_state) option"
  and aert_merge_slots ::
    "nat \<Rightarrow> u64 \<Rightarrow> nat \<Rightarrow> nat \<Rightarrow> nat \<Rightarrow> addr list \<Rightarrow> art_change list \<Rightarrow> addr list \<Rightarrow> aert_store merge_state \<Rightarrow>
      (merge_error + addr list \<times> aert_store merge_state) option" where
  "aert_merge 0 version tagged cs depth M = None"
| "aert_merge (Suc f) version tagged cs depth M =
     (case aert_plan_merge version tagged cs depth M of
        None \<Rightarrow> None
      | Some (EP_DONE a M1) \<Rightarrow> Some (Inr (a, M1))
      | Some (EP_THROW e) \<Rightarrow> Some (Inl e)
      | Some (EP_FOLLOW old nib) \<Rightarrow>
          (case aert_merge f version old cs (depth + 4) M of
             None \<Rightarrow> None
           | Some (Inl e) \<Rightarrow> Some (Inl e)
           | Some (Inr (a, M1)) \<Rightarrow> Some (Inr (embed_ptr a (16 OR nib), M1)))
      | Some (EP_FITS t p branch width M1) \<Rightarrow>
          (case aert_merge_runs f version t p (branch + width) (part_runs branch width cs) M1 of
             None \<Rightarrow> None
           | Some (Inl e) \<Rightarrow> Some (Inl e)
           | Some (Inr M2) \<Rightarrow> Some (Inr (p, M2)))
      | Some (EP_REBUILD same old branch width chs) \<Rightarrow>
          (case aert_merge_slots f version branch width 0 chs cs [] M of
             None \<Rightarrow> None
           | Some (Inl e) \<Rightarrow> Some (Inl e)
           | Some (Inr (chs', M1)) \<Rightarrow>
               map_option (\<lambda>(a, M2). Inr (a, M2\<lparr>ms_retired := ms_retired M2 @ (if same then [old] else [])\<rparr>))
                 (aert_assemble version depth branch width (ac_route (hd cs)) chs' M1)))"
| "aert_merge_runs f version node p below [] M = Some (Inr M)"
| "aert_merge_runs f version node p below (r # runs) M =
     (case aert_findch node (fst r) of
        None \<Rightarrow> None
      | Some previous \<Rightarrow>
          (case aert_merge f version previous (snd r) below M of
             None \<Rightarrow> None
           | Some (Inl e) \<Rightarrow> Some (Inl e)
           | Some (Inr (child, M1)) \<Rightarrow>
               (case aert_place p (fst r) previous child M1 of
                  None \<Rightarrow> None
                | Some M2 \<Rightarrow> aert_merge_runs f version node p below runs M2)))"
| "aert_merge_slots f version branch width k [] cs out M = Some (Inr (out, M))"
| "aert_merge_slots f version branch width k (c # chs) cs out M =
     (let run = takeWhile (\<lambda>d. route_part branch width d = of_nat k) cs;
          rest = dropWhile (\<lambda>d. route_part branch width d = of_nat k) cs
      in if c = nullptr \<and> run = []
      then aert_merge_slots f version branch width (Suc k) chs rest (out @ [c]) M
      else case aert_merge f version c run (branch + width) M of
             None \<Rightarrow> None
           | Some (Inl e) \<Rightarrow> Some (Inl e)
           | Some (Inr (c', M1)) \<Rightarrow> aert_merge_slots f version branch width (Suc k) chs rest (out @ [c']) M1)"
  by pat_completeness auto
termination
  by (relation "measures
    [\<lambda>x. case x of Inl (f, _) \<Rightarrow> 2 * f | Inr (Inl (f, _)) \<Rightarrow> 2 * f + 1 | Inr (Inr (f, _)) \<Rightarrow> 2 * f + 1,
     \<lambda>x. case x of Inl _ \<Rightarrow> 0 | Inr (Inl (f, _, _, _, _, rs, _)) \<Rightarrow> length rs | Inr (Inr (f, _, _, _, _, chs, _)) \<Rightarrow> length chs]")
    simp_all

text \<open>Every call moves the depth on by at least four bits, so 17 levels reach bit 64.\<close>

definition aert_merge_build :: "addr \<Rightarrow> art_change list \<Rightarrow> u32 \<Rightarrow> aert_store \<Rightarrow> (merge_error + addr \<times> aert_store merge_state) option" where
  "aert_merge_build old changes version s =
     aert_merge 18 (ucast version) old (sort_key ac_route changes) 0 \<lparr>ms_store = s, ms_allocated = [], ms_retired = []\<rparr>"

section \<open>The hooks\<close>

definition aert_concurrent_fat_target :: "aert_store \<Rightarrow> addr \<Rightarrow> u64 \<Rightarrow> addr option" where
  "aert_concurrent_fat_target s root key = aert_leaf_for s root key"

definition aert_concurrent_fat_available :: "aert_store \<Rightarrow> addr \<Rightarrow> nat \<Rightarrow> nat option" where
  "aert_concurrent_fat_available s p slots =
     (if p = nullptr \<or> slots = 0 then Some 0
      else do {
        t \<leftarrow> aert_ld s p;
        Some (if fat_used_count (en_fat t) \<le> slots then slots - fat_used_count (en_fat t) else 0) })"

definition aert_concurrent_fat_append ::
    "addr \<Rightarrow> nat \<Rightarrow> u64 \<Rightarrow> u64 \<Rightarrow> u64 \<Rightarrow> aert_store \<Rightarrow> (bool \<times> aert_store) option" where
  "aert_concurrent_fat_append p slots version key val s =
     (if p = nullptr then Some (False, s)
      else do {
        t \<leftarrow> aert_ld s p;
        if en_pfx t \<noteq> key then Some (False, s)
        else (case fat_append slots (ucast version) val (en_fat t) of
                None \<Rightarrow> Some (False, s)
              | Some v \<Rightarrow> do { s1 \<leftarrow> aert_st p (t\<lparr>en_fat := v\<rparr>) s; Some (True, s1) }) })"

definition aert_fat_hooks :: "(addr \<Rightarrow> u64) \<Rightarrow> (unit aert_ctx_ext, aert_store, art_change) fat_hooks" where
  "aert_fat_hooks address =
     \<lparr>fh_address = address,
      fh_target = aert_concurrent_fat_target,
      fh_available = aert_concurrent_fat_available,
      fh_append = aert_concurrent_fat_append,
      fh_prepare = aert_prepare_fat_leaf,
      fh_merge = (\<lambda>root cs version s.
        map_option (\<lambda>r. case r of
            Inl e \<Rightarrow> Inl BAD_MERGE
          | Inr (a, M) \<Rightarrow>
              Inr (\<lparr>mg_root = a, mg_t_past = nullptr, mg_retired = ms_retired M, mg_rebuilt = False\<rparr>, ms_store M))
          (aert_merge_build root cs version s)),
      fh_begin = aert_cow_begin,
      fh_handlers = aert_handlers,
      fh_checkpoint = (\<lambda>c s. Some (c, s)),
      fh_free = aert_free_node,
      fh_free_checkpoint = (\<lambda>a s. None),
      fh_node_size = (\<lambda>s a. case aert_node_size s a of None \<Rightarrow> 0 | Some n \<Rightarrow> of_nat n),
      fh_stats = None\<rparr>"

end
