(* ===== verification/Spec2Isabelle.thy ===== *)
theory Spec2Isabelle
  imports Dispatch BT_Seqcow BT_Build MPSC Wave_Tickets Concow_Safety Cyclic BT_Wave BE_Wave AERT_Merge
begin

text \<open>
  Contrees: in-memory ordered maps from 64-bit keys to 64-bit values whose updates copy the path from the root
  to the changed leaf, so that a query reads one immutable version while updates go on. This library models the
  C++ sources under \<^verbatim>\<open>src/lib\<close> and \<^verbatim>\<open>src/src/adapters\<close> (paths below are relative to \<^verbatim>\<open>src/\<close>) and proves
  what makes them correct.

  \<^bold>\<open>The program.\<close> Four trees (B+Tree \<^verbatim>\<open>lib/trees/btree\<close>, BeTree \<^verbatim>\<open>lib/trees/betree\<close>, adaptive radix tree
  \<^verbatim>\<open>lib/trees/art\<close>, adaptive radix tree with embedded pointer keys \<^verbatim>\<open>lib/trees/aert\<close>) are template arguments of
  four controllers (\<^verbatim>\<open>lib/conctrl\<close>: \<^verbatim>\<open>seqcow.hpp\<close>, \<^verbatim>\<open>concow.hpp\<close>, \<^verbatim>\<open>concow_cyclic.hpp\<close>, \<^verbatim>\<open>concow_fat.hpp\<close>). An update
  is a context (\<^verbatim>\<open>conctrl/context.hpp\<close>) in a ring: it gets a ticket, which is its version, and a chain of handlers
  of the tree runs on it, each naming the next one in the context. A finished update publishes a root and its
  version; nodes that it replaced are retired and freed when no reader is older (\<^verbatim>\<open>conctrl/reclamation.hpp\<close>). A fat
  leaf keeps a few versioned updates in place, so that most updates copy no path; a reader takes only those up
  to its version.

  \<^bold>\<open>Conventions.\<close> A pointer is a number (\<open>addr\<close>, 0 is null) into an explicit store (\<open>cells\<close>, with the bump
  allocator \<open>alloc\<close>, \<open>put\<close>, \<open>dealloc\<close>); \<open>None\<close> is an access the C++ does not define: a null or freed node, an
  index out of range, a negative shift. An array is the list of its live elements. Keys, values and versions
  are words of their width (\<open>u64\<close>, \<open>u32\<close>, \<open>u8\<close>; the retired counter wraps at 16 bits); exceptions are values of a
  sum. The trees' operations have the prefix of their namespace: \<open>bt_\<close>, \<open>be_\<close>, \<open>art_\<close>, \<open>aert_\<close>; the controllers'
  have \<open>seq_\<close>, \<open>cc_\<close>, \<open>cy_\<close>, \<open>cf_\<close>. Threads are interleaved atomic actions: one action is one access to shared
  state together with the local computation up to the next, and a run is a list of actions of any threads
  (\<open>seq_do\<close>, \<open>cc_do\<close>, \<open>cy_do\<close>, \<open>cf_do\<close>, \<open>mpsc_do\<close>, \<open>pool_do\<close>); so a theorem over all reachable states covers all
  schedules.

  \<^bold>\<open>Shared parts.\<close>
  \<^item> \<open>Prelude\<close>: words, options, lists, the store, the collections of hints. \<open>Array_Ops\<close>: \<^verbatim>\<open>common/arrayops.hpp\<close>.
  \<^item> \<open>Update_Context\<close>: \<^verbatim>\<open>conctrl/context.hpp\<close>, the context and its retirement list (drain returns what was recorded).
  \<^item> \<open>Fat_Value\<close>: \<^verbatim>\<open>common/fat_value.hpp\<close>, the history of a radix-tree leaf; an append is read back from its version
    on and changes no earlier read; when an append fails.
  \<^item> \<open>Leaf_Records\<close>, \<open>Delta_Block\<close>: collecting, sorting and thinning the records of a fat B+Tree or BeTree leaf, and
    its version buffer (\<^verbatim>\<open>btree/node.hpp\<close>).

  \<^bold>\<open>B+Tree.\<close>
  \<^item> \<open>BT_Node\<close>, \<open>BT_Query\<close>, \<open>BT_Cow\<close>, \<open>BT_Bulk\<close>: \<^verbatim>\<open>node.hpp\<close>, \<^verbatim>\<open>query.hpp\<close>, \<^verbatim>\<open>context.hpp\<close> with \<^verbatim>\<open>update_cow.hpp\<close> and
    \<^verbatim>\<open>handlers.hpp\<close>, and \<^verbatim>\<open>build.hpp\<close>, \<^verbatim>\<open>update_inplace.hpp\<close>, \<^verbatim>\<open>fat_merge.hpp\<close> with the fat hooks of the adapter.
  \<^item> \<open>BT_Tree\<close>: the abstraction \<open>bt_repr\<close> of a pointer to a datatype tree, the invariant \<open>bt_inv\<close>, the contents
    \<open>bt_contents u\<close> at a snapshot \<open>u\<close>; lookups and scans read exactly those.
  \<^item> \<open>BT_Leaf_Correct\<close>, \<open>BT_Restructure\<close>, \<open>BT_Cow_Correct\<close>, \<open>BT_Update_Correct\<close>, \<open>BT_Exec_Correct\<close>: leaf
    materialisation, changes below one node, the staged path copy, every shape of root, whole updates.
  \<^item> \<open>BT_Interface\<close>, \<open>BT_Properties\<close>, \<open>BT_Build\<close>: the promises of the tree (map update, invariant, snapshot isolation,
    retirement of exactly the nodes not shared, at most 22 levels) and the bulk build.

  \<^bold>\<open>Radix trees.\<close>
  \<^item> \<open>Radix_Base\<close>, \<open>ART_Node\<close>, \<open>ART_Cow\<close>: nodes of all size classes with the vectorised searches as the code has
    them, queries, handlers, in-place update and build.
  \<^item> \<open>ART_Bytes\<close>, \<open>ART_View\<close>, \<open>ART_Tree\<close>, \<open>ART_Update\<close>, \<open>ART_Exec\<close>: prefix comparison, a node as a map from bytes
    to children, the tree and its invariant, the path copy, whole updates.
  \<^item> \<open>AERT_Node\<close>, \<open>AERT_Cow\<close>: the tree whose pointers carry a tag of four key bits, with the same operations.
  \<^item> \<open>ART_Merge\<close>, \<open>AERT_Merge\<close>: \<^verbatim>\<open>fat_merge.hpp\<close> of both, the merge of a wave of new leaves.

  \<^bold>\<open>BeTree.\<close> \<open>BE_Node\<close>, \<open>BE_Cow\<close>, \<open>BE_Merge\<close>: nodes and queries; build, rebuild, checkpoints and handlers; in-place
  update, wave merge and hooks. Its upper part is pipelined, its elastic subtrees may grow unevenly until a
  checkpoint rebuilds the tree.

  \<^bold>\<open>Dispatch.\<close> The adapters' tables of sixteen handlers are \<open>bt_table\<close>, \<open>art_table\<close>, \<open>aert_table\<close> and \<open>be_table\<close>, a
  null pointer being \<open>None\<close>. \<open>Dispatch\<close>: the loop that a scheduler runs from \<open>handlers[0]\<close> calls no null entry.

  \<^bold>\<open>Reclamation and the sequential controller.\<close>
  \<^item> \<open>Reclamation\<close>, \<open>Reclaim_Protocol\<close>: \<^verbatim>\<open>conctrl/reclamation.hpp\<close>, pin, unpin, publication, retirement and scan as
    steps, with the invariant that a scan frees no batch that a pinned reader can reach.
  \<^item> \<open>Seqcow\<close>: \<^verbatim>\<open>conctrl/seqcow.hpp\<close>. \<open>Seqcow_Correct\<close>: the locale \<open>cow_tree\<close> states what a tree must promise and
    proves the controller under it; \<open>BT_Seqcow\<close> and \<open>ART_Seqcow\<close> are its interpretations on the two trees. A
    pinned reader sees exactly the map of the first \<open>version\<close> submitted updates, its tree survives every
    reclamation, and the worker commits what was submitted. These theorems are about fat-node mode
    (\<open>slots \<noteq> 0\<close>); in the default mode of the constructor a ticket may be executed before its context is
    filled, which \<open>BT_Seqcow\<close> shows on a run.

  \<^bold>\<open>Ordered waves\<close> (\<^verbatim>\<open>conctrl/concow_fat.hpp\<close>).
  \<^item> \<open>Wave\<close>: the hooks of a tree as the record \<open>fat_hooks\<close>, planning of a wave in a hash table, the worker pool.
    \<open>Wave_Plan\<close>: the plan is the partition by target leaf in ticket order within the room of each leaf.
  \<^item> \<open>Wave_Exec\<close>: the locale \<open>wave_leaves\<close> (appends to different leaves commute); every interleaving of the pool
    leaves the store of the appends in ticket order. \<open>Wave_Tree\<close>: the locale \<open>wave_tree\<close> adds that one append is a
    map update that older snapshots do not see, and concludes that a wave is its updates in ticket order.
    \<open>ART_Wave\<close>, \<open>BT_Wave\<close> and \<open>BE_Wave\<close> interpret them on the trees.
  \<^item> \<open>Wave_Control\<close>, \<open>Wave_Tickets\<close>: options, submission, coordinator, publication, queries, destructor; tickets
    fit 32 bits and the ring, an update waits exactly for room in the ring, batches are consecutive pieces of the
    accepted updates.

  \<^bold>\<open>Pipelines\<close> (\<^verbatim>\<open>conctrl/concow.hpp\<close>, \<^verbatim>\<open>conctrl/concow_cyclic.hpp\<close>).
  \<^item> \<open>MPSC\<close>: \<^verbatim>\<open>conctrl/mpsc_list.hpp\<close>, the list of idle workers: first in first out, a pop ends.
  \<^item> \<open>Pipeline\<close>: the ring, clients, workers and monitor that both share, over the record \<open>pipe_ops\<close> of a tree.
    \<open>Concow\<close>, \<open>Cyclic\<close>: their pipes, constructors, destructors and counters.
  \<^item> \<open>Pipeline_Ring\<close>, \<open>Concow_Correct\<close>: the locale \<open>pipe_tree\<close> (handlers keep number, key and value of their
    task) and the invariant of the ring; \<open>Pipe_Trees\<close> interprets it on all four trees.
    \<open>Concow_Safety\<close>: exclusive cells, frontiers ordered and within the ring, and, over runs with the history of
    calls and retirements, that the tickets are retired one by one in order, each with the update of its call;
    what the destructor guarantees, and that it can hang.

  \<^bold>\<open>Bounds and fuel.\<close> Recursion over a store has no measure, so it is a \<open>partial_function\<close> or takes fuel. The
  descents of the B+Tree, the radix trees and the planner are proved to return on well-formed trees. The fuel
  \<open>f\<close> of scans, merges, in-place updates and checkpoint walks bounds the height; \<open>BT_Interface\<close> proves 21 enough
  for a B+Tree, as \<open>B = 8\<close> and keys have 64 bits. A radix merge moves at least one byte (ART: fuel 10) or four
  bits (AERT: fuel 18) per level. The ring has \<open>BUFFER_SIZE = 65536\<close> cells; the last ticket is \<open>2^32 - 1\<close>.

  \<^bold>\<open>Not modelled.\<close> The driver \<^verbatim>\<open>src/main.cpp\<close>, \<^verbatim>\<open>src/config.hpp\<close>, \<^verbatim>\<open>bench/\<close>, \<^verbatim>\<open>ycsbc/\<close> and \<^verbatim>\<open>utils/\<close>: command line,
  timing, workload generation, printing. Of the modelled files: phase timers, thread naming and spin hints. Memory
  orderings are taken as sequentially consistent; filling a context and running one handler are one action
  each, so a torn read inside them is not in the model. The BeTree and the AERT are modelled in full, but
  only dispatch, pipelines and wave execution are proved for them, not the map they stand for; in-place updates and
  the merges of waves are modelled without a correctness proof.
\<close>

end
